(* ===== verification/Prelude.thy ===== *)
theory Prelude
  imports Main "HOL-Library.Word"
begin

unbundle bit_operations_syntax

text \<open>
  Shared vocabulary of the development: the outcome of a Rust function (a value, an
  \<open>Err\<close> or a panic), checked indexing and slicing of vectors, least-significant-bit-first
  bit lists and the exclusive-or laws of words that the MAC arguments use.
\<close>

section \<open>Outcomes of Rust functions\<close>

text \<open>
  \<open>Err e\<close> is a returned error value, \<open>Panic\<close> an aborted call (failed assertion, index out
  of range, arithmetic underflow of an unsigned index).
\<close>

datatype 'e fault = Err 'e | Panic

type_synonym ('e, 'a) result = "'e fault + 'a"

named_theorems result_simps \<open>evaluation of the outcome combinators\<close>
named_theorems xor_simps \<open>cancellation laws of exclusive or on words\<close>

definition bindR :: "'e + 'a \<Rightarrow> ('a \<Rightarrow> 'e + 'b) \<Rightarrow> 'e + 'b" where
  "bindR m f = (case m of Inl e \<Rightarrow> Inl e | Inr x \<Rightarrow> f x)"

lemma bindR_simps [simp]:
  "bindR (Inl e) f = Inl e"
  "bindR (Inr x) f = f x"
  by (simp_all add: bindR_def)

lemma bindR_eq_Inr [result_simps]:
  "bindR m f = Inr y \<longleftrightarrow> (\<exists>x. m = Inr x \<and> f x = Inr y)"
  by (cases m) auto

lemma bindR_eq_Inl [result_simps]:
  "bindR m f = Inl e \<longleftrightarrow> m = Inl e \<or> (\<exists>x. m = Inr x \<and> f x = Inl e)"
  by (cases m) auto

text \<open>The \<open>From\<close> conversions of error types that \<open>?\<close> inserts.\<close>

definition map_err :: "('e \<Rightarrow> 'f) \<Rightarrow> ('e, 'a) result \<Rightarrow> ('f, 'a) result" where
  "map_err g m = (case m of Inl (Err e) \<Rightarrow> Inl (Err (g e)) | Inl Panic \<Rightarrow> Inl Panic | Inr x \<Rightarrow> Inr x)"

lemma map_err_simps [simp]:
  "map_err g (Inr x) = Inr x"
  "map_err g (Inl (Err e)) = Inl (Err (g e))"
  "map_err g (Inl Panic) = Inl Panic"
  by (simp_all add: map_err_def)

lemma map_err_eq_Inr [simp]: "map_err g m = Inr x \<longleftrightarrow> m = Inr x"
  by (auto simp: map_err_def split: sum.splits fault.splits)

definition assertR :: "bool \<Rightarrow> ('e, unit) result" where
  "assertR b = (if b then Inr () else Inl Panic)"

lemma assertR_simps [simp]:
  "assertR True = Inr ()"
  "assertR False = Inl Panic"
  by (simp_all add: assertR_def)

lemma assertR_eq_Inr [result_simps]: "assertR b = Inr u \<longleftrightarrow> b"
  by (simp add: assertR_def)

section \<open>Vectors\<close>

text \<open>Indexing panics out of range, for reads, writes and sub-slices.\<close>

definition idx :: "'a list \<Rightarrow> nat \<Rightarrow> ('e, 'a) result" where
  "idx xs i = (if i < length xs then Inr (xs ! i) else Inl Panic)"

definition upd :: "'a list \<Rightarrow> nat \<Rightarrow> 'a \<Rightarrow> ('e, 'a list) result" where
  "upd xs i v = (if i < length xs then Inr (xs[i := v]) else Inl Panic)"

definition subslice :: "'a list \<Rightarrow> nat \<Rightarrow> nat \<Rightarrow> ('e, 'a list) result" where
  "subslice xs s e = (if s \<le> e \<and> e \<le> length xs then Inr (take (e - s) (drop s xs)) else Inl Panic)"

text \<open>\<open>xs[s..e].copy_from_slice(ys)\<close>: the lengths must agree.\<close>

definition copy_into :: "'a list \<Rightarrow> nat \<Rightarrow> nat \<Rightarrow> 'a list \<Rightarrow> ('e, 'a list) result" where
  "copy_into xs s e ys =
     (if s \<le> e \<and> e \<le> length xs \<and> length ys = e - s
      then Inr (take s xs @ ys @ drop e xs) else Inl Panic)"

text \<open>Unsigned subtraction with the overflow check of the debug profile.\<close>

definition usub :: "nat \<Rightarrow> nat \<Rightarrow> ('e, nat) result" where
  "usub a b = (if b \<le> a then Inr (a - b) else Inl Panic)"

lemma idx_ok [simp]: "i < length xs \<Longrightarrow> idx xs i = Inr (xs ! i)"
  by (simp add: idx_def)

lemma upd_ok [simp]: "i < length xs \<Longrightarrow> upd xs i v = Inr (xs[i := v])"
  by (simp add: upd_def)

lemma usub_ok [simp]: "b \<le> a \<Longrightarrow> usub a b = Inr (a - b)"
  by (simp add: usub_def)

lemma idx_eq_Inr [result_simps]: "idx xs i = Inr v \<longleftrightarrow> i < length xs \<and> v = xs ! i"
  by (auto simp: idx_def)

lemma upd_eq_Inr [result_simps]: "upd xs i v = Inr ys \<longleftrightarrow> i < length xs \<and> ys = xs[i := v]"
  by (auto simp: upd_def)

lemma usub_eq_Inr [result_simps]: "usub a b = Inr c \<longleftrightarrow> b \<le> a \<and> c = a - b"
  by (auto simp: usub_def)

lemma length_copy_into: "copy_into xs s e ys = Inr zs \<Longrightarrow> length zs = length xs"
  by (auto simp: copy_into_def split: if_splits)

lemma nth_copy_into:
  "copy_into xs s e ys = Inr zs \<Longrightarrow> i < length xs \<Longrightarrow>
   zs ! i = (if s \<le> i \<and> i < e then ys ! (i - s) else xs ! i)"
  by (auto simp: copy_into_def nth_append split: if_splits)

lemma nth_subslice:
  "subslice xs s e = Inr ys \<Longrightarrow> i < e - s \<Longrightarrow> ys ! i = xs ! (s + i)"
  by (auto simp: subslice_def split: if_splits)

lemma length_subslice: "subslice xs s e = Inr ys \<Longrightarrow> length ys = e - s"
  by (auto simp: subslice_def split: if_splits)

text \<open>A loop over a collection whose body may fail: \<open>iter().map(f).collect::<Result<_>>()\<close>.\<close>

fun mapR :: "('a \<Rightarrow> 'e + 'b) \<Rightarrow> 'a list \<Rightarrow> 'e + 'b list" where
  "mapR f [] = Inr []"
| "mapR f (x # xs) = bindR (f x) (\<lambda>y. bindR (mapR f xs) (\<lambda>ys. Inr (y # ys)))"

lemma mapR_ok: "(\<And>x. x \<in> set xs \<Longrightarrow> f x = Inr (g x)) \<Longrightarrow> mapR f xs = Inr (map g xs)"
  by (induction xs) auto

text \<open>The rows of a concatenation of rows of equal length.\<close>

lemma take_drop_concat:
  assumes "\<forall>xs \<in> set xss. length xs = n" "i < length xss"
  shows "take n (drop (n * i) (concat xss)) = xss ! i"
  using assms
proof (induction xss arbitrary: i)
  case (Cons xs xss)
  then show ?case by (cases i) simp_all
qed simp

lemma length_concat_rows: "\<forall>xs \<in> set xss. length xs = n \<Longrightarrow> length (concat xss) = n * length xss"
  by (induction xss) auto

text \<open>A \<open>for\<close> loop with an accumulator and early exit.\<close>

fun foldR :: "('a \<Rightarrow> 's \<Rightarrow> 'e + 's) \<Rightarrow> 'a list \<Rightarrow> 's \<Rightarrow> 'e + 's" where
  "foldR f [] s = Inr s"
| "foldR f (x # xs) s = bindR (f x s) (foldR f xs)"

lemma foldR_append: "foldR f (xs @ ys) s = bindR (foldR f xs s) (foldR f ys)"
proof (induction xs arbitrary: s)
  case (Cons x xs)
  then show ?case by (cases "f x s") auto
qed simp

section \<open>Bit lists, least significant bit first\<close>

definition nat_of_bits :: "bool list \<Rightarrow> nat" where
  "nat_of_bits bs = horner_sum of_bool 2 bs"

lemma nat_of_bits_simps [simp]:
  "nat_of_bits [] = 0"
  "nat_of_bits (b # bs) = of_bool b + 2 * nat_of_bits bs"
  by (simp_all add: nat_of_bits_def)

lemma nat_of_bits_lt: "nat_of_bits bs < 2 ^ length bs"
  by (induction bs) auto

lemma nat_of_bits_append:
  "nat_of_bits (xs @ ys) = nat_of_bits xs + 2 ^ length xs * nat_of_bits ys"
  by (induction xs) (auto simp: algebra_simps)

lemma nat_of_bits_inject:
  "length xs = length ys \<Longrightarrow> nat_of_bits xs = nat_of_bits ys \<Longrightarrow> xs = ys"
proof (induction xs ys rule: list_induct2)
  case (Cons x xs y ys)
  from Cons.prems have "(of_bool x :: nat) + 2 * nat_of_bits xs = of_bool y + 2 * nat_of_bits ys"
    by simp
  then have "x = y \<and> nat_of_bits xs = nat_of_bits ys"
    by (cases x; cases y) (auto, presburger+)
  with Cons.IH show ?case by simp
qed simp

lemma of_bool_plus_double_mod:
  fixes x m :: nat
  assumes "0 < m"
  shows "(of_bool s + 2 * x) mod (2 * m) = of_bool s + 2 * (x mod m)"
proof -
  define q r where "q = x div m" and "r = x mod m"
  have x: "x = q * m + r" and r: "r < m" using assms by (simp_all add: q_def r_def)
  have "of_bool s + 2 * x = (of_bool s + 2 * r) + q * (2 * m)"
    by (simp add: x algebra_simps)
  moreover have "of_bool s + 2 * r < 2 * m"
    using r by (cases s) auto
  ultimately show ?thesis unfolding r_def [symmetric] by (metis mod_less mod_mult_self1)
qed

text \<open>\<open>iter_lsb0\<close> and \<open>from_lsb0_iter\<close> of the unsigned integers.\<close>

definition to_lsb0 :: "'a::len word \<Rightarrow> bool list" where
  "to_lsb0 w = map (bit w) [0..<LENGTH('a)]"

definition from_lsb0 :: "bool list \<Rightarrow> 'a::len word" where
  "from_lsb0 bs = of_nat (nat_of_bits bs)"

lemma length_to_lsb0 [simp]: "length (to_lsb0 (w :: 'a::len word)) = LENGTH('a)"
  by (simp add: to_lsb0_def)

lemma nth_to_lsb0 [simp]: "i < LENGTH('a) \<Longrightarrow> to_lsb0 (w :: 'a::len word) ! i = bit w i"
  by (simp add: to_lsb0_def)

lemma nat_of_bits_to_lsb0: "nat_of_bits (to_lsb0 w) = unat w"
proof -
  have "horner_sum of_bool 2 (map (bit w) [0..<LENGTH('a)]) = (take_bit LENGTH('a) (unat w) :: nat)"
    for w :: "'a::len word"
    by (simp add: horner_sum_bit_eq_take_bit [symmetric] bit_simps cong: map_cong)
  then show ?thesis
    by (simp add: nat_of_bits_def to_lsb0_def take_bit_nat_eq_self)
qed

lemma from_to_lsb0 [simp]: "from_lsb0 (to_lsb0 w) = w"
  by (simp add: from_lsb0_def nat_of_bits_to_lsb0)

lemma to_lsb0_eqI:
  "length bs = LENGTH('a) \<Longrightarrow> nat_of_bits bs mod 2 ^ LENGTH('a) = unat (w :: 'a::len word) \<Longrightarrow>
   bs = to_lsb0 w"
  by (rule nat_of_bits_inject)
    (use nat_of_bits_lt [of bs] in \<open>auto simp: nat_of_bits_to_lsb0\<close>)

section \<open>Exclusive or\<close>

lemma word_xor_cancel [xor_simps]:
  fixes a b :: "'a::len word"
  shows "a XOR (a XOR b) = b" and "(b XOR a) XOR a = b" and "a XOR a = 0" and "(a XOR b) XOR a = b"
  by (auto intro: bit_word_eqI simp: bit_simps)

lemma word_xor_left_commute: "b XOR (a XOR c) = a XOR (b XOR c)" for a b c :: "'a::len word"
  by (simp add: xor.left_commute)

lemmas word_xor_ac = xor.assoc xor.commute word_xor_left_commute

text \<open>Scaling a block by a bit: \<open>SELECT_MASK[b] & delta\<close> and \<open>if b { delta } else { ZERO }\<close>.\<close>

definition scale :: "bool \<Rightarrow> 'a::len word \<Rightarrow> 'a word" where
  "scale b d = (if b then d else 0)"

lemma scale_simps [simp]: "scale True d = d" "scale False d = 0"
  by (simp_all add: scale_def)

lemma scale_xor: "scale (a \<noteq> b) d = scale a d XOR scale b d"
  by (cases a; cases b) simp_all

lemma scale_distrib: "scale b (x XOR y) = scale b x XOR scale b y"
  by (cases b) simp_all

text \<open>\<open>slice::chunks\<close>: the last chunk may be shorter.\<close>

function chunks :: "nat \<Rightarrow> 'a list \<Rightarrow> 'a list list" where
  "chunks n xs = (if n = 0 \<or> xs = [] then [] else take n xs # chunks n (drop n xs))"
  by pat_completeness auto
termination
  by (relation "measure (\<lambda>(n, xs). length xs)") (auto simp: length_greater_0_conv)

declare chunks.simps [simp del]

lemma chunks_empty [simp]: "chunks n [] = []" "chunks 0 xs = []"
  by (simp_all add: chunks.simps)

lemma chunks_step: "0 < n \<Longrightarrow> xs \<noteq> [] \<Longrightarrow> chunks n xs = take n xs # chunks n (drop n xs)"
  by (subst chunks.simps) simp

end
