(* ===== verification/Circuit.thy ===== *)
theory Circuit
  imports Prelude
begin

text \<open>
  Binary circuits (\<open>circuits-core/src/components.rs\<close> and \<open>circuit.rs\<close>): gates over wire
  identifiers, a circuit with its input and output ranges, and the plaintext evaluator.
  The evaluator works on a mutable vector of wires; \<open>run_gates\<close> is the reference semantics
  on environments that it refines. \<open>wf_circuit\<close> is the shape every built circuit has: each
  gate reads wires that are inputs or outputs of earlier gates.
\<close>

section \<open>Gates\<close>

type_synonym node = nat

datatype gate =
    Gate_Xor node node node
  | Gate_And node node node
  | Gate_Inv node node
  | Gate_Id node node

datatype GateType = Ty_Xor | Ty_And | Ty_Inv | Ty_Id

fun gate_type :: "gate \<Rightarrow> GateType" where
  "gate_type (Gate_Xor x y z) = Ty_Xor"
| "gate_type (Gate_And x y z) = Ty_And"
| "gate_type (Gate_Inv x z) = Ty_Inv"
| "gate_type (Gate_Id x z) = Ty_Id"

fun gate_x :: "gate \<Rightarrow> node" where
  "gate_x (Gate_Xor x y z) = x"
| "gate_x (Gate_And x y z) = x"
| "gate_x (Gate_Inv x z) = x"
| "gate_x (Gate_Id x z) = x"

fun gate_y :: "gate \<Rightarrow> node option" where
  "gate_y (Gate_Xor x y z) = Some y"
| "gate_y (Gate_And x y z) = Some y"
| "gate_y (Gate_Inv x z) = None"
| "gate_y (Gate_Id x z) = None"

fun gate_z :: "gate \<Rightarrow> node" where
  "gate_z (Gate_Xor x y z) = z"
| "gate_z (Gate_And x y z) = z"
| "gate_z (Gate_Inv x z) = z"
| "gate_z (Gate_Id x z) = z"

text \<open>\<open>Node::shift_left\<close> and \<open>Gate::shift_left\<close>: subtraction on every identifier.\<close>

definition node_shift_left :: "nat \<Rightarrow> node \<Rightarrow> ('e, node) result" where
  "node_shift_left off n = usub n off"

fun gate_shift_left :: "nat \<Rightarrow> gate \<Rightarrow> ('e, gate) result" where
  "gate_shift_left off (Gate_Xor x y z) =
     bindR (usub x off) (\<lambda>x. bindR (usub y off) (\<lambda>y. bindR (usub z off) (\<lambda>z. Inr (Gate_Xor x y z))))"
| "gate_shift_left off (Gate_And x y z) =
     bindR (usub x off) (\<lambda>x. bindR (usub y off) (\<lambda>y. bindR (usub z off) (\<lambda>z. Inr (Gate_And x y z))))"
| "gate_shift_left off (Gate_Inv x z) =
     bindR (usub x off) (\<lambda>x. bindR (usub z off) (\<lambda>z. Inr (Gate_Inv x z)))"
| "gate_shift_left off (Gate_Id x z) =
     bindR (usub x off) (\<lambda>x. bindR (usub z off) (\<lambda>z. Inr (Gate_Id x z)))"

section \<open>Circuits and their evaluation\<close>

datatype circuit_error =
    InvalidWireCount nat nat
  | InvalidInputLength nat nat
  | InvalidOutputLength nat nat

record circuit =
  inputs :: "nat \<times> nat"
  outputs :: "nat \<times> nat"
  gates :: "gate list"
  feed_count :: nat
  and_count :: nat
  xor_count :: nat

definition range_len :: "nat \<times> nat \<Rightarrow> nat" where
  "range_len r = snd r - fst r"

fun eval_gate :: "gate \<Rightarrow> bool list \<Rightarrow> (circuit_error, bool list) result" where
  "eval_gate (Gate_Xor x y z) wires =
     bindR (idx wires x) (\<lambda>x. bindR (idx wires y) (\<lambda>y. upd wires z (x \<noteq> y)))"
| "eval_gate (Gate_And x y z) wires =
     bindR (idx wires x) (\<lambda>x. bindR (idx wires y) (\<lambda>y. upd wires z (x \<and> y)))"
| "eval_gate (Gate_Inv x z) wires = bindR (idx wires x) (\<lambda>x. upd wires z (\<not> x))"
| "eval_gate (Gate_Id x z) wires = bindR (idx wires x) (\<lambda>x. upd wires z x)"

definition evaluate_raw :: "circuit \<Rightarrow> bool list \<Rightarrow> (circuit_error, bool list) result" where
  "evaluate_raw c wires =
     (if length wires \<noteq> feed_count c
      then Inl (Err (InvalidWireCount (feed_count c) (length wires)))
      else foldR eval_gate (gates c) wires)"

definition load_input ::
  "circuit \<Rightarrow> nat \<Rightarrow> bool list \<times> bool list \<Rightarrow> (circuit_error, bool list \<times> bool list) result" where
  "load_input c i st =
     (case st of (feeds, input) \<Rightarrow>
        (case input of
           [] \<Rightarrow> Inl (Err (InvalidInputLength (range_len (inputs c)) i))
         | value # rest \<Rightarrow> bindR (upd feeds i value) (\<lambda>feeds. Inr (feeds, rest))))"

definition evaluate :: "circuit \<Rightarrow> bool list \<Rightarrow> (circuit_error, bool list) result" where
  "evaluate c input =
     bindR (foldR (load_input c) [fst (inputs c)..<snd (inputs c)]
              (replicate (feed_count c) False, input))
       (\<lambda>(feeds, _). bindR (evaluate_raw c feeds)
          (\<lambda>feeds. subslice feeds (fst (outputs c)) (snd (outputs c))))"

section \<open>Reference semantics\<close>

type_synonym env = "node \<Rightarrow> bool"

fun gate_ops :: "gate \<Rightarrow> node list" where
  "gate_ops (Gate_Xor x y z) = [x, y]"
| "gate_ops (Gate_And x y z) = [x, y]"
| "gate_ops (Gate_Inv x z) = [x]"
| "gate_ops (Gate_Id x z) = [x]"

fun gate_sem :: "gate \<Rightarrow> env \<Rightarrow> bool" where
  "gate_sem (Gate_Xor x y z) e = (e x \<noteq> e y)"
| "gate_sem (Gate_And x y z) e = (e x \<and> e y)"
| "gate_sem (Gate_Inv x z) e = (\<not> e x)"
| "gate_sem (Gate_Id x z) e = e x"

fun run_gates :: "gate list \<Rightarrow> env \<Rightarrow> env" where
  "run_gates [] e = e"
| "run_gates (g # gs) e = run_gates gs (e(gate_z g := gate_sem g e))"

text \<open>
  \<open>gates_wf n D gs\<close>: with the wires \<open>D\<close> defined, every gate of \<open>gs\<close> reads defined wires and
  writes a wire below \<open>n\<close>, which is defined from then on.
\<close>

fun gates_wf :: "nat \<Rightarrow> node set \<Rightarrow> gate list \<Rightarrow> bool" where
  "gates_wf n D [] = True"
| "gates_wf n D (g # gs) =
     (set (gate_ops g) \<subseteq> D \<and> gate_z g < n \<and> gates_wf n (insert (gate_z g) D) gs)"

definition count_type :: "GateType \<Rightarrow> gate list \<Rightarrow> nat" where
  "count_type t gs = length (filter (\<lambda>g. gate_type g = t) gs)"

definition wf_circuit :: "circuit \<Rightarrow> bool" where
  "wf_circuit c \<longleftrightarrow>
     fst (inputs c) = 0 \<and> snd (inputs c) \<le> feed_count c \<and>
     fst (outputs c) \<le> snd (outputs c) \<and> snd (outputs c) \<le> feed_count c \<and>
     gates_wf (feed_count c) {0..<snd (inputs c)} (gates c) \<and>
     {fst (outputs c)..<snd (outputs c)} \<subseteq> {0..<snd (inputs c)} \<union> gate_z ` set (gates c) \<and>
     and_count c = count_type Ty_And (gates c)"

text \<open>The environment a list of input bits gives, and the function a circuit computes.\<close>

definition input_env :: "bool list \<Rightarrow> env" where
  "input_env ins i = (i < length ins \<and> ins ! i)"

definition circuit_fun :: "circuit \<Rightarrow> bool list \<Rightarrow> bool list" where
  "circuit_fun c ins =
     map (run_gates (gates c) (input_env (take (snd (inputs c)) ins))) [fst (outputs c)..<snd (outputs c)]"

section \<open>Properties of gates and runs\<close>

lemma count_type_simps [simp]:
  "count_type t [] = 0"
  "count_type t (g # gs) = (if gate_type g = t then 1 else 0) + count_type t gs"
  "count_type t (gs @ hs) = count_type t gs + count_type t hs"
  by (simp_all add: count_type_def)

lemma run_gates_append: "run_gates (gs @ hs) e = run_gates hs (run_gates gs e)"
  by (induction gs arbitrary: e) auto

lemma gates_wf_append:
  "gates_wf n D (gs @ hs) \<longleftrightarrow> gates_wf n D gs \<and> gates_wf n (D \<union> gate_z ` set gs) hs"
  by (induction gs arbitrary: D) auto

lemma gates_wf_mono: "gates_wf n D gs \<Longrightarrow> D \<subseteq> E \<Longrightarrow> n \<le> m \<Longrightarrow> gates_wf m E gs"
proof (induction gs arbitrary: D E)
  case (Cons g gs)
  then have "gates_wf m (insert (gate_z g) E) gs"
    by (auto intro: Cons.IH [of "insert (gate_z g) D"])
  with Cons.prems show ?case by auto
qed simp

lemma gate_sem_cong: "(\<And>i. i \<in> set (gate_ops g) \<Longrightarrow> e i = e' i) \<Longrightarrow> gate_sem g e = gate_sem g e'"
  by (cases g) auto

lemma run_gates_other: "i \<notin> gate_z ` set gs \<Longrightarrow> run_gates gs e i = e i"
  by (induction gs arbitrary: e) auto

text \<open>One gate on the wire vector: it succeeds and writes the reference value.\<close>

lemma eval_gate_ok:
  assumes "set (gate_ops g) \<subseteq> {0..<length w}" "gate_z g < length w"
  shows "eval_gate g w = Inr (w[gate_z g := gate_sem g (\<lambda>i. w ! i)])"
  using assms by (cases g) auto

text \<open>
  The evaluator on vectors simulates the reference run on the defined wires.
\<close>

lemma foldR_eval_gate:
  assumes "gates_wf (length w) D gs" "D \<subseteq> {0..<length w}" "\<And>i. i \<in> D \<Longrightarrow> w ! i = e i"
  shows "\<exists>w'. foldR eval_gate gs w = Inr w' \<and> length w' = length w \<and>
           (\<forall>i \<in> D \<union> gate_z ` set gs. w' ! i = run_gates gs e i)"
  using assms
proof (induction gs arbitrary: w D e)
  case (Cons g gs)
  let ?w = "w[gate_z g := gate_sem g (\<lambda>i. w ! i)]"
  have step: "eval_gate g w = Inr ?w"
    using Cons.prems by (intro eval_gate_ok) auto
  have sem: "gate_sem g (\<lambda>i. w ! i) = gate_sem g e"
    using Cons.prems by (intro gate_sem_cong) auto
  have "\<exists>w'. foldR eval_gate gs ?w = Inr w' \<and> length w' = length ?w \<and>
      (\<forall>i \<in> insert (gate_z g) D \<union> gate_z ` set gs.
         w' ! i = run_gates gs (e(gate_z g := gate_sem g e)) i)"
    using Cons.prems by (intro Cons.IH) (auto simp: nth_list_update sem)
  then show ?case
    by (simp add: step)
qed simp

lemma foldR_load_input:
  assumes "n \<le> length ins" "n \<le> length feeds"
  shows "foldR (load_input c) [0..<n] (feeds, ins) = Inr (take n ins @ drop n feeds, drop n ins)"
  using assms
proof (induction n)
  case (Suc n)
  then have "drop n ins = ins ! n # drop (Suc n) ins"
    by (simp add: Cons_nth_drop_Suc)
  with Suc show ?case
    by (simp add: foldR_append load_input_def take_Suc_conv_app_nth list_update_append)
      (simp add: Cons_nth_drop_Suc [symmetric] del: Cons_nth_drop_Suc)
qed simp

text \<open>Fewer bits than input wires: the first missing index is reported.\<close>

lemma foldR_load_input_short:
  assumes "length ins < n" "n \<le> length feeds"
  shows "foldR (load_input c) [0..<n] (feeds, ins) =
           Inl (Err (InvalidInputLength (range_len (inputs c)) (length ins)))"
proof -
  let ?l = "length ins"
  have split: "[0..<n] = [0..<?l] @ ?l # [Suc ?l..<n]"
    using assms upt_add_eq_append [of 0 ?l "n - ?l"] by (simp add: upt_conv_Cons)
  show ?thesis
    using assms unfolding split foldR_append by (simp add: foldR_load_input load_input_def)
qed

lemma evaluate_ok:
  assumes wf: "wf_circuit c" and len: "snd (inputs c) \<le> length ins"
  shows "evaluate c ins = Inr (circuit_fun c ins)"
proof -
  let ?n = "snd (inputs c)" and ?fc = "feed_count c"
  let ?w = "take ?n ins @ replicate (?fc - ?n) False"
  have c: "fst (inputs c) = 0" "?n \<le> ?fc" "fst (outputs c) \<le> snd (outputs c)"
      "snd (outputs c) \<le> ?fc" "gates_wf ?fc {0..<?n} (gates c)"
      "{fst (outputs c)..<snd (outputs c)} \<subseteq> {0..<?n} \<union> gate_z ` set (gates c)"
    using wf by (auto simp: wf_circuit_def)
  have lw: "length ?w = ?fc" using c len by simp
  have "\<exists>w'. foldR eval_gate (gates c) ?w = Inr w' \<and> length w' = length ?w \<and>
      (\<forall>i \<in> {0..<?n} \<union> gate_z ` set (gates c).
         w' ! i = run_gates (gates c) (input_env (take ?n ins)) i)"
    using c len by (intro foldR_eval_gate) (auto simp: lw nth_append input_env_def)
  then obtain w' where w': "foldR eval_gate (gates c) ?w = Inr w'" "length w' = ?fc"
      "\<And>i. i \<in> {fst (outputs c)..<snd (outputs c)} \<Longrightarrow>
         w' ! i = run_gates (gates c) (input_env (take ?n ins)) i"
    using c(6) lw by (auto simp: subset_iff)
  have "subslice w' (fst (outputs c)) (snd (outputs c)) = (Inr (circuit_fun c ins) :: (circuit_error, bool list) result)"
    using c w' by (auto simp: subslice_def circuit_fun_def intro: nth_equalityI)
  with w' lw c len show ?thesis
    by (simp add: evaluate_def foldR_load_input evaluate_raw_def)
qed

text \<open>
  Evaluating a circuit on too few input bits never panics: it returns
  \<open>InvalidInputLength\<close> with the number of input wires and the number of bits supplied.
\<close>

theorem evaluate_short_input:
  assumes "wf_circuit c" "length ins < snd (inputs c)"
  shows "evaluate c ins = Inl (Err (InvalidInputLength (snd (inputs c)) (length ins)))"
  using assms
  by (simp add: evaluate_def wf_circuit_def foldR_load_input_short range_len_def)

theorem evaluate_short_input_witness:
  "evaluate \<lparr>inputs = (0, 2), outputs = (2, 3), gates = [Gate_And 0 1 2], feed_count = 3, and_count = 1, xor_count = 0\<rparr> [True] =
     Inl (Err (InvalidInputLength 2 1))"
  (is "evaluate ?c _ = _")
proof -
  have "wf_circuit ?c" by (auto simp: wf_circuit_def count_type_def)
  from evaluate_short_input [OF this, of "[True]"] show ?thesis by simp
qed

text \<open>Only the first bits are used: a longer input is accepted and its tail ignored.\<close>

lemma evaluate_extra_input:
  assumes "wf_circuit c" "length ins = snd (inputs c)"
  shows "evaluate c (ins @ extra) = evaluate c ins"
  using assms by (simp add: evaluate_ok circuit_fun_def)

end
