(* ===== verification/Builder.thy ===== *)
theory Builder
  imports Circuit
begin

text \<open>
  The circuit builder (\<open>circuits-core/src/builder.rs\<close>): nodes are allocated from a counter,
  nodes 0 and 1 are the constants and gates with a constant operand are folded away.
  \<open>build\<close> renumbers the wires so that inputs come first and outputs last.  A builder has a
  reference semantics (\<open>node_val\<close>): the value of each of its nodes for given input bits.
  The operations compute the intended functions on it and \<open>build\<close> preserves it.
\<close>

section \<open>The builder and its operations\<close>

record builder =
  feed_id :: nat
  b_inputs :: "node list"
  b_outputs :: "node list"
  b_gates :: "gate list"
  b_and_count :: nat
  b_xor_count :: nat

definition builder_default :: builder where
  "builder_default = \<lparr>feed_id = 0, b_inputs = [], b_outputs = [], b_gates = [],
     b_and_count = 0, b_xor_count = 0\<rparr>"

definition builder_new :: builder where
  "builder_new = \<lparr>feed_id = 2, b_inputs = [], b_outputs = [], b_gates = [],
     b_and_count = 0, b_xor_count = 0\<rparr>"

definition get_const_zero :: node where "get_const_zero = 0"

definition get_const_one :: node where "get_const_one = 1"

definition add_feed :: "builder \<Rightarrow> node \<times> builder" where
  "add_feed b = (feed_id b, b\<lparr>feed_id := feed_id b + 1\<rparr>)"

definition add_input :: "builder \<Rightarrow> node \<times> builder" where
  "add_input b = (let (node, b) = add_feed b in (node, b\<lparr>b_inputs := b_inputs b @ [node]\<rparr>))"

definition add_output :: "builder \<Rightarrow> node \<Rightarrow> builder" where
  "add_output b node = b\<lparr>b_outputs := b_outputs b @ [node]\<rparr>"

definition push_gate :: "builder \<Rightarrow> gate \<Rightarrow> builder" where
  "push_gate b g = b\<lparr>b_gates := b_gates b @ [g]\<rparr>"

definition add_xor_gate :: "builder \<Rightarrow> node \<Rightarrow> node \<Rightarrow> node \<times> builder" where
  "add_xor_gate b x y =
     (if (x = 0 \<and> y = 0) \<or> (x = 1 \<and> y = 1) then (get_const_zero, b)
      else if x = 0 then (y, b)
      else if y = 0 then (x, b)
      else if x = 1 then
        (let (out, b) = add_feed b in (out, push_gate b (Gate_Inv y out)))
      else if y = 1 then
        (let (out, b) = add_feed b in (out, push_gate b (Gate_Inv x out)))
      else
        (let (out, b) = add_feed b; b = push_gate b (Gate_Xor x y out)
         in (out, b\<lparr>b_xor_count := b_xor_count b + 1\<rparr>)))"

definition add_and_gate :: "builder \<Rightarrow> node \<Rightarrow> node \<Rightarrow> node \<times> builder" where
  "add_and_gate b x y =
     (if x = 0 \<or> y = 0 then (get_const_zero, b)
      else if x = 1 then (y, b)
      else if y = 1 then (x, b)
      else
        (let (out, b) = add_feed b; b = push_gate b (Gate_And x y out)
         in (out, b\<lparr>b_and_count := b_and_count b + 1\<rparr>)))"

definition add_inv_gate :: "builder \<Rightarrow> node \<Rightarrow> node \<times> builder" where
  "add_inv_gate b x =
     (if x = 0 then (get_const_one, b)
      else if x = 1 then (get_const_zero, b)
      else (let (out, b) = add_feed b in (out, push_gate b (Gate_Inv x out))))"

definition add_id_gate :: "builder \<Rightarrow> node \<Rightarrow> node \<times> builder" where
  "add_id_gate b x =
     (if x = 0 then (get_const_zero, b)
      else if x = 1 then (get_const_one, b)
      else (let (out, b) = add_feed b in (out, push_gate b (Gate_Id x out))))"

section \<open>Building the circuit\<close>

definition map_input :: "node \<Rightarrow> nat list \<times> nat \<Rightarrow> ('e, nat list \<times> nat) result" where
  "map_input node st =
     (case st of (id_map, next_id) \<Rightarrow>
        bindR (upd id_map node next_id) (\<lambda>id_map. Inr (id_map, next_id + 1)))"

definition map_output :: "nat \<Rightarrow> nat \<times> node \<Rightarrow> nat list \<Rightarrow> ('e, nat list) result" where
  "map_output output_id_start o_out id_map =
     (case o_out of (new_id, node) \<Rightarrow> upd id_map node (output_id_start + new_id))"

fun set_gate_z :: "gate \<Rightarrow> node \<Rightarrow> gate" where
  "set_gate_z (Gate_Xor x y z) z' = Gate_Xor x y z'"
| "set_gate_z (Gate_And x y z) z' = Gate_And x y z'"
| "set_gate_z (Gate_Inv x z) z' = Gate_Inv x z'"
| "set_gate_z (Gate_Id x z) z' = Gate_Id x z'"

text \<open>Pass over the gate outputs: a zero entry means that no identifier was chosen yet.\<close>

fun remap_gate_outputs ::
  "gate list \<Rightarrow> nat list \<Rightarrow> nat \<Rightarrow> ('e, gate list \<times> nat list \<times> nat) result" where
  "remap_gate_outputs [] id_map next_id = Inr ([], id_map, next_id)"
| "remap_gate_outputs (g # gs) id_map next_id =
     bindR (idx id_map (gate_z g)) (\<lambda>cur.
       if cur = 0 then
         bindR (upd id_map (gate_z g) next_id) (\<lambda>id_map.
         bindR (remap_gate_outputs gs id_map (next_id + 1)) (\<lambda>(gs, id_map, nxt).
           Inr (set_gate_z g next_id # gs, id_map, nxt)))
       else
         bindR (remap_gate_outputs gs id_map next_id) (\<lambda>(gs, id_map, nxt).
           Inr (set_gate_z g cur # gs, id_map, nxt)))"

fun remap_gate_inputs :: "nat list \<Rightarrow> gate \<Rightarrow> ('e, gate) result" where
  "remap_gate_inputs id_map (Gate_Xor x y z) =
     bindR (idx id_map x) (\<lambda>x. bindR (idx id_map y) (\<lambda>y. Inr (Gate_Xor x y z)))"
| "remap_gate_inputs id_map (Gate_And x y z) =
     bindR (idx id_map x) (\<lambda>x. bindR (idx id_map y) (\<lambda>y. Inr (Gate_And x y z)))"
| "remap_gate_inputs id_map (Gate_Inv x z) = bindR (idx id_map x) (\<lambda>x. Inr (Gate_Inv x z))"
| "remap_gate_inputs id_map (Gate_Id x z) = bindR (idx id_map x) (\<lambda>x. Inr (Gate_Id x z))"

definition build :: "builder \<Rightarrow> (unit, circuit) result" where
  "build b =
     bindR (mapR (node_shift_left 2) (b_inputs b)) (\<lambda>ins.
     bindR (mapR (gate_shift_left 2) (b_gates b)) (\<lambda>gs.
     bindR (mapR (node_shift_left 2) (b_outputs b)) (\<lambda>outs.
     bindR (usub (feed_id b) 2) (\<lambda>fc.
     bindR (foldR map_input ins (replicate fc 0, 0)) (\<lambda>(id_map, next_id).
     bindR (usub fc (length outs)) (\<lambda>output_id_start.
     bindR (foldR (map_output output_id_start) (enumerate 0 outs) id_map) (\<lambda>id_map.
     bindR (remap_gate_outputs gs id_map next_id) (\<lambda>(gs, id_map, next_id).
     bindR (mapR (remap_gate_inputs id_map) gs) (\<lambda>gs.
       Inr \<lparr>inputs = (0, length ins), outputs = (fc - length outs, fc), gates = gs,
            feed_count = fc, and_count = b_and_count b, xor_count = b_xor_count b\<rparr>)))))))))"

section \<open>Reference semantics of a builder\<close>

definition builder_env :: "builder \<Rightarrow> bool list \<Rightarrow> env" where
  "builder_env b ins n = (n = 1 \<or> map_of (zip (b_inputs b) ins) n = Some True)"

definition node_val :: "builder \<Rightarrow> bool list \<Rightarrow> node \<Rightarrow> bool" where
  "node_val b ins n = run_gates (b_gates b) (builder_env b ins) n"

definition wf_builder :: "builder \<Rightarrow> bool" where
  "wf_builder b \<longleftrightarrow>
     2 \<le> feed_id b \<and>
     distinct (b_inputs b @ map gate_z (b_gates b)) \<and>
     set (b_inputs b) \<union> gate_z ` set (b_gates b) = {2..<feed_id b} \<and>
     gates_wf (feed_id b) (set (b_inputs b)) (b_gates b) \<and>
     b_and_count b = count_type Ty_And (b_gates b) \<and>
     b_xor_count b = count_type Ty_Xor (b_gates b)"

text \<open>
  \<open>extends b b'\<close>: \<open>b'\<close> arose from \<open>b\<close> by adding gates; every node of \<open>b\<close> keeps its value.
\<close>

definition extends :: "builder \<Rightarrow> builder \<Rightarrow> bool" where
  "extends b b' \<longleftrightarrow>
     feed_id b \<le> feed_id b' \<and> b_inputs b' = b_inputs b \<and> b_outputs b' = b_outputs b \<and>
     (\<exists>gs. b_gates b' = b_gates b @ gs \<and> (\<forall>g \<in> set gs. feed_id b \<le> gate_z g))"

lemma extends_refl [simp]: "extends b b"
  by (simp add: extends_def)

lemma extends_trans [trans]: "extends a b \<Longrightarrow> extends b c \<Longrightarrow> extends a c"
  unfolding extends_def by fastforce

lemma extends_feed_id: "extends b b' \<Longrightarrow> feed_id b \<le> feed_id b'"
  by (simp add: extends_def)

lemma extends_node_val:
  assumes "extends b b'" "n < feed_id b"
  shows "node_val b' ins n = node_val b ins n"
proof -
  from assms obtain gs where gs: "b_gates b' = b_gates b @ gs" "\<forall>g \<in> set gs. feed_id b \<le> gate_z g"
      "b_inputs b' = b_inputs b"
    by (auto simp: extends_def)
  have "builder_env b' ins = builder_env b ins"
    by (rule ext) (simp add: builder_env_def gs)
  moreover have "n \<notin> gate_z ` set gs"
    using gs assms by auto
  ultimately show ?thesis
    by (simp add: node_val_def gs run_gates_append run_gates_other)
qed

lemma extends_map_node_val:
  assumes "extends b b'" "\<And>n. n \<in> set ns \<Longrightarrow> n < feed_id b"
  shows "map (node_val b' ins) ns = map (node_val b ins) ns"
  using assms by (simp add: extends_node_val)

lemma wf_builder_new: "wf_builder builder_new"
  by (simp add: wf_builder_def builder_new_def)

lemma wf_builder_ids:
  "wf_builder b \<Longrightarrow> set (b_inputs b) \<union> gate_z ` set (b_gates b) = {2..<feed_id b}"
  by (simp add: wf_builder_def)

lemma node_val_const:
  assumes "wf_builder b"
  shows "node_val b ins 0 = False" "node_val b ins 1 = True"
proof -
  have "0 \<notin> set (b_inputs b) \<union> gate_z ` set (b_gates b)" "1 \<notin> set (b_inputs b) \<union> gate_z ` set (b_gates b)"
    unfolding wf_builder_ids [OF assms] by simp_all
  then have "0 \<notin> gate_z ` set (b_gates b)" "1 \<notin> gate_z ` set (b_gates b)" "0 \<notin> set (b_inputs b)"
    by simp_all
  moreover have "map_of (zip (b_inputs b) ins) 0 = None"
    using \<open>0 \<notin> set (b_inputs b)\<close> by (metis in_set_zipE map_of_SomeD option.exhaust)
  ultimately show "node_val b ins 0 = False" "node_val b ins 1 = True"
    by (simp_all add: node_val_def run_gates_other builder_env_def)
qed

lemma node_val_const_simps [simp]:
  "wf_builder b \<Longrightarrow> \<not> node_val b ins 0"
  "wf_builder b \<Longrightarrow> node_val b ins 1"
  "wf_builder b \<Longrightarrow> node_val b ins (Suc 0)"
  using node_val_const by simp_all

section \<open>Adding a gate\<close>

definition add_gate :: "builder \<Rightarrow> (node \<Rightarrow> gate) \<Rightarrow> builder" where
  "add_gate b mk =
     b\<lparr>feed_id := feed_id b + 1, b_gates := b_gates b @ [mk (feed_id b)],
       b_and_count := b_and_count b + (if gate_type (mk (feed_id b)) = Ty_And then 1 else 0),
       b_xor_count := b_xor_count b + (if gate_type (mk (feed_id b)) = Ty_Xor then 1 else 0)\<rparr>"

lemma add_gate_ok:
  assumes wf: "wf_builder b" and z: "gate_z (mk (feed_id b)) = feed_id b"
    and ops: "set (gate_ops (mk (feed_id b))) \<subseteq> {2..<feed_id b}"
  shows "wf_builder (add_gate b mk)" and "extends b (add_gate b mk)"
    and "node_val (add_gate b mk) ins (feed_id b) = gate_sem (mk (feed_id b)) (node_val b ins)"
proof -
  let ?g = "mk (feed_id b)"
  have w: "2 \<le> feed_id b" "distinct (b_inputs b @ map gate_z (b_gates b))"
      "set (b_inputs b) \<union> gate_z ` set (b_gates b) = {2..<feed_id b}"
      "gates_wf (feed_id b) (set (b_inputs b)) (b_gates b)"
    using wf by (auto simp: wf_builder_def)
  have fresh: "feed_id b \<notin> set (b_inputs b) \<union> gate_z ` set (b_gates b)"
    unfolding w(3) by simp
  have "gates_wf (feed_id b + 1) (set (b_inputs b)) (b_gates b @ [?g])"
    using w(4) ops by (auto simp: gates_wf_append w(3) z intro: gates_wf_mono)
  moreover have "set (b_inputs b) \<union> gate_z ` set (b_gates b @ [?g]) = {2..<feed_id b + 1}"
    using w(1,3) z by auto
  moreover have "distinct (b_inputs b @ map gate_z (b_gates b @ [?g]))"
    using w(2) fresh z by auto
  ultimately show "wf_builder (add_gate b mk)"
    using wf w(1) unfolding wf_builder_def add_gate_def by auto
  show "extends b (add_gate b mk)"
    using z by (auto simp: extends_def add_gate_def)
  have "builder_env (add_gate b mk) ins = builder_env b ins"
    by (rule ext) (simp add: builder_env_def add_gate_def)
  then show "node_val (add_gate b mk) ins (feed_id b) = gate_sem ?g (node_val b ins)"
    by (simp add: node_val_def [abs_def] add_gate_def run_gates_append z)
qed

text \<open>
  \<open>adds b b' n f\<close>: from \<open>b\<close>, gates were added that give a node \<open>n\<close> with value \<open>f\<close>.
\<close>

definition adds :: "builder \<Rightarrow> builder \<Rightarrow> node \<Rightarrow> (bool list \<Rightarrow> bool) \<Rightarrow> bool" where
  "adds b b' n f \<longleftrightarrow> wf_builder b' \<and> extends b b' \<and> n < feed_id b' \<and> (\<forall>ins. node_val b' ins n = f ins)"

lemma addsD:
  assumes "adds b b' n f"
  shows "wf_builder b'" "extends b b'" "n < feed_id b'" "node_val b' ins n = f ins"
  using assms by (simp_all add: adds_def)

definition live :: "builder \<Rightarrow> node \<Rightarrow> bool" where
  "live b n \<longleftrightarrow> 2 \<le> n \<and> n < feed_id b"

lemma live_extends: "live b n \<Longrightarrow> extends b b' \<Longrightarrow> live b' n"
  by (auto simp: live_def extends_def)

lemma adds_add_gate:
  assumes "wf_builder b" "gate_z (mk (feed_id b)) = feed_id b"
    "set (gate_ops (mk (feed_id b))) \<subseteq> {2..<feed_id b}"
  shows "adds b (add_gate b mk) (feed_id b) (\<lambda>ins. gate_sem (mk (feed_id b)) (node_val b ins))"
  using add_gate_ok [where mk = mk, OF assms] by (simp add: adds_def) (simp add: add_gate_def)

lemma add_xor_gate_live:
  "live b x \<Longrightarrow> live b y \<Longrightarrow> add_xor_gate b x y = (feed_id b, add_gate b (Gate_Xor x y))"
  by (auto simp: add_xor_gate_def live_def add_feed_def push_gate_def add_gate_def Let_def)

lemma add_and_gate_live:
  "live b x \<Longrightarrow> live b y \<Longrightarrow> add_and_gate b x y = (feed_id b, add_gate b (Gate_And x y))"
  by (auto simp: add_and_gate_def live_def add_feed_def push_gate_def add_gate_def Let_def)

lemma add_inv_gate_live:
  "live b x \<Longrightarrow> add_inv_gate b x = (feed_id b, add_gate b (Gate_Inv x))"
  by (auto simp: add_inv_gate_def live_def add_feed_def push_gate_def add_gate_def Let_def)

lemma add_id_gate_live:
  "live b x \<Longrightarrow> add_id_gate b x = (feed_id b, add_gate b (Gate_Id x))"
  by (auto simp: add_id_gate_def live_def add_feed_def push_gate_def add_gate_def Let_def)

lemma node_cases:
  assumes "n < feed_id b"
  obtains "n = 0" | "n = 1" | "live b n"
  using assms by (auto simp: live_def) linarith

lemma adds_refl: "wf_builder b \<Longrightarrow> n < feed_id b \<Longrightarrow> (\<And>ins. node_val b ins n = f ins) \<Longrightarrow> adds b b n f"
  by (simp add: adds_def)

lemma wf_builder_feed_id: "wf_builder b \<Longrightarrow> 2 \<le> feed_id b"
  by (simp add: wf_builder_def)

lemma add_inv_gate_adds:
  assumes wf: "wf_builder b" and x: "x < feed_id b" and eq: "add_inv_gate b x = (n, b')"
  shows "adds b b' n (\<lambda>ins. \<not> node_val b ins x)"
  using x
proof (cases rule: node_cases)
  case 3
  then have "adds b (add_gate b (Gate_Inv x)) (feed_id b) (\<lambda>ins. \<not> node_val b ins x)"
    using adds_add_gate [OF wf, of "Gate_Inv x"] by (simp add: live_def)
  with 3 eq show ?thesis by (simp add: add_inv_gate_live)
qed (use eq wf in \<open>auto simp: add_inv_gate_def get_const_zero_def get_const_one_def intro!: adds_refl dest: wf_builder_feed_id\<close>)

lemma add_id_gate_adds:
  assumes wf: "wf_builder b" and x: "x < feed_id b" and eq: "add_id_gate b x = (n, b')"
  shows "adds b b' n (\<lambda>ins. node_val b ins x)"
  using x
proof (cases rule: node_cases)
  case 3
  then have "adds b (add_gate b (Gate_Id x)) (feed_id b) (\<lambda>ins. node_val b ins x)"
    using adds_add_gate [OF wf, of "Gate_Id x"] by (simp add: live_def)
  with 3 eq show ?thesis by (simp add: add_id_gate_live)
qed (use eq wf in \<open>auto simp: add_id_gate_def get_const_zero_def get_const_one_def intro!: adds_refl dest: wf_builder_feed_id\<close>)

lemma add_and_gate_adds:
  assumes wf: "wf_builder b" and x: "x < feed_id b" and y: "y < feed_id b"
    and eq: "add_and_gate b x y = (n, b')"
  shows "adds b b' n (\<lambda>ins. node_val b ins x \<and> node_val b ins y)"
proof (cases "live b x \<and> live b y")
  case True
  then have "adds b (add_gate b (Gate_And x y)) (feed_id b) (\<lambda>ins. node_val b ins x \<and> node_val b ins y)"
    using adds_add_gate [OF wf, of "Gate_And x y"] by (simp add: live_def)
  with True eq show ?thesis by (simp add: add_and_gate_live)
next
  case False
  with x y have c: "x = 0 \<or> x = 1 \<or> y = 0 \<or> y = 1"
    by (auto simp: live_def)
  with eq have "b' = b \<and> n < feed_id b \<and> (\<forall>ins. node_val b ins n = (node_val b ins x \<and> node_val b ins y))"
    using wf x y
    by (auto simp: add_and_gate_def get_const_zero_def
        split: if_splits dest: wf_builder_feed_id)
  with wf show ?thesis by (simp add: adds_def)
qed

lemma add_xor_gate_adds:
  assumes wf: "wf_builder b" and x: "x < feed_id b" and y: "y < feed_id b"
    and eq: "add_xor_gate b x y = (n, b')"
  shows "adds b b' n (\<lambda>ins. node_val b ins x \<noteq> node_val b ins y)"
proof -
  consider "live b x \<and> live b y" | "live b y \<and> x = 1" | "live b x \<and> y = 1"
    | "x = 0 \<or> y = 0 \<or> x = 1 \<and> y = 1"
    using x y by (auto simp: live_def) linarith
  then show ?thesis
  proof cases
    case 1
    then have "adds b (add_gate b (Gate_Xor x y)) (feed_id b) (\<lambda>ins. node_val b ins x \<noteq> node_val b ins y)"
      using adds_add_gate [OF wf, of "Gate_Xor x y"] by (simp add: live_def)
    with 1 eq show ?thesis by (simp add: add_xor_gate_live)
  next
    case 2
    then have "add_inv_gate b y = (n, b')"
      using eq by (auto simp: add_xor_gate_def add_inv_gate_def live_def)
    from add_inv_gate_adds [OF wf y this] show ?thesis using 2 wf by simp
  next
    case 3
    then have "add_inv_gate b x = (n, b')"
      using eq by (auto simp: add_xor_gate_def add_inv_gate_def live_def)
    from add_inv_gate_adds [OF wf x this] show ?thesis using 3 wf by simp
  next
    case 4
    with eq have "b' = b \<and> n < feed_id b \<and> (\<forall>ins. node_val b ins n = (node_val b ins x \<noteq> node_val b ins y))"
      using wf x y
      by (auto simp: add_xor_gate_def get_const_zero_def split: if_splits
          dest: wf_builder_feed_id)
    with wf show ?thesis by (simp add: adds_def)
  qed
qed

end
