(* ===== verification/Ops.thy ===== *)
theory Ops
  imports Builder
begin

text \<open>
  Arithmetic on node vectors (\<open>circuits-core/src/ops.rs\<close>), least significant bit first: adders,
  wrapping addition and subtraction, modular addition, the switch and the bitwise operations.
  Each operation is shown to add gates that compute the arithmetic function of its name.
\<close>

section \<open>The operations\<close>

definition full_adder :: "builder \<Rightarrow> node \<Rightarrow> node \<Rightarrow> node \<Rightarrow> (node \<times> node) \<times> builder" where
  "full_adder bld a b c_in =
     (let (a_b, bld) = add_xor_gate bld a b;
          (sum, bld) = add_xor_gate bld a_b c_in;
          (a_c_in, bld) = add_xor_gate bld a c_in;
          (b_c_in, bld) = add_xor_gate bld b c_in;
          (con, bld) = add_and_gate bld a_c_in b_c_in;
          (c_out, bld) = add_xor_gate bld con c_in
      in ((sum, c_out), bld))"

definition full_adder_no_carry_out :: "builder \<Rightarrow> node \<Rightarrow> node \<Rightarrow> node \<Rightarrow> node \<times> builder" where
  "full_adder_no_carry_out bld a b c_in =
     (let (a_b, bld) = add_xor_gate bld a b in add_xor_gate bld a_b c_in)"

definition half_adder :: "builder \<Rightarrow> node \<Rightarrow> node \<Rightarrow> (node \<times> node) \<times> builder" where
  "half_adder bld a b =
     (let (sum, bld) = add_xor_gate bld a b;
          (c_out, bld) = add_and_gate bld a b
      in ((sum, c_out), bld))"

fun wrapping_add_loop ::
  "nat \<Rightarrow> nat \<Rightarrow> node \<Rightarrow> builder \<Rightarrow> node list \<Rightarrow> node list \<Rightarrow> node list \<times> builder" where
  "wrapping_add_loop len n c_out bld (a # as) (b # bs) =
     (if n = 0 then
        (let ((sum_0, c_out_0), bld) = half_adder bld a b;
             (rest, bld) = wrapping_add_loop len (n + 1) c_out_0 bld as bs
         in (sum_0 # rest, bld))
      else if n < len - 1 then
        (let ((sum_n, c_out_n), bld) = full_adder bld a b c_out;
             (rest, bld) = wrapping_add_loop len (n + 1) c_out_n bld as bs
         in (sum_n # rest, bld))
      else
        (let (sum_n, bld) = full_adder_no_carry_out bld a b c_out;
             (rest, bld) = wrapping_add_loop len (n + 1) c_out bld as bs
         in (sum_n # rest, bld)))"
| "wrapping_add_loop len n c_out bld as bs = ([], bld)"

definition wrapping_add ::
  "builder \<Rightarrow> node list \<Rightarrow> node list \<Rightarrow> ('e, node list \<times> builder) result" where
  "wrapping_add bld a b =
     bindR (assertR (length a = length b)) (\<lambda>_. Inr (wrapping_add_loop (length a) 0 0 bld a b))"

fun inv_loop :: "builder \<Rightarrow> node list \<Rightarrow> node list \<times> builder" where
  "inv_loop bld [] = ([], bld)"
| "inv_loop bld (b # bs) =
     (let (n, bld) = add_inv_gate bld b; (ns, bld) = inv_loop bld bs in (n # ns, bld))"

fun sub_loop :: "builder \<Rightarrow> node \<Rightarrow> node list \<Rightarrow> node list \<Rightarrow> (node list \<times> node) \<times> builder" where
  "sub_loop bld b_out (a # as) (b_inv # bs) =
     (let ((diff_n, b_out_n), bld) = full_adder bld a b_inv b_out;
          ((rest, b_out), bld) = sub_loop bld b_out_n as bs
      in ((diff_n # rest, b_out), bld))"
| "sub_loop bld b_out as bs = (([], b_out), bld)"

definition wrapping_sub ::
  "builder \<Rightarrow> node list \<Rightarrow> node list \<Rightarrow> ('e, (node list \<times> node) \<times> builder) result" where
  "wrapping_sub bld a b =
     bindR (assertR (length a = length b)) (\<lambda>_.
       let (b_inv, bld) = inv_loop bld b;
           ((diff, b_out), bld) = sub_loop bld 1 a b_inv;
           (underflow, bld) = add_inv_gate bld b_out
       in Inr ((diff, underflow), bld))"

fun switch_loop :: "builder \<Rightarrow> node \<Rightarrow> node \<Rightarrow> node list \<Rightarrow> node list \<Rightarrow> node list \<times> builder" where
  "switch_loop bld toggle not_toggle (a # as) (b # bs) =
     (let (a_and_not_toggle, bld) = add_and_gate bld a not_toggle;
          (b_and_toggle, bld) = add_and_gate bld b toggle;
          (out, bld) = add_xor_gate bld a_and_not_toggle b_and_toggle;
          (rest, bld) = switch_loop bld toggle not_toggle as bs
      in (out # rest, bld))"
| "switch_loop bld toggle not_toggle as bs = ([], bld)"

definition switch ::
  "builder \<Rightarrow> node list \<Rightarrow> node list \<Rightarrow> node \<Rightarrow> ('e, node list \<times> builder) result" where
  "switch bld a b toggle =
     bindR (assertR (length a = length b)) (\<lambda>_.
       let (not_toggle, bld) = add_inv_gate bld toggle
       in Inr (switch_loop bld toggle not_toggle a b))"

definition add_mod ::
  "builder \<Rightarrow> node list \<Rightarrow> node list \<Rightarrow> node list \<Rightarrow> ('e, node list \<times> builder) result" where
  "add_mod bld a b modulus =
     bindR (assertR (length a = length b)) (\<lambda>_.
     bindR (assertR (length a = length modulus)) (\<lambda>_.
       let a = a @ [get_const_zero]; b = b @ [get_const_zero]; modulus = modulus @ [get_const_zero]
       in bindR (wrapping_add bld a b) (\<lambda>(sum, bld).
          bindR (wrapping_sub bld sum modulus) (\<lambda>((rem, underflow), bld).
          bindR (switch bld rem sum underflow) (\<lambda>(sum_reduced, bld).
          bindR (usub (length sum_reduced) 1) (\<lambda>n. Inr (take n sum_reduced, bld)))))))"

text \<open>The bitwise operations on arrays of equal length \<open>N\<close>.\<close>

fun xor_nodes :: "builder \<Rightarrow> node list \<Rightarrow> node list \<Rightarrow> node list \<times> builder" where
  "xor_nodes bld (a # as) (b # bs) =
     (let (n, bld) = add_xor_gate bld a b; (ns, bld) = xor_nodes bld as bs in (n # ns, bld))"
| "xor_nodes bld as bs = ([], bld)"

fun and_nodes :: "builder \<Rightarrow> node list \<Rightarrow> node list \<Rightarrow> node list \<times> builder" where
  "and_nodes bld (a # as) (b # bs) =
     (let (n, bld) = add_and_gate bld a b; (ns, bld) = and_nodes bld as bs in (n # ns, bld))"
| "and_nodes bld as bs = ([], bld)"

fun or_nodes :: "builder \<Rightarrow> node list \<Rightarrow> node list \<Rightarrow> node list \<times> builder" where
  "or_nodes bld (a # as) (b # bs) =
     (let (a_xor_b, bld) = add_xor_gate bld a b;
          (a_and_b, bld) = add_and_gate bld a b;
          (n, bld) = add_xor_gate bld a_xor_b a_and_b;
          (ns, bld) = or_nodes bld as bs
      in (n # ns, bld))"
| "or_nodes bld as bs = ([], bld)"

definition inv_nodes :: "builder \<Rightarrow> node list \<Rightarrow> node list \<times> builder" where
  "inv_nodes = inv_loop"

section \<open>Gate contracts over node vectors\<close>

abbreviation vals :: "builder \<Rightarrow> bool list \<Rightarrow> node list \<Rightarrow> bool list" where
  "vals b ins ns \<equiv> map (node_val b ins) ns"

definition valid :: "builder \<Rightarrow> node list \<Rightarrow> bool" where
  "valid b ns \<longleftrightarrow> (\<forall>n \<in> set ns. n < feed_id b)"

lemma valid_simps [simp]:
  "valid b []"
  "valid b (n # ns) \<longleftrightarrow> n < feed_id b \<and> valid b ns"
  "valid b (ns @ ms) \<longleftrightarrow> valid b ns \<and> valid b ms"
  by (auto simp: valid_def)

lemma valid_extends: "valid b ns \<Longrightarrow> extends b b' \<Longrightarrow> valid b' ns"
  by (force simp: valid_def dest: extends_feed_id)

lemma vals_extends: "extends b b' \<Longrightarrow> valid b ns \<Longrightarrow> vals b' ins ns = vals b ins ns"
  by (rule extends_map_node_val) (auto simp: valid_def)

lemma lt_extends: "n < feed_id b \<Longrightarrow> extends b b' \<Longrightarrow> n < feed_id b'"
  by (auto dest: extends_feed_id)

text \<open>\<open>addsL b b' ns F\<close>: gates were added that give nodes \<open>ns\<close> with values \<open>F\<close>.\<close>

definition addsL :: "builder \<Rightarrow> builder \<Rightarrow> node list \<Rightarrow> (bool list \<Rightarrow> bool list) \<Rightarrow> bool" where
  "addsL b b' ns F \<longleftrightarrow> wf_builder b' \<and> extends b b' \<and> valid b' ns \<and> (\<forall>ins. vals b' ins ns = F ins)"

lemma addsL_D:
  assumes "addsL b b' ns F"
  shows "wf_builder b'" "extends b b'" "valid b' ns" "vals b' ins ns = F ins"
  using assms by (simp_all add: addsL_def)

lemma addsL_Nil: "wf_builder b \<Longrightarrow> addsL b b [] (\<lambda>_. [])"
  by (simp add: addsL_def)

lemma addsL_Cons:
  assumes "adds b b1 n f" "addsL b1 b' ns F"
  shows "addsL b b' (n # ns) (\<lambda>ins. f ins # F ins)"
proof -
  from assms have "extends b b1" "extends b1 b'" "n < feed_id b1" by (simp_all add: adds_def addsL_def)
  with assms show ?thesis
    by (auto simp: adds_def addsL_def extends_node_val intro: extends_trans lt_extends)
qed

lemma adds_weaken: "extends b b1 \<Longrightarrow> adds b1 b' n f \<Longrightarrow> adds b b' n f"
  by (auto simp: adds_def intro: extends_trans)

lemmas gate_adds = add_xor_gate_adds add_and_gate_adds add_inv_gate_adds

lemma adds_old: "adds b b' n f \<Longrightarrow> m < feed_id b \<Longrightarrow> m < feed_id b' \<and> node_val b' ins m = node_val b ins m"
  by (auto simp: adds_def extends_node_val intro: lt_extends)

section \<open>Adders\<close>

lemma half_adder_adds:
  assumes wf: "wf_builder bld" and v: "a < feed_id bld" "b < feed_id bld"
    and eq: "half_adder bld a b = ((s, co), bld')"
  shows "wf_builder bld' \<and> extends bld bld' \<and> s < feed_id bld' \<and> co < feed_id bld' \<and>
    (\<forall>ins. (of_bool (node_val bld' ins s) :: nat) + 2 * of_bool (node_val bld' ins co) =
       of_bool (node_val bld ins a) + of_bool (node_val bld ins b))"
proof -
  from eq obtain b1 where g: "add_xor_gate bld a b = (s, b1)" "add_and_gate b1 a b = (co, bld')"
    by (auto simp: half_adder_def split: prod.splits)
  note a1 = add_xor_gate_adds [OF wf v g(1)]
  have v1: "a < feed_id b1" "b < feed_id b1" using adds_old [OF a1] v by simp_all
  note a2 = add_and_gate_adds [OF addsD(1) [OF a1] v1 g(2)]
  have "node_val bld' ins s = (node_val bld ins a \<noteq> node_val bld ins b)"
    "node_val bld' ins co = (node_val bld ins a \<and> node_val bld ins b)" for ins
    using adds_old [OF a2 addsD(3) [OF a1]] adds_old [OF a1] v addsD(4) [OF a1] addsD(4) [OF a2] by simp_all
  moreover have "s < feed_id bld'" using adds_old [OF a2 addsD(3) [OF a1]] by simp
  moreover have "extends bld bld'" using a1 a2 by (auto simp: adds_def intro: extends_trans)
  ultimately show ?thesis using addsD(1,3) [OF a2] by auto
qed

lemma full_adder_no_carry_out_adds:
  assumes wf: "wf_builder bld" and v: "a < feed_id bld" "b < feed_id bld" "c < feed_id bld"
    and eq: "full_adder_no_carry_out bld a b c = (s, bld')"
  shows "adds bld bld' s (\<lambda>ins. (node_val bld ins a \<noteq> node_val bld ins b) \<noteq> node_val bld ins c)"
proof -
  from eq obtain n b1 where g: "add_xor_gate bld a b = (n, b1)" "add_xor_gate b1 n c = (s, bld')"
    by (auto simp: full_adder_no_carry_out_def split: prod.splits)
  note a1 = add_xor_gate_adds [OF wf v(1,2) g(1)]
  have c1: "c < feed_id b1" using adds_old [OF a1 v(3)] by simp
  note a2 = add_xor_gate_adds [OF addsD(1) [OF a1] addsD(3) [OF a1] c1 g(2)]
  have "(\<lambda>ins. node_val b1 ins n \<noteq> node_val b1 ins c) =
      (\<lambda>ins. (node_val bld ins a \<noteq> node_val bld ins b) \<noteq> node_val bld ins c)"
    using addsD(4) [OF a1] adds_old [OF a1 v(3)] by auto
  with a2 show ?thesis using adds_weaken [OF addsD(2) [OF a1]] by metis
qed

text \<open>The carry chain of the full adder, without the sum.\<close>

lemma carry_adds:
  assumes wf: "wf_builder bld" and v: "a < feed_id bld" "b < feed_id bld" "c < feed_id bld"
    and g: "add_xor_gate bld a c = (x, b1)" "add_xor_gate b1 b c = (y, b2)"
      "add_and_gate b2 x y = (z, b3)" "add_xor_gate b3 z c = (co, b4)"
  shows "adds bld b4 co (\<lambda>ins. (node_val bld ins a \<and> node_val bld ins b) \<or>
     (node_val bld ins c \<and> (node_val bld ins a \<or> node_val bld ins b)))"
proof -
  note a1 = add_xor_gate_adds [OF wf v(1,3) g(1)]
  have v1: "b < feed_id b1" "c < feed_id b1" using adds_old [OF a1] v by simp_all
  note a2 = add_xor_gate_adds [OF addsD(1) [OF a1] v1 g(2)]
  have v2: "x < feed_id b2" "c < feed_id b2" using adds_old [OF a2] addsD(3) [OF a1] v1 by simp_all
  note a3 = add_and_gate_adds [OF addsD(1) [OF a2] v2(1) addsD(3) [OF a2] g(3)]
  have v3: "c < feed_id b3" using adds_old [OF a3] v2 by simp
  note a4 = add_xor_gate_adds [OF addsD(1) [OF a3] addsD(3) [OF a3] v3 g(4)]
  have "node_val b4 ins co = ((node_val bld ins a \<and> node_val bld ins b) \<or>
     (node_val bld ins c \<and> (node_val bld ins a \<or> node_val bld ins b)))" for ins
    using addsD(4) [OF a4] addsD(4) [OF a3] addsD(4) [OF a2] addsD(4) [OF a1]
      adds_old [OF a3 v2(2)] adds_old [OF a2 v1(2)] adds_old [OF a2 addsD(3) [OF a1]]
      adds_old [OF a1 v(3)] adds_old [OF a1 v(2)] by auto
  moreover have "extends bld b4"
    using a1 a2 a3 a4 by (auto simp: adds_def intro: extends_trans)
  ultimately show ?thesis using addsD(1,3) [OF a4] by (simp add: adds_def)
qed

lemma full_adder_adds:
  assumes wf: "wf_builder bld" and v: "a < feed_id bld" "b < feed_id bld" "c < feed_id bld"
    and eq: "full_adder bld a b c = ((s, co), bld')"
  shows "wf_builder bld' \<and> extends bld bld' \<and> s < feed_id bld' \<and> co < feed_id bld' \<and>
    (\<forall>ins. (of_bool (node_val bld' ins s) :: nat) + 2 * of_bool (node_val bld' ins co) =
       of_bool (node_val bld ins a) + of_bool (node_val bld ins b) + of_bool (node_val bld ins c))"
proof -
  from eq obtain b2 x b3 y b4 z b5 where
    n: "full_adder_no_carry_out bld a b c = (s, b2)" and
    g: "add_xor_gate b2 a c = (x, b3)" "add_xor_gate b3 b c = (y, b4)"
       "add_and_gate b4 x y = (z, b5)" "add_xor_gate b5 z c = (co, bld')"
    by (auto simp: full_adder_def full_adder_no_carry_out_def split: prod.splits)
  note a1 = full_adder_no_carry_out_adds [OF wf v n]
  have v1: "a < feed_id b2" "b < feed_id b2" "c < feed_id b2" using adds_old [OF a1] v by simp_all
  note a2 = carry_adds [OF addsD(1) [OF a1] v1 g]
  have "node_val bld' ins s = ((node_val bld ins a \<noteq> node_val bld ins b) \<noteq> node_val bld ins c)"
    "node_val bld' ins co = ((node_val bld ins a \<and> node_val bld ins b) \<or>
       (node_val bld ins c \<and> (node_val bld ins a \<or> node_val bld ins b)))" for ins
    using adds_old [OF a2 addsD(3) [OF a1]] adds_old [OF a1] v addsD(4) [OF a1] addsD(4) [OF a2] by simp_all
  moreover have "s < feed_id bld'" using adds_old [OF a2 addsD(3) [OF a1]] by simp
  moreover have "extends bld bld'" using a1 a2 by (auto simp: adds_def intro: extends_trans)
  ultimately show ?thesis using addsD(1,3) [OF a2] by auto
qed

section \<open>Wrapping addition\<close>

lemma adder_step:
  fixes A B k :: nat
  assumes "(of_bool s :: nat) + 2 * of_bool co = of_bool a + of_bool b + c"
  shows "of_bool s + 2 * ((A + B + of_bool co) mod 2 ^ k) =
           (of_bool a + 2 * A + (of_bool b + 2 * B) + c) mod 2 ^ Suc k"
proof -
  have "of_bool a + 2 * A + (of_bool b + 2 * B) + c = of_bool s + 2 * (A + B + of_bool co)"
    using assms by simp
  then show ?thesis
    using of_bool_plus_double_mod [of "2 ^ k" s "A + B + of_bool co"] by (simp only: power_Suc) simp
qed

lemma of_bool_xor3:
  "(of_bool ((a \<noteq> b) \<noteq> c) :: nat) = (of_bool a + of_bool b + of_bool c) mod 2"
  by (cases a; cases b; cases c) simp_all

definition sum_spec :: "builder \<Rightarrow> builder \<Rightarrow> node list \<Rightarrow> (bool list \<Rightarrow> nat) \<Rightarrow> bool" where
  "sum_spec b b' ns F \<longleftrightarrow> wf_builder b' \<and> extends b b' \<and> valid b' ns \<and>
     (\<forall>ins. nat_of_bits (vals b' ins ns) = F ins mod 2 ^ length ns)"

lemma sum_spec_Cons:
  assumes b: "wf_builder b1" "extends b b1" "s < feed_id b1" "valid b as" "valid b bs"
    and val: "\<And>ins. (of_bool (node_val b1 ins s) :: nat) + 2 * of_bool (node_val b1 ins co) =
       of_bool (node_val b ins x) + of_bool (node_val b ins y) + c ins"
    and rest: "sum_spec b1 b' ns (\<lambda>ins. nat_of_bits (vals b1 ins as) + nat_of_bits (vals b1 ins bs) +
       of_bool (node_val b1 ins co))"
  shows "sum_spec b b' (s # ns) (\<lambda>ins. nat_of_bits (vals b ins (x # as)) + nat_of_bits (vals b ins (y # bs)) + c ins)"
proof -
  from rest have r: "wf_builder b'" "extends b1 b'" "valid b' ns"
    "\<And>ins. nat_of_bits (vals b' ins ns) = (nat_of_bits (vals b1 ins as) + nat_of_bits (vals b1 ins bs) +
       of_bool (node_val b1 ins co)) mod 2 ^ length ns"
    by (auto simp: sum_spec_def)
  have "nat_of_bits (vals b' ins (s # ns)) = (nat_of_bits (vals b ins (x # as)) + nat_of_bits (vals b ins (y # bs)) +
      c ins) mod 2 ^ length (s # ns)" for ins
    using adder_step [OF val, of ins "nat_of_bits (vals b ins as)" "nat_of_bits (vals b ins bs)" "length ns"]
    unfolding list.map nat_of_bits_simps list.size extends_node_val [OF r(2) b(3)] r(4)
      vals_extends [OF b(2) b(4)] vals_extends [OF b(2) b(5)] by simp
  with r b show ?thesis by (auto simp: sum_spec_def intro: extends_trans lt_extends)
qed

lemma wrapping_add_loop_carry:
  assumes "wf_builder bld" "valid bld as" "valid bld bs" "c < feed_id bld" "length as = length bs"
    "0 < n" "n + length as = len" "wrapping_add_loop len n c bld as bs = (ns, bld')"
  shows "length ns = length as \<and>
    sum_spec bld bld' ns (\<lambda>ins. nat_of_bits (vals bld ins as) + nat_of_bits (vals bld ins bs) +
      of_bool (node_val bld ins c))"
  using assms
proof (induction as arbitrary: bs n c bld ns)
  case Nil
  then show ?case by (auto simp: sum_spec_def)
next
  case (Cons x as)
  from Cons.prems obtain y bs' where bs: "bs = y # bs'" by (cases bs) auto
  have v: "x < feed_id bld" "y < feed_id bld" "valid bld as" "valid bld bs'"
    using Cons.prems by (simp_all add: bs)
  show ?case
  proof (cases "n < len - 1")
    case True
    with Cons.prems(6,8) obtain s co b1 rest where g: "full_adder bld x y c = ((s, co), b1)"
      "wrapping_add_loop len (n + 1) co b1 as bs' = (rest, bld')" "ns = s # rest"
      by (auto simp: bs split: prod.splits)
    have fa: "wf_builder b1" "extends bld b1" "s < feed_id b1" "co < feed_id b1"
      "\<And>ins. (of_bool (node_val b1 ins s) :: nat) + 2 * of_bool (node_val b1 ins co) =
        of_bool (node_val bld ins x) + of_bool (node_val bld ins y) + of_bool (node_val bld ins c)"
      using full_adder_adds [OF Cons.prems(1) v(1,2) Cons.prems(4) g(1)] by auto
    have IH: "length rest = length as" "sum_spec b1 bld' rest (\<lambda>ins. nat_of_bits (vals b1 ins as) +
        nat_of_bits (vals b1 ins bs') + of_bool (node_val b1 ins co))"
      using Cons.IH [OF fa(1) valid_extends [OF v(3) fa(2)] valid_extends [OF v(4) fa(2)] fa(4) _ _ _ g(2)]
        Cons.prems by (auto simp: bs)
    show ?thesis
      unfolding bs g(3) using sum_spec_Cons [OF fa(1-3) v(3,4) fa(5) IH(2)] IH(1) by simp
  next
    case False
    with Cons.prems have e: "as = []" "bs' = []" by (auto simp: bs)
    with False Cons.prems obtain s where g: "full_adder_no_carry_out bld x y c = (s, bld')" "ns = [s]"
      by (auto simp: bs split: prod.splits)
    note ad = full_adder_no_carry_out_adds [OF Cons.prems(1) v(1,2) Cons.prems(4) g(1)]
    then have "nat_of_bits (vals bld' ins [s]) = (nat_of_bits (vals bld ins [x]) + nat_of_bits (vals bld ins [y]) +
        of_bool (node_val bld ins c)) mod 2 ^ length [s]" for ins
      using of_bool_xor3 by (simp add: adds_def)
    with ad show ?thesis
      unfolding bs g(2) e by (auto simp: sum_spec_def adds_def)
  qed
qed

lemma wrapping_add_adds:
  assumes wf: "wf_builder bld" and v: "valid bld a" "valid bld b" and len: "length a = length b"
    and eq: "wrapping_add bld a b = Inr (ns, bld')"
  shows "length ns = length a \<and>
    sum_spec bld bld' ns (\<lambda>ins. nat_of_bits (vals bld ins a) + nat_of_bits (vals bld ins b))"
proof (cases a)
  case Nil
  with assms show ?thesis by (auto simp: wrapping_add_def sum_spec_def)
next
  case (Cons x as)
  with len obtain y bs where b: "b = y # bs" by (cases b) auto
  have v': "x < feed_id bld" "y < feed_id bld" "valid bld as" "valid bld bs"
    using v by (simp_all add: Cons b)
  from eq obtain s co b1 rest where g: "half_adder bld x y = ((s, co), b1)"
    "wrapping_add_loop (length a) 1 co b1 as bs = (rest, bld')" "ns = s # rest"
    using len by (auto simp: wrapping_add_def Cons b split: prod.splits)
  have ha: "wf_builder b1" "extends bld b1" "s < feed_id b1" "co < feed_id b1"
    "\<And>ins. (of_bool (node_val b1 ins s) :: nat) + 2 * of_bool (node_val b1 ins co) =
      of_bool (node_val bld ins x) + of_bool (node_val bld ins y) + 0"
    using half_adder_adds [OF wf v'(1,2) g(1)] by auto
  have IH: "length rest = length as" "sum_spec b1 bld' rest (\<lambda>ins. nat_of_bits (vals b1 ins as) +
      nat_of_bits (vals b1 ins bs) + of_bool (node_val b1 ins co))"
    using wrapping_add_loop_carry [OF ha(1) valid_extends [OF v'(3) ha(2)] valid_extends [OF v'(4) ha(2)]
        ha(4) _ _ _ g(2)] len by (auto simp: Cons b)
  show ?thesis
    unfolding Cons b g(3) using sum_spec_Cons [OF ha(1-3) v'(3,4) ha(5) IH(2)] IH(1) by simp
qed

lemma wrapping_add_total: "length a = length b \<Longrightarrow> \<exists>ns bld'. wrapping_add bld a b = Inr (ns, bld')"
  by (simp add: wrapping_add_def)

section \<open>Bitwise operations\<close>

text \<open>One step of a bitwise loop: a node for the head, then the loop on the tail.\<close>

lemma addsL_loop:
  assumes hd: "adds b b1 n (\<lambda>ins. f (node_val b ins x) (node_val b ins y))"
    and v: "valid b as" "valid b bs"
    and tl: "addsL b1 b' ns (\<lambda>ins. map2 f (vals b1 ins as) (vals b1 ins bs))"
  shows "addsL b b' (n # ns) (\<lambda>ins. map2 f (vals b ins (x # as)) (vals b ins (y # bs)))"
  using addsL_Cons [OF hd tl] vals_extends [OF addsD(2) [OF hd]] v by simp

lemma xor_nodes_adds:
  assumes "wf_builder bld" "valid bld as" "valid bld bs" "length as = length bs"
    "xor_nodes bld as bs = (ns, bld')"
  shows "addsL bld bld' ns (\<lambda>ins. map2 (\<noteq>) (vals bld ins as) (vals bld ins bs))"
  using assms
proof (induction bld as bs arbitrary: ns rule: xor_nodes.induct)
  case (1 bld a as b bs)
  then obtain n b1 ns' where g: "add_xor_gate bld a b = (n, b1)" "xor_nodes b1 as bs = (ns', bld')" "ns = n # ns'"
    by (auto split: prod.splits)
  have hd: "adds bld b1 n (\<lambda>ins. node_val bld ins a \<noteq> node_val bld ins b)"
    using "1.prems" by (intro add_xor_gate_adds [OF _ _ _ g(1)]) auto
  have tl: "addsL b1 bld' ns' (\<lambda>ins. map2 (\<noteq>) (vals b1 ins as) (vals b1 ins bs))"
    using 1 g addsD(1,2) [OF hd] by (intro "1.IH") (auto intro: valid_extends)
  show ?case unfolding g(3) using addsL_loop [OF hd _ _ tl] "1.prems" by simp
qed (auto intro: addsL_Nil)

lemma and_nodes_adds:
  assumes "wf_builder bld" "valid bld as" "valid bld bs" "length as = length bs"
    "and_nodes bld as bs = (ns, bld')"
  shows "addsL bld bld' ns (\<lambda>ins. map2 (\<and>) (vals bld ins as) (vals bld ins bs))"
  using assms
proof (induction bld as bs arbitrary: ns rule: and_nodes.induct)
  case (1 bld a as b bs)
  then obtain n b1 ns' where g: "add_and_gate bld a b = (n, b1)" "and_nodes b1 as bs = (ns', bld')" "ns = n # ns'"
    by (auto split: prod.splits)
  have hd: "adds bld b1 n (\<lambda>ins. node_val bld ins a \<and> node_val bld ins b)"
    using 1 g by (auto intro: add_and_gate_adds)
  have tl: "addsL b1 bld' ns' (\<lambda>ins. map2 (\<and>) (vals b1 ins as) (vals b1 ins bs))"
    using 1 g addsD(1,2) [OF hd] by (intro "1.IH") (auto intro: valid_extends)
  show ?case unfolding g(3) using addsL_loop [OF hd _ _ tl] "1.prems" by simp
qed (auto intro: addsL_Nil)

lemma or_gate_adds:
  assumes wf: "wf_builder bld" and v: "a < feed_id bld" "b < feed_id bld"
    and g: "add_xor_gate bld a b = (x, b1)" "add_and_gate b1 a b = (y, b2)" "add_xor_gate b2 x y = (n, b3)"
  shows "adds bld b3 n (\<lambda>ins. node_val bld ins a \<or> node_val bld ins b)"
proof -
  note a1 = add_xor_gate_adds [OF wf v g(1)]
  have v1: "a < feed_id b1" "b < feed_id b1" using adds_old [OF a1] v by simp_all
  note a2 = add_and_gate_adds [OF addsD(1) [OF a1] v1 g(2)]
  have v2: "x < feed_id b2" using adds_old [OF a2 addsD(3) [OF a1]] by simp
  note a3 = add_xor_gate_adds [OF addsD(1) [OF a2] v2 addsD(3) [OF a2] g(3)]
  have "node_val b3 ins n = (node_val bld ins a \<or> node_val bld ins b)" for ins
    using addsD(4) [OF a3] addsD(4) [OF a2] addsD(4) [OF a1] adds_old [OF a2 addsD(3) [OF a1]]
      adds_old [OF a1 v(1)] adds_old [OF a1 v(2)] by auto
  moreover have "extends bld b3" using a1 a2 a3 by (auto simp: adds_def intro: extends_trans)
  ultimately show ?thesis using addsD(1,3) [OF a3] by (simp add: adds_def)
qed

lemma or_nodes_adds:
  assumes "wf_builder bld" "valid bld as" "valid bld bs" "length as = length bs"
    "or_nodes bld as bs = (ns, bld')"
  shows "addsL bld bld' ns (\<lambda>ins. map2 (\<or>) (vals bld ins as) (vals bld ins bs))"
  using assms
proof (induction bld as bs arbitrary: ns rule: or_nodes.induct)
  case (1 bld a as b bs)
  then obtain x b1 y b2 n b3 ns' where g: "add_xor_gate bld a b = (x, b1)" "add_and_gate b1 a b = (y, b2)"
    "add_xor_gate b2 x y = (n, b3)" and r: "or_nodes b3 as bs = (ns', bld')" "ns = n # ns'"
    by (auto split: prod.splits)
  have hd: "adds bld b3 n (\<lambda>ins. node_val bld ins a \<or> node_val bld ins b)"
    using 1 g by (auto intro: or_gate_adds)
  have tl: "addsL b3 bld' ns' (\<lambda>ins. map2 (\<or>) (vals b3 ins as) (vals b3 ins bs))"
    using 1 g r addsD(1,2) [OF hd] by (intro "1.IH") (auto intro: valid_extends)
  show ?case unfolding r(2) using addsL_loop [OF hd _ _ tl] "1.prems" by simp
qed (auto intro: addsL_Nil)

lemma inv_loop_adds:
  assumes "wf_builder bld" "valid bld bs" "inv_loop bld bs = (ns, bld')"
  shows "addsL bld bld' ns (\<lambda>ins. map Not (vals bld ins bs))"
  using assms
proof (induction bld bs arbitrary: ns rule: inv_loop.induct)
  case (2 bld b bs)
  then obtain n b1 ns' where g: "add_inv_gate bld b = (n, b1)" "inv_loop b1 bs = (ns', bld')" "ns = n # ns'"
    by (auto split: prod.splits)
  have hd: "adds bld b1 n (\<lambda>ins. \<not> node_val bld ins b)"
    using 2 g by (auto intro: add_inv_gate_adds)
  have tl: "addsL b1 bld' ns' (\<lambda>ins. map Not (vals b1 ins bs))"
    using 2 g addsD(1,2) [OF hd] by (intro "2.IH") (auto intro: valid_extends)
  have eq: "vals b1 ins bs = vals bld ins bs" for ins
    using vals_extends [OF addsD(2) [OF hd]] "2.prems" by (meson valid_simps(2))
  show ?case using addsL_Cons [OF hd tl] unfolding eq g(3) by simp
qed (auto intro: addsL_Nil)

lemma switch_bit_adds:
  assumes wf: "wf_builder bld" and v: "a < feed_id bld" "b < feed_id bld" "t < feed_id bld" "nt < feed_id bld"
    and nt: "\<And>ins. node_val bld ins nt = (\<not> node_val bld ins t)"
    and g: "add_and_gate bld a nt = (x, b1)" "add_and_gate b1 b t = (y, b2)" "add_xor_gate b2 x y = (n, b3)"
  shows "adds bld b3 n (\<lambda>ins. if node_val bld ins t then node_val bld ins b else node_val bld ins a)"
proof -
  note a1 = add_and_gate_adds [OF wf v(1,4) g(1)]
  have v1: "b < feed_id b1" "t < feed_id b1" using adds_old [OF a1] v by simp_all
  note a2 = add_and_gate_adds [OF addsD(1) [OF a1] v1 g(2)]
  have v2: "x < feed_id b2" using adds_old [OF a2 addsD(3) [OF a1]] by simp
  note a3 = add_xor_gate_adds [OF addsD(1) [OF a2] v2 addsD(3) [OF a2] g(3)]
  have "node_val b3 ins n = (if node_val bld ins t then node_val bld ins b else node_val bld ins a)" for ins
    using addsD(4) [OF a3] addsD(4) [OF a2] addsD(4) [OF a1] adds_old [OF a2 addsD(3) [OF a1]]
      adds_old [OF a1 v(2)] adds_old [OF a1 v(3)] nt by auto
  moreover have "extends bld b3" using a1 a2 a3 by (auto simp: adds_def intro: extends_trans)
  ultimately show ?thesis using addsD(1,3) [OF a3] by (simp add: adds_def)
qed

lemma switch_loop_adds:
  assumes "wf_builder bld" "valid bld as" "valid bld bs" "length as = length bs"
    "t < feed_id bld" "nt < feed_id bld" "\<And>ins. node_val bld ins nt = (\<not> node_val bld ins t)"
    "switch_loop bld t nt as bs = (ns, bld')"
  shows "addsL bld bld' ns (\<lambda>ins. if node_val bld ins t then vals bld ins bs else vals bld ins as)"
  using assms
proof (induction bld t nt as bs arbitrary: ns rule: switch_loop.induct)
  case (1 bld t nt a as b bs)
  then obtain x b1 y b2 n b3 ns' where g: "add_and_gate bld a nt = (x, b1)" "add_and_gate b1 b t = (y, b2)"
    "add_xor_gate b2 x y = (n, b3)" and r: "switch_loop b3 t nt as bs = (ns', bld')" "ns = n # ns'"
    by (auto split: prod.splits)
  have hd: "adds bld b3 n (\<lambda>ins. if node_val bld ins t then node_val bld ins b else node_val bld ins a)"
    using "1.prems" g by (intro switch_bit_adds) auto
  note old = adds_old [OF hd]
  have tl: "addsL b3 bld' ns' (\<lambda>ins. if node_val b3 ins t then vals b3 ins bs else vals b3 ins as)"
    using "1.prems" g r addsD(1,2) [OF hd] old by (intro "1.IH") (auto intro: valid_extends)
  have "(\<lambda>ins. (if node_val bld ins t then node_val bld ins b else node_val bld ins a) #
      (if node_val b3 ins t then vals b3 ins bs else vals b3 ins as)) =
      (\<lambda>ins. if node_val bld ins t then vals bld ins (b # bs) else vals bld ins (a # as))"
    using vals_extends [OF addsD(2) [OF hd]] "1.prems" old by (auto simp: fun_eq_iff)
  with addsL_Cons [OF hd tl] show ?case unfolding r(2) by metis
qed (auto simp: addsL_def)

lemma switch_adds:
  assumes wf: "wf_builder bld" and v: "valid bld a" "valid bld b" "t < feed_id bld" and len: "length a = length b"
    and eq: "switch bld a b t = Inr (ns, bld')"
  shows "addsL bld bld' ns (\<lambda>ins. if node_val bld ins t then vals bld ins b else vals bld ins a)"
proof -
  from eq len obtain nt b1 where g: "add_inv_gate bld t = (nt, b1)" "switch_loop b1 t nt a b = (ns, bld')"
    by (auto simp: switch_def split: prod.splits)
  note a1 = add_inv_gate_adds [OF wf v(3) g(1)]
  note old = adds_old [OF a1 v(3)]
  have "addsL b1 bld' ns (\<lambda>ins. if node_val b1 ins t then vals b1 ins b else vals b1 ins a)"
    using addsD [OF a1] old v len by (intro switch_loop_adds [OF _ _ _ _ _ _ _ g(2)]) (auto intro: valid_extends)
  then show ?thesis
    using addsD(2) [OF a1] old v vals_extends [OF addsD(2) [OF a1]]
    by (auto simp: addsL_def intro: extends_trans)
qed

section \<open>Wrapping subtraction and modular addition\<close>

definition carry_spec :: "builder \<Rightarrow> builder \<Rightarrow> node list \<Rightarrow> node \<Rightarrow> (bool list \<Rightarrow> nat) \<Rightarrow> bool" where
  "carry_spec b b' ns co F \<longleftrightarrow> wf_builder b' \<and> extends b b' \<and> valid b' ns \<and> co < feed_id b' \<and>
     (\<forall>ins. nat_of_bits (vals b' ins ns) + 2 ^ length ns * of_bool (node_val b' ins co) = F ins)"

lemma sub_loop_carry:
  assumes "wf_builder bld" "valid bld as" "valid bld bs" "c < feed_id bld" "length as = length bs"
    "sub_loop bld c as bs = ((ns, co), bld')"
  shows "length ns = length as \<and> carry_spec bld bld' ns co
    (\<lambda>ins. nat_of_bits (vals bld ins as) + nat_of_bits (vals bld ins bs) + of_bool (node_val bld ins c))"
  using assms
proof (induction as arbitrary: bs c bld ns)
  case Nil
  then show ?case by (auto simp: carry_spec_def)
next
  case (Cons x as)
  from Cons.prems obtain y bs' where bs: "bs = y # bs'" by (cases bs) auto
  have v: "x < feed_id bld" "y < feed_id bld" "valid bld as" "valid bld bs'"
    using Cons.prems by (simp_all add: bs)
  from Cons.prems(6) obtain s c1 b1 rest where g: "full_adder bld x y c = ((s, c1), b1)"
    "sub_loop b1 c1 as bs' = ((rest, co), bld')" "ns = s # rest"
    by (auto simp: bs split: prod.splits)
  have fa: "wf_builder b1" "extends bld b1" "s < feed_id b1" "c1 < feed_id b1"
    "\<And>ins. (of_bool (node_val b1 ins s) :: nat) + 2 * of_bool (node_val b1 ins c1) =
      of_bool (node_val bld ins x) + of_bool (node_val bld ins y) + of_bool (node_val bld ins c)"
    using full_adder_adds [OF Cons.prems(1) v(1,2) Cons.prems(4) g(1)] by auto
  have IH: "length rest = length as" "carry_spec b1 bld' rest co (\<lambda>ins. nat_of_bits (vals b1 ins as) +
      nat_of_bits (vals b1 ins bs') + of_bool (node_val b1 ins c1))"
    using Cons.IH [OF fa(1) valid_extends [OF v(3) fa(2)] valid_extends [OF v(4) fa(2)] fa(4) _ g(2)]
      Cons.prems by (auto simp: bs)
  from IH(2) have r: "wf_builder bld'" "extends b1 bld'" "valid bld' rest" "co < feed_id bld'"
    "\<And>ins. nat_of_bits (vals bld' ins rest) + 2 ^ length rest * of_bool (node_val bld' ins co) =
       nat_of_bits (vals b1 ins as) + nat_of_bits (vals b1 ins bs') + of_bool (node_val b1 ins c1)"
    by (auto simp: carry_spec_def)
  have "nat_of_bits (vals bld' ins (s # rest)) + 2 ^ length (s # rest) * of_bool (node_val bld' ins co) =
      nat_of_bits (vals bld ins (x # as)) + nat_of_bits (vals bld ins (y # bs')) + of_bool (node_val bld ins c)" for ins
    using fa(5) [of ins] r(5) [of ins]
    unfolding list.map nat_of_bits_simps list.size extends_node_val [OF r(2) fa(3)]
      vals_extends [OF fa(2) v(3)] vals_extends [OF fa(2) v(4)]
    by (simp only: power_Suc add_Suc_right power_add plus_nat.add_0 add_0_right)
  with r fa IH(1) show ?case
    unfolding bs g(3) by (auto simp: carry_spec_def intro: extends_trans lt_extends)
qed

lemma nat_of_bits_Not: "nat_of_bits (map Not bs) + nat_of_bits bs + 1 = 2 ^ length bs"
  by (induction bs) auto

text \<open>
  The difference modulo the word size and the borrow, as a specification of
  \<open>wrapping_sub\<close>.
\<close>

lemma wrapping_sub_adds:
  assumes wf: "wf_builder bld" and v: "valid bld a" "valid bld b" and len: "length a = length b"
    and eq: "wrapping_sub bld a b = Inr ((ns, u), bld')"
  shows "wf_builder bld' \<and> extends bld bld' \<and> valid bld' ns \<and> u < feed_id bld' \<and> length ns = length a \<and>
    (\<forall>ins. nat_of_bits (vals bld' ins ns) =
        (nat_of_bits (vals bld ins a) + 2 ^ length a - nat_of_bits (vals bld ins b)) mod 2 ^ length a \<and>
      node_val bld' ins u = (nat_of_bits (vals bld ins a) < nat_of_bits (vals bld ins b)))"
proof -
  from eq len obtain bi b1 co b2 where g: "inv_loop bld b = (bi, b1)" "sub_loop b1 1 a bi = ((ns, co), b2)"
    "add_inv_gate b2 co = (u, bld')"
    by (auto simp: wrapping_sub_def Let_def split: prod.splits)
  note a1 = inv_loop_adds [OF wf v(2) g(1)]
  have lbi: "length bi = length b" using addsL_D(4) [OF a1] by (metis length_map)
  have one: "1 < feed_id b1" using wf_builder_feed_id [OF addsL_D(1) [OF a1]] by simp
  have sub: "length ns = length a" "carry_spec b1 b2 ns co
    (\<lambda>ins. nat_of_bits (vals b1 ins a) + nat_of_bits (vals b1 ins bi) + of_bool (node_val b1 ins 1))"
    using sub_loop_carry [OF addsL_D(1) [OF a1] valid_extends [OF v(1) addsL_D(2) [OF a1]]
        addsL_D(3) [OF a1] one _ g(2)] len lbi by auto
  then have r: "wf_builder b2" "extends b1 b2" "valid b2 ns" "co < feed_id b2"
    "\<And>ins. nat_of_bits (vals b2 ins ns) + 2 ^ length a * of_bool (node_val b2 ins co) =
       nat_of_bits (vals bld ins a) + nat_of_bits (map Not (vals bld ins b)) + 1"
    using addsL_D(1,4) [OF a1] vals_extends [OF addsL_D(2) [OF a1] v(1)] by (auto simp: carry_spec_def)
  note a3 = add_inv_gate_adds [OF r(1) r(4) g(3)]
  have "nat_of_bits (vals bld' ins ns) =
        (nat_of_bits (vals bld ins a) + 2 ^ length a - nat_of_bits (vals bld ins b)) mod 2 ^ length a \<and>
      node_val bld' ins u = (nat_of_bits (vals bld ins a) < nat_of_bits (vals bld ins b))" for ins
  proof -
    let ?A = "nat_of_bits (vals bld ins a)" and ?B = "nat_of_bits (vals bld ins b)"
      and ?D = "nat_of_bits (vals b2 ins ns)" and ?c = "node_val b2 ins co"
    have e: "?D + 2 ^ length a * of_bool ?c = ?A + 2 ^ length a - ?B"
      using r(5) [of ins] nat_of_bits_Not [of "vals bld ins b"] len by simp
    have lt: "?D < 2 ^ length a" "?A < 2 ^ length a" "?B < 2 ^ length a"
      using nat_of_bits_lt [of "vals b2 ins ns"] nat_of_bits_lt [of "vals bld ins a"]
        nat_of_bits_lt [of "vals bld ins b"] sub(1) len by simp_all
    have "?D = (?A + 2 ^ length a - ?B) mod 2 ^ length a"
      unfolding e [symmetric] using lt(1) by simp
    moreover have "?c = (?B \<le> ?A)" using e lt by (cases ?c) auto
    ultimately show ?thesis
      unfolding vals_extends [OF addsD(2) [OF a3] r(3)] addsD(4) [OF a3] by auto
  qed
  moreover have "extends bld bld'"
    using addsL_D(2) [OF a1] r(2) addsD(2) [OF a3] by (blast intro: extends_trans)
  moreover have "valid bld' ns" using valid_extends [OF r(3) addsD(2) [OF a3]] .
  ultimately show ?thesis using addsD(1,3) [OF a3] sub(1) by blast
qed

lemma nat_of_bits_snoc: "nat_of_bits (bs @ [b]) = nat_of_bits bs + 2 ^ length bs * of_bool b"
  by (simp add: nat_of_bits_append)

lemma nat_of_bits_take: "nat_of_bits (take n bs) = nat_of_bits bs mod 2 ^ n"
proof (induction bs arbitrary: n)
  case (Cons b bs)
  then show ?case using of_bool_plus_double_mod [of "2 ^ (n - 1)" b "nat_of_bits bs"] by (cases n) simp_all
qed simp

lemma add_mod_arith:
  fixes A B M n :: nat
  assumes "A < M" "B < M" "M < 2 ^ n"
  shows "(if A + B < M then A + B else (A + B + 2 ^ Suc n - M) mod 2 ^ Suc n) mod 2 ^ n = (A + B) mod M"
proof (cases "A + B < M")
  case True
  with assms show ?thesis by simp
next
  case False
  have "A + B + P - M = (A + B - M) + P" if "M \<le> A + B" for P
    using that by arith
  moreover have "A + B - M < 2 ^ Suc n" using assms by (simp only: power_Suc)
  ultimately have "(A + B + 2 ^ Suc n - M) mod 2 ^ Suc n = A + B - M"
    using False by (metis mod_add_self2 mod_less not_le)
  moreover have "(A + B) mod M = A + B - M"
    using False assms by (simp add: le_mod_geq)
  ultimately show ?thesis using False assms by simp
qed

lemma add_mod_adds:
  assumes wf: "wf_builder bld" and v: "valid bld a" "valid bld b" "valid bld m"
    and len: "length a = length b" "length a = length m"
    and eq: "add_mod bld a b m = Inr (ns, bld')"
  shows "wf_builder bld' \<and> extends bld bld' \<and> valid bld' ns \<and> length ns = length a \<and>
    (\<forall>ins. nat_of_bits (vals bld ins a) < nat_of_bits (vals bld ins m) \<and>
           nat_of_bits (vals bld ins b) < nat_of_bits (vals bld ins m) \<longrightarrow>
       nat_of_bits (vals bld' ins ns) =
         (nat_of_bits (vals bld ins a) + nat_of_bits (vals bld ins b)) mod nat_of_bits (vals bld ins m))"
proof -
  let ?z = "\<lambda>xs. xs @ [get_const_zero]"
  from eq len obtain s b1 r u b2 o' where g: "wrapping_add bld (?z a) (?z b) = (Inr (s, b1) :: (unit, _) result)"
    "wrapping_sub b1 s (?z m) = (Inr ((r, u), b2) :: (unit, _) result)"
    "switch b2 r s u = (Inr (o', bld') :: (unit, _) result)" "ns = take (length o' - 1) o'"
    by (auto simp: add_mod_def Let_def wrapping_add_def wrapping_sub_def switch_def assertR_def
        result_simps split: prod.splits if_splits)
  have vz: "valid bld (?z a)" "valid bld (?z b)" "valid bld (?z m)"
    using v wf_builder_feed_id [OF wf] by (simp_all add: get_const_zero_def)
  have zv: "nat_of_bits (vals bld ins (?z xs)) = nat_of_bits (vals bld ins xs)" for ins xs
    using wf by (simp add: nat_of_bits_snoc get_const_zero_def)
  have add: "length s = Suc (length a)" "wf_builder b1" "extends bld b1" "valid b1 s"
    "\<And>ins. nat_of_bits (vals b1 ins s) =
       (nat_of_bits (vals bld ins a) + nat_of_bits (vals bld ins b)) mod 2 ^ Suc (length a)"
    using wrapping_add_adds [OF wf vz(1,2) _ g(1)] len unfolding sum_spec_def zv by auto
  have vm: "valid b1 (?z m)" using valid_extends [OF vz(3) add(3)] .
  have zm: "nat_of_bits (vals b1 ins (?z m)) = nat_of_bits (vals bld ins m)" for ins
    using vals_extends [OF add(3) vz(3)] zv by metis
  have sub: "wf_builder b2" "extends b1 b2" "valid b2 r" "u < feed_id b2" "length r = Suc (length a)"
    "\<And>ins. nat_of_bits (vals b2 ins r) =
       (nat_of_bits (vals b1 ins s) + 2 ^ Suc (length a) - nat_of_bits (vals bld ins m)) mod 2 ^ Suc (length a)"
    "\<And>ins. node_val b2 ins u = (nat_of_bits (vals b1 ins s) < nat_of_bits (vals bld ins m))"
    using wrapping_sub_adds [OF add(2) add(4) vm _ g(2)] add(1) len unfolding zm by auto
  have sw: "addsL b2 bld' o' (\<lambda>ins. if node_val b2 ins u then vals b2 ins s else vals b2 ins r)"
    using switch_adds [OF sub(1) sub(3) valid_extends [OF add(4) sub(2)] sub(4) _ g(3)] sub(5) add(1) by simp
  have "length (vals bld' [] o') = Suc (length a)" using addsL_D(4) [OF sw, of "[]"] sub(5) add(1) by simp
  then have lo: "length o' = Suc (length a)" by simp
  have "nat_of_bits (vals bld' ins ns) =
      (nat_of_bits (vals bld ins a) + nat_of_bits (vals bld ins b)) mod nat_of_bits (vals bld ins m)"
    if pre: "nat_of_bits (vals bld ins a) < nat_of_bits (vals bld ins m)"
      "nat_of_bits (vals bld ins b) < nat_of_bits (vals bld ins m)" for ins
  proof -
    let ?A = "nat_of_bits (vals bld ins a)" and ?B = "nat_of_bits (vals bld ins b)"
      and ?M = "nat_of_bits (vals bld ins m)"
    have M: "?M < 2 ^ length a" using nat_of_bits_lt [of "vals bld ins m"] len by simp
    with pre have S: "nat_of_bits (vals b1 ins s) = ?A + ?B" unfolding add(5) by simp
    have "vals bld' ins ns = take (length a) (vals bld' ins o')" by (simp add: g(4) lo take_map)
    then have "nat_of_bits (vals bld' ins ns) =
        (if ?A + ?B < ?M then ?A + ?B else (?A + ?B + 2 ^ Suc (length a) - ?M) mod 2 ^ Suc (length a)) mod 2 ^ length a"
      unfolding addsL_D(4) [OF sw] sub(7) vals_extends [OF sub(2) add(4)] nat_of_bits_take
      by (simp only: nat_of_bits_take if_distrib [of nat_of_bits] sub(6) S)
    then show ?thesis using add_mod_arith [OF pre M] by simp
  qed
  moreover have "extends bld bld'"
    using add(3) sub(2) addsL_D(2) [OF sw] by (blast intro: extends_trans)
  moreover have "valid bld' ns"
    using addsL_D(3) [OF sw] by (auto simp: g(4) valid_def dest: in_set_takeD)
  ultimately show ?thesis using addsL_D(1) [OF sw] lo g(4) by auto
qed

section \<open>Properties of the arithmetic\<close>

lemma wrapping_sub_total: "length a = length b \<Longrightarrow> \<exists>ns u bld'. wrapping_sub bld a b = Inr ((ns, u), bld')"
  by (auto simp: wrapping_sub_def Let_def split: prod.splits)

lemma switch_total: "length a = length b \<Longrightarrow> \<exists>ns bld'. switch bld a b t = Inr (ns, bld')"
  by (auto simp: switch_def Let_def split: prod.splits)

text \<open>
  The gates with constant folding compute their functions: for any two nodes of a well-formed
  builder, constants included, the node returned by \<open>add_xor_gate\<close>, \<open>add_and_gate\<close> and \<open>add_inv_gate\<close> has
  the exclusive or, conjunction and negation as value, and no other node changes.
\<close>

theorem gates_compute:
  assumes "wf_builder b" "x < feed_id b" "y < feed_id b"
  shows "(\<exists>n b'. add_xor_gate b x y = (n, b') \<and> adds b b' n (\<lambda>ins. node_val b ins x \<noteq> node_val b ins y)) \<and>
    (\<exists>n b'. add_and_gate b x y = (n, b') \<and> adds b b' n (\<lambda>ins. node_val b ins x \<and> node_val b ins y)) \<and>
    (\<exists>n b'. add_inv_gate b x = (n, b') \<and> adds b b' n (\<lambda>ins. \<not> node_val b ins x))"
proof -
  obtain n1 b1 n2 b2 n3 b3 where "add_xor_gate b x y = (n1, b1)" "add_and_gate b x y = (n2, b2)" "add_inv_gate b x = (n3, b3)"
    by (meson surj_pair)
  then show ?thesis
    using add_xor_gate_adds [OF assms] add_and_gate_adds [OF assms] add_inv_gate_adds [OF assms(1,2)] by blast
qed

theorem gates_compute_witness:
  "\<exists>n b'. add_and_gate builder_new 1 0 = (n, b') \<and> \<not> node_val b' [] n"
proof -
  have "1 < feed_id builder_new" "0 < feed_id builder_new" by (simp_all add: builder_new_def)
  from gates_compute [OF wf_builder_new this] obtain n b' where
    "add_and_gate builder_new 1 0 = (n, b')" "adds builder_new b' n (\<lambda>ins. node_val builder_new ins 1 \<and> node_val builder_new ins 0)"
    by blast
  then show ?thesis using wf_builder_new by (auto simp: adds_def)
qed

text \<open>
  Subtraction: on vectors of equal length \<open>wrapping_sub\<close> succeeds, its result is the difference
  modulo \<open>2\<^sup>n\<close>, and its underflow node is true exactly when the minuend is the smaller number.
\<close>

theorem wrapping_sub_correct:
  assumes "wf_builder bld" "valid bld a" "valid bld b" "length a = length b"
  shows "\<exists>ns u bld'. wrapping_sub bld a b = Inr ((ns, u), bld') \<and> wf_builder bld' \<and> extends bld bld' \<and> length ns = length a \<and>
    (\<forall>ins. nat_of_bits (vals bld' ins ns) =
        (nat_of_bits (vals bld ins a) + 2 ^ length a - nat_of_bits (vals bld ins b)) mod 2 ^ length a \<and>
      node_val bld' ins u = (nat_of_bits (vals bld ins a) < nat_of_bits (vals bld ins b)))"
  using wrapping_sub_total [OF assms(4)] wrapping_sub_adds [OF assms] by blast

theorem wrapping_sub_correct_witness:
  "\<exists>ns u bld'. wrapping_sub builder_new [1, 0] [0, 1] = (Inr ((ns, u), bld') :: (unit, _) result) \<and>
     nat_of_bits (vals bld' [] ns) = 3 \<and> node_val bld' [] u"
proof -
  have "valid builder_new [1, 0]" "valid builder_new [0, 1]" by (simp_all add: builder_new_def)
  from wrapping_sub_correct [OF wf_builder_new this] obtain ns u bld' where
    "wrapping_sub builder_new [1, 0] [0, 1] = (Inr ((ns, u), bld') :: (unit, _) result)"
    "nat_of_bits (vals bld' [] ns) = (nat_of_bits (vals builder_new [] [1, 0]) + 2 ^ length [1 :: nat, 0] -
       nat_of_bits (vals builder_new [] [0, 1])) mod 2 ^ length [1 :: nat, 0]"
    "node_val bld' [] u = (nat_of_bits (vals builder_new [] [1, 0]) < nat_of_bits (vals builder_new [] [0, 1]))"
    by auto
  then show ?thesis using wf_builder_new by simp
qed

lemma add_mod_total:
  assumes "wf_builder bld" "valid bld a" "valid bld b" "valid bld m" "length a = length b" "length a = length m"
  shows "\<exists>ns bld'. add_mod bld a b m = (Inr (ns, bld') :: ('e, _) result)"
proof -
  let ?z = "\<lambda>xs. xs @ [get_const_zero]"
  have vz: "valid bld (?z a)" "valid bld (?z b)" "valid bld (?z m)"
    using assms wf_builder_feed_id [OF assms(1)] by (simp_all add: get_const_zero_def)
  obtain s b1 where s: "wrapping_add bld (?z a) (?z b) = (Inr (s, b1) :: ('e, _) result)"
    using wrapping_add_total [of "?z a" "?z b" bld] assms(5) by auto
  have add: "length s = Suc (length a)" "wf_builder b1" "extends bld b1" "valid b1 s"
    using wrapping_add_adds [OF assms(1) vz(1,2) _ s] assms(5) by (simp_all add: sum_spec_def)
  obtain r u b2 where r: "wrapping_sub b1 s (?z m) = (Inr ((r, u), b2) :: ('e, _) result)"
    using wrapping_sub_total [of s "?z m" b1] add(1) assms(6) by auto
  have sub: "wf_builder b2" "extends b1 b2" "valid b2 r" "u < feed_id b2" "length r = Suc (length a)"
    using wrapping_sub_adds [OF add(2,4) valid_extends [OF vz(3) add(3)] _ r] add(1) assms(6) by simp_all
  obtain o' b3 where o': "switch b2 r s u = (Inr (o', b3) :: ('e, _) result)" using switch_total [of r s b2 u] sub(5) add(1) by auto
  have "addsL b2 b3 o' (\<lambda>ins. if node_val b2 ins u then vals b2 ins s else vals b2 ins r)"
    using switch_adds [OF sub(1,3) valid_extends [OF add(4) sub(2)] sub(4) _ o'] sub(5) add(1) by simp
  from arg_cong [OF addsL_D(4) [OF this, of "[]"], of length] have "length o' = Suc (length a)" using sub(5) add(1) by simp
  with s r o' assms(5,6) show ?thesis by (simp add: add_mod_def Let_def)
qed

text \<open>
  C36. Modular addition: on vectors of equal length \<open>add_mod\<close> succeeds, and whenever both summands are
  below the modulus its result is their sum modulo the modulus.
\<close>

theorem add_mod_correct:
  assumes "wf_builder bld" "valid bld a" "valid bld b" "valid bld m" "length a = length b" "length a = length m"
  shows "\<exists>ns bld'. add_mod bld a b m = Inr (ns, bld') \<and> wf_builder bld' \<and> extends bld bld' \<and> length ns = length a \<and>
    (\<forall>ins. nat_of_bits (vals bld ins a) < nat_of_bits (vals bld ins m) \<and>
           nat_of_bits (vals bld ins b) < nat_of_bits (vals bld ins m) \<longrightarrow>
       nat_of_bits (vals bld' ins ns) =
         (nat_of_bits (vals bld ins a) + nat_of_bits (vals bld ins b)) mod nat_of_bits (vals bld ins m))"
  using add_mod_total [OF assms] add_mod_adds [OF assms] by blast

theorem add_mod_correct_witness:
  "\<exists>ns bld'. add_mod builder_new [1, 0] [0, 1] [1, 1] = (Inr (ns, bld') :: (unit, _) result) \<and> nat_of_bits (vals bld' [] ns) = 0"
proof -
  have "valid builder_new [1, 0]" "valid builder_new [0, 1]" "valid builder_new [1, 1]" by (simp_all add: builder_new_def)
  from add_mod_correct [OF wf_builder_new this] obtain ns bld' where
    "add_mod builder_new [1, 0] [0, 1] [1, 1] = (Inr (ns, bld') :: (unit, _) result)"
    "nat_of_bits (vals builder_new [] [1, 0]) < nat_of_bits (vals builder_new [] [1, 1]) \<and>
     nat_of_bits (vals builder_new [] [0, 1]) < nat_of_bits (vals builder_new [] [1, 1]) \<longrightarrow>
     nat_of_bits (vals bld' [] ns) = (nat_of_bits (vals builder_new [] [1, 0]) + nat_of_bits (vals builder_new [] [0, 1])) mod
       nat_of_bits (vals builder_new [] [1, 1])"
    by auto
  then show ?thesis using wf_builder_new by simp
qed

end
