(* ===== verification/Build_Correct.thy ===== *)
theory Build_Correct
  imports Builder
begin

text \<open>
  Correctness of \<open>CircuitBuilder::build\<close>: the renumbering of wires is the inverse of the order
  inputs, intermediate gate outputs, outputs; it is injective, so the circuit computes the same
  function of its inputs as the builder's nodes, and it is well-formed.
\<close>

section \<open>Renaming the wires of a circuit\<close>

fun rename_gate :: "(node \<Rightarrow> node) \<Rightarrow> gate \<Rightarrow> gate" where
  "rename_gate f (Gate_Xor x y z) = Gate_Xor (f x) (f y) (f z)"
| "rename_gate f (Gate_And x y z) = Gate_And (f x) (f y) (f z)"
| "rename_gate f (Gate_Inv x z) = Gate_Inv (f x) (f z)"
| "rename_gate f (Gate_Id x z) = Gate_Id (f x) (f z)"

lemma rename_gate_simps [simp]:
  "gate_z (rename_gate f g) = f (gate_z g)"
  "gate_ops (rename_gate f g) = map f (gate_ops g)"
  "gate_type (rename_gate f g) = gate_type g"
  "gate_sem (rename_gate f g) e = gate_sem g (\<lambda>i. e (f i))"
  by (cases g; simp)+

lemma count_type_rename [simp]: "count_type t (map (rename_gate f) gs) = count_type t gs"
  by (induction gs) auto

lemma rename_gate_comp: "rename_gate f (rename_gate h g) = rename_gate (\<lambda>i. f (h i)) g"
  by (cases g) auto

definition gate_ids :: "gate \<Rightarrow> node set" where
  "gate_ids g = insert (gate_z g) (set (gate_ops g))"

lemma rename_gate_cong: "(\<And>i. i \<in> gate_ids g \<Longrightarrow> f i = h i) \<Longrightarrow> rename_gate f g = rename_gate h g"
  by (cases g) (auto simp: gate_ids_def)

lemma run_gates_rename:
  assumes "inj_on f S" "\<And>g. g \<in> set gs \<Longrightarrow> gate_ids g \<subseteq> S" "\<And>i. i \<in> S \<Longrightarrow> e' (f i) = e i" "i \<in> S"
  shows "run_gates (map (rename_gate f) gs) e' (f i) = run_gates gs e i"
  using assms
proof (induction gs arbitrary: e e')
  case (Cons g gs)
  have ids: "gate_ids g \<subseteq> S" using Cons.prems by simp
  then have sem: "gate_sem g (\<lambda>i. e' (f i)) = gate_sem g e"
    using Cons.prems by (intro gate_sem_cong) (auto simp: gate_ids_def)
  have eq: "(e'(f (gate_z g) := gate_sem g e)) (f j) = (e(gate_z g := gate_sem g e)) j" if "j \<in> S" for j
    using that ids Cons.prems(1,3) by (auto simp: gate_ids_def dest: inj_onD)
  have "run_gates (map (rename_gate f) gs) (e'(f (gate_z g) := gate_sem g e)) (f i) =
      run_gates gs (e(gate_z g := gate_sem g e)) i"
    using Cons.prems eq by (intro Cons.IH) auto
  then show ?case by (simp add: sem)
qed simp

lemma gates_wf_rename:
  "gates_wf n D gs \<Longrightarrow> (\<And>i. i \<in> gate_z ` set gs \<Longrightarrow> f i < m) \<Longrightarrow>
   gates_wf m (f ` D) (map (rename_gate f) gs)"
proof (induction gs arbitrary: D)
  case (Cons g gs)
  then have "gates_wf m (f ` insert (gate_z g) D) (map (rename_gate f) gs)"
    by (intro Cons.IH) auto
  with Cons.prems show ?case by auto
qed simp

lemma gates_wf_ids: "gates_wf n D gs \<Longrightarrow> g \<in> set gs \<Longrightarrow> gate_ids g \<subseteq> D \<union> gate_z ` set gs"
  by (induction gs arbitrary: D) (fastforce simp: gate_ids_def)+

section \<open>The identifier map\<close>

fun put :: "nat list \<Rightarrow> nat \<Rightarrow> nat list \<Rightarrow> nat list" where
  "put m k [] = m"
| "put m k (x # xs) = put (m[x := k]) (k + 1) xs"

lemma length_put [simp]: "length (put m k xs) = length m"
  by (induction xs arbitrary: m k) auto

lemma put_other: "i \<notin> set xs \<Longrightarrow> put m k xs ! i = m ! i"
  by (induction xs arbitrary: m k) auto

lemma put_nth:
  "distinct xs \<Longrightarrow> set xs \<subseteq> {..<length m} \<Longrightarrow> j < length xs \<Longrightarrow> put m k xs ! (xs ! j) = k + j"
proof (induction xs arbitrary: m k j)
  case (Cons x xs)
  then show ?case by (cases j) (auto simp: put_other)
qed simp

lemma foldR_map_input:
  "set ins \<subseteq> {..<length m} \<Longrightarrow> foldR map_input ins (m, k) = Inr (put m k ins, k + length ins)"
  by (induction ins arbitrary: m k) (auto simp: map_input_def)

lemma foldR_map_output:
  "set outs \<subseteq> {..<length m} \<Longrightarrow>
   foldR (map_output s) (enumerate k outs) m = Inr (put m (s + k) outs)"
  by (induction outs arbitrary: m k) (auto simp: map_output_def)

text \<open>
  The pass over the gates numbers the outputs whose entry is zero, in order, and rewrites
  every gate output with the final map.
\<close>

lemma remap_gate_outputs_ok:
  assumes "distinct (map gate_z gs)" "gate_z ` set gs \<subseteq> {..<length m}" "0 < k"
  shows "remap_gate_outputs gs m k =
     Inr (map (\<lambda>g. set_gate_z g (put m k (filter (\<lambda>z. m ! z = 0) (map gate_z gs)) ! gate_z g)) gs,
          put m k (filter (\<lambda>z. m ! z = 0) (map gate_z gs)),
          k + length (filter (\<lambda>z. m ! z = 0) (map gate_z gs)))"
  using assms
proof (induction gs arbitrary: m k)
  case (Cons g gs)
  let ?z = "gate_z g"
  have notin: "?z \<notin> set (map gate_z gs)" using Cons.prems by simp
  have filt: "filter (\<lambda>z. m[?z := k] ! z = 0) (map gate_z gs) = filter (\<lambda>z. m ! z = 0) (map gate_z gs)"
    using notin by (intro filter_cong) (auto, (metis imageI nth_list_update_neq)+)
  have zlen: "?z < length m" using Cons.prems by simp
  have nz: "put (m[?z := k]) (k + 1) (filter (\<lambda>z. m ! z = 0) (map gate_z gs)) ! ?z = k"
    "put m k (filter (\<lambda>z. m ! z = 0) (map gate_z gs)) ! ?z = m ! ?z"
    using notin zlen by (auto simp: put_other)
  show ?case
  proof (cases "m ! ?z = 0")
    case True
    then show ?thesis
      using zlen Cons.prems nz Cons.IH [of "m[?z := k]" "k + 1"] by (simp add: filt)
  next
    case False
    then show ?thesis
      using zlen Cons.prems nz Cons.IH [of m k] by simp
  qed
qed simp

lemma remap_gate_inputs_ok:
  assumes "set (gate_ops g) \<subseteq> {..<length m}"
  shows "remap_gate_inputs m (set_gate_z g (m ! gate_z g)) = Inr (rename_gate (\<lambda>i. m ! i) g)"
  using assms by (cases g) auto

lemma mapR_remap_gate_inputs:
  assumes "\<And>g. g \<in> set gs \<Longrightarrow> set (gate_ops g) \<subseteq> {..<length m}"
  shows "mapR (remap_gate_inputs m) (map (\<lambda>g. set_gate_z g (m ! gate_z g)) gs) =
           Inr (map (rename_gate (\<lambda>i. m ! i)) gs)"
  using assms by (induction gs) (auto simp: remap_gate_inputs_ok)

lemma gate_shift_left_ok:
  "gate_ids g \<subseteq> {k..} \<Longrightarrow> gate_shift_left k g = Inr (rename_gate (\<lambda>i. i - k) g)"
  by (cases g) (auto simp: gate_ids_def)

lemma set_gate_z_simps [simp]: "gate_ops (set_gate_z g z) = gate_ops g"
  by (cases g) auto

text \<open>
  Writing the inputs, then the outputs, then the remaining gate outputs gives the inverse of
  the list \<open>ins @ rest @ outs\<close>.
\<close>

lemma id_map_inverse:
  fixes ins zs outs :: "nat list" and fc :: nat
  defines "rest \<equiv> filter (\<lambda>z. z \<notin> set outs) zs"
    and "m2 \<equiv> put (put (replicate fc 0) 0 ins) (fc - length outs) outs"
  assumes d: "distinct (ins @ zs)" "set (ins @ zs) = {..<fc}"
    and o: "distinct outs" "set outs \<subseteq> set zs" and ne: "zs \<noteq> [] \<longrightarrow> ins \<noteq> []"
  shows "filter (\<lambda>z. m2 ! z = 0) zs = rest"
    and "\<And>j. j < fc \<Longrightarrow> put m2 (length ins) rest ! ((ins @ rest @ outs) ! j) = j"
    and "distinct (ins @ rest @ outs)" and "set (ins @ rest @ outs) = {..<fc}"
    and "fc - length outs = length ins + length rest"
proof -
  let ?L = "ins @ rest @ outs" and ?m1 = "put (replicate fc 0) 0 ins"
  show dL: "distinct ?L" using d o by (auto simp: rest_def)
  show sL: "set ?L = {..<fc}" using d(2) o by (auto simp: rest_def)
  have len: "length ?L = fc"
    using distinct_card [OF dL] sL by simp
  then show start: "fc - length outs = length ins + length rest" by simp
  have m2_other: "m2 ! z = 0" if "z \<in> set zs" "z \<notin> set outs" for z
  proof -
    have "z < fc" "z \<notin> set ins" using that(1) d by auto
    with that show ?thesis by (simp add: m2_def put_other)
  qed
  have m2_out: "m2 ! (outs ! j) = length ins + length rest + j" if "j < length outs" for j
    using that o d unfolding m2_def start [symmetric] by (subst put_nth) auto
  have m2_nz: "m2 ! z \<noteq> 0" if "z \<in> set outs" for z
    using that m2_out ne o by (auto simp: in_set_conv_nth)
  show "filter (\<lambda>z. m2 ! z = 0) zs = rest"
    unfolding rest_def by (rule filter_cong) (use m2_other m2_nz in blast)+
  have m2_in: "m2 ! (ins ! j) = j" if "j < length ins" for j
  proof -
    have "ins ! j \<notin> set outs" using that d(1) o(2) nth_mem by fastforce
    with that d put_nth [of ins "replicate fc 0" j 0] show ?thesis
      by (auto simp: m2_def put_other)
  qed
  have lm: "length m2 = fc" by (simp add: m2_def)
  show "put m2 (length ins) rest ! (?L ! j) = j" if j: "j < fc" for j
  proof -
    consider "j < length ins" | "length ins \<le> j" "j < length ins + length rest"
      | "length ins + length rest \<le> j" "j - (length ins + length rest) < length outs"
      using j len by force
    then show ?thesis
    proof cases
      case 1
      then have "ins ! j \<notin> set rest" using dL nth_mem by fastforce
      with 1 m2_in show ?thesis by (simp add: nth_append put_other)
    next
      case 2
      then show ?thesis
        using put_nth [of rest m2 "j - length ins" "length ins"] dL sL lm by (auto simp: nth_append)
    next
      case 3
      then have "outs ! (j - (length ins + length rest)) \<notin> set rest"
        using dL nth_mem by fastforce
      with 3 m2_out show ?thesis
        by (auto simp: nth_append put_other algebra_simps)
    qed
  qed
qed

lemma gates_wf_nonempty: "gates_wf n D gs \<Longrightarrow> gs \<noteq> [] \<Longrightarrow> D \<noteq> {}"
proof (cases gs)
  case (Cons g gs')
  assume "gates_wf n D gs"
  with Cons have "set (gate_ops g) \<subseteq> D" by simp
  then show ?thesis by (cases g) auto
qed simp

section \<open>Building preserves the semantics\<close>

text \<open>
  Outputs must be distinct gate outputs: \<open>build\<close> gives every output a wire of its own at the
  end of the wire vector.
\<close>

definition outputs_ok :: "builder \<Rightarrow> bool" where
  "outputs_ok b \<longleftrightarrow> distinct (b_outputs b) \<and> set (b_outputs b) \<subseteq> gate_z ` set (b_gates b)"

definition built :: "builder \<Rightarrow> (node \<Rightarrow> node) \<Rightarrow> circuit" where
  "built b f = \<lparr>inputs = (0, length (b_inputs b)),
     outputs = (feed_id b - 2 - length (b_outputs b), feed_id b - 2),
     gates = map (rename_gate f) (b_gates b), feed_count = feed_id b - 2,
     and_count = b_and_count b, xor_count = b_xor_count b\<rparr>"

text \<open>The passes after the shift, for any inputs, gates and outputs that cover the wires.\<close>

lemma renumber_ok:
  assumes d: "distinct (ins @ map gate_z gs)" "set (ins @ map gate_z gs) = {..<fc}"
    and o: "distinct outs" "set outs \<subseteq> set (map gate_z gs)" and ne: "gs \<noteq> [] \<longrightarrow> ins \<noteq> []"
    and ops: "\<And>g. g \<in> set gs \<Longrightarrow> set (gate_ops g) \<subseteq> {..<fc}"
  obtains m where
    "\<And>k. bindR (foldR map_input ins (replicate fc 0, 0)) (\<lambda>(id_map, next_id).
       bindR (usub fc (length outs)) (\<lambda>start.
       bindR (foldR (map_output start) (enumerate 0 outs) id_map) (\<lambda>id_map.
       bindR (remap_gate_outputs gs id_map next_id) (\<lambda>(gs, id_map, next_id).
       bindR (mapR (remap_gate_inputs id_map) gs) k)))) = k (map (rename_gate (\<lambda>i. m ! i)) gs)"
    "inj_on (\<lambda>i. m ! i) {..<fc}" "\<And>i. i < fc \<Longrightarrow> m ! i < fc"
    "\<And>j. j < length ins \<Longrightarrow> m ! (ins ! j) = j"
    "\<And>j. j < length outs \<Longrightarrow> m ! (outs ! j) = fc - length outs + j"
    "length ins + length outs \<le> fc"
proof -
  let ?zs = "map gate_z gs"
  let ?rest = "filter (\<lambda>z. z \<notin> set outs) ?zs"
  let ?m1 = "put (replicate fc 0) 0 ins"
  let ?m2 = "put ?m1 (fc - length outs) outs"
  let ?L = "ins @ ?rest @ outs"
  define m where "m = put ?m2 (length ins) ?rest"
  have "?zs \<noteq> [] \<longrightarrow> ins \<noteq> []" using ne by simp
  note inv = id_map_inverse [OF d o this]
  have inv2: "m ! (?L ! j) = j" if "j < fc" for j using inv(2) [OF that] by (simp add: m_def)
  have lenL: "length ?L = fc" using distinct_card [OF inv(3)] inv(4) by simp
  have mb: "m ! i < fc" and mi: "?L ! (m ! i) = i" if "i < fc" for i
  proof -
    from that inv(4) lenL obtain j where "j < fc" "?L ! j = i"
      by (metis in_set_conv_nth lessThan_iff)
    then show "m ! i < fc" "?L ! (m ! i) = i" using inv2 by auto
  qed
  have gout: "remap_gate_outputs gs ?m2 (length ins) =
      Inr (map (\<lambda>g. set_gate_z g (m ! gate_z g)) gs, m, length ins + length ?rest)"
  proof (cases "gs = []")
    case True
    then show ?thesis by (simp add: m_def)
  next
    case False
    then have "remap_gate_outputs gs ?m2 (length ins) =
        Inr (map (\<lambda>g. set_gate_z g (put ?m2 (length ins) (filter (\<lambda>z. ?m2 ! z = 0) ?zs) ! gate_z g)) gs,
          put ?m2 (length ins) (filter (\<lambda>z. ?m2 ! z = 0) ?zs),
          length ins + length (filter (\<lambda>z. ?m2 ! z = 0) ?zs))"
      using ne d by (intro remap_gate_outputs_ok) auto
    then show ?thesis by (simp only: inv(1) m_def)
  qed
  have "length m = fc" by (simp add: m_def)
  with ops have gin: "\<And>g. g \<in> set gs \<Longrightarrow> set (gate_ops g) \<subseteq> {..<length m}" by simp
  have len: "length outs \<le> fc" using lenL by simp
  show thesis
  proof (rule that)
    show "inj_on (\<lambda>i. m ! i) {..<fc}" by (rule inj_onI) (metis lessThan_iff mi)
    show "m ! i < fc" if "i < fc" for i using mb that .
    show "m ! (ins ! j) = j" if "j < length ins" for j
      using inv2 [of j] lenL that by (simp add: nth_append)
    show "m ! (outs ! j) = fc - length outs + j" if "j < length outs" for j
      using inv2 [of "length ins + length ?rest + j"] lenL inv(5) that by (simp add: nth_append)
    show "length ins + length outs \<le> fc" using lenL by simp
    have "set ins \<subseteq> {..<length (replicate fc (0::nat))}" "set outs \<subseteq> {..<length ?m1}"
      using d o by auto
    then show "bindR (foldR map_input ins (replicate fc 0, 0)) (\<lambda>(id_map, next_id).
       bindR (usub fc (length outs)) (\<lambda>start.
       bindR (foldR (map_output start) (enumerate 0 outs) id_map) (\<lambda>id_map.
       bindR (remap_gate_outputs gs id_map next_id) (\<lambda>(gs, id_map, next_id).
       bindR (mapR (remap_gate_inputs id_map) gs) k)))) = k (map (rename_gate (\<lambda>i. m ! i)) gs)" for k
      using len by (simp add: foldR_map_input foldR_map_output gout mapR_remap_gate_inputs [OF gin])
  qed
qed

text \<open>Shifting by two maps the allocated nodes to the wires.\<close>

lemma image_minus_two: "(\<lambda>i. i - 2) ` {2..<n} = {..<n - (2::nat)}"
proof -
  have "x \<in> (\<lambda>i. i - 2) ` {2..<n}" if "x < n - 2" for x
    using that by (intro image_eqI [of _ _ "x + 2"]) auto
  then show ?thesis by auto
qed

lemma wf_builder_shift:
  assumes wf: "wf_builder b" and ok: "outputs_ok b"
  defines "gs \<equiv> map (rename_gate (\<lambda>i. i - 2)) (b_gates b)"
    and "ins \<equiv> map (\<lambda>i. i - 2) (b_inputs b)" and "outs \<equiv> map (\<lambda>i. i - 2) (b_outputs b)"
  shows "distinct (ins @ map gate_z gs)" "set (ins @ map gate_z gs) = {..<feed_id b - 2}"
    "distinct outs" "set outs \<subseteq> set (map gate_z gs)" "gs \<noteq> [] \<longrightarrow> ins \<noteq> []"
    "\<And>g. g \<in> set gs \<Longrightarrow> set (gate_ops g) \<subseteq> {..<feed_id b - 2}"
    "mapR (node_shift_left 2) (b_inputs b) = Inr ins"
    "mapR (gate_shift_left 2) (b_gates b) = Inr gs"
    "mapR (node_shift_left 2) (b_outputs b) = Inr outs"
proof -
  let ?zs = "map gate_z (b_gates b)"
  have w: "distinct (b_inputs b @ ?zs)" "gates_wf (feed_id b) (set (b_inputs b)) (b_gates b)"
    and ids: "set (b_inputs b @ ?zs) = {2..<feed_id b}"
    using wf by (simp_all add: wf_builder_def)
  have o: "distinct (b_outputs b)" "set (b_outputs b) \<subseteq> set ?zs"
    using ok by (simp_all add: outputs_ok_def)
  have gids: "gate_ids g \<subseteq> {2..<feed_id b}" if "g \<in> set (b_gates b)" for g
    using gates_wf_ids [OF w(2) that] ids by simp
  have inj2: "inj_on (\<lambda>i. i - 2) {2..<feed_id b}" by (auto simp: inj_on_def)
  have all: "ins @ map gate_z gs = map (\<lambda>i. i - 2) (b_inputs b @ ?zs)"
    by (simp add: ins_def gs_def)
  show "distinct (ins @ map gate_z gs)"
    unfolding all using w(1) inj2 ids by (simp only: distinct_map)
  show "set (ins @ map gate_z gs) = {..<feed_id b - 2}"
    unfolding all set_map ids by (rule image_minus_two)
  have "set (b_outputs b) \<subseteq> {2..<feed_id b}" "set (b_inputs b) \<subseteq> {2..<feed_id b}"
    using o(2) ids by (metis Un_subset_iff order_trans set_append order_refl)+
  from this(1) show "distinct outs"
    using o(1) inj2 by (auto simp: outs_def distinct_map intro: inj_on_subset)
  show "set outs \<subseteq> set (map gate_z gs)" using o(2) by (auto simp: outs_def gs_def)
  show "gs \<noteq> [] \<longrightarrow> ins \<noteq> []" using gates_wf_nonempty [OF w(2)] by (auto simp: gs_def ins_def)
  show "set (gate_ops g) \<subseteq> {..<feed_id b - 2}" if "g \<in> set gs" for g
    using that gids by (force simp: gs_def gate_ids_def)
  show "mapR (node_shift_left 2) (b_inputs b) = Inr ins"
    unfolding ins_def using \<open>set (b_inputs b) \<subseteq> {2..<feed_id b}\<close>
    by (intro mapR_ok) (force simp: node_shift_left_def)
  show "mapR (gate_shift_left 2) (b_gates b) = Inr gs"
    unfolding gs_def using gids by (intro mapR_ok gate_shift_left_ok) force
  show "mapR (node_shift_left 2) (b_outputs b) = Inr outs"
    unfolding outs_def using \<open>set (b_outputs b) \<subseteq> {2..<feed_id b}\<close>
    by (intro mapR_ok) (force simp: node_shift_left_def)
qed

lemma build_renames:
  assumes wf: "wf_builder b" and ok: "outputs_ok b"
  obtains f where "build b = Inr (built b f)" "inj_on f {2..<feed_id b}"
    "\<And>i. i \<in> {2..<feed_id b} \<Longrightarrow> f i < feed_id b - 2"
    "\<And>j. j < length (b_inputs b) \<Longrightarrow> f (b_inputs b ! j) = j"
    "\<And>j. j < length (b_outputs b) \<Longrightarrow>
       f (b_outputs b ! j) = feed_id b - 2 - length (b_outputs b) + j"
    "length (b_inputs b) + length (b_outputs b) \<le> feed_id b - 2"
proof -
  note sh = wf_builder_shift [OF wf ok]
  from renumber_ok [OF sh(1-6)] obtain m where
    run: "\<And>k :: gate list \<Rightarrow> (unit, circuit) result.
       bindR (foldR map_input (map (\<lambda>i. i - 2) (b_inputs b)) (replicate (feed_id b - 2) 0, 0)) (\<lambda>(id_map, next_id).
       bindR (usub (feed_id b - 2) (length (map (\<lambda>i. i - 2) (b_outputs b)))) (\<lambda>start.
       bindR (foldR (map_output start) (enumerate 0 (map (\<lambda>i. i - 2) (b_outputs b))) id_map) (\<lambda>id_map.
       bindR (remap_gate_outputs (map (rename_gate (\<lambda>i. i - 2)) (b_gates b)) id_map next_id) (\<lambda>(gs, id_map, next_id).
       bindR (mapR (remap_gate_inputs id_map) gs) k)))) =
       k (map (rename_gate (\<lambda>i. m ! i)) (map (rename_gate (\<lambda>i. i - 2)) (b_gates b)))"
    and inj: "inj_on (\<lambda>i. m ! i) {..<feed_id b - 2}" and bnd: "\<And>i. i < feed_id b - 2 \<Longrightarrow> m ! i < feed_id b - 2"
    and ins: "\<And>j. j < length (map (\<lambda>i. i - 2) (b_inputs b)) \<Longrightarrow> m ! (map (\<lambda>i. i - 2) (b_inputs b) ! j) = j"
    and outs: "\<And>j. j < length (map (\<lambda>i. i - 2) (b_outputs b)) \<Longrightarrow>
      m ! (map (\<lambda>i. i - 2) (b_outputs b) ! j) = feed_id b - 2 - length (map (\<lambda>i. i - 2) (b_outputs b)) + j"
    and len: "length (map (\<lambda>i. i - 2) (b_inputs b)) + length (map (\<lambda>i. i - 2) (b_outputs b)) \<le> feed_id b - 2"
    by blast
  show thesis
  proof (rule that [of "\<lambda>i. m ! (i - 2)"])
    show "build b = Inr (built b (\<lambda>i. m ! (i - 2)))"
      using wf_builder_feed_id [OF wf] unfolding build_def sh(7-9)
      by (simp only: bindR_simps usub_ok run) (simp add: built_def rename_gate_comp comp_def)
    show "inj_on (\<lambda>i. m ! (i - 2)) {2..<feed_id b}"
    proof (rule inj_onI)
      fix i j assume "i \<in> {2..<feed_id b}" "j \<in> {2..<feed_id b}" "m ! (i - 2) = m ! (j - 2)"
      moreover from this have "i - 2 < feed_id b - 2" "j - 2 < feed_id b - 2" by auto
      ultimately have "i - 2 = j - 2" using inj_onD [OF inj, of "i - 2" "j - 2"] by simp
      with \<open>i \<in> _\<close> \<open>j \<in> _\<close> show "i = j" by auto
    qed
  qed (use bnd ins outs len in auto)
qed

text \<open>
  The main theorem on \<open>build\<close>: it succeeds, the circuit is well-formed and evaluates to the
  values of the output nodes.
\<close>

lemma builder_env_input:
  assumes "distinct (b_inputs b)" "j < length (b_inputs b)" "length (b_inputs b) \<le> length ins"
    "b_inputs b ! j \<noteq> 1"
  shows "builder_env b ins (b_inputs b ! j) = ins ! j"
proof -
  have "map fst (zip (b_inputs b) ins) = b_inputs b"
    using assms by (simp add: map_fst_zip_take)
  then have "map_of (zip (b_inputs b) ins) (b_inputs b ! j) = Some (ins ! j)"
    using assms by (subst map_of_eq_Some_iff) (auto simp: set_zip)
  with assms show ?thesis by (simp add: builder_env_def)
qed

lemma builder_env_gate:
  assumes "n \<notin> set (b_inputs b)" "n \<noteq> 1"
  shows "\<not> builder_env b ins n"
  using assms by (auto simp: builder_env_def dest: map_of_SomeD set_zip_leftD)

lemma built_env:
  assumes wf: "wf_builder b" and len: "length (b_inputs b) \<le> length ins"
    and f: "inj_on f {2..<feed_id b}" "\<And>j. j < length (b_inputs b) \<Longrightarrow> f (b_inputs b ! j) = j"
    and i: "i \<in> {2..<feed_id b}"
  shows "input_env (take (length (b_inputs b)) ins) (f i) = builder_env b ins i"
proof (cases "i \<in> set (b_inputs b)")
  case True
  then obtain j where j: "j < length (b_inputs b)" "i = b_inputs b ! j"
    by (auto simp: in_set_conv_nth)
  have "distinct (b_inputs b)" using wf by (simp add: wf_builder_def)
  with j len i have "builder_env b ins i = ins ! j"
    using builder_env_input [of b j ins] by auto
  with j len f(2) show ?thesis by (simp add: input_env_def)
next
  case False
  have "\<not> f i < length (b_inputs b)"
  proof
    assume lt: "f i < length (b_inputs b)"
    then have "f (b_inputs b ! f i) = f i" by (rule f(2))
    moreover have "b_inputs b ! f i \<in> {2..<feed_id b}"
      using lt wf_builder_ids [OF wf] by (metis Un_iff nth_mem)
    ultimately have "b_inputs b ! f i = i" using f(1) i by (auto dest: inj_onD)
    with lt False show False using nth_mem by metis
  qed
  with False i show ?thesis by (simp add: input_env_def builder_env_gate)
qed

lemma wf_built:
  assumes wf: "wf_builder b" and ok: "outputs_ok b"
    and f: "inj_on f {2..<feed_id b}" "\<And>i. i \<in> {2..<feed_id b} \<Longrightarrow> f i < feed_id b - 2"
      "\<And>j. j < length (b_inputs b) \<Longrightarrow> f (b_inputs b ! j) = j"
      "\<And>j. j < length (b_outputs b) \<Longrightarrow> f (b_outputs b ! j) = feed_id b - 2 - length (b_outputs b) + j"
      "length (b_inputs b) + length (b_outputs b) \<le> feed_id b - 2"
  shows "wf_circuit (built b f)"
proof -
  let ?fc = "feed_id b - 2" and ?k = "length (b_outputs b)" and ?n = "length (b_inputs b)"
  have ids: "gate_z ` set (b_gates b) \<subseteq> {2..<feed_id b}"
    using wf_builder_ids [OF wf] by auto
  have "f ` set (b_inputs b) = {0..<?n}"
  proof -
    have "f ` set (b_inputs b) = (\<lambda>j. f (b_inputs b ! j)) ` {0..<?n}"
      by (auto simp: in_set_conv_nth) (auto intro: imageI nth_mem)
    also have "\<dots> = {0..<?n}" using f(3) by (auto simp: image_iff)
    finally show ?thesis .
  qed
  moreover have "gates_wf ?fc (f ` set (b_inputs b)) (map (rename_gate f) (b_gates b))"
    using wf ids f(2) by (intro gates_wf_rename [of "feed_id b"]) (auto simp: wf_builder_def)
  ultimately have gwf: "gates_wf ?fc {0..<?n} (map (rename_gate f) (b_gates b))" by simp
  have out: "{?fc - ?k..<?fc} \<subseteq> gate_z ` set (map (rename_gate f) (b_gates b))"
  proof
    fix i assume i: "i \<in> {?fc - ?k..<?fc}"
    then have j: "i = f (b_outputs b ! (i - (?fc - ?k)))" "i - (?fc - ?k) < ?k" using f(4,5) by auto
    then have "b_outputs b ! (i - (?fc - ?k)) \<in> gate_z ` set (b_gates b)"
      using ok nth_mem by (auto simp: outputs_ok_def)
    then obtain g where g: "g \<in> set (b_gates b)" "b_outputs b ! (i - (?fc - ?k)) = gate_z g" by auto
    with j(1) have "i = gate_z (rename_gate f g)" by simp
    with g(1) show "i \<in> gate_z ` set (map (rename_gate f) (b_gates b))"
      by (metis image_eqI set_map)
  qed
  have "b_and_count b = count_type Ty_And (b_gates b)" using wf by (simp add: wf_builder_def)
  with gwf out f(5) show ?thesis by (auto simp: wf_circuit_def built_def)
qed

lemma circuit_fun_built:
  assumes wf: "wf_builder b" and ok: "outputs_ok b" and len: "length (b_inputs b) \<le> length ins"
    and f: "inj_on f {2..<feed_id b}" "\<And>j. j < length (b_inputs b) \<Longrightarrow> f (b_inputs b ! j) = j"
      "\<And>j. j < length (b_outputs b) \<Longrightarrow> f (b_outputs b ! j) = feed_id b - 2 - length (b_outputs b) + j"
      "length (b_inputs b) + length (b_outputs b) \<le> feed_id b - 2"
  shows "circuit_fun (built b f) ins = map (node_val b ins) (b_outputs b)"
proof -
  let ?e = "input_env (take (length (b_inputs b)) ins)" and ?gs = "map (rename_gate f) (b_gates b)"
  have ids: "gate_ids g \<subseteq> {2..<feed_id b}" if "g \<in> set (b_gates b)" for g
    using gates_wf_ids [of "feed_id b" "set (b_inputs b)" "b_gates b" g] wf that
    by (simp add: wf_builder_def)
  have "?e (f j) = builder_env b ins j" if "j \<in> {2..<feed_id b}" for j
    using built_env [OF wf len f(1,2) that] .
  then have run: "run_gates ?gs ?e (f i) = node_val b ins i" if "i \<in> {2..<feed_id b}" for i
    using ids that unfolding node_val_def by (intro run_gates_rename [OF f(1)])
  have outs: "set (b_outputs b) \<subseteq> {2..<feed_id b}"
    using ok wf_builder_ids [OF wf] by (auto simp: outputs_ok_def)
  have "map (run_gates ?gs ?e) [feed_id b - 2 - length (b_outputs b)..<feed_id b - 2] =
      map (node_val b ins) (b_outputs b)"
  proof (rule nth_equalityI)
    fix j assume "j < length (map (run_gates ?gs ?e) [feed_id b - 2 - length (b_outputs b)..<feed_id b - 2])"
    then have j: "j < length (b_outputs b)" using f(4) by simp
    with outs have "b_outputs b ! j \<in> {2..<feed_id b}" using nth_mem by blast
    from run [OF this] j f(3,4) show
      "map (run_gates ?gs ?e) [feed_id b - 2 - length (b_outputs b)..<feed_id b - 2] ! j =
       map (node_val b ins) (b_outputs b) ! j" by simp
  qed (use f(4) in simp)
  then show ?thesis by (simp add: circuit_fun_def built_def)
qed

lemma build_ok:
  assumes wf: "wf_builder b" and ok: "outputs_ok b"
  shows "\<exists>c. build b = Inr c \<and> wf_circuit c \<and> inputs c = (0, length (b_inputs b)) \<and>
           and_count c = b_and_count b \<and> xor_count c = b_xor_count b \<and>
           (\<forall>ins. length (b_inputs b) \<le> length ins \<longrightarrow>
              evaluate c ins = Inr (map (node_val b ins) (b_outputs b)))"
proof -
  from build_renames [OF wf ok] obtain f where
    b: "build b = Inr (built b f)" and f: "inj_on f {2..<feed_id b}"
      "\<And>i. i \<in> {2..<feed_id b} \<Longrightarrow> f i < feed_id b - 2"
      "\<And>j. j < length (b_inputs b) \<Longrightarrow> f (b_inputs b ! j) = j"
      "\<And>j. j < length (b_outputs b) \<Longrightarrow> f (b_outputs b ! j) = feed_id b - 2 - length (b_outputs b) + j"
      "length (b_inputs b) + length (b_outputs b) \<le> feed_id b - 2"
    by blast
  have wfc: "wf_circuit (built b f)" by (rule wf_built [OF wf ok f])
  have "evaluate (built b f) ins = Inr (map (node_val b ins) (b_outputs b))"
    if "length (b_inputs b) \<le> length ins" for ins
    using wfc that circuit_fun_built [OF wf ok that f(1,3,4,5)]
    by (simp add: evaluate_ok) (simp add: built_def evaluate_ok)
  with b wfc show ?thesis by (auto simp: built_def)
qed

text \<open>
  C4. For every well-formed builder whose outputs are distinct gate outputs, \<open>build\<close> succeeds,
  the circuit is well-formed with one input wire per input, and evaluating it on enough bits
  returns the values the output nodes have in the builder, in order.
\<close>

theorem build_correct:
  assumes "wf_builder b" and "outputs_ok b"
  shows "\<exists>c. build b = Inr c \<and> wf_circuit c \<and> inputs c = (0, length (b_inputs b)) \<and>
           and_count c = b_and_count b \<and> xor_count c = b_xor_count b \<and>
           (\<forall>ins. length (b_inputs b) \<le> length ins \<longrightarrow>
              evaluate c ins = Inr (map (node_val b ins) (b_outputs b)))"
  using assms by (rule build_ok)

definition demo_builder :: builder where
  "demo_builder = \<lparr>feed_id = 6, b_inputs = [2, 3], b_outputs = [5, 4],
     b_gates = [Gate_And 2 3 4, Gate_Xor 4 2 5], b_and_count = 1, b_xor_count = 1\<rparr>"

theorem build_correct_witness:
  "\<exists>c. build demo_builder = Inr c \<and> wf_circuit c \<and> evaluate c [True, False] = Inr [True, False]"
proof -
  have "wf_builder demo_builder" "outputs_ok demo_builder"
    by (auto simp: wf_builder_def outputs_ok_def demo_builder_def count_type_def)
  moreover have "map (node_val demo_builder [True, False]) (b_outputs demo_builder) = [True, False]"
    "length (b_inputs demo_builder) \<le> length [True, False]"
    by (simp_all add: demo_builder_def node_val_def builder_env_def)
  ultimately show ?thesis using build_correct [of demo_builder] by fastforce
qed

end
