(* ===== verification/Circuits.thy ===== *)
theory Circuits
  imports Ops Build_Correct
begin

text \<open>
  Ready-made circuits (\<open>circuits-core/src/circuits.rs\<close>): the 8-bit adder and the exclusive or
  of two vectors, from the builder calls to the evaluated circuit.  The first part is what every
  such circuit needs: declaring inputs, freshness of computed nodes, declaring them as outputs.
\<close>

section \<open>Declaring inputs and outputs\<close>

fun add_inputs :: "nat \<Rightarrow> builder \<Rightarrow> node list \<times> builder" where
  "add_inputs 0 b = ([], b)"
| "add_inputs (Suc k) b =
     (let (n, b) = add_input b; (ns, b) = add_inputs k b in (n # ns, b))"

fun add_outputs :: "node list \<Rightarrow> builder \<Rightarrow> builder" where
  "add_outputs [] b = b"
| "add_outputs (n # ns) b = add_outputs ns (add_output b n)"

definition unwrapR :: "('e, 'a) result \<Rightarrow> ('f, 'a) result" where
  "unwrapR m = (case m of Inl e \<Rightarrow> Inl Panic | Inr x \<Rightarrow> Inr x)"

lemma unwrapR_Inr [simp]: "unwrapR (Inr x) = Inr x"
  by (simp add: unwrapR_def)

definition adder_u8 :: "(unit, circuit) result" where
  "adder_u8 =
     (let (a, builder) = add_inputs 8 builder_new;
          (b, builder) = add_inputs 8 builder
      in bindR (wrapping_add builder a b) (\<lambda>(sum, builder).
         unwrapR (build (add_outputs sum builder))))"

fun xor_loop :: "builder \<Rightarrow> node list \<Rightarrow> node list \<Rightarrow> builder" where
  "xor_loop builder (a # as) (b # bs) =
     (let (out, builder) = add_xor_gate builder a b in xor_loop (add_output builder out) as bs)"
| "xor_loop builder as bs = builder"

definition xor_circuit :: "nat \<Rightarrow> (unit, circuit) result" where
  "xor_circuit sz =
     (let (a, builder) = add_inputs sz builder_new;
          (b, builder) = add_inputs sz builder
      in unwrapR (build (xor_loop builder a b)))"

section \<open>A builder with inputs only\<close>

definition inputs_builder :: "nat \<Rightarrow> builder" where
  "inputs_builder k = builder_new\<lparr>feed_id := 2 + k, b_inputs := [2..<2 + k]\<rparr>"

lemma inputs_builder_0: "inputs_builder 0 = builder_new"
  by (simp add: inputs_builder_def builder_new_def)

lemma add_inputs_inputs_builder:
  "add_inputs k (inputs_builder m) = ([2 + m..<2 + m + k], inputs_builder (m + k))"
proof (induction k arbitrary: m)
  case (Suc k)
  have "add_input (inputs_builder m) = (2 + m, inputs_builder (m + 1))"
    by (simp add: add_input_def add_feed_def inputs_builder_def builder_new_def)
  with Suc [of "m + 1"] show ?case by (simp add: upt_conv_Cons)
qed (simp add: inputs_builder_def)

lemma wf_inputs_builder: "wf_builder (inputs_builder k)"
  by (auto simp: wf_builder_def inputs_builder_def builder_new_def)

lemma inputs_builder_simps [simp]:
  "feed_id (inputs_builder k) = 2 + k"
  "b_inputs (inputs_builder k) = [2..<2 + k]"
  "b_outputs (inputs_builder k) = []"
  "b_gates (inputs_builder k) = []"
  by (simp_all add: inputs_builder_def builder_new_def)

lemma vals_inputs_builder:
  assumes "i + n \<le> k" "k \<le> length ins"
  shows "vals (inputs_builder k) ins [2 + i..<2 + i + n] = take n (drop i ins)"
proof (rule nth_equalityI)
  fix j assume j: "j < length (vals (inputs_builder k) ins [2 + i..<2 + i + n])"
  have "builder_env (inputs_builder k) ins (b_inputs (inputs_builder k) ! (i + j)) = ins ! (i + j)"
    using assms j by (intro builder_env_input) (auto simp del: upt_Suc)
  with assms j show "vals (inputs_builder k) ins [2 + i..<2 + i + n] ! j = take n (drop i ins) ! j"
    by (simp add: node_val_def del: upt_Suc)
qed (use assms in \<open>simp del: upt_Suc\<close>)

section \<open>Fresh nodes\<close>

definition fresh :: "builder \<Rightarrow> builder \<Rightarrow> node list \<Rightarrow> bool" where
  "fresh b b' ns \<longleftrightarrow> distinct ns \<and> set ns \<subseteq> {feed_id b..<feed_id b'}"

definition lives :: "builder \<Rightarrow> node list \<Rightarrow> bool" where
  "lives b ns \<longleftrightarrow> (\<forall>n \<in> set ns. live b n)"

lemma lives_simps [simp]:
  "lives b []"
  "lives b (n # ns) \<longleftrightarrow> live b n \<and> lives b ns"
  by (auto simp: lives_def)

lemma lives_valid: "lives b ns \<Longrightarrow> valid b ns"
  by (auto simp: lives_def valid_def live_def)

lemma lives_extends: "lives b ns \<Longrightarrow> extends b b' \<Longrightarrow> lives b' ns"
  by (auto simp: lives_def intro: live_extends)

lemma fresh_lives: "fresh b b' ns \<Longrightarrow> wf_builder b \<Longrightarrow> lives b' ns"
  by (force simp: fresh_def lives_def live_def dest: wf_builder_feed_id)

lemma fresh_Cons:
  "n \<in> {feed_id b..<feed_id b1} \<Longrightarrow> fresh b1 b' ns \<Longrightarrow> extends b b1 \<Longrightarrow> extends b1 b' \<Longrightarrow> fresh b b' (n # ns)"
  by (force simp: fresh_def dest: extends_feed_id)

lemma fresh_append:
  "fresh b b1 ns \<Longrightarrow> fresh b1 b' ms \<Longrightarrow> extends b b1 \<Longrightarrow> extends b1 b' \<Longrightarrow> fresh b b' (ns @ ms)"
  by (force simp: fresh_def dest: extends_feed_id)

lemma fresh_gate_outputs:
  assumes "fresh b b' ns" "wf_builder b" "wf_builder b'" "extends b b'"
  shows "set ns \<subseteq> gate_z ` set (b_gates b')"
proof
  fix n assume "n \<in> set ns"
  with assms have n: "feed_id b \<le> n" "n < feed_id b'" by (auto simp: fresh_def)
  moreover have "2 \<le> feed_id b" using assms by (simp add: wf_builder_def)
  ultimately have "n \<in> set (b_inputs b') \<union> gate_z ` set (b_gates b')"
    unfolding wf_builder_ids [OF assms(3)] by simp
  moreover have "set (b_inputs b') \<subseteq> {2..<feed_id b}"
    using wf_builder_ids [OF assms(2)] assms(4) by (auto simp: extends_def)
  ultimately show "n \<in> gate_z ` set (b_gates b')" using n by auto
qed

text \<open>Gates on live nodes are never folded away.\<close>

lemma feed_id_add_gate [simp]: "feed_id (add_gate b mk) = feed_id b + 1"
  by (simp add: add_gate_def)

lemma half_adder_live:
  assumes "live bld a" "live bld b" "half_adder bld a b = ((s, co), bld')"
  shows "s \<in> {feed_id bld..<feed_id bld'}" "live bld' co"
  using assms
  by (auto simp: half_adder_def add_xor_gate_live add_and_gate_live live_def add_gate_def)

lemma full_adder_no_carry_out_live:
  assumes "live bld a" "live bld b" "live bld c" "full_adder_no_carry_out bld a b c = (s, bld')"
  shows "s \<in> {feed_id bld..<feed_id bld'}"
  using assms by (auto simp: full_adder_no_carry_out_def add_xor_gate_live live_def)

lemma full_adder_live:
  assumes "live bld a" "live bld b" "live bld c" "full_adder bld a b c = ((s, co), bld')"
  shows "s \<in> {feed_id bld..<feed_id bld'}" "live bld' co"
  using assms by (auto simp: full_adder_def add_xor_gate_live add_and_gate_live live_def)

lemma wrapping_add_loop_fresh:
  assumes "wf_builder bld" "lives bld as" "lives bld bs" "n = 0 \<or> live bld c"
    "wrapping_add_loop len n c bld as bs = (ns, bld')"
  shows "fresh bld bld' ns \<and> extends bld bld'"
  using assms
proof (induction as arbitrary: bs n c bld ns)
  case Nil
  then show ?case by (auto simp: fresh_def)
next
  case (Cons a as bbs)
  show ?case
  proof (cases bbs)
    case Nil
    with Cons.prems show ?thesis by (auto simp: fresh_def)
  next
    case bbs: (Cons b bs)
  have l: "live bld a" "live bld b" "lives bld as" "lives bld bs" and wf: "wf_builder bld"
    using Cons.prems by (simp_all add: bbs)
  have v: "a < feed_id bld" "b < feed_id bld" using l by (auto simp: live_def)
  show ?thesis
  proof (cases "n = 0")
    case True
    with Cons.prems obtain s co b1 rest where g: "half_adder bld a b = ((s, co), b1)"
      "wrapping_add_loop len (n + 1) co b1 as bs = (rest, bld')" "ns = s # rest"
      by (auto simp: bbs split: prod.splits)
    have h: "wf_builder b1" "extends bld b1" using half_adder_adds [OF wf v g(1)] by simp_all
    note f = half_adder_live [OF l(1,2) g(1)]
    have "fresh b1 bld' rest \<and> extends b1 bld'"
      using Cons.IH [OF h(1) lives_extends [OF l(3) h(2)] lives_extends [OF l(4) h(2)] _ g(2)] f by simp
    with f(1) h g(3) show ?thesis by (auto intro: fresh_Cons extends_trans)
  next
    case False
    then have c: "live bld c" "c < feed_id bld" using Cons.prems by (auto simp: live_def)
    show ?thesis
    proof (cases "n < len - 1")
      case True
      with False Cons.prems obtain s co b1 rest where g: "full_adder bld a b c = ((s, co), b1)"
        "wrapping_add_loop len (n + 1) co b1 as bs = (rest, bld')" "ns = s # rest"
        by (auto simp: bbs split: prod.splits)
      have h: "wf_builder b1" "extends bld b1" using full_adder_adds [OF wf v c(2) g(1)] by simp_all
      note f = full_adder_live [OF l(1,2) c(1) g(1)]
      have "fresh b1 bld' rest \<and> extends b1 bld'"
        using Cons.IH [OF h(1) lives_extends [OF l(3) h(2)] lives_extends [OF l(4) h(2)] _ g(2)] f by simp
      with f(1) h g(3) show ?thesis by (auto intro: fresh_Cons extends_trans)
    next
      case nlt: False
      with False Cons.prems obtain s b1 rest where g: "full_adder_no_carry_out bld a b c = (s, b1)"
        "wrapping_add_loop len (n + 1) c b1 as bs = (rest, bld')" "ns = s # rest"
        by (auto simp: bbs split: prod.splits)
      have h: "wf_builder b1" "extends bld b1"
        using full_adder_no_carry_out_adds [OF wf v c(2) g(1)] by (simp_all add: adds_def)
      note f = full_adder_no_carry_out_live [OF l(1,2) c(1) g(1)]
      have "fresh b1 bld' rest \<and> extends b1 bld'"
        using Cons.IH [OF h(1) lives_extends [OF l(3) h(2)] lives_extends [OF l(4) h(2)] _ g(2)]
          live_extends [OF c(1) h(2)] by simp
      with f h g(3) show ?thesis by (auto intro: fresh_Cons extends_trans)
    qed
  qed
  qed
qed

lemma xor_nodes_fresh:
  assumes "wf_builder bld" "lives bld as" "lives bld bs" "xor_nodes bld as bs = (ns, bld')"
  shows "fresh bld bld' ns \<and> extends bld bld'"
  using assms
proof (induction bld as bs arbitrary: ns rule: xor_nodes.induct)
  case (1 bld a as b bs)
  then obtain n b1 ns' where g: "add_xor_gate bld a b = (n, b1)" "xor_nodes b1 as bs = (ns', bld')" "ns = n # ns'"
    by (auto split: prod.splits)
  have l: "live bld a" "live bld b" using "1.prems" by simp_all
  then have ad: "adds bld b1 n (\<lambda>ins. node_val bld ins a \<noteq> node_val bld ins b)"
    using "1.prems"(1) by (intro add_xor_gate_adds [OF _ _ _ g(1)]) (auto simp: live_def)
  have "n \<in> {feed_id bld..<feed_id b1}" using g(1) l by (auto simp: add_xor_gate_live)
  moreover have "fresh b1 bld' ns' \<and> extends b1 bld'"
    using "1.prems" addsD(1,2) [OF ad]
    by (intro "1.IH" [OF g(1) [symmetric] refl _ _ _ g(2)]) (auto intro: lives_extends)
  ultimately show ?case using g(3) addsD(2) [OF ad] by (auto intro: fresh_Cons extends_trans)
qed (auto simp: fresh_def)

section \<open>Building with outputs\<close>

lemma add_outputs_eq: "add_outputs ns b = b\<lparr>b_outputs := b_outputs b @ ns\<rparr>"
  by (induction ns arbitrary: b) (simp_all add: add_output_def)

lemma wf_builder_outputs [simp]: "wf_builder (b\<lparr>b_outputs := os\<rparr>) = wf_builder b"
  by (simp add: wf_builder_def)

lemma node_val_outputs [simp]: "node_val (b\<lparr>b_outputs := os\<rparr>) ins n = node_val b ins n"
proof -
  have "builder_env (b\<lparr>b_outputs := os\<rparr>) = builder_env b"
    by (intro ext) (simp add: builder_env_def)
  then show ?thesis by (simp add: node_val_def)
qed

text \<open>
  From inputs to circuit: if the computed nodes are fresh, \<open>build\<close> gives a well-formed circuit
  that evaluates to their values.
\<close>

lemma build_outputs:
  assumes wf: "wf_builder b'" and ext: "extends (inputs_builder k) b'" and fr: "fresh (inputs_builder k) b' ns"
  obtains c where "build (b'\<lparr>b_outputs := ns\<rparr>) = Inr c" "wf_circuit c" "inputs c = (0, k)"
    "\<And>ins. k \<le> length ins \<Longrightarrow> evaluate c ins = Inr (vals b' ins ns)"
proof -
  let ?b = "b'\<lparr>b_outputs := ns\<rparr>"
  have "outputs_ok ?b"
    using fr fresh_gate_outputs [OF fr wf_inputs_builder wf ext] by (simp add: outputs_ok_def fresh_def)
  moreover have "b_inputs b' = [2..<2 + k]" using ext by (simp add: extends_def)
  ultimately show thesis
    using build_ok [of ?b] wf that by (auto simp del: upt_Suc)
qed

section \<open>The 8-bit adder\<close>

lemma lives_inputs: "2 \<le> i \<Longrightarrow> j \<le> 2 + k \<Longrightarrow> lives (inputs_builder k) [i..<j]"
  by (auto simp: lives_def live_def)

lemma wrapping_add_fresh:
  assumes "wf_builder bld" "lives bld as" "lives bld bs" "wrapping_add bld as bs = Inr (ns, bld')"
  shows "fresh bld bld' ns \<and> extends bld bld'"
  using assms wrapping_add_loop_fresh [where n = 0 and c = 0 and bld = bld and as = as and bs = bs]
  by (auto simp: wrapping_add_def result_simps)

lemma wrapping_add_word:
  fixes x y :: "'a::len word"
  assumes "wf_builder bld" "valid bld as" "valid bld bs" "length as = LENGTH('a)" "length bs = LENGTH('a)"
    "wrapping_add bld as bs = Inr (ns, bld')" "vals bld ins as = to_lsb0 x" "vals bld ins bs = to_lsb0 y"
  shows "vals bld' ins ns = to_lsb0 (x + y)"
proof (rule to_lsb0_eqI)
  have s: "length ns = LENGTH('a)" "nat_of_bits (vals bld' ins ns) =
      (nat_of_bits (vals bld ins as) + nat_of_bits (vals bld ins bs)) mod 2 ^ length ns"
    using wrapping_add_adds [OF assms(1-3) _ assms(6)] assms(4,5) by (auto simp: sum_spec_def)
  then show "length (vals bld' ins ns) = LENGTH('a)" by simp
  show "nat_of_bits (vals bld' ins ns) mod 2 ^ LENGTH('a) = unat (x + y)"
    unfolding s(2) assms(7,8) s(1) nat_of_bits_to_lsb0 by (simp add: unat_word_ariths)
qed

lemma adder_u8_ok:
  obtains c where "adder_u8 = Inr c" "wf_circuit c" "inputs c = (0, 16)"
    "\<And>x y :: 8 word. evaluate c (to_lsb0 x @ to_lsb0 y) = Inr (to_lsb0 (x + y))"
proof -
  let ?b = "inputs_builder 16" and ?as = "[2..<10]" and ?bs = "[10..<18]"
  have ins: "add_inputs 8 builder_new = (?as, inputs_builder 8)" "add_inputs 8 (inputs_builder 8) = (?bs, ?b)"
    using add_inputs_inputs_builder [of 8 0] add_inputs_inputs_builder [of 8 8]
    unfolding inputs_builder_0 by (simp_all del: upt_Suc upt_rec_numeral)
  obtain ns b' where add: "wrapping_add ?b ?as ?bs = (Inr (ns, b') :: (unit, _) result)"
    using wrapping_add_total [of ?as ?bs ?b] by (auto simp del: upt_rec_numeral)
  have lv: "lives ?b ?as" "lives ?b ?bs" by (auto simp: lives_def live_def)
  have fr: "fresh ?b b' ns" "extends ?b b'"
    using wrapping_add_fresh [OF wf_inputs_builder lv add] by simp_all
  have sp: "wf_builder b'"
    using wrapping_add_adds [OF wf_inputs_builder lives_valid [OF lv(1)] lives_valid [OF lv(2)] _ add]
    by (simp add: sum_spec_def del: upt_rec_numeral)
  have "b_outputs b' = []" using fr(2) by (simp add: extends_def)
  moreover obtain c where c: "build (b'\<lparr>b_outputs := ns\<rparr>) = Inr c" "wf_circuit c" "inputs c = (0, 16)"
      "\<And>ins. 16 \<le> length ins \<Longrightarrow> evaluate c ins = Inr (vals b' ins ns)"
    using build_outputs [OF sp fr(2,1)] by blast
  ultimately have "adder_u8 = Inr c"
    by (simp add: adder_u8_def ins add add_outputs_eq del: upt_rec_numeral)
  moreover have "evaluate c (to_lsb0 x @ to_lsb0 y) = Inr (to_lsb0 (x + y))" for x y :: "8 word"
  proof -
    let ?in = "to_lsb0 x @ to_lsb0 y"
    have "vals ?b ?in ?as = to_lsb0 x" "vals ?b ?in ?bs = to_lsb0 y"
      using vals_inputs_builder [of 0 8 16 ?in] vals_inputs_builder [of 8 8 16 ?in]
      by (simp_all del: upt_rec_numeral)
    then have "vals b' ?in ns = to_lsb0 (x + y)"
      using wrapping_add_word [OF wf_inputs_builder lives_valid [OF lv(1)] lives_valid [OF lv(2)] _ _ add, where x = x and y = y and ins = ?in]
      by (simp del: upt_rec_numeral)
    with c(4) show ?thesis by simp
  qed
  ultimately show thesis using c(2,3) that by blast
qed

text \<open>
  \<open>adder_u8\<close> builds, and the circuit it returns is a wrapping adder: on the bits of any
  two bytes, least significant first, it evaluates to the bits of their sum modulo 256.
\<close>

theorem adder_u8_correct:
  "\<exists>c. adder_u8 = Inr c \<and> wf_circuit c \<and>
     (\<forall>x y :: 8 word. evaluate c (to_lsb0 x @ to_lsb0 y) = Inr (to_lsb0 (x + y)))"
  using adder_u8_ok by metis

section \<open>Exclusive or of two vectors\<close>

lemma add_xor_gate_outputs:
  "add_xor_gate (b\<lparr>b_outputs := os\<rparr>) x y =
     (let (n, b') = add_xor_gate b x y in (n, b'\<lparr>b_outputs := os\<rparr>))"
  by (simp add: add_xor_gate_def add_feed_def push_gate_def Let_def)

lemma add_xor_gate_b_outputs: "add_xor_gate b x y = (n, b') \<Longrightarrow> b_outputs b' = b_outputs b"
  by (auto simp: add_xor_gate_def add_feed_def push_gate_def Let_def split: if_splits)

lemma xor_nodes_outputs:
  "xor_nodes (b\<lparr>b_outputs := os\<rparr>) xs ys =
     (let (ns, b') = xor_nodes b xs ys in (ns, b'\<lparr>b_outputs := os\<rparr>))"
proof (induction xs arbitrary: ys b)
  case (Cons x xs)
  then show ?case
    by (cases ys) (simp_all add: add_xor_gate_outputs split: prod.splits)
qed simp

lemma xor_loop_eq:
  "xor_loop b xs ys = (let (ns, b') = xor_nodes b xs ys in b'\<lparr>b_outputs := b_outputs b @ ns\<rparr>)"
proof (induction xs arbitrary: ys b)
  case (Cons x xs)
  then show ?case
    by (cases ys)
      (auto simp: add_output_def xor_nodes_outputs add_xor_gate_b_outputs split: prod.splits)
qed simp

text \<open>
  For every size, \<open>xor\<close> builds, and its circuit evaluates to the bitwise exclusive or
  of its two arguments.
\<close>

theorem xor_circuit_correct:
  "\<exists>c. xor_circuit n = Inr c \<and> wf_circuit c \<and> inputs c = (0, 2 * n) \<and>
     (\<forall>xs ys. length xs = n \<and> length ys = n \<longrightarrow> evaluate c (xs @ ys) = Inr (map2 (\<noteq>) xs ys))"
proof -
  let ?b = "inputs_builder (n + n)" and ?as = "[2..<2 + n]" and ?bs = "[2 + n..<2 + n + n]"
  have ins: "add_inputs n builder_new = (?as, inputs_builder n)" "add_inputs n (inputs_builder n) = (?bs, ?b)"
    using add_inputs_inputs_builder [of n 0] add_inputs_inputs_builder [of n n]
    unfolding inputs_builder_0 by (simp_all del: upt_Suc)
  obtain ns b' where x: "xor_nodes ?b ?as ?bs = (ns, b')" by fastforce
  have lv: "lives ?b ?as" "lives ?b ?bs" by (auto simp: lives_def live_def)
  have fr: "fresh ?b b' ns" "extends ?b b'"
    using xor_nodes_fresh [OF wf_inputs_builder lv x] by simp_all
  have ad: "addsL ?b b' ns (\<lambda>ins. map2 (\<noteq>) (vals ?b ins ?as) (vals ?b ins ?bs))"
    by (rule xor_nodes_adds [OF wf_inputs_builder lives_valid [OF lv(1)] lives_valid [OF lv(2)] _ x])
      (simp del: upt_Suc)
  obtain c where c: "build (b'\<lparr>b_outputs := ns\<rparr>) = Inr c" "wf_circuit c" "inputs c = (0, n + n)"
      "\<And>ins. n + n \<le> length ins \<Longrightarrow> evaluate c ins = Inr (vals b' ins ns)"
    using build_outputs [OF addsL_D(1) [OF ad] fr(2,1)] by blast
  have "xor_circuit n = Inr c"
    unfolding xor_circuit_def ins Let_def prod.case xor_loop_eq x by (simp add: c(1))
  moreover have "evaluate c (xs @ ys) = Inr (map2 (\<noteq>) xs ys)" if "length xs = n" "length ys = n" for xs ys
    using vals_inputs_builder [of 0 n "n + n" "xs @ ys"] vals_inputs_builder [of n n "n + n" "xs @ ys"]
      c(4) [of "xs @ ys"] addsL_D(4) [OF ad, of "xs @ ys"] that by (simp del: upt_Suc)
  ultimately show ?thesis using c(2,3) by (auto simp: mult_2)
qed

theorem xor_circuit_correct_witness:
  "\<exists>c. xor_circuit 2 = Inr c \<and> evaluate c ([True, False] @ [True, True]) = Inr [False, True]"
proof -
  obtain c where "xor_circuit 2 = Inr c"
      "\<forall>xs ys. length xs = 2 \<and> length ys = 2 \<longrightarrow> evaluate c (xs @ ys) = Inr (map2 (\<noteq>) xs ys)"
    using xor_circuit_correct [of 2] by blast
  from this(1) spec [OF spec [OF this(2), of "[True, False]"], of "[True, True]"] show ?thesis by simp
qed

end
