(* ===== verification/Blake3.thy ===== *)
theory Blake3
  imports Circuits "HOL-Library.Multiset"
begin

text \<open>
  The BLAKE3 compression circuit (\<open>circuits-core/src/circuits/blake3.rs\<close>).  A state is an array
  of 16 rows of 32 nodes, least significant bit first; each statement of \<open>mix\<close> is one operation
  on the pair of state and builder.  The reference is the word-level compression function the
  test module of the same file has, and the circuit is proved to compute it on all inputs.
\<close>

section \<open>The circuit\<close>

definition MSG_PERMUTATION :: "nat list" where
  "MSG_PERMUTATION = [2, 6, 3, 10, 7, 0, 4, 13, 1, 11, 12, 5, 9, 14, 15, 8]"

type_synonym rows = "node list list"
type_synonym stmt = "rows \<Rightarrow> rows \<times> builder \<Rightarrow> (unit, rows \<times> builder) result"

text \<open>Statements one after the other.\<close>

definition seqR :: "stmt \<Rightarrow> stmt \<Rightarrow> stmt" where
  "seqR f g msg s = bindR (f msg s) (g msg)"

text \<open>\<open>state[a] = wrapping_add(builder, &state[a], row).try_into().unwrap()\<close>\<close>

definition assign_sum :: "nat \<Rightarrow> node list \<Rightarrow> rows \<times> builder \<Rightarrow> (unit, rows \<times> builder) result" where
  "assign_sum a row s =
     (case s of (state, builder) \<Rightarrow>
        bindR (idx state a) (\<lambda>x.
        bindR (wrapping_add builder x row) (\<lambda>(sum, builder).
        bindR (assertR (length sum = 32)) (\<lambda>_.
        bindR (upd state a sum) (\<lambda>state. Inr (state, builder))))))"

definition add_state :: "nat \<Rightarrow> nat \<Rightarrow> stmt" where
  "add_state a b msg s = bindR (idx (fst s) b) (\<lambda>row. assign_sum a row s)"

definition add_msg :: "nat \<Rightarrow> nat \<Rightarrow> stmt" where
  "add_msg a mx msg s = bindR (idx msg mx) (\<lambda>row. assign_sum a row s)"

text \<open>\<open>state[d] = xor(builder, state[d], state[a])\<close> and \<open>state[d].rotate_left(k)\<close>\<close>

definition xor_row :: "nat \<Rightarrow> node list \<Rightarrow> rows \<times> builder \<Rightarrow> (unit, rows \<times> builder) result" where
  "xor_row d row s =
     (case s of (state, builder) \<Rightarrow>
        bindR (idx state d) (\<lambda>x.
        let (out, builder) = xor_nodes builder x row
        in bindR (upd state d out) (\<lambda>state. Inr (state, builder))))"

definition xor_state :: "nat \<Rightarrow> nat \<Rightarrow> stmt" where
  "xor_state d a msg s = bindR (idx (fst s) a) (\<lambda>row. xor_row d row s)"

definition rotate_state :: "nat \<Rightarrow> nat \<Rightarrow> stmt" where
  "rotate_state d k msg s =
     bindR (idx (fst s) d) (\<lambda>x. bindR (upd (fst s) d (rotate k x)) (\<lambda>state. Inr (state, snd s)))"

definition mix :: "nat \<times> nat \<times> nat \<times> nat \<Rightarrow> nat \<times> nat \<Rightarrow> stmt" where
  "mix state_indices msg_indices =
     (case state_indices of (a, b, c, d) \<Rightarrow> case msg_indices of (mx, my) \<Rightarrow>
        seqR (add_state a b) (seqR (add_msg a mx)
       (seqR (xor_state d a) (seqR (rotate_state d 16)
       (seqR (add_state c d)
       (seqR (xor_state b c) (seqR (rotate_state b 12)
       (seqR (add_state a b) (seqR (add_msg a my)
       (seqR (xor_state d a) (seqR (rotate_state d 8)
       (seqR (add_state c d)
       (seqR (xor_state b c) (rotate_state b 7)))))))))))))) "

definition round :: stmt where
  "round =
     seqR (mix (0, 4, 8, 12) (0, 1)) (seqR (mix (1, 5, 9, 13) (2, 3))
    (seqR (mix (2, 6, 10, 14) (4, 5)) (seqR (mix (3, 7, 11, 15) (6, 7))
    (seqR (mix (0, 5, 10, 15) (8, 9)) (seqR (mix (1, 6, 11, 12) (10, 11))
    (seqR (mix (2, 7, 8, 13) (12, 13)) (mix (3, 4, 9, 14) (14, 15))))))))"

definition permute :: "'a list \<Rightarrow> (unit, 'a list) result" where
  "permute msg = mapR (\<lambda>i. bindR (idx MSG_PERMUTATION i) (idx msg)) [0..<16]"

fun round_loop :: "nat \<Rightarrow> rows \<Rightarrow> rows \<times> builder \<Rightarrow> (unit, rows \<times> rows \<times> builder) result" where
  "round_loop 0 msg s = Inr (msg, s)"
| "round_loop (Suc n) msg s =
     bindR (round msg s) (\<lambda>s. bindR (permute msg) (\<lambda>msg. round_loop n msg s))"

definition feed_forward :: "rows \<Rightarrow> nat \<Rightarrow> rows \<times> builder \<Rightarrow> (unit, rows \<times> builder) result" where
  "feed_forward state i s =
     bindR (xor_state i (i + 8) [] s) (\<lambda>s.
     bindR (idx state i) (\<lambda>row. xor_row (i + 8) row s))"

definition compress_internal :: "builder \<Rightarrow> rows \<Rightarrow> rows \<Rightarrow> (unit, rows \<times> builder) result" where
  "compress_internal builder msg state =
     bindR (round_loop (7 - 1) msg (state, builder)) (\<lambda>(msg, s).
     bindR (round msg s) (\<lambda>s.
     foldR (feed_forward state) [0..<8] s))"

text \<open>\<open>from_fn(|_| from_fn(|_| builder.add_input()))\<close>\<close>

fun add_input_rows :: "nat \<Rightarrow> nat \<Rightarrow> builder \<Rightarrow> rows \<times> builder" where
  "add_input_rows 0 w b = ([], b)"
| "add_input_rows (Suc n) w b =
     (let (row, b) = add_inputs w b; (rows, b) = add_input_rows n w b in (row # rows, b))"

definition compress :: "(unit, circuit) result" where
  "compress =
     (let (msg, builder) = add_input_rows 16 32 builder_new;
          (state, builder) = add_input_rows 16 32 builder
      in bindR (compress_internal builder msg state) (\<lambda>(output, builder).
         unwrapR (build (add_outputs (concat output) builder))))"

section \<open>The reference compression function\<close>

type_synonym words = "32 word list"

definition ref_mix :: "nat \<Rightarrow> nat \<Rightarrow> nat \<Rightarrow> nat \<Rightarrow> 32 word \<Rightarrow> 32 word \<Rightarrow> words \<Rightarrow> words" where
  "ref_mix a b c d mx my s =
     (let s = s[a := s ! a + s ! b + mx];
          s = s[d := word_rotr 16 (s ! d XOR s ! a)];
          s = s[c := s ! c + s ! d];
          s = s[b := word_rotr 12 (s ! b XOR s ! c)];
          s = s[a := s ! a + s ! b + my];
          s = s[d := word_rotr 8 (s ! d XOR s ! a)];
          s = s[c := s ! c + s ! d]
      in s[b := word_rotr 7 (s ! b XOR s ! c)])"

definition ref_round :: "words \<Rightarrow> words \<Rightarrow> words" where
  "ref_round m s =
     (let s = ref_mix 0 4 8 12 (m ! 0) (m ! 1) s;
          s = ref_mix 1 5 9 13 (m ! 2) (m ! 3) s;
          s = ref_mix 2 6 10 14 (m ! 4) (m ! 5) s;
          s = ref_mix 3 7 11 15 (m ! 6) (m ! 7) s;
          s = ref_mix 0 5 10 15 (m ! 8) (m ! 9) s;
          s = ref_mix 1 6 11 12 (m ! 10) (m ! 11) s;
          s = ref_mix 2 7 8 13 (m ! 12) (m ! 13) s
      in ref_mix 3 4 9 14 (m ! 14) (m ! 15) s)"

definition ref_permute :: "'a list \<Rightarrow> 'a list" where
  "ref_permute m = map (\<lambda>i. m ! (MSG_PERMUTATION ! i)) [0..<16]"

definition ref_xor_out :: "words \<Rightarrow> nat \<Rightarrow> words \<Rightarrow> words" where
  "ref_xor_out init i s =
     (let s = s[i := s ! i XOR s ! (i + 8)] in s[i + 8 := s ! (i + 8) XOR init ! i])"

definition ref_compress :: "words \<Rightarrow> words \<Rightarrow> words" where
  "ref_compress m init =
     (let s = ref_round m init; m = ref_permute m;
          s = ref_round m s; m = ref_permute m;
          s = ref_round m s; m = ref_permute m;
          s = ref_round m s; m = ref_permute m;
          s = ref_round m s; m = ref_permute m;
          s = ref_round m s; m = ref_permute m;
          s = ref_round m s
      in fold (ref_xor_out init) [0..<8] s)"

section \<open>Representation of words by rows\<close>

lemma to_from_lsb0: "length bs = LENGTH('a) \<Longrightarrow> to_lsb0 (from_lsb0 bs :: 'a::len word) = bs"
  using nat_of_bits_lt [of bs]
  by (intro to_lsb0_eqI [symmetric]) (simp_all add: from_lsb0_def unat_of_nat take_bit_nat_eq_self_iff take_bit_eq_mod [symmetric])

lemma to_lsb0_rotr: "to_lsb0 (word_rotr k w) = rotate k (to_lsb0 w)" for w :: "'a::len word"
  by (rule nth_equalityI) (simp_all add: nth_rotate bit_word_rotr_iff add.commute)

lemma to_lsb0_xor: "to_lsb0 (x XOR y) = map2 (\<noteq>) (to_lsb0 x) (to_lsb0 y)" for x y :: "'a::len word"
  by (rule nth_equalityI) (simp_all add: bit_xor_iff)

text \<open>
  \<open>repr b st W\<close>: the rows \<open>st\<close> carry, for every input, the words \<open>W ins\<close>; no row contains a
  constant node, so no gate on them is folded away.
\<close>

definition repr :: "builder \<Rightarrow> rows \<Rightarrow> (bool list \<Rightarrow> words) \<Rightarrow> bool" where
  "repr b st W \<longleftrightarrow>
     wf_builder b \<and> length st = 16 \<and> (\<forall>r \<in> set st. length r = 32 \<and> lives b r) \<and>
     (\<forall>ins. length (W ins) = 16 \<and> (\<forall>i < 16. vals b ins (st ! i) = to_lsb0 (W ins ! i)))"

lemma reprD:
  assumes "repr b st W"
  shows "wf_builder b" "length st = 16" "length (W ins) = 16"
    and "i < 16 \<Longrightarrow> length (st ! i) = 32" "i < 16 \<Longrightarrow> lives b (st ! i)" "i < 16 \<Longrightarrow> valid b (st ! i)"
    and "i < 16 \<Longrightarrow> vals b ins (st ! i) = to_lsb0 (W ins ! i)"
  using assms by (auto simp: repr_def lives_valid)

lemma repr_extends:
  assumes r: "repr b st W" and e: "extends b b'" and wf: "wf_builder b'"
  shows "repr b' st W"
proof -
  have v: "vals b' ins (st ! i) = vals b ins (st ! i)" if "i < 16" for ins i
    by (rule vals_extends [OF e reprD(6) [OF r that]])
  show ?thesis
    using r wf e by (auto simp: repr_def v simp del: map_eq_conv intro: lives_extends)
qed

lemma repr_update:
  assumes r: "repr b st W" and e: "extends b b'" and wf: "wf_builder b'" and i: "i < 16"
    and row: "length row = 32" "lives b' row" "\<And>ins. vals b' ins row = to_lsb0 (w ins)"
  shows "repr b' (st[i := row]) (\<lambda>ins. (W ins)[i := w ins])"
  using repr_extends [OF r e wf] i row
  by (auto simp: repr_def nth_list_update dest!: set_update_subset_insert [THEN subsetD])

section \<open>Each statement computes its word-level counterpart\<close>

definition impl :: "stmt \<Rightarrow> (words \<Rightarrow> words \<Rightarrow> words) \<Rightarrow> bool" where
  "impl f F \<longleftrightarrow>
     (\<forall>b st W msg M. repr b st W \<longrightarrow> repr b msg M \<longrightarrow>
        (\<exists>st' b'. f msg (st, b) = Inr (st', b') \<and> extends b b' \<and> repr b' st' (\<lambda>ins. F (M ins) (W ins))))"

lemma implE:
  assumes "impl f F" "repr b st W" "repr b msg M"
  obtains st' b' where "f msg (st, b) = Inr (st', b')" "extends b b'" "repr b' st' (\<lambda>ins. F (M ins) (W ins))"
  using assms unfolding impl_def by blast

lemma impl_seqR:
  assumes f: "impl f F" and g: "impl g G"
  shows "impl (seqR f g) (\<lambda>m w. G m (F m w))"
  unfolding impl_def
proof (intro allI impI)
  fix b st W msg M assume r: "repr b st W" "repr b msg M"
  obtain s1 b1 where 1: "f msg (st, b) = Inr (s1, b1)" "extends b b1" "repr b1 s1 (\<lambda>ins. F (M ins) (W ins))"
    using implE [OF f r] .
  obtain s2 b2 where 2: "g msg (s1, b1) = Inr (s2, b2)" "extends b1 b2"
      "repr b2 s2 (\<lambda>ins. G (M ins) (F (M ins) (W ins)))"
    using implE [OF g 1(3) repr_extends [OF r(2) 1(2) reprD(1) [OF 1(3)]]] .
  show "\<exists>st' b'. seqR f g msg (st, b) = Inr (st', b') \<and> extends b b' \<and> repr b' st' (\<lambda>ins. G (M ins) (F (M ins) (W ins)))"
    using 1 2 by (auto simp: seqR_def intro: extends_trans)
qed

lemma assign_sum_repr:
  assumes r: "repr b st W" and a: "a < 16" and row: "length row = 32" "lives b row"
    and w: "\<And>ins. vals b ins row = to_lsb0 (w ins)"
  shows "\<exists>st' b'. assign_sum a row (st, b) = Inr (st', b') \<and> extends b b' \<and>
           repr b' st' (\<lambda>ins. (W ins)[a := W ins ! a + w ins])"
proof -
  note d = reprD [OF r]
  obtain ns b' where s: "wrapping_add b (st ! a) row = (Inr (ns, b') :: (unit, _) result)"
    using wrapping_add_total [of "st ! a" row b] d(4) [OF a] row(1) by auto
  have fr: "fresh b b' ns" "extends b b'"
    using wrapping_add_fresh [OF d(1) d(5) [OF a] row(2) s] by simp_all
  have wf: "wf_builder b'" and len: "length ns = 32"
    using wrapping_add_adds [OF d(1) d(6) [OF a] lives_valid [OF row(2)] _ s] d(4) [OF a] row(1)
    by (simp_all add: sum_spec_def)
  have "vals b' ins ns = to_lsb0 (W ins ! a + w ins)" for ins
    using wrapping_add_word [OF d(1) d(6) [OF a] lives_valid [OF row(2)] _ _ s d(7) [OF a] w, of ins]
      d(4) [OF a] row(1) by simp
  then have "repr b' (st[a := ns]) (\<lambda>ins. (W ins)[a := W ins ! a + w ins])"
    by (rule repr_update [OF r fr(2) wf a len fresh_lives [OF fr(1) d(1)]])
  then show ?thesis using fr(2) d(2) a s len by (auto simp: assign_sum_def)
qed

lemma impl_add_state:
  assumes "a < 16" "b < 16"
  shows "impl (add_state a b) (\<lambda>m w. w[a := w ! a + w ! b])"
  unfolding impl_def
proof (intro allI impI)
  fix bld st W msg M assume r: "repr bld st W" "repr bld msg M"
  show "\<exists>st' b'. add_state a b msg (st, bld) = Inr (st', b') \<and> extends bld b' \<and>
      repr b' st' (\<lambda>ins. (W ins)[a := W ins ! a + W ins ! b])"
    using assign_sum_repr [OF r(1) assms(1) reprD(4,5,7) [OF r(1) assms(2)]] reprD(2) [OF r(1)] assms
    by (simp add: add_state_def)
qed

lemma impl_add_msg:
  assumes "a < 16" "x < 16"
  shows "impl (add_msg a x) (\<lambda>m w. w[a := w ! a + m ! x])"
  unfolding impl_def
proof (intro allI impI)
  fix bld st W msg M assume r: "repr bld st W" "repr bld msg M"
  show "\<exists>st' b'. add_msg a x msg (st, bld) = Inr (st', b') \<and> extends bld b' \<and>
      repr b' st' (\<lambda>ins. (W ins)[a := W ins ! a + M ins ! x])"
    using assign_sum_repr [OF r(1) assms(1) reprD(4,5,7) [OF r(2) assms(2)]] reprD(2) [OF r(2)] assms
    by (simp add: add_msg_def)
qed

lemma xor_row_repr:
  assumes r: "repr b st W" and d: "d < 16" and row: "length row = 32" "lives b row"
    and w: "\<And>ins. vals b ins row = to_lsb0 (w ins)"
  shows "\<exists>ns b'. xor_row d row (st, b) = Inr (st[d := ns], b') \<and> extends b b' \<and> fresh b b' ns \<and>
           repr b' (st[d := ns]) (\<lambda>ins. (W ins)[d := W ins ! d XOR w ins])"
proof -
  note rd = reprD [OF r]
  obtain ns b' where x: "xor_nodes b (st ! d) row = (ns, b')" by fastforce
  have fr: "fresh b b' ns" "extends b b'"
    using xor_nodes_fresh [OF rd(1) rd(5) [OF d] row(2) x] by simp_all
  have ad: "addsL b b' ns (\<lambda>ins. map2 (\<noteq>) (vals b ins (st ! d)) (vals b ins row))"
    using xor_nodes_adds [OF rd(1) rd(6) [OF d] lives_valid [OF row(2)] _ x] rd(4) [OF d] row(1) by simp
  have v: "vals b' ins ns = to_lsb0 (W ins ! d XOR w ins)" for ins
    using addsL_D(4) [OF ad] by (simp add: to_lsb0_xor rd(7) [OF d] w)
  have len: "length ns = 32" using arg_cong [OF v, of length] by simp
  have "repr b' (st[d := ns]) (\<lambda>ins. (W ins)[d := W ins ! d XOR w ins])"
    using v by (rule repr_update [OF r fr(2) addsL_D(1) [OF ad] d len fresh_lives [OF fr(1) rd(1)]])
  then show ?thesis using fr rd(2) d x by (auto simp: xor_row_def)
qed

lemma impl_xor_state:
  assumes "d < 16" "a < 16"
  shows "impl (xor_state d a) (\<lambda>m w. w[d := w ! d XOR w ! a])"
  unfolding impl_def
proof (intro allI impI)
  fix bld st W msg M assume r: "repr bld st W" "repr bld msg M"
  show "\<exists>st' b'. xor_state d a msg (st, bld) = Inr (st', b') \<and> extends bld b' \<and>
      repr b' st' (\<lambda>ins. (W ins)[d := W ins ! d XOR W ins ! a])"
    using xor_row_repr [OF r(1) assms(1) reprD(4,5,7) [OF r(1) assms(2)]] reprD(2) [OF r(1)] assms
    by (auto simp: xor_state_def)
qed

lemma impl_rotate_state:
  assumes "d < 16"
  shows "impl (rotate_state d k) (\<lambda>m w. w[d := word_rotr k (w ! d)])"
  unfolding impl_def
proof (intro allI impI)
  fix bld st W msg M assume r: "repr bld st W" "repr bld msg M"
  have "repr bld (st[d := rotate k (st ! d)]) (\<lambda>ins. (W ins)[d := word_rotr k (W ins ! d)])"
    using reprD [OF r(1)] assms
    by (intro repr_update [OF r(1)]) (simp_all add: lives_def rotate_map [symmetric] to_lsb0_rotr)
  then show "\<exists>st' b'. rotate_state d k msg (st, bld) = Inr (st', b') \<and> extends bld b' \<and>
      repr b' st' (\<lambda>ins. (W ins)[d := word_rotr k (W ins ! d)])"
    using reprD(2) [OF r(1)] assms by (simp add: rotate_state_def)
qed

lemmas impl_stmts = impl_seqR impl_add_state impl_add_msg impl_xor_state impl_rotate_state

lemma impl_cong:
  assumes f: "impl f F" and eq: "\<And>m w. length m = 16 \<Longrightarrow> length w = 16 \<Longrightarrow> F m w = G m w"
  shows "impl f G"
  unfolding impl_def
proof (intro allI impI)
  fix b st W msg M assume r: "repr b st W" "repr b msg M"
  have "(\<lambda>ins. F (M ins) (W ins)) = (\<lambda>ins. G (M ins) (W ins))"
    using reprD(3) [OF r(1)] reprD(3) [OF r(2)] by (simp add: eq)
  then show "\<exists>st' b'. f msg (st, b) = Inr (st', b') \<and> extends b b' \<and> repr b' st' (\<lambda>ins. G (M ins) (W ins))"
    using f r unfolding impl_def by metis
qed

text \<open>The statements of \<open>mix\<close> in pairs, as the reference writes them.\<close>

lemma impl_seq_assoc:
  assumes "impl (seqR f g) F" "impl h H"
  shows "impl (seqR f (seqR g h)) (\<lambda>m w. H m (F m w))"
proof -
  have "seqR f (seqR g h) = seqR (seqR f g) h"
    by (auto simp: fun_eq_iff seqR_def bindR_def split: sum.splits)
  then show ?thesis using impl_seqR [OF assms] by simp
qed

lemma impl_add_add:
  "a < 16 \<Longrightarrow> b < 16 \<Longrightarrow> x < 16 \<Longrightarrow>
     impl (seqR (add_state a b) (add_msg a x)) (\<lambda>m w. w[a := w ! a + w ! b + m ! x])"
  by (rule impl_cong [OF impl_seqR [OF impl_add_state impl_add_msg]]) simp_all

lemma impl_xor_rotate:
  "a < 16 \<Longrightarrow> d < 16 \<Longrightarrow> impl (seqR (xor_state d a) (rotate_state d k)) (\<lambda>m w. w[d := word_rotr k (w ! d XOR w ! a)])"
  by (rule impl_cong [OF impl_seqR [OF impl_xor_state impl_rotate_state]]) simp_all

lemma impl_mix:
  assumes "a < 16" "b < 16" "c < 16" "d < 16" "x < 16" "y < 16"
  shows "impl (mix (a, b, c, d) (x, y)) (\<lambda>m. ref_mix a b c d (m ! x) (m ! y))"
proof -
  note half = impl_xor_rotate [OF assms(1,4)] impl_add_state [OF assms(3,4)] impl_xor_rotate [OF assms(3,2)]
  show ?thesis
    unfolding mix_def prod.case ref_mix_def Let_def
    by (rule impl_seq_assoc [OF impl_add_add [OF assms(1,2,5)] impl_seq_assoc [OF half(1) impl_seqR [OF half(2)
          impl_seq_assoc [OF half(3) impl_seq_assoc [OF impl_add_add [OF assms(1,2,6)] impl_seq_assoc [OF half(1)
          impl_seqR [OF half(2) half(3)]]]]]]])
qed

lemma impl_round: "impl round ref_round"
  unfolding round_def
  by (rule impl_cong, (rule impl_seqR impl_mix | (simp; fail))+) (simp add: ref_round_def Let_def)

lemma length_ref_permute [simp]: "length (ref_permute m) = 16"
  by (simp add: ref_permute_def)

lemma length_MSG_PERMUTATION [simp]: "length MSG_PERMUTATION = 16"
  by (simp add: MSG_PERMUTATION_def)

lemma MSG_PERMUTATION_lt: "i < 16 \<Longrightarrow> MSG_PERMUTATION ! i < 16"
proof -
  have "\<forall>i < 16. MSG_PERMUTATION ! i < 16"
    by (simp add: MSG_PERMUTATION_def All_less_Suc eval_nat_numeral)
  then show "i < 16 \<Longrightarrow> MSG_PERMUTATION ! i < 16" by blast
qed

lemma permute_eq: "length m = 16 \<Longrightarrow> permute m = Inr (ref_permute m)"
  unfolding permute_def ref_permute_def
  by (intro mapR_ok) (simp add: MSG_PERMUTATION_lt)

lemma repr_permute:
  assumes r: "repr b msg M"
  shows "repr b (ref_permute msg) (\<lambda>ins. ref_permute (M ins))"
  using reprD [OF r] MSG_PERMUTATION_lt
  by (auto simp: repr_def ref_permute_def simp del: upt_rec_numeral map_eq_conv)

fun ref_rounds :: "nat \<Rightarrow> words \<Rightarrow> words \<Rightarrow> words \<times> words" where
  "ref_rounds 0 m s = (m, s)"
| "ref_rounds (Suc n) m s = ref_rounds n (ref_permute m) (ref_round m s)"

lemma round_loop_repr:
  assumes "repr b st W" "repr b msg M"
  shows "\<exists>msg' st' b'. round_loop n msg (st, b) = Inr (msg', st', b') \<and> extends b b' \<and>
    repr b' msg' (\<lambda>ins. fst (ref_rounds n (M ins) (W ins))) \<and>
    repr b' st' (\<lambda>ins. snd (ref_rounds n (M ins) (W ins)))"
  using assms
proof (induction n arbitrary: b st W msg M)
  case (Suc n)
  obtain s1 b1 where 1: "round msg (st, b) = Inr (s1, b1)" "extends b b1"
      "repr b1 s1 (\<lambda>ins. ref_round (M ins) (W ins))"
    using implE [OF impl_round Suc.prems] .
  have m: "repr b1 (ref_permute msg) (\<lambda>ins. ref_permute (M ins))"
    by (rule repr_permute [OF repr_extends [OF Suc.prems(2) 1(2) reprD(1) [OF 1(3)]]])
  show ?case
    using Suc.IH [OF 1(3) m] 1(1,2) reprD(2) [OF Suc.prems(2)]
    by (auto simp: permute_eq intro: extends_trans)
qed simp

section \<open>The feed-forward\<close>

lemma length_ref_mix [simp]: "length (ref_mix a b c d x y s) = length s"
  by (simp add: ref_mix_def Let_def)

lemma length_ref_round [simp]: "length (ref_round m s) = length s"
  by (simp add: ref_round_def Let_def)

text \<open>
  The rows written by the last loop are fresh, so they are distinct outputs: \<open>out_rows n\<close> lists
  the indices written by the first \<open>n\<close> iterations.
\<close>

fun out_rows :: "nat \<Rightarrow> nat list" where
  "out_rows 0 = []"
| "out_rows (Suc n) = out_rows n @ [n, n + 8]"

lemma set_out_rows: "set (out_rows n) = {0..<n} \<union> {8..<n + 8}"
proof (induction n)
  case (Suc n)
  have "{0..<Suc n} = insert n {0..<n}" "{8..<Suc n + 8} = insert (n + 8) {8..<n + 8}"
    by (auto simp: atLeastLessThanSuc)
  then show ?case by (simp add: Suc.IH) blast
qed simp

lemma feed_forward_repr:
  assumes s: "repr b0 state S" and e: "extends b0 b" and r: "repr b st W" and i: "i < 8"
  shows "\<exists>x y b'. feed_forward state i (st, b) = Inr (st[i := x, i + 8 := y], b') \<and> extends b b' \<and>
    fresh b b' (x @ y) \<and> repr b' (st[i := x, i + 8 := y]) (\<lambda>ins. ref_xor_out (S ins) i (W ins))"
proof -
  have i': "i < 16" "i + 8 < 16" using i by simp_all
  obtain x b1 where 1: "xor_row i (st ! (i + 8)) (st, b) = Inr (st[i := x], b1)" "extends b b1" "fresh b b1 x"
      "repr b1 (st[i := x]) (\<lambda>ins. (W ins)[i := W ins ! i XOR W ins ! (i + 8)])"
    using xor_row_repr [OF r i'(1) reprD(4,5,7) [OF r i'(2)]] by blast
  have s1: "repr b1 state S"
    using s extends_trans [OF e 1(2)] reprD(1) [OF 1(4)] by (rule repr_extends)
  obtain y b2 where 2: "xor_row (i + 8) (state ! i) (st[i := x], b1) = Inr (st[i := x, i + 8 := y], b2)"
      "extends b1 b2" "fresh b1 b2 y"
      "repr b2 (st[i := x, i + 8 := y])
         (\<lambda>ins. (W ins)[i := W ins ! i XOR W ins ! (i + 8),
            i + 8 := (W ins)[i := W ins ! i XOR W ins ! (i + 8)] ! (i + 8) XOR S ins ! i])"
    using xor_row_repr [OF 1(4) i'(2) reprD(4,5,7) [OF s1 i'(1)]] by blast
  have "feed_forward state i (st, b) = Inr (st[i := x, i + 8 := y], b2)"
    using 1(1) 2(1) i' reprD(2) [OF r] reprD(2) [OF s] by (simp add: feed_forward_def xor_state_def)
  moreover have "fresh b b2 (x @ y)" using 1 2 by (blast intro: fresh_append)
  moreover have "extends b b2" using 1(2) 2(2) by (rule extends_trans)
  ultimately show ?thesis using 2(4) by (auto simp: ref_xor_out_def Let_def)
qed

lemma feed_forward_loop:
  assumes s: "repr b0 state S" and e: "extends b0 b" and r: "repr b st W" and n: "n \<le> 8"
  shows "\<exists>st' b'. foldR (feed_forward state) [0..<n] (st, b) = Inr (st', b') \<and> extends b b' \<and>
    fresh b b' (concat (map ((!) st') (out_rows n))) \<and>
    repr b' st' (\<lambda>ins. fold (ref_xor_out (S ins)) [0..<n] (W ins))"
  using n
proof (induction n)
  case 0
  then show ?case using r by (simp add: fresh_def)
next
  case (Suc n)
  then obtain s1 b1 where 1: "foldR (feed_forward state) [0..<n] (st, b) = Inr (s1, b1)" "extends b b1"
      "fresh b b1 (concat (map ((!) s1) (out_rows n)))"
      "repr b1 s1 (\<lambda>ins. fold (ref_xor_out (S ins)) [0..<n] (W ins))"
    by auto
  have n: "n < 8" using Suc.prems by simp
  obtain x y b2 where 2: "feed_forward state n (s1, b1) = Inr (s1[n := x, n + 8 := y], b2)" "extends b1 b2"
      "fresh b1 b2 (x @ y)"
      "repr b2 (s1[n := x, n + 8 := y]) (\<lambda>ins. ref_xor_out (S ins) n (fold (ref_xor_out (S ins)) [0..<n] (W ins)))"
    using feed_forward_repr [OF s extends_trans [OF e 1(2)] 1(4) n] by blast
  have old: "map ((!) (s1[n := x, n + 8 := y])) (out_rows n) = map ((!) s1) (out_rows n)"
    using n by (auto simp: set_out_rows)
  have "concat (map ((!) (s1[n := x, n + 8 := y])) (out_rows (Suc n))) =
      concat (map ((!) s1) (out_rows n)) @ x @ y"
    using n reprD(2) [OF 1(4)] unfolding out_rows.simps map_append concat_append old by simp
  then have "fresh b b2 (concat (map ((!) (s1[n := x, n + 8 := y])) (out_rows (Suc n))))"
    using fresh_append [OF 1(3) 2(3) 1(2) 2(2)] by simp
  then show ?case
    using 1(1) 2 extends_trans [OF 1(2) 2(2)] by (simp add: foldR_append)
qed

lemma concat_out_rows:
  assumes "length st = 16"
  shows "mset (concat (map ((!) st) (out_rows 8))) = mset (concat st)"
proof -
  have "st = map ((!) st) [0..<16]" using assms map_nth [of st] by simp
  then have "mset (concat st) = mset (concat (map ((!) st) [0..<16]))" by simp
  also have "\<dots> = mset (concat (map ((!) st) (out_rows 8)))"
    by (simp add: eval_nat_numeral upt_rec)
  finally show ?thesis by simp
qed

lemma fresh_mset: "fresh b b' xs \<Longrightarrow> mset xs = mset ys \<Longrightarrow> fresh b b' ys"
  unfolding fresh_def by (metis mset_eq_imp_distinct_iff mset_eq_setD)

lemma ref_compress_rounds:
  "ref_compress m s =
     (case ref_rounds 6 m s of (m', s') \<Rightarrow> fold (ref_xor_out s) [0..<8] (ref_round m' s'))"
  by (simp add: ref_compress_def Let_def eval_nat_numeral del: upt_Suc)

lemma compress_internal_repr:
  assumes s: "repr b st W" and m: "repr b msg M"
  shows "\<exists>st' b'. compress_internal b msg st = Inr (st', b') \<and> extends b b' \<and> fresh b b' (concat st') \<and>
    repr b' st' (\<lambda>ins. ref_compress (M ins) (W ins))"
proof -
  obtain m1 s1 b1 where 1: "round_loop 6 msg (st, b) = Inr (m1, s1, b1)" "extends b b1"
      "repr b1 m1 (\<lambda>ins. fst (ref_rounds 6 (M ins) (W ins)))"
      "repr b1 s1 (\<lambda>ins. snd (ref_rounds 6 (M ins) (W ins)))"
    using round_loop_repr [OF s m, of 6] by blast
  obtain s2 b2 where 2: "round m1 (s1, b1) = Inr (s2, b2)" "extends b1 b2"
      "repr b2 s2 (\<lambda>ins. ref_round (fst (ref_rounds 6 (M ins) (W ins))) (snd (ref_rounds 6 (M ins) (W ins))))"
    using implE [OF impl_round 1(4) 1(3)] .
  note e = extends_trans [OF 1(2) 2(2)]
  obtain s3 b3 where 3: "foldR (feed_forward st) [0..<8] (s2, b2) = Inr (s3, b3)" "extends b2 b3"
      "fresh b2 b3 (concat (map ((!) s3) (out_rows 8)))"
      "repr b3 s3 (\<lambda>ins. fold (ref_xor_out (W ins)) [0..<8]
         (ref_round (fst (ref_rounds 6 (M ins) (W ins))) (snd (ref_rounds 6 (M ins) (W ins)))))"
    using feed_forward_loop [OF s e 2(3), of 8] by blast
  have "fresh b2 b3 (concat s3)"
    using 3(3) concat_out_rows [OF reprD(2) [OF 3(4)]] by (rule fresh_mset)
  then have "fresh b b3 (concat s3)"
    using extends_feed_id [OF e] by (auto simp: fresh_def)
  moreover have "compress_internal b msg st = Inr (s3, b3)"
    using 1(1) 2(1) 3(1) by (simp add: compress_internal_def del: upt_rec_numeral)
  ultimately show ?thesis
    using 3(4) extends_trans [OF e 3(2)] by (auto simp: ref_compress_rounds case_prod_beta)
qed

section \<open>The circuit\<close>

lemma add_input_rows_eq:
  "add_input_rows n w (inputs_builder m) =
     (map (\<lambda>i. [2 + m + w * i..<2 + m + w * i + w]) [0..<n], inputs_builder (m + n * w))"
proof (induction n arbitrary: m)
  case (Suc n)
  have "map (\<lambda>i. [2 + m + w * i..<2 + m + w * i + w]) [0..<Suc n] =
      [2 + m..<2 + m + w] # map (\<lambda>i. [2 + (m + w) + w * i..<2 + (m + w) + w * i + w]) [0..<n]"
    by (simp add: upt_conv_Cons map_Suc_upt [symmetric] del: upt_Suc) (simp add: algebra_simps)
  then show ?case
    by (simp add: add_inputs_inputs_builder Suc.IH Let_def algebra_simps del: upt_Suc)
qed simp

definition input_rows :: "nat \<Rightarrow> rows" where
  "input_rows m = map (\<lambda>i. [2 + m + 32 * i..<2 + m + 32 * i + 32]) [0..<16]"

lemma repr_inputs:
  assumes "m + 512 \<le> k"
  shows "repr (inputs_builder k) (input_rows m)
           (\<lambda>ins. map (\<lambda>r. from_lsb0 (vals (inputs_builder k) ins r)) (input_rows m))"
  using assms
  by (auto simp: repr_def input_rows_def wf_inputs_builder to_from_lsb0 lives_def live_def
      simp del: upt_rec_numeral)

lemma input_words:
  fixes ws :: words
  assumes len: "length ws = 16" and m: "m + 512 \<le> k" "k \<le> length ins"
    and ins: "take 512 (drop m ins) = concat (map to_lsb0 ws)"
  shows "map (\<lambda>r. from_lsb0 (vals (inputs_builder k) ins r)) (input_rows m) = ws"
proof (rule nth_equalityI)
  fix i assume "i < length (map (\<lambda>r. from_lsb0 (vals (inputs_builder k) ins r)) (input_rows m) :: words)"
  then have i: "i < 16" by (simp add: input_rows_def)
  have "vals (inputs_builder k) ins [2 + (m + 32 * i)..<2 + (m + 32 * i) + 32] = take 32 (drop (m + 32 * i) ins)"
    using i m by (intro vals_inputs_builder) auto
  also have "\<dots> = take 32 (drop (32 * i) (take 512 (drop m ins)))"
    using i by (simp add: drop_take min_def add.commute)
  also have "\<dots> = to_lsb0 (ws ! i)"
    unfolding ins using len i take_drop_concat [of "map to_lsb0 ws" 32 i] by simp
  finally show "map (\<lambda>r. from_lsb0 (vals (inputs_builder k) ins r)) (input_rows m) ! i = ws ! i"
    using i by (simp add: input_rows_def add.assoc del: upt_rec_numeral)
qed (simp add: input_rows_def len)

lemma compress_ok:
  "\<exists>c. compress = Inr c \<and> wf_circuit c \<and> inputs c = (0, 1024) \<and>
     (\<forall>msg state. length msg = 16 \<and> length state = 16 \<longrightarrow>
        evaluate c (concat (map to_lsb0 msg) @ concat (map to_lsb0 state)) =
          Inr (concat (map to_lsb0 (ref_compress msg state))))"
proof -
  let ?b = "inputs_builder 1024"
  let ?W = "\<lambda>m ins. map (\<lambda>r. from_lsb0 (vals ?b ins r)) (input_rows m) :: words"
  have ins: "add_input_rows 16 32 builder_new = (input_rows 0, inputs_builder 512)"
      "add_input_rows 16 32 (inputs_builder 512) = (input_rows 512, ?b)"
    using add_input_rows_eq [of 16 32 0] add_input_rows_eq [of 16 32 512]
    unfolding inputs_builder_0 input_rows_def by (simp_all del: upt_rec_numeral)
  have rm: "repr ?b (input_rows 0) (?W 0)" and rs: "repr ?b (input_rows 512) (?W 512)"
    by (rule repr_inputs; simp)+
  obtain st b' where ci: "compress_internal ?b (input_rows 0) (input_rows 512) = Inr (st, b')"
      and e: "extends ?b b'" and fr: "fresh ?b b' (concat st)"
      and r: "repr b' st (\<lambda>ins. ref_compress (?W 0 ins) (?W 512 ins))"
    using compress_internal_repr [OF rs rm] by blast
  obtain c where c: "build (b'\<lparr>b_outputs := concat st\<rparr>) = Inr c" "wf_circuit c" "inputs c = (0, 1024)"
      "\<And>ins. 1024 \<le> length ins \<Longrightarrow> evaluate c ins = Inr (vals b' ins (concat st))"
    using build_outputs [OF reprD(1) [OF r] e fr] by blast
  have "b_outputs b' = []" using e by (simp add: extends_def)
  then have "compress = Inr c"
    unfolding compress_def ins Let_def prod.case ci by (simp add: add_outputs_eq c(1))
  moreover have "evaluate c (concat (map to_lsb0 msg) @ concat (map to_lsb0 state)) =
      Inr (concat (map to_lsb0 (ref_compress msg state)))"
    if len: "length msg = 16" "length state = 16" for msg state
  proof -
    let ?in = "concat (map to_lsb0 msg) @ concat (map to_lsb0 state)"
    have l: "length (concat (map to_lsb0 (ws :: words))) = 512" if "length ws = 16" for ws
      using length_concat_rows [of "map to_lsb0 ws" 32] that by simp
    have "?W 0 ?in = msg" "?W 512 ?in = state"
      by (rule input_words; use len l in simp)+
    moreover have "map (vals b' ?in) st = map to_lsb0 (ref_compress (?W 0 ?in) (?W 512 ?in))"
      using reprD(2,3,7) [OF r] by (intro nth_equalityI) auto
    ultimately have "vals b' ?in (concat st) = concat (map to_lsb0 (ref_compress msg state))"
      by (simp add: map_concat)
    with c(4) l len show ?thesis by simp
  qed
  ultimately show ?thesis using c(2,3) by blast
qed

text \<open>
  C5. \<open>compress\<close> builds, and its circuit computes the BLAKE3 compression function: on the bits
  of any 16 message words and any 16 state words it evaluates to the bits of the words the
  reference function returns.
\<close>

theorem compress_correct:
  "\<exists>c. compress = Inr c \<and> wf_circuit c \<and> inputs c = (0, 1024) \<and>
     (\<forall>msg state. length msg = 16 \<and> length state = 16 \<longrightarrow>
        evaluate c (concat (map to_lsb0 msg) @ concat (map to_lsb0 state)) =
          Inr (concat (map to_lsb0 (ref_compress msg state))))"
  by (rule compress_ok)

theorem compress_correct_witness:
  "\<exists>c. compress = Inr c \<and> evaluate c (concat (map to_lsb0 (replicate 16 (0 :: 32 word))) @ concat (map to_lsb0 (replicate 16 (0 :: 32 word)))) =
     Inr (concat (map to_lsb0 (ref_compress (replicate 16 0) (replicate 16 0))))"
proof -
  obtain c where "compress = Inr c" "\<forall>msg state. length msg = 16 \<and> length state = 16 \<longrightarrow>
      evaluate c (concat (map to_lsb0 msg) @ concat (map to_lsb0 state)) = Inr (concat (map to_lsb0 (ref_compress msg state)))"
    using compress_correct by blast
  from this(1) spec [OF spec [OF this(2), of "replicate 16 0"], of "replicate 16 0"] show ?thesis
    by (intro exI [of _ c] conjI) simp_all
qed

end
