(* ===== verification/Block.thy ===== *)
theory Block
  imports Prelude
begin

text \<open>
  128-bit blocks (\<open>core/src/block.rs\<close>).  The code keeps a block as 16 bytes; the rest of the
  development uses the little-endian 128-bit word.  The byte-level operations are modelled as
  written and shown to be the word-level ones.
\<close>

section \<open>Blocks as byte arrays\<close>

type_synonym byte = "8 word"
type_synonym block = "128 word"

definition from_le_bytes :: "byte list \<Rightarrow> block" where
  "from_le_bytes bs = from_lsb0 (concat (map to_lsb0 bs))"

definition to_le_bytes :: "block \<Rightarrow> byte list" where
  "to_le_bytes w = map (\<lambda>i. ucast (drop_bit (8 * i) w)) [0..<16]"

definition from_be_bytes :: "byte list \<Rightarrow> block" where
  "from_be_bytes bs = from_le_bytes (rev bs)"

definition to_be_bytes :: "block \<Rightarrow> byte list" where
  "to_be_bytes w = rev (to_le_bytes w)"

definition bitxor_assign_bytes :: "byte list \<Rightarrow> byte list \<Rightarrow> byte list" where
  "bitxor_assign_bytes a rhs =
     fold (\<lambda>i a. a[i := a ! i XOR rhs ! i]) (rev [0..<16]) a"

definition bitand_assign_bytes :: "byte list \<Rightarrow> byte list \<Rightarrow> byte list" where
  "bitand_assign_bytes a rhs =
     fold (\<lambda>i a. a[i := a ! i AND rhs ! i]) (rev [0..<16]) a"

definition set_lsb_bytes :: "byte list \<Rightarrow> bool \<Rightarrow> byte list" where
  "set_lsb_bytes a v = a[0 := (a ! 0 AND 0xfe) OR of_bool v]"

definition xor_lsb_bytes :: "byte list \<Rightarrow> bool \<Rightarrow> byte list" where
  "xor_lsb_bytes a v = a[0 := a ! 0 XOR of_bool v]"

definition lsb_bytes :: "byte list \<Rightarrow> bool" where
  "lsb_bytes a \<longleftrightarrow> a ! 0 AND 1 = 1"

definition get_bit_lsb0 :: "byte list \<Rightarrow> nat \<Rightarrow> bool" where
  "get_bit_lsb0 a i = bit (a ! (i div 8)) (i mod 8)"

definition get_bit_msb0 :: "byte list \<Rightarrow> nat \<Rightarrow> bool" where
  "get_bit_msb0 a i = bit (a ! (15 - i div 8)) (7 - i mod 8)"

text \<open>The constant \<open>MONOMIAL\<close>: a loop that sets one bit of each block.\<close>

definition MONOMIAL :: "byte list list" where
  "MONOMIAL = fold (\<lambda>i v. v[i := (v ! i)[i div 8 := push_bit (i mod 8) 1]]) [0..<128]
     (replicate 128 (replicate 16 0))"

section \<open>Blocks as words\<close>

definition BLOCK_ZERO :: block where "BLOCK_ZERO = 0"

definition BLOCK_ONE :: block where "BLOCK_ONE = 1"

definition BLOCK_ONES :: block where "BLOCK_ONES = mask 128"

definition SELECT_MASK :: "bool \<Rightarrow> block" where
  "SELECT_MASK b = (if b then BLOCK_ONES else BLOCK_ZERO)"

definition set_lsb :: "block \<Rightarrow> bool \<Rightarrow> block" where
  "set_lsb w v = (w AND NOT 1) OR of_bool v"

definition xor_lsb :: "block \<Rightarrow> bool \<Rightarrow> block" where
  "xor_lsb w v = w XOR of_bool v"

definition lsb :: "block \<Rightarrow> bool" where
  "lsb w = bit w 0"

definition reverse_bits :: "block \<Rightarrow> block" where
  "reverse_bits w = from_lsb0 (rev (to_lsb0 w))"

section \<open>Bits of a block\<close>

lemma bit_from_lsb0: "bit (from_lsb0 bs :: 'a::len word) i \<longleftrightarrow> i < LENGTH('a) \<and> i < length bs \<and> bs ! i"
proof -
  have "from_lsb0 bs = (horner_sum of_bool 2 bs :: 'a word)"
    by (induction bs) (simp_all add: from_lsb0_def)
  then show ?thesis by (simp add: bit_horner_sum_bit_word_iff)
qed

lemma nth_concat_rows:
  assumes "\<forall>xs \<in> set xss. length xs = n" "0 < n" "i < n * length xss"
  shows "concat xss ! i = xss ! (i div n) ! (i mod n)"
proof -
  have le: "n * (i div n) \<le> length (concat xss)"
    using assms(3) length_concat_rows [OF assms(1)] times_div_less_eq_dividend [of n i] by linarith
  have q: "i div n < length xss" using assms by (simp add: less_mult_imp_div_less mult.commute)
  have "xss ! (i div n) ! (i mod n) = take n (drop (n * (i div n)) (concat xss)) ! (i mod n)"
    using take_drop_concat [OF assms(1) q] by simp
  also have "\<dots> = concat xss ! i"
    using assms(2,3) le by simp
  finally show ?thesis ..
qed

lemma bit_from_le_bytes:
  assumes "length bs = 16" "i < 128"
  shows "bit (from_le_bytes bs) i = bit (bs ! (i div 8)) (i mod 8)"
proof -
  have "concat (map to_lsb0 bs) ! i = map to_lsb0 bs ! (i div 8) ! (i mod 8)"
    using assms by (intro nth_concat_rows) auto
  moreover have "length (concat (map to_lsb0 bs)) = 128"
    using length_concat_rows [of "map to_lsb0 bs" 8] assms by simp
  moreover have "i div 8 < 16" using assms by simp
  ultimately show ?thesis using assms by (simp add: from_le_bytes_def bit_from_lsb0)
qed

lemma length_to_le_bytes [simp]: "length (to_le_bytes w) = 16"
  by (simp add: to_le_bytes_def)

lemma bit_to_le_bytes: "i < 16 \<Longrightarrow> bit (to_le_bytes w ! i) j \<longleftrightarrow> j < 8 \<and> bit w (8 * i + j)"
  by (simp add: to_le_bytes_def bit_unsigned_iff bit_drop_bit_eq del: upt_rec_numeral)

lemma from_to_le_bytes [simp]: "from_le_bytes (to_le_bytes w) = w"
proof (rule bit_word_eqI)
  fix i assume "i < LENGTH(128)"
  then have "i < 128" "i div 8 < 16" by simp_all
  then show "bit (from_le_bytes (to_le_bytes w)) i = bit w i"
    by (simp add: bit_from_le_bytes bit_to_le_bytes)
qed

lemma to_from_le_bytes:
  assumes "length bs = 16"
  shows "to_le_bytes (from_le_bytes bs) = bs"
proof (rule nth_equalityI)
  fix i assume i: "i < length (to_le_bytes (from_le_bytes bs))"
  show "to_le_bytes (from_le_bytes bs) ! i = bs ! i"
  proof (rule bit_word_eqI)
    fix j assume "j < LENGTH(8)"
    then have "8 * i + j < 128" "(8 * i + j) div 8 = i" "(8 * i + j) mod 8 = j" using i by auto
    with i \<open>j < LENGTH(8)\<close> assms show "bit (to_le_bytes (from_le_bytes bs) ! i) j = bit (bs ! i) j"
      by (simp add: bit_to_le_bytes bit_from_le_bytes)
  qed
qed (simp add: assms)

lemma from_to_be_bytes [simp]: "from_be_bytes (to_be_bytes w) = w"
  by (simp add: from_be_bytes_def to_be_bytes_def)

lemma lsb_set_lsb [simp]: "lsb (set_lsb w v) = v"
  by (simp add: lsb_def set_lsb_def bit_simps)

lemma lsb_xor [simp]: "lsb (x XOR y) = (lsb x \<noteq> lsb y)"
  by (simp add: lsb_def bit_simps)

lemma lsb_0 [simp]: "lsb 0 = False"
  by (simp add: lsb_def)

lemma lsb_scale [simp]: "lsb (scale b d) = (b \<and> lsb d)"
  by (cases b) simp_all

lemma set_lsb_eq: "set_lsb w v = (if lsb w = v then w else w XOR 1)"
proof (rule bit_word_eqI)
  fix i show "bit (set_lsb w v) i = bit (if lsb w = v then w else w XOR 1) i"
    using bit_imp_le_length [of w i]
    by (cases "i = 0") (auto simp: set_lsb_def lsb_def bit_simps bit_1_iff)
qed

lemma set_lsb_lsb [simp]: "set_lsb w (lsb w) = w"
  by (simp add: set_lsb_eq)

lemma SELECT_MASK_and [simp]: "SELECT_MASK b AND w = scale b w" "w AND SELECT_MASK b = scale b w"
  by (auto simp: SELECT_MASK_def BLOCK_ONES_def BLOCK_ZERO_def intro!: bit_word_eqI simp: bit_simps bit_mask_iff)

section \<open>The byte operations are the word operations\<close>

lemma length_fold_update: "length (fold (\<lambda>i a. a[i := f i a]) is a) = length a"
  by (induction "is" arbitrary: a) auto

lemma nth_fold_update:
  assumes "distinct is" "j < length a"
  shows "fold (\<lambda>i a. a[i := f i (a ! i)]) is a ! j = (if j \<in> set is then f j (a ! j) else a ! j)"
  using assms
proof (induction "is" arbitrary: a)
  case (Cons i "is")
  then show ?case by (cases "i = j") auto
qed simp

lemma from_le_bytes_eqI:
  assumes "length bs = 16" "\<And>i j. i < 16 \<Longrightarrow> j < 8 \<Longrightarrow> bit (bs ! i) j = bit w (8 * i + j)"
  shows "from_le_bytes bs = w"
proof (rule bit_word_eqI)
  fix i assume "i < LENGTH(128)"
  then have "i < 128" "i div 8 < 16" "i mod 8 < 8" by simp_all
  with assms(2) [of "i div 8" "i mod 8"] assms(1) show "bit (from_le_bytes bs) i = bit w i"
    by (simp add: bit_from_le_bytes)
qed

lemma bit_from_le_bytes_at:
  assumes "length bs = 16" "i < 16" "j < 8"
  shows "bit (from_le_bytes bs) (8 * i + j) = bit (bs ! i) j"
proof -
  have "8 * i + j < 128" "(8 * i + j) div 8 = i" "(8 * i + j) mod 8 = j" using assms by auto
  with assms show ?thesis by (simp add: bit_from_le_bytes)
qed

lemma bitxor_assign_bytes_ok:
  assumes "length a = 16" "length b = 16"
  shows "from_le_bytes (bitxor_assign_bytes a b) = from_le_bytes a XOR from_le_bytes b"
  unfolding bitxor_assign_bytes_def
  by (rule from_le_bytes_eqI)
    (use assms in \<open>simp_all add: length_fold_update nth_fold_update [where f = "\<lambda>i x. x XOR b ! i"] bit_xor_iff bit_from_le_bytes_at del: upt_rec_numeral\<close>)

lemma bitand_assign_bytes_ok:
  assumes "length a = 16" "length b = 16"
  shows "from_le_bytes (bitand_assign_bytes a b) = from_le_bytes a AND from_le_bytes b"
  unfolding bitand_assign_bytes_def
  by (rule from_le_bytes_eqI)
    (use assms in \<open>simp_all add: length_fold_update nth_fold_update [where f = "\<lambda>i x. x AND b ! i"] bit_and_iff bit_from_le_bytes_at del: upt_rec_numeral\<close>)

lemma of_bool_bit: "bit (of_bool b :: 'a::len word) n \<longleftrightarrow> b \<and> n = 0"
  by (auto simp: bit_simps bit_1_iff)

lemma bit_0xfe:
  assumes "j < 8"
  shows "bit (0xfe :: int) j \<longleftrightarrow> j \<noteq> 0"
proof -
  have "\<forall>j < 8. bit (0xfe :: int) j \<longleftrightarrow> j \<noteq> 0"
    by (simp add: eval_nat_numeral All_less_Suc bit_numeral_simps)
  with assms show ?thesis by blast
qed

lemma set_lsb_bytes_ok:
  assumes "length a = 16"
  shows "from_le_bytes (set_lsb_bytes a v) = set_lsb (from_le_bytes a) v"
  unfolding set_lsb_bytes_def set_lsb_def
  by (rule from_le_bytes_eqI)
    (use assms in \<open>auto simp: nth_list_update of_bool_bit bit_0xfe bit_and_iff bit_or_iff bit_not_iff bit_1_iff
       bit_from_le_bytes_at\<close>)

lemma xor_lsb_bytes_ok:
  assumes "length a = 16"
  shows "from_le_bytes (xor_lsb_bytes a v) = xor_lsb (from_le_bytes a) v"
  unfolding xor_lsb_bytes_def xor_lsb_def
  by (rule from_le_bytes_eqI)
    (use assms in \<open>auto simp: nth_list_update of_bool_bit bit_xor_iff bit_from_le_bytes_at\<close>)

lemma lsb_bytes_ok: "length a = 16 \<Longrightarrow> lsb_bytes a = lsb (from_le_bytes a)"
  using bit_from_le_bytes [of a 0]
  by (simp add: lsb_bytes_def lsb_def and_one_eq bit_0 odd_iff_mod_2_eq_one)

lemma get_bit_lsb0_ok: "length a = 16 \<Longrightarrow> i < 128 \<Longrightarrow> get_bit_lsb0 a i = bit (from_le_bytes a) i"
  by (simp add: get_bit_lsb0_def bit_from_le_bytes)

lemma div_mod_8: "k < 8 \<Longrightarrow> (8 * q + k) div 8 = q" "k < 8 \<Longrightarrow> (8 * q + k) mod 8 = k" for q k :: nat
  by simp_all

lemma diff_less_mod_8: "7 - i < (8 :: nat)"
  by simp

lemma get_bit_msb0_ok:
  assumes "length a = 16" "i < 128"
  shows "get_bit_msb0 a i = bit (from_le_bytes a) (127 - i)"
proof -
  have "127 - i = 8 * (15 - i div 8) + (7 - i mod 8)"
    using assms(2) div_mult_mod_eq [of i 8] mod_less_divisor [of 8 i] by linarith
  then have "(127 - i) div 8 = 15 - i div 8" "(127 - i) mod 8 = 7 - i mod 8"
    by (simp_all only: div_mod_8 diff_less_mod_8)
  with assms show ?thesis by (simp add: get_bit_msb0_def bit_from_le_bytes)
qed

lemma MONOMIAL_ok:
  assumes "i < 128"
  shows "from_le_bytes (MONOMIAL ! i) = push_bit i 1"
proof -
  have "MONOMIAL ! i = (replicate 128 (replicate 16 0) ! i)[i div 8 := push_bit (i mod 8) 1]"
    unfolding MONOMIAL_def using assms
    by (subst nth_fold_update [where f = "\<lambda>i x. x[i div 8 := push_bit (i mod 8) 1]"]) simp_all
  then have m: "MONOMIAL ! i = (replicate 16 0)[i div 8 := push_bit (i mod 8) 1]"
    using assms by simp
  have "bit (MONOMIAL ! i ! k) j \<longleftrightarrow> 8 * k + j = i" if "k < 16" "j < 8" for k j
  proof -
    have "i div 8 = k \<and> j = i mod 8 \<longleftrightarrow> 8 * k + j = i"
      using that div_mult_mod_eq [of i 8] by auto
    then show ?thesis using that by (cases "i div 8 = k") (auto simp: m bit_exp_iff)
  qed
  then show ?thesis
    using assms by (intro from_le_bytes_eqI) (auto simp: m bit_exp_iff)
qed

lemma to_lsb0_reverse_bits: "to_lsb0 (reverse_bits w) = rev (to_lsb0 w)"
  by (rule nth_equalityI) (simp_all add: reverse_bits_def bit_from_lsb0 del: upt_rec_numeral)

section \<open>The byte-level routines implement the operations on blocks\<close>

text \<open>
  Every byte-array routine of a block implements the operation on the 128-bit word it stands for:
  exclusive or, conjunction, reading, setting and flipping the least significant bit, and reading
  bit \<open>i\<close> in least-significant-first order.
\<close>

theorem block_bytes_refine:
  assumes "length a = 16" "length b = 16" "i < 128"
  shows "from_le_bytes (bitxor_assign_bytes a b) = from_le_bytes a XOR from_le_bytes b \<and>
    from_le_bytes (bitand_assign_bytes a b) = from_le_bytes a AND from_le_bytes b \<and>
    lsb_bytes a = lsb (from_le_bytes a) \<and> from_le_bytes (set_lsb_bytes a v) = set_lsb (from_le_bytes a) v \<and>
    from_le_bytes (xor_lsb_bytes a v) = xor_lsb (from_le_bytes a) v \<and> get_bit_lsb0 a i = bit (from_le_bytes a) i"
  using assms by (simp add: bitxor_assign_bytes_ok bitand_assign_bytes_ok lsb_bytes_ok set_lsb_bytes_ok xor_lsb_bytes_ok
      get_bit_lsb0_ok)

theorem block_bytes_refine_witness:
  "from_le_bytes (bitxor_assign_bytes (replicate 16 5) (replicate 16 3)) =
     from_le_bytes (replicate 16 5) XOR from_le_bytes (replicate 16 3)"
  using block_bytes_refine [of "replicate 16 5" "replicate 16 3" 0] by simp

text \<open>
  Conversions round-trip: little- and big-endian bytes, and reversing the bits twice; \<open>reverse_bits\<close>
  reverses the least-significant-first bit list.
\<close>

theorem block_roundtrip:
  "from_le_bytes (to_le_bytes w) = w \<and> from_be_bytes (to_be_bytes w) = w \<and>
   to_lsb0 (reverse_bits w) = rev (to_lsb0 w) \<and> reverse_bits (reverse_bits w) = w"
proof -
  have "to_lsb0 (reverse_bits (reverse_bits w)) = to_lsb0 w" by (simp add: to_lsb0_reverse_bits)
  then have "reverse_bits (reverse_bits w) = w" by (metis from_to_lsb0)
  then show ?thesis by (simp add: to_lsb0_reverse_bits)
qed

end
