(* ===== verification/Aes.thy ===== *)
theory Aes
  imports Block
begin

text \<open>
  Hash functions from a fixed-key block cipher (\<open>core/src/aes.rs\<close>).  The AES permutation is the
  parameter \<open>aes\<close>, a function on blocks; \<open>encrypt_blocks\<close> applies it to every block of a slice.
  Shown are the linear-orthomorphism laws of \<open>\<sigma>\<close> that the security argument of \<open>ccr\<close> cites,
  and that the batched routines agree with the single-block ones.
\<close>

section \<open>The hash functions\<close>

text \<open>\<open>xor\<close> goes through \<open>u128\<close> and back.\<close>

definition aes_xor :: "block \<Rightarrow> block \<Rightarrow> block" where
  "aes_xor a b = a XOR b"

definition sigma :: "block \<Rightarrow> block" where
  "sigma x = word_rotl 64 x XOR (x AND push_bit 64 (push_bit 64 1 - 1))"

definition encrypt_blocks :: "(block \<Rightarrow> block) \<Rightarrow> block list \<Rightarrow> block list" where
  "encrypt_blocks aes bs = map aes bs"

definition ccr :: "(block \<Rightarrow> block) \<Rightarrow> block \<Rightarrow> block" where
  "ccr aes b = (let b = sigma b; h = aes b in aes_xor b h)"

definition tccr :: "(block \<Rightarrow> block) \<Rightarrow> block \<Rightarrow> block \<Rightarrow> block" where
  "tccr aes tweak b = (let h1 = aes b; h2 = aes (aes_xor h1 tweak) in aes_xor h1 h2)"

definition tccr_many :: "(block \<Rightarrow> block) \<Rightarrow> block list \<Rightarrow> block list \<Rightarrow> block list" where
  "tccr_many aes tweaks blocks =
     (let blocks = encrypt_blocks aes blocks;
          buf = map2 aes_xor blocks tweaks;
          buf = encrypt_blocks aes buf
      in map2 aes_xor blocks buf)"

text \<open>
  One chunk of \<open>ccr_blocks_to\<close>: \<open>buf\<close> is the 64-block scratch array, reused between chunks and
  zipped in full with the destination at the end.
\<close>

definition ccr_chunk :: "(block \<Rightarrow> block) \<Rightarrow> block list \<Rightarrow> block list \<Rightarrow> ('e, block list \<times> block list) result" where
  "ccr_chunk aes buf src =
     (let m = length src; dst = map sigma src
      in bindR (copy_into buf 0 m (take m dst)) (\<lambda>buf.
           let buf = encrypt_blocks aes (take m buf) @ drop m buf
           in Inr (map2 aes_xor dst buf, buf)))"

function ccr_chunks :: "(block \<Rightarrow> block) \<Rightarrow> block list \<Rightarrow> block list \<Rightarrow> ('e, block list) result" where
  "ccr_chunks aes buf src =
     (if src = [] then Inr []
      else bindR (ccr_chunk aes buf (take 64 src)) (\<lambda>(dst, buf).
           bindR (ccr_chunks aes buf (drop 64 src)) (\<lambda>rest. Inr (dst @ rest))))"
  by pat_completeness auto
termination
  by (relation "measure (\<lambda>(aes, buf, src). length src)") auto

declare ccr_chunks.simps [simp del]

definition ccr_blocks_to :: "(block \<Rightarrow> block) \<Rightarrow> block list \<Rightarrow> block list \<Rightarrow> ('e, block list) result" where
  "ccr_blocks_to aes src dst =
     bindR (assertR (length src = length dst)) (\<lambda>_. ccr_chunks aes (replicate 64 0) src)"

section \<open>Batched hashing agrees with single-block hashing\<close>

lemma tccr_many_eq:
  "length tweaks = length blocks \<Longrightarrow> tccr_many aes tweaks blocks = map2 (tccr aes) tweaks blocks"
  by (induction tweaks blocks rule: list_induct2) (simp_all add: tccr_many_def encrypt_blocks_def tccr_def Let_def)

lemma ccr_chunk_ok:
  assumes "length buf = 64" "length src \<le> 64"
  shows "\<exists>buf'. ccr_chunk aes buf src = Inr (map (ccr aes) src, buf') \<and> length buf' = 64"
proof -
  let ?m = "length src" and ?d = "map sigma src"
  have "map2 aes_xor ?d (map aes ?d @ drop ?m buf) = map (ccr aes) src"
    by (rule nth_equalityI) (simp_all add: nth_append ccr_def Let_def)
  then show ?thesis
    using assms by (simp add: ccr_chunk_def copy_into_def encrypt_blocks_def Let_def)
qed

lemma ccr_chunks_ok:
  fixes src :: "block list"
  shows "length buf = 64 \<Longrightarrow> ccr_chunks aes buf src = (Inr (map (ccr aes) src) :: ('e, block list) result)"
proof (induction "length src" arbitrary: src buf rule: less_induct)
  case less
  show ?case
  proof (cases "src = []")
    case True
    then show ?thesis by (simp add: ccr_chunks.simps)
  next
    case False
    obtain buf' where c: "ccr_chunk aes buf (take 64 src) =
        (Inr (map (ccr aes) (take 64 src), buf') :: ('e, block list \<times> block list) result)"
        "length buf' = 64"
      using ccr_chunk_ok [OF less.prems, of "take 64 src"] by auto
    have "ccr_chunks aes buf' (drop 64 src) = (Inr (map (ccr aes) (drop 64 src)) :: ('e, block list) result)"
      using False c(2) by (intro less.hyps) auto
    with False c(1) show ?thesis
      by (subst ccr_chunks.simps) (simp add: map_append [symmetric] del: map_append)
  qed
qed

section \<open>The orthomorphism\<close>

lemma bit_sigma:
  assumes "i < 128"
  shows "bit (sigma x) i = (if i < 64 then bit x (i + 64) else bit x (i - 64) \<noteq> bit x i)"
proof -
  have hi: "bit (push_bit 64 (push_bit 64 1 - 1) :: block) i \<longleftrightarrow> 64 \<le> i"
  proof -
    have "push_bit 64 1 - 1 = (mask 64 :: block)"
      by (simp only: mask_eq_exp_minus_1 push_bit_eq_mult mult_1)
    then show ?thesis using assms by (simp only: bit_push_bit_iff bit_mask_iff) auto
  qed
  have rot: "bit (word_rotl 64 x) i = bit x ((i + 64) mod 128)"
    using assms by (simp add: bit_word_rotl_iff)
  have "(i + 64) mod 128 = (if i < 64 then i + 64 else i - 64)"
    using assms by (simp add: mod_if)
  then show ?thesis
    using rot unfolding sigma_def bit_xor_iff bit_and_iff hi by simp
qed

text \<open>On the halves, \<open>\<sigma>\<close> is the Fibonacci matrix over the binary field: \<open>\<sigma>\<^sup>2 = \<sigma> + 1\<close>.\<close>

lemma sigma_sigma: "sigma (sigma x) = sigma x XOR x"
  by (rule bit_word_eqI) (auto simp: bit_sigma bit_xor_iff)

lemma sigma_xor: "sigma (x XOR y) = sigma x XOR sigma y"
  by (rule bit_word_eqI) (auto simp: bit_sigma bit_xor_iff)

lemma sigma_cube: "sigma (sigma (sigma x)) = x"
  by (simp add: sigma_sigma sigma_xor xor_simps)

section \<open>Properties of the hash functions\<close>

text \<open>
  \<open>\<sigma>\<close> is a linear orthomorphism: it is linear, and both \<open>\<sigma>\<close> and \<open>x \<mapsto> \<sigma>(x) \<oplus> x\<close> are permutations
  of the blocks.
\<close>

theorem sigma_orthomorphism:
  "sigma (x XOR y) = sigma x XOR sigma y \<and> bij sigma \<and> bij (\<lambda>x. sigma x XOR x)"
proof -
  have b: "bij sigma" by (rule o_bij [where g = "\<lambda>x. sigma (sigma x)"]) (auto simp: fun_eq_iff sigma_cube)
  have "bij (sigma \<circ> sigma)" using b by (rule bij_comp [OF b])
  moreover have "sigma \<circ> sigma = (\<lambda>x. sigma x XOR x)" by (auto simp: fun_eq_iff sigma_sigma)
  ultimately show ?thesis using b sigma_xor by simp
qed

text \<open>
  Hashing many blocks is hashing each: \<open>ccr_blocks_to\<close>, which works in chunks of 64 through one
  reused buffer, writes \<open>ccr\<close> of every source block, and panics exactly when source and destination
  differ in length; \<open>tccr_many\<close> returns \<open>tccr\<close> of every block under its tweak.
\<close>

theorem batched_hash_equiv:
  "ccr_blocks_to aes src dst = (if length src = length dst then Inr (map (ccr aes) src) else Inl Panic) \<and>
   tccr_many aes (map fst tbs) (map snd tbs) = map (\<lambda>(t, b). tccr aes t b) tbs"
  using tccr_many_eq [of "map fst tbs" "map snd tbs" aes]
  by (simp add: ccr_blocks_to_def ccr_chunks_ok zip_map_fst_snd)

end
