(* ===== verification/Correlated.thy ===== *)
theory Correlated
  imports Aes
begin

text \<open>
  Correlated MACs (\<open>memory-core/src/correlated.rs\<close>, and the types \<open>Key\<close> and \<open>Mac\<close> of
  \<open>correlated/keys.rs\<close> and \<open>correlated/macs.rs\<close>): \<open>M = k + x \<Delta>\<close> over 128-bit blocks, with the
  least significant bit of \<open>\<Delta>\<close> fixed to 1 so that \<open>LSB(M) = LSB(k) + x\<close>.  Keys and MACs are
  newtypes of blocks.  The BLAKE3 hasher is the parameter \<open>hash\<close>, from the bytes fed to it to the
  32-byte digest read as a little-endian word.
\<close>

section \<open>Delta, keys and MACs\<close>

type_synonym delta = block
type_synonym key = block
type_synonym mac = block
type_synonym hasher = "byte list \<Rightarrow> 256 word"

definition MAC_ZERO :: block where
  "MAC_ZERO = from_le_bytes [146, 239, 91, 41, 80, 62, 197, 196, 204, 121, 176, 38, 171, 216, 63, 120]"

definition MAC_ONE :: block where
  "MAC_ONE = from_le_bytes [219, 104, 26, 50, 91, 130, 201, 178, 144, 31, 95, 155, 206, 113, 5, 103]"

definition delta_new :: "block \<Rightarrow> delta" where
  "delta_new v = set_lsb v True"

definition key_pointer :: "key \<Rightarrow> bool" where
  "key_pointer k = lsb k"

definition key_adjust :: "key \<Rightarrow> bool \<Rightarrow> delta \<Rightarrow> key" where
  "key_adjust k adjust d = set_lsb (k XOR (if adjust then d else BLOCK_ZERO)) False"

definition key_auth :: "key \<Rightarrow> bool \<Rightarrow> delta \<Rightarrow> mac" where
  "key_auth k b d = k XOR (if b then d else BLOCK_ZERO)"

definition mac_pointer :: "mac \<Rightarrow> bool" where
  "mac_pointer m = lsb m"

definition set_pointer :: "mac \<Rightarrow> bool \<Rightarrow> mac" where
  "set_pointer m b = set_lsb m b"

definition MAC_PUBLIC :: "bool \<Rightarrow> mac" where
  "MAC_PUBLIC b = (if b then MAC_ONE else MAC_ZERO)"

definition mac_public :: "bool list \<Rightarrow> mac list" where
  "mac_public data = map MAC_PUBLIC data"

definition key_add :: "key \<Rightarrow> key \<Rightarrow> key" where
  "key_add a b = a XOR b"

definition mac_add :: "mac \<Rightarrow> mac \<Rightarrow> mac" where
  "mac_add a b = a XOR b"

section \<open>Commitments to the MACs of a bit\<close>

definition id_be_bytes :: "64 word \<Rightarrow> byte list" where
  "id_be_bytes i = rev (map (\<lambda>j. ucast (drop_bit (8 * j) i)) [0..<8])"

text \<open>\<open>Block::new(hasher.finalize().as_bytes()[..16])\<close>: the low half of the digest.\<close>

definition mac_hash :: "hasher \<Rightarrow> 64 word \<Rightarrow> mac \<Rightarrow> block" where
  "mac_hash hash i m = ucast (hash (id_be_bytes i @ to_le_bytes m))"

type_synonym mac_commitment = "block \<times> block"

definition key_commit :: "hasher \<Rightarrow> key \<Rightarrow> 64 word \<Rightarrow> delta \<Rightarrow> mac_commitment" where
  "key_commit hash k i d = (mac_hash hash i k, mac_hash hash i (k XOR d))"

datatype mac_commitment_error = Duplicate "64 word" | Invalid "64 word"

definition commitment_check ::
  "hasher \<Rightarrow> mac_commitment \<Rightarrow> 64 word \<Rightarrow> bool \<Rightarrow> mac \<Rightarrow> (mac_commitment_error, unit) result" where
  "commitment_check hash c i value m =
     (let (low, high) = c; select = (if value then high else low)
      in if low = high then Inl (Err (Duplicate i))
         else let expected = mac_hash hash i m
              in if expected \<noteq> select then Inl (Err (Invalid i)) else Inr ())"

section \<open>The MAC relation\<close>

definition mac_ok :: "delta \<Rightarrow> key \<Rightarrow> mac \<Rightarrow> bool \<Rightarrow> bool" where
  "mac_ok d k m x \<longleftrightarrow> m = k XOR scale x d"

lemma key_auth_scale: "key_auth k b d = k XOR scale b d"
  by (simp add: key_auth_def BLOCK_ZERO_def)

lemma key_adjust_scale: "key_adjust k a d = set_lsb (k XOR scale a d) False"
  by (simp add: key_adjust_def BLOCK_ZERO_def)

lemma mac_ok_auth [simp]: "mac_ok d k (key_auth k x d) x"
  by (simp add: mac_ok_def key_auth_scale)

lemma mac_ok_iff_auth: "mac_ok d k m x \<longleftrightarrow> m = key_auth k x d"
  by (simp add: mac_ok_def key_auth_scale)

lemma lsb_delta_new [simp]: "lsb (delta_new v)"
  by (simp add: delta_new_def)

lemma mac_ok_lsb: "mac_ok d k m x \<Longrightarrow> lsb d \<Longrightarrow> lsb m = (lsb k \<noteq> x)"
  by (auto simp: mac_ok_def)

lemma mac_ok_unique: "mac_ok d k m x \<Longrightarrow> mac_ok d k m y \<Longrightarrow> lsb d \<Longrightarrow> x = y"
  using mac_ok_lsb by blast

lemma MAC_lsb: "\<not> lsb MAC_ZERO" "lsb MAC_ONE"
  by (simp_all add: MAC_ZERO_def MAC_ONE_def lsb_bytes_ok [symmetric] lsb_bytes_def)

lemma mac_ok_xor: "mac_ok d k m x \<Longrightarrow> mac_ok d l n y \<Longrightarrow> mac_ok d (k XOR l) (m XOR n) (x \<noteq> y)"
  unfolding mac_ok_def scale_xor by (simp add: word_xor_ac)

lemma mac_ok_inv: "mac_ok d k m x \<Longrightarrow> mac_ok d (k XOR d) m (\<not> x)"
  by (cases x) (simp_all add: mac_ok_def xor_simps)

lemma set_lsb_xor:
  "set_lsb (a XOR b) v = set_lsb a (v \<noteq> lsb b) XOR b"
  by (auto simp: set_lsb_eq word_xor_ac)

lemma adjust_mac_ok:
  assumes "lsb d" "mac_ok d k m r"
  shows "mac_ok d (key_adjust k (r \<noteq> x) d) (set_pointer m x) x"
    and "\<not> key_pointer (key_adjust k (r \<noteq> x) d)" and "mac_pointer (set_pointer m x) = x"
proof -
  have "set_lsb (k XOR scale (r \<noteq> x) d) False XOR scale x d = set_lsb ((k XOR scale (r \<noteq> x) d) XOR scale x d) x"
    using assms(1) set_lsb_xor [of "k XOR scale (r \<noteq> x) d" "scale x d" x] by simp
  also have "(k XOR scale (r \<noteq> x) d) XOR scale x d = k XOR scale r d"
    by (cases r; cases x) (simp_all add: xor_simps)
  finally show "mac_ok d (key_adjust k (r \<noteq> x) d) (set_pointer m x) x"
    using assms(2) unfolding mac_ok_def key_adjust_scale set_pointer_def by simp
qed (simp_all add: key_adjust_def set_pointer_def key_pointer_def mac_pointer_def)

text \<open>
  Derandomisation: if a MAC on the random bit \<open>r\<close> is correct, then after the sender adjusts the
  key by \<open>d = r \<oplus> x\<close> and the receiver sets the pointer bit to \<open>x\<close>, the MAC is correct for \<open>x\<close>;
  the key's pointer bit is 0 and the MAC's is \<open>x\<close>.
\<close>

theorem derandomize_correct:
  assumes "m = key_auth k r (delta_new v)"
  shows "set_pointer m x = key_auth (key_adjust k (r \<noteq> x) (delta_new v)) x (delta_new v) \<and>
    key_pointer (key_adjust k (r \<noteq> x) (delta_new v)) = False \<and> mac_pointer (set_pointer m x) = x"
  using adjust_mac_ok [of "delta_new v" k m r x] assms by (simp add: mac_ok_iff_auth)

theorem derandomize_correct_witness:
  "set_pointer (key_auth 12 True (delta_new 6)) False =
     key_auth (key_adjust 12 True (delta_new 6)) False (delta_new 6)"
  using derandomize_correct [OF refl, of 12 True 6 False] by simp

text \<open>
  C37. A commitment to the two MACs of a bit opens: for the MAC of the bit, the check accepts exactly
  when the two hashes differ, and reports \<open>Duplicate\<close> otherwise; the MAC of one value is rejected
  as an opening to the other value.
\<close>

theorem commitment_opens:
  "commitment_check hash (key_commit hash k i d) i x (key_auth k x d) =
     (if mac_hash hash i k = mac_hash hash i (k XOR d) then Inl (Err (Duplicate i)) else Inr ()) \<and>
   (\<exists>e. commitment_check hash (key_commit hash k i d) i (\<not> x) (key_auth k x d) = Inl (Err e))"
  by (auto simp: commitment_check_def key_commit_def key_auth_def BLOCK_ZERO_def Let_def)

end
