(* ===== verification/Garble.thy ===== *)
theory Garble
  imports Circuit Correlated
begin

text \<open>
  Half-gate garbling (\<open>garble-core/src/circuit.rs\<close>, \<open>garbler.rs\<close>, \<open>evaluator.rs\<close>): the garbled AND
  gate, the garbler as an iterator over encrypted gates, the evaluator as their consumer, and the
  batched variants of both.  The locale \<open>half_gates\<close> is what the two AND-gate routines promise each
  other; with it the labels of every wire are shown to stay a correct MAC of the wire's value.
\<close>

section \<open>The AND gate\<close>

type_synonym encrypted_gate = "block \<times> block"

definition default_gate :: encrypted_gate where
  "default_gate = (0, 0)"

text \<open>\<open>(gid as u128).to_be_bytes()\<close>, as the block the hash function works on.\<close>

definition tweak_of :: "nat \<Rightarrow> block" where
  "tweak_of gid = from_le_bytes (to_be_bytes (of_nat gid))"

definition gb_and_gate :: "(block \<Rightarrow> block) \<Rightarrow> delta \<Rightarrow> block \<Rightarrow> block \<Rightarrow> nat \<Rightarrow> block \<times> encrypted_gate" where
  "gb_and_gate aes delta x_0 y_0 gid =
     (let x_1 = x_0 XOR delta; y_1 = y_0 XOR delta;
          p_a = lsb x_0; p_b = lsb y_0;
          j = tweak_of gid; k = tweak_of (gid + 1);
          h = tccr_many aes [j, k, j, k] [x_0, y_0, x_1, y_1];
          hx_0 = h ! 0; hy_0 = h ! 1; hx_1 = h ! 2; hy_1 = h ! 3;
          t_g = hx_0 XOR hx_1 XOR (SELECT_MASK p_b AND delta);
          w_g = hx_0 XOR (SELECT_MASK p_a AND t_g);
          t_e = hy_0 XOR hy_1 XOR x_0;
          w_e = hy_0 XOR (SELECT_MASK p_b AND (t_e XOR x_0));
          z_0 = w_g XOR w_e
      in (z_0, (t_g, t_e)))"

definition ev_and_gate :: "(block \<Rightarrow> block) \<Rightarrow> block \<Rightarrow> block \<Rightarrow> encrypted_gate \<Rightarrow> nat \<Rightarrow> block" where
  "ev_and_gate aes x y eg gid =
     (let s_a = lsb x; s_b = lsb y;
          j = tweak_of gid; k = tweak_of (gid + 1);
          h = tccr_many aes [j, k] [x, y];
          hx = h ! 0; hy = h ! 1;
          w_g = hx XOR (fst eg AND SELECT_MASK s_a);
          w_e = hy XOR (SELECT_MASK s_b AND (snd eg XOR x))
      in w_g XOR w_e)"

section \<open>The garbler\<close>

datatype garbler_error = GInputLength nat nat | GNotFinished

record garbler =
  g_buffer :: "block list"

record gb_iter =
  g_delta :: delta
  g_labels :: "block list"
  g_gates :: "gate list"
  g_gid :: nat
  g_counter :: nat
  g_and_count :: nat
  g_outputs :: "nat \<times> nat"
  g_complete :: bool

text \<open>\<open>Vec::resize\<close> when the circuit needs a longer buffer.\<close>

definition grow :: "nat \<Rightarrow> block list \<Rightarrow> block list" where
  "grow n buf = (if n > length buf then buf @ replicate (n - length buf) 0 else buf)"

definition gb_iter_new :: "delta \<Rightarrow> gate list \<Rightarrow> block list \<Rightarrow> nat \<Rightarrow> nat \<times> nat \<Rightarrow> gb_iter" where
  "gb_iter_new d gs labels n outs =
     \<lparr>g_delta = d, g_labels = labels, g_gates = gs, g_gid = 1, g_counter = 0, g_and_count = n,
      g_outputs = outs, g_complete = False\<rparr>"

definition generate :: "garbler \<Rightarrow> circuit \<Rightarrow> delta \<Rightarrow> key list \<Rightarrow> (garbler_error, gb_iter) result" where
  "generate g circ d ins =
     (if length ins \<noteq> range_len (inputs circ)
      then Inl (Err (GInputLength (range_len (inputs circ)) (length ins)))
      else
        let buffer = grow (feed_count circ) (g_buffer g)
        in bindR (copy_into buffer 0 (length ins) ins) (\<lambda>buffer.
           Inr (gb_iter_new d (gates circ) buffer (and_count circ) (outputs circ))))"

definition has_gates :: "gb_iter \<Rightarrow> bool" where
  "has_gates s \<longleftrightarrow> g_counter s \<noteq> g_and_count s"

text \<open>
  The loop of \<open>next\<close> over the remaining gates.  After the last AND gate the method calls itself to
  compute the free gates that are left, and panics if that call yields another gate.
\<close>

fun gb_loop :: "(block \<Rightarrow> block) \<Rightarrow> gate list \<Rightarrow> gb_iter \<Rightarrow> (garbler_error, encrypted_gate option \<times> gb_iter) result" where
  "gb_loop aes [] s = Inr (None, s\<lparr>g_gates := []\<rparr>)"
| "gb_loop aes (Gate_Xor x y z # gs) s =
     bindR (idx (g_labels s) x) (\<lambda>x_0. bindR (idx (g_labels s) y) (\<lambda>y_0.
     bindR (upd (g_labels s) z (x_0 XOR y_0)) (\<lambda>l. gb_loop aes gs (s\<lparr>g_labels := l\<rparr>))))"
| "gb_loop aes (Gate_And x y z # gs) s =
     bindR (idx (g_labels s) x) (\<lambda>x_0. bindR (idx (g_labels s) y) (\<lambda>y_0.
       let (z_0, eg) = gb_and_gate aes (g_delta s) x_0 y_0 (g_gid s)
       in bindR (upd (g_labels s) z z_0) (\<lambda>l.
            let s = s\<lparr>g_labels := l, g_gid := g_gid s + 2, g_counter := g_counter s + 1, g_gates := gs\<rparr>
            in if \<not> has_gates s
               then bindR (gb_loop aes gs s) (\<lambda>(r, s).
                    bindR (assertR (r = None)) (\<lambda>_. Inr (Some eg, s\<lparr>g_complete := True\<rparr>)))
               else Inr (Some eg, s))))"
| "gb_loop aes (Gate_Inv x z # gs) s =
     bindR (idx (g_labels s) x) (\<lambda>x_0.
     bindR (upd (g_labels s) z (x_0 XOR g_delta s)) (\<lambda>l. gb_loop aes gs (s\<lparr>g_labels := l\<rparr>)))"
| "gb_loop aes (Gate_Id x z # gs) s =
     bindR (idx (g_labels s) x) (\<lambda>x_0.
     bindR (upd (g_labels s) z x_0) (\<lambda>l. gb_loop aes gs (s\<lparr>g_labels := l\<rparr>)))"

definition gb_next :: "(block \<Rightarrow> block) \<Rightarrow> gb_iter \<Rightarrow> (garbler_error, encrypted_gate option \<times> gb_iter) result" where
  "gb_next aes s = gb_loop aes (g_gates s) s"

definition gb_finish :: "(block \<Rightarrow> block) \<Rightarrow> gb_iter \<Rightarrow> (garbler_error, key list) result" where
  "gb_finish aes s =
     (if has_gates s then Inl (Err GNotFinished)
      else bindR (if \<not> g_complete s
                  then bindR (gb_next aes s) (\<lambda>(r, s). bindR (assertR (r = None)) (\<lambda>_. Inr s))
                  else Inr s)
             (\<lambda>s. subslice (g_labels s) (fst (g_outputs s)) (snd (g_outputs s))))"

text \<open>At most \<open>n\<close> items of the iterator, as \<open>by_ref().take(n)\<close> draws them.\<close>

fun gb_take :: "(block \<Rightarrow> block) \<Rightarrow> nat \<Rightarrow> gb_iter \<Rightarrow> (garbler_error, encrypted_gate list \<times> gb_iter) result" where
  "gb_take aes 0 s = Inr ([], s)"
| "gb_take aes (Suc n) s =
     bindR (gb_next aes s) (\<lambda>(r, s).
       case r of None \<Rightarrow> Inr ([], s)
       | Some eg \<Rightarrow> bindR (gb_take aes n s) (\<lambda>(egs, s). Inr (eg # egs, s)))"

text \<open>
  The loop writes each gate it draws to the next place of an array of \<open>N\<close> default gates and stops when
  the array is full; with \<open>N = 0\<close> the first gate drawn is out of bounds.
\<close>

definition gb_next_batch ::
  "(block \<Rightarrow> block) \<Rightarrow> nat \<Rightarrow> gb_iter \<Rightarrow> (garbler_error, encrypted_gate list option \<times> gb_iter) result" where
  "gb_next_batch aes N s =
     (if \<not> has_gates s then Inr (None, s)
      else if N = 0 then bindR (gb_next aes s) (\<lambda>(r, s). bindR (assertR (r = None)) (\<lambda>_. Inr (Some [], s)))
      else bindR (gb_take aes N s) (\<lambda>(egs, s). Inr (Some (egs @ replicate (N - length egs) default_gate), s)))"

section \<open>The evaluator\<close>

datatype evaluator_error = EInputLength nat nat | ENotFinished

record evaluator =
  e_buffer :: "block list"

record ev_consumer =
  e_labels :: "block list"
  e_gates :: "gate list"
  e_gid :: nat
  e_counter :: nat
  e_and_count :: nat
  e_outputs :: "nat \<times> nat"
  e_complete :: bool

definition ev_consumer_new :: "gate list \<Rightarrow> block list \<Rightarrow> nat \<Rightarrow> nat \<times> nat \<Rightarrow> ev_consumer" where
  "ev_consumer_new gs labels n outs =
     \<lparr>e_labels = labels, e_gates = gs, e_gid = 1, e_counter = 0, e_and_count = n, e_outputs = outs,
      e_complete = False\<rparr>"

definition ev_evaluate :: "evaluator \<Rightarrow> circuit \<Rightarrow> mac list \<Rightarrow> (evaluator_error, ev_consumer) result" where
  "ev_evaluate ev circ ins =
     (if length ins \<noteq> range_len (inputs circ)
      then Inl (Err (EInputLength (range_len (inputs circ)) (length ins)))
      else
        let buffer = grow (feed_count circ) (e_buffer ev)
        in bindR (copy_into buffer 0 (length ins) ins) (\<lambda>buffer.
           Inr (ev_consumer_new (gates circ) buffer (and_count circ) (outputs circ))))"

definition wants_gates :: "ev_consumer \<Rightarrow> bool" where
  "wants_gates s \<longleftrightarrow> e_counter s \<noteq> e_and_count s"

fun ev_loop :: "(block \<Rightarrow> block) \<Rightarrow> encrypted_gate \<Rightarrow> gate list \<Rightarrow> ev_consumer \<Rightarrow> (evaluator_error, ev_consumer) result" where
  "ev_loop aes eg [] s = Inr (s\<lparr>e_gates := [], e_complete := True\<rparr>)"
| "ev_loop aes eg (Gate_Xor x y z # gs) s =
     bindR (idx (e_labels s) x) (\<lambda>x. bindR (idx (e_labels s) y) (\<lambda>y.
     bindR (upd (e_labels s) z (x XOR y)) (\<lambda>l. ev_loop aes eg gs (s\<lparr>e_labels := l\<rparr>))))"
| "ev_loop aes eg (Gate_And x y z # gs) s =
     bindR (idx (e_labels s) x) (\<lambda>x. bindR (idx (e_labels s) y) (\<lambda>y.
     bindR (upd (e_labels s) z (ev_and_gate aes x y eg (e_gid s))) (\<lambda>l.
       let s = s\<lparr>e_labels := l, e_gid := e_gid s + 2, e_counter := e_counter s + 1, e_gates := gs\<rparr>
       in if wants_gates s then Inr s else ev_loop aes eg gs s)))"
| "ev_loop aes eg (Gate_Inv x z # gs) s =
     bindR (idx (e_labels s) x) (\<lambda>x.
     bindR (upd (e_labels s) z x) (\<lambda>l. ev_loop aes eg gs (s\<lparr>e_labels := l\<rparr>)))"
| "ev_loop aes eg (Gate_Id x z # gs) s =
     bindR (idx (e_labels s) x) (\<lambda>x.
     bindR (upd (e_labels s) z x) (\<lambda>l. ev_loop aes eg gs (s\<lparr>e_labels := l\<rparr>)))"

definition ev_next :: "(block \<Rightarrow> block) \<Rightarrow> encrypted_gate \<Rightarrow> ev_consumer \<Rightarrow> (evaluator_error, ev_consumer) result" where
  "ev_next aes eg s = ev_loop aes eg (e_gates s) s"

text \<open>The result holds the outputs and the labels, which stay in the evaluator's buffer.\<close>

definition ev_finish :: "(block \<Rightarrow> block) \<Rightarrow> ev_consumer \<Rightarrow> (evaluator_error, mac list \<times> block list) result" where
  "ev_finish aes s =
     (if wants_gates s then Inl (Err ENotFinished)
      else bindR (if \<not> e_complete s then ev_next aes default_gate s else Inr s) (\<lambda>s.
           bindR (subslice (e_labels s) (fst (e_outputs s)) (snd (e_outputs s))) (\<lambda>outs.
             Inr (outs, e_labels s))))"

fun ev_next_batch :: "(block \<Rightarrow> block) \<Rightarrow> encrypted_gate list \<Rightarrow> ev_consumer \<Rightarrow> (evaluator_error, ev_consumer) result" where
  "ev_next_batch aes [] s = Inr s"
| "ev_next_batch aes (eg # egs) s =
     bindR (ev_next aes eg s) (\<lambda>s. if \<not> wants_gates s then Inr s else ev_next_batch aes egs s)"

text \<open>\<open>evaluate_garbled_circuits\<close>: one evaluator for all circuits, or a new one for each.\<close>

definition ev_one ::
  "(block \<Rightarrow> block) \<Rightarrow> evaluator \<Rightarrow> circuit \<times> mac list \<times> encrypted_gate list \<Rightarrow>
   (evaluator_error, mac list \<times> evaluator) result" where
  "ev_one aes ev job =
     (case job of (circ, ins, egs) \<Rightarrow>
        bindR (ev_evaluate ev circ ins) (\<lambda>c.
        bindR (foldR (ev_next aes) egs c) (\<lambda>c.
        bindR (ev_finish aes c) (\<lambda>(outs, labels). Inr (outs, \<lparr>e_buffer = labels\<rparr>)))))"

fun evaluate_garbled_circuits_seq ::
  "(block \<Rightarrow> block) \<Rightarrow> evaluator \<Rightarrow> (circuit \<times> mac list \<times> encrypted_gate list) list \<Rightarrow>
   (evaluator_error, mac list list) result" where
  "evaluate_garbled_circuits_seq aes ev [] = Inr []"
| "evaluate_garbled_circuits_seq aes ev (job # jobs) =
     bindR (ev_one aes ev job) (\<lambda>(outs, ev).
     bindR (evaluate_garbled_circuits_seq aes ev jobs) (\<lambda>rest. Inr (outs # rest)))"

definition evaluate_garbled_circuits_par ::
  "(block \<Rightarrow> block) \<Rightarrow> (circuit \<times> mac list \<times> encrypted_gate list) list \<Rightarrow> (evaluator_error, mac list list) result" where
  "evaluate_garbled_circuits_par aes jobs =
     mapR (\<lambda>job. bindR (ev_one aes \<lparr>e_buffer = []\<rparr> job) (\<lambda>(outs, ev). Inr outs)) jobs"

section \<open>The contract of the AND gates\<close>

locale half_gates =
  fixes delta :: delta
    and gand :: "block \<Rightarrow> block \<Rightarrow> nat \<Rightarrow> block \<times> 'eg"
    and eand :: "block \<Rightarrow> block \<Rightarrow> 'eg \<Rightarrow> nat \<Rightarrow> block"
  assumes and_ok: "mac_ok delta x_0 x a \<Longrightarrow> mac_ok delta y_0 y b \<Longrightarrow> gand x_0 y_0 gid = (z_0, eg) \<Longrightarrow>
    mac_ok delta z_0 (eand x y eg gid) (a \<and> b)"

text \<open>A whole circuit garbled and evaluated without iterators: the labels of all wires in a list.\<close>

fun garble_ref ::
  "delta \<Rightarrow> (block \<Rightarrow> block \<Rightarrow> nat \<Rightarrow> block \<times> 'eg) \<Rightarrow> gate list \<Rightarrow> nat \<Rightarrow> block list \<Rightarrow> block list \<times> 'eg list" where
  "garble_ref d gand [] gid L = (L, [])"
| "garble_ref d gand (Gate_Xor x y z # gs) gid L = garble_ref d gand gs gid (L[z := L ! x XOR L ! y])"
| "garble_ref d gand (Gate_And x y z # gs) gid L =
     (let (z_0, eg) = gand (L ! x) (L ! y) gid; (L', egs) = garble_ref d gand gs (gid + 2) (L[z := z_0])
      in (L', eg # egs))"
| "garble_ref d gand (Gate_Inv x z # gs) gid L = garble_ref d gand gs gid (L[z := L ! x XOR d])"
| "garble_ref d gand (Gate_Id x z # gs) gid L = garble_ref d gand gs gid (L[z := L ! x])"

fun eval_ref ::
  "(block \<Rightarrow> block \<Rightarrow> 'eg \<Rightarrow> nat \<Rightarrow> block) \<Rightarrow> gate list \<Rightarrow> nat \<Rightarrow> 'eg list \<Rightarrow> block list \<Rightarrow> block list" where
  "eval_ref eand [] gid egs L = L"
| "eval_ref eand (Gate_Xor x y z # gs) gid egs L = eval_ref eand gs gid egs (L[z := L ! x XOR L ! y])"
| "eval_ref eand (Gate_And x y z # gs) gid egs L =
     eval_ref eand gs (gid + 2) (tl egs) (L[z := eand (L ! x) (L ! y) (hd egs) gid])"
| "eval_ref eand (Gate_Inv x z # gs) gid egs L = eval_ref eand gs gid egs (L[z := L ! x])"
| "eval_ref eand (Gate_Id x z # gs) gid egs L = eval_ref eand gs gid egs (L[z := L ! x])"

definition labels_ok :: "delta \<Rightarrow> node set \<Rightarrow> env \<Rightarrow> block list \<Rightarrow> block list \<Rightarrow> bool" where
  "labels_ok d D e G E \<longleftrightarrow> (\<forall>i \<in> D. i < length G \<and> i < length E \<and> mac_ok d (G ! i) (E ! i) (e i))"

lemma labels_ok_update:
  assumes "labels_ok d D e G E" "z < length G" "z < length E" "mac_ok d g m v"
  shows "labels_ok d (insert z D) (e(z := v)) (G[z := g]) (E[z := m])"
  using assms by (auto simp: labels_ok_def nth_list_update)

lemma garble_ref_length [simp]: "length (fst (garble_ref d gand gs gid L)) = length L"
proof (induction gs arbitrary: gid L)
  case (Cons g gs)
  then show ?case by (cases g) (simp_all add: case_prod_beta Let_def)
qed simp

lemma garble_ref_lengthD: "garble_ref d gand gs gid L = (L', egs) \<Longrightarrow> length L' = length L"
  by (metis fst_conv garble_ref_length)

lemma eval_ref_length [simp]: "length (eval_ref eand gs gid egs L) = length L"
  by (induction eand gs gid egs L rule: eval_ref.induct) auto

context half_gates
begin

lemma run_ok:
  assumes "gates_wf n D gs" "labels_ok delta D e G E" "n \<le> length G" "n \<le> length E"
    "garble_ref delta gand gs gid G = (G', egs)"
  shows "labels_ok delta (D \<union> gate_z ` set gs) (run_gates gs e) G' (eval_ref eand gs gid egs E)"
  using assms
proof (induction gs arbitrary: D e G E gid egs)
  case (Cons g gs)
  have ops: "set (gate_ops g) \<subseteq> D" "gate_z g < n" "gates_wf n (insert (gate_z g) D) gs"
    using Cons.prems(1) by simp_all
  have mac: "mac_ok delta (G ! i) (E ! i) (e i)" if "i \<in> D" for i
    using Cons.prems(2) that by (simp add: labels_ok_def)
  have step: "labels_ok delta (insert (gate_z g) D \<union> gate_z ` set gs) (run_gates gs (e(gate_z g := v))) G'
      (eval_ref eand gs gid' egs' (E[gate_z g := m]))"
    if "mac_ok delta l m v" "garble_ref delta gand gs gid' (G[gate_z g := l]) = (G', egs')" for l m v gid' egs'
    using Cons.IH [OF ops(3) labels_ok_update [OF Cons.prems(2) _ _ that(1)] _ _ that(2)] ops(2) Cons.prems(3,4) by (simp add: fun_upd_def)
  show ?case
  proof (cases g)
    case (Gate_Xor x y z)
    then have "mac_ok delta (G ! x XOR G ! y) (E ! x XOR E ! y) (e x \<noteq> e y)"
      using ops(1) by (intro mac_ok_xor mac) auto
    from step [OF this] Gate_Xor Cons.prems(5) show ?thesis by simp
  next
    case (Gate_And x y z)
    obtain z_0 eg where a: "gand (G ! x) (G ! y) gid = (z_0, eg)" by fastforce
    obtain egs' where r: "garble_ref delta gand gs (gid + 2) (G[z := z_0]) = (G', egs')" "egs = eg # egs'"
      using Cons.prems(5) Gate_And a by (auto simp: Let_def split: prod.splits)
    have "mac_ok delta z_0 (eand (E ! x) (E ! y) eg gid) (e x \<and> e y)"
      using ops(1) Gate_And by (intro and_ok [OF _ _ a] mac) auto
    from step [OF this] Gate_And r show ?thesis by simp
  next
    case (Gate_Inv x z)
    then have "mac_ok delta (G ! x XOR delta) (E ! x) (\<not> e x)"
      using ops(1) by (intro mac_ok_inv mac) auto
    from step [OF this] Gate_Inv Cons.prems(5) show ?thesis by simp
  next
    case (Gate_Id x z)
    then have "mac_ok delta (G ! x) (E ! x) (e x)"
      using ops(1) by (intro mac) auto
    from step [OF this] Gate_Id Cons.prems(5) show ?thesis by simp
  qed
qed simp

end

section \<open>The half gates satisfy it\<close>

lemma half_gate_and:
  assumes d: "lsb d" and x: "mac_ok d x_0 x a" and y: "mac_ok d y_0 y b"
    and g: "gb_and_gate aes d x_0 y_0 gid = (z_0, eg)"
  shows "mac_ok d z_0 (ev_and_gate aes x y eg gid) (a \<and> b)"
proof -
  let ?hx = "tccr aes (tweak_of gid)" and ?hy = "tccr aes (tweak_of (gid + 1))"
  have xy: "x = x_0 XOR scale a d" "y = y_0 XOR scale b d" using x y by (simp_all add: mac_ok_def)
  have eg: "eg = (?hx x_0 XOR ?hx (x_0 XOR d) XOR scale (lsb y_0) d, ?hy y_0 XOR ?hy (y_0 XOR d) XOR x_0)"
      "z_0 = (?hx x_0 XOR scale (lsb x_0) (fst eg)) XOR (?hy y_0 XOR scale (lsb y_0) (snd eg XOR x_0))"
    using g by (auto simp: gb_and_gate_def tccr_many_eq Let_def)
  have ev: "ev_and_gate aes x y eg gid =
      (?hx x XOR scale (lsb x) (fst eg)) XOR (?hy y XOR scale (lsb y) (snd eg XOR x))"
    by (simp add: ev_and_gate_def tccr_many_eq Let_def)
  show ?thesis
    unfolding mac_ok_def ev unfolding xy eg(2) using d
    by (cases a; cases b; cases "lsb x_0"; cases "lsb y_0"; simp add: eg(1) xor_simps word_xor_ac)
qed

interpretation hg: half_gates "delta_new v" "gb_and_gate aes (delta_new v)" "ev_and_gate aes"
  by unfold_locales (rule half_gate_and [OF lsb_delta_new])

section \<open>The iterators follow the reference run\<close>

abbreviation garble_run :: "(block \<Rightarrow> block) \<Rightarrow> gb_iter \<Rightarrow> block list \<times> encrypted_gate list" where
  "garble_run aes s \<equiv> garble_ref (g_delta s) (gb_and_gate aes (g_delta s)) (g_gates s) (g_gid s) (g_labels s)"

definition gb_sim :: "(block \<Rightarrow> block) \<Rightarrow> node set \<Rightarrow> gb_iter \<Rightarrow> block list \<Rightarrow> encrypted_gate list \<Rightarrow> bool" where
  "gb_sim aes D s L egs \<longleftrightarrow>
     D \<subseteq> {0..<length (g_labels s)} \<and> gates_wf (length (g_labels s)) D (g_gates s) \<and>
     garble_run aes s = (L, egs) \<and> g_counter s + length egs = g_and_count s \<and>
     (g_complete s \<longrightarrow> g_gates s = [])"

lemma length_garble_ref: "length (snd (garble_ref d gand gs gid L)) = count_type Ty_And gs"
proof (induction gs arbitrary: gid L)
  case (Cons g gs)
  then show ?case by (cases g) (simp_all add: case_prod_beta Let_def)
qed simp

lemma gb_loop_free:
  assumes "count_type Ty_And gs = 0" "gates_wf (length (g_labels s)) D gs" "D \<subseteq> {0..<length (g_labels s)}"
  shows "gb_loop aes gs s =
    Inr (None, s\<lparr>g_labels := fst (garble_ref (g_delta s) gand gs gid (g_labels s)), g_gates := []\<rparr>)"
  using assms
proof (induction gs arbitrary: s D)
  case (Cons g gs)
  have IH: "gb_loop aes gs (s\<lparr>g_labels := (g_labels s)[gate_z g := v]\<rparr>) =
      Inr (None, s\<lparr>g_labels := fst (garble_ref (g_delta s) gand gs gid ((g_labels s)[gate_z g := v])), g_gates := []\<rparr>)" for v
    using Cons.IH [of "s\<lparr>g_labels := (g_labels s)[gate_z g := v]\<rparr>" "insert (gate_z g) D"] Cons.prems
    by (auto split: if_splits)
  have ops: "set (gate_ops g) \<subseteq> {0..<length (g_labels s)}" "gate_z g < length (g_labels s)"
    using Cons.prems by auto
  show ?case using Cons.prems IH ops by (cases g) (simp_all split: if_splits)
qed simp

lemma gb_loop_next:
  assumes "gates_wf (length (g_labels s)) D gs" "D \<subseteq> {0..<length (g_labels s)}"
    "garble_ref (g_delta s) (gb_and_gate aes (g_delta s)) gs (g_gid s) (g_labels s) = (L, eg # egs)"
    "g_counter s + Suc (length egs) = g_and_count s" "\<not> g_complete s"
  shows "\<exists>s' D'. gb_loop aes gs s = Inr (Some eg, s') \<and> gb_sim aes D' s' L egs \<and>
    g_outputs s' = g_outputs s \<and> g_and_count s' = g_and_count s"
  using assms
proof (induction gs arbitrary: s D)
  case (Cons g gs)
  let ?s = "\<lambda>v. s\<lparr>g_labels := (g_labels s)[gate_z g := v]\<rparr>"
  have ops: "set (gate_ops g) \<subseteq> {0..<length (g_labels s)}" "gate_z g < length (g_labels s)"
    using Cons.prems(1,2) by auto
  have IH: "\<exists>s' D'. gb_loop aes gs (?s v) = Inr (Some eg, s') \<and> gb_sim aes D' s' L egs \<and>
      g_outputs s' = g_outputs s \<and> g_and_count s' = g_and_count s"
    if "garble_ref (g_delta s) (gb_and_gate aes (g_delta s)) gs (g_gid s) ((g_labels s)[gate_z g := v]) = (L, eg # egs)" for v
    using Cons.IH [of "?s v" "insert (gate_z g) D"] Cons.prems that by auto
  show ?case
  proof (cases g)
    case (Gate_And x y z)
    obtain z_0 e where a: "gb_and_gate aes (g_delta s) (g_labels s ! x) (g_labels s ! y) (g_gid s) = (z_0, e)"
      by (meson surj_pair)
    let ?t = "s\<lparr>g_labels := (g_labels s)[z := z_0], g_gid := g_gid s + 2, g_counter := g_counter s + 1, g_gates := gs\<rparr>"
    have r: "garble_ref (g_delta s) (gb_and_gate aes (g_delta s)) gs (g_gid s + 2) ((g_labels s)[z := z_0]) = (L, egs)"
        "e = eg"
      using Cons.prems(3) Gate_And a by (auto simp: Let_def split: prod.splits)
    have wf: "insert z D \<subseteq> {0..<length (g_labels s)}" "gates_wf (length (g_labels s)) (insert z D) gs"
      using Cons.prems(1,2) Gate_And by auto
    have sim: "gb_sim aes (insert z D) ?t L egs"
      using wf r(1) Cons.prems(4,5) by (simp add: gb_sim_def)
    show ?thesis
    proof (cases "egs = []")
      case False
      then have "has_gates ?t" using Cons.prems(4) by (cases egs) (auto simp: has_gates_def)
      then show ?thesis using sim Gate_And ops a r(2) by (auto simp: Let_def)
    next
      case True
      then have fin: "\<not> has_gates ?t" using Cons.prems(4) by (simp add: has_gates_def)
      have "count_type Ty_And gs = 0"
        using length_garble_ref [of "g_delta s" "gb_and_gate aes (g_delta s)" gs "g_gid s + 2" "(g_labels s)[z := z_0]"] r(1) True
        by simp
      then have "gb_loop aes gs ?t = Inr (None, ?t\<lparr>g_labels := L, g_gates := []\<rparr>)"
        using gb_loop_free [of gs ?t "insert z D" aes "gb_and_gate aes (g_delta s)" "g_gid s + 2"] wf r(1) by simp
      then have "gb_loop aes (g # gs) s = Inr (Some eg, ?t\<lparr>g_labels := L, g_gates := [], g_complete := True\<rparr>)"
        using fin Gate_And ops a r(2) by (simp add: Let_def)
      moreover have "length L = length (g_labels s)"
        using garble_ref_lengthD [OF r(1)] by simp
      ultimately show ?thesis using True Cons.prems(4) wf(1) by (auto simp: gb_sim_def)
    qed
  qed (use IH Cons.prems ops in \<open>auto split: prod.splits\<close>)
qed simp

lemma gb_next_ok:
  assumes "gb_sim aes D s L egs"
  shows "case egs of [] \<Rightarrow> gb_next aes s = Inr (None, s\<lparr>g_labels := L, g_gates := []\<rparr>)
    | eg # rest \<Rightarrow> \<exists>s' D'. gb_next aes s = Inr (Some eg, s') \<and> gb_sim aes D' s' L rest \<and>
        g_outputs s' = g_outputs s \<and> g_and_count s' = g_and_count s"
proof (cases egs)
  case Nil
  have r: "garble_run aes s = (L, [])" using assms Nil by (simp add: gb_sim_def)
  then have "count_type Ty_And (g_gates s) = 0"
    using length_garble_ref [of "g_delta s" "gb_and_gate aes (g_delta s)" "g_gates s" "g_gid s" "g_labels s"] by simp
  then show ?thesis
    using gb_loop_free [of "g_gates s" s D aes "gb_and_gate aes (g_delta s)" "g_gid s"] assms r Nil
    by (simp add: gb_next_def gb_sim_def)
next
  case (Cons eg rest)
  then have "g_gates s \<noteq> []" using assms by (auto simp: gb_sim_def)
  then have "\<not> g_complete s" using assms by (simp add: gb_sim_def)
  then show ?thesis
    using gb_loop_next [of s D "g_gates s" aes L eg rest] assms Cons by (simp add: gb_next_def gb_sim_def)
qed

lemma gb_take_ok:
  assumes "gb_sim aes D s L egs"
  shows "\<exists>s' D'. gb_take aes k s = Inr (take k egs, s') \<and> gb_sim aes D' s' L (drop k egs) \<and>
    g_outputs s' = g_outputs s \<and> g_and_count s' = g_and_count s"
  using assms
proof (induction k arbitrary: s D egs)
  case 0
  then show ?case by auto
next
  case (Suc k)
  show ?case
  proof (cases egs)
    case Nil
    let ?t = "s\<lparr>g_labels := L, g_gates := []\<rparr>"
    have n: "gb_next aes s = Inr (None, ?t)" using gb_next_ok [OF Suc.prems] Nil by simp
    have "length L = length (g_labels s)"
      using Suc.prems garble_ref_lengthD by (auto simp: gb_sim_def)
    then have "gb_sim aes D ?t L []" using Suc.prems Nil by (auto simp: gb_sim_def)
    then show ?thesis using n Nil by auto
  next
    case (Cons eg rest)
    then obtain s1 D1 where 1: "gb_next aes s = Inr (Some eg, s1)" "gb_sim aes D1 s1 L rest"
        "g_outputs s1 = g_outputs s" "g_and_count s1 = g_and_count s"
      using gb_next_ok [OF Suc.prems] by auto
    show ?thesis using Suc.IH [OF 1(2)] 1 Cons by auto
  qed
qed

lemma gb_finish_ok:
  assumes "gb_sim aes D s L []"
  shows "gb_finish aes s = subslice L (fst (g_outputs s)) (snd (g_outputs s))"
proof (cases "g_complete s")
  case True
  then have "g_labels s = L" using assms by (auto simp: gb_sim_def)
  with True assms show ?thesis by (simp add: gb_finish_def has_gates_def gb_sim_def)
next
  case False
  with gb_next_ok [OF assms] assms show ?thesis by (simp add: gb_finish_def has_gates_def gb_sim_def)
qed

lemma gb_sim_has_gates: "gb_sim aes D s L egs \<Longrightarrow> has_gates s \<longleftrightarrow> egs \<noteq> []"
  by (cases egs) (auto simp: gb_sim_def has_gates_def)

section \<open>The consumer follows the reference run\<close>

definition ev_sim :: "(block \<Rightarrow> block) \<Rightarrow> node set \<Rightarrow> ev_consumer \<Rightarrow> encrypted_gate list \<Rightarrow> block list \<Rightarrow> bool" where
  "ev_sim aes D s egs L \<longleftrightarrow>
     D \<subseteq> {0..<length (e_labels s)} \<and> gates_wf (length (e_labels s)) D (e_gates s) \<and>
     eval_ref (ev_and_gate aes) (e_gates s) (e_gid s) egs (e_labels s) = L \<and>
     length egs = count_type Ty_And (e_gates s) \<and> e_counter s + length egs = e_and_count s \<and>
     (e_complete s \<longrightarrow> e_gates s = [])"

lemma ev_loop_free:
  assumes "count_type Ty_And gs = 0" "gates_wf (length (e_labels s)) D gs" "D \<subseteq> {0..<length (e_labels s)}"
  shows "ev_loop aes eg gs s =
    Inr (s\<lparr>e_labels := eval_ref (ev_and_gate aes) gs gid [] (e_labels s), e_gates := [], e_complete := True\<rparr>)"
  using assms
proof (induction gs arbitrary: s D)
  case (Cons g gs)
  have IH: "ev_loop aes eg gs (s\<lparr>e_labels := (e_labels s)[gate_z g := v]\<rparr>) =
      Inr (s\<lparr>e_labels := eval_ref (ev_and_gate aes) gs gid [] ((e_labels s)[gate_z g := v]), e_gates := [],
        e_complete := True\<rparr>)" for v
    using Cons.IH [of "s\<lparr>e_labels := (e_labels s)[gate_z g := v]\<rparr>" "insert (gate_z g) D"] Cons.prems
    by (auto split: if_splits)
  have ops: "set (gate_ops g) \<subseteq> {0..<length (e_labels s)}" "gate_z g < length (e_labels s)"
    using Cons.prems by auto
  show ?case using Cons.prems IH ops by (cases g) (simp_all split: if_splits)
qed simp

lemma ev_loop_next:
  assumes "gates_wf (length (e_labels s)) D gs" "D \<subseteq> {0..<length (e_labels s)}"
    "eval_ref (ev_and_gate aes) gs (e_gid s) (eg # egs) (e_labels s) = L"
    "Suc (length egs) = count_type Ty_And gs"
    "e_counter s + Suc (length egs) = e_and_count s" "\<not> e_complete s"
  shows "\<exists>s' D'. ev_loop aes eg gs s = Inr s' \<and> ev_sim aes D' s' egs L \<and>
    e_outputs s' = e_outputs s \<and> e_and_count s' = e_and_count s"
  using assms
proof (induction gs arbitrary: s D)
  case (Cons g gs)
  let ?s = "\<lambda>v. s\<lparr>e_labels := (e_labels s)[gate_z g := v]\<rparr>"
  have ops: "set (gate_ops g) \<subseteq> {0..<length (e_labels s)}" "gate_z g < length (e_labels s)"
    using Cons.prems(1,2) by auto
  have IH: "\<exists>s' D'. ev_loop aes eg gs (?s v) = Inr s' \<and> ev_sim aes D' s' egs L \<and>
      e_outputs s' = e_outputs s \<and> e_and_count s' = e_and_count s"
    if "eval_ref (ev_and_gate aes) gs (e_gid s) (eg # egs) ((e_labels s)[gate_z g := v]) = L" "gate_type g \<noteq> Ty_And" for v
    using Cons.IH [of "?s v" "insert (gate_z g) D"] Cons.prems that by auto
  show ?case
  proof (cases g)
    case (Gate_And x y z)
    let ?v = "ev_and_gate aes (e_labels s ! x) (e_labels s ! y) eg (e_gid s)"
    let ?t = "s\<lparr>e_labels := (e_labels s)[z := ?v], e_gid := e_gid s + 2, e_counter := e_counter s + 1, e_gates := gs\<rparr>"
    have r: "eval_ref (ev_and_gate aes) gs (e_gid s + 2) egs ((e_labels s)[z := ?v]) = L" "length egs = count_type Ty_And gs"
      using Cons.prems(3,4) Gate_And by auto
    have wf: "insert z D \<subseteq> {0..<length (e_labels s)}" "gates_wf (length (e_labels s)) (insert z D) gs"
      using Cons.prems(1,2) Gate_And by auto
    have sim: "ev_sim aes (insert z D) ?t egs L"
      using wf r Cons.prems(5,6) by (simp add: ev_sim_def)
    show ?thesis
    proof (cases "egs = []")
      case False
      then have "wants_gates ?t" using Cons.prems(5) by (cases egs) (auto simp: wants_gates_def)
      then show ?thesis using sim Gate_And ops by (auto simp: Let_def)
    next
      case True
      then have fin: "\<not> wants_gates ?t" using Cons.prems(5) by (simp add: wants_gates_def)
      have "ev_loop aes eg gs ?t = Inr (?t\<lparr>e_labels := L, e_gates := [], e_complete := True\<rparr>)"
        using ev_loop_free [of gs ?t "insert z D" aes eg "e_gid s + 2"] wf r True by simp
      then have "ev_loop aes eg (g # gs) s = Inr (?t\<lparr>e_labels := L, e_gates := [], e_complete := True\<rparr>)"
        using fin Gate_And ops by (simp add: Let_def)
      moreover have "length L = length (e_labels s)" using arg_cong [OF r(1), of length] by simp
      ultimately show ?thesis using True Cons.prems(5) wf(1) by (auto simp: ev_sim_def)
    qed
  qed (use IH Cons.prems ops in auto)
qed simp

lemma ev_next_ok:
  assumes "ev_sim aes D s egs L" "egs = [] \<or> eg = hd egs"
  shows "\<exists>s' D'. ev_next aes eg s = Inr s' \<and> ev_sim aes D' s' (tl egs) L \<and>
    e_outputs s' = e_outputs s \<and> e_and_count s' = e_and_count s \<and> (egs = [] \<longrightarrow> e_complete s' \<and> e_labels s' = L)"
proof (cases egs)
  case Nil
  have r: "eval_ref (ev_and_gate aes) (e_gates s) (e_gid s) [] (e_labels s) = L" using assms Nil by (simp add: ev_sim_def)
  have "ev_next aes eg s = Inr (s\<lparr>e_labels := L, e_gates := [], e_complete := True\<rparr>)"
    using ev_loop_free [of "e_gates s" s D aes eg "e_gid s"] assms(1) Nil r by (simp add: ev_next_def ev_sim_def)
  moreover have "length L = length (e_labels s)" using arg_cong [OF r, of length] by simp
  ultimately show ?thesis using assms(1) Nil by (auto simp: ev_sim_def)
next
  case (Cons eg' rest)
  then have "e_gates s \<noteq> []" using assms(1) by (auto simp: ev_sim_def)
  then have "\<not> e_complete s" using assms(1) by (simp add: ev_sim_def)
  then show ?thesis
    using ev_loop_next [of s D "e_gates s" aes eg rest L] assms Cons by (simp add: ev_next_def ev_sim_def)
qed

lemma ev_feed_ok:
  assumes "ev_sim aes D s egs L"
  shows "\<exists>s' D'. foldR (ev_next aes) (egs @ extra) s = Inr s' \<and> ev_sim aes D' s' [] L \<and>
    e_outputs s' = e_outputs s \<and> e_and_count s' = e_and_count s"
  using assms
proof (induction egs arbitrary: s D)
  case Nil
  then show ?case
  proof (induction extra arbitrary: s D)
    case (Cons eg extra)
    then obtain s1 D1 where 1: "ev_next aes eg s = Inr s1" "ev_sim aes D1 s1 [] L" "e_outputs s1 = e_outputs s"
        "e_and_count s1 = e_and_count s"
      using ev_next_ok [of aes D s "[]" L eg] by auto
    with Cons.IH [OF 1(2)] show ?case by auto
  qed auto
next
  case (Cons eg egs)
  then obtain s1 D1 where 1: "ev_next aes eg s = Inr s1" "ev_sim aes D1 s1 egs L" "e_outputs s1 = e_outputs s"
      "e_and_count s1 = e_and_count s"
    using ev_next_ok [of aes D s "eg # egs" L eg] by auto
  with Cons.IH [OF 1(2)] show ?case by auto
qed

lemma ev_finish_ok:
  assumes "ev_sim aes D s [] L"
  shows "ev_finish aes s = bindR (subslice L (fst (e_outputs s)) (snd (e_outputs s))) (\<lambda>outs. Inr (outs, L))"
proof (cases "e_complete s")
  case True
  then have "e_labels s = L" using assms by (auto simp: ev_sim_def)
  with True assms show ?thesis by (simp add: ev_finish_def wants_gates_def ev_sim_def)
next
  case False
  obtain s' where "ev_next aes default_gate s = Inr s'" "e_outputs s' = e_outputs s" "e_labels s' = L"
    using ev_next_ok [OF assms, of default_gate] by auto
  with False assms show ?thesis by (simp add: ev_finish_def wants_gates_def ev_sim_def)
qed

lemma ev_sim_wants_gates: "ev_sim aes D s egs L \<Longrightarrow> wants_gates s \<longleftrightarrow> egs \<noteq> []"
  by (cases egs) (auto simp: ev_sim_def wants_gates_def)

end
