(* ===== verification/Garble_Correct.thy ===== *)
theory Garble_Correct
  imports Garble
begin

text \<open>
  Correctness of garbled evaluation, end to end: a circuit garbled by the iterator and evaluated by
  the consumer, gate by gate or in padded batches, gives output MACs that authenticate the plaintext
  evaluation of the circuit, whatever the reused label buffers held before.
\<close>

section \<open>Starting the two sides\<close>

lemma copy_into_start:
  assumes "length ins \<le> n"
  shows "\<exists>L. copy_into (grow n buf) 0 (length ins) ins = Inr L \<and> n \<le> length L \<and>
    (\<forall>i < length ins. L ! i = ins ! i)"
  using assms by (auto simp: copy_into_def grow_def nth_append)

lemma wf_circuitD:
  assumes "wf_circuit c"
  shows "fst (inputs c) = 0" "range_len (inputs c) = snd (inputs c)" "snd (inputs c) \<le> feed_count c"
    "fst (outputs c) \<le> snd (outputs c)" "snd (outputs c) \<le> feed_count c"
    "gates_wf (feed_count c) {0..<snd (inputs c)} (gates c)"
    "{fst (outputs c)..<snd (outputs c)} \<subseteq> {0..<snd (inputs c)} \<union> gate_z ` set (gates c)"
    "and_count c = count_type Ty_And (gates c)"
  using assms by (auto simp: wf_circuit_def range_len_def)

lemma generate_sim:
  assumes wf: "wf_circuit c" and len: "length ks = snd (inputs c)"
  obtains it G L egs where "generate gb c d ks = Inr it" "gb_sim aes {0..<snd (inputs c)} it L egs"
    "g_outputs it = outputs c" "g_and_count it = and_count c" "feed_count c \<le> length G"
    "\<And>i. i < length ks \<Longrightarrow> G ! i = ks ! i" "garble_ref d (gb_and_gate aes d) (gates c) 1 G = (L, egs)"
    "length egs = and_count c" "length L = length G"
proof -
  note w = wf_circuitD [OF wf]
  obtain G where G: "copy_into (grow (feed_count c) (g_buffer gb)) 0 (length ks) ks = (Inr G :: (garbler_error, _) result)"
      "feed_count c \<le> length G" "\<And>i. i < length ks \<Longrightarrow> G ! i = ks ! i"
    using copy_into_start [of ks "feed_count c" "g_buffer gb"] w(3) len by auto
  obtain L egs where r: "garble_ref d (gb_and_gate aes d) (gates c) 1 G = (L, egs)" by (meson surj_pair)
  have n: "length egs = and_count c"
    using length_garble_ref [of d "gb_and_gate aes d" "gates c" 1 G] r w(8) by simp
  let ?it = "gb_iter_new d (gates c) G (and_count c) (outputs c)"
  have "gates_wf (length G) {0..<snd (inputs c)} (gates c)"
    using gates_wf_mono [OF w(6) subset_refl G(2)] .
  then have "gb_sim aes {0..<snd (inputs c)} ?it L egs"
    using r n G(2) w(3) by (auto simp: gb_sim_def gb_iter_new_def)
  moreover have "generate gb c d ks = Inr ?it" using G(1) len w(2) by (simp add: generate_def)
  ultimately show thesis
    using that [of ?it L egs G] G r n garble_ref_lengthD [OF r] by (simp add: gb_iter_new_def)
qed

lemma evaluate_sim:
  assumes wf: "wf_circuit c" and len: "length ms = snd (inputs c)" "length egs = and_count c"
  obtains cs E where "ev_evaluate ev c ms = Inr cs"
    "ev_sim aes {0..<snd (inputs c)} cs egs (eval_ref (ev_and_gate aes) (gates c) 1 egs E)"
    "e_outputs cs = outputs c" "e_and_count cs = and_count c" "feed_count c \<le> length E"
    "\<And>i. i < length ms \<Longrightarrow> E ! i = ms ! i"
proof -
  note w = wf_circuitD [OF wf]
  obtain E where E: "copy_into (grow (feed_count c) (e_buffer ev)) 0 (length ms) ms = (Inr E :: (evaluator_error, _) result)"
      "feed_count c \<le> length E" "\<And>i. i < length ms \<Longrightarrow> E ! i = ms ! i"
    using copy_into_start [of ms "feed_count c" "e_buffer ev"] w(3) len by auto
  let ?cs = "ev_consumer_new (gates c) E (and_count c) (outputs c)"
  have "gates_wf (length E) {0..<snd (inputs c)} (gates c)"
    using gates_wf_mono [OF w(6) subset_refl E(2)] .
  then have "ev_sim aes {0..<snd (inputs c)} ?cs egs (eval_ref (ev_and_gate aes) (gates c) 1 egs E)"
    using len E(2) w(3,8) by (auto simp: ev_sim_def ev_consumer_new_def)
  moreover have "ev_evaluate ev c ms = Inr ?cs" using E(1) len w(2) by (simp add: ev_evaluate_def)
  ultimately show thesis using that E by (simp add: ev_consumer_new_def)
qed

lemma subslice_outputs:
  assumes "wf_circuit c" "feed_count c \<le> length L"
  shows "subslice L (fst (outputs c)) (snd (outputs c)) = Inr (map ((!) L) [fst (outputs c)..<snd (outputs c)])"
  using wf_circuitD(4,5) [OF assms(1)] assms(2) by (auto simp: subslice_def intro: nth_equalityI)

section \<open>The labels of the outputs\<close>

definition auth_all :: "delta \<Rightarrow> key list \<Rightarrow> bool list \<Rightarrow> mac list" where
  "auth_all d ks xs = map2 (\<lambda>k x. key_auth k x d) ks xs"

lemma length_auth_all [simp]: "length (auth_all d ks xs) = min (length ks) (length xs)"
  by (simp add: auth_all_def)

lemma run_outputs:
  assumes wf: "wf_circuit c" and len: "length xs = snd (inputs c)"
    and G: "feed_count c \<le> length G" "feed_count c \<le> length E"
    and ins: "\<And>i. i < length xs \<Longrightarrow> E ! i = key_auth (G ! i) (xs ! i) (delta_new v)"
    and r: "garble_ref (delta_new v) (gb_and_gate aes (delta_new v)) (gates c) 1 G = (L, egs)"
  shows "map ((!) (eval_ref (ev_and_gate aes) (gates c) 1 egs E)) [fst (outputs c)..<snd (outputs c)] =
    auth_all (delta_new v) (map ((!) L) [fst (outputs c)..<snd (outputs c)]) (circuit_fun c xs)"
proof -
  note w = wf_circuitD [OF wf]
  let ?d = "delta_new v"
  have lab: "labels_ok ?d {0..<snd (inputs c)} (input_env xs) G E"
    using ins len G w(3) by (auto simp: labels_ok_def input_env_def mac_ok_iff_auth)
  have "labels_ok ?d ({0..<snd (inputs c)} \<union> gate_z ` set (gates c)) (run_gates (gates c) (input_env xs)) L
      (eval_ref (ev_and_gate aes) (gates c) 1 egs E)"
    by (rule hg.run_ok [OF w(6) lab G r])
  then have out: "eval_ref (ev_and_gate aes) (gates c) 1 egs E ! i =
      key_auth (L ! i) (run_gates (gates c) (input_env xs) i) ?d" if "fst (outputs c) \<le> i" "i < snd (outputs c)" for i
    using w(7) that by (auto simp: labels_ok_def mac_ok_iff_auth subset_iff)
  show ?thesis
    by (rule nth_equalityI) (auto simp: auth_all_def circuit_fun_def out len simp del: One_nat_def)
qed

section \<open>Gate by gate\<close>

lemma garble_eval_ok:
  assumes wf: "wf_circuit c" and len: "length ks = snd (inputs c)" "length xs = snd (inputs c)"
  shows "\<exists>it egs it' cs cs' outk outm buf.
    generate gb c (delta_new v) ks = Inr it \<and> gb_take aes (Suc (and_count c)) it = Inr (egs, it') \<and>
    gb_finish aes it' = Inr outk \<and>
    ev_evaluate ev c (auth_all (delta_new v) ks xs) = Inr cs \<and> foldR (ev_next aes) egs cs = Inr cs' \<and>
    ev_finish aes cs' = Inr (outm, buf) \<and> length egs = and_count c \<and>
    length outk = range_len (outputs c) \<and> outm = auth_all (delta_new v) outk (circuit_fun c xs)"
proof -
  let ?d = "delta_new v" and ?outs = "[fst (outputs c)..<snd (outputs c)]"
  obtain it G L egs where g: "generate gb c ?d ks = Inr it" "gb_sim aes {0..<snd (inputs c)} it L egs"
      "g_outputs it = outputs c" "feed_count c \<le> length G" "\<And>i. i < length ks \<Longrightarrow> G ! i = ks ! i"
      "garble_ref ?d (gb_and_gate aes ?d) (gates c) 1 G = (L, egs)" "length egs = and_count c" "length L = length G"
    using generate_sim [OF wf len(1)] by metis
  obtain it' D' where t: "gb_take aes (Suc (and_count c)) it = Inr (egs, it')" "gb_sim aes D' it' L []"
      "g_outputs it' = outputs c"
    using gb_take_ok [OF g(2), of "Suc (and_count c)"] g(3,7) by auto
  have fk: "gb_finish aes it' = Inr (map ((!) L) ?outs)"
    using gb_finish_ok [OF t(2)] t(3) g(4,8) by (simp add: subslice_outputs [OF wf])
  have lm: "length (auth_all ?d ks xs) = snd (inputs c)" using len by simp
  obtain cs E where e: "ev_evaluate ev c (auth_all ?d ks xs) = Inr cs"
      "ev_sim aes {0..<snd (inputs c)} cs egs (eval_ref (ev_and_gate aes) (gates c) 1 egs E)"
      "e_outputs cs = outputs c" "feed_count c \<le> length E"
      "\<And>i. i < length (auth_all ?d ks xs) \<Longrightarrow> E ! i = auth_all ?d ks xs ! i"
    using evaluate_sim [OF wf lm g(7)] by metis
  obtain cs' D'' where f: "foldR (ev_next aes) egs cs = Inr cs'"
      "ev_sim aes D'' cs' [] (eval_ref (ev_and_gate aes) (gates c) 1 egs E)" "e_outputs cs' = outputs c"
    using ev_feed_ok [OF e(2), of "[]"] e(3) by auto
  have fm: "ev_finish aes cs' = Inr (map ((!) (eval_ref (ev_and_gate aes) (gates c) 1 egs E)) ?outs,
      eval_ref (ev_and_gate aes) (gates c) 1 egs E)"
    using ev_finish_ok [OF f(2)] f(3) e(4) by (simp add: subslice_outputs [OF wf])
  have "map ((!) (eval_ref (ev_and_gate aes) (gates c) 1 egs E)) ?outs = auth_all ?d (map ((!) L) ?outs) (circuit_fun c xs)"
    using g(5) e(5) len by (intro run_outputs [OF wf len(2) g(4) e(4) _ g(6)]) (simp add: auth_all_def)
  then show ?thesis
    using g(1,7) t(1) fk e(1) f(1) fm by (auto simp: range_len_def)
qed

section \<open>In padded batches\<close>

text \<open>All batches of an iterator, with a bound on the number of calls.\<close>

fun gb_batches ::
  "(block \<Rightarrow> block) \<Rightarrow> nat \<Rightarrow> nat \<Rightarrow> gb_iter \<Rightarrow> (garbler_error, encrypted_gate list list \<times> gb_iter) result" where
  "gb_batches aes N 0 it = Inr ([], it)"
| "gb_batches aes N (Suc n) it =
     bindR (gb_next_batch aes N it) (\<lambda>(r, it).
       case r of None \<Rightarrow> Inr ([], it)
       | Some b \<Rightarrow> bindR (gb_batches aes N n it) (\<lambda>(bs, it). Inr (b # bs, it)))"

lemma gb_batches_ok:
  assumes "gb_sim aes D it L egs" "0 < N" "length egs < n"
  shows "\<exists>bs it' D' p. gb_batches aes N n it = Inr (bs, it') \<and> gb_sim aes D' it' L [] \<and>
    g_outputs it' = g_outputs it \<and> (\<forall>b \<in> set bs. length b = N) \<and> (egs = [] \<longrightarrow> bs = []) \<and>
    concat bs = egs @ replicate p default_gate \<and> p < N"
  using assms(1,3)
proof (induction n arbitrary: it D egs)
  case (Suc n)
  show ?case
  proof (cases "egs = []")
    case True
    then have "\<not> has_gates it" using gb_sim_has_gates [OF Suc.prems(1)] by simp
    with True Suc.prems(1) assms(2) show ?thesis by (auto simp: gb_next_batch_def)
  next
    case False
    then have h: "has_gates it" using gb_sim_has_gates [OF Suc.prems(1)] by simp
    obtain it1 D1 where 1: "gb_take aes N it = Inr (take N egs, it1)" "gb_sim aes D1 it1 L (drop N egs)"
        "g_outputs it1 = g_outputs it"
      using gb_take_ok [OF Suc.prems(1), of N] by auto
    define b where "b = take N egs @ replicate (N - length (take N egs)) default_gate"
    have lb: "length b = N" by (simp add: b_def)
    have "length (drop N egs) < n" using Suc.prems(2) False assms(2) by (cases egs) auto
    then obtain bs it2 D2 p where 2: "gb_batches aes N n it1 = Inr (bs, it2)" "gb_sim aes D2 it2 L []"
        "g_outputs it2 = g_outputs it1" "\<forall>b \<in> set bs. length b = N" "drop N egs = [] \<longrightarrow> bs = []"
        "concat bs = drop N egs @ replicate p default_gate" "p < N"
      using Suc.IH [OF 1(2)] by blast
    have "\<exists>p. b @ concat bs = egs @ replicate p default_gate \<and> p < N"
    proof (cases "N \<le> length egs")
      case True
      then have "b @ concat bs = (take N egs @ drop N egs) @ replicate p default_gate" by (simp add: b_def 2(6) del: append_take_drop_id)
      then show ?thesis using 2(7) by auto
    next
      case short: False
      then show ?thesis using 2(5) False assms(2) by (auto simp: b_def intro!: exI [of _ "N - length egs"])
    qed
    moreover have "gb_next_batch aes N it = Inr (Some b, it1)"
      using h 1(1) assms(2) by (simp add: gb_next_batch_def b_def)
    ultimately show ?thesis using 1(3) 2(1-4) lb False by auto
  qed
qed simp

lemma ev_next_batch_ok:
  assumes "ev_sim aes D cs egs L" "take (length b) egs = take (length egs) b"
  shows "\<exists>cs' D'. ev_next_batch aes b cs = Inr cs' \<and> ev_sim aes D' cs' (drop (length b) egs) L \<and>
    e_outputs cs' = e_outputs cs"
  using assms
proof (induction b arbitrary: cs D egs)
  case (Cons eg b)
  have "egs = [] \<or> eg = hd egs" using Cons.prems(2) by (cases egs) auto
  then obtain c1 D1 where 1: "ev_next aes eg cs = Inr c1" "ev_sim aes D1 c1 (tl egs) L" "e_outputs c1 = e_outputs cs"
    using ev_next_ok [OF Cons.prems(1)] by blast
  show ?case
  proof (cases "tl egs = []")
    case True
    then have "\<not> wants_gates c1" "drop (length (eg # b)) egs = []"
      using ev_sim_wants_gates [OF 1(2)] by (auto simp: drop_Suc)
    then show ?thesis using 1 True by auto
  next
    case False
    then have w: "wants_gates c1" using ev_sim_wants_gates [OF 1(2)] by simp
    have "take (length b) (tl egs) = take (length (tl egs)) b" using Cons.prems(2) by (cases egs) auto
    from Cons.IH [OF 1(2) this] 1 w show ?thesis by (auto simp: drop_Suc)
  qed
qed auto

lemma ev_feed_batches_ok:
  assumes "ev_sim aes D cs egs L" "take (length egs) (concat bs) = egs"
  shows "\<exists>cs' D'. foldR (ev_next_batch aes) bs cs = Inr cs' \<and> ev_sim aes D' cs' [] L \<and> e_outputs cs' = e_outputs cs"
  using assms
proof (induction bs arbitrary: cs D egs)
  case (Cons b bs)
  have p: "take (length b) egs = take (length egs) b"
  proof -
    have pre: "take (length egs) (b @ concat bs) = egs" and b: "take (length b) (b @ concat bs) = b"
      using Cons.prems(2) by simp_all
    have "take (length b) (take (length egs) (b @ concat bs)) = take (length egs) (take (length b) (b @ concat bs))"
      by (simp only: take_take min.commute)
    then show ?thesis unfolding pre b .
  qed
  obtain c1 D1 where 1: "ev_next_batch aes b cs = Inr c1" "ev_sim aes D1 c1 (drop (length b) egs) L"
      "e_outputs c1 = e_outputs cs"
    using ev_next_batch_ok [OF Cons.prems(1) p] by blast
  have "take (length (drop (length b) egs)) (concat bs) = drop (length b) egs"
  proof -
    have pre: "take (length egs) (b @ concat bs) = egs" using Cons.prems(2) by simp
    have "drop (length b) (take (length egs) (b @ concat bs)) = take (length egs - length b) (concat bs)"
      by (simp only: drop_take) simp
    then show ?thesis unfolding pre length_drop by (rule sym)
  qed
  from Cons.IH [OF 1(2) this] 1 show ?case by auto
qed auto

lemma batched_as_streamed:
  assumes wf: "wf_circuit c" and len: "length ks = snd (inputs c)" "length ms = snd (inputs c)" and N: "0 < N"
  shows "\<exists>it egs it1 bs it2 p cs cs1 cs2 outk outm buf.
    generate gb c (delta_new v) ks = Inr it \<and>
    gb_take aes (Suc (and_count c)) it = Inr (egs, it1) \<and> gb_batches aes N (Suc (and_count c)) it = Inr (bs, it2) \<and>
    (\<forall>b \<in> set bs. length b = N) \<and> concat bs = egs @ replicate p default_gate \<and> p < N \<and>
    gb_finish aes it1 = Inr outk \<and> gb_finish aes it2 = Inr outk \<and>
    ev_evaluate ev c ms = Inr cs \<and> foldR (ev_next aes) egs cs = Inr cs1 \<and> foldR (ev_next_batch aes) bs cs = Inr cs2 \<and>
    ev_finish aes cs1 = Inr (outm, buf) \<and> ev_finish aes cs2 = Inr (outm, buf)"
proof -
  let ?d = "delta_new v" and ?outs = "[fst (outputs c)..<snd (outputs c)]"
  obtain it G L egs where g: "generate gb c ?d ks = Inr it" "gb_sim aes {0..<snd (inputs c)} it L egs"
      "g_outputs it = outputs c" "feed_count c \<le> length G" "\<And>i. i < length ks \<Longrightarrow> G ! i = ks ! i"
      "garble_ref ?d (gb_and_gate aes ?d) (gates c) 1 G = (L, egs)" "length egs = and_count c" "length L = length G"
    using generate_sim [OF wf len(1)] by metis
  obtain it1 D1 where t: "gb_take aes (Suc (and_count c)) it = Inr (egs, it1)" "gb_sim aes D1 it1 L []" "g_outputs it1 = outputs c"
    using gb_take_ok [OF g(2), of "Suc (and_count c)"] g(3,7) by auto
  obtain bs it2 D2 p where b: "gb_batches aes N (Suc (and_count c)) it = Inr (bs, it2)" "gb_sim aes D2 it2 L []"
      "g_outputs it2 = outputs c" "\<forall>b \<in> set bs. length b = N" "concat bs = egs @ replicate p default_gate" "p < N"
    using gb_batches_ok [OF g(2) N, of "Suc (and_count c)"] g(3,7) by auto
  have fk: "gb_finish aes it1 = Inr (map ((!) L) ?outs)" "gb_finish aes it2 = Inr (map ((!) L) ?outs)"
    using gb_finish_ok [OF t(2)] gb_finish_ok [OF b(2)] t(3) b(3) g(4,8) by (simp_all add: subslice_outputs [OF wf])
  obtain cs E where e: "ev_evaluate ev c ms = Inr cs"
      "ev_sim aes {0..<snd (inputs c)} cs egs (eval_ref (ev_and_gate aes) (gates c) 1 egs E)"
      "e_outputs cs = outputs c" "feed_count c \<le> length E"
      "\<And>i. i < length ms \<Longrightarrow> E ! i = ms ! i"
    using evaluate_sim [OF wf len(2) g(7)] by metis
  let ?E = "eval_ref (ev_and_gate aes) (gates c) 1 egs E"
  obtain cs1 D3 where f1: "foldR (ev_next aes) egs cs = Inr cs1" "ev_sim aes D3 cs1 [] ?E" "e_outputs cs1 = outputs c"
    using ev_feed_ok [OF e(2), of "[]"] e(3) by auto
  obtain cs2 D4 where f2: "foldR (ev_next_batch aes) bs cs = Inr cs2" "ev_sim aes D4 cs2 [] ?E" "e_outputs cs2 = outputs c"
    using ev_feed_batches_ok [OF e(2), of bs] b(5) e(3) by auto
  have fm: "ev_finish aes cs1 = Inr (map ((!) ?E) ?outs, ?E)" "ev_finish aes cs2 = Inr (map ((!) ?E) ?outs, ?E)"
    using ev_finish_ok [OF f1(2)] ev_finish_ok [OF f2(2)] f1(3) f2(3) e(4) by (simp_all add: subslice_outputs [OF wf])
  show ?thesis using g(1) t(1) b(1,4-6) fk e(1) f1(1) f2(1) fm by blast
qed

section \<open>Bulk evaluation\<close>

lemma eval_ref_cong:
  assumes "gates_wf n D gs" "n \<le> length E" "n \<le> length E'" "\<And>i. i \<in> D \<Longrightarrow> E ! i = E' ! i"
    "i \<in> D \<union> gate_z ` set gs"
  shows "eval_ref eand gs gid egs E ! i = eval_ref eand gs gid egs E' ! i"
  using assms
proof (induction gs arbitrary: D E E' gid egs)
  case (Cons g gs)
  have step: "eval_ref eand gs gid' egs' (E[gate_z g := m]) ! i = eval_ref eand gs gid' egs' (E'[gate_z g := m]) ! i"
    for gid' egs' m
  proof (rule Cons.IH)
    show "gates_wf n (insert (gate_z g) D) gs" using Cons.prems(1) by simp
    show "E[gate_z g := m] ! j = E'[gate_z g := m] ! j" if "j \<in> insert (gate_z g) D" for j
      using that Cons.prems by (auto simp: nth_list_update)
  qed (use Cons.prems in auto)
  show ?case using Cons.prems step by (cases g) auto
qed simp

lemma ev_short:
  assumes "ev_sim aes D cs (egs @ fill) L" "fill \<noteq> []"
  shows "\<exists>cs'. foldR (ev_next aes) egs cs = Inr cs' \<and> ev_finish aes cs' = Inl (Err ENotFinished)"
  using assms(1)
proof (induction egs arbitrary: cs D)
  case Nil
  then have "wants_gates cs" using ev_sim_wants_gates assms(2) by fastforce
  then show ?case by (simp add: ev_finish_def)
next
  case (Cons eg egs)
  then obtain c1 D1 where "ev_next aes eg cs = Inr c1" "ev_sim aes D1 c1 (egs @ fill) L"
    using ev_next_ok [of aes D cs "(eg # egs) @ fill" L eg] by auto
  with Cons.IH show ?case by simp
qed

lemma ev_one_short:
  assumes "wf_circuit c" "length ms = snd (inputs c)" "length egs < and_count c"
  shows "ev_one aes ev (c, ms, egs) = Inl (Err ENotFinished)"
proof -
  let ?f = "replicate (and_count c - length egs) default_gate"
  have l: "length (egs @ ?f) = and_count c" "?f \<noteq> []" using assms(3) by auto
  obtain cs D L where e: "ev_evaluate ev c ms = Inr cs" "ev_sim aes D cs (egs @ ?f) L"
    using evaluate_sim [OF assms(1,2) l(1)] by metis
  show ?thesis using ev_short [OF e(2) l(2)] e(1) by (auto simp: ev_one_def)
qed

lemma ev_one_outs:
  assumes wf: "wf_circuit c" and len: "length ms = snd (inputs c)" "and_count c \<le> length egs"
    and E0: "feed_count c \<le> length E0" "\<And>i. i < length ms \<Longrightarrow> E0 ! i = ms ! i"
  shows "\<exists>ev'. ev_one aes ev (c, ms, egs) =
    Inr (map ((!) (eval_ref (ev_and_gate aes) (gates c) 1 (take (and_count c) egs) E0)) [fst (outputs c)..<snd (outputs c)], ev')"
proof -
  note w = wf_circuitD [OF wf]
  let ?g = "take (and_count c) egs" and ?o = "[fst (outputs c)..<snd (outputs c)]"
  let ?r = "eval_ref (ev_and_gate aes) (gates c) 1 ?g"
  have l: "length ?g = and_count c" using len(2) by simp
  obtain cs E where e: "ev_evaluate ev c ms = Inr cs" "ev_sim aes {0..<snd (inputs c)} cs ?g (?r E)"
      "e_outputs cs = outputs c" "feed_count c \<le> length E" "\<And>i. i < length ms \<Longrightarrow> E ! i = ms ! i"
    using evaluate_sim [OF wf len(1) l] by metis
  obtain cs' D' where f: "foldR (ev_next aes) egs cs = Inr cs'" "ev_sim aes D' cs' [] (?r E)" "e_outputs cs' = outputs c"
    using ev_feed_ok [OF e(2), of "drop (and_count c) egs"] e(3) by auto
  have fm: "ev_finish aes cs' = Inr (map ((!) (?r E)) ?o, ?r E)"
    using ev_finish_ok [OF f(2)] f(3) e(4) by (simp add: subslice_outputs [OF wf])
  have "?r E ! i = ?r E0 ! i" if "i \<in> set ?o" for i
    using that w(7) e(5) E0(2) len(1) by (intro eval_ref_cong [OF w(6) e(4) E0(1)]) auto
  then have "map ((!) (?r E)) ?o = map ((!) (?r E0)) ?o" by simp
  then show ?thesis using e(1) f(1) fm by (simp add: ev_one_def)
qed

lemma ev_one_buffer:
  assumes wf: "wf_circuit c"
  shows "map_sum id fst (ev_one aes ev (c, ms, egs)) = map_sum id fst (ev_one aes ev0 (c, ms, egs))"
proof -
  consider (len) "length ms \<noteq> snd (inputs c)"
    | (short) "length ms = snd (inputs c)" "length egs < and_count c"
    | (ok) "length ms = snd (inputs c)" "and_count c \<le> length egs"
    by linarith
  then show ?thesis
  proof cases
    case len
    then show ?thesis using wf_circuitD(2) [OF wf] by (simp add: ev_one_def ev_evaluate_def)
  next
    case short
    then show ?thesis by (simp add: ev_one_short [OF wf])
  next
    case ok
    obtain E0 where E0: "feed_count c \<le> length E0" "\<And>i. i < length ms \<Longrightarrow> E0 ! i = ms ! i"
      using copy_into_start [of ms "feed_count c" "[]"] wf_circuitD(3) [OF wf] ok(1) by auto
    from ev_one_outs [OF wf ok E0, of aes ev] ev_one_outs [OF wf ok E0, of aes ev0] show ?thesis by auto
  qed
qed

lemma evaluate_garbled_circuits_eq:
  assumes "\<forall>(c, ms, egs) \<in> set jobs. wf_circuit c"
  shows "evaluate_garbled_circuits_seq aes ev jobs = evaluate_garbled_circuits_par aes jobs"
  using assms
proof (induction jobs arbitrary: ev)
  case (Cons job jobs)
  obtain c ms egs where j: "job = (c, ms, egs)" by (meson prod_cases3)
  then have wf: "wf_circuit c" using Cons.prems by simp
  have eq: "map_sum id fst (ev_one aes ev job) = map_sum id fst (ev_one aes \<lparr>e_buffer = []\<rparr> job)"
    unfolding j by (rule ev_one_buffer [OF wf])
  have IH: "evaluate_garbled_circuits_seq aes ev' jobs = evaluate_garbled_circuits_par aes jobs" for ev'
    using Cons.IH Cons.prems by simp
  show ?case
    using eq IH by (cases "ev_one aes ev job"; cases "ev_one aes \<lparr>e_buffer = []\<rparr> job")
      (auto simp: evaluate_garbled_circuits_par_def)
qed (simp add: evaluate_garbled_circuits_par_def)

section \<open>Properties of garbling\<close>

definition demo_circuit :: circuit where
  "demo_circuit = \<lparr>inputs = (0, 2), outputs = (2, 4), gates = [Gate_And 0 1 2, Gate_Inv 2 3], feed_count = 4,
     and_count = 1, xor_count = 0\<rparr>"

lemma wf_demo_circuit: "wf_circuit demo_circuit"
  by (auto simp: wf_circuit_def demo_circuit_def)

text \<open>
  Half gates are correct: for any wire labels, whatever the cipher, evaluating the encrypted AND
  gate on the MACs of two bits gives the MAC of their conjunction under the output key.
\<close>

theorem and_gate_correct:
  "gb_and_gate aes (delta_new v) x_0 y_0 gid = (z_0, eg) \<longrightarrow>
     ev_and_gate aes (key_auth x_0 a (delta_new v)) (key_auth y_0 b (delta_new v)) eg gid =
       key_auth z_0 (a \<and> b) (delta_new v)"
  using hg.and_ok [of v x_0 "key_auth x_0 a (delta_new v)" a y_0 "key_auth y_0 b (delta_new v)" b aes gid z_0 eg]
  by (simp add: mac_ok_iff_auth)

theorem and_gate_correct_witness:
  "ev_and_gate id (key_auth 3 True (delta_new 8)) (key_auth 4 True (delta_new 8))
     (snd (gb_and_gate id (delta_new 8) 3 4 1)) 1 = key_auth (fst (gb_and_gate id (delta_new 8) 3 4 1)) True (delta_new 8)"
  using and_gate_correct [of id 8 3 4 1 "fst (gb_and_gate id (delta_new 8) 3 4 1)" "snd (gb_and_gate id (delta_new 8) 3 4 1)" True True]
  by simp

text \<open>
  C1. Garbled evaluation is correct: for every well-formed circuit, all keys and inputs, and whatever
  the label buffers of both parties held before, garbling and evaluating succeed; the garbler emits
  one encrypted gate per AND gate, and the output MACs are those of the plaintext evaluation of the
  circuit, so the pointer bits of output keys and MACs decode it.
\<close>

theorem garble_correct:
  assumes "wf_circuit c" "length ks = snd (inputs c)" "length xs = snd (inputs c)"
  shows "\<exists>it egs it' cs cs' outk outm buf ys.
    generate gb c (delta_new v) ks = Inr it \<and> gb_take aes (Suc (and_count c)) it = Inr (egs, it') \<and>
    gb_finish aes it' = Inr outk \<and>
    ev_evaluate ev c (auth_all (delta_new v) ks xs) = Inr cs \<and> foldR (ev_next aes) egs cs = Inr cs' \<and>
    ev_finish aes cs' = Inr (outm, buf) \<and> evaluate c xs = Inr ys \<and> length egs = and_count c \<and>
    outm = auth_all (delta_new v) outk ys \<and> map2 (\<noteq>) (map key_pointer outk) (map mac_pointer outm) = ys"
proof -
  have "length outk = range_len (outputs c) \<Longrightarrow>
      map2 (\<noteq>) (map key_pointer outk) (map mac_pointer (auth_all (delta_new v) outk (circuit_fun c xs))) = circuit_fun c xs"
    for outk
    by (rule nth_equalityI)
      (auto simp: auth_all_def circuit_fun_def range_len_def key_pointer_def mac_pointer_def key_auth_scale)
  then show ?thesis
    using garble_eval_ok [OF assms, of gb v aes ev] evaluate_ok [OF assms(1), of xs] assms(3) by fastforce
qed

theorem garble_correct_witness:
  "\<exists>it egs it' cs cs' outk outm buf ys.
    generate \<lparr>g_buffer = [7]\<rparr> demo_circuit (delta_new 8) [3, 4] = Inr it \<and>
    gb_take (\<lambda>b. b + 1) (Suc (and_count demo_circuit)) it = Inr (egs, it') \<and>
    gb_finish (\<lambda>b. b + 1) it' = Inr outk \<and>
    ev_evaluate \<lparr>e_buffer = []\<rparr> demo_circuit (auth_all (delta_new 8) [3, 4] [True, False]) = Inr cs \<and>
    foldR (ev_next (\<lambda>b. b + 1)) egs cs = Inr cs' \<and>
    ev_finish (\<lambda>b. b + 1) cs' = Inr (outm, buf) \<and> evaluate demo_circuit [True, False] = Inr ys \<and>
    outm = auth_all (delta_new 8) outk ys"
proof -
  have "length [3, 4 :: block] = snd (inputs demo_circuit)" "length [True, False] = snd (inputs demo_circuit)"
    by (simp_all add: demo_circuit_def)
  from garble_correct [OF wf_demo_circuit this, of "\<lparr>g_buffer = [7]\<rparr>" 8 "\<lambda>b. b + 1" "\<lparr>e_buffer = []\<rparr>"]
  show ?thesis by metis
qed

text \<open>
  C34. Batching is transparent.  For every well-formed circuit, all keys, whatever MACs the evaluator holds (authentic or
  not), and every batch size \<open>N > 0\<close>: the batches the garbler sends are the encrypted gates of the
  stream, in order, followed by fewer than \<open>N\<close> default gates, cut into pieces of exactly \<open>N\<close>; the
  garbler finishes with the same output keys, and the evaluator with the same output MACs and the same label
  buffer, as when the gates are streamed.  On the MACs of input bits these are the MACs of the
  plaintext outputs.
\<close>

theorem garble_batched_correct:
  assumes "wf_circuit c" "length ks = snd (inputs c)" "length ms = snd (inputs c)" "0 < N"
  shows "\<exists>it egs it1 bs it2 p cs cs1 cs2 outk outm buf.
    generate gb c (delta_new v) ks = Inr it \<and>
    gb_take aes (Suc (and_count c)) it = Inr (egs, it1) \<and> gb_batches aes N (Suc (and_count c)) it = Inr (bs, it2) \<and>
    (\<forall>b \<in> set bs. length b = N) \<and> concat bs = egs @ replicate p default_gate \<and> p < N \<and>
    gb_finish aes it1 = Inr outk \<and> gb_finish aes it2 = Inr outk \<and>
    ev_evaluate ev c ms = Inr cs \<and> foldR (ev_next aes) egs cs = Inr cs1 \<and> foldR (ev_next_batch aes) bs cs = Inr cs2 \<and>
    ev_finish aes cs1 = Inr (outm, buf) \<and> ev_finish aes cs2 = Inr (outm, buf) \<and>
    (\<forall>xs. length xs = snd (inputs c) \<and> ms = auth_all (delta_new v) ks xs \<longrightarrow>
       (\<exists>ys. evaluate c xs = Inr ys \<and> outm = auth_all (delta_new v) outk ys))"
proof -
  obtain it egs it1 bs it2 p cs cs1 cs2 outk outm buf where
    r: "generate gb c (delta_new v) ks = Inr it"
      "gb_take aes (Suc (and_count c)) it = Inr (egs, it1)" "gb_batches aes N (Suc (and_count c)) it = Inr (bs, it2)"
      "\<forall>b \<in> set bs. length b = N" "concat bs = egs @ replicate p default_gate" "p < N"
      "gb_finish aes it1 = Inr outk" "gb_finish aes it2 = Inr outk"
      "ev_evaluate ev c ms = Inr cs" "foldR (ev_next aes) egs cs = Inr cs1" "foldR (ev_next_batch aes) bs cs = Inr cs2"
      "ev_finish aes cs1 = Inr (outm, buf)" "ev_finish aes cs2 = Inr (outm, buf)"
    using batched_as_streamed [OF assms, of gb v aes ev] by blast
  have "\<exists>ys. evaluate c xs = Inr ys \<and> outm = auth_all (delta_new v) outk ys"
    if "length xs = snd (inputs c)" "ms = auth_all (delta_new v) ks xs" for xs
    using garble_eval_ok [OF assms(1,2) that(1), of gb v aes ev] evaluate_ok [OF assms(1), of xs] that r(1,2,7,9,10,12) by auto
  with r show ?thesis by blast
qed

text \<open>One gate in a batch of 128, evaluated on the MACs of two bits.\<close>

theorem garble_batched_correct_witness:
  "\<exists>it egs it1 bs it2 p cs cs1 cs2 outk outm buf.
    generate \<lparr>g_buffer = []\<rparr> demo_circuit (delta_new 8) [3, 4] = Inr it \<and>
    gb_take id (Suc (and_count demo_circuit)) it = Inr (egs, it1) \<and> gb_batches id 128 (Suc (and_count demo_circuit)) it = Inr (bs, it2) \<and>
    concat bs = egs @ replicate p default_gate \<and> gb_finish id it2 = Inr outk \<and>
    ev_evaluate \<lparr>e_buffer = []\<rparr> demo_circuit (auth_all (delta_new 8) [3, 4] [True, True]) = Inr cs \<and>
    foldR (ev_next id) egs cs = Inr cs1 \<and> foldR (ev_next_batch id) bs cs = Inr cs2 \<and>
    ev_finish id cs1 = Inr (outm, buf) \<and> ev_finish id cs2 = Inr (outm, buf) \<and> outm = auth_all (delta_new 8) outk [True, False]"
proof -
  have l: "length [3, 4 :: block] = snd (inputs demo_circuit)" "length (auth_all (delta_new 8) [3, 4] [True, True]) = snd (inputs demo_circuit)"
    "(0 :: nat) < 128" "length [True, True] = snd (inputs demo_circuit)"
    by (simp_all add: demo_circuit_def)
  have y: "evaluate demo_circuit [True, True] = Inr [True, False]"
    using evaluate_ok [OF wf_demo_circuit, of "[True, True]"]
    by (simp add: demo_circuit_def circuit_fun_def input_env_def upt_rec)
  from garble_batched_correct [OF wf_demo_circuit l(1-3), of "\<lparr>g_buffer = []\<rparr>" 8 id "\<lparr>e_buffer = []\<rparr>"] l(4)
  show ?thesis using y by fastforce
qed

text \<open>
  Bulk evaluation does not depend on scheduling or on reused buffers: evaluating well-formed
  circuits one after the other with a shared evaluator returns what evaluating each with a new
  evaluator returns, errors (wrong number of inputs, too few gates) included.
\<close>

theorem bulk_evaluation_equiv:
  assumes "\<forall>(c, ms, egs) \<in> set jobs. wf_circuit c"
  shows "evaluate_garbled_circuits_seq aes ev jobs = evaluate_garbled_circuits_par aes jobs"
  using assms by (rule evaluate_garbled_circuits_eq)

theorem bulk_evaluation_equiv_witness:
  "evaluate_garbled_circuits_seq id \<lparr>e_buffer = [1, 2, 3, 4, 5]\<rparr> [(demo_circuit, [3, 4], [(1, 2)]), (demo_circuit, [], [])] =
     evaluate_garbled_circuits_par id [(demo_circuit, [3, 4], [(1, 2)]), (demo_circuit, [], [])]"
  by (rule bulk_evaluation_equiv) (simp add: wf_demo_circuit)

text \<open>
  Missing gates are detected: evaluating a well-formed circuit with fewer encrypted gates than it
  has AND gates returns \<open>NotFinished\<close> and never panics.
\<close>

theorem missing_gates_detected:
  assumes "wf_circuit c" "length ms = snd (inputs c)" "length egs < and_count c"
  shows "ev_one aes ev (c, ms, egs) = Inl (Err ENotFinished)"
  using assms by (rule ev_one_short)

theorem missing_gates_detected_witness:
  "ev_one id \<lparr>e_buffer = []\<rparr> (demo_circuit, [3, 4], []) = Inl (Err ENotFinished)"
  by (rule missing_gates_detected [OF wf_demo_circuit]) (simp_all add: demo_circuit_def)

end
