(* ===== verification/Store.thy ===== *)
theory Store
  imports Prelude
begin

text \<open>
  Linear stores (\<open>memory-core/src/store.rs\<close> and the slices of \<open>memory-core/src/lib.rs\<close>): a vector
  that grows by allocation and a record of which elements are set.  A range set is modelled by the
  set of its elements.  The locale \<open>write_store\<close> is the contract a store offers its clients, a
  partial map from addresses to values; \<open>Store\<close> and \<open>BitStore\<close> are both shown to implement it.
\<close>

section \<open>Slices\<close>

record slice =
  ptr :: nat
  ssize :: nat

definition new_unchecked :: "nat \<Rightarrow> nat \<Rightarrow> slice" where
  "new_unchecked p n = \<lparr>ptr = p, ssize = n\<rparr>"

definition from_range_unchecked :: "nat \<times> nat \<Rightarrow> slice" where
  "from_range_unchecked r = \<lparr>ptr = fst r, ssize = snd r - fst r\<rparr>"

definition slice_end :: "slice \<Rightarrow> nat" where
  "slice_end s = ptr s + ssize s"

definition to_range :: "slice \<Rightarrow> nat set" where
  "to_range s = {ptr s..<ptr s + ssize s}"

definition split_at :: "slice \<Rightarrow> nat \<Rightarrow> ('e, slice \<times> slice) result" where
  "split_at s mid =
     bindR (assertR (mid \<le> ssize s)) (\<lambda>_.
       Inr (\<lparr>ptr = ptr s, ssize = mid\<rparr>, \<lparr>ptr = ptr s + mid, ssize = ssize s - mid\<rparr>))"

definition to_rangeset :: "slice list \<Rightarrow> nat set" where
  "to_rangeset ss = \<Union> (set (map to_range ss))"

lemma slice_simps [simp]:
  "ptr (new_unchecked p n) = p" "ssize (new_unchecked p n) = n"
  "ptr (from_range_unchecked r) = fst r" "ssize (from_range_unchecked r) = snd r - fst r"
  by (simp_all add: new_unchecked_def from_range_unchecked_def)

text \<open>A vector indexed by a slice.\<close>

definition index_slice :: "'a list \<Rightarrow> slice \<Rightarrow> ('e, 'a list) result" where
  "index_slice xs s = subslice xs (ptr s) (slice_end s)"

section \<open>Stores of values\<close>

datatype store_error = InvalidSlice slice | Uninit slice | AlreadySet slice

record 'a store =
  items :: "'a list"
  set_of :: "nat set"

definition store_new :: "'a store" where
  "store_new = \<lparr>items = [], set_of = {}\<rparr>"

definition store_len :: "'a store \<Rightarrow> nat" where
  "store_len s = length (items s)"

definition is_set :: "'a store \<Rightarrow> slice \<Rightarrow> bool" where
  "is_set s sl \<longleftrightarrow> to_range sl \<subseteq> set_of s"

definition try_get :: "'a store \<Rightarrow> slice \<Rightarrow> (store_error, 'a list) result" where
  "try_get s sl = (if to_range sl \<subseteq> set_of s then index_slice (items s) sl else Inl (Err (Uninit sl)))"

text \<open>
  \<open>try_get_slice_mut\<close> hands out a mutable slice; \<open>f\<close> is what the caller writes through it.
\<close>

definition try_get_slice_mut :: "'a store \<Rightarrow> slice \<Rightarrow> ('a list \<Rightarrow> 'a list) \<Rightarrow> (store_error, 'a store) result" where
  "try_get_slice_mut s sl f =
     (if to_range sl \<subseteq> set_of s then
        bindR (index_slice (items s) sl) (\<lambda>xs.
        bindR (copy_into (items s) (ptr sl) (slice_end sl) (f xs)) (\<lambda>ys. Inr (s\<lparr>items := ys\<rparr>)))
      else Inl (Err (Uninit sl)))"

definition store_alloc :: "'a \<Rightarrow> 'a store \<Rightarrow> nat \<Rightarrow> slice \<times> 'a store" where
  "store_alloc dflt s len =
     (let sl = new_unchecked (length (items s)) len
      in (sl, s\<lparr>items := items s @ replicate len dflt\<rparr>))"

definition store_alloc_with :: "'a store \<Rightarrow> 'a list \<Rightarrow> slice \<times> 'a store" where
  "store_alloc_with s xs =
     (let sl = new_unchecked (length (items s)) (length xs);
          s = s\<lparr>items := items s @ xs\<rparr>
      in (sl, s\<lparr>set_of := set_of s \<union> to_range sl\<rparr>))"

definition try_set :: "'a store \<Rightarrow> slice \<Rightarrow> 'a list \<Rightarrow> (store_error, 'a store) result" where
  "try_set s sl xs =
     (if to_range sl \<subseteq> set_of s then Inl (Err (AlreadySet sl))
      else if slice_end sl > length (items s) then Inl (Err (InvalidSlice sl))
      else
        let s = s\<lparr>set_of := set_of s \<union> to_range sl\<rparr>
        in bindR (copy_into (items s) (ptr sl) (slice_end sl) xs) (\<lambda>ys. Inr (s\<lparr>items := ys\<rparr>)))"

section \<open>Stores of bits\<close>

record bit_store =
  bits :: "bool list"
  bset :: "nat set"

definition bit_store_new :: bit_store where
  "bit_store_new = \<lparr>bits = [], bset = {}\<rparr>"

definition bits_is_set :: "bit_store \<Rightarrow> slice \<Rightarrow> bool" where
  "bits_is_set s sl \<longleftrightarrow> to_range sl \<subseteq> bset s"

definition bits_get :: "bit_store \<Rightarrow> slice \<Rightarrow> ('e, bool list option) result" where
  "bits_get s sl =
     (if to_range sl \<subseteq> bset s then bindR (index_slice (bits s) sl) (\<lambda>xs. Inr (Some xs)) else Inr None)"

definition bits_try_get :: "bit_store \<Rightarrow> slice \<Rightarrow> (store_error, bool list) result" where
  "bits_try_get s sl = (if to_range sl \<subseteq> bset s then index_slice (bits s) sl else Inl (Err (Uninit sl)))"

definition bits_try_get_mut :: "bit_store \<Rightarrow> slice \<Rightarrow> (bool list \<Rightarrow> bool list) \<Rightarrow> (store_error, bit_store) result" where
  "bits_try_get_mut s sl f =
     (if to_range sl \<subseteq> bset s then
        bindR (index_slice (bits s) sl) (\<lambda>xs.
        bindR (copy_into (bits s) (ptr sl) (slice_end sl) (f xs)) (\<lambda>ys. Inr (s\<lparr>bits := ys\<rparr>)))
      else Inl (Err (Uninit sl)))"

definition bits_alloc :: "bit_store \<Rightarrow> nat \<Rightarrow> slice \<times> bit_store" where
  "bits_alloc s len =
     (let sl = new_unchecked (length (bits s)) len
      in (sl, s\<lparr>bits := bits s @ replicate len False\<rparr>))"

definition bits_alloc_with :: "bit_store \<Rightarrow> bool list \<Rightarrow> slice \<times> bit_store" where
  "bits_alloc_with s xs =
     (let sl = new_unchecked (length (bits s)) (length xs);
          s = s\<lparr>bits := bits s @ xs\<rparr>
      in (sl, s\<lparr>bset := bset s \<union> to_range sl\<rparr>))"

definition bits_try_set :: "bit_store \<Rightarrow> slice \<Rightarrow> bool list \<Rightarrow> (store_error, bit_store) result" where
  "bits_try_set s sl xs =
     (if to_range sl \<subseteq> bset s then Inl (Err (AlreadySet sl))
      else if slice_end sl > length (bits s) then Inl (Err (InvalidSlice sl))
      else
        let s = s\<lparr>bset := bset s \<union> to_range sl\<rparr>
        in bindR (copy_into (bits s) (ptr sl) (slice_end sl) xs) (\<lambda>ys. Inr (s\<lparr>bits := ys\<rparr>)))"

section \<open>The contract: a partial map\<close>

definition put_at :: "(nat \<Rightarrow> 'a option) \<Rightarrow> slice \<Rightarrow> 'a list \<Rightarrow> nat \<Rightarrow> 'a option" where
  "put_at m sl xs i = (if i \<in> to_range sl then Some (xs ! (i - ptr sl)) else m i)"

definition read_at :: "(nat \<Rightarrow> 'a option) \<Rightarrow> slice \<Rightarrow> 'a list" where
  "read_at m sl = map (\<lambda>i. the (m i)) [ptr sl..<ptr sl + ssize sl]"

lemma length_read_at [simp]: "length (read_at m sl) = ssize sl"
  by (simp add: read_at_def)

lemma dom_put_at [simp]: "dom (put_at m sl xs) = to_range sl \<union> dom m"
  by (auto simp: put_at_def split: if_splits)

lemma read_put_same: "length xs = ssize sl \<Longrightarrow> read_at (put_at m sl xs) sl = xs"
  by (rule nth_equalityI) (simp_all add: read_at_def put_at_def to_range_def)

lemma read_put_other: "to_range sl \<inter> to_range sl' = {} \<Longrightarrow> read_at (put_at m sl xs) sl' = read_at m sl'"
  by (auto simp: read_at_def put_at_def to_range_def)

locale write_store =
  fixes inv :: "'s \<Rightarrow> bool"
    and len :: "'s \<Rightarrow> nat"
    and abs :: "'s \<Rightarrow> nat \<Rightarrow> 'a option"
    and alloc :: "'s \<Rightarrow> nat \<Rightarrow> slice \<times> 's"
    and alloc_with :: "'s \<Rightarrow> 'a list \<Rightarrow> slice \<times> 's"
    and get :: "'s \<Rightarrow> slice \<Rightarrow> (store_error, 'a list) result"
    and put :: "'s \<Rightarrow> slice \<Rightarrow> 'a list \<Rightarrow> (store_error, 's) result"
  assumes abs_dom: "inv s \<Longrightarrow> dom (abs s) \<subseteq> {0..<len s}"
    and alloc_ok: "inv s \<Longrightarrow> alloc s n = (sl, s') \<Longrightarrow>
      inv s' \<and> len s' = len s + n \<and> abs s' = abs s \<and> sl = new_unchecked (len s) n"
    and alloc_with_ok: "inv s \<Longrightarrow> alloc_with s xs = (sl, s') \<Longrightarrow>
      inv s' \<and> len s' = len s + length xs \<and> abs s' = put_at (abs s) sl xs \<and>
      sl = new_unchecked (len s) (length xs)"
    and get_ok: "inv s \<Longrightarrow> to_range sl \<subseteq> dom (abs s) \<Longrightarrow> 0 < ssize sl \<Longrightarrow> get s sl = Inr (read_at (abs s) sl)"
    and get_uninit: "\<not> to_range sl \<subseteq> dom (abs s) \<Longrightarrow> get s sl = Inl (Err (Uninit sl))"
    and put_already: "to_range sl \<subseteq> dom (abs s) \<Longrightarrow> put s sl xs = Inl (Err (AlreadySet sl))"
    and put_invalid: "\<not> to_range sl \<subseteq> dom (abs s) \<Longrightarrow> len s < slice_end sl \<Longrightarrow>
      put s sl xs = Inl (Err (InvalidSlice sl))"
    and put_ok: "inv s \<Longrightarrow> \<not> to_range sl \<subseteq> dom (abs s) \<Longrightarrow> slice_end sl \<le> len s \<Longrightarrow>
      length xs = ssize sl \<Longrightarrow>
      \<exists>s'. put s sl xs = Inr s' \<and> inv s' \<and> len s' = len s \<and> abs s' = put_at (abs s) sl xs"
begin

lemma alloc_fresh:
  assumes "inv s" "alloc s n = (sl, s')"
  shows "to_range sl \<inter> dom (abs s') = {}"
  using alloc_ok [OF assms] abs_dom [OF assms(1)] by (auto simp: to_range_def)

lemma put_get:
  assumes "inv s" "put s sl xs = Inr s'" "length xs = ssize sl"
  shows "inv s' \<and> get s' sl = Inr xs \<and> (\<forall>ys. put s' sl ys = Inl (Err (AlreadySet sl)))"
proof -
  have n: "\<not> to_range sl \<subseteq> dom (abs s)" "slice_end sl \<le> len s"
    using assms(2) put_already [of sl s xs] put_invalid [of sl s xs] by fastforce+
  then have s': "inv s'" "abs s' = put_at (abs s) sl xs"
    using put_ok [OF assms(1) n assms(3)] assms(2) by auto
  have "0 < ssize sl" using n(1) by (auto simp: to_range_def)
  with s' assms(3) show ?thesis by (simp add: get_ok put_already read_put_same)
qed

lemma alloc_put_get:
  assumes "inv s" "alloc s (length xs) = (sl, s')" "xs \<noteq> []"
  shows "get s' sl = Inl (Err (Uninit sl)) \<and> (\<exists>s''. put s' sl xs = Inr s'' \<and> inv s'' \<and> get s'' sl = Inr xs)"
proof -
  have a: "inv s'" "len s' = len s + length xs" "sl = new_unchecked (len s) (length xs)"
    using alloc_ok [OF assms(1,2)] by blast+
  have r: "\<not> to_range sl \<subseteq> dom (abs s')"
  proof
    assume "to_range sl \<subseteq> dom (abs s')"
    moreover have "len s \<in> to_range sl" using a(3) assms(3) by (simp add: to_range_def)
    ultimately show False using alloc_fresh [OF assms(1,2)] by blast
  qed
  have l: "slice_end sl \<le> len s'" "length xs = ssize sl" using a by (simp_all add: slice_end_def)
  obtain s'' where p: "put s' sl xs = Inr s''"
    using put_ok [OF a(1) r l] by blast
  show ?thesis using put_get [OF a(1) p l(2)] p get_uninit [OF r] by blast
qed

lemma get_stable_put:
  assumes "inv s" "get s sl = Inr ys" "0 < ssize sl" "put s sl' xs = Inr s'" "length xs = ssize sl'"
    "to_range sl \<inter> to_range sl' = {}"
  shows "get s' sl = Inr ys"
proof -
  have d: "to_range sl \<subseteq> dom (abs s)" using assms(2) get_uninit [of sl s] by fastforce
  have n: "\<not> to_range sl' \<subseteq> dom (abs s)" "slice_end sl' \<le> len s"
    using assms(4) put_already [of sl' s xs] put_invalid [of sl' s xs] by fastforce+
  have s': "inv s'" "abs s' = put_at (abs s) sl' xs"
    using put_ok [OF assms(1) n assms(5)] assms(4) by auto
  then have "get s' sl = Inr (read_at (put_at (abs s) sl' xs) sl)"
    using d assms(3) get_ok [of s' sl] by auto
  moreover have "ys = read_at (abs s) sl" using get_ok [OF assms(1) d assms(3)] assms(2) by simp
  ultimately show ?thesis using assms(6) by (simp add: read_put_other inf_commute)
qed

end

section \<open>Both stores implement the contract\<close>

definition store_inv :: "'a store \<Rightarrow> bool" where
  "store_inv s \<longleftrightarrow> set_of s \<subseteq> {0..<length (items s)}"

definition store_abs :: "'a store \<Rightarrow> nat \<Rightarrow> 'a option" where
  "store_abs s i = (if i \<in> set_of s then Some (items s ! i) else None)"

definition bits_inv :: "bit_store \<Rightarrow> bool" where
  "bits_inv s \<longleftrightarrow> bset s \<subseteq> {0..<length (bits s)}"

definition bits_abs :: "bit_store \<Rightarrow> nat \<Rightarrow> bool option" where
  "bits_abs s i = (if i \<in> bset s then Some (bits s ! i) else None)"

lemma dom_store_abs [simp]: "dom (store_abs s) = set_of s"
  by (auto simp: store_abs_def split: if_splits)

lemma dom_bits_abs [simp]: "dom (bits_abs s) = bset s"
  by (auto simp: bits_abs_def split: if_splits)

lemma index_slice_ok:
  assumes "to_range sl \<subseteq> S" "S \<subseteq> {0..<length xs}" "0 < ssize sl"
  shows "index_slice xs sl = Inr (read_at (\<lambda>i. if i \<in> S then Some (xs ! i) else None) sl)"
proof -
  have "ptr sl + ssize sl - 1 \<in> to_range sl" using assms(3) by (auto simp: to_range_def)
  with assms have e: "ptr sl + ssize sl \<le> length xs" by fastforce
  have inS: "ptr sl + i \<in> S" if "i < ssize sl" for i
    using assms(1) that by (auto simp: to_range_def)
  have "take (ssize sl) (drop (ptr sl) xs) = read_at (\<lambda>i. if i \<in> S then Some (xs ! i) else None) sl"
    using e by (intro nth_equalityI) (simp_all add: read_at_def inS)
  with e show ?thesis by (simp add: index_slice_def subslice_def slice_end_def)
qed

lemma copy_into_slice:
  assumes "slice_end sl \<le> length xs" "length ys = ssize sl"
  shows "\<exists>zs. copy_into xs (ptr sl) (slice_end sl) ys = Inr zs \<and> length zs = length xs \<and>
    (\<forall>i < length xs. zs ! i = (if i \<in> to_range sl then ys ! (i - ptr sl) else xs ! i))"
  using assms by (auto simp: copy_into_def slice_end_def to_range_def nth_append)

lemma try_set_ok:
  assumes "store_inv s" "\<not> to_range sl \<subseteq> dom (store_abs s)" "slice_end sl \<le> store_len s" "length xs = ssize sl"
  shows "\<exists>s'. try_set s sl xs = Inr s' \<and> store_inv s' \<and> store_len s' = store_len s \<and>
    store_abs s' = put_at (store_abs s) sl xs"
proof -
  obtain zs where z: "copy_into (items s) (ptr sl) (slice_end sl) xs = (Inr zs :: (store_error, _) result)"
      "length zs = length (items s)"
      "\<And>i. i < length (items s) \<Longrightarrow> zs ! i = (if i \<in> to_range sl then xs ! (i - ptr sl) else items s ! i)"
    using copy_into_slice [OF assms(3,4) [unfolded store_len_def]] by blast
  let ?s = "s\<lparr>set_of := set_of s \<union> to_range sl, items := zs\<rparr>"
  have sub: "to_range sl \<subseteq> {0..<length (items s)}" using assms(3) by (auto simp: to_range_def slice_end_def store_len_def)
  have "store_abs ?s i = put_at (store_abs s) sl xs i" for i
    using sub assms(1) z(3) [of i] by (auto simp: store_abs_def put_at_def store_inv_def)
  moreover have "try_set s sl xs = Inr ?s" using assms z(1) by (simp add: try_set_def store_len_def)
  ultimately show ?thesis using assms(1) sub z(2) by (auto simp: store_inv_def store_len_def)
qed

lemma bits_try_set_ok:
  assumes "bits_inv s" "\<not> to_range sl \<subseteq> dom (bits_abs s)" "slice_end sl \<le> length (bits s)" "length xs = ssize sl"
  shows "\<exists>s'. bits_try_set s sl xs = Inr s' \<and> bits_inv s' \<and> length (bits s') = length (bits s) \<and>
    bits_abs s' = put_at (bits_abs s) sl xs"
proof -
  obtain zs where z: "copy_into (bits s) (ptr sl) (slice_end sl) xs = (Inr zs :: (store_error, _) result)"
      "length zs = length (bits s)"
      "\<And>i. i < length (bits s) \<Longrightarrow> zs ! i = (if i \<in> to_range sl then xs ! (i - ptr sl) else bits s ! i)"
    using copy_into_slice [OF assms(3,4)] by blast
  let ?s = "s\<lparr>bset := bset s \<union> to_range sl, bits := zs\<rparr>"
  have sub: "to_range sl \<subseteq> {0..<length (bits s)}" using assms(3) by (auto simp: to_range_def slice_end_def)
  have "bits_abs ?s i = put_at (bits_abs s) sl xs i" for i
    using sub assms(1) z(3) [of i] by (auto simp: bits_abs_def put_at_def bits_inv_def)
  moreover have "bits_try_set s sl xs = Inr ?s" using assms z(1) by (simp add: bits_try_set_def)
  ultimately show ?thesis using assms(1) sub z(2) by (auto simp: bits_inv_def)
qed

lemma store_alloc_ok:
  assumes "store_inv s" "store_alloc d s n = (sl, s')"
  shows "store_inv s' \<and> store_len s' = store_len s + n \<and> store_abs s' = store_abs s \<and>
    sl = new_unchecked (store_len s) n"
  using assms
  by (auto simp: store_alloc_def store_inv_def store_len_def store_abs_def Let_def nth_append
      intro!: ext dest: subsetD)

lemma store_alloc_with_ok:
  assumes "store_inv s" "store_alloc_with s xs = (sl, s')"
  shows "store_inv s' \<and> store_len s' = store_len s + length xs \<and> store_abs s' = put_at (store_abs s) sl xs \<and>
    sl = new_unchecked (store_len s) (length xs)"
  using assms
  by (auto simp: store_alloc_with_def store_inv_def store_len_def store_abs_def Let_def nth_append put_at_def
      to_range_def intro!: ext dest: subsetD)

lemma bits_alloc_ok:
  assumes "bits_inv s" "bits_alloc s n = (sl, s')"
  shows "bits_inv s' \<and> length (bits s') = length (bits s) + n \<and> bits_abs s' = bits_abs s \<and>
    sl = new_unchecked (length (bits s)) n"
  using assms
  by (auto simp: bits_alloc_def bits_inv_def bits_abs_def Let_def nth_append intro!: ext dest: subsetD)

lemma bits_alloc_with_ok:
  assumes "bits_inv s" "bits_alloc_with s xs = (sl, s')"
  shows "bits_inv s' \<and> length (bits s') = length (bits s) + length xs \<and>
    bits_abs s' = put_at (bits_abs s) sl xs \<and> sl = new_unchecked (length (bits s)) (length xs)"
  using assms
  by (auto simp: bits_alloc_with_def bits_inv_def bits_abs_def Let_def nth_append put_at_def
      to_range_def intro!: ext dest: subsetD)

lemma try_get_ok:
  assumes "store_inv s" "to_range sl \<subseteq> dom (store_abs s)" "0 < ssize sl"
  shows "try_get s sl = Inr (read_at (store_abs s) sl)"
  using assms index_slice_ok [of sl "set_of s" "items s"] unfolding dom_store_abs
  by (simp add: try_get_def store_inv_def store_abs_def [abs_def])

lemma bits_try_get_ok:
  assumes "bits_inv s" "to_range sl \<subseteq> dom (bits_abs s)" "0 < ssize sl"
  shows "bits_try_get s sl = Inr (read_at (bits_abs s) sl)"
  using assms index_slice_ok [of sl "bset s" "bits s"] unfolding dom_bits_abs
  by (simp add: bits_try_get_def bits_inv_def bits_abs_def [abs_def])

lemma store_errors:
  "store_inv s \<Longrightarrow> dom (store_abs s) \<subseteq> {0..<store_len s}"
  "\<not> to_range sl \<subseteq> dom (store_abs s) \<Longrightarrow> try_get s sl = Inl (Err (Uninit sl))"
  "to_range sl \<subseteq> dom (store_abs s) \<Longrightarrow> try_set s sl xs = Inl (Err (AlreadySet sl))"
  "\<not> to_range sl \<subseteq> dom (store_abs s) \<Longrightarrow> store_len s < slice_end sl \<Longrightarrow>
     try_set s sl xs = Inl (Err (InvalidSlice sl))"
  by (simp_all add: store_inv_def store_len_def try_get_def try_set_def)

lemma bits_errors:
  "bits_inv s \<Longrightarrow> dom (bits_abs s) \<subseteq> {0..<length (bits s)}"
  "\<not> to_range sl \<subseteq> dom (bits_abs s) \<Longrightarrow> bits_try_get s sl = Inl (Err (Uninit sl))"
  "to_range sl \<subseteq> dom (bits_abs s) \<Longrightarrow> bits_try_set s sl bs = Inl (Err (AlreadySet sl))"
  "\<not> to_range sl \<subseteq> dom (bits_abs s) \<Longrightarrow> length (bits s) < slice_end sl \<Longrightarrow>
     bits_try_set s sl bs = Inl (Err (InvalidSlice sl))"
  by (simp_all add: bits_inv_def bits_try_get_def bits_try_set_def)

interpretation vstore: write_store store_inv store_len store_abs "store_alloc d" store_alloc_with try_get try_set
  by unfold_locales
    (fact store_errors store_alloc_ok store_alloc_with_ok try_get_ok try_set_ok)+

interpretation bstore: write_store bits_inv "\<lambda>s. length (bits s)" bits_abs bits_alloc bits_alloc_with
  bits_try_get bits_try_set
  by unfold_locales
    (fact bits_errors bits_alloc_ok bits_alloc_with_ok bits_try_get_ok bits_try_set_ok)+

section \<open>Properties of the stores\<close>

text \<open>
  A store is write-once per slice: once \<open>try_set\<close> has stored values, \<open>try_get\<close> returns exactly
  them and any further \<open>try_set\<close> of the slice is refused with \<open>AlreadySet\<close>; the invariant holds
  afterwards.
\<close>

theorem store_set_get:
  assumes "store_inv s" "try_set s sl xs = Inr s'" "length xs = ssize sl"
  shows "store_inv s' \<and> try_get s' sl = Inr xs \<and> (\<forall>ys. try_set s' sl ys = Inl (Err (AlreadySet sl)))"
  using assms by (rule vstore.put_get)

theorem store_set_get_witness:
  "store_inv (snd (store_alloc (0 :: nat) store_new 2)) \<and>
   (\<exists>s'. try_set (snd (store_alloc 0 store_new 2)) \<lparr>ptr = 0, ssize = 2\<rparr> [7, 9 :: nat] = Inr s' \<and>
      try_get s' \<lparr>ptr = 0, ssize = 2\<rparr> = Inr [7, 9])"
proof -
  let ?s = "snd (store_alloc (0 :: nat) store_new 2)" and ?sl = "\<lparr>ptr = 0, ssize = 2\<rparr>"
  have i: "store_inv ?s" by (simp add: store_inv_def store_alloc_def store_new_def Let_def)
  have "try_set ?s ?sl [7, 9] = Inr \<lparr>items = [7, 9], set_of = {0..<2}\<rparr>"
    by (simp add: try_set_def store_alloc_def store_new_def Let_def copy_into_def slice_end_def to_range_def numeral_2_eq_2)
  with store_set_get [OF i this] i show ?thesis by simp
qed

text \<open>
  Allocation hands out a slice that is not yet readable (\<open>Uninit\<close>), in a bit store as in a value
  store; setting it once succeeds and makes it readable.
\<close>

theorem bit_store_alloc_set_get:
  assumes "bits_inv s" "bits_alloc s (length xs) = (sl, s')" "xs \<noteq> []"
  shows "bits_try_get s' sl = Inl (Err (Uninit sl)) \<and>
    (\<exists>s''. bits_try_set s' sl xs = Inr s'' \<and> bits_inv s'' \<and> bits_try_get s'' sl = Inr xs)"
  using assms by (rule bstore.alloc_put_get)

theorem bit_store_alloc_set_get_witness:
  "bits_try_get (snd (bits_alloc bit_store_new 2)) \<lparr>ptr = 0, ssize = 2\<rparr> = Inl (Err (Uninit \<lparr>ptr = 0, ssize = 2\<rparr>)) \<and>
   (\<exists>s''. bits_try_set (snd (bits_alloc bit_store_new 2)) \<lparr>ptr = 0, ssize = 2\<rparr> [True, False] = Inr s'')"
proof -
  have "bits_inv bit_store_new" by (simp add: bits_inv_def bit_store_new_def)
  moreover have "bits_alloc bit_store_new (length [True, False]) =
      (\<lparr>ptr = 0, ssize = 2\<rparr>, snd (bits_alloc bit_store_new 2))"
    by (simp add: bits_alloc_def bit_store_new_def new_unchecked_def Let_def numeral_2_eq_2)
  ultimately show ?thesis using bit_store_alloc_set_get [of bit_store_new "[True, False]"] by blast
qed

text \<open>
  The test for \<open>AlreadySet\<close> is on the whole slice: a slice of which only some elements are set
  is accepted and the values already there are replaced.
\<close>

theorem try_set_partial_overwrite:
  assumes "store_inv s" "length xs = ssize sl" "slice_end sl \<le> store_len s"
    "i \<in> to_range sl \<inter> set_of s" "\<not> to_range sl \<subseteq> set_of s"
  shows "\<exists>s'. try_set s sl xs = Inr s' \<and> store_abs s' i = Some (xs ! (i - ptr sl))"
  using try_set_ok [of s sl xs] assms by (auto simp: put_at_def)

theorem try_set_partial_overwrite_witness:
  "\<exists>s'. try_set \<lparr>items = [5, 0 :: nat], set_of = {0}\<rparr> \<lparr>ptr = 0, ssize = 2\<rparr> [7, 9] = Inr s' \<and>
     store_abs s' 0 = Some 7"
  using try_set_partial_overwrite [of "\<lparr>items = [5, 0 :: nat], set_of = {0}\<rparr>" "[7, 9]" "\<lparr>ptr = 0, ssize = 2\<rparr>" 0]
  by (simp add: store_inv_def slice_end_def store_len_def to_range_def atLeast0_lessThan_Suc numeral_2_eq_2)

end
