(* ===== verification/MacStores.thy ===== *)
theory MacStores
  imports Correlated Store
begin

text \<open>
  The two ends of the correlated memory: \<open>KeyStore\<close> (\<open>correlated/keys.rs\<close>) of the sender and
  \<open>MacStore\<close> (\<open>correlated/macs.rs\<close>) of the receiver.  The relation \<open>M = k + x \<Delta>\<close> is shown to be
  set up and kept by the paired operations, proofs of MACs to verify, and keys to be handed out
  at most once.  A range set that is iterated is given by the list of its ranges.
\<close>

section \<open>The key store\<close>

datatype key_store_error =
    KInvalidSlice slice | KUninit slice | KAlreadySet slice | KAlreadyAssigned slice | KVerify

fun key_error :: "store_error \<Rightarrow> key_store_error" where
  "key_error (InvalidSlice s) = KInvalidSlice s"
| "key_error (Uninit s) = KUninit s"
| "key_error (AlreadySet s) = KAlreadySet s"

record key_store =
  ks_keys :: "key store"
  ks_delta :: delta
  public_one :: key
  used :: "nat set"

definition key_store_new :: "delta \<Rightarrow> key_store" where
  "key_store_new d =
     (let public_one = MAC_ONE XOR d; public_one = set_lsb public_one False
      in \<lparr>ks_keys = store_new, ks_delta = d, public_one = public_one, used = {}\<rparr>)"

definition ks_is_set :: "key_store \<Rightarrow> slice \<Rightarrow> bool" where
  "ks_is_set s sl = is_set (ks_keys s) sl"

definition ks_is_used :: "key_store \<Rightarrow> slice \<Rightarrow> bool" where
  "ks_is_used s sl \<longleftrightarrow> to_range sl \<inter> used s \<noteq> {}"

definition ks_alloc :: "key_store \<Rightarrow> nat \<Rightarrow> slice \<times> key_store" where
  "ks_alloc s len = (let (sl, st) = store_alloc 0 (ks_keys s) len in (sl, s\<lparr>ks_keys := st\<rparr>))"

definition ks_alloc_with :: "key_store \<Rightarrow> key list \<Rightarrow> slice \<times> key_store" where
  "ks_alloc_with s ks = (let (sl, st) = store_alloc_with (ks_keys s) ks in (sl, s\<lparr>ks_keys := st\<rparr>))"

definition ks_try_get :: "key_store \<Rightarrow> slice \<Rightarrow> (key_store_error, key list) result" where
  "ks_try_get s sl = map_err key_error (try_get (ks_keys s) sl)"

definition ks_try_set :: "key_store \<Rightarrow> slice \<Rightarrow> key list \<Rightarrow> (key_store_error, key_store) result" where
  "ks_try_set s sl ks =
     bindR (map_err key_error (try_set (ks_keys s) sl ks)) (\<lambda>st. Inr (s\<lparr>ks_keys := st\<rparr>))"

definition ks_try_set_public :: "key_store \<Rightarrow> slice \<Rightarrow> bool list \<Rightarrow> (key_store_error, key_store) result" where
  "ks_try_set_public s sl data =
     (let ks = map (\<lambda>b. if b then public_one s else MAC_ZERO) data
      in bindR (map_err key_error (try_set (ks_keys s) sl ks)) (\<lambda>st. Inr (s\<lparr>ks_keys := st\<rparr>)))"

definition ks_try_get_bits :: "key_store \<Rightarrow> slice \<Rightarrow> (key_store_error, bool list) result" where
  "ks_try_get_bits s sl =
     bindR (map_err key_error (try_get (ks_keys s) sl)) (\<lambda>ks. Inr (map key_pointer ks))"

definition ks_commit :: "hasher \<Rightarrow> key_store \<Rightarrow> slice \<Rightarrow> (key_store_error, mac_commitment list) result" where
  "ks_commit hash s sl =
     (let start_id = ptr sl
      in bindR (map_err key_error (try_get (ks_keys s) sl)) (\<lambda>ks.
         Inr (map (\<lambda>(i, k). key_commit hash k (of_nat (start_id + i)) (ks_delta s)) (enumerate 0 ks))))"

text \<open>\<open>authenticate\<close> returns an iterator; it is modelled by the list it yields.\<close>

definition authenticate :: "key_store \<Rightarrow> slice \<Rightarrow> bool list \<Rightarrow> (key_store_error, mac list \<times> key_store) result" where
  "authenticate s sl data =
     bindR (assertR (ssize sl = length data)) (\<lambda>_.
       if ks_is_used s sl then Inl (Err (KAlreadyAssigned sl))
       else if \<not> is_set (ks_keys s) sl then Inl (Err (KUninit sl))
       else let s = s\<lparr>used := used s \<union> to_range sl\<rparr>
            in (case try_get (ks_keys s) sl of
                  Inl _ \<Rightarrow> Inl Panic
                | Inr ks \<Rightarrow> Inr (map2 (\<lambda>b k. key_auth k b (ks_delta s)) data ks, s)))"

definition oblivious_transfer :: "key_store \<Rightarrow> slice \<Rightarrow> (key_store_error, key list \<times> key_store) result" where
  "oblivious_transfer s sl =
     (if ks_is_used s sl then Inl (Err (KAlreadyAssigned sl))
      else if \<not> is_set (ks_keys s) sl then Inl (Err (KUninit sl))
      else (case try_get (ks_keys s) sl of
              Inl _ \<Rightarrow> Inl Panic
            | Inr ks \<Rightarrow> Inr (ks, s\<lparr>used := used s \<union> to_range sl\<rparr>)))"

definition ks_adjust :: "key_store \<Rightarrow> slice \<Rightarrow> bool list \<Rightarrow> (key_store_error, key_store) result" where
  "ks_adjust s sl adjust =
     bindR (assertR (ssize sl = length adjust)) (\<lambda>_.
     bindR (map_err key_error (try_get_slice_mut (ks_keys s) sl
              (\<lambda>ks. map2 (\<lambda>k a. key_adjust k a (ks_delta s)) ks adjust))) (\<lambda>st.
       Inr (s\<lparr>ks_keys := st\<rparr>)))"

definition ranges_len :: "(nat \<times> nat) list \<Rightarrow> nat" where
  "ranges_len rs = sum_list (map (\<lambda>r. snd r - fst r) rs)"

text \<open>The loop of \<open>verify\<close> over the ranges: the data bits and the bytes fed to the hasher.\<close>

fun verify_loop ::
  "key_store \<Rightarrow> bool list \<Rightarrow> nat \<Rightarrow> (nat \<times> nat) list \<Rightarrow> (key_store_error, bool list \<times> byte list) result" where
  "verify_loop s bts ix [] = Inr ([], [])"
| "verify_loop s bts ix (rng # ranges) =
     (let sl = from_range_unchecked rng
      in bindR (map_err key_error (try_get (ks_keys s) sl)) (\<lambda>ks.
         bindR (subslice bts ix (ix + ssize sl)) (\<lambda>mac_bits.
           let values = map2 (\<lambda>k b. key_pointer k \<noteq> b) ks mac_bits;
               macs = map2 (\<lambda>k v. key_auth k v (ks_delta s)) ks values
           in bindR (verify_loop s bts (ix + ssize sl) ranges) (\<lambda>(data, bytes).
                Inr (values @ data, concat (map to_le_bytes macs) @ bytes)))))"

definition verify ::
  "hasher \<Rightarrow> key_store \<Rightarrow> (nat \<times> nat) list \<Rightarrow> bool list \<Rightarrow> 256 word \<Rightarrow> (key_store_error, bool list) result" where
  "verify hash s ranges bts prf =
     bindR (assertR (ranges_len ranges = length bts)) (\<lambda>_.
       if ranges = [] then Inr bts
       else bindR (verify_loop s bts 0 ranges) (\<lambda>(data, bytes).
         if hash bytes \<noteq> prf then Inl (Err KVerify) else Inr data))"

section \<open>The MAC store\<close>

datatype mac_store_error =
    MInvalidSlice slice | MUninit slice | MAlreadySet slice | MAlreadyAssigned slice | MVerify

fun mac_error :: "store_error \<Rightarrow> mac_store_error" where
  "mac_error (InvalidSlice s) = MInvalidSlice s"
| "mac_error (Uninit s) = MUninit s"
| "mac_error (AlreadySet s) = MAlreadySet s"

record mac_store =
  ms_macs :: "mac store"

definition mac_store_new :: mac_store where
  "mac_store_new = \<lparr>ms_macs = store_new\<rparr>"

definition ms_is_set :: "mac_store \<Rightarrow> slice \<Rightarrow> bool" where
  "ms_is_set s sl = is_set (ms_macs s) sl"

definition ms_alloc :: "mac_store \<Rightarrow> nat \<Rightarrow> slice \<times> mac_store" where
  "ms_alloc s len = (let (sl, st) = store_alloc 0 (ms_macs s) len in (sl, s\<lparr>ms_macs := st\<rparr>))"

definition ms_alloc_with :: "mac_store \<Rightarrow> mac list \<Rightarrow> slice \<times> mac_store" where
  "ms_alloc_with s ms = (let (sl, st) = store_alloc_with (ms_macs s) ms in (sl, s\<lparr>ms_macs := st\<rparr>))"

definition ms_try_get :: "mac_store \<Rightarrow> slice \<Rightarrow> (mac_store_error, mac list) result" where
  "ms_try_get s sl = map_err mac_error (try_get (ms_macs s) sl)"

definition ms_try_set :: "mac_store \<Rightarrow> slice \<Rightarrow> mac list \<Rightarrow> (mac_store_error, mac_store) result" where
  "ms_try_set s sl ms =
     bindR (map_err mac_error (try_set (ms_macs s) sl ms)) (\<lambda>st. Inr (s\<lparr>ms_macs := st\<rparr>))"

definition ms_try_set_public :: "mac_store \<Rightarrow> slice \<Rightarrow> bool list \<Rightarrow> (mac_store_error, mac_store) result" where
  "ms_try_set_public s sl data =
     (let ms = mac_public data
      in bindR (map_err mac_error (try_set (ms_macs s) sl ms)) (\<lambda>st. Inr (s\<lparr>ms_macs := st\<rparr>)))"

definition ms_try_get_bits :: "mac_store \<Rightarrow> slice \<Rightarrow> (mac_store_error, bool list) result" where
  "ms_try_get_bits s sl =
     bindR (map_err mac_error (try_get (ms_macs s) sl)) (\<lambda>ms. Inr (map mac_pointer ms))"

definition ms_adjust :: "mac_store \<Rightarrow> slice \<Rightarrow> bool list \<Rightarrow> (mac_store_error, mac_store) result" where
  "ms_adjust s sl data =
     bindR (assertR (ssize sl = length data)) (\<lambda>_.
     bindR (map_err mac_error (try_get_slice_mut (ms_macs s) sl (\<lambda>ms. map2 set_pointer ms data))) (\<lambda>st.
       Inr (s\<lparr>ms_macs := st\<rparr>)))"

fun prove_loop :: "mac_store \<Rightarrow> (nat \<times> nat) list \<Rightarrow> (mac_store_error, bool list \<times> byte list) result" where
  "prove_loop s [] = Inr ([], [])"
| "prove_loop s (rng # ranges) =
     (let sl = from_range_unchecked rng
      in bindR (map_err mac_error (try_get (ms_macs s) sl)) (\<lambda>ms.
         bindR (prove_loop s ranges) (\<lambda>(bts, bytes).
           Inr (map mac_pointer ms @ bts, concat (map to_le_bytes ms) @ bytes))))"

definition prove_macs :: "hasher \<Rightarrow> mac_store \<Rightarrow> (nat \<times> nat) list \<Rightarrow> (mac_store_error, bool list \<times> 256 word) result" where
  "prove_macs hash s ranges = bindR (prove_loop s ranges) (\<lambda>(bts, bytes). Inr (bts, hash bytes))"

section \<open>The correlation between the stores\<close>

text \<open>
  \<open>corr ks ms X\<close>: at every address set on both sides, the MAC is the one of the bit \<open>X i\<close>.
\<close>

definition ks_inv :: "key_store \<Rightarrow> bool" where
  "ks_inv s \<longleftrightarrow> store_inv (ks_keys s) \<and> lsb (ks_delta s) \<and> public_one s = MAC_ONE XOR ks_delta s \<and>
     used s \<subseteq> set_of (ks_keys s)"

definition ms_inv :: "mac_store \<Rightarrow> bool" where
  "ms_inv s \<longleftrightarrow> store_inv (ms_macs s)"

definition corr :: "key_store \<Rightarrow> mac_store \<Rightarrow> (nat \<Rightarrow> bool) \<Rightarrow> nat set \<Rightarrow> bool" where
  "corr ks ms X A \<longleftrightarrow> A \<subseteq> set_of (ks_keys ks) \<and> A \<subseteq> set_of (ms_macs ms) \<and>
     (\<forall>i \<in> A. mac_ok (ks_delta ks) (items (ks_keys ks) ! i) (items (ms_macs ms) ! i) (X i))"

lemma ks_inv_new: "lsb d \<Longrightarrow> ks_inv (key_store_new d)"
  using MAC_lsb by (simp add: ks_inv_def key_store_new_def store_inv_def store_new_def Let_def set_lsb_eq)

section \<open>Reading segments\<close>

definition segment :: "'a list \<Rightarrow> slice \<Rightarrow> 'a list" where
  "segment xs sl = map ((!) xs) [ptr sl..<ptr sl + ssize sl]"

lemma length_segment [simp]: "length (segment xs sl) = ssize sl"
  by (simp add: segment_def)

lemma nth_segment [simp]: "j < ssize sl \<Longrightarrow> segment xs sl ! j = xs ! (ptr sl + j)"
  by (simp add: segment_def)

lemma store_slice_end:
  assumes "store_inv s" "to_range sl \<subseteq> set_of s" "0 < ssize sl"
  shows "slice_end sl \<le> length (items s)"
proof -
  have "ptr sl + ssize sl - 1 \<in> to_range sl" using assms(3) by (auto simp: to_range_def)
  with assms(1,2) have "ptr sl + ssize sl - 1 < length (items s)" by (auto simp: store_inv_def)
  with assms(3) show ?thesis by (simp add: slice_end_def)
qed

lemma index_slice_segment: "slice_end sl \<le> length xs \<Longrightarrow> index_slice xs sl = Inr (segment xs sl)"
  by (auto simp: index_slice_def subslice_def slice_end_def segment_def intro: nth_equalityI)

lemma try_get_segment:
  assumes "store_inv s" "to_range sl \<subseteq> set_of s" "0 < ssize sl"
  shows "try_get s sl = Inr (segment (items s) sl)"
  using assms store_slice_end [OF assms] by (simp add: try_get_def index_slice_segment)

lemma try_get_slice_mut_ok:
  assumes "store_inv s" "to_range sl \<subseteq> set_of s" "0 < ssize sl" "length (f (segment (items s) sl)) = ssize sl"
  obtains ys where "try_get_slice_mut s sl f = Inr (s\<lparr>items := ys\<rparr>)" "length ys = length (items s)"
    "\<And>i. i < length (items s) \<Longrightarrow>
       ys ! i = (if i \<in> to_range sl then f (segment (items s) sl) ! (i - ptr sl) else items s ! i)"
proof -
  have e: "slice_end sl \<le> length (items s)" using assms(1-3) by (rule store_slice_end)
  obtain ys where "copy_into (items s) (ptr sl) (slice_end sl) (f (segment (items s) sl)) = (Inr ys :: (store_error, _) result)"
      "length ys = length (items s)"
      "\<And>i. i < length (items s) \<Longrightarrow>
        ys ! i = (if i \<in> to_range sl then f (segment (items s) sl) ! (i - ptr sl) else items s ! i)"
    using copy_into_slice [OF e assms(4)] by blast
  then show thesis using that assms(2) e by (simp add: try_get_slice_mut_def index_slice_segment)
qed

lemma try_set_items:
  assumes "try_set s sl xs = Inr s'"
  shows "length xs = ssize sl" "length (items s') = length (items s)" "set_of s' = set_of s \<union> to_range sl"
    "slice_end sl \<le> length (items s)"
    "i < length (items s) \<Longrightarrow> items s' ! i = (if i \<in> to_range sl then xs ! (i - ptr sl) else items s ! i)"
  using assms
  by (auto simp: try_set_def Let_def result_simps copy_into_def slice_end_def to_range_def nth_append
      split: if_splits)

lemma try_set_inv: "store_inv s \<Longrightarrow> try_set s sl xs = Inr s' \<Longrightarrow> store_inv s'"
  using try_set_items [of s sl xs s'] by (auto simp: store_inv_def to_range_def slice_end_def)

section \<open>Proving and verifying\<close>

definition elems :: "(nat \<times> nat) list \<Rightarrow> nat list" where
  "elems rs = concat (map (\<lambda>r. [fst r..<snd r]) rs)"

definition proper :: "(nat \<times> nat) list \<Rightarrow> bool" where
  "proper rs \<longleftrightarrow> (\<forall>r \<in> set rs. fst r < snd r)"

lemma elems_simps [simp]: "elems [] = []" "elems (r # rs) = [fst r..<snd r] @ elems rs"
  by (simp_all add: elems_def)

lemma proper_simps [simp]: "proper []" "proper (r # rs) \<longleftrightarrow> fst r < snd r \<and> proper rs"
  by (auto simp: proper_def)

lemma ranges_len_elems: "ranges_len rs = length (elems rs)"
  by (induction rs) (simp_all add: ranges_len_def)

lemma try_get_range:
  assumes "store_inv s" "fst r < snd r" "{fst r..<snd r} \<subseteq> set_of s"
  shows "try_get s (from_range_unchecked r) = Inr (map ((!) (items s)) [fst r..<snd r])"
  using try_get_segment [OF assms(1), of "from_range_unchecked r"] assms(2,3)
  by (simp add: to_range_def segment_def)

lemma prove_loop_ok:
  assumes "store_inv (ms_macs s)" "proper rs" "set (elems rs) \<subseteq> set_of (ms_macs s)"
  shows "prove_loop s rs = Inr (map (\<lambda>i. lsb (items (ms_macs s) ! i)) (elems rs),
           concat (map (\<lambda>i. to_le_bytes (items (ms_macs s) ! i)) (elems rs)))"
  using assms(2,3)
  by (induction rs) (simp_all add: try_get_range [OF assms(1)] Let_def mac_pointer_def comp_def)

lemma verify_loop_ok:
  assumes "store_inv (ks_keys s)" "proper rs" "set (elems rs) \<subseteq> set_of (ks_keys s)" "ix + length (elems rs) = length bts"
  shows "verify_loop s bts ix rs =
    (let values = map2 (\<lambda>i b. lsb (items (ks_keys s) ! i) \<noteq> b) (elems rs) (drop ix bts)
     in Inr (values, concat (map to_le_bytes
          (map2 (\<lambda>i v. key_auth (items (ks_keys s) ! i) v (ks_delta s)) (elems rs) values))))"
  using assms(2-4)
proof (induction rs arbitrary: ix)
  case (Cons r rs)
  let ?K = "items (ks_keys s)"
  define n where "n = snd r - fst r"
  define bs1 bs2 where "bs1 = take n (drop ix bts)" and "bs2 = drop (ix + n) bts"
  have n: "ix + n + length (elems rs) = length bts" using Cons.prems by (simp add: n_def)
  then have sub: "subslice bts ix (ix + n) = (Inr bs1 :: (key_store_error, _) result)"
    by (simp add: subslice_def bs1_def)
  have split: "drop ix bts = bs1 @ bs2"
    unfolding bs1_def bs2_def by (metis add.commute append_take_drop_id drop_drop)
  have len: "length bs1 = length [fst r..<snd r]" using n by (simp add: bs1_def n_def)
  have IH: "verify_loop s bts (ix + n) rs =
    (let values = map2 (\<lambda>i b. lsb (?K ! i) \<noteq> b) (elems rs) bs2
     in Inr (values, concat (map to_le_bytes (map2 (\<lambda>i v. key_auth (?K ! i) v (ks_delta s)) (elems rs) values))))"
    using Cons.prems n unfolding bs2_def by (intro Cons.IH) auto
  have get: "try_get (ks_keys s) (from_range_unchecked r) = Inr (map ((!) ?K) [fst r..<snd r])"
    using Cons.prems by (intro try_get_range [OF assms(1)]) auto
  show ?case
    using len by (simp add: get sub IH n_def [symmetric] Let_def split zip_append key_pointer_def zip_map1
        case_prod_unfold comp_def)
qed (simp add: Let_def)

lemma prove_verify:
  assumes "ks_inv ks" "ms_inv ms" "proper rs" "corr ks ms X (set (elems rs))"
  shows "\<exists>bts prf. prove_macs hash ms rs = Inr (bts, prf) \<and> verify hash ks rs bts prf = Inr (map X (elems rs))"
proof -
  let ?K = "items (ks_keys ks)" and ?M = "items (ms_macs ms)" and ?E = "elems rs"
  let ?b = "map (\<lambda>i. lsb (?M ! i)) ?E"
  have c: "set ?E \<subseteq> set_of (ks_keys ks)" "set ?E \<subseteq> set_of (ms_macs ms)"
      "\<And>i. i \<in> set ?E \<Longrightarrow> ?M ! i = key_auth (?K ! i) (X i) (ks_delta ks)"
    using assms by (auto simp: corr_def mac_ok_iff_auth)
  have lsb_M: "lsb (?M ! i) = (lsb (?K ! i) \<noteq> X i)" if "i \<in> set ?E" for i
    using assms(1,4) that by (intro mac_ok_lsb) (auto simp: corr_def ks_inv_def)
  have p: "prove_macs hash ms rs = Inr (?b, hash (concat (map (\<lambda>i. to_le_bytes (?M ! i)) ?E)))"
    using assms(2,3) c(2) by (simp add: prove_macs_def ms_inv_def prove_loop_ok)
  have v: "map2 (\<lambda>i b. lsb (?K ! i) \<noteq> b) ?E (drop 0 ?b) = map X ?E"
    by (rule nth_equalityI) (auto simp: lsb_M)
  have m: "map to_le_bytes (map2 (\<lambda>i v. key_auth (?K ! i) v (ks_delta ks)) ?E (map X ?E)) =
      map (\<lambda>i. to_le_bytes (?M ! i)) ?E"
    by (rule nth_equalityI) (auto simp: c(3))
  have "verify_loop ks ?b 0 rs = Inr (map X ?E, concat (map (\<lambda>i. to_le_bytes (?M ! i)) ?E))"
    using assms(1,3) c(1) by (subst verify_loop_ok) (simp_all only: ks_inv_def v m Let_def, simp_all)
  with p show ?thesis by (auto simp: verify_def ranges_len_elems)
qed

lemma concat_bytes_inject:
  assumes "length xs = length ys" "concat (map to_le_bytes xs) = concat (map to_le_bytes ys)"
  shows "xs = ys"
proof (rule nth_equalityI)
  fix i assume i: "i < length xs"
  have "take 16 (drop (16 * i) (concat (map to_le_bytes zs))) = to_le_bytes (zs ! i)" if "i < length zs" for zs
    using take_drop_concat [of "map to_le_bytes zs" 16 i] that by simp
  then have "to_le_bytes (xs ! i) = to_le_bytes (ys ! i)" using assms i by metis
  then show "xs ! i = ys ! i" by (metis from_to_le_bytes)
qed (rule assms)

abbreviation mac_bytes :: "block list \<Rightarrow> byte list" where
  "mac_bytes ms \<equiv> concat (map to_le_bytes ms)"

text \<open>The MACs that a proof for the bits \<open>ds\<close> at the addresses of \<open>rs\<close> must hash.\<close>

definition opened_macs :: "key_store \<Rightarrow> (nat \<times> nat) list \<Rightarrow> bool list \<Rightarrow> block list" where
  "opened_macs ks rs ds = map2 (\<lambda>i v. key_auth (items (ks_keys ks) ! i) v (ks_delta ks)) (elems rs) ds"

lemma verify_eq:
  assumes "ks_inv ks" "proper rs" "set (elems rs) \<subseteq> set_of (ks_keys ks)" "rs \<noteq> []"
  shows "verify hash ks rs bts prf =
    (if length bts \<noteq> length (elems rs) then Inl Panic
     else let ds = map2 (\<lambda>i b. lsb (items (ks_keys ks) ! i) \<noteq> b) (elems rs) bts
          in if prf = hash (mac_bytes (opened_macs ks rs ds)) then Inr ds else Inl (Err KVerify))"
  using verify_loop_ok [of ks rs 0 bts] assms
  by (auto simp: verify_def ranges_len_elems ks_inv_def opened_macs_def assertR_def Let_def)

lemma mac_bytes_inject: "length xs = length ys \<Longrightarrow> mac_bytes xs = mac_bytes ys \<longleftrightarrow> xs = ys"
  using concat_bytes_inject by blast

text \<open>
  An accepted proof hashes the MACs of the opened bits; no assumption on the hash is made: where
  another string of MACs was hashed, the two strings are a collision.
\<close>

lemma verify_opens:
  assumes "ks_inv ks" "proper rs" "set (elems rs) \<subseteq> set_of (ks_keys ks)" "rs \<noteq> []" "verify hash ks rs bts prf = Inr ds"
  shows "length bts = length (elems rs)" "length ds = length (elems rs)" "prf = hash (mac_bytes (opened_macs ks rs ds))"
  using assms(5) verify_eq [OF assms(1-4), of hash bts "prf"] by (auto simp: Let_def split: if_splits)

lemma opened_macs_nth:
  "length ds = length (elems rs) \<Longrightarrow> j < length (elems rs) \<Longrightarrow>
     opened_macs ks rs ds ! j = key_auth (items (ks_keys ks) ! (elems rs ! j)) (ds ! j) (ks_delta ks)"
  by (simp add: opened_macs_def)

lemma length_opened_macs: "length ds = length (elems rs) \<Longrightarrow> length (opened_macs ks rs ds) = length (elems rs)"
  by (simp add: opened_macs_def)

lemma key_auth_differ: "v \<noteq> v' \<Longrightarrow> key_auth k v d XOR key_auth k v' d = d"
  by (cases v) (auto simp: key_auth_def BLOCK_ZERO_def xor_simps)

lemma verify_eq_or_collision:
  assumes "ks_inv ks" "proper rs" "set (elems rs) \<subseteq> set_of (ks_keys ks)" "rs \<noteq> []"
    "verify hash ks rs bts (hash (mac_bytes ms)) = Inr ds" "length ms = length (elems rs)"
  shows "ms = opened_macs ks rs ds \<or>
    mac_bytes ms \<noteq> mac_bytes (opened_macs ks rs ds) \<and> hash (mac_bytes ms) = hash (mac_bytes (opened_macs ks rs ds))"
  using verify_opens [OF assms(1-5)] mac_bytes_inject [of ms "opened_macs ks rs ds"] assms(6) length_opened_macs [of ds rs ks] by auto

section \<open>Operations on both stores keep the correlation\<close>

definition on_slice :: "slice \<Rightarrow> bool list \<Rightarrow> (nat \<Rightarrow> bool) \<Rightarrow> nat \<Rightarrow> bool" where
  "on_slice sl data X i = (if i \<in> to_range sl then data ! (i - ptr sl) else X i)"

lemma corr_lt:
  assumes "ks_inv ks" "ms_inv ms" "corr ks ms X A" "i \<in> A"
  shows "i < length (items (ks_keys ks))" "i < length (items (ms_macs ms))"
  using assms by (auto simp: ks_inv_def ms_inv_def store_inv_def corr_def)

lemma adjust_corr:
  assumes inv: "ks_inv ks" "ms_inv ms" and c: "corr ks ms R A" and sl: "to_range sl \<subseteq> A" "0 < ssize sl"
    and len: "length data = ssize sl" "length adj = ssize sl"
    and adj: "\<And>j. j < ssize sl \<Longrightarrow> adj ! j = (R (ptr sl + j) \<noteq> data ! j)"
  shows "\<exists>ks' ms'. ks_adjust ks sl adj = Inr ks' \<and> ms_adjust ms sl data = Inr ms' \<and>
    ks_inv ks' \<and> ms_inv ms' \<and> corr ks' ms' (on_slice sl data R) A"
proof -
  let ?d = "ks_delta ks" and ?K = "items (ks_keys ks)" and ?M = "items (ms_macs ms)"
  let ?fk = "\<lambda>zs. map2 (\<lambda>k a. key_adjust k a ?d) zs adj" and ?fm = "\<lambda>zs. map2 set_pointer zs data"
  have s: "store_inv (ks_keys ks)" "store_inv (ms_macs ms)" "lsb ?d"
      "to_range sl \<subseteq> set_of (ks_keys ks)" "to_range sl \<subseteq> set_of (ms_macs ms)"
    using inv c sl by (auto simp: ks_inv_def ms_inv_def corr_def)
  have lk: "length (?fk (segment ?K sl)) = ssize sl" "length (?fm (segment ?M sl)) = ssize sl"
    using len by simp_all
  obtain yk where yk: "try_get_slice_mut (ks_keys ks) sl ?fk = Inr (ks_keys ks\<lparr>items := yk\<rparr>)" "length yk = length ?K"
      "\<And>i. i < length ?K \<Longrightarrow> yk ! i = (if i \<in> to_range sl then ?fk (segment ?K sl) ! (i - ptr sl) else ?K ! i)"
    using try_get_slice_mut_ok [where f = ?fk, OF s(1,4) sl(2) lk(1)] by metis
  obtain ym where ym: "try_get_slice_mut (ms_macs ms) sl ?fm = Inr (ms_macs ms\<lparr>items := ym\<rparr>)" "length ym = length ?M"
      "\<And>i. i < length ?M \<Longrightarrow> ym ! i = (if i \<in> to_range sl then ?fm (segment ?M sl) ! (i - ptr sl) else ?M ! i)"
    using try_get_slice_mut_ok [where f = ?fm, OF s(2,5) sl(2) lk(2)] by metis
  let ?ks = "ks\<lparr>ks_keys := ks_keys ks\<lparr>items := yk\<rparr>\<rparr>" and ?ms = "ms\<lparr>ms_macs := ms_macs ms\<lparr>items := ym\<rparr>\<rparr>"
  have "mac_ok ?d (yk ! i) (ym ! i) (on_slice sl data R i)" if i: "i \<in> A" for i
  proof (cases "i \<in> to_range sl")
    case True
    define j where "j = i - ptr sl"
    have j: "j < ssize sl" "i = ptr sl + j" using True by (auto simp: to_range_def j_def)
    have "mac_ok ?d (?K ! i) (?M ! i) (R i)" using c i by (simp add: corr_def)
    then have "mac_ok ?d (key_adjust (?K ! i) (R i \<noteq> data ! j) ?d) (set_pointer (?M ! i) (data ! j)) (data ! j)"
      by (rule adjust_mac_ok(1) [OF s(3)])
    moreover have "yk ! i = key_adjust (?K ! i) (R i \<noteq> data ! j) ?d"
      using yk(3) [of i] corr_lt(1) [OF inv c i] True j len by (simp add: adj)
    moreover have "ym ! i = set_pointer (?M ! i) (data ! j)"
      using ym(3) [of i] corr_lt(2) [OF inv c i] True j len by simp
    ultimately show ?thesis using True by (simp add: on_slice_def j_def)
  next
    case False
    then show ?thesis using c i yk(3) [of i] ym(3) [of i] corr_lt [OF inv c i]
      by (simp add: corr_def on_slice_def)
  qed
  then have "corr ?ks ?ms (on_slice sl data R) A" using c by (simp add: corr_def)
  moreover have "ks_adjust ks sl adj = Inr ?ks" "ms_adjust ms sl data = Inr ?ms"
    using yk(1) ym(1) len by (simp_all add: ks_adjust_def ms_adjust_def)
  moreover have "ks_inv ?ks" "ms_inv ?ms"
    using inv yk(2) ym(2) by (simp_all add: ks_inv_def ms_inv_def store_inv_def)
  ultimately show ?thesis by blast
qed

lemma set_corr:
  assumes inv: "ks_inv ks" "ms_inv ms" and c: "corr ks ms X A"
    and k: "try_set (ks_keys ks) sl kl = Inr kst" and m: "try_set (ms_macs ms) sl ml = Inr mst"
    and ok: "\<And>j. j < ssize sl \<Longrightarrow> mac_ok (ks_delta ks) (kl ! j) (ml ! j) (data ! j)"
  shows "ks_inv (ks\<lparr>ks_keys := kst\<rparr>) \<and> ms_inv (ms\<lparr>ms_macs := mst\<rparr>) \<and>
    corr (ks\<lparr>ks_keys := kst\<rparr>) (ms\<lparr>ms_macs := mst\<rparr>) (on_slice sl data X) (A \<union> to_range sl)"
proof -
  note tk = try_set_items [OF k] and tm = try_set_items [OF m]
  have "mac_ok (ks_delta ks) (items kst ! i) (items mst ! i) (on_slice sl data X i)" if "i \<in> A \<union> to_range sl" for i
  proof (cases "i \<in> to_range sl")
    case True
    then have "i - ptr sl < ssize sl" "i < length (items (ks_keys ks))" "i < length (items (ms_macs ms))"
      using tk(4) tm(4) by (auto simp: to_range_def slice_end_def)
    with True show ?thesis using tk(5) [of i] tm(5) [of i] ok by (simp add: on_slice_def)
  next
    case False
    then have "i \<in> A" using that by simp
    with False show ?thesis using tk(5) [of i] tm(5) [of i] c corr_lt [OF inv c, of i]
      by (simp add: corr_def on_slice_def)
  qed
  moreover have "store_inv kst" "store_inv mst"
    using inv k m by (auto simp: ks_inv_def ms_inv_def intro: try_set_inv)
  ultimately show ?thesis using inv c tk(3) tm(3) by (auto simp: ks_inv_def ms_inv_def corr_def)
qed

section \<open>Handing out keys\<close>

datatype use_op = Authenticate slice "bool list" | Oblivious slice

fun use_apply :: "use_op \<Rightarrow> key_store \<Rightarrow> (key_store_error, key_store) result" where
  "use_apply (Authenticate sl data) s = bindR (authenticate s sl data) (\<lambda>(ms, s). Inr s)"
| "use_apply (Oblivious sl) s = bindR (oblivious_transfer s sl) (\<lambda>(kl, s). Inr s)"

fun use_slice :: "use_op \<Rightarrow> slice" where
  "use_slice (Authenticate sl data) = sl"
| "use_slice (Oblivious sl) = sl"

lemma use_apply_used:
  assumes "use_apply p s = Inr s'"
  shows "to_range (use_slice p) \<inter> used s = {}" "used s' = used s \<union> to_range (use_slice p)"
  using assms
  by (cases p; auto simp: authenticate_def oblivious_transfer_def ks_is_used_def result_simps Let_def
      split: if_splits sum.splits)+

lemma use_run_disjoint:
  assumes "foldR use_apply ops s = Inr s'"
  shows "(\<forall>p \<in> set ops. to_range (use_slice p) \<inter> used s = {}) \<and>
    (\<forall>i j. i < j \<and> j < length ops \<longrightarrow> to_range (use_slice (ops ! i)) \<inter> to_range (use_slice (ops ! j)) = {})"
  using assms
proof (induction ops arbitrary: s)
  case (Cons p ops)
  then obtain s1 where s1: "use_apply p s = Inr s1" "foldR use_apply ops s1 = Inr s'"
    by (auto simp: result_simps)
  note u = use_apply_used [OF s1(1)] and IH = Cons.IH [OF s1(2)]
  have "\<forall>q \<in> set ops. to_range (use_slice q) \<inter> (used s \<union> to_range (use_slice p)) = {}"
    using IH u(2) by simp
  moreover have "to_range (use_slice ((p # ops) ! i)) \<inter> to_range (use_slice ((p # ops) ! j)) = {}"
    if "i < j" "j < length (p # ops)" for i j
  proof (cases i)
    case 0
    from that obtain k where "j = Suc k" by (cases j) auto
    with that calculation 0 show ?thesis by (auto simp: Int_commute Int_Un_distrib)
  next
    case (Suc k)
    then show ?thesis using IH that by (cases j) auto
  qed
  ultimately show ?case using u(1) by auto
qed simp

lemma authenticate_macs:
  assumes "authenticate s sl data = Inr (ml, s')" "ks_inv s" "0 < ssize sl"
  shows "length ml = ssize sl \<and>
    (\<forall>j < ssize sl. mac_ok (ks_delta s) (items (ks_keys s) ! (ptr sl + j)) (ml ! j) (data ! j)) \<and>
    s' = s\<lparr>used := used s \<union> to_range sl\<rparr> \<and> ks_inv s'"
proof -
  have a: "ssize sl = length data" "is_set (ks_keys s) sl"
    using assms(1) by (auto simp: authenticate_def result_simps split: if_splits)
  then have g: "try_get (ks_keys s) sl = Inr (segment (items (ks_keys s)) sl)"
    using assms(2,3) by (intro try_get_segment) (auto simp: ks_inv_def is_set_def)
  with assms(1) a have "ml = map2 (\<lambda>b k. key_auth k b (ks_delta s)) data (segment (items (ks_keys s)) sl)"
      "s' = s\<lparr>used := used s \<union> to_range sl\<rparr>"
    by (auto simp: authenticate_def Let_def split: if_splits)
  with a assms(2) show ?thesis by (auto simp: ks_inv_def is_set_def)
qed

section \<open>Properties of the correlated stores\<close>

text \<open>
  C28. Completeness of MAC proofs: if the MACs of the receiver are correct for the bits \<open>X\<close> on the
  given ranges, then \<open>prove\<close> succeeds, \<open>verify\<close> accepts its output, and the verifier writes back
  exactly those bits.
\<close>

theorem prove_verify_roundtrip:
  assumes "ks_inv ks" "ms_inv ms" "proper rs" "corr ks ms X (set (elems rs))"
  shows "\<exists>bts prf. prove_macs hash ms rs = Inr (bts, prf) \<and> verify hash ks rs bts prf = Inr (map X (elems rs))"
  using assms by (rule prove_verify)

definition demo_keys :: key_store where
  "demo_keys = (key_store_new (delta_new 6))\<lparr>ks_keys := \<lparr>items = [12], set_of = {0}\<rparr>\<rparr>"

definition demo_macs :: mac_store where
  "demo_macs = \<lparr>ms_macs = \<lparr>items = [key_auth 12 True (delta_new 6)], set_of = {0}\<rparr>\<rparr>"

lemma demo_inv: "ks_inv demo_keys" "ms_inv demo_macs" "corr demo_keys demo_macs (\<lambda>_. True) {0}"
  using ks_inv_new [of "delta_new 6"]
  by (simp_all add: ks_inv_def ms_inv_def corr_def demo_keys_def demo_macs_def key_store_new_def store_inv_def Let_def)

theorem prove_verify_roundtrip_witness:
  "\<exists>bts prf. prove_macs (\<lambda>_. 0) demo_macs [(0, 1)] = Inr (bts, prf) \<and>
     verify (\<lambda>_. 0) demo_keys [(0, 1)] bts prf = Inr [True]"
  using prove_verify_roundtrip [of demo_keys demo_macs "[(0, 1)]" "\<lambda>_. True" "\<lambda>_. 0"] demo_inv by simp


text \<open>Two ranges, three MACs, and any hash whatever: one proof is accepted and every other refused.\<close>

definition three_keys :: key_store where
  "three_keys = (key_store_new (delta_new 6))\<lparr>ks_keys := \<lparr>items = [12, 13, 20], set_of = {0, 1, 2}\<rparr>\<rparr>"

lemma three_keys_inv: "ks_inv three_keys" "set_of (ks_keys three_keys) = {0, 1, 2}" "items (ks_keys three_keys) = [12, 13, 20]"
    "ks_delta three_keys = delta_new 6"
  using ks_inv_new [of "delta_new 6"]
  by (auto simp: ks_inv_def three_keys_def key_store_new_def store_inv_def Let_def)


lemma demo_prove:
  "prove_macs hash demo_macs [(0, 1)] =
     Inr ([True], hash (concat (map to_le_bytes [key_auth 12 True (delta_new 6)])))"
proof -
  have "lsb (key_auth 12 True (delta_new 6))" by (simp add: key_auth_scale) (simp add: lsb_def)
  then show ?thesis
    by (simp add: prove_macs_def demo_macs_def try_get_def index_slice_def subslice_def slice_end_def to_range_def
        mac_pointer_def Let_def)
qed

text \<open>
  Derandomising a slice on both sides: if the MACs of a slice are correct for random bits \<open>R\<close>
  and the receiver sends \<open>R \<oplus> data\<close>, both \<open>adjust\<close> calls succeed and the MACs of the slice are then
  correct for the data, all others for what they were.
\<close>

theorem adjust_stores:
  assumes "ks_inv ks" "ms_inv ms" "corr ks ms R A" "to_range sl \<subseteq> A" "0 < ssize sl"
    and "length data = ssize sl" "length adj = ssize sl"
    and "\<And>j. j < ssize sl \<Longrightarrow> adj ! j = (R (ptr sl + j) \<noteq> data ! j)"
  shows "\<exists>ks' ms'. ks_adjust ks sl adj = Inr ks' \<and> ms_adjust ms sl data = Inr ms' \<and>
    ks_inv ks' \<and> ms_inv ms' \<and> corr ks' ms' (on_slice sl data R) A"
  using assms by (rule adjust_corr)

theorem adjust_stores_witness:
  "\<exists>ks' ms'. ks_adjust demo_keys \<lparr>ptr = 0, ssize = 1\<rparr> [True] = Inr ks' \<and>
     ms_adjust demo_macs \<lparr>ptr = 0, ssize = 1\<rparr> [False] = Inr ms' \<and>
     corr ks' ms' (on_slice \<lparr>ptr = 0, ssize = 1\<rparr> [False] (\<lambda>_. True)) {0}"
proof -
  have "to_range \<lparr>ptr = 0, ssize = 1\<rparr> \<subseteq> {0}" by (auto simp: to_range_def)
  then show ?thesis
    using adjust_stores [OF demo_inv, of "\<lparr>ptr = 0, ssize = 1\<rparr>" "[False]" "[True]"] by auto
qed

text \<open>
  Public values: when both parties record the same public data for a slice, every MAC of the
  slice is correct for the data, and the correlation on other addresses is kept.
\<close>

theorem public_stores:
  assumes "ks_inv ks" "ms_inv ms" "corr ks ms X A"
    and "ks_try_set_public ks sl data = Inr ks'" "ms_try_set_public ms sl data = Inr ms'"
  shows "ks_inv ks' \<and> ms_inv ms' \<and> corr ks' ms' (on_slice sl data X) (A \<union> to_range sl)"
proof -
  let ?kl = "map (\<lambda>b. if b then public_one ks else MAC_ZERO) data"
  obtain kst mst where k: "try_set (ks_keys ks) sl ?kl = Inr kst" "ks' = ks\<lparr>ks_keys := kst\<rparr>"
      and m: "try_set (ms_macs ms) sl (mac_public data) = Inr mst" "ms' = ms\<lparr>ms_macs := mst\<rparr>"
    using assms(4,5) by (auto simp: ks_try_set_public_def ms_try_set_public_def result_simps)
  have "mac_ok (ks_delta ks) (?kl ! j) (mac_public data ! j) (data ! j)" if "j < ssize sl" for j
    using try_set_items(1) [OF k(1)] that assms(1)
    by (simp add: mac_public_def MAC_PUBLIC_def mac_ok_def ks_inv_def xor_simps)
  with set_corr [OF assms(1-3) k(1) m(1)] k(2) m(2) show ?thesis by blast
qed

theorem public_stores_witness:
  "\<exists>ks' ms'. ks_try_set_public (snd (ks_alloc (key_store_new (delta_new 6)) 2)) \<lparr>ptr = 0, ssize = 2\<rparr> [True, False] = Inr ks' \<and>
     ms_try_set_public (snd (ms_alloc mac_store_new 2)) \<lparr>ptr = 0, ssize = 2\<rparr> [True, False] = Inr ms' \<and>
     corr ks' ms' (on_slice \<lparr>ptr = 0, ssize = 2\<rparr> [True, False] (\<lambda>_. False)) (to_range \<lparr>ptr = 0, ssize = 2\<rparr>)"
proof -
  let ?sl = "\<lparr>ptr = 0, ssize = 2\<rparr>" and ?ks = "snd (ks_alloc (key_store_new (delta_new 6)) 2)"
    and ?ms = "snd (ms_alloc mac_store_new 2)"
  have i: "ks_inv ?ks" "ms_inv ?ms" "corr ?ks ?ms (\<lambda>_. False) {}"
    using ks_inv_new [of "delta_new 6"]
    by (simp_all add: ks_inv_def ms_inv_def corr_def ks_alloc_def ms_alloc_def mac_store_new_def key_store_new_def
        store_inv_def store_new_def store_alloc_def Let_def)
  obtain ks' where k: "ks_try_set_public ?ks ?sl [True, False] = Inr ks'"
    by (simp add: ks_try_set_public_def ks_alloc_def key_store_new_def store_new_def store_alloc_def try_set_def
        copy_into_def slice_end_def to_range_def Let_def)
  obtain ms' where m: "ms_try_set_public ?ms ?sl [True, False] = Inr ms'"
    by (simp add: ms_try_set_public_def ms_alloc_def mac_store_new_def store_new_def store_alloc_def try_set_def
        copy_into_def slice_end_def to_range_def mac_public_def Let_def)
  from public_stores [OF i k m] k m show ?thesis by simp
qed

text \<open>
  Direct transfer: the MACs returned by \<open>authenticate\<close> for a slice and stored by the receiver
  establish the correlation for the authenticated data on that slice.
\<close>

theorem authenticate_stores:
  assumes "ks_inv ks" "ms_inv ms" "corr ks ms X A" "0 < ssize sl"
    and "authenticate ks sl data = Inr (ml, ks')" "ms_try_set ms sl ml = Inr ms'"
  shows "ks_inv ks' \<and> ms_inv ms' \<and> corr ks' ms' (on_slice sl data X) (A \<union> to_range sl)"
proof -
  note au = authenticate_macs [OF assms(5,1,4)]
  obtain mst where m: "try_set (ms_macs ms) sl ml = Inr mst" "ms' = ms\<lparr>ms_macs := mst\<rparr>"
    using assms(6) by (auto simp: ms_try_set_def result_simps)
  note tm = try_set_items [OF m(1)]
  have "mac_ok (ks_delta ks) (items (ks_keys ks) ! i) (items mst ! i) (on_slice sl data X i)"
    if "i \<in> A \<union> to_range sl" for i
  proof (cases "i \<in> to_range sl")
    case True
    then have "i - ptr sl < ssize sl" "ptr sl + (i - ptr sl) = i" "i < length (items (ms_macs ms))"
      using tm(4) by (auto simp: to_range_def slice_end_def)
    with True au tm(5) [of i] show ?thesis by (auto simp: on_slice_def)
  next
    case False
    then show ?thesis using that tm(5) [of i] assms(3) corr_lt(2) [OF assms(1-3), of i]
      by (simp add: corr_def on_slice_def)
  qed
  moreover have "store_inv mst" using assms(2) m(1) by (auto simp: ms_inv_def intro: try_set_inv)
  moreover have "to_range sl \<subseteq> set_of (ks_keys ks)" using au by (auto simp: ks_inv_def)
  ultimately show ?thesis using au assms(3) tm(3) m(2) by (auto simp: corr_def ms_inv_def)
qed

theorem authenticate_stores_witness:
  "\<exists>ml ks' ms'. authenticate demo_keys \<lparr>ptr = 0, ssize = 1\<rparr> [True] = Inr (ml, ks') \<and>
     ms_try_set (snd (ms_alloc mac_store_new 1)) \<lparr>ptr = 0, ssize = 1\<rparr> ml = Inr ms' \<and>
     corr ks' ms' (on_slice \<lparr>ptr = 0, ssize = 1\<rparr> [True] (\<lambda>_. False)) (to_range \<lparr>ptr = 0, ssize = 1\<rparr>)"
proof -
  let ?sl = "\<lparr>ptr = 0, ssize = 1\<rparr>" and ?ms = "snd (ms_alloc mac_store_new 1)"
  have i: "ms_inv ?ms" "corr demo_keys ?ms (\<lambda>_. False) {}"
    by (simp_all add: ms_inv_def corr_def ms_alloc_def mac_store_new_def store_inv_def store_new_def store_alloc_def Let_def)
  obtain ml ks' where a: "authenticate demo_keys ?sl [True] = Inr (ml, ks')" and l: "length ml = 1"
    by (simp add: demo_keys_def key_store_new_def authenticate_def ks_is_used_def is_set_def to_range_def
        try_get_def index_slice_def subslice_def slice_end_def Let_def)
  obtain ms' where m: "ms_try_set ?ms ?sl ml = Inr ms'"
    using l by (simp add: ms_try_set_def ms_alloc_def mac_store_new_def store_new_def store_alloc_def try_set_def
        copy_into_def slice_end_def to_range_def Let_def)
  from authenticate_stores [OF demo_inv(1) i _ a m] a m show ?thesis by auto
qed

text \<open>
  C29. No key is used twice: in any sequence of successful \<open>authenticate\<close> and \<open>oblivious_transfer\<close>
  calls the slices are pairwise disjoint, and disjoint from what was used before.
\<close>

theorem keys_used_once:
  assumes "foldR use_apply ops ks = Inr ks'"
  shows "(\<forall>p \<in> set ops. to_range (use_slice p) \<inter> used ks = {}) \<and>
    (\<forall>i j. i < j \<and> j < length ops \<longrightarrow> to_range (use_slice (ops ! i)) \<inter> to_range (use_slice (ops ! j)) = {})"
  using assms by (rule use_run_disjoint)

theorem keys_used_once_witness:
  "\<exists>ks'. foldR use_apply [Oblivious \<lparr>ptr = 0, ssize = 1\<rparr>] demo_keys = Inr ks' \<and>
     to_range \<lparr>ptr = 0, ssize = 1\<rparr> \<inter> used demo_keys = {}"
proof -
  obtain ks' where f: "foldR use_apply [Oblivious \<lparr>ptr = 0, ssize = 1\<rparr>] demo_keys = Inr ks'"
    by (simp add: demo_keys_def key_store_new_def oblivious_transfer_def ks_is_used_def is_set_def to_range_def
        try_get_def index_slice_def subslice_def slice_end_def Let_def)
  with keys_used_once [OF f] show ?thesis by simp
qed

end
