(* ===== verification/Visibility.thy ===== *)
theory Visibility
  imports Store
begin

text \<open>
  Visibility of memory (\<open>memory-core/src/view.rs\<close>): every allocated address is uninitialised,
  public, private or blind.  The sets are updated by five separate assignments per operation; the
  invariant is that they stay a partition.  The abstract specification is one kind per address.
\<close>

section \<open>The view\<close>

record visibility =
  vlen :: nat
  v_uninit :: "nat set"
  v_public :: "nat set"
  v_private :: "nat set"
  v_blind :: "nat set"
  v_visible :: "nat set"

definition vis_new :: visibility where
  "vis_new = \<lparr>vlen = 0, v_uninit = {}, v_public = {}, v_private = {}, v_blind = {}, v_visible = {}\<rparr>"

definition vis_alloc :: "visibility \<Rightarrow> nat \<Rightarrow> visibility" where
  "vis_alloc v len =
     (let end = vlen v; v = v\<lparr>vlen := vlen v + len\<rparr>
      in v\<lparr>v_uninit := v_uninit v \<union> {end..<end + len}\<rparr>)"

definition vis_is_set :: "visibility \<Rightarrow> nat \<times> nat \<Rightarrow> bool" where
  "vis_is_set v r \<longleftrightarrow> snd r \<le> vlen v \<and> {fst r..<snd r} \<inter> v_uninit v = {}"

definition vis_is_set_any :: "visibility \<Rightarrow> nat \<times> nat \<Rightarrow> bool" where
  "vis_is_set_any v r \<longleftrightarrow>
     (let start = min (fst r) (vlen v); end = min (snd r) (vlen v)
      in start < end \<and> {start..<end} - v_uninit v \<noteq> {})"

definition is_visible :: "visibility \<Rightarrow> nat \<times> nat \<Rightarrow> bool" where
  "is_visible v r \<longleftrightarrow> {fst r..<snd r} \<subseteq> v_visible v"

definition is_visible_any :: "visibility \<Rightarrow> nat \<times> nat \<Rightarrow> bool" where
  "is_visible_any v r \<longleftrightarrow> {fst r..<snd r} \<inter> v_visible v \<noteq> {}"

definition is_public :: "visibility \<Rightarrow> nat \<times> nat \<Rightarrow> bool" where
  "is_public v r \<longleftrightarrow> {fst r..<snd r} \<subseteq> v_public v"

definition is_public_any :: "visibility \<Rightarrow> nat \<times> nat \<Rightarrow> bool" where
  "is_public_any v r \<longleftrightarrow> {fst r..<snd r} \<inter> v_public v \<noteq> {}"

definition is_private :: "visibility \<Rightarrow> nat \<times> nat \<Rightarrow> bool" where
  "is_private v r \<longleftrightarrow> {fst r..<snd r} \<subseteq> v_private v"

definition is_private_any :: "visibility \<Rightarrow> nat \<times> nat \<Rightarrow> bool" where
  "is_private_any v r \<longleftrightarrow> {fst r..<snd r} \<inter> v_private v \<noteq> {}"

definition is_blind :: "visibility \<Rightarrow> nat \<times> nat \<Rightarrow> bool" where
  "is_blind v r \<longleftrightarrow> {fst r..<snd r} \<subseteq> v_blind v"

definition is_blind_any :: "visibility \<Rightarrow> nat \<times> nat \<Rightarrow> bool" where
  "is_blind_any v r \<longleftrightarrow> {fst r..<snd r} \<inter> v_blind v \<noteq> {}"

definition assert_allocated :: "visibility \<Rightarrow> nat \<times> nat \<Rightarrow> ('e, unit) result" where
  "assert_allocated v r = assertR (snd r \<le> vlen v)"

definition set_public :: "visibility \<Rightarrow> nat \<times> nat \<Rightarrow> ('e, visibility) result" where
  "set_public v r =
     bindR (assert_allocated v r) (\<lambda>_.
       let range = {fst r..<snd r};
           v = v\<lparr>v_public := v_public v \<union> range\<rparr>;
           v = v\<lparr>v_visible := v_visible v \<union> range\<rparr>;
           v = v\<lparr>v_uninit := v_uninit v - range\<rparr>;
           v = v\<lparr>v_private := v_private v - range\<rparr>
       in Inr (v\<lparr>v_blind := v_blind v - range\<rparr>))"

definition set_private :: "visibility \<Rightarrow> nat \<times> nat \<Rightarrow> ('e, visibility) result" where
  "set_private v r =
     bindR (assert_allocated v r) (\<lambda>_.
       let range = {fst r..<snd r};
           v = v\<lparr>v_private := v_private v \<union> range\<rparr>;
           v = v\<lparr>v_visible := v_visible v \<union> range\<rparr>;
           v = v\<lparr>v_uninit := v_uninit v - range\<rparr>;
           v = v\<lparr>v_public := v_public v - range\<rparr>
       in Inr (v\<lparr>v_blind := v_blind v - range\<rparr>))"

definition set_blind :: "visibility \<Rightarrow> nat \<times> nat \<Rightarrow> ('e, visibility) result" where
  "set_blind v r =
     bindR (assert_allocated v r) (\<lambda>_.
       let range = {fst r..<snd r};
           v = v\<lparr>v_blind := v_blind v \<union> range\<rparr>;
           v = v\<lparr>v_visible := v_visible v - range\<rparr>;
           v = v\<lparr>v_uninit := v_uninit v - range\<rparr>;
           v = v\<lparr>v_public := v_public v - range\<rparr>
       in Inr (v\<lparr>v_private := v_private v - range\<rparr>))"

section \<open>The partition invariant\<close>

datatype kind = Uninitialised | Public | Private | Blind

definition vis_inv :: "visibility \<Rightarrow> bool" where
  "vis_inv v \<longleftrightarrow>
     v_uninit v \<union> v_public v \<union> v_private v \<union> v_blind v = {0..<vlen v} \<and>
     v_uninit v \<inter> v_public v = {} \<and> v_uninit v \<inter> v_private v = {} \<and> v_uninit v \<inter> v_blind v = {} \<and>
     v_public v \<inter> v_private v = {} \<and> v_public v \<inter> v_blind v = {} \<and> v_private v \<inter> v_blind v = {} \<and>
     v_visible v = v_public v \<union> v_private v"

definition kind_at :: "visibility \<Rightarrow> nat \<Rightarrow> kind option" where
  "kind_at v i =
     (if i \<in> v_uninit v then Some Uninitialised else if i \<in> v_public v then Some Public
      else if i \<in> v_private v then Some Private else if i \<in> v_blind v then Some Blind else None)"

definition vis_abs :: "visibility \<Rightarrow> nat \<times> (nat \<Rightarrow> kind option)" where
  "vis_abs v = (vlen v, kind_at v)"

definition mark :: "(nat \<Rightarrow> kind option) \<Rightarrow> nat \<times> nat \<Rightarrow> kind \<Rightarrow> nat \<Rightarrow> kind option" where
  "mark m r k i = (if fst r \<le> i \<and> i < snd r then Some k else m i)"

lemma vis_inv_new: "vis_inv vis_new"
  by (simp add: vis_inv_def vis_new_def)

lemma vis_alloc_ok:
  assumes "vis_inv v"
  shows "vis_inv (vis_alloc v n)" "kind_at (vis_alloc v n) = mark (kind_at v) (vlen v, vlen v + n) Uninitialised"
proof -
  have u: "v_uninit v \<union> v_public v \<union> v_private v \<union> v_blind v = {0..<vlen v}" using assms by (simp add: vis_inv_def)
  have "x < vlen v" if "x \<in> v_public v \<union> v_private v \<union> v_blind v" for x
  proof -
    have "x \<in> v_uninit v \<union> v_public v \<union> v_private v \<union> v_blind v" using that by blast
    then show ?thesis unfolding u by simp
  qed
  then have "{vlen v..<vlen v + n} \<inter> (v_public v \<union> v_private v \<union> v_blind v) = {}" by fastforce
  moreover have "{0..<vlen v} \<union> {vlen v..<vlen v + n} = {0..<vlen v + n}" by auto
  ultimately show "vis_inv (vis_alloc v n)" using assms
    by (simp add: vis_inv_def vis_alloc_def Let_def Int_Un_distrib Int_Un_distrib2 Un_ac) (metis Un_ac(1,3) u)
  show "kind_at (vis_alloc v n) = mark (kind_at v) (vlen v, vlen v + n) Uninitialised"
    by (rule ext) (auto simp: kind_at_def mark_def vis_alloc_def Let_def)
qed

lemma set_public_ok:
  assumes "vis_inv v" "set_public v r = Inr v'"
  shows "vis_inv v' \<and> vis_abs v' = (vlen v, mark (kind_at v) r Public)"
proof -
  have "snd r \<le> vlen v"
    using assms(2) by (auto simp: set_public_def assert_allocated_def result_simps)
  with assms show ?thesis
    by (auto simp: set_public_def assert_allocated_def Let_def vis_inv_def vis_abs_def kind_at_def mark_def
        intro!: ext)
qed

lemma set_private_ok:
  assumes "vis_inv v" "set_private v r = Inr v'"
  shows "vis_inv v' \<and> vis_abs v' = (vlen v, mark (kind_at v) r Private)"
proof -
  have "snd r \<le> vlen v"
    using assms(2) by (auto simp: set_private_def assert_allocated_def result_simps)
  with assms show ?thesis
    by (auto simp: set_private_def assert_allocated_def Let_def vis_inv_def vis_abs_def kind_at_def mark_def
        intro!: ext)
qed

lemma set_blind_ok:
  assumes "vis_inv v" "set_blind v r = Inr v'"
  shows "vis_inv v' \<and> vis_abs v' = (vlen v, mark (kind_at v) r Blind)"
proof -
  have "snd r \<le> vlen v"
    using assms(2) by (auto simp: set_blind_def assert_allocated_def result_simps)
  with assms show ?thesis
    by (auto simp: set_blind_def assert_allocated_def Let_def vis_inv_def vis_abs_def kind_at_def mark_def
        intro!: ext)
qed

section \<open>Reachable views\<close>

datatype vis_op = Alloc nat | SetPublic "nat \<times> nat" | SetPrivate "nat \<times> nat" | SetBlind "nat \<times> nat"

fun vis_apply :: "vis_op \<Rightarrow> visibility \<Rightarrow> (unit, visibility) result" where
  "vis_apply (Alloc n) v = Inr (vis_alloc v n)"
| "vis_apply (SetPublic r) v = set_public v r"
| "vis_apply (SetPrivate r) v = set_private v r"
| "vis_apply (SetBlind r) v = set_blind v r"

fun kind_apply :: "vis_op \<Rightarrow> nat \<times> (nat \<Rightarrow> kind option) \<Rightarrow> nat \<times> (nat \<Rightarrow> kind option)" where
  "kind_apply (Alloc n) (l, m) = (l + n, mark m (l, l + n) Uninitialised)"
| "kind_apply (SetPublic r) (l, m) = (l, mark m r Public)"
| "kind_apply (SetPrivate r) (l, m) = (l, mark m r Private)"
| "kind_apply (SetBlind r) (l, m) = (l, mark m r Blind)"

lemma vis_apply_inv:
  assumes "vis_inv v" "vis_apply p v = Inr v'"
  shows "vis_inv v' \<and> vis_abs v' = kind_apply p (vis_abs v)"
proof (cases p)
  case (Alloc n)
  have "vlen (vis_alloc v n) = vlen v + n" by (simp add: vis_alloc_def Let_def)
  with Alloc assms vis_alloc_ok [OF assms(1)] show ?thesis by (auto simp: vis_abs_def)
next
  case (SetPublic r)
  with assms(2) have "set_public v r = (Inr v' :: (unit, _) result)" by simp
  from set_public_ok [OF assms(1) this] SetPublic show ?thesis by (simp add: vis_abs_def)
next
  case (SetPrivate r)
  with assms(2) have "set_private v r = (Inr v' :: (unit, _) result)" by simp
  from set_private_ok [OF assms(1) this] SetPrivate show ?thesis by (simp add: vis_abs_def)
next
  case (SetBlind r)
  with assms(2) have "set_blind v r = (Inr v' :: (unit, _) result)" by simp
  from set_blind_ok [OF assms(1) this] SetBlind show ?thesis by (simp add: vis_abs_def)
qed

lemma vis_run_ok:
  assumes "vis_inv v" "foldR vis_apply ops v = Inr v'"
  shows "vis_inv v' \<and> vis_abs v' = fold kind_apply ops (vis_abs v)"
  using assms
proof (induction ops arbitrary: v)
  case (Cons p ops)
  then obtain v1 where "vis_apply p v = Inr v1" "foldR vis_apply ops v1 = Inr v'"
    by (auto simp: result_simps)
  with Cons.IH [of v1] vis_apply_inv [OF Cons.prems(1)] show ?case by auto
qed simp

text \<open>
  Whatever sequence of allocations and visibility changes a view has been through without a
  panic, its four sets partition the allocated addresses, the visible set is the public and private
  ones, and the kind of every address is the one the last operation covering it gave.
\<close>

theorem visibility_partition:
  assumes "foldR vis_apply ops vis_new = Inr v"
  shows "vis_inv v \<and> vis_abs v = fold kind_apply ops (0, \<lambda>_. None)"
proof -
  have "vis_abs vis_new = (0, \<lambda>_. None)"
    by (simp add: vis_abs_def vis_new_def kind_at_def fun_eq_iff)
  with vis_run_ok [OF vis_inv_new assms] show ?thesis by simp
qed

theorem visibility_partition_witness:
  "\<exists>v. foldR vis_apply [Alloc 4, SetPublic (0, 3), SetBlind (1, 2)] vis_new = Inr v \<and> vis_inv v \<and>
     kind_at v 0 = Some Public \<and> kind_at v 1 = Some Blind \<and> kind_at v 3 = Some Uninitialised"
proof -
  let ?ops = "[Alloc 4, SetPublic (0, 3), SetBlind (1, 2)]"
  obtain v where v: "foldR vis_apply ?ops vis_new = Inr v"
    by (simp add: vis_new_def vis_alloc_def set_public_def set_blind_def assert_allocated_def Let_def)
  with visibility_partition [OF v] show ?thesis by (auto simp: vis_abs_def mark_def)
qed

text \<open>Marking a range that is not allocated panics and changes nothing.\<close>

theorem visibility_unallocated:
  assumes "vlen v < snd r"
  shows "set_public v r = Inl Panic \<and> set_private v r = Inl Panic \<and> set_blind v r = Inl Panic"
  using assms by (simp add: set_public_def set_private_def set_blind_def assert_allocated_def)

theorem visibility_unallocated_witness: "set_public (vis_alloc vis_new 10) (10, 20) = (Inl Panic :: (unit, _) result)"
  by (rule visibility_unallocated [THEN conjunct1]) (simp add: vis_alloc_def vis_new_def Let_def)

end
