(* ===== verification/GView.thy ===== *)
theory GView
  imports Visibility
begin

text \<open>
  The memory view of the garbled-circuit parties (\<open>garble-core/src/view.rs\<close>): which ranges are
  inputs and outputs, what is committed, preprocessed, executed and decoded, and what the next
  flush has to carry.  Each party keeps its own view; the protocol relies on both computing the
  same flush from dual calls (what is private to one is blind to the other), which is the
  relation \<open>views_agree\<close> and its preservation.
\<close>

section \<open>The view\<close>

record input_view =
  assigned :: "nat set"
  in_complete :: "nat set"
  in_all :: "nat set"

record output_view =
  preprocessed :: "nat set"
  out_complete :: "nat set"
  out_all :: "nat set"

record decode_view =
  d_decode_info :: "nat set"
  d_complete :: "nat set"
  d_all :: "nat set"

record flush_view =
  f_macs :: "nat set"
  f_ot :: "nat set"
  f_decode_info :: "nat set"
  f_decode :: "nat set"

definition div_ceil :: "nat \<Rightarrow> nat \<Rightarrow> nat" where
  "div_ceil a b = (a + b - 1) div b"

definition garbler_flush_size :: "flush_view \<Rightarrow> nat" where
  "garbler_flush_size f =
     (let macs = card (f_macs f) * 16;
          decode_info = div_ceil (card (f_decode_info f)) 8;
          mac_commitments = card (f_decode_info f) * 16 * 2
      in macs + decode_info + mac_commitments + 1024)"

definition evaluator_flush_size :: "flush_view \<Rightarrow> nat" where
  "evaluator_flush_size f =
     (let decode = div_ceil (card (f_decode f)) 8;
          proof_size = (if f_decode f = {} then 0 else 32)
      in decode + proof_size + 1024)"

definition flush_is_empty :: "flush_view \<Rightarrow> bool" where
  "flush_is_empty f \<longleftrightarrow> f_macs f = {} \<and> f_ot f = {} \<and> f_decode_info f = {} \<and> f_decode f = {}"

definition flush_default :: flush_view where
  "flush_default = \<lparr>f_macs = {}, f_ot = {}, f_decode_info = {}, f_decode = {}\<rparr>"

definition flush_clear :: "flush_view \<Rightarrow> flush_view" where
  "flush_clear f = f\<lparr>f_macs := {}, f_ot := {}, f_decode_info := {}, f_decode := {}\<rparr>"

datatype role = Garbler | Evaluator

record view =
  role :: role
  v_len :: nat
  v_input :: input_view
  v_output :: output_view
  v_vis :: visibility
  v_decode :: decode_view
  v_flush :: flush_view

definition view_new :: "role \<Rightarrow> view" where
  "view_new r =
     \<lparr>role = r, v_len = 0, v_input = \<lparr>assigned = {}, in_complete = {}, in_all = {}\<rparr>,
      v_output = \<lparr>preprocessed = {}, out_complete = {}, out_all = {}\<rparr>, v_vis = vis_new,
      v_decode = \<lparr>d_decode_info = {}, d_complete = {}, d_all = {}\<rparr>, v_flush = flush_default\<rparr>"

datatype view_error =
    VisibilityNotSet "nat \<times> nat" | VisibilityAlreadySet "nat \<times> nat" | VisibilityAssign "nat \<times> nat"
  | VisibilityOutput "nat \<times> nat" | NotAssigned "nat \<times> nat" | AlreadyCommitted "nat \<times> nat"
  | OutputAssign "nat \<times> nat" | OutputCommit "nat \<times> nat" | NotOutput "nat \<times> nat"

abbreviation rng :: "nat \<times> nat \<Rightarrow> nat set" where
  "rng r \<equiv> {fst r..<snd r}"

definition view_is_alloc :: "view \<Rightarrow> nat \<times> nat \<Rightarrow> bool" where
  "view_is_alloc v r \<longleftrightarrow> snd r \<le> v_len v"

definition view_alloc :: "view \<Rightarrow> nat \<Rightarrow> (nat \<times> nat) \<times> view" where
  "view_alloc v n =
     (let r = (v_len v, v_len v + n); v = v\<lparr>v_len := v_len v + n\<rparr>
      in (r, v\<lparr>v_vis := vis_alloc (v_vis v) n\<rparr>))"

definition view_wants_flush :: "view \<Rightarrow> bool" where
  "view_wants_flush v \<longleftrightarrow> \<not> flush_is_empty (v_flush v)"

definition view_alloc_input :: "view \<Rightarrow> nat \<Rightarrow> view" where
  "view_alloc_input v n =
     (let (r, v) = view_alloc v n
      in v\<lparr>v_input := (v_input v)\<lparr>in_all := in_all (v_input v) \<union> rng r\<rparr>\<rparr>)"

definition view_alloc_output :: "view \<Rightarrow> nat \<Rightarrow> view" where
  "view_alloc_output v n =
     (let (r, v) = view_alloc v n
      in v\<lparr>v_output := (v_output v)\<lparr>out_all := out_all (v_output v) \<union> rng r\<rparr>\<rparr>)"

definition mark_public :: "view \<Rightarrow> nat \<times> nat \<Rightarrow> (view_error, view) result" where
  "mark_public v r =
     (if vis_is_set_any (v_vis v) r then Inl (Err (VisibilityAlreadySet r))
      else if rng r \<inter> out_all (v_output v) \<noteq> {} then Inl (Err (VisibilityOutput r))
      else bindR (set_public (v_vis v) r) (\<lambda>vis. Inr (v\<lparr>v_vis := vis\<rparr>)))"

definition mark_private :: "view \<Rightarrow> nat \<times> nat \<Rightarrow> (view_error, view) result" where
  "mark_private v r =
     (if vis_is_set_any (v_vis v) r then Inl (Err (VisibilityAlreadySet r))
      else if rng r \<inter> out_all (v_output v) \<noteq> {} then Inl (Err (VisibilityOutput r))
      else bindR (set_private (v_vis v) r) (\<lambda>vis. Inr (v\<lparr>v_vis := vis\<rparr>)))"

definition mark_blind :: "view \<Rightarrow> nat \<times> nat \<Rightarrow> (view_error, view) result" where
  "mark_blind v r =
     (if vis_is_set_any (v_vis v) r then Inl (Err (VisibilityAlreadySet r))
      else if rng r \<inter> out_all (v_output v) \<noteq> {} then Inl (Err (VisibilityOutput r))
      else bindR (set_blind (v_vis v) r) (\<lambda>vis. Inr (v\<lparr>v_vis := vis\<rparr>)))"

definition view_assign :: "view \<Rightarrow> nat \<times> nat \<Rightarrow> (view_error, view) result" where
  "view_assign v r =
     (if \<not> is_visible (v_vis v) r then Inl (Err (VisibilityAssign r))
      else if rng r \<inter> out_all (v_output v) \<noteq> {} then Inl (Err (OutputAssign r))
      else Inr (v\<lparr>v_input := (v_input v)\<lparr>assigned := assigned (v_input v) \<union> rng r\<rparr>\<rparr>))"

definition set_preprocessed :: "view \<Rightarrow> nat \<times> nat \<Rightarrow> (view_error, view) result" where
  "set_preprocessed v r =
     (if \<not> rng r \<subseteq> out_all (v_output v) then Inl (Err (NotOutput r))
      else
        let v = v\<lparr>v_output := (v_output v)\<lparr>preprocessed := preprocessed (v_output v) \<union> rng r\<rparr>\<rparr>
        in Inr (v\<lparr>v_flush := (v_flush v)\<lparr>f_decode_info := f_decode_info (v_flush v) \<union>
             (rng r \<inter> d_all (v_decode v) - d_complete (v_decode v))\<rparr>\<rparr>))"

definition view_set_output :: "view \<Rightarrow> nat \<times> nat \<Rightarrow> (view_error, view) result" where
  "view_set_output v r =
     (if \<not> rng r \<subseteq> out_all (v_output v) then Inl (Err (NotOutput r))
      else
        let v = v\<lparr>v_output := (v_output v)\<lparr>preprocessed := preprocessed (v_output v) \<union> rng r\<rparr>\<rparr>;
            v = v\<lparr>v_output := (v_output v)\<lparr>out_complete := out_complete (v_output v) \<union> rng r\<rparr>\<rparr>;
            v = v\<lparr>v_flush := (v_flush v)\<lparr>f_decode_info := f_decode_info (v_flush v) \<union>
                   (rng r \<inter> d_all (v_decode v) - d_decode_info (v_decode v))\<rparr>\<rparr>
        in Inr (v\<lparr>v_flush := (v_flush v)\<lparr>f_decode := f_decode (v_flush v) \<union>
             (rng r \<inter> d_decode_info (v_decode v) - d_complete (v_decode v))\<rparr>\<rparr>))"

definition view_is_committed :: "view \<Rightarrow> nat \<times> nat \<Rightarrow> bool" where
  "view_is_committed v r \<longleftrightarrow> rng r \<subseteq> in_complete (v_input v) \<or> rng r \<subseteq> out_complete (v_output v)"

definition view_commit :: "view \<Rightarrow> nat \<times> nat \<Rightarrow> (view_error, view) result" where
  "view_commit v r =
     (if \<not> vis_is_set (v_vis v) r then Inl (Err (VisibilityNotSet r))
      else if rng r \<inter> out_all (v_output v) \<noteq> {} then Inl (Err (OutputCommit r))
      else if rng r \<inter> in_complete (v_input v) \<noteq> {} then Inl (Err (AlreadyCommitted r))
      else
        let blind = rng r \<inter> v_blind (v_vis v);
            priv = rng r \<inter> v_private (v_vis v);
            publ = rng r \<inter> v_public (v_vis v)
        in if \<not> publ \<subseteq> assigned (v_input v) \<or> \<not> priv \<subseteq> assigned (v_input v) then Inl (Err (NotAssigned r))
           else (case role v of
             Garbler \<Rightarrow>
               let v = v\<lparr>v_flush := (v_flush v)\<lparr>f_macs := f_macs (v_flush v) \<union> (publ \<union> priv)\<rparr>\<rparr>
               in Inr (v\<lparr>v_flush := (v_flush v)\<lparr>f_ot := f_ot (v_flush v) \<union> blind\<rparr>\<rparr>)
           | Evaluator \<Rightarrow>
               let v = v\<lparr>v_flush := (v_flush v)\<lparr>f_macs := f_macs (v_flush v) \<union> (publ \<union> blind)\<rparr>\<rparr>
               in Inr (v\<lparr>v_flush := (v_flush v)\<lparr>f_ot := f_ot (v_flush v) \<union> priv\<rparr>\<rparr>)))"

definition view_decode :: "view \<Rightarrow> nat \<times> nat \<Rightarrow> view" where
  "view_decode v r =
     (let undecoded = rng r - d_complete (v_decode v)
      in if undecoded = {} then v
         else
           let v = v\<lparr>v_decode := (v_decode v)\<lparr>d_all := d_all (v_decode v) \<union> undecoded\<rparr>\<rparr>;
               inp = rng r \<inter> in_all (v_input v);
               outp = rng r \<inter> out_all (v_output v);
               decodable_input = (case role v of Garbler \<Rightarrow> inp \<inter> v_private (v_vis v)
                                  | Evaluator \<Rightarrow> inp \<inter> v_blind (v_vis v));
               decodable = decodable_input \<union> (outp \<inter> preprocessed (v_output v));
               v = v\<lparr>v_flush := (v_flush v)\<lparr>f_decode_info := f_decode_info (v_flush v) \<union>
                      (decodable - d_decode_info (v_decode v))\<rparr>\<rparr>
           in (case role v of
                 Garbler \<Rightarrow> v\<lparr>v_flush := (v_flush v)\<lparr>f_decode := f_decode (v_flush v) \<union>
                   ((inp - v_visible (v_vis v)) \<inter> in_complete (v_input v) \<union> (outp \<inter> out_complete (v_output v)))\<rparr>\<rparr>
               | Evaluator \<Rightarrow> v\<lparr>v_flush := (v_flush v)\<lparr>f_decode := f_decode (v_flush v) \<union>
                   (inp \<inter> v_private (v_vis v) \<inter> in_complete (v_input v) \<union> (outp \<inter> out_complete (v_output v)))\<rparr>\<rparr>))"

definition complete_flush :: "view \<Rightarrow> view" where
  "complete_flush v =
     (let v = v\<lparr>v_input := (v_input v)\<lparr>in_complete := in_complete (v_input v) \<union> f_macs (v_flush v)\<rparr>\<rparr>;
          v = v\<lparr>v_input := (v_input v)\<lparr>in_complete := in_complete (v_input v) \<union> f_ot (v_flush v)\<rparr>\<rparr>;
          v = v\<lparr>v_decode := (v_decode v)\<lparr>d_decode_info := d_decode_info (v_decode v) \<union> f_decode_info (v_flush v)\<rparr>\<rparr>;
          v = v\<lparr>v_decode := (v_decode v)\<lparr>d_complete := d_complete (v_decode v) \<union> f_decode (v_flush v)\<rparr>\<rparr>;
          ready_inputs = f_ot (v_flush v) \<inter> d_all (v_decode v);
          ready_outputs = f_decode_info (v_flush v) \<inter> out_complete (v_output v) - d_complete (v_decode v);
          v = v\<lparr>v_flush := flush_clear (v_flush v)\<rparr>;
          v = v\<lparr>v_flush := (v_flush v)\<lparr>f_decode := f_decode (v_flush v) \<union> ready_inputs\<rparr>\<rparr>
      in v\<lparr>v_flush := (v_flush v)\<lparr>f_decode := f_decode (v_flush v) \<union> ready_outputs\<rparr>\<rparr>)"

section \<open>Two views of one memory\<close>

text \<open>
  \<open>view_inv\<close>: what is flushed or complete as input has its visibility set; inputs and outputs
  split the memory.
\<close>

definition view_inv :: "view \<Rightarrow> bool" where
  "view_inv v \<longleftrightarrow>
     vis_inv (v_vis v) \<and> vlen (v_vis v) = v_len v \<and>
     in_all (v_input v) \<union> out_all (v_output v) = {0..<v_len v} \<and> in_all (v_input v) \<inter> out_all (v_output v) = {} \<and>
     in_complete (v_input v) \<union> f_macs (v_flush v) \<union> f_ot (v_flush v) \<subseteq>
       v_public (v_vis v) \<union> v_private (v_vis v) \<union> v_blind (v_vis v) \<and>
     out_complete (v_output v) \<subseteq> preprocessed (v_output v) \<and> preprocessed (v_output v) \<subseteq> out_all (v_output v)"

definition vis_dual :: "visibility \<Rightarrow> visibility \<Rightarrow> bool" where
  "vis_dual g e \<longleftrightarrow> vlen g = vlen e \<and> v_uninit g = v_uninit e \<and> v_public g = v_public e \<and>
     v_private g = v_blind e \<and> v_blind g = v_private e"

definition views_agree :: "view \<Rightarrow> view \<Rightarrow> bool" where
  "views_agree g e \<longleftrightarrow>
     role g = Garbler \<and> role e = Evaluator \<and> view_inv g \<and> view_inv e \<and> v_len g = v_len e \<and>
     in_all (v_input g) = in_all (v_input e) \<and> in_complete (v_input g) = in_complete (v_input e) \<and>
     v_output g = v_output e \<and> v_decode g = v_decode e \<and> v_flush g = v_flush e \<and> vis_dual (v_vis g) (v_vis e)"

text \<open>The operations the two parties perform on the same range, the visibility seen from the garbler.\<close>

datatype party_op =
    AllocInput nat | AllocOutput nat
  | MarkPublic "nat \<times> nat" | MarkPrivate "nat \<times> nat" | MarkBlind "nat \<times> nat"
  | AssignGarbler "nat \<times> nat" | AssignEvaluator "nat \<times> nat"
  | Preprocess "nat \<times> nat" | SetOutput "nat \<times> nat" | Commit "nat \<times> nat" | Decode "nat \<times> nat" | Flush

fun garbler_op :: "party_op \<Rightarrow> view \<Rightarrow> (view_error, view) result" where
  "garbler_op (AllocInput n) v = Inr (view_alloc_input v n)"
| "garbler_op (AllocOutput n) v = Inr (view_alloc_output v n)"
| "garbler_op (MarkPublic r) v = mark_public v r"
| "garbler_op (MarkPrivate r) v = mark_private v r"
| "garbler_op (MarkBlind r) v = mark_blind v r"
| "garbler_op (AssignGarbler r) v = view_assign v r"
| "garbler_op (AssignEvaluator r) v = Inr v"
| "garbler_op (Preprocess r) v = set_preprocessed v r"
| "garbler_op (SetOutput r) v = view_set_output v r"
| "garbler_op (Commit r) v = view_commit v r"
| "garbler_op (Decode r) v = Inr (view_decode v r)"
| "garbler_op Flush v = Inr (complete_flush v)"

fun evaluator_op :: "party_op \<Rightarrow> view \<Rightarrow> (view_error, view) result" where
  "evaluator_op (AllocInput n) v = Inr (view_alloc_input v n)"
| "evaluator_op (AllocOutput n) v = Inr (view_alloc_output v n)"
| "evaluator_op (MarkPublic r) v = mark_public v r"
| "evaluator_op (MarkPrivate r) v = mark_blind v r"
| "evaluator_op (MarkBlind r) v = mark_private v r"
| "evaluator_op (AssignGarbler r) v = Inr v"
| "evaluator_op (AssignEvaluator r) v = view_assign v r"
| "evaluator_op (Preprocess r) v = set_preprocessed v r"
| "evaluator_op (SetOutput r) v = view_set_output v r"
| "evaluator_op (Commit r) v = view_commit v r"
| "evaluator_op (Decode r) v = Inr (view_decode v r)"
| "evaluator_op Flush v = Inr (complete_flush v)"

inductive both_step :: "view \<times> view \<Rightarrow> view \<times> view \<Rightarrow> bool" where
  "garbler_op p g = Inr g' \<Longrightarrow> evaluator_op p e = Inr e' \<Longrightarrow> both_step (g, e) (g', e')"

inductive reachable :: "view \<times> view \<Rightarrow> bool" where
  init: "reachable (view_new Garbler, view_new Evaluator)"
| step: "reachable s \<Longrightarrow> both_step s t \<Longrightarrow> reachable t"

inductive_cases both_stepE: "both_step (g, e) t"

section \<open>Every step keeps the views in agreement\<close>

lemma set_vis_fields:
  "set_public v r = Inr v' \<Longrightarrow> vlen v' = vlen v \<and> v_uninit v' = v_uninit v - rng r \<and>
     v_public v' = v_public v \<union> rng r \<and> v_private v' = v_private v - rng r \<and> v_blind v' = v_blind v - rng r"
  "set_private v r = Inr v' \<Longrightarrow> vlen v' = vlen v \<and> v_uninit v' = v_uninit v - rng r \<and>
     v_public v' = v_public v - rng r \<and> v_private v' = v_private v \<union> rng r \<and> v_blind v' = v_blind v - rng r"
  "set_blind v r = Inr v' \<Longrightarrow> vlen v' = vlen v \<and> v_uninit v' = v_uninit v - rng r \<and>
     v_public v' = v_public v - rng r \<and> v_private v' = v_private v - rng r \<and> v_blind v' = v_blind v \<union> rng r"
  by (auto simp: set_public_def set_private_def set_blind_def assert_allocated_def Let_def result_simps)

lemma vis_alloc_fields:
  "vlen (vis_alloc v n) = vlen v + n" "v_uninit (vis_alloc v n) = v_uninit v \<union> {vlen v..<vlen v + n}"
  "v_public (vis_alloc v n) = v_public v" "v_private (vis_alloc v n) = v_private v" "v_blind (vis_alloc v n) = v_blind v"
  by (simp_all add: vis_alloc_def Let_def)

lemma vis_set_sub:
  assumes "vis_inv v" "vis_is_set v r"
  shows "rng r \<subseteq> v_public v \<union> v_private v \<union> v_blind v"
proof
  fix i assume i: "i \<in> rng r"
  then have "i \<in> {0..<vlen v}" "i \<notin> v_uninit v" using assms(2) by (auto simp: vis_is_set_def)
  moreover have "v_uninit v \<union> v_public v \<union> v_private v \<union> v_blind v = {0..<vlen v}"
    using assms(1) by (simp add: vis_inv_def)
  ultimately show "i \<in> v_public v \<union> v_private v \<union> v_blind v" by blast
qed

lemma view_inv_alloc:
  assumes "view_inv v"
  shows "view_inv (view_alloc_input v n)" "view_inv (view_alloc_output v n)"
proof -
  have s: "{0..<v_len v} \<union> {v_len v..<v_len v + n} = {0..<v_len v + n}" by auto
  have i: "in_all (v_input v) \<union> out_all (v_output v) = {0..<v_len v}" "vis_inv (v_vis v)" "vlen (v_vis v) = v_len v"
    using assms by (simp_all add: view_inv_def)
  then have d: "in_all (v_input v) \<inter> {v_len v..<v_len v + n} = {}" "out_all (v_output v) \<inter> {v_len v..<v_len v + n} = {}"
  proof -
    have "in_all (v_input v) \<subseteq> {0..<v_len v}" "out_all (v_output v) \<subseteq> {0..<v_len v}" using i(1) by blast+
    then show "in_all (v_input v) \<inter> {v_len v..<v_len v + n} = {}" "out_all (v_output v) \<inter> {v_len v..<v_len v + n} = {}"
      by (force dest: subsetD)+
  qed
  have u: "in_all (v_input v) \<union> {v_len v..<v_len v + n} \<union> out_all (v_output v) = {0..<v_len v + n}"
      "in_all (v_input v) \<union> (out_all (v_output v) \<union> {v_len v..<v_len v + n}) = {0..<v_len v + n}"
    unfolding s [symmetric] i(1) [symmetric] by blast+
  have c: "(in_all (v_input v) \<union> {v_len v..<v_len v + n}) \<inter> out_all (v_output v) = {}"
      "in_all (v_input v) \<inter> (out_all (v_output v) \<union> {v_len v..<v_len v + n}) = {}"
    using d assms by (auto simp: view_inv_def)
  have a: "view_alloc_input v n = v\<lparr>v_len := v_len v + n, v_vis := vis_alloc (v_vis v) n,
        v_input := (v_input v)\<lparr>in_all := in_all (v_input v) \<union> {v_len v..<v_len v + n}\<rparr>\<rparr>"
      "view_alloc_output v n = v\<lparr>v_len := v_len v + n, v_vis := vis_alloc (v_vis v) n,
        v_output := (v_output v)\<lparr>out_all := out_all (v_output v) \<union> {v_len v..<v_len v + n}\<rparr>\<rparr>"
    by (simp_all add: view_alloc_input_def view_alloc_output_def view_alloc_def Let_def)
  have r: "in_complete (v_input v) \<union> f_macs (v_flush v) \<union> f_ot (v_flush v) \<subseteq>
       v_public (v_vis v) \<union> v_private (v_vis v) \<union> v_blind (v_vis v)"
     "out_complete (v_output v) \<subseteq> preprocessed (v_output v)" "preprocessed (v_output v) \<subseteq> out_all (v_output v)"
     "preprocessed (v_output v) \<subseteq> out_all (v_output v) \<union> {v_len v..<v_len v + n}"
    using assms by (auto simp: view_inv_def)
  note rest = vis_alloc_ok(1) [OF i(2)] i(3) u c r
  show "view_inv (view_alloc_input v n)" "view_inv (view_alloc_output v n)"
    unfolding a view_inv_def by (intro conjI; use rest in \<open>simp add: vis_alloc_fields\<close>)+
qed

lemma view_inv_vis:
  assumes "view_inv v" "vis_inv vis" "vlen vis = v_len v"
    "v_public (v_vis v) \<union> v_private (v_vis v) \<union> v_blind (v_vis v) \<subseteq> v_public vis \<union> v_private vis \<union> v_blind vis"
  shows "view_inv (v\<lparr>v_vis := vis\<rparr>)"
  using assms by (auto simp: view_inv_def)

lemma view_inv_mark:
  assumes inv: "view_inv v"
  shows "mark_public v r = Inr v' \<Longrightarrow> view_inv v'" "mark_private v r = Inr v' \<Longrightarrow> view_inv v'"
    "mark_blind v r = Inr v' \<Longrightarrow> view_inv v'"
proof -
  have i: "vis_inv (v_vis v)" "vlen (v_vis v) = v_len v" using inv by (simp_all add: view_inv_def)
  show "view_inv v'" if "mark_public v r = Inr v'"
  proof -
    from that obtain vis where h: "set_public (v_vis v) r = (Inr vis :: (view_error, _) result)" "v' = v\<lparr>v_vis := vis\<rparr>"
      by (auto simp: mark_public_def result_simps split: if_splits)
    then show ?thesis using set_public_ok [OF i(1) h(1)] set_vis_fields(1) [OF h(1)] i(2)
      by (auto intro!: view_inv_vis [OF inv])
  qed
  show "view_inv v'" if "mark_private v r = Inr v'"
  proof -
    from that obtain vis where h: "set_private (v_vis v) r = (Inr vis :: (view_error, _) result)" "v' = v\<lparr>v_vis := vis\<rparr>"
      by (auto simp: mark_private_def result_simps split: if_splits)
    then show ?thesis using set_private_ok [OF i(1) h(1)] set_vis_fields(2) [OF h(1)] i(2)
      by (auto intro!: view_inv_vis [OF inv])
  qed
  show "view_inv v'" if "mark_blind v r = Inr v'"
  proof -
    from that obtain vis where h: "set_blind (v_vis v) r = (Inr vis :: (view_error, _) result)" "v' = v\<lparr>v_vis := vis\<rparr>"
      by (auto simp: mark_blind_def result_simps split: if_splits)
    then show ?thesis using set_blind_ok [OF i(1) h(1)] set_vis_fields(3) [OF h(1)] i(2)
      by (auto intro!: view_inv_vis [OF inv])
  qed
qed

lemma view_inv_other:
  assumes inv: "view_inv v"
  shows "view_assign v r = Inr v' \<Longrightarrow> view_inv v'" "set_preprocessed v r = Inr v' \<Longrightarrow> view_inv v'"
    "view_set_output v r = Inr v' \<Longrightarrow> view_inv v'" "view_commit v r = Inr v' \<Longrightarrow> view_inv v'"
    "view_inv (view_decode v r)" "view_inv (complete_flush v)"
proof -
  show "view_inv v'" if "view_assign v r = Inr v'"
    using that inv by (auto simp: view_assign_def view_inv_def split: if_splits)
  show "view_inv v'" if "set_preprocessed v r = Inr v'"
    using that inv by (clarsimp simp: set_preprocessed_def view_inv_def Let_def split: if_splits) blast
  show "view_inv v'" if "view_set_output v r = Inr v'"
    using that inv by (clarsimp simp: view_set_output_def view_inv_def Let_def split: if_splits) blast
  show "view_inv v'" if "view_commit v r = Inr v'"
    using that inv
    by (cases "role v") (simp_all add: view_commit_def view_inv_def Let_def split: if_splits, auto)
  show "view_inv (view_decode v r)"
    using inv by (cases "role v") (simp_all add: view_decode_def view_inv_def Let_def)
  show "view_inv (complete_flush v)"
    using inv by (simp add: complete_flush_def view_inv_def flush_clear_def Let_def)
qed

lemma agreeD:
  assumes "views_agree g e"
  shows "role g = Garbler" "role e = Evaluator" "view_inv g" "view_inv e" "v_len g = v_len e"
    "in_all (v_input g) = in_all (v_input e)" "in_complete (v_input g) = in_complete (v_input e)"
    "v_output g = v_output e" "v_decode g = v_decode e" "v_flush g = v_flush e"
    "vlen (v_vis g) = vlen (v_vis e)" "v_uninit (v_vis g) = v_uninit (v_vis e)" "v_public (v_vis g) = v_public (v_vis e)"
    "v_private (v_vis g) = v_blind (v_vis e)" "v_blind (v_vis g) = v_private (v_vis e)"
  using assms by (simp_all add: views_agree_def vis_dual_def)

lemma mark_fields:
  "mark_public v r = Inr v' \<Longrightarrow> \<exists>vis. v' = v\<lparr>v_vis := vis\<rparr> \<and> set_public (v_vis v) r = (Inr vis :: (view_error, _) result)"
  "mark_private v r = Inr v' \<Longrightarrow> \<exists>vis. v' = v\<lparr>v_vis := vis\<rparr> \<and> set_private (v_vis v) r = (Inr vis :: (view_error, _) result)"
  "mark_blind v r = Inr v' \<Longrightarrow> \<exists>vis. v' = v\<lparr>v_vis := vis\<rparr> \<and> set_blind (v_vis v) r = (Inr vis :: (view_error, _) result)"
  by (auto simp: mark_public_def mark_private_def mark_blind_def result_simps split: if_splits)

lemma agree_alloc:
  assumes ag: "views_agree g e"
  shows "views_agree (view_alloc_input g n) (view_alloc_input e n)" "views_agree (view_alloc_output g n) (view_alloc_output e n)"
proof -
  note d = agreeD [OF ag]
  show "views_agree (view_alloc_input g n) (view_alloc_input e n)"
    using view_inv_alloc(1) [OF d(3), of n] view_inv_alloc(1) [OF d(4), of n] d(1,2,5-15)
    unfolding views_agree_def
    by (simp add: vis_dual_def view_alloc_input_def view_alloc_def vis_alloc_fields Let_def)
  show "views_agree (view_alloc_output g n) (view_alloc_output e n)"
    using view_inv_alloc(2) [OF d(3), of n] view_inv_alloc(2) [OF d(4), of n] d(1,2,5-15)
    unfolding views_agree_def
    by (simp add: vis_dual_def view_alloc_output_def view_alloc_def vis_alloc_fields Let_def)
qed

lemma agree_mark:
  assumes ag: "views_agree g e"
  shows "mark_public g r = Inr g' \<Longrightarrow> mark_public e r = Inr e' \<Longrightarrow> views_agree g' e'"
    "mark_private g r = Inr g' \<Longrightarrow> mark_blind e r = Inr e' \<Longrightarrow> views_agree g' e'"
    "mark_blind g r = Inr g' \<Longrightarrow> mark_private e r = Inr e' \<Longrightarrow> views_agree g' e'"
proof -
  note d = agreeD [OF ag] and ig = view_inv_mark [OF agreeD(3) [OF ag]] and ie = view_inv_mark [OF agreeD(4) [OF ag]]
  show "views_agree g' e'" if h: "mark_public g r = Inr g'" "mark_public e r = Inr e'"
    using ig(1) [OF h(1)] ie(1) [OF h(2)] mark_fields(1) [OF h(1)] mark_fields(1) [OF h(2)] d
    by (auto simp: views_agree_def vis_dual_def dest!: set_vis_fields)
  show "views_agree g' e'" if h: "mark_private g r = Inr g'" "mark_blind e r = Inr e'"
    using ig(2) [OF h(1)] ie(3) [OF h(2)] mark_fields(2) [OF h(1)] mark_fields(3) [OF h(2)] d
    by (auto simp: views_agree_def vis_dual_def dest!: set_vis_fields)
  show "views_agree g' e'" if h: "mark_blind g r = Inr g'" "mark_private e r = Inr e'"
    using ig(3) [OF h(1)] ie(2) [OF h(2)] mark_fields(3) [OF h(1)] mark_fields(2) [OF h(2)] d
    by (auto simp: views_agree_def vis_dual_def dest!: set_vis_fields)
qed

lemma agree_assign:
  assumes ag: "views_agree g e"
  shows "view_assign g r = Inr g' \<Longrightarrow> views_agree g' e" "view_assign e r = Inr e' \<Longrightarrow> views_agree g e'"
proof -
  note d = agreeD [OF ag]
  show "views_agree g' e" if h: "view_assign g r = Inr g'"
    using view_inv_other(1) [OF d(3) h] h d by (auto simp: views_agree_def vis_dual_def view_assign_def split: if_splits)
  show "views_agree g e'" if h: "view_assign e r = Inr e'"
    using view_inv_other(1) [OF d(4) h] h d by (auto simp: views_agree_def vis_dual_def view_assign_def split: if_splits)
qed

lemma agree_output:
  assumes ag: "views_agree g e"
  shows "set_preprocessed g r = Inr g' \<Longrightarrow> set_preprocessed e r = Inr e' \<Longrightarrow> views_agree g' e'"
    "view_set_output g r = Inr g' \<Longrightarrow> view_set_output e r = Inr e' \<Longrightarrow> views_agree g' e'"
proof -
  note d = agreeD [OF ag]
  show "views_agree g' e'" if h: "set_preprocessed g r = Inr g'" "set_preprocessed e r = Inr e'"
    using view_inv_other(2) [OF d(3) h(1)] view_inv_other(2) [OF d(4) h(2)] h d
    by (auto simp: views_agree_def vis_dual_def set_preprocessed_def Let_def split: if_splits)
  show "views_agree g' e'" if h: "view_set_output g r = Inr g'" "view_set_output e r = Inr e'"
    using view_inv_other(3) [OF d(3) h(1)] view_inv_other(3) [OF d(4) h(2)] h d
    by (auto simp: views_agree_def vis_dual_def view_set_output_def Let_def split: if_splits)
qed

lemma agree_commit:
  assumes ag: "views_agree g e" and h: "view_commit g r = Inr g'" "view_commit e r = Inr e'"
  shows "views_agree g' e'"
proof -
  note d = agreeD [OF ag]
  show ?thesis
    using view_inv_other(4) [OF d(3) h(1)] view_inv_other(4) [OF d(4) h(2)] h d
    by (auto simp: views_agree_def vis_dual_def view_commit_def Let_def split: if_splits)
qed

lemma agree_decode:
  assumes ag: "views_agree g e"
  shows "views_agree (view_decode g r) (view_decode e r)"
proof -
  note d = agreeD [OF ag]
  have "in_complete (v_input e) \<inter> - v_visible (v_vis g) = in_complete (v_input e) \<inter> v_private (v_vis e)"
  proof -
    have "v_visible (v_vis g) = v_public (v_vis g) \<union> v_private (v_vis g)" "v_private (v_vis g) \<inter> v_blind (v_vis g) = {}"
        "v_public (v_vis g) \<inter> v_blind (v_vis g) = {}"
      using d(3) by (simp_all add: view_inv_def vis_inv_def)
    moreover have "in_complete (v_input e) \<subseteq> v_public (v_vis g) \<union> v_private (v_vis g) \<union> v_blind (v_vis g)"
      using d(3,7) by (simp add: view_inv_def)
    ultimately show ?thesis using d(15) by blast
  qed
  then have "(A - v_visible (v_vis g)) \<inter> in_complete (v_input e) = A \<inter> v_private (v_vis e) \<inter> in_complete (v_input e)" for A
    by blast
  then show ?thesis
    using view_inv_other(5) [OF d(3), of r] view_inv_other(5) [OF d(4), of r] d
    unfolding views_agree_def by (simp add: vis_dual_def view_decode_def Let_def)
qed

lemma agree_flush: "views_agree g e \<Longrightarrow> views_agree (complete_flush g) (complete_flush e)"
  using view_inv_other(6) [of g] view_inv_other(6) [of e]
  unfolding views_agree_def by (simp add: vis_dual_def complete_flush_def flush_clear_def Let_def)

lemmas agree_intros = agree_alloc agree_mark agree_assign agree_output agree_commit agree_decode agree_flush

lemma both_step_agree: "both_step (g, e) (g', e') \<Longrightarrow> views_agree g e \<Longrightarrow> views_agree g' e'"
proof (erule both_stepE)
  fix p g1 e1 assume ag: "views_agree g e" and eq: "(g', e') = (g1, e1)" and h: "garbler_op p g = Inr g1" "evaluator_op p e = Inr e1"
  show "views_agree g' e'" using h eq ag by (cases p) (auto intro: agree_intros)
qed

lemma views_agree_new: "views_agree (view_new Garbler) (view_new Evaluator)"
  by (simp add: views_agree_def view_new_def vis_dual_def view_inv_def vis_inv_new) (simp add: vis_new_def flush_default_def)

lemma reachable_run:
  "reachable (g, e) \<Longrightarrow> foldR garbler_op ps g = Inr g' \<Longrightarrow> foldR evaluator_op ps e = Inr e' \<Longrightarrow> reachable (g', e')"
proof (induction ps arbitrary: g e)
  case (Cons p ps)
  from Cons.prems(2,3) obtain g1 e1 where 1: "garbler_op p g = Inr g1" "foldR garbler_op ps g1 = Inr g'"
    "evaluator_op p e = Inr e1" "foldR evaluator_op ps e1 = Inr e'" by (auto simp: result_simps)
  then have "reachable (g1, e1)" using Cons.prems(1) by (blast intro: reachable.step both_step.intros)
  then show ?case by (rule Cons.IH [OF _ 1(2) 1(4)])
qed simp

lemma reachable_agree: "reachable s \<Longrightarrow> views_agree (fst s) (snd s)"
proof (induction rule: reachable.induct)
  case init
  then show ?case by (simp add: views_agree_new)
next
  case (step s t)
  then show ?case using both_step_agree [of "fst s" "snd s" "fst t" "snd t"] by simp
qed

section \<open>Properties of the views\<close>

text \<open>
  C3. The parties agree on every flush: after any sequence of operations both perform (the
  visibility of an input seen dually, assignments made by one side only), the two views record the
  same committed inputs, the same outputs and decode state, and the same ranges to be sent as MACs,
  by oblivious transfer, as decode information and as proofs.
\<close>

theorem flush_views_agree:
  assumes "reachable (g, e)"
  shows "v_flush g = v_flush e \<and> in_complete (v_input g) = in_complete (v_input e) \<and>
    v_output g = v_output e \<and> v_decode g = v_decode e \<and> view_inv g \<and> view_inv e"
  using reachable_agree [OF assms] by (simp add: views_agree_def)

theorem flush_views_agree_witness:
  "\<exists>g e. reachable (g, e) \<and> f_ot (v_flush g) = {0..<4} \<and> f_ot (v_flush e) = {0..<4}"
proof -
  let ?ops = "[AllocInput 4, MarkBlind (0, 4), AssignEvaluator (0, 4), Commit (0, 4)]"
  have u: "{0..<4} - {0..<4} = ({} :: nat set)" by simp
  obtain g where g: "foldR garbler_op ?ops (view_new Garbler) = Inr g" "f_ot (v_flush g) = {0..<4}"
    by (simp add: view_new_def vis_new_def view_alloc_input_def view_alloc_def vis_alloc_def mark_blind_def set_blind_def
        vis_is_set_any_def vis_is_set_def assert_allocated_def view_commit_def flush_default_def Let_def)
  obtain e where e: "foldR evaluator_op ?ops (view_new Evaluator) = Inr e"
    by (simp add: view_new_def vis_new_def view_alloc_input_def view_alloc_def vis_alloc_def mark_private_def set_private_def
        vis_is_set_any_def vis_is_set_def is_visible_def assert_allocated_def view_assign_def view_commit_def flush_default_def Let_def)
  have r: "reachable (g, e)" by (rule reachable_run [OF reachable.init g(1) e])
  from flush_views_agree [OF r] g(2) have "f_ot (v_flush e) = {0..<4}" by simp
  with r g(2) show ?thesis by blast
qed

text \<open>
  Marking already decoded data is not ignored: when a range to decode contains decoded outputs
  next to undecoded data, the decoded part is put into the next flush again.
\<close>

theorem decode_requeues_decoded:
  assumes "i \<in> rng r" "i \<in> out_all (v_output v)" "i \<in> out_complete (v_output v)" "i \<in> d_complete (v_decode v)"
    and "\<not> rng r \<subseteq> d_complete (v_decode v)"
  shows "i \<in> f_decode (v_flush (view_decode v r))"
  using assms by (cases "role v") (auto simp: view_decode_def Let_def)

theorem decode_requeues_decoded_witness:
  "0 \<in> f_decode (v_flush (view_decode ((view_new Garbler)\<lparr>v_output := \<lparr>preprocessed = {0}, out_complete = {0}, out_all = {0, 1}\<rparr>,
     v_decode := \<lparr>d_decode_info = {0}, d_complete = {0}, d_all = {0}\<rparr>\<rparr>) (0, 2)))"
proof -
  have "\<not> {0..<2} \<subseteq> {0 :: nat}" by (simp add: atLeast0_lessThan_Suc numeral_2_eq_2)
  then show ?thesis by (intro decode_requeues_decoded) auto
qed

end
