(* ===== verification/GStore.thy ===== *)
theory GStore
  imports MacStores GView
begin

text \<open>
  The memories of the two parties (\<open>garble-core/src/store.rs\<close>, \<open>store/garbler.rs\<close>,
  \<open>store/evaluator.rs\<close>) and the flush protocol between them.  The COT functionality is the type
  parameter \<open>'c\<close> of the code; its trait methods are arguments (\<open>None\<close> an error).  \<open>iter\<close> lists
  the ranges of a range set, \<open>hash\<close> is BLAKE3, \<open>prg_random\<close> draws one block from the generator.
  A oneshot channel is a number; what was sent on the channels of a store is its field \<open>sent\<close>.
  A failed call yields its error; the state it leaves behind is not used further.
\<close>

section \<open>Decode operations\<close>

datatype decode_error = DecodeError

record decode_op =
  op_slice :: slice
  op_chan :: "nat option"

type_synonym messages = "(nat \<times> bool list) list"

definition decode_new :: "slice \<Rightarrow> nat \<Rightarrow> decode_op" where
  "decode_new sl c = \<lparr>op_slice = sl, op_chan = Some c\<rparr>"

definition decode_send :: "decode_op \<Rightarrow> bool list \<Rightarrow> messages \<Rightarrow> (decode_error, decode_op \<times> messages) result" where
  "decode_send op data w =
     (case op_chan op of
        Some c \<Rightarrow> Inr (op\<lparr>op_chan := None\<rparr>, w @ [(c, data)])
      | None \<Rightarrow> Inl (Err DecodeError))"

text \<open>
  \<open>flush_decode\<close>: the operations whose data is set are taken out of the buffer and answered.
\<close>

fun flush_ops :: "bit_store \<Rightarrow> decode_op list \<Rightarrow> messages \<Rightarrow>
    (store_error + decode_error, decode_op list \<times> messages) result" where
  "flush_ops d [] w = Inr ([], w)"
| "flush_ops d (op # ops) w =
     (if bits_is_set d (op_slice op) then
        bindR (map_err Inl (bits_try_get d (op_slice op))) (\<lambda>data.
        bindR (map_err Inr (decode_send op data w)) (\<lambda>(op, w). flush_ops d ops w))
      else bindR (flush_ops d ops w) (\<lambda>(rest, w). Inr (op # rest, w)))"

definition slice_range :: "slice \<Rightarrow> nat \<times> nat" where
  "slice_range sl = (ptr sl, slice_end sl)"

text \<open>
  The loop \<open>for range in set.iter() { store.try_set(slice, &xs[i..i + slice.len()])?; i += slice.len(); }\<close>
  over the ranges of a set.
\<close>

fun fill_loop :: "('s \<Rightarrow> slice \<Rightarrow> 'a list \<Rightarrow> ('e, 's) result) \<Rightarrow> 'a list \<Rightarrow> nat \<Rightarrow> (nat \<times> nat) list \<Rightarrow> 's \<Rightarrow> ('e, 's) result" where
  "fill_loop put xs i [] s = Inr s"
| "fill_loop put xs i (r # rs) s =
     (let sl = from_range_unchecked r
      in bindR (subslice xs i (i + ssize sl)) (\<lambda>ys.
         bindR (put s sl ys) (fill_loop put xs (i + ssize sl) rs)))"

text \<open>The loop \<open>for range in set.iter() { v.extend(get(slice)?) }\<close>.\<close>

fun collect_loop :: "(slice \<Rightarrow> ('e, 'a list) result) \<Rightarrow> (nat \<times> nat) list \<Rightarrow> 'a list \<Rightarrow> ('e, 'a list) result" where
  "collect_loop get [] v = Inr v"
| "collect_loop get (r # rs) v = bindR (get (from_range_unchecked r)) (\<lambda>xs. collect_loop get rs (v @ xs))"

section \<open>Flush messages\<close>

record garbler_flush =
  gf_macs :: "mac list"
  gf_key_bits :: "bool list"
  gf_mac_commitments :: "mac_commitment list"

type_synonym mac_proof = "bool list \<times> 256 word"

record evaluator_flush =
  ef_mac_proof :: "mac_proof option"

text \<open>\<open>TryFrom<GarblerFlushUnchecked>\<close>, run on deserialisation.\<close>

definition garbler_flush_try_from ::
  "mac list \<times> bool list \<times> mac_commitment list \<Rightarrow> (string, garbler_flush) result" where
  "garbler_flush_try_from u =
     (let (macs, key_bits, mac_commitments) = u
      in if length mac_commitments \<noteq> length key_bits
         then Inl (Err ''garbler sent flush with invalid number of MAC commitments'')
         else Inr \<lparr>gf_macs = macs, gf_key_bits = key_bits, gf_mac_commitments = mac_commitments\<rparr>)"

section \<open>The garbler's store\<close>

datatype garbler_store_error =
    GsCot | GsKeyStore key_store_error | GsStore store_error | GsDecode decode_error | GsView view_error
  | GsIncorrectMacCount nat nat | GsUnexpectedFlush

record ('c, 'p) garbler_store =
  g_cot :: 'c
  g_prg :: 'p
  g_keys :: key_store
  g_data :: bit_store
  g_view :: view
  g_buffer :: "decode_op list"
  g_pending :: bool
  g_sent :: messages
  g_chans :: nat

definition gs_new :: "'p \<Rightarrow> delta \<Rightarrow> 'c \<Rightarrow> ('c, 'p) garbler_store" where
  "gs_new prg d cot =
     \<lparr>g_cot = cot, g_prg = prg, g_keys = key_store_new d, g_data = bit_store_new, g_view = view_new Garbler,
      g_buffer = [], g_pending = False, g_sent = [], g_chans = 0\<rparr>"

definition gs_is_set_keys :: "('c, 'p) garbler_store \<Rightarrow> slice \<Rightarrow> bool" where
  "gs_is_set_keys g sl = ks_is_set (g_keys g) sl"

definition gs_is_committed :: "('c, 'p) garbler_store \<Rightarrow> slice \<Rightarrow> bool" where
  "gs_is_committed g sl = view_is_committed (g_view g) (slice_range sl)"

definition gs_try_get_keys :: "('c, 'p) garbler_store \<Rightarrow> slice \<Rightarrow> (garbler_store_error, key list) result" where
  "gs_try_get_keys g sl = map_err GsKeyStore (ks_try_get (g_keys g) sl)"

definition gs_alloc_output :: "('c, 'p) garbler_store \<Rightarrow> nat \<Rightarrow> slice \<times> ('c, 'p) garbler_store" where
  "gs_alloc_output g len =
     (let g = g\<lparr>g_view := view_alloc_output (g_view g) len\<rparr>;
          g = g\<lparr>g_keys := snd (ks_alloc (g_keys g) len)\<rparr>;
          (sl, data) = bits_alloc (g_data g) len
      in (sl, g\<lparr>g_data := data\<rparr>))"

definition gs_set_output ::
  "('c, 'p) garbler_store \<Rightarrow> slice \<Rightarrow> key list \<Rightarrow> (garbler_store_error, ('c, 'p) garbler_store) result" where
  "gs_set_output g sl ks =
     bindR (map_err GsKeyStore (ks_try_set (g_keys g) sl ks)) (\<lambda>keys.
     bindR (map_err GsView (set_preprocessed (g_view g) (slice_range sl))) (\<lambda>v.
       Inr (g\<lparr>g_keys := keys, g_view := v\<rparr>)))"

definition gs_mark_output_complete ::
  "('c, 'p) garbler_store \<Rightarrow> slice \<Rightarrow> (garbler_store_error, ('c, 'p) garbler_store) result" where
  "gs_mark_output_complete g sl =
     bindR (map_err GsView (view_set_output (g_view g) (slice_range sl))) (\<lambda>v. Inr (g\<lparr>g_view := v\<rparr>))"

definition gs_wants_flush :: "('c, 'p) garbler_store \<Rightarrow> bool" where
  "gs_wants_flush g = view_wants_flush (g_view g)"

definition gs_flush_decode :: "('c, 'p) garbler_store \<Rightarrow> (garbler_store_error, ('c, 'p) garbler_store) result" where
  "gs_flush_decode g =
     bindR (map_err (case_sum GsStore GsDecode) (flush_ops (g_data g) (g_buffer g) (g_sent g))) (\<lambda>(buf, w).
       Inr (g\<lparr>g_buffer := buf, g_sent := w\<rparr>))"

text \<open>The two loops of \<open>send_flush\<close> that use up keys.\<close>

definition authenticate_step ::
  "bit_store \<Rightarrow> nat \<times> nat \<Rightarrow> mac list \<times> key_store \<Rightarrow> (garbler_store_error, mac list \<times> key_store) result" where
  "authenticate_step data r st =
     (let (macs, ks) = st; sl = from_range_unchecked r
      in bindR (map_err GsStore (bits_try_get data sl)) (\<lambda>bts.
         bindR (map_err GsKeyStore (authenticate ks sl bts)) (\<lambda>(ml, ks). Inr (macs @ ml, ks))))"

definition transfer_step ::
  "nat \<times> nat \<Rightarrow> key list \<times> key_store \<Rightarrow> (garbler_store_error, key list \<times> key_store) result" where
  "transfer_step r st =
     (let (keys, ks) = st
      in bindR (map_err GsKeyStore (oblivious_transfer ks (from_range_unchecked r))) (\<lambda>(kl, ks). Inr (keys @ kl, ks)))"

definition gs_send_flush ::
  "(nat set \<Rightarrow> (nat \<times> nat) list) \<Rightarrow> hasher \<Rightarrow> ('c \<Rightarrow> block list \<Rightarrow> 'c option) \<Rightarrow> ('c, 'p) garbler_store \<Rightarrow>
     (garbler_store_error, garbler_flush \<times> ('c, 'p) garbler_store) result" where
  "gs_send_flush iter hash queue_send_cot g =
     (if g_pending g then Inl (Err GsUnexpectedFlush)
      else
        let f = v_flush (g_view g)
        in bindR (foldR (authenticate_step (g_data g)) (iter (f_macs f)) ([], g_keys g)) (\<lambda>(macs, ks).
           bindR (if f_ot f \<noteq> {} then
                    bindR (foldR transfer_step (iter (f_ot f)) ([], ks)) (\<lambda>(keys, ks).
                      (case queue_send_cot (g_cot g) keys of
                         None \<Rightarrow> Inl (Err GsCot)
                       | Some cot \<Rightarrow> Inr (ks, cot)))
                  else Inr (ks, g_cot g)) (\<lambda>(ks, cot).
           bindR (map_err GsKeyStore (collect_loop (ks_try_get_bits ks) (iter (f_decode_info f)) [])) (\<lambda>key_bits.
           bindR (map_err GsKeyStore (collect_loop (ks_commit hash ks) (iter (f_decode_info f)) [])) (\<lambda>mac_commitments.
             Inr (\<lparr>gf_macs = macs, gf_key_bits = key_bits, gf_mac_commitments = mac_commitments\<rparr>,
                  g\<lparr>g_keys := ks, g_cot := cot, g_pending := True\<rparr>))))))"

definition gs_receive_flush ::
  "(nat set \<Rightarrow> (nat \<times> nat) list) \<Rightarrow> hasher \<Rightarrow> ('c, 'p) garbler_store \<Rightarrow> evaluator_flush \<Rightarrow>
     (garbler_store_error, ('c, 'p) garbler_store) result" where
  "gs_receive_flush iter hash g flush =
     (if \<not> g_pending g then Inl (Err GsUnexpectedFlush)
      else
        let f = v_flush (g_view g)
        in bindR (case ef_mac_proof flush of
                    None \<Rightarrow> Inr g
                  | Some (bts, prf) \<Rightarrow>
                      if length bts \<noteq> card (f_decode f)
                      then Inl (Err (GsIncorrectMacCount (card (f_decode f)) (length bts)))
                      else
                        bindR (map_err GsKeyStore (verify hash (g_keys g) (iter (f_decode f)) bts prf)) (\<lambda>bts.
                        bindR (map_err GsStore (fill_loop bits_try_set bts 0 (iter (f_decode f)) (g_data g))) (\<lambda>data.
                          Inr (g\<lparr>g_data := data\<rparr>)))) (\<lambda>g.
           let g = g\<lparr>g_view := complete_flush (g_view g)\<rparr>
           in bindR (gs_flush_decode g) (\<lambda>g. Inr (g\<lparr>g_pending := False\<rparr>))))"

definition gs_is_alloc :: "('c, 'p) garbler_store \<Rightarrow> slice \<Rightarrow> bool" where
  "gs_is_alloc g sl = view_is_alloc (g_view g) (slice_range sl)"

text \<open>\<open>(0..size).map(|_| self.prg.random())\<close>.\<close>

fun draw :: "('p \<Rightarrow> key \<times> 'p) \<Rightarrow> nat \<Rightarrow> 'p \<Rightarrow> key list \<times> 'p" where
  "draw prg_random 0 p = ([], p)"
| "draw prg_random (Suc n) p = (let (k, p) = prg_random p; (ks, p) = draw prg_random n p in (k # ks, p))"

definition gs_alloc :: "('p \<Rightarrow> key \<times> 'p) \<Rightarrow> ('c, 'p) garbler_store \<Rightarrow> nat \<Rightarrow> slice \<times> ('c, 'p) garbler_store" where
  "gs_alloc prg_random g n =
     (let (keys, prg) = draw prg_random n (g_prg g);
          g = g\<lparr>g_prg := prg, g_view := view_alloc_input (g_view g) n\<rparr>;
          g = g\<lparr>g_keys := snd (ks_alloc_with (g_keys g) keys)\<rparr>;
          (sl, data) = bits_alloc (g_data g) n
      in (sl, g\<lparr>g_data := data\<rparr>))"

definition gs_is_assigned :: "('c, 'p) garbler_store \<Rightarrow> slice \<Rightarrow> bool" where
  "gs_is_assigned g sl = bits_is_set (g_data g) sl"

definition gs_assign ::
  "('c, 'p) garbler_store \<Rightarrow> slice \<Rightarrow> bool list \<Rightarrow> (garbler_store_error, ('c, 'p) garbler_store) result" where
  "gs_assign g sl data =
     bindR (map_err GsView (view_assign (g_view g) (slice_range sl))) (\<lambda>v.
     bindR (map_err GsStore (bits_try_set (g_data g) sl data)) (\<lambda>st. Inr (g\<lparr>g_view := v, g_data := st\<rparr>)))"

definition gs_commit :: "('c, 'p) garbler_store \<Rightarrow> slice \<Rightarrow> (garbler_store_error, ('c, 'p) garbler_store) result" where
  "gs_commit g sl =
     bindR (map_err GsView (view_commit (g_view g) (slice_range sl))) (\<lambda>v. Inr (g\<lparr>g_view := v\<rparr>))"

definition gs_get :: "('c, 'p) garbler_store \<Rightarrow> slice \<Rightarrow> (garbler_store_error, bool list option) result" where
  "gs_get g sl = bits_get (g_data g) sl"

text \<open>\<open>if let Ok(data) = self.data_store.try_get(slice)\<close>: a panic of the index is still a panic.\<close>

definition gs_decode :: "('c, 'p) garbler_store \<Rightarrow> slice \<Rightarrow> (garbler_store_error, nat \<times> ('c, 'p) garbler_store) result" where
  "gs_decode g sl =
     (let g = g\<lparr>g_view := view_decode (g_view g) (slice_range sl)\<rparr>;
          c = g_chans g; op = decode_new sl c; g = g\<lparr>g_chans := c + 1\<rparr>
      in (case bits_try_get (g_data g) sl of
            Inr data \<Rightarrow> bindR (map_err GsDecode (decode_send op data (g_sent g))) (\<lambda>(op, w). Inr (c, g\<lparr>g_sent := w\<rparr>))
          | Inl Panic \<Rightarrow> Inl Panic
          | Inl (Err e) \<Rightarrow> Inr (c, g\<lparr>g_buffer := g_buffer g @ [op]\<rparr>)))"

definition gs_mark_public :: "('c, 'p) garbler_store \<Rightarrow> slice \<Rightarrow> (garbler_store_error, ('c, 'p) garbler_store) result" where
  "gs_mark_public g sl = bindR (map_err GsView (mark_public (g_view g) (slice_range sl))) (\<lambda>v. Inr (g\<lparr>g_view := v\<rparr>))"

definition gs_mark_private :: "('c, 'p) garbler_store \<Rightarrow> slice \<Rightarrow> (garbler_store_error, ('c, 'p) garbler_store) result" where
  "gs_mark_private g sl = bindR (map_err GsView (mark_private (g_view g) (slice_range sl))) (\<lambda>v. Inr (g\<lparr>g_view := v\<rparr>))"

definition gs_mark_blind ::
  "('c \<Rightarrow> nat \<Rightarrow> 'c option) \<Rightarrow> ('c, 'p) garbler_store \<Rightarrow> slice \<Rightarrow> (garbler_store_error, ('c, 'p) garbler_store) result" where
  "gs_mark_blind cot_alloc g sl =
     (case cot_alloc (g_cot g) (ssize sl) of
        None \<Rightarrow> Inl (Err GsCot)
      | Some cot \<Rightarrow>
          bindR (map_err GsView (mark_blind (g_view g) (slice_range sl))) (\<lambda>v. Inr (g\<lparr>g_cot := cot, g_view := v\<rparr>)))"

section \<open>The evaluator's store\<close>

datatype evaluator_store_error =
    EsCot | EsMacStore mac_store_error | EsStore store_error | EsDecode decode_error | EsView view_error
  | EsUnexpectedFlush | EsIncorrectMacCount nat nat | EsIncorrectMacCommitmentCount nat nat
  | EsIncorrectDecodeCount nat nat | EsMacCommitment mac_commitment_error

text \<open>\<open>'h\<close>: the future of a queued COT.  \<open>e_pending = Some None\<close>: a flush without COT is pending.\<close>

record ('c, 'h) evaluator_store =
  e_cot :: 'c
  e_macs :: mac_store
  e_key_bits :: bit_store
  e_commits :: "mac_commitment store"
  e_data :: bit_store
  e_view :: view
  e_buffer :: "decode_op list"
  e_pending :: "'h option option"
  e_sent :: messages
  e_chans :: nat

definition es_new :: "'c \<Rightarrow> ('c, 'h) evaluator_store" where
  "es_new cot =
     \<lparr>e_cot = cot, e_macs = mac_store_new, e_key_bits = bit_store_new, e_commits = store_new, e_data = bit_store_new,
      e_view = view_new Evaluator, e_buffer = [], e_pending = None, e_sent = [], e_chans = 0\<rparr>"

definition default_commitment :: mac_commitment where
  "default_commitment = (0, 0)"

definition es_alloc_output :: "('c, 'h) evaluator_store \<Rightarrow> nat \<Rightarrow> slice \<times> ('c, 'h) evaluator_store" where
  "es_alloc_output e n =
     (let e = e\<lparr>e_view := view_alloc_output (e_view e) n\<rparr>;
          e = e\<lparr>e_macs := snd (ms_alloc (e_macs e) n)\<rparr>;
          e = e\<lparr>e_key_bits := snd (bits_alloc (e_key_bits e) n)\<rparr>;
          e = e\<lparr>e_commits := snd (store_alloc default_commitment (e_commits e) n)\<rparr>;
          (sl, data) = bits_alloc (e_data e) n
      in (sl, e\<lparr>e_data := data\<rparr>))"

definition es_is_set_macs :: "('c, 'h) evaluator_store \<Rightarrow> slice \<Rightarrow> bool" where
  "es_is_set_macs e sl = ms_is_set (e_macs e) sl"

definition es_try_get_macs :: "('c, 'h) evaluator_store \<Rightarrow> slice \<Rightarrow> (evaluator_store_error, mac list) result" where
  "es_try_get_macs e sl = map_err EsMacStore (ms_try_get (e_macs e) sl)"

definition es_set_output ::
  "('c, 'h) evaluator_store \<Rightarrow> slice \<Rightarrow> mac list \<Rightarrow> (evaluator_store_error, ('c, 'h) evaluator_store) result" where
  "es_set_output e sl macs =
     bindR (map_err EsView (view_set_output (e_view e) (slice_range sl))) (\<lambda>v.
     bindR (map_err EsMacStore (ms_try_set (e_macs e) sl macs)) (\<lambda>ms. Inr (e\<lparr>e_view := v, e_macs := ms\<rparr>)))"

definition es_mark_output_preprocessed ::
  "('c, 'h) evaluator_store \<Rightarrow> slice \<Rightarrow> (evaluator_store_error, ('c, 'h) evaluator_store) result" where
  "es_mark_output_preprocessed e sl =
     bindR (map_err EsView (set_preprocessed (e_view e) (slice_range sl))) (\<lambda>v. Inr (e\<lparr>e_view := v\<rparr>))"

definition es_wants_flush :: "('c, 'h) evaluator_store \<Rightarrow> bool" where
  "es_wants_flush e = view_wants_flush (e_view e)"

text \<open>The body of the loop of \<open>decode_macs\<close>: unmask one range and check it against the commitments.\<close>

definition decode_macs_step ::
  "hasher \<Rightarrow> mac_store \<Rightarrow> bit_store \<Rightarrow> mac_commitment store \<Rightarrow> nat \<times> nat \<Rightarrow> bit_store \<Rightarrow>
     (evaluator_store_error, bit_store) result" where
  "decode_macs_step hash ms kb cs r st =
     (let sl = from_range_unchecked r
      in bindR (map_err EsMacStore (ms_try_get_bits ms sl)) (\<lambda>mac_bits.
         bindR (map_err EsStore (bits_try_get kb sl)) (\<lambda>key_bits.
           let data = map2 (\<noteq>) key_bits mac_bits; start_id = ptr sl
           in bindR (map_err EsMacStore (ms_try_get ms sl)) (\<lambda>macs.
              bindR (map_err EsStore (try_get cs sl)) (\<lambda>commitments.
              bindR (foldR (\<lambda>(i, ((m, b), c)) u. map_err EsMacCommitment (commitment_check hash c (of_nat (start_id + i)) b m))
                       (enumerate 0 (zip (zip macs data) commitments)) ()) (\<lambda>u.
                map_err EsStore (bits_try_set st sl data)))))))"

definition es_decode_macs ::
  "(nat set \<Rightarrow> (nat \<times> nat) list) \<Rightarrow> hasher \<Rightarrow> ('c, 'h) evaluator_store \<Rightarrow>
     (evaluator_store_error, ('c, 'h) evaluator_store) result" where
  "es_decode_macs iter hash e =
     (let ids = set_of (ms_macs (e_macs e)) \<inter> bset (e_key_bits e) - bset (e_data e)
      in bindR (foldR (decode_macs_step hash (e_macs e) (e_key_bits e) (e_commits e)) (iter ids) (e_data e)) (\<lambda>data.
           Inr (e\<lparr>e_data := data\<rparr>)))"

definition es_flush_decode ::
  "(nat set \<Rightarrow> (nat \<times> nat) list) \<Rightarrow> hasher \<Rightarrow> ('c, 'h) evaluator_store \<Rightarrow>
     (evaluator_store_error, ('c, 'h) evaluator_store) result" where
  "es_flush_decode iter hash e =
     bindR (es_decode_macs iter hash e) (\<lambda>e.
     bindR (map_err (case_sum EsStore EsDecode) (flush_ops (e_data e) (e_buffer e) (e_sent e))) (\<lambda>(buf, w).
       Inr (e\<lparr>e_buffer := buf, e_sent := w\<rparr>)))"

definition es_send_flush ::
  "(nat set \<Rightarrow> (nat \<times> nat) list) \<Rightarrow> hasher \<Rightarrow> ('c \<Rightarrow> bool list \<Rightarrow> ('c \<times> 'h) option) \<Rightarrow> ('c, 'h) evaluator_store \<Rightarrow>
     (evaluator_store_error, evaluator_flush \<times> ('c, 'h) evaluator_store) result" where
  "es_send_flush iter hash queue_recv_cot e =
     (if e_pending e \<noteq> None then Inl (Err EsUnexpectedFlush)
      else
        let f = v_flush (e_view e)
        in bindR (if f_ot f \<noteq> {} then
                    bindR (map_err EsStore (collect_loop (bits_try_get (e_data e)) (iter (f_ot f)) [])) (\<lambda>choices.
                      (case queue_recv_cot (e_cot e) choices of
                         None \<Rightarrow> Inl (Err EsCot)
                       | Some (cot, out) \<Rightarrow> Inr (Some out, cot)))
                  else Inr (None, e_cot e)) (\<lambda>(out, cot).
           bindR (if f_decode f \<noteq> {} then
                    bindR (map_err EsMacStore (prove_macs hash (e_macs e) (iter (f_decode f)))) (\<lambda>p. Inr (Some p))
                  else Inr None) (\<lambda>mac_proof.
             Inr (\<lparr>ef_mac_proof = mac_proof\<rparr>, e\<lparr>e_cot := cot, e_pending := Some out\<rparr>))))"

text \<open>The body of the last loop of \<open>receive_flush\<close>: key bits and commitments of one range.\<close>

definition put_decode_info ::
  "(bool \<times> mac_commitment) list \<Rightarrow> bit_store \<times> mac_commitment store \<Rightarrow> slice \<Rightarrow>
     (store_error, bit_store \<times> mac_commitment store) result" where
  "put_decode_info xs st sl =
     (let (kb, cs) = st
      in bindR (bits_try_set kb sl (map fst xs)) (\<lambda>kb. bindR (try_set cs sl (map snd xs)) (\<lambda>cs. Inr (kb, cs))))"

text \<open>\<open>try_recv\<close> of the COT future: an error (\<open>None\<close>), not ready (\<open>Some None\<close>) or the messages.\<close>

definition es_receive_flush ::
  "(nat set \<Rightarrow> (nat \<times> nat) list) \<Rightarrow> hasher \<Rightarrow> ('h \<Rightarrow> mac list option option) \<Rightarrow> ('c, 'h) evaluator_store \<Rightarrow>
     garbler_flush \<Rightarrow> (evaluator_store_error, ('c, 'h) evaluator_store) result" where
  "es_receive_flush iter hash try_recv e flush =
     (case e_pending e of
        None \<Rightarrow> Inl (Err EsUnexpectedFlush)
      | Some cot \<Rightarrow>
          let e = e\<lparr>e_pending := None\<rparr>; f = v_flush (e_view e)
          in if length (gf_macs flush) \<noteq> card (f_macs f)
             then Inl (Err (EsIncorrectMacCount (card (f_macs f)) (length (gf_macs flush))))
             else
               bindR (map_err EsMacStore (fill_loop ms_try_set (gf_macs flush) 0 (iter (f_macs f)) (e_macs e))) (\<lambda>ms.
               bindR (case cot of
                        None \<Rightarrow> Inr ms
                      | Some h \<Rightarrow>
                          (case try_recv h of
                             Some (Some macs) \<Rightarrow> map_err EsMacStore (fill_loop ms_try_set macs 0 (iter (f_ot f)) ms)
                           | _ \<Rightarrow> Inl (Err EsCot))) (\<lambda>ms.
               if length (gf_key_bits flush) \<noteq> card (f_decode_info f)
               then Inl (Err (EsIncorrectDecodeCount (card (f_decode_info f)) (length (gf_key_bits flush))))
               else if length (gf_mac_commitments flush) \<noteq> card (f_decode_info f)
               then Inl (Err (EsIncorrectMacCommitmentCount (card (f_decode_info f)) (length (gf_mac_commitments flush))))
               else
                 bindR (map_err EsStore (fill_loop (\<lambda>st sl xs. put_decode_info xs st sl)
                          (zip (gf_key_bits flush) (gf_mac_commitments flush)) 0 (iter (f_decode_info f))
                          (e_key_bits e, e_commits e))) (\<lambda>(kb, cs).
                   es_flush_decode iter hash
                     (e\<lparr>e_macs := ms, e_key_bits := kb, e_commits := cs, e_view := complete_flush (e_view e)\<rparr>)))))"

definition es_is_alloc :: "('c, 'h) evaluator_store \<Rightarrow> slice \<Rightarrow> bool" where
  "es_is_alloc e sl = view_is_alloc (e_view e) (slice_range sl)"

definition es_alloc :: "('c, 'h) evaluator_store \<Rightarrow> nat \<Rightarrow> slice \<times> ('c, 'h) evaluator_store" where
  "es_alloc e n =
     (let e = e\<lparr>e_view := view_alloc_input (e_view e) n\<rparr>;
          e = e\<lparr>e_macs := snd (ms_alloc (e_macs e) n)\<rparr>;
          e = e\<lparr>e_commits := snd (store_alloc default_commitment (e_commits e) n)\<rparr>;
          e = e\<lparr>e_key_bits := snd (bits_alloc (e_key_bits e) n)\<rparr>;
          (sl, data) = bits_alloc (e_data e) n
      in (sl, e\<lparr>e_data := data\<rparr>))"

definition es_is_assigned :: "('c, 'h) evaluator_store \<Rightarrow> slice \<Rightarrow> bool" where
  "es_is_assigned e sl = bits_is_set (e_data e) sl"

definition es_assign ::
  "('c, 'h) evaluator_store \<Rightarrow> slice \<Rightarrow> bool list \<Rightarrow> (evaluator_store_error, ('c, 'h) evaluator_store) result" where
  "es_assign e sl data =
     bindR (map_err EsView (view_assign (e_view e) (slice_range sl))) (\<lambda>v.
     bindR (map_err EsStore (bits_try_set (e_data e) sl data)) (\<lambda>st. Inr (e\<lparr>e_view := v, e_data := st\<rparr>)))"

definition es_is_committed :: "('c, 'h) evaluator_store \<Rightarrow> slice \<Rightarrow> bool" where
  "es_is_committed e sl = view_is_committed (e_view e) (slice_range sl)"

definition es_commit :: "('c, 'h) evaluator_store \<Rightarrow> slice \<Rightarrow> (evaluator_store_error, ('c, 'h) evaluator_store) result" where
  "es_commit e sl =
     bindR (map_err EsView (view_commit (e_view e) (slice_range sl))) (\<lambda>v. Inr (e\<lparr>e_view := v\<rparr>))"

definition es_get :: "('c, 'h) evaluator_store \<Rightarrow> slice \<Rightarrow> (evaluator_store_error, bool list option) result" where
  "es_get e sl = bits_get (e_data e) sl"

definition es_decode :: "('c, 'h) evaluator_store \<Rightarrow> slice \<Rightarrow> (evaluator_store_error, nat \<times> ('c, 'h) evaluator_store) result" where
  "es_decode e sl =
     (let e = e\<lparr>e_view := view_decode (e_view e) (slice_range sl)\<rparr>;
          c = e_chans e; op = decode_new sl c; e = e\<lparr>e_chans := c + 1\<rparr>
      in (case bits_try_get (e_data e) sl of
            Inr data \<Rightarrow> bindR (map_err EsDecode (decode_send op data (e_sent e))) (\<lambda>(op, w). Inr (c, e\<lparr>e_sent := w\<rparr>))
          | Inl Panic \<Rightarrow> Inl Panic
          | Inl (Err er) \<Rightarrow> Inr (c, e\<lparr>e_buffer := e_buffer e @ [op]\<rparr>)))"

definition es_mark_public :: "('c, 'h) evaluator_store \<Rightarrow> slice \<Rightarrow> (evaluator_store_error, ('c, 'h) evaluator_store) result" where
  "es_mark_public e sl = bindR (map_err EsView (mark_public (e_view e) (slice_range sl))) (\<lambda>v. Inr (e\<lparr>e_view := v\<rparr>))"

definition es_mark_private ::
  "('c \<Rightarrow> nat \<Rightarrow> 'c option) \<Rightarrow> ('c, 'h) evaluator_store \<Rightarrow> slice \<Rightarrow> (evaluator_store_error, ('c, 'h) evaluator_store) result" where
  "es_mark_private cot_alloc e sl =
     (case cot_alloc (e_cot e) (ssize sl) of
        None \<Rightarrow> Inl (Err EsCot)
      | Some cot \<Rightarrow>
          bindR (map_err EsView (mark_private (e_view e) (slice_range sl))) (\<lambda>v. Inr (e\<lparr>e_cot := cot, e_view := v\<rparr>)))"

definition es_mark_blind :: "('c, 'h) evaluator_store \<Rightarrow> slice \<Rightarrow> (evaluator_store_error, ('c, 'h) evaluator_store) result" where
  "es_mark_blind e sl = bindR (map_err EsView (mark_blind (e_view e) (slice_range sl))) (\<lambda>v. Inr (e\<lparr>e_view := v\<rparr>))"

end
