(* ===== verification/GStore_Correct.thy ===== *)
theory GStore_Correct
  imports GStore
begin

text \<open>
  The flush protocol between the two memories: the loops over range sets are reduced to updates of
  partial maps, and one round of flush messages is shown to succeed, to keep MACs, key bits,
  commitments and data of the two parties consistent, and to decode what it announced.
\<close>

section \<open>Iterating over range sets\<close>

text \<open>
  What the range-set iterator is documented to do: yield non-empty disjoint ranges in ascending order
  that cover the set.
\<close>

definition range_iter :: "(nat set \<Rightarrow> (nat \<times> nat) list) \<Rightarrow> bool" where
  "range_iter iter \<longleftrightarrow>
     (\<forall>S. finite S \<longrightarrow> proper (iter S) \<and> sorted (elems (iter S)) \<and> distinct (elems (iter S)) \<and> set (elems (iter S)) = S)"

lemma range_iterD:
  assumes "range_iter iter" "finite S"
  shows "proper (iter S)" "distinct (elems (iter S))" "set (elems (iter S)) = S" "length (elems (iter S)) = card S"
  using assms distinct_card [of "elems (iter S)"] by (auto simp: range_iter_def)

lemma to_range_from_range [simp]: "to_range (from_range_unchecked r) = {fst r..<snd r}"
  by (auto simp: to_range_def)

lemma put_at_range:
  assumes "length ys = snd r - fst r"
  shows "put_at m (from_range_unchecked r) ys = m ++ map_of (zip [fst r..<snd r] ys)"
proof
  fix i
  show "put_at m (from_range_unchecked r) ys i = (m ++ map_of (zip [fst r..<snd r] ys)) i"
  proof (cases "i \<in> {fst r..<snd r}")
    case True
    then have "map_of (zip [fst r..<snd r] ys) ([fst r..<snd r] ! (i - fst r)) = Some (ys ! (i - fst r))"
      using assms by (intro map_of_zip_nth) auto
    with True show ?thesis by (auto simp: put_at_def map_add_def)
  next
    case False
    then have "map_of (zip [fst r..<snd r] ys) i = None" using assms by (simp add: map_of_zip_is_None)
    with False show ?thesis by (auto simp: put_at_def map_add_def)
  qed
qed

context write_store
begin

lemma fill_ok:
  assumes "inv s" "proper rs" "distinct (elems rs)" "set (elems rs) \<inter> dom (abs s) = {}"
    "set (elems rs) \<subseteq> {0..<len s}" "length xs = i + length (elems rs)"
  shows "\<exists>s'. fill_loop put xs i rs s = Inr s' \<and> inv s' \<and> len s' = len s \<and>
    abs s' = abs s ++ map_of (zip (elems rs) (drop i xs))"
  using assms
proof (induction rs arbitrary: s i)
  case (Cons r rs)
  let ?sl = "from_range_unchecked r"
  define n where "n = snd r - fst r"
  define ys where "ys = take n (drop i xs)"
  have r: "fst r < snd r" using Cons.prems by auto
  have n: "length xs = i + n + length (elems rs)" using Cons.prems(6) by (simp add: n_def)
  have l: "length ys = n" using n by (simp add: ys_def)
  have sub: "subslice xs i (i + n) = (Inr ys :: (store_error, _) result)" using n by (simp add: subslice_def ys_def)
  have "fst r \<in> {fst r..<snd r}" using r by simp
  then have ns: "\<not> to_range ?sl \<subseteq> dom (abs s)" using Cons.prems(4) by fastforce
  have "snd r - 1 \<in> {0..<len s}" using Cons.prems(5) r by auto
  then have "slice_end ?sl \<le> len s" using r by (simp add: slice_end_def)
  then obtain s1 where s1: "put s ?sl ys = Inr s1" "inv s1" "len s1 = len s" "abs s1 = put_at (abs s) ?sl ys"
    using put_ok [OF Cons.prems(1) ns, of ys] l by (auto simp: n_def)
  have a1: "abs s1 = abs s ++ map_of (zip [fst r..<snd r] ys)" using s1(4) l by (simp add: put_at_range n_def)
  have "dom (abs s1) = {fst r..<snd r} \<union> dom (abs s)" using s1(4) by simp
  then have "set (elems rs) \<inter> dom (abs s1) = {}" using Cons.prems(3,4) by auto
  then obtain s' where s': "fill_loop put xs (i + n) rs s1 = Inr s'" "inv s'" "len s' = len s"
      "abs s' = abs s1 ++ map_of (zip (elems rs) (drop (i + n) xs))"
    using Cons.IH [OF s1(2), of "i + n"] Cons.prems(2,3,5) s1(3) n by auto
  have d: "drop i xs = ys @ drop (i + n) xs"
    unfolding ys_def by (metis add.commute append_take_drop_id drop_drop)
  have dj: "dom (map_of (zip [fst r..<snd r] ys)) \<inter> dom (map_of (zip (elems rs) (drop (i + n) xs))) = {}"
    using Cons.prems(3) l by (force dest: map_of_SomeD set_zip_leftD)
  have "abs s' = abs s ++ map_of (zip (elems (r # rs)) (drop i xs))"
    unfolding s'(4) a1 map_add_assoc [symmetric] map_add_comm [OF dj] using l
    by (simp add: d n_def zip_append map_of_append)
  with s' s1(1) sub show ?case by (simp add: n_def Let_def)
qed simp

end

lemma map_of_zip_map: "map_of (zip es (map f es)) = (\<lambda>i. if i \<in> set es then Some (f i) else None)"
  by (induction es) auto

text \<open>Stored values described by a function: filling \<open>S\<close> from \<open>map f (elems (iter S))\<close>.\<close>

definition override :: "(nat \<Rightarrow> 'a option) \<Rightarrow> nat set \<Rightarrow> (nat \<Rightarrow> 'a) \<Rightarrow> nat \<Rightarrow> 'a option" where
  "override m S f i = (if i \<in> S then Some (f i) else m i)"

lemma override_map_of: "m ++ map_of (zip es (map f es)) = override m (set es) f"
  by (rule ext) (simp add: map_of_zip_map map_add_def override_def)

lemma dom_override [simp]: "dom (override m S f) = dom m \<union> S"
  by (auto simp: override_def split: if_splits)

lemma fill_bits:
  assumes "range_iter iter" "bits_inv s" "S \<inter> bset s = {}" "S \<subseteq> {0..<length (bits s)}"
  shows "\<exists>s'. fill_loop bits_try_set (map f (elems (iter S))) 0 (iter S) s = Inr s' \<and> bits_inv s' \<and>
    length (bits s') = length (bits s) \<and> bits_abs s' = override (bits_abs s) S f"
proof -
  note i = range_iterD [OF assms(1) finite_subset [OF assms(4) finite_atLeastLessThan]]
  show ?thesis
    using bstore.fill_ok [OF assms(2) i(1,2), of "map f (elems (iter S))" 0] assms(3,4)
    by (simp add: override_map_of i(3))
qed

lemma fill_store:
  assumes "range_iter iter" "store_inv s" "S \<inter> set_of s = {}" "S \<subseteq> {0..<length (items s)}"
  shows "\<exists>s'. fill_loop try_set (map f (elems (iter S))) 0 (iter S) s = Inr s' \<and> store_inv s' \<and>
    length (items s') = length (items s) \<and> store_abs s' = override (store_abs s) S f"
proof -
  note i = range_iterD [OF assms(1) finite_subset [OF assms(4) finite_atLeastLessThan]]
  show ?thesis
    using vstore.fill_ok [OF assms(2) i(1,2), of "map f (elems (iter S))" 0] assms(3,4)
    by (simp add: override_map_of i(3) store_len_def)
qed


section \<open>The loops of the flush\<close>

lemma read_at_range: "read_at m (from_range_unchecked r) = map (\<lambda>i. the (m i)) [fst r..<snd r]" if "fst r < snd r"
  using that by (simp add: read_at_def)

lemma bits_get_range:
  assumes "bits_inv s" "fst r < snd r" "rng r \<subseteq> bset s"
  shows "bits_try_get s (from_range_unchecked r) = Inr (map ((!) (bits s)) [fst r..<snd r])"
proof -
  have "map (\<lambda>i. the (bits_abs s i)) [fst r..<snd r] = map ((!) (bits s)) [fst r..<snd r]"
    using assms(3) by (auto simp: bits_abs_def)
  then show ?thesis using bits_try_get_ok [OF assms(1), of "from_range_unchecked r"] assms(2,3)
    by (simp add: read_at_range)
qed

lemma collect_ok:
  assumes "\<And>r. r \<in> set rs \<Longrightarrow> get (from_range_unchecked r) = Inr (map h [fst r..<snd r])"
  shows "collect_loop get rs v = Inr (v @ map h (elems rs))"
  using assms by (induction rs arbitrary: v) auto

lemma elems_sub: "proper rs \<Longrightarrow> set (elems rs) \<subseteq> S \<Longrightarrow> r \<in> set rs \<Longrightarrow> fst r < snd r \<and> rng r \<subseteq> S"
  by (induction rs) auto

lemma collect_bits:
  assumes "bits_inv s" "proper rs" "set (elems rs) \<subseteq> bset s"
  shows "collect_loop (bits_try_get s) rs [] = Inr (map ((!) (bits s)) (elems rs))"
  using elems_sub [OF assms(2,3)] by (subst collect_ok) (auto intro: bits_get_range [OF assms(1)])

lemma collect_key_bits:
  assumes "store_inv (ks_keys ks)" "proper rs" "set (elems rs) \<subseteq> set_of (ks_keys ks)"
  shows "collect_loop (ks_try_get_bits ks) rs [] = Inr (map (\<lambda>i. lsb (items (ks_keys ks) ! i)) (elems rs))"
  using elems_sub [OF assms(2,3)]
  by (subst collect_ok [where h = "\<lambda>i. lsb (items (ks_keys ks) ! i)"])
    (auto simp: ks_try_get_bits_def try_get_range [OF assms(1)] key_pointer_def)

lemma enumerate_range: "map (\<lambda>(i, k). f k (a + i)) (enumerate 0 (map h [a..<b])) = map (\<lambda>j. f (h j) j) [a..<b]"
  by (rule nth_equalityI) (auto simp: nth_enumerate_eq)

lemma collect_commits:
  assumes "store_inv (ks_keys ks)" "proper rs" "set (elems rs) \<subseteq> set_of (ks_keys ks)"
  shows "collect_loop (ks_commit hash ks) rs [] =
    Inr (map (\<lambda>i. key_commit hash (items (ks_keys ks) ! i) (of_nat i) (ks_delta ks)) (elems rs))"
  using elems_sub [OF assms(2,3)]
    enumerate_range [of "\<lambda>k i. key_commit hash k (of_nat i) (ks_delta ks)" _ "(!) (items (ks_keys ks))"]
  by (subst collect_ok) (auto simp: ks_commit_def try_get_range [OF assms(1)] Let_def)

lemma authenticate_loop:
  assumes "store_inv (ks_keys ks)" "bits_inv data" "proper rs" "distinct (elems rs)"
    "set (elems rs) \<subseteq> set_of (ks_keys ks)" "set (elems rs) \<subseteq> bset data" "set (elems rs) \<inter> used ks = {}"
  shows "foldR (authenticate_step data) rs (macs, ks) =
    Inr (macs @ map (\<lambda>i. key_auth (items (ks_keys ks) ! i) (bits data ! i) (ks_delta ks)) (elems rs),
         ks\<lparr>used := used ks \<union> set (elems rs)\<rparr>)"
  using assms
proof (induction rs arbitrary: macs ks)
  case (Cons r rs)
  let ?sl = "from_range_unchecked r" and ?ks = "ks\<lparr>used := used ks \<union> rng r\<rparr>" and ?K = "items (ks_keys ks)"
  let ?ml = "map (\<lambda>i. key_auth (?K ! i) (bits data ! i) (ks_delta ks)) [fst r..<snd r]"
  have r: "fst r < snd r" "rng r \<subseteq> set_of (ks_keys ks)" "rng r \<subseteq> bset data" "rng r \<inter> used ks = {}"
    using Cons.prems by auto
  have "authenticate ks ?sl (map ((!) (bits data)) [fst r..<snd r]) = Inr (?ml, ?ks)"
    using r Cons.prems(1)
    by (simp add: authenticate_def ks_is_used_def is_set_def try_get_range Let_def zip_map_map map_zip_map case_prod_unfold
        zip_same_conv_map comp_def)
  then have "authenticate_step data r (macs, ks) = Inr (macs @ ?ml, ?ks)"
    using r Cons.prems(2) by (simp add: authenticate_step_def bits_get_range)
  moreover have "foldR (authenticate_step data) rs (macs @ ?ml, ?ks) =
      Inr ((macs @ ?ml) @ map (\<lambda>i. key_auth (?K ! i) (bits data ! i) (ks_delta ks)) (elems rs),
         ?ks\<lparr>used := used ?ks \<union> set (elems rs)\<rparr>)"
    using Cons.prems by (subst Cons.IH) auto
  ultimately show ?case by (simp add: Un_assoc)
qed simp

lemma transfer_loop:
  assumes "store_inv (ks_keys ks)" "proper rs" "distinct (elems rs)"
    "set (elems rs) \<subseteq> set_of (ks_keys ks)" "set (elems rs) \<inter> used ks = {}"
  shows "foldR transfer_step rs (kl, ks) =
    Inr (kl @ map ((!) (items (ks_keys ks))) (elems rs), ks\<lparr>used := used ks \<union> set (elems rs)\<rparr>)"
  using assms
proof (induction rs arbitrary: kl ks)
  case (Cons r rs)
  let ?ks = "ks\<lparr>used := used ks \<union> rng r\<rparr>" and ?K = "items (ks_keys ks)"
  have r: "fst r < snd r" "rng r \<subseteq> set_of (ks_keys ks)" "rng r \<inter> used ks = {}"
    using Cons.prems by auto
  then have "transfer_step r (kl, ks) = Inr (kl @ map ((!) ?K) [fst r..<snd r], ?ks)"
    using Cons.prems(1) by (simp add: transfer_step_def oblivious_transfer_def ks_is_used_def is_set_def try_get_range)
  moreover have "foldR transfer_step rs (kl @ map ((!) ?K) [fst r..<snd r], ?ks) =
      Inr ((kl @ map ((!) ?K) [fst r..<snd r]) @ map ((!) ?K) (elems rs), ?ks\<lparr>used := used ?ks \<union> set (elems rs)\<rparr>)"
    using Cons.prems by (subst Cons.IH) auto
  ultimately show ?case by (simp add: Un_assoc)
qed simp

lemma fill_macs:
  "fill_loop try_set xs i rs (ms_macs ms) = Inr st \<Longrightarrow> fill_loop ms_try_set xs i rs ms = Inr (ms\<lparr>ms_macs := st\<rparr>)"
proof (induction rs arbitrary: i ms)
  case (Cons r rs)
  then obtain ys s1 where 1: "subslice xs i (i + (snd r - fst r)) = (Inr ys :: (store_error, _) result)"
      "try_set (ms_macs ms) (from_range_unchecked r) ys = Inr s1" "fill_loop try_set xs (i + (snd r - fst r)) rs s1 = Inr st"
    by (auto simp: Let_def result_simps)
  then have "fill_loop ms_try_set xs (i + (snd r - fst r)) rs (ms\<lparr>ms_macs := s1\<rparr>) = Inr (ms\<lparr>ms_macs := st\<rparr>)"
    using Cons.IH [of _ "ms\<lparr>ms_macs := s1\<rparr>"] by simp
  moreover have "subslice xs i (i + (snd r - fst r)) = (Inr ys :: (mac_store_error, _) result)"
    using 1(1) by (auto simp: subslice_def split: if_splits)
  moreover have "ms_try_set ms (from_range_unchecked r) ys = Inr (ms\<lparr>ms_macs := s1\<rparr>)"
    using 1(2) by (simp add: ms_try_set_def)
  ultimately show ?case by (simp add: Let_def)
qed simp

lemma fill_decode_info:
  assumes "fill_loop bits_try_set xs i rs kb = Inr kb'" "fill_loop try_set ys i rs cs = Inr cs'" "length xs = length ys"
  shows "fill_loop (\<lambda>st sl zs. put_decode_info zs st sl) (zip xs ys) i rs (kb, cs) = Inr (kb', cs')"
  using assms
proof (induction rs arbitrary: i kb cs)
  case (Cons r rs)
  then obtain kb1 cs1 where 1: "i + (snd r - fst r) \<le> length xs"
      "bits_try_set kb (from_range_unchecked r) (take (snd r - fst r) (drop i xs)) = Inr kb1"
      "try_set cs (from_range_unchecked r) (take (snd r - fst r) (drop i ys)) = Inr cs1"
      "fill_loop bits_try_set xs (i + (snd r - fst r)) rs kb1 = Inr kb'"
      "fill_loop try_set ys (i + (snd r - fst r)) rs cs1 = Inr cs'"
    by (auto simp: Let_def result_simps subslice_def split: if_splits)
  have "map fst (take (snd r - fst r) (drop i (zip xs ys))) = take (snd r - fst r) (drop i xs)"
       "map snd (take (snd r - fst r) (drop i (zip xs ys))) = take (snd r - fst r) (drop i ys)"
    using Cons.prems(3) by (simp_all add: drop_zip take_zip)
  with 1 Cons.IH [OF 1(4,5) Cons.prems(3)] Cons.prems(3) show ?case
    by (simp add: Let_def subslice_def put_decode_info_def)
qed simp


section \<open>Decoding with key bits and commitments\<close>

lemma foldR_fill:
  fixes put :: "'s \<Rightarrow> slice \<Rightarrow> 'a list \<Rightarrow> ('e, 's) result"
  assumes "\<And>r st. r \<in> set rs \<Longrightarrow> step r st = map_err E (put st (from_range_unchecked r) (map X [fst r..<snd r]))"
  shows "foldR step rs st = map_err E (fill_loop put (pre @ map X (elems rs)) (length pre) rs st)"
  using assms
proof (induction rs arbitrary: st pre)
  case (Cons r rs)
  let ?d = "map X [fst r..<snd r]"
  have sub: "subslice (pre @ map X (elems (r # rs))) (length pre) (length pre + (snd r - fst r)) = (Inr ?d :: ('e, _) result)"
    by (simp add: subslice_def)
  have st: "step r st = map_err E (put st (from_range_unchecked r) ?d)" by (rule Cons.prems) simp
  have IH: "foldR step rs st' = map_err E (fill_loop put (pre @ map X (elems (r # rs))) (length pre + (snd r - fst r)) rs st')" for st'
    using Cons.IH [of st' "pre @ ?d"] Cons.prems by simp
  show ?case
  proof (cases "put st (from_range_unchecked r) ?d")
    case (Inl e)
    with sub show ?thesis by (cases e) (simp_all add: st Let_def)
  next
    case (Inr st')
    with sub show ?thesis by (simp add: st Let_def IH)
  qed
qed simp

text \<open>Every commitment opens to the MAC of its bit.\<close>

definition opens :: "hasher \<Rightarrow> mac_commitment store \<Rightarrow> mac_store \<Rightarrow> (nat \<Rightarrow> bool) \<Rightarrow> nat \<Rightarrow> bool" where
  "opens hash cs ms X i \<longleftrightarrow> commitment_check hash (items cs ! i) (of_nat i) (X i) (items (ms_macs ms) ! i) = Inr ()"

lemma check_loop:
  assumes "\<And>i. a \<le> i \<Longrightarrow> i < b \<Longrightarrow> commitment_check hash (C i) (of_nat i) (X i) (M i) = Inr ()"
  shows "foldR (\<lambda>(i, ((m, v), c)) u. map_err E (commitment_check hash c (of_nat (a + i)) v m))
    (enumerate n (zip (zip (map M [a + n..<b]) (map X [a + n..<b])) (map C [a + n..<b]))) () = Inr ()"
proof (induction "b - (a + n)" arbitrary: n)
  case (Suc k)
  then have l: "a + n < b" and k: "k = b - (a + Suc n)" by simp_all
  show ?case using Suc.hyps(1) [OF k] l assms [of "a + n"] by (simp add: upt_conv_Cons del: upt_Suc)
qed simp

lemma decode_macs_step_ok:
  assumes "store_inv (ms_macs ms)" "bits_inv kb" "store_inv cs" "fst r < snd r"
    "rng r \<subseteq> set_of (ms_macs ms)" "rng r \<subseteq> bset kb" "rng r \<subseteq> set_of cs"
    and X: "\<And>i. i \<in> rng r \<Longrightarrow> X i = (bits kb ! i \<noteq> lsb (items (ms_macs ms) ! i)) \<and> opens hash cs ms X i"
  shows "decode_macs_step hash ms kb cs r st = map_err EsStore (bits_try_set st (from_range_unchecked r) (map X [fst r..<snd r]))"
proof -
  let ?M = "\<lambda>i. items (ms_macs ms) ! i"
  have d: "map2 (\<lambda>x y. x = (\<not> y)) (map ((!) (bits kb)) [fst r..<snd r]) (map (\<lambda>i. lsb (?M i)) [fst r..<snd r]) = map X [fst r..<snd r]"
    by (rule nth_equalityI) (use X in auto)
  have "opens hash cs ms X i" if "i \<in> rng r" for i using X [OF that] by blast
  then have o: "commitment_check hash (items cs ! i) (of_nat i) (X i) (?M i) = Inr ()" if "fst r \<le> i" "i < snd r" for i
    using that by (auto simp: opens_def)
  have c: "foldR (\<lambda>(i, ((m, v), c)) u. map_err EsMacCommitment (commitment_check hash c (of_nat (fst r + i)) v m))
      (enumerate 0 (zip (zip (map ?M [fst r..<snd r]) (map X [fst r..<snd r])) (map ((!) (items cs)) [fst r..<snd r]))) () = Inr ()"
    using check_loop [where a = "fst r" and b = "snd r" and n = 0 and M = ?M and C = "(!) (items cs)"
        and E = EsMacCommitment and X = X and hash = hash, OF o] by simp
  have g: "try_get (ms_macs ms) (from_range_unchecked r) = Inr (map ?M [fst r..<snd r])"
      "try_get cs (from_range_unchecked r) = Inr (map ((!) (items cs)) [fst r..<snd r])"
      "bits_try_get kb (from_range_unchecked r) = Inr (map ((!) (bits kb)) [fst r..<snd r])"
    using assms by (simp_all add: try_get_range bits_get_range)
  show ?thesis
    by (simp add: decode_macs_step_def ms_try_get_bits_def ms_try_get_def g mac_pointer_def Let_def comp_def d c
        del: of_nat_add)
qed

text \<open>\<open>decode_macs\<close> decodes exactly what has a MAC and a key bit and is not yet known.\<close>

lemma decode_macs_ok:
  fixes e :: "('c, 'h) evaluator_store"
  defines "S \<equiv> set_of (ms_macs (e_macs e)) \<inter> bset (e_key_bits e) - bset (e_data e)"
  assumes it: "range_iter iter" and inv: "store_inv (ms_macs (e_macs e))" "bits_inv (e_key_bits e)"
    "store_inv (e_commits e)" "bits_inv (e_data e)" "bset (e_key_bits e) \<subseteq> set_of (e_commits e)"
    and len: "length (items (ms_macs (e_macs e))) \<le> length (bits (e_data e))"
    and X: "\<And>i. i \<in> S \<Longrightarrow> X i = (bits (e_key_bits e) ! i \<noteq> lsb (items (ms_macs (e_macs e)) ! i)) \<and>
        opens hash (e_commits e) (e_macs e) X i"
  shows "\<exists>st. es_decode_macs iter hash e = Inr (e\<lparr>e_data := st\<rparr>) \<and> bits_inv st \<and>
    length (bits st) = length (bits (e_data e)) \<and> bits_abs st = override (bits_abs (e_data e)) S X"
proof -
  have sub: "S \<subseteq> {0..<length (bits (e_data e))}" using inv(1) len by (auto simp: S_def store_inv_def)
  note i = range_iterD [OF it finite_subset [OF sub finite_atLeastLessThan]]
  have "foldR (decode_macs_step hash (e_macs e) (e_key_bits e) (e_commits e)) (iter S) (e_data e) =
      map_err EsStore (fill_loop bits_try_set ([] @ map X (elems (iter S))) (length ([] :: bool list)) (iter S) (e_data e))"
  proof (rule foldR_fill, rule decode_macs_step_ok)
    fix r assume r: "r \<in> set (iter S)"
    have "rng r \<subseteq> S" "fst r < snd r" using elems_sub [OF i(1) _ r] i(3) by auto
    then show "fst r < snd r" "rng r \<subseteq> set_of (ms_macs (e_macs e))" "rng r \<subseteq> bset (e_key_bits e)"
        "rng r \<subseteq> set_of (e_commits e)"
        "\<And>j. j \<in> rng r \<Longrightarrow> X j = (bits (e_key_bits e) ! j \<noteq> lsb (items (ms_macs (e_macs e)) ! j)) \<and>
           opens hash (e_commits e) (e_macs e) X j"
      using inv(5) X by (auto simp: S_def)
  qed (rule inv)+
  moreover have "S \<inter> bset (e_data e) = {}" by (auto simp: S_def)
  ultimately show ?thesis
    using fill_bits [OF it inv(4) _ sub, of X] by (auto simp: es_decode_macs_def S_def [symmetric] Let_def)
qed

section \<open>Answering decode operations\<close>

definition ops_ok :: "nat \<Rightarrow> decode_op list \<Rightarrow> bool" where
  "ops_ok n ops \<longleftrightarrow> (\<forall>op \<in> set ops. op_chan op \<noteq> None \<and> slice_end (op_slice op) \<le> n)"

lemma flush_ops_ok:
  assumes "ops_ok (length (bits d)) ops"
  shows "flush_ops d ops w =
    Inr (filter (\<lambda>op. \<not> bits_is_set d (op_slice op)) ops,
         w @ map (\<lambda>op. (the (op_chan op), segment (bits d) (op_slice op))) (filter (\<lambda>op. bits_is_set d (op_slice op)) ops))"
  using assms
proof (induction ops arbitrary: w)
  case (Cons op ops)
  have ok: "ops_ok (length (bits d)) ops" and e: "slice_end (op_slice op) \<le> length (bits d)"
    and "op_chan op \<noteq> None" using Cons.prems by (auto simp: ops_ok_def)
  then obtain c where c: "op_chan op = Some c" by auto
  show ?case
    using c e by (auto simp: Cons.IH [OF ok] bits_is_set_def bits_try_get_def index_slice_segment decode_send_def)
qed simp


section \<open>The two memories\<close>

text \<open>
  \<open>shapes_ok\<close>: every store covers the \<open>n\<close> allocated addresses.  \<open>values_ok\<close>: MACs authenticate the
  bits \<open>X\<close> under the garbler's keys, data on either side is \<open>X\<close>, key bits and commitments are those
  of the keys.
\<close>

definition shapes_ok :: "nat \<Rightarrow> ('c, 'p) garbler_store \<Rightarrow> ('d, 'h) evaluator_store \<Rightarrow> bool" where
  "shapes_ok n g e \<longleftrightarrow>
     ks_inv (g_keys g) \<and> bits_inv (g_data g) \<and> ms_inv (e_macs e) \<and> bits_inv (e_key_bits e) \<and>
     store_inv (e_commits e) \<and> bits_inv (e_data e) \<and>
     length (items (ks_keys (g_keys g))) = n \<and> length (bits (g_data g)) = n \<and>
     length (items (ms_macs (e_macs e))) = n \<and> length (bits (e_key_bits e)) = n \<and>
     length (items (e_commits e)) = n \<and> length (bits (e_data e)) = n \<and>
     ops_ok n (g_buffer g) \<and> ops_ok n (e_buffer e)"

definition values_ok :: "hasher \<Rightarrow> ('c, 'p) garbler_store \<Rightarrow> ('d, 'h) evaluator_store \<Rightarrow> (nat \<Rightarrow> bool) \<Rightarrow> bool" where
  "values_ok hash g e X \<longleftrightarrow>
     corr (g_keys g) (e_macs e) X (set_of (ms_macs (e_macs e))) \<and>
     (\<forall>i \<in> bset (g_data g). bits (g_data g) ! i = X i) \<and> (\<forall>i \<in> bset (e_data e). bits (e_data e) ! i = X i) \<and>
     bset (e_key_bits e) = set_of (e_commits e) \<and> bset (e_key_bits e) \<subseteq> set_of (ks_keys (g_keys g)) \<and>
     (\<forall>i \<in> bset (e_key_bits e). bits (e_key_bits e) ! i = lsb (items (ks_keys (g_keys g)) ! i) \<and>
        items (e_commits e) ! i = key_commit hash (items (ks_keys (g_keys g)) ! i) (of_nat i) (ks_delta (g_keys g)))"

text \<open>
  What the next flush announces can be carried out: the data, keys and MACs it needs are there, no
  key was used before, and nothing it delivers is there already.
\<close>

definition flush_ready :: "('c, 'p) garbler_store \<Rightarrow> ('d, 'h) evaluator_store \<Rightarrow> bool" where
  "flush_ready g e \<longleftrightarrow>
     (let f = v_flush (g_view g); keys = set_of (ks_keys (g_keys g)); macs = set_of (ms_macs (e_macs e))
      in \<not> g_pending g \<and> e_pending e = None \<and> v_flush (e_view e) = f \<and>
         f_macs f \<subseteq> keys \<inter> bset (g_data g) \<and> f_ot f \<subseteq> keys \<inter> bset (e_data e) \<and> f_macs f \<inter> f_ot f = {} \<and>
         (f_macs f \<union> f_ot f) \<inter> (used (g_keys g) \<union> macs) = {} \<and>
         f_decode_info f \<subseteq> keys - bset (e_key_bits e) \<and> f_decode f \<subseteq> macs - bset (g_data g))"

definition no_duplicates :: "hasher \<Rightarrow> key_store \<Rightarrow> bool" where
  "no_duplicates hash ks \<longleftrightarrow>
     (\<forall>i \<in> set_of (ks_keys ks). mac_hash hash (of_nat i) (items (ks_keys ks) ! i) \<noteq>
        mac_hash hash (of_nat i) (items (ks_keys ks) ! i XOR ks_delta ks))"

lemma override_bits:
  assumes "bits_abs s' = override (bits_abs s) S f"
  shows "bset s' = bset s \<union> S" "i \<in> bset s' \<Longrightarrow> bits s' ! i = (if i \<in> S then f i else bits s ! i)"
proof -
  show "bset s' = bset s \<union> S" using arg_cong [OF assms, of dom] by simp
  then show "bits s' ! i = (if i \<in> S then f i else bits s ! i)" if "i \<in> bset s'"
    using fun_cong [OF assms, of i] that by (auto simp: bits_abs_def override_def split: if_splits)
qed

lemma override_items:
  assumes "store_abs s' = override (store_abs s) S f"
  shows "set_of s' = set_of s \<union> S" "i \<in> set_of s' \<Longrightarrow> items s' ! i = (if i \<in> S then f i else items s ! i)"
proof -
  show "set_of s' = set_of s \<union> S" using arg_cong [OF assms, of dom] by simp
  then show "items s' ! i = (if i \<in> S then f i else items s ! i)" if "i \<in> set_of s'"
    using fun_cong [OF assms, of i] that by (auto simp: store_abs_def override_def split: if_splits)
qed

text \<open>The two messages a round of flushing exchanges, written over the memories.\<close>

definition flush_message ::
  "(nat set \<Rightarrow> (nat \<times> nat) list) \<Rightarrow> hasher \<Rightarrow> key_store \<Rightarrow> (nat \<Rightarrow> bool) \<Rightarrow> flush_view \<Rightarrow> garbler_flush" where
  "flush_message iter hash ks X f =
     \<lparr>gf_macs = map (\<lambda>i. key_auth (items (ks_keys ks) ! i) (X i) (ks_delta ks)) (elems (iter (f_macs f))),
      gf_key_bits = map (\<lambda>i. lsb (items (ks_keys ks) ! i)) (elems (iter (f_decode_info f))),
      gf_mac_commitments = map (\<lambda>i. key_commit hash (items (ks_keys ks) ! i) (of_nat i) (ks_delta ks))
        (elems (iter (f_decode_info f)))\<rparr>"

lemma ready_finite:
  assumes "shapes_ok n g e" "flush_ready g e"
  shows "f_macs (v_flush (g_view g)) \<subseteq> {0..<n}" "f_ot (v_flush (g_view g)) \<subseteq> {0..<n}"
    "f_decode_info (v_flush (g_view g)) \<subseteq> {0..<n}" "f_decode (v_flush (g_view g)) \<subseteq> {0..<n}"
  using assms by (auto simp: shapes_ok_def flush_ready_def ks_inv_def ms_inv_def store_inv_def Let_def)

lemma gs_send_ok:
  assumes it: "range_iter iter" and ok: "shapes_ok n g e" "values_ok hash g e X" "flush_ready g e"
    and cot: "f_ot (v_flush (g_view g)) \<noteq> {} \<Longrightarrow>
      queue_send (g_cot g) (map ((!) (items (ks_keys (g_keys g)))) (elems (iter (f_ot (v_flush (g_view g)))))) = Some cot'"
  shows "\<exists>c. gs_send_flush iter hash queue_send g =
    Inr (flush_message iter hash (g_keys g) X (v_flush (g_view g)),
         g\<lparr>g_keys := (g_keys g)\<lparr>used := used (g_keys g) \<union> f_macs (v_flush (g_view g)) \<union> f_ot (v_flush (g_view g))\<rparr>,
           g_cot := c, g_pending := True\<rparr>)"
proof -
  let ?f = "v_flush (g_view g)" and ?ks = "g_keys g" and ?K = "items (ks_keys (g_keys g))"
  let ?k1 = "?ks\<lparr>used := used ?ks \<union> f_macs ?f\<rparr>"
  note fin = ready_finite [OF ok(1,3), THEN finite_subset, OF finite_atLeastLessThan]
  note m = range_iterD [OF it fin(1)] and t = range_iterD [OF it fin(2)] and d = range_iterD [OF it fin(3)]
  have inv: "store_inv (ks_keys ?ks)" "bits_inv (g_data g)" using ok(1) by (auto simp: shapes_ok_def ks_inv_def)
  have r: "f_macs ?f \<subseteq> set_of (ks_keys ?ks)" "f_macs ?f \<subseteq> bset (g_data g)" "f_macs ?f \<inter> used ?ks = {}"
      "f_ot ?f \<subseteq> set_of (ks_keys ?ks)" "f_ot ?f \<inter> (used ?ks \<union> f_macs ?f) = {}"
      "f_decode_info ?f \<subseteq> set_of (ks_keys ?ks)" "\<not> g_pending g"
    using ok(3) by (auto simp: flush_ready_def Let_def)
  have X: "map (\<lambda>i. key_auth (?K ! i) (bits (g_data g) ! i) (ks_delta ?ks)) (elems (iter (f_macs ?f))) =
      map (\<lambda>i. key_auth (?K ! i) (X i) (ks_delta ?ks)) (elems (iter (f_macs ?f)))"
    using ok(2) r(2) m(3) by (auto simp: values_ok_def)
  have 1: "foldR (authenticate_step (g_data g)) (iter (f_macs ?f)) ([], ?ks) =
      Inr (map (\<lambda>i. key_auth (?K ! i) (X i) (ks_delta ?ks)) (elems (iter (f_macs ?f))), ?k1)"
    using authenticate_loop [OF inv m(1,2), of "[]"] r m(3) X by simp
  have 2: "foldR transfer_step (iter (f_ot ?f)) ([], ?k1) =
      Inr (map ((!) ?K) (elems (iter (f_ot ?f))), ?k1\<lparr>used := used ?k1 \<union> f_ot ?f\<rparr>)"
    using transfer_loop [of ?k1 "iter (f_ot ?f)" "[]"] inv t r by simp
  define ks where "ks = ?ks\<lparr>used := used ?ks \<union> f_macs ?f \<union> f_ot ?f\<rparr>"
  have ks: "ks_keys ks = ks_keys ?ks" "ks_delta ks = ks_delta ?ks" by (simp_all add: ks_def)
  have 3: "collect_loop (ks_try_get_bits ks) (iter (f_decode_info ?f)) [] =
        Inr (map (\<lambda>i. lsb (?K ! i)) (elems (iter (f_decode_info ?f))))"
      "collect_loop (ks_commit hash ks) (iter (f_decode_info ?f)) [] =
        Inr (map (\<lambda>i. key_commit hash (?K ! i) (of_nat i) (ks_delta ?ks)) (elems (iter (f_decode_info ?f))))"
    using inv d r by (simp_all add: collect_key_bits collect_commits ks)
  show ?thesis
  proof (cases "f_ot ?f = {}")
    case True
    then have "?k1 = ks" by (simp add: ks_def)
    with True show ?thesis using r 1 3
      by (auto simp: gs_send_flush_def flush_message_def Let_def ks_def intro!: exI [of _ "g_cot g"])
  next
    case False
    have "?k1\<lparr>used := used ?k1 \<union> f_ot ?f\<rparr> = ks" by (simp add: ks_def)
    with False show ?thesis using r 1 2 3 cot
      by (auto simp: gs_send_flush_def flush_message_def Let_def ks_def intro!: exI [of _ cot'])
  qed
qed

end
