(* ===== verification/GFlush.thy ===== *)
theory GFlush
  imports GStore_Correct
begin

text \<open>
  One complete round of the flush protocol of \<open>garble-core/src/store\<close>: both sends, the COT, both
  receives; and the discipline of the pending flags.
\<close>

lemma es_send_ok:
  assumes it: "range_iter iter" and ok: "shapes_ok n g e" "values_ok hash g e X" "flush_ready g e"
    and cot: "f_ot (v_flush (g_view g)) \<noteq> {} \<Longrightarrow>
      queue_recv (e_cot e) (map X (elems (iter (f_ot (v_flush (g_view g)))))) = Some (cot', h)"
  shows "\<exists>c p. es_send_flush iter hash queue_recv e =
      Inr (\<lparr>ef_mac_proof = p\<rparr>,
           e\<lparr>e_cot := c, e_pending := Some (if f_ot (v_flush (g_view g)) = {} then None else Some h)\<rparr>) \<and>
    (f_decode (v_flush (g_view g)) = {} \<longrightarrow> p = None) \<and>
    (f_decode (v_flush (g_view g)) \<noteq> {} \<longrightarrow> (\<exists>bts pf. p = Some (bts, pf) \<and>
       verify hash (g_keys g) (iter (f_decode (v_flush (g_view g)))) bts pf =
         Inr (map X (elems (iter (f_decode (v_flush (g_view g)))))) \<and>
       length bts = card (f_decode (v_flush (g_view g)))))"
proof -
  let ?f = "v_flush (g_view g)"
  note fin = ready_finite [OF ok(1,3), THEN finite_subset, OF finite_atLeastLessThan]
  note t = range_iterD [OF it fin(2)] and d = range_iterD [OF it fin(4)]
  have r: "f_ot ?f \<subseteq> bset (e_data e)" "f_decode ?f \<subseteq> set_of (ms_macs (e_macs e))" "e_pending e = None" "v_flush (e_view e) = ?f"
    using ok(3) by (auto simp: flush_ready_def Let_def)
  have "bits_inv (e_data e)" using ok(1) by (simp add: shapes_ok_def)
  then have "collect_loop (bits_try_get (e_data e)) (iter (f_ot ?f)) [] = Inr (map ((!) (bits (e_data e))) (elems (iter (f_ot ?f))))"
    using t r(1) by (simp add: collect_bits)
  moreover have "map ((!) (bits (e_data e))) (elems (iter (f_ot ?f))) = map X (elems (iter (f_ot ?f)))"
    using ok(2) r(1) t(3) by (auto simp: values_ok_def)
  ultimately have c: "collect_loop (bits_try_get (e_data e)) (iter (f_ot ?f)) [] = Inr (map X (elems (iter (f_ot ?f))))" by simp
  have i: "ks_inv (g_keys g)" "ms_inv (e_macs e)" "corr (g_keys g) (e_macs e) X (set (elems (iter (f_decode ?f))))"
    using ok(1,2) r(2) d(3) by (auto simp: shapes_ok_def values_ok_def corr_def)
  obtain bts pf where p: "prove_macs hash (e_macs e) (iter (f_decode ?f)) = Inr (bts, pf)"
      "verify hash (g_keys g) (iter (f_decode ?f)) bts pf = Inr (map X (elems (iter (f_decode ?f))))"
    using prove_verify [OF i(1,2) d(1) i(3)] by blast
  then have l: "length bts = card (f_decode ?f)"
    by (auto simp: verify_def ranges_len_elems result_simps d(4))
  show ?thesis
    using r c p l cot
    by (intro exI [of _ "if f_ot ?f = {} then e_cot e else cot'"] exI [of _ "if f_decode ?f = {} then None else Some (bts, pf)"])
      (simp add: es_send_flush_def Let_def)
qed

lemma verify_used: "verify hash (ks\<lparr>used := u\<rparr>) rs bts pf = verify hash ks rs bts pf"
proof -
  have "verify_loop (ks\<lparr>used := u\<rparr>) bts i rs = verify_loop ks bts i rs" for i
    by (induction rs arbitrary: i) (simp_all add: Let_def)
  then show ?thesis by (simp add: verify_def)
qed

lemma gs_flush_decode_ok:
  assumes "ops_ok n (g_buffer g)" "length (bits (g_data g)) = n"
  shows "\<exists>buf w. gs_flush_decode g = Inr (g\<lparr>g_buffer := buf, g_sent := w\<rparr>) \<and> ops_ok n buf"
  using flush_ops_ok [of "g_data g" "g_buffer g" "g_sent g"] assms
  by (auto simp: gs_flush_decode_def ops_ok_def)

lemma gs_receive_ok:
  fixes g :: "('c, 'p) garbler_store"
  assumes it: "range_iter iter" and ok: "shapes_ok n g e" "flush_ready g e"
    and g1: "g1 = g\<lparr>g_keys := (g_keys g)\<lparr>used := u\<rparr>, g_cot := c, g_pending := True\<rparr>"
    and p: "f_decode (v_flush (g_view g)) = {} \<Longrightarrow> p = None"
      "f_decode (v_flush (g_view g)) \<noteq> {} \<Longrightarrow> \<exists>bts pf. p = Some (bts, pf) \<and>
         verify hash (g_keys g) (iter (f_decode (v_flush (g_view g)))) bts pf =
           Inr (map X (elems (iter (f_decode (v_flush (g_view g)))))) \<and>
         length bts = card (f_decode (v_flush (g_view g)))"
  shows "\<exists>st buf w. gs_receive_flush iter hash g1 \<lparr>ef_mac_proof = p\<rparr> =
      Inr (g1\<lparr>g_data := st, g_view := complete_flush (g_view g), g_buffer := buf, g_sent := w, g_pending := False\<rparr>) \<and>
    ops_ok n buf \<and> bits_inv st \<and> length (bits st) = n \<and>
    bits_abs st = override (bits_abs (g_data g)) (f_decode (v_flush (g_view g))) X"
proof -
  let ?f = "v_flush (g_view g)"
  have inv: "bits_inv (g_data g)" "length (bits (g_data g)) = n" "ops_ok n (g_buffer g)"
    using ok(1) by (auto simp: shapes_ok_def)
  have "f_decode ?f \<inter> bset (g_data g) = {}" "f_decode ?f \<subseteq> {0..<length (bits (g_data g))}"
    using ok(2) ready_finite(4) [OF ok] inv(2) by (auto simp: flush_ready_def Let_def)
  then obtain st where st: "fill_loop bits_try_set (map X (elems (iter (f_decode ?f)))) 0 (iter (f_decode ?f)) (g_data g) = Inr st"
      "bits_inv st" "length (bits st) = n" "bits_abs st = override (bits_abs (g_data g)) (f_decode ?f) X"
    using fill_bits [OF it inv(1), of "f_decode ?f" X] inv(2) by blast
  define d where "d = (if f_decode ?f = {} then g_data g else st)"
  have d: "length (bits d) = n" "bits_inv d" "bits_abs d = override (bits_abs (g_data g)) (f_decode ?f) X"
    using st inv by (auto simp: d_def override_def)
  let ?g = "g1\<lparr>g_data := d, g_view := complete_flush (g_view g)\<rparr>"
  have "ops_ok n (g_buffer ?g)" "length (bits (g_data ?g)) = n" using inv d g1 by simp_all
  then obtain buf w where b: "gs_flush_decode ?g = Inr (?g\<lparr>g_buffer := buf, g_sent := w\<rparr>)" "ops_ok n buf"
    using gs_flush_decode_ok by blast
  have "gs_receive_flush iter hash g1 \<lparr>ef_mac_proof = p\<rparr> = Inr (?g\<lparr>g_buffer := buf, g_sent := w, g_pending := False\<rparr>)"
  proof (cases "f_decode ?f = {}")
    case True
    have "g1\<lparr>g_view := complete_flush (g_view g)\<rparr> = ?g" using True g1 by (simp add: d_def)
    then show ?thesis using b(1) p(1) [OF True] g1 by (simp add: gs_receive_flush_def Let_def)
  next
    case False
    then obtain bts pf where "p = Some (bts, pf)" "length bts = card (f_decode ?f)"
        "verify hash (g_keys g) (iter (f_decode ?f)) bts pf = Inr (map X (elems (iter (f_decode ?f))))"
      using p(2) by blast
    then show ?thesis using b(1) g1 st(1) False by (simp add: gs_receive_flush_def verify_used d_def Let_def)
  qed
  with b(2) d show ?thesis by (intro exI [of _ d] exI [of _ buf] exI [of _ w]) simp
qed


lemma fill_two:
  assumes it: "range_iter iter" and s: "store_inv s" "length (items s) = n"
    and S: "S \<subseteq> {0..<n}" "T \<subseteq> {0..<n}" "(S \<union> T) \<inter> set_of s = {}" "S \<inter> T = {}"
  shows "\<exists>s1 s2. fill_loop try_set (map f (elems (iter S))) 0 (iter S) s = Inr s1 \<and>
    fill_loop try_set (map f (elems (iter T))) 0 (iter T) s1 = Inr s2 \<and> store_inv s2 \<and> length (items s2) = n \<and>
    store_abs s2 = override (store_abs s) (S \<union> T) f \<and> (T = {} \<longrightarrow> s1 = s2)"
proof -
  obtain s1 where s1: "fill_loop try_set (map f (elems (iter S))) 0 (iter S) s = Inr s1" "store_inv s1"
      "length (items s1) = n" "store_abs s1 = override (store_abs s) S f"
    using fill_store [OF it s(1), of S f] S s(2) by auto
  have "T \<inter> set_of s1 = {}" using S override_items(1) [OF s1(4)] by auto
  then obtain s2 where s2: "fill_loop try_set (map f (elems (iter T))) 0 (iter T) s1 = Inr s2" "store_inv s2"
      "length (items s2) = n" "store_abs s2 = override (store_abs s1) T f"
    using fill_store [OF it s1(2), of T f] S(2) s1(3) by auto
  have "iter T = []" if "T = {}"
  proof -
    have "proper (iter {})" "set (elems (iter {})) = {}" using range_iterD [OF it, of "{}"] by auto
    then show ?thesis using that by (cases "iter T") auto
  qed
  moreover have "store_abs s2 = override (store_abs s) (S \<union> T) f"
    unfolding s2(4) s1(4) by (auto simp: override_def)
  ultimately show ?thesis using s1 s2 by (intro exI [of _ s1] exI [of _ s2]) auto
qed

lemma fill_pair:
  assumes it: "range_iter iter" and kb: "bits_inv kb" "length (bits kb) = n" and cs: "store_inv cs" "length (items cs) = n"
    and S: "S \<subseteq> {0..<n}" "S \<inter> bset kb = {}" "S \<inter> set_of cs = {}"
  shows "\<exists>kb' cs'. fill_loop (\<lambda>st sl zs. put_decode_info zs st sl)
      (zip (map k (elems (iter S))) (map c (elems (iter S)))) 0 (iter S) (kb, cs) = Inr (kb', cs') \<and>
    bits_inv kb' \<and> length (bits kb') = n \<and> bits_abs kb' = override (bits_abs kb) S k \<and>
    store_inv cs' \<and> length (items cs') = n \<and> store_abs cs' = override (store_abs cs) S c"
proof -
  obtain kb' where k: "fill_loop bits_try_set (map k (elems (iter S))) 0 (iter S) kb = Inr kb'" "bits_inv kb'"
      "length (bits kb') = n" "bits_abs kb' = override (bits_abs kb) S k"
    using fill_bits [OF it kb(1), of S k] S kb(2) by auto
  obtain cs' where c: "fill_loop try_set (map c (elems (iter S))) 0 (iter S) cs = Inr cs'" "store_inv cs'"
      "length (items cs') = n" "store_abs cs' = override (store_abs cs) S c"
    using fill_store [OF it cs(1), of S c] S cs(2) by auto
  show ?thesis using fill_decode_info [OF k(1) c(1)] k c by auto
qed

lemma es_flush_decode_ok:
  assumes "es_decode_macs iter hash e = Inr (e\<lparr>e_data := st\<rparr>)" "ops_ok n (e_buffer e)" "length (bits st) = n"
  shows "\<exists>buf w. es_flush_decode iter hash e = Inr (e\<lparr>e_data := st, e_buffer := buf, e_sent := w\<rparr>) \<and> ops_ok n buf"
  using flush_ops_ok [of st "e_buffer e" "e_sent e"] assms
  by (auto simp: es_flush_decode_def ops_ok_def)

text \<open>The evaluator after a flush: its stores extended by what the flush carried.\<close>

lemma es_receive_ok:
  fixes e :: "('d, 'h) evaluator_store" and g :: "('c, 'p) garbler_store"
  defines "f \<equiv> v_flush (g_view g)" and "K \<equiv> items (ks_keys (g_keys g))" and "d \<equiv> ks_delta (g_keys g)"
  assumes it: "range_iter iter" and ok: "shapes_ok n g e" "values_ok hash g e X" "flush_ready g e" "no_duplicates hash (g_keys g)"
    and e1: "e1 = e\<lparr>e_cot := c, e_pending := Some (if f_ot f = {} then None else Some h)\<rparr>"
    and cot: "f_ot f \<noteq> {} \<Longrightarrow> try_recv h = Some (Some (map (\<lambda>i. key_auth (K ! i) (X i) d) (elems (iter (f_ot f)))))"
  shows "\<exists>e'. es_receive_flush iter hash try_recv e1 (flush_message iter hash (g_keys g) X f) = Inr e' \<and>
    e_pending e' = None \<and> e_view e' = complete_flush (e_view e) \<and> ops_ok n (e_buffer e') \<and>
    store_inv (ms_macs (e_macs e')) \<and> length (items (ms_macs (e_macs e'))) = n \<and>
    store_abs (ms_macs (e_macs e')) = override (store_abs (ms_macs (e_macs e))) (f_macs f \<union> f_ot f) (\<lambda>i. key_auth (K ! i) (X i) d) \<and>
    bits_inv (e_key_bits e') \<and> length (bits (e_key_bits e')) = n \<and>
    bits_abs (e_key_bits e') = override (bits_abs (e_key_bits e)) (f_decode_info f) (\<lambda>i. lsb (K ! i)) \<and>
    store_inv (e_commits e') \<and> length (items (e_commits e')) = n \<and>
    store_abs (e_commits e') = override (store_abs (e_commits e)) (f_decode_info f) (\<lambda>i. key_commit hash (K ! i) (of_nat i) d) \<and>
    bits_inv (e_data e') \<and> length (bits (e_data e')) = n \<and>
    bits_abs (e_data e') = override (bits_abs (e_data e))
      (set_of (ms_macs (e_macs e')) \<inter> bset (e_key_bits e') - bset (e_data e)) X"
proof -
  note fin = ready_finite [OF ok(1,3), folded f_def]
  note fin' = fin [THEN finite_subset, OF finite_atLeastLessThan]
  note lens = range_iterD(4) [OF it fin'(1)] range_iterD(4) [OF it fin'(3)]
  have sh: "store_inv (ms_macs (e_macs e))" "length (items (ms_macs (e_macs e))) = n" "bits_inv (e_key_bits e)"
      "length (bits (e_key_bits e)) = n" "store_inv (e_commits e)" "length (items (e_commits e)) = n"
      "bits_inv (e_data e)" "length (bits (e_data e)) = n" "ops_ok n (e_buffer e)" "lsb d"
    using ok(1) by (auto simp: shapes_ok_def ms_inv_def ks_inv_def d_def)
  have r: "v_flush (e_view e) = f" "(f_macs f \<union> f_ot f) \<inter> set_of (ms_macs (e_macs e)) = {}" "f_macs f \<inter> f_ot f = {}"
      "f_decode_info f \<inter> bset (e_key_bits e) = {}" "f_decode_info f \<inter> set_of (e_commits e) = {}"
      "bset (e_key_bits e) = set_of (e_commits e)"
    using ok(2,3) by (auto simp: flush_ready_def values_ok_def Let_def f_def)
  let ?A = "\<lambda>i. key_auth (K ! i) (X i) d"
  obtain m1 m2 where m: "fill_loop try_set (map ?A (elems (iter (f_macs f)))) 0 (iter (f_macs f)) (ms_macs (e_macs e)) = Inr m1"
      "fill_loop try_set (map ?A (elems (iter (f_ot f)))) 0 (iter (f_ot f)) m1 = Inr m2" "store_inv m2" "length (items m2) = n"
      "store_abs m2 = override (store_abs (ms_macs (e_macs e))) (f_macs f \<union> f_ot f) ?A" "f_ot f = {} \<longrightarrow> m1 = m2"
    using fill_two [OF it sh(1,2) fin(1,2) r(2,3), of ?A] by blast
  obtain kb cs where k: "fill_loop (\<lambda>st sl zs. put_decode_info zs st sl) (zip (map (\<lambda>i. lsb (K ! i)) (elems (iter (f_decode_info f))))
        (map (\<lambda>i. key_commit hash (K ! i) (of_nat i) d) (elems (iter (f_decode_info f))))) 0 (iter (f_decode_info f))
        (e_key_bits e, e_commits e) = Inr (kb, cs)"
      "bits_inv kb" "length (bits kb) = n" "bits_abs kb = override (bits_abs (e_key_bits e)) (f_decode_info f) (\<lambda>i. lsb (K ! i))"
      "store_inv cs" "length (items cs) = n"
      "store_abs cs = override (store_abs (e_commits e)) (f_decode_info f) (\<lambda>i. key_commit hash (K ! i) (of_nat i) d)"
    using fill_pair [OF it sh(3-6) fin(3) r(4,5), of "\<lambda>i. lsb (K ! i)" "\<lambda>i. key_commit hash (K ! i) (of_nat i) d"] by blast
  let ?ms = "(e_macs e)\<lparr>ms_macs := m2\<rparr>"
  define e2 where "e2 = e1\<lparr>e_pending := None, e_macs := ?ms, e_key_bits := kb, e_commits := cs, e_view := complete_flush (e_view e)\<rparr>"
  have M: "items m2 ! i = ?A i" if "i \<in> set_of m2" for i
    using override_items [OF m(5)] that ok(2) by (auto simp: values_ok_def corr_def mac_ok_iff_auth K_def d_def)
  have KB: "bits kb ! i = lsb (K ! i)" if "i \<in> bset kb" for i
    using override_bits [OF k(4)] that ok(2) by (auto simp: values_ok_def K_def)
  have CS: "items cs ! i = key_commit hash (K ! i) (of_nat i) d" if "i \<in> set_of cs" for i
    using override_items [OF k(7)] that ok(2) by (auto simp: values_ok_def K_def d_def)
  have kbcs: "bset kb = set_of cs" using override_bits(1) [OF k(4)] override_items(1) [OF k(7)] r(6) by simp
  have sub: "bset kb \<subseteq> set_of (ks_keys (g_keys g))"
    using override_bits(1) [OF k(4)] ok(2,3) by (auto simp: values_ok_def flush_ready_def Let_def f_def)
  have X: "X i = (bits kb ! i \<noteq> lsb (items m2 ! i)) \<and> opens hash cs ?ms X i" if i: "i \<in> set_of m2 \<inter> bset kb" for i
  proof
    have "mac_ok d (K ! i) (items m2 ! i) (X i)" using M i by simp
    then show "X i = (bits kb ! i \<noteq> lsb (items m2 ! i))" using mac_ok_lsb sh(10) KB i by fastforce
    show "opens hash cs ?ms X i"
      using i ok(4) sub kbcs
      by (auto simp: opens_def M CS commitment_check_def key_commit_def key_auth_def BLOCK_ZERO_def no_duplicates_def K_def d_def Let_def)
  qed
  obtain st where st: "es_decode_macs iter hash e2 = Inr (e2\<lparr>e_data := st\<rparr>)" "bits_inv st" "length (bits st) = n"
      "bits_abs st = override (bits_abs (e_data e)) (set_of m2 \<inter> bset kb - bset (e_data e)) X"
    using decode_macs_ok [OF it, of e2 X hash] m(3,4) k(2,5) sh kbcs X by (auto simp: e2_def e1)
  obtain buf w where b: "es_flush_decode iter hash e2 = Inr (e2\<lparr>e_data := st, e_buffer := buf, e_sent := w\<rparr>)" "ops_ok n buf"
    using es_flush_decode_ok [OF st(1) _ st(3)] sh(9) by (auto simp: e2_def e1)
  have "es_receive_flush iter hash try_recv e1 (flush_message iter hash (g_keys g) X f) =
      Inr (e2\<lparr>e_data := st, e_buffer := buf, e_sent := w\<rparr>)"
  proof (cases "f_ot f = {}")
    case True
    then show ?thesis
      using fill_macs [OF m(1)] m(6) k(1) b(1) lens r(1)
      by (simp add: es_receive_flush_def flush_message_def e1 e2_def K_def [symmetric] d_def [symmetric] Let_def)
  next
    case False
    have "fill_loop ms_try_set (map ?A (elems (iter (f_ot f)))) 0 (iter (f_ot f)) ((e_macs e)\<lparr>ms_macs := m1\<rparr>) = Inr ?ms"
      using fill_macs [of _ _ _ "(e_macs e)\<lparr>ms_macs := m1\<rparr>"] m(2) by simp
    with False show ?thesis
      using fill_macs [OF m(1)] k(1) b(1) lens r(1) cot [OF False]
      by (simp add: es_receive_flush_def flush_message_def e1 e2_def K_def [symmetric] d_def [symmetric] Let_def)
  qed
  then show ?thesis using b(2) m(3-5) k(2-7) st(2-4) by (simp add: e2_def)
qed


section \<open>A round of flushing\<close>

text \<open>What a round makes of the two stores, by what they held and what the flush of the garbler's view announces.\<close>

definition g_flushed :: "nat \<Rightarrow> (nat \<Rightarrow> bool) \<Rightarrow> ('c, 'p) garbler_store \<Rightarrow> ('c, 'p) garbler_store \<Rightarrow> bool" where
  "g_flushed n X g g' \<longleftrightarrow>
     (let f = v_flush (g_view g)
      in g_keys g' = (g_keys g)\<lparr>used := used (g_keys g) \<union> f_macs f \<union> f_ot f\<rparr> \<and>
         g_view g' = complete_flush (g_view g) \<and> \<not> g_pending g' \<and> ops_ok n (g_buffer g') \<and>
         bits_inv (g_data g') \<and> length (bits (g_data g')) = n \<and> bits_abs (g_data g') = override (bits_abs (g_data g)) (f_decode f) X)"

definition e_flushed ::
  "nat \<Rightarrow> hasher \<Rightarrow> (nat \<Rightarrow> bool) \<Rightarrow> ('c, 'p) garbler_store \<Rightarrow> ('d, 'h) evaluator_store \<Rightarrow> ('d, 'h) evaluator_store \<Rightarrow> bool" where
  "e_flushed n hash X g e e' \<longleftrightarrow>
     (let f = v_flush (g_view g); K = items (ks_keys (g_keys g)); d = ks_delta (g_keys g)
      in e_pending e' = None \<and> e_view e' = complete_flush (e_view e) \<and> ops_ok n (e_buffer e') \<and>
         store_inv (ms_macs (e_macs e')) \<and> length (items (ms_macs (e_macs e'))) = n \<and>
         store_abs (ms_macs (e_macs e')) = override (store_abs (ms_macs (e_macs e))) (f_macs f \<union> f_ot f) (\<lambda>i. key_auth (K ! i) (X i) d) \<and>
         bits_inv (e_key_bits e') \<and> length (bits (e_key_bits e')) = n \<and>
         bits_abs (e_key_bits e') = override (bits_abs (e_key_bits e)) (f_decode_info f) (\<lambda>i. lsb (K ! i)) \<and>
         store_inv (e_commits e') \<and> length (items (e_commits e')) = n \<and>
         store_abs (e_commits e') = override (store_abs (e_commits e)) (f_decode_info f) (\<lambda>i. key_commit hash (K ! i) (of_nat i) d) \<and>
         bits_inv (e_data e') \<and> length (bits (e_data e')) = n \<and>
         bits_abs (e_data e') = override (bits_abs (e_data e)) (set_of (ms_macs (e_macs e')) \<inter> bset (e_key_bits e') - bset (e_data e)) X)"

text \<open>Both sends and both receives succeed.\<close>

lemma flush_exchange:
  fixes g :: "('c, 'p) garbler_store" and e :: "('d, 'h) evaluator_store"
  defines "f \<equiv> v_flush (g_view g)" and "K \<equiv> items (ks_keys (g_keys g))" and "d \<equiv> ks_delta (g_keys g)"
  assumes "range_iter iter" "shapes_ok n g e" "values_ok hash g e X" "flush_ready g e" "no_duplicates hash (g_keys g)"
    and cot: "queue_send (g_cot g) (map ((!) K) (elems (iter (f_ot f)))) = Some cs"
      "queue_recv (e_cot e) (map X (elems (iter (f_ot f)))) = Some (cr, h)"
      "try_recv h = Some (Some (map (\<lambda>i. key_auth (K ! i) (X i) d) (elems (iter (f_ot f)))))"
  shows "\<exists>gf ef g1 e1 g' e'.
    gs_send_flush iter hash queue_send g = Inr (gf, g1) \<and> es_send_flush iter hash queue_recv e = Inr (ef, e1) \<and>
    gs_receive_flush iter hash g1 ef = Inr g' \<and> es_receive_flush iter hash try_recv e1 gf = Inr e' \<and>
    g_flushed n X g g' \<and> e_flushed n hash X g e e'"
proof -
  define u where "u = used (g_keys g) \<union> f_macs f \<union> f_ot f"
  obtain c where g1: "gs_send_flush iter hash queue_send g = Inr (flush_message iter hash (g_keys g) X f,
      g\<lparr>g_keys := (g_keys g)\<lparr>used := u\<rparr>, g_cot := c, g_pending := True\<rparr>)"
    using gs_send_ok [OF assms(4-7), of queue_send cs] cot(1) unfolding f_def K_def u_def by blast
  obtain c2 p where e1: "es_send_flush iter hash queue_recv e = Inr (\<lparr>ef_mac_proof = p\<rparr>,
        e\<lparr>e_cot := c2, e_pending := Some (if f_ot f = {} then None else Some h)\<rparr>)"
      and p: "f_decode f = {} \<longrightarrow> p = None" "f_decode f \<noteq> {} \<longrightarrow> (\<exists>bts pf. p = Some (bts, pf) \<and>
        verify hash (g_keys g) (iter (f_decode f)) bts pf = Inr (map X (elems (iter (f_decode f)))) \<and>
        length bts = card (f_decode f))"
    using es_send_ok [OF assms(4-7), of queue_recv cr h] cot(2) unfolding f_def by blast
  let ?g1 = "g\<lparr>g_keys := (g_keys g)\<lparr>used := u\<rparr>, g_cot := c, g_pending := True\<rparr>"
  let ?e1 = "e\<lparr>e_cot := c2, e_pending := Some (if f_ot f = {} then None else Some h)\<rparr>"
  obtain st buf w where g': "gs_receive_flush iter hash ?g1 \<lparr>ef_mac_proof = p\<rparr> =
        Inr (?g1\<lparr>g_data := st, g_view := complete_flush (g_view g), g_buffer := buf, g_sent := w, g_pending := False\<rparr>)"
      and st: "ops_ok n buf" "bits_inv st" "length (bits st) = n" "bits_abs st = override (bits_abs (g_data g)) (f_decode f) X"
    using gs_receive_ok [where u = u and c = c and p = p and hash = hash and X = X, OF assms(4,5,7) refl] p unfolding f_def by blast
  then have "g_flushed n X g (?g1\<lparr>g_data := st, g_view := complete_flush (g_view g), g_buffer := buf, g_sent := w, g_pending := False\<rparr>)"
    by (simp add: g_flushed_def u_def f_def Let_def)
  moreover obtain e' where "es_receive_flush iter hash try_recv ?e1 (flush_message iter hash (g_keys g) X f) = Inr e'"
      "e_flushed n hash X g e e'"
    using es_receive_ok [where c = c2 and h = h and try_recv = try_recv, OF assms(4-8) refl] cot(3)
    unfolding f_def K_def d_def e_flushed_def Let_def by blast
  ultimately show ?thesis using g1 e1 g' by blast
qed

lemma flushed_shapes:
  assumes "shapes_ok n g e" "flush_ready g e" "g_flushed n X g g'" "e_flushed n hash X g e e'"
  shows "shapes_ok n g' e'"
  using assms by (auto simp: shapes_ok_def ks_inv_def ms_inv_def g_flushed_def e_flushed_def flush_ready_def Let_def)

lemma flushed_values:
  assumes "values_ok hash g e X" "flush_ready g e" "g_flushed n X g g'" "e_flushed n hash X g e e'"
  shows "values_ok hash g' e' X"
proof -
  note gf = assms(3) [unfolded g_flushed_def Let_def, THEN conjunct1] and ef = assms(4) [unfolded e_flushed_def Let_def]
  have "bits_abs (g_data g') = override (bits_abs (g_data g)) (f_decode (v_flush (g_view g))) X"
    using assms(3) by (simp add: g_flushed_def Let_def)
  note og = override_bits [OF this]
  have "store_abs (ms_macs (e_macs e')) = override (store_abs (ms_macs (e_macs e))) (f_macs (v_flush (g_view g)) \<union> f_ot (v_flush (g_view g)))
      (\<lambda>i. key_auth (items (ks_keys (g_keys g)) ! i) (X i) (ks_delta (g_keys g)))"
    using ef by blast
  note om = override_items [OF this]
  have "bits_abs (e_key_bits e') = override (bits_abs (e_key_bits e)) (f_decode_info (v_flush (g_view g))) (\<lambda>i. lsb (items (ks_keys (g_keys g)) ! i))"
    using ef by blast
  note ok = override_bits [OF this]
  have "store_abs (e_commits e') = override (store_abs (e_commits e)) (f_decode_info (v_flush (g_view g)))
      (\<lambda>i. key_commit hash (items (ks_keys (g_keys g)) ! i) (of_nat i) (ks_delta (g_keys g)))"
    using ef by blast
  note oc = override_items [OF this]
  have "bits_abs (e_data e') = override (bits_abs (e_data e)) (set_of (ms_macs (e_macs e')) \<inter> bset (e_key_bits e') - bset (e_data e)) X"
    using ef by blast
  note od = override_bits [OF this]
  show ?thesis
    using assms(1,2) om ok oc od og by (auto simp: gf values_ok_def corr_def flush_ready_def Let_def)
qed

lemma flushed_sets:
  assumes "g_flushed n X g g'" "e_flushed n hash X g e e'"
  defines "f \<equiv> v_flush (g_view g)"
  shows "\<not> g_pending g'" "e_pending e' = None"
    "set_of (ms_macs (e_macs e')) = set_of (ms_macs (e_macs e)) \<union> f_macs f \<union> f_ot f"
    "bset (g_data g') = bset (g_data g) \<union> f_decode f"
    "bset (e_data e') = bset (e_data e) \<union> (set_of (ms_macs (e_macs e')) \<inter> (bset (e_key_bits e) \<union> f_decode_info f))"
    "used (g_keys g') = used (g_keys g) \<union> f_macs f \<union> f_ot f"
    "bset (e_key_bits e') = bset (e_key_bits e) \<union> f_decode_info f" "set_of (e_commits e') = set_of (e_commits e) \<union> f_decode_info f"
  using assms(1,2) override_bits(1) [of "g_data g'"] override_bits(1) [of "e_key_bits e'"] override_bits(1) [of "e_data e'"]
    override_items(1) [of "ms_macs (e_macs e')"] override_items(1) [of "e_commits e'"]
  by (auto simp: g_flushed_def e_flushed_def f_def Let_def)

text \<open>
  What a completed flush \<open>f\<close> does to a view, in closed form: inputs with a MAC become complete, decode
  information and decoded ranges are recorded, and the next flush announces nothing but the proofs
  that became possible: of the inputs just transferred by OT and of the complete outputs whose decode
  information was just sent, as far as they are to be decoded.
\<close>

lemma complete_flush_closed:
  "complete_flush v =
     v\<lparr>v_input := (v_input v)\<lparr>in_complete := in_complete (v_input v) \<union> f_macs (v_flush v) \<union> f_ot (v_flush v)\<rparr>,
       v_decode := (v_decode v)\<lparr>d_decode_info := d_decode_info (v_decode v) \<union> f_decode_info (v_flush v),
         d_complete := d_complete (v_decode v) \<union> f_decode (v_flush v)\<rparr>,
       v_flush := \<lparr>f_macs = {}, f_ot = {}, f_decode_info = {},
         f_decode = (f_ot (v_flush v) \<inter> d_all (v_decode v)) \<union>
           (f_decode_info (v_flush v) \<inter> out_complete (v_output v) - (d_complete (v_decode v) \<union> f_decode (v_flush v)))\<rparr>\<rparr>"
  by (simp add: complete_flush_def flush_clear_def Let_def)

text \<open>
  C2. A round of the flush protocol.  The hypotheses: the views of the parties agree
  (\<open>views_agree\<close>, which every sequence of dual calls keeps), their stores cover the same memory
  (\<open>shapes_ok\<close>) and are consistent with the bits \<open>X\<close> (\<open>values_ok\<close>), what the flush announces can be
  carried out (\<open>flush_ready\<close>: no message is outstanding, the data, keys and MACs it needs are there
  and nothing it delivers is there already), no key has a duplicate commitment, and the COT delivers
  the MACs of the choices.  \<open>flush_ready\<close> is a real restriction: for one, it fails in the states where
  \<open>View::decode\<close> has announced the proof of a range that is decoded already (\<open>decode_requeues_decoded\<close>),
  and such rounds are not covered.

  Then both sends and both receives succeed, the stores are consistent with \<open>X\<close> again and the views
  agree.  Exactly the announced ranges are carried out: the evaluator's MACs and the garbler's used keys grow by \<open>macs\<close>
  and \<open>ot\<close>, its key bits and commitments by \<open>decode_info\<close>, the garbler's data by \<open>decode\<close>, the evaluator's
  data by what now has both a MAC and a key bit; and either view records exactly that: its complete
  inputs, decode information and decoded ranges grow by the announced ranges, nothing else changes,
  and its flush is emptied except for the proofs that became possible.
\<close>

theorem flush_correct:
  fixes g :: "('c, 'p) garbler_store" and e :: "('d, 'h) evaluator_store"
  defines "f \<equiv> v_flush (g_view g)" and "K \<equiv> items (ks_keys (g_keys g))" and "d \<equiv> ks_delta (g_keys g)"
  assumes "range_iter iter" "views_agree (g_view g) (e_view e)" "shapes_ok n g e" "values_ok hash g e X"
    "flush_ready g e" "no_duplicates hash (g_keys g)"
    and "queue_send (g_cot g) (map ((!) K) (elems (iter (f_ot f)))) = Some cs"
    and "queue_recv (e_cot e) (map X (elems (iter (f_ot f)))) = Some (cr, h)"
    and "try_recv h = Some (Some (map (\<lambda>i. key_auth (K ! i) (X i) d) (elems (iter (f_ot f)))))"
  shows "\<exists>gf ef g1 e1 g' e'.
    gs_send_flush iter hash queue_send g = Inr (gf, g1) \<and> es_send_flush iter hash queue_recv e = Inr (ef, e1) \<and>
    gs_receive_flush iter hash g1 ef = Inr g' \<and> es_receive_flush iter hash try_recv e1 gf = Inr e' \<and>
    shapes_ok n g' e' \<and> values_ok hash g' e' X \<and> views_agree (g_view g') (e_view e') \<and>
    \<not> g_pending g' \<and> e_pending e' = None \<and>
    set_of (ms_macs (e_macs e')) = set_of (ms_macs (e_macs e)) \<union> f_macs f \<union> f_ot f \<and>
    bset (g_data g') = bset (g_data g) \<union> f_decode f \<and>
    bset (e_data e') = bset (e_data e) \<union> (set_of (ms_macs (e_macs e')) \<inter> (bset (e_key_bits e) \<union> f_decode_info f)) \<and>
    used (g_keys g') = used (g_keys g) \<union> f_macs f \<union> f_ot f \<and>
    bset (e_key_bits e') = bset (e_key_bits e) \<union> f_decode_info f \<and>
    set_of (e_commits e') = set_of (e_commits e) \<union> f_decode_info f \<and>
    (\<forall>(v, v') \<in> {(g_view g, g_view g'), (e_view e, e_view e')}.
       v' = v\<lparr>v_input := (v_input v)\<lparr>in_complete := in_complete (v_input v) \<union> f_macs f \<union> f_ot f\<rparr>,
              v_decode := (v_decode v)\<lparr>d_decode_info := d_decode_info (v_decode v) \<union> f_decode_info f,
                d_complete := d_complete (v_decode v) \<union> f_decode f\<rparr>,
              v_flush := \<lparr>f_macs = {}, f_ot = {}, f_decode_info = {},
                f_decode = (f_ot f \<inter> d_all (v_decode v)) \<union>
                  (f_decode_info f \<inter> out_complete (v_output v) - (d_complete (v_decode v) \<union> f_decode f))\<rparr>\<rparr>)"
proof -
  obtain gf ef g1 e1 g' e' where r: "gs_send_flush iter hash queue_send g = Inr (gf, g1)" "es_send_flush iter hash queue_recv e = Inr (ef, e1)"
      "gs_receive_flush iter hash g1 ef = Inr g'" "es_receive_flush iter hash try_recv e1 gf = Inr e'"
    and gf: "g_flushed n X g g'" and ef: "e_flushed n hash X g e e'"
    using flush_exchange [OF assms(4,6-9), of queue_send cs queue_recv cr h try_recv] assms(10-12) unfolding f_def K_def d_def by blast
  have v: "g_view g' = complete_flush (g_view g)" "e_view e' = complete_flush (e_view e)" "v_flush (e_view e) = f"
    using gf ef assms(8) by (simp_all add: g_flushed_def e_flushed_def flush_ready_def f_def Let_def)
  have "shapes_ok n g' e'" "values_ok hash g' e' X"
    by (rule flushed_shapes [OF assms(6,8) gf ef], rule flushed_values [OF assms(7,8) gf ef])
  moreover have "views_agree (g_view g') (e_view e')" using agree_flush [OF assms(5)] v(1,2) by simp
  moreover note flushed_sets [OF gf ef, folded f_def]
  moreover have "\<forall>(v, v') \<in> {(g_view g, g_view g'), (e_view e, e_view e')}.
       v' = v\<lparr>v_input := (v_input v)\<lparr>in_complete := in_complete (v_input v) \<union> f_macs f \<union> f_ot f\<rparr>,
              v_decode := (v_decode v)\<lparr>d_decode_info := d_decode_info (v_decode v) \<union> f_decode_info f,
                d_complete := d_complete (v_decode v) \<union> f_decode f\<rparr>,
              v_flush := \<lparr>f_macs = {}, f_ot = {}, f_decode_info = {},
                f_decode = (f_ot f \<inter> d_all (v_decode v)) \<union>
                  (f_decode_info f \<inter> out_complete (v_output v) - (d_complete (v_decode v) \<union> f_decode f))\<rparr>\<rparr>"
    using v(3) complete_flush_closed [of "g_view g", folded f_def] complete_flush_closed [of "e_view e"] by (simp add: v(1,2))
  ultimately show ?thesis
    using r by (intro exI [of _ gf] exI [of _ ef] exI [of _ g1] exI [of _ e1] exI [of _ g'] exI [of _ e'] conjI)
qed


definition unit_ranges :: "nat set \<Rightarrow> (nat \<times> nat) list" where
  "unit_ranges S = map (\<lambda>i. (i, Suc i)) (sorted_list_of_set S)"

lemma elems_units: "elems (map (\<lambda>i. (i, Suc i)) xs) = xs"
  by (induction xs) simp_all

lemma range_iter_units: "range_iter unit_ranges"
  by (auto simp: range_iter_def unit_ranges_def elems_units proper_def)

text \<open>The hash of the example returns the MAC itself, the last 16 bytes hashed.\<close>

definition tail_hash :: hasher where
  "tail_hash bs = ucast (from_le_bytes (drop 8 bs))"

lemma mac_hash_tail: "mac_hash tail_hash i m = m"
proof -
  have "length (id_be_bytes i) = 8" by (simp add: id_be_bytes_def)
  then have "drop 8 (id_be_bytes i @ to_le_bytes m) = to_le_bytes m" by simp
  moreover have "ucast (ucast m :: 256 word) = m" for m :: block
    by (rule bit_word_eqI) (simp add: bit_ucast_iff)
  ultimately show ?thesis unfolding mac_hash_def tail_hash_def by simp
qed

definition demo_ops :: "party_op list" where
  "demo_ops = [AllocInput 1, MarkPrivate (0, 1), AssignGarbler (0, 1), Commit (0, 1), Decode (0, 1)]"

lemma demo_views:
  obtains gv ev where "views_agree gv ev" "v_flush gv = \<lparr>f_macs = {0}, f_ot = {}, f_decode_info = {0}, f_decode = {}\<rparr>"
proof -
  obtain gv where g: "foldR garbler_op demo_ops (view_new Garbler) = Inr gv"
      "v_flush gv = \<lparr>f_macs = {0}, f_ot = {}, f_decode_info = {0}, f_decode = {}\<rparr>"
    by (simp add: demo_ops_def view_new_def vis_new_def view_alloc_input_def view_alloc_def vis_alloc_def mark_private_def
        set_private_def vis_is_set_any_def vis_is_set_def is_visible_def assert_allocated_def view_assign_def view_commit_def
        view_decode_def flush_default_def Let_def)
  obtain ev where e: "foldR evaluator_op demo_ops (view_new Evaluator) = Inr ev"
    by (simp add: demo_ops_def view_new_def vis_new_def view_alloc_input_def view_alloc_def vis_alloc_def mark_blind_def
        set_blind_def vis_is_set_any_def vis_is_set_def assert_allocated_def view_commit_def
        view_decode_def flush_default_def Let_def)
  have "views_agree gv ev" using reachable_agree [OF reachable_run [OF reachable.init g(1) e]] by simp
  with g(2) that show thesis by blast
qed

text \<open>A private bit of the garbler is committed and decoded in one round: the evaluator learns it.\<close>

theorem flush_correct_witness:
  "\<exists>(g :: (unit, unit) garbler_store) (e :: (unit, unit) evaluator_store) gf ef g1 e1 g' e'.
     gs_send_flush unit_ranges tail_hash (\<lambda>c ks. Some c) g = Inr (gf, g1) \<and>
     es_send_flush unit_ranges tail_hash (\<lambda>c bs. Some (c, ())) e = Inr (ef, e1) \<and>
     gs_receive_flush unit_ranges tail_hash g1 ef = Inr g' \<and>
     es_receive_flush unit_ranges tail_hash (\<lambda>h. Some (Some [])) e1 gf = Inr e' \<and>
     bset (e_data e) = {} \<and> bset (e_data e') = {0}"
proof -
  obtain gv ev where v: "views_agree gv ev" "v_flush gv = \<lparr>f_macs = {0}, f_ot = {}, f_decode_info = {0}, f_decode = {}\<rparr>"
    using demo_views by blast
  then have ve: "v_flush ev = v_flush gv" by (simp add: views_agree_def)
  define g :: "(unit, unit) garbler_store" where
    "g = (gs_new () 0 ())\<lparr>g_keys := demo_keys, g_data := \<lparr>bits = [True], bset = {0}\<rparr>, g_view := gv\<rparr>"
  define e :: "(unit, unit) evaluator_store" where
    "e = (es_new ())\<lparr>e_macs := snd (ms_alloc mac_store_new 1), e_key_bits := \<lparr>bits = [False], bset = {}\<rparr>,
       e_commits := \<lparr>items = [default_commitment], set_of = {}\<rparr>, e_data := \<lparr>bits = [False], bset = {}\<rparr>, e_view := ev\<rparr>"
  have ms: "ms_macs (e_macs e) = \<lparr>items = [0], set_of = {}\<rparr>"
    by (simp add: e_def ms_alloc_def mac_store_new_def store_new_def store_alloc_def Let_def)
  have ks: "ks_keys (g_keys g) = \<lparr>items = [12], set_of = {0}\<rparr>" "used (g_keys g) = {}" "ks_delta (g_keys g) = delta_new 6"
    by (simp_all add: g_def demo_keys_def key_store_new_def Let_def)
  have sh: "shapes_ok 1 g e"
    using demo_inv(1) ms ks by (simp add: shapes_ok_def ms_inv_def g_def e_def gs_new_def es_new_def bits_inv_def store_inv_def ops_ok_def)
  have vo: "values_ok tail_hash g e (\<lambda>_. True)"
    using ms ks by (simp add: values_ok_def corr_def g_def e_def gs_new_def es_new_def)
  have rd: "flush_ready g e" using ms ks ve v(2) by (simp add: flush_ready_def g_def e_def gs_new_def es_new_def)
  have "12 XOR delta_new 6 \<noteq> 12" using lsb_delta_new [of 6] by (metis bit_xor_iff lsb_def)
  then have nd: "no_duplicates tail_hash (g_keys g)" by (simp add: no_duplicates_def ks mac_hash_tail)
  have va: "views_agree (g_view g) (e_view e)" using v(1) by (simp add: g_def e_def)
  have f: "v_flush (g_view g) = \<lparr>f_macs = {0}, f_ot = {}, f_decode_info = {0}, f_decode = {}\<rparr>" using v(2) by (simp add: g_def)
  have d: "bset (e_data e) = {}" "bset (e_key_bits e) = {}" by (simp_all add: e_def)
  have el: "elems (unit_ranges {}) = []" by (simp add: unit_ranges_def)
  from flush_correct [OF range_iter_units va sh vo rd nd, of "\<lambda>c ks. Some c" "()" "\<lambda>c bs. Some (c, ())" "()" "()" "\<lambda>h. Some (Some [])"]
  show ?thesis using d ms by (fastforce simp: f el)
qed

lemma gs_pending:
  "gs_send_flush iter hash qs g = Inr (gf, g1) \<Longrightarrow> \<not> g_pending g \<and> g_pending g1"
  "gs_receive_flush iter hash g ef = Inr g' \<Longrightarrow> g_pending g \<and> \<not> g_pending g'"
  by (auto simp: gs_send_flush_def gs_receive_flush_def Let_def result_simps split: if_splits)

lemma es_flush_decode_pending: "es_flush_decode iter hash e = Inr e' \<Longrightarrow> e_pending e' = e_pending e"
  by (auto simp: es_flush_decode_def es_decode_macs_def Let_def result_simps)

lemma es_pending:
  "es_send_flush iter hash qr e = Inr (ef, e1) \<Longrightarrow> e_pending e = None \<and> e_pending e1 \<noteq> None"
  "es_receive_flush iter hash tr e gf = Inr e' \<Longrightarrow> e_pending e \<noteq> None \<and> e_pending e' = None"
proof -
  show "es_send_flush iter hash qr e = Inr (ef, e1) \<Longrightarrow> e_pending e = None \<and> e_pending e1 \<noteq> None"
    by (auto simp: es_send_flush_def Let_def result_simps split: if_splits)
  assume r: "es_receive_flush iter hash tr e gf = Inr e'"
  then obtain cot where "e_pending e = Some cot" by (auto simp: es_receive_flush_def split: option.splits)
  moreover from this r obtain e2 where "es_flush_decode iter hash e2 = Inr e'" "e_pending e2 = None"
    by (simp add: es_receive_flush_def Let_def result_simps split: if_splits) force
  ultimately show "e_pending e \<noteq> None \<and> e_pending e' = None" using es_flush_decode_pending by fastforce
qed

text \<open>
  C35. Flush messages are exchanged in alternation: after a successful \<open>send_flush\<close> a second one is
  refused with \<open>UnexpectedFlush\<close> on either side, a \<open>receive_flush\<close> without a preceding send is
  refused too, and after a successful receive the store is ready to send again.
\<close>

theorem flush_alternates:
  assumes "gs_send_flush iter hash qs g = Inr (gf, g1)" "es_send_flush iter hash qr e = Inr (ef, e1)"
  shows "gs_send_flush iter hash qs g1 = Inl (Err GsUnexpectedFlush) \<and>
    es_send_flush iter hash qr e1 = Inl (Err EsUnexpectedFlush) \<and>
    gs_receive_flush iter hash g ef = Inl (Err GsUnexpectedFlush) \<and>
    es_receive_flush iter hash tr e gf = Inl (Err EsUnexpectedFlush) \<and>
    (\<forall>g'. gs_receive_flush iter hash g1 ef = Inr g' \<longrightarrow> \<not> g_pending g') \<and>
    (\<forall>e'. es_receive_flush iter hash tr e1 gf = Inr e' \<longrightarrow> e_pending e' = None)"
proof -
  have "\<not> g_pending g" "g_pending g1" "e_pending e = None" "e_pending e1 \<noteq> None"
    using gs_pending(1) [OF assms(1)] es_pending(1) [OF assms(2)] by auto
  then have "gs_send_flush iter hash qs g1 = Inl (Err GsUnexpectedFlush)" "es_send_flush iter hash qr e1 = Inl (Err EsUnexpectedFlush)"
      "gs_receive_flush iter hash g ef = Inl (Err GsUnexpectedFlush)" "es_receive_flush iter hash tr e gf = Inl (Err EsUnexpectedFlush)"
    by (simp_all add: gs_send_flush_def gs_receive_flush_def es_send_flush_def es_receive_flush_def)
  then show ?thesis by (simp add: gs_pending(2) es_pending(2))
qed

theorem flush_alternates_witness:
  "\<exists>gf g1 ef e1. gs_send_flush unit_ranges tail_hash (\<lambda>c ks. Some c) (gs_new () (delta_new 6) ()) = Inr (gf, g1) \<and>
     es_send_flush unit_ranges tail_hash (\<lambda>c bs. Some (c, ())) (es_new ()) = Inr (ef, e1) \<and>
     gs_send_flush unit_ranges tail_hash (\<lambda>c ks. Some c) g1 = Inl (Err GsUnexpectedFlush) \<and>
     es_receive_flush unit_ranges tail_hash (\<lambda>h. None) (es_new () :: (unit, unit) evaluator_store) gf = Inl (Err EsUnexpectedFlush)"
proof -
  have u: "unit_ranges {} = []" by (simp add: unit_ranges_def)
  obtain gf g1 where g: "gs_send_flush unit_ranges tail_hash (\<lambda>c ks. Some c) (gs_new () (delta_new 6) ()) = Inr (gf, g1)"
    by (simp add: gs_send_flush_def gs_new_def view_new_def flush_default_def u Let_def)
  obtain ef e1 where e: "es_send_flush unit_ranges tail_hash (\<lambda>c bs. Some (c, ())) (es_new ()) = Inr (ef, e1)"
    by (simp add: es_send_flush_def es_new_def view_new_def flush_default_def u Let_def)
  from flush_alternates [OF g e, of "\<lambda>h. None"] g e show ?thesis by blast
qed

text \<open>
  C38. The garbler does not insist on a proof: if the evaluator's message carries none, \<open>receive_flush\<close>
  completes the flush with nothing verified and nothing decoded, although the view then counts the
  announced range as decoded.
\<close>

theorem missing_proof_accepted:
  assumes "g_pending g" "ops_ok (length (bits (g_data g))) (g_buffer g)"
  shows "\<exists>g'. gs_receive_flush iter hash g \<lparr>ef_mac_proof = None\<rparr> = Inr g' \<and> g_data g' = g_data g \<and>
    f_decode (v_flush (g_view g)) \<subseteq> d_complete (v_decode (g_view g'))"
proof -
  let ?g = "g\<lparr>g_view := complete_flush (g_view g)\<rparr>"
  obtain buf w where "gs_flush_decode ?g = Inr (?g\<lparr>g_buffer := buf, g_sent := w\<rparr>)"
    using gs_flush_decode_ok [of "length (bits (g_data g))" ?g] assms(2) by auto
  moreover have "f_decode (v_flush (g_view g)) \<subseteq> d_complete (v_decode (complete_flush (g_view g)))"
    by (auto simp: complete_flush_def Let_def)
  ultimately show ?thesis using assms(1) by (simp add: gs_receive_flush_def Let_def)
qed

theorem missing_proof_accepted_witness:
  "\<exists>g'. gs_receive_flush unit_ranges tail_hash
     ((gs_new () (delta_new 6) ())\<lparr>g_pending := True, g_view := (view_new Garbler)\<lparr>v_flush := flush_default\<lparr>f_decode := {0}\<rparr>\<rparr>\<rparr>)
     \<lparr>ef_mac_proof = None\<rparr> = Inr g' \<and> 0 \<in> d_complete (v_decode (g_view g')) \<and> bset (g_data g') = {}"
  using missing_proof_accepted [of "(gs_new () (delta_new 6) ())\<lparr>g_pending := True,
      g_view := (view_new Garbler)\<lparr>v_flush := flush_default\<lparr>f_decode := {0}\<rparr>\<rparr>\<rparr>" unit_ranges tail_hash]
  by (auto simp: gs_new_def ops_ok_def bit_store_new_def)

end
