(* ===== verification/Futures.thy ===== *)
theory Futures
  imports Prelude
begin

text \<open>
  Output futures (\<open>common/src/future.rs\<close>).  A oneshot channel is its state: nothing sent yet, a
  value waiting, or finished (value taken, or sender dropped).  \<open>Map\<close> applies a function to the
  output of another future and is \<open>Done\<close> once it has been asked.
\<close>

datatype 'a chan = Waiting | Ready 'a | Finished

datatype canceled = Canceled

definition chan_send :: "'a chan \<Rightarrow> 'a \<Rightarrow> 'a chan" where
  "chan_send c v = (case c of Waiting \<Rightarrow> Ready v | _ \<Rightarrow> c)"

text \<open>\<open>oneshot::Receiver::try_recv\<close>.\<close>

definition chan_try_recv :: "'a chan \<Rightarrow> (canceled, 'a option) result \<times> 'a chan" where
  "chan_try_recv c = (case c of
     Waiting \<Rightarrow> (Inr None, Waiting)
   | Ready v \<Rightarrow> (Inr (Some v), Finished)
   | Finished \<Rightarrow> (Inl (Err Canceled), Finished))"

definition maybe_done_try_recv :: "'a chan \<Rightarrow> (canceled, 'a option) result \<times> 'a chan" where
  "maybe_done_try_recv c = (case chan_try_recv c of
     (Inr (Some v), c) \<Rightarrow> (Inr (Some v), c)
   | (Inr None, c) \<Rightarrow> (Inr None, c)
   | (Inl _, c) \<Rightarrow> (Inl (Err Canceled), c))"

datatype ('i, 'a, 'b) map_inner = Incomplete 'i "'a \<Rightarrow> 'b" | Done

text \<open>\<open>try_recv\<close> of \<open>Map\<close>, over the \<open>try_recv\<close> of the inner future.\<close>

definition map_try_recv ::
  "('i \<Rightarrow> (canceled, 'a option) result \<times> 'i) \<Rightarrow> ('i, 'a, 'b) map_inner \<Rightarrow> (canceled, 'b option) result \<times> ('i, 'a, 'b) map_inner" where
  "map_try_recv recv m =
     (case m of
        Incomplete inner f \<Rightarrow> (case fst (recv inner) of
            Inr res \<Rightarrow> (Inr (map_option f res), Done)
          | Inl e \<Rightarrow> (Inl e, Done))
      | Done \<Rightarrow> (Inl (Err Canceled), Done))"

text \<open>
  A mapped future delivers at most one answer: a value that is ready is mapped and returned, but
  asking before it is ready returns "not ready" and loses it, every later attempt is \<open>Canceled\<close>
  even after the value was sent.
\<close>

theorem map_try_recv_loses:
  "fst (map_try_recv maybe_done_try_recv (Incomplete (Ready v) f)) = Inr (Some (f v)) \<and>
   fst (map_try_recv maybe_done_try_recv (Incomplete Waiting f)) = Inr None \<and>
   fst (map_try_recv maybe_done_try_recv (snd (map_try_recv maybe_done_try_recv (Incomplete Waiting f)))) = Inl (Err Canceled) \<and>
   fst (maybe_done_try_recv (chan_send (snd (maybe_done_try_recv Waiting)) v)) = Inr (Some v)"
  by (simp add: map_try_recv_def maybe_done_try_recv_def chan_try_recv_def chan_send_def)

end
