(* ===== verification/Ideal_Cot.thy ===== *)
theory Ideal_Cot
  imports Correlated
begin

text \<open>
  The ideal functionalities the protocols are tested against: random correlated OT
  (\<open>ot-core/src/ideal/rcot.rs\<close>) and correlated OT (\<open>ot-core/src/ideal/cot.rs\<close>), as pairs of a
  sender and a receiver that exchange flush messages.  An output channel is a number; what a call
  sends on channels is part of its result.  The receiver's random generator is the parameter
  \<open>rng_bool\<close>.  The wrapper \<open>IdealRCOT\<close> that holds both ends is run by the inductive \<open>rcot_run\<close>, which
  interleaves the separate calls of either end.  The interface a client of random correlated OTs relies on is the locale \<open>rcot_pair\<close>.
\<close>

section \<open>Transfer identifiers\<close>

type_synonym transfer_id = "64 word"

definition next_id :: "transfer_id \<Rightarrow> transfer_id \<times> transfer_id" where
  "next_id t = (t, t + 1)"

text \<open>\<open>Vec::split_off\<close>; panics beyond the end.\<close>

definition split_off :: "'a list \<Rightarrow> nat \<Rightarrow> ('e, 'a list \<times> 'a list) result" where
  "split_off xs n = (if n \<le> length xs then Inr (take n xs, drop n xs) else Inl Panic)"

section \<open>Random correlated OT\<close>

record rcot_flush_msg =
  fm_seed :: block
  fm_offset :: "64 word"
  fm_count :: nat
  fm_delta :: block

definition generate_keys :: "block \<Rightarrow> 64 word \<Rightarrow> nat \<Rightarrow> block list" where
  "generate_keys seed offset count = map (\<lambda>i. seed + ucast offset + of_nat i) [0..<count]"

datatype ideal_rcot_error = NotEnough nat nat | RcotCountMismatch nat nat

record ideal_rcot_sender =
  is_delta :: block
  is_seed :: block
  is_offset :: "64 word"
  is_pending :: nat
  is_keys :: "block list"
  is_queue :: "(nat \<times> nat) list"
  is_id :: transfer_id
  is_chans :: nat

definition is_new :: "block \<Rightarrow> block \<Rightarrow> ideal_rcot_sender" where
  "is_new seed d =
     \<lparr>is_delta = d, is_seed = seed, is_offset = 0, is_pending = 0, is_keys = [], is_queue = [], is_id = 0, is_chans = 0\<rparr>"

definition is_wants_flush :: "ideal_rcot_sender \<Rightarrow> bool" where
  "is_wants_flush s \<longleftrightarrow> 0 < is_pending s \<or> is_queue s \<noteq> []"

type_synonym sender_output = "transfer_id \<times> block list"

definition is_pop :: "nat \<Rightarrow> ideal_rcot_sender \<Rightarrow> ('e, sender_output \<times> ideal_rcot_sender) result" where
  "is_pop count s =
     bindR (usub (length (is_keys s)) count) (\<lambda>n.
     bindR (split_off (is_keys s) n) (\<lambda>(rest, keys).
       let (id, nxt) = next_id (is_id s)
       in Inr ((id, keys), s\<lparr>is_keys := rest, is_id := nxt\<rparr>)))"

text \<open>The loop over \<open>mem::take(&mut self.queue)\<close>.\<close>

fun is_fulfil :: "(nat \<times> nat) list \<Rightarrow> ideal_rcot_sender \<Rightarrow> ('e, (nat \<times> sender_output) list \<times> ideal_rcot_sender) result" where
  "is_fulfil [] s = Inr ([], s)"
| "is_fulfil ((count, ch) # q) s =
     bindR (is_pop count s) (\<lambda>(out, s). bindR (is_fulfil q s) (\<lambda>(outs, s). Inr ((ch, out) # outs, s)))"

definition is_flush ::
  "ideal_rcot_sender \<Rightarrow> ('e, rcot_flush_msg option \<times> (nat \<times> sender_output) list \<times> ideal_rcot_sender) result" where
  "is_flush s =
     (if is_pending s = 0 \<and> is_queue s = [] then Inr (None, [], s)
      else
        let count = is_pending s; current_offset = is_offset s
        in if 0 < count then
             let keys = generate_keys (is_seed s) current_offset count;
                 s = s\<lparr>is_keys := is_keys s @ keys\<rparr>;
                 s = s\<lparr>is_offset := is_offset s + of_nat count\<rparr>;
                 s = s\<lparr>is_pending := 0\<rparr>
             in bindR (is_fulfil (is_queue s) (s\<lparr>is_queue := []\<rparr>)) (\<lambda>(outs, s).
                  Inr (Some \<lparr>fm_seed = is_seed s, fm_offset = current_offset, fm_count = count, fm_delta = is_delta s\<rparr>, outs, s))
           else bindR (is_fulfil (is_queue s) (s\<lparr>is_queue := []\<rparr>)) (\<lambda>(outs, s). Inr (None, outs, s)))"

definition is_alloc :: "ideal_rcot_sender \<Rightarrow> nat \<Rightarrow> ideal_rcot_sender" where
  "is_alloc s count = s\<lparr>is_pending := is_pending s + count\<rparr>"

definition is_available :: "ideal_rcot_sender \<Rightarrow> nat" where
  "is_available s = length (is_keys s)"

definition is_try_send :: "ideal_rcot_sender \<Rightarrow> nat \<Rightarrow> (ideal_rcot_error, sender_output \<times> ideal_rcot_sender) result" where
  "is_try_send s count =
     (if count > length (is_keys s) then Inl (Err (NotEnough (length (is_keys s)) count)) else is_pop count s)"

definition is_queue_send ::
  "ideal_rcot_sender \<Rightarrow> nat \<Rightarrow> ('e, nat \<times> (nat \<times> sender_output) list \<times> ideal_rcot_sender) result" where
  "is_queue_send s count =
     (let ch = is_chans s; s = s\<lparr>is_chans := ch + 1\<rparr>
      in if length (is_keys s) \<ge> count then bindR (is_pop count s) (\<lambda>(out, s). Inr (ch, [(ch, out)], s))
         else Inr (ch, [], s\<lparr>is_queue := is_queue s @ [(count, ch)]\<rparr>))"

record 'g ideal_rcot_receiver =
  ir_rng :: 'g
  ir_pending :: nat
  ir_choices :: "bool list"
  ir_msgs :: "block list"
  ir_queue :: "(nat \<times> nat) list"
  ir_id :: transfer_id
  ir_delta :: "block option"
  ir_chans :: nat

definition ir_from_seed :: "'g \<Rightarrow> 'g ideal_rcot_receiver" where
  "ir_from_seed rng =
     \<lparr>ir_rng = rng, ir_pending = 0, ir_choices = [], ir_msgs = [], ir_queue = [], ir_id = 0, ir_delta = None, ir_chans = 0\<rparr>"

definition ir_wants_flush :: "'g ideal_rcot_receiver \<Rightarrow> bool" where
  "ir_wants_flush r \<longleftrightarrow> 0 < ir_pending r \<or> ir_queue r \<noteq> []"

type_synonym receiver_output = "transfer_id \<times> bool list \<times> block list"

definition ir_pop :: "nat \<Rightarrow> 'g ideal_rcot_receiver \<Rightarrow> ('e, receiver_output \<times> 'g ideal_rcot_receiver) result" where
  "ir_pop count r =
     bindR (usub (length (ir_choices r)) count) (\<lambda>n.
     bindR (split_off (ir_choices r) n) (\<lambda>(cs, choices).
     bindR (split_off (ir_msgs r) n) (\<lambda>(ms, msgs).
       let (id, nxt) = next_id (ir_id r)
       in Inr ((id, choices, msgs), r\<lparr>ir_choices := cs, ir_msgs := ms, ir_id := nxt\<rparr>))))"

fun ir_fulfil :: "(nat \<times> nat) list \<Rightarrow> 'g ideal_rcot_receiver \<Rightarrow>
    ('e, (nat \<times> receiver_output) list \<times> 'g ideal_rcot_receiver) result" where
  "ir_fulfil [] r = Inr ([], r)"
| "ir_fulfil ((count, ch) # q) r =
     bindR (ir_pop count r) (\<lambda>(out, r). bindR (ir_fulfil q r) (\<lambda>(outs, r). Inr ((ch, out) # outs, r)))"

text \<open>\<open>(0..n).map(|_| self.rng.random()).collect()\<close>.\<close>

fun draw_bools :: "('g \<Rightarrow> bool \<times> 'g) \<Rightarrow> nat \<Rightarrow> 'g \<Rightarrow> bool list \<times> 'g" where
  "draw_bools rng_bool 0 g = ([], g)"
| "draw_bools rng_bool (Suc n) g = (let (b, g) = rng_bool g; (bs, g) = draw_bools rng_bool n g in (b # bs, g))"

definition ir_flush ::
  "('g \<Rightarrow> bool \<times> 'g) \<Rightarrow> 'g ideal_rcot_receiver \<Rightarrow> rcot_flush_msg \<Rightarrow>
     (ideal_rcot_error, (nat \<times> receiver_output) list \<times> 'g ideal_rcot_receiver) result" where
  "ir_flush rng_bool r m =
     (if fm_count m \<noteq> ir_pending r then Inl (Err (RcotCountMismatch (ir_pending r) (fm_count m)))
      else
        let r = r\<lparr>ir_delta := Some (fm_delta m)\<rparr>;
            keys = generate_keys (fm_seed m) (fm_offset m) (fm_count m);
            (choices, rng) = draw_bools rng_bool (fm_count m) (ir_rng r);
            msgs = map2 (\<lambda>key choice. if choice then key XOR fm_delta m else key) keys choices;
            r = r\<lparr>ir_rng := rng, ir_choices := ir_choices r @ choices, ir_msgs := ir_msgs r @ msgs, ir_pending := 0\<rparr>
        in ir_fulfil (ir_queue r) (r\<lparr>ir_queue := []\<rparr>))"

definition ir_alloc :: "'g ideal_rcot_receiver \<Rightarrow> nat \<Rightarrow> 'g ideal_rcot_receiver" where
  "ir_alloc r count = r\<lparr>ir_pending := ir_pending r + count\<rparr>"

definition ir_available :: "'g ideal_rcot_receiver \<Rightarrow> nat" where
  "ir_available r = length (ir_choices r)"

definition ir_try_recv ::
  "'g ideal_rcot_receiver \<Rightarrow> nat \<Rightarrow> (ideal_rcot_error, receiver_output \<times> 'g ideal_rcot_receiver) result" where
  "ir_try_recv r count =
     (if count > length (ir_choices r) then Inl (Err (NotEnough (length (ir_choices r)) count)) else ir_pop count r)"

definition ir_queue_recv ::
  "'g ideal_rcot_receiver \<Rightarrow> nat \<Rightarrow> ('e, nat \<times> (nat \<times> receiver_output) list \<times> 'g ideal_rcot_receiver) result" where
  "ir_queue_recv r count =
     (let ch = ir_chans r; r = r\<lparr>ir_chans := ch + 1\<rparr>
      in if length (ir_choices r) \<ge> count then bindR (ir_pop count r) (\<lambda>(out, r). Inr (ch, [(ch, out)], r))
         else Inr (ch, [], r\<lparr>ir_queue := ir_queue r @ [(count, ch)]\<rparr>))"

text \<open>The wrapper \<open>IdealRCOT\<close> that holds both ends.\<close>

record 'g ideal_rcot =
  rc_sender :: ideal_rcot_sender
  rc_receiver :: "'g ideal_rcot_receiver"

definition rcot_new :: "'g \<Rightarrow> block \<Rightarrow> block \<Rightarrow> 'g ideal_rcot" where
  "rcot_new rng seed d = \<lparr>rc_sender = is_new seed d, rc_receiver = ir_from_seed rng\<rparr>"

definition rcot_alloc :: "'g ideal_rcot \<Rightarrow> nat \<Rightarrow> 'g ideal_rcot" where
  "rcot_alloc w n = w\<lparr>rc_sender := is_alloc (rc_sender w) n, rc_receiver := ir_alloc (rc_receiver w) n\<rparr>"

definition rcot_flush :: "('g \<Rightarrow> bool \<times> 'g) \<Rightarrow> 'g ideal_rcot \<Rightarrow>
    (ideal_rcot_error, (nat \<times> sender_output) list \<times> (nat \<times> receiver_output) list \<times> 'g ideal_rcot) result" where
  "rcot_flush rng_bool w =
     bindR (is_flush (rc_sender w)) (\<lambda>(msg, so, s).
       (case msg of
          None \<Rightarrow> Inr (so, [], w\<lparr>rc_sender := s\<rparr>)
        | Some m \<Rightarrow> bindR (ir_flush rng_bool (rc_receiver w) m) (\<lambda>(ro, r).
            Inr (so, ro, w\<lparr>rc_sender := s, rc_receiver := r\<rparr>))))"

definition rcot_transfer :: "'g ideal_rcot \<Rightarrow> nat \<Rightarrow>
    (ideal_rcot_error, sender_output \<times> receiver_output \<times> 'g ideal_rcot) result" where
  "rcot_transfer w count =
     bindR (is_try_send (rc_sender w) count) (\<lambda>(so, s).
     bindR (ir_try_recv (rc_receiver w) count) (\<lambda>(ro, r).
       Inr (so, ro, w\<lparr>rc_sender := s, rc_receiver := r\<rparr>)))"

section \<open>The interface of random correlated OT\<close>

definition correlated :: "block \<Rightarrow> block list \<Rightarrow> bool list \<Rightarrow> block list \<Rightarrow> bool" where
  "correlated d keys choices msgs \<longleftrightarrow>
     length choices = length keys \<and> msgs = map2 (\<lambda>k c. key_auth k c d) keys choices"

lemma correlated_length: "correlated d ks cs ms \<Longrightarrow> length cs = length ks \<and> length ms = length ks"
  by (simp add: correlated_def)

lemma correlated_split:
  "correlated d ks cs ms \<Longrightarrow> correlated d (take n ks) (take n cs) (take n ms) \<and> correlated d (drop n ks) (drop n cs) (drop n ms)"
  by (auto simp: correlated_def take_map drop_map take_zip drop_zip)

lemma correlated_append:
  "correlated d ks cs ms \<Longrightarrow> correlated d ks' cs' ms' \<Longrightarrow> correlated d (ks @ ks') (cs @ cs') (ms @ ms')"
  by (simp add: correlated_def)

text \<open>
  What a client of random correlated OT relies on: related ends have the same number of OTs left,
  and as long as there are enough, taking the same number on both sides succeeds and yields
  correlated outputs under one transfer id.
\<close>

locale rcot_pair =
  fixes rel :: "'s \<Rightarrow> 'r \<Rightarrow> bool"
    and delta_of :: "'s \<Rightarrow> block"
    and s_avail :: "'s \<Rightarrow> nat"
    and r_avail :: "'r \<Rightarrow> nat"
    and try_send :: "'s \<Rightarrow> nat \<Rightarrow> ('e, sender_output \<times> 's) result"
    and try_recv :: "'r \<Rightarrow> nat \<Rightarrow> ('f, receiver_output \<times> 'r) result"
  assumes avail: "rel s r \<Longrightarrow> s_avail s = r_avail r"
    and transfer: "rel s r \<Longrightarrow> n \<le> s_avail s \<Longrightarrow>
      \<exists>id ks cs ms s' r'. try_send s n = Inr ((id, ks), s') \<and> try_recv r n = Inr ((id, cs, ms), r') \<and>
        length ks = n \<and> correlated (delta_of s) ks cs ms \<and> rel s' r' \<and> delta_of s' = delta_of s \<and>
        s_avail s' = s_avail s - n"

section \<open>The ideal functionality implements the interface\<close>

text \<open>
  The two ends hold correlated OTs, agree on pending counts, queues and ids, and only requests that
  could not be served are queued.
\<close>

definition rcot_rel :: "ideal_rcot_sender \<Rightarrow> 'g ideal_rcot_receiver \<Rightarrow> bool" where
  "rcot_rel s r \<longleftrightarrow>
     is_pending s = ir_pending r \<and> is_id s = ir_id r \<and> map fst (is_queue s) = map fst (ir_queue r) \<and>
     correlated (is_delta s) (is_keys s) (ir_choices r) (ir_msgs r) \<and>
     (\<forall>c \<in> fst ` set (is_queue s). length (is_keys s) < c)"

text \<open>The relation without the queues, which the fulfilment loops keep.\<close>

definition held :: "ideal_rcot_sender \<Rightarrow> 'g ideal_rcot_receiver \<Rightarrow> bool" where
  "held s r \<longleftrightarrow> is_id s = ir_id r \<and> correlated (is_delta s) (is_keys s) (ir_choices r) (ir_msgs r)"

lemma is_pop_ok:
  "n \<le> length (is_keys s) \<Longrightarrow> is_pop n s =
     Inr ((is_id s, drop (length (is_keys s) - n) (is_keys s)),
          s\<lparr>is_keys := take (length (is_keys s) - n) (is_keys s), is_id := is_id s + 1\<rparr>)"
  by (simp add: is_pop_def split_off_def next_id_def)

lemma ir_pop_ok:
  "n \<le> length (ir_choices r) \<Longrightarrow> length (ir_msgs r) = length (ir_choices r) \<Longrightarrow> ir_pop n r =
     Inr ((ir_id r, drop (length (ir_choices r) - n) (ir_choices r), drop (length (ir_choices r) - n) (ir_msgs r)),
          r\<lparr>ir_choices := take (length (ir_choices r) - n) (ir_choices r),
            ir_msgs := take (length (ir_choices r) - n) (ir_msgs r), ir_id := ir_id r + 1\<rparr>)"
  by (simp add: ir_pop_def split_off_def next_id_def)

lemma pop_held:
  assumes "held s r" "n \<le> length (is_keys s)"
  shows "\<exists>id ks cs ms ks' cs' ms'.
      is_pop n s = Inr ((id, ks), s\<lparr>is_keys := ks', is_id := id + 1\<rparr>) \<and>
      ir_pop n r = Inr ((id, cs, ms), r\<lparr>ir_choices := cs', ir_msgs := ms', ir_id := id + 1\<rparr>) \<and>
      length ks = n \<and> correlated (is_delta s) ks cs ms \<and> correlated (is_delta s) ks' cs' ms' \<and> length ks' = length (is_keys s) - n"
proof -
  have l: "length (ir_choices r) = length (is_keys s)" "length (ir_msgs r) = length (is_keys s)" "is_id s = ir_id r"
    using assms by (auto simp: held_def dest: correlated_length)
  have c: "correlated (is_delta s) (is_keys s) (ir_choices r) (ir_msgs r)" using assms(1) by (simp add: held_def)
  show ?thesis
    unfolding is_pop_ok [OF assms(2)]
    by (subst ir_pop_ok) (use l assms(2) correlated_split [OF c, of "length (is_keys s) - n"] in \<open>simp_all, fastforce?\<close>)
qed

lemma rcot_try:
  assumes "rcot_rel s r" "n \<le> is_available s"
  shows "\<exists>id ks cs ms s' r'. is_try_send s n = Inr ((id, ks), s') \<and> ir_try_recv r n = Inr ((id, cs, ms), r') \<and>
    length ks = n \<and> correlated (is_delta s) ks cs ms \<and> rcot_rel s' r' \<and> is_delta s' = is_delta s \<and>
    is_available s' = is_available s - n"
proof -
  have h: "held s r" and l: "length (ir_choices r) = length (is_keys s)" and n: "n \<le> length (is_keys s)"
    using assms by (auto simp: held_def rcot_rel_def is_available_def dest: correlated_length)
  obtain id ks cs ms ks' cs' ms' where p: "is_pop n s = (Inr ((id, ks), s\<lparr>is_keys := ks', is_id := id + 1\<rparr>) :: (ideal_rcot_error, _) result)"
      "ir_pop n r = (Inr ((id, cs, ms), r\<lparr>ir_choices := cs', ir_msgs := ms', ir_id := id + 1\<rparr>) :: (ideal_rcot_error, _) result)"
      "length ks = n" "correlated (is_delta s) ks cs ms" "correlated (is_delta s) ks' cs' ms'" "length ks' = length (is_keys s) - n"
    using pop_held [OF h n] by blast
  have "rcot_rel (s\<lparr>is_keys := ks', is_id := id + 1\<rparr>) (r\<lparr>ir_choices := cs', ir_msgs := ms', ir_id := id + 1\<rparr>)"
    using assms(1) p(5,6) by (fastforce simp: rcot_rel_def)
  with p n l show ?thesis by (auto simp: is_try_send_def ir_try_recv_def is_available_def)
qed

interpretation ideal_rcot: rcot_pair rcot_rel is_delta is_available ir_available is_try_send ir_try_recv
proof
  show "rcot_rel s r \<Longrightarrow> is_available s = ir_available r" for s and r :: "'g ideal_rcot_receiver"
    by (auto simp: rcot_rel_def is_available_def ir_available_def dest: correlated_length)
qed (rule rcot_try)

definition delivered :: "block \<Rightarrow> (nat \<times> sender_output) list \<Rightarrow> (nat \<times> receiver_output) list \<Rightarrow> bool" where
  "delivered d so ro \<longleftrightarrow>
     list_all2 (\<lambda>(c, id, ks) (c', id', cs, ms). id = id' \<and> correlated d ks cs ms) so ro"

lemma fulfil_held:
  assumes "held s r" "map fst q = map fst q'" "is_fulfil q s = (Inr (so, s') :: ('e, _) result)"
  shows "\<exists>ro r'. ir_fulfil q' r = (Inr (ro, r') :: ('f, _) result) \<and> delivered (is_delta s) so ro \<and> held s' r' \<and> is_delta s' = is_delta s \<and>
    is_pending s' = is_pending s \<and> ir_pending r' = ir_pending r \<and> is_queue s' = is_queue s \<and> ir_queue r' = ir_queue r \<and>
    is_seed s' = is_seed s"
  using assms
proof (induction q arbitrary: q' s r so)
  case Nil
  then show ?case by (auto simp: delivered_def)
next
  case (Cons a q)
  obtain n ch where a: "a = (n, ch)" by (cases a)
  from Cons.prems(2) a obtain ch' q1 where q': "q' = (n, ch') # q1" "map fst q = map fst q1" by auto
  have n: "n \<le> length (is_keys s)"
  proof (rule ccontr)
    assume "\<not> n \<le> length (is_keys s)"
    then have "is_pop n s = (Inl Panic :: ('e, _) result)" by (simp add: is_pop_def usub_def)
    then show False using Cons.prems(3) a by simp
  qed
  let ?s = "\<lambda>ks' id. s\<lparr>is_keys := ks', is_id := id + 1\<rparr>" and ?r = "\<lambda>cs' ms' id. r\<lparr>ir_choices := cs', ir_msgs := ms', ir_id := id + 1\<rparr>"
  obtain id ks cs ms ks' cs' ms' where p: "is_pop n s = (Inr ((id, ks), ?s ks' id) :: ('e, _) result)"
      "ir_pop n r = (Inr ((id, cs, ms), ?r cs' ms' id) :: ('f, _) result)"
      "correlated (is_delta s) ks cs ms" "correlated (is_delta s) ks' cs' ms'"
    using pop_held [OF Cons.prems(1) n] by blast
  have h: "held (?s ks' id) (?r cs' ms' id)" using p(4) by (simp add: held_def)
  from Cons.prems(3) a p(1) obtain so1 where so: "is_fulfil q (?s ks' id) = (Inr (so1, s') :: ('e, _) result)" "so = (ch, id, ks) # so1"
    by (auto simp: result_simps)
  from Cons.IH [OF h q'(2) so(1)] show ?case
    using p(2,3) q' so(2) by (auto simp: delivered_def)
qed

lemma is_fulfil_panic: "q \<noteq> [] \<Longrightarrow> \<forall>c \<in> fst ` set q. length (is_keys s) < c \<Longrightarrow> is_fulfil q s = Inl Panic"
  by (cases q) (auto simp: is_pop_def usub_def)

lemma length_draw_bools: "length (fst (draw_bools rng n g)) = n"
  by (induction n arbitrary: g) (auto simp: Let_def split: prod.splits, metis fst_conv)

lemma generate_keys_correlated:
  assumes "length bs = n"
  shows "correlated d (generate_keys sd off n) bs (map2 (\<lambda>key choice. if choice then key XOR d else key) (generate_keys sd off n) bs)"
  using assms by (auto simp: correlated_def generate_keys_def key_auth_def BLOCK_ZERO_def)

lemma flush_rel:
  assumes rel: "rcot_rel s r" and f: "is_flush s = (Inr (msg, so, s') :: (ideal_rcot_error, _) result)"
  shows "is_delta s' = is_delta s \<and>
    (case msg of
       None \<Rightarrow> so = [] \<and> s' = s
     | Some m \<Rightarrow> \<exists>ro r'. ir_flush rng r m = Inr (ro, r') \<and> delivered (is_delta s) so ro \<and> rcot_rel s' r')"
proof (cases "is_pending s = 0")
  case True
  show ?thesis
  proof (cases "is_queue s = []")
    case False
    have "is_fulfil (is_queue s) (s\<lparr>is_queue := []\<rparr>) = (Inl Panic :: (ideal_rcot_error, _) result)"
      by (rule is_fulfil_panic [OF False]) (use rel in \<open>simp add: rcot_rel_def\<close>)
    with f True False show ?thesis by (simp add: is_flush_def Let_def)
  qed (use f True in \<open>simp add: is_flush_def\<close>)
next
  case False
  let ?n = "is_pending s" and ?ks = "generate_keys (is_seed s) (is_offset s) (is_pending s)"
  obtain bs g where g: "draw_bools rng ?n (ir_rng r) = (bs, g)" by (cases "draw_bools rng ?n (ir_rng r)")
  then have bs: "length bs = ?n" using length_draw_bools [of rng ?n "ir_rng r"] by simp
  define s1 where "s1 = s\<lparr>is_keys := is_keys s @ ?ks, is_offset := is_offset s + of_nat ?n, is_pending := 0, is_queue := []\<rparr>"
  define ms where "ms = map2 (\<lambda>key choice. if choice then key XOR is_delta s else key) ?ks bs"
  define r1 where "r1 = r\<lparr>ir_delta := Some (is_delta s), ir_rng := g, ir_choices := ir_choices r @ bs, ir_msgs := ir_msgs r @ ms,
    ir_pending := 0, ir_queue := []\<rparr>"
  have h: "held s1 r1"
    using rel correlated_append [OF _ generate_keys_correlated [OF bs, of "is_delta s" "is_seed s" "is_offset s"]]
    by (simp add: held_def s1_def r1_def ms_def rcot_rel_def)
  from f False obtain so' where fs: "is_fulfil (is_queue s) s1 = (Inr (so', s') :: (ideal_rcot_error, _) result)" and so: "so' = so"
    by (auto simp: is_flush_def s1_def Let_def result_simps)
  have q: "map fst (is_queue s) = map fst (ir_queue r)" "ir_pending r = ?n" using rel by (simp_all add: rcot_rel_def)
  obtain ro r' where r': "ir_fulfil (ir_queue r) r1 = (Inr (ro, r') :: (ideal_rcot_error, _) result)" "delivered (is_delta s1) so ro"
      "held s' r'" "is_delta s' = is_delta s1" "is_pending s' = 0" "ir_pending r' = 0" "is_queue s' = []" "ir_queue r' = []"
      "is_seed s' = is_seed s"
    using fulfil_held [OF h q(1) fs] so by (auto simp: s1_def r1_def)
  have m: "msg = Some \<lparr>fm_seed = is_seed s, fm_offset = is_offset s, fm_count = ?n, fm_delta = is_delta s\<rparr>"
    using f False fs r'(4,9) by (auto simp: is_flush_def s1_def Let_def result_simps)
  have "ir_flush rng r (the msg) = Inr (ro, r')"
    using r'(1) q(2) by (simp add: ir_flush_def m g Let_def r1_def ms_def cong: if_cong)
  moreover have "rcot_rel s' r'" using r'(3,5-8) by (simp add: rcot_rel_def held_def)
  ultimately show ?thesis using r'(2,4) m by (simp add: s1_def)
qed

lemma queue_rel:
  assumes rel: "rcot_rel s r"
  shows "\<exists>c so s' c' ro r'. is_queue_send s n = (Inr (c, so, s') :: ('e, _) result) \<and> ir_queue_recv r n = (Inr (c', ro, r') :: ('f, _) result) \<and>
    delivered (is_delta s) so ro \<and> rcot_rel s' r' \<and> is_delta s' = is_delta s"
proof (cases "n \<le> length (is_keys s)")
  case True
  let ?s = "s\<lparr>is_chans := is_chans s + 1\<rparr>" and ?r = "r\<lparr>ir_chans := ir_chans r + 1\<rparr>"
  have l: "length (ir_choices r) = length (is_keys s)" using rel by (auto simp: rcot_rel_def dest: correlated_length)
  have h: "held ?s ?r" using rel by (simp add: held_def rcot_rel_def)
  obtain id ks cs ms ks' cs' ms' where p: "is_pop n ?s = (Inr ((id, ks), ?s\<lparr>is_keys := ks', is_id := id + 1\<rparr>) :: ('e, _) result)"
      "ir_pop n ?r = (Inr ((id, cs, ms), ?r\<lparr>ir_choices := cs', ir_msgs := ms', ir_id := id + 1\<rparr>) :: ('f, _) result)"
      "correlated (is_delta s) ks cs ms" "correlated (is_delta s) ks' cs' ms'" "length ks' = length (is_keys s) - n"
    using pop_held [OF h, of n] True by auto
  have "rcot_rel (?s\<lparr>is_keys := ks', is_id := id + 1\<rparr>) (?r\<lparr>ir_choices := cs', ir_msgs := ms', ir_id := id + 1\<rparr>)"
    using rel p(4,5) by (fastforce simp: rcot_rel_def)
  moreover have "is_queue_send s n = (Inr (is_chans s, [(is_chans s, id, ks)], ?s\<lparr>is_keys := ks', is_id := id + 1\<rparr>) :: ('e, _) result)"
      "ir_queue_recv r n = (Inr (ir_chans r, [(ir_chans r, id, cs, ms)],
         ?r\<lparr>ir_choices := cs', ir_msgs := ms', ir_id := id + 1\<rparr>) :: ('f, _) result)"
    using p(1,2) True l by (simp_all add: is_queue_send_def ir_queue_recv_def Let_def)
  moreover have "delivered (is_delta s) [(is_chans s, id, ks)] [(ir_chans r, id, cs, ms)]" using p(3) by (simp add: delivered_def)
  moreover have "is_delta (?s\<lparr>is_keys := ks', is_id := id + 1\<rparr>) = is_delta s" by simp
  ultimately show ?thesis by blast
next
  case False
  then show ?thesis using rel
    by (auto simp: is_queue_send_def ir_queue_recv_def delivered_def rcot_rel_def Let_def dest: correlated_length)
qed

section \<open>Runs of the ideal functionality\<close>

text \<open>
  The two ends are called separately (\<open>IdealRCOT\<close> exposes the sender's and the receiver's calls one by
  one), so a run interleaves calls of either end: allocations at one end or both, direct and queued
  requests of one end, and flushes.  A refused \<open>try\<close> changes nothing and is not listed.  A run keeps the calls each end has
  made since the last flush; a flush takes place when both have made the same.  This is an
  obligation of the callers: \<open>rcot_desync\<close> below shows what happens otherwise.
\<close>

datatype rcot_call = Try nat | Enqueue nat

fun s_call :: "rcot_call \<Rightarrow> ideal_rcot_sender \<Rightarrow> (ideal_rcot_error, (nat \<times> sender_output) list \<times> ideal_rcot_sender) result" where
  "s_call (Try n) s = bindR (is_try_send s n) (\<lambda>(out, s). Inr ([(0, out)], s))"
| "s_call (Enqueue n) s = bindR (is_queue_send s n) (\<lambda>(ch, outs, s). Inr (outs, s))"

fun r_call :: "rcot_call \<Rightarrow> 'g ideal_rcot_receiver \<Rightarrow>
    (ideal_rcot_error, (nat \<times> receiver_output) list \<times> 'g ideal_rcot_receiver) result" where
  "r_call (Try n) r = bindR (ir_try_recv r n) (\<lambda>(out, r). Inr ([(0, out)], r))"
| "r_call (Enqueue n) r = bindR (ir_queue_recv r n) (\<lambda>(ch, outs, r). Inr (outs, r))"

inductive rcot_run ::
  "('g \<Rightarrow> bool \<times> 'g) \<Rightarrow> 'g ideal_rcot \<Rightarrow> 'g ideal_rcot \<Rightarrow> rcot_call list \<Rightarrow> rcot_call list \<Rightarrow>
     (nat \<times> sender_output) list \<Rightarrow> (nat \<times> receiver_output) list \<Rightarrow> bool"
  for rng w0 where
  init: "rcot_run rng w0 w0 [] [] [] []"
| alloc: "rcot_run rng w0 w cs cr so ro \<Longrightarrow> rcot_run rng w0 (rcot_alloc w n) cs cr so ro"
| s_alloc: "rcot_run rng w0 w cs cr so ro \<Longrightarrow> rcot_run rng w0 (w\<lparr>rc_sender := is_alloc (rc_sender w) n\<rparr>) cs cr so ro"
| r_alloc: "rcot_run rng w0 w cs cr so ro \<Longrightarrow> rcot_run rng w0 (w\<lparr>rc_receiver := ir_alloc (rc_receiver w) n\<rparr>) cs cr so ro"
| sends: "rcot_run rng w0 w cs cr so ro \<Longrightarrow> s_call c (rc_sender w) = Inr (outs, s) \<Longrightarrow>
    rcot_run rng w0 (w\<lparr>rc_sender := s\<rparr>) (cs @ [c]) cr (so @ outs) ro"
| receives: "rcot_run rng w0 w cs cr so ro \<Longrightarrow> r_call c (rc_receiver w) = Inr (outs, r) \<Longrightarrow>
    rcot_run rng w0 (w\<lparr>rc_receiver := r\<rparr>) cs (cr @ [c]) so (ro @ outs)"
| transfers: "rcot_run rng w0 w cs cr so ro \<Longrightarrow> rcot_transfer w n = Inr (sout, rout, w') \<Longrightarrow>
    rcot_run rng w0 w' (cs @ [Try n]) (cr @ [Try n]) (so @ [(0, sout)]) (ro @ [(0, rout)])"
| flushes: "rcot_run rng w0 w cs cs so ro \<Longrightarrow> rcot_flush rng w = Inr (souts, routs, w') \<Longrightarrow>
    rcot_run rng w0 w' [] [] (so @ souts) (ro @ routs)"

text \<open>Several calls of one end.\<close>

fun s_calls :: "rcot_call list \<Rightarrow> ideal_rcot_sender \<Rightarrow> (ideal_rcot_error, (nat \<times> sender_output) list \<times> ideal_rcot_sender) result" where
  "s_calls [] s = Inr ([], s)"
| "s_calls (c # cs) s = bindR (s_call c s) (\<lambda>(o1, s). bindR (s_calls cs s) (\<lambda>(o2, s). Inr (o1 @ o2, s)))"

fun r_calls :: "rcot_call list \<Rightarrow> 'g ideal_rcot_receiver \<Rightarrow>
    (ideal_rcot_error, (nat \<times> receiver_output) list \<times> 'g ideal_rcot_receiver) result" where
  "r_calls [] r = Inr ([], r)"
| "r_calls (c # cs) r = bindR (r_call c r) (\<lambda>(o1, r). bindR (r_calls cs r) (\<lambda>(o2, r). Inr (o1 @ o2, r)))"

lemma delivered_append: "delivered d a b \<Longrightarrow> delivered d a' b' \<Longrightarrow> delivered d (a @ a') (b @ b')"
  by (auto simp: delivered_def intro: list_all2_appendI)

lemma delivered_length: "delivered d a b \<Longrightarrow> length a = length b"
  by (simp add: delivered_def list_all2_lengthD)

lemma s_calls_append:
  "s_calls (cs @ cs') s = bindR (s_calls cs s) (\<lambda>(o1, s). bindR (s_calls cs' s) (\<lambda>(o2, s). Inr (o1 @ o2, s)))"
  by (induction cs arbitrary: s) (auto simp: bindR_def split: sum.splits prod.splits)

lemma r_calls_append:
  "r_calls (cs @ cs') r = bindR (r_calls cs r) (\<lambda>(o1, r). bindR (r_calls cs' r) (\<lambda>(o2, r). Inr (o1 @ o2, r)))"
  by (induction cs arbitrary: r) (auto simp: bindR_def split: sum.splits prod.splits)

text \<open>A call neither reads nor changes what is allocated.\<close>

lemma s_call_pending:
  "s_call c s = Inr (outs, s') \<Longrightarrow> s_call c (s\<lparr>is_pending := p\<rparr>) = Inr (outs, s'\<lparr>is_pending := p\<rparr>)"
  by (cases c) (auto simp: is_try_send_def is_queue_send_def is_pop_def next_id_def Let_def result_simps split: if_splits)

lemma r_call_pending:
  "r_call c r = Inr (outs, r') \<Longrightarrow> r_call c (r\<lparr>ir_pending := p\<rparr>) = Inr (outs, r'\<lparr>ir_pending := p\<rparr>)"
  by (cases c) (auto simp: ir_try_recv_def ir_queue_recv_def ir_pop_def next_id_def Let_def result_simps split: if_splits)

lemma call_rel:
  assumes "rcot_rel s r" "s_call c s = Inr (so, s')" "r_call c r = Inr (ro, r')"
  shows "rcot_rel s' r' \<and> delivered (is_delta s) so ro \<and> is_delta s' = is_delta s"
proof (cases c)
  case (Try n)
  with assms(2) have "n \<le> is_available s" by (auto simp: is_try_send_def is_available_def result_simps split: if_splits)
  from rcot_try [OF assms(1) this] Try assms(2,3) show ?thesis by (auto simp: delivered_def)
next
  case (Enqueue n)
  then show ?thesis
    using queue_rel [where 'e = ideal_rcot_error and 'f = ideal_rcot_error, OF assms(1), of n] assms(2,3) by auto
qed

lemma calls_rel:
  assumes "rcot_rel s r" "s_calls cs s = Inr (so, s')" "r_calls cs r = Inr (ro, r')"
  shows "rcot_rel s' r' \<and> delivered (is_delta s) so ro \<and> is_delta s' = is_delta s"
  using assms
proof (induction cs arbitrary: s r so ro)
  case Nil
  then show ?case by (simp add: delivered_def)
next
  case (Cons c cs)
  from Cons.prems(2) obtain o1 s1 o2 where s: "s_call c s = Inr (o1, s1)" "s_calls cs s1 = Inr (o2, s')" "so = o1 @ o2"
    by (auto simp: result_simps)
  from Cons.prems(3) obtain p1 r1 p2 where r: "r_call c r = Inr (p1, r1)" "r_calls cs r1 = Inr (p2, r')" "ro = p1 @ p2"
    by (auto simp: result_simps)
  note one = call_rel [OF Cons.prems(1) s(1) r(1)]
  from Cons.IH [OF _ s(2) r(2)] one show ?case by (auto simp: s(3) r(3) intro: delivered_append)
qed

text \<open>
  The invariant of a run: after the last flush the ends were related, and since then each has made its calls.
  What is allocated plays no part and is erased.
\<close>

definition rcot_linked :: "block \<Rightarrow> 'g ideal_rcot \<Rightarrow> rcot_call list \<Rightarrow> rcot_call list \<Rightarrow>
    (nat \<times> sender_output) list \<Rightarrow> (nat \<times> receiver_output) list \<Rightarrow> bool" where
  "rcot_linked d w cs cr so ro \<longleftrightarrow> (\<exists>s0 (r0 :: 'g ideal_rcot_receiver) so0 ro0 so1 ro1.
     rcot_rel s0 r0 \<and> is_delta s0 = d \<and> delivered d so0 ro0 \<and> so = so0 @ so1 \<and> ro = ro0 @ ro1 \<and>
     s_calls cs s0 = Inr (so1, (rc_sender w)\<lparr>is_pending := 0\<rparr>) \<and> r_calls cr r0 = Inr (ro1, (rc_receiver w)\<lparr>ir_pending := 0\<rparr>))"

lemma rcot_linked_start:
  assumes "rcot_rel (rc_sender w) ((rc_receiver w)\<lparr>ir_pending := is_pending (rc_sender w)\<rparr>)" "is_delta (rc_sender w) = d" "delivered d so ro"
  shows "rcot_linked d w [] [] so ro"
  unfolding rcot_linked_def
  by (rule exI [of _ "(rc_sender w)\<lparr>is_pending := 0\<rparr>"], rule exI [of _ "(rc_receiver w)\<lparr>ir_pending := 0\<rparr>"])
    (use assms in \<open>simp add: rcot_rel_def\<close>)

lemma rcot_linked_alloc:
  "rcot_linked d w cs cr so ro \<Longrightarrow> (rc_sender w')\<lparr>is_pending := 0\<rparr> = (rc_sender w)\<lparr>is_pending := 0\<rparr> \<Longrightarrow>
     (rc_receiver w')\<lparr>ir_pending := 0\<rparr> = (rc_receiver w)\<lparr>ir_pending := 0\<rparr> \<Longrightarrow> rcot_linked d w' cs cr so ro"
  by (simp add: rcot_linked_def)

lemma rcot_linked_sends:
  assumes "rcot_linked d w cs cr so ro" "s_call c (rc_sender w) = Inr (outs, s)"
  shows "rcot_linked d (w\<lparr>rc_sender := s\<rparr>) (cs @ [c]) cr (so @ outs) ro"
  using assms s_call_pending [OF assms(2), of 0] unfolding rcot_linked_def by (fastforce simp: s_calls_append)

lemma rcot_linked_receives:
  assumes "rcot_linked d w cs cr so ro" "r_call c (rc_receiver w) = Inr (outs, r)"
  shows "rcot_linked d (w\<lparr>rc_receiver := r\<rparr>) cs (cr @ [c]) so (ro @ outs)"
  using assms r_call_pending [OF assms(2), of 0] unfolding rcot_linked_def by (fastforce simp: r_calls_append)

lemma rcot_linked_same:
  assumes "rcot_linked d w cs cs so ro"
  shows "rcot_rel (rc_sender w) ((rc_receiver w)\<lparr>ir_pending := is_pending (rc_sender w)\<rparr>) \<and> is_delta (rc_sender w) = d \<and> delivered d so ro"
proof -
  obtain s0 and r0 :: "'a ideal_rcot_receiver" and so0 ro0 so1 ro1 where
    h: "rcot_rel s0 r0" "is_delta s0 = d" "delivered d so0 ro0" "so = so0 @ so1" "ro = ro0 @ ro1"
      "s_calls cs s0 = Inr (so1, (rc_sender w)\<lparr>is_pending := 0\<rparr>)" "r_calls cs r0 = Inr (ro1, (rc_receiver w)\<lparr>ir_pending := 0\<rparr>)"
    using assms unfolding rcot_linked_def by blast
  from calls_rel [OF h(1,6,7)] h(2-5) show ?thesis by (auto simp: rcot_rel_def intro: delivered_append)
qed

lemma rcot_linked_flush:
  assumes l: "rcot_linked d w cs cs so ro" and f: "rcot_flush rng w = Inr (souts, routs, w')"
  shows "rcot_linked d w' [] [] (so @ souts) (ro @ routs)"
proof -
  let ?s = "rc_sender w" and ?r = "(rc_receiver w)\<lparr>ir_pending := is_pending (rc_sender w)\<rparr>"
  have h: "rcot_rel ?s ?r" "is_delta ?s = d" "delivered d so ro" using rcot_linked_same [OF l] by blast+
  obtain msg s' where m: "is_flush ?s = (Inr (msg, souts, s') :: (ideal_rcot_error, _) result)"
    using f by (auto simp: rcot_flush_def result_simps split: option.splits)
  note fl = flush_rel [OF h(1) m, of rng]
  show ?thesis
  proof (cases msg)
    case None
    then have "souts = []" "s' = ?s" "routs = []" "w' = w" using fl f m by (auto simp: rcot_flush_def)
    then show ?thesis using rcot_linked_start [OF h] by simp
  next
    case (Some msg')
    then obtain r' where r': "ir_flush rng (rc_receiver w) msg' = Inr (routs, r')" "w' = w\<lparr>rc_sender := s', rc_receiver := r'\<rparr>"
      using f m by (auto simp: rcot_flush_def result_simps)
    have "fm_count msg' = is_pending ?s"
      using m Some by (auto simp: is_flush_def Let_def result_simps split: if_splits)
    then have "?r = rc_receiver w" using r'(1) by (auto simp: ir_flush_def split: if_splits)
    then have "rcot_rel s' r'" "delivered d souts routs" "is_delta s' = d" using fl Some r'(1) h(2) by auto
    then show ?thesis using r'(2) rcot_linked_start [of w' d "so @ souts" "ro @ routs"] delivered_append [OF h(3)]
      by (simp add: rcot_rel_def)
  qed
qed

lemma rcot_run_linked:
  assumes "rcot_run rng (rcot_new g seed d) w cs cr so ro"
  shows "rcot_linked d w cs cr so ro"
  using assms
proof induction
  case init
  show ?case
    by (rule rcot_linked_start) (simp_all add: rcot_rel_def rcot_new_def is_new_def ir_from_seed_def correlated_def delivered_def)
next
  case (transfers w cs cr so ro n sout rout w')
  then obtain s r where t: "s_call (Try n) (rc_sender w) = Inr ([(0, sout)], s)" "r_call (Try n) (rc_receiver w) = Inr ([(0, rout)], r)"
      "w' = w\<lparr>rc_sender := s, rc_receiver := r\<rparr>"
    by (auto simp: rcot_transfer_def result_simps)
  from rcot_linked_receives [OF rcot_linked_sends [OF transfers.IH t(1)]] t(2,3) show ?case by simp
qed (auto intro: rcot_linked_sends rcot_linked_receives rcot_linked_flush elim!: rcot_linked_alloc
    simp: rcot_alloc_def is_alloc_def ir_alloc_def)

text \<open>What one end got in its calls, as far as the other has come.\<close>

lemma rcot_linked_prefix:
  assumes l: "rcot_linked d w cs cr so ro" and p: "(\<exists>xs. cs = cr @ xs) \<or> (\<exists>xs. cr = cs @ xs)"
  shows "delivered d (take (min (length so) (length ro)) so) (take (min (length so) (length ro)) ro)"
proof -
  obtain s0 and r0 :: "'a ideal_rcot_receiver" and so0 ro0 so1 ro1 where
    h: "rcot_rel s0 r0" "is_delta s0 = d" "delivered d so0 ro0" "so = so0 @ so1" "ro = ro0 @ ro1"
      "s_calls cs s0 = Inr (so1, (rc_sender w)\<lparr>is_pending := 0\<rparr>)" "r_calls cr r0 = Inr (ro1, (rc_receiver w)\<lparr>ir_pending := 0\<rparr>)"
    using l unfolding rcot_linked_def by blast
  have e: "length so0 = length ro0" using h(3) by (rule delivered_length)
  from p show ?thesis
  proof
    assume "\<exists>xs. cs = cr @ xs"
    then obtain xs where "cs = cr @ xs" ..
    with h(6) obtain o1 s1 o2 where s: "s_calls cr s0 = Inr (o1, s1)" "so1 = o1 @ o2" by (auto simp: s_calls_append result_simps)
    have "delivered d (so0 @ o1) (ro0 @ ro1)" using calls_rel [OF h(1) s(1) h(7)] h(2,3) by (auto intro: delivered_append)
    then show ?thesis using delivered_length [of d "so0 @ o1" "ro0 @ ro1"] by (simp add: h(4,5) s(2))
  next
    assume "\<exists>xs. cr = cs @ xs"
    then obtain xs where "cr = cs @ xs" ..
    with h(7) obtain o1 r1 o2 where r: "r_calls cs r0 = Inr (o1, r1)" "ro1 = o1 @ o2" by (auto simp: r_calls_append result_simps)
    have "delivered d (so0 @ so1) (ro0 @ o1)" using calls_rel [OF h(1,6) r(1)] h(2,3) by (auto intro: delivered_append)
    then show ?thesis using delivered_length [of d "so0 @ so1" "ro0 @ o1"] by (simp add: h(4,5) r(2))
  qed
qed

section \<open>Correlated OT with chosen keys\<close>

datatype ideal_cot_error = BatchCountMismatch nat nat | CotCountMismatch nat nat

record ideal_cot_sender =
  ics_delta :: block
  ics_id :: transfer_id
  ics_batches :: "(nat \<times> block list \<times> nat) list"
  ics_chans :: nat

type_synonym cot_flush_msg = "block \<times> (nat \<times> block list) list"

definition ics_new :: "block \<Rightarrow> ideal_cot_sender" where
  "ics_new d = \<lparr>ics_delta = d, ics_id = 0, ics_batches = [], ics_chans = 0\<rparr>"

definition ics_wants_flush :: "ideal_cot_sender \<Rightarrow> bool" where
  "ics_wants_flush s \<longleftrightarrow> ics_batches s \<noteq> []"

fun ics_loop :: "(nat \<times> block list \<times> nat) list \<Rightarrow> transfer_id \<Rightarrow> (nat \<times> block list) list \<times> (nat \<times> transfer_id) list \<times> transfer_id" where
  "ics_loop [] t = ([], [], t)"
| "ics_loop ((count, keys, ch) # bs) t =
     (let (id, t) = next_id t; (fb, outs, t) = ics_loop bs t in ((count, keys) # fb, (ch, id) # outs, t))"

definition ics_flush :: "ideal_cot_sender \<Rightarrow> cot_flush_msg option \<times> (nat \<times> transfer_id) list \<times> ideal_cot_sender" where
  "ics_flush s =
     (if ics_batches s = [] then (None, [], s)
      else let (fb, outs, t) = ics_loop (ics_batches s) (ics_id s)
           in (Some (ics_delta s, fb), outs, s\<lparr>ics_batches := [], ics_id := t\<rparr>))"

definition ics_available :: "ideal_cot_sender \<Rightarrow> nat" where
  "ics_available s = sum_list (map fst (ics_batches s))"

definition ics_queue_send :: "ideal_cot_sender \<Rightarrow> block list \<Rightarrow> nat \<times> ideal_cot_sender" where
  "ics_queue_send s keys =
     (let ch = ics_chans s in (ch, s\<lparr>ics_chans := ch + 1, ics_batches := ics_batches s @ [(length keys, keys, ch)]\<rparr>))"

record ideal_cot_receiver =
  icr_id :: transfer_id
  icr_batches :: "(bool list \<times> nat) list"
  icr_chans :: nat

definition icr_new :: ideal_cot_receiver where
  "icr_new = \<lparr>icr_id = 0, icr_batches = [], icr_chans = 0\<rparr>"

definition icr_wants_flush :: "ideal_cot_receiver \<Rightarrow> bool" where
  "icr_wants_flush r \<longleftrightarrow> icr_batches r \<noteq> []"

fun icr_loop :: "block \<Rightarrow> ((nat \<times> block list) \<times> (bool list \<times> nat)) list \<Rightarrow> transfer_id \<Rightarrow>
    (ideal_cot_error, (nat \<times> transfer_id \<times> block list) list \<times> transfer_id) result" where
  "icr_loop d [] t = Inr ([], t)"
| "icr_loop d (((count, keys), (choices, ch)) # bs) t =
     (if count \<noteq> length choices then Inl (Err (CotCountMismatch count (length choices)))
      else
        let msgs = map2 (\<lambda>key choice. if choice then key XOR d else key) keys choices;
            (id, t) = next_id t
        in bindR (icr_loop d bs t) (\<lambda>(outs, t). Inr ((ch, id, msgs) # outs, t)))"

definition icr_flush :: "ideal_cot_receiver \<Rightarrow> cot_flush_msg \<Rightarrow>
    (ideal_cot_error, (nat \<times> transfer_id \<times> block list) list \<times> ideal_cot_receiver) result" where
  "icr_flush r m =
     (if length (snd m) \<noteq> length (icr_batches r) then Inl (Err (BatchCountMismatch (length (snd m)) (length (icr_batches r))))
      else bindR (icr_loop (fst m) (zip (snd m) (icr_batches r)) (icr_id r)) (\<lambda>(outs, t).
             Inr (outs, r\<lparr>icr_batches := [], icr_id := t\<rparr>)))"

definition icr_available :: "ideal_cot_receiver \<Rightarrow> nat" where
  "icr_available r = sum_list (map (\<lambda>(choices, ch). length choices) (icr_batches r))"

definition icr_queue_recv :: "ideal_cot_receiver \<Rightarrow> bool list \<Rightarrow> nat \<times> ideal_cot_receiver" where
  "icr_queue_recv r choices =
     (let ch = icr_chans r in (ch, r\<lparr>icr_chans := ch + 1, icr_batches := icr_batches r @ [(choices, ch)]\<rparr>))"

text \<open>\<open>IdealCOT::flush\<close> on the pair.\<close>

definition cot_flush :: "ideal_cot_sender \<times> ideal_cot_receiver \<Rightarrow>
    (ideal_cot_error, (nat \<times> transfer_id) list \<times> (nat \<times> transfer_id \<times> block list) list \<times> (ideal_cot_sender \<times> ideal_cot_receiver)) result" where
  "cot_flush w =
     (let (msg, so, s) = ics_flush (fst w)
      in (case msg of
            None \<Rightarrow> Inr (so, [], (s, snd w))
          | Some m \<Rightarrow> bindR (icr_flush (snd w) m) (\<lambda>(ro, r). Inr (so, ro, (s, r)))))"

lemma ics_loop_ok:
  "ics_loop bs t = (map (\<lambda>(c, ks, ch). (c, ks)) bs, map (\<lambda>(i, c, ks, ch). (ch, t + of_nat i)) (enumerate 0 bs), t + of_nat (length bs))"
proof (induction bs arbitrary: t)
  case (Cons b bs)
  have e: "map (\<lambda>(i, c, ks, ch). (ch, t + of_nat i)) (enumerate (Suc 0) bs) =
      map (\<lambda>(i, c, ks, ch). (ch, (t + 1) + of_nat i)) (enumerate 0 bs)"
    by (rule nth_equalityI) (auto simp: nth_enumerate_eq split: prod.splits)
  obtain c ks ch where "b = (c, ks, ch)" by (cases b) auto
  then show ?case using Cons.IH [of "t + 1"] by (simp add: next_id_def e)
qed simp

lemma icr_loop_ok:
  assumes "list_all2 (\<lambda>(c, ks) (cs, ch). c = length ks \<and> length ks = length cs) fb bs"
  shows "icr_loop d (zip fb bs) t =
    Inr (map (\<lambda>(i, (c, ks), (cs, ch)). (ch, t + of_nat i, map2 (\<lambda>k c. key_auth k c d) ks cs)) (enumerate 0 (zip fb bs)), t + of_nat (length bs))"
  using assms
proof (induction fb bs arbitrary: t rule: list_all2_induct)
  case (Cons f fb b bs)
  have e: "map (\<lambda>(i, (c, ks), (cs, ch)). (ch, t + of_nat i, map2 (\<lambda>k c. key_auth k c d) ks cs)) (enumerate (Suc 0) (zip fb bs)) =
      map (\<lambda>(i, (c, ks), (cs, ch)). (ch, (t + 1) + of_nat i, map2 (\<lambda>k c. key_auth k c d) ks cs)) (enumerate 0 (zip fb bs))"
    by (rule nth_equalityI) (auto simp: nth_enumerate_eq split: prod.splits)
  obtain c ks cs ch where fb: "f = (c, ks)" "b = (cs, ch)" by (cases f; cases b) auto
  have "map2 (\<lambda>key choice. if choice then key XOR d else key) ks cs = map2 (\<lambda>k c. key_auth k c d) ks cs"
    by (auto simp: key_auth_def BLOCK_ZERO_def)
  then show ?case using Cons.IH [of "t + 1"] Cons.hyps(1) fb by (simp add: next_id_def e)
qed simp

section \<open>Properties of the ideal functionalities\<close>

text \<open>
  C30. The ideal random COT keeps the correlation in every run, from the initial state, in which the two
  ends are called separately and in any interleaving (allocations at either end, direct and queued
  requests of either end, flushes), as long as both have made the same calls whenever a flush takes
  place.  When one end is ahead of the other, everything the other has got so far matches what the
  first was given: the outputs agree position by position in the transfer id and satisfy
  \<open>m = k \<oplus> c \<Delta>\<close>.  When both have made the same calls, they have got equally many outputs, and the
  OTs still held are correlated under one next id.
\<close>

theorem ideal_rcot_correlated:
  assumes "rcot_run rng (rcot_new g seed d) w cs cr so ro"
  shows "((\<exists>xs. cs = cr @ xs) \<or> (\<exists>xs. cr = cs @ xs) \<longrightarrow>
       delivered d (take (min (length so) (length ro)) so) (take (min (length so) (length ro)) ro)) \<and>
    (cs = cr \<longrightarrow> delivered d so ro \<and> is_id (rc_sender w) = ir_id (rc_receiver w) \<and>
       correlated d (is_keys (rc_sender w)) (ir_choices (rc_receiver w)) (ir_msgs (rc_receiver w)))"
proof -
  note l = rcot_run_linked [OF assms]
  show ?thesis using rcot_linked_prefix [OF l] rcot_linked_same [of d w cs so ro] l by (auto simp: rcot_rel_def)
qed

text \<open>Two OTs are flushed; the sender takes one and queues for the other, the receiver has taken one so far.\<close>

theorem ideal_rcot_correlated_witness:
  "\<exists>w so ro. rcot_run (\<lambda>g. (odd g, Suc g)) (rcot_new 0 7 9) w [Try 1, Enqueue 1] [Try 1] so ro \<and>
     length so = 2 \<and> length ro = 1 \<and> delivered 9 (take 1 so) ro"
proof -
  let ?rng = "\<lambda>g. (odd g, Suc g)" let ?w0 = "rcot_new 0 7 9 :: nat ideal_rcot"
  note ev = rcot_new_def is_new_def ir_from_seed_def rcot_alloc_def is_alloc_def ir_alloc_def rcot_flush_def is_flush_def
    ir_flush_def generate_keys_def numeral_2_eq_2
  obtain w where f: "rcot_flush ?rng (rcot_alloc ?w0 2) = Inr ([], [], w)" "is_keys (rc_sender w) = [7, 8]"
      "length (ir_choices (rc_receiver w)) = 2" "length (ir_msgs (rc_receiver w)) = 2"
    by (simp add: ev Let_def)
  have 1: "rcot_run ?rng ?w0 w [] [] [] []" using rcot_run.flushes [OF rcot_run.alloc [OF rcot_run.init] f(1)] by simp
  obtain out s where s: "s_call (Try 1) (rc_sender w) = Inr ([out], s)" "is_keys s = [7]"
    using f(2) by (simp add: is_try_send_def is_pop_ok)
  obtain out' s' where s': "s_call (Enqueue 1) s = Inr ([out'], s')"
    using s(2) by (simp add: is_queue_send_def is_pop_ok Let_def)
  obtain rout r where r: "r_call (Try 1) (rc_receiver w) = Inr ([rout], r)"
    using f(3,4) by (simp add: ir_try_recv_def ir_pop_ok)
  have "\<exists>w. rcot_run ?rng ?w0 w [Try 1, Enqueue 1] [Try 1] [out, out'] [rout]"
    using rcot_run.receives [OF rcot_run.sends [OF rcot_run.sends [OF 1 s(1)]], of "Enqueue 1" "[out']" s' "Try 1" "[rout]" r] s' r by auto
  then obtain w' where run: "rcot_run ?rng ?w0 w' [Try 1, Enqueue 1] [Try 1] [out, out'] [rout]" ..
  from ideal_rcot_correlated [OF run] run show ?thesis by fastforce
qed

text \<open>
  The two ends take their OTs from the end of what they hold.  If one of them takes before a flush
  and the other after it, both succeed, and under the same transfer id, but with different OTs: the
  outputs are not correlated, whatever the random choices are.
\<close>

theorem rcot_desync:
  "\<exists>w1 s ks w2 r cs ms.
     rcot_flush rng (rcot_alloc (rcot_new g 7 9) 1) = Inr ([], [], w1) \<and>
     is_try_send (rc_sender w1) 1 = Inr ((0, ks), s) \<and>
     rcot_flush rng (rcot_alloc (w1\<lparr>rc_sender := s\<rparr>) 1) = Inr ([], [], w2) \<and>
     ir_try_recv (rc_receiver w2) 1 = Inr ((0, cs, ms), r) \<and> \<not> correlated 9 ks cs ms"
proof -
  obtain b g1 where 1: "rng g = (b, g1)" by (cases "rng g")
  obtain b' g2 where 2: "rng g1 = (b', g2)" by (cases "rng g1")
  show ?thesis
    by (simp add: rcot_new_def is_new_def ir_from_seed_def rcot_alloc_def is_alloc_def ir_alloc_def rcot_flush_def is_flush_def
        ir_flush_def generate_keys_def 1 2 is_try_send_def ir_try_recv_def is_pop_def ir_pop_def split_off_def next_id_def
        correlated_def key_auth_def BLOCK_ZERO_def Let_def)
qed

text \<open>
  C31. The ideal COT delivers what was queued: if the parties queued batches of equal lengths, a flush
  succeeds, answers every queued request in order under the same ids, and each message is the key
  exclusive-or the choice times delta; both queues are empty afterwards.
\<close>

theorem ideal_cot_flush:
  assumes "list_all2 (\<lambda>(c, ks, ch) (cs, ch'). c = length ks \<and> length ks = length cs) (ics_batches s) (icr_batches r)"
    "ics_id s = icr_id r" "ics_batches s \<noteq> []"
  shows "\<exists>so ro s' r'. cot_flush (s, r) = Inr (so, ro, (s', r')) \<and> ics_batches s' = [] \<and> icr_batches r' = [] \<and>
    ics_id s' = icr_id r' \<and> map fst so = map (\<lambda>(c, ks, ch). ch) (ics_batches s) \<and> map fst ro = map snd (icr_batches r) \<and>
    map snd so = map (\<lambda>(ch, id, ms). id) ro \<and>
    map (\<lambda>(ch, id, ms). ms) ro = map2 (\<lambda>(c, ks, ch) (cs, ch'). map2 (\<lambda>k c. key_auth k c (ics_delta s)) ks cs) (ics_batches s) (icr_batches r)"
proof -
  let ?fb = "map (\<lambda>(c, ks, ch). (c, ks)) (ics_batches s)" and ?B = "icr_batches r" and ?t = "icr_id r"
  have l: "length (ics_batches s) = length ?B" using assms(1) by (rule list_all2_lengthD)
  have "list_all2 (\<lambda>(c, ks) (cs, ch). c = length ks \<and> length ks = length cs) ?fb ?B"
    using assms(1) by (auto simp: list_all2_map1 case_prod_unfold)
  note loop = icr_loop_ok [OF this, of "ics_delta s" ?t]
  let ?so = "map (\<lambda>(i, c, ks, ch). (ch, ?t + of_nat i)) (enumerate 0 (ics_batches s))"
  let ?ro = "map (\<lambda>(i, (c, ks), (cs, ch)). (ch, ?t + of_nat i, map2 (\<lambda>k c. key_auth k c (ics_delta s)) ks cs)) (enumerate 0 (zip ?fb ?B))"
  have "cot_flush (s, r) = Inr (?so, ?ro, (s\<lparr>ics_batches := [], ics_id := ?t + of_nat (length ?B)\<rparr>, r\<lparr>icr_batches := [], icr_id := ?t + of_nat (length ?B)\<rparr>))"
    using assms(2,3) loop l by (simp add: cot_flush_def ics_flush_def icr_flush_def ics_loop_ok)
  moreover have "map fst ?so = map (\<lambda>(c, ks, ch). ch) (ics_batches s)" "map fst ?ro = map snd ?B"
      "map snd ?so = map (\<lambda>(ch, id, ms). id) ?ro"
      "map (\<lambda>(ch, id, ms). ms) ?ro = map2 (\<lambda>(c, ks, ch) (cs, ch'). map2 (\<lambda>k c. key_auth k c (ics_delta s)) ks cs) (ics_batches s) ?B"
    by (rule nth_equalityI; use l in \<open>auto simp: nth_enumerate_eq case_prod_unfold\<close>)+
  ultimately show ?thesis by fastforce
qed

theorem ideal_cot_flush_witness:
  "\<exists>so ro w. cot_flush (snd (ics_queue_send (ics_new 9) [3]), snd (icr_queue_recv icr_new [True])) = Inr (so, ro, w) \<and>
     map (\<lambda>(ch, id, ms). ms) ro = [[key_auth 3 True 9]]"
proof -
  let ?s = "snd (ics_queue_send (ics_new 9) [3])" and ?r = "snd (icr_queue_recv icr_new [True])"
  have "list_all2 (\<lambda>(c, ks, ch) (cs, ch'). c = length ks \<and> length ks = length cs) (ics_batches ?s) (icr_batches ?r)"
    "ics_id ?s = icr_id ?r" "ics_batches ?s \<noteq> []"
    by (simp_all add: ics_queue_send_def icr_queue_recv_def ics_new_def icr_new_def Let_def)
  from ideal_cot_flush [OF this] show ?thesis
    by (force simp: ics_queue_send_def icr_queue_recv_def ics_new_def icr_new_def Let_def)
qed

end
