(* ===== verification/Derand_Cot.thy ===== *)
theory Derand_Cot
  imports Ideal_Cot
begin

text \<open>
  Correlated OT with chosen inputs from preprocessed random correlated OT
  (\<open>ot-core/src/cot/derandomize.rs\<close>), and random OT from random correlated OT
  (\<open>ot-core/src/rot/randomize.rs\<close>).  The random COT is the type parameter of the code; its trait
  methods are arguments.  Correctness is proved once for every implementation of \<open>rcot_pair\<close>.
\<close>

section \<open>The derandomising sender\<close>

datatype 'e derand_error = DerandWrongLength nat nat | DerandRcot 'e

record 's derand_sender =
  ds_rcot :: 's
  ds_adjust :: "block list"
  ds_queue :: "(nat \<times> nat) list"
  ds_chans :: nat

definition ds_new :: "'s \<Rightarrow> 's derand_sender" where
  "ds_new rcot = \<lparr>ds_rcot = rcot, ds_adjust = [], ds_queue = [], ds_chans = 0\<rparr>"

definition ds_wants_adjust :: "'s derand_sender \<Rightarrow> bool" where
  "ds_wants_adjust s \<longleftrightarrow> ds_adjust s \<noteq> []"

definition ds_queue_send :: "'s derand_sender \<Rightarrow> block list \<Rightarrow> nat \<times> 's derand_sender" where
  "ds_queue_send s keys =
     (let count = length keys; ch = ds_chans s
      in (ch, s\<lparr>ds_chans := ch + 1, ds_adjust := ds_adjust s @ keys, ds_queue := ds_queue s @ [(count, ch)]\<rparr>))"

text \<open>\<open>xs.iter_mut().zip(ys).for_each(...)\<close>: elements without a partner stay.\<close>

definition zip_update :: "('a \<Rightarrow> 'b \<Rightarrow> 'a) \<Rightarrow> 'a list \<Rightarrow> 'b list \<Rightarrow> 'a list" where
  "zip_update f xs ys = map2 f xs ys @ drop (length ys) xs"

fun ds_loop ::
  "('s \<Rightarrow> nat \<Rightarrow> ('e, sender_output \<times> 's) result) \<Rightarrow> block \<Rightarrow> bool list \<Rightarrow> (nat \<times> nat) list \<Rightarrow> nat \<Rightarrow> block list \<Rightarrow> 's \<Rightarrow>
     ('e derand_error, block list \<times> (nat \<times> transfer_id) list \<times> 's) result" where
  "ds_loop try_send d flip [] i adjust rcot = Inr (adjust, [], rcot)"
| "ds_loop try_send d flip ((count, ch) # q) i adjust rcot =
     bindR (map_err DerandRcot (try_send rcot count)) (\<lambda>((id, keys), rcot).
     bindR (subslice adjust i (i + count)) (\<lambda>seg.
     bindR (subslice flip i (i + count)) (\<lambda>fl.
       let seg = zip_update (\<lambda>a (f, k). (a XOR k) XOR (if f then d else BLOCK_ZERO)) seg (zip fl keys)
       in bindR (copy_into adjust i (i + count) seg) (\<lambda>adjust.
          bindR (ds_loop try_send d flip q (i + count) adjust rcot) (\<lambda>(adjust, outs, rcot).
            Inr (adjust, (ch, id) # outs, rcot))))))"

definition ds_send_adjust ::
  "('s \<Rightarrow> block) \<Rightarrow> ('s \<Rightarrow> nat \<Rightarrow> ('e, sender_output \<times> 's) result) \<Rightarrow> 's derand_sender \<Rightarrow> bool list \<Rightarrow>
     ('e derand_error, block list \<times> (nat \<times> transfer_id) list \<times> 's derand_sender) result" where
  "ds_send_adjust delta_of try_send s flip =
     (if length flip \<noteq> length (ds_adjust s) then Inl (Err (DerandWrongLength (length flip) (length (ds_adjust s))))
      else
        let d = delta_of (ds_rcot s)
        in bindR (ds_loop try_send d flip (ds_queue s) 0 (ds_adjust s) (ds_rcot s)) (\<lambda>(adjust, outs, rcot).
             Inr (adjust, outs, s\<lparr>ds_rcot := rcot, ds_adjust := [], ds_queue := []\<rparr>)))"

section \<open>The derandomising receiver\<close>

record 'r derand_receiver =
  dr_rcot :: 'r
  dr_derandomize :: "bool list"
  dr_queue :: "(nat \<times> nat) list"
  dr_chans :: nat

definition dr_new :: "'r \<Rightarrow> 'r derand_receiver" where
  "dr_new rcot = \<lparr>dr_rcot = rcot, dr_derandomize = [], dr_queue = [], dr_chans = 0\<rparr>"

definition dr_wants_adjust :: "'r derand_receiver \<Rightarrow> bool" where
  "dr_wants_adjust r \<longleftrightarrow> dr_derandomize r \<noteq> []"

definition dr_queue_recv :: "'r derand_receiver \<Rightarrow> bool list \<Rightarrow> nat \<times> 'r derand_receiver" where
  "dr_queue_recv r choices =
     (let count = length choices; ch = dr_chans r
      in (ch, r\<lparr>dr_chans := ch + 1, dr_derandomize := dr_derandomize r @ choices, dr_queue := dr_queue r @ [(count, ch)]\<rparr>))"

text \<open>The loop of \<open>adjust\<close>, which stops at the first request that cannot be served.\<close>

fun dr_loop ::
  "('r \<Rightarrow> nat) \<Rightarrow> ('r \<Rightarrow> nat \<Rightarrow> ('e, receiver_output \<times> 'r) result) \<Rightarrow> (nat \<times> nat) list \<Rightarrow> nat \<Rightarrow> bool list \<Rightarrow> 'r \<Rightarrow>
     ('e derand_error, bool list \<times> (transfer_id \<times> block list) list \<times> nat \<times> 'r) result" where
  "dr_loop avail try_recv [] i flip rcot = Inr (flip, [], i, rcot)"
| "dr_loop avail try_recv ((count, ch) # q) i flip rcot =
     (if avail rcot < count then Inr (flip, [], i, rcot)
      else
        bindR (map_err DerandRcot (try_recv rcot count)) (\<lambda>((id, masks, msgs), rcot).
        bindR (subslice flip i (i + count)) (\<lambda>seg.
        bindR (copy_into flip i (i + count) (zip_update (\<noteq>) seg masks)) (\<lambda>flip.
        bindR (dr_loop avail try_recv q (i + count) flip rcot) (\<lambda>(flip, cots, n, rcot).
          Inr (flip, (id, msgs) # cots, n, rcot))))))"

record receive_adjust =
  ra_count :: nat
  ra_cots :: "(transfer_id \<times> block list) list"

definition dr_adjust ::
  "('r \<Rightarrow> nat) \<Rightarrow> ('r \<Rightarrow> nat \<Rightarrow> ('e, receiver_output \<times> 'r) result) \<Rightarrow> 'r derand_receiver \<Rightarrow>
     ('e derand_error, bool list \<times> receive_adjust \<times> 'r derand_receiver) result" where
  "dr_adjust avail try_recv r =
     (let flip = dr_derandomize r; r = r\<lparr>dr_derandomize := []\<rparr>
      in bindR (dr_loop avail try_recv (dr_queue r) 0 flip (dr_rcot r)) (\<lambda>(flip, cots, i, rcot).
           Inr (flip, \<lparr>ra_count = i, ra_cots = cots\<rparr>, r\<lparr>dr_rcot := rcot\<rparr>)))"

fun receive_loop :: "((transfer_id \<times> block list) \<times> (nat \<times> nat)) list \<Rightarrow> block list \<Rightarrow> (nat \<times> transfer_id \<times> block list) list" where
  "receive_loop [] adjust = []"
| "receive_loop (((tid, msgs), (count, ch)) # cs) adjust =
     (ch, tid, zip_update (XOR) msgs (take (length msgs) adjust)) # receive_loop cs (drop (length msgs) adjust)"

definition ra_receive ::
  "receive_adjust \<Rightarrow> 'r derand_receiver \<Rightarrow> block list \<Rightarrow>
     ('e derand_error, (nat \<times> transfer_id \<times> block list) list \<times> 'r derand_receiver) result" where
  "ra_receive ra r adjust =
     (if length adjust \<noteq> ra_count ra then Inl (Err (DerandWrongLength (length adjust) (ra_count ra)))
      else
        let n = length (ra_cots ra)
        in bindR (assertR (n \<le> length (dr_queue r))) (\<lambda>_.
             Inr (receive_loop (zip (ra_cots ra) (take n (dr_queue r))) adjust, r\<lparr>dr_queue := drop n (dr_queue r)\<rparr>)))"

section \<open>Random OT from random correlated OT\<close>

definition rot_tweak :: "transfer_id \<Rightarrow> nat \<Rightarrow> block" where
  "rot_tweak tid i = from_le_bytes (to_be_bytes (push_bit 64 (ucast tid) + of_nat i))"

definition randomize_sender :: "(block \<Rightarrow> block) \<Rightarrow> block \<Rightarrow> sender_output \<Rightarrow> transfer_id \<times> (block \<times> block) list" where
  "randomize_sender aes d out =
     (let (id, keys) = out
      in (id, map (\<lambda>(i, key). (tccr aes (rot_tweak id i) key, tccr aes (rot_tweak id i) (key XOR d))) (enumerate 0 keys)))"

definition randomize_receiver :: "(block \<Rightarrow> block) \<Rightarrow> receiver_output \<Rightarrow> receiver_output" where
  "randomize_receiver aes out =
     (let (id, choices, msgs) = out in (id, choices, map (\<lambda>(i, m). tccr aes (rot_tweak id i) m) (enumerate 0 msgs)))"

text \<open>\<open>AnySender\<close> and \<open>AnyReceiver\<close> (\<open>rot/any.rs\<close>): \<open>sample\<close> seeds a generator and draws one value.\<close>

definition map_sender :: "(block \<Rightarrow> 'u) \<Rightarrow> transfer_id \<times> (block \<times> block) list \<Rightarrow> transfer_id \<times> ('u \<times> 'u) list" where
  "map_sender sample out = (let (id, keys) = out in (id, map (\<lambda>(k0, k1). (sample k0, sample k1)) keys))"

definition map_receiver :: "(block \<Rightarrow> 'u) \<Rightarrow> receiver_output \<Rightarrow> transfer_id \<times> bool list \<times> 'u list" where
  "map_receiver sample out = (let (id, choices, msgs) = out in (id, choices, map sample msgs))"

section \<open>Derandomisation is correct\<close>

fun split_by :: "nat list \<Rightarrow> 'a list \<Rightarrow> 'a list list" where
  "split_by [] xs = []"
| "split_by (n # ns) xs = take n xs # split_by ns (drop n xs)"

lemma zip_update_full: "length xs = length ys \<Longrightarrow> zip_update f xs ys = map2 f xs ys"
  by (simp add: zip_update_def)

lemma subslice_mid: "length a = i \<Longrightarrow> length b = n \<Longrightarrow> subslice (a @ b @ c) i (i + n) = Inr b"
  by (simp add: subslice_def)

lemma copy_into_mid: "length a = i \<Longrightarrow> length b = n \<Longrightarrow> length b' = n \<Longrightarrow> copy_into (a @ b @ c) i (i + n) b' = Inr (a @ b' @ c)"
  by (simp add: copy_into_def)

text \<open>One request: masking the choice and unmasking with the adjustment cancel.\<close>

definition adjust_one :: "block \<Rightarrow> block list \<Rightarrow> bool list \<Rightarrow> block list \<Rightarrow> block list" where
  "adjust_one d ks fl rs = map2 (\<lambda>a (f, k). (a XOR k) XOR (if f then d else BLOCK_ZERO)) ks (zip fl rs)"

lemma length_adjust_one [simp]:
  "length fl = length ks \<Longrightarrow> length rs = length ks \<Longrightarrow> length (adjust_one d ks fl rs) = length ks"
  by (simp add: adjust_one_def)

lemma unmask_one:
  assumes "correlated d rs cs ms" "length ks = length rs" "length xs = length rs"
  shows "map2 (XOR) ms (adjust_one d ks (map2 (\<noteq>) xs cs) rs) = map2 (\<lambda>k c. key_auth k c d) ks xs"
proof (rule nth_equalityI)
  have l: "length cs = length rs" "length ms = length rs" using correlated_length [OF assms(1)] by auto
  show "length (map2 (XOR) ms (adjust_one d ks (map2 (\<noteq>) xs cs) rs)) = length (map2 (\<lambda>k c. key_auth k c d) ks xs)"
    using assms l by simp
  fix i assume "i < length (map2 (XOR) ms (adjust_one d ks (map2 (\<noteq>) xs cs) rs))"
  then have i: "i < length rs" using assms l by (simp add: adjust_one_def)
  have m: "ms ! i = rs ! i XOR scale (cs ! i) d" using assms(1) i by (auto simp: correlated_def key_auth_scale)
  have "(rs ! i XOR scale (cs ! i) d) XOR ((ks ! i XOR rs ! i) XOR scale (xs ! i \<noteq> cs ! i) d) = ks ! i XOR scale (xs ! i) d"
    by (cases "xs ! i"; cases "cs ! i") (simp_all add: xor_simps word_xor_ac)
  then show "map2 (XOR) ms (adjust_one d ks (map2 (\<noteq>) xs cs) rs) ! i = map2 (\<lambda>k c. key_auth k c d) ks xs ! i"
    using assms l i m
    by (cases "xs ! i"; cases "cs ! i") (simp_all add: adjust_one_def key_auth_scale BLOCK_ZERO_def)
qed

text \<open>What the parties queued fits together and enough random COTs are left for all of it.\<close>

definition derand_ready :: "('s \<Rightarrow> 'r \<Rightarrow> bool) \<Rightarrow> ('s \<Rightarrow> nat) \<Rightarrow> 's derand_sender \<Rightarrow> 'r derand_receiver \<Rightarrow> bool" where
  "derand_ready rel s_avail S R \<longleftrightarrow> rel (ds_rcot S) (dr_rcot R) \<and> map fst (ds_queue S) = map fst (dr_queue R) \<and>
     length (ds_adjust S) = sum_list (map fst (ds_queue S)) \<and> length (dr_derandomize R) = length (ds_adjust S) \<and>
     length (ds_adjust S) \<le> s_avail (ds_rcot S)"

context rcot_pair
begin

lemma derand_loops:
  assumes "rel s r" "map fst q = map fst q'" "length K = sum_list (map fst q)" "length C = length K" "length K \<le> s_avail s"
  shows "\<exists>F A cots so s' r'.
    (\<forall>F0. dr_loop r_avail try_recv q' (length F0) (F0 @ C) r = Inr (F0 @ F, cots, length F0 + length C, r')) \<and>
    (\<forall>A0 F0. length A0 = length F0 \<longrightarrow>
       ds_loop try_send (delta_of s) (F0 @ F) q (length A0) (A0 @ K) s = Inr (A0 @ A, so, s')) \<and>
    length F = length C \<and> length A = length K \<and> length cots = length q' \<and> rel s' r' \<and>
    map (\<lambda>(ch, tid, ms). ms) (receive_loop (zip cots q') A) =
      map2 (map2 (\<lambda>k c. key_auth k c (delta_of s))) (split_by (map fst q) K) (split_by (map fst q) C) \<and>
    map (\<lambda>(ch, tid, ms). tid) (receive_loop (zip cots q') A) = map snd so \<and>
    map fst (receive_loop (zip cots q') A) = map snd q' \<and> map fst so = map snd q"
  using assms
proof (induction q arbitrary: q' K C s r)
  case Nil
  then show ?case by auto
next
  case (Cons a q)
  obtain n ch where a: "a = (n, ch)" by (cases a)
  from Cons.prems(2) a obtain ch' q1 where q': "q' = (n, ch') # q1" "map fst q = map fst q1" by auto
  define K1 K2 C1 C2 where "K1 = take n K" and "K2 = drop n K" and "C1 = take n C" and "C2 = drop n C"
  have K: "K = K1 @ K2" "C = C1 @ C2" "length K1 = n" "length C1 = n" "length K2 = sum_list (map fst q)" "length C2 = length K2"
    using Cons.prems(3,4) a by (simp_all add: K1_def K2_def C1_def C2_def)
  have n: "n \<le> s_avail s" using Cons.prems(3,5) a by simp
  obtain tid rs cs ms s1 r1 where t: "try_send s n = Inr ((tid, rs), s1)" "try_recv r n = Inr ((tid, cs, ms), r1)" "length rs = n"
      "correlated (delta_of s) rs cs ms" "rel s1 r1" "delta_of s1 = delta_of s" "s_avail s1 = s_avail s - n"
    using transfer [OF Cons.prems(1) n] by blast
  have l: "length cs = n" "length ms = n" using correlated_length [OF t(4)] t(3) by auto
  have "length K2 \<le> s_avail s1" using Cons.prems(5) t(7) K by simp
  from Cons.IH [OF t(5) q'(2) K(5,6) this] obtain F A cots so s' r' where IH:
      "\<And>F0. dr_loop r_avail try_recv q1 (length F0) (F0 @ C2) r1 = Inr (F0 @ F, cots, length F0 + length C2, r')"
      "\<And>A0 F0. length A0 = length F0 \<Longrightarrow> ds_loop try_send (delta_of s) (F0 @ F) q (length A0) (A0 @ K2) s1 = Inr (A0 @ A, so, s')"
      "length F = length C2" "length A = length K2" "length cots = length q1" "rel s' r'"
      "map (\<lambda>(ch, tid, ms). ms) (receive_loop (zip cots q1) A) =
        map2 (map2 (\<lambda>k c. key_auth k c (delta_of s))) (split_by (map fst q) K2) (split_by (map fst q) C2)"
      "map (\<lambda>(ch, tid, ms). tid) (receive_loop (zip cots q1) A) = map snd so"
      "map fst (receive_loop (zip cots q1) A) = map snd q1" "map fst so = map snd q"
    unfolding t(6) by metis
  let ?F1 = "map2 (\<noteq>) C1 cs" and ?A1 = "adjust_one (delta_of s) K1 (map2 (\<noteq>) C1 cs) rs"
  have lf: "length ?F1 = n" "length ?A1 = n" using K l t(3) by simp_all
  have av: "\<not> r_avail r < n" using avail [OF Cons.prems(1)] n by simp
  have dr: "dr_loop r_avail try_recv q' (length F0) (F0 @ C) r = Inr (F0 @ (?F1 @ F), (tid, ms) # cots, length F0 + length C, r')" for F0
    using IH(1) [of "F0 @ ?F1"] K l lf av t(2)
    by (simp add: q' subslice_mid copy_into_mid zip_update_full)
  have ds: "ds_loop try_send (delta_of s) (F0 @ (?F1 @ F)) (a # q) (length A0) (A0 @ K) s = Inr (A0 @ (?A1 @ A), (ch, tid) # so, s')"
    if "length A0 = length F0" for A0 F0
    using IH(2) [of "A0 @ ?A1" "F0 @ ?F1"] that K l lf t(1,3)
    by (simp add: a subslice_mid copy_into_mid zip_update_full adjust_one_def)
  have rl: "receive_loop (zip ((tid, ms) # cots) q') (?A1 @ A) =
      (ch', tid, map2 (\<lambda>k c. key_auth k c (delta_of s)) K1 C1) # receive_loop (zip cots q1) A"
    using unmask_one [OF t(4), of K1 C1] K l lf t(3) by (simp add: q' zip_update_full)
  show ?case
    by (rule exI [of _ "?F1 @ F"], rule exI [of _ "?A1 @ A"], rule exI [of _ "(tid, ms) # cots"], rule exI [of _ "(ch, tid) # so"],
        rule exI [of _ s'], rule exI [of _ r'])
      (use dr ds rl IH K lf in \<open>simp add: a q' K1_def [symmetric] K2_def [symmetric] C1_def [symmetric] C2_def [symmetric]\<close>)
qed

lemma derandomize_ok:
  assumes "derand_ready rel s_avail S R"
  shows "\<exists>flip ra R1 adj so S' ro R'.
    dr_adjust r_avail try_recv R = Inr (flip, ra, R1) \<and> ds_send_adjust delta_of try_send S flip = Inr (adj, so, S') \<and>
    ra_receive ra R1 adj = Inr (ro, R') \<and>
    map (\<lambda>(ch, tid, ms). ms) ro = map2 (map2 (\<lambda>k c. key_auth k c (delta_of (ds_rcot S))))
      (split_by (map fst (ds_queue S)) (ds_adjust S)) (split_by (map fst (ds_queue S)) (dr_derandomize R)) \<and>
    map (\<lambda>(ch, tid, ms). tid) ro = map snd so \<and> map fst ro = map snd (dr_queue R) \<and> map fst so = map snd (ds_queue S) \<and>
    rel (ds_rcot S') (dr_rcot R') \<and> ds_queue S' = [] \<and> ds_adjust S' = [] \<and> dr_queue R' = [] \<and> dr_derandomize R' = []"
proof -
  have c: "rel (ds_rcot S) (dr_rcot R)" "map fst (ds_queue S) = map fst (dr_queue R)"
      "length (ds_adjust S) = sum_list (map fst (ds_queue S))" "length (dr_derandomize R) = length (ds_adjust S)"
      "length (ds_adjust S) \<le> s_avail (ds_rcot S)"
    using assms unfolding derand_ready_def by blast+
  obtain F A cots so s' r' where L:
      "\<And>F0. dr_loop r_avail try_recv (dr_queue R) (length F0) (F0 @ dr_derandomize R) (dr_rcot R) =
         Inr (F0 @ F, cots, length F0 + length (dr_derandomize R), r')"
      "\<And>A0 F0. length A0 = length F0 \<Longrightarrow> ds_loop try_send (delta_of (ds_rcot S)) (F0 @ F) (ds_queue S) (length A0) (A0 @ ds_adjust S) (ds_rcot S) =
         Inr (A0 @ A, so, s')"
      "length F = length (dr_derandomize R)" "length A = length (ds_adjust S)" "length cots = length (dr_queue R)" "rel s' r'"
      "map (\<lambda>(ch, tid, ms). ms) (receive_loop (zip cots (dr_queue R)) A) = map2 (map2 (\<lambda>k c. key_auth k c (delta_of (ds_rcot S))))
        (split_by (map fst (ds_queue S)) (ds_adjust S)) (split_by (map fst (ds_queue S)) (dr_derandomize R))"
      "map (\<lambda>(ch, tid, ms). tid) (receive_loop (zip cots (dr_queue R)) A) = map snd so"
      "map fst (receive_loop (zip cots (dr_queue R)) A) = map snd (dr_queue R)" "map fst so = map snd (ds_queue S)"
    using derand_loops [OF c] by metis
  show ?thesis
    by (rule exI [of _ F], rule exI [of _ "\<lparr>ra_count = length (dr_derandomize R), ra_cots = cots\<rparr>"],
        rule exI [of _ "R\<lparr>dr_derandomize := [], dr_rcot := r'\<rparr>"], rule exI [of _ A], rule exI [of _ so],
        rule exI [of _ "S\<lparr>ds_rcot := s', ds_adjust := [], ds_queue := []\<rparr>"],
        rule exI [of _ "receive_loop (zip cots (dr_queue R)) A"], rule exI [of _ "R\<lparr>dr_derandomize := [], dr_rcot := r', dr_queue := []\<rparr>"])
      (use L(1) [of "[]"] L(2) [of "[]" "[]"] L(3-) c in \<open>simp add: dr_adjust_def ds_send_adjust_def ra_receive_def Let_def\<close>)
qed

end

text \<open>
  C20. Correlated OT with chosen inputs over the ideal random correlated OT.  Whenever the two ends have
  queued batches of the same sizes and enough random OTs are left, one round of \<open>adjust\<close>,
  \<open>send_adjust\<close> and \<open>receive\<close> succeeds; every batch the receiver queued is delivered on its
  channel, under the id the sender's batch gets, with the MACs of the chosen bits under the sender's
  chosen keys and delta; nothing stays queued.
\<close>

theorem derand_cot_correct:
  assumes "derand_ready rcot_rel is_available S R"
  shows "\<exists>flip ra R1 adj so S' ro R'.
    dr_adjust ir_available ir_try_recv R = Inr (flip, ra, R1) \<and> ds_send_adjust is_delta is_try_send S flip = Inr (adj, so, S') \<and>
    (ra_receive ra R1 adj :: (ideal_rcot_error derand_error, _) result) = Inr (ro, R') \<and>
    map (\<lambda>(ch, tid, ms). ms) ro = map2 (map2 (\<lambda>k c. key_auth k c (is_delta (ds_rcot S))))
      (split_by (map fst (ds_queue S)) (ds_adjust S)) (split_by (map fst (ds_queue S)) (dr_derandomize R)) \<and>
    map (\<lambda>(ch, tid, ms). tid) ro = map snd so \<and> map fst ro = map snd (dr_queue R) \<and> map fst so = map snd (ds_queue S) \<and>
    rcot_rel (ds_rcot S') (dr_rcot R') \<and> ds_queue S' = [] \<and> ds_adjust S' = [] \<and> dr_queue R' = [] \<and> dr_derandomize R' = []"
  using assms by (rule ideal_rcot.derandomize_ok)

definition derand_example :: "ideal_rcot_sender derand_sender \<times> unit ideal_rcot_receiver derand_receiver" where
  "derand_example =
     (let s = (is_new 7 9)\<lparr>is_keys := [4, 5, 6]\<rparr>;
          r = (ir_from_seed ())\<lparr>ir_choices := [True, False, True], ir_msgs := [13, 5, 15]\<rparr>
      in (snd (ds_queue_send (ds_new s) [2, 3]), snd (dr_queue_recv (dr_new r) [False, True])))"

lemma derand_example_ready: "derand_ready rcot_rel is_available (fst derand_example) (snd derand_example)"
  by (simp add: derand_ready_def derand_example_def ds_queue_send_def dr_queue_recv_def ds_new_def dr_new_def is_new_def
      ir_from_seed_def rcot_rel_def is_available_def correlated_def key_auth_def BLOCK_ZERO_def Let_def)

theorem derand_cot_correct_witness:
  "\<exists>flip ra R1 adj so S' ro R'.
    dr_adjust ir_available ir_try_recv (snd derand_example) = Inr (flip, ra, R1) \<and>
    ds_send_adjust is_delta is_try_send (fst derand_example) flip = Inr (adj, so, S') \<and> (ra_receive ra R1 adj :: (ideal_rcot_error derand_error, _) result) = Inr (ro, R') \<and>
    map (\<lambda>(ch, tid, ms). ms) ro = [[2, 3 XOR 9]]"
proof -
  have m: "map2 (map2 (\<lambda>k c. key_auth k c (is_delta (ds_rcot (fst derand_example)))))
      (split_by (map fst (ds_queue (fst derand_example))) (ds_adjust (fst derand_example)))
      (split_by (map fst (ds_queue (fst derand_example))) (dr_derandomize (snd derand_example))) = [[2, 3 XOR 9]]"
    by (simp add: derand_example_def ds_queue_send_def dr_queue_recv_def ds_new_def dr_new_def is_new_def
        key_auth_def BLOCK_ZERO_def Let_def)
  show ?thesis using derand_cot_correct [OF derand_example_ready] unfolding m by (elim exE conjE) (intro exI conjI)
qed

text \<open>
  C40. The receiver's adjustment when random OTs are short.  If fewer are available than the first
  queued batch needs, \<open>adjust\<close> still succeeds, and the message it produces for the sender is the
  list of queued choices without any mask, although no batch is processed; the choices are gone from
  the receiver while the batches stay queued.
\<close>

theorem dr_adjust_unmasked:
  assumes "dr_queue R = (n, ch) # q" "ir_available (dr_rcot R) < n"
  shows "dr_adjust ir_available ir_try_recv R =
    Inr (dr_derandomize R, \<lparr>ra_count = 0, ra_cots = []\<rparr>, R\<lparr>dr_derandomize := []\<rparr>)"
  using assms by (simp add: dr_adjust_def Let_def)

theorem dr_adjust_unmasked_witness:
  "\<exists>ra R'. dr_adjust ir_available ir_try_recv (snd (dr_queue_recv (dr_new (ir_from_seed ())) [True, False])) =
     Inr ([True, False], ra, R') \<and> dr_queue R' = [(2, 0)]"
  using dr_adjust_unmasked [of "snd (dr_queue_recv (dr_new (ir_from_seed ())) [True, False])" 2 0 "[]"]
  by (simp add: dr_queue_recv_def dr_new_def ir_from_seed_def ir_available_def Let_def)

text \<open>
  Random OT from random correlated OT: for correlated inputs, the message the receiver derives at
  each position is the key of the sender's pair its choice bit selects, before and after mapping the
  keys to another type.
\<close>

theorem randomize_correct:
  assumes "correlated d keys choices msgs"
  shows "snd (snd (map_receiver sample (randomize_receiver aes (tid, choices, msgs)))) =
    map2 (\<lambda>(k0, k1) c. if c then k1 else k0) (snd (map_sender sample (randomize_sender aes d (tid, keys)))) choices"
proof (rule nth_equalityI)
  show "length (snd (snd (map_receiver sample (randomize_receiver aes (tid, choices, msgs))))) =
      length (map2 (\<lambda>(k0, k1) c. if c then k1 else k0) (snd (map_sender sample (randomize_sender aes d (tid, keys)))) choices)"
    using correlated_length [OF assms] by (simp add: map_receiver_def randomize_receiver_def map_sender_def randomize_sender_def)
  fix i assume "i < length (snd (snd (map_receiver sample (randomize_receiver aes (tid, choices, msgs)))))"
  then show "snd (snd (map_receiver sample (randomize_receiver aes (tid, choices, msgs)))) ! i =
      map2 (\<lambda>(k0, k1) c. if c then k1 else k0) (snd (map_sender sample (randomize_sender aes d (tid, keys)))) choices ! i"
    using correlated_length [OF assms] assms
    by (simp add: map_receiver_def randomize_receiver_def map_sender_def randomize_sender_def nth_enumerate_eq
        correlated_def key_auth_def BLOCK_ZERO_def)
qed

theorem randomize_correct_witness:
  "snd (snd (map_receiver lsb (randomize_receiver (\<lambda>b. b) (3, [True], [12])))) =
     map2 (\<lambda>(k0, k1) c. if c then k1 else k0) (snd (map_sender lsb (randomize_sender (\<lambda>b. b) 9 (3, [5])))) [True]"
  by (rule randomize_correct) (simp add: correlated_def key_auth_def BLOCK_ZERO_def)

end
