(* ===== verification/Ideal_Rot.thy ===== *)
theory Ideal_Rot
  imports Derand_Cot
begin

text \<open>
  The ideal random OT (\<open>ot-core/src/ideal/rot.rs\<close>) as a sender and a receiver that exchange flush
  messages, and the interface clients of random OT rely on, the locale \<open>rot_pair\<close>.  Besides the
  ideal functionality, the wrappers \<open>AnySender\<close> and \<open>AnyReceiver\<close> (\<open>rot/any.rs\<close>) implement it over any
  other implementation.  The receiver's generator is the parameter \<open>rng_bool\<close>.
\<close>

section \<open>The ideal functionality\<close>

record rot_flush_msg =
  rfm_seed :: block
  rfm_offset :: "64 word"
  rfm_count :: nat

definition generate_key_pairs :: "block \<Rightarrow> 64 word \<Rightarrow> nat \<Rightarrow> (block \<times> block) list" where
  "generate_key_pairs seed offset count =
     map (\<lambda>i. let idx = (ucast offset + of_nat i) * 3; k0 = seed + idx; k1 = seed + idx + 1 in (k0, k1)) [0..<count]"

type_synonym 'u rot_sender_output = "transfer_id \<times> ('u \<times> 'u) list"
type_synonym 'u rot_receiver_output = "transfer_id \<times> bool list \<times> 'u list"

datatype ideal_rot_error = RotNotEnough nat nat | RotCountMismatch nat nat | ForcedChoices nat nat

record ideal_rot_sender =
  irs_seed :: block
  irs_offset :: "64 word"
  irs_pending :: nat
  irs_keys :: "(block \<times> block) list"
  irs_queue :: "(nat \<times> nat) list"
  irs_id :: transfer_id
  irs_chans :: nat

definition irs_new :: "block \<Rightarrow> ideal_rot_sender" where
  "irs_new seed =
     \<lparr>irs_seed = seed, irs_offset = 0, irs_pending = 0, irs_keys = [], irs_queue = [], irs_id = 0, irs_chans = 0\<rparr>"

definition irs_wants_flush :: "ideal_rot_sender \<Rightarrow> bool" where
  "irs_wants_flush s \<longleftrightarrow> 0 < irs_pending s \<or> irs_queue s \<noteq> []"

text \<open>\<open>Vec::drain(..count)\<close>; panics beyond the end.\<close>

definition drain_front :: "'a list \<Rightarrow> nat \<Rightarrow> ('e, 'a list \<times> 'a list) result" where
  "drain_front xs count = (if count \<le> length xs then Inr (take count xs, drop count xs) else Inl Panic)"

definition irs_pop :: "nat \<Rightarrow> ideal_rot_sender \<Rightarrow> ('e, block rot_sender_output \<times> ideal_rot_sender) result" where
  "irs_pop count s =
     bindR (drain_front (irs_keys s) count) (\<lambda>(keys, rest).
       let (id, nxt) = next_id (irs_id s) in Inr ((id, keys), s\<lparr>irs_keys := rest, irs_id := nxt\<rparr>))"

fun irs_fulfil :: "(nat \<times> nat) list \<Rightarrow> ideal_rot_sender \<Rightarrow> ('e, (nat \<times> block rot_sender_output) list \<times> ideal_rot_sender) result" where
  "irs_fulfil [] s = Inr ([], s)"
| "irs_fulfil ((req_count, ch) # q) s =
     bindR (irs_pop req_count s) (\<lambda>(out, s). bindR (irs_fulfil q s) (\<lambda>(outs, s). Inr ((ch, out) # outs, s)))"

definition irs_flush ::
  "ideal_rot_sender \<Rightarrow> ('e, rot_flush_msg option \<times> (nat \<times> block rot_sender_output) list \<times> ideal_rot_sender) result" where
  "irs_flush s =
     (if irs_pending s = 0 \<and> irs_queue s = [] then Inr (None, [], s)
      else
        let count = irs_pending s; current_offset = irs_offset s;
            s = (if 0 < count
                 then s\<lparr>irs_keys := irs_keys s @ generate_key_pairs (irs_seed s) current_offset count,
                        irs_offset := irs_offset s + of_nat count, irs_pending := 0\<rparr>
                 else s)
        in bindR (irs_fulfil (irs_queue s) (s\<lparr>irs_queue := []\<rparr>)) (\<lambda>(outs, s).
             Inr (Some \<lparr>rfm_seed = irs_seed s, rfm_offset = current_offset, rfm_count = count\<rparr>, outs, s)))"

definition irs_alloc :: "ideal_rot_sender \<Rightarrow> nat \<Rightarrow> ideal_rot_sender" where
  "irs_alloc s count = s\<lparr>irs_pending := irs_pending s + count\<rparr>"

definition irs_available :: "ideal_rot_sender \<Rightarrow> nat" where
  "irs_available s = length (irs_keys s)"

definition irs_try_send :: "ideal_rot_sender \<Rightarrow> nat \<Rightarrow> (ideal_rot_error, block rot_sender_output \<times> ideal_rot_sender) result" where
  "irs_try_send s count =
     (if count > length (irs_keys s) then Inl (Err (RotNotEnough (length (irs_keys s)) count)) else irs_pop count s)"

definition irs_queue_send ::
  "ideal_rot_sender \<Rightarrow> nat \<Rightarrow> ('e, nat \<times> (nat \<times> block rot_sender_output) list \<times> ideal_rot_sender) result" where
  "irs_queue_send s count =
     (let ch = irs_chans s; s = s\<lparr>irs_chans := ch + 1\<rparr>
      in if length (irs_keys s) \<ge> count then bindR (irs_pop count s) (\<lambda>(out, s). Inr (ch, [(ch, out)], s))
         else Inr (ch, [], s\<lparr>irs_queue := irs_queue s @ [(count, ch)]\<rparr>))"

record 'g ideal_rot_receiver =
  irr_rng :: 'g
  irr_pending :: nat
  irr_choices :: "bool list"
  irr_msgs :: "block list"
  irr_forced :: "bool list"
  irr_queue :: "(nat \<times> nat) list"
  irr_id :: transfer_id
  irr_chans :: nat

text \<open>\<open>rng\<close> is \<open>ChaCha8Rng::seed_from_u64(0)\<close>.\<close>

definition irr_new :: "'g \<Rightarrow> 'g ideal_rot_receiver" where
  "irr_new rng = \<lparr>irr_rng = rng, irr_pending = 0, irr_choices = [], irr_msgs = [], irr_forced = [], irr_queue = [],
     irr_id = 0, irr_chans = 0\<rparr>"

definition irr_set_choices :: "'g ideal_rot_receiver \<Rightarrow> bool list \<Rightarrow> 'g ideal_rot_receiver" where
  "irr_set_choices r choices = r\<lparr>irr_forced := choices\<rparr>"

definition irr_wants_flush :: "'g ideal_rot_receiver \<Rightarrow> bool" where
  "irr_wants_flush r \<longleftrightarrow> 0 < irr_pending r \<or> irr_queue r \<noteq> []"

definition irr_pop :: "nat \<Rightarrow> 'g ideal_rot_receiver \<Rightarrow> ('e, block rot_receiver_output \<times> 'g ideal_rot_receiver) result" where
  "irr_pop count r =
     bindR (drain_front (irr_choices r) count) (\<lambda>(choices, cs).
     bindR (drain_front (irr_msgs r) count) (\<lambda>(msgs, ms).
       let (id, nxt) = next_id (irr_id r) in Inr ((id, choices, msgs), r\<lparr>irr_choices := cs, irr_msgs := ms, irr_id := nxt\<rparr>)))"

fun irr_fulfil :: "(nat \<times> nat) list \<Rightarrow> 'g ideal_rot_receiver \<Rightarrow>
    ('e, (nat \<times> block rot_receiver_output) list \<times> 'g ideal_rot_receiver) result" where
  "irr_fulfil [] r = Inr ([], r)"
| "irr_fulfil ((req_count, ch) # q) r =
     bindR (irr_pop req_count r) (\<lambda>(out, r). bindR (irr_fulfil q r) (\<lambda>(outs, r). Inr ((ch, out) # outs, r)))"

definition irr_flush ::
  "('g \<Rightarrow> bool \<times> 'g) \<Rightarrow> 'g ideal_rot_receiver \<Rightarrow> rot_flush_msg \<Rightarrow>
     (ideal_rot_error, (nat \<times> block rot_receiver_output) list \<times> 'g ideal_rot_receiver) result" where
  "irr_flush rng_bool r m =
     (if rfm_count m \<noteq> irr_pending r then Inl (Err (RotCountMismatch (rfm_count m) (irr_pending r)))
      else
        bindR (if 0 < rfm_count m then
                 let keys = generate_key_pairs (rfm_seed m) (rfm_offset m) (rfm_count m)
                 in bindR (if irr_forced r = []
                           then let (choices, rng) = draw_bools rng_bool (rfm_count m) (irr_rng r) in Inr (choices, r\<lparr>irr_rng := rng\<rparr>)
                           else if length (irr_forced r) = rfm_count m then Inr (irr_forced r, r\<lparr>irr_forced := []\<rparr>)
                           else Inl (Err (ForcedChoices (length (irr_forced r)) (rfm_count m)))) (\<lambda>(choices, r).
                      let msgs = map2 (\<lambda>(k0, k1) choice. if choice then k1 else k0) keys choices
                      in Inr (r\<lparr>irr_choices := irr_choices r @ choices, irr_msgs := irr_msgs r @ msgs, irr_pending := 0\<rparr>))
               else Inr r) (\<lambda>r. irr_fulfil (irr_queue r) (r\<lparr>irr_queue := []\<rparr>)))"

definition irr_alloc :: "'g ideal_rot_receiver \<Rightarrow> nat \<Rightarrow> 'g ideal_rot_receiver" where
  "irr_alloc r count = r\<lparr>irr_pending := irr_pending r + count\<rparr>"

definition irr_available :: "'g ideal_rot_receiver \<Rightarrow> nat" where
  "irr_available r = length (irr_choices r)"

definition irr_try_recv ::
  "'g ideal_rot_receiver \<Rightarrow> nat \<Rightarrow> (ideal_rot_error, block rot_receiver_output \<times> 'g ideal_rot_receiver) result" where
  "irr_try_recv r count =
     (if count > length (irr_choices r) then Inl (Err (RotNotEnough (length (irr_choices r)) count)) else irr_pop count r)"

definition irr_queue_recv ::
  "'g ideal_rot_receiver \<Rightarrow> nat \<Rightarrow> ('e, nat \<times> (nat \<times> block rot_receiver_output) list \<times> 'g ideal_rot_receiver) result" where
  "irr_queue_recv r count =
     (let ch = irr_chans r; r = r\<lparr>irr_chans := ch + 1\<rparr>
      in if length (irr_choices r) \<ge> count then bindR (irr_pop count r) (\<lambda>(out, r). Inr (ch, [(ch, out)], r))
         else Inr (ch, [], r\<lparr>irr_queue := irr_queue r @ [(count, ch)]\<rparr>))"

text \<open>The wrapper \<open>IdealROT\<close> that holds both ends.\<close>

record 'g ideal_rot =
  ro_sender :: ideal_rot_sender
  ro_receiver :: "'g ideal_rot_receiver"

definition rot_new :: "'g \<Rightarrow> block \<Rightarrow> 'g ideal_rot" where
  "rot_new rng seed = \<lparr>ro_sender = irs_new seed, ro_receiver = irr_new rng\<rparr>"

definition rot_wants_flush :: "'g ideal_rot \<Rightarrow> bool" where
  "rot_wants_flush w \<longleftrightarrow> irs_wants_flush (ro_sender w) \<or> irr_wants_flush (ro_receiver w)"

definition rot_flush :: "('g \<Rightarrow> bool \<times> 'g) \<Rightarrow> 'g ideal_rot \<Rightarrow>
    (ideal_rot_error, (nat \<times> block rot_sender_output) list \<times> (nat \<times> block rot_receiver_output) list \<times> 'g ideal_rot) result" where
  "rot_flush rng_bool w =
     bindR (irs_flush (ro_sender w)) (\<lambda>(msg, so, s).
       (case msg of
          None \<Rightarrow> Inr (so, [], w\<lparr>ro_sender := s\<rparr>)
        | Some m \<Rightarrow> bindR (irr_flush rng_bool (ro_receiver w) m) (\<lambda>(ro, r).
            Inr (so, ro, w\<lparr>ro_sender := s, ro_receiver := r\<rparr>))))"

definition rot_transfer :: "('g \<Rightarrow> bool \<times> 'g) \<Rightarrow> 'g ideal_rot \<Rightarrow> nat \<Rightarrow>
    (ideal_rot_error, block rot_sender_output \<times> block rot_receiver_output \<times> 'g ideal_rot) result" where
  "rot_transfer rng_bool w count =
     (let w = w\<lparr>ro_sender := irs_alloc (ro_sender w) count\<rparr>;
          w = w\<lparr>ro_receiver := irr_alloc (ro_receiver w) count\<rparr>
      in bindR (rot_flush rng_bool w) (\<lambda>(_, _, w).
         bindR (irs_try_send (ro_sender w) count) (\<lambda>(so, s).
         bindR (irr_try_recv (ro_receiver w) count) (\<lambda>(ro, r).
           Inr (so, ro, w\<lparr>ro_sender := s, ro_receiver := r\<rparr>)))))"

text \<open>
  \<open>AnySender\<close> and \<open>AnyReceiver\<close> hold an inner end and map what it returns; \<open>alloc\<close> and \<open>available\<close>
  forward to it.
\<close>

definition any_try_send :: "(block \<Rightarrow> 'u) \<Rightarrow> ('s \<Rightarrow> nat \<Rightarrow> ('e, block rot_sender_output \<times> 's) result) \<Rightarrow> 's \<Rightarrow> nat \<Rightarrow>
    ('e, 'u rot_sender_output \<times> 's) result" where
  "any_try_send sample try_send_rot s count = bindR (try_send_rot s count) (\<lambda>(out, s). Inr (map_sender sample out, s))"

definition any_try_recv :: "(block \<Rightarrow> 'u) \<Rightarrow> ('r \<Rightarrow> nat \<Rightarrow> ('e, block rot_receiver_output \<times> 'r) result) \<Rightarrow> 'r \<Rightarrow> nat \<Rightarrow>
    ('e, 'u rot_receiver_output \<times> 'r) result" where
  "any_try_recv sample try_recv_rot r count = bindR (try_recv_rot r count) (\<lambda>(out, r). Inr (map_receiver sample out, r))"

text \<open>\<open>RandomizeRCOTSender\<close> and \<open>RandomizeRCOTReceiver\<close> (\<open>rot/randomize.rs\<close>) hash what a correlated OT returns.\<close>

definition rand_try_send ::
  "(block \<Rightarrow> block) \<Rightarrow> ('s \<Rightarrow> block) \<Rightarrow> ('s \<Rightarrow> nat \<Rightarrow> ('e, sender_output \<times> 's) result) \<Rightarrow> 's \<Rightarrow> nat \<Rightarrow>
     ('e, block rot_sender_output \<times> 's) result" where
  "rand_try_send aes delta_of try_send_rcot s count =
     (let d = delta_of s in bindR (try_send_rcot s count) (\<lambda>(out, s). Inr (randomize_sender aes d out, s)))"

definition rand_try_recv ::
  "(block \<Rightarrow> block) \<Rightarrow> ('r \<Rightarrow> nat \<Rightarrow> ('e, receiver_output \<times> 'r) result) \<Rightarrow> 'r \<Rightarrow> nat \<Rightarrow>
     ('e, block rot_receiver_output \<times> 'r) result" where
  "rand_try_recv aes try_recv_rcot r count =
     bindR (try_recv_rcot r count) (\<lambda>(out, r). Inr (randomize_receiver aes out, r))"

section \<open>The interface of random OT\<close>

definition rot_match :: "('u \<times> 'u) list \<Rightarrow> bool list \<Rightarrow> 'u list \<Rightarrow> bool" where
  "rot_match keys choices msgs \<longleftrightarrow>
     length choices = length keys \<and> msgs = map2 (\<lambda>k c. if c then snd k else fst k) keys choices"

lemma rot_match_length: "rot_match ks cs ms \<Longrightarrow> length cs = length ks \<and> length ms = length ks"
  by (simp add: rot_match_def)

lemma rot_match_split:
  "rot_match ks cs ms \<Longrightarrow> rot_match (take n ks) (take n cs) (take n ms) \<and> rot_match (drop n ks) (drop n cs) (drop n ms)"
  by (auto simp: rot_match_def take_map drop_map take_zip drop_zip)

lemma rot_match_append:
  "rot_match ks cs ms \<Longrightarrow> rot_match ks' cs' ms' \<Longrightarrow> rot_match (ks @ ks') (cs @ cs') (ms @ ms')"
  by (simp add: rot_match_def)

locale rot_pair =
  fixes rel :: "'s \<Rightarrow> 'r \<Rightarrow> bool"
    and s_avail :: "'s \<Rightarrow> nat"
    and r_avail :: "'r \<Rightarrow> nat"
    and try_send :: "'s \<Rightarrow> nat \<Rightarrow> ('e, 'u rot_sender_output \<times> 's) result"
    and try_recv :: "'r \<Rightarrow> nat \<Rightarrow> ('f, 'u rot_receiver_output \<times> 'r) result"
  assumes avail: "rel s r \<Longrightarrow> s_avail s = r_avail r"
    and transfer: "rel s r \<Longrightarrow> n \<le> s_avail s \<Longrightarrow>
      \<exists>id ks cs ms s' r'. try_send s n = Inr ((id, ks), s') \<and> try_recv r n = Inr ((id, cs, ms), r') \<and>
        length ks = n \<and> rot_match ks cs ms \<and> rel s' r' \<and> s_avail s' = s_avail s - n"

text \<open>Mapping the messages of an implementation gives an implementation.\<close>

locale any_rot = rot_pair rel s_avail r_avail try_send try_recv
  for rel :: "'s \<Rightarrow> 'r \<Rightarrow> bool" and s_avail r_avail
    and try_send :: "'s \<Rightarrow> nat \<Rightarrow> ('e, block rot_sender_output \<times> 's) result"
    and try_recv :: "'r \<Rightarrow> nat \<Rightarrow> ('f, block rot_receiver_output \<times> 'r) result" +
  fixes sample :: "block \<Rightarrow> 'u"

sublocale any_rot \<subseteq> any: rot_pair rel s_avail r_avail "any_try_send sample try_send" "any_try_recv sample try_recv"
proof
  fix s r n assume rel: "rel s r" and n: "n \<le> s_avail s"
  obtain tid ks cs ms s' r' where t: "try_send s n = Inr ((tid, ks), s')" "try_recv r n = Inr ((tid, cs, ms), r')"
      "length ks = n" "rot_match ks cs ms" "rel s' r'" "s_avail s' = s_avail s - n"
    using transfer [OF rel n] by blast
  have "rot_match (map (\<lambda>(k0, k1). (sample k0, sample k1)) ks) cs (map sample ms)"
    using t(4) by (auto simp: rot_match_def case_prod_unfold intro!: nth_equalityI)
  with t show "\<exists>id ks cs ms s' r'. any_try_send sample try_send s n = Inr ((id, ks), s') \<and>
      any_try_recv sample try_recv r n = Inr ((id, cs, ms), r') \<and> length ks = n \<and> rot_match ks cs ms \<and> rel s' r' \<and>
      s_avail s' = s_avail s - n"
    by (auto simp: any_try_send_def any_try_recv_def map_sender_def map_receiver_def)
qed (rule avail)

text \<open>Hashing the outputs of a correlated OT gives an implementation.\<close>

locale randomized_rot = rcot_pair rel delta_of s_avail r_avail try_send try_recv
  for rel :: "'s \<Rightarrow> 'r \<Rightarrow> bool" and delta_of s_avail r_avail
    and try_send :: "'s \<Rightarrow> nat \<Rightarrow> ('e, sender_output \<times> 's) result"
    and try_recv :: "'r \<Rightarrow> nat \<Rightarrow> ('f, receiver_output \<times> 'r) result" +
  fixes aes :: "block \<Rightarrow> block"

lemma randomize_match:
  "correlated d ks cs ms \<Longrightarrow>
    rot_match (snd (randomize_sender aes d (tid, ks))) cs (snd (snd (randomize_receiver aes (tid, cs, ms))))"
  by (auto simp: rot_match_def randomize_sender_def randomize_receiver_def correlated_def nth_enumerate_eq key_auth_def
      BLOCK_ZERO_def case_prod_unfold intro!: nth_equalityI)

sublocale randomized_rot \<subseteq> rot: rot_pair rel s_avail r_avail "rand_try_send aes delta_of try_send" "rand_try_recv aes try_recv"
proof
  fix s r n assume rel: "rel s r" and n: "n \<le> s_avail s"
  obtain tid ks cs ms s' r' where t: "try_send s n = Inr ((tid, ks), s')" "try_recv r n = Inr ((tid, cs, ms), r')"
      "length ks = n" "correlated (delta_of s) ks cs ms" "rel s' r'" "s_avail s' = s_avail s - n"
    using transfer [OF rel n] by blast
  with randomize_match [OF t(4), of aes tid] show "\<exists>id ks cs ms s' r'. rand_try_send aes delta_of try_send s n = Inr ((id, ks), s') \<and>
      rand_try_recv aes try_recv r n = Inr ((id, cs, ms), r') \<and> length ks = n \<and> rot_match ks cs ms \<and> rel s' r' \<and>
      s_avail s' = s_avail s - n"
    by (simp add: rand_try_send_def rand_try_recv_def randomize_sender_def randomize_receiver_def)
qed (rule avail)

section \<open>The ideal functionality implements the interface\<close>

definition rot_rel :: "ideal_rot_sender \<Rightarrow> 'g ideal_rot_receiver \<Rightarrow> bool" where
  "rot_rel s r \<longleftrightarrow>
     irs_pending s = irr_pending r \<and> irs_id s = irr_id r \<and> map fst (irs_queue s) = map fst (irr_queue r) \<and>
     rot_match (irs_keys s) (irr_choices r) (irr_msgs r)"

lemma pop_match:
  assumes "rot_match (irs_keys s) (irr_choices r) (irr_msgs r)" "n \<le> length (irs_keys s)"
  defines "ks \<equiv> irs_keys s" and "cs \<equiv> irr_choices r" and "ms \<equiv> irr_msgs r"
  shows "irs_pop n s = Inr ((irs_id s, take n ks), s\<lparr>irs_keys := drop n ks, irs_id := irs_id s + 1\<rparr>)"
    "irr_pop n r = Inr ((irr_id r, take n cs, take n ms), r\<lparr>irr_choices := drop n cs, irr_msgs := drop n ms, irr_id := irr_id r + 1\<rparr>)"
    "rot_match (take n ks) (take n cs) (take n ms)" "rot_match (drop n ks) (drop n cs) (drop n ms)"
  using assms rot_match_split [OF assms(1)]
  by (auto simp: irs_pop_def irr_pop_def drain_front_def next_id_def dest: rot_match_length)

lemma rot_try:
  assumes "rot_rel s r" "n \<le> irs_available s"
  shows "\<exists>id ks cs ms s' r'. irs_try_send s n = Inr ((id, ks), s') \<and> irr_try_recv r n = Inr ((id, cs, ms), r') \<and>
    length ks = n \<and> rot_match ks cs ms \<and> rot_rel s' r' \<and> irs_available s' = irs_available s - n"
proof -
  have m: "rot_match (irs_keys s) (irr_choices r) (irr_msgs r)" "n \<le> length (irs_keys s)"
    using assms by (simp_all add: rot_rel_def irs_available_def)
  show ?thesis
    using assms rot_match_length [OF m(1)]
    by (simp add: irs_try_send_def irr_try_recv_def pop_match(1,2) [OF m] irs_available_def rot_rel_def pop_match(3,4) [OF m])
qed

interpretation ideal_rot: rot_pair rot_rel irs_available irr_available irs_try_send irr_try_recv
proof
  show "rot_rel s r \<Longrightarrow> irs_available s = irr_available r" for s and r :: "'g ideal_rot_receiver"
    by (auto simp: rot_rel_def irs_available_def irr_available_def dest: rot_match_length)
qed (rule rot_try)

interpretation ideal_any: any_rot rot_rel irs_available irr_available irs_try_send irr_try_recv sample
  for sample :: "block \<Rightarrow> 'u"
  by unfold_locales

interpretation ideal_randomized: randomized_rot rcot_rel is_delta is_available ir_available is_try_send ir_try_recv aes
  for aes
  by unfold_locales

section \<open>Flushing\<close>

definition rot_delivered :: "(nat \<times> block rot_sender_output) list \<Rightarrow> (nat \<times> block rot_receiver_output) list \<Rightarrow> bool" where
  "rot_delivered so ro \<longleftrightarrow> list_all2 (\<lambda>(c, id, ks) (c', id', cs, ms). id = id' \<and> rot_match ks cs ms) so ro"

lemma fulfil_match:
  assumes "rot_match (irs_keys s) (irr_choices r) (irr_msgs r)" "irs_id s = irr_id r" "map fst q = map fst q'"
    "sum_list (map fst q) \<le> length (irs_keys s)"
  shows "\<exists>so ro ks' id' cs' ms'.
    irs_fulfil q s = (Inr (so, s\<lparr>irs_keys := ks', irs_id := id'\<rparr>) :: ('e, _) result) \<and>
    irr_fulfil q' r = (Inr (ro, r\<lparr>irr_choices := cs', irr_msgs := ms', irr_id := id'\<rparr>) :: ('f, _) result) \<and>
    rot_delivered so ro \<and> rot_match ks' cs' ms' \<and> map fst so = map snd q \<and> map fst ro = map snd q' \<and>
    length ks' = length (irs_keys s) - sum_list (map fst q) \<and>
    concat (map (\<lambda>(c, id, cs, ms). cs) ro) @ cs' = irr_choices r"
  using assms
proof (induction q arbitrary: q' s r)
  case Nil
  then show ?case
    by (intro exI [of _ "[]"] exI [of _ "irs_keys s"] exI [of _ "irs_id s"] exI [of _ "irr_choices r"] exI [of _ "irr_msgs r"])
      (simp add: rot_delivered_def)
next
  case (Cons a q)
  obtain n ch where a: "a = (n, ch)" by (cases a)
  from Cons.prems(3) a obtain ch' q1 where q': "q' = (n, ch') # q1" "map fst q = map fst q1" by auto
  have n: "n \<le> length (irs_keys s)" using Cons.prems(4) a by simp
  note p = pop_match [OF Cons.prems(1) n]
  let ?s = "s\<lparr>irs_keys := drop n (irs_keys s), irs_id := irs_id s + 1\<rparr>"
  let ?r = "r\<lparr>irr_choices := drop n (irr_choices r), irr_msgs := drop n (irr_msgs r), irr_id := irr_id r + 1\<rparr>"
  have m: "rot_match (irs_keys ?s) (irr_choices ?r) (irr_msgs ?r)" "irs_id ?s = irr_id ?r" "sum_list (map fst q) \<le> length (irs_keys ?s)"
    using p(4) Cons.prems(2,4) a by simp_all
  from Cons.IH [OF m(1,2) q'(2) m(3)] obtain so ro ks' id' cs' ms' where
      h: "irs_fulfil q ?s = (Inr (so, ?s\<lparr>irs_keys := ks', irs_id := id'\<rparr>) :: ('e, _) result)"
      "irr_fulfil q1 ?r = (Inr (ro, ?r\<lparr>irr_choices := cs', irr_msgs := ms', irr_id := id'\<rparr>) :: ('f, _) result)"
      "rot_delivered so ro" "rot_match ks' cs' ms'" "map fst so = map snd q" "map fst ro = map snd q1"
      "length ks' = length (irs_keys ?s) - sum_list (map fst q)"
      "concat (map (\<lambda>(c, id, cs, ms). cs) ro) @ cs' = irr_choices ?r"
    by (elim exE conjE) (rule that)
  show ?case
    by (intro exI [of _ "(ch, irs_id s, take n (irs_keys s)) # so"]
        exI [of _ "(ch', irr_id r, take n (irr_choices r), take n (irr_msgs r)) # ro"]
        exI [of _ ks'] exI [of _ id'] exI [of _ cs'] exI [of _ ms'])
      (use h p(3) Cons.prems(2) a q' in \<open>simp add: rot_delivered_def p(1,2)\<close>)
qed

lemma irs_fulfil_panic:
  "length (irs_keys s) < sum_list (map fst q) \<Longrightarrow> irs_fulfil q s = Inl Panic"
proof (induction q arbitrary: s)
  case (Cons a q)
  obtain n ch where a: "a = (n, ch)" by (cases a)
  show ?case
  proof (cases "n \<le> length (irs_keys s)")
    case True
    then show ?thesis using Cons.prems Cons.IH [of "s\<lparr>irs_keys := drop n (irs_keys s), irs_id := irs_id s + 1\<rparr>"]
      by (simp add: a irs_pop_def drain_front_def next_id_def)
  qed (simp add: a irs_pop_def drain_front_def)
qed simp

lemma key_pairs_match:
  "length bs = n \<Longrightarrow> rot_match (generate_key_pairs sd off n) bs
     (map2 (\<lambda>(k0, k1) c. if c then k1 else k0) (generate_key_pairs sd off n) bs)"
  by (auto simp: rot_match_def generate_key_pairs_def case_prod_unfold intro!: nth_equalityI)

lemma irr_flush_step:
  assumes "irr_pending r = n" "n = 0 \<or> irr_forced r = [] \<or> length (irr_forced r) = n"
  shows "\<exists>cs g fs. length cs = n \<and> (0 < n \<and> irr_forced r \<noteq> [] \<longrightarrow> cs = irr_forced r \<and> fs = []) \<and>
    irr_flush rng r \<lparr>rfm_seed = sd, rfm_offset = off, rfm_count = n\<rparr> =
    irr_fulfil (irr_queue r) (r\<lparr>irr_rng := g, irr_forced := fs, irr_choices := irr_choices r @ cs,
      irr_msgs := irr_msgs r @ map2 (\<lambda>(k0, k1) c. if c then k1 else k0) (generate_key_pairs sd off n) cs,
      irr_pending := 0, irr_queue := []\<rparr>)"
proof (cases "n = 0")
  case True
  then show ?thesis using assms
    by (intro exI [of _ "[]"] exI [of _ "irr_rng r"] exI [of _ "irr_forced r"], cases r)
      (simp add: irr_flush_def generate_key_pairs_def)
next
  case False
  obtain cs g where d: "draw_bools rng n (irr_rng r) = (cs, g)" by (cases "draw_bools rng n (irr_rng r)")
  then have l: "length cs = n" using length_draw_bools [of rng n "irr_rng r"] by simp
  show ?thesis
  proof (cases "irr_forced r = []")
    case True
    then show ?thesis using False assms d l
      by - (rule exI [of _ cs], rule exI [of _ g], rule exI [of _ "[]"], cases r, simp add: irr_flush_def Let_def)
  next
    case f: False
    then show ?thesis using False assms
      by - (rule exI [of _ "irr_forced r"], rule exI [of _ "irr_rng r"], rule exI [of _ "[]"], cases r, simp add: irr_flush_def Let_def)
  qed
qed

lemma irr_flush_refused:
  "irr_pending r = n \<Longrightarrow> 0 < n \<Longrightarrow> irr_forced r \<noteq> [] \<Longrightarrow> length (irr_forced r) \<noteq> n \<Longrightarrow>
     irr_flush rng r \<lparr>rfm_seed = sd, rfm_offset = off, rfm_count = n\<rparr> = Inl (Err (ForcedChoices (length (irr_forced r)) n))"
  by (simp add: irr_flush_def Let_def)

text \<open>The sender when it begins to serve its queue.\<close>

definition irs_refilled :: "ideal_rot_sender \<Rightarrow> ideal_rot_sender" where
  "irs_refilled s = s\<lparr>irs_keys := irs_keys s @ generate_key_pairs (irs_seed s) (irs_offset s) (irs_pending s),
     irs_offset := irs_offset s + of_nat (irs_pending s), irs_pending := 0, irs_queue := []\<rparr>"

lemma irs_refilled_simps [simp]:
  "length (irs_keys (irs_refilled s)) = length (irs_keys s) + irs_pending s" "irs_id (irs_refilled s) = irs_id s"
  "irs_seed (irs_refilled s) = irs_seed s" "irs_pending (irs_refilled s) = 0" "irs_queue (irs_refilled s) = []"
  by (simp_all add: irs_refilled_def generate_key_pairs_def)

lemma irs_flush_step:
  assumes "\<not> (irs_pending s = 0 \<and> irs_queue s = [])"
  shows "irs_flush s = bindR (irs_fulfil (irs_queue s) (irs_refilled s)) (\<lambda>(outs, s').
    Inr (Some \<lparr>rfm_seed = irs_seed s', rfm_offset = irs_offset s, rfm_count = irs_pending s\<rparr>, outs, s'))"
proof (cases "irs_pending s = 0")
  case True
  then show ?thesis using assms by (cases s) (simp add: irs_flush_def irs_refilled_def generate_key_pairs_def)
qed (use assms in \<open>simp add: irs_flush_def irs_refilled_def Let_def\<close>)

lemma refilled_match:
  assumes "rot_rel s r" "length cs = irs_pending s"
  shows "rot_match (irs_keys (irs_refilled s)) (irr_choices r @ cs) (irr_msgs r @
    map2 (\<lambda>(k0, k1) c. if c then k1 else k0) (generate_key_pairs (irs_seed s) (irs_offset s) (irs_pending s)) cs)"
  using rot_match_append [OF _ key_pairs_match [OF assms(2)]] assms(1) by (simp add: rot_rel_def irs_refilled_def)

lemma rot_flush_panics:
  assumes "length (irs_keys (ro_sender w)) + irs_pending (ro_sender w) < sum_list (map fst (irs_queue (ro_sender w)))"
  shows "rot_flush rng w = Inl Panic"
proof -
  have "irs_queue (ro_sender w) \<noteq> []" using assms by auto
  then show ?thesis using assms by (simp add: rot_flush_def irs_flush_step irs_fulfil_panic)
qed

lemma rot_flush_refused:
  fixes w :: "'g ideal_rot"
  defines "s \<equiv> ro_sender w" and "r \<equiv> ro_receiver w"
  assumes rel: "rot_rel s r" and fits: "sum_list (map fst (irs_queue s)) \<le> length (irs_keys s) + irs_pending s"
    and bad: "0 < irs_pending s" "irr_forced r \<noteq> []" "length (irr_forced r) \<noteq> irs_pending s"
  shows "rot_flush rng w = Inl (Err (ForcedChoices (length (irr_forced r)) (irs_pending s)))"
proof -
  let ?cs = "replicate (irs_pending s) False"
  let ?r = "r\<lparr>irr_choices := irr_choices r @ ?cs, irr_msgs := irr_msgs r @
    map2 (\<lambda>(k0, k1) c. if c then k1 else k0) (generate_key_pairs (irs_seed s) (irs_offset s) (irs_pending s)) ?cs\<rparr>"
  have "rot_match (irs_keys (irs_refilled s)) (irr_choices ?r) (irr_msgs ?r)" "irs_id (irs_refilled s) = irr_id ?r"
      "map fst (irs_queue s) = map fst (irr_queue r)" "sum_list (map fst (irs_queue s)) \<le> length (irs_keys (irs_refilled s))"
    using refilled_match [OF rel, of ?cs] rel fits by (simp_all add: rot_rel_def)
  from fulfil_match [OF this] obtain so ks' tid where
      h: "irs_fulfil (irs_queue s) (irs_refilled s) = (Inr (so, (irs_refilled s)\<lparr>irs_keys := ks', irs_id := tid\<rparr>) :: (ideal_rot_error, _) result)"
    by (elim exE conjE) (rule that)
  have "irr_pending r = irs_pending s" using rel by (simp add: rot_rel_def)
  from irr_flush_refused [OF this bad] show ?thesis
    using h bad(1) by (simp add: rot_flush_def s_def [symmetric] r_def [symmetric] irs_flush_step)
qed

lemma rot_flush_served:
  fixes w :: "'g ideal_rot"
  defines "s \<equiv> ro_sender w" and "r \<equiv> ro_receiver w"
  assumes rel: "rot_rel s r" and fits: "sum_list (map fst (irs_queue s)) \<le> length (irs_keys s) + irs_pending s"
    and ok: "irs_pending s = 0 \<or> irr_forced r = [] \<or> length (irr_forced r) = irs_pending s"
    and some: "\<not> (irs_pending s = 0 \<and> irs_queue s = [])"
  shows "\<exists>so ro w'. rot_flush rng w = Inr (so, ro, w') \<and> rot_delivered so ro \<and> map fst so = map snd (irs_queue s) \<and>
    map fst ro = map snd (irr_queue r) \<and> rot_rel (ro_sender w') (ro_receiver w') \<and> \<not> rot_wants_flush w' \<and>
    (0 < irs_pending s \<and> irr_forced r \<noteq> [] \<longrightarrow> irr_forced (ro_receiver w') = [] \<and>
       concat (map (\<lambda>(c, id, cs, ms). cs) ro) @ irr_choices (ro_receiver w') = irr_choices r @ irr_forced r)"
proof -
  have p: "irr_pending r = irs_pending s" and q: "map fst (irs_queue s) = map fst (irr_queue r)" using rel by (simp_all add: rot_rel_def)
  let ?kp = "generate_key_pairs (irs_seed s) (irs_offset s) (irs_pending s)" and ?s = "irs_refilled s"
  from irr_flush_step [OF p ok, where rng = rng and sd = "irs_seed s" and off = "irs_offset s"] obtain cs g fs'
    where r1: "length cs = irs_pending s" "0 < irs_pending s \<and> irr_forced r \<noteq> [] \<longrightarrow> cs = irr_forced r \<and> fs' = []"
      "irr_flush rng r \<lparr>rfm_seed = irs_seed s, rfm_offset = irs_offset s, rfm_count = irs_pending s\<rparr> =
      irr_fulfil (irr_queue r) (r\<lparr>irr_rng := g, irr_forced := fs', irr_choices := irr_choices r @ cs,
        irr_msgs := irr_msgs r @ map2 (\<lambda>(k0, k1) c. if c then k1 else k0) ?kp cs, irr_pending := 0, irr_queue := []\<rparr>)"
    (is "_ = irr_fulfil _ ?r")
    by (elim exE conjE) (rule that)
  have m: "rot_match (irs_keys ?s) (irr_choices ?r) (irr_msgs ?r)" "irs_id ?s = irr_id ?r"
      "sum_list (map fst (irs_queue s)) \<le> length (irs_keys ?s)"
    using refilled_match [OF rel r1(1)] rel fits by (simp_all add: rot_rel_def)
  from fulfil_match [OF m(1,2) q m(3)] obtain so ro ks' tid cs' ms' where
      h: "irs_fulfil (irs_queue s) ?s = (Inr (so, ?s\<lparr>irs_keys := ks', irs_id := tid\<rparr>) :: (ideal_rot_error, _) result)"
      "irr_fulfil (irr_queue r) ?r = (Inr (ro, ?r\<lparr>irr_choices := cs', irr_msgs := ms', irr_id := tid\<rparr>) :: (ideal_rot_error, _) result)"
      "rot_delivered so ro" "rot_match ks' cs' ms'" "map fst so = map snd (irs_queue s)" "map fst ro = map snd (irr_queue r)"
      "concat (map (\<lambda>(c, id, cs, ms). cs) ro) @ cs' = irr_choices ?r"
    by (elim exE conjE) (rule that)
  have "rot_flush rng w = Inr (so, ro, w\<lparr>ro_sender := ?s\<lparr>irs_keys := ks', irs_id := tid\<rparr>,
      ro_receiver := ?r\<lparr>irr_choices := cs', irr_msgs := ms', irr_id := tid\<rparr>\<rparr>)"
    using r1(3) h(1,2) some by (simp add: rot_flush_def s_def [symmetric] r_def [symmetric] irs_flush_step)
  then show ?thesis using h(3-7) r1(2) by (simp add: rot_rel_def rot_wants_flush_def irs_wants_flush_def irr_wants_flush_def)
qed

text \<open>
  C32. A flush of the ideal random OT between related ends, whatever choices are forced.  It panics exactly when
  the queued requests exceed what is held and pending.  It is refused with \<open>ForcedChoices\<close> exactly when the requests fit,
  OTs are pending, choices have been forced and their number is not that of the pending OTs.  Otherwise it
  succeeds: every queued channel gets matching keys, choices and messages under equal transfer ids, the
  ends are related again with empty queues, and forced choices are the choices of the new OTs and
  are used up.
\<close>

theorem ideal_rot_flush:
  fixes w :: "'g ideal_rot"
  assumes "rot_rel (ro_sender w) (ro_receiver w)"
  shows "(let n = irs_pending (ro_sender w); held = length (irs_keys (ro_sender w)) + n; forced = irr_forced (ro_receiver w);
          requests = sum_list (map fst (irs_queue (ro_sender w)))
     in case rot_flush rng w of
      Inr (so, ro, w') \<Rightarrow> requests \<le> held \<and> (n = 0 \<or> forced = [] \<or> length forced = n) \<and>
        rot_delivered so ro \<and> map fst so = map snd (irs_queue (ro_sender w)) \<and> map fst ro = map snd (irr_queue (ro_receiver w)) \<and>
        rot_rel (ro_sender w') (ro_receiver w') \<and> \<not> rot_wants_flush w' \<and>
        (0 < n \<and> forced \<noteq> [] \<longrightarrow> irr_forced (ro_receiver w') = [] \<and>
          concat (map (\<lambda>(c, id, cs, ms). cs) ro) @ irr_choices (ro_receiver w') = irr_choices (ro_receiver w) @ forced)
    | Inl (Err e) \<Rightarrow> requests \<le> held \<and> 0 < n \<and> forced \<noteq> [] \<and> length forced \<noteq> n \<and> e = ForcedChoices (length forced) n
    | Inl Panic \<Rightarrow> held < requests)"
proof -
  let ?s = "ro_sender w" and ?r = "ro_receiver w"
  consider (idle) "irs_pending ?s = 0" "irs_queue ?s = []"
    | (panic) "length (irs_keys ?s) + irs_pending ?s < sum_list (map fst (irs_queue ?s))"
    | (refused) "sum_list (map fst (irs_queue ?s)) \<le> length (irs_keys ?s) + irs_pending ?s"
        "0 < irs_pending ?s" "irr_forced ?r \<noteq> []" "length (irr_forced ?r) \<noteq> irs_pending ?s"
    | (served) "\<not> (irs_pending ?s = 0 \<and> irs_queue ?s = [])" "sum_list (map fst (irs_queue ?s)) \<le> length (irs_keys ?s) + irs_pending ?s"
        "irs_pending ?s = 0 \<or> irr_forced ?r = [] \<or> length (irr_forced ?r) = irs_pending ?s"
    by fastforce
  then show ?thesis
  proof cases
    case idle
    then show ?thesis using assms
      by (simp add: rot_rel_def rot_flush_def irs_flush_def rot_delivered_def rot_wants_flush_def irs_wants_flush_def irr_wants_flush_def)
  next
    case panic
    then show ?thesis by (simp add: rot_flush_panics Let_def)
  next
    case refused
    then show ?thesis by (simp add: rot_flush_refused [OF assms refused] Let_def)
  next
    case served
    from rot_flush_served [OF assms served(2,3,1), of rng] served(2,3) show ?thesis by (auto simp: Let_def)
  qed
qed

text \<open>Three pending OTs and a queued request for two, with all three choices forced and with only one forced.\<close>

definition demo_rot :: "bool list \<Rightarrow> unit ideal_rot" where
  "demo_rot forced = \<lparr>ro_sender = (irs_new 7)\<lparr>irs_pending := 3, irs_queue := [(2, 0)]\<rparr>,
     ro_receiver = irr_set_choices ((irr_new ())\<lparr>irr_pending := 3, irr_queue := [(2, 0)]\<rparr>) forced\<rparr>"

theorem ideal_rot_flush_witness:
  "(\<exists>so ro w'. rot_flush (\<lambda>_. (True, ())) (demo_rot [True, False, True]) = Inr (so, ro, w') \<and> rot_delivered so ro \<and>
      map fst so = [0] \<and> concat (map (\<lambda>(c, id, cs, ms). cs) ro) @ irr_choices (ro_receiver w') = [True, False, True]) \<and>
   rot_flush (\<lambda>_. (True, ())) (demo_rot [True]) = Inl (Err (ForcedChoices 1 3))"
proof -
  have rel: "rot_rel (ro_sender (demo_rot fc)) (ro_receiver (demo_rot fc))" for fc
    by (simp add: demo_rot_def rot_rel_def rot_match_def irs_new_def irr_new_def irr_set_choices_def)
  have v: "irs_pending (ro_sender (demo_rot fc)) = 3" "irs_keys (ro_sender (demo_rot fc)) = []" "irr_forced (ro_receiver (demo_rot fc)) = fc"
      "irs_queue (ro_sender (demo_rot fc)) = [(2, 0)]" "irr_choices (ro_receiver (demo_rot fc)) = []" for fc
    by (simp_all add: demo_rot_def irs_new_def irr_new_def irr_set_choices_def)
  let ?rng = "\<lambda>_. (True, ())" and ?w = "demo_rot [True, False, True]"
  note all = ideal_rot_flush [OF rel, unfolded v Let_def, simplified, of "[True, False, True]" ?rng]
    and one = ideal_rot_flush [OF rel, unfolded v Let_def, simplified, of "[True]" ?rng]
  obtain so ro w' where served: "rot_flush ?rng ?w = Inr (so, ro, w')"
  proof (cases "rot_flush ?rng ?w")
    case (Inl e) then show thesis using all by (cases e) simp_all
  next
    case (Inr x) then show thesis using that by (cases x) simp
  qed
  have "rot_flush ?rng (demo_rot [True]) = Inl (Err (ForcedChoices 1 3))"
  proof (cases "rot_flush ?rng (demo_rot [True])")
    case (Inl e) then show ?thesis using one by (cases e) simp_all
  next
    case (Inr x) then show ?thesis using one by (cases x) simp
  qed
  with all served show ?thesis by simp
qed

section \<open>Tweaks\<close>

lemma pair_eq: "i < N \<Longrightarrow> j < N \<Longrightarrow> a * N + i = b * N + j \<longleftrightarrow> a = b \<and> i = j" for N :: nat
  by (metis add.commute div_less div_mult_self1 add_left_imp_eq gr_implies_not_zero add.right_neutral add_0)

lemma tweak_value:
  assumes "i < 2 ^ 64"
  shows "unat (push_bit 64 (ucast (t :: 64 word)) + of_nat i :: block) = unat t * 2 ^ 64 + i"
proof -
  have t: "unat t < 2 ^ 64" using unsigned_less [of t] by simp
  then have "unat t * 2 ^ 64 \<le> (2 ^ 64 - 1) * 2 ^ 64" by (intro mult_le_mono1) simp
  then have b: "unat t * 2 ^ 64 + i < 2 ^ 128" using assms by simp
  have "unat (push_bit 64 (ucast t :: block)) = unat t * 2 ^ 64 mod 2 ^ 128"
    using t by (simp add: push_bit_eq_mult unat_word_ariths unsigned_ucast_eq take_bit_nat_eq_self)
  moreover have "unat (of_nat i :: block) = i mod 2 ^ 128" by (simp add: unsigned_of_nat take_bit_eq_mod)
  ultimately show ?thesis using b assms by (simp add: unat_word_ariths)
qed

text \<open>
  Every random OT is hashed under a tweak of its own: within batches of fewer than 2^64 OTs, two
  tweaks are equal only for the same transfer id and the same position.
\<close>

theorem rot_tweak_unique:
  assumes "i < 2 ^ 64" "j < 2 ^ 64"
  shows "rot_tweak t i = rot_tweak u j \<longleftrightarrow> t = u \<and> i = j"
proof -
  have inj: "from_le_bytes (to_be_bytes v) = (from_le_bytes (to_be_bytes w) :: block) \<longleftrightarrow> v = w" for v w :: block
    by (metis to_from_le_bytes from_to_be_bytes length_rev length_to_le_bytes to_be_bytes_def)
  have "rot_tweak t i = rot_tweak u j \<longleftrightarrow> unat t * 2 ^ 64 + i = unat u * 2 ^ 64 + j"
    unfolding rot_tweak_def inj unfolding word_unat_eq_iff using assms by (simp only: tweak_value)
  also have "\<dots> \<longleftrightarrow> t = u \<and> i = j"
    unfolding word_unat_eq_iff by (rule pair_eq [OF assms])
  finally show ?thesis .
qed

theorem rot_tweak_unique_witness:
  "rot_tweak 1 5 = rot_tweak 2 5 \<longleftrightarrow> (1 :: transfer_id) = 2 \<and> (5 :: nat) = 5"
  by (rule rot_tweak_unique) simp_all

end
