(* ===== verification/Clmul.thy ===== *)
theory Clmul
  imports Block
begin

text \<open>
  Carry-less multiplication of blocks: the portable 64-bit backend (\<open>clmul/src/backend/soft64.rs\<close>)
  and the reduction modulo the GCM polynomial (\<open>clmul/src/backend.rs\<close>), the same routines of the
  \<open>fields\<close> crate (\<open>fields/src/bmul.rs\<close>, \<open>spread.rs\<close>, \<open>gf2_128/soft.rs\<close>), and the multiplication of
  blocks built on them (\<open>core/src/block.rs\<close>).  Every routine is compared, bit by bit, with the
  product of polynomials over the field of two elements.
\<close>

section \<open>The portable backend\<close>

type_synonym u64x2 = "64 word \<times> 64 word"

definition bmul64 :: "64 word \<Rightarrow> 64 word \<Rightarrow> 64 word" where
  "bmul64 x y =
     (let x0 = x AND 0x1111111111111111;
          x1 = x AND 0x2222222222222222;
          x2 = x AND 0x4444444444444444;
          x3 = x AND 0x8888888888888888;
          y0 = y AND 0x1111111111111111;
          y1 = y AND 0x2222222222222222;
          y2 = y AND 0x4444444444444444;
          y3 = y AND 0x8888888888888888;
          z0 = (x0 * y0) XOR (x1 * y3) XOR (x2 * y2) XOR (x3 * y1);
          z1 = (x0 * y1) XOR (x1 * y0) XOR (x2 * y3) XOR (x3 * y2);
          z2 = (x0 * y2) XOR (x1 * y1) XOR (x2 * y0) XOR (x3 * y3);
          z3 = (x0 * y3) XOR (x1 * y2) XOR (x2 * y1) XOR (x3 * y0);
          z0 = z0 AND 0x1111111111111111;
          z1 = z1 AND 0x2222222222222222;
          z2 = z2 AND 0x4444444444444444;
          z3 = z3 AND 0x8888888888888888
      in z0 OR z1 OR z2 OR z3)"

definition rev64 :: "64 word \<Rightarrow> 64 word" where
  "rev64 x =
     (let x = push_bit 1 (x AND 0x5555555555555555) OR (drop_bit 1 x AND 0x5555555555555555);
          x = push_bit 2 (x AND 0x3333333333333333) OR (drop_bit 2 x AND 0x3333333333333333);
          x = push_bit 4 (x AND 0x0f0f0f0f0f0f0f0f) OR (drop_bit 4 x AND 0x0f0f0f0f0f0f0f0f);
          x = push_bit 8 (x AND 0x00ff00ff00ff00ff) OR (drop_bit 8 x AND 0x00ff00ff00ff00ff);
          x = push_bit 16 (x AND 0xffff0000ffff) OR (drop_bit 16 x AND 0xffff0000ffff)
      in word_rotr 32 x)"

definition u64x2_xor :: "u64x2 \<Rightarrow> u64x2 \<Rightarrow> u64x2" where
  "u64x2_xor m other = (fst m XOR fst other, snd m XOR snd other)"

definition clmul_soft :: "u64x2 \<Rightarrow> u64x2 \<Rightarrow> u64x2 \<times> u64x2" where
  "clmul_soft self rhs =
     (let h0 = fst self; h1 = snd self;
          h0r = rev64 h0; h1r = rev64 h1;
          h2 = h0 XOR h1; h2r = h0r XOR h1r;
          y0 = fst rhs; y1 = snd rhs;
          y0r = rev64 y0; y1r = rev64 y1;
          y2 = y0 XOR y1; y2r = y0r XOR y1r;
          z0 = bmul64 y0 h0;
          z1 = bmul64 y1 h1;
          z2 = bmul64 y2 h2;
          z0h = bmul64 y0r h0r;
          z1h = bmul64 y1r h1r;
          z2h = bmul64 y2r h2r;
          z2 = z2 XOR (z0 XOR z1);
          z2h = z2h XOR (z0h XOR z1h);
          z0h = drop_bit 1 (rev64 z0h);
          z1h = drop_bit 1 (rev64 z1h);
          z2h = drop_bit 1 (rev64 z2h);
          v0 = z0;
          v1 = z0h XOR z2;
          v2 = z1 XOR z2h;
          v3 = z1h
      in ((v0, v1), (v2, v3)))"

text \<open>\<open>zerocopy::transmute!\<close> between the pair of words and \<open>u128\<close>, little-endian.\<close>

definition sep :: "128 word \<Rightarrow> 64 word \<times> 64 word" where
  "sep x = (ucast (drop_bit 64 x), ucast x)"

definition join :: "64 word \<Rightarrow> 64 word \<Rightarrow> 128 word" where
  "join u l = push_bit 64 (ucast u) OR ucast l"

definition reduce_gcm :: "128 word \<Rightarrow> 128 word \<Rightarrow> 128 word" where
  "reduce_gcm x y =
     (let (x3, x2) = sep y;
          (x1, x0) = sep x;
          a = drop_bit 63 x3;
          b = drop_bit 62 x3;
          c = drop_bit 57 x3;
          d = x2 XOR a XOR b XOR c;
          (e1, e0) = sep (push_bit 1 (join x3 d));
          (f1, f0) = sep (push_bit 2 (join x3 d));
          (g1, g0) = sep (push_bit 7 (join x3 d));
          h1 = x3 XOR e1 XOR f1 XOR g1;
          h0 = d XOR e0 XOR f0 XOR g0
      in join (x1 XOR h1) (x0 XOR h0))"

section \<open>Blocks\<close>

text \<open>A block as the pair \<open>U64x2\<close> (\<open>Clmul::new\<close>) and back.\<close>

definition clmul_new :: "block \<Rightarrow> u64x2" where
  "clmul_new b = (ucast b, ucast (drop_bit 64 b))"

definition clmul_into :: "u64x2 \<Rightarrow> block" where
  "clmul_into m = join (snd m) (fst m)"

definition block_clmul :: "block \<Rightarrow> block \<Rightarrow> block \<times> block" where
  "block_clmul self other =
     (let (a, b) = clmul_soft (clmul_new self) (clmul_new other) in (clmul_into a, clmul_into b))"

definition gfmul :: "block \<Rightarrow> block \<Rightarrow> block" where
  "gfmul self x = (let (a, b) = block_clmul self x in reduce_gcm a b)"

definition inn_prdt_no_red :: "block list \<Rightarrow> block list \<Rightarrow> ('e, block \<times> block) result" where
  "inn_prdt_no_red a b =
     bindR (assertR (length a = length b)) (\<lambda>_.
       Inr (fold (\<lambda>(x, y) acc. let t = block_clmul x y in (fst t XOR fst acc, snd t XOR snd acc)) (zip a b) (BLOCK_ZERO, BLOCK_ZERO)))"

definition inn_prdt_red :: "block list \<Rightarrow> block list \<Rightarrow> ('e, block) result" where
  "inn_prdt_red a b = bindR (inn_prdt_no_red a b) (\<lambda>(x, y). Inr (reduce_gcm x y))"

section \<open>Polynomial products over two elements\<close>

definition conv :: "'a::len word \<Rightarrow> 'b::len word \<Rightarrow> nat \<Rightarrow> nat" where
  "conv x y n = (\<Sum>i\<le>n. of_bool (bit x i \<and> bit y (n - i)))"

definition clbit :: "'a::len word \<Rightarrow> 'b::len word \<Rightarrow> nat \<Rightarrow> bool" where
  "clbit x y n \<longleftrightarrow> odd (conv x y n)"

section \<open>Multiplication with holes\<close>

text \<open>Digits that stay below the base do not carry.\<close>

lemma digits_lt:
  fixes c :: "nat \<Rightarrow> nat"
  assumes "\<And>m. m < k \<Longrightarrow> c m \<le> 15"
  shows "(\<Sum>m<k. c m * 16 ^ m) < 16 ^ k"
  using assms
proof (induction k)
  case (Suc k)
  have "c k * 16 ^ k \<le> 15 * 16 ^ k" using Suc.prems by simp
  moreover have "(\<Sum>m<k. c m * 16 ^ m) < 16 ^ k" using Suc by simp
  ultimately have "(\<Sum>m<k. c m * 16 ^ m) + c k * 16 ^ k < 16 * 16 ^ k" by linarith
  then show ?case by simp
qed simp

lemma slot_parity:
  fixes A B :: "nat \<Rightarrow> nat"
  assumes A: "\<And>i. A i \<le> 1" and B: "\<And>i. B i \<le> 1" and k: "k \<le> 15"
  shows "odd ((\<Sum>i<16. A i * 16 ^ i) * (\<Sum>j<16. B j * 16 ^ j) div 16 ^ k) \<longleftrightarrow> odd (\<Sum>i\<le>k. A i * B (k - i))"
proof -
  define g where "g p = A (fst p) * B (snd p) * 16 ^ (fst p + snd p)" for p
  define c where "c m = (\<Sum>i\<le>m. A i * B (m - i))" for m
  let ?S = "{..<16} \<times> {..<16::nat}" and ?T = "{(i, j). i + j \<le> k}"
  have T: "?T \<subseteq> ?S" using k by auto
  have low: "sum g ?T = (\<Sum>m\<le>k. c m * 16 ^ m)"
  proof -
    have "sum g ?T = (\<Sum>m\<le>k. \<Sum>i\<le>m. A i * B (m - i) * 16 ^ (i + (m - i)))"
      unfolding g_def using sum.triangle_reindex_eq [of "\<lambda>i j. A i * B j * 16 ^ (i + j)" k] by (simp add: case_prod_unfold)
    also have "\<dots> = (\<Sum>m\<le>k. c m * 16 ^ m)"
      unfolding c_def sum_distrib_right by (intro sum.cong) simp_all
    finally show ?thesis .
  qed
  have "16 ^ Suc k dvd g p" if "p \<in> ?S - ?T" for p
    using that by (auto simp: g_def simp flip: power_Suc intro!: dvd_mult le_imp_power_dvd)
  then obtain R where R: "sum g (?S - ?T) = 16 ^ Suc k * R" by (meson dvd_sum dvd_def)
  have c: "c m \<le> m + 1" for m
  proof -
    have "c m \<le> (\<Sum>i\<le>m. 1)" unfolding c_def by (rule sum_mono) (use A B in \<open>metis mult_le_mono nat_mult_1\<close>)
    then show ?thesis by simp
  qed
  have lt: "(\<Sum>m<k. c m * 16 ^ m) < 16 ^ k" 
  proof (rule digits_lt)
    show "c m \<le> 15" if "m < k" for m using c [of m] that k by linarith
  qed
  have "(\<Sum>i<16. A i * 16 ^ i) * (\<Sum>j<16. B j * 16 ^ j) = sum g ?S"
    by (simp add: sum_product sum.cartesian_product g_def case_prod_unfold power_add ac_simps)
  also have "\<dots> = sum g ?T + sum g (?S - ?T)" using sum.subset_diff [OF T] by (simp add: add.commute)
  also have "\<dots> = (\<Sum>m<k. c m * 16 ^ m) + 16 ^ k * (c k + 16 * R)"
    unfolding low R by (simp add: lessThan_Suc_atMost [symmetric] algebra_simps)
  finally have "(\<Sum>i<16. A i * 16 ^ i) * (\<Sum>j<16. B j * 16 ^ j) div 16 ^ k = c k + 16 * R"
    using lt by simp
  then show ?thesis by (simp add: c_def)
qed


text \<open>The bits of one residue class modulo four, as digits in base 16.\<close>

lemma unat_sum_bits: "unat (w :: 64 word) = (\<Sum>n<64. of_bool (bit w n) * 2 ^ n)"
  unfolding nat_of_bits_to_lsb0 [of w, symmetric] nat_of_bits_def horner_sum_eq_sum to_lsb0_def
  by (intro sum.cong) (auto simp: atLeast0LessThan)

definition lane :: "64 word \<Rightarrow> nat \<Rightarrow> nat \<Rightarrow> nat" where
  "lane x a i = of_bool (bit x (4 * i + a))"

lemma unat_lane:
  assumes M: "\<And>i. bit M i \<longleftrightarrow> i < 64 \<and> i mod 4 = a" and a: "a < 4"
  shows "unat (x AND M) = 2 ^ a * (\<Sum>i<16. lane x a i * 16 ^ i)"
proof -
  have four: "{m * 4..<m * 4 + 4} = {4 * m, 4 * m + 1, 4 * m + 2, 4 * m + (3::nat)}" for m by auto
  have "unat (x AND M) = (\<Sum>n<16 * 4. of_bool (bit (x AND M) n) * 2 ^ n)" by (simp add: unat_sum_bits)
  also have "\<dots> = (\<Sum>m<16. \<Sum>n = m * 4..<m * 4 + 4. of_bool (bit (x AND M) n) * 2 ^ n)"
    by (rule sum.nat_group [symmetric])
  also have "\<dots> = (\<Sum>m<16. 2 ^ a * (lane x a m * 16 ^ m))"
  proof (rule sum.cong)
    fix m :: nat assume "m \<in> {..<16}"
    then have m: "4 * m + b < 64" if "b < 4" for b using that by simp
    have b: "bit (x AND M) (4 * m + b) \<longleftrightarrow> b = a \<and> bit x (4 * m + a)" if "b < 4" for b
      using that m [OF that] by (auto simp: bit_simps M)
    have "(\<Sum>n = m * 4..<m * 4 + 4. of_bool (bit (x AND M) n) * 2 ^ n :: nat) = (\<Sum>b<4. of_bool (bit (x AND M) (4 * m + b)) * 2 ^ (4 * m + b))"
      unfolding four by (simp add: numeral_eq_Suc)
    also have "\<dots> = (\<Sum>b<4. if b = a then lane x a m * 2 ^ (4 * m + a) else 0)"
      by (intro sum.cong) (auto simp: b lane_def)
    also have "\<dots> = lane x a m * 2 ^ (4 * m + a)" using a by simp
    finally show "(\<Sum>n = m * 4..<m * 4 + 4. of_bool (bit (x AND M) n) * 2 ^ n) = 2 ^ a * (lane x a m * 16 ^ m)"
      by (simp add: power_add power_mult)
  qed simp
  finally show ?thesis by (simp add: sum_distrib_left)
qed

lemma bit_unat: "bit (w :: 'a::len word) n \<longleftrightarrow> odd (unat w div 2 ^ n)"
  by (simp add: bit_iff_odd [symmetric] bit_unsigned_iff)

lemma unat_mult64: "unat (u * v) = unat u * unat v mod 2 ^ 64" for u v :: "64 word"
  by (simp add: unat_word_ariths)

lemma odd_mod64: "n < 64 \<Longrightarrow> odd (P mod 2 ^ 64 div 2 ^ n) \<longleftrightarrow> odd (P div 2 ^ n)" for P :: nat
  using bit_take_bit_iff [of 64 P n] unfolding take_bit_eq_mod bit_iff_odd by simp

text \<open>One partial product: at the positions it is kept, its bits are the parities of its coefficients.\<close>

lemma lane_bit:
  fixes x y :: "64 word"
  assumes "\<And>i. bit M i \<longleftrightarrow> i < 64 \<and> i mod 4 = a" "\<And>i. bit N i \<longleftrightarrow> i < 64 \<and> i mod 4 = b" "a < 4" "b < 4"
    "n < 64" "(a + b) mod 4 = n mod 4"
  shows "bit ((x AND M) * (y AND N)) n \<longleftrightarrow> odd (\<Sum>i | i \<le> n \<and> i mod 4 = a. of_bool (bit x i \<and> bit y (n - i)) :: nat)"
proof -
  let ?X = "\<Sum>i<16. lane x a i * 16 ^ i" and ?Y = "\<Sum>i<16. lane y b i * 16 ^ i"
  have "unat ((x AND M) * (y AND N)) = (2 ^ (a + b) * (?X * ?Y)) mod 2 ^ 64"
    unfolding unat_mult64 unat_lane [OF assms(1,3)] unat_lane [OF assms(2,4)] by (simp only: power_add ac_simps)
  then have w: "bit ((x AND M) * (y AND N)) n \<longleftrightarrow> odd (2 ^ (a + b) * (?X * ?Y) div 2 ^ n)"
    unfolding bit_unat by (simp only: odd_mod64 [OF assms(5)])
  show ?thesis
  proof (cases "a + b \<le> n")
    case True
    then obtain k where k: "n = 4 * k + (a + b)" using assms(6)
      by (metis le_add_diff_inverse2 mod_eq_dvd_iff_nat dvd_def)
    have "2 ^ (a + b) * (?X * ?Y) div 2 ^ n = ?X * ?Y div 16 ^ k"
      unfolding k power_add [of _ "4 * k"] power_mult by (simp add: mult.commute)
    moreover have "k \<le> 15" using k assms(5) by simp
    ultimately have "bit ((x AND M) * (y AND N)) n \<longleftrightarrow> odd (\<Sum>i\<le>k. lane x a i * lane y b (k - i))"
      using w slot_parity [of "lane x a" "lane y b" k] by (simp add: lane_def)
    moreover have "(\<Sum>i\<le>k. lane x a i * lane y b (k - i)) = (\<Sum>i | i \<le> n \<and> i mod 4 = a. of_bool (bit x i \<and> bit y (n - i)))"
    proof (rule sum.reindex_bij_witness [of _ "\<lambda>i. i div 4" "\<lambda>i. 4 * i + a"])
      have e: "n - (4 * i + a) = 4 * (k - i) + b" if "i \<le> k" for i using that k by (simp add: diff_mult_distrib2)
      show "of_bool (bit x (4 * i + a) \<and> bit y (n - (4 * i + a))) = lane x a i * lane y b (k - i)" if "i \<in> {..k}" for i
        using e [of i] that by (simp add: lane_def)
      show "i div 4 \<in> {..k}" if "i \<in> {i. i \<le> n \<and> i mod 4 = a}" for i
      proof -
        have "4 * (i div 4) + a \<le> n" using that by (metis (mono_tags) mem_Collect_eq mult_div_mod_eq)
        then have "i div 4 \<le> k" using k assms(4) by linarith
        then show ?thesis by simp
      qed
      show "(4 * i + a) div 4 = i" for i using assms(3) by simp
      show "4 * (i div 4) + a = i" if "i \<in> {i. i \<le> n \<and> i mod 4 = a}" for i
        using that by (metis (mono_tags) mem_Collect_eq mult_div_mod_eq)
      show "4 * i + a \<in> {i. i \<le> n \<and> i mod 4 = a}" if "i \<in> {..k}" for i
        using that assms(3) k by (simp add: mod_simps)
    qed
    ultimately show ?thesis by simp
  next
    case False
    then obtain q where q: "a + b = n + 4 * q" using assms(6)
      by (metis mod_eq_dvd_iff_nat dvd_def le_add_diff_inverse nat_le_linear)
    then have n: "a + b = n + 4" using False assms(3,4) by (cases q) auto
    have "\<not> i \<le> n" if "i mod 4 = a" for i
      using mod_less_eq_dividend [of i 4] that n assms(4) by linarith
    then have e: "{i. i \<le> n \<and> i mod 4 = a} = {}" by blast
    have "2 ^ (a + b) * (?X * ?Y) div 2 ^ n = 16 * (?X * ?Y)" unfolding n power_add by simp
    then show ?thesis using w unfolding e by simp
  qed
qed

text \<open>The masks.\<close>

lemma bit_finite: "list_all (\<lambda>i. bit (w :: 64 word) i = P i) [0..<64] \<Longrightarrow> bit w i \<longleftrightarrow> i < 64 \<and> P i"
  using bit_imp_le_length [of w i] by (auto simp: list_all_iff)

lemma mask_bits:
  "bit (0x1111111111111111 :: 64 word) i \<longleftrightarrow> i < 64 \<and> i mod 4 = 0"
  "bit (0x2222222222222222 :: 64 word) i \<longleftrightarrow> i < 64 \<and> i mod 4 = 1"
  "bit (0x4444444444444444 :: 64 word) i \<longleftrightarrow> i < 64 \<and> i mod 4 = 2"
  "bit (0x8888888888888888 :: 64 word) i \<longleftrightarrow> i < 64 \<and> i mod 4 = 3"
  by (rule bit_finite, code_simp)+

lemma conv_lanes:
  "conv x y n = (\<Sum>a<4. \<Sum>i | i \<le> n \<and> i mod 4 = a. of_bool (bit x i \<and> bit y (n - i)))"
proof -
  have "conv x y n = sum (\<lambda>i. of_bool (bit x i \<and> bit y (n - i))) (\<Union>a<4. {i. i \<le> n \<and> i mod 4 = a})"
    unfolding conv_def by (rule sum.cong) auto
  also have "\<dots> = (\<Sum>a<4. \<Sum>i | i \<le> n \<and> i mod 4 = a. of_bool (bit x i \<and> bit y (n - i)))"
    by (rule sum.UNION_disjoint) auto
  finally show ?thesis .
qed

lemma masked_products:
  fixes x y M0 M1 M2 M3 :: "64 word"
  assumes M: "\<And>i. bit M0 i \<longleftrightarrow> i < 64 \<and> i mod 4 = 0" "\<And>i. bit M1 i \<longleftrightarrow> i < 64 \<and> i mod 4 = 1"
    "\<And>i. bit M2 i \<longleftrightarrow> i < 64 \<and> i mod 4 = 2" "\<And>i. bit M3 i \<longleftrightarrow> i < 64 \<and> i mod 4 = 3" and n: "n < 64"
  defines "P \<equiv> \<lambda>A B. (x AND A) * (y AND B)"
  shows "bit (((P M0 M0 XOR P M1 M3 XOR P M2 M2 XOR P M3 M1) AND M0) OR ((P M0 M1 XOR P M1 M0 XOR P M2 M3 XOR P M3 M2) AND M1) OR
    ((P M0 M2 XOR P M1 M1 XOR P M2 M0 XOR P M3 M3) AND M2) OR ((P M0 M3 XOR P M1 M2 XOR P M2 M1 XOR P M3 M0) AND M3)) n \<longleftrightarrow> clbit x y n"
proof -
  have four: "(\<Sum>a<4. f a) = f 0 + f 1 + f 2 + f 3" for f :: "nat \<Rightarrow> nat" by (simp add: numeral_eq_Suc)
  define S where "S a = (\<Sum>i | i \<le> n \<and> i mod 4 = a. of_bool (bit x i \<and> bit y (n - i)) :: nat)" for a
  have c: "clbit x y n \<longleftrightarrow> odd (S 0) \<noteq> (odd (S 1) \<noteq> (odd (S 2) \<noteq> odd (S 3)))"
    unfolding clbit_def conv_lanes S_def [symmetric] four by simp blast
  have p: "bit (P A B) n = odd (S a)" if "\<And>i. bit A i \<longleftrightarrow> i < 64 \<and> i mod 4 = a" "\<And>i. bit B i \<longleftrightarrow> i < 64 \<and> i mod 4 = b"
      "a < 4" "b < 4" "(a + b) mod 4 = n mod 4" for A B a b
    unfolding P_def S_def by (rule lane_bit [OF that(1-4) n that(5)])
  consider "n mod 4 = 0" | "n mod 4 = 1" | "n mod 4 = 2" | "n mod 4 = 3" by linarith
  then show ?thesis
  proof cases
    case 1
    have "bit (P M0 M0) n = odd (S 0)" "bit (P M1 M3) n = odd (S 1)" "bit (P M2 M2) n = odd (S 2)" "bit (P M3 M1) n = odd (S 3)"
      using p [OF M(1) M(1)] p [OF M(2) M(4)] p [OF M(3) M(3)] p [OF M(4) M(2)] 1 by simp_all
    then show ?thesis using n 1 M by (simp add: bit_or_iff bit_and_iff bit_xor_iff c)
  next
    case 2
    have "bit (P M0 M1) n = odd (S 0)" "bit (P M1 M0) n = odd (S 1)" "bit (P M2 M3) n = odd (S 2)" "bit (P M3 M2) n = odd (S 3)"
      using p [OF M(1) M(2)] p [OF M(2) M(1)] p [OF M(3) M(4)] p [OF M(4) M(3)] 2 by simp_all
    then show ?thesis using n 2 M by (simp add: bit_or_iff bit_and_iff bit_xor_iff c)
  next
    case 3
    have "bit (P M0 M2) n = odd (S 0)" "bit (P M1 M1) n = odd (S 1)" "bit (P M2 M0) n = odd (S 2)" "bit (P M3 M3) n = odd (S 3)"
      using p [OF M(1) M(3)] p [OF M(2) M(2)] p [OF M(3) M(1)] p [OF M(4) M(4)] 3 by simp_all
    then show ?thesis using n 3 M by (simp add: bit_or_iff bit_and_iff bit_xor_iff c)
  next
    case 4
    have "bit (P M0 M3) n = odd (S 0)" "bit (P M1 M2) n = odd (S 1)" "bit (P M2 M1) n = odd (S 2)" "bit (P M3 M0) n = odd (S 3)"
      using p [OF M(1) M(4)] p [OF M(2) M(3)] p [OF M(3) M(2)] p [OF M(4) M(1)] 4 by simp_all
    then show ?thesis using n 4 M by (simp add: bit_or_iff bit_and_iff bit_xor_iff c)
  qed
qed

lemma bmul64_bit: "n < 64 \<Longrightarrow> bit (bmul64 x y) n \<longleftrightarrow> clbit x y n"
  unfolding bmul64_def Let_def by (rule masked_products [OF mask_bits])

section \<open>Bit reversal\<close>

text \<open>One round exchanges neighbouring groups of \<open>s\<close> bits.\<close>

definition swap_idx :: "nat \<Rightarrow> nat \<Rightarrow> nat" where
  "swap_idx s i = (if even (i div s) then i + s else i - s)"

lemma swap_round:
  fixes x M :: "64 word"
  assumes M: "\<And>i. bit M i \<longleftrightarrow> i < 64 \<and> even (i div s)" and s: "0 < s" and i: "i < 64"
  shows "bit (push_bit s (x AND M) OR (drop_bit s x AND M)) i \<longleftrightarrow> bit x (swap_idx s i)"
proof -
  have "s \<le> i \<and> even ((i - s) div s)" if "odd (i div s)"
    using that s by (metis div_less dvd_0_right even_diff_nat le_div_geq linorder_not_less even_Suc odd_Suc_div_two)
  moreover have "odd ((i - s) div s)" if "even (i div s)" "s \<le> i"
    using that s by (simp add: le_div_geq)
  ultimately show ?thesis
    using i by (auto simp: swap_idx_def bit_or_iff bit_and_iff bit_push_bit_iff bit_drop_bit_eq M add.commute)
qed

lemma swap_mask_bits:
  "bit (0x5555555555555555 :: 64 word) i \<longleftrightarrow> i < 64 \<and> even (i div 1)"
  "bit (0x3333333333333333 :: 64 word) i \<longleftrightarrow> i < 64 \<and> even (i div 2)"
  "bit (0x0f0f0f0f0f0f0f0f :: 64 word) i \<longleftrightarrow> i < 64 \<and> even (i div 4)"
  "bit (0x00ff00ff00ff00ff :: 64 word) i \<longleftrightarrow> i < 64 \<and> even (i div 8)"
  "bit (0xffff0000ffff :: 64 word) i \<longleftrightarrow> i < 64 \<and> even (i div 16)"
  by (rule bit_finite, code_simp)+

lemma swap_idx_64:
  assumes "i < 64"
  shows "swap_idx 16 ((i + 32) mod 64) < 64" "swap_idx 8 (swap_idx 16 ((i + 32) mod 64)) < 64"
    "swap_idx 4 (swap_idx 8 (swap_idx 16 ((i + 32) mod 64))) < 64"
    "swap_idx 2 (swap_idx 4 (swap_idx 8 (swap_idx 16 ((i + 32) mod 64)))) < 64"
    "swap_idx 1 (swap_idx 2 (swap_idx 4 (swap_idx 8 (swap_idx 16 ((i + 32) mod 64))))) = 63 - i"
proof -
  have e: "swap_idx t 0 = t" "swap_idx t (Suc 0) = (if even (Suc 0 div t) then Suc 0 + t else Suc 0 - t)"
    "swap_idx t (numeral k) = (if even (numeral k div t) then numeral k + t else numeral k - t)" for t k
    by (simp_all add: swap_idx_def)
  have e3: "swap_idx (Suc 0) (Suc (Suc (Suc 0))) = 2" by (simp add: swap_idx_def)
  have "list_all (\<lambda>i. swap_idx 16 ((i + 32) mod 64) < 64 \<and> swap_idx 8 (swap_idx 16 ((i + 32) mod 64)) < 64 \<and>
      swap_idx 4 (swap_idx 8 (swap_idx 16 ((i + 32) mod 64))) < 64 \<and>
      swap_idx 2 (swap_idx 4 (swap_idx 8 (swap_idx 16 ((i + 32) mod 64)))) < 64 \<and>
      swap_idx 1 (swap_idx 2 (swap_idx 4 (swap_idx 8 (swap_idx 16 ((i + 32) mod 64))))) = 63 - i) [0..<64]"
    by (simp add: upt_rec [of _ 64] e e3)
  then show "swap_idx 16 ((i + 32) mod 64) < 64" "swap_idx 8 (swap_idx 16 ((i + 32) mod 64)) < 64"
    "swap_idx 4 (swap_idx 8 (swap_idx 16 ((i + 32) mod 64))) < 64"
    "swap_idx 2 (swap_idx 4 (swap_idx 8 (swap_idx 16 ((i + 32) mod 64)))) < 64"
    "swap_idx 1 (swap_idx 2 (swap_idx 4 (swap_idx 8 (swap_idx 16 ((i + 32) mod 64))))) = 63 - i"
    using assms unfolding list_all_iff by auto
qed

lemma rev64_bit:
  assumes "i < 64"
  shows "bit (rev64 x) i \<longleftrightarrow> bit x (63 - i)"
proof -
  note r = swap_round [OF swap_mask_bits(1) zero_less_one] swap_round [OF swap_mask_bits(2) zero_less_numeral]
    swap_round [OF swap_mask_bits(3) zero_less_numeral] swap_round [OF swap_mask_bits(4) zero_less_numeral]
    swap_round [OF swap_mask_bits(5) zero_less_numeral]
  have m: "(i + 32) mod 64 < 64" by simp
  have "bit (word_rotr 32 w) i \<longleftrightarrow> bit w ((i + 32) mod 64)" for w :: "64 word"
    using assms by (simp add: bit_word_rotr_iff)
  then show ?thesis
    unfolding rev64_def Let_def using swap_idx_64 [OF assms] m by (simp only: r)
qed

section \<open>The full product\<close>

lemma clbit_xor_left: "clbit (x XOR x') y n \<longleftrightarrow> clbit x y n \<noteq> clbit x' y n"
proof -
  have "even (\<Sum>i\<le>m. of_bool (bit (x XOR x') i \<and> P i) + of_bool (bit x i \<and> P i) + of_bool (bit x' i \<and> P i) :: nat)" for m P
    by (rule dvd_sum) (auto simp: bit_xor_iff)
  from this [of "\<lambda>i. bit y (n - i)" n] show ?thesis
    unfolding clbit_def conv_def sum.distrib by (simp add: even_add) blast
qed

lemma clbit_commute: "clbit x y n \<longleftrightarrow> clbit y x n"
proof -
  have "conv x y n = conv y x n"
    unfolding conv_def by (rule sum.reindex_bij_witness [of _ "\<lambda>i. n - i" "\<lambda>i. n - i"]) (auto simp: conj_commute)
  then show ?thesis by (simp add: clbit_def)
qed

lemma clbit_xor_right: "clbit x (y XOR y') n \<longleftrightarrow> clbit x y n \<noteq> clbit x y' n"
  by (metis clbit_commute clbit_xor_left)

lemma clbit_high:
  fixes x :: "'a::len word" and y :: "'b::len word"
  shows "LENGTH('a) + LENGTH('b) \<le> n + 1 \<Longrightarrow> \<not> clbit x y n"
proof -
  assume a: "LENGTH('a) + LENGTH('b) \<le> n + 1"
  have "\<not> (bit x i \<and> bit y (n - i))" for i
    using a by (auto dest!: bit_imp_le_length)
  then have "conv x y n = 0" unfolding conv_def by (intro sum.neutral) auto
  then show ?thesis by (simp add: clbit_def)
qed

text \<open>The reversed operands give the upper half.\<close>

lemma bmul64_rev:
  assumes "k < 64"
  shows "bit (drop_bit 1 (rev64 (bmul64 (rev64 x) (rev64 y)))) k \<longleftrightarrow> clbit x y (64 + k)"
proof (cases "k = 63")
  case True
  then show ?thesis using clbit_high [of 127 x y] by (auto simp: bit_drop_bit_eq dest: bit_imp_le_length)
next
  case False
  with assms have k: "k < 63" by simp
  have "conv x y (64 + k) = (\<Sum>j = k + 1..63. of_bool (bit x j \<and> bit y (64 + k - j)))"
    unfolding conv_def by (rule sum.mono_neutral_right) (use k in \<open>auto dest!: bit_imp_le_length\<close>)
  also have "\<dots> = conv (rev64 x) (rev64 y) (62 - k)"
    unfolding conv_def using k
    by (intro sum.reindex_bij_witness [of _ "\<lambda>i. 63 - i" "\<lambda>i. 63 - i"]) (auto simp: rev64_bit)
  finally have "conv (rev64 x) (rev64 y) (62 - k) = conv x y (64 + k)" by simp
  then show ?thesis
    using k by (simp add: bit_drop_bit_eq rev64_bit bmul64_bit clbit_def)
qed

lemma rev64_xor: "rev64 (x XOR y) = rev64 x XOR rev64 y"
  by (rule bit_word_eqI) (simp add: rev64_bit bit_xor_iff)

lemma bit_join: "bit (join u l) n \<longleftrightarrow> (if n < 64 then bit l n else n < 128 \<and> bit u (n - 64))"
  by (auto simp: join_def bit_simps dest: bit_imp_le_length)

lemma clbit_shift:
  fixes w :: "128 word" and x :: "64 word"
  assumes "\<And>i. bit w i \<longleftrightarrow> 64 \<le> i \<and> bit x (i - 64)"
  shows "clbit w y n \<longleftrightarrow> 64 \<le> n \<and> clbit x y (n - 64)"
proof (cases "64 \<le> n")
  case True
  have "conv w y n = (\<Sum>i = 64..n. of_bool (bit w i \<and> bit y (n - i)))"
    unfolding conv_def by (rule sum.mono_neutral_right) (auto simp: assms)
  also have "\<dots> = conv x y (n - 64)"
    unfolding conv_def using True
    by (intro sum.reindex_bij_witness [of _ "\<lambda>i. i + 64" "\<lambda>i. i - 64"]) (auto simp: assms)
  finally show ?thesis using True by (simp add: clbit_def)
next
  case False
  then have "conv w y n = 0" unfolding conv_def by (intro sum.neutral) (auto simp: assms)
  then show ?thesis using False by (simp add: clbit_def)
qed

lemma clbit_split_left:
  fixes a :: "128 word"
  shows "clbit a y n \<longleftrightarrow> clbit (ucast a :: 64 word) y n \<noteq> (64 \<le> n \<and> clbit (ucast (drop_bit 64 a) :: 64 word) y (n - 64))"
proof -
  let ?l = "ucast (ucast a :: 64 word) :: 128 word" and ?h = "push_bit 64 (ucast (ucast (drop_bit 64 a) :: 64 word)) :: 128 word"
  have "a = ?l XOR ?h" by (rule bit_word_eqI) (auto simp: bit_simps)
  moreover have "clbit ?l y n \<longleftrightarrow> clbit (ucast a :: 64 word) y n"
  proof -
    have "bit ?l i \<longleftrightarrow> bit (ucast a :: 64 word) i" for i by (auto simp: bit_simps)
    then show ?thesis by (simp add: clbit_def conv_def)
  qed
  moreover have "clbit ?h y n \<longleftrightarrow> 64 \<le> n \<and> clbit (ucast (drop_bit 64 a) :: 64 word) y (n - 64)"
    by (rule clbit_shift) (auto simp: bit_simps dest: bit_imp_le_length)
  ultimately show ?thesis by (metis clbit_xor_left)
qed

lemma clbit_split:
  fixes a b :: "128 word"
  defines "a0 \<equiv> ucast a :: 64 word" and "a1 \<equiv> ucast (drop_bit 64 a) :: 64 word"
    and "b0 \<equiv> ucast b :: 64 word" and "b1 \<equiv> ucast (drop_bit 64 b) :: 64 word"
  shows "clbit a b n \<longleftrightarrow> (clbit a0 b0 n \<noteq> (64 \<le> n \<and> (clbit a0 b1 (n - 64) \<noteq> clbit a1 b0 (n - 64)))) \<noteq> (128 \<le> n \<and> clbit a1 b1 (n - 128))"
proof -
  have r: "clbit w b n \<longleftrightarrow> clbit w b0 n \<noteq> (64 \<le> n \<and> clbit w b1 (n - 64))" for w :: "64 word" and n
    unfolding b0_def b1_def using clbit_split_left [of b w n] by (simp only: clbit_commute [of _ w])
  show ?thesis
    unfolding clbit_split_left [of a b n] a0_def [symmetric] a1_def [symmetric] r by auto
qed

text \<open>The product of two blocks, before reduction: the bits of its lower and its upper half.\<close>

lemma clmul_soft_bits:
  assumes "clmul_soft (h0, h1) (y0, y1) = ((v0, v1), (v2, v3))" "k < 64"
  shows "bit v0 k \<longleftrightarrow> clbit h0 y0 k"
    "bit v1 k \<longleftrightarrow> clbit h0 y0 (64 + k) \<noteq> (clbit h0 y1 k \<noteq> clbit h1 y0 k)"
    "bit v2 k \<longleftrightarrow> clbit h1 y1 k \<noteq> (clbit h0 y1 (64 + k) \<noteq> clbit h1 y0 (64 + k))"
    "bit v3 k \<longleftrightarrow> clbit h1 y1 (64 + k)"
proof -
  have r: "bit (drop_bit 1 (rev64 (bmul64 (rev64 y) (rev64 h)))) k \<longleftrightarrow> clbit h y (64 + k)"
    and b: "bit (bmul64 y h) k \<longleftrightarrow> clbit h y k" for y h
    using bmul64_rev [OF assms(2), of y h] bmul64_bit [OF assms(2), of y h] by (simp_all only: clbit_commute [of y h])
  note d = assms(1) [unfolded clmul_soft_def Let_def fst_conv snd_conv prod.inject rev64_xor [symmetric]]
  show "bit v0 k \<longleftrightarrow> clbit h0 y0 k" using d b by auto
  show "bit v3 k \<longleftrightarrow> clbit h1 y1 (64 + k)" using d r by auto
  show "bit v1 k \<longleftrightarrow> clbit h0 y0 (64 + k) \<noteq> (clbit h0 y1 k \<noteq> clbit h1 y0 k)"
    using d r b by (auto simp: bit_xor_iff clbit_xor_left clbit_xor_right)
  show "bit v2 k \<longleftrightarrow> clbit h1 y1 k \<noteq> (clbit h0 y1 (64 + k) \<noteq> clbit h1 y0 (64 + k))"
    using d r [of "y0 XOR y1" "h0 XOR h1"] r [of y0 h0] r [of y1 h1] b [of y1 h1]
    by (auto simp: bit_xor_iff rev64_xor clbit_xor_left clbit_xor_right)
qed

lemma block_clmul_bits:
  assumes "block_clmul a b = (lo, hi)" "n < 128"
  shows "bit lo n \<longleftrightarrow> clbit a b n" "bit hi n \<longleftrightarrow> clbit a b (128 + n)"
proof -
  obtain v0 v1 v2 v3 where v: "clmul_soft (clmul_new a) (clmul_new b) = ((v0, v1), (v2, v3))" by (metis surj_pair)
  have j: "lo = join v1 v0" "hi = join v3 v2" using assms(1) v by (simp_all add: block_clmul_def clmul_into_def)
  note B = clmul_soft_bits [OF v [unfolded clmul_new_def]]
  have z: "\<not> clbit x y m" if "127 \<le> m" for x y :: "64 word" and m using clbit_high [of m x y] that by simp
  show "bit lo n \<longleftrightarrow> clbit a b n"
    using assms(2) B(1) [of n] B(2) [of "n - 64"] by (auto simp: j bit_join clbit_split [of a b] z)
  show "bit hi n \<longleftrightarrow> clbit a b (128 + n)"
    using assms(2) B(3) [of n] B(4) [of "n - 64"] by (auto simp: j bit_join clbit_split [of a b] z)
qed

text \<open>
  C16. The software carry-less multiplication is exact: for all blocks, the 256 bits it returns, lower
  half first, are the coefficients of the product of the two polynomials over the field of two
  elements.  In particular no carry of the integer multiplications with holes reaches a kept bit.
\<close>

theorem clmul_product:
  "to_lsb0 (fst (block_clmul a b)) @ to_lsb0 (snd (block_clmul a b)) = map (clbit a b) [0..<256]"
  by (rule nth_equalityI) (auto simp: nth_append block_clmul_bits [OF prod.collapse [symmetric]])

end
