(* ===== verification/Gf2n.thy ===== *)
theory Gf2n
  imports Clmul
begin

text \<open>
  Arithmetic of polynomials over two elements modulo a polynomial of the degree of the word size,
  $x^n + R$ with \<open>R\<close> given by a word.  The reference is multiplication by \<open>x\<close>, a shift with a
  conditional feedback; a product is the sum of the multiples the bits of one factor select.  The
  ring laws hold for every \<open>R\<close>.  Two locales say what the code has to supply: \<open>reduction\<close>, that a
  routine folds the upper half of a product back, and \<open>binary_field\<close>, a certificate that the ring
  is a field, with which inversion by Fermat's theorem is correct.
\<close>

section \<open>The reference\<close>

definition xtimes :: "'a::len word \<Rightarrow> 'a word \<Rightarrow> 'a word" where
  "xtimes R a = push_bit 1 a XOR (if bit a (LENGTH('a) - 1) then R else 0)"

fun xsum :: "(nat \<Rightarrow> 'a::len word) \<Rightarrow> nat \<Rightarrow> 'a word" where
  "xsum f 0 = 0"
| "xsum f (Suc n) = xsum f n XOR f n"

definition gf_mul :: "'a::len word \<Rightarrow> 'a word \<Rightarrow> 'a word \<Rightarrow> 'a word" where
  "gf_mul R a b = xsum (\<lambda>i. scale (bit b i) ((xtimes R ^^ i) a)) LENGTH('a)"

definition monomial :: "nat \<Rightarrow> 'a::len word" where
  "monomial i = push_bit i 1"

lemma bit_monomial [simp]: "bit (monomial j :: 'a::len word) i \<longleftrightarrow> i = j \<and> j < LENGTH('a)"
  by (auto simp: monomial_def bit_exp_iff)

lemma monomial_0: "monomial 0 = 1"
  by (simp add: monomial_def)

section \<open>Additive functions\<close>

definition additive :: "('a::len word \<Rightarrow> 'b::len word) \<Rightarrow> bool" where
  "additive f \<longleftrightarrow> (\<forall>a b. f (a XOR b) = f a XOR f b)"

lemma additiveD: "additive f \<Longrightarrow> f (a XOR b) = f a XOR f b"
  by (simp add: additive_def)

lemma additive_0: "additive f \<Longrightarrow> f 0 = 0"
  using additiveD [of f 0 0] by simp

lemma additive_scale: "additive f \<Longrightarrow> f (scale b x) = scale b (f x)"
  by (cases b) (simp_all add: additive_0)

lemma additive_xsum: "additive f \<Longrightarrow> f (xsum g n) = xsum (\<lambda>i. f (g i)) n"
  by (induction n) (simp_all add: additive_0 additiveD)

lemma xsum_cong: "(\<And>i. i < n \<Longrightarrow> f i = g i) \<Longrightarrow> xsum f n = xsum g n"
  by (induction n) simp_all

lemma xsum_xor: "xsum (\<lambda>i. f i XOR g i) n = xsum f n XOR xsum g n"
  by (induction n) (simp_all add: word_xor_ac)

lemma xsum_zero [simp]: "xsum (\<lambda>i. 0) n = 0"
  by (induction n) simp_all

lemma xsum_single: "k < n \<Longrightarrow> xsum (\<lambda>i. scale (i = k) (f i)) n = f k"
proof (induction n)
  case (Suc n)
  show ?case
  proof (cases "k = n")
    case True
    have "xsum (\<lambda>i. scale (i = k) (f i)) n = xsum (\<lambda>i. 0) n" by (rule xsum_cong) (use True in \<open>simp add: scale_def\<close>)
    then show ?thesis using True by simp
  qed (use Suc in simp)
qed simp

lemma xsum_bit: "i < LENGTH('a) \<Longrightarrow> n \<le> LENGTH('a) \<Longrightarrow>
    bit (xsum (\<lambda>i. scale (P i) (monomial i :: 'a::len word)) n) i \<longleftrightarrow> i < n \<and> P i"
  by (induction n) (auto simp: bit_xor_iff scale_def less_Suc_eq)

lemma word_basis: "a = xsum (\<lambda>i. scale (bit a i) (monomial i)) LENGTH('a)" for a :: "'a::len word"
  by (rule bit_word_eqI) (simp add: xsum_bit)

text \<open>An additive function is determined by its values on the monomials.\<close>

lemma additive_eqI:
  fixes a :: "'a::len word"
  assumes "additive f" "additive g" "\<And>i. i < LENGTH('a) \<Longrightarrow> f (monomial i) = g (monomial i)"
  shows "f a = g a"
proof -
  have "f a = xsum (\<lambda>i. scale (bit a i) (f (monomial i))) LENGTH('a)"
    by (subst word_basis) (simp add: additive_xsum additive_scale assms)
  also have "\<dots> = xsum (\<lambda>i. scale (bit a i) (g (monomial i))) LENGTH('a)"
    by (rule xsum_cong) (simp add: assms)
  also have "\<dots> = g a" by (subst (2) word_basis) (simp add: additive_xsum additive_scale assms)
  finally show ?thesis .
qed

lemma additive_xtimes: "additive (xtimes R)"
  by (auto simp: additive_def xtimes_def push_bit_xor bit_xor_iff word_xor_ac xor_simps)

lemma additive_funpow: "additive f \<Longrightarrow> additive (f ^^ n)" for f :: "'a::len word \<Rightarrow> 'a word"
  by (induction n) (auto simp: additive_def)

lemma additive_id: "additive (\<lambda>x. x)" and additive_xor: "additive f \<Longrightarrow> additive g \<Longrightarrow> additive (\<lambda>a. f a XOR g a)"
  by (auto simp: additive_def word_xor_ac)

lemma additive_push: "additive (push_bit n)" and additive_drop: "additive (drop_bit n)"
  by (auto simp: additive_def push_bit_xor drop_bit_xor)

lemma additive_comp: "additive f \<Longrightarrow> additive g \<Longrightarrow> additive (\<lambda>a. f (g a))"
  by (auto simp: additive_def)

lemma additive_gf_left: "additive (\<lambda>a. gf_mul R a b)"
  unfolding additive_def gf_mul_def
  by (simp add: additiveD [OF additive_funpow [OF additive_xtimes]] scale_distrib xsum_xor)

lemma additive_gf_right: "additive (gf_mul R a)"
  unfolding additive_def gf_mul_def bit_xor_iff scale_xor xsum_xor by simp

text \<open>Powers of \<open>x\<close> below the degree are the monomials.\<close>

lemma xtimes_monomial: "j + 1 < LENGTH('a::len) \<Longrightarrow> xtimes R (monomial j :: 'a word) = monomial (j + 1)"
  by (rule bit_word_eqI) (auto simp: xtimes_def bit_push_bit_iff simp del: push_bit_Suc One_nat_def)

lemma xpow_monomial: "i + j < LENGTH('a::len) \<Longrightarrow> (xtimes R ^^ i) (monomial j :: 'a word) = monomial (i + j)"
  by (induction i) (simp_all add: xtimes_monomial [unfolded Suc_eq_plus1 [symmetric]])

lemma xpow_one: "i < LENGTH('a::len) \<Longrightarrow> (xtimes R ^^ i) (1 :: 'a word) = monomial i"
  using xpow_monomial [of i 0 R] by (simp add: monomial_0)

lemma gf_mul_monomial: "j < LENGTH('a::len) \<Longrightarrow> gf_mul R a (monomial j :: 'a word) = (xtimes R ^^ j) a"
proof -
  assume j: "j < LENGTH('a)"
  have "gf_mul R a (monomial j) = xsum (\<lambda>i. scale (i = j) ((xtimes R ^^ i) a)) LENGTH('a)"
    unfolding gf_mul_def by (rule xsum_cong) (use j in auto)
  then show ?thesis using j by (simp add: xsum_single)
qed

section \<open>The ring laws\<close>

lemma gf_mul_funpow: "(xtimes R ^^ j) (gf_mul R a b) = gf_mul R ((xtimes R ^^ j) a) b"
  unfolding gf_mul_def
  by (simp add: additive_xsum additive_scale additive_funpow [OF additive_xtimes] funpow_add [symmetric] add.commute
      flip: funpow_add [unfolded o_def, THEN fun_cong])

lemma gf_mul_commute: "gf_mul R a b = gf_mul R b a" for a b :: "'a::len word"
proof (rule additive_eqI [of "gf_mul R a" "\<lambda>b. gf_mul R b a"])
  fix j :: nat assume j: "j < LENGTH('a)"
  have "gf_mul R a (monomial j) = gf_mul R (monomial j) a"
  proof (rule additive_eqI [of "\<lambda>a. gf_mul R a (monomial j)" "gf_mul R (monomial j)"])
    fix i :: nat assume i: "i < LENGTH('a)"
    have "(xtimes R ^^ j) ((xtimes R ^^ i) 1) = (xtimes R ^^ i) ((xtimes R ^^ j) 1)"
      by (metis add.commute comp_apply funpow_add)
    then show "gf_mul R (monomial i) (monomial j) = gf_mul R (monomial j) (monomial i)"
      using i j by (simp add: gf_mul_monomial xpow_one)
  qed (rule additive_gf_left additive_gf_right)+
  then show "gf_mul R a (monomial j) = gf_mul R (monomial j) a" .
qed (rule additive_gf_left additive_gf_right)+

lemma gf_mul_assoc: "gf_mul R (gf_mul R a b) c = gf_mul R a (gf_mul R b c)" for a b c :: "'a::len word"
proof (rule additive_eqI [of "gf_mul R (gf_mul R a b)" "\<lambda>c. gf_mul R a (gf_mul R b c)"])
  fix j :: nat assume "j < LENGTH('a)"
  then show "gf_mul R (gf_mul R a b) (monomial j) = gf_mul R a (gf_mul R b (monomial j))"
    by (simp add: gf_mul_monomial gf_mul_funpow gf_mul_commute [of R a])
qed (rule additive_gf_right additive_comp [OF additive_gf_right additive_gf_right])+

lemma gf_mul_one: "gf_mul R a 1 = a" for a :: "'a::len word"
  using gf_mul_monomial [of 0 R a] by (simp add: monomial_0)

lemma gf_mul_xor: "gf_mul R a (b XOR c) = gf_mul R a b XOR gf_mul R a c" "gf_mul R (a XOR b) c = gf_mul R a c XOR gf_mul R b c"
  by (simp_all add: additiveD [OF additive_gf_right] additiveD [OF additive_gf_left])

lemma gf_mul_zero: "gf_mul R a 0 = 0" "gf_mul R 0 a = 0"
  by (simp_all add: additive_0 [OF additive_gf_right] additive_0 [OF additive_gf_left])

lemma gf_mul_monomials:
  assumes "i < LENGTH('a::len)" "j < LENGTH('a)"
  shows "gf_mul R (monomial i :: 'a word) (monomial j) = (xtimes R ^^ (i + j)) 1"
proof -
  have "(xtimes R ^^ (j + i)) (1 :: 'a word) = (xtimes R ^^ j) (monomial i)"
    unfolding funpow_add o_apply xpow_one [OF assms(1)] ..
  then show ?thesis by (simp only: gf_mul_monomial [OF assms(2)] add.commute [of i])
qed

section \<open>Folding a product back\<close>

lemma clbit_monomial:
  "i < LENGTH('a::len) \<Longrightarrow> j < LENGTH('b::len) \<Longrightarrow> clbit (monomial i :: 'a word) (monomial j :: 'b word) n \<longleftrightarrow> n = i + j"
proof -
  assume i: "i < LENGTH('a)" "j < LENGTH('b)"
  have "conv (monomial i :: 'a word) (monomial j :: 'b word) n = (\<Sum>k\<le>n. if k = i then of_bool (n - i = j) else 0)"
    unfolding conv_def by (rule sum.cong) (use i in auto)
  also have "\<dots> = of_bool (n = i + j)" by auto
  finally show ?thesis by (simp add: clbit_def)
qed

lemma monomial_big: "LENGTH('a) \<le> i \<Longrightarrow> (monomial i :: 'a::len word) = 0"
  by (rule bit_word_eqI) auto

lemma shift_monomial:
  "push_bit k (monomial i :: 'a::len word) = monomial (i + k)"
  "drop_bit k (monomial i :: 'a::len word) = (if k \<le> i \<and> i < LENGTH('a) then monomial (i - k) else 0)"
  by (rule bit_word_eqI; auto simp: bit_push_bit_iff bit_drop_bit_eq)+

locale reduction =
  fixes R :: "'a::len word" and fold_hi :: "'a word \<Rightarrow> 'a word"
  assumes additive_fold: "additive fold_hi"
    and fold_monomial: "i < LENGTH('a) \<Longrightarrow> fold_hi (monomial i) = (xtimes R ^^ (LENGTH('a) + i)) 1"
begin

text \<open>Routines that compute the two halves of the carry-less product, followed by the fold, multiply.\<close>

lemma reduce_product:
  assumes lo: "\<And>a b n. n < LENGTH('a) \<Longrightarrow> bit (lo a b) n \<longleftrightarrow> clbit a b n"
    and hi: "\<And>a b n. n < LENGTH('a) \<Longrightarrow> bit (hi a b) n \<longleftrightarrow> clbit a b (LENGTH('a) + n)"
  shows "lo a b XOR fold_hi (hi a b) = gf_mul R a b"
proof -
  have add: "additive (lo a)" "additive (\<lambda>a. lo a b)" "additive (hi a)" "additive (\<lambda>a. hi a b)" for a b
    unfolding additive_def by (auto intro!: bit_word_eqI simp: bit_xor_iff lo hi clbit_xor_left clbit_xor_right)
  note both = additive_xor [OF add(1) additive_comp [OF additive_fold add(3)]]
    additive_xor [OF add(2) additive_comp [OF additive_fold add(4)]]
  have basis: "lo (monomial i) (monomial j) XOR fold_hi (hi (monomial i) (monomial j)) = gf_mul R (monomial i) (monomial j)"
    if ij: "i < LENGTH('a)" "j < LENGTH('a)" for i j
  proof -
    have l: "lo (monomial i) (monomial j) = monomial (i + j)"
      by (rule bit_word_eqI) (auto simp: lo clbit_monomial ij)
    have h: "hi (monomial i) (monomial j) = (if i + j < LENGTH('a) then 0 else monomial (i + j - LENGTH('a)))"
      by (rule bit_word_eqI) (use ij in \<open>auto simp: hi clbit_monomial\<close>)
    show ?thesis
    proof (cases "i + j < LENGTH('a)")
      case True
      then show ?thesis using l h ij by (simp add: additive_0 [OF additive_fold] gf_mul_monomials xpow_one)
    next
      case False
      then show ?thesis using l h ij fold_monomial [of "i + j - LENGTH('a)"]
        by (simp add: gf_mul_monomials monomial_big)
    qed
  qed
  show ?thesis
  proof (rule additive_eqI [where f = "\<lambda>b. lo a b XOR fold_hi (hi a b)", OF both(1) additive_gf_right])
    fix j :: nat assume j: "j < LENGTH('a)"
    show "lo a (monomial j) XOR fold_hi (hi a (monomial j)) = gf_mul R a (monomial j)"
      by (rule additive_eqI [where f = "\<lambda>a. lo a (monomial j) XOR fold_hi (hi a (monomial j))", OF both(2) additive_gf_left])
        (rule basis [OF _ j])
  qed
qed

end

section \<open>Powers\<close>

primrec gpow :: "'a::len word \<Rightarrow> 'a word \<Rightarrow> nat \<Rightarrow> 'a word" where
  "gpow R a 0 = 1"
| "gpow R a (Suc k) = gf_mul R a (gpow R a k)"

definition gsq :: "'a::len word \<Rightarrow> 'a word \<Rightarrow> 'a word" where
  "gsq R a = gf_mul R a a"

lemma gf_mul_one_left: "gf_mul R 1 a = a" for a :: "'a::len word"
  by (simp add: gf_mul_commute [of R 1] gf_mul_one)

lemma gf_mul_left_commute: "gf_mul R a (gf_mul R b c) = gf_mul R b (gf_mul R a c)" for a b c :: "'a::len word"
  by (metis gf_mul_assoc gf_mul_commute)

lemmas gf_mul_ac = gf_mul_assoc gf_mul_commute gf_mul_left_commute

lemma gpow_add: "gpow R a (m + k) = gf_mul R (gpow R a m) (gpow R a k)"
  by (induction m) (simp_all add: gf_mul_one_left gf_mul_assoc)

lemma gpow_mul: "gpow R (gf_mul R a b) k = gf_mul R (gpow R a k) (gpow R b k)"
  by (induction k) (simp_all add: gf_mul_one gf_mul_ac)

lemma gpow_gsq: "gpow R (gsq R a) k = gsq R (gpow R a k)"
  by (simp add: gsq_def gpow_mul)

lemma gsq_funpow: "(gsq R ^^ k) a = gpow R a (2 ^ k)"
  by (induction k) (simp_all add: gf_mul_one gsq_def gpow_add mult_2)

lemma gpow_funpow: "gpow R ((gsq R ^^ n) a) k = (gsq R ^^ n) (gpow R a k)"
  by (induction n) (simp_all add: gpow_gsq)

lemma additive_gsq: "additive (gsq R)"
  by (auto simp: additive_def gsq_def gf_mul_xor gf_mul_commute [of R] xor_simps word_xor_ac)

lemma gpow_x: "i < LENGTH('a::len) \<Longrightarrow> 2 \<le> LENGTH('a) \<Longrightarrow> gpow R (monomial 1 :: 'a word) i = monomial i"
proof (induction i)
  case (Suc i)
  have "gf_mul R (monomial 1 :: 'a word) (monomial i) = (xtimes R ^^ Suc i) 1"
    using gf_mul_monomials [of 1 i R] Suc.prems by simp
  then show ?case using Suc xpow_one [of "Suc i" R] by (simp del: One_nat_def funpow.simps)
qed (simp add: monomial_0)

section \<open>Inversion\<close>

text \<open>The loop of the code: square, and multiply the squares.\<close>

fun inverse_loop :: "('w \<Rightarrow> 'w) \<Rightarrow> ('w \<Rightarrow> 'w \<Rightarrow> 'w) \<Rightarrow> nat \<Rightarrow> 'w \<Rightarrow> 'w \<Rightarrow> 'w" where
  "inverse_loop sq mul 0 y out = out"
| "inverse_loop sq mul (Suc k) y out = (let y = sq y in inverse_loop sq mul k y (mul out y))"

lemma inverse_loop_gpow:
  "inverse_loop (gsq R) (gf_mul R) k (gpow R a (2 ^ j)) (gpow R a m) = gpow R a (m + 2 ^ (j + 1) * (2 ^ k - 1))"
proof (induction k arbitrary: j m)
  case (Suc k)
  have sq: "gsq R (gpow R a (2 ^ j)) = gpow R a (2 ^ (j + 1))" by (simp add: gsq_def mult_2 flip: gpow_add)
  have "2 ^ (j + 1) + 2 ^ (j + 2) * (2 ^ k - 1) = (2 :: nat) ^ (j + 1) * (2 ^ Suc k - 1)"
    by (simp add: algebra_simps)
  then show ?case using Suc.IH [of "j + 1" "m + 2 ^ (j + 1)"]
    by (simp add: Let_def sq del: power_Suc add_2_eq_Suc' flip: gpow_add) (simp add: add.assoc)
qed simp

locale binary_field =
  fixes R :: "'a::len word" and L :: "'a word \<Rightarrow> 'a word"
  assumes degree: "2 \<le> LENGTH('a)"
    and frobenius: "(gsq R ^^ LENGTH('a)) (monomial 1) = monomial 1"
    and additive_L: "additive L"
    and L_monomial: "0 < i \<Longrightarrow> i < LENGTH('a) \<Longrightarrow> L (gsq R (monomial i) XOR monomial i) = monomial i"
begin

lemma fixed: "gpow R a (2 ^ LENGTH('a)) = a"
proof -
  have "(gsq R ^^ LENGTH('a)) a = a"
  proof (rule additive_eqI [OF additive_funpow [OF additive_gsq] additive_id])
    fix i :: nat assume "i < LENGTH('a)"
    then show "(gsq R ^^ LENGTH('a)) (monomial i) = monomial i"
      using gpow_funpow [of R "LENGTH('a)" "monomial 1" i] degree by (simp add: frobenius gpow_x del: One_nat_def)
  qed
  then show ?thesis by (simp add: gsq_funpow)
qed

text \<open>An idempotent element is 0 or 1.\<close>

lemma idempotent: "gsq R e = e \<Longrightarrow> e = 0 \<or> e = 1"
proof -
  assume e: "gsq R e = e"
  have "L (gsq R e XOR e) = e AND NOT 1"
  proof (rule additive_eqI [where f = "\<lambda>e. L (gsq R e XOR e)"])
    show "additive (\<lambda>e. L (gsq R e XOR e))"
      by (intro additive_comp [OF additive_L] additive_xor additive_gsq additive_id)
    show "additive (\<lambda>e :: 'a word. e AND NOT 1)"
      by (auto simp: additive_def intro!: bit_word_eqI simp: bit_simps)
    fix i :: nat assume i: "i < LENGTH('a)"
    show "L (gsq R (monomial i) XOR monomial i) = monomial i AND NOT 1"
    proof (cases "i = 0")
      case True
      then show ?thesis by (simp add: monomial_0 gsq_def gf_mul_one additive_0 [OF additive_L])
    next
      case False
      then show ?thesis using L_monomial [of i] i by (auto intro!: bit_word_eqI simp: bit_simps)
    qed
  qed
  then have "e AND NOT 1 = 0" by (simp add: e additive_0 [OF additive_L])
  then have "bit (e AND NOT 1) n \<longleftrightarrow> False" for n by simp
  then have n: "\<not> bit e n" if "0 < n" "n < LENGTH('a)" for n using that by (auto simp: bit_simps)
  have "e = (if bit e 0 then 1 else 0)"
  proof (rule bit_word_eqI)
    fix i assume "i < LENGTH('a)"
    then show "bit e i \<longleftrightarrow> bit (if bit e 0 then 1 else 0 :: 'a word) i" using n [of i] by (cases "i = 0") (auto simp: bit_1_iff)
  qed
  then show ?thesis by (metis (full_types))
qed

lemma fermat: "a \<noteq> 0 \<Longrightarrow> gf_mul R a (gpow R a (2 ^ LENGTH('a) - 2)) = 1"
proof -
  assume a: "a \<noteq> 0"
  define N :: nat where "N = 2 ^ LENGTH('a) - 2"
  have two: "(2 :: nat) \<le> 2 ^ LENGTH('a)" using degree self_le_power [of 2 "LENGTH('a)"] by simp
  then have N: "2 ^ LENGTH('a) = N + 2" by (simp add: N_def)
  have a_fix: "gf_mul R a (gf_mul R a (gpow R a N)) = a" using fixed [of a] unfolding N by simp
  define e where "e = gf_mul R a (gpow R a N)"
  have "gsq R e = gf_mul R (gf_mul R a e) (gpow R a N)" by (simp add: gsq_def e_def gf_mul_ac)
  also have "\<dots> = e" using a_fix by (simp add: e_def)
  finally have "e = 0 \<or> e = 1" by (rule idempotent)
  moreover have "e \<noteq> 0" using a a_fix by (auto simp: e_def gf_mul_zero)
  ultimately show ?thesis by (simp add: e_def N_def)
qed

text \<open>The loop of the code inverts.\<close>

lemma inverse_correct:
  assumes "a \<noteq> 0"
  shows "gf_mul R a (inverse_loop (gsq R) (gf_mul R) (LENGTH('a) - 2) (gsq R a) (gsq R a)) = 1"
proof -
  have sq: "gsq R a = gpow R a (2 ^ 1)" "gsq R a = gpow R a 2" by (simp_all add: gsq_def gf_mul_one numeral_eq_Suc)
  have "2 + 2 ^ (1 + 1) * (2 ^ (LENGTH('a) - 2) - 1) = (2 :: nat) ^ LENGTH('a) - 2"
  proof -
    have "(2 :: nat) ^ LENGTH('a) = 2 ^ (1 + 1) * 2 ^ (LENGTH('a) - 2)" unfolding power_add [symmetric] using degree by (intro arg_cong2 [of _ _ _ _ power]) simp_all
    moreover obtain q where "(2 :: nat) ^ (LENGTH('a) - 2) = Suc q" by (metis gr0_conv_Suc zero_less_numeral zero_less_power)
    ultimately show ?thesis by simp
  qed
  then show ?thesis using fermat [OF assms] inverse_loop_gpow [of R "LENGTH('a) - 2" a 1 2]
    by (simp only: sq(1) [symmetric] sq(2) [symmetric])
qed

end

end
