(* ===== verification/Gf128.thy ===== *)
theory Gf128
  imports Gf2n
begin

text \<open>
  Multiplication of blocks is multiplication in the ring of polynomials over two elements modulo
  $x^{128} + x^7 + x^2 + x + 1$: the reduction of the code folds the upper half of a product back
  (\<open>reduction\<close>), and inner products may be reduced once at the end.
\<close>

definition GCM :: block where
  "GCM = 0x87"

section \<open>The reduction\<close>

definition fold_hi :: "block \<Rightarrow> block" where
  "fold_hi hi =
     (let h = hi XOR drop_bit 127 hi XOR drop_bit 126 hi XOR drop_bit 121 hi
      in h XOR push_bit 1 h XOR push_bit 2 h XOR push_bit 7 h)"

lemma additive_fold_hi: "additive fold_hi"
  unfolding fold_hi_def Let_def
  by (rule additive_comp [of "\<lambda>h. h XOR push_bit 1 h XOR push_bit 2 h XOR push_bit 7 h"])
    (intro additive_xor additive_id additive_push additive_drop)+

lemma join_sep: "join (fst (sep x)) (snd (sep x)) = x"
  by (rule bit_word_eqI) (auto simp: bit_join sep_def bit_simps)

lemma sep_xor: "fst (sep (x XOR y)) = fst (sep x) XOR fst (sep y)" "snd (sep (x XOR y)) = snd (sep x) XOR snd (sep y)"
  by (auto intro!: bit_word_eqI simp: sep_def bit_simps)

lemma reduce_gcm_fold: "reduce_gcm lo hi = lo XOR fold_hi hi"
proof -
  define x3 x2 where "x3 = fst (sep hi)" and "x2 = snd (sep hi)"
  define d where "d = x2 XOR drop_bit 63 x3 XOR drop_bit 62 x3 XOR drop_bit 57 x3"
  define h where "h = hi XOR drop_bit 127 hi XOR drop_bit 126 hi XOR drop_bit 121 hi"
  have j: "join x3 d = h"
    by (rule bit_word_eqI) (auto simp: bit_join d_def h_def x3_def x2_def sep_def bit_simps dest: bit_imp_le_length)
  have s: "x3 = fst (sep h)" "d = snd (sep h)"
    unfolding j [symmetric] by (auto intro!: bit_word_eqI simp: sep_def bit_join bit_simps)
  have "reduce_gcm lo hi = join (fst (sep (lo XOR fold_hi hi))) (snd (sep (lo XOR fold_hi hi)))"
    unfolding reduce_gcm_def case_prod_unfold Let_def x3_def [symmetric] x2_def [symmetric] d_def [symmetric] j
    by (simp add: sep_xor fold_hi_def Let_def h_def [symmetric] s [symmetric])
  then show ?thesis by (simp add: join_sep)
qed


lemma feedback: "GCM = monomial 0 XOR monomial 1 XOR monomial 2 XOR monomial 7"
  by (simp add: GCM_def monomial_def)

lemma xtimes_top: "xtimes GCM (monomial 127) = monomial 0 XOR monomial 1 XOR monomial 2 XOR monomial 7"
  unfolding feedback [symmetric] unfolding GCM_def by code_simp

lemma monomial_Suc:
  "(monomial (Suc 0) :: block) = monomial 1" "(monomial (Suc (Suc 0)) :: block) = monomial 2" "(monomial (Suc (Suc (Suc 0))) :: block) = monomial 3"
  by (simp_all add: numeral_eq_Suc)

lemma fold_hi_small: "i < 121 \<Longrightarrow> fold_hi (monomial i) = monomial i XOR monomial (i + 1) XOR monomial (i + 2) XOR monomial (i + 7)"
  unfolding fold_hi_def Let_def by (simp add: shift_monomial del: push_bit_Suc)

lemma fold_hi_value:
  "i < 128 \<Longrightarrow> fold_hi (monomial i) = (let h = (if i = 127 then monomial 127 XOR monomial 0 XOR monomial 1 XOR monomial 6
      else if i = 126 then monomial 126 XOR monomial 0 XOR monomial 5
      else if 121 \<le> i then monomial i XOR monomial (i - 121) else monomial i)
    in h XOR push_bit 1 h XOR push_bit 2 h XOR push_bit 7 h)"
  unfolding fold_hi_def Let_def by (auto simp: shift_monomial xor_simps monomial_Suc simp del: push_bit_Suc One_nat_def)

lemma fold_hi_top:
  "xtimes GCM (fold_hi (monomial 120)) = fold_hi (monomial 121)"
  "xtimes GCM (fold_hi (monomial 121)) = fold_hi (monomial 122)"
  "xtimes GCM (fold_hi (monomial 122)) = fold_hi (monomial 123)"
  "xtimes GCM (fold_hi (monomial 123)) = fold_hi (monomial 124)"
  "xtimes GCM (fold_hi (monomial 124)) = fold_hi (monomial 125)"
  "xtimes GCM (fold_hi (monomial 125)) = fold_hi (monomial 126)"
  "xtimes GCM (fold_hi (monomial 126)) = fold_hi (monomial 127)"
  by (simp_all add: fold_hi_value Let_def push_bit_xor shift_monomial monomial_big additiveD [OF additive_xtimes] xtimes_monomial xtimes_top
      monomial_Suc word_xor_ac xor_simps del: push_bit_Suc One_nat_def)

lemma fold_hi_monomial: "i < 128 \<Longrightarrow> fold_hi (monomial i) = (xtimes GCM ^^ (128 + i)) 1"
proof (induction i)
  case 0
  have "(xtimes GCM ^^ 128) 1 = xtimes GCM ((xtimes GCM ^^ 127) 1)" by (simp add: numeral_eq_Suc)
  also have "(xtimes GCM ^^ 127) 1 = monomial 127" by (rule xpow_one) simp
  finally have "(xtimes GCM ^^ (128 + 0)) 1 = GCM" by (simp add: xtimes_top del: One_nat_def flip: feedback)
  then show ?case by (simp add: GCM_def monomial_def fold_hi_def)
next
  case (Suc i)
  then have "(xtimes GCM ^^ (128 + Suc i)) 1 = xtimes GCM (fold_hi (monomial i))"
    by (simp only: add_Suc_right funpow.simps o_apply Suc_lessD)
  also have "\<dots> = fold_hi (monomial (Suc i))"
  proof (cases "i < 120")
    case True
    then show ?thesis
      by (simp add: fold_hi_small additiveD [OF additive_xtimes] xtimes_monomial)
  next
    case False
    with Suc.prems have "i \<in> {120, 121, 122, 123, 124, 125, 126}" by auto
    then show ?thesis using fold_hi_top by (elim insertE emptyE) simp_all
  qed
  finally show ?case ..
qed

interpretation gcm: reduction GCM fold_hi
  by unfold_locales (simp_all add: additive_fold_hi fold_hi_monomial)

section \<open>The code multiplies in the ring\<close>

lemma gfmul_eq: "gfmul a b = gf_mul GCM a b"
  using gcm.reduce_product [where lo = "\<lambda>a b. fst (block_clmul a b)" and hi = "\<lambda>a b. snd (block_clmul a b)"]
  by (simp add: gfmul_def case_prod_unfold reduce_gcm_fold block_clmul_bits [OF prod.collapse [symmetric]])

lemma gfmul_xor: "gfmul a (b XOR c) = gfmul a b XOR gfmul a c" "gfmul (a XOR b) c = gfmul a c XOR gfmul b c"
  by (simp_all add: gfmul_eq gf_mul_xor)

lemma gfmul_zero: "gfmul a 0 = 0" "gfmul 0 a = 0"
  by (simp_all add: gfmul_eq gf_mul_zero)

lemma gfmul_scale: "gfmul a (scale b x) = scale b (gfmul a x)" "gfmul (scale b x) a = scale b (gfmul x a)"
  by (cases b; simp add: gfmul_zero)+

lemma gfmul_commute: "gfmul a b = gfmul b a"
  by (simp add: gfmul_eq gf_mul_commute [of _ a])

lemma gfmul_assoc: "gfmul (gfmul a b) c = gfmul a (gfmul b c)"
  by (simp add: gfmul_eq gf_mul_assoc)

text \<open>
  C17. Multiplication of blocks, carry-less multiplication followed by the reduction, is the reference
  multiplication modulo $x^{128} + x^7 + x^2 + x + 1$, and makes the blocks a commutative ring with
  exclusive or as addition and \<open>Block::ONE\<close> as unit.
\<close>

theorem gfmul_ring:
  "gfmul a b = gf_mul GCM a b \<and> gfmul a b = gfmul b a \<and> gfmul (gfmul a b) c = gfmul a (gfmul b c) \<and>
   gfmul a (b XOR c) = gfmul a b XOR gfmul a c \<and> gfmul a BLOCK_ONE = a"
  using gfmul_commute [of a b] gfmul_assoc [of a b c] gfmul_xor(1) [of a b c] by (simp add: gfmul_eq gf_mul_one BLOCK_ONE_def)

section \<open>Inner products\<close>

fun inner :: "(block \<times> block) list \<Rightarrow> block" where
  "inner [] = 0"
| "inner ((x, y) # ps) = gfmul x y XOR inner ps"

lemma inn_prdt_fold:
  "(let p = fold (\<lambda>(x, y) acc. let t = block_clmul x y in (fst t XOR fst acc, snd t XOR snd acc)) ps (u, v) in reduce_gcm (fst p) (snd p)) =
   reduce_gcm u v XOR inner ps"
proof (induction ps arbitrary: u v)
  case (Cons p ps)
  obtain x y where p: "p = (x, y)" by (cases p)
  have "reduce_gcm (fst (block_clmul x y) XOR u) (snd (block_clmul x y) XOR v) = gfmul x y XOR reduce_gcm u v"
    by (simp add: gfmul_def case_prod_unfold reduce_gcm_fold additiveD [OF additive_fold_hi] word_xor_ac Let_def)
  then show ?case using Cons.IH by (simp add: p Let_def word_xor_ac)
qed (simp add: Let_def)

lemma inn_prdt_red_eq: "inn_prdt_red a b = (if length a = length b then Inr (inner (zip a b)) else Inl Panic)"
proof -
  have "reduce_gcm 0 0 = 0" by (simp add: reduce_gcm_fold additive_0 [OF additive_fold_hi])
  then show ?thesis
    using inn_prdt_fold [of "zip a b" 0 0]
    by (simp add: inn_prdt_red_def inn_prdt_no_red_def BLOCK_ZERO_def case_prod_unfold Let_def)
qed

text \<open>
  The inner product that reduces once at the end equals the sum of the reduced products; vectors
  of different lengths panic.
\<close>

theorem inn_prdt_red_correct:
  "inn_prdt_red a b = (if length a = length b then Inr (inner (zip a b)) else Inl Panic)"
  by (rule inn_prdt_red_eq)

end
