(* ===== verification/Bin_Fields.thy ===== *)
theory Bin_Fields
  imports Gf128
begin

text \<open>
  The binary fields of the \<open>fields\<close> crate: carry-less multiplication (\<open>bmul.rs\<close>), the spreading of
  bits (\<open>spread.rs\<close>) and the portable backends of GF(2^64) (\<open>gf2_64/soft.rs\<close>) and GF(2^128)
  (\<open>gf2_128/soft.rs\<close>).  Multiplication, squaring and inner products are compared with the reference
  multiplication modulo the polynomials $x^{64} + x^4 + x^3 + x + 1$ and $x^{128} + x^7 + x^2 + x + 1$.
\<close>

section \<open>Carry-less multiplication\<close>

definition bmul64_lo :: "64 word \<Rightarrow> 64 word \<Rightarrow> 64 word" where
  "bmul64_lo x y =
     (let a0 = x AND 0x1111111111111111;
          a1 = x AND 0x2222222222222222;
          a2 = x AND 0x4444444444444444;
          a3 = x AND 0x8888888888888888;
          b0 = y AND 0x1111111111111111;
          b1 = y AND 0x2222222222222222;
          b2 = y AND 0x4444444444444444;
          b3 = y AND 0x8888888888888888;
          z0 = (a0 * b0) XOR (a1 * b3) XOR (a2 * b2) XOR (a3 * b1);
          z1 = (a0 * b1) XOR (a1 * b0) XOR (a2 * b3) XOR (a3 * b2);
          z2 = (a0 * b2) XOR (a1 * b1) XOR (a2 * b0) XOR (a3 * b3);
          z3 = (a0 * b3) XOR (a1 * b2) XOR (a2 * b1) XOR (a3 * b0);
          z0 = z0 AND 0x1111111111111111;
          z1 = z1 AND 0x2222222222222222;
          z2 = z2 AND 0x4444444444444444;
          z3 = z3 AND 0x8888888888888888
      in z0 OR z1 OR z2 OR z3)"

text \<open>\<open>u64::swap_bytes\<close>.\<close>

definition swap_bytes :: "64 word \<Rightarrow> 64 word" where
  "swap_bytes x =
     push_bit 56 (x AND 0xff) OR push_bit 40 (x AND 0xff00) OR push_bit 24 (x AND 0xff0000) OR push_bit 8 (x AND 0xff000000) OR
     (drop_bit 8 x AND 0xff000000) OR (drop_bit 24 x AND 0xff0000) OR (drop_bit 40 x AND 0xff00) OR (drop_bit 56 x AND 0xff)"

definition field_rev64 :: "64 word \<Rightarrow> 64 word" where
  "field_rev64 x =
     (let x = push_bit 1 (x AND 0x5555555555555555) OR (drop_bit 1 x AND 0x5555555555555555);
          x = push_bit 2 (x AND 0x3333333333333333) OR (drop_bit 2 x AND 0x3333333333333333);
          x = push_bit 4 (x AND 0x0f0f0f0f0f0f0f0f) OR (drop_bit 4 x AND 0x0f0f0f0f0f0f0f0f)
      in swap_bytes x)"

definition bmul64_full :: "64 word \<Rightarrow> 64 word \<Rightarrow> 64 word \<times> 64 word" where
  "bmul64_full x y =
     (let lo = bmul64_lo x y; hi = drop_bit 1 (field_rev64 (bmul64_lo (field_rev64 x) (field_rev64 y))) in (lo, hi))"

definition bmul128_full :: "128 word \<Rightarrow> 128 word \<Rightarrow> 128 word \<times> 128 word" where
  "bmul128_full a b =
     (let a_lo = ucast a; a_hi = ucast (drop_bit 64 a);
          b_lo = ucast b; b_hi = ucast (drop_bit 64 b);
          (p00_lo, p00_hi) = bmul64_full a_lo b_lo;
          (p11_lo, p11_hi) = bmul64_full a_hi b_hi;
          (p01_lo, p01_hi) = bmul64_full a_lo b_hi;
          (p10_lo, p10_hi) = bmul64_full a_hi b_lo;
          mid_lo = p01_lo XOR p10_lo;
          mid_hi = p01_hi XOR p10_hi;
          p00 = push_bit 64 (ucast p00_hi) OR ucast p00_lo;
          p11 = push_bit 64 (ucast p11_hi) OR ucast p11_lo;
          lo = p00 XOR push_bit 64 (ucast mid_lo);
          hi = p11 XOR ucast mid_hi
      in (lo, hi))"

definition bit_spread_u32 :: "32 word \<Rightarrow> 64 word" where
  "bit_spread_u32 x =
     (let x = ucast x;
          x = (x OR push_bit 16 x) AND 0x0000FFFF0000FFFF;
          x = (x OR push_bit 8 x) AND 0x00FF00FF00FF00FF;
          x = (x OR push_bit 4 x) AND 0x0F0F0F0F0F0F0F0F;
          x = (x OR push_bit 2 x) AND 0x3333333333333333;
          x = (x OR push_bit 1 x) AND 0x5555555555555555
      in x)"

section \<open>GF(2^128)\<close>

definition reduce128 :: "128 word \<Rightarrow> 128 word \<Rightarrow> 128 word" where
  "reduce128 lo hi =
     (let folded_lo = hi XOR push_bit 1 hi XOR push_bit 2 hi XOR push_bit 7 hi;
          overflow = drop_bit 127 hi XOR drop_bit 126 hi XOR drop_bit 121 hi;
          overflow_folded = overflow XOR push_bit 1 overflow XOR push_bit 2 overflow XOR push_bit 7 overflow
      in lo XOR folded_lo XOR overflow_folded)"

definition mul128 :: "128 word \<Rightarrow> 128 word \<Rightarrow> 128 word" where
  "mul128 a b = (let (lo, hi) = bmul128_full a b in reduce128 lo hi)"

definition square128 :: "128 word \<Rightarrow> 128 word" where
  "square128 a =
     (let a_ll = bit_spread_u32 (ucast a);
          a_lh = bit_spread_u32 (ucast (drop_bit 32 a));
          a_hl = bit_spread_u32 (ucast (drop_bit 64 a));
          a_hh = bit_spread_u32 (ucast (drop_bit 96 a));
          lo = push_bit 64 (ucast a_lh) OR ucast a_ll;
          hi = push_bit 64 (ucast a_hh) OR ucast a_hl
      in reduce128 lo hi)"

definition inverse128 :: "128 word \<Rightarrow> 128 word" where
  "inverse128 a = (let y = square128 a in inverse_loop square128 mul128 126 y y)"

definition inner_product128 :: "128 word list \<Rightarrow> 128 word list \<Rightarrow> 128 word" where
  "inner_product128 a b =
     (let (acc_lo, acc_hi) = fold (\<lambda>(x, y) (acc_lo, acc_hi).
            let (lo, hi) = bmul128_full x y in (acc_lo XOR lo, acc_hi XOR hi)) (zip a b) (0, 0)
      in reduce128 acc_lo acc_hi)"

definition double_inner_product128 :: "128 word list \<Rightarrow> 128 word list \<Rightarrow> 128 word list \<Rightarrow> 128 word" where
  "double_inner_product128 a b c =
     (let (acc_lo, acc_hi) = fold (\<lambda>((x, y), z) (acc_lo, acc_hi).
            let (xy_lo, xy_hi) = bmul128_full x y; xy = reduce128 xy_lo xy_hi; (p_lo, p_hi) = bmul128_full xy z
            in (acc_lo XOR p_lo, acc_hi XOR p_hi)) (zip (zip a b) c) (0, 0)
      in reduce128 acc_lo acc_hi)"

section \<open>GF(2^64)\<close>

definition reduce64 :: "64 word \<Rightarrow> 64 word \<Rightarrow> 64 word" where
  "reduce64 lo hi =
     (let folded_lo = hi XOR push_bit 1 hi XOR push_bit 3 hi XOR push_bit 4 hi;
          overflow = drop_bit 63 hi XOR drop_bit 61 hi XOR drop_bit 60 hi;
          overflow_folded = overflow XOR push_bit 1 overflow XOR push_bit 3 overflow XOR push_bit 4 overflow
      in lo XOR folded_lo XOR overflow_folded)"

definition mul64 :: "64 word \<Rightarrow> 64 word \<Rightarrow> 64 word" where
  "mul64 a b = (let (lo, hi) = bmul64_full a b in reduce64 lo hi)"

definition square64 :: "64 word \<Rightarrow> 64 word" where
  "square64 a =
     (let lo = bit_spread_u32 (ucast a); hi = bit_spread_u32 (ucast (drop_bit 32 a)) in reduce64 lo hi)"

definition inverse64 :: "64 word \<Rightarrow> 64 word" where
  "inverse64 a = (let y = square64 a in inverse_loop square64 mul64 62 y y)"

definition inner_product64 :: "64 word list \<Rightarrow> 64 word list \<Rightarrow> 64 word" where
  "inner_product64 a b =
     (let (acc_lo, acc_hi) = fold (\<lambda>(x, y) (acc_lo, acc_hi).
            let (lo, hi) = bmul64_full x y in (acc_lo XOR lo, acc_hi XOR hi)) (zip a b) (0, 0)
      in reduce64 acc_lo acc_hi)"

definition double_inner_product64 :: "64 word list \<Rightarrow> 64 word list \<Rightarrow> 64 word list \<Rightarrow> 64 word" where
  "double_inner_product64 a b c =
     (let (acc_lo, acc_hi) = fold (\<lambda>((x, y), z) (acc_lo, acc_hi).
            let (xy_lo, xy_hi) = bmul64_full x y; xy = reduce64 xy_lo xy_hi; (p_lo, p_hi) = bmul64_full xy z
            in (acc_lo XOR p_lo, acc_hi XOR p_hi)) (zip (zip a b) c) (0, 0)
      in reduce64 acc_lo acc_hi)"

section \<open>The products are exact\<close>

lemma bmul64_lo_eq: "bmul64_lo = bmul64"
  by (intro ext) (simp only: bmul64_lo_def bmul64_def)

lemma byte_masks:
  "bit (0xff :: 64 word) i \<longleftrightarrow> i < 64 \<and> i < 8"
  "bit (0xff00 :: 64 word) i \<longleftrightarrow> i < 64 \<and> 8 \<le> i \<and> i < 16"
  "bit (0xff0000 :: 64 word) i \<longleftrightarrow> i < 64 \<and> 16 \<le> i \<and> i < 24"
  "bit (0xff000000 :: 64 word) i \<longleftrightarrow> i < 64 \<and> 24 \<le> i \<and> i < 32"
  by (rule bit_finite, code_simp)+

lemma swap_bytes_bit: "i < 64 \<Longrightarrow> bit (swap_bytes x) i \<longleftrightarrow> bit x (8 * (7 - i div 8) + i mod 8)"
proof -
  assume i: "i < 64"
  define q r where "q = i div 8" and "r = i mod 8"
  have iq: "i = 8 * q + r" "r < 8" "q < 8" using i by (auto simp: q_def r_def)
  have "q \<in> {0, 1, 2, 3, 4, 5, 6, 7}" using iq(3) by auto
  then have "bit (swap_bytes x) (8 * q + r) \<longleftrightarrow> bit x (8 * (7 - q) + r)"
    unfolding swap_bytes_def bit_or_iff bit_and_iff bit_push_bit_iff bit_drop_bit_eq byte_masks o_apply
    using iq(2) by (elim insertE emptyE) simp_all
  then show ?thesis by (simp add: q_def r_def)
qed

lemma field_rev64_eq: "field_rev64 x = rev64 x"
proof (rule bit_word_eqI)
  fix i assume "i < LENGTH(64)"
  then have i: "i < 64" by simp
  let ?j = "8 * (7 - i div 8) + i mod 8"
  note r = swap_round [OF swap_mask_bits(1) zero_less_one] swap_round [OF swap_mask_bits(2) zero_less_numeral]
    swap_round [OF swap_mask_bits(3) zero_less_numeral]
  have e: "swap_idx t 0 = t" "swap_idx t (Suc 0) = (if even (Suc 0 div t) then Suc 0 + t else Suc 0 - t)"
    "swap_idx t (numeral k) = (if even (numeral k div t) then numeral k + t else numeral k - t)" for t k
    by (simp_all add: swap_idx_def)
  have e3: "swap_idx (Suc 0) (Suc (Suc (Suc 0))) = 2" "swap_idx 4 (Suc (Suc 0)) = 6" "swap_idx 4 (Suc (Suc (Suc 0))) = 7"
    by (simp_all add: swap_idx_def)
  have "list_all (\<lambda>i. 8 * (7 - i div 8) + i mod 8 < 64 \<and> swap_idx 4 (8 * (7 - i div 8) + i mod 8) < 64 \<and>
      swap_idx 2 (swap_idx 4 (8 * (7 - i div 8) + i mod 8)) < 64 \<and>
      swap_idx 1 (swap_idx 2 (swap_idx 4 (8 * (7 - i div 8) + i mod 8))) = 63 - i) [0..<64]"
    by (simp add: upt_rec [of _ 64] e e3)
  then have j: "?j < 64" "swap_idx 4 ?j < 64" "swap_idx 2 (swap_idx 4 ?j) < 64" "swap_idx 1 (swap_idx 2 (swap_idx 4 ?j)) = 63 - i"
    using i unfolding list_all_iff by auto
  show "bit (field_rev64 x) i \<longleftrightarrow> bit (rev64 x) i"
    unfolding field_rev64_def Let_def using j by (simp only: swap_bytes_bit [OF i] rev64_bit [OF i] r)
qed

lemma bmul64_full_bits:
  assumes "n < 64"
  shows "bit (fst (bmul64_full x y)) n \<longleftrightarrow> clbit x y n" "bit (snd (bmul64_full x y)) n \<longleftrightarrow> clbit x y (64 + n)"
  using assms by (simp_all add: bmul64_full_def Let_def bmul64_lo_eq field_rev64_eq bmul64_bit bmul64_rev [unfolded One_nat_def])

lemma bmul128_full_bits:
  assumes n: "n < 128"
  shows "bit (fst (bmul128_full a b)) n \<longleftrightarrow> clbit a b n" "bit (snd (bmul128_full a b)) n \<longleftrightarrow> clbit a b (128 + n)"
proof -
  have j: "push_bit 64 (ucast u) OR ucast l = join u l" for u l by (simp add: join_def)
  have u: "bit (ucast (w :: 64 word) :: 128 word) n \<longleftrightarrow> n < 64 \<and> bit w n" for w
    using n by (auto simp: bit_simps dest: bit_imp_le_length)
  have p: "bit (push_bit 64 (ucast (w :: 64 word)) :: 128 word) n \<longleftrightarrow> 64 \<le> n \<and> bit w (n - 64)" for w
    using n by (auto simp: bit_simps dest: bit_imp_le_length)
  show "bit (fst (bmul128_full a b)) n \<longleftrightarrow> clbit a b n"
    unfolding bmul128_full_def Let_def case_prod_unfold fst_conv j bit_xor_iff bit_join p clbit_split [of a b n]
    using n by (auto simp: bmul64_full_bits)
  have h: "\<not> clbit x y (64 + n)" if "64 \<le> n" for x y :: "64 word"
    by (rule clbit_high) (use that in simp)
  have k: "\<not> clbit x y (128 + n)" for x y :: "64 word"
    by (rule clbit_high) simp
  show "bit (snd (bmul128_full a b)) n \<longleftrightarrow> clbit a b (128 + n)"
    unfolding bmul128_full_def Let_def case_prod_unfold snd_conv j bit_xor_iff bit_join u clbit_split [of a b "128 + n"]
    using n h k by (cases "n < 64") (simp_all add: bmul64_full_bits, blast)
qed

section \<open>Squaring spreads the bits\<close>

text \<open>The state of the spreading when groups of \<open>w\<close> bits are followed by \<open>w\<close> zeros.\<close>

definition spread_inv :: "32 word \<Rightarrow> nat \<Rightarrow> 64 word \<Rightarrow> bool" where
  "spread_inv x0 w x \<longleftrightarrow> (\<forall>n < 64. bit x n \<longleftrightarrow> n mod (2 * w) < w \<and> bit x0 (w * (n div (2 * w)) + n mod (2 * w)))"

lemma spread_round:
  assumes inv: "spread_inv x0 w x" and w: "w = 2 * s" and s: "0 < s" and M: "\<And>n. bit M n \<longleftrightarrow> n < 64 \<and> n mod (2 * s) < s"
  shows "spread_inv x0 s ((x OR push_bit s x) AND M)"
  unfolding spread_inv_def
proof (intro allI impI)
  fix n :: nat assume n: "n < 64"
  define q r where "q = n div (2 * s)" and "r = n mod (2 * s)"
  have nq: "n = 2 * s * q + r" by (simp add: q_def r_def)
  have x: "bit x k \<longleftrightarrow> k mod (4 * s) < 2 * s \<and> bit x0 (2 * s * (k div (4 * s)) + k mod (4 * s))" if "k < 64" for k
    using inv that by (simp add: spread_inv_def w)
  have b: "bit ((x OR push_bit s x) AND M) n \<longleftrightarrow> r < s \<and> (bit x n \<or> s \<le> n \<and> bit x (n - s))"
    using n by (auto simp: bit_simps M r_def)
  have "bit x n \<or> s \<le> n \<and> bit x (n - s) \<longleftrightarrow> bit x0 (s * q + r)" if r: "r < s"
  proof (cases "even q")
    case True
    then obtain p where p: "q = 2 * p" by blast
    have "n = r + 4 * s * p" by (simp add: nq p)
    then have "n mod (4 * s) = r" "n div (4 * s) = p" using r s by simp_all
    then have l: "bit x n \<longleftrightarrow> bit x0 (s * q + r)" using r by (simp add: x [OF n] p mult.assoc mult.left_commute)
    have "\<not> bit x (n - s)" if "s \<le> n"
    proof -
      have "p \<noteq> 0" using that nq p r by (cases p) auto
      then obtain p' where "p = Suc p'" by (cases p) auto
      then have "n - s = (3 * s + r) + 4 * s * p'" by (simp add: nq p algebra_simps)
      then have "(n - s) mod (4 * s) = 3 * s + r" using r s by simp
      then show ?thesis using n by (simp add: x)
    qed
    with l show ?thesis by blast
  next
    case False
    then obtain p where p: "q = 2 * p + 1" by (metis oddE)
    have n1: "n = (2 * s + r) + 4 * s * p" by (simp add: nq p algebra_simps)
    then have "n mod (4 * s) = 2 * s + r" using r s by simp
    then have l: "\<not> bit x n" by (simp add: x [OF n])
    have n2: "n - s = (s + r) + 4 * s * p" "s \<le> n" using n1 by simp_all
    then have "(n - s) mod (4 * s) = s + r" "(n - s) div (4 * s) = p" using r s by simp_all
    then have "bit x (n - s) \<longleftrightarrow> bit x0 (s * q + r)" using r n by (simp add: x p algebra_simps)
    with l n2 show ?thesis by blast
  qed
  then show "bit ((x OR push_bit s x) AND M) n \<longleftrightarrow> n mod (2 * s) < s \<and> bit x0 (s * (n div (2 * s)) + n mod (2 * s))"
    unfolding b q_def [symmetric] r_def [symmetric] by blast
qed

lemma spread_masks:
  "bit (0x0000FFFF0000FFFF :: 64 word) n \<longleftrightarrow> n < 64 \<and> n mod (2 * 16) < 16"
  "bit (0x00FF00FF00FF00FF :: 64 word) n \<longleftrightarrow> n < 64 \<and> n mod (2 * 8) < 8"
  "bit (0x0F0F0F0F0F0F0F0F :: 64 word) n \<longleftrightarrow> n < 64 \<and> n mod (2 * 4) < 4"
  "bit (0x3333333333333333 :: 64 word) n \<longleftrightarrow> n < 64 \<and> n mod (2 * 2) < 2"
  "bit (0x5555555555555555 :: 64 word) n \<longleftrightarrow> n < 64 \<and> n mod (2 * 1) < 1"
  by (rule bit_finite, code_simp)+

lemma bit_spread_u32_bit: "n < 64 \<Longrightarrow> bit (bit_spread_u32 x) n \<longleftrightarrow> even n \<and> bit x (n div 2)"
proof -
  assume n: "n < 64"
  have i: "spread_inv x 32 (ucast x)"
    by (auto simp: spread_inv_def bit_simps dest: bit_imp_le_length)
  have e: "32 = 2 * (16 :: nat)" "16 = 2 * (8 :: nat)" "8 = 2 * (4 :: nat)" "4 = 2 * (2 :: nat)" "2 = 2 * (1 :: nat)" by simp_all
  note i = spread_round [OF i e(1) zero_less_numeral spread_masks(1)]
  note i = spread_round [OF i e(2) zero_less_numeral spread_masks(2)]
  note i = spread_round [OF i e(3) zero_less_numeral spread_masks(3)]
  note i = spread_round [OF i e(4) zero_less_numeral spread_masks(4)]
  note i = spread_round [OF i e(5) zero_less_one spread_masks(5)]
  have "spread_inv x 1 (bit_spread_u32 x)"
    using i unfolding bit_spread_u32_def Let_def .
  then show ?thesis using n by (auto simp: spread_inv_def even_iff_mod_2_eq_zero)
qed

section \<open>The code multiplies in the rings\<close>

text \<open>A square has the bits of its root at the even positions.\<close>

lemma clbit_self: "clbit a a n \<longleftrightarrow> even n \<and> bit a (n div 2)" for a :: "'a::len word"
proof -
  have P: "clbit (xsum (\<lambda>i. scale (c i) (monomial i)) k :: 'a word) (xsum (\<lambda>i. scale (c i) (monomial i)) k :: 'a word) n \<longleftrightarrow>
      even n \<and> bit (xsum (\<lambda>i. scale (c i) (monomial i)) k :: 'a word) (n div 2)" if "k \<le> LENGTH('a)" for k and c :: "nat \<Rightarrow> bool"
    using that
  proof (induction k)
    case 0
    then show ?case by (simp add: clbit_def conv_def)
  next
    case (Suc k)
    let ?x = "xsum (\<lambda>i. scale (c i) (monomial i)) k :: 'a word" and ?m = "scale (c k) (monomial k) :: 'a word"
    have m: "clbit ?m ?m n \<longleftrightarrow> even n \<and> bit ?m (n div 2)"
    proof (cases "c k")
      case True
      then show ?thesis using Suc.prems by (auto simp: clbit_monomial)
    qed (simp add: clbit_def conv_def)
    have "clbit (?x XOR ?m) (?x XOR ?m) n \<longleftrightarrow> clbit ?x ?x n \<noteq> clbit ?m ?m n"
      unfolding clbit_xor_left clbit_xor_right using clbit_commute [of ?x ?m n] by blast
    then show ?case using Suc m by (auto simp: bit_xor_iff)
  qed
  show ?thesis using P [of "LENGTH('a)" "bit a"] by (simp only: word_basis [symmetric] order_refl)
qed

lemma reduce128_fold: "reduce128 lo hi = lo XOR fold_hi hi"
  unfolding reduce128_def fold_hi_def Let_def push_bit_xor by (simp only: word_xor_ac)

lemma mul128_eq: "mul128 a b = gf_mul GCM a b"
  using gcm.reduce_product [where lo = "\<lambda>a b. fst (bmul128_full a b)" and hi = "\<lambda>a b. snd (bmul128_full a b)"]
  by (simp add: mul128_def case_prod_unfold reduce128_fold bmul128_full_bits)

lemma square128_eq: "square128 a = gsq GCM a"
proof -
  have j: "push_bit 64 (ucast u) OR ucast l = join u l" for u l by (simp add: join_def)
  define lo where "lo = join (bit_spread_u32 (ucast (drop_bit 32 a))) (bit_spread_u32 (ucast a))"
  define hi where "hi = join (bit_spread_u32 (ucast (drop_bit 96 a))) (bit_spread_u32 (ucast (drop_bit 64 a)))"
  have u: "bit (ucast w :: 32 word) n \<longleftrightarrow> n < 32 \<and> bit w n" for w :: "128 word" and n by (simp add: bit_simps)
  have half: "bit (join (bit_spread_u32 (ucast (drop_bit (k + 32) a))) (bit_spread_u32 (ucast (drop_bit k a)))) n \<longleftrightarrow>
      even n \<and> bit a (k + n div 2)" if "n < 128" for n k
  proof (cases "n < 64")
    case True
    then show ?thesis by (auto simp: bit_join bit_spread_u32_bit u bit_drop_bit_eq)
  next
    case False
    then have "(n - 64) div 2 + 32 = n div 2" "even (n - 64) \<longleftrightarrow> even n" by presburger+
    then show ?thesis using False that by (auto simp: bit_join bit_spread_u32_bit u bit_drop_bit_eq algebra_simps)
  qed
  have "lo = fst (bmul128_full a a)"
  proof (rule bit_word_eqI)
    fix n assume "n < LENGTH(128)"
    then show "bit lo n \<longleftrightarrow> bit (fst (bmul128_full a a)) n"
      using half [of n 0] by (simp add: lo_def bmul128_full_bits clbit_self)
  qed
  moreover have "hi = snd (bmul128_full a a)"
  proof (rule bit_word_eqI)
    fix n assume "n < LENGTH(128)"
    moreover have "(128 + n) div 2 = 64 + n div 2" by simp
    ultimately show "bit hi n \<longleftrightarrow> bit (snd (bmul128_full a a)) n"
      using half [of n 64] by (simp add: hi_def bmul128_full_bits clbit_self)
  qed
  ultimately have "reduce128 lo hi = mul128 a a" by (simp add: mul128_def case_prod_unfold Let_def)
  then show ?thesis
    by (simp only: square128_def Let_def j lo_def hi_def mul128_eq gsq_def)
qed

text \<open>The smaller field.\<close>

definition POLY64 :: "64 word" where
  "POLY64 = 0x1b"

definition fold64 :: "64 word \<Rightarrow> 64 word" where
  "fold64 hi =
     (let h = hi XOR drop_bit 63 hi XOR drop_bit 61 hi XOR drop_bit 60 hi
      in h XOR push_bit 1 h XOR push_bit 3 h XOR push_bit 4 h)"

lemma reduce64_fold: "reduce64 lo hi = lo XOR fold64 hi"
  unfolding reduce64_def fold64_def Let_def push_bit_xor by (simp only: word_xor_ac)

lemma additive_fold64: "additive fold64"
  unfolding fold64_def Let_def
  by (rule additive_comp [of "\<lambda>h. h XOR push_bit 1 h XOR push_bit 3 h XOR push_bit 4 h"])
    (intro additive_xor additive_id additive_push additive_drop)+

lemma feedback64: "POLY64 = monomial 0 XOR monomial 1 XOR monomial 3 XOR monomial 4"
  by (simp add: POLY64_def monomial_def)

lemma xtimes64_top: "xtimes POLY64 (monomial 63) = monomial 0 XOR monomial 1 XOR monomial 3 XOR monomial 4"
  unfolding feedback64 [symmetric] unfolding POLY64_def by code_simp

lemma fold64_small: "i < 60 \<Longrightarrow> fold64 (monomial i) = monomial i XOR monomial (i + 1) XOR monomial (i + 3) XOR monomial (i + 4)"
  unfolding fold64_def Let_def by (simp add: shift_monomial del: push_bit_Suc)

lemma monomial_Suc64:
  "(monomial (Suc 0) :: 64 word) = monomial 1" "(monomial (Suc (Suc 0)) :: 64 word) = monomial 2" "(monomial (Suc (Suc (Suc 0))) :: 64 word) = monomial 3"
  by (simp_all add: numeral_eq_Suc)

lemma fold64_value:
  "i < 64 \<Longrightarrow> fold64 (monomial i) = (let h = (if i = 63 then monomial 63 XOR monomial 0 XOR monomial 2 XOR monomial 3
      else if 61 \<le> i then monomial i XOR monomial (i - 61) XOR monomial (i - 60)
      else if i = 60 then monomial 60 XOR monomial 0 else monomial i)
    in h XOR push_bit 1 h XOR push_bit 3 h XOR push_bit 4 h)"
  unfolding fold64_def Let_def by (auto simp: shift_monomial xor_simps monomial_Suc64 simp del: push_bit_Suc One_nat_def)

lemma fold64_top:
  "xtimes POLY64 (fold64 (monomial 59)) = fold64 (monomial 60)"
  "xtimes POLY64 (fold64 (monomial 60)) = fold64 (monomial 61)"
  "xtimes POLY64 (fold64 (monomial 61)) = fold64 (monomial 62)"
  "xtimes POLY64 (fold64 (monomial 62)) = fold64 (monomial 63)"
  by (simp_all add: fold64_value Let_def push_bit_xor shift_monomial monomial_big additiveD [OF additive_xtimes] xtimes_monomial
      xtimes64_top monomial_Suc64 word_xor_ac xor_simps del: push_bit_Suc One_nat_def)

lemma fold64_monomial: "i < 64 \<Longrightarrow> fold64 (monomial i) = (xtimes POLY64 ^^ (64 + i)) 1"
proof (induction i)
  case 0
  have "(xtimes POLY64 ^^ 64) 1 = xtimes POLY64 ((xtimes POLY64 ^^ 63) 1)" by (simp add: numeral_eq_Suc)
  also have "(xtimes POLY64 ^^ 63) 1 = monomial 63" by (rule xpow_one) simp
  finally have "(xtimes POLY64 ^^ (64 + 0)) 1 = POLY64" by (simp add: xtimes64_top del: One_nat_def flip: feedback64)
  then show ?case by (simp add: POLY64_def monomial_def fold64_def)
next
  case (Suc i)
  then have "(xtimes POLY64 ^^ (64 + Suc i)) 1 = xtimes POLY64 (fold64 (monomial i))"
    by (simp only: add_Suc_right funpow.simps o_apply Suc_lessD)
  also have "\<dots> = fold64 (monomial (Suc i))"
  proof (cases "i < 59")
    case True
    then show ?thesis
      by (simp add: fold64_small additiveD [OF additive_xtimes] xtimes_monomial)
  next
    case False
    with Suc.prems have "i \<in> {59, 60, 61, 62}" by auto
    then show ?thesis using fold64_top by (elim insertE emptyE) simp_all
  qed
  finally show ?case ..
qed

interpretation g64: reduction POLY64 fold64
  by unfold_locales (simp_all add: additive_fold64 fold64_monomial)

lemma mul64_eq: "mul64 a b = gf_mul POLY64 a b"
  using g64.reduce_product [where lo = "\<lambda>a b. fst (bmul64_full a b)" and hi = "\<lambda>a b. snd (bmul64_full a b)"]
  by (simp add: mul64_def case_prod_unfold reduce64_fold bmul64_full_bits)

lemma square64_eq: "square64 a = gsq POLY64 a"
proof -
  have u: "bit (ucast w :: 32 word) n \<longleftrightarrow> n < 32 \<and> bit w n" for w :: "64 word" and n by (simp add: bit_simps)
  have "bit_spread_u32 (ucast a) = fst (bmul64_full a a)"
    by (rule bit_word_eqI) (auto simp: bit_spread_u32_bit u bmul64_full_bits clbit_self)
  moreover have "bit_spread_u32 (ucast (drop_bit 32 a)) = snd (bmul64_full a a)"
    by (rule bit_word_eqI) (auto simp: bit_spread_u32_bit u bmul64_full_bits clbit_self bit_drop_bit_eq)
  ultimately have "square64 a = mul64 a a" by (simp add: square64_def mul64_def case_prod_unfold Let_def)
  then show ?thesis by (simp add: mul64_eq gsq_def)
qed

section \<open>Inner products\<close>

text \<open>Accumulating the products and reducing once is the sum of the reduced products.\<close>

context reduction
begin

lemma reduce_sum:
  assumes lo: "\<And>a b n. n < LENGTH('a) \<Longrightarrow> bit (lo a b) n \<longleftrightarrow> clbit a b n"
    and hi: "\<And>a b n. n < LENGTH('a) \<Longrightarrow> bit (hi a b) n \<longleftrightarrow> clbit a b (LENGTH('a) + n)"
  shows "(let p = fold (\<lambda>q acc. (fst acc XOR lo (fst q) (snd q), snd acc XOR hi (fst q) (snd q))) qs (u, v) in fst p XOR fold_hi (snd p)) =
    fold (\<lambda>q acc. acc XOR gf_mul R (fst q) (snd q)) qs (u XOR fold_hi v)"
proof (induction qs arbitrary: u v)
  case (Cons q qs)
  have "(u XOR lo (fst q) (snd q)) XOR fold_hi (v XOR hi (fst q) (snd q)) =
      (u XOR fold_hi v) XOR gf_mul R (fst q) (snd q)"
    using reduce_product [where lo = lo and hi = hi, OF lo hi, of "fst q" "snd q"]
    by (simp add: additiveD [OF additive_fold] word_xor_ac flip: reduce_product [where lo = lo and hi = hi, OF lo hi])
  then show ?case using Cons.IH by simp
qed simp

end

lemma fold_reduce_zero: "fold_hi 0 = 0" "fold64 0 = 0"
  by (simp_all add: additive_0 [OF additive_fold_hi] additive_0 [OF additive_fold64])

lemma inner_product128_eq:
  "inner_product128 a b = fold (\<lambda>(x, y) acc. acc XOR mul128 x y) (zip a b) 0"
  using gcm.reduce_sum [where lo = "\<lambda>a b. fst (bmul128_full a b)" and hi = "\<lambda>a b. snd (bmul128_full a b)" and qs = "zip a b" and u = 0 and v = 0]
  by (simp add: inner_product128_def case_prod_unfold Let_def reduce128_fold bmul128_full_bits mul128_eq fold_reduce_zero)

lemma inner_product64_eq:
  "inner_product64 a b = fold (\<lambda>(x, y) acc. acc XOR mul64 x y) (zip a b) 0"
  using g64.reduce_sum [where lo = "\<lambda>a b. fst (bmul64_full a b)" and hi = "\<lambda>a b. snd (bmul64_full a b)" and qs = "zip a b" and u = 0 and v = 0]
  by (simp add: inner_product64_def case_prod_unfold Let_def reduce64_fold bmul64_full_bits mul64_eq fold_reduce_zero)

lemma fold_map_arg: "fold (\<lambda>q. f (g q)) qs = fold f (map g qs)"
  by (induction qs) simp_all

lemma double_inner_product128_eq:
  "double_inner_product128 a b c = fold (\<lambda>((x, y), z) acc. acc XOR mul128 (mul128 x y) z) (zip (zip a b) c) 0"
proof -
  let ?g = "\<lambda>((x, y), z). (mul128 x y, z)"
  have "double_inner_product128 a b c = inner_product128 (map (fst \<circ> ?g) (zip (zip a b) c)) (map (snd \<circ> ?g) (zip (zip a b) c))"
    unfolding double_inner_product128_def inner_product128_def zip_map_map zip_same_conv_map map_map mul128_def
    by (simp add: fold_map case_prod_unfold Let_def o_def)
  then show ?thesis
    by (simp add: inner_product128_eq zip_map_map zip_same_conv_map fold_map case_prod_unfold o_def)
qed

lemma double_inner_product64_eq:
  "double_inner_product64 a b c = fold (\<lambda>((x, y), z) acc. acc XOR mul64 (mul64 x y) z) (zip (zip a b) c) 0"
proof -
  let ?g = "\<lambda>((x, y), z). (mul64 x y, z)"
  have "double_inner_product64 a b c = inner_product64 (map (fst \<circ> ?g) (zip (zip a b) c)) (map (snd \<circ> ?g) (zip (zip a b) c))"
    unfolding double_inner_product64_def inner_product64_def zip_map_map zip_same_conv_map map_map mul64_def
    by (simp add: fold_map case_prod_unfold Let_def o_def)
  then show ?thesis
    by (simp add: inner_product64_eq zip_map_map zip_same_conv_map fold_map case_prod_unfold o_def)
qed

end
