(* ===== verification/Bin_Cert.thy ===== *)
theory Bin_Cert
  imports Bin_Fields
begin

text \<open>
  GF(2^64) and GF(2^128) are fields: certificates for the two polynomials, checked by evaluation.
  The first is the chain of squares that leads from \<open>x\<close> back to \<open>x\<close>; the second a linear map, given
  by its values on the monomials, that recovers \<open>a\<close> from $a^2 + a$ up to its constant coefficient.
\<close>

section \<open>Linear maps given by a table\<close>

definition table_map :: "'a::len word list \<Rightarrow> 'a word \<Rightarrow> 'a word" where
  "table_map T y = xsum (\<lambda>j. scale (bit y j) (T ! j)) LENGTH('a)"

lemma additive_table: "additive (table_map T)"
  unfolding additive_def table_map_def bit_xor_iff scale_xor xsum_xor by simp

lemma table_monomial: "j < LENGTH('a::len) \<Longrightarrow> table_map T (monomial j :: 'a word) = T ! j"
proof -
  assume j: "j < LENGTH('a)"
  have "table_map T (monomial j :: 'a word) = xsum (\<lambda>i. scale (i = j) (T ! i)) LENGTH('a)"
    unfolding table_map_def by (rule xsum_cong) (use j in auto)
  then show ?thesis using j by (simp add: xsum_single)
qed

fun evens :: "'a list \<Rightarrow> 'a list" where
  "evens [] = []"
| "evens [x] = [x]"
| "evens (x # y # xs) = x # evens xs"

lemma length_evens [simp]: "length (evens xs) = (length xs + 1) div 2"
  by (induction xs rule: evens.induct) simp_all

lemma nth_evens: "2 * i < length xs \<Longrightarrow> evens xs ! i = xs ! (2 * i)"
proof (induction xs arbitrary: i rule: evens.induct)
  case (3 x y xs)
  then show ?case by (cases i) simp_all
qed auto

section \<open>Squaring by steps\<close>

text \<open>The routines with their intermediate values named, in the form the evaluation uses.\<close>

definition spread_step :: "nat \<Rightarrow> 64 word \<Rightarrow> 64 word \<Rightarrow> 64 word" where
  "spread_step s M x = (x OR push_bit s x) AND M"

lemma spread_steps: "bit_spread_u32 x = spread_step 1 0x5555555555555555 (spread_step 2 0x3333333333333333
    (spread_step 4 0x0F0F0F0F0F0F0F0F (spread_step 8 0x00FF00FF00FF00FF (spread_step 16 0x0000FFFF0000FFFF (ucast x)))))"
  by (simp only: bit_spread_u32_def Let_def spread_step_def)

definition fold7 :: "block \<Rightarrow> block" where
  "fold7 h = h XOR push_bit 1 h XOR push_bit 2 h XOR push_bit 7 h"

definition over7 :: "block \<Rightarrow> block" where
  "over7 h = drop_bit 127 h XOR drop_bit 126 h XOR drop_bit 121 h"

lemma reduce128_steps: "reduce128 lo hi = lo XOR fold7 hi XOR fold7 (over7 hi)"
  by (simp only: reduce128_def Let_def fold7_def over7_def word_xor_ac)

lemma square128_steps: "square128 a = reduce128 (join (bit_spread_u32 (ucast (drop_bit 32 a))) (bit_spread_u32 (ucast a)))
    (join (bit_spread_u32 (ucast (drop_bit 96 a))) (bit_spread_u32 (ucast (drop_bit 64 a))))"
  by (simp only: square128_def Let_def join_def)

definition fold4 :: "64 word \<Rightarrow> 64 word" where
  "fold4 h = h XOR push_bit 1 h XOR push_bit 3 h XOR push_bit 4 h"

definition over4 :: "64 word \<Rightarrow> 64 word" where
  "over4 h = drop_bit 63 h XOR drop_bit 61 h XOR drop_bit 60 h"

lemma reduce64_steps: "reduce64 lo hi = lo XOR fold4 hi XOR fold4 (over4 hi)"
  by (simp only: reduce64_def Let_def fold4_def over4_def word_xor_ac)

lemma square64_steps: "square64 a = reduce64 (bit_spread_u32 (ucast a)) (bit_spread_u32 (ucast (drop_bit 32 a)))"
  by (simp only: square64_def Let_def)

lemmas square_eval = spread_steps spread_step_def join_def
  square128_steps reduce128_steps fold7_def over7_def square64_steps reduce64_steps fold4_def over4_def

lemma gsq_steps: "gsq GCM a = square128 a" "gsq POLY64 b = square64 b"
  by (simp_all add: square128_eq square64_eq)

lemma funpow_step: "(f ^^ numeral k) x = (f ^^ pred_numeral k) (f x)"
  by (simp add: numeral_eq_Suc funpow_swap1)

section \<open>GF(2^64)\<close>

lemma frobenius64_0: "(square64 ^^ 16) 0x2 = 0x15f0144001a114f"
  by (simp add: funpow_step square_eval)

lemma frobenius64_16: "(square64 ^^ 16) 0x15f0144001a114f = 0x5c62236777028505"
  by (simp add: funpow_step square_eval)

lemma frobenius64_32: "(square64 ^^ 16) 0x5c62236777028505 = 0xfa5ac498d20dd97e"
  by (simp add: funpow_step square_eval)

lemma frobenius64_48: "(square64 ^^ 16) 0xfa5ac498d20dd97e = 0x2"
  by (simp add: funpow_step square_eval)

definition ROOT64 :: "64 word list" where
  "ROOT64 = [0x19c9369f278adc02, 0x84b2b22ab2383ee4, 0x84b2b22ab2383ee6, 0x9d7b84b495b3e3f6, 0x84b2b22ab2383ee2,
     0x37c470b49213f790, 0x9d7b84b495b3e3fe, 0x1000a0105137c, 0x84b2b22ab2383ef2, 0x368e964a8edce1fc,
     0x37c470b49213f7b0, 0x19c9368e278fdf4c, 0x9d7b84b495b3e3be, 0x2e4da23cbc7d4570, 0x1000a010513fc,
     0x84f35772bac24232, 0x84b2b22ab2383ff2, 0x37c570ba9314e4fc, 0x368e964a8edce3fc, 0xb377c390213cdb0e,
     0x37c470b49213f3b0, 0x85ed5a3aa99c24f2, 0x19c9368e278fd74c, 0xaabff0000780000e, 0x9d7b84b495b3f3be,
     0x84b6b3dab03038f2, 0x2e4da23cbc7d6570, 0x511ea03494ffc, 0x1000a010553fc, 0xae0c0220343c6c0e,
     0x84f35772bac2c232, 0x800000008000000e, 0x84b2b22ab2393ff2, 0xb376c29c202bc97e, 0x37c570ba9316e4fc,
     0x9c3062488879e6ce, 0x368e964a8ed8e3fc, 0x41e42c08e47e70, 0xb377c3902134db0e, 0x85b9b108a60f56ce,
     0x37c470b49203f3b0, 0x19dd3b6e21f3cb4c, 0x85ed5a3aa9bc24f2, 0x198ddf682c428ac0, 0x19c9368e27cfd74c,
     0x4b7c68431ca84b0, 0xaabff0000700000e, 0x8040655489ffefbe, 0x9d7b84b494b3f3be, 0x18c1354e32bfa74c,
     0x84b6b3dab23038f2, 0xaaf613cc0f74627e, 0x2e4da23cb87d6570, 0x3248b3d6b3342a8c, 0x511ea0b494ffc,
     0xb60813c00e70700e, 0x1000a110553fc, 0x1e0d022a05393ffc, 0xae0c0220143c6c0e, 0xe0c0220143c6c00,
     0x84f35772fac2c232, 0x0, 0x800000000000000e, 0xc041e55948fbfdce]"

lemma frobenius64: "(gsq POLY64 ^^ 64) (monomial 1) = monomial 1"
proof -
  have sq: "gsq POLY64 = square64" by (intro ext) (simp only: gsq_steps)
  have "(square64 ^^ (16 + 16 + 16 + 16)) 0x2 = 0x2"
    unfolding funpow_add o_apply frobenius64_0 frobenius64_16 frobenius64_32 frobenius64_48 ..
  then show ?thesis by (simp add: sq monomial_def)
qed

lemma ROOT64_length: "length ROOT64 = 64"
  by (simp add: ROOT64_def)

lemma ROOT64_low: "tl (map2 (XOR) (evens ROOT64) ROOT64) = monomial 1 # map monomial [2..<32]"
  by (simp add: ROOT64_def upt_rec_numeral monomial_def)

lemma ROOT64_high:
  "map2 (XOR) (evens ROOT64) (map2 (XOR) (evens (drop 1 ROOT64)) (map2 (XOR) (evens (drop 3 ROOT64))
     (map2 (XOR) (evens (drop 4 ROOT64)) (drop 32 ROOT64)))) = map monomial [32..<62]"
  by (simp add: ROOT64_def upt_rec_numeral monomial_def)


lemma ROOT64_table:
  assumes "0 < i" "i < 64"
  shows "table_map ROOT64 (gsq POLY64 (monomial i) XOR monomial i) = monomial i"
proof -
  note L = additiveD [OF additive_table] table_monomial
  have sq: "gsq POLY64 (monomial i) = (xtimes POLY64 ^^ (i + i)) 1"
    using assms by (simp add: gsq_def gf_mul_monomials)
  have hi: "gsq POLY64 (monomial i) = fold64 (monomial (2 * i - 64))" if "32 \<le> i"
  proof -
    have ii: "i + i = 64 + (2 * i - 64)" using that by simp
    show ?thesis unfolding sq by (subst ii, rule fold64_monomial [symmetric]) (use assms in simp)
  qed
  consider "i < 32" | "32 \<le> i" "i < 62" | "i = 62" | "i = 63" using assms by linarith
  then show ?thesis
  proof cases
    case 1
    have t: "tl (map2 (XOR) (evens ROOT64) ROOT64) ! (i - 1) = ROOT64 ! (2 * i) XOR ROOT64 ! i"
      using 1 assms by (simp add: nth_tl nth_evens ROOT64_length)
    have e: "(monomial 1 :: 64 word) # map monomial [2..<32] = map monomial [1..<32]"
      by (simp add: upt_conv_Cons numeral_2_eq_2 del: upt_rec_numeral)
    have "((monomial 1 :: 64 word) # map monomial [2..<32]) ! (i - 1) = monomial i"
      unfolding e using 1 assms by (simp del: upt_rec_numeral)
    then have r: "ROOT64 ! (2 * i) XOR ROOT64 ! i = monomial i" using t unfolding ROOT64_low by (rule trans [OF sym, rotated])
    have "gsq POLY64 (monomial i) = monomial (2 * i)" using 1 by (simp add: sq xpow_one mult_2)
    then show ?thesis using 1 r by (simp add: L)
  next
    case 2
    define k where "k = i - 32"
    have k: "i = 32 + k" "k < 30" using 2 by (simp_all add: k_def)
    have "map2 (XOR) (evens ROOT64) (map2 (XOR) (evens (drop 1 ROOT64)) (map2 (XOR) (evens (drop 3 ROOT64))
       (map2 (XOR) (evens (drop 4 ROOT64)) (drop 32 ROOT64)))) ! k =
       ROOT64 ! (2 * k) XOR ROOT64 ! (2 * k + 1) XOR ROOT64 ! (2 * k + 3) XOR ROOT64 ! (2 * k + 4) XOR ROOT64 ! i"
      using k by (simp add: nth_evens ROOT64_length add.commute)
    moreover have "map monomial [32..<62] ! k = (monomial i :: 64 word)" using k by (simp del: upt_rec_numeral)
    ultimately have r: "ROOT64 ! (2 * k) XOR ROOT64 ! (2 * k + 1) XOR ROOT64 ! (2 * k + 3) XOR ROOT64 ! (2 * k + 4) XOR ROOT64 ! i = monomial i"
      unfolding ROOT64_high by simp
    have "gsq POLY64 (monomial i) = fold64 (monomial (2 * k))" using hi k by simp
    then have "table_map ROOT64 (gsq POLY64 (monomial i) XOR monomial i) =
        (ROOT64 ! (2 * k) XOR ROOT64 ! (2 * k + 1) XOR ROOT64 ! (2 * k + 3) XOR ROOT64 ! (2 * k + 4)) XOR ROOT64 ! i"
      using k by (simp add: fold64_small L del: One_nat_def)
    with r show ?thesis by (simp only: word_xor_ac)
  next
    case 3
    have "gsq POLY64 (monomial i) = fold64 (monomial 60)" using 3 hi by simp
    then show ?thesis using 3 by (simp add: fold64_value Let_def push_bit_xor shift_monomial monomial_big L ROOT64_def del: push_bit_Suc One_nat_def) (simp add: monomial_def)
  next
    case 4
    have "gsq POLY64 (monomial i) = fold64 (monomial 62)" using 4 hi by simp
    then show ?thesis using 4 by (simp add: fold64_value Let_def push_bit_xor shift_monomial monomial_big L ROOT64_def del: push_bit_Suc One_nat_def) (simp add: monomial_def)
  qed
qed

interpretation bf64: binary_field POLY64 "table_map ROOT64"
  by unfold_locales (simp_all add: frobenius64 [simplified] additive_table ROOT64_table)

lemma inverse64_correct: "a \<noteq> 0 \<Longrightarrow> gf_mul POLY64 a (inverse64 a) = 1"
proof -
  have "square64 = gsq POLY64" "mul64 = gf_mul POLY64" by (intro ext, simp only: square64_eq mul64_eq)+
  moreover assume "a \<noteq> 0"
  ultimately show ?thesis using bf64.inverse_correct [of a] by (simp add: inverse64_def Let_def)
qed

section \<open>GF(2^128)\<close>

lemma frobenius128_0: "(square128 ^^ 16) 0x2 = 0x1001001111110961118fe6196978ef70"
  by (simp add: funpow_step square_eval)

lemma frobenius128_16: "(square128 ^^ 16) 0x1001001111110961118fe6196978ef70 = 0x782d0a995dd3b01821777af80695052a"
  by (simp add: funpow_step square_eval)

lemma frobenius128_32: "(square128 ^^ 16) 0x782d0a995dd3b01821777af80695052a = 0xe316b61772920218fe1d7816d9eb81fd"
  by (simp add: funpow_step square_eval)

lemma frobenius128_48: "(square128 ^^ 16) 0xe316b61772920218fe1d7816d9eb81fd = 0x61651fea6b5832b944e598a795a299f6"
  by (simp add: funpow_step square_eval)

lemma frobenius128_64: "(square128 ^^ 16) 0x61651fea6b5832b944e598a795a299f6 = 0x79a3d532b4dca977042a87c2811ee47a"
  by (simp add: funpow_step square_eval)

lemma frobenius128_80: "(square128 ^^ 16) 0x79a3d532b4dca977042a87c2811ee47a = 0x40e2dfc1450698cadca8758ed620dd7b"
  by (simp add: funpow_step square_eval)

lemma frobenius128_96: "(square128 ^^ 16) 0x40e2dfc1450698cadca8758ed620dd7b = 0xc77a431b17442dc246bdf85b5f5764d5"
  by (simp add: funpow_step square_eval)

lemma frobenius128_112: "(square128 ^^ 16) 0xc77a431b17442dc246bdf85b5f5764d5 = 0x2"
  by (simp add: funpow_step square_eval)

definition ROOT128 :: "128 word list" where
  "ROOT128 = [0x295ac0b1f4731af9676aac9fa4b20b08, 0xe5da5595ee970b89929959af766af404, 0xe5da5595ee970b89929959af766af406,
     0x4e9826c74350bfe67783f7333404a20c, 0xe5da5595ee970b89929959af766af402, 0x2aaea79ad7da34b07dc714cb83074e6a,
     0x4e9826c74350bfe67783f7333404a204, 0xcc8095241ae41171f5f3f531d2d9fe18, 0xe5da5595ee970b89929959af766af412,
     0x4e983687d159ce9677cb862e8ac85b44, 0x2aaea79ad7da34b07dc714cb83074e4a, 0xaae2ab6aaf144aaff73fcb3c06aaff56,
     0x4e9826c74350bfe67783f7333404a244, 0xe62f327ccd5792dd893fe9ca40603f62, 0xcc8095241ae41171f5f3f531d2d9fe98,
     0xab52f0323f47c90be1336bc7d453b626, 0xe5da5595ee970b89929959af766af512, 0x2abe34bad75338b479a6a089abf4573a,
     0x4e983687d159ce9677cb862e8ac85944, 0x1e8ccb9dcc72f2e1a9cbef8232562fc, 0x2aaea79ad7da34b07dc714cb83074a4a,
     0x2442c3221f3dc1a0ce869b24a80e48c, 0xaae2ab6aaf144aaff73fcb3c06aaf756, 0xcf64612f39c4323deb3ff936dd9aa228,
     0x4e9826c74350bfe67783f7333404b244, 0xcc911696880d4909f0d5382a57572458, 0xe62f327ccd5792dd893fe9ca40601f62,
     0x4d7cd7cc29d28cf2697f6478e5db2834, 0xcc8095241ae41171f5f3f531d2d9be98, 0xccc99127569146a7fc0956ca1a5b86a4,
     0xab52f0323f47c90be1336bc7d4533626, 0x65cece94dacd5b1c14f5986b001eeb82, 0xe5da5595ee970b89929959af766bf512,
     0x2b0e7fa2d509ca746fe27169c7c3e73a, 0x2abe34bad75338b479a6a089abf6573a, 0x65df4d264824132411d3553885980142,
     0x4e983687d159ce9677cb862e8acc5944, 0xcf74f70e70ef2af7ef6fd21d2af671a4, 0x1e8ccb9dcc72f2e1a9cbef8232d62fc,
     0xcec4b9173b16cdf9f91a9d8499490f58, 0x2aaea79ad7da34b07dc714cb83174a4a, 0x83f16f99175f624799a6cf206b513bdc,
     0x2442c3221f3dc1a0ce869b24aa0e48c, 0x3f562a96a2aa9081b9e27ebe84671c0, 0xaae2ab6aaf144aaff73fcb3c06eaf756,
     0xccc9c07ae11bcce3fcd6d526cddeebd4, 0xcf64612f39c4323deb3ff936dd1aa228, 0xa95fc803c09556f7e461dfebe8467196,
     0x4e9826c74350bfe67783f7333504b244, 0x4cdc1ab0f0ab5b2e7b20ee03c15c7384, 0xcc911696880d4909f0d5382a55572458,
     0xaaba68961da11d79fb48c8c7fe68cf6a, 0xe62f327ccd5792dd893fe9ca44601f62, 0xe5db5416ee209847938b5c70638d3bee,
     0x4d7cd7cc29d28cf2697f6478eddb2834, 0x6437818b95e2e76e0b49fa26a7e512ce, 0xcc8095241ae41171f5f3f531c2d9be98,
     0x4cd9020746184ba27868a299022ddf34, 0xccc99127569146a7fc0956ca3a5b86a4, 0x824171dcefbe4a8b8f1d24e407e8e76c,
     0xab52f0323f47c90be1336bc794533626, 0xe62e22af1f6bf32b88711e202cdc3b5e, 0x65cece94dacd5b1c14f5986b801eeb82,
     0x83f4672b23a92e499aadb85427b54520, 0xe5da5595ee970b89929959ae766bf512, 0x1040920971720048711dbeccf94c,
     0x2b0e7fa2d509ca746fe2716bc7c3e73a, 0x81edd40a7a7437cb99d6b267d0d7976c, 0x2abe34bad75338b479a6a08dabf6573a,
     0xe46a1e8deccdf96d84dd884d1a5d4462, 0x65df4d264824132411d3553085980142, 0x804c1cb1eac70f698ab1aeeb3a605920,
     0x4e983687d159ce9677cb863e8acc5944, 0xa94f4b3252499e01e04514377dbd55aa, 0xcf74f70e70ef2af7ef6fd23d2af671a4,
     0xe7d77da5831189d3978a93f3f56f619e, 0x1e8ccb9dcc72f2e1a9cbeb8232d62fc, 0x4cdd0f362b68e52a7a5109eab0a16ef4,
     0xcec4b9173b16cdf9f91a9d0499490f58, 0xe4329c3d7bf233698830781e88d05912, 0x2aaea79ad7da34b07dc715cb83174a4a,
     0x82082082597387418618bcbfcff334e0, 0x83f16f99175f624799a6cd206b513bdc, 0x294b124ed1181a846297e291f4adcc3a,
     0x2442c3221f3dc1a0ce86db24aa0e48c, 0xe78fff41144664939b696b666550119e, 0x3f562a96a2aa9081b9e2febe84671c0,
     0xcd78dbfd54a1436beb568d9e63d55a14, 0xaae2ab6aaf144aaff73fdb3c06eaf756, 0xccdd4e7b1ce38d0ffacabbbeed722b64,
     0xccc9c07ae11bcce3fcd6f526cddeebd4, 0x3e5e1ccb1bf89c61fb4754fa43bbf3c, 0xcf64612f39c4323deb3fb936dd1aa228,
     0xe5da00893461b455926f68f4172caea2, 0xa95fc803c09556f7e4615febe8467196, 0xe78ae2a77b3e87b1981cf1dccb9d1fd2,
     0x4e9826c74350bfe67782f7333504b244, 0x2912d4222a675b0a6fd777b6c15f72c6, 0x4cdc1ab0f0ab5b2e7b22ee03c15c7384,
     0xe7d6682e58d237f196f8740f85956fd2, 0xcc911696880d4909f0d1382a55572458, 0xab4366b0764a0b4be46143c933474626,
     0xaaba68961da11d79fb40c8c7fe68cf6a, 0xe7d77d718378aeb397849bb7f7de0d9e, 0xe62f327ccd5792dd892fe9ca44601f62,
     0x64231d9efb5729d60d13f9bd382e380e, 0xe5db5416ee20984793ab5c70638d3bee, 0x81b51ab7a5fe1499959811bd9a557220,
     0x4d7cd7cc29d28cf2693f6478eddb2834, 0x295ab4bb43072c12678a4ee975a08406, 0x6437818b95e2e76e0bc9fa26a7e512ce,
     0xab0eead38eb165ebef9e1acd25989a26, 0xcc8095241ae41171f4f3f531c2d9be98, 0x3ba7996db230c0010185b9b29b00000,
     0x4cd9020746184ba27a68a299022ddf34, 0x8210932010890d058261f45338765990, 0xccc99127569146a7f80956ca3a5b86a4,
     0x2a88e0fbb92f0c2c7f14722e3db361fa, 0x824171dcefbe4a8b871d24e407e8e76c, 0x29b11e87b8989fd86fb067f47d17578a,
     0xab52f0323f47c90bf1336bc794533626, 0x0, 0xe62e22af1f6bf32ba8711e202cdc3b5e,
     0x862e22af1f6bf32ba8711e202cdc3b6c, 0x65cece94dacd5b1c54f5986b801eeb82, 0x8e8cbdc6770aef73b1ef36f7c270bdac,
     0x83f4672b23a92e491aadb85427b54520, 0x38b21c09fae1613c0db7ed8c3891e6fa]"

lemma frobenius128: "(gsq GCM ^^ 128) (monomial 1) = monomial 1"
proof -
  have sq: "gsq GCM = square128" by (intro ext) (simp only: gsq_steps)
  have "(square128 ^^ (16 + 16 + 16 + 16 + 16 + 16 + 16 + 16)) 0x2 = 0x2"
    unfolding funpow_add o_apply frobenius128_0 frobenius128_16 frobenius128_32 frobenius128_48 frobenius128_64 frobenius128_80 frobenius128_96 frobenius128_112 ..
  then show ?thesis by (simp add: sq monomial_def)
qed

lemma ROOT128_length: "length ROOT128 = 128"
  by (simp add: ROOT128_def)

lemma ROOT128_low: "tl (map2 (XOR) (evens ROOT128) ROOT128) = monomial 1 # map monomial [2..<64]"
  by (simp add: ROOT128_def upt_rec_numeral monomial_def)

lemma ROOT128_high:
  "map2 (XOR) (evens ROOT128) (map2 (XOR) (evens (drop 1 ROOT128)) (map2 (XOR) (evens (drop 2 ROOT128))
     (map2 (XOR) (evens (drop 7 ROOT128)) (drop 64 ROOT128)))) = map monomial [64..<125]"
  by (simp add: ROOT128_def upt_rec_numeral monomial_def)


lemma ROOT128_table:
  assumes "0 < i" "i < 128"
  shows "table_map ROOT128 (gsq GCM (monomial i) XOR monomial i) = monomial i"
proof -
  note L = additiveD [OF additive_table] table_monomial
  have sq: "gsq GCM (monomial i) = (xtimes GCM ^^ (i + i)) 1"
    using assms by (simp add: gsq_def gf_mul_monomials)
  have hi: "gsq GCM (monomial i) = fold_hi (monomial (2 * i - 128))" if "64 \<le> i"
  proof -
    have ii: "i + i = 128 + (2 * i - 128)" using that by simp
    show ?thesis unfolding sq by (subst ii, rule fold_hi_monomial [symmetric]) (use assms in simp)
  qed
  consider "i < 64" | "64 \<le> i" "i < 125" | "i = 125" | "i = 126" | "i = 127" using assms by linarith
  then show ?thesis
  proof cases
    case 1
    have t: "tl (map2 (XOR) (evens ROOT128) ROOT128) ! (i - 1) = ROOT128 ! (2 * i) XOR ROOT128 ! i"
      using 1 assms by (simp add: nth_tl nth_evens ROOT128_length)
    have e: "(monomial 1 :: block) # map monomial [2..<64] = map monomial [1..<64]"
      by (simp add: upt_conv_Cons numeral_2_eq_2 del: upt_rec_numeral)
    have "((monomial 1 :: block) # map monomial [2..<64]) ! (i - 1) = monomial i"
      unfolding e using 1 assms by (simp del: upt_rec_numeral)
    then have r: "ROOT128 ! (2 * i) XOR ROOT128 ! i = monomial i" using t unfolding ROOT128_low by (rule trans [OF sym, rotated])
    have "gsq GCM (monomial i) = monomial (2 * i)" using 1 by (simp add: sq xpow_one mult_2)
    then show ?thesis using 1 r by (simp add: L)
  next
    case 2
    define k where "k = i - 64"
    have k: "i = 64 + k" "k < 61" using 2 by (simp_all add: k_def)
    have "map2 (XOR) (evens ROOT128) (map2 (XOR) (evens (drop 1 ROOT128)) (map2 (XOR) (evens (drop 2 ROOT128))
       (map2 (XOR) (evens (drop 7 ROOT128)) (drop 64 ROOT128)))) ! k =
       ROOT128 ! (2 * k) XOR ROOT128 ! (2 * k + 1) XOR ROOT128 ! (2 * k + 2) XOR ROOT128 ! (2 * k + 7) XOR ROOT128 ! i"
      using k by (simp add: nth_evens ROOT128_length add.commute)
    moreover have "map monomial [64..<125] ! k = (monomial i :: block)" using k by (simp del: upt_rec_numeral)
    ultimately have r: "ROOT128 ! (2 * k) XOR ROOT128 ! (2 * k + 1) XOR ROOT128 ! (2 * k + 2) XOR ROOT128 ! (2 * k + 7) XOR ROOT128 ! i = monomial i"
      unfolding ROOT128_high by simp
    have "gsq GCM (monomial i) = fold_hi (monomial (2 * k))" using hi k by simp
    then have "table_map ROOT128 (gsq GCM (monomial i) XOR monomial i) =
        (ROOT128 ! (2 * k) XOR ROOT128 ! (2 * k + 1) XOR ROOT128 ! (2 * k + 2) XOR ROOT128 ! (2 * k + 7)) XOR ROOT128 ! i"
      using k by (simp add: fold_hi_small L del: One_nat_def)
    with r show ?thesis by (simp only: word_xor_ac)
  next
    case 3
    have "gsq GCM (monomial i) = fold_hi (monomial 122)" using 3 hi by simp
    then show ?thesis using 3 by (simp add: fold_hi_value Let_def push_bit_xor shift_monomial monomial_big L ROOT128_def del: push_bit_Suc One_nat_def) (simp add: monomial_def)
  next
    case 4
    have "gsq GCM (monomial i) = fold_hi (monomial 124)" using 4 hi by simp
    then show ?thesis using 4 by (simp add: fold_hi_value Let_def push_bit_xor shift_monomial monomial_big L ROOT128_def del: push_bit_Suc One_nat_def) (simp add: monomial_def)
  next
    case 5
    have "gsq GCM (monomial i) = fold_hi (monomial 126)" using 5 hi by simp
    then show ?thesis using 5 by (simp add: fold_hi_value Let_def push_bit_xor shift_monomial monomial_big L ROOT128_def del: push_bit_Suc One_nat_def) (simp add: monomial_def)
  qed
qed

interpretation bf128: binary_field GCM "table_map ROOT128"
  by unfold_locales (simp_all add: frobenius128 [simplified] additive_table ROOT128_table)

lemma inverse128_correct: "a \<noteq> 0 \<Longrightarrow> gf_mul GCM a (inverse128 a) = 1"
proof -
  have "square128 = gsq GCM" "mul128 = gf_mul GCM" by (intro ext, simp only: square128_eq mul128_eq)+
  moreover assume "a \<noteq> 0"
  ultimately show ?thesis using bf128.inverse_correct [of a] by (simp add: inverse128_def Let_def)
qed

end
