(* ===== verification/Field_Types.thy ===== *)
theory Field_Types
  imports Bin_Cert
begin

text \<open>
  The field types of the \<open>fields\<close> crate: \<open>Gf2\<close> (\<open>gf2.rs\<close>), \<open>Gf2_64\<close> (\<open>gf2_64.rs\<close>) and \<open>Gf2_128\<close>
  (\<open>gf2_128.rs\<close>) as instances of the class of fields, with the provided methods of the traits
  \<open>Field\<close> and \<open>ExtensionField\<close> (\<open>lib.rs\<close>).  What an implementation of \<open>Field\<close> owes its generic
  clients is the locale \<open>field_impl\<close>; the three types are shown to implement it.
\<close>

section \<open>Provided methods of the traits\<close>

definition inner_product_chunk :: "'f::field list \<Rightarrow> 'f list \<Rightarrow> 'f" where
  "inner_product_chunk a b = fold (\<lambda>(x, y) acc. acc + x * y) (zip a b) 0"

definition double_inner_product_chunk :: "'f::field list \<Rightarrow> 'f list \<Rightarrow> 'f list \<Rightarrow> 'f" where
  "double_inner_product_chunk a b c = fold (\<lambda>((x, y), z) acc. acc + x * y * z) (zip (zip a b) c) 0"

text \<open>
  \<open>chunks\<close> is also \<open>par_chunks\<close>; \<open>rayon\<close> is the cargo feature, \<open>byte_size\<close> the constant \<open>Self::BYTE_SIZE\<close> and \<open>chunk_fn\<close> the method
  \<open>inner_product_chunk\<close> of the type.  The parallel reduction adds the partial results in the order
  of the chunks; the trait requires addition to be associative.
\<close>

definition rayon_chunk :: "nat \<Rightarrow> nat" where
  "rayon_chunk byte_size = max (64 * 1024 div byte_size) 1"

definition inner_product :: "('f::field list \<Rightarrow> 'f list \<Rightarrow> 'f) \<Rightarrow> bool \<Rightarrow> nat \<Rightarrow> 'f list \<Rightarrow> 'f list \<Rightarrow> ('e, 'f) result" where
  "inner_product chunk_fn rayon byte_size a b =
     bindR (assertR (length a = length b)) (\<lambda>_.
       let chunk = rayon_chunk byte_size
       in if rayon \<and> chunk * 2 \<le> length a
          then Inr (fold (\<lambda>(ac, bc) acc. acc + chunk_fn ac bc) (zip (chunks chunk a) (chunks chunk b)) 0)
          else Inr (chunk_fn a b))"

definition double_inner_product ::
  "('f::field list \<Rightarrow> 'f list \<Rightarrow> 'f list \<Rightarrow> 'f) \<Rightarrow> bool \<Rightarrow> nat \<Rightarrow> 'f list \<Rightarrow> 'f list \<Rightarrow> 'f list \<Rightarrow> ('e, 'f) result" where
  "double_inner_product chunk_fn rayon byte_size a b c =
     bindR (assertR (length a = length b)) (\<lambda>_.
     bindR (assertR (length a = length c)) (\<lambda>_.
       let chunk = rayon_chunk byte_size
       in if rayon \<and> chunk * 2 \<le> length a
          then Inr (fold (\<lambda>((ac, bc), cc) acc. acc + chunk_fn ac bc cc)
                      (zip (zip (chunks chunk a) (chunks chunk b)) (chunks chunk c)) 0)
          else Inr (chunk_fn a b c)))"

definition inner_product_subfield :: "('b \<Rightarrow> 'f::field) \<Rightarrow> 'b list \<Rightarrow> 'f list \<Rightarrow> ('e, 'f) result" where
  "inner_product_subfield emb values challenges =
     bindR (assertR (length values = length challenges)) (\<lambda>_.
       Inr (fold (\<lambda>(v, c) acc. acc + emb v * c) (zip values challenges) 0))"

fun compute_product_repeated :: "'f::field list \<Rightarrow> 'f \<Rightarrow> nat \<Rightarrow> ('e, 'f list) result" where
  "compute_product_repeated powers factor 0 = Inr powers"
| "compute_product_repeated powers factor (Suc count) =
     (if powers = [] then Inl Panic else compute_product_repeated (powers @ [factor * last powers]) factor count)"

section \<open>GF(2)\<close>

datatype gf2 = Gf2 (gf2_bit: bool)

definition gf2_add :: "gf2 \<Rightarrow> gf2 \<Rightarrow> gf2" where
  "gf2_add a b = Gf2 (gf2_bit a \<noteq> gf2_bit b)"

definition gf2_mul :: "gf2 \<Rightarrow> gf2 \<Rightarrow> gf2" where
  "gf2_mul a b = Gf2 (gf2_bit a \<and> gf2_bit b)"

definition gf2_two_pow :: "nat \<Rightarrow> gf2" where
  "gf2_two_pow rhs = Gf2 (rhs = 0)"

definition gf2_inverse :: "gf2 \<Rightarrow> gf2 option" where
  "gf2_inverse a = (if gf2_bit a then Some a else None)"

definition gf2_to_le_bytes :: "gf2 \<Rightarrow> byte list" where
  "gf2_to_le_bytes a = [of_bool (gf2_bit a)]"

definition gf2_try_from :: "byte \<Rightarrow> gf2" where
  "gf2_try_from b = Gf2 (b AND 1 \<noteq> 0)"

instantiation gf2 :: field
begin

definition "zero_gf2 = Gf2 False"
definition "one_gf2 = Gf2 True"
definition "plus_gf2 = gf2_add"
definition "minus_gf2 = gf2_add"
definition "uminus_gf2 a = (a :: gf2)"
definition "times_gf2 = gf2_mul"
definition "inverse_gf2 a = (a :: gf2)"
definition "divide_gf2 = gf2_mul"

lemmas gf2_defs = zero_gf2_def one_gf2_def plus_gf2_def minus_gf2_def uminus_gf2_def times_gf2_def
  inverse_gf2_def divide_gf2_def gf2_add_def gf2_mul_def

instance
proof
  show "a \<noteq> 0 \<Longrightarrow> inverse a * a = 1" for a :: gf2 by (cases a) (simp add: gf2_defs)
qed (auto simp: gf2_defs gf2.expand split: gf2.splits)

end

section \<open>GF(2^64)\<close>

datatype gf2_64 = Gf2_64 (gf64_inner: "64 word")

definition gf64_add :: "gf2_64 \<Rightarrow> gf2_64 \<Rightarrow> gf2_64" where
  "gf64_add a b = Gf2_64 (gf64_inner a XOR gf64_inner b)"

definition gf64_mul :: "gf2_64 \<Rightarrow> gf2_64 \<Rightarrow> gf2_64" where
  "gf64_mul a b = Gf2_64 (mul64 (gf64_inner a) (gf64_inner b))"

text \<open>The shift overflows, and panics, from 64 on.\<close>

definition gf64_two_pow :: "nat \<Rightarrow> ('e, gf2_64) result" where
  "gf64_two_pow rhs = bindR (assertR (rhs < 64)) (\<lambda>_. Inr (Gf2_64 (push_bit rhs 1)))"

definition gf64_inverse :: "gf2_64 \<Rightarrow> gf2_64 option" where
  "gf64_inverse a = (if a = Gf2_64 0 then None else Some (Gf2_64 (inverse64 (gf64_inner a))))"

definition gf64_square :: "gf2_64 \<Rightarrow> gf2_64" where
  "gf64_square a = Gf2_64 (square64 (gf64_inner a))"

definition gf64_inner_product :: "gf2_64 list \<Rightarrow> gf2_64 list \<Rightarrow> gf2_64" where
  "gf64_inner_product a b = Gf2_64 (inner_product64 (map gf64_inner a) (map gf64_inner b))"

definition gf64_double_inner_product :: "gf2_64 list \<Rightarrow> gf2_64 list \<Rightarrow> gf2_64 list \<Rightarrow> gf2_64" where
  "gf64_double_inner_product a b c =
     Gf2_64 (double_inner_product64 (map gf64_inner a) (map gf64_inner b) (map gf64_inner c))"

definition MONOMIAL_BASIS_GF2_64 :: "gf2_64 list" where
  "MONOMIAL_BASIS_GF2_64 = map (\<lambda>i. Gf2_64 (push_bit i 1)) [0..<64]"

definition gf64_embed :: "gf2 \<Rightarrow> gf2_64" where
  "gf64_embed base = Gf2_64 (of_bool (gf2_bit base))"

definition gf64_inner_product_subfield :: "gf2 list \<Rightarrow> gf2_64 list \<Rightarrow> ('e, gf2_64) result" where
  "gf64_inner_product_subfield values challenges =
     bindR (assertR (length values = length challenges)) (\<lambda>_.
       Inr (Gf2_64 (fold (\<lambda>(v, c) acc. let mask = - of_bool (gf2_bit v) in acc XOR (gf64_inner c AND mask)) (zip values challenges) 0)))"

section \<open>GF(2^128)\<close>

datatype gf2_128 = Gf2_128 (gf128_inner: "128 word")

definition gf128_add :: "gf2_128 \<Rightarrow> gf2_128 \<Rightarrow> gf2_128" where
  "gf128_add a b = Gf2_128 (gf128_inner a XOR gf128_inner b)"

definition gf128_mul :: "gf2_128 \<Rightarrow> gf2_128 \<Rightarrow> gf2_128" where
  "gf128_mul a b = Gf2_128 (mul128 (gf128_inner a) (gf128_inner b))"

definition gf128_two_pow :: "nat \<Rightarrow> ('e, gf2_128) result" where
  "gf128_two_pow rhs = bindR (assertR (rhs < 128)) (\<lambda>_. Inr (Gf2_128 (push_bit rhs 1)))"

definition gf128_inverse :: "gf2_128 \<Rightarrow> gf2_128 option" where
  "gf128_inverse a = (if a = Gf2_128 0 then None else Some (Gf2_128 (inverse128 (gf128_inner a))))"

definition gf128_square :: "gf2_128 \<Rightarrow> gf2_128" where
  "gf128_square a = Gf2_128 (square128 (gf128_inner a))"

definition gf128_inner_product :: "gf2_128 list \<Rightarrow> gf2_128 list \<Rightarrow> gf2_128" where
  "gf128_inner_product a b = Gf2_128 (inner_product128 (map gf128_inner a) (map gf128_inner b))"

definition gf128_double_inner_product :: "gf2_128 list \<Rightarrow> gf2_128 list \<Rightarrow> gf2_128 list \<Rightarrow> gf2_128" where
  "gf128_double_inner_product a b c =
     Gf2_128 (double_inner_product128 (map gf128_inner a) (map gf128_inner b) (map gf128_inner c))"

definition MONOMIAL_BASIS_GF2_128 :: "gf2_128 list" where
  "MONOMIAL_BASIS_GF2_128 = map (\<lambda>i. Gf2_128 (push_bit i 1)) [0..<128]"

definition gf128_embed :: "gf2 \<Rightarrow> gf2_128" where
  "gf128_embed base = Gf2_128 (of_bool (gf2_bit base))"

definition gf128_inner_product_subfield :: "gf2 list \<Rightarrow> gf2_128 list \<Rightarrow> ('e, gf2_128) result" where
  "gf128_inner_product_subfield values challenges =
     bindR (assertR (length values = length challenges)) (\<lambda>_.
       Inr (Gf2_128 (fold (\<lambda>(v, c) acc. let mask = - of_bool (gf2_bit v) in acc XOR (gf128_inner c AND mask)) (zip values challenges) 0)))"

section \<open>The fields\<close>

instantiation gf2_64 :: field
begin

definition "zero_gf2_64 = Gf2_64 0"
definition "one_gf2_64 = Gf2_64 1"
definition "plus_gf2_64 = gf64_add"
definition "minus_gf2_64 = gf64_add"
definition "uminus_gf2_64 a = (a :: gf2_64)"
definition "times_gf2_64 = gf64_mul"
definition "inverse_gf2_64 a = (case gf64_inverse a of None \<Rightarrow> Gf2_64 0 | Some b \<Rightarrow> b)"
definition "divide_gf2_64 a b = gf64_mul a (case gf64_inverse b of None \<Rightarrow> Gf2_64 0 | Some b \<Rightarrow> b)"

lemmas gf64_defs = zero_gf2_64_def one_gf2_64_def plus_gf2_64_def minus_gf2_64_def uminus_gf2_64_def
  times_gf2_64_def inverse_gf2_64_def divide_gf2_64_def gf64_add_def gf64_mul_def

instance
proof
  fix a b c :: gf2_64
  show "a * b * c = a * (b * c)" by (simp add: gf64_defs mul64_eq gf_mul_assoc)
  show "a * b = b * a" by (simp add: gf64_defs mul64_eq gf_mul_commute)
  show "1 * a = a" by (simp add: gf64_defs mul64_eq gf_mul_one_left)
  show "a + b + c = a + (b + c)" by (simp add: gf64_defs word_xor_ac)
  show "a + b = b + a" by (simp add: gf64_defs word_xor_ac)
  show "(a + b) * c = a * c + b * c" by (simp add: gf64_defs mul64_eq gf_mul_xor)
  show "a \<noteq> 0 \<Longrightarrow> inverse a * a = 1"
    by (cases a) (simp add: gf64_defs gf64_inverse_def mul64_eq gf_mul_commute [of _ "inverse64 _"] inverse64_correct)
qed (simp_all add: gf64_defs gf64_inverse_def)

end

instantiation gf2_128 :: field
begin

definition "zero_gf2_128 = Gf2_128 0"
definition "one_gf2_128 = Gf2_128 1"
definition "plus_gf2_128 = gf128_add"
definition "minus_gf2_128 = gf128_add"
definition "uminus_gf2_128 a = (a :: gf2_128)"
definition "times_gf2_128 = gf128_mul"
definition "inverse_gf2_128 a = (case gf128_inverse a of None \<Rightarrow> Gf2_128 0 | Some b \<Rightarrow> b)"
definition "divide_gf2_128 a b = gf128_mul a (case gf128_inverse b of None \<Rightarrow> Gf2_128 0 | Some b \<Rightarrow> b)"

lemmas gf128_defs = zero_gf2_128_def one_gf2_128_def plus_gf2_128_def minus_gf2_128_def uminus_gf2_128_def
  times_gf2_128_def inverse_gf2_128_def divide_gf2_128_def gf128_add_def gf128_mul_def

instance
proof
  fix a b c :: gf2_128
  show "a * b * c = a * (b * c)" by (simp add: gf128_defs mul128_eq gf_mul_assoc)
  show "a * b = b * a" by (simp add: gf128_defs mul128_eq gf_mul_commute)
  show "1 * a = a" by (simp add: gf128_defs mul128_eq gf_mul_one_left)
  show "a + b + c = a + (b + c)" by (simp add: gf128_defs word_xor_ac)
  show "a + b = b + a" by (simp add: gf128_defs word_xor_ac)
  show "(a + b) * c = a * c + b * c" by (simp add: gf128_defs mul128_eq gf_mul_xor)
  show "a \<noteq> 0 \<Longrightarrow> inverse a * a = 1"
    by (cases a) (simp add: gf128_defs gf128_inverse_def mul128_eq gf_mul_commute [of _ "inverse128 _"] inverse128_correct)
qed (simp_all add: gf128_defs gf128_inverse_def)

end

section \<open>What an implementation of \<open>Field\<close> owes its clients\<close>

lemma fold_add_sum: "fold (\<lambda>x acc. acc + f x) xs s = s + sum_list (map f xs)" for s :: "'f::field"
  by (induction xs arbitrary: s) (simp_all add: add.assoc)

lemma inner_product_chunk_sum: "inner_product_chunk a b = sum_list (map2 (*) a b)"
  unfolding inner_product_chunk_def case_prod_unfold fold_add_sum by simp

lemma double_inner_product_chunk_sum:
  "double_inner_product_chunk a b c = sum_list (map2 (*) (map2 (*) a b) c)"
proof -
  have "map (\<lambda>p. fst (fst p) * snd (fst p) * snd p) (zip (zip a b) c) = map2 (*) (map2 (*) a b) c"
    by (rule nth_equalityI) (simp_all add: case_prod_unfold)
  then show ?thesis unfolding double_inner_product_chunk_def case_prod_unfold fold_add_sum by simp
qed

lemma chunks_sum:
  "length a = length b \<Longrightarrow> 0 < n \<Longrightarrow>
    sum_list (map2 (\<lambda>ac bc. sum_list (map2 (*) ac bc)) (chunks n a) (chunks n b)) = sum_list (map2 (*) a b :: 'f::field list)"
proof (induction n a arbitrary: b rule: chunks.induct)
  case (1 n a)
  show ?case
  proof (cases "a = []")
    case True
    then show ?thesis by simp
  next
    case False
    then have "b \<noteq> []" using 1 by auto
    have "map2 (*) (take n a) (take n b) @ map2 (*) (drop n a) (drop n b) = map2 (*) a b"
      by (simp add: take_map drop_map flip: take_zip drop_zip) (metis append_take_drop_id map_append)
    then have "sum_list (map2 (*) (take n a) (take n b)) + sum_list (map2 (*) (drop n a) (drop n b)) = sum_list (map2 (*) a b)"
      by (metis sum_list_append)
    then show ?thesis using 1 False \<open>b \<noteq> []\<close> by (simp add: chunks_step)
  qed
qed

lemma chunks_map2:
  "length a = length b \<Longrightarrow> map2 (map2 f) (chunks n a) (chunks n b) = chunks n (map2 f a b)"
proof (induction n a arbitrary: b rule: chunks.induct)
  case (1 n a)
  show ?case
  proof (cases "a = [] \<or> n = 0")
    case True
    then show ?thesis by auto
  next
    case False
    then have "b \<noteq> []" "map2 f a b \<noteq> []" using 1 by auto
    then show ?thesis using 1 False
      by (simp add: chunks_step take_map drop_map take_zip drop_zip)
  qed
qed

lemma rayon_pos: "0 < rayon_chunk n"
  by (simp add: rayon_chunk_def)

locale field_impl =
  fixes sq :: "'f::field \<Rightarrow> 'f" and inv :: "'f \<Rightarrow> 'f option"
    and chunk2 :: "'f list \<Rightarrow> 'f list \<Rightarrow> 'f" and chunk3 :: "'f list \<Rightarrow> 'f list \<Rightarrow> 'f list \<Rightarrow> 'f"
  assumes square: "sq a = a * a"
    and inverse_zero: "inv 0 = None"
    and inverse_some: "a \<noteq> 0 \<Longrightarrow> \<exists>i. inv a = Some i \<and> a * i = 1"
    and chunk2: "chunk2 xs ys = inner_product_chunk xs ys"
    and chunk3: "chunk3 xs ys zs = double_inner_product_chunk xs ys zs"
begin

lemma inverse_cases: "case inv a of None \<Rightarrow> a = 0 | Some i \<Rightarrow> a \<noteq> 0 \<and> a * i = 1"
  using inverse_zero inverse_some [of a] by (cases "a = 0") auto

lemma inverse_eq: "inv a = Some i \<Longrightarrow> i = inverse a"
  using inverse_cases [of a] inverse_unique [of a i] by simp

lemma inner_product_sum:
  "inner_product chunk2 rayon width a b = (if length a = length b then Inr (sum_list (map2 (*) a b)) else Inl Panic)"
  using chunks_sum [of a b "rayon_chunk width"]
  by (simp add: inner_product_def chunk2 inner_product_chunk_sum case_prod_unfold fold_add_sum Let_def rayon_chunk_def)

lemma double_inner_product_sum:
  "double_inner_product chunk3 rayon width a b c =
     (if length a = length b \<and> length a = length c then Inr (sum_list (map2 (*) (map2 (*) a b) c)) else Inl Panic)"
proof -
  have "map (\<lambda>p. sum_list (map2 (*) (map2 (*) (fst (fst p)) (snd (fst p))) (snd p))) (zip (zip xs ys) zs) =
      map2 (\<lambda>ac bc. sum_list (map2 (*) ac bc)) (map2 (map2 (*)) xs ys) zs" for xs ys zs :: "'f list list"
    by (rule nth_equalityI) simp_all
  note m = this
  have "sum_list (map (\<lambda>p. sum_list (map2 (*) (map2 (*) (fst (fst p)) (snd (fst p))) (snd p)))
        (zip (zip (chunks n a) (chunks n b)) (chunks n c))) = sum_list (map2 (*) (map2 (*) a b) c)"
    if "length a = length b" "length a = length c" "0 < n" for n
    unfolding m chunks_map2 [OF that(1)] by (rule chunks_sum) (use that in simp_all)
  from this [where n = "rayon_chunk width"] show ?thesis
    by (cases "length a = length b"; cases "length a = length c")
      (simp_all add: double_inner_product_def chunk3 double_inner_product_chunk_sum case_prod_unfold fold_add_sum Let_def rayon_pos)
qed

end

text \<open>The three types.\<close>

interpretation gf2_field: field_impl "\<lambda>a. a * a" gf2_inverse inner_product_chunk double_inner_product_chunk
proof
  show "a \<noteq> 0 \<Longrightarrow> \<exists>i. gf2_inverse a = Some i \<and> a * i = 1" for a
    by (cases a) (simp add: gf2_inverse_def gf2_defs)
qed (simp_all add: gf2_inverse_def gf2_defs)

lemma gf64_chunks:
  "gf64_inner_product a b = inner_product_chunk a b"
  "gf64_double_inner_product a b c = double_inner_product_chunk a b c"
proof -
  have "Gf2_64 (fold (\<lambda>p acc. acc XOR mul64 (gf64_inner (fst p)) (gf64_inner (snd p))) ps s) =
      fold (\<lambda>p acc. acc + fst p * snd p) ps (Gf2_64 s)" for ps s
    by (induction ps arbitrary: s) (simp_all add: gf64_defs)
  then show "gf64_inner_product a b = inner_product_chunk a b"
    by (simp add: gf64_inner_product_def inner_product64_eq inner_product_chunk_def case_prod_unfold zip_map_map fold_map o_def gf64_defs(1))
  have "Gf2_64 (fold (\<lambda>p acc. acc XOR mul64 (mul64 (gf64_inner (fst (fst p))) (gf64_inner (snd (fst p)))) (gf64_inner (snd p))) ps s) =
      fold (\<lambda>p acc. acc + fst (fst p) * snd (fst p) * snd p) ps (Gf2_64 s)" for ps s
    by (induction ps arbitrary: s) (simp_all add: gf64_defs)
  then show "gf64_double_inner_product a b c = double_inner_product_chunk a b c"
    by (simp add: gf64_double_inner_product_def double_inner_product64_eq double_inner_product_chunk_def case_prod_unfold zip_map_map fold_map o_def gf64_defs(1))
qed

interpretation gf64_field: field_impl gf64_square gf64_inverse gf64_inner_product gf64_double_inner_product
proof
  show "gf64_square a = a * a" for a by (simp add: gf64_square_def gf64_defs square64_eq mul64_eq gsq_def)
  show "gf64_inverse 0 = None" by (simp add: gf64_inverse_def gf64_defs)
  show "a \<noteq> 0 \<Longrightarrow> \<exists>i. gf64_inverse a = Some i \<and> a * i = 1" for a
    by (cases a) (simp add: gf64_inverse_def gf64_defs mul64_eq inverse64_correct)
qed (simp_all add: gf64_chunks)

lemma gf128_chunks:
  "gf128_inner_product a b = inner_product_chunk a b"
  "gf128_double_inner_product a b c = double_inner_product_chunk a b c"
proof -
  have "Gf2_128 (fold (\<lambda>p acc. acc XOR mul128 (gf128_inner (fst p)) (gf128_inner (snd p))) ps s) =
      fold (\<lambda>p acc. acc + fst p * snd p) ps (Gf2_128 s)" for ps s
    by (induction ps arbitrary: s) (simp_all add: gf128_defs)
  then show "gf128_inner_product a b = inner_product_chunk a b"
    by (simp add: gf128_inner_product_def inner_product128_eq inner_product_chunk_def case_prod_unfold zip_map_map fold_map o_def gf128_defs(1))
  have "Gf2_128 (fold (\<lambda>p acc. acc XOR mul128 (mul128 (gf128_inner (fst (fst p))) (gf128_inner (snd (fst p)))) (gf128_inner (snd p))) ps s) =
      fold (\<lambda>p acc. acc + fst (fst p) * snd (fst p) * snd p) ps (Gf2_128 s)" for ps s
    by (induction ps arbitrary: s) (simp_all add: gf128_defs)
  then show "gf128_double_inner_product a b c = double_inner_product_chunk a b c"
    by (simp add: gf128_double_inner_product_def double_inner_product128_eq double_inner_product_chunk_def case_prod_unfold zip_map_map fold_map o_def gf128_defs(1))
qed

interpretation gf128_field: field_impl gf128_square gf128_inverse gf128_inner_product gf128_double_inner_product
proof
  show "gf128_square a = a * a" for a by (simp add: gf128_square_def gf128_defs square128_eq mul128_eq gsq_def)
  show "gf128_inverse 0 = None" by (simp add: gf128_inverse_def gf128_defs)
  show "a \<noteq> 0 \<Longrightarrow> \<exists>i. gf128_inverse a = Some i \<and> a * i = 1" for a
    by (cases a) (simp add: gf128_inverse_def gf128_defs mul128_eq inverse128_correct)
qed (simp_all add: gf128_chunks)

text \<open>The masked sums of subfield elements are the inner products of the embedded elements.\<close>

lemma mask_and: "(w AND - of_bool b) = scale b w" for w :: "'a::len word"
  by (cases b) simp_all

lemma gf64_subfield: "gf64_inner_product_subfield vs cs = inner_product_subfield gf64_embed vs cs"
proof -
  have m: "gf64_embed v * c = Gf2_64 (scale (gf2_bit v) (gf64_inner c))" for v c
    by (cases "gf2_bit v") (simp_all add: gf64_embed_def gf64_defs mul64_eq gf_mul_one_left gf_mul_zero)
  have "Gf2_64 (fold (\<lambda>p acc. acc XOR scale (gf2_bit (fst p)) (gf64_inner (snd p))) ps s) =
      fold (\<lambda>p acc. acc + gf64_embed (fst p) * snd p) ps (Gf2_64 s)" for ps s
    unfolding m by (induction ps arbitrary: s) (simp_all add: plus_gf2_64_def gf64_add_def)
  then show ?thesis
    by (simp add: gf64_inner_product_subfield_def inner_product_subfield_def case_prod_unfold Let_def mask_and zero_gf2_64_def)
qed

lemma gf128_subfield: "gf128_inner_product_subfield vs cs = inner_product_subfield gf128_embed vs cs"
proof -
  have m: "gf128_embed v * c = Gf2_128 (scale (gf2_bit v) (gf128_inner c))" for v c
    by (cases "gf2_bit v") (simp_all add: gf128_embed_def gf128_defs mul128_eq gf_mul_one_left gf_mul_zero)
  have "Gf2_128 (fold (\<lambda>p acc. acc XOR scale (gf2_bit (fst p)) (gf128_inner (snd p))) ps s) =
      fold (\<lambda>p acc. acc + gf128_embed (fst p) * snd p) ps (Gf2_128 s)" for ps s
    unfolding m by (induction ps arbitrary: s) (simp_all add: plus_gf2_128_def gf128_add_def)
  then show ?thesis
    by (simp add: gf128_inner_product_subfield_def inner_product_subfield_def case_prod_unfold Let_def mask_and zero_gf2_128_def)
qed

lemma compute_product_powers:
  "compute_product_repeated (xs @ [x]) f n = Inr (xs @ map (\<lambda>k. f ^ k * x) [0..<Suc n])"
proof (induction n arbitrary: xs x)
  case (Suc n)
  have "map (\<lambda>k. f ^ k * (f * x)) [0..<Suc n] = map (\<lambda>k. f ^ k * x) [1..<Suc (Suc n)]"
    unfolding map_Suc_upt [symmetric] One_nat_def by (simp add: mult.commute mult.left_commute)
  then show ?case using Suc.IH [of "xs @ [x]" "f * x"] by (simp add: upt_conv_Cons [of 0 "Suc (Suc n)"] del: upt_Suc)
qed simp

text \<open>
  C18. Inversion in GF(2^64) and GF(2^128), the chain of squarings and multiplications of the portable
  backends: exactly zero has no inverse, and every other element times its inverse is one.  In
  particular the two polynomials are irreducible.
\<close>

theorem field_inverse:
  fixes a :: gf2_64 and b :: gf2_128
  shows "(case gf64_inverse a of None \<Rightarrow> a = 0 | Some i \<Rightarrow> a \<noteq> 0 \<and> a * i = 1) \<and>
    (case gf128_inverse b of None \<Rightarrow> b = 0 | Some i \<Rightarrow> b \<noteq> 0 \<and> b * i = 1)"
  using gf64_field.inverse_cases gf128_field.inverse_cases by blast

text \<open>
  C19. The accelerated kernels of GF(2^128), which accumulate unreduced products and reduce once,
  agree with the trait: squaring is multiplication with itself, the inner product is the sum of the
  products whether or not it is split into parallel chunks, the masked sum over a subfield is the
  inner product of the embedded elements, and slices of different lengths panic.
\<close>

theorem field_kernels:
  fixes a b :: "gf2_128 list"
  shows "gf128_square x = x * x \<and>
    inner_product gf128_inner_product rayon 16 a b = (if length a = length b then Inr (sum_list (map2 (*) a b)) else Inl Panic) \<and>
    double_inner_product gf128_double_inner_product rayon 16 a b c =
      (if length a = length b \<and> length a = length c then Inr (sum_list (map2 (*) (map2 (*) a b) c)) else Inl Panic) \<and>
    gf128_inner_product_subfield vs a = inner_product_subfield gf128_embed vs a"
  by (intro conjI gf128_subfield gf128_field.square gf128_field.inner_product_sum gf128_field.double_inner_product_sum)

end
