(* ===== verification/Ole.thy ===== *)
theory Ole
  imports Ideal_Rot Field_Types
begin

text \<open>
  Random oblivious linear evaluation from random OT (\<open>ole-core/src/lib.rs\<close>, \<open>sender.rs\<close>,
  \<open>receiver.rs\<close>), its adjustment to chosen inputs (\<open>adjust.rs\<close>) and the ideal functionality
  (\<open>ideal.rs\<close>, \<open>test.rs\<close>), over an arbitrary field.  The constant \<open>F::BIT_SIZE\<close> is the argument \<open>bits\<close>,
  \<open>F::two_pow\<close> below that bound the function \<open>two_pow\<close>, and \<open>rand\<close> draws an element from a generator.
\<close>

section \<open>Shares\<close>

type_synonym ole_id = "64 word"

record 'f ole_share =
  ol_add :: 'f
  ol_mul :: 'f

definition new_ole_sender :: "(nat \<Rightarrow> 'f) \<Rightarrow> 'f::field \<Rightarrow> ('f \<times> 'f) list \<Rightarrow> 'f ole_share \<times> 'f list" where
  "new_ole_sender two_pow input masks =
     (let add = fold (\<lambda>(i, (zero, _)) acc. acc + two_pow i * zero) (enumerate 0 masks) 0;
          share = \<lparr>ol_add = - add, ol_mul = input\<rparr>;
          masked = map (\<lambda>(zero, one). zero - one + input) masks
      in (share, masked))"

definition new_ole_receiver :: "(nat \<Rightarrow> 'f) \<Rightarrow> bool list \<Rightarrow> 'f list \<Rightarrow> 'f::field list \<Rightarrow> 'f ole_share" where
  "new_ole_receiver two_pow choices masks corr =
     (let (add, mul) = fold (\<lambda>(i, ((choice, u), t)) (add, mul).
            let two_pow_i = two_pow i; delta = (if choice then 1 else 0)
            in (add + two_pow_i * (delta * u + t), mul + two_pow_i * delta))
          (enumerate 0 (zip (zip choices corr) masks)) (0, 0)
      in \<lparr>ol_add = add, ol_mul = mul\<rparr>)"

text \<open>Adjusting a random share to a chosen multiplicative share.\<close>

record 'f adjust =
  aj_target :: 'f
  aj_share :: "'f ole_share"

definition share_adjust :: "'f ole_share \<Rightarrow> 'f \<Rightarrow> 'f adjust" where
  "share_adjust share target = \<lparr>aj_target = target, aj_share = share\<rparr>"

definition adjust_offset :: "'f::field adjust \<Rightarrow> 'f" where
  "adjust_offset a = ol_mul (aj_share a) + aj_target a"

definition adj_sender_finish :: "'f::field adjust \<Rightarrow> 'f \<Rightarrow> 'f ole_share" where
  "adj_sender_finish a offset =
     \<lparr>ol_add = ol_add (aj_share a) - ol_mul (aj_share a) * offset, ol_mul = aj_target a\<rparr>"

definition adj_receiver_finish :: "'f::field adjust \<Rightarrow> 'f \<Rightarrow> 'f ole_share" where
  "adj_receiver_finish a offset =
     \<lparr>ol_add = ol_add (aj_share a) + offset * aj_target a, ol_mul = aj_target a\<rparr>"

section \<open>Sender and receiver\<close>

type_synonym 'f role_output = "ole_id \<times> 'f ole_share list"

datatype 'e ole_error = OleOt 'e | InsufficientOle nat nat | OleWrongCount nat nat

text \<open>
  \<open>os_chans\<close> and \<open>or_chans\<close> count the output channels made so far; the channel of a queued request is
  its number.
\<close>

record ('f, 't, 'g) ole_sender =
  os_id :: ole_id
  os_alloc :: nat
  os_pending :: nat
  os_queue :: "(nat \<times> nat) list"
  os_rot :: 't
  os_prg :: 'g
  os_role :: "'f ole_share list"
  os_chans :: nat

definition os_new :: "'g \<Rightarrow> 't \<Rightarrow> ('f, 't, 'g) ole_sender" where
  "os_new prg rot = \<lparr>os_id = 0, os_alloc = 0, os_pending = 0, os_queue = [], os_rot = rot, os_prg = prg, os_role = [],
     os_chans = 0\<rparr>"

definition os_wants_send :: "('f, 't, 'g) ole_sender \<Rightarrow> bool" where
  "os_wants_send s \<longleftrightarrow> 0 < os_alloc s"

text \<open>The evaluation of the chunks of keys; a chunk of another length panics in \<open>Array::try_from\<close>.\<close>

fun os_evaluate :: "nat \<Rightarrow> (nat \<Rightarrow> 'f) \<Rightarrow> ('g \<Rightarrow> 'f \<times> 'g) \<Rightarrow> ('f::field \<times> 'f) list list \<Rightarrow> 'g \<Rightarrow>
    ('e, 'f ole_share list \<times> 'f list list \<times> 'g) result" where
  "os_evaluate bits two_pow rand [] g = Inr ([], [], g)"
| "os_evaluate bits two_pow rand (m # ms) g =
     (let (input, g) = rand g
      in bindR (assertR (length m = bits)) (\<lambda>_.
           let (share, masked) = new_ole_sender two_pow input m
           in bindR (os_evaluate bits two_pow rand ms g) (\<lambda>(shares, maskeds, g). Inr (share # shares, masked # maskeds, g))))"

text \<open>The loop over the queue, the same in both parties: each request gets the next shares.\<close>

fun ole_deliver :: "'a list \<Rightarrow> (nat \<times> nat) list \<Rightarrow> nat \<Rightarrow> ole_id \<Rightarrow>
    ('e, (nat \<times> (ole_id \<times> 'a list)) list \<times> nat \<times> ole_id) result" where
  "ole_deliver shares [] i oid = Inr ([], i, oid)"
| "ole_deliver shares ((count, ch) # q) i oid =
     bindR (subslice shares i (i + count)) (\<lambda>out.
       let (cur, oid) = next_id oid
       in bindR (ole_deliver shares q (i + count) oid) (\<lambda>(outs, i, oid). Inr ((ch, (cur, out)) # outs, i, oid)))"

definition os_send ::
  "nat \<Rightarrow> (nat \<Rightarrow> 'f) \<Rightarrow> ('g \<Rightarrow> 'f \<times> 'g) \<Rightarrow> ('t \<Rightarrow> nat \<Rightarrow> ('e, 'f rot_sender_output \<times> 't) result) \<Rightarrow>
     ('f::field, 't, 'g) ole_sender \<Rightarrow> ('e ole_error, 'f list list \<times> (nat \<times> 'f role_output) list \<times> ('f, 't, 'g) ole_sender) result" where
  "os_send bits two_pow rand try_send_rot s =
     (let count = os_alloc s
      in if os_pending s > count then Inl (Err (InsufficientOle (os_pending s) count))
         else
           bindR (map_err OleOt (try_send_rot (os_rot s) (count * bits))) (\<lambda>((_, keys), rot).
           bindR (os_evaluate bits two_pow rand (chunks bits keys) (os_prg s)) (\<lambda>(shares, masks, prg).
           bindR (ole_deliver shares (os_queue s) 0 (os_id s)) (\<lambda>(outs, i, oid).
           bindR (subslice shares i (length shares)) (\<lambda>rest.
             Inr (masks, outs, s\<lparr>os_id := oid, os_alloc := 0, os_pending := 0, os_queue := [], os_rot := rot, os_prg := prg,
                                 os_role := os_role s @ rest\<rparr>))))))"

definition os_alloc_more ::
  "nat \<Rightarrow> ('t \<Rightarrow> nat \<Rightarrow> ('e, 't) result) \<Rightarrow> ('f, 't, 'g) ole_sender \<Rightarrow> nat \<Rightarrow> ('e ole_error, ('f, 't, 'g) ole_sender) result" where
  "os_alloc_more bits rot_alloc s count =
     bindR (map_err OleOt (rot_alloc (os_rot s) (count * bits))) (\<lambda>rot.
       Inr (s\<lparr>os_rot := rot, os_alloc := os_alloc s + count\<rparr>))"

definition os_available :: "('f, 't, 'g) ole_sender \<Rightarrow> nat" where
  "os_available s = length (os_role s)"

definition os_try_send_role :: "('f, 't, 'g) ole_sender \<Rightarrow> nat \<Rightarrow> ('e ole_error, 'f role_output \<times> ('f, 't, 'g) ole_sender) result" where
  "os_try_send_role s count =
     (if count > length (os_role s) then Inl (Err (InsufficientOle count (length (os_role s))))
      else bindR (drain_front (os_role s) count) (\<lambda>(shares, rest).
        let (cur, oid) = next_id (os_id s) in Inr ((cur, shares), s\<lparr>os_id := oid, os_role := rest\<rparr>)))"

definition os_queue_send_role :: "('f, 't, 'g) ole_sender \<Rightarrow> nat \<Rightarrow> nat \<times> ('f, 't, 'g) ole_sender" where
  "os_queue_send_role s count =
     (let ch = os_chans s
      in (ch, s\<lparr>os_chans := ch + 1, os_pending := os_pending s + count, os_queue := os_queue s @ [(count, ch)]\<rparr>))"

record ('f, 't) ole_receiver =
  or_id :: ole_id
  or_alloc :: nat
  or_pending :: nat
  or_queue :: "(nat \<times> nat) list"
  or_rot :: 't
  or_role :: "'f ole_share list"
  or_chans :: nat

definition or_new :: "'t \<Rightarrow> ('f, 't) ole_receiver" where
  "or_new rot = \<lparr>or_id = 0, or_alloc = 0, or_pending = 0, or_queue = [], or_rot = rot, or_role = [], or_chans = 0\<rparr>"

definition or_wants_recv :: "('f, 't) ole_receiver \<Rightarrow> bool" where
  "or_wants_recv r \<longleftrightarrow> 0 < or_alloc r"

definition or_evaluate :: "nat \<Rightarrow> (nat \<Rightarrow> 'f) \<Rightarrow> ((bool list \<times> 'f list) \<times> 'f::field list) list \<Rightarrow> ('e, 'f ole_share list) result" where
  "or_evaluate bits two_pow =
     mapR (\<lambda>((choices, corr), mask). bindR (assertR (length corr = bits)) (\<lambda>_. Inr (new_ole_receiver two_pow choices corr mask)))"

definition or_recv ::
  "nat \<Rightarrow> (nat \<Rightarrow> 'f) \<Rightarrow> ('t \<Rightarrow> nat \<Rightarrow> ('e, 'f rot_receiver_output \<times> 't) result) \<Rightarrow>
     ('f::field, 't) ole_receiver \<Rightarrow> 'f list list \<Rightarrow> ('e ole_error, (nat \<times> 'f role_output) list \<times> ('f, 't) ole_receiver) result" where
  "or_recv bits two_pow try_recv_rot r masks =
     (let count = or_alloc r
      in if or_pending r > count then Inl (Err (InsufficientOle (or_pending r) count))
         else if length masks \<noteq> count then Inl (Err (OleWrongCount count (length masks)))
         else
           bindR (map_err OleOt (try_recv_rot (or_rot r) (count * bits))) (\<lambda>((_, choices, corr), rot).
           bindR (or_evaluate bits two_pow (zip (zip (chunks bits choices) (chunks bits corr)) masks)) (\<lambda>shares.
           bindR (ole_deliver shares (or_queue r) 0 (or_id r)) (\<lambda>(outs, i, oid).
           bindR (subslice shares i (length shares)) (\<lambda>rest.
             Inr (outs, r\<lparr>or_id := oid, or_alloc := 0, or_pending := 0, or_queue := [], or_rot := rot,
                          or_role := or_role r @ rest\<rparr>))))))"

definition or_alloc_more ::
  "nat \<Rightarrow> ('t \<Rightarrow> nat \<Rightarrow> ('e, 't) result) \<Rightarrow> ('f, 't) ole_receiver \<Rightarrow> nat \<Rightarrow> ('e ole_error, ('f, 't) ole_receiver) result" where
  "or_alloc_more bits rot_alloc r count =
     bindR (map_err OleOt (rot_alloc (or_rot r) (count * bits))) (\<lambda>rot.
       Inr (r\<lparr>or_rot := rot, or_alloc := or_alloc r + count\<rparr>))"

definition or_available :: "('f, 't) ole_receiver \<Rightarrow> nat" where
  "or_available r = length (or_role r)"

definition or_try_recv_role :: "('f, 't) ole_receiver \<Rightarrow> nat \<Rightarrow> ('e ole_error, 'f role_output \<times> ('f, 't) ole_receiver) result" where
  "or_try_recv_role r count =
     (if count > length (or_role r) then Inl (Err (InsufficientOle count (length (or_role r))))
      else bindR (drain_front (or_role r) count) (\<lambda>(shares, rest).
        let (cur, oid) = next_id (or_id r) in Inr ((cur, shares), r\<lparr>or_id := oid, or_role := rest\<rparr>)))"

definition or_queue_recv_role :: "('f, 't) ole_receiver \<Rightarrow> nat \<Rightarrow> nat \<times> ('f, 't) ole_receiver" where
  "or_queue_recv_role r count =
     (let ch = or_chans r
      in (ch, r\<lparr>or_chans := ch + 1, or_pending := or_pending r + count, or_queue := or_queue r @ [(count, ch)]\<rparr>))"

section \<open>The ideal functionality\<close>

text \<open>\<open>role\<close> and \<open>role_shares\<close> of \<open>test.rs\<close>; the fields \<open>a\<close>, \<open>b\<close>, \<open>x\<close>, \<open>y\<close> of an \<open>OLE\<close> as a tuple.\<close>

definition random_ole :: "('g \<Rightarrow> 'f \<times> 'g) \<Rightarrow> 'g \<Rightarrow> ('f::field \<times> 'f \<times> 'f \<times> 'f) \<times> 'g" where
  "random_ole rand g = (let (a, g) = rand g; (b, g) = rand g; (x, g) = rand g; y = (a * b) - x in ((a, b, x, y), g))"

definition role_shares :: "('g \<Rightarrow> 'f \<times> 'g) \<Rightarrow> 'g \<Rightarrow> ('f::field ole_share \<times> 'f ole_share) \<times> 'g" where
  "role_shares rand g =
     (let ((a, b, x, y), g) = random_ole rand g in ((\<lparr>ol_add = x, ol_mul = a\<rparr>, \<lparr>ol_add = y, ol_mul = b\<rparr>), g))"

record role_state =
  rs_alloc :: nat
  rs_id :: ole_id
  rs_queue :: "(nat \<times> nat) list"
  rs_chans :: nat

definition role_state_default :: role_state where
  "role_state_default = \<lparr>rs_alloc = 0, rs_id = 0, rs_queue = [], rs_chans = 0\<rparr>"

record ('f, 'g) ideal_role =
  ir_prg :: 'g
  ir_sender :: role_state
  ir_receiver :: role_state
  ir_sender_shares :: "'f ole_share list"
  ir_receiver_shares :: "'f ole_share list"

datatype ideal_role_error = RoleNotEnough nat nat | RoleOutOfSync nat nat

definition ideal_role_new :: "'g \<Rightarrow> ('f, 'g) ideal_role" where
  "ideal_role_new prg = \<lparr>ir_prg = prg, ir_sender = role_state_default, ir_receiver = role_state_default,
     ir_sender_shares = [], ir_receiver_shares = []\<rparr>"

definition role_wants_flush :: "('f, 'g) ideal_role \<Rightarrow> bool" where
  "role_wants_flush w \<longleftrightarrow> 0 < rs_alloc (ir_sender w) \<or> 0 < rs_alloc (ir_receiver w)"

fun draw_roles :: "('g \<Rightarrow> 'f \<times> 'g) \<Rightarrow> nat \<Rightarrow> 'g \<Rightarrow> ('f::field ole_share \<times> 'f ole_share) list \<times> 'g" where
  "draw_roles rand 0 g = ([], g)"
| "draw_roles rand (Suc n) g =
     (let (p, g) = role_shares rand g; (ps, g) = draw_roles rand n g in (p # ps, g))"

definition role_flush ::
  "('g \<Rightarrow> 'f \<times> 'g) \<Rightarrow> ('f::field, 'g) ideal_role \<Rightarrow>
     (ideal_role_error, (nat \<times> 'f role_output) list \<times> (nat \<times> 'f role_output) list \<times> ('f, 'g) ideal_role) result" where
  "role_flush rand w =
     (if rs_alloc (ir_sender w) \<noteq> rs_alloc (ir_receiver w)
      then Inl (Err (RoleOutOfSync (rs_alloc (ir_sender w)) (rs_alloc (ir_receiver w))))
      else
        let (pairs, prg) = draw_roles rand (rs_alloc (ir_sender w)) (ir_prg w);
            sender_shares = ir_sender_shares w @ map fst pairs; receiver_shares = ir_receiver_shares w @ map snd pairs
        in bindR (ole_deliver sender_shares (rs_queue (ir_sender w)) 0 (rs_id (ir_sender w))) (\<lambda>(so, i, sid).
           bindR (drain_front sender_shares i) (\<lambda>(_, sender_shares).
           bindR (ole_deliver receiver_shares (rs_queue (ir_receiver w)) 0 (rs_id (ir_receiver w))) (\<lambda>(ro, i, rid).
           bindR (drain_front receiver_shares i) (\<lambda>(_, receiver_shares).
             Inr (so, ro, w\<lparr>ir_prg := prg,
                            ir_sender := (ir_sender w)\<lparr>rs_alloc := 0, rs_queue := [], rs_id := sid\<rparr>,
                            ir_receiver := (ir_receiver w)\<lparr>rs_alloc := 0, rs_queue := [], rs_id := rid\<rparr>,
                            ir_sender_shares := sender_shares, ir_receiver_shares := receiver_shares\<rparr>))))))"

definition role_alloc_sender :: "('f, 'g) ideal_role \<Rightarrow> nat \<Rightarrow> ('f, 'g) ideal_role" where
  "role_alloc_sender w count = w\<lparr>ir_sender := (ir_sender w)\<lparr>rs_alloc := rs_alloc (ir_sender w) + count\<rparr>\<rparr>"

definition role_alloc_receiver :: "('f, 'g) ideal_role \<Rightarrow> nat \<Rightarrow> ('f, 'g) ideal_role" where
  "role_alloc_receiver w count = w\<lparr>ir_receiver := (ir_receiver w)\<lparr>rs_alloc := rs_alloc (ir_receiver w) + count\<rparr>\<rparr>"

definition role_sender_available :: "('f, 'g) ideal_role \<Rightarrow> nat" where
  "role_sender_available w = length (ir_sender_shares w)"

definition role_receiver_available :: "('f, 'g) ideal_role \<Rightarrow> nat" where
  "role_receiver_available w = length (ir_receiver_shares w)"

definition role_try_send :: "('f, 'g) ideal_role \<Rightarrow> nat \<Rightarrow> (ideal_role_error, 'f role_output \<times> ('f, 'g) ideal_role) result" where
  "role_try_send w count =
     (if count > length (ir_sender_shares w) then Inl (Err (RoleNotEnough (length (ir_sender_shares w)) count))
      else
        let (cur, oid) = next_id (rs_id (ir_sender w))
        in bindR (drain_front (ir_sender_shares w) count) (\<lambda>(shares, rest).
             Inr ((cur, shares), w\<lparr>ir_sender := (ir_sender w)\<lparr>rs_id := oid\<rparr>, ir_sender_shares := rest\<rparr>)))"

text \<open>The receiver's id is drawn from the sender's counter, as in the code.\<close>

definition role_try_recv :: "('f, 'g) ideal_role \<Rightarrow> nat \<Rightarrow> (ideal_role_error, 'f role_output \<times> ('f, 'g) ideal_role) result" where
  "role_try_recv w count =
     (if count > length (ir_receiver_shares w) then Inl (Err (RoleNotEnough (length (ir_receiver_shares w)) count))
      else
        let (cur, oid) = next_id (rs_id (ir_sender w))
        in bindR (drain_front (ir_receiver_shares w) count) (\<lambda>(shares, rest).
             Inr ((cur, shares), w\<lparr>ir_sender := (ir_sender w)\<lparr>rs_id := oid\<rparr>, ir_receiver_shares := rest\<rparr>)))"

definition role_queue_send :: "('f, 'g) ideal_role \<Rightarrow> nat \<Rightarrow> ('e, nat \<times> (nat \<times> 'f role_output) list \<times> ('f, 'g) ideal_role) result" where
  "role_queue_send w count =
     (let st = ir_sender w; ch = rs_chans st; st = st\<lparr>rs_chans := ch + 1\<rparr>
      in if length (ir_sender_shares w) \<ge> count then
           let (cur, oid) = next_id (rs_id st)
           in bindR (drain_front (ir_sender_shares w) count) (\<lambda>(shares, rest).
                Inr (ch, [(ch, (cur, shares))], w\<lparr>ir_sender := st\<lparr>rs_id := oid\<rparr>, ir_sender_shares := rest\<rparr>))
         else Inr (ch, [], w\<lparr>ir_sender := st\<lparr>rs_queue := rs_queue st @ [(count, ch)]\<rparr>\<rparr>))"

definition role_queue_recv :: "('f, 'g) ideal_role \<Rightarrow> nat \<Rightarrow> ('e, nat \<times> (nat \<times> 'f role_output) list \<times> ('f, 'g) ideal_role) result" where
  "role_queue_recv w count =
     (let st = ir_receiver w; ch = rs_chans st; st = st\<lparr>rs_chans := ch + 1\<rparr>
      in if length (ir_receiver_shares w) \<ge> count then
           let (cur, oid) = next_id (rs_id st)
           in bindR (drain_front (ir_receiver_shares w) count) (\<lambda>(shares, rest).
                Inr (ch, [(ch, (cur, shares))], w\<lparr>ir_receiver := st\<lparr>rs_id := oid\<rparr>, ir_receiver_shares := rest\<rparr>))
         else Inr (ch, [], w\<lparr>ir_receiver := st\<lparr>rs_queue := rs_queue st @ [(count, ch)]\<rparr>\<rparr>))"

text \<open>The two \<open>unwrap\<close>s of a transfer panic when an output was not delivered.\<close>

definition role_transfer ::
  "('g \<Rightarrow> 'f \<times> 'g) \<Rightarrow> ('f::field, 'g) ideal_role \<Rightarrow> nat \<Rightarrow>
     (ideal_role_error, 'f role_output \<times> 'f role_output \<times> ('f, 'g) ideal_role) result" where
  "role_transfer rand w count =
     bindR (role_queue_send w count) (\<lambda>(sch, so0, w).
     bindR (role_queue_recv w count) (\<lambda>(rch, ro0, w).
     bindR (role_flush rand w) (\<lambda>(so, ro, w).
       case (map_of (so0 @ so) sch, map_of (ro0 @ ro) rch) of
         (Some s, Some r) \<Rightarrow> Inr (s, r, w)
       | _ \<Rightarrow> Inl Panic)))"

section \<open>The correlation\<close>

definition ole_ok :: "'f::field ole_share \<Rightarrow> 'f ole_share \<Rightarrow> bool" where
  "ole_ok s r \<longleftrightarrow> ol_mul s * ol_mul r = ol_add s + ol_add r"

definition weighted :: "(nat \<Rightarrow> 'f) \<Rightarrow> nat \<Rightarrow> 'f::field list \<Rightarrow> 'f" where
  "weighted two_pow k xs = sum_list (map (\<lambda>(i, x). two_pow i * x) (enumerate k xs))"

lemma weighted_simps [simp]:
  "weighted tp k [] = 0"
  "weighted tp k (x # xs) = tp k * x + weighted tp (Suc k) xs"
  by (simp_all add: weighted_def)

lemma fold_sender_masks:
  "fold (\<lambda>(i, (zero, _)) acc. acc + tp i * zero) (enumerate k masks) acc = acc + weighted tp k (map fst masks)"
  by (induction masks arbitrary: k acc) (auto simp: algebra_simps)

lemma fold_receiver_masks:
  assumes "length choices = length masks"
  shows "fold (\<lambda>(i, ((choice, u), t)) (add, mul).
       (add + tp i * ((if choice then 1 else 0) * u + t), mul + tp i * (if choice then 1 else 0)))
     (enumerate k (zip (zip choices (map (\<lambda>(zero, one). zero - one + a) masks))
        (map2 (\<lambda>m c. if c then snd m else fst m) masks choices))) (add, mul) =
     (add + weighted tp k (map fst masks) + a * weighted tp k (map of_bool choices), mul + weighted tp k (map of_bool choices))"
  using assms
  by (induction choices masks arbitrary: k add mul rule: list_induct2) (auto simp: algebra_simps)

text \<open>Both parties' shares of one element, for any choice bits: no bit is reduced on the way.\<close>

lemma new_ole_ok:
  assumes "rot_match masks choices msgs"
  shows "ole_ok (fst (new_ole_sender tp a masks)) (new_ole_receiver tp choices msgs (snd (new_ole_sender tp a masks)))"
proof -
  have l: "length choices = length masks" and m: "msgs = map2 (\<lambda>m c. if c then snd m else fst m) masks choices"
    using assms by (simp_all add: rot_match_def)
  show ?thesis
    unfolding m using fold_receiver_masks [OF l, of tp 0 a 0 0] fold_sender_masks [of tp 0 masks 0]
    by (simp add: new_ole_sender_def new_ole_receiver_def ole_ok_def Let_def)
qed

lemma adjust_ok:
  assumes "ole_ok s r"
  shows "ole_ok (adj_sender_finish (share_adjust s a) (adjust_offset (share_adjust r b)))
    (adj_receiver_finish (share_adjust r b) (adjust_offset (share_adjust s a)))"
  using assms
  by (simp add: ole_ok_def share_adjust_def adjust_offset_def adj_sender_finish_def adj_receiver_finish_def algebra_simps)

section \<open>Transfers between related parties\<close>

definition ole_delivered :: "(nat \<times> 'f::field role_output) list \<Rightarrow> (nat \<times> 'f role_output) list \<Rightarrow> bool" where
  "ole_delivered so ro \<longleftrightarrow>
     list_all2 (\<lambda>(_, (sid, ss)) (_, (rid, rs)). sid = rid \<and> list_all2 ole_ok ss rs) so ro"

definition queued :: "(nat \<times> nat) list \<Rightarrow> nat" where
  "queued q = sum_list (map fst q)"

lemma queued_simps [simp]: "queued [] = 0" "queued ((n, ch) # q) = n + queued q" "queued (q @ [(n, ch)]) = queued q + n"
  by (simp_all add: queued_def)

lemma queued_cong: "map fst q = map fst q' \<Longrightarrow> queued q = queued q'"
  by (simp add: queued_def)

text \<open>What the loop hands out when the requests fit.\<close>

fun ole_outs :: "'a list \<Rightarrow> (nat \<times> nat) list \<Rightarrow> nat \<Rightarrow> ole_id \<Rightarrow> (nat \<times> (ole_id \<times> 'a list)) list" where
  "ole_outs shares [] i oid = []"
| "ole_outs shares ((n, ch) # q) i oid = (ch, (oid, take n (drop i shares))) # ole_outs shares q (i + n) (oid + 1)"

lemma ole_deliver_eq:
  "i \<le> length shares \<Longrightarrow> ole_deliver shares q i oid =
     (if i + queued q \<le> length shares then Inr (ole_outs shares q i oid, i + queued q, oid + of_nat (length q)) else Inl Panic)"
  by (induction shares q i oid rule: ole_outs.induct) (auto simp: subslice_def next_id_def add_ac)

lemma ole_outs_delivered:
  assumes "list_all2 ole_ok ss rs" "map fst qs = map fst qr"
  shows "ole_delivered (ole_outs ss qs i oid) (ole_outs rs qr i oid)"
  using assms(2)
proof (induction qs arbitrary: qr i oid)
  case (Cons q qs)
  then obtain n ch ch' qr' where "q = (n, ch)" "qr = (n, ch') # qr'" "map fst qs = map fst qr'"
    by (cases q; cases qr) auto
  moreover have "list_all2 ole_ok (take n (drop i ss)) (take n (drop i rs))"
    by (simp add: assms(1) list_all2_dropI list_all2_takeI)
  ultimately show ?case using Cons.IH [of qr' "i + n" "oid + 1"] by (simp add: ole_delivered_def)
qed (simp add: ole_delivered_def)

lemma ole_outs_chans [simp]: "map fst (ole_outs ss q i oid) = map snd q"
  by (induction ss q i oid rule: ole_outs.induct) auto

text \<open>The evaluation of both parties on matching random OTs, chunk by chunk.\<close>

lemma ole_evaluate_ok:
  assumes "0 < bits" "length ks = n * bits" "rot_match ks cs ms"
  shows "\<exists>shares masks g' rs. os_evaluate bits tp rand (chunks bits ks) g = (Inr (shares, masks, g') :: ('a, _) result) \<and>
    or_evaluate bits tp (zip (zip (chunks bits cs) (chunks bits ms)) masks) = (Inr rs :: ('b, _) result) \<and>
    length masks = n \<and> length shares = n \<and> list_all2 ole_ok shares rs"
  using assms(2,3)
proof (induction n arbitrary: ks cs ms g)
  case 0
  then show ?case by (auto simp: or_evaluate_def dest: rot_match_length)
next
  case (Suc n)
  have l: "length cs = length ks" "length ms = length ks" using rot_match_length [OF Suc.prems(2)] by auto
  have ne: "ks \<noteq> []" "cs \<noteq> []" "ms \<noteq> []" using Suc.prems(1) l assms(1) by auto
  note m = rot_match_split [OF Suc.prems(2), of bits]
  obtain a g1 where a: "rand g = (a, g1)" by (cases "rand g")
  obtain sh corr where sh: "new_ole_sender tp a (take bits ks) = (sh, corr)" by (cases "new_ole_sender tp a (take bits ks)")
  obtain shares masks g' rs where ih: "os_evaluate bits tp rand (chunks bits (drop bits ks)) g1 = (Inr (shares, masks, g') :: ('a, _) result)"
      "or_evaluate bits tp (zip (zip (chunks bits (drop bits cs)) (chunks bits (drop bits ms))) masks) = (Inr rs :: ('b, _) result)"
      "length masks = n" "length shares = n" "list_all2 ole_ok shares rs"
    using Suc.IH [of "drop bits ks" "drop bits cs" "drop bits ms" g1] Suc.prems(1) m by auto
  have "ole_ok sh (new_ole_receiver tp (take bits cs) (take bits ms) corr)"
    using new_ole_ok [of "take bits ks" "take bits cs" "take bits ms" tp a] m sh by simp
  with ih Suc.prems(1) show ?case
    by (simp add: chunks_step [OF assms(1)] ne a sh l or_evaluate_def)
qed

definition ole_rel :: "('s \<Rightarrow> 'r \<Rightarrow> bool) \<Rightarrow> ('f::field, 's, 'g) ole_sender \<Rightarrow> ('f, 'r) ole_receiver \<Rightarrow> bool" where
  "ole_rel rel s r \<longleftrightarrow>
     os_id s = or_id r \<and> os_alloc s = or_alloc r \<and> map fst (os_queue s) = map fst (or_queue r) \<and>
     os_pending s = queued (os_queue s) \<and> or_pending r = queued (or_queue r) \<and>
     list_all2 ole_ok (os_role s) (or_role r) \<and> rel (os_rot s) (or_rot r)"

locale ole_over_rot = rot_pair rel s_avail r_avail try_send try_recv
  for rel :: "'s \<Rightarrow> 'r \<Rightarrow> bool" and s_avail r_avail
    and try_send :: "'s \<Rightarrow> nat \<Rightarrow> ('e, ('f::field) rot_sender_output \<times> 's) result"
    and try_recv :: "'r \<Rightarrow> nat \<Rightarrow> ('h, 'f rot_receiver_output \<times> 'r) result" +
  fixes bits :: nat and two_pow :: "nat \<Rightarrow> 'f" and rand :: "'g \<Rightarrow> 'f \<times> 'g"
begin

lemma send_recv:
  assumes bits: "0 < bits" and rel: "ole_rel rel s r" and p: "os_pending s \<le> os_alloc s" and av: "os_alloc s * bits \<le> s_avail (os_rot s)"
  shows "\<exists>masks so ro s' r'. os_send bits two_pow rand try_send s = Inr (masks, so, s') \<and>
    or_recv bits two_pow try_recv r masks = Inr (ro, r') \<and> ole_delivered so ro \<and>
    map fst so = map snd (os_queue s) \<and> map fst ro = map snd (or_queue r) \<and> ole_rel rel s' r' \<and>
    \<not> os_wants_send s' \<and> os_queue s' = [] \<and> os_available s' + os_pending s = os_available s + os_alloc s"
proof -
  let ?n = "os_alloc s"
  note r = rel [unfolded ole_rel_def]
  obtain tid ks cs ms t u where t: "try_send (os_rot s) (?n * bits) = Inr ((tid, ks), t)"
      "try_recv (or_rot r) (?n * bits) = Inr ((tid, cs, ms), u)" "length ks = ?n * bits" "rot_match ks cs ms" "rel t u"
    using transfer [of "os_rot s" "or_rot r" "?n * bits"] r av by blast
  obtain shares masks g' rs where e: "os_evaluate bits two_pow rand (chunks bits ks) (os_prg s) = (Inr (shares, masks, g') :: ('e ole_error, _) result)"
      "or_evaluate bits two_pow (zip (zip (chunks bits cs) (chunks bits ms)) masks) = (Inr rs :: ('h ole_error, _) result)"
      "length masks = ?n" "length shares = ?n" "list_all2 ole_ok shares rs"
    using ole_evaluate_ok [OF bits t(3,4), of two_pow rand "os_prg s"] by blast
  have l: "length rs = ?n" using e(4,5) by (simp add: list_all2_lengthD)
  have rest: "list_all2 ole_ok (os_role s @ drop (os_pending s) shares) (or_role r @ drop (os_pending s) rs)"
    using r e(5) by (simp add: list_all2_appendI list_all2_dropI)
  have q: "queued (or_queue r) = queued (os_queue s)" using r by (metis queued_cong)
  have eqs: "os_pending s = queued (os_queue s)" "or_pending r = queued (os_queue s)" "or_alloc r = os_alloc s" "or_id r = os_id s"
    using r q by simp_all
  let ?so = "ole_outs shares (os_queue s) 0 (os_id s)" and ?ro = "ole_outs rs (or_queue r) 0 (os_id s)"
    and ?oid = "os_id s + of_nat (length (os_queue s))"
  have lq: "length (or_queue r) = length (os_queue s)" using r by (metis length_map)
  have S: "os_send bits two_pow rand try_send s = Inr (masks, ?so, s\<lparr>os_id := ?oid, os_alloc := 0, os_pending := 0, os_queue := [],
      os_rot := t, os_prg := g', os_role := os_role s @ drop (os_pending s) shares\<rparr>)" (is "_ = Inr (_, _, ?s')")
    using p e(4) by (simp add: os_send_def t(1) e(1) ole_deliver_eq subslice_def eqs(1))
  have R: "or_recv bits two_pow try_recv r masks = Inr (?ro, r\<lparr>or_id := ?oid, or_alloc := 0, or_pending := 0, or_queue := [],
      or_rot := u, or_role := or_role r @ drop (os_pending s) rs\<rparr>)" (is "_ = Inr (_, ?r')")
    using p e(3) l lq by (simp add: or_recv_def t(2) e(2) ole_deliver_eq subslice_def eqs q)
  have "ole_rel rel ?s' ?r'" "\<not> os_wants_send ?s'" "os_queue ?s' = []"
      "os_available ?s' + os_pending s = os_available s + os_alloc s"
    using rest t(5) p e(4) by (simp_all add: ole_rel_def os_wants_send_def os_available_def)
  moreover have "ole_delivered ?so ?ro" using r by (simp add: ole_outs_delivered e(5))
  ultimately show ?thesis using S R by fastforce
qed

end

interpretation ideal_ole: ole_over_rot rot_rel irs_available irr_available "any_try_send sample irs_try_send"
    "any_try_recv sample irr_try_recv" bits two_pow rand
  for sample :: "block \<Rightarrow> 'f::field" and bits two_pow and rand :: "'g \<Rightarrow> 'f \<times> 'g"
  by unfold_locales

text \<open>The interface of random OLE, and the pair of parties as an implementation of it.\<close>

locale role_pair =
  fixes rel :: "'s \<Rightarrow> 'r \<Rightarrow> bool"
    and s_avail :: "'s \<Rightarrow> nat"
    and r_avail :: "'r \<Rightarrow> nat"
    and try_send :: "'s \<Rightarrow> nat \<Rightarrow> ('e, ('f::field) role_output \<times> 's) result"
    and try_recv :: "'r \<Rightarrow> nat \<Rightarrow> ('h, 'f role_output \<times> 'r) result"
  assumes avail: "rel s r \<Longrightarrow> s_avail s = r_avail r"
    and transfer: "rel s r \<Longrightarrow> n \<le> s_avail s \<Longrightarrow>
      \<exists>oid ss rs s' r'. try_send s n = Inr ((oid, ss), s') \<and> try_recv r n = Inr ((oid, rs), r') \<and>
        length ss = n \<and> list_all2 ole_ok ss rs \<and> rel s' r' \<and> s_avail s' = s_avail s - n"

definition role_rel :: "('f::field, 's, 'g) ole_sender \<Rightarrow> ('f, 'r) ole_receiver \<Rightarrow> bool" where
  "role_rel s r \<longleftrightarrow> os_id s = or_id r \<and> list_all2 ole_ok (os_role s) (or_role r)"

interpretation roles: role_pair role_rel os_available or_available os_try_send_role or_try_recv_role
proof
  show "role_rel s r \<Longrightarrow> os_available s = or_available r" for s :: "('a, 'b, 'c) ole_sender" and r :: "('a, 'd) ole_receiver"
    by (auto simp: role_rel_def os_available_def or_available_def dest: list_all2_lengthD)
  show "\<exists>oid ss rs s' r'. os_try_send_role s n = Inr ((oid, ss), s') \<and> or_try_recv_role r n = Inr ((oid, rs), r') \<and>
      length ss = n \<and> list_all2 ole_ok ss rs \<and> role_rel s' r' \<and> os_available s' = os_available s - n"
    if "role_rel s r" "n \<le> os_available s" for s :: "('a, 'b, 'c) ole_sender" and r :: "('a, 'd) ole_receiver" and n
  proof -
    have m: "list_all2 ole_ok (os_role s) (or_role r)" "n \<le> length (os_role s)" "os_id s = or_id r"
      using that by (simp_all add: role_rel_def os_available_def)
    with list_all2_lengthD [OF m(1)] show ?thesis
      by (simp add: os_try_send_role_def or_try_recv_role_def drain_front_def next_id_def role_rel_def os_available_def
          list_all2_takeI list_all2_dropI)
  qed
qed

text \<open>The relation of running parties contains the one the interface needs.\<close>

lemma ole_rel_role_rel: "ole_rel rel s r \<Longrightarrow> role_rel s r"
  by (simp add: ole_rel_def role_rel_def)

section \<open>The ideal functionality is correct\<close>

lemma draw_roles_ok:
  "draw_roles rand n g = (ps, g') \<Longrightarrow> length ps = n \<and> list_all2 ole_ok (map fst ps) (map snd ps)"
proof (induction n arbitrary: g ps)
  case (Suc n)
  obtain p g1 where p: "role_shares rand g = (p, g1)" by (cases "role_shares rand g")
  obtain qs g2 where q: "draw_roles rand n g1 = (qs, g2)" by (cases "draw_roles rand n g1")
  have "ole_ok (fst p) (snd p)"
    using p by (auto simp: role_shares_def random_ole_def ole_ok_def split: prod.splits)
  moreover have "ps = p # qs" "g2 = g'" using Suc.prems p q by auto
  ultimately show ?case using Suc.IH [of g1 qs] q by simp
qed simp

definition ideal_role_ok :: "('f::field, 'g) ideal_role \<Rightarrow> bool" where
  "ideal_role_ok w \<longleftrightarrow>
     list_all2 ole_ok (ir_sender_shares w) (ir_receiver_shares w) \<and> rs_id (ir_sender w) = rs_id (ir_receiver w) \<and>
     map fst (rs_queue (ir_sender w)) = map fst (rs_queue (ir_receiver w))"

text \<open>
  A flush of the ideal random OLE in step on both sides: exactly when the queued requests fit what
  is held and allocated it succeeds, delivers correlated shares under equal ids on every queued
  channel, and leaves both sides in step with empty queues; otherwise it panics.
\<close>

theorem ideal_role_flush:
  assumes "ideal_role_ok w" "rs_alloc (ir_sender w) = rs_alloc (ir_receiver w)"
  shows "(case role_flush rand w of
      Inr (so, ro, w') \<Rightarrow> queued (rs_queue (ir_sender w)) \<le> length (ir_sender_shares w) + rs_alloc (ir_sender w) \<and>
        ole_delivered so ro \<and> map fst so = map snd (rs_queue (ir_sender w)) \<and>
        map fst ro = map snd (rs_queue (ir_receiver w)) \<and> ideal_role_ok w' \<and> \<not> role_wants_flush w'
    | Inl f \<Rightarrow> f = Panic \<and> length (ir_sender_shares w) + rs_alloc (ir_sender w) < queued (rs_queue (ir_sender w)))"
proof -
  let ?n = "rs_alloc (ir_sender w)" and ?qs = "rs_queue (ir_sender w)" and ?qr = "rs_queue (ir_receiver w)"
  obtain ps g' where d: "draw_roles rand ?n (ir_prg w) = (ps, g')" by (cases "draw_roles rand ?n (ir_prg w)")
  define ss rs where "ss = ir_sender_shares w @ map fst ps" and "rs = ir_receiver_shares w @ map snd ps"
  have ok: "list_all2 ole_ok ss rs"
    using assms(1) draw_roles_ok [OF d] by (simp add: ss_def rs_def ideal_role_ok_def list_all2_appendI)
  have lss: "length ss = length (ir_sender_shares w) + ?n" using draw_roles_ok [OF d] by (simp add: ss_def)
  have lrs: "length rs = length ss" using ok by (simp add: list_all2_lengthD)
  have q: "map fst ?qs = map fst ?qr" "rs_id (ir_receiver w) = rs_id (ir_sender w)" "queued ?qr = queued ?qs" "length ?qr = length ?qs"
    using assms(1) by (simp_all add: ideal_role_ok_def queued_def) (metis length_map)
  have f: "role_flush rand w =
      bindR (ole_deliver ss ?qs 0 (rs_id (ir_sender w))) (\<lambda>(so, i, sid).
      bindR (drain_front ss i) (\<lambda>(_, sender_shares).
      bindR (ole_deliver rs ?qr 0 (rs_id (ir_receiver w))) (\<lambda>(ro, i, rid).
      bindR (drain_front rs i) (\<lambda>(_, receiver_shares).
        Inr (so, ro, w\<lparr>ir_prg := g', ir_sender := (ir_sender w)\<lparr>rs_alloc := 0, rs_queue := [], rs_id := sid\<rparr>,
                        ir_receiver := (ir_receiver w)\<lparr>rs_alloc := 0, rs_queue := [], rs_id := rid\<rparr>,
                        ir_sender_shares := sender_shares, ir_receiver_shares := receiver_shares\<rparr>)))))"
    using assms(2) d by (simp add: role_flush_def ss_def rs_def Let_def)
  show ?thesis
    using lss lrs ole_outs_delivered [OF ok q(1), of 0 "rs_id (ir_sender w)"]
    by (simp add: f ole_deliver_eq q drain_front_def ideal_role_ok_def role_wants_flush_def ok list_all2_dropI)
qed

theorem ideal_role_flush_witness:
  "let w = role_alloc_receiver (role_alloc_sender (ideal_role_new ()) 1) 1 in
   case role_flush (\<lambda>g. (Gf2 True, g)) w of
     Inr (so, ro, w') \<Rightarrow> queued (rs_queue (ir_sender w)) \<le> length (ir_sender_shares w) + rs_alloc (ir_sender w) \<and>
       ole_delivered so ro \<and> map fst so = map snd (rs_queue (ir_sender w)) \<and>
       map fst ro = map snd (rs_queue (ir_receiver w)) \<and> ideal_role_ok w' \<and> \<not> role_wants_flush w'
   | Inl f \<Rightarrow> f = Panic \<and> length (ir_sender_shares w) + rs_alloc (ir_sender w) < queued (rs_queue (ir_sender w))"
  unfolding Let_def
  by (rule ideal_role_flush)
    (simp_all add: ideal_role_ok_def ideal_role_new_def role_state_default_def role_alloc_sender_def role_alloc_receiver_def)

text \<open>
  In the ideal functionality the receiver's direct transfer draws its id from the sender's counter:
  after a matching pair of direct transfers the two outputs carry different ids, and the receiver's
  own counter has not moved.
\<close>

theorem ideal_role_ids_diverge:
  assumes "ideal_role_ok w" "n \<le> length (ir_sender_shares w)"
  shows "\<exists>ss w1 rs w2. role_try_send w n = Inr ((rs_id (ir_sender w), ss), w1) \<and>
    role_try_recv w1 n = Inr ((rs_id (ir_sender w) + 1, rs), w2) \<and> list_all2 ole_ok ss rs \<and>
    rs_id (ir_sender w2) = rs_id (ir_sender w) + 2 \<and> rs_id (ir_receiver w2) = rs_id (ir_receiver w)"
proof -
  have "list_all2 ole_ok (ir_sender_shares w) (ir_receiver_shares w)" using assms(1) by (simp add: ideal_role_ok_def)
  then show ?thesis
    using assms(2) list_all2_lengthD [of ole_ok "ir_sender_shares w" "ir_receiver_shares w"]
    by (simp add: role_try_send_def role_try_recv_def drain_front_def next_id_def list_all2_takeI)
qed

theorem ideal_role_ids_diverge_witness:
  "\<exists>ss w1 rs w2. role_try_send (ideal_role_new () :: (gf2, unit) ideal_role) 0 = Inr ((0, ss), w1) \<and>
    role_try_recv w1 0 = Inr ((1, rs), w2) \<and> list_all2 ole_ok ss rs \<and>
    rs_id (ir_sender w2) = 2 \<and> rs_id (ir_receiver w2) = 0"
  using ideal_role_ids_diverge [of "ideal_role_new () :: (gf2, unit) ideal_role" 0]
  by (simp add: ideal_role_ok_def ideal_role_new_def role_state_default_def)

section \<open>Random OLE over random OT\<close>

text \<open>
  C23. One exchange of the OLE protocol over random OT whose messages are mapped to field elements: if
  enough OTs are available and the queue fits the allocation, sending and receiving succeed for
  every field, every bit decomposition of the receiver's choices and every randomness; every share pair, delivered
  or kept, satisfies the OLE relation, the ids agree, and both ends remain in step.  If the queue does
  not fit, the sender returns \<open>InsufficientOle\<close>.
\<close>

theorem ole_transfer:
  fixes s :: "('f::field, ideal_rot_sender, 'g) ole_sender" and r :: "('f, 'h ideal_rot_receiver) ole_receiver"
  assumes "0 < bits" "ole_rel rot_rel s r" "os_alloc s * bits \<le> irs_available (os_rot s)"
  shows "if os_pending s \<le> os_alloc s then
      \<exists>masks so ro s' r'. os_send bits two_pow rand (any_try_send sample irs_try_send) s = Inr (masks, so, s') \<and>
        or_recv bits two_pow (any_try_recv sample irr_try_recv) r masks = Inr (ro, r') \<and> ole_delivered so ro \<and>
        map fst so = map snd (os_queue s) \<and> map fst ro = map snd (or_queue r) \<and> ole_rel rot_rel s' r' \<and>
        \<not> os_wants_send s' \<and> os_queue s' = [] \<and> os_available s' + os_pending s = os_available s + os_alloc s
    else os_send bits two_pow rand (any_try_send sample irs_try_send) s = Inl (Err (InsufficientOle (os_pending s) (os_alloc s)))"
  using ideal_ole.send_recv [OF assms(1,2) _ assms(3), of two_pow rand sample] by (simp add: os_send_def)

theorem ole_transfer_witness:
  "let s = (os_new () ((irs_new 0)\<lparr>irs_keys := [(0, 1)]\<rparr>))\<lparr>os_alloc := 1\<rparr>;
       r = (or_new ((irr_new ())\<lparr>irr_choices := [True], irr_msgs := [1]\<rparr>))\<lparr>or_alloc := 1\<rparr>;
       sample = (\<lambda>b. Gf2 (bit b 0)); tp = (\<lambda>_. Gf2 True); rand = (\<lambda>g. (Gf2 True, g))
   in \<exists>masks so ro s' r'. os_send 1 tp rand (any_try_send sample irs_try_send) s = Inr (masks, so, s') \<and>
        or_recv 1 tp (any_try_recv sample irr_try_recv) r masks = Inr (ro, r') \<and> ole_delivered so ro \<and>
        map fst so = map snd (os_queue s) \<and> map fst ro = map snd (or_queue r) \<and> ole_rel rot_rel s' r' \<and>
        \<not> os_wants_send s' \<and> os_queue s' = [] \<and> os_available s' + os_pending s = os_available s + os_alloc s"
proof -
  let ?s = "(os_new () ((irs_new 0)\<lparr>irs_keys := [(0, 1)]\<rparr>))\<lparr>os_alloc := 1\<rparr> :: (gf2, _, unit) ole_sender"
  let ?r = "(or_new ((irr_new ())\<lparr>irr_choices := [True], irr_msgs := [1]\<rparr>))\<lparr>or_alloc := 1\<rparr>"
  have rel: "ole_rel rot_rel ?s ?r"
    by (simp add: ole_rel_def os_new_def or_new_def rot_rel_def rot_match_def irs_new_def irr_new_def)
  have av: "os_alloc ?s * 1 \<le> irs_available (os_rot ?s)" and p: "os_pending ?s \<le> os_alloc ?s"
    by (simp_all add: os_new_def irs_available_def)
  show ?thesis
    unfolding Let_def using ole_transfer [OF zero_less_one rel av] p by (simp only: if_True)
qed

end
