(* ===== verification/Share_Conversion.thy ===== *)
theory Share_Conversion
  imports Ole
begin

text \<open>
  Conversion between additive and multiplicative shares of a field element
  (\<open>share-conversion-core/src/a2m.rs\<close>, \<open>sender.rs\<close>, \<open>receiver.rs\<close>) over any random OLE, and the ideal
  functionality (\<open>ideal.rs\<close>).  \<open>invert\<close> is the method \<open>Field::inverse\<close> of the type.
\<close>

section \<open>Additive to multiplicative, one element\<close>

record 'f a2m_sender_derand =
  sd_input :: 'f
  sd_add :: 'f
  sd_mul :: 'f

record 'f a2m_sender_adjust =
  sa_input :: 'f
  sa_add :: 'f
  sa_mul :: 'f

datatype a2m_error = A2MError

definition a2m_sender_new :: "'f \<Rightarrow> 'f ole_share \<Rightarrow> 'f a2m_sender_derand" where
  "a2m_sender_new input role = \<lparr>sd_input = input, sd_add = ol_add role, sd_mul = ol_mul role\<rparr>"

definition a2m_sender_offset :: "'f::field a2m_sender_derand \<Rightarrow> 'f \<Rightarrow> 'f a2m_sender_adjust" where
  "a2m_sender_offset d offset = \<lparr>sa_input = sd_input d, sa_add = sd_add d + sd_mul d * offset, sa_mul = sd_mul d\<rparr>"

definition a2m_sender_send :: "('f \<Rightarrow> 'f option) \<Rightarrow> 'f::field a2m_sender_adjust \<Rightarrow> (a2m_error, 'f \<times> 'f) result" where
  "a2m_sender_send invert a =
     (let masked = (sa_input a * sa_mul a) + sa_add a
      in case invert (sa_mul a) of None \<Rightarrow> Inl (Err A2MError) | Some output \<Rightarrow> Inr (output, masked))"

record 'f a2m_receiver_derand =
  rd_input :: 'f
  rd_add :: 'f
  rd_mul :: 'f

record 'f a2m_receiver_adjust =
  ra_add :: 'f

definition a2m_receiver_new :: "'f \<Rightarrow> 'f ole_share \<Rightarrow> 'f a2m_receiver_derand" where
  "a2m_receiver_new input role = \<lparr>rd_input = input, rd_add = ol_add role, rd_mul = ol_mul role\<rparr>"

definition a2m_receiver_offset :: "'f::field a2m_receiver_derand \<Rightarrow> 'f a2m_receiver_adjust \<times> 'f" where
  "a2m_receiver_offset d = (let offset = rd_input d - rd_mul d in (\<lparr>ra_add = rd_add d\<rparr>, offset))"

definition a2m_receiver_receive :: "'f::field a2m_receiver_adjust \<Rightarrow> 'f \<Rightarrow> 'f" where
  "a2m_receiver_receive a masked = ra_add a + masked"

section \<open>The sender\<close>

text \<open>Queue entries are pairs of a count and an output channel; channels are numbered as they are made.\<close>

datatype 'e sc_error = ScOle 'e | ScA2M a2m_error | WrongA2MCount nat nat | WrongM2ACount nat nat

record ('f, 't) sc_sender =
  ss_role :: 't
  ss_queue_a2m :: "(nat \<times> nat) list"
  ss_queue_m2a :: "(nat \<times> nat) list"
  ss_a2m_inputs :: "'f list"
  ss_a2m_adjust :: "'f a2m_sender_adjust list"
  ss_m2a_inputs :: "'f list"
  ss_m2a_adjust :: "'f adjust list"
  ss_chans :: nat

definition ss_new :: "'t \<Rightarrow> ('f, 't) sc_sender" where
  "ss_new role = \<lparr>ss_role = role, ss_queue_a2m = [], ss_queue_m2a = [], ss_a2m_inputs = [], ss_a2m_adjust = [],
     ss_m2a_inputs = [], ss_m2a_adjust = [], ss_chans = 0\<rparr>"

definition ss_wants_a2m :: "('f, 't) sc_sender \<Rightarrow> bool" where
  "ss_wants_a2m s \<longleftrightarrow> ss_a2m_inputs s \<noteq> []"

definition ss_wants_m2a :: "('f, 't) sc_sender \<Rightarrow> bool" where
  "ss_wants_m2a s \<longleftrightarrow> ss_m2a_inputs s \<noteq> []"

definition ss_wants_flush :: "('f, 't) sc_sender \<Rightarrow> bool" where
  "ss_wants_flush s \<longleftrightarrow> ss_wants_a2m s \<or> ss_wants_m2a s"

text \<open>The loop over a queue: each entry takes the next elements of the iterator, fewer if it runs out.\<close>

fun sc_deliver :: "(nat \<times> nat) list \<Rightarrow> 'a list \<Rightarrow> (nat \<times> 'a list) list" where
  "sc_deliver [] outputs = []"
| "sc_deliver ((count, ch) # q) outputs = (ch, take count outputs) # sc_deliver q (drop count outputs)"

text \<open>
  An error in the loop over the adjustments drops the remaining ones and leaves the queue; the state
  it leaves is returned with it.
\<close>

definition ss_send_a2m ::
  "('f \<Rightarrow> 'f option) \<Rightarrow> ('f::field, 't) sc_sender \<Rightarrow> ('e sc_error, 'f list \<times> (nat \<times> 'f list) list) result \<times> ('f, 't) sc_sender" where
  "ss_send_a2m invert s =
     (let adjusts = ss_a2m_adjust s; s = s\<lparr>ss_a2m_adjust := []\<rparr>
      in case map_err ScA2M (mapR (a2m_sender_send invert) adjusts) of
           Inl e \<Rightarrow> (Inl e, s)
         | Inr rs \<Rightarrow> (Inr (map snd rs, sc_deliver (ss_queue_a2m s) (map fst rs)), s\<lparr>ss_queue_a2m := []\<rparr>))"

definition ss_recv_a2m ::
  "('t \<Rightarrow> nat \<Rightarrow> ('e, 'f role_output \<times> 't) result) \<Rightarrow> ('f::field, 't) sc_sender \<Rightarrow> 'f list \<Rightarrow> ('e sc_error, ('f, 't) sc_sender) result" where
  "ss_recv_a2m try_send_role s offsets =
     (if length (ss_a2m_inputs s) \<noteq> length offsets
      then Inl (Err (WrongA2MCount (length (ss_a2m_inputs s)) (length offsets)))
      else
        bindR (map_err ScOle (try_send_role (ss_role s) (length (ss_a2m_inputs s)))) (\<lambda>((_, shares), role).
          Inr (s\<lparr>ss_role := role, ss_a2m_inputs := [],
                 ss_a2m_adjust := ss_a2m_adjust s @
                   map (\<lambda>((input, share), offset). a2m_sender_offset (a2m_sender_new input share) offset)
                     (zip (zip (ss_a2m_inputs s) shares) offsets)\<rparr>)))"

definition ss_send_m2a ::
  "('t \<Rightarrow> nat \<Rightarrow> ('e, 'f role_output \<times> 't) result) \<Rightarrow> ('f::field, 't) sc_sender \<Rightarrow> ('e sc_error, 'f list \<times> ('f, 't) sc_sender) result" where
  "ss_send_m2a try_send_role s =
     bindR (map_err ScOle (try_send_role (ss_role s) (length (ss_m2a_inputs s)))) (\<lambda>((_, shares), role).
       let adjusts = map2 (\<lambda>input share. share_adjust share input) (ss_m2a_inputs s) shares
       in Inr (map adjust_offset adjusts,
               s\<lparr>ss_role := role, ss_m2a_inputs := [], ss_m2a_adjust := ss_m2a_adjust s @ adjusts\<rparr>))"

definition ss_recv_m2a ::
  "('f::field, 't) sc_sender \<Rightarrow> 'f list \<Rightarrow> ('e sc_error, (nat \<times> 'f list) list \<times> ('f, 't) sc_sender) result" where
  "ss_recv_m2a s offsets =
     (if length offsets \<noteq> length (ss_m2a_adjust s)
      then Inl (Err (WrongM2ACount (length (ss_m2a_adjust s)) (length offsets)))
      else
        let shares = map2 (\<lambda>offset adjust. ol_add (adj_sender_finish adjust offset)) offsets (ss_m2a_adjust s)
        in Inr (sc_deliver (ss_queue_m2a s) shares, s\<lparr>ss_m2a_adjust := [], ss_queue_m2a := []\<rparr>))"

definition ss_alloc :: "('t \<Rightarrow> nat \<Rightarrow> ('e, 't) result) \<Rightarrow> ('f, 't) sc_sender \<Rightarrow> nat \<Rightarrow> ('e sc_error, ('f, 't) sc_sender) result" where
  "ss_alloc role_alloc s count = bindR (map_err ScOle (role_alloc (ss_role s) count)) (\<lambda>role. Inr (s\<lparr>ss_role := role\<rparr>))"

definition ss_to_multiplicative :: "('f, 't) sc_sender \<Rightarrow> 'f list \<Rightarrow> nat \<times> ('f, 't) sc_sender" where
  "ss_to_multiplicative s inputs =
     (let ch = ss_chans s
      in (ch, s\<lparr>ss_chans := ch + 1, ss_a2m_inputs := ss_a2m_inputs s @ inputs,
                ss_queue_a2m := ss_queue_a2m s @ [(length inputs, ch)]\<rparr>))"

definition ss_to_additive :: "('f, 't) sc_sender \<Rightarrow> 'f list \<Rightarrow> nat \<times> ('f, 't) sc_sender" where
  "ss_to_additive s inputs =
     (let ch = ss_chans s
      in (ch, s\<lparr>ss_chans := ch + 1, ss_m2a_inputs := ss_m2a_inputs s @ inputs,
                ss_queue_m2a := ss_queue_m2a s @ [(length inputs, ch)]\<rparr>))"

section \<open>The receiver\<close>

record ('f, 't) sc_receiver =
  sr_role :: 't
  sr_queue_a2m :: "(nat \<times> nat) list"
  sr_queue_m2a :: "(nat \<times> nat) list"
  sr_a2m_inputs :: "'f list"
  sr_a2m_adjust :: "'f a2m_receiver_adjust list"
  sr_m2a_inputs :: "'f list"
  sr_m2a_adjust :: "'f adjust list"
  sr_chans :: nat

definition sr_new :: "'t \<Rightarrow> ('f, 't) sc_receiver" where
  "sr_new role = \<lparr>sr_role = role, sr_queue_a2m = [], sr_queue_m2a = [], sr_a2m_inputs = [], sr_a2m_adjust = [],
     sr_m2a_inputs = [], sr_m2a_adjust = [], sr_chans = 0\<rparr>"

definition sr_wants_a2m :: "('f, 't) sc_receiver \<Rightarrow> bool" where
  "sr_wants_a2m r \<longleftrightarrow> sr_a2m_inputs r \<noteq> []"

definition sr_wants_m2a :: "('f, 't) sc_receiver \<Rightarrow> bool" where
  "sr_wants_m2a r \<longleftrightarrow> sr_m2a_inputs r \<noteq> []"

definition sr_wants_flush :: "('f, 't) sc_receiver \<Rightarrow> bool" where
  "sr_wants_flush r \<longleftrightarrow> sr_wants_a2m r \<or> sr_wants_m2a r"

definition sr_send_a2m ::
  "('t \<Rightarrow> nat \<Rightarrow> ('e, 'f role_output \<times> 't) result) \<Rightarrow> ('f::field, 't) sc_receiver \<Rightarrow> ('e sc_error, 'f list \<times> ('f, 't) sc_receiver) result" where
  "sr_send_a2m try_recv_role r =
     bindR (map_err ScOle (try_recv_role (sr_role r) (length (sr_a2m_inputs r)))) (\<lambda>((_, shares), role).
       let outs = map2 (\<lambda>input share. a2m_receiver_offset (a2m_receiver_new input share)) (sr_a2m_inputs r) shares
       in Inr (map snd outs, r\<lparr>sr_role := role, sr_a2m_inputs := [], sr_a2m_adjust := sr_a2m_adjust r @ map fst outs\<rparr>))"

definition sr_recv_a2m ::
  "('f::field, 't) sc_receiver \<Rightarrow> 'f list \<Rightarrow> ('e sc_error, (nat \<times> 'f list) list \<times> ('f, 't) sc_receiver) result" where
  "sr_recv_a2m r masked_shares =
     (if length masked_shares \<noteq> length (sr_a2m_adjust r)
      then Inl (Err (WrongA2MCount (length (sr_a2m_adjust r)) (length masked_shares)))
      else
        let outputs = map2 a2m_receiver_receive (sr_a2m_adjust r) masked_shares
        in Inr (sc_deliver (sr_queue_a2m r) outputs, r\<lparr>sr_a2m_adjust := [], sr_queue_a2m := []\<rparr>))"

definition sr_send_m2a ::
  "('t \<Rightarrow> nat \<Rightarrow> ('e, 'f role_output \<times> 't) result) \<Rightarrow> ('f::field, 't) sc_receiver \<Rightarrow> ('e sc_error, 'f list \<times> ('f, 't) sc_receiver) result" where
  "sr_send_m2a try_recv_role r =
     bindR (map_err ScOle (try_recv_role (sr_role r) (length (sr_m2a_inputs r)))) (\<lambda>((_, shares), role).
       let adjusts = map2 (\<lambda>input share. share_adjust share input) (sr_m2a_inputs r) shares
       in Inr (map adjust_offset adjusts,
               r\<lparr>sr_role := role, sr_m2a_inputs := [], sr_m2a_adjust := sr_m2a_adjust r @ adjusts\<rparr>))"

definition sr_recv_m2a ::
  "('f::field, 't) sc_receiver \<Rightarrow> 'f list \<Rightarrow> ('e sc_error, (nat \<times> 'f list) list \<times> ('f, 't) sc_receiver) result" where
  "sr_recv_m2a r offsets =
     (if length offsets \<noteq> length (sr_m2a_adjust r)
      then Inl (Err (WrongM2ACount (length (sr_m2a_adjust r)) (length offsets)))
      else
        let shares = map2 (\<lambda>offset adjust. ol_add (adj_receiver_finish adjust offset)) offsets (sr_m2a_adjust r)
        in Inr (sc_deliver (sr_queue_m2a r) shares, r\<lparr>sr_m2a_adjust := [], sr_queue_m2a := []\<rparr>))"

definition sr_alloc :: "('t \<Rightarrow> nat \<Rightarrow> ('e, 't) result) \<Rightarrow> ('f, 't) sc_receiver \<Rightarrow> nat \<Rightarrow> ('e sc_error, ('f, 't) sc_receiver) result" where
  "sr_alloc role_alloc r count = bindR (map_err ScOle (role_alloc (sr_role r) count)) (\<lambda>role. Inr (r\<lparr>sr_role := role\<rparr>))"

definition sr_to_multiplicative :: "('f, 't) sc_receiver \<Rightarrow> 'f list \<Rightarrow> nat \<times> ('f, 't) sc_receiver" where
  "sr_to_multiplicative r inputs =
     (let ch = sr_chans r
      in (ch, r\<lparr>sr_chans := ch + 1, sr_a2m_inputs := sr_a2m_inputs r @ inputs,
                sr_queue_a2m := sr_queue_a2m r @ [(length inputs, ch)]\<rparr>))"

definition sr_to_additive :: "('f, 't) sc_receiver \<Rightarrow> 'f list \<Rightarrow> nat \<times> ('f, 't) sc_receiver" where
  "sr_to_additive r inputs =
     (let ch = sr_chans r
      in (ch, r\<lparr>sr_chans := ch + 1, sr_m2a_inputs := sr_m2a_inputs r @ inputs,
                sr_queue_m2a := sr_queue_m2a r @ [(length inputs, ch)]\<rparr>))"

section \<open>The ideal functionality\<close>

record 'f sc_state =
  st_a2m_alloc :: nat
  st_a2m_queue :: "(nat \<times> nat) list"
  st_a2m_inputs :: "'f list"
  st_m2a_alloc :: nat
  st_m2a_queue :: "(nat \<times> nat) list"
  st_m2a_inputs :: "'f list"
  st_chans :: nat

record ('f, 'g) ideal_sc =
  sc_prg :: 'g
  sc_sender_state :: "'f sc_state"
  sc_receiver_state :: "'f sc_state"

datatype ideal_sc_error = NotReady | A2MAlloc nat nat | M2AAlloc nat nat

definition sc_state_default :: "'f sc_state" where
  "sc_state_default = \<lparr>st_a2m_alloc = 0, st_a2m_queue = [], st_a2m_inputs = [], st_m2a_alloc = 0, st_m2a_queue = [],
     st_m2a_inputs = [], st_chans = 0\<rparr>"

definition ideal_share_convert :: "'g \<Rightarrow> ('f, 'g) ideal_sc" where
  "ideal_share_convert prg = \<lparr>sc_prg = prg, sc_sender_state = sc_state_default, sc_receiver_state = sc_state_default\<rparr>"

definition isc_wants_flush :: "('f, 'g) ideal_sc \<Rightarrow> bool" where
  "isc_wants_flush w \<longleftrightarrow>
     (let s = sc_sender_state w; r = sc_receiver_state w;
          wants_a2m = 0 < length (st_a2m_queue s) \<or> 0 < length (st_a2m_queue r);
          wants_m2a = 0 < length (st_m2a_queue s) \<or> 0 < length (st_m2a_queue r)
      in wants_a2m \<or> wants_m2a)"

fun draw_elems :: "('g \<Rightarrow> 'f \<times> 'g) \<Rightarrow> nat \<Rightarrow> 'g \<Rightarrow> 'f list \<times> 'g" where
  "draw_elems rand 0 g = ([], g)"
| "draw_elems rand (Suc n) g = (let (x, g) = rand g; (xs, g) = draw_elems rand n g in (x # xs, g))"

text \<open>One of the four loops over a queue: each request gets its slice of the outputs.\<close>

fun isc_deliver :: "'a list \<Rightarrow> (nat \<times> nat) list \<Rightarrow> nat \<Rightarrow> ('e, (nat \<times> 'a list) list) result" where
  "isc_deliver outputs [] i = Inr []"
| "isc_deliver outputs ((count, ch) # q) i =
     bindR (subslice outputs i (i + count)) (\<lambda>shares.
     bindR (isc_deliver outputs q (i + count)) (\<lambda>outs. Inr ((ch, shares) # outs)))"

definition isc_clear :: "'f sc_state \<Rightarrow> 'f sc_state" where
  "isc_clear st = st\<lparr>st_a2m_alloc := 0, st_a2m_queue := [], st_a2m_inputs := [], st_m2a_alloc := 0, st_m2a_queue := [], st_m2a_inputs := []\<rparr>"

type_synonym 'f sc_outs = "(nat \<times> 'f list) list"

definition isc_flush ::
  "('f \<Rightarrow> 'f option) \<Rightarrow> ('g \<Rightarrow> 'f \<times> 'g) \<Rightarrow> ('f::field, 'g) ideal_sc \<Rightarrow>
     (ideal_sc_error, ('f sc_outs \<times> 'f sc_outs) \<times> ('f sc_outs \<times> 'f sc_outs) \<times> ('f, 'g) ideal_sc) result" where
  "isc_flush invert rand w =
     (let s = sc_sender_state w; r = sc_receiver_state w
      in if \<not> isc_wants_flush w then Inl (Err NotReady)
         else if st_a2m_alloc s \<noteq> st_a2m_alloc r then Inl (Err (A2MAlloc (st_a2m_alloc s) (st_a2m_alloc r)))
         else if st_m2a_alloc s \<noteq> st_m2a_alloc r then Inl (Err (M2AAlloc (st_m2a_alloc s) (st_m2a_alloc r)))
         else
           let (sender_a2m, g) = draw_elems rand (length (st_a2m_inputs s)) (sc_prg w)
           in bindR (mapR (\<lambda>((x, y), a). case invert a of None \<Rightarrow> Inl Panic | Some i \<Rightarrow> Inr ((x + y) * i))
                       (zip (zip (st_a2m_inputs r) (st_a2m_inputs s)) sender_a2m)) (\<lambda>receiver_a2m.
              let (sender_m2a, g) = draw_elems rand (length (st_m2a_inputs s)) g;
                  receiver_m2a = map (\<lambda>((a, b), x). (a * b) - x) (zip (zip (st_m2a_inputs r) (st_m2a_inputs s)) sender_m2a)
              in bindR (isc_deliver sender_a2m (st_a2m_queue s) 0) (\<lambda>sa.
                 bindR (isc_deliver receiver_a2m (st_a2m_queue r) 0) (\<lambda>ra.
                 bindR (isc_deliver sender_m2a (st_m2a_queue s) 0) (\<lambda>sm.
                 bindR (isc_deliver receiver_m2a (st_m2a_queue r) 0) (\<lambda>rm.
                   Inr ((sa, ra), (sm, rm),
                        w\<lparr>sc_prg := g, sc_sender_state := isc_clear s, sc_receiver_state := isc_clear r\<rparr>)))))))"

text \<open>The operations of one party, on its half of the state; an allocation replaces the previous one.\<close>

definition st_alloc_a2m :: "'f sc_state \<Rightarrow> nat \<Rightarrow> 'f sc_state" where
  "st_alloc_a2m st count = st\<lparr>st_a2m_alloc := count\<rparr>"

definition st_alloc_m2a :: "'f sc_state \<Rightarrow> nat \<Rightarrow> 'f sc_state" where
  "st_alloc_m2a st count = st\<lparr>st_m2a_alloc := count\<rparr>"

definition st_to_multiplicative :: "'f sc_state \<Rightarrow> 'f list \<Rightarrow> nat \<times> 'f sc_state" where
  "st_to_multiplicative st inputs =
     (let ch = st_chans st
      in (ch, st\<lparr>st_chans := ch + 1, st_a2m_inputs := st_a2m_inputs st @ inputs,
                 st_a2m_queue := st_a2m_queue st @ [(length inputs, ch)]\<rparr>))"

definition st_to_additive :: "'f sc_state \<Rightarrow> 'f list \<Rightarrow> nat \<times> 'f sc_state" where
  "st_to_additive st inputs =
     (let ch = st_chans st
      in (ch, st\<lparr>st_chans := ch + 1, st_m2a_inputs := st_m2a_inputs st @ inputs,
                 st_m2a_queue := st_m2a_queue st @ [(length inputs, ch)]\<rparr>))"

section \<open>Correctness over any random OLE\<close>

definition sc_ready_a2m :: "('s \<Rightarrow> 'r \<Rightarrow> bool) \<Rightarrow> ('f, 's) sc_sender \<Rightarrow> ('f, 'r) sc_receiver \<Rightarrow> bool" where
  "sc_ready_a2m rel s r \<longleftrightarrow>
     rel (ss_role s) (sr_role r) \<and> map fst (ss_queue_a2m s) = map fst (sr_queue_a2m r) \<and>
     length (ss_a2m_inputs s) = length (sr_a2m_inputs r) \<and> ss_a2m_adjust s = [] \<and> sr_a2m_adjust r = []"

definition sc_ready_m2a :: "('s \<Rightarrow> 'r \<Rightarrow> bool) \<Rightarrow> ('f, 's) sc_sender \<Rightarrow> ('f, 'r) sc_receiver \<Rightarrow> bool" where
  "sc_ready_m2a rel s r \<longleftrightarrow>
     rel (ss_role s) (sr_role r) \<and> map fst (ss_queue_m2a s) = map fst (sr_queue_m2a r) \<and>
     length (ss_m2a_inputs s) = length (sr_m2a_inputs r) \<and> ss_m2a_adjust s = [] \<and> sr_m2a_adjust r = []"

lemma mapR_error: "x \<in> set xs \<Longrightarrow> f x = Inl e \<Longrightarrow> (\<And>y e'. f y = Inl e' \<Longrightarrow> e' = e) \<Longrightarrow> mapR f xs = Inl e"
proof (induction xs)
  case (Cons a xs)
  show ?case
  proof (cases "f a")
    case (Inl e')
    then show ?thesis using Cons.prems(3) by simp
  next
    case (Inr y)
    then have "x \<in> set xs" using Cons.prems(1,2) by auto
    then have "mapR f xs = Inl e" by (rule Cons.IH [OF _ Cons.prems(2,3)])
    then show ?thesis using Inr by simp
  qed
next
  case Nil
  from Nil(1) show ?case by simp
qed

lemma m2a_pair:
  "ole_ok s r \<Longrightarrow> ol_add (adj_sender_finish (share_adjust s x) (adjust_offset (share_adjust r y))) +
     ol_add (adj_receiver_finish (share_adjust r y) (adjust_offset (share_adjust s x))) = x * y"
  using adjust_ok [of s r x y] by (simp add: ole_ok_def adj_sender_finish_def adj_receiver_finish_def share_adjust_def)

lemma a2m_pair:
  assumes "ole_ok s r" "ol_mul s * i = 1"
  shows "i * (ol_add r + (x * ol_mul s + (ol_add s + ol_mul s * (y - ol_mul r)))) = x + y"
proof -
  have "ol_add r + (x * ol_mul s + (ol_add s + ol_mul s * (y - ol_mul r))) = ol_mul s * (x + y)"
    using assms(1) by (simp add: ole_ok_def algebra_simps)
  then show ?thesis using assms(2) by (metis mult.assoc mult.commute mult_1)
qed

locale share_conversion = role_pair rel s_avail r_avail try_send try_recv
  for rel :: "'s \<Rightarrow> 'r \<Rightarrow> bool" and s_avail r_avail
    and try_send :: "'s \<Rightarrow> nat \<Rightarrow> ('e, ('f::field) role_output \<times> 's) result"
    and try_recv :: "'r \<Rightarrow> nat \<Rightarrow> ('h, 'f role_output \<times> 'r) result" +
  fixes invert :: "'f \<Rightarrow> 'f option"
  assumes invert: "case invert a of None \<Rightarrow> a = 0 | Some i \<Rightarrow> a \<noteq> 0 \<and> a * i = 1"
begin

lemma invert_inverse: "invert a = (if a = 0 then None else Some (inverse a))"
  using invert [of a] inverse_unique [of a] by (auto split: option.splits)

lemma m2a:
  assumes "sc_ready_m2a rel s r" "length (ss_m2a_inputs s) \<le> s_avail (ss_role s)"
  shows "\<exists>os s1 or r1 so s2 ro r2 as bs. ss_send_m2a try_send s = Inr (os, s1) \<and> sr_send_m2a try_recv r = Inr (or, r1) \<and>
    ss_recv_m2a s1 or = Inr (so, s2) \<and> sr_recv_m2a r1 os = Inr (ro, r2) \<and>
    so = sc_deliver (ss_queue_m2a s) as \<and> ro = sc_deliver (sr_queue_m2a r) bs \<and>
    length as = length (ss_m2a_inputs s) \<and> length bs = length (ss_m2a_inputs s) \<and>
    map2 (+) as bs = map2 (*) (ss_m2a_inputs s) (sr_m2a_inputs r) \<and>
    \<not> ss_wants_m2a s2 \<and> \<not> sr_wants_m2a r2 \<and> sc_ready_m2a rel s2 r2"
proof -
  let ?xs = "ss_m2a_inputs s" and ?ys = "sr_m2a_inputs r"
  note rd = assms(1) [unfolded sc_ready_m2a_def]
  obtain oid ss rs t u where t: "try_send (ss_role s) (length ?xs) = Inr ((oid, ss), t)"
      "try_recv (sr_role r) (length ?xs) = Inr ((oid, rs), u)" "length ss = length ?xs" "list_all2 ole_ok ss rs" "rel t u"
    using transfer rd assms(2) by blast
  have l: "length ?ys = length ?xs" "length rs = length ?xs"
    using rd t(3,4) by (simp_all add: list_all2_lengthD)
  define as where "as = map2 (\<lambda>off aj. ol_add (adj_sender_finish aj off))
    (map adjust_offset (map2 (\<lambda>y r. share_adjust r y) ?ys rs)) (map2 (\<lambda>x s. share_adjust s x) ?xs ss)"
  define bs where "bs = map2 (\<lambda>off aj. ol_add (adj_receiver_finish aj off))
    (map adjust_offset (map2 (\<lambda>x s. share_adjust s x) ?xs ss)) (map2 (\<lambda>y r. share_adjust r y) ?ys rs)"
  have eq: "map2 (+) as bs = map2 (*) ?xs ?ys"
    using l t(3) list_all2_nthD2 [OF t(4)]
    by (intro nth_equalityI) (simp_all add: as_def bs_def m2a_pair list_all2_nthD2 [OF t(4)])
  have la: "length as = length ?xs" "length bs = length ?xs" using l t(3) by (simp_all add: as_def bs_def)
  let ?as = "map2 (\<lambda>x s. share_adjust s x) ?xs ss" and ?bs = "map2 (\<lambda>y r. share_adjust r y) ?ys rs"
  have S1: "ss_send_m2a try_send s = Inr (map adjust_offset ?as, s\<lparr>ss_role := t, ss_m2a_inputs := [], ss_m2a_adjust := ?as\<rparr>)"
    using rd t(1) by (simp add: ss_send_m2a_def)
  have R1: "sr_send_m2a try_recv r = Inr (map adjust_offset ?bs, r\<lparr>sr_role := u, sr_m2a_inputs := [], sr_m2a_adjust := ?bs\<rparr>)"
    using rd t(2) l by (simp add: sr_send_m2a_def)
  have S2: "ss_recv_m2a (s\<lparr>ss_role := t, ss_m2a_inputs := [], ss_m2a_adjust := ?as\<rparr>) (map adjust_offset ?bs) =
      Inr (sc_deliver (ss_queue_m2a s) as, s\<lparr>ss_role := t, ss_m2a_inputs := [], ss_m2a_adjust := [], ss_queue_m2a := []\<rparr>)"
    using l t(3) by (simp add: ss_recv_m2a_def as_def)
  have R2: "sr_recv_m2a (r\<lparr>sr_role := u, sr_m2a_inputs := [], sr_m2a_adjust := ?bs\<rparr>) (map adjust_offset ?as) =
      Inr (sc_deliver (sr_queue_m2a r) bs, r\<lparr>sr_role := u, sr_m2a_inputs := [], sr_m2a_adjust := [], sr_queue_m2a := []\<rparr>)"
    using l t(3) by (simp add: sr_recv_m2a_def bs_def)
  have "sc_ready_m2a rel (s\<lparr>ss_role := t, ss_m2a_inputs := [], ss_m2a_adjust := [], ss_queue_m2a := []\<rparr>)
      (r\<lparr>sr_role := u, sr_m2a_inputs := [], sr_m2a_adjust := [], sr_queue_m2a := []\<rparr>)"
    using t(5) by (simp add: sc_ready_m2a_def)
  with S1 R1 S2 R2 eq la show ?thesis
    by (fastforce simp: ss_wants_m2a_def sr_wants_m2a_def)
qed

lemma send_all:
  "mapR (a2m_sender_send invert) A =
    (if \<forall>a \<in> set A. sa_mul a \<noteq> 0 then Inr (map (\<lambda>a. (inverse (sa_mul a), sa_input a * sa_mul a + sa_add a)) A)
     else Inl (Err A2MError))"
proof (cases "\<forall>a \<in> set A. sa_mul a \<noteq> 0")
  case False
  then obtain a where "a \<in> set A" "sa_mul a = 0" by blast
  then have "mapR (a2m_sender_send invert) A = Inl (Err A2MError)"
    by (intro mapR_error [of a]) (auto simp: a2m_sender_send_def invert_inverse split: if_splits)
  with False show ?thesis by simp
qed (auto intro!: mapR_ok simp: a2m_sender_send_def invert_inverse)

lemma a2m:
  assumes "sc_ready_a2m rel s r" "length (ss_a2m_inputs s) \<le> s_avail (ss_role s)"
  shows "\<exists>os r1 s1. sr_send_a2m try_recv r = Inr (os, r1) \<and> ss_recv_a2m try_send s os = Inr s1 \<and>
    (case ss_send_a2m invert s1 of
       (Inl f, s2) \<Rightarrow> f = (Err (ScA2M A2MError) :: 'x sc_error fault) \<and> (\<exists>a \<in> set (ss_a2m_adjust s1). sa_mul a = 0) \<and>
         ss_a2m_adjust s2 = [] \<and> ss_queue_a2m s2 = ss_queue_a2m s
     | (Inr (masked, so), s2) \<Rightarrow> \<exists>ro r2 as bs. sr_recv_a2m r1 masked = Inr (ro, r2) \<and>
         so = sc_deliver (ss_queue_a2m s) as \<and> ro = sc_deliver (sr_queue_a2m r) bs \<and>
         length as = length (ss_a2m_inputs s) \<and> length bs = length (ss_a2m_inputs s) \<and>
         map2 (*) as bs = map2 (+) (ss_a2m_inputs s) (sr_a2m_inputs r) \<and>
         \<not> ss_wants_a2m s2 \<and> \<not> sr_wants_a2m r2 \<and> sc_ready_a2m rel s2 r2)"
proof -
  let ?xs = "ss_a2m_inputs s" and ?ys = "sr_a2m_inputs r"
  note rd = assms(1) [unfolded sc_ready_a2m_def]
  obtain oid ss rs t u where t: "try_send (ss_role s) (length ?xs) = Inr ((oid, ss), t)"
      "try_recv (sr_role r) (length ?xs) = Inr ((oid, rs), u)" "length ss = length ?xs" "list_all2 ole_ok ss rs" "rel t u"
    using transfer rd assms(2) by blast
  have l: "length ?ys = length ?xs" "length rs = length ?xs"
    using rd t(3,4) by (simp_all add: list_all2_lengthD)
  define R where "R = map2 (\<lambda>y r. a2m_receiver_offset (a2m_receiver_new y r)) ?ys rs"
  define A where "A = map (\<lambda>((x, s), off). a2m_sender_offset (a2m_sender_new x s) off) (zip (zip ?xs ss) (map snd R))"
  define masked where "masked = map (\<lambda>a. sa_input a * sa_mul a + sa_add a) A"
  define as where "as = map (\<lambda>a. inverse (sa_mul a)) A"
  define bs where "bs = map2 a2m_receiver_receive (map fst R) masked"
  have len: "length R = length ?xs" "length A = length ?xs" "length masked = length ?xs" "length as = length ?xs" "length bs = length ?xs"
    using l t(3) by (simp_all add: R_def A_def masked_def as_def bs_def)
  have R1: "sr_send_a2m try_recv r = Inr (map snd R, r\<lparr>sr_role := u, sr_a2m_inputs := [], sr_a2m_adjust := map fst R\<rparr>)"
    using rd t(2) l by (simp add: sr_send_a2m_def R_def)
  have S1: "ss_recv_a2m try_send s (map snd R) = Inr (s\<lparr>ss_role := t, ss_a2m_inputs := [], ss_a2m_adjust := A\<rparr>)" (is "_ = Inr ?s1")
    using rd t(1) l len by (simp add: ss_recv_a2m_def A_def)
  show ?thesis
  proof (cases "\<forall>a \<in> set A. sa_mul a \<noteq> 0")
    case False
    with R1 S1 show ?thesis by (auto simp: ss_send_a2m_def send_all)
  next
    case True
    have mul: "as ! i * bs ! i = ?xs ! i + ?ys ! i" if i: "i < length ?xs" for i
    proof -
      have ok: "ole_ok (ss ! i) (rs ! i)" using t(3,4) i by (simp add: list_all2_nthD)
      have "sa_mul (A ! i) = ol_mul (ss ! i)" using i len l t(3) by (simp add: A_def a2m_sender_offset_def a2m_sender_new_def)
      then have nz: "ol_mul (ss ! i) * inverse (ol_mul (ss ! i)) = 1" using True i len(2) by (metis nth_mem right_inverse)
      show ?thesis
        using a2m_pair [OF ok nz] i len l t(3)
        by (simp add: as_def bs_def masked_def A_def R_def a2m_sender_offset_def a2m_sender_new_def a2m_receiver_offset_def
            a2m_receiver_new_def a2m_receiver_receive_def)
    qed
    have prod: "map2 (*) as bs = map2 (+) ?xs ?ys"
      by (rule nth_equalityI) (use len l mul in simp_all)
    have S2: "ss_send_a2m invert ?s1 = (Inr (masked, sc_deliver (ss_queue_a2m s) as), ?s1\<lparr>ss_a2m_adjust := [], ss_queue_a2m := []\<rparr>)"
      using True by (simp add: ss_send_a2m_def send_all masked_def as_def comp_def)
    have R2: "sr_recv_a2m (r\<lparr>sr_role := u, sr_a2m_inputs := [], sr_a2m_adjust := map fst R\<rparr>) masked =
        Inr (sc_deliver (sr_queue_a2m r) bs, r\<lparr>sr_role := u, sr_a2m_inputs := [], sr_a2m_adjust := [], sr_queue_a2m := []\<rparr>)"
      using len by (simp add: sr_recv_a2m_def bs_def)
    let ?s2 = "?s1\<lparr>ss_a2m_adjust := [], ss_queue_a2m := []\<rparr>"
      and ?r2 = "r\<lparr>sr_role := u, sr_a2m_inputs := [], sr_a2m_adjust := [], sr_queue_a2m := []\<rparr>"
    have after: "\<not> ss_wants_a2m ?s2" "\<not> sr_wants_a2m ?r2" "sc_ready_a2m rel ?s2 ?r2"
      using t(5) by (simp_all add: ss_wants_a2m_def sr_wants_a2m_def sc_ready_a2m_def)
    show ?thesis
      by (intro exI conjI, rule R1, rule S1, simp only: S2 prod.case sum.case)
        (intro exI conjI, rule R2, rule refl, rule refl, rule len(4), rule len(5), rule prod, rule after, rule after, rule after)
  qed
qed

end

interpretation convert128: share_conversion role_rel os_available or_available os_try_send_role or_try_recv_role gf128_inverse
  by unfold_locales (rule gf128_field.inverse_cases)

interpretation convert64: share_conversion role_rel os_available or_available os_try_send_role or_try_recv_role gf64_inverse
  by unfold_locales (rule gf64_field.inverse_cases)

section \<open>Conversions between parties\<close>

text \<open>
  C24. A batch of additive-to-multiplicative conversions over GF(2^128), with preprocessed OLEs available:
  both exchanges succeed, and the parties' outputs, handed out in the order of their queues, multiply
  to the sums of the inputs; the only failure is \<open>A2MError\<close>, exactly when an OLE input of the sender is zero,
  and then the sender keeps its queue and forgets its adjustments.
\<close>

theorem a2m_correct:
  fixes s :: "(gf2_128, (gf2_128, 's, 'g) ole_sender) sc_sender" and r :: "(gf2_128, (gf2_128, 'r) ole_receiver) sc_receiver"
  assumes "sc_ready_a2m role_rel s r" "length (ss_a2m_inputs s) \<le> os_available (ss_role s)"
  shows "\<exists>os r1 s1. sr_send_a2m or_try_recv_role r = Inr (os, r1) \<and> ss_recv_a2m os_try_send_role s os = Inr s1 \<and>
    (case ss_send_a2m gf128_inverse s1 of
       (Inl f, s2) \<Rightarrow> f = (Err (ScA2M A2MError) :: 'x sc_error fault) \<and> (\<exists>a \<in> set (ss_a2m_adjust s1). sa_mul a = 0) \<and>
         ss_a2m_adjust s2 = [] \<and> ss_queue_a2m s2 = ss_queue_a2m s
     | (Inr (masked, so), s2) \<Rightarrow> \<exists>ro r2 as bs. sr_recv_a2m r1 masked = Inr (ro, r2) \<and>
         so = sc_deliver (ss_queue_a2m s) as \<and> ro = sc_deliver (sr_queue_a2m r) bs \<and>
         length as = length (ss_a2m_inputs s) \<and> length bs = length (ss_a2m_inputs s) \<and>
         map2 (*) as bs = map2 (+) (ss_a2m_inputs s) (sr_a2m_inputs r) \<and>
         \<not> ss_wants_a2m s2 \<and> \<not> sr_wants_a2m r2 \<and> sc_ready_a2m role_rel s2 r2)"
  by (rule convert128.a2m [OF assms])

text \<open>
  C25. A batch of multiplicative-to-additive conversions over GF(2^128), with preprocessed OLEs available:
  all four messages are accepted and the parties' outputs, handed out in the order of their queues,
  add up to the products of the inputs.
\<close>

theorem m2a_correct:
  fixes s :: "(gf2_128, (gf2_128, 's, 'g) ole_sender) sc_sender" and r :: "(gf2_128, (gf2_128, 'r) ole_receiver) sc_receiver"
  assumes "sc_ready_m2a role_rel s r" "length (ss_m2a_inputs s) \<le> os_available (ss_role s)"
  shows "\<exists>os s1 or r1 so s2 ro r2 as bs. ss_send_m2a os_try_send_role s = Inr (os, s1) \<and>
    sr_send_m2a or_try_recv_role r = Inr (or, r1) \<and>
    ss_recv_m2a s1 or = Inr (so, s2) \<and> sr_recv_m2a r1 os = Inr (ro, r2) \<and>
    so = sc_deliver (ss_queue_m2a s) as \<and> ro = sc_deliver (sr_queue_m2a r) bs \<and>
    length as = length (ss_m2a_inputs s) \<and> length bs = length (ss_m2a_inputs s) \<and>
    map2 (+) as bs = map2 (*) (ss_m2a_inputs s) (sr_m2a_inputs r) \<and>
    \<not> ss_wants_m2a s2 \<and> \<not> sr_wants_m2a r2 \<and> sc_ready_m2a role_rel s2 r2"
  by (rule convert128.m2a [OF assms])

definition demo_sc_sender :: "(gf2_128, (gf2_128, unit, unit) ole_sender) sc_sender" where
  "demo_sc_sender =
     (let s = ss_new ((os_new () ())\<lparr>os_role := [\<lparr>ol_add = 1, ol_mul = 1\<rparr>]\<rparr>) in snd (ss_to_additive (snd (ss_to_multiplicative s [1])) [1]))"

definition demo_sc_receiver :: "(gf2_128, (gf2_128, unit) ole_receiver) sc_receiver" where
  "demo_sc_receiver =
     (let r = sr_new ((or_new ())\<lparr>or_role := [\<lparr>ol_add = 1, ol_mul = 0\<rparr>]\<rparr>) in snd (sr_to_additive (snd (sr_to_multiplicative r [0])) [0]))"

lemma demo_sc_ready:
  "sc_ready_a2m role_rel demo_sc_sender demo_sc_receiver" "sc_ready_m2a role_rel demo_sc_sender demo_sc_receiver"
  "length (ss_a2m_inputs demo_sc_sender) \<le> os_available (ss_role demo_sc_sender)"
  "length (ss_m2a_inputs demo_sc_sender) \<le> os_available (ss_role demo_sc_sender)"
proof -
  have "(1 :: gf2_128) + 1 = 0" by (simp add: plus_gf2_128_def gf128_add_def zero_gf2_128_def)
  then show "sc_ready_a2m role_rel demo_sc_sender demo_sc_receiver" "sc_ready_m2a role_rel demo_sc_sender demo_sc_receiver"
    by (simp_all add: sc_ready_a2m_def sc_ready_m2a_def demo_sc_sender_def demo_sc_receiver_def ss_new_def sr_new_def
        ss_to_multiplicative_def sr_to_multiplicative_def ss_to_additive_def sr_to_additive_def role_rel_def os_new_def or_new_def ole_ok_def)
qed (simp_all add: demo_sc_sender_def ss_new_def ss_to_multiplicative_def ss_to_additive_def os_new_def os_available_def)

theorem m2a_correct_witness:
  "\<exists>os s1 or r1 so s2 ro r2 as bs. ss_send_m2a os_try_send_role demo_sc_sender = Inr (os, s1) \<and>
    sr_send_m2a or_try_recv_role demo_sc_receiver = Inr (or, r1) \<and>
    ss_recv_m2a s1 or = Inr (so, s2) \<and> sr_recv_m2a r1 os = Inr (ro, r2) \<and>
    so = sc_deliver (ss_queue_m2a demo_sc_sender) as \<and> ro = sc_deliver (sr_queue_m2a demo_sc_receiver) bs \<and>
    length as = length (ss_m2a_inputs demo_sc_sender) \<and> length bs = length (ss_m2a_inputs demo_sc_sender) \<and>
    map2 (+) as bs = map2 (*) (ss_m2a_inputs demo_sc_sender) (sr_m2a_inputs demo_sc_receiver) \<and>
    \<not> ss_wants_m2a s2 \<and> \<not> sr_wants_m2a r2 \<and> sc_ready_m2a role_rel s2 r2"
  by (rule m2a_correct [OF demo_sc_ready(2,4)])

theorem a2m_correct_witness:
  "\<exists>os r1 s1. sr_send_a2m or_try_recv_role demo_sc_receiver = Inr (os, r1) \<and> ss_recv_a2m os_try_send_role demo_sc_sender os = Inr s1 \<and>
    (case ss_send_a2m gf128_inverse s1 of
       (Inl f, s2) \<Rightarrow> f = (Err (ScA2M A2MError) :: unit sc_error fault) \<and> (\<exists>a \<in> set (ss_a2m_adjust s1). sa_mul a = 0) \<and>
         ss_a2m_adjust s2 = [] \<and> ss_queue_a2m s2 = ss_queue_a2m demo_sc_sender
     | (Inr (masked, so), s2) \<Rightarrow> \<exists>ro r2 as bs. sr_recv_a2m r1 masked = Inr (ro, r2) \<and>
         so = sc_deliver (ss_queue_a2m demo_sc_sender) as \<and> ro = sc_deliver (sr_queue_a2m demo_sc_receiver) bs \<and>
         length as = length (ss_a2m_inputs demo_sc_sender) \<and> length bs = length (ss_a2m_inputs demo_sc_sender) \<and>
         map2 (*) as bs = map2 (+) (ss_a2m_inputs demo_sc_sender) (sr_a2m_inputs demo_sc_receiver) \<and>
         \<not> ss_wants_a2m s2 \<and> \<not> sr_wants_a2m r2 \<and> sc_ready_a2m role_rel s2 r2)"
  by (rule a2m_correct [OF demo_sc_ready(1,3)])

section \<open>The ideal functionality has the same contract\<close>

lemma isc_deliver_eq:
  "i + queued q \<le> length outputs \<Longrightarrow> isc_deliver outputs q i = Inr (sc_deliver q (drop i outputs))"
  by (induction outputs q i rule: isc_deliver.induct) (auto simp: subslice_def add_ac)

lemma length_draw_elems: "length (fst (draw_elems rand n g)) = n"
  by (induction n arbitrary: g) (simp_all add: Let_def case_prod_unfold)

lemma ideal_a2m:
  assumes "length ys = length xs" "length as = length xs"
    and invert: "\<And>a. invert a = (if a = 0 then None else Some (inverse a))"
  shows "(\<exists>a \<in> set as. a = (0 :: 'f::field)) \<Longrightarrow>
      mapR (\<lambda>((x, y), a). case invert a of None \<Rightarrow> Inl Panic | Some i \<Rightarrow> Inr ((x + y) * i)) (zip (zip ys xs) as) = Inl (Panic :: 'e fault)"
    and "\<forall>a \<in> set as. a \<noteq> 0 \<Longrightarrow> \<exists>bs.
      mapR (\<lambda>((x, y), a). case invert a of None \<Rightarrow> Inl Panic | Some i \<Rightarrow> Inr ((x + y) * i)) (zip (zip ys xs) as) = (Inr bs :: ('e, 'f list) result) \<and>
      length bs = length xs \<and> map2 (*) as bs = map2 (+) xs ys"
proof -
  let ?f = "\<lambda>((x, y), a). case invert a of None \<Rightarrow> Inl Panic | Some i \<Rightarrow> (Inr ((x + y) * i) :: ('e, 'f) result)"
  show "mapR ?f (zip (zip ys xs) as) = Inl Panic" if "\<exists>a \<in> set as. a = 0"
  proof -
    have "0 \<in> set as" using that by blast
    then obtain i where "i < length as" "as ! i = 0" unfolding in_set_conv_nth by blast
    then have "((ys ! i, xs ! i), 0) \<in> set (zip (zip ys xs) as)"
      using assms(1,2) nth_mem [of i "zip (zip ys xs) as"] by simp
    then show ?thesis by (rule mapR_error) (auto simp: invert split: prod.splits if_splits)
  qed
  show "\<exists>bs. mapR ?f (zip (zip ys xs) as) = Inr bs \<and> length bs = length xs \<and> map2 (*) as bs = map2 (+) xs ys"
    if nz: "\<forall>a \<in> set as. a \<noteq> 0"
  proof (intro exI conjI)
    show "mapR ?f (zip (zip ys xs) as) = Inr (map (\<lambda>((x, y), a). (x + y) * inverse a) (zip (zip ys xs) as))"
      using nz by (intro mapR_ok) (auto simp: invert dest: set_zip_rightD)
    show "map2 (*) as (map (\<lambda>((x, y), a). (x + y) * inverse a) (zip (zip ys xs) as)) = map2 (+) xs ys"
      using assms(1,2) nz by (intro nth_equalityI) (simp_all add: field_simps)
  qed (use assms(1,2) in simp)
qed

text \<open>
  A flush of the ideal share conversion over GF(2^128), with the two sides in step: it hands out, in
  the order of the queues, multiplicative shares of the sums and additive shares of the products of
  the inputs and leaves nothing to flush; it panics exactly when one of the multiplicative shares it
  draws for the sender is zero.
\<close>

theorem ideal_convert_correct:
  fixes w :: "(gf2_128, 'g) ideal_sc"
  defines "s \<equiv> sc_sender_state w" and "r \<equiv> sc_receiver_state w"
  assumes "isc_wants_flush w" "st_a2m_alloc s = st_a2m_alloc r" "st_m2a_alloc s = st_m2a_alloc r"
    and "length (st_a2m_inputs s) = queued (st_a2m_queue s)" "length (st_a2m_inputs r) = queued (st_a2m_queue r)"
    and "length (st_m2a_inputs s) = queued (st_m2a_queue s)" "length (st_m2a_inputs r) = queued (st_m2a_queue r)"
    and "map fst (st_a2m_queue s) = map fst (st_a2m_queue r)" "map fst (st_m2a_queue s) = map fst (st_m2a_queue r)"
  shows "if 0 \<in> set (fst (draw_elems rand (length (st_a2m_inputs s)) (sc_prg w)))
    then isc_flush gf128_inverse rand w = Inl Panic
    else \<exists>as bs cs ds w'. isc_flush gf128_inverse rand w =
        Inr ((sc_deliver (st_a2m_queue s) as, sc_deliver (st_a2m_queue r) bs),
             (sc_deliver (st_m2a_queue s) cs, sc_deliver (st_m2a_queue r) ds), w') \<and>
      map2 (*) as bs = map2 (+) (st_a2m_inputs s) (st_a2m_inputs r) \<and>
      map2 (+) cs ds = map2 (*) (st_m2a_inputs s) (st_m2a_inputs r) \<and> \<not> isc_wants_flush w'"
proof -
  let ?xs = "st_a2m_inputs s" and ?ys = "st_a2m_inputs r" and ?us = "st_m2a_inputs s" and ?vs = "st_m2a_inputs r"
  have q: "queued (st_a2m_queue r) = queued (st_a2m_queue s)" "queued (st_m2a_queue r) = queued (st_m2a_queue s)"
    using assms(10,11) by (metis queued_cong)+
  have l: "length ?ys = length ?xs" "length ?vs = length ?us" using assms(6-9) q by simp_all
  obtain as g where a: "draw_elems rand (length ?xs) (sc_prg w) = (as, g)" by (cases "draw_elems rand (length ?xs) (sc_prg w)")
  obtain cs g' where c: "draw_elems rand (length ?us) g = (cs, g')" by (cases "draw_elems rand (length ?us) g")
  have la: "length as = length ?xs" "length cs = length ?us" using length_draw_elems a c by (metis fst_conv)+
  define ds where "ds = map (\<lambda>((a, b), x). (a * b) - x) (zip (zip ?vs ?us) cs)"
  have ds: "map2 (+) cs ds = map2 (*) ?us ?vs" and ld: "length ds = length ?us"
    using la l by (auto simp: ds_def intro!: nth_equalityI)
  note st = s_def [symmetric] r_def [symmetric]
  note m = ideal_a2m [OF l(1) la(1) convert128.invert_inverse]
  show ?thesis
  proof (cases "0 \<in> set as")
    case True
    then have "\<exists>a \<in> set as. a = 0" by blast
    then have "isc_flush gf128_inverse rand w = Inl Panic"
      using assms(3-5) by (simp add: isc_flush_def st a m(1))
    then show ?thesis using True a by simp
  next
    case False
    then obtain bs where b: "length bs = length ?xs" "map2 (*) as bs = map2 (+) ?xs ?ys"
        "mapR (\<lambda>((x, y), a). case gf128_inverse a of None \<Rightarrow> Inl Panic | Some i \<Rightarrow> Inr ((x + y) * i)) (zip (zip ?ys ?xs) as) =
          (Inr bs :: (ideal_sc_error, _) result)"
      using m(2) by metis
    have fit: "0 + queued (st_a2m_queue s) \<le> length as" "0 + queued (st_a2m_queue r) \<le> length bs"
        "0 + queued (st_m2a_queue s) \<le> length cs" "0 + queued (st_m2a_queue r) \<le> length ds"
      using assms(6-9) q la ld b(1) by simp_all
    note D = fit [THEN isc_deliver_eq, unfolded drop_0]
    have "isc_flush gf128_inverse rand w = Inr ((sc_deliver (st_a2m_queue s) as, sc_deliver (st_a2m_queue r) bs),
             (sc_deliver (st_m2a_queue s) cs, sc_deliver (st_m2a_queue r) ds),
             w\<lparr>sc_prg := g', sc_sender_state := isc_clear s, sc_receiver_state := isc_clear r\<rparr>)"
      using assms(3-5) by (simp add: isc_flush_def st a b(3) c D D(4) [unfolded ds_def] ds_def)
    with b(2) ds False a show ?thesis by (simp add: isc_wants_flush_def isc_clear_def) blast
  qed
qed

definition demo_isc :: "(gf2_128, unit) ideal_sc" where
  "demo_isc =
     (let w = ideal_share_convert ();
          st = (\<lambda>st. snd (st_to_additive (snd (st_to_multiplicative st [1])) [1]))
      in w\<lparr>sc_sender_state := st (sc_sender_state w), sc_receiver_state := st (sc_receiver_state w)\<rparr>)"

theorem ideal_convert_correct_witness:
  "let s = sc_sender_state demo_isc; r = sc_receiver_state demo_isc; rand = (\<lambda>g. (1, g))
   in if 0 \<in> set (fst (draw_elems rand (length (st_a2m_inputs s)) (sc_prg demo_isc)))
    then isc_flush gf128_inverse rand demo_isc = Inl Panic
    else \<exists>as bs cs ds w'. isc_flush gf128_inverse rand demo_isc =
        Inr ((sc_deliver (st_a2m_queue s) as, sc_deliver (st_a2m_queue r) bs),
             (sc_deliver (st_m2a_queue s) cs, sc_deliver (st_m2a_queue r) ds), w') \<and>
      map2 (*) as bs = map2 (+) (st_a2m_inputs s) (st_a2m_inputs r) \<and>
      map2 (+) cs ds = map2 (*) (st_m2a_inputs s) (st_m2a_inputs r) \<and> \<not> isc_wants_flush w'"
  unfolding Let_def
  by (rule ideal_convert_correct)
    (simp_all add: demo_isc_def ideal_share_convert_def sc_state_default_def st_to_multiplicative_def st_to_additive_def
      isc_wants_flush_def)

end
