(* ===== verification/Cointoss.thy ===== *)
theory Cointoss
  imports Correlated
begin

text \<open>
  Hash commitments (\<open>core/src/commit.rs\<close>) and the two-party coin toss: the typed states of
  \<open>cointoss-core\<close> and their asynchronous drivers (\<open>cointoss/src/lib.rs\<close>) as a step relation of
  two tasks that exchange messages over two queues.  The hash of the serialised decommitment
  (\<open>blake3\<close> over \<open>bcs\<close>, 32 bytes) is the parameter \<open>hash\<close>; the definitions leave its result type
  open, and nothing assumes it to be free of collisions.  The nonce the committing party draws is an
  argument.
\<close>

section \<open>Hash commitments\<close>

datatype commitment_error = InvalidDecommitment

record ('n, 'a) decommitment =
  dc_nonce :: 'n
  dc_data :: 'a

definition new_with_nonce :: "'a \<Rightarrow> 'n \<Rightarrow> ('n, 'a) decommitment" where
  "new_with_nonce data nonce = \<lparr>dc_nonce = nonce, dc_data = data\<rparr>"

definition dc_commit :: "(('n, 'a) decommitment \<Rightarrow> 'h) \<Rightarrow> ('n, 'a) decommitment \<Rightarrow> 'h" where
  "dc_commit hash dc = hash dc"

definition dc_verify ::
  "(('n, 'a) decommitment \<Rightarrow> 'h) \<Rightarrow> ('n, 'a) decommitment \<Rightarrow> 'h \<Rightarrow> (commitment_error, unit) result" where
  "dc_verify hash dc commitment =
     (if commitment \<noteq> dc_commit hash dc then Inl (Err InvalidDecommitment) else Inr ())"

definition hash_commit ::
  "(('n, 'a) decommitment \<Rightarrow> 'h) \<Rightarrow> 'n \<Rightarrow> 'a \<Rightarrow> ('n, 'a) decommitment \<times> 'h" where
  "hash_commit hash nonce data = (let dc = new_with_nonce data nonce in (dc, dc_commit hash dc))"

section \<open>The parties' states\<close>

datatype cointoss_error = CommitmentError commitment_error | CountMismatch nat nat

type_synonym 'n seeds_decommitment = "('n, block list) decommitment"

record 'n sender_committed =
  sc_seeds :: "block list"
  sc_decommitment :: "'n seeds_decommitment"

record 'h receiver_received =
  rr_seeds :: "block list"
  rr_commitment :: 'h

definition sender_send :: "('n seeds_decommitment \<Rightarrow> 'h) \<Rightarrow> 'n \<Rightarrow> block list \<Rightarrow> 'n sender_committed \<times> 'h" where
  "sender_send hash nonce seeds =
     (let (decommitment, commitment) = hash_commit hash nonce seeds
      in (\<lparr>sc_seeds = seeds, sc_decommitment = decommitment\<rparr>, commitment))"

definition sender_receive ::
  "'n sender_committed \<Rightarrow> block list \<Rightarrow> (cointoss_error, block list \<times> 'n seeds_decommitment) result" where
  "sender_receive s receiver_seeds =
     (if length (sc_seeds s) \<noteq> length receiver_seeds
      then Inl (Err (CountMismatch (length (sc_seeds s)) (length receiver_seeds)))
      else Inr (map2 (XOR) (sc_seeds s) receiver_seeds, sc_decommitment s))"

definition sender_finalize :: "'n seeds_decommitment \<Rightarrow> 'n seeds_decommitment" where
  "sender_finalize decommitment = decommitment"

definition receiver_reveal :: "block list \<Rightarrow> 'h \<Rightarrow> 'h receiver_received \<times> block list" where
  "receiver_reveal seeds commitment = (\<lparr>rr_seeds = seeds, rr_commitment = commitment\<rparr>, seeds)"

definition receiver_finalize ::
  "('n seeds_decommitment \<Rightarrow> 'h) \<Rightarrow> 'h receiver_received \<Rightarrow> 'n seeds_decommitment \<Rightarrow> (cointoss_error, block list) result" where
  "receiver_finalize hash r dc =
     (if length (dc_data dc) \<noteq> length (rr_seeds r)
      then Inl (Err (CountMismatch (length (dc_data dc)) (length (rr_seeds r))))
      else bindR (map_err CommitmentError (dc_verify hash dc (rr_commitment r))) (\<lambda>_.
             Inr (map2 (\<lambda>d s. s XOR d) (dc_data dc) (rr_seeds r))))"

section \<open>The protocol as two tasks\<close>

text \<open>
  A message of the wrong type fails to deserialise, which is an I/O error of the receiving task.
  A task that waits has no step until a message is queued for it.
\<close>

datatype ('n, 'h) toss_msg = SenderCommitment 'h | ReceiverPayload "block list" | SenderPayload "'n seeds_decommitment"

datatype toss_error = Io | Core "cointoss_error fault"

datatype 'n sender_task =
    SStart 'n "block list"
  | SExpectSeeds "'n sender_committed"
  | SDecommit "block list" "'n seeds_decommitment"
  | SReturned "toss_error + block list"

datatype 'h receiver_task =
    RExpectCommitment "block list"
  | RExpectPayload "'h receiver_received"
  | RReturned "toss_error + block list"

record ('n, 'h) toss =
  t_sender :: "'n sender_task"
  t_receiver :: "'h receiver_task"
  to_receiver :: "('n, 'h) toss_msg list"
  to_sender :: "('n, 'h) toss_msg list"

definition toss_init :: "'n \<Rightarrow> block list \<Rightarrow> block list \<Rightarrow> ('n, 'h) toss" where
  "toss_init nonce ss rs = \<lparr>t_sender = SStart nonce ss, t_receiver = RExpectCommitment rs, to_receiver = [], to_sender = []\<rparr>"

definition core_result :: "(cointoss_error, 'a) result \<Rightarrow> toss_error + 'a" where
  "core_result m = (case m of Inl e \<Rightarrow> Inl (Core e) | Inr x \<Rightarrow> Inr x)"

text \<open>One resumption of the sender's \<open>execute\<close>; \<open>None\<close> while it waits or has returned.\<close>

definition sender_step :: "('n seeds_decommitment \<Rightarrow> 'h) \<Rightarrow> ('n, 'h) toss \<Rightarrow> ('n, 'h) toss option" where
  "sender_step hash w = (case t_sender w of
     SStart nonce seeds \<Rightarrow>
       (let (s, commitment) = sender_send hash nonce seeds
        in Some (w\<lparr>t_sender := SExpectSeeds s, to_receiver := to_receiver w @ [SenderCommitment commitment]\<rparr>))
   | SExpectSeeds s \<Rightarrow>
       (case to_sender w of
          [] \<Rightarrow> None
        | m # ms \<Rightarrow> Some (w\<lparr>to_sender := ms, t_sender :=
            (case m of
               ReceiverPayload seeds \<Rightarrow> (case core_result (sender_receive s seeds) of
                   Inl e \<Rightarrow> SReturned (Inl e) | Inr (out, dc) \<Rightarrow> SDecommit out dc)
             | _ \<Rightarrow> SReturned (Inl Io))\<rparr>))
   | SDecommit out dc \<Rightarrow>
       Some (w\<lparr>t_sender := SReturned (Inr out), to_receiver := to_receiver w @ [SenderPayload (sender_finalize dc)]\<rparr>)
   | SReturned _ \<Rightarrow> None)"

definition receiver_step :: "('n seeds_decommitment \<Rightarrow> 'h) \<Rightarrow> ('n, 'h) toss \<Rightarrow> ('n, 'h) toss option" where
  "receiver_step hash w = (case (t_receiver w, to_receiver w) of
     (RExpectCommitment seeds, m # ms) \<Rightarrow>
       Some (case m of
          SenderCommitment c \<Rightarrow>
            (let (r, payload) = receiver_reveal seeds c
             in w\<lparr>to_receiver := ms, t_receiver := RExpectPayload r, to_sender := to_sender w @ [ReceiverPayload payload]\<rparr>)
        | _ \<Rightarrow> w\<lparr>to_receiver := ms, t_receiver := RReturned (Inl Io)\<rparr>)
   | (RExpectPayload r, m # ms) \<Rightarrow>
       Some (w\<lparr>to_receiver := ms, t_receiver := RReturned
          (case m of SenderPayload dc \<Rightarrow> core_result (receiver_finalize hash r dc) | _ \<Rightarrow> Inl Io)\<rparr>)
   | _ \<Rightarrow> None)"

text \<open>The scheduler picks either task.\<close>

inductive toss_step :: "('n seeds_decommitment \<Rightarrow> 'h) \<Rightarrow> ('n, 'h) toss \<Rightarrow> ('n, 'h) toss \<Rightarrow> bool" for hash where
  sender: "sender_step hash w = Some w' \<Longrightarrow> toss_step hash w w'"
| receiver: "receiver_step hash w = Some w' \<Longrightarrow> toss_step hash w w'"

inductive_cases toss_stepE: "toss_step hash w w'"

section \<open>Termination and agreement\<close>

text \<open>The resumptions left before a task returns.\<close>

fun sender_left :: "'n sender_task \<Rightarrow> nat" where
  "sender_left (SStart _ _) = 3"
| "sender_left (SExpectSeeds _) = 2"
| "sender_left (SDecommit _ _) = 1"
| "sender_left (SReturned _) = 0"

fun receiver_left :: "'h receiver_task \<Rightarrow> nat" where
  "receiver_left (RExpectCommitment _) = 2"
| "receiver_left (RExpectPayload _) = 1"
| "receiver_left (RReturned _) = 0"

definition toss_left :: "('n, 'h) toss \<Rightarrow> nat" where
  "toss_left w = sender_left (t_sender w) + receiver_left (t_receiver w)"

lemma sender_step_left: "sender_step hash w = Some w' \<Longrightarrow> toss_left w' < toss_left w"
  by (auto simp: sender_step_def toss_left_def split: sender_task.splits list.splits toss_msg.splits sum.splits prod.splits)

lemma receiver_step_left: "receiver_step hash w = Some w' \<Longrightarrow> toss_left w' < toss_left w"
  by (auto simp: receiver_step_def toss_left_def Let_def receiver_reveal_def
      split: receiver_task.splits list.splits toss_msg.splits sum.splits prod.splits)

lemma toss_step_left: "toss_step hash w w' \<Longrightarrow> toss_left w' < toss_left w"
  by (auto elim: toss_stepE dest: sender_step_left receiver_step_left)

text \<open>The states an honest run goes through.\<close>

inductive honest :: "('n seeds_decommitment \<Rightarrow> 'h) \<Rightarrow> 'n \<Rightarrow> block list \<Rightarrow> block list \<Rightarrow> ('n, 'h) toss \<Rightarrow> bool"
  for hash n ss rs where
  start: "honest hash n ss rs (toss_init n ss rs)"
| committed: "honest hash n ss rs \<lparr>t_sender = SExpectSeeds \<lparr>sc_seeds = ss, sc_decommitment = new_with_nonce ss n\<rparr>,
    t_receiver = RExpectCommitment rs, to_receiver = [SenderCommitment (hash (new_with_nonce ss n))], to_sender = []\<rparr>"
| revealed: "honest hash n ss rs \<lparr>t_sender = SExpectSeeds \<lparr>sc_seeds = ss, sc_decommitment = new_with_nonce ss n\<rparr>,
    t_receiver = RExpectPayload \<lparr>rr_seeds = rs, rr_commitment = hash (new_with_nonce ss n)\<rparr>, to_receiver = [],
    to_sender = [ReceiverPayload rs]\<rparr>"
| mismatch: "length ss \<noteq> length rs \<Longrightarrow> honest hash n ss rs
    \<lparr>t_sender = SReturned (Inl (Core (Err (CountMismatch (length ss) (length rs))))),
     t_receiver = RExpectPayload \<lparr>rr_seeds = rs, rr_commitment = hash (new_with_nonce ss n)\<rparr>, to_receiver = [], to_sender = []\<rparr>"
| tossed: "length ss = length rs \<Longrightarrow> honest hash n ss rs \<lparr>t_sender = SDecommit (map2 (XOR) ss rs) (new_with_nonce ss n),
    t_receiver = RExpectPayload \<lparr>rr_seeds = rs, rr_commitment = hash (new_with_nonce ss n)\<rparr>, to_receiver = [], to_sender = []\<rparr>"
| opened: "length ss = length rs \<Longrightarrow> honest hash n ss rs \<lparr>t_sender = SReturned (Inr (map2 (XOR) ss rs)),
    t_receiver = RExpectPayload \<lparr>rr_seeds = rs, rr_commitment = hash (new_with_nonce ss n)\<rparr>,
    to_receiver = [SenderPayload (new_with_nonce ss n)], to_sender = []\<rparr>"
| returned: "length ss = length rs \<Longrightarrow> honest hash n ss rs \<lparr>t_sender = SReturned (Inr (map2 (XOR) ss rs)),
    t_receiver = RReturned (Inr (map2 (XOR) ss rs)), to_receiver = [], to_sender = []\<rparr>"

lemmas toss_defs = toss_init_def sender_step_def receiver_step_def sender_send_def hash_commit_def dc_commit_def sender_receive_def
  sender_finalize_def receiver_reveal_def receiver_finalize_def dc_verify_def core_result_def Let_def

lemma map2_xor_commute: "map2 (\<lambda>d s. s XOR d) xs ys = map2 (XOR) xs (ys :: block list)"
  by (simp add: xor.commute)

lemma honest_sender: "honest hash n ss rs w \<Longrightarrow> sender_step hash w = Some w' \<Longrightarrow> honest hash n ss rs w'"
  by (cases rule: honest.cases, assumption) (auto simp: toss_defs intro: honest.intros split: if_splits)

lemma honest_receiver: "honest hash n ss rs w \<Longrightarrow> receiver_step hash w = Some w' \<Longrightarrow> honest hash n ss rs w'"
  by (cases rule: honest.cases, assumption)
    (auto simp: toss_defs new_with_nonce_def map2_xor_commute intro: honest.intros [unfolded new_with_nonce_def])

lemma honest_reachable: "(toss_step hash)\<^sup>*\<^sup>* (toss_init n ss rs) w \<Longrightarrow> honest hash n ss rs w"
  by (induction rule: rtranclp_induct) (auto intro: honest.start honest_sender honest_receiver elim: toss_stepE)

lemma honest_stuck:
  assumes "honest hash n ss rs w" "\<nexists>w'. toss_step hash w w'"
  shows "if length ss = length rs
    then t_sender w = SReturned (Inr (map2 (XOR) ss rs)) \<and> t_receiver w = RReturned (Inr (map2 (XOR) ss rs))
    else t_sender w = SReturned (Inl (Core (Err (CountMismatch (length ss) (length rs)))))"
proof -
  have n: "sender_step hash w = None" "receiver_step hash w = None"
    using assms(2) toss_step.intros [of hash w] by (metis not_Some_eq)+
  from assms(1) n show ?thesis by cases (auto simp: toss_defs split: if_splits)
qed

lemma steps_bounded: "(toss_step hash ^^ k) w w' \<Longrightarrow> k + toss_left w' \<le> toss_left w"
proof (induction k arbitrary: w')
  case (Suc k)
  then obtain v where "(toss_step hash ^^ k) w v" "toss_step hash v w'" by auto
  with Suc.IH toss_step_left show ?case by fastforce
qed simp

text \<open>
  C26. Liveness and agreement of the coin toss, for every scheduling of the two tasks: a run takes at
  most five resumptions, and a state from which no task can go on is one where both tasks have
  returned the bitwise sum of the two parties' seeds, unless the parties brought different numbers
  of seeds, when the sender has returned \<open>CountMismatch\<close>.
\<close>

theorem cointoss_completes:
  assumes "(toss_step hash ^^ k) (toss_init n ss rs) w"
  shows "k \<le> 5 \<and> ((\<nexists>w'. toss_step hash w w') \<longrightarrow>
    (if length ss = length rs
     then t_sender w = SReturned (Inr (map2 (XOR) ss rs)) \<and> t_receiver w = RReturned (Inr (map2 (XOR) ss rs))
     else t_sender w = SReturned (Inl (Core (Err (CountMismatch (length ss) (length rs)))))))"
  using steps_bounded [OF assms] honest_stuck [OF honest_reachable [of hash n ss rs w]] relpowp_imp_rtranclp [OF assms]
  by (auto simp: toss_left_def toss_init_def)

theorem cointoss_completes_witness:
  "\<exists>w. (toss_step (\<lambda>d. dc_data d) ^^ 5) (toss_init () [1, 2] [5, 7]) w \<and>
     t_sender w = SReturned (Inr [4, 5]) \<and> t_receiver w = RReturned (Inr [4, 5])"
proof -
  let ?h = "\<lambda>d. dc_data (d :: unit seeds_decommitment)" and ?w = "toss_init () [1, 2] [5, 7] :: (unit, block list) toss"
  have S: "sender_step ?h w = Some w' \<Longrightarrow> toss_step ?h w w'" and R: "receiver_step ?h w = Some w' \<Longrightarrow> toss_step ?h w w'" for w w'
    by (rule toss_step.intros, assumption)+
  let ?f = "\<lambda>w. the (sender_step ?h w)" and ?g = "\<lambda>w. the (receiver_step ?h w)"
  define w1 where "w1 = ?f ?w" define w2 where "w2 = ?g w1" define w3 where "w3 = ?f w2" define w4 where "w4 = ?f w3"
  define w5 where "w5 = ?g w4"
  note d = w1_def w2_def w3_def w4_def w5_def
  have "toss_step ?h ?w w1" "toss_step ?h w1 w2" "toss_step ?h w2 w3" "toss_step ?h w3 w4" "toss_step ?h w4 w5"
    by (rule S R; simp add: d toss_defs new_with_nonce_def)+
  then have run: "(toss_step ?h ^^ 5) ?w w5" by (simp add: numeral_eq_Suc) (blast intro: relcomppI)
  moreover have "\<nexists>w'. toss_step ?h w5 w'"
    by (auto elim!: toss_stepE simp: d toss_defs new_with_nonce_def)
  ultimately show ?thesis using cointoss_completes [OF run] by auto
qed

section \<open>The receiver against any sender\<close>

text \<open>
  The receiver's task when the other side does not follow the protocol: between the receiver's
  resumptions any message may be queued for it, chosen after everything the receiver has sent.  A run is
  the list of the messages queued so far and the present state.
\<close>

inductive rogue_run :: "('n seeds_decommitment \<Rightarrow> 'h) \<Rightarrow> block list \<Rightarrow> ('n, 'h) toss_msg list \<Rightarrow> ('n, 'h) toss \<Rightarrow> bool"
  for hash rs where
  begins: "rogue_run hash rs [] (toss_init n ss rs)"
| queues: "rogue_run hash rs msgs w \<Longrightarrow> rogue_run hash rs (msgs @ [m]) (w\<lparr>to_receiver := to_receiver w @ [m]\<rparr>)"
| resumes: "rogue_run hash rs msgs w \<Longrightarrow> receiver_step hash w = Some w' \<Longrightarrow> rogue_run hash rs msgs w'"

lemma receiver_finalize_iff:
  "receiver_finalize hash \<lparr>rr_seeds = rs, rr_commitment = c\<rparr> dc = Inr out \<longleftrightarrow>
     length (dc_data dc) = length rs \<and> hash dc = c \<and> out = map2 (XOR) (dc_data dc) rs"
  by (auto simp: receiver_finalize_def dc_verify_def dc_commit_def map2_xor_commute)

lemma accepted_payload:
  assumes "rr_seeds r = rs" "(case m of SenderPayload dc \<Rightarrow> core_result (receiver_finalize hash r dc) | _ \<Rightarrow> Inl Io) = Inr out"
  shows "\<exists>dc. m = SenderPayload dc \<and> length (dc_data dc) = length rs \<and> hash dc = rr_commitment r \<and> out = map2 (XOR) (dc_data dc) rs"
  using assms receiver_finalize_iff [of hash rs "rr_commitment r"]
  by (cases r) (auto simp: core_result_def split: toss_msg.splits sum.splits)

text \<open>What the receiver has consumed and sent in each of its states.\<close>

lemma rogue_run_inv:
  assumes "rogue_run hash rs msgs w"
  shows "case t_receiver w of
      RExpectCommitment seeds \<Rightarrow> seeds = rs \<and> msgs = to_receiver w \<and> to_sender w = []
    | RExpectPayload r \<Rightarrow> rr_seeds r = rs \<and> msgs = SenderCommitment (rr_commitment r) # to_receiver w \<and>
        to_sender w = [ReceiverPayload rs]
    | RReturned (Inl _) \<Rightarrow> to_sender w = [] \<or> to_sender w = [ReceiverPayload rs] \<and> (\<exists>c ms. msgs = SenderCommitment c # ms)
    | RReturned (Inr out) \<Rightarrow> \<exists>dc. msgs = SenderCommitment (hash dc) # SenderPayload dc # to_receiver w \<and>
        length (dc_data dc) = length rs \<and> out = map2 (XOR) (dc_data dc) rs \<and> to_sender w = [ReceiverPayload rs]"
  using assms
proof induction
  case (begins n ss)
  then show ?case by (simp add: toss_init_def)
next
  case (queues msgs w m)
  then show ?case by (cases "t_receiver w") (auto split: sum.splits)
next
  case (resumes msgs w w')
  show ?case
  proof (cases "t_receiver w")
    case (RExpectCommitment seeds)
    with resumes show ?thesis
      by (auto simp: receiver_step_def receiver_reveal_def Let_def split: list.splits toss_msg.splits)
  next
    case (RExpectPayload r)
    with resumes obtain m ms where m: "to_receiver w = m # ms" "w' = w\<lparr>to_receiver := ms, t_receiver := RReturned
        (case m of SenderPayload dc \<Rightarrow> core_result (receiver_finalize hash r dc) | _ \<Rightarrow> Inl Io)\<rparr>"
      by (auto simp: receiver_step_def split: list.splits)
    with RExpectPayload resumes.IH accepted_payload [of r rs hash m] show ?thesis by (auto split: sum.splits)
  qed (use resumes in \<open>simp add: receiver_step_def\<close>)
qed

lemma rogue_reveals_after_commitment:
  "rogue_run hash rs msgs w \<Longrightarrow> to_sender w \<noteq> [] \<Longrightarrow> to_sender w = [ReceiverPayload rs] \<and> (\<exists>c ms. msgs = SenderCommitment c # ms)"
  using rogue_run_inv [of hash rs msgs w] by (auto split: receiver_task.splits sum.splits)

lemma map2_xor_cancel: "length ds = length rs \<Longrightarrow> map2 (XOR) (map2 (XOR) ds rs) rs = (ds :: block list)"
  by (induction ds rs rule: list_induct2) (simp_all add: xor.assoc)

text \<open>
  C33. The coin toss binds the sender, whoever it is: the receiver sends its seeds only after it has
  been given a commitment, and if it returns a coin, the messages it consumed were a commitment and
  a decommitment of that hash with as many seeds as its own, and the coin is the bitwise sum of both.
  So in any two runs that began with the same commitment, whatever the receiver's seeds were and whatever
  the sender sent after seeing them, the sender's contribution (the coin without the receiver's
  seeds) is the same, unless the two decommitments the sender sent are different and have the same
  256-bit hash.
\<close>

theorem cointoss_binding:
  fixes hash :: "'n seeds_decommitment \<Rightarrow> 256 word"
  assumes "rogue_run hash rs msgs w" "t_receiver w = RReturned (Inr out)"
    "rogue_run hash rs' msgs' w'" "t_receiver w' = RReturned (Inr out')" "hd msgs = hd msgs'"
  shows "(\<forall>ms v. rogue_run hash rs ms v \<and> to_sender v \<noteq> [] \<longrightarrow> (\<exists>c ms'. ms = SenderCommitment c # ms')) \<and>
    (\<exists>c dc dc' ms ms'. msgs = SenderCommitment c # SenderPayload dc # ms \<and> msgs' = SenderCommitment c # SenderPayload dc' # ms' \<and>
       hash dc = c \<and> length (dc_data dc) = length rs \<and> out = map2 (XOR) (dc_data dc) rs \<and>
       hash dc' = c \<and> length (dc_data dc') = length rs' \<and> out' = map2 (XOR) (dc_data dc') rs' \<and>
       (map2 (XOR) out rs = map2 (XOR) out' rs' \<or> dc \<noteq> dc' \<and> hash dc = hash dc'))"
proof -
  obtain dc where 1: "msgs = SenderCommitment (hash dc) # SenderPayload dc # to_receiver w"
      "length (dc_data dc) = length rs" "out = map2 (XOR) (dc_data dc) rs"
    using rogue_run_inv [OF assms(1)] assms(2) by auto
  obtain dc' where 2: "msgs' = SenderCommitment (hash dc') # SenderPayload dc' # to_receiver w'"
      "length (dc_data dc') = length rs'" "out' = map2 (XOR) (dc_data dc') rs'"
    using rogue_run_inv [OF assms(3)] assms(4) by auto
  have "hash dc = hash dc'" using assms(5) 1(1) 2(1) by simp
  moreover have "map2 (XOR) out rs = dc_data dc" "map2 (XOR) out' rs' = dc_data dc'"
    using 1(2,3) 2(2,3) map2_xor_cancel by simp_all
  ultimately show ?thesis using 1 2 rogue_reveals_after_commitment [of hash rs] by (cases "dc = dc'") fastforce+
qed

text \<open>A 256-bit hash for the example: a polynomial in the nonce and the seeds.\<close>

definition poly_hash :: "nat seeds_decommitment \<Rightarrow> 256 word" where
  "poly_hash d = foldr (\<lambda>b h. ucast b + 0x100000001b3 * h) (dc_data d) (of_nat (dc_nonce d))"

lemma rogue_run_accepts:
  fixes hash :: "'n seeds_decommitment \<Rightarrow> 'h"
  assumes "length (dc_data dc) = length rs"
  shows "\<exists>w. rogue_run hash rs [SenderCommitment (hash dc), SenderPayload dc] w \<and> t_receiver w = RReturned (Inr (map2 (XOR) (dc_data dc) rs))"
proof -
  note queue = rogue_run.queues
  have 0: "rogue_run hash rs [] (toss_init n [] rs)" for n by (rule rogue_run.begins)
  define w2 :: "('n, 'h) toss" where "w2 = \<lparr>t_sender = SStart undefined [], t_receiver = RExpectPayload \<lparr>rr_seeds = rs, rr_commitment = hash dc\<rparr>,
    to_receiver = [], to_sender = [ReceiverPayload rs]\<rparr>"
  have "rogue_run hash rs [SenderCommitment (hash dc)] w2"
    by (rule rogue_run.resumes [OF queue [OF 0 [of undefined], of "SenderCommitment (hash dc)", simplified]])
      (simp add: toss_init_def receiver_step_def receiver_reveal_def w2_def Let_def)
  then have "rogue_run hash rs [SenderCommitment (hash dc), SenderPayload dc] (w2\<lparr>to_receiver := [SenderPayload dc]\<rparr>)"
    using queue [of hash rs "[SenderCommitment (hash dc)]" w2 "SenderPayload dc"] by (simp add: w2_def)
  moreover have "receiver_step hash (w2\<lparr>to_receiver := [SenderPayload dc]\<rparr>) =
      Some (w2\<lparr>t_receiver := RReturned (Inr (map2 (XOR) (dc_data dc) rs))\<rparr>)"
    using assms receiver_finalize_iff [of hash rs "hash dc" dc "map2 (XOR) (dc_data dc) rs"] by (simp add: receiver_step_def core_result_def w2_def)
  ultimately show ?thesis using rogue_run.resumes by fastforce
qed

text \<open>The same commitment to three seeds, opened to receivers with different seeds.\<close>

theorem cointoss_binding_witness:
  "\<exists>w w'. rogue_run poly_hash [5, 6, 7]
       [SenderCommitment (poly_hash \<lparr>dc_nonce = 4, dc_data = [1, 2, 3]\<rparr>), SenderPayload \<lparr>dc_nonce = 4, dc_data = [1, 2, 3]\<rparr>] w \<and>
     rogue_run poly_hash [9, 9, 9]
       [SenderCommitment (poly_hash \<lparr>dc_nonce = 4, dc_data = [1, 2, 3]\<rparr>), SenderPayload \<lparr>dc_nonce = 4, dc_data = [1, 2, 3]\<rparr>] w' \<and>
     t_receiver w = RReturned (Inr [4, 4, 4]) \<and> t_receiver w' = RReturned (Inr [8, 11, 10]) \<and>
     map2 (XOR) [4, 4, 4] [5, 6, 7] = map2 (XOR) [8, 11, 10] [9, 9, 9 :: block]"
proof -
  let ?d = "\<lparr>dc_nonce = 4, dc_data = [1, 2, 3]\<rparr> :: nat seeds_decommitment"
  obtain w where w: "rogue_run poly_hash [5, 6, 7] [SenderCommitment (poly_hash ?d), SenderPayload ?d] w" "t_receiver w = RReturned (Inr [4, 4, 4])"
    using rogue_run_accepts [of ?d "[5, 6, 7]" poly_hash] by auto
  obtain w' where w': "rogue_run poly_hash [9, 9, 9] [SenderCommitment (poly_hash ?d), SenderPayload ?d] w'" "t_receiver w' = RReturned (Inr [8, 11, 10])"
    using rogue_run_accepts [of ?d "[9, 9, 9]" poly_hash] by auto
  have "map2 (XOR) [4, 4, 4] [5, 6, 7] = map2 (XOR) [8, 11, 10] [9, 9, 9 :: block]"
    using cointoss_binding [OF w w'] by fastforce
  with w w' show ?thesis by blast
qed

end
