(* ===== verification/Zk_Check.thy ===== *)
theory Zk_Check
  imports Gf128 Ideal_Cot
begin

text \<open>
  The consistency check of the zero-knowledge protocol (\<open>zk-core/src/check.rs\<close>) and the vector OLE it
  masks its values with (\<open>zk-core/src/vole.rs\<close>).  The transcript hash (\<open>blake3\<close>), the generator it
  seeds (\<open>ChaCha12\<close> with a stream per segment) and the bytes a bit vector is stored in (\<open>bitvec\<close>) are
  parameters, the fields of \<open>transcript_ops\<close>.  The check is complete: for triples whose MACs are
  consistent the verifier accepts the prover's message.
\<close>

section \<open>Vector OLE from 128 correlated OTs\<close>

definition monomials :: "block list" where
  "monomials = map from_le_bytes MONOMIAL"

definition vole_sender :: "block list \<Rightarrow> ('e, block) result" where
  "vole_sender keys = inn_prdt_red keys monomials"

definition vole_receiver :: "bool list \<Rightarrow> block list \<Rightarrow> ('e, block \<times> block) result" where
  "vole_receiver choices ev = bindR (inn_prdt_red ev monomials) (\<lambda>a_0. Inr (a_0, from_lsb0 choices))"

section \<open>The check\<close>

record ('t, 's) transcript_ops =
  tr_update :: "'t \<Rightarrow> byte list \<Rightarrow> 't"
  tr_finalize :: "'t \<Rightarrow> 's"
  tr_chi :: "'s \<Rightarrow> nat \<Rightarrow> nat \<Rightarrow> block"
  tr_bits :: "bool list \<Rightarrow> byte list"

datatype check_error = SVole | CheckInvalid

record uv =
  uv_u :: block
  uv_v :: block

record triple =
  t_x :: block
  t_y :: block
  t_z :: block

definition default_triple :: triple where
  "default_triple = \<lparr>t_x = 0, t_y = 0, t_z = 0\<rparr>"

record check =
  c_triples :: "triple list"
  c_adjust :: "bool list"

definition check_default :: check where
  "check_default = \<lparr>c_triples = [], c_adjust = []\<rparr>"

text \<open>\<open>Vec::resize_with\<close>: extends or truncates.\<close>

definition resize_with :: "nat \<Rightarrow> 'a \<Rightarrow> 'a list \<Rightarrow> 'a list" where
  "resize_with n v xs = take n xs @ replicate (n - length xs) v"

definition reserve :: "check \<Rightarrow> nat \<Rightarrow> nat \<times> check" where
  "reserve c n =
     (let i = length (c_triples c)
      in (i, \<lparr>c_triples = resize_with (i + n) default_triple (c_triples c), c_adjust = resize_with (i + n) False (c_adjust c)\<rparr>))"

definition check_write :: "check \<Rightarrow> nat \<Rightarrow> triple list \<Rightarrow> bool list \<Rightarrow> ('e, check) result" where
  "check_write c i ts adj =
     bindR (copy_into (c_triples c) i (i + length ts) ts) (\<lambda>triples.
     bindR (copy_into (c_adjust c) i (i + length ts) adj) (\<lambda>adjust.
       Inr \<lparr>c_triples = triples, c_adjust = adjust\<rparr>))"

definition wants_check :: "check \<Rightarrow> bool" where
  "wants_check c \<longleftrightarrow> c_triples c \<noteq> []"

definition check_total :: "check \<Rightarrow> nat" where
  "check_total c = length (c_triples c)"

definition SEGMENT_SIZE :: nat where "SEGMENT_SIZE = 512"

definition compute_terms :: "triple \<Rightarrow> block \<Rightarrow> block \<times> block" where
  "compute_terms t chi =
     (let x = t_x t; y = t_y t; z = t_z t;
          u = gfmul (gfmul x y) chi;
          a_10 = (if lsb x then y else BLOCK_ZERO);
          a_11 = (if lsb y then x else BLOCK_ZERO);
          v = gfmul (a_10 XOR a_11 XOR z) chi
      in (u, v))"

definition compute_term :: "triple \<Rightarrow> block \<Rightarrow> block \<Rightarrow> block" where
  "compute_term t chi d =
     (let x = t_x t; y = t_y t; z = t_z t; b = gfmul x y XOR gfmul d z in gfmul b chi)"

fun prover_segment :: "(nat \<Rightarrow> block) \<Rightarrow> nat \<Rightarrow> triple list \<Rightarrow> block \<Rightarrow> block \<Rightarrow> block \<times> block" where
  "prover_segment chi j [] u_acc v_acc = (u_acc, v_acc)"
| "prover_segment chi j (t # ts) u_acc v_acc =
     (let (u, v) = compute_terms t (chi j) in prover_segment chi (j + 1) ts (u_acc XOR u) (v_acc XOR v))"

fun verifier_segment :: "(nat \<Rightarrow> block) \<Rightarrow> block \<Rightarrow> nat \<Rightarrow> triple list \<Rightarrow> block \<Rightarrow> block" where
  "verifier_segment chi d j [] w_acc = w_acc"
| "verifier_segment chi d j (t # ts) w_acc = verifier_segment chi d (j + 1) ts (w_acc XOR compute_term t (chi j) d)"

definition prover_segments :: "(nat \<Rightarrow> nat \<Rightarrow> block) \<Rightarrow> triple list \<Rightarrow> block \<times> block" where
  "prover_segments chi ts =
     fold (\<lambda>(i, seg) (u1, v1). let (u2, v2) = prover_segment (chi i) 0 seg BLOCK_ZERO BLOCK_ZERO in (u1 XOR u2, v1 XOR v2))
       (enumerate 0 (chunks SEGMENT_SIZE ts)) (BLOCK_ZERO, BLOCK_ZERO)"

definition verifier_segments :: "(nat \<Rightarrow> nat \<Rightarrow> block) \<Rightarrow> block \<Rightarrow> triple list \<Rightarrow> block" where
  "verifier_segments chi d ts =
     fold (\<lambda>(i, seg) w1. w1 XOR verifier_segment (chi i) d 0 seg BLOCK_ZERO) (enumerate 0 (chunks SEGMENT_SIZE ts)) BLOCK_ZERO"

text \<open>The result is paired with the transcript and the check state, which change on errors too.\<close>

definition check_prover ::
  "('t, 's) transcript_ops \<Rightarrow> check \<Rightarrow> 't \<Rightarrow> bool list \<Rightarrow> block list \<Rightarrow> (check_error, uv) result \<times> 't \<times> check" where
  "check_prover ops c tr svole_choices svole_ev =
     (let tr = tr_update ops tr (tr_bits ops (c_adjust c));
          seed = tr_finalize ops tr;
          (u, v) = prover_segments (tr_chi ops seed) (c_triples c);
          c = c\<lparr>c_triples := []\<rparr>
      in if length svole_choices \<noteq> 128 \<or> length svole_ev \<noteq> 128 then (Inl (Err SVole), tr, c)
         else case vole_receiver svole_choices svole_ev of
             Inl e \<Rightarrow> (Inl e, tr, c)
           | Inr (a_0, a_1) \<Rightarrow>
               let u = u XOR a_0; v = v XOR a_1;
                   tr = tr_update ops tr (to_le_bytes u); tr = tr_update ops tr (to_le_bytes v);
                   c = c\<lparr>c_adjust := []\<rparr>
               in (Inr \<lparr>uv_u = u, uv_v = v\<rparr>, tr, c))"

definition check_verifier ::
  "('t, 's) transcript_ops \<Rightarrow> check \<Rightarrow> 't \<Rightarrow> block \<Rightarrow> block list \<Rightarrow> uv \<Rightarrow> (check_error, unit) result \<times> 't \<times> check" where
  "check_verifier ops c tr d svole_keys m =
     (let tr = tr_update ops tr (tr_bits ops (c_adjust c));
          seed = tr_finalize ops tr;
          w = verifier_segments (tr_chi ops seed) d (c_triples c);
          c = c\<lparr>c_triples := []\<rparr>
      in if length svole_keys \<noteq> 128 then (Inl (Err SVole), tr, c)
         else case vole_sender svole_keys of
             Inl e \<Rightarrow> (Inl e, tr, c)
           | Inr b \<Rightarrow>
               let w = w XOR b;
                   tr = tr_update ops tr (to_le_bytes (uv_u m)); tr = tr_update ops tr (to_le_bytes (uv_v m));
                   c = c\<lparr>c_adjust := []\<rparr>
               in if w \<noteq> uv_u m XOR gfmul d (uv_v m) then (Inl (Err CheckInvalid), tr, c) else (Inr (), tr, c))"

section \<open>Vector OLE is correct\<close>

lemma length_MONOMIAL: "length MONOMIAL = 128"
  by (simp add: MONOMIAL_def length_fold_update)

lemma monomials_eq: "monomials = map monomial [0..<128]"
  by (rule nth_equalityI) (simp_all add: monomials_def length_MONOMIAL MONOMIAL_ok monomial_def del: upt_rec_numeral)

fun select :: "(bool \<times> block) list \<Rightarrow> block" where
  "select [] = 0"
| "select ((c, p) # cs) = scale c p XOR select cs"

lemma inner_correlated:
  "length ks = length cs \<Longrightarrow> length ps = length cs \<Longrightarrow>
   inner (zip (map2 (\<lambda>k c. k XOR scale c d) ks cs) ps) = inner (zip ks ps) XOR gfmul d (select (zip cs ps))"
proof (induction ks cs arbitrary: ps rule: list_induct2)
  case (Cons k ks c cs)
  then obtain p ps' where ps: "ps = p # ps'" "length ps' = length cs" by (cases ps) auto
  then show ?case using Cons.IH [OF ps(2)]
    by (simp add: gfmul_xor gfmul_scale word_xor_ac)
qed (simp add: gfmul_zero)

lemma bit_select:
  "k + length cs \<le> 128 \<Longrightarrow>
   bit (select (zip cs (map monomial [k..<k + length cs]))) i \<longleftrightarrow> k \<le> i \<and> i < k + length cs \<and> cs ! (i - k)"
proof (induction cs arbitrary: k)
  case (Cons c cs)
  have u: "[k..<k + length (c # cs)] = k # [Suc k..<Suc k + length cs]" by (simp add: upt_conv_Cons del: upt_Suc)
  show ?case using Cons.IH [of "Suc k"] Cons.prems
    unfolding u by (cases "i = k") (auto simp: bit_xor_iff scale_def nth_Cons' Suc_le_eq)
qed simp

lemma select_monomials: "length cs = 128 \<Longrightarrow> select (zip cs monomials) = from_lsb0 cs"
  using bit_select [of 0 cs] by (intro bit_word_eqI) (simp add: monomials_eq bit_from_lsb0 del: upt_rec_numeral)

lemma vole_ok:
  assumes "correlated d ks cs ev" "length ks = 128"
  shows "\<exists>a_0 b. vole_receiver cs ev = (Inr (a_0, from_lsb0 cs) :: ('e, _) result) \<and> vole_sender ks = (Inr b :: ('f, _) result) \<and>
    b = a_0 XOR gfmul d (from_lsb0 cs)"
proof -
  have l: "length cs = 128" "length ev = 128" using assms correlated_length by fastforce+
  have ev: "ev = map2 (\<lambda>k c. k XOR scale c d) ks cs" using assms(1) by (simp add: correlated_def key_auth_scale)
  have m: "length monomials = 128" by (simp add: monomials_eq del: upt_rec_numeral)
  have "inner (zip ev monomials) = inner (zip ks monomials) XOR gfmul d (from_lsb0 cs)"
    unfolding ev using inner_correlated [of ks cs monomials d] l m assms(2) by (simp add: select_monomials)
  then show ?thesis using l m assms(2)
    by (simp add: vole_receiver_def vole_sender_def inn_prdt_red_eq xor_simps)
qed

section \<open>Completeness of the check\<close>

text \<open>A triple of the prover and of the verifier whose MACs authenticate bits with \<open>z = x \<and> y\<close>.\<close>

definition wire_ok :: "delta \<Rightarrow> key \<Rightarrow> mac \<Rightarrow> bool \<Rightarrow> bool" where
  "wire_ok d k m x \<longleftrightarrow> mac_ok d k m x \<and> \<not> lsb k"

lemma wire_ok_pointer: "wire_ok d k m x \<Longrightarrow> lsb d \<Longrightarrow> lsb m = x"
  using mac_ok_lsb by (auto simp: wire_ok_def)

definition triple_ok :: "delta \<Rightarrow> triple \<Rightarrow> triple \<Rightarrow> bool" where
  "triple_ok d v p \<longleftrightarrow>
     wire_ok d (t_x v) (t_x p) (lsb (t_x p)) \<and> wire_ok d (t_y v) (t_y p) (lsb (t_y p)) \<and>
     wire_ok d (t_z v) (t_z p) (lsb (t_x p) \<and> lsb (t_y p))"

lemma term_ok:
  assumes "triple_ok d v p"
  shows "compute_term v chi d = fst (compute_terms p chi) XOR gfmul d (snd (compute_terms p chi))"
proof -
  define a b where "a = lsb (t_x p)" and "b = lsb (t_y p)"
  have m: "t_x p = t_x v XOR scale a d" "t_y p = t_y v XOR scale b d" "t_z p = t_z v XOR scale (a \<and> b) d"
    using assms by (simp_all add: triple_ok_def wire_ok_def mac_ok_def a_def b_def)
  have t: "compute_terms p chi = (gfmul (gfmul (t_x p) (t_y p)) chi, gfmul (scale a (t_y p) XOR scale b (t_x p) XOR t_z p) chi)"
    by (simp add: compute_terms_def Let_def BLOCK_ZERO_def scale_def a_def b_def)
  have "gfmul (t_x v) (t_y v) XOR gfmul d (t_z v) =
      gfmul (t_x p) (t_y p) XOR gfmul d (scale a (t_y p) XOR scale b (t_x p) XOR t_z p)"
    unfolding m by (cases a; cases b) (simp_all add: gfmul_xor gfmul_commute [of "t_x v" d] gfmul_commute [of "t_y v" d] word_xor_ac xor_simps)
  then have "compute_term v chi d = gfmul (gfmul (t_x p) (t_y p) XOR gfmul d (scale a (t_y p) XOR scale b (t_x p) XOR t_z p)) chi"
    by (simp add: compute_term_def Let_def)
  then show ?thesis unfolding t by (simp add: gfmul_xor gfmul_assoc)
qed

lemma segment_ok:
  "list_all2 (triple_ok d) vs ps \<Longrightarrow> w = u XOR gfmul d v \<Longrightarrow>
   verifier_segment chi d j vs w = fst (prover_segment chi j ps u v) XOR gfmul d (snd (prover_segment chi j ps u v))"
proof (induction vs ps arbitrary: j u v w rule: list_all2_induct)
  case (Cons x xs y ys)
  have "verifier_segment chi d (j + 1) xs (w XOR compute_term x (chi j) d) =
      (let (a, b) = compute_terms y (chi j); p = prover_segment chi (j + 1) ys (u XOR a) (v XOR b) in fst p XOR gfmul d (snd p))"
    using Cons.IH [of "w XOR compute_term x (chi j) d" "u XOR fst (compute_terms y (chi j))" "v XOR snd (compute_terms y (chi j))" "j + 1"]
      term_ok [OF Cons.hyps(1), of "chi j"] Cons.prems
    by (simp add: Let_def case_prod_unfold gfmul_xor word_xor_ac)
  then show ?case by (simp add: Let_def case_prod_unfold)
qed simp

lemma chunks_all2: "list_all2 P xs ys \<Longrightarrow> list_all2 (list_all2 P) (chunks n xs) (chunks n ys)"
proof (induction n xs arbitrary: ys rule: chunks.induct)
  case (1 n xs)
  show ?case
  proof (cases "n = 0 \<or> xs = []")
    case False
    then have y: "\<not> (n = 0 \<or> ys = [])" using 1(2) by auto
    have "list_all2 (list_all2 P) (chunks n (drop n xs)) (chunks n (drop n ys))"
      by (rule 1(1) [OF False]) (simp add: 1(2) list_all2_dropI)
    with y False 1(2) show ?thesis by (auto simp: chunks_step intro: list_all2_takeI)
  qed (use 1(2) in auto)
qed

lemma segments_fold_ok:
  "list_all2 (list_all2 (triple_ok d)) vss pss \<Longrightarrow> w = u XOR gfmul d v \<Longrightarrow>
   fold (\<lambda>(i, seg) w1. w1 XOR verifier_segment (chi i) d 0 seg BLOCK_ZERO) (enumerate k vss) w =
   (let p = fold (\<lambda>(i, seg) (u1, v1). let (u2, v2) = prover_segment (chi i) 0 seg BLOCK_ZERO BLOCK_ZERO in (u1 XOR u2, v1 XOR v2))
      (enumerate k pss) (u, v) in fst p XOR gfmul d (snd p))"
proof (induction vss pss arbitrary: k u v w rule: list_all2_induct)
  case (Cons vs vss ps pss)
  have "verifier_segment (chi k) d 0 vs BLOCK_ZERO =
      fst (prover_segment (chi k) 0 ps BLOCK_ZERO BLOCK_ZERO) XOR gfmul d (snd (prover_segment (chi k) 0 ps BLOCK_ZERO BLOCK_ZERO))"
    by (rule segment_ok [OF Cons.hyps(1)]) (simp add: BLOCK_ZERO_def gfmul_zero)
  then show ?case
    using Cons.IH [of "w XOR verifier_segment (chi k) d 0 vs BLOCK_ZERO" "u XOR fst (prover_segment (chi k) 0 ps BLOCK_ZERO BLOCK_ZERO)"
        "v XOR snd (prover_segment (chi k) 0 ps BLOCK_ZERO BLOCK_ZERO)" "Suc k"] Cons.prems
    by (simp add: case_prod_unfold Let_def gfmul_xor word_xor_ac)
qed (simp add: Let_def)

lemma segments_ok:
  "list_all2 (triple_ok d) vs ps \<Longrightarrow>
   verifier_segments chi d vs = fst (prover_segments chi ps) XOR gfmul d (snd (prover_segments chi ps))"
  unfolding verifier_segments_def prover_segments_def
  using segments_fold_ok [OF chunks_all2, of d vs ps BLOCK_ZERO BLOCK_ZERO BLOCK_ZERO chi 0 SEGMENT_SIZE]
  by (simp add: BLOCK_ZERO_def gfmul_zero Let_def)

lemma check_ok:
  assumes "list_all2 (triple_ok d) (c_triples V) (c_triples P)" "c_adjust V = c_adjust P" "correlated d ks cs ev" "length ks = 128"
  shows "\<exists>m tr'. check_prover ops P tr cs ev = (Inr m, tr', check_default) \<and>
    check_verifier ops V tr d ks m = (Inr (), tr', check_default)"
proof -
  have l: "length cs = 128" "length ev = 128" using assms(3,4) correlated_length by fastforce+
  let ?chi = "tr_chi ops (tr_finalize ops (tr_update ops tr (tr_bits ops (c_adjust P))))"
  obtain a_0 b where v: "vole_receiver cs ev = (Inr (a_0, from_lsb0 cs) :: (check_error, _) result)"
      "vole_sender ks = (Inr b :: (check_error, _) result)" "b = a_0 XOR gfmul d (from_lsb0 cs)"
    using vole_ok [OF assms(3,4)] by blast
  show ?thesis
    using segments_ok [OF assms(1), of ?chi] assms(2,4) l v
    by (simp add: check_prover_def check_verifier_def Let_def case_prod_unfold check_default_def gfmul_xor word_xor_ac)
qed

text \<open>
  Completeness of the consistency check.  If the triples the two parties recorded hold MACs that
  are consistent with bits \<open>z = x \<and> y\<close>, the adjustment bits agree and the 128 correlated OTs are
  correlated, then from equal transcripts the prover produces a message the verifier accepts, both
  continue with equal transcripts, and nothing is left to check.
\<close>

theorem check_complete:
  assumes "list_all2 (triple_ok d) (c_triples V) (c_triples P)" "c_adjust V = c_adjust P" "correlated d ks cs ev" "length ks = 128"
  shows "\<exists>m tr'. check_prover ops P tr cs ev = (Inr m, tr', check_default) \<and>
    check_verifier ops V tr d ks m = (Inr (), tr', check_default)"
  by (rule check_ok [OF assms])

end
