(* ===== verification/Zk.thy ===== *)
theory Zk
  imports Zk_Check Circuit
begin

text \<open>
  The prover and the verifier of the zero-knowledge protocol on a circuit (\<open>zk-core/src/prover.rs\<close>,
  \<open>verifier.rs\<close>): the prover iterates over the gates and yields one adjustment bit per AND gate, the
  verifier consumes them; both record a triple per AND gate for the consistency check.  The check
  state is shared by the party and its running executions; \<open>execs\<close> counts the handles that are alive.
\<close>

section \<open>The prover\<close>

datatype prover_error =
    InputMacCount nat nat
  | GateMaskCount nat nat
  | GateMacCount nat nat
  | ProverIncomplete
  | ProverInprogress
  | ProverCheck check_error

record prover =
  pr_check :: check
  pr_execs :: nat

definition prover_default :: prover where
  "prover_default = \<lparr>pr_check = check_default, pr_execs = 0\<rparr>"

record prover_execute =
  pe_circ :: circuit
  pe_macs :: "mac list"
  pe_triples :: "triple list"
  pe_adjust :: "bool list"
  pe_gate_masks :: "bool list"
  pe_gate_macs :: "mac list"
  pe_check_idx :: nat
  pe_counter :: nat
  pe_and_count :: nat

definition pe_new :: "circuit \<Rightarrow> mac list \<Rightarrow> bool list \<Rightarrow> mac list \<Rightarrow> nat \<Rightarrow> prover_execute" where
  "pe_new circ macs gate_masks gate_macs check_idx =
     \<lparr>pe_circ = circ, pe_macs = macs, pe_triples = [], pe_adjust = [], pe_gate_masks = gate_masks, pe_gate_macs = gate_macs,
      pe_check_idx = check_idx, pe_counter = 0, pe_and_count = and_count circ\<rparr>"

definition prover_run :: "prover \<Rightarrow> circuit \<Rightarrow> mac list \<Rightarrow> bool list \<Rightarrow> mac list \<Rightarrow> (prover_error, prover_execute \<times> prover) result" where
  "prover_run p circ input_macs gate_masks gate_macs =
     (if length input_macs \<noteq> range_len (inputs circ)
      then Inl (Err (InputMacCount (range_len (inputs circ)) (length input_macs)))
      else if length gate_masks \<noteq> and_count circ then Inl (Err (GateMaskCount (and_count circ) (length gate_masks)))
      else if length gate_macs \<noteq> and_count circ then Inl (Err (GateMacCount (and_count circ) (length gate_macs)))
      else
        let (check_idx, c) = reserve (pr_check p) (and_count circ)
        in Inr (pe_new circ input_macs gate_masks gate_macs check_idx, p\<lparr>pr_check := c, pr_execs := pr_execs p + 1\<rparr>))"

definition prover_check ::
  "('t, 's) transcript_ops \<Rightarrow> prover \<Rightarrow> 't \<Rightarrow> bool list \<Rightarrow> block list \<Rightarrow> (prover_error, uv) result \<times> 't \<times> prover" where
  "prover_check ops p tr svole_choices svole_ev =
     (if 0 < pr_execs p then (Inl (Err ProverInprogress), tr, p)
      else let (r, tr, c) = check_prover ops (pr_check p) tr svole_choices svole_ev
           in (map_err ProverCheck r, tr, p\<lparr>pr_check := c\<rparr>))"

definition prover_wants_check :: "prover \<Rightarrow> bool" where
  "prover_wants_check p = wants_check (pr_check p)"

definition prover_pending :: "prover \<Rightarrow> nat" where
  "prover_pending p = check_total (pr_check p)"

text \<open>\<open>iter\<close> hands out the gates and the execution state the iterator writes to.\<close>

definition pe_iter :: "prover_execute \<Rightarrow> gate list \<times> prover_execute" where
  "pe_iter e = (gates (pe_circ e), e\<lparr>pe_macs := resize_with (feed_count (pe_circ e)) 0 (pe_macs e), pe_counter := 0\<rparr>)"

fun pi_next :: "gate list \<Rightarrow> prover_execute \<Rightarrow> (prover_error, bool option \<times> gate list \<times> prover_execute) result" where
  "pi_next [] e = Inr (None, [], e)"
| "pi_next (Gate_Xor x y z # gs) e =
     bindR (idx (pe_macs e) x) (\<lambda>mac_x. bindR (idx (pe_macs e) y) (\<lambda>mac_y.
     bindR (upd (pe_macs e) z (mac_add mac_x mac_y)) (\<lambda>macs. pi_next gs (e\<lparr>pe_macs := macs\<rparr>))))"
| "pi_next (Gate_And x y z # gs) e =
     bindR (idx (pe_macs e) x) (\<lambda>mac_x. bindR (idx (pe_macs e) y) (\<lambda>mac_y.
     bindR (idx (pe_gate_macs e) (pe_counter e)) (\<lambda>mac_z.
       let w_z = (mac_pointer mac_x \<and> mac_pointer mac_y); mac_z = set_pointer mac_z w_z
       in bindR (idx (pe_gate_masks e) (pe_counter e)) (\<lambda>mask.
            let adjust = (mask \<noteq> w_z)
            in bindR (upd (pe_macs e) z mac_z) (\<lambda>macs.
                 let e = e\<lparr>pe_macs := macs, pe_triples := pe_triples e @ [\<lparr>t_x = mac_x, t_y = mac_y, t_z = mac_z\<rparr>],
                           pe_adjust := pe_adjust e @ [adjust], pe_counter := pe_counter e + 1\<rparr>
                 in if pe_and_count e \<le> pe_counter e
                    then bindR (pi_next gs e) (\<lambda>(r, gs, e). bindR (assertR (r = None)) (\<lambda>_. Inr (Some adjust, gs, e)))
                    else Inr (Some adjust, gs, e))))))"
| "pi_next (Gate_Inv x z # gs) e =
     bindR (idx (pe_macs e) x) (\<lambda>mac.
     bindR (upd (pe_macs e) z (set_pointer mac (\<not> mac_pointer mac))) (\<lambda>macs. pi_next gs (e\<lparr>pe_macs := macs\<rparr>)))"
| "pi_next (Gate_Id x z # gs) e =
     bindR (idx (pe_macs e) x) (\<lambda>mac.
     bindR (upd (pe_macs e) z mac) (\<lambda>macs. pi_next gs (e\<lparr>pe_macs := macs\<rparr>)))"

text \<open>At most \<open>n\<close> items of the iterator.\<close>

fun pi_take :: "nat \<Rightarrow> gate list \<Rightarrow> prover_execute \<Rightarrow> (prover_error, bool list \<times> gate list \<times> prover_execute) result" where
  "pi_take 0 gs e = Inr ([], gs, e)"
| "pi_take (Suc n) gs e =
     bindR (pi_next gs e) (\<lambda>(r, gs, e).
       case r of None \<Rightarrow> Inr ([], gs, e)
       | Some a \<Rightarrow> bindR (pi_take n gs e) (\<lambda>(as, gs, e). Inr (a # as, gs, e)))"

text \<open>\<open>finish\<close> consumes the execution, so its handle on the check is gone whether or not it succeeds.\<close>

definition pe_finish :: "prover \<Rightarrow> prover_execute \<Rightarrow> (prover_error, mac list) result \<times> prover" where
  "pe_finish p e =
     (let q = p\<lparr>pr_execs := pr_execs p - 1\<rparr>
      in if pe_counter e \<noteq> pe_and_count e then (Inl (Err ProverIncomplete), q)
         else case check_write (pr_check p) (pe_check_idx e) (pe_triples e) (pe_adjust e) of
             Inl err \<Rightarrow> (Inl err, q)
           | Inr c \<Rightarrow> (subslice (pe_macs e) (fst (outputs (pe_circ e))) (snd (outputs (pe_circ e))), q\<lparr>pr_check := c\<rparr>))"

section \<open>The verifier\<close>

datatype verifier_error =
    InputKeyCount nat nat
  | GateKeyCount nat nat
  | VerifierIncomplete
  | VerifierInprogress
  | VerifierCheck check_error

record verifier =
  vr_delta :: delta
  vr_check :: check
  vr_execs :: nat

definition verifier_new :: "delta \<Rightarrow> verifier" where
  "verifier_new d = \<lparr>vr_delta = d, vr_check = check_default, vr_execs = 0\<rparr>"

record verifier_execute =
  ve_circ :: circuit
  ve_delta :: delta
  ve_keys :: "key list"
  ve_gate_keys :: "key list"
  ve_triples :: "triple list"
  ve_adjust :: "bool list"
  ve_check_idx :: nat
  ve_counter :: nat
  ve_and_count :: nat

definition ve_new :: "circuit \<Rightarrow> delta \<Rightarrow> key list \<Rightarrow> key list \<Rightarrow> nat \<Rightarrow> verifier_execute" where
  "ve_new circ d keys gate_keys check_idx =
     \<lparr>ve_circ = circ, ve_delta = d, ve_keys = keys, ve_gate_keys = gate_keys, ve_triples = [], ve_adjust = [],
      ve_check_idx = check_idx, ve_counter = 0, ve_and_count = and_count circ\<rparr>"

definition verifier_run :: "verifier \<Rightarrow> circuit \<Rightarrow> key list \<Rightarrow> key list \<Rightarrow> (verifier_error, verifier_execute \<times> verifier) result" where
  "verifier_run v circ input_keys gate_keys =
     (if length input_keys \<noteq> range_len (inputs circ)
      then Inl (Err (InputKeyCount (range_len (inputs circ)) (length input_keys)))
      else if length gate_keys \<noteq> and_count circ then Inl (Err (GateKeyCount (and_count circ) (length gate_keys)))
      else
        let (check_idx, c) = reserve (vr_check v) (and_count circ)
        in Inr (ve_new circ (vr_delta v) input_keys gate_keys check_idx, v\<lparr>vr_check := c, vr_execs := vr_execs v + 1\<rparr>))"

definition verifier_check ::
  "('t, 's) transcript_ops \<Rightarrow> verifier \<Rightarrow> 't \<Rightarrow> block list \<Rightarrow> uv \<Rightarrow> (verifier_error, unit) result \<times> 't \<times> verifier" where
  "verifier_check ops v tr svole_keys m =
     (if 0 < vr_execs v then (Inl (Err VerifierInprogress), tr, v)
      else let (r, tr, c) = check_verifier ops (vr_check v) tr (vr_delta v) svole_keys m
           in (map_err VerifierCheck r, tr, v\<lparr>vr_check := c\<rparr>))"

definition verifier_wants_check :: "verifier \<Rightarrow> bool" where
  "verifier_wants_check v = wants_check (vr_check v)"

definition verifier_pending :: "verifier \<Rightarrow> nat" where
  "verifier_pending v = check_total (vr_check v)"

definition wants_adjust :: "verifier_execute \<Rightarrow> bool" where
  "wants_adjust e \<longleftrightarrow> ve_counter e < ve_and_count e"

fun vc_next :: "bool \<Rightarrow> gate list \<Rightarrow> verifier_execute \<Rightarrow> (verifier_error, gate list \<times> verifier_execute) result" where
  "vc_next adjust [] e = Inr ([], e)"
| "vc_next adjust (Gate_Xor x y z # gs) e =
     bindR (idx (ve_keys e) x) (\<lambda>x. bindR (idx (ve_keys e) y) (\<lambda>y.
     bindR (upd (ve_keys e) z (key_add x y)) (\<lambda>keys. vc_next adjust gs (e\<lparr>ve_keys := keys\<rparr>))))"
| "vc_next adjust (Gate_And x y z # gs) e =
     bindR (idx (ve_keys e) x) (\<lambda>key_x. bindR (idx (ve_keys e) y) (\<lambda>key_y.
     bindR (idx (ve_gate_keys e) (ve_counter e)) (\<lambda>key_z.
       let key_z = key_adjust key_z adjust (ve_delta e)
       in bindR (upd (ve_keys e) z key_z) (\<lambda>keys.
            let e = e\<lparr>ve_keys := keys, ve_triples := ve_triples e @ [\<lparr>t_x = key_x, t_y = key_y, t_z = key_z\<rparr>],
                      ve_adjust := ve_adjust e @ [adjust], ve_counter := ve_counter e + 1\<rparr>
            in if wants_adjust e then Inr (gs, e) else vc_next adjust gs e))))"
| "vc_next adjust (Gate_Inv x z # gs) e =
     bindR (idx (ve_keys e) x) (\<lambda>x.
     bindR (upd (ve_keys e) z (key_adjust x True (ve_delta e))) (\<lambda>keys. vc_next adjust gs (e\<lparr>ve_keys := keys\<rparr>)))"
| "vc_next adjust (Gate_Id x z # gs) e =
     bindR (idx (ve_keys e) x) (\<lambda>x.
     bindR (upd (ve_keys e) z x) (\<lambda>keys. vc_next adjust gs (e\<lparr>ve_keys := keys\<rparr>)))"

definition ve_consumer :: "verifier_execute \<Rightarrow> (verifier_error, gate list \<times> verifier_execute) result" where
  "ve_consumer e =
     (let e = e\<lparr>ve_keys := resize_with (feed_count (ve_circ e)) 0 (ve_keys e), ve_counter := 0\<rparr>
      in if ve_and_count e = 0 then vc_next False (gates (ve_circ e)) e else Inr (gates (ve_circ e), e))"

fun vc_feed :: "bool list \<Rightarrow> gate list \<times> verifier_execute \<Rightarrow> (verifier_error, gate list \<times> verifier_execute) result" where
  "vc_feed [] c = Inr c"
| "vc_feed (a # as) c = bindR (vc_next a (fst c) (snd c)) (vc_feed as)"

definition ve_finish :: "verifier \<Rightarrow> verifier_execute \<Rightarrow> (verifier_error, key list) result \<times> verifier" where
  "ve_finish v e =
     (let q = v\<lparr>vr_execs := vr_execs v - 1\<rparr>
      in if ve_counter e < ve_and_count e then (Inl (Err VerifierIncomplete), q)
         else case check_write (vr_check v) (ve_check_idx e) (ve_triples e) (ve_adjust e) of
             Inl err \<Rightarrow> (Inl err, q)
           | Inr c \<Rightarrow> (subslice (ve_keys e) (fst (outputs (ve_circ e))) (snd (outputs (ve_circ e))), q\<lparr>vr_check := c\<rparr>))"

section \<open>One gate\<close>

fun p_eff :: "gate \<Rightarrow> prover_execute \<Rightarrow> prover_execute" where
  "p_eff (Gate_Xor x y z) e = e\<lparr>pe_macs := (pe_macs e)[z := mac_add (pe_macs e ! x) (pe_macs e ! y)]\<rparr>"
| "p_eff (Gate_And x y z) e =
     (let mac_x = pe_macs e ! x; mac_y = pe_macs e ! y; w_z = (mac_pointer mac_x \<and> mac_pointer mac_y);
          mac_z = set_pointer (pe_gate_macs e ! pe_counter e) w_z
      in e\<lparr>pe_macs := (pe_macs e)[z := mac_z], pe_triples := pe_triples e @ [\<lparr>t_x = mac_x, t_y = mac_y, t_z = mac_z\<rparr>],
           pe_adjust := pe_adjust e @ [pe_gate_masks e ! pe_counter e \<noteq> w_z], pe_counter := pe_counter e + 1\<rparr>)"
| "p_eff (Gate_Inv x z) e = e\<lparr>pe_macs := (pe_macs e)[z := set_pointer (pe_macs e ! x) (\<not> mac_pointer (pe_macs e ! x))]\<rparr>"
| "p_eff (Gate_Id x z) e = e\<lparr>pe_macs := (pe_macs e)[z := pe_macs e ! x]\<rparr>"

fun v_eff :: "bool \<Rightarrow> gate \<Rightarrow> verifier_execute \<Rightarrow> verifier_execute" where
  "v_eff a (Gate_Xor x y z) e = e\<lparr>ve_keys := (ve_keys e)[z := key_add (ve_keys e ! x) (ve_keys e ! y)]\<rparr>"
| "v_eff a (Gate_And x y z) e =
     (let key_z = key_adjust (ve_gate_keys e ! ve_counter e) a (ve_delta e)
      in e\<lparr>ve_keys := (ve_keys e)[z := key_z],
           ve_triples := ve_triples e @ [\<lparr>t_x = ve_keys e ! x, t_y = ve_keys e ! y, t_z = key_z\<rparr>],
           ve_adjust := ve_adjust e @ [a], ve_counter := ve_counter e + 1\<rparr>)"
| "v_eff a (Gate_Inv x z) e = e\<lparr>ve_keys := (ve_keys e)[z := key_adjust (ve_keys e ! x) True (ve_delta e)]\<rparr>"
| "v_eff a (Gate_Id x z) e = e\<lparr>ve_keys := (ve_keys e)[z := ve_keys e ! x]\<rparr>"

fun v_run :: "gate list \<Rightarrow> bool list \<Rightarrow> verifier_execute \<Rightarrow> verifier_execute" where
  "v_run [] as e = e"
| "v_run (g # gs) as e =
     (if gate_type g = Ty_And then v_run gs (tl as) (v_eff (hd as) g e) else v_run gs as (v_eff False g e))"

definition pe_fits :: "nat \<Rightarrow> node set \<Rightarrow> prover_execute \<Rightarrow> bool" where
  "pe_fits n D e \<longleftrightarrow> D \<subseteq> {..<length (pe_macs e)} \<and> n \<le> length (pe_macs e) \<and> pe_and_count e \<le> length (pe_gate_macs e) \<and>
     pe_and_count e \<le> length (pe_gate_masks e)"

definition ve_fits :: "nat \<Rightarrow> node set \<Rightarrow> verifier_execute \<Rightarrow> bool" where
  "ve_fits n D e \<longleftrightarrow> D \<subseteq> {..<length (ve_keys e)} \<and> n \<le> length (ve_keys e) \<and> ve_and_count e \<le> length (ve_gate_keys e)"

lemma p_eff_simps [simp]:
  "length (pe_macs (p_eff g e)) = length (pe_macs e)" "pe_gate_macs (p_eff g e) = pe_gate_macs e"
  "pe_gate_masks (p_eff g e) = pe_gate_masks e" "pe_and_count (p_eff g e) = pe_and_count e"
  "pe_circ (p_eff g e) = pe_circ e" "pe_check_idx (p_eff g e) = pe_check_idx e"
  "pe_counter (p_eff g e) = pe_counter e + (if gate_type g = Ty_And then 1 else 0)"
  by (cases g; simp add: Let_def)+

lemma v_eff_simps [simp]:
  "length (ve_keys (v_eff a g e)) = length (ve_keys e)" "ve_gate_keys (v_eff a g e) = ve_gate_keys e"
  "ve_delta (v_eff a g e) = ve_delta e" "ve_and_count (v_eff a g e) = ve_and_count e"
  "ve_circ (v_eff a g e) = ve_circ e" "ve_check_idx (v_eff a g e) = ve_check_idx e"
  "ve_counter (v_eff a g e) = ve_counter e + (if gate_type g = Ty_And then 1 else 0)"
  by (cases g; simp add: Let_def)+

lemma p_eff_adjust:
  "gate_type g \<noteq> Ty_And \<Longrightarrow> pe_adjust (p_eff g e) = pe_adjust e"
  "gate_type g = Ty_And \<Longrightarrow> pe_adjust (p_eff g e) = pe_adjust e @ [last (pe_adjust (p_eff g e))]"
  by (cases g; simp add: Let_def)+

lemma fits_eff: "pe_fits n D e \<Longrightarrow> gate_z g < n \<Longrightarrow> pe_fits n (insert (gate_z g) D) (p_eff g e)"
    "ve_fits n D f \<Longrightarrow> gate_z g < n \<Longrightarrow> ve_fits n (insert (gate_z g) D) (v_eff a g f)"
  by (auto simp: pe_fits_def ve_fits_def)

lemma pi_next_free:
  "gate_type g \<noteq> Ty_And \<Longrightarrow> pe_fits n D e \<Longrightarrow> set (gate_ops g) \<subseteq> D \<Longrightarrow> gate_z g < n \<Longrightarrow> pi_next (g # gs) e = pi_next gs (p_eff g e)"
  by (cases g) (auto simp: pe_fits_def subset_iff)

lemma pi_next_and:
  "gate_type g = Ty_And \<Longrightarrow> pe_fits n D e \<Longrightarrow> set (gate_ops g) \<subseteq> D \<Longrightarrow> gate_z g < n \<Longrightarrow> pe_counter e < pe_and_count e \<Longrightarrow>
   pi_next (g # gs) e = (let e1 = p_eff g e; a = last (pe_adjust e1)
     in if pe_and_count e1 \<le> pe_counter e1
        then bindR (pi_next gs e1) (\<lambda>(r, gs, e). bindR (assertR (r = None)) (\<lambda>_. Inr (Some a, gs, e)))
        else Inr (Some a, gs, e1))"
  by (cases g) (auto simp: pe_fits_def subset_iff Let_def)

lemma vc_next_free:
  "gate_type g \<noteq> Ty_And \<Longrightarrow> ve_fits n D e \<Longrightarrow> set (gate_ops g) \<subseteq> D \<Longrightarrow> gate_z g < n \<Longrightarrow>
   vc_next a (g # gs) e = vc_next a gs (v_eff False g e)"
  by (cases g) (auto simp: ve_fits_def subset_iff)

lemma vc_next_and:
  "gate_type g = Ty_And \<Longrightarrow> ve_fits n D e \<Longrightarrow> set (gate_ops g) \<subseteq> D \<Longrightarrow> gate_z g < n \<Longrightarrow> ve_counter e < ve_and_count e \<Longrightarrow>
   vc_next a (g # gs) e = (let e1 = v_eff a g e in if wants_adjust e1 then Inr (gs, e1) else vc_next a gs e1)"
  by (cases g) (auto simp: ve_fits_def subset_iff Let_def)

section \<open>Whole circuits\<close>

lemma pi_next_no_and:
  "gates_wf n D gs \<Longrightarrow> pe_fits n D e \<Longrightarrow> count_type Ty_And gs = 0 \<Longrightarrow> pi_next gs e = Inr (None, [], fold p_eff gs e)"
proof (induction gs arbitrary: D e)
  case (Cons g gs)
  have g: "gate_type g \<noteq> Ty_And" using Cons.prems(3) by auto
  then show ?case
    using Cons.IH [of "insert (gate_z g) D" "p_eff g e"] Cons.prems fits_eff(1) [OF Cons.prems(2)] pi_next_free [OF g Cons.prems(2)]
    by simp
qed simp

lemma vc_next_no_and:
  "gates_wf n D gs \<Longrightarrow> ve_fits n D e \<Longrightarrow> count_type Ty_And gs = 0 \<Longrightarrow> vc_next a gs e = Inr ([], v_run gs as e)"
proof (induction gs arbitrary: D e)
  case (Cons g gs)
  have g: "gate_type g \<noteq> Ty_And" using Cons.prems(3) by auto
  then show ?case
    using Cons.IH [of "insert (gate_z g) D" "v_eff False g e"] Cons.prems fits_eff(2) [OF Cons.prems(2)] vc_next_free [OF g Cons.prems(2)]
    by simp
qed simp

lemma fold_p_eff_adjust: "\<exists>as. pe_adjust (fold p_eff gs e) = pe_adjust e @ as \<and> length as = count_type Ty_And gs"
proof (induction gs arbitrary: e)
  case (Cons g gs)
  from Cons.IH [of "p_eff g e"] obtain as where
    a: "pe_adjust (fold p_eff gs (p_eff g e)) = pe_adjust (p_eff g e) @ as" "length as = count_type Ty_And gs" by blast
  show ?case
  proof (cases "gate_type g = Ty_And")
    case True
    from p_eff_adjust(2) [OF True, of e] obtain b where "pe_adjust (p_eff g e) = pe_adjust e @ [b]" by blast
    then show ?thesis using a True by simp
  qed (use a p_eff_adjust(1) in auto)
qed simp

definition new_adjust :: "gate list \<Rightarrow> prover_execute \<Rightarrow> bool list" where
  "new_adjust gs e = drop (length (pe_adjust e)) (pe_adjust (fold p_eff gs e))"

lemma new_adjust_simps:
  "new_adjust [] e = []"
  "new_adjust (g # gs) e = (if gate_type g = Ty_And then [last (pe_adjust (p_eff g e))] else []) @ new_adjust gs (p_eff g e)"
proof -
  obtain as where a: "pe_adjust (fold p_eff gs (p_eff g e)) = pe_adjust (p_eff g e) @ as" using fold_p_eff_adjust by blast
  show "new_adjust (g # gs) e = (if gate_type g = Ty_And then [last (pe_adjust (p_eff g e))] else []) @ new_adjust gs (p_eff g e)"
  proof (cases "gate_type g = Ty_And")
    case True
    from p_eff_adjust(2) [OF True, of e] obtain b where b: "pe_adjust (p_eff g e) = pe_adjust e @ [b]" by blast
    show ?thesis using a True by (simp add: new_adjust_def b)
  qed (use a p_eff_adjust(1) in \<open>simp add: new_adjust_def\<close>)
qed (simp add: new_adjust_def)

lemma length_new_adjust: "length (new_adjust gs e) = count_type Ty_And gs"
  using fold_p_eff_adjust [of gs e] by (auto simp: new_adjust_def)

lemma pi_take_ok:
  "gates_wf n D gs \<Longrightarrow> pe_fits n D e \<Longrightarrow> pe_counter e + count_type Ty_And gs = pe_and_count e \<Longrightarrow> count_type Ty_And gs < m \<Longrightarrow>
   pi_take m gs e = Inr (new_adjust gs e, [], fold p_eff gs e)"
proof (induction gs arbitrary: D e m)
  case Nil
  then show ?case by (cases m) (simp_all add: new_adjust_simps)
next
  case (Cons g gs)
  from Cons.prems(4) obtain m' where m: "m = Suc m'" by (cases m) auto
  have w: "set (gate_ops g) \<subseteq> D" "gate_z g < n" "gates_wf n (insert (gate_z g) D) gs" "pe_fits n (insert (gate_z g) D) (p_eff g e)"
    using Cons.prems fits_eff(1) by auto
  show ?case
  proof (cases "gate_type g = Ty_And")
    case False
    have "pi_take m (g # gs) e = pi_take m gs (p_eff g e)"
      by (simp add: m pi_next_free [OF False Cons.prems(2) w(1,2)])
    then show ?thesis using Cons.IH [OF w(3,4), of m] Cons.prems(3,4) False by (simp add: new_adjust_simps)
  next
    case True
    have c: "pe_counter e < pe_and_count e" using Cons.prems(3) True by simp
    note nx = pi_next_and [OF True Cons.prems(2) w(1,2) c, of gs]
    show ?thesis
    proof (cases "count_type Ty_And gs = 0")
      case z: True
      have m': "m' = Suc (m' - 1)" using Cons.prems(4) True z m by simp
      have "pi_take m' [] e' = Inr ([], [], e')" for e' by (subst m') simp
      moreover have "new_adjust gs (p_eff g e) = []" using length_new_adjust [of gs "p_eff g e"] z by simp
      ultimately show ?thesis using nx pi_next_no_and [OF w(3,4) z] Cons.prems(3) True z by (simp add: m new_adjust_simps Let_def)
    next
      case False
      then show ?thesis using nx Cons.IH [OF w(3,4), of m'] Cons.prems(3,4) True by (simp add: m new_adjust_simps Let_def)
    qed
  qed
qed

lemma vc_feed_ok:
  "gates_wf n D gs \<Longrightarrow> ve_fits n D e \<Longrightarrow> ve_counter e + count_type Ty_And gs = ve_and_count e \<Longrightarrow> length as = count_type Ty_And gs \<Longrightarrow>
   as \<noteq> [] \<Longrightarrow> vc_feed as (gs, e) = Inr ([], v_run gs as e)"
proof (induction gs arbitrary: D e as)
  case (Cons g gs)
  obtain a as' where as: "as = a # as'" using Cons.prems(5) by (cases as) auto
  have w: "set (gate_ops g) \<subseteq> D" "gate_z g < n" "gates_wf n (insert (gate_z g) D) gs" "ve_fits n (insert (gate_z g) D) (v_eff b g e)" for b
    using Cons.prems fits_eff(2) by auto
  show ?case
  proof (cases "gate_type g = Ty_And")
    case False
    have "vc_feed as (g # gs, e) = vc_feed as (gs, v_eff False g e)"
      by (simp add: as vc_next_free [OF False Cons.prems(2) w(1,2)])
    then show ?thesis using Cons.IH [OF w(3,4), of False as] Cons.prems(3-5) False by simp
  next
    case True
    have c: "ve_counter e < ve_and_count e" using Cons.prems(3) True by simp
    note nx = vc_next_and [OF True Cons.prems(2) w(1,2) c, of a gs]
    show ?thesis
    proof (cases "as' = []")
      case z: True
      then have "count_type Ty_And gs = 0" using Cons.prems(4) True as by simp
      from vc_next_no_and [OF w(3,4) this, of a a "[]"] show ?thesis
        using nx Cons.prems(3,4) True as z by (simp add: Let_def wants_adjust_def)
    next
      case False
      then have "0 < count_type Ty_And gs" using Cons.prems(4) True as by (cases as') auto
      then show ?thesis using nx Cons.IH [OF w(3,4), of a as'] Cons.prems(3,4) True as False by (simp add: Let_def wants_adjust_def)
    qed
  qed
qed simp

section \<open>The MACs stay consistent\<close>

definition zk_rel :: "delta \<Rightarrow> node set \<Rightarrow> env \<Rightarrow> prover_execute \<Rightarrow> verifier_execute \<Rightarrow> bool" where
  "zk_rel d D ev e f \<longleftrightarrow>
     (\<forall>i \<in> D. wire_ok d (ve_keys f ! i) (pe_macs e ! i) (ev i)) \<and>
     list_all2 (triple_ok d) (ve_triples f) (pe_triples e) \<and> ve_adjust f = pe_adjust e \<and> ve_counter f = pe_counter e \<and> ve_delta f = d \<and>
     (\<forall>i < pe_and_count e. mac_ok d (ve_gate_keys f ! i) (pe_gate_macs e ! i) (pe_gate_masks e ! i))"

lemma zk_relD:
  assumes "zk_rel d D ev e f"
  shows "i \<in> D \<Longrightarrow> wire_ok d (ve_keys f ! i) (pe_macs e ! i) (ev i)" "ve_counter f = pe_counter e" "ve_delta f = d"
    "i < pe_and_count e \<Longrightarrow> mac_ok d (ve_gate_keys f ! i) (pe_gate_macs e ! i) (pe_gate_masks e ! i)"
  using assms by (auto simp: zk_rel_def)

lemma zk_rel_update:
  assumes "zk_rel d D ev e f" "wire_ok d k m v" "z < length (pe_macs e)" "z < length (ve_keys f)"
  shows "zk_rel d (insert z D) (ev(z := v)) (e\<lparr>pe_macs := (pe_macs e)[z := m]\<rparr>) (f\<lparr>ve_keys := (ve_keys f)[z := k]\<rparr>)"
  using assms by (auto simp: zk_rel_def nth_list_update)

lemma wire_ok_xor: "wire_ok d k m x \<Longrightarrow> wire_ok d l n y \<Longrightarrow> wire_ok d (key_add k l) (mac_add m n) (x \<noteq> y)"
  using mac_ok_xor [of d k m x l n y] by (simp add: wire_ok_def key_add_def mac_add_def)

lemma wire_ok_inv:
  assumes "lsb d" "wire_ok d k m x"
  shows "wire_ok d (key_adjust k True d) (set_pointer m (\<not> mac_pointer m)) (\<not> x)"
  using adjust_mac_ok [OF assms(1), of k m x "\<not> x"] wire_ok_pointer [OF assms(2,1)] assms(2)
  by (simp add: wire_ok_def mac_pointer_def key_pointer_def)

lemma wire_ok_adjust:
  assumes "lsb d" "mac_ok d k m r"
  shows "wire_ok d (key_adjust k (r \<noteq> x) d) (set_pointer m x) x"
  using adjust_mac_ok [OF assms, of x] by (simp add: wire_ok_def key_pointer_def)

lemma zk_rel_step:
  assumes d: "lsb d" and r: "zk_rel d D ev e f" and g: "set (gate_ops g) \<subseteq> D" "gate_z g < length (pe_macs e)" "gate_z g < length (ve_keys f)"
    and c: "gate_type g = Ty_And \<Longrightarrow> pe_counter e < pe_and_count e" and a: "gate_type g = Ty_And \<Longrightarrow> a = last (pe_adjust (p_eff g e))"
  shows "zk_rel d (insert (gate_z g) D) (ev(gate_z g := gate_sem g ev)) (p_eff g e) (v_eff a g f)"
proof (cases g)
  case (Gate_Xor x y z)
  then show ?thesis using g zk_rel_update [OF r wire_ok_xor [OF zk_relD(1) [OF r, of x] zk_relD(1) [OF r, of y]]] by simp
next
  case (Gate_Inv x z)
  then show ?thesis using g zk_rel_update [OF r wire_ok_inv [OF d zk_relD(1) [OF r, of x]]] zk_relD(3) [OF r] by simp
next
  case (Gate_Id x z)
  then show ?thesis using g zk_rel_update [OF r zk_relD(1) [OF r, of x]] by simp
next
  case (Gate_And x y z)
  let ?mx = "pe_macs e ! x" and ?my = "pe_macs e ! y" and ?n = "pe_counter e"
  let ?w = "mac_pointer ?mx \<and> mac_pointer ?my"
  have xy: "wire_ok d (ve_keys f ! x) ?mx (ev x)" "wire_ok d (ve_keys f ! y) ?my (ev y)" using g Gate_And zk_relD(1) [OF r] by auto
  have p: "lsb ?mx = ev x" "lsb ?my = ev y" using wire_ok_pointer [OF _ d] xy by auto
  have gate: "mac_ok d (ve_gate_keys f ! ?n) (pe_gate_macs e ! ?n) (pe_gate_masks e ! ?n)" using zk_relD(4) [OF r] c Gate_And by simp
  let ?k = "key_adjust (ve_gate_keys f ! ?n) (pe_gate_masks e ! ?n \<noteq> ?w) d" and ?m = "set_pointer (pe_gate_macs e ! ?n) ?w"
  have z: "wire_ok d ?k ?m (ev x \<and> ev y)" using wire_ok_adjust [OF d gate, of ?w] p by (simp add: mac_pointer_def)
  have a: "a = (pe_gate_masks e ! ?n \<noteq> ?w)" using a Gate_And by (simp add: Let_def)
  have t: "triple_ok d \<lparr>t_x = ve_keys f ! x, t_y = ve_keys f ! y, t_z = ?k\<rparr> \<lparr>t_x = ?mx, t_y = ?my, t_z = ?m\<rparr>"
    using xy z p by (simp add: triple_ok_def)
  show ?thesis using zk_rel_update [OF r z, of "gate_z g"] g t zk_relD(2,3) [OF r] a Gate_And
    by (simp add: zk_rel_def Let_def list_all2_appendI)
qed

lemma zk_rel_run:
  assumes "lsb d" "zk_rel d D ev e f" "gates_wf n D gs" "pe_fits n D e" "ve_fits n D f" "pe_counter e + count_type Ty_And gs = pe_and_count e"
  shows "zk_rel d (D \<union> gate_z ` set gs) (run_gates gs ev) (fold p_eff gs e) (v_run gs (new_adjust gs e) f)"
  using assms(2-)
proof (induction gs arbitrary: D ev e f)
  case (Cons g gs)
  define a where "a = (gate_type g = Ty_And \<and> last (pe_adjust (p_eff g e)))"
  have w: "set (gate_ops g) \<subseteq> D" "gate_z g < n" "gates_wf n (insert (gate_z g) D) gs" using Cons.prems(2) by simp_all
  have l: "gate_z g < length (pe_macs e)" "gate_z g < length (ve_keys f)" using w(2) Cons.prems(3,4) by (auto simp: pe_fits_def ve_fits_def)
  have "zk_rel d (insert (gate_z g) D) (ev(gate_z g := gate_sem g ev)) (p_eff g e) (v_eff a g f)"
    by (rule zk_rel_step [OF assms(1) Cons.prems(1) w(1) l]) (use Cons.prems(5) in \<open>auto simp: a_def\<close>)
  from Cons.IH [OF this w(3) fits_eff(1) [OF Cons.prems(3) w(2)] fits_eff(2) [OF Cons.prems(4) w(2)]] Cons.prems(5)
  show ?case by (cases "gate_type g = Ty_And") (simp_all add: new_adjust_simps a_def fun_upd_def)
qed (simp add: new_adjust_simps)

section \<open>Executing a circuit\<close>

text \<open>The two parties' check states describe the same AND gates.\<close>

definition party_rel :: "prover \<Rightarrow> verifier \<Rightarrow> bool" where
  "party_rel p v \<longleftrightarrow>
     list_all2 (triple_ok (vr_delta v)) (c_triples (vr_check v)) (c_triples (pr_check p)) \<and> c_adjust (vr_check v) = c_adjust (pr_check p) \<and>
     length (c_adjust (pr_check p)) = length (c_triples (pr_check p)) \<and> pr_execs p = vr_execs v"

lemma triple_ok_default: "triple_ok d default_triple default_triple"
  by (simp add: triple_ok_def default_triple_def wire_ok_def mac_ok_def)

lemma reserve_eq:
  "length (c_adjust c) = length (c_triples c) \<Longrightarrow> reserve c n =
     (length (c_triples c), \<lparr>c_triples = c_triples c @ replicate n default_triple, c_adjust = c_adjust c @ replicate n False\<rparr>)"
  by (simp add: reserve_def resize_with_def Let_def)

lemma check_write_eq:
  "length ts = n \<Longrightarrow> length adj = n \<Longrightarrow> length ts0 = n \<Longrightarrow> length adj0 = n \<Longrightarrow> length A = length T \<Longrightarrow>
   check_write \<lparr>c_triples = T @ ts0, c_adjust = A @ adj0\<rparr> (length T) ts adj = Inr \<lparr>c_triples = T @ ts, c_adjust = A @ adj\<rparr>"
  by (simp add: check_write_def copy_into_def)

text \<open>One circuit from the initial states to the recorded triples.\<close>

lemma fold_p_eff_simps [simp]:
  "length (pe_macs (fold p_eff gs e)) = length (pe_macs e)" "pe_and_count (fold p_eff gs e) = pe_and_count e"
  "pe_circ (fold p_eff gs e) = pe_circ e" "pe_check_idx (fold p_eff gs e) = pe_check_idx e"
  "pe_counter (fold p_eff gs e) = pe_counter e + count_type Ty_And gs"
  by (induction gs arbitrary: e) auto

lemma v_run_simps [simp]:
  "length (ve_keys (v_run gs as f)) = length (ve_keys f)" "ve_and_count (v_run gs as f) = ve_and_count f"
  "ve_circ (v_run gs as f) = ve_circ f" "ve_check_idx (v_run gs as f) = ve_check_idx f"
  "ve_counter (v_run gs as f) = ve_counter f + count_type Ty_And gs"
  by (induction gs as f rule: v_run.induct) auto

lemma length_p_triples: "length (pe_triples (fold p_eff gs e)) = length (pe_triples e) + count_type Ty_And gs"
proof (induction gs arbitrary: e)
  case (Cons g gs)
  have "length (pe_triples (p_eff g e)) = length (pe_triples e) + (if gate_type g = Ty_And then 1 else 0)"
    by (cases g) (simp_all add: Let_def)
  then show ?case using Cons.IH by simp
qed simp

lemma zk_run_ok:
  fixes c :: circuit and d :: delta and k j :: nat
  defines "D \<equiv> {0..<snd (inputs c)} \<union> gate_z ` set (gates c)" and "ev \<equiv> \<lambda>ins. run_gates (gates c) (input_env ins)"
  assumes wf: "wf_circuit c" and d: "lsb d" and l: "length ins = snd (inputs c)" "length im = snd (inputs c)" "length ik = snd (inputs c)"
    and w: "\<And>i. i < length ins \<Longrightarrow> wire_ok d (ik ! i) (im ! i) (ins ! i)"
    and g: "correlated d gk masks gm" "length gk = and_count c" and m: "and_count c < m"
  defines "e1 \<equiv> snd (pe_iter (pe_new c im masks gm k))"
  defines "e2 \<equiv> fold p_eff (gates c) e1" and "f2 \<equiv> v_run (gates c) (new_adjust (gates c) e1)
    ((ve_new c d ik gk j)\<lparr>ve_keys := resize_with (feed_count c) 0 ik, ve_counter := 0\<rparr>)"
  shows "pi_take m (gates c) e1 = Inr (new_adjust (gates c) e1, [], e2)"
    "bindR (ve_consumer (ve_new c d ik gk j)) (vc_feed (new_adjust (gates c) e1)) = Inr ([], f2)"
    "zk_rel d D (ev ins) e2 f2" "pe_adjust e2 = new_adjust (gates c) e1"
proof -
  let ?n = "snd (inputs c)" and ?fc = "feed_count c"
  let ?f1 = "(ve_new c d ik gk j)\<lparr>ve_keys := resize_with ?fc 0 ik, ve_counter := 0\<rparr>"
  have c: "?n \<le> ?fc" "gates_wf ?fc {0..<?n} (gates c)" "and_count c = count_type Ty_And (gates c)" using wf by (auto simp: wf_circuit_def)
  have gl: "length masks = and_count c" "length gm = and_count c" using g correlated_length by fastforce+
  have macs: "pe_macs e1 = im @ replicate (?fc - ?n) 0" "ve_keys ?f1 = ik @ replicate (?fc - ?n) 0"
    using c(1) l by (simp_all add: e1_def pe_iter_def pe_new_def ve_new_def resize_with_def)
  have e1: "pe_counter e1 = 0" "pe_and_count e1 = and_count c" "pe_gate_macs e1 = gm" "pe_gate_masks e1 = masks" "pe_triples e1 = []" "pe_adjust e1 = []"
    by (simp_all add: e1_def pe_iter_def pe_new_def)
  have f1: "ve_counter ?f1 = 0" "ve_and_count ?f1 = and_count c" "ve_gate_keys ?f1 = gk" "ve_triples ?f1 = []" "ve_adjust ?f1 = []" "ve_delta ?f1 = d"
    by (simp_all add: ve_new_def)
  have fp: "pe_fits ?fc {0..<?n} e1" using c(1) l gl macs e1 by (auto simp: pe_fits_def)
  have fv: "ve_fits ?fc {0..<?n} ?f1" using c(1) l g(2) macs f1 by (auto simp: ve_fits_def)
  show "pi_take m (gates c) e1 = Inr (new_adjust (gates c) e1, [], e2)"
    unfolding e2_def by (rule pi_take_ok [OF c(2) fp]) (use e1 c(3) m in auto)
  show "bindR (ve_consumer (ve_new c d ik gk j)) (vc_feed (new_adjust (gates c) e1)) = Inr ([], f2)"
  proof (cases "and_count c = 0")
    case True
    then have n: "new_adjust (gates c) e1 = []" using length_new_adjust [of "gates c" e1] c(3) by simp
    show ?thesis using vc_next_no_and [OF c(2) fv, of False "[]"] True c(3)
      unfolding f2_def n by (simp add: ve_consumer_def Let_def) (simp add: ve_new_def)
  next
    case False
    then have "new_adjust (gates c) e1 \<noteq> []" using length_new_adjust [of "gates c" e1] c(3) by auto
    then have "vc_feed (new_adjust (gates c) e1) (gates c, ?f1) = Inr ([], f2)"
      unfolding f2_def using c(3) f1 by (intro vc_feed_ok [OF c(2) fv]) (auto simp: length_new_adjust)
    then show ?thesis using False by (simp add: ve_consumer_def Let_def) (simp add: ve_new_def)
  qed
  have "zk_rel d {0..<?n} (input_env ins) e1 ?f1"
    using w l macs e1 f1 g gl
    by (auto simp: zk_rel_def nth_append input_env_def correlated_def mac_ok_iff_auth)
  from zk_rel_run [OF d this c(2) fp fv] show "zk_rel d D (ev ins) e2 f2"
    using e1 c(3) by (simp add: D_def ev_def e2_def f2_def)
  show "pe_adjust e2 = new_adjust (gates c) e1" using e1 by (simp add: new_adjust_def e2_def)
qed

lemma outputs_ok:
  assumes wf: "wf_circuit c" and r: "zk_rel d ({0..<snd (inputs c)} \<union> gate_z ` set (gates c)) (run_gates (gates c) (input_env ins)) e f"
    and l: "length (pe_macs e) = feed_count c" "length (ve_keys f) = feed_count c" "length ins = snd (inputs c)"
  shows "\<exists>om ok. subslice (pe_macs e) (fst (outputs c)) (snd (outputs c)) = (Inr om :: ('e, _) result) \<and>
    subslice (ve_keys f) (fst (outputs c)) (snd (outputs c)) = (Inr ok :: ('f, _) result) \<and>
    length ok = length (circuit_fun c ins) \<and> list_all (\<lambda>k. \<not> key_pointer k) ok \<and> om = map2 (\<lambda>k b. key_auth k b d) ok (circuit_fun c ins)"
proof -
  let ?s = "fst (outputs c)" and ?t = "snd (outputs c)"
  let ?om = "take (?t - ?s) (drop ?s (pe_macs e))" and ?ok = "take (?t - ?s) (drop ?s (ve_keys f))"
  have c: "?s \<le> ?t" "?t \<le> feed_count c" "{?s..<?t} \<subseteq> {0..<snd (inputs c)} \<union> gate_z ` set (gates c)"
    using wf by (auto simp: wf_circuit_def)
  have k: "wire_ok d (ve_keys f ! i) (pe_macs e ! i) (run_gates (gates c) (input_env ins) i)" if "i \<in> {?s..<?t}" for i
    using zk_relD(1) [OF r] c(3) that by blast
  have len: "length ?om = ?t - ?s" "length ?ok = ?t - ?s" "length (circuit_fun c ins) = ?t - ?s"
    using c l by (simp_all add: circuit_fun_def)
  have "?om = map2 (\<lambda>k b. key_auth k b d) ?ok (circuit_fun c ins)"
  proof (rule nth_equalityI)
    fix i assume i: "i < length ?om"
    then show "?om ! i = map2 (\<lambda>k b. key_auth k b d) ?ok (circuit_fun c ins) ! i"
      using k [of "?s + i"] len c l by (simp add: circuit_fun_def wire_ok_def mac_ok_iff_auth)
  qed (use len in simp)
  moreover have "list_all (\<lambda>k. \<not> key_pointer k) ?ok"
    unfolding list_all_length using k len c l by (auto simp: wire_ok_def key_pointer_def)
  moreover have "subslice (pe_macs e) ?s ?t = (Inr ?om :: ('e, _) result)" "subslice (ve_keys f) ?s ?t = (Inr ?ok :: ('f, _) result)"
    using c l by (simp_all add: subslice_def)
  ultimately show ?thesis using len by (intro exI [of _ ?om] exI [of _ ?ok] conjI) simp_all
qed

lemma zk_execute_ok:
  assumes wf: "wf_circuit c" and d: "lsb (vr_delta v)"
    and l: "length ins = snd (inputs c)" "length im = snd (inputs c)" "length ik = snd (inputs c)"
    and w: "\<And>i. i < length ins \<Longrightarrow> wire_ok (vr_delta v) (ik ! i) (im ! i) (ins ! i)"
    and g: "correlated (vr_delta v) gk masks gm" "length gk = and_count c" and m: "and_count c < m" and p: "party_rel p v"
  shows "\<exists>e p1 adj e2 om p2 f v1 con f2 ok v2.
    prover_run p c im masks gm = Inr (e, p1) \<and> pi_take m (fst (pe_iter e)) (snd (pe_iter e)) = Inr (adj, [], e2) \<and>
    pe_finish p1 e2 = (Inr om, p2) \<and>
    verifier_run v c ik gk = Inr (f, v1) \<and> ve_consumer f = Inr con \<and> vc_feed adj con = Inr ([], f2) \<and> ve_finish v1 f2 = (Inr ok, v2) \<and>
    length ok = length (circuit_fun c ins) \<and> list_all (\<lambda>k. \<not> key_pointer k) ok \<and>
    om = map2 (\<lambda>k b. key_auth k b (vr_delta v)) ok (circuit_fun c ins) \<and>
    party_rel p2 v2 \<and> vr_delta v2 = vr_delta v \<and> pr_execs p2 = pr_execs p \<and> prover_pending p2 = prover_pending p + and_count c"
proof -
  let ?d = "vr_delta v" and ?P = "pr_check p" and ?V = "vr_check v" and ?n = "and_count c"
  let ?k = "length (c_triples ?P)" and ?j = "length (c_triples ?V)"
  let ?e = "pe_new c im masks gm ?k" and ?f = "ve_new c ?d ik gk ?j"
  let ?e1 = "snd (pe_iter ?e)"
  define e2 where "e2 = fold p_eff (gates c) ?e1"
  define f2 where "f2 = v_run (gates c) (new_adjust (gates c) ?e1) (?f\<lparr>ve_keys := resize_with (feed_count c) 0 ik, ve_counter := 0\<rparr>)"
  have c: "fst (inputs c) = 0" "snd (inputs c) \<le> feed_count c" "?n = count_type Ty_And (gates c)" using wf by (auto simp: wf_circuit_def)
  have gl: "length masks = ?n" "length gm = ?n" using g correlated_length by fastforce+
  note run = zk_run_ok(1) [OF wf d l w g m, where k = ?k, folded e2_def] zk_run_ok(2) [OF wf d l w g m, where k = ?k and j = ?j, folded f2_def]
    zk_run_ok(3) [OF wf d l w g m, where k = ?k and j = ?j, folded e2_def f2_def] zk_run_ok(4) [OF wf d l w g m, where k = ?k, folded e2_def]
  have P: "length (c_adjust ?P) = ?k" "length (c_adjust ?V) = ?j" "?j = ?k" "c_adjust ?V = c_adjust ?P"
      "list_all2 (triple_ok ?d) (c_triples ?V) (c_triples ?P)" "pr_execs p = vr_execs v"
    using p by (auto simp: party_rel_def dest: list_all2_lengthD)
  have e2: "length (pe_macs e2) = feed_count c" "pe_counter e2 = ?n" "pe_and_count e2 = ?n" "pe_circ e2 = c" "pe_check_idx e2 = ?k"
      "length (pe_triples e2) = ?n" "length (pe_adjust e2) = ?n"
    using c l run(4) by (simp_all add: e2_def length_p_triples length_new_adjust) (simp_all add: pe_iter_def pe_new_def resize_with_def)
  have f2: "length (ve_keys f2) = feed_count c" "ve_counter f2 = ?n" "ve_and_count f2 = ?n" "ve_circ f2 = c" "ve_check_idx f2 = ?j"
    using c l by (simp_all add: f2_def) (simp_all add: ve_new_def resize_with_def)
  have t: "list_all2 (triple_ok ?d) (ve_triples f2) (pe_triples e2)" "ve_adjust f2 = pe_adjust e2" "length (ve_triples f2) = ?n"
    using run(3) e2(6) by (auto simp: zk_rel_def dest: list_all2_lengthD)
  obtain om ok where o: "subslice (pe_macs e2) (fst (outputs c)) (snd (outputs c)) = (Inr om :: (prover_error, _) result)"
      "subslice (ve_keys f2) (fst (outputs c)) (snd (outputs c)) = (Inr ok :: (verifier_error, _) result)"
      "length ok = length (circuit_fun c ins)" "list_all (\<lambda>k. \<not> key_pointer k) ok" "om = map2 (\<lambda>k b. key_auth k b ?d) ok (circuit_fun c ins)"
    using outputs_ok [OF wf run(3) e2(1) f2(1) l(1)] by blast
  define p1 where "p1 = p\<lparr>pr_check := \<lparr>c_triples = c_triples ?P @ replicate ?n default_triple, c_adjust = c_adjust ?P @ replicate ?n False\<rparr>,
    pr_execs := pr_execs p + 1\<rparr>"
  define v1 where "v1 = v\<lparr>vr_check := \<lparr>c_triples = c_triples ?V @ replicate ?n default_triple, c_adjust = c_adjust ?V @ replicate ?n False\<rparr>,
    vr_execs := vr_execs v + 1\<rparr>"
  define p2 where "p2 = p\<lparr>pr_check := \<lparr>c_triples = c_triples ?P @ pe_triples e2, c_adjust = c_adjust ?P @ pe_adjust e2\<rparr>\<rparr>"
  define v2 where "v2 = v\<lparr>vr_check := \<lparr>c_triples = c_triples ?V @ ve_triples f2, c_adjust = c_adjust ?V @ ve_adjust f2\<rparr>\<rparr>"
  have A: "prover_run p c im masks gm = Inr (?e, p1)" "verifier_run v c ik gk = Inr (?f, v1)"
    using l c gl g(2) P by (simp_all add: prover_run_def verifier_run_def range_len_def reserve_eq p1_def v1_def)
  have B: "pe_finish p1 e2 = (Inr om, p2)"
    using o(1) e2 P
    by (simp add: check_write_eq pe_finish_def p1_def p2_def Let_def)
  have C: "ve_finish v1 f2 = (Inr ok, v2)"
    using o(2) f2 e2(7) P(2) t(2,3)
    by (simp add: check_write_eq ve_finish_def v1_def v2_def Let_def)
  obtain con where con: "ve_consumer ?f = Inr con" "vc_feed (new_adjust (gates c) ?e1) con = Inr ([], f2)"
    using run(2) by (auto simp: result_simps)
  have D: "party_rel p2 v2" using P t e2 by (auto simp: party_rel_def p2_def v2_def list_all2_appendI)
  have it: "fst (pe_iter ?e) = gates c" by (simp add: pe_iter_def pe_new_def)
  show ?thesis
    by (intro exI [of _ ?e] exI [of _ p1] exI [of _ "new_adjust (gates c) ?e1"] exI [of _ e2] exI [of _ om] exI [of _ p2] exI [of _ ?f] exI [of _ v1]
        exI [of _ con] exI [of _ f2] exI [of _ ok] exI [of _ v2] conjI A B C con D o(3,4,5))
      (use run(1) it e2(6) in \<open>simp_all add: v2_def p2_def prover_pending_def check_total_def\<close>)
qed

text \<open>
  C6. Executing a circuit in zero knowledge.  The parties hold MACs and keys of the input bits with the
  value in the pointer bit, and one correlated OT per AND gate.  The prover's run yields one
  adjustment bit per AND gate, the verifier consumes them all, both executions finish, the output
  MACs authenticate exactly the bits the circuit computes under the verifier's output keys, and the
  recorded check states stay consistent.
\<close>

theorem zk_execute_correct:
  assumes "wf_circuit c" "lsb (vr_delta v)" "length ins = snd (inputs c)" "length im = snd (inputs c)" "length ik = snd (inputs c)"
    "\<forall>i < length ins. wire_ok (vr_delta v) (ik ! i) (im ! i) (ins ! i)"
    "correlated (vr_delta v) gk masks gm" "length gk = and_count c" "and_count c < m" "party_rel p v"
  shows "\<exists>e p1 adj e2 om p2 f v1 con f2 ok v2.
    prover_run p c im masks gm = Inr (e, p1) \<and> pi_take m (fst (pe_iter e)) (snd (pe_iter e)) = Inr (adj, [], e2) \<and>
    pe_finish p1 e2 = (Inr om, p2) \<and>
    verifier_run v c ik gk = Inr (f, v1) \<and> ve_consumer f = Inr con \<and> vc_feed adj con = Inr ([], f2) \<and> ve_finish v1 f2 = (Inr ok, v2) \<and>
    length ok = length (circuit_fun c ins) \<and> list_all (\<lambda>k. \<not> key_pointer k) ok \<and>
    om = map2 (\<lambda>k b. key_auth k b (vr_delta v)) ok (circuit_fun c ins) \<and>
    party_rel p2 v2 \<and> vr_delta v2 = vr_delta v \<and> pr_execs p2 = pr_execs p \<and> prover_pending p2 = prover_pending p + and_count c"
  using zk_execute_ok [OF assms(1-5) _ assms(7-10)] assms(6) by simp

definition and_circuit :: circuit where
  "and_circuit = \<lparr>inputs = (0, 2), outputs = (2, 4), gates = [Gate_And 0 1 2, Gate_Inv 2 3], feed_count = 4, and_count = 1, xor_count = 0\<rparr>"

lemma wf_and_circuit: "wf_circuit and_circuit"
  by (auto simp: and_circuit_def wf_circuit_def count_type_def)

theorem zk_execute_correct_witness:
  "\<exists>e p1 adj e2 om p2 ok. prover_run prover_default and_circuit [4 XOR 9, 6] [True] [2 XOR 9] = Inr (e, p1) \<and>
     pi_take 2 (fst (pe_iter e)) (snd (pe_iter e)) = Inr (adj, [], e2) \<and> pe_finish p1 e2 = (Inr om, p2) \<and>
     om = map2 (\<lambda>k b. key_auth k b (vr_delta (verifier_new 9))) ok [False, True] \<and> length ok = length [False, True]"
proof -
  have c: "circuit_fun and_circuit [True, False] = [False, True]"
    by (simp add: circuit_fun_def and_circuit_def input_env_def upt_rec)
  have a: "length [True, False] = snd (inputs and_circuit)" "length [4 XOR 9, 6 :: block] = snd (inputs and_circuit)"
      "length [4, 6 :: block] = snd (inputs and_circuit)" "length [2 :: block] = and_count and_circuit" "and_count and_circuit < 2"
    by (simp_all add: and_circuit_def)
  have w: "\<forall>i < length [True, False]. wire_ok (vr_delta (verifier_new 9)) ([4, 6] ! i) ([4 XOR 9, 6] ! i) ([True, False] ! i)"
    by (auto simp: wire_ok_def mac_ok_def verifier_new_def lsb_def less_Suc_eq numeral_2_eq_2)
  have r: "correlated (vr_delta (verifier_new 9)) [2] [True] [2 XOR 9]"
    by (simp add: correlated_def key_auth_def verifier_new_def)
  have p: "party_rel prover_default (verifier_new 9)"
    by (simp add: party_rel_def prover_default_def verifier_new_def check_default_def)
  have d: "lsb (vr_delta (verifier_new 9))" by (simp add: verifier_new_def lsb_def)
  show ?thesis using zk_execute_correct [OF wf_and_circuit d a(1-3) w r a(4,5) p] unfolding c
    by (elim exE conjE) (intro exI conjI)
qed

lemma party_check_ok:
  assumes "party_rel p v" "pr_execs p = 0" "correlated (vr_delta v) ks cs ev" "length ks = 128"
  shows "\<exists>m tr' p' v'. prover_check ops p tr cs ev = (Inr m, tr', p') \<and> verifier_check ops v tr ks m = (Inr (), tr', v') \<and>
    party_rel p' v' \<and> prover_pending p' = 0 \<and> verifier_pending v' = 0"
proof -
  obtain m tr' where "check_prover ops (pr_check p) tr cs ev = (Inr m, tr', check_default)"
      "check_verifier ops (vr_check v) tr (vr_delta v) ks m = (Inr (), tr', check_default)"
    using check_ok [of "vr_delta v" "vr_check v" "pr_check p" ks cs ev ops tr] assms unfolding party_rel_def by blast
  then show ?thesis
    using assms(1,2) by (simp add: prover_check_def verifier_check_def party_rel_def prover_pending_def verifier_pending_def
        check_total_def check_default_def)
qed

text \<open>
  C7. The check after any executions.  Whenever the parties' records are consistent and no execution is
  running, the prover's check message is accepted by the verifier and both are left with nothing to
  check; while an execution is running, both refuse with \<open>Inprogress\<close> and change nothing.
\<close>

theorem zk_check_accepts:
  assumes "party_rel p v" "correlated (vr_delta v) ks cs ev" "length ks = 128"
  shows "if pr_execs p = 0
    then \<exists>m tr' p' v'. prover_check ops p tr cs ev = (Inr m, tr', p') \<and> verifier_check ops v tr ks m = (Inr (), tr', v') \<and>
      party_rel p' v' \<and> prover_pending p' = 0 \<and> verifier_pending v' = 0
    else prover_check ops p tr cs ev = (Inl (Err ProverInprogress), tr, p) \<and>
      (\<forall>m. verifier_check ops v tr ks m = (Inl (Err VerifierInprogress), tr, v))"
  using party_check_ok [OF assms(1) _ assms(2,3), of ops tr] assms(1)
  by (auto simp: prover_check_def verifier_check_def party_rel_def)

theorem zk_check_accepts_witness:
  "\<exists>m tr' p' v'. prover_check \<lparr>tr_update = (@), tr_finalize = length, tr_chi = (\<lambda>s i j. of_nat (s + i + j)), tr_bits = map of_bool\<rparr>
     prover_default [] (replicate 128 False) (replicate 128 3) = (Inr m, tr', p') \<and>
   verifier_check \<lparr>tr_update = (@), tr_finalize = length, tr_chi = (\<lambda>s i j. of_nat (s + i + j)), tr_bits = map of_bool\<rparr>
     (verifier_new 9) [] (replicate 128 3) m = (Inr (), tr', v')"
proof -
  have "party_rel prover_default (verifier_new 9)" "correlated (vr_delta (verifier_new 9)) (replicate 128 3) (replicate 128 False) (replicate 128 3)"
      "length (replicate 128 (3 :: block)) = 128"
    by (simp_all add: party_rel_def prover_default_def verifier_new_def check_default_def correlated_def key_auth_def BLOCK_ZERO_def zip_replicate)
  from zk_check_accepts [OF this, where ops = "\<lparr>tr_update = (@), tr_finalize = length, tr_chi = (\<lambda>s i j. of_nat (s + i + j)),
      tr_bits = map of_bool\<rparr>" and tr = "[]"]
  show ?thesis by (simp add: prover_default_def) blast
qed

text \<open>
  Iterating an execution twice.  \<open>iter\<close> resets the gate counter but not the recorded triples, so a
  second pass over a circuit with an AND gate records its triples again; finishing then panics
  because they exceed the space reserved in the check.
\<close>

theorem iter_twice_panics:
  "\<exists>e p1 adj e2 adj' e3. prover_run prover_default and_circuit [4 XOR 9, 6] [True] [2 XOR 9] = Inr (e, p1) \<and>
     pi_take 2 (fst (pe_iter e)) (snd (pe_iter e)) = Inr (adj, [], e2) \<and>
     pi_take 2 (fst (pe_iter e2)) (snd (pe_iter e2)) = Inr (adj', [], e3) \<and> fst (pe_finish p1 e3) = Inl Panic"
  by (simp add: prover_run_def and_circuit_def range_len_def reserve_def prover_default_def check_default_def resize_with_def
      pe_new_def pe_iter_def numeral_2_eq_2 idx_def upd_def Let_def pe_finish_def check_write_def copy_into_def)

end
