(* ===== verification/ZView.thy ===== *)
theory ZView
  imports GView
begin

text \<open>
  The memory view of the zero-knowledge parties (\<open>zk-core/src/view.rs\<close>): which ranges are inputs and
  outputs, what is assigned, committed and decoded, and what the next flush has to commit and to
  prove.  As in the garbled memory each party keeps its own view and the protocol relies on both
  planning the same flush from dual calls, which is the relation \<open>zviews_agree\<close> here.
\<close>

section \<open>The view\<close>

record zinput_view =
  zi_assigned :: "nat set"
  zi_complete :: "nat set"
  zi_all :: "nat set"

record zoutput_view =
  zo_complete :: "nat set"
  zo_all :: "nat set"

record zdecode_view =
  zd_complete :: "nat set"
  zd_all :: "nat set"

record zflush_view =
  zf_commit :: "nat set"
  zf_prove :: "nat set"

definition zflush_default :: zflush_view where
  "zflush_default = \<lparr>zf_commit = {}, zf_prove = {}\<rparr>"

definition zflush_is_empty :: "zflush_view \<Rightarrow> bool" where
  "zflush_is_empty f \<longleftrightarrow> zf_commit f = {} \<and> zf_prove f = {}"

definition zflush_clear :: "zflush_view \<Rightarrow> zflush_view" where
  "zflush_clear f = f\<lparr>zf_commit := {}, zf_prove := {}\<rparr>"

datatype zrole = ZProver | ZVerifier

record zview =
  zrole :: zrole
  z_len :: nat
  z_input :: zinput_view
  z_output :: zoutput_view
  z_vis :: visibility
  z_decode :: zdecode_view
  z_flush :: zflush_view

definition zview_new :: "zrole \<Rightarrow> zview" where
  "zview_new r =
     \<lparr>zrole = r, z_len = 0, z_input = \<lparr>zi_assigned = {}, zi_complete = {}, zi_all = {}\<rparr>,
      z_output = \<lparr>zo_complete = {}, zo_all = {}\<rparr>, z_vis = vis_new, z_decode = \<lparr>zd_complete = {}, zd_all = {}\<rparr>,
      z_flush = zflush_default\<rparr>"

definition zview_new_prover :: zview where
  "zview_new_prover = zview_new ZProver"

definition zview_new_verifier :: zview where
  "zview_new_verifier = zview_new ZVerifier"

text \<open>The errors have the variants of the view of the garbled memory.\<close>

definition zview_is_alloc :: "zview \<Rightarrow> nat \<times> nat \<Rightarrow> bool" where
  "zview_is_alloc v r \<longleftrightarrow> snd r \<le> z_len v"

definition zview_alloc :: "zview \<Rightarrow> nat \<Rightarrow> (nat \<times> nat) \<times> zview" where
  "zview_alloc v n =
     (let r = (z_len v, z_len v + n); v = v\<lparr>z_len := z_len v + n\<rparr>
      in (r, v\<lparr>z_vis := vis_alloc (z_vis v) n\<rparr>))"

definition zview_wants_flush :: "zview \<Rightarrow> bool" where
  "zview_wants_flush v \<longleftrightarrow> \<not> zflush_is_empty (z_flush v)"

definition zview_alloc_input :: "zview \<Rightarrow> nat \<Rightarrow> zview" where
  "zview_alloc_input v n =
     (let (r, v) = zview_alloc v n
      in v\<lparr>z_input := (z_input v)\<lparr>zi_all := zi_all (z_input v) \<union> rng r\<rparr>\<rparr>)"

definition zview_alloc_output :: "zview \<Rightarrow> nat \<Rightarrow> zview" where
  "zview_alloc_output v n =
     (let (r, v) = zview_alloc v n
      in v\<lparr>z_output := (z_output v)\<lparr>zo_all := zo_all (z_output v) \<union> rng r\<rparr>\<rparr>)"

definition zmark_public :: "zview \<Rightarrow> nat \<times> nat \<Rightarrow> (view_error, zview) result" where
  "zmark_public v r =
     (if vis_is_set_any (z_vis v) r then Inl (Err (VisibilityAlreadySet r))
      else if rng r \<inter> zo_all (z_output v) \<noteq> {} then Inl (Err (VisibilityOutput r))
      else bindR (set_public (z_vis v) r) (\<lambda>vis. Inr (v\<lparr>z_vis := vis\<rparr>)))"

definition zmark_private :: "zview \<Rightarrow> nat \<times> nat \<Rightarrow> (view_error, zview) result" where
  "zmark_private v r =
     (if vis_is_set_any (z_vis v) r then Inl (Err (VisibilityAlreadySet r))
      else if rng r \<inter> zo_all (z_output v) \<noteq> {} then Inl (Err (VisibilityOutput r))
      else bindR (set_private (z_vis v) r) (\<lambda>vis. Inr (v\<lparr>z_vis := vis\<rparr>)))"

definition zmark_blind :: "zview \<Rightarrow> nat \<times> nat \<Rightarrow> (view_error, zview) result" where
  "zmark_blind v r =
     (if vis_is_set_any (z_vis v) r then Inl (Err (VisibilityAlreadySet r))
      else if rng r \<inter> zo_all (z_output v) \<noteq> {} then Inl (Err (VisibilityOutput r))
      else bindR (set_blind (z_vis v) r) (\<lambda>vis. Inr (v\<lparr>z_vis := vis\<rparr>)))"

definition zview_assign :: "zview \<Rightarrow> nat \<times> nat \<Rightarrow> (view_error, zview) result" where
  "zview_assign v r =
     (if \<not> is_visible (z_vis v) r then Inl (Err (VisibilityAssign r))
      else if rng r \<inter> zo_all (z_output v) \<noteq> {} then Inl (Err (OutputAssign r))
      else Inr (v\<lparr>z_input := (z_input v)\<lparr>zi_assigned := zi_assigned (z_input v) \<union> rng r\<rparr>\<rparr>))"

definition zview_set_output :: "zview \<Rightarrow> nat \<times> nat \<Rightarrow> (view_error, zview) result" where
  "zview_set_output v r =
     (if \<not> rng r \<subseteq> zo_all (z_output v) then Inl (Err (NotOutput r))
      else
        let v = v\<lparr>z_output := (z_output v)\<lparr>zo_complete := zo_complete (z_output v) \<union> rng r\<rparr>\<rparr>
        in Inr (v\<lparr>z_flush := (z_flush v)\<lparr>zf_prove := zf_prove (z_flush v) \<union> (rng r \<inter> zd_all (z_decode v))\<rparr>\<rparr>))"

definition zview_is_committed :: "zview \<Rightarrow> nat \<times> nat \<Rightarrow> bool" where
  "zview_is_committed v r \<longleftrightarrow> rng r \<subseteq> zi_complete (z_input v) \<or> rng r \<subseteq> zo_complete (z_output v)"

definition zview_commit :: "zview \<Rightarrow> nat \<times> nat \<Rightarrow> (view_error, zview) result" where
  "zview_commit v r =
     (if \<not> vis_is_set (z_vis v) r then Inl (Err (VisibilityNotSet r))
      else if rng r \<inter> zo_all (z_output v) \<noteq> {} then Inl (Err (OutputCommit r))
      else if rng r \<inter> zi_complete (z_input v) \<noteq> {} then Inl (Err (AlreadyCommitted r))
      else
        let blind = rng r \<inter> v_blind (z_vis v);
            priv = rng r \<inter> v_private (z_vis v);
            publ = rng r \<inter> v_public (z_vis v)
        in if \<not> publ \<subseteq> zi_assigned (z_input v) \<or> \<not> priv \<subseteq> zi_assigned (z_input v) then Inl (Err (NotAssigned r))
           else
             let v = v\<lparr>z_input := (z_input v)\<lparr>zi_complete := zi_complete (z_input v) \<union> publ\<rparr>\<rparr>
             in (case zrole v of
                   ZProver \<Rightarrow> Inr (v\<lparr>z_flush := (z_flush v)\<lparr>zf_commit := zf_commit (z_flush v) \<union> priv\<rparr>\<rparr>)
                 | ZVerifier \<Rightarrow> Inr (v\<lparr>z_flush := (z_flush v)\<lparr>zf_commit := zf_commit (z_flush v) \<union> blind\<rparr>\<rparr>)))"

definition zview_decode :: "zview \<Rightarrow> nat \<times> nat \<Rightarrow> zview" where
  "zview_decode v r =
     (let undecoded = rng r - zd_complete (z_decode v)
      in if undecoded = {} then v
         else
           let v = v\<lparr>z_decode := (z_decode v)\<lparr>zd_all := zd_all (z_decode v) \<union> undecoded\<rparr>\<rparr>;
               inp = undecoded \<inter> zi_all (z_input v);
               outp = undecoded \<inter> zo_all (z_output v)
           in (case zrole v of
                 ZProver \<Rightarrow> v\<lparr>z_flush := (z_flush v)\<lparr>zf_prove := zf_prove (z_flush v) \<union>
                   (inp \<inter> v_private (z_vis v) \<inter> zi_complete (z_input v) \<union> (outp \<inter> zo_complete (z_output v)))\<rparr>\<rparr>
               | ZVerifier \<Rightarrow> v\<lparr>z_flush := (z_flush v)\<lparr>zf_prove := zf_prove (z_flush v) \<union>
                   ((inp - v_visible (z_vis v)) \<inter> zi_complete (z_input v) \<union> (outp \<inter> zo_complete (z_output v)))\<rparr>\<rparr>))"

definition zcomplete_flush :: "zview \<Rightarrow> zflush_view \<Rightarrow> zview" where
  "zcomplete_flush v f =
     (let v = v\<lparr>z_input := (z_input v)\<lparr>zi_complete := zi_complete (z_input v) \<union> zf_commit f\<rparr>\<rparr>;
          v = v\<lparr>z_decode := (z_decode v)\<lparr>zd_complete := zd_complete (z_decode v) \<union> zf_prove f\<rparr>\<rparr>;
          v = v\<lparr>z_flush := zflush_clear (z_flush v)\<rparr>
      in v\<lparr>z_flush := (z_flush v)\<lparr>zf_prove := zf_prove (z_flush v) \<union> (zf_commit f \<inter> zd_all (z_decode v))\<rparr>\<rparr>)"

section \<open>Two views of one memory\<close>

text \<open>
  \<open>zview_inv\<close>: inputs and outputs split the memory, and outputs have no visibility; what is complete or to be committed is an input
  whose visibility is set, and nothing complete is to be committed; only what is complete, was
  marked for decoding and is not decoded is to be proven, and only complete data is decoded.
\<close>

definition zsecret :: "zrole \<Rightarrow> visibility \<Rightarrow> nat set" where
  "zsecret r w = (case r of ZProver \<Rightarrow> v_private w | ZVerifier \<Rightarrow> v_blind w)"

definition zview_inv :: "zview \<Rightarrow> bool" where
  "zview_inv v \<longleftrightarrow>
     vis_inv (z_vis v) \<and> vlen (z_vis v) = z_len v \<and>
     zi_all (z_input v) \<union> zo_all (z_output v) = {0..<z_len v} \<and> zi_all (z_input v) \<inter> zo_all (z_output v) = {} \<and>
     zo_all (z_output v) \<subseteq> v_uninit (z_vis v) \<and>
     zi_complete (z_input v) \<subseteq> zi_all (z_input v) \<and> zo_complete (z_output v) \<subseteq> zo_all (z_output v) \<and>
     zi_complete (z_input v) \<subseteq> v_public (z_vis v) \<union> zsecret (zrole v) (z_vis v) \<and>
     zf_commit (z_flush v) \<subseteq> zi_all (z_input v) \<inter> zsecret (zrole v) (z_vis v) \<and>
     zf_commit (z_flush v) \<inter> zi_complete (z_input v) = {} \<and>
     zf_prove (z_flush v) \<subseteq> (zi_complete (z_input v) - v_public (z_vis v)) \<union> zo_complete (z_output v) \<and>
     zf_prove (z_flush v) \<subseteq> zd_all (z_decode v) \<and> zf_prove (z_flush v) \<inter> zd_complete (z_decode v) = {} \<and>
     zd_complete (z_decode v) \<subseteq> (zi_complete (z_input v) - v_public (z_vis v)) \<union> zo_complete (z_output v)"

definition zviews_agree :: "zview \<Rightarrow> zview \<Rightarrow> bool" where
  "zviews_agree p v \<longleftrightarrow>
     zrole p = ZProver \<and> zrole v = ZVerifier \<and> zview_inv p \<and> zview_inv v \<and> z_len p = z_len v \<and>
     zi_all (z_input p) = zi_all (z_input v) \<and> zi_complete (z_input p) = zi_complete (z_input v) \<and>
     z_output p = z_output v \<and> z_decode p = z_decode v \<and> z_flush p = z_flush v \<and> vis_dual (z_vis p) (z_vis v)"

text \<open>
  The operations both parties perform on the same range, the visibility seen from the prover.  An
  output is set once, as the drivers do.
\<close>

datatype zparty_op =
    ZAllocInput nat | ZAllocOutput nat
  | ZMarkPublic "nat \<times> nat" | ZMarkPrivate "nat \<times> nat" | ZMarkBlind "nat \<times> nat"
  | ZAssignProver "nat \<times> nat" | ZAssignVerifier "nat \<times> nat"
  | ZSetOutput "nat \<times> nat" | ZCommit "nat \<times> nat" | ZDecode "nat \<times> nat" | ZFlush

fun zprover_op :: "zparty_op \<Rightarrow> zview \<Rightarrow> (view_error, zview) result" where
  "zprover_op (ZAllocInput n) v = Inr (zview_alloc_input v n)"
| "zprover_op (ZAllocOutput n) v = Inr (zview_alloc_output v n)"
| "zprover_op (ZMarkPublic r) v = zmark_public v r"
| "zprover_op (ZMarkPrivate r) v = zmark_private v r"
| "zprover_op (ZMarkBlind r) v = zmark_blind v r"
| "zprover_op (ZAssignProver r) v = zview_assign v r"
| "zprover_op (ZAssignVerifier r) v = Inr v"
| "zprover_op (ZSetOutput r) v = zview_set_output v r"
| "zprover_op (ZCommit r) v = zview_commit v r"
| "zprover_op (ZDecode r) v = Inr (zview_decode v r)"
| "zprover_op ZFlush v = Inr (zcomplete_flush v (z_flush v))"

fun zverifier_op :: "zparty_op \<Rightarrow> zview \<Rightarrow> (view_error, zview) result" where
  "zverifier_op (ZAllocInput n) v = Inr (zview_alloc_input v n)"
| "zverifier_op (ZAllocOutput n) v = Inr (zview_alloc_output v n)"
| "zverifier_op (ZMarkPublic r) v = zmark_public v r"
| "zverifier_op (ZMarkPrivate r) v = zmark_blind v r"
| "zverifier_op (ZMarkBlind r) v = zmark_private v r"
| "zverifier_op (ZAssignProver r) v = Inr v"
| "zverifier_op (ZAssignVerifier r) v = zview_assign v r"
| "zverifier_op (ZSetOutput r) v = zview_set_output v r"
| "zverifier_op (ZCommit r) v = zview_commit v r"
| "zverifier_op (ZDecode r) v = Inr (zview_decode v r)"
| "zverifier_op ZFlush v = Inr (zcomplete_flush v (z_flush v))"

fun zfresh :: "zparty_op \<Rightarrow> zview \<Rightarrow> bool" where
  "zfresh (ZSetOutput r) v \<longleftrightarrow> rng r \<inter> zo_complete (z_output v) = {}"
| "zfresh _ v \<longleftrightarrow> True"

inductive zboth_step :: "zview \<times> zview \<Rightarrow> zview \<times> zview \<Rightarrow> bool" where
  "zfresh op p \<Longrightarrow> zprover_op op p = Inr p' \<Longrightarrow> zverifier_op op v = Inr v' \<Longrightarrow> zboth_step (p, v) (p', v')"

inductive zreachable :: "zview \<times> zview \<Rightarrow> bool" where
  init: "zreachable (zview_new_prover, zview_new_verifier)"
| step: "zreachable s \<Longrightarrow> zboth_step s t \<Longrightarrow> zreachable t"

inductive_cases zboth_stepE: "zboth_step (p, v) t"

section \<open>Every step keeps the views in agreement\<close>

lemma zview_invD:
  assumes "zview_inv v"
  shows "vis_inv (z_vis v)" "vlen (z_vis v) = z_len v"
    "zi_all (z_input v) \<union> zo_all (z_output v) = {0..<z_len v}" "zi_all (z_input v) \<inter> zo_all (z_output v) = {}"
    "zi_complete (z_input v) \<subseteq> zi_all (z_input v)" "zo_complete (z_output v) \<subseteq> zo_all (z_output v)"
    "zi_complete (z_input v) \<subseteq> v_public (z_vis v) \<union> zsecret (zrole v) (z_vis v)"
    "zf_commit (z_flush v) \<subseteq> zi_all (z_input v)" "zf_commit (z_flush v) \<subseteq> zsecret (zrole v) (z_vis v)"
    "zf_commit (z_flush v) \<inter> zi_complete (z_input v) = {}"
    "zf_prove (z_flush v) \<subseteq> (zi_complete (z_input v) - v_public (z_vis v)) \<union> zo_complete (z_output v)"
    "zf_prove (z_flush v) \<subseteq> zd_all (z_decode v)" "zf_prove (z_flush v) \<inter> zd_complete (z_decode v) = {}"
    "zd_complete (z_decode v) \<subseteq> (zi_complete (z_input v) - v_public (z_vis v)) \<union> zo_complete (z_output v)"
    "zo_all (z_output v) \<subseteq> v_uninit (z_vis v)"
  using assms by (auto simp: zview_inv_def)

lemma zview_invI:
  assumes "vis_inv (z_vis v)" "vlen (z_vis v) = z_len v"
    "zi_all (z_input v) \<union> zo_all (z_output v) = {0..<z_len v}" "zi_all (z_input v) \<inter> zo_all (z_output v) = {}"
    "zi_complete (z_input v) \<subseteq> zi_all (z_input v)" "zo_complete (z_output v) \<subseteq> zo_all (z_output v)"
    "zi_complete (z_input v) \<subseteq> v_public (z_vis v) \<union> zsecret (zrole v) (z_vis v)"
    "zf_commit (z_flush v) \<subseteq> zi_all (z_input v)" "zf_commit (z_flush v) \<subseteq> zsecret (zrole v) (z_vis v)"
    "zf_commit (z_flush v) \<inter> zi_complete (z_input v) = {}"
    "zf_prove (z_flush v) \<subseteq> (zi_complete (z_input v) - v_public (z_vis v)) \<union> zo_complete (z_output v)"
    "zf_prove (z_flush v) \<subseteq> zd_all (z_decode v)" "zf_prove (z_flush v) \<inter> zd_complete (z_decode v) = {}"
    "zd_complete (z_decode v) \<subseteq> (zi_complete (z_input v) - v_public (z_vis v)) \<union> zo_complete (z_output v)"
    "zo_all (z_output v) \<subseteq> v_uninit (z_vis v)"
  shows "zview_inv v"
  using assms by (auto simp: zview_inv_def)

lemma unset_range: "\<not> vis_is_set_any w r \<Longrightarrow> snd r \<le> vlen w \<Longrightarrow> rng r \<subseteq> v_uninit w"
  by (cases "fst r < snd r") (auto simp: vis_is_set_any_def Let_def)

lemma zsecret_simps [simp]: "zsecret ZProver w = v_private w" "zsecret ZVerifier w = v_blind w"
  by (simp_all add: zsecret_def)

lemma zsecret_alloc [simp]: "zsecret r (vis_alloc w n) = zsecret r w"
  by (cases r) (simp_all add: vis_alloc_fields)

lemma zsecret_vis: "vis_inv w \<Longrightarrow> zsecret r w \<inter> v_public w = {} \<and> zsecret r w \<inter> v_uninit w = {}"
  by (cases r) (auto simp: vis_inv_def)

text \<open>Marking changes the visibility of a range of inputs that had none.\<close>

definition vis_marked :: "visibility \<Rightarrow> nat set \<Rightarrow> nat set \<Rightarrow> nat set \<Rightarrow> nat set \<Rightarrow> visibility \<Rightarrow> bool" where
  "vis_marked w R A B C w' \<longleftrightarrow> vis_inv w' \<and> vlen w' = vlen w \<and> R \<subseteq> v_uninit w \<and> v_uninit w' = v_uninit w - R \<and>
     v_public w' = v_public w \<union> A \<and> v_private w' = v_private w \<union> B \<and> v_blind w' = v_blind w \<union> C"

lemma zmark_fields:
  assumes inv: "zview_inv v"
  shows "zmark_public v r = Inr v' \<Longrightarrow> \<exists>w. v' = v\<lparr>z_vis := w\<rparr> \<and> vis_marked (z_vis v) (rng r) (rng r) {} {} w \<and> rng r \<inter> zo_all (z_output v) = {}"
    "zmark_private v r = Inr v' \<Longrightarrow> \<exists>w. v' = v\<lparr>z_vis := w\<rparr> \<and> vis_marked (z_vis v) (rng r) {} (rng r) {} w \<and> rng r \<inter> zo_all (z_output v) = {}"
    "zmark_blind v r = Inr v' \<Longrightarrow> \<exists>w. v' = v\<lparr>z_vis := w\<rparr> \<and> vis_marked (z_vis v) (rng r) {} {} (rng r) w \<and> rng r \<inter> zo_all (z_output v) = {}"
proof -
  let ?w = "z_vis v"
  have i: "vis_inv ?w" using inv by (simp add: zview_inv_def)
  have m: "vis_marked ?w (rng r) A B C w" if "vis_inv w" "rng r \<subseteq> v_uninit ?w" "vlen w = vlen ?w" "v_uninit w = v_uninit ?w - rng r"
      "v_public w = v_public ?w - rng r \<union> A" "v_private w = v_private ?w - rng r \<union> B" "v_blind w = v_blind ?w - rng r \<union> C" for A B C w
  proof -
    have "v_uninit ?w \<inter> v_public ?w = {}" "v_uninit ?w \<inter> v_private ?w = {}" "v_uninit ?w \<inter> v_blind ?w = {}" using i by (simp_all add: vis_inv_def)
    then have "v_public ?w - rng r = v_public ?w" "v_private ?w - rng r = v_private ?w" "v_blind ?w - rng r = v_blind ?w" using that(2) by blast+
    then show ?thesis using that by (simp add: vis_marked_def)
  qed
  show "\<exists>w. v' = v\<lparr>z_vis := w\<rparr> \<and> vis_marked (z_vis v) (rng r) (rng r) {} {} w \<and> rng r \<inter> zo_all (z_output v) = {}" if h: "zmark_public v r = Inr v'"
  proof -
    obtain w where w: "set_public ?w r = (Inr w :: (view_error, _) result)" "v' = v\<lparr>z_vis := w\<rparr>" "\<not> vis_is_set_any ?w r"
        "rng r \<inter> zo_all (z_output v) = {}"
      using h by (auto simp: zmark_public_def result_simps split: if_splits)
    then have "snd r \<le> vlen ?w" by (auto simp: set_public_def assert_allocated_def result_simps)
    from m [OF conjunct1 [OF set_public_ok [OF i w(1)]] unset_range [OF w(3) this], where A = "rng r" and B = "{}" and C = "{}"] set_vis_fields(1) [OF w(1)] w(2,4) show ?thesis by auto
  qed
  show "\<exists>w. v' = v\<lparr>z_vis := w\<rparr> \<and> vis_marked (z_vis v) (rng r) {} (rng r) {} w \<and> rng r \<inter> zo_all (z_output v) = {}" if h: "zmark_private v r = Inr v'"
  proof -
    obtain w where w: "set_private ?w r = (Inr w :: (view_error, _) result)" "v' = v\<lparr>z_vis := w\<rparr>" "\<not> vis_is_set_any ?w r"
        "rng r \<inter> zo_all (z_output v) = {}"
      using h by (auto simp: zmark_private_def result_simps split: if_splits)
    then have "snd r \<le> vlen ?w" by (auto simp: set_private_def assert_allocated_def result_simps)
    from m [OF conjunct1 [OF set_private_ok [OF i w(1)]] unset_range [OF w(3) this], where A = "{}" and B = "rng r" and C = "{}"] set_vis_fields(2) [OF w(1)] w(2,4) show ?thesis by auto
  qed
  show "\<exists>w. v' = v\<lparr>z_vis := w\<rparr> \<and> vis_marked (z_vis v) (rng r) {} {} (rng r) w \<and> rng r \<inter> zo_all (z_output v) = {}" if h: "zmark_blind v r = Inr v'"
  proof -
    obtain w where w: "set_blind ?w r = (Inr w :: (view_error, _) result)" "v' = v\<lparr>z_vis := w\<rparr>" "\<not> vis_is_set_any ?w r"
        "rng r \<inter> zo_all (z_output v) = {}"
      using h by (auto simp: zmark_blind_def result_simps split: if_splits)
    then have "snd r \<le> vlen ?w" by (auto simp: set_blind_def assert_allocated_def result_simps)
    from m [OF conjunct1 [OF set_blind_ok [OF i w(1)]] unset_range [OF w(3) this], where A = "{}" and B = "{}" and C = "rng r"] set_vis_fields(3) [OF w(1)] w(2,4) show ?thesis by auto
  qed
qed

lemma zview_inv_marked:
  assumes "zview_inv v" "vis_marked (z_vis v) (rng r) A B C w" "A \<union> B \<union> C \<subseteq> rng r" "rng r \<inter> zo_all (z_output v) = {}"
  shows "zview_inv (v\<lparr>z_vis := w\<rparr>)"
proof -
  have u: "(v_public (z_vis v) \<union> zsecret (zrole v) (z_vis v)) \<inter> rng r = {}" "zsecret (zrole v) (z_vis v) \<subseteq> zsecret (zrole v) w"
  proof -
    have "v_public (z_vis v) \<inter> v_uninit (z_vis v) = {}" "zsecret (zrole v) (z_vis v) \<inter> v_uninit (z_vis v) = {}"
      using assms(1) zsecret_vis [of "z_vis v" "zrole v"] by (auto simp: zview_inv_def vis_inv_def)
    then show "(v_public (z_vis v) \<union> zsecret (zrole v) (z_vis v)) \<inter> rng r = {}" using assms(2) by (auto simp: vis_marked_def)
    show "zsecret (zrole v) (z_vis v) \<subseteq> zsecret (zrole v) w" using assms(2) by (cases "zrole v") (auto simp: vis_marked_def)
  qed
  have m: "vis_inv w" "vlen w = vlen (z_vis v)" "v_public w = v_public (z_vis v) \<union> A" using assms(2) by (simp_all add: vis_marked_def)
  note z = assms(1) [unfolded zview_inv_def]
  have "zi_complete (z_input v) \<inter> A = {}" using z u(1) assms(3) by blast
  then have "zi_complete (z_input v) - v_public w = zi_complete (z_input v) - v_public (z_vis v)" using m(3) by blast
  moreover have "zi_complete (z_input v) \<subseteq> v_public w \<union> zsecret (zrole v) w" "zf_commit (z_flush v) \<subseteq> zsecret (zrole v) w"
    using z u(2) m(3) by blast+
  moreover have "zo_all (z_output v) \<subseteq> v_uninit w" using assms(2,4) z by (auto simp: vis_marked_def)
  ultimately show ?thesis using z m(1,2) unfolding zview_inv_def by simp
qed

lemma zview_inv_alloc:
  assumes "zview_inv v"
  shows "zview_inv (zview_alloc_input v n)" "zview_inv (zview_alloc_output v n)"
proof -
  have i: "vis_inv (z_vis v)" "vlen (z_vis v) = z_len v" using assms by (simp_all add: zview_inv_def)
  have u: "{0..<z_len v + n} = {0..<z_len v} \<union> {z_len v..<z_len v + n}" by auto
  have dj: "{0..<z_len v} \<inter> {z_len v..<z_len v + n} = {}" by auto
  note a = vis_alloc_ok(1) [OF i(1), of n] vis_alloc_fields [of "z_vis v" n]
  have c: "zi_all (z_input v) \<union> zo_all (z_output v) = {0..<z_len v}" "zi_all (z_input v) \<inter> zo_all (z_output v) = {}"
    using assms by (simp_all add: zview_inv_def)
  show "zview_inv (zview_alloc_input v n)" "zview_inv (zview_alloc_output v n)"
    using assms unfolding zview_inv_def zview_alloc_input_def zview_alloc_output_def zview_alloc_def Let_def
    by (simp_all add: a u c i(2)) (use c dj in blast)+
qed

lemma zview_inv_assign: "zview_inv v \<Longrightarrow> zview_assign v r = Inr v' \<Longrightarrow> zview_inv v'"
  by (auto simp: zview_assign_def zview_inv_def split: if_splits)

lemma zview_inv_output:
  assumes inv: "zview_inv v" and d: "rng r \<inter> zo_complete (z_output v) = {}" "zview_set_output v r = Inr v'"
  shows "zview_inv v'"
proof -
  note z = zview_invD [OF inv]
  have o: "rng r \<subseteq> zo_all (z_output v)" and v': "v' = v\<lparr>z_output := (z_output v)\<lparr>zo_complete := zo_complete (z_output v) \<union> rng r\<rparr>,
      z_flush := (z_flush v)\<lparr>zf_prove := zf_prove (z_flush v) \<union> (rng r \<inter> zd_all (z_decode v))\<rparr>\<rparr>"
    using d(2) by (auto simp: zview_set_output_def Let_def split: if_splits)
  have "rng r \<inter> zi_complete (z_input v) = {}" using o z(4,5) by blast
  then have "rng r \<inter> zd_complete (z_decode v) = {}" using d(1) z(14) by blast
  then have n: "(zf_prove (z_flush v) \<union> rng r \<inter> zd_all (z_decode v)) \<inter> zd_complete (z_decode v) = {}" using z(13) by blast
  have p: "zf_prove (z_flush v) \<union> rng r \<inter> zd_all (z_decode v) \<subseteq> zi_complete (z_input v) - v_public (z_vis v) \<union> (zo_complete (z_output v) \<union> rng r)"
    "zf_prove (z_flush v) \<union> rng r \<inter> zd_all (z_decode v) \<subseteq> zd_all (z_decode v)" "zo_complete (z_output v) \<union> rng r \<subseteq> zo_all (z_output v)"
    "zd_complete (z_decode v) \<subseteq> zi_complete (z_input v) - v_public (z_vis v) \<union> (zo_complete (z_output v) \<union> rng r)"
    using z(6,11,12,14) o by blast+
  show ?thesis unfolding v' by (rule zview_invI) (use z(1-5,7-10,15) p n in simp_all)
qed

lemma zview_commit_eq:
  assumes "zview_inv v" "zview_commit v r = Inr v'"
  shows "v' = v\<lparr>z_input := (z_input v)\<lparr>zi_complete := zi_complete (z_input v) \<union> (rng r \<inter> v_public (z_vis v))\<rparr>,
        z_flush := (z_flush v)\<lparr>zf_commit := zf_commit (z_flush v) \<union> (rng r \<inter> zsecret (zrole v) (z_vis v))\<rparr>\<rparr>"
    "rng r \<subseteq> zi_all (z_input v)" "rng r \<inter> zi_complete (z_input v) = {}" "rng r \<inter> v_public (z_vis v) \<subseteq> zi_assigned (z_input v)"
    "rng r \<inter> v_private (z_vis v) \<subseteq> zi_assigned (z_input v)"
proof -
  have g: "vis_is_set (z_vis v) r" "rng r \<inter> zo_all (z_output v) = {}"
    using assms(2) by (auto simp: zview_commit_def split: if_splits)
  then have "rng r \<subseteq> {0..<z_len v}" using zview_invD(2) [OF assms(1)] by (auto simp: vis_is_set_def)
  then show "rng r \<subseteq> zi_all (z_input v)" using g(2) zview_invD(3) [OF assms(1)] by blast
  show "v' = v\<lparr>z_input := (z_input v)\<lparr>zi_complete := zi_complete (z_input v) \<union> (rng r \<inter> v_public (z_vis v))\<rparr>,
        z_flush := (z_flush v)\<lparr>zf_commit := zf_commit (z_flush v) \<union> (rng r \<inter> zsecret (zrole v) (z_vis v))\<rparr>\<rparr>"
    "rng r \<inter> zi_complete (z_input v) = {}" "rng r \<inter> v_public (z_vis v) \<subseteq> zi_assigned (z_input v)"
    "rng r \<inter> v_private (z_vis v) \<subseteq> zi_assigned (z_input v)"
    using assms(2) by (cases "zrole v"; auto simp: zview_commit_def Let_def split: if_splits)+
qed

lemma zview_inv_commit:
  assumes inv: "zview_inv v" and h: "zview_commit v r = Inr v'"
  shows "zview_inv v'"
proof -
  note z = zview_invD [OF inv] and c = zview_commit_eq [OF inv h]
  let ?p = "rng r \<inter> v_public (z_vis v)" and ?s = "rng r \<inter> zsecret (zrole v) (z_vis v)"
  have s: "?s \<inter> v_public (z_vis v) = {}" "zf_commit (z_flush v) \<inter> v_public (z_vis v) = {}"
    using zsecret_vis [OF z(1), of "zrole v"] z(9) by blast+
  have "(zf_commit (z_flush v) \<union> ?s) \<inter> (zi_complete (z_input v) \<union> ?p) = {}" using s c(3) z(10) by blast
  moreover have "zi_complete (z_input v) \<union> ?p - v_public (z_vis v) = zi_complete (z_input v) - v_public (z_vis v)" by blast
  moreover have "zi_complete (z_input v) \<union> ?p \<subseteq> zi_all (z_input v)" "zf_commit (z_flush v) \<union> ?s \<subseteq> zi_all (z_input v)"
      "zf_commit (z_flush v) \<union> ?s \<subseteq> zsecret (zrole v) (z_vis v)"
      "zi_complete (z_input v) \<union> ?p \<subseteq> v_public (z_vis v) \<union> zsecret (zrole v) (z_vis v)"
    using c(2) z(5,7,8,9) by blast+
  ultimately show ?thesis unfolding c(1) by (intro zview_invI) (use z(1-4,6,11-15) in simp_all)
qed

text \<open>What \<open>decode\<close> stages, the same set at both parties.\<close>

definition zdecodable :: "zview \<Rightarrow> nat \<times> nat \<Rightarrow> nat set" where
  "zdecodable v r = (rng r - zd_complete (z_decode v)) \<inter> ((zi_complete (z_input v) - v_public (z_vis v)) \<union> zo_complete (z_output v))"

lemma zview_decode_eq:
  assumes "zview_inv v"
  shows "zview_decode v r = v\<lparr>z_decode := (z_decode v)\<lparr>zd_all := zd_all (z_decode v) \<union> (rng r - zd_complete (z_decode v))\<rparr>,
    z_flush := (z_flush v)\<lparr>zf_prove := zf_prove (z_flush v) \<union> zdecodable v r\<rparr>\<rparr>"
proof (cases "rng r - zd_complete (z_decode v) = {}")
  case False
  note z = zview_invD [OF assms]
  let ?u = "rng r - zd_complete (z_decode v)"
  have o: "?u \<inter> zo_all (z_output v) \<inter> zo_complete (z_output v) = ?u \<inter> zo_complete (z_output v)" using z(6) by blast
  have d: "v_private (z_vis v) \<inter> v_public (z_vis v) = {}" "v_blind (z_vis v) \<inter> v_public (z_vis v) = {}" "v_blind (z_vis v) \<inter> v_private (z_vis v) = {}"
      "v_visible (z_vis v) = v_public (z_vis v) \<union> v_private (z_vis v)" using z(1) by (auto simp: vis_inv_def)
  show ?thesis
  proof (cases "zrole v")
    case ZProver
    then have "?u \<inter> zi_all (z_input v) \<inter> v_private (z_vis v) \<inter> zi_complete (z_input v) = ?u \<inter> (zi_complete (z_input v) - v_public (z_vis v))"
      using z(5,7) d(1) by simp blast
    then show ?thesis using False ZProver o by (simp add: zview_decode_def zdecodable_def Let_def Int_Un_distrib)
  next
    case ZVerifier
    then have "(?u \<inter> zi_all (z_input v) - v_visible (z_vis v)) \<inter> zi_complete (z_input v) = ?u \<inter> (zi_complete (z_input v) - v_public (z_vis v))"
      using z(5,7) d by simp blast
    then show ?thesis using False ZVerifier o by (simp add: zview_decode_def zdecodable_def Let_def Int_Un_distrib)
  qed
next
  case True
  then show ?thesis unfolding zview_decode_def zdecodable_def Let_def True by simp
qed

lemma zview_inv_decode:
  assumes inv: "zview_inv v"
  shows "zview_inv (zview_decode v r)"
proof -
  note z = zview_invD [OF inv]
  have "zf_prove (z_flush v) \<union> zdecodable v r \<subseteq> (zi_complete (z_input v) - v_public (z_vis v)) \<union> zo_complete (z_output v)"
    "zf_prove (z_flush v) \<union> zdecodable v r \<subseteq> zd_all (z_decode v) \<union> (rng r - zd_complete (z_decode v))"
    "(zf_prove (z_flush v) \<union> zdecodable v r) \<inter> zd_complete (z_decode v) = {}"
    using z(11,12,13) unfolding zdecodable_def by blast+
  then show ?thesis unfolding zview_decode_eq [OF inv] by (intro zview_invI) (use z(1-10,14,15) in simp_all)
qed

lemma zcomplete_eq:
  "zcomplete_flush v f = v\<lparr>z_input := (z_input v)\<lparr>zi_complete := zi_complete (z_input v) \<union> zf_commit f\<rparr>,
     z_decode := (z_decode v)\<lparr>zd_complete := zd_complete (z_decode v) \<union> zf_prove f\<rparr>,
     z_flush := \<lparr>zf_commit = {}, zf_prove = zf_commit f \<inter> zd_all (z_decode v)\<rparr>\<rparr>"
  by (simp add: zcomplete_flush_def zflush_clear_def Let_def)

lemma zview_inv_flush:
  assumes inv: "zview_inv v"
  shows "zview_inv (zcomplete_flush v (z_flush v))"
proof -
  note z = zview_invD [OF inv]
  let ?c = "zf_commit (z_flush v)" and ?p = "zf_prove (z_flush v)"
  have 1: "?c \<inter> v_public (z_vis v) = {}" using zsecret_vis [OF z(1), of "zrole v"] z(9) by blast
  have 2: "?c \<inter> zo_complete (z_output v) = {}" "?c \<inter> zi_complete (z_input v) = {}" using z(4,6,8,10) by blast+
  then have 3: "?c \<inter> zd_all (z_decode v) \<inter> (zd_complete (z_decode v) \<union> ?p) = {}" using z(11,14) by blast
  have "zd_complete (z_decode v) \<union> ?p \<subseteq> zi_complete (z_input v) \<union> ?c - v_public (z_vis v) \<union> zo_complete (z_output v)"
    "?c \<inter> zd_all (z_decode v) \<subseteq> zi_complete (z_input v) \<union> ?c - v_public (z_vis v) \<union> zo_complete (z_output v)"
    "zi_complete (z_input v) \<union> ?c \<subseteq> zi_all (z_input v)" "zi_complete (z_input v) \<union> ?c \<subseteq> v_public (z_vis v) \<union> zsecret (zrole v) (z_vis v)"
    using z(5,7,8,9,11,14) 1 by blast+
  with 3 show ?thesis unfolding zcomplete_eq by (intro zview_invI) (use z(1-4,6,15) in simp_all)
qed

lemma zagreeD:
  assumes "zviews_agree p v"
  shows "zrole p = ZProver" "zrole v = ZVerifier" "zview_inv p" "zview_inv v" "z_len p = z_len v"
    "zi_all (z_input p) = zi_all (z_input v)" "zi_complete (z_input p) = zi_complete (z_input v)"
    "z_output p = z_output v" "z_decode p = z_decode v" "z_flush p = z_flush v"
    "vlen (z_vis p) = vlen (z_vis v)" "v_uninit (z_vis p) = v_uninit (z_vis v)" "v_public (z_vis p) = v_public (z_vis v)"
    "v_private (z_vis p) = v_blind (z_vis v)" "v_blind (z_vis p) = v_private (z_vis v)"
  using assms by (simp_all add: zviews_agree_def vis_dual_def)

lemma zagree_alloc:
  assumes "zviews_agree p v"
  shows "zviews_agree (zview_alloc_input p n) (zview_alloc_input v n)" "zviews_agree (zview_alloc_output p n) (zview_alloc_output v n)"
proof -
  note d = zagreeD [OF assms]
  have a: "zview_alloc_input w n = w\<lparr>z_len := z_len w + n, z_vis := vis_alloc (z_vis w) n,
        z_input := (z_input w)\<lparr>zi_all := zi_all (z_input w) \<union> {z_len w..<z_len w + n}\<rparr>\<rparr>"
      "zview_alloc_output w n = w\<lparr>z_len := z_len w + n, z_vis := vis_alloc (z_vis w) n,
        z_output := (z_output w)\<lparr>zo_all := zo_all (z_output w) \<union> {z_len w..<z_len w + n}\<rparr>\<rparr>" for w
    by (simp_all add: zview_alloc_input_def zview_alloc_output_def zview_alloc_def Let_def)
  show "zviews_agree (zview_alloc_input p n) (zview_alloc_input v n)" "zviews_agree (zview_alloc_output p n) (zview_alloc_output v n)"
    using zview_inv_alloc [OF d(3), of n] zview_inv_alloc [OF d(4), of n] d(1,2,5-15)
    unfolding a zviews_agree_def by (simp_all add: vis_dual_def vis_alloc_fields)
qed

lemma zagree_vis:
  assumes "zviews_agree p v" "vis_marked (z_vis p) (rng r) A B C w" "vis_marked (z_vis v) (rng r) A C B w'" "A \<union> B \<union> C \<subseteq> rng r"
    "rng r \<inter> zo_all (z_output p) = {}"
  shows "zviews_agree (p\<lparr>z_vis := w\<rparr>) (v\<lparr>z_vis := w'\<rparr>)"
proof -
  note d = zagreeD [OF assms(1)]
  have "A \<union> C \<union> B \<subseteq> rng r" "rng r \<inter> zo_all (z_output v) = {}" using assms(4,5) d(8) by (blast, simp)
  from zview_inv_marked [OF d(3) assms(2,4,5)] zview_inv_marked [OF d(4) assms(3) this] show ?thesis
    using assms(2,3) d unfolding zviews_agree_def by (simp add: vis_dual_def vis_marked_def)
qed

lemma zagree_mark:
  assumes "zviews_agree p v"
  shows "zmark_public p r = Inr p' \<Longrightarrow> zmark_public v r = Inr v' \<Longrightarrow> zviews_agree p' v'"
    "zmark_private p r = Inr p' \<Longrightarrow> zmark_blind v r = Inr v' \<Longrightarrow> zviews_agree p' v'"
    "zmark_blind p r = Inr p' \<Longrightarrow> zmark_private v r = Inr v' \<Longrightarrow> zviews_agree p' v'"
  using zmark_fields [OF zagreeD(3) [OF assms], of r p'] zmark_fields [OF zagreeD(4) [OF assms], of r v']
  by (auto intro!: zagree_vis [OF assms, where r = r])

lemma zagree_assign:
  assumes "zviews_agree p v"
  shows "zview_assign p r = Inr p' \<Longrightarrow> zviews_agree p' v" "zview_assign v r = Inr v' \<Longrightarrow> zviews_agree p v'"
proof -
  note d = zagreeD [OF assms]
  show "zview_assign p r = Inr p' \<Longrightarrow> zviews_agree p' v"
    using zview_inv_assign [OF d(3), of r p'] d by (auto simp: zviews_agree_def vis_dual_def zview_assign_def split: if_splits)
  show "zview_assign v r = Inr v' \<Longrightarrow> zviews_agree p v'"
    using zview_inv_assign [OF d(4), of r v'] d by (auto simp: zviews_agree_def vis_dual_def zview_assign_def split: if_splits)
qed

lemma zagree_output:
  assumes "zviews_agree p v" "rng r \<inter> zo_complete (z_output p) = {}" "zview_set_output p r = Inr p'" "zview_set_output v r = Inr v'"
  shows "zviews_agree p' v'"
proof -
  note d = zagreeD [OF assms(1)]
  have "rng r \<inter> zo_complete (z_output v) = {}" using assms(2) d(8) by simp
  from zview_inv_output [OF d(3) assms(2,3)] zview_inv_output [OF d(4) this assms(4)] d assms(3,4)
  show ?thesis by (auto simp: zviews_agree_def vis_dual_def zview_set_output_def Let_def split: if_splits)
qed

lemma zagree_commit:
  assumes "zviews_agree p v" "zview_commit p r = Inr p'" "zview_commit v r = Inr v'"
  shows "zviews_agree p' v'"
proof -
  note d = zagreeD [OF assms(1)]
  note c = zview_commit_eq(1) [OF d(3) assms(2)] zview_commit_eq(1) [OF d(4) assms(3)]
  show ?thesis using zview_inv_commit [OF d(3) assms(2)] zview_inv_commit [OF d(4) assms(3)] d
    unfolding c zviews_agree_def by (simp add: vis_dual_def)
qed

lemma zagree_decode:
  assumes "zviews_agree p v"
  shows "zviews_agree (zview_decode p r) (zview_decode v r)"
proof -
  note d = zagreeD [OF assms]
  have "zdecodable p r = zdecodable v r" using d(7,8,9,13) by (simp add: zdecodable_def)
  then show ?thesis using zview_inv_decode [OF d(3), of r] zview_inv_decode [OF d(4), of r] d
    unfolding zview_decode_eq [OF d(3)] zview_decode_eq [OF d(4)] zviews_agree_def by (simp add: vis_dual_def)
qed

lemma zagree_flush:
  assumes "zviews_agree p v"
  shows "zviews_agree (zcomplete_flush p (z_flush p)) (zcomplete_flush v (z_flush v))"
  using zview_inv_flush [OF zagreeD(3) [OF assms]] zview_inv_flush [OF zagreeD(4) [OF assms]] zagreeD [OF assms]
  unfolding zcomplete_eq zviews_agree_def by (simp add: vis_dual_def)

lemmas zagree_intros = zagree_alloc zagree_mark zagree_assign zagree_output zagree_commit zagree_decode zagree_flush

lemma zboth_step_agree: "zboth_step (p, v) (p', v') \<Longrightarrow> zviews_agree p v \<Longrightarrow> zviews_agree p' v'"
proof (erule zboth_stepE)
  fix op p1 v1 assume ag: "zviews_agree p v" and eq: "(p', v') = (p1, v1)" and h: "zfresh op p" "zprover_op op p = Inr p1" "zverifier_op op v = Inr v1"
  show "zviews_agree p' v'" using h eq ag by (cases op) (auto intro: zagree_intros)
qed

lemma zviews_agree_new: "zviews_agree zview_new_prover zview_new_verifier"
  by (simp add: zviews_agree_def zview_new_prover_def zview_new_verifier_def zview_new_def vis_dual_def zview_inv_def vis_inv_new)
    (simp add: vis_new_def zflush_default_def)

lemma zreachable_agree: "zreachable s \<Longrightarrow> zviews_agree (fst s) (snd s)"
proof (induction rule: zreachable.induct)
  case init
  then show ?case by (simp add: zviews_agree_new)
next
  case (step s t)
  then show ?case using zboth_step_agree [of "fst s" "snd s" "fst t" "snd t"] by simp
qed

end
