(* ===== verification/ZStore.thy ===== *)
theory ZStore
  imports GStore ZView Zk_Check
begin

text \<open>
  The memories of the zero-knowledge parties (\<open>zk-core/src/store.rs\<close>, \<open>store/prover.rs\<close>,
  \<open>store/verifier.rs\<close>) and the flush protocol between them: the prover commits its private inputs by
  sending them masked with the choices of correlated OTs, and proves the MACs of what is to be
  decoded.  \<open>iter\<close> lists the ranges of a range set, \<open>hash\<close> is BLAKE3 on MAC proofs, the transcript
  both parties keep is that of the consistency check.  As in the garbled memory, what is sent on the
  channels of a store is its field \<open>sent\<close>, and the state a failed call leaves is not used further.
\<close>

section \<open>The flush message\<close>

record prover_flush =
  pf_view :: zflush_view
  pf_adjust :: "bool list"
  pf_mac_proof :: "mac_proof option"

text \<open>\<open>TryFrom<ProverFlushUnchecked>\<close>, run on deserialisation.\<close>

definition prover_flush_try_from ::
  "zflush_view \<times> bool list \<times> mac_proof option \<Rightarrow> (string, prover_flush) result" where
  "prover_flush_try_from u =
     (let (view, adjust, mac_proof) = u
      in if card (zf_commit view) \<noteq> length adjust
         then Inl (Err ''prover sent flush with invalid number of adjustment bits'')
         else
           let mac_proof_bits = (case mac_proof of Some (bts, _) \<Rightarrow> length bts | None \<Rightarrow> 0)
           in if card (zf_prove view) \<noteq> mac_proof_bits
              then Inl (Err ''prover sent flush with invalid number of mac proof bits'')
              else Inr \<lparr>pf_view = view, pf_adjust = adjust, pf_mac_proof = mac_proof\<rparr>)"

section \<open>The prover's store\<close>

datatype prover_store_error =
    PsMacStore mac_store_error | PsStore store_error | PsDecode decode_error | PsView view_error
  | PsWrongMacCount nat nat | PsUnexpectedFlush

record prover_store =
  p_macs :: mac_store
  p_masks :: bit_store
  p_data :: bit_store
  p_view :: zview
  p_pending :: bool
  p_buffer :: "decode_op list"
  p_sent :: messages
  p_chans :: nat

definition ps_new :: prover_store where
  "ps_new = \<lparr>p_macs = mac_store_new, p_masks = bit_store_new, p_data = bit_store_new, p_view = zview_new_prover,
     p_pending = False, p_buffer = [], p_sent = [], p_chans = 0\<rparr>"

definition ps_alloc_output :: "prover_store \<Rightarrow> nat \<Rightarrow> slice \<times> prover_store" where
  "ps_alloc_output p n =
     (let p = p\<lparr>p_view := zview_alloc_output (p_view p) n\<rparr>;
          p = p\<lparr>p_macs := snd (ms_alloc (p_macs p) n)\<rparr>;
          p = p\<lparr>p_masks := snd (bits_alloc (p_masks p) n)\<rparr>;
          (sl, data) = bits_alloc (p_data p) n
      in (sl, p\<lparr>p_data := data\<rparr>))"

definition ps_is_set_macs :: "prover_store \<Rightarrow> slice \<Rightarrow> bool" where
  "ps_is_set_macs p sl = ms_is_set (p_macs p) sl"

definition ps_wants_macs :: "prover_store \<Rightarrow> bool" where
  "ps_wants_macs p \<longleftrightarrow> zf_commit (z_flush (p_view p)) \<noteq> {}"

definition ps_mac_count :: "prover_store \<Rightarrow> nat" where
  "ps_mac_count p = card (zf_commit (z_flush (p_view p)))"

definition ps_wants_flush :: "prover_store \<Rightarrow> bool" where
  "ps_wants_flush p = zview_wants_flush (p_view p)"

definition ps_try_get_macs :: "prover_store \<Rightarrow> slice \<Rightarrow> (prover_store_error, mac list) result" where
  "ps_try_get_macs p sl = map_err PsMacStore (ms_try_get (p_macs p) sl)"

text \<open>The body of the loop of \<open>set_macs\<close>.\<close>

fun set_macs_loop ::
  "bool list \<Rightarrow> mac list \<Rightarrow> nat \<Rightarrow> (nat \<times> nat) list \<Rightarrow> prover_store \<Rightarrow> (prover_store_error, prover_store) result" where
  "set_macs_loop masks macs i [] p = Inr p"
| "set_macs_loop masks macs i (r # rs) p =
     (let sl = from_range_unchecked r
      in bindR (subslice masks i (i + ssize sl)) (\<lambda>bts.
         bindR (map_err PsStore (bits_try_set (p_masks p) sl bts)) (\<lambda>mask_store.
         bindR (subslice macs i (i + ssize sl)) (\<lambda>ms.
         bindR (map_err PsMacStore (ms_try_set (p_macs p) sl ms)) (\<lambda>mac_store.
         bindR (map_err PsStore (bits_try_get (p_data p) sl)) (\<lambda>data.
         bindR (map_err PsMacStore (ms_adjust mac_store sl data)) (\<lambda>mac_store.
           set_macs_loop masks macs (i + ssize sl) rs (p\<lparr>p_masks := mask_store, p_macs := mac_store\<rparr>))))))))"

definition ps_set_macs ::
  "(nat set \<Rightarrow> (nat \<times> nat) list) \<Rightarrow> prover_store \<Rightarrow> bool list \<Rightarrow> mac list \<Rightarrow> (prover_store_error, prover_store) result" where
  "ps_set_macs iter p masks macs =
     (let commit = zf_commit (z_flush (p_view p))
      in if length masks \<noteq> length macs then Inl (Err (PsWrongMacCount (length masks) (length macs)))
         else if length masks \<noteq> card commit then Inl (Err (PsWrongMacCount (card commit) (length masks)))
         else set_macs_loop masks macs 0 (iter commit) p)"

definition ps_set_output_macs :: "prover_store \<Rightarrow> slice \<Rightarrow> mac list \<Rightarrow> (prover_store_error, prover_store) result" where
  "ps_set_output_macs p sl macs =
     bindR (map_err PsView (zview_set_output (p_view p) (slice_range sl))) (\<lambda>v.
     bindR (map_err PsMacStore (ms_try_set (p_macs p) sl macs)) (\<lambda>ms.
       let data = map mac_pointer macs
       in bindR (map_err PsStore (bits_try_set (p_data p) sl data)) (\<lambda>data.
            Inr (p\<lparr>p_view := v, p_macs := ms, p_data := data\<rparr>))))"

text \<open>The loop of \<open>send_flush\<close>: the data of the committed ranges, masked.\<close>

fun adjust_loop :: "bit_store \<Rightarrow> bit_store \<Rightarrow> (nat \<times> nat) list \<Rightarrow> bool list \<Rightarrow> (prover_store_error, bool list) result" where
  "adjust_loop data_store mask_store [] adjust = Inr adjust"
| "adjust_loop data_store mask_store (r # rs) adjust =
     (let sl = from_range_unchecked r
      in bindR (map_err PsStore (bits_try_get data_store sl)) (\<lambda>data.
         bindR (map_err PsStore (bits_try_get mask_store sl)) (\<lambda>masks.
           adjust_loop data_store mask_store rs (adjust @ map2 (\<noteq>) data masks))))"

definition ps_send_flush ::
  "(nat set \<Rightarrow> (nat \<times> nat) list) \<Rightarrow> hasher \<Rightarrow> ('t, 's) transcript_ops \<Rightarrow> prover_store \<Rightarrow> 't \<Rightarrow>
     (prover_store_error, prover_flush \<times> prover_store \<times> 't) result" where
  "ps_send_flush iter hash ops p tr =
     (if p_pending p then Inl (Err PsUnexpectedFlush)
      else
        let p = p\<lparr>p_pending := True\<rparr>; f = z_flush (p_view p)
        in bindR (adjust_loop (p_data p) (p_masks p) (iter (zf_commit f)) []) (\<lambda>adjust.
             let tr = tr_update ops tr (tr_bits ops adjust)
             in bindR (if zf_prove f \<noteq> {} then
                         bindR (map_err PsMacStore (prove_macs hash (p_macs p) (iter (zf_prove f)))) (\<lambda>prf. Inr (Some prf))
                       else Inr None) (\<lambda>mac_proof.
                  Inr (\<lparr>pf_view = f, pf_adjust = adjust, pf_mac_proof = mac_proof\<rparr>, p, tr))))"

definition ps_flush_decode :: "prover_store \<Rightarrow> (prover_store_error, prover_store) result" where
  "ps_flush_decode p =
     bindR (map_err (case_sum PsStore PsDecode) (flush_ops (p_data p) (p_buffer p) (p_sent p))) (\<lambda>(buf, w).
       Inr (p\<lparr>p_buffer := buf, p_sent := w\<rparr>))"

definition ps_complete_flush :: "prover_store \<Rightarrow> (prover_store_error, prover_store) result" where
  "ps_complete_flush p =
     (if \<not> p_pending p then Inl (Err PsUnexpectedFlush)
      else
        let view = z_flush (p_view p); p = p\<lparr>p_view := zcomplete_flush (p_view p) view\<rparr>
        in bindR (ps_flush_decode p) (\<lambda>p. Inr (p\<lparr>p_pending := False\<rparr>)))"

definition ps_is_alloc :: "prover_store \<Rightarrow> slice \<Rightarrow> bool" where
  "ps_is_alloc p sl = zview_is_alloc (p_view p) (slice_range sl)"

definition ps_alloc :: "prover_store \<Rightarrow> nat \<Rightarrow> slice \<times> prover_store" where
  "ps_alloc p n =
     (let p = p\<lparr>p_view := zview_alloc_input (p_view p) n\<rparr>;
          p = p\<lparr>p_macs := snd (ms_alloc (p_macs p) n)\<rparr>;
          p = p\<lparr>p_masks := snd (bits_alloc (p_masks p) n)\<rparr>;
          (sl, data) = bits_alloc (p_data p) n
      in (sl, p\<lparr>p_data := data\<rparr>))"

definition ps_is_assigned :: "prover_store \<Rightarrow> slice \<Rightarrow> bool" where
  "ps_is_assigned p sl = bits_is_set (p_data p) sl"

text \<open>The loop of \<open>assign_raw\<close> over the public ranges.\<close>

definition public_mac_step :: "bit_store \<Rightarrow> nat \<times> nat \<Rightarrow> mac_store \<Rightarrow> (prover_store_error, mac_store) result" where
  "public_mac_step data r ms =
     (let sl = from_range_unchecked r
      in bindR (map_err PsStore (bits_try_get data sl)) (\<lambda>bts. map_err PsMacStore (ms_try_set_public ms sl bts)))"

definition ps_assign ::
  "(nat set \<Rightarrow> (nat \<times> nat) list) \<Rightarrow> prover_store \<Rightarrow> slice \<Rightarrow> bool list \<Rightarrow> (prover_store_error, prover_store) result" where
  "ps_assign iter p sl data =
     bindR (map_err PsView (zview_assign (p_view p) (slice_range sl))) (\<lambda>v.
     bindR (map_err PsStore (bits_try_set (p_data p) sl data)) (\<lambda>st.
       let public = to_range sl \<inter> v_public (z_vis v)
       in bindR (foldR (public_mac_step st) (iter public) (p_macs p)) (\<lambda>ms.
            Inr (p\<lparr>p_view := v, p_data := st, p_macs := ms\<rparr>))))"

definition ps_is_committed :: "prover_store \<Rightarrow> slice \<Rightarrow> bool" where
  "ps_is_committed p sl = zview_is_committed (p_view p) (slice_range sl)"

definition ps_commit :: "prover_store \<Rightarrow> slice \<Rightarrow> (prover_store_error, prover_store) result" where
  "ps_commit p sl =
     bindR (map_err PsView (zview_commit (p_view p) (slice_range sl))) (\<lambda>v. Inr (p\<lparr>p_view := v\<rparr>))"

definition ps_get :: "prover_store \<Rightarrow> slice \<Rightarrow> (prover_store_error, bool list option) result" where
  "ps_get p sl = bits_get (p_data p) sl"

definition ps_decode :: "prover_store \<Rightarrow> slice \<Rightarrow> (prover_store_error, nat \<times> prover_store) result" where
  "ps_decode p sl =
     (let c = p_chans p; op = decode_new sl c; p = p\<lparr>p_chans := c + 1\<rparr>
      in bindR (case bits_try_get (p_data p) sl of
            Inr data \<Rightarrow> bindR (map_err PsDecode (decode_send op data (p_sent p))) (\<lambda>(op, w). Inr (p\<lparr>p_sent := w\<rparr>))
          | Inl Panic \<Rightarrow> Inl Panic
          | Inl (Err e) \<Rightarrow> Inr (p\<lparr>p_buffer := p_buffer p @ [op]\<rparr>)) (\<lambda>p.
           Inr (c, p\<lparr>p_view := zview_decode (p_view p) (slice_range sl)\<rparr>)))"

definition ps_mark_public :: "prover_store \<Rightarrow> slice \<Rightarrow> (prover_store_error, prover_store) result" where
  "ps_mark_public p sl = bindR (map_err PsView (zmark_public (p_view p) (slice_range sl))) (\<lambda>v. Inr (p\<lparr>p_view := v\<rparr>))"

definition ps_mark_private :: "prover_store \<Rightarrow> slice \<Rightarrow> (prover_store_error, prover_store) result" where
  "ps_mark_private p sl = bindR (map_err PsView (zmark_private (p_view p) (slice_range sl))) (\<lambda>v. Inr (p\<lparr>p_view := v\<rparr>))"

definition ps_mark_blind :: "prover_store \<Rightarrow> slice \<Rightarrow> (prover_store_error, prover_store) result" where
  "ps_mark_blind p sl = bindR (map_err PsView (zmark_blind (p_view p) (slice_range sl))) (\<lambda>v. Inr (p\<lparr>p_view := v\<rparr>))"

section \<open>The verifier's store\<close>

datatype verifier_store_error =
    VsKeyStore key_store_error | VsStore store_error | VsDecode decode_error | VsView view_error
  | VsWrongKeyCount nat nat | VsUnexpectedFlush | VsFlush zflush_view zflush_view

record verifier_store =
  s_keys :: key_store
  s_data :: bit_store
  s_view :: zview
  s_pending :: bool
  s_buffer :: "decode_op list"
  s_sent :: messages
  s_chans :: nat

definition vs_new :: "delta \<Rightarrow> verifier_store" where
  "vs_new d = \<lparr>s_keys = key_store_new d, s_data = bit_store_new, s_view = zview_new_verifier, s_pending = False,
     s_buffer = [], s_sent = [], s_chans = 0\<rparr>"

definition vs_alloc_output :: "verifier_store \<Rightarrow> nat \<Rightarrow> slice \<times> verifier_store" where
  "vs_alloc_output s n =
     (let s = s\<lparr>s_view := zview_alloc_output (s_view s) n\<rparr>;
          s = s\<lparr>s_keys := snd (ks_alloc (s_keys s) n)\<rparr>;
          (sl, data) = bits_alloc (s_data s) n
      in (sl, s\<lparr>s_data := data\<rparr>))"

definition vs_delta :: "verifier_store \<Rightarrow> delta" where
  "vs_delta s = ks_delta (s_keys s)"

definition vs_wants_keys :: "verifier_store \<Rightarrow> bool" where
  "vs_wants_keys s \<longleftrightarrow> zf_commit (z_flush (s_view s)) \<noteq> {}"

definition vs_key_count :: "verifier_store \<Rightarrow> nat" where
  "vs_key_count s = card (zf_commit (z_flush (s_view s)))"

definition vs_wants_flush :: "verifier_store \<Rightarrow> bool" where
  "vs_wants_flush s = zview_wants_flush (s_view s)"

definition vs_try_get_keys :: "verifier_store \<Rightarrow> slice \<Rightarrow> (verifier_store_error, key list) result" where
  "vs_try_get_keys s sl = map_err VsKeyStore (ks_try_get (s_keys s) sl)"

definition vs_set_keys ::
  "(nat set \<Rightarrow> (nat \<times> nat) list) \<Rightarrow> verifier_store \<Rightarrow> key list \<Rightarrow> (verifier_store_error, verifier_store) result" where
  "vs_set_keys iter s keys =
     (if length keys \<noteq> vs_key_count s then Inl (Err (VsWrongKeyCount (vs_key_count s) (length keys)))
      else bindR (map_err VsKeyStore (fill_loop ks_try_set keys 0 (iter (zf_commit (z_flush (s_view s)))) (s_keys s))) (\<lambda>ks.
        Inr (s\<lparr>s_keys := ks\<rparr>)))"

definition vs_set_output_keys :: "verifier_store \<Rightarrow> slice \<Rightarrow> key list \<Rightarrow> (verifier_store_error, verifier_store) result" where
  "vs_set_output_keys s sl keys =
     bindR (map_err VsView (zview_set_output (s_view s) (slice_range sl))) (\<lambda>v.
     bindR (map_err VsKeyStore (ks_try_set (s_keys s) sl keys)) (\<lambda>ks. Inr (s\<lparr>s_view := v, s_keys := ks\<rparr>)))"

definition vs_mark_flush_pending :: "verifier_store \<Rightarrow> (verifier_store_error, verifier_store) result" where
  "vs_mark_flush_pending s = (if s_pending s then Inl (Err VsUnexpectedFlush) else Inr (s\<lparr>s_pending := True\<rparr>))"

definition vs_flush_decode :: "verifier_store \<Rightarrow> (verifier_store_error, verifier_store) result" where
  "vs_flush_decode s =
     bindR (map_err (case_sum VsStore VsDecode) (flush_ops (s_data s) (s_buffer s) (s_sent s))) (\<lambda>(buf, w).
       Inr (s\<lparr>s_buffer := buf, s_sent := w\<rparr>))"

definition vs_receive_flush ::
  "(nat set \<Rightarrow> (nat \<times> nat) list) \<Rightarrow> hasher \<Rightarrow> ('t, 's) transcript_ops \<Rightarrow> verifier_store \<Rightarrow> prover_flush \<Rightarrow> 't \<Rightarrow>
     (verifier_store_error, verifier_store \<times> 't) result" where
  "vs_receive_flush iter hash ops s flush tr =
     (if \<not> s_pending s then Inl (Err VsUnexpectedFlush)
      else
        let view = pf_view flush; adjust = pf_adjust flush
        in if view \<noteq> z_flush (s_view s) then Inl (Err (VsFlush (z_flush (s_view s)) view))
           else bindR (map_err VsKeyStore (fill_loop ks_adjust adjust 0 (iter (zf_commit view)) (s_keys s))) (\<lambda>ks.
             let tr = tr_update ops tr (tr_bits ops adjust)
             in bindR (case pf_mac_proof flush of
                         None \<Rightarrow> Inr (s_data s)
                       | Some (bts, prf) \<Rightarrow>
                           bindR (map_err VsKeyStore (verify hash ks (iter (zf_prove view)) bts prf)) (\<lambda>bts.
                             map_err VsStore (fill_loop bits_try_set bts 0 (iter (zf_prove view)) (s_data s)))) (\<lambda>data.
                bindR (vs_flush_decode (s\<lparr>s_keys := ks, s_data := data, s_view := zcomplete_flush (s_view s) view\<rparr>)) (\<lambda>s.
                  Inr (s\<lparr>s_pending := False\<rparr>, tr)))))"

definition vs_is_alloc :: "verifier_store \<Rightarrow> slice \<Rightarrow> bool" where
  "vs_is_alloc s sl = zview_is_alloc (s_view s) (slice_range sl)"

definition vs_alloc :: "verifier_store \<Rightarrow> nat \<Rightarrow> slice \<times> verifier_store" where
  "vs_alloc s n =
     (let s = s\<lparr>s_view := zview_alloc_input (s_view s) n\<rparr>;
          s = s\<lparr>s_keys := snd (ks_alloc (s_keys s) n)\<rparr>;
          (sl, data) = bits_alloc (s_data s) n
      in (sl, s\<lparr>s_data := data\<rparr>))"

definition vs_is_assigned :: "verifier_store \<Rightarrow> slice \<Rightarrow> bool" where
  "vs_is_assigned s sl = bits_is_set (s_data s) sl"

definition public_key_step :: "bit_store \<Rightarrow> nat \<times> nat \<Rightarrow> key_store \<Rightarrow> (verifier_store_error, key_store) result" where
  "public_key_step data r ks =
     (let sl = from_range_unchecked r
      in bindR (map_err VsStore (bits_try_get data sl)) (\<lambda>bts. map_err VsKeyStore (ks_try_set_public ks sl bts)))"

definition vs_assign ::
  "(nat set \<Rightarrow> (nat \<times> nat) list) \<Rightarrow> verifier_store \<Rightarrow> slice \<Rightarrow> bool list \<Rightarrow> (verifier_store_error, verifier_store) result" where
  "vs_assign iter s sl data =
     bindR (map_err VsView (zview_assign (s_view s) (slice_range sl))) (\<lambda>v.
     bindR (map_err VsStore (bits_try_set (s_data s) sl data)) (\<lambda>st.
       let public = to_range sl \<inter> v_public (z_vis v)
       in bindR (foldR (public_key_step st) (iter public) (s_keys s)) (\<lambda>ks.
            Inr (s\<lparr>s_view := v, s_data := st, s_keys := ks\<rparr>))))"

definition vs_is_committed :: "verifier_store \<Rightarrow> slice \<Rightarrow> bool" where
  "vs_is_committed s sl = zview_is_committed (s_view s) (slice_range sl)"

definition vs_commit :: "verifier_store \<Rightarrow> slice \<Rightarrow> (verifier_store_error, verifier_store) result" where
  "vs_commit s sl =
     bindR (map_err VsView (zview_commit (s_view s) (slice_range sl))) (\<lambda>v. Inr (s\<lparr>s_view := v\<rparr>))"

definition vs_get :: "verifier_store \<Rightarrow> slice \<Rightarrow> (verifier_store_error, bool list option) result" where
  "vs_get s sl = bits_get (s_data s) sl"

definition vs_decode :: "verifier_store \<Rightarrow> slice \<Rightarrow> (verifier_store_error, nat \<times> verifier_store) result" where
  "vs_decode s sl =
     (let c = s_chans s; op = decode_new sl c; s = s\<lparr>s_chans := c + 1\<rparr>
      in bindR (case bits_try_get (s_data s) sl of
            Inr data \<Rightarrow> bindR (map_err VsDecode (decode_send op data (s_sent s))) (\<lambda>(op, w). Inr (s\<lparr>s_sent := w\<rparr>))
          | Inl Panic \<Rightarrow> Inl Panic
          | Inl (Err e) \<Rightarrow> Inr (s\<lparr>s_buffer := s_buffer s @ [op]\<rparr>)) (\<lambda>s.
           Inr (c, s\<lparr>s_view := zview_decode (s_view s) (slice_range sl)\<rparr>)))"

definition vs_mark_public :: "verifier_store \<Rightarrow> slice \<Rightarrow> (verifier_store_error, verifier_store) result" where
  "vs_mark_public s sl = bindR (map_err VsView (zmark_public (s_view s) (slice_range sl))) (\<lambda>v. Inr (s\<lparr>s_view := v\<rparr>))"

definition vs_mark_private :: "verifier_store \<Rightarrow> slice \<Rightarrow> (verifier_store_error, verifier_store) result" where
  "vs_mark_private s sl = bindR (map_err VsView (zmark_private (s_view s) (slice_range sl))) (\<lambda>v. Inr (s\<lparr>s_view := v\<rparr>))"

definition vs_mark_blind :: "verifier_store \<Rightarrow> slice \<Rightarrow> (verifier_store_error, verifier_store) result" where
  "vs_mark_blind s sl = bindR (map_err VsView (zmark_blind (s_view s) (slice_range sl))) (\<lambda>v. Inr (s\<lparr>s_view := v\<rparr>))"

end
