(* ===== verification/ZStore_Correct.thy ===== *)
theory ZStore_Correct
  imports ZStore GStore_Correct
begin

text \<open>
  The loops of the zero-knowledge memories as updates of partial maps: storing the MACs and keys of
  correlated OTs, adjusting them to the committed data, and setting public values.
\<close>

section \<open>One range\<close>

lemma set_bits_range:
  assumes "bits_inv s" "fst r < snd r" "rng r \<inter> bset s = {}" "rng r \<subseteq> {0..<length (bits s)}"
  shows "\<exists>s'. bits_try_set s (from_range_unchecked r) (map f [fst r..<snd r]) = Inr s' \<and> bits_inv s' \<and>
    length (bits s') = length (bits s) \<and> bits_abs s' = override (bits_abs s) (rng r) f"
proof -
  have n: "\<not> to_range (from_range_unchecked r) \<subseteq> dom (bits_abs s)" using assms(2,3) by (simp add: disjoint_iff subset_iff) (metis less_irrefl order_refl)
  have "snd r - 1 \<in> rng r" using assms(2) by auto
  then have "snd r - 1 \<in> {0..<length (bits s)}" using assms(4) by blast
  then have "slice_end (from_range_unchecked r) \<le> length (bits s)" using assms(2) by (simp add: slice_end_def)
  from bits_try_set_ok [OF assms(1) n this, of "map f [fst r..<snd r]"] show ?thesis
    by (auto simp: put_at_range override_map_of [of _ "[fst r..<snd r]", simplified])
qed

lemma set_items_range:
  assumes "store_inv s" "fst r < snd r" "rng r \<inter> set_of s = {}" "rng r \<subseteq> {0..<length (items s)}"
  shows "\<exists>s'. try_set s (from_range_unchecked r) (map f [fst r..<snd r]) = Inr s' \<and> store_inv s' \<and>
    length (items s') = length (items s) \<and> store_abs s' = override (store_abs s) (rng r) f"
proof -
  have n: "\<not> to_range (from_range_unchecked r) \<subseteq> dom (store_abs s)" using assms(2,3) by (simp add: disjoint_iff subset_iff) (metis less_irrefl order_refl)
  have "snd r - 1 \<in> rng r" using assms(2) by auto
  then have "snd r - 1 \<in> {0..<length (items s)}" using assms(4) by blast
  then have "slice_end (from_range_unchecked r) \<le> store_len s" using assms(2) by (simp add: slice_end_def store_len_def)
  from vstore.put_ok [OF assms(1) n this, of "map f [fst r..<snd r]"] show ?thesis
    by (auto simp: put_at_range override_map_of [of _ "[fst r..<snd r]", simplified] store_len_def)
qed

text \<open>Rewriting the items of a range that is set.\<close>

lemma mut_range:
  assumes "store_inv s" "fst r < snd r" "rng r \<subseteq> set_of s"
    "\<And>xs. length xs = snd r - fst r \<Longrightarrow> f xs = map2 h xs ys" "ys = map g [fst r..<snd r]"
  shows "\<exists>s'. try_get_slice_mut s (from_range_unchecked r) f = Inr s' \<and> store_inv s' \<and> length (items s') = length (items s) \<and>
    store_abs s' = override (store_abs s) (rng r) (\<lambda>i. h (items s ! i) (g i))"
proof -
  let ?sl = "from_range_unchecked r"
  have l: "length (f (segment (items s) ?sl)) = ssize ?sl" using assms(4) [of "segment (items s) ?sl"] assms(5) by simp
  have e: "to_range ?sl \<subseteq> set_of s" "0 < ssize ?sl" using assms(2,3) by simp_all
  obtain zs where z: "try_get_slice_mut s ?sl f = Inr (s\<lparr>items := zs\<rparr>)" "length zs = length (items s)"
      "\<And>i. i < length (items s) \<Longrightarrow> zs ! i = (if i \<in> to_range ?sl then f (segment (items s) ?sl) ! (i - ptr ?sl) else items s ! i)"
    using try_get_slice_mut_ok [where f = f and sl = ?sl, OF assms(1) e l] by metis
  have v: "f (segment (items s) ?sl) ! (i - fst r) = h (items s ! i) (g i)" if "i \<in> rng r" for i
  proof -
    have "i - fst r < snd r - fst r" "fst r + (i - fst r) = i" using that by auto
    then show ?thesis using assms(4) [of "segment (items s) ?sl"] assms(5) by simp
  qed
  have "store_abs (s\<lparr>items := zs\<rparr>) = override (store_abs s) (rng r) (\<lambda>i. h (items s ! i) (g i))"
  proof
    fix i
    have "zs ! i = (if i \<in> rng r then h (items s ! i) (g i) else items s ! i)" if "i \<in> set_of s"
      using z(3) [of i] v [of i] that assms(1) by (auto simp: store_inv_def)
    then show "store_abs (s\<lparr>items := zs\<rparr>) i = override (store_abs s) (rng r) (\<lambda>i. h (items s ! i) (g i)) i"
      using assms(3) by (auto simp: store_abs_def override_def)
  qed
  with z(1,2) assms(1) show ?thesis by (intro exI [of _ "s\<lparr>items := zs\<rparr>"]) (simp add: store_inv_def)
qed

lemma ms_adjust_range:
  assumes "store_inv (ms_macs ms)" "fst r < snd r" "rng r \<subseteq> set_of (ms_macs ms)"
  shows "\<exists>st. ms_adjust ms (from_range_unchecked r) (map g [fst r..<snd r]) = Inr (ms\<lparr>ms_macs := st\<rparr>) \<and> store_inv st \<and>
    length (items st) = length (items (ms_macs ms)) \<and>
    store_abs st = override (store_abs (ms_macs ms)) (rng r) (\<lambda>i. set_pointer (items (ms_macs ms) ! i) (g i))"
  using mut_range [OF assms, where f = "\<lambda>xs. map2 set_pointer xs (map g [fst r..<snd r])" and h = set_pointer, OF refl refl]
  by (auto simp: ms_adjust_def)

lemma ks_adjust_range:
  assumes "store_inv (ks_keys ks)" "fst r < snd r" "rng r \<subseteq> set_of (ks_keys ks)"
  shows "\<exists>st. ks_adjust ks (from_range_unchecked r) (map g [fst r..<snd r]) = Inr (ks\<lparr>ks_keys := st\<rparr>) \<and> store_inv st \<and>
    length (items st) = length (items (ks_keys ks)) \<and>
    store_abs st = override (store_abs (ks_keys ks)) (rng r) (\<lambda>i. key_adjust (items (ks_keys ks) ! i) (g i) (ks_delta ks))"
  using mut_range [OF assms, where f = "\<lambda>xs. map2 (\<lambda>k a. key_adjust k a (ks_delta ks)) xs (map g [fst r..<snd r])"
      and h = "\<lambda>k a. key_adjust k a (ks_delta ks)", OF refl refl]
  by (auto simp: ks_adjust_def)

lemma override_override: "override (override m S f) T g = override m (S \<union> T) (\<lambda>i. if i \<in> T then g i else f i)"
  by (auto simp: override_def)

lemma override_cong: "m = m' \<Longrightarrow> S = S' \<Longrightarrow> (\<And>i. i \<in> S' \<Longrightarrow> f i = g i) \<Longrightarrow> override m S f = override m' S' g"
  by (auto simp: override_def)

section \<open>Storing correlations\<close>

lemma map_range_slice:
  "subslice (pre @ map f [a..<b] @ ys) (length pre) (length pre + (b - a)) = (Inr (map f [a..<b]) :: ('e, _) result)"
  by (simp add: subslice_def)

lemma set_macs_loop_ok:
  assumes "proper rs" "distinct (elems rs)" "bits_inv (p_data p)" "bits_inv (p_masks p)" "store_inv (ms_macs (p_macs p))"
    "set (elems rs) \<subseteq> bset (p_data p)" "set (elems rs) \<inter> bset (p_masks p) = {}" "set (elems rs) \<inter> set_of (ms_macs (p_macs p)) = {}"
    "set (elems rs) \<subseteq> {0..<length (bits (p_masks p))}" "set (elems rs) \<subseteq> {0..<length (items (ms_macs (p_macs p)))}"
    "length pre = length pre'"
  shows "\<exists>mk st. set_macs_loop (pre @ map fR (elems rs)) (pre' @ map fM (elems rs)) (length pre) rs p =
      Inr (p\<lparr>p_masks := mk, p_macs := (p_macs p)\<lparr>ms_macs := st\<rparr>\<rparr>) \<and>
    bits_inv mk \<and> length (bits mk) = length (bits (p_masks p)) \<and> bits_abs mk = override (bits_abs (p_masks p)) (set (elems rs)) fR \<and>
    store_inv st \<and> length (items st) = length (items (ms_macs (p_macs p))) \<and>
    store_abs st = override (store_abs (ms_macs (p_macs p))) (set (elems rs)) (\<lambda>i. set_pointer (fM i) (bits (p_data p) ! i))"
  using assms
proof (induction rs arbitrary: p pre pre')
  case Nil
  then show ?case by (intro exI [of _ "p_masks p"] exI [of _ "ms_macs (p_macs p)"]) (simp add: override_def)
next
  case (Cons r rs)
  let ?sl = "from_range_unchecked r"
  have r: "fst r < snd r" using Cons.prems(1) by simp
  obtain mk where mk: "bits_try_set (p_masks p) ?sl (map fR [fst r..<snd r]) = Inr mk" "bits_inv mk"
      "length (bits mk) = length (bits (p_masks p))" "bits_abs mk = override (bits_abs (p_masks p)) (rng r) fR"
    using set_bits_range [OF Cons.prems(4) r, of fR] Cons.prems(7,9) by (auto simp: Int_Un_distrib2)
  obtain s1 where s1: "try_set (ms_macs (p_macs p)) ?sl (map fM [fst r..<snd r]) = Inr s1" "store_inv s1"
      "length (items s1) = length (items (ms_macs (p_macs p)))" "store_abs s1 = override (store_abs (ms_macs (p_macs p))) (rng r) fM"
    using set_items_range [OF Cons.prems(5) r, of fM] Cons.prems(8,10) by (auto simp: Int_Un_distrib2)
  note o1 = override_items [OF s1(4)]
  have d: "bits_try_get (p_data p) ?sl = Inr (map ((!) (bits (p_data p))) [fst r..<snd r])"
    using bits_get_range [OF Cons.prems(3) r] Cons.prems(6) by simp
  obtain s2 where s2: "ms_adjust ((p_macs p)\<lparr>ms_macs := s1\<rparr>) ?sl (map ((!) (bits (p_data p))) [fst r..<snd r]) = Inr ((p_macs p)\<lparr>ms_macs := s2\<rparr>)"
      "store_inv s2" "length (items s2) = length (items s1)"
      "store_abs s2 = override (store_abs s1) (rng r) (\<lambda>i. set_pointer (items s1 ! i) (bits (p_data p) ! i))"
    using ms_adjust_range [of "(p_macs p)\<lparr>ms_macs := s1\<rparr>" r "(!) (bits (p_data p))"] s1(2) r o1(1) by auto
  have a2: "store_abs s2 = override (store_abs (ms_macs (p_macs p))) (rng r) (\<lambda>i. set_pointer (fM i) (bits (p_data p) ! i))"
    unfolding s2(4) s1(4) override_override using o1 by (intro override_cong) auto
  let ?p = "p\<lparr>p_masks := mk, p_macs := (p_macs p)\<lparr>ms_macs := s2\<rparr>\<rparr>"
  have dj: "rng r \<inter> set (elems rs) = {}" using Cons.prems(2) by auto
  have "set (elems rs) \<inter> bset mk = {}" "set (elems rs) \<inter> set_of s2 = {}"
    using override_bits(1) [OF mk(4)] override_items(1) [OF a2] dj Cons.prems(7,8) by auto
  then obtain mk' st where IH: "set_macs_loop ((pre @ map fR [fst r..<snd r]) @ map fR (elems rs)) ((pre' @ map fM [fst r..<snd r]) @ map fM (elems rs))
        (length (pre @ map fR [fst r..<snd r])) rs ?p = Inr (?p\<lparr>p_masks := mk', p_macs := (p_macs ?p)\<lparr>ms_macs := st\<rparr>\<rparr>)"
      "bits_inv mk'" "length (bits mk') = length (bits mk)" "bits_abs mk' = override (bits_abs mk) (set (elems rs)) fR"
      "store_inv st" "length (items st) = length (items s2)"
      "store_abs st = override (store_abs s2) (set (elems rs)) (\<lambda>i. set_pointer (fM i) (bits (p_data p) ! i))"
    using Cons.IH [of ?p "pre @ map fR [fst r..<snd r]" "pre' @ map fM [fst r..<snd r]"] Cons.prems mk(2,3) s2(2,3) s1(3) by auto
  have "bits_abs mk' = override (bits_abs (p_masks p)) (set (elems (r # rs))) fR"
    unfolding IH(4) mk(4) override_override by (intro override_cong) auto
  moreover have "store_abs st = override (store_abs (ms_macs (p_macs p))) (set (elems (r # rs))) (\<lambda>i. set_pointer (fM i) (bits (p_data p) ! i))"
    unfolding IH(7) a2 override_override by (intro override_cong) auto
  moreover have "set_macs_loop (pre @ map fR (elems (r # rs))) (pre' @ map fM (elems (r # rs))) (length pre) (r # rs) p =
      Inr (p\<lparr>p_masks := mk', p_macs := (p_macs p)\<lparr>ms_macs := st\<rparr>\<rparr>)"
    using IH(1) mk(1) s1(1) d s2(1) Cons.prems(11)
    by (simp add: map_range_slice map_range_slice [of pre fR "fst r" "snd r" "map fR (elems rs)", unfolded Cons.prems(11)] ms_try_set_def Let_def)
  ultimately show ?case using IH(2,3,5,6) mk(3) s2(3) s1(3) by (intro exI [of _ mk'] exI [of _ st]) simp
qed

lemma fill_keys:
  "fill_loop try_set xs i rs (ks_keys ks) = Inr st \<Longrightarrow> fill_loop ks_try_set xs i rs ks = Inr (ks\<lparr>ks_keys := st\<rparr>)"
proof (induction rs arbitrary: i ks)
  case (Cons r rs)
  then obtain ys s1 where 1: "subslice xs i (i + (snd r - fst r)) = (Inr ys :: (store_error, _) result)"
      "try_set (ks_keys ks) (from_range_unchecked r) ys = Inr s1" "fill_loop try_set xs (i + (snd r - fst r)) rs s1 = Inr st"
    by (auto simp: Let_def result_simps)
  then have "fill_loop ks_try_set xs (i + (snd r - fst r)) rs (ks\<lparr>ks_keys := s1\<rparr>) = Inr (ks\<lparr>ks_keys := st\<rparr>)"
    using Cons.IH [of _ "ks\<lparr>ks_keys := s1\<rparr>"] by simp
  moreover have "subslice xs i (i + (snd r - fst r)) = (Inr ys :: (key_store_error, _) result)"
    using 1(1) by (auto simp: subslice_def split: if_splits)
  moreover have "ks_try_set ks (from_range_unchecked r) ys = Inr (ks\<lparr>ks_keys := s1\<rparr>)"
    using 1(2) by (simp add: ks_try_set_def)
  ultimately show ?case by (simp add: Let_def)
qed simp

lemma adjust_keys:
  assumes "proper rs" "distinct (elems rs)" "store_inv (ks_keys ks)" "set (elems rs) \<subseteq> set_of (ks_keys ks)"
  shows "\<exists>st. fill_loop ks_adjust (pre @ map g (elems rs)) (length pre) rs ks = Inr (ks\<lparr>ks_keys := st\<rparr>) \<and> store_inv st \<and>
    length (items st) = length (items (ks_keys ks)) \<and>
    store_abs st = override (store_abs (ks_keys ks)) (set (elems rs)) (\<lambda>i. key_adjust (items (ks_keys ks) ! i) (g i) (ks_delta ks))"
  using assms
proof (induction rs arbitrary: ks pre)
  case Nil
  then show ?case by (intro exI [of _ "ks_keys ks"]) (simp add: override_def)
next
  case (Cons r rs)
  let ?h = "\<lambda>i. key_adjust (items (ks_keys ks) ! i) (g i) (ks_delta ks)"
  obtain s1 where s1: "ks_adjust ks (from_range_unchecked r) (map g [fst r..<snd r]) = Inr (ks\<lparr>ks_keys := s1\<rparr>)" "store_inv s1"
      "length (items s1) = length (items (ks_keys ks))" "store_abs s1 = override (store_abs (ks_keys ks)) (rng r) ?h"
    using ks_adjust_range [OF Cons.prems(3), of r g] Cons.prems(1,4) by auto
  note o1 = override_items [OF s1(4)]
  have dj: "rng r \<inter> set (elems rs) = {}" using Cons.prems(2) by auto
  have old: "items s1 ! i = items (ks_keys ks) ! i" if "i \<in> set (elems rs)" for i
  proof -
    have "i \<notin> rng r" "i \<in> set_of (ks_keys ks)" using that dj Cons.prems(4) by auto
    then show ?thesis using o1 by auto
  qed
  let ?ks = "ks\<lparr>ks_keys := s1\<rparr>"
  have sub: "set (elems rs) \<subseteq> set_of (ks_keys ?ks)" using o1(1) Cons.prems(4) by auto
  obtain st where IH: "fill_loop ks_adjust ((pre @ map g [fst r..<snd r]) @ map g (elems rs)) (length (pre @ map g [fst r..<snd r])) rs ?ks =
        Inr (?ks\<lparr>ks_keys := st\<rparr>)" "store_inv st" "length (items st) = length (items s1)"
      "store_abs st = override (store_abs s1) (set (elems rs)) (\<lambda>i. key_adjust (items s1 ! i) (g i) (ks_delta ks))"
    using Cons.IH [of ?ks "pre @ map g [fst r..<snd r]"] Cons.prems(1,2) s1(2) sub by auto
  have "store_abs st = override (store_abs (ks_keys ks)) (set (elems (r # rs))) ?h"
    unfolding IH(4) s1(4) override_override
    by (intro override_cong) (auto simp: old)
  moreover have "fill_loop ks_adjust (pre @ map g (elems (r # rs))) (length pre) (r # rs) ks = Inr (ks\<lparr>ks_keys := st\<rparr>)"
    using IH(1) s1(1) by (simp add: map_range_slice Let_def)
  ultimately show ?case using IH(2,3) s1(3) by (intro exI [of _ st]) simp
qed

lemma adjust_loop_ok:
  assumes "proper rs" "bits_inv d" "bits_inv m" "set (elems rs) \<subseteq> bset d" "set (elems rs) \<subseteq> bset m"
  shows "adjust_loop d m rs adj = Inr (adj @ map (\<lambda>i. bits d ! i \<noteq> bits m ! i) (elems rs))"
  using assms
proof (induction rs arbitrary: adj)
  case (Cons r rs)
  have "bits_try_get d (from_range_unchecked r) = Inr (map ((!) (bits d)) [fst r..<snd r])"
    "bits_try_get m (from_range_unchecked r) = Inr (map ((!) (bits m)) [fst r..<snd r])"
    using bits_get_range [OF assms(2), of r] bits_get_range [OF assms(3), of r] Cons.prems by auto
  moreover have "map2 (\<noteq>) (map ((!) (bits d)) [fst r..<snd r]) (map ((!) (bits m)) [fst r..<snd r]) = map (\<lambda>i. bits d ! i \<noteq> bits m ! i) [fst r..<snd r]"
    by (rule nth_equalityI) simp_all
  ultimately show ?case using Cons by (simp add: Let_def)
qed simp

section \<open>Public values\<close>

lemma public_macs:
  assumes "range_iter iter" "bits_inv data" "store_inv (ms_macs ms)" "S \<subseteq> bset data" "S \<inter> set_of (ms_macs ms) = {}" "S \<subseteq> {0..<length (items (ms_macs ms))}"
  shows "\<exists>st. foldR (public_mac_step data) (iter S) ms = Inr (ms\<lparr>ms_macs := st\<rparr>) \<and> store_inv st \<and> length (items st) = length (items (ms_macs ms)) \<and>
    store_abs st = override (store_abs (ms_macs ms)) S (\<lambda>i. MAC_PUBLIC (bits data ! i))"
proof -
  let ?X = "\<lambda>i. MAC_PUBLIC (bits data ! i)"
  note i = range_iterD [OF assms(1) finite_subset [OF assms(6) finite_atLeastLessThan]]
  obtain st where st: "fill_loop try_set (map ?X (elems (iter S))) 0 (iter S) (ms_macs ms) = Inr st" "store_inv st"
      "length (items st) = length (items (ms_macs ms))" "store_abs st = override (store_abs (ms_macs ms)) S ?X"
    using fill_store [OF assms(1,3,5,6), of ?X] by blast
  have "foldR (public_mac_step data) (iter S) ms =
      map_err PsMacStore (fill_loop ms_try_set ([] @ map ?X (elems (iter S))) (length ([] :: mac list)) (iter S) ms)"
  proof (rule foldR_fill)
    fix r ms' assume r: "r \<in> set (iter S)"
    have "fst r < snd r" "rng r \<subseteq> bset data" using elems_sub [OF i(1) _ r] i(3) assms(4) by auto
    then show "public_mac_step data r ms' = map_err PsMacStore (ms_try_set ms' (from_range_unchecked r) (map ?X [fst r..<snd r]))"
      by (simp add: public_mac_step_def bits_get_range [OF assms(2)] ms_try_set_public_def ms_try_set_def mac_public_def comp_def)
  qed
  then show ?thesis using st fill_macs [OF st(1)] by auto
qed

lemma public_keys:
  assumes "range_iter iter" "bits_inv data" "store_inv (ks_keys ks)" "S \<subseteq> bset data" "S \<inter> set_of (ks_keys ks) = {}" "S \<subseteq> {0..<length (items (ks_keys ks))}"
  shows "\<exists>st. foldR (public_key_step data) (iter S) ks = Inr (ks\<lparr>ks_keys := st\<rparr>) \<and> store_inv st \<and> length (items st) = length (items (ks_keys ks)) \<and>
    store_abs st = override (store_abs (ks_keys ks)) S (\<lambda>i. if bits data ! i then public_one ks else MAC_ZERO)"
proof -
  let ?X = "\<lambda>i. if bits data ! i then public_one ks else MAC_ZERO"
  note i = range_iterD [OF assms(1) finite_subset [OF assms(6) finite_atLeastLessThan]]
  obtain st where st: "fill_loop try_set (map ?X (elems (iter S))) 0 (iter S) (ks_keys ks) = Inr st" "store_inv st"
      "length (items st) = length (items (ks_keys ks))" "store_abs st = override (store_abs (ks_keys ks)) S ?X"
    using fill_store [OF assms(1,3,5,6), of ?X] by blast
  have step: "public_key_step data r ks' = map_err VsKeyStore (ks_try_set ks' (from_range_unchecked r) (map ?X [fst r..<snd r]))"
    if "r \<in> set (iter S)" "public_one ks' = public_one ks" for r ks'
  proof -
    have "fst r < snd r" "rng r \<subseteq> bset data" using elems_sub [OF i(1) _ that(1)] i(3) assms(4) by auto
    then show ?thesis using that(2)
      by (simp add: public_key_step_def bits_get_range [OF assms(2)] ks_try_set_public_def ks_try_set_def comp_def cong: if_cong)
  qed
  have "foldR (public_key_step data) rs ks' = map_err VsKeyStore (fill_loop ks_try_set (pre @ map ?X (elems rs)) (length pre) rs ks')"
    if "set rs \<subseteq> set (iter S)" "public_one ks' = public_one ks" for rs ks' pre
    using that
  proof (induction rs arbitrary: ks' pre)
    case (Cons r rs)
    have one: "ks_try_set ks' sl ys = Inr ks1 \<Longrightarrow> public_one ks1 = public_one ks" for sl ys ks1
      using Cons.prems(2) by (auto simp: ks_try_set_def result_simps)
    show ?case
    proof (cases "ks_try_set ks' (from_range_unchecked r) (map ?X [fst r..<snd r])")
      case (Inl e)
      then show ?thesis using step [of r ks'] Cons.prems by (cases e) (simp_all add: map_range_slice Let_def)
    next
      case (Inr ks1)
      then show ?thesis using step [of r ks'] Cons.prems Cons.IH [OF _ one [OF Inr], of "pre @ map ?X [fst r..<snd r]"]
        by (simp add: map_range_slice Let_def)
    qed
  qed simp
  from this [of "iter S" ks "[]"] show ?thesis using st fill_keys [OF st(1)] by auto
qed

end
