(* ===== verification/ZFlush.thy ===== *)
theory ZFlush
  imports ZStore_Correct
begin

text \<open>
  The two memories of the zero-knowledge parties together: what holds between them after any
  operations, and that a flush (storing correlations for the inputs to commit, then rounds of flush
  messages) always succeeds, commits and decodes what it announced, and keeps what holds.
\<close>

section \<open>What holds between the memories\<close>

text \<open>
  \<open>zshapes\<close>: every store covers the \<open>n\<close> allocated addresses.  \<open>zlinked\<close>: data on either side is \<open>X\<close>;
  keys and MACs authenticate it with the value in the pointer bit, except at the addresses \<open>L\<close>, where
  the prover's MAC is already adjusted to the value and the verifier's key still belongs to the mask.
  \<open>zcovered\<close>: where the stores have entries, in terms of the views.
\<close>

definition zshapes :: "nat \<Rightarrow> prover_store \<Rightarrow> verifier_store \<Rightarrow> bool" where
  "zshapes n p v \<longleftrightarrow>
     ms_inv (p_macs p) \<and> bits_inv (p_masks p) \<and> bits_inv (p_data p) \<and> ks_inv (s_keys v) \<and> bits_inv (s_data v) \<and>
     length (items (ms_macs (p_macs p))) = n \<and> length (bits (p_masks p)) = n \<and> length (bits (p_data p)) = n \<and>
     length (items (ks_keys (s_keys v))) = n \<and> length (bits (s_data v)) = n \<and> z_len (p_view p) = n \<and>
     ops_ok n (p_buffer p) \<and> ops_ok n (s_buffer v)"

definition half_ok :: "delta \<Rightarrow> key \<Rightarrow> mac \<Rightarrow> bool \<Rightarrow> bool \<Rightarrow> bool" where
  "half_ok d k m r x \<longleftrightarrow> m = set_pointer (key_auth k r d) x"

definition zlinked :: "nat set \<Rightarrow> prover_store \<Rightarrow> verifier_store \<Rightarrow> (nat \<Rightarrow> bool) \<Rightarrow> bool" where
  "zlinked L p v X \<longleftrightarrow>
     (let d = ks_delta (s_keys v); k = (!) (items (ks_keys (s_keys v))); m = (!) (items (ms_macs (p_macs p)))
      in (\<forall>i \<in> bset (p_data p). bits (p_data p) ! i = X i) \<and> (\<forall>i \<in> bset (s_data v). bits (s_data v) ! i = X i) \<and>
         (\<forall>i \<in> set_of (ks_keys (s_keys v)) \<inter> set_of (ms_macs (p_macs p)) - L. wire_ok d (k i) (m i) (X i)) \<and>
         (\<forall>i \<in> L. half_ok d (k i) (m i) (bits (p_masks p) ! i) (X i)) \<and>
         (\<forall>i \<in> set_of (ms_macs (p_macs p)) \<inter> v_public (z_vis (p_view p)). m i = MAC_PUBLIC (X i)))"

definition zcovered :: "nat set \<Rightarrow> prover_store \<Rightarrow> verifier_store \<Rightarrow> bool" where
  "zcovered L p v \<longleftrightarrow>
     (let pv = p_view p; K = set_of (ks_keys (s_keys v)); M = set_of (ms_macs (p_macs p)); D = bset (p_data p);
          P = v_public (z_vis pv); C = zi_complete (z_input pv) \<union> zo_complete (z_output pv)
      in C \<subseteq> K \<and> C \<subseteq> M \<and> C \<subseteq> D \<and> L \<subseteq> K \<and> L \<subseteq> M \<and> L \<subseteq> bset (p_masks p) \<and>
         K \<subseteq> P \<union> C \<union> L \<and> M \<subseteq> P \<union> C \<union> L \<and> bset (p_masks p) \<subseteq> zi_complete (z_input pv) \<union> L \<and>
         K \<subseteq> D \<and> M \<subseteq> D \<and> bset (s_data v) \<subseteq> D \<and> D \<subseteq> zi_all (z_input pv) \<union> zo_complete (z_output pv) \<and>
         zi_assigned (z_input pv) \<subseteq> D \<and> zi_assigned (z_input pv) \<inter> P \<subseteq> M \<and> zi_assigned (z_input (s_view v)) \<inter> P \<subseteq> K \<and>
         zi_assigned (z_input (s_view v)) \<subseteq> D \<and>
         bset (s_data v) \<subseteq> P \<union> zd_complete (z_decode pv) \<and> zf_commit (z_flush pv) \<subseteq> D \<and>
         zi_assigned (z_input pv) \<inter> v_uninit (z_vis pv) = {} \<and> zi_assigned (z_input (s_view v)) \<inter> v_uninit (z_vis pv) = {} \<and>
         K \<inter> P \<subseteq> bset (s_data v))"

definition zmem :: "nat \<Rightarrow> nat set \<Rightarrow> prover_store \<Rightarrow> verifier_store \<Rightarrow> (nat \<Rightarrow> bool) \<Rightarrow> bool" where
  "zmem n L p v X \<longleftrightarrow> zshapes n p v \<and> zviews_agree (p_view p) (s_view v) \<and> \<not> p_pending p \<and> \<not> s_pending v \<and>
     zlinked L p v X \<and> zcovered L p v"

lemma zcoveredD:
  assumes "zcovered L p v"
  defines "K \<equiv> set_of (ks_keys (s_keys v))" and "M \<equiv> set_of (ms_macs (p_macs p))" and "D \<equiv> bset (p_data p)"
    and "P \<equiv> v_public (z_vis (p_view p))" and "C \<equiv> zi_complete (z_input (p_view p)) \<union> zo_complete (z_output (p_view p))"
  shows "C \<subseteq> K" "C \<subseteq> M" "C \<subseteq> D" "L \<subseteq> K" "L \<subseteq> M" "L \<subseteq> bset (p_masks p)"
    "K \<subseteq> P \<union> C \<union> L" "M \<subseteq> P \<union> C \<union> L" "bset (p_masks p) \<subseteq> zi_complete (z_input (p_view p)) \<union> L"
    "K \<subseteq> D" "M \<subseteq> D" "bset (s_data v) \<subseteq> D" "D \<subseteq> zi_all (z_input (p_view p)) \<union> zo_complete (z_output (p_view p))"
    "zi_assigned (z_input (p_view p)) \<subseteq> D" "zi_assigned (z_input (p_view p)) \<inter> P \<subseteq> M" "zi_assigned (z_input (s_view v)) \<inter> P \<subseteq> K"
    "zi_assigned (z_input (s_view v)) \<subseteq> D"
    "bset (s_data v) \<subseteq> P \<union> zd_complete (z_decode (p_view p))" "zf_commit (z_flush (p_view p)) \<subseteq> D"
    "zi_assigned (z_input (p_view p)) \<inter> v_uninit (z_vis (p_view p)) = {}" "zi_assigned (z_input (s_view v)) \<inter> v_uninit (z_vis (p_view p)) = {}"
    "K \<inter> P \<subseteq> bset (s_data v)"
  using assms(1) unfolding K_def M_def D_def P_def C_def by (simp_all add: zcovered_def Let_def)

lemma zcoveredI:
  fixes p v
  defines "K \<equiv> set_of (ks_keys (s_keys v))" and "M \<equiv> set_of (ms_macs (p_macs p))" and "D \<equiv> bset (p_data p)"
    and "P \<equiv> v_public (z_vis (p_view p))" and "C \<equiv> zi_complete (z_input (p_view p)) \<union> zo_complete (z_output (p_view p))"
  assumes "C \<subseteq> K" "C \<subseteq> M" "C \<subseteq> D" "L \<subseteq> K" "L \<subseteq> M" "L \<subseteq> bset (p_masks p)"
    "K \<subseteq> P \<union> C \<union> L" "M \<subseteq> P \<union> C \<union> L" "bset (p_masks p) \<subseteq> zi_complete (z_input (p_view p)) \<union> L"
    "K \<subseteq> D" "M \<subseteq> D" "bset (s_data v) \<subseteq> D" "D \<subseteq> zi_all (z_input (p_view p)) \<union> zo_complete (z_output (p_view p))"
    "zi_assigned (z_input (p_view p)) \<subseteq> D" "zi_assigned (z_input (p_view p)) \<inter> P \<subseteq> M" "zi_assigned (z_input (s_view v)) \<inter> P \<subseteq> K"
    "zi_assigned (z_input (s_view v)) \<subseteq> D"
    "bset (s_data v) \<subseteq> P \<union> zd_complete (z_decode (p_view p))" "zf_commit (z_flush (p_view p)) \<subseteq> D"
    "zi_assigned (z_input (p_view p)) \<inter> v_uninit (z_vis (p_view p)) = {}" "zi_assigned (z_input (s_view v)) \<inter> v_uninit (z_vis (p_view p)) = {}"
    "K \<inter> P \<subseteq> bset (s_data v)"
  shows "zcovered L p v"
  using assms(6-) unfolding K_def M_def D_def P_def C_def zcovered_def Let_def by (intro conjI)

lemma zshapesD:
  assumes "zshapes n p v"
  shows "store_inv (ms_macs (p_macs p))" "bits_inv (p_masks p)" "bits_inv (p_data p)" "store_inv (ks_keys (s_keys v))" "bits_inv (s_data v)"
    "length (items (ms_macs (p_macs p))) = n" "length (bits (p_masks p)) = n" "length (bits (p_data p)) = n"
    "length (items (ks_keys (s_keys v))) = n" "length (bits (s_data v)) = n" "z_len (p_view p) = n" "ops_ok n (p_buffer p)" "ops_ok n (s_buffer v)"
    "ks_inv (s_keys v)" "lsb (ks_delta (s_keys v))" "bset (p_data p) \<subseteq> {0..<n}" "bset (s_data v) \<subseteq> {0..<n}"
  using assms by (auto simp: zshapes_def ms_inv_def ks_inv_def bits_inv_def)

lemma zlinkedD:
  assumes "zlinked L p v X"
  shows "i \<in> bset (p_data p) \<Longrightarrow> bits (p_data p) ! i = X i" "i \<in> bset (s_data v) \<Longrightarrow> bits (s_data v) ! i = X i"
    "i \<in> set_of (ks_keys (s_keys v)) \<Longrightarrow> i \<in> set_of (ms_macs (p_macs p)) \<Longrightarrow> i \<notin> L \<Longrightarrow>
       wire_ok (ks_delta (s_keys v)) (items (ks_keys (s_keys v)) ! i) (items (ms_macs (p_macs p)) ! i) (X i)"
    "i \<in> L \<Longrightarrow> half_ok (ks_delta (s_keys v)) (items (ks_keys (s_keys v)) ! i) (items (ms_macs (p_macs p)) ! i) (bits (p_masks p) ! i) (X i)"
    "i \<in> set_of (ms_macs (p_macs p)) \<Longrightarrow> i \<in> v_public (z_vis (p_view p)) \<Longrightarrow> items (ms_macs (p_macs p)) ! i = MAC_PUBLIC (X i)"
  using assms by (auto simp: zlinked_def Let_def)

section \<open>Storing the correlations\<close>

lemma list_as_map:
  assumes "distinct es" "length xs = length es"
  obtains f where "xs = map f es"
proof
  show "xs = map (\<lambda>i. the (map_of (zip es xs) i)) es"
    by (rule nth_equalityI) (use assms in \<open>simp_all add: map_of_zip_nth\<close>)
qed

text \<open>The addresses to commit have no key, MAC or mask yet.\<close>

lemma commit_fresh:
  assumes "zmem n {} p v X"
  shows "zf_commit (z_flush (p_view p)) \<inter> set_of (ks_keys (s_keys v)) = {}" "zf_commit (z_flush (p_view p)) \<inter> set_of (ms_macs (p_macs p)) = {}"
    "zf_commit (z_flush (p_view p)) \<inter> bset (p_masks p) = {}" "zf_commit (z_flush (p_view p)) \<subseteq> {0..<n}"
    "zf_commit (z_flush (p_view p)) \<inter> v_public (z_vis (p_view p)) = {}"
proof -
  have a: "zviews_agree (p_view p) (s_view v)" and c: "zcovered {} p v" and s: "zshapes n p v" using assms by (simp_all add: zmem_def)
  note z = zview_invD [OF zagreeD(3) [OF a]] and c = zcoveredD [OF c]
  show 1: "zf_commit (z_flush (p_view p)) \<inter> v_public (z_vis (p_view p)) = {}" using zsecret_vis [OF z(1), of "zrole (p_view p)"] z(9) by blast
  moreover have "zf_commit (z_flush (p_view p)) \<inter> zo_complete (z_output (p_view p)) = {}" using z(4,6,8) by blast
  ultimately have "zf_commit (z_flush (p_view p)) \<inter> (v_public (z_vis (p_view p)) \<union> (zi_complete (z_input (p_view p)) \<union> zo_complete (z_output (p_view p)))) = {}"
    using z(10) by blast
  then show "zf_commit (z_flush (p_view p)) \<inter> set_of (ks_keys (s_keys v)) = {}" "zf_commit (z_flush (p_view p)) \<inter> set_of (ms_macs (p_macs p)) = {}"
    "zf_commit (z_flush (p_view p)) \<inter> bset (p_masks p) = {}"
    using c(7-9) by blast+
  show "zf_commit (z_flush (p_view p)) \<subseteq> {0..<n}" using z(3,8) zshapesD(11) [OF s] by blast
qed

lemma load_ok:
  assumes it: "range_iter iter" and Z: "zmem n {} p v X"
    and c: "correlated (ks_delta (s_keys v)) keys masks macs" "length keys = card (zf_commit (z_flush (p_view p)))"
  shows "\<exists>p1 v1. ps_set_macs iter p masks macs = Inr p1 \<and> vs_set_keys iter v keys = Inr v1 \<and>
    zmem n (zf_commit (z_flush (p_view p))) p1 v1 X \<and> p_view p1 = p_view p \<and> s_view v1 = s_view v \<and>
    ks_delta (s_keys v1) = ks_delta (s_keys v) \<and> s_data v1 = s_data v \<and> p_data p1 = p_data p"
proof -
  let ?c = "zf_commit (z_flush (p_view p))" and ?d = "ks_delta (s_keys v)"
  note f = commit_fresh [OF Z]
  have Z': "zshapes n p v" "zviews_agree (p_view p) (s_view v)" "zlinked {} p v X" "zcovered {} p v" "\<not> p_pending p" "\<not> s_pending v"
    using Z by (simp_all add: zmem_def)
  note s = zshapesD [OF Z'(1)] and l = zlinkedD [OF Z'(3)] and cv = zcoveredD [OF Z'(4)]
  have fl: "zf_commit (z_flush (s_view v)) = ?c" using zagreeD(10) [OF Z'(2)] by simp
  note i = range_iterD [OF it finite_subset [OF f(4) finite_atLeastLessThan]]
  let ?es = "elems (iter ?c)"
  have len: "length masks = length ?es" "length keys = length ?es" "length macs = length ?es"
    using c correlated_length [OF c(1)] i(4) by simp_all
  obtain fR where R: "masks = map fR ?es" using list_as_map [OF i(2) len(1)] by blast
  obtain fK where K: "keys = map fK ?es" using list_as_map [OF i(2) len(2)] by blast
  let ?M = "\<lambda>i. key_auth (fK i) (fR i) ?d"
  have M: "macs = map ?M ?es"
    using c(1) unfolding correlated_def R K by (auto simp: zip_map_map map_zip_map2 zip_map1 zip_same_conv_map comp_def intro: nth_equalityI)
  obtain mk st where m: "set_macs_loop ([] @ map fR ?es) ([] @ map ?M ?es) (length ([] :: bool list)) (iter ?c) p =
        Inr (p\<lparr>p_masks := mk, p_macs := (p_macs p)\<lparr>ms_macs := st\<rparr>\<rparr>)"
      "bits_inv mk" "length (bits mk) = length (bits (p_masks p))" "bits_abs mk = override (bits_abs (p_masks p)) (set ?es) fR"
      "store_inv st" "length (items st) = length (items (ms_macs (p_macs p)))"
      "store_abs st = override (store_abs (ms_macs (p_macs p))) (set ?es) (\<lambda>i. set_pointer (?M i) (bits (p_data p) ! i))"
    using set_macs_loop_ok [OF i(1,2) s(3,2,1), of "[]" "[]" fR ?M] cv(19) f s(6,7) i(3) by auto
  obtain kt where k: "fill_loop try_set keys 0 (iter ?c) (ks_keys (s_keys v)) = Inr kt" "store_inv kt"
      "length (items kt) = n" "store_abs kt = override (store_abs (ks_keys (s_keys v))) ?c fK"
    using fill_store [OF it s(4) f(1), of fK] f(4) s(9) unfolding K by auto
  let ?p = "p\<lparr>p_masks := mk, p_macs := (p_macs p)\<lparr>ms_macs := st\<rparr>\<rparr>" and ?v = "v\<lparr>s_keys := (s_keys v)\<lparr>ks_keys := kt\<rparr>\<rparr>"
  have A: "ps_set_macs iter p masks macs = Inr ?p" using m(1) len i(4) unfolding R M by (simp add: ps_set_macs_def Let_def)
  have B: "vs_set_keys iter v keys = Inr ?v" using fill_keys [OF k(1)] c(2) fl by (simp add: vs_set_keys_def vs_key_count_def)
  note om = override_items [OF m(7)] and omk = override_bits [OF m(4)] and ok = override_items [OF k(4)]
  have sets: "set_of st = set_of (ms_macs (p_macs p)) \<union> ?c" "bset mk = bset (p_masks p) \<union> ?c" "set_of kt = set_of (ks_keys (s_keys v)) \<union> ?c"
    using om(1) omk(1) ok(1) i(3) by simp_all
  have zeq: "p_view ?p = p_view p" "s_view ?v = s_view v" "set_of (ks_keys (s_keys ?v)) = set_of (ks_keys (s_keys v)) \<union> ?c"
    "set_of (ms_macs (p_macs ?p)) = set_of (ms_macs (p_macs p)) \<union> ?c" "bset (p_masks ?p) = bset (p_masks p) \<union> ?c"
    "p_data ?p = p_data p" "s_data ?v = s_data v" using sets by simp_all
  have used: "used (s_keys v) \<subseteq> set_of kt" using s(14) sets(3) by (auto simp: ks_inv_def)
  have "zshapes n ?p ?v" using Z'(1) m(2,3,5,6) k(2,3) used by (simp add: zshapes_def ms_inv_def ks_inv_def)
  moreover have "zlinked ?c ?p ?v X"
  proof -
    have "half_ok ?d (items kt ! i) (items st ! i) (bits mk ! i) (X i)" if "i \<in> ?c" for i
      using that om(2) [of i] omk(2) [of i] ok(2) [of i] sets i(3) l(1) [of i] cv(19) by (auto simp: half_ok_def)
    moreover have "wire_ok ?d (items kt ! i) (items st ! i) (X i)" if "i \<in> set_of kt \<inter> set_of st - ?c" for i
      using that om(2) [of i] ok(2) [of i] sets i(3) l(3) [of i] by auto
    moreover have "items st ! i = MAC_PUBLIC (X i)" if "i \<in> set_of st \<inter> v_public (z_vis (p_view p))" for i
      using that om(2) [of i] sets(1) i(3) f(5) l(5) [of i] by auto
    ultimately show ?thesis using l(1,2) by (simp add: zlinked_def Let_def)
  qed
  moreover have "zcovered ?c ?p ?v"
  proof (rule zcoveredI, simp_all only: zeq)
    let ?K = "set_of (ks_keys (s_keys v))" and ?M = "set_of (ms_macs (p_macs p))" and ?P = "v_public (z_vis (p_view p))"
    let ?C = "zi_complete (z_input (p_view p)) \<union> zo_complete (z_output (p_view p))"
    show "?C \<subseteq> ?K \<union> ?c" "?C \<subseteq> ?M \<union> ?c" using cv(1,2) by blast+
    show "?K \<union> ?c \<subseteq> ?P \<union> ?C \<union> ?c" "?M \<union> ?c \<subseteq> ?P \<union> ?C \<union> ?c" using cv(7,8) by blast+
    show "bset (p_masks p) \<union> ?c \<subseteq> zi_complete (z_input (p_view p)) \<union> ?c" using cv(9) by blast
    show "?K \<union> ?c \<subseteq> bset (p_data p)" "?M \<union> ?c \<subseteq> bset (p_data p)" using cv(10,11,19) by blast+
    show "zi_assigned (z_input (p_view p)) \<inter> ?P \<subseteq> ?M \<union> ?c" "zi_assigned (z_input (s_view v)) \<inter> ?P \<subseteq> ?K \<union> ?c" using cv(15,16) by blast+
    show "(?K \<union> ?c) \<inter> ?P \<subseteq> bset (s_data v)" using cv(22) f(5) by blast
  qed (use cv(3,12-14,17-21) in simp_all)
  ultimately have "zmem n ?c ?p ?v X" using Z' by (simp add: zmem_def)
  with A B show ?thesis by (intro exI [of _ ?p] exI [of _ ?v]) simp
qed

section \<open>A round\<close>

text \<open>What the prover sends: the data to commit under the masks, and the MACs to prove.\<close>

definition zflush_message :: "(nat set \<Rightarrow> (nat \<times> nat) list) \<Rightarrow> prover_store \<Rightarrow> (nat \<Rightarrow> bool) \<Rightarrow> mac_proof option \<Rightarrow> prover_flush" where
  "zflush_message iter p X pf =
     (let f = z_flush (p_view p)
      in \<lparr>pf_view = f, pf_adjust = map (\<lambda>i. X i \<noteq> bits (p_masks p) ! i) (elems (iter (zf_commit f))), pf_mac_proof = pf\<rparr>)"

definition zcommit_proof :: "(nat set \<Rightarrow> (nat \<times> nat) list) \<Rightarrow> hasher \<Rightarrow> key_store \<Rightarrow> nat set \<Rightarrow> (nat \<Rightarrow> bool) \<Rightarrow> mac_proof option \<Rightarrow> bool" where
  "zcommit_proof iter hash ks S X pf \<longleftrightarrow>
     (case pf of None \<Rightarrow> S = {}
      | Some (bts, h) \<Rightarrow> S \<noteq> {} \<and> length bts = card S \<and> verify hash ks (iter S) bts h = Inr (map X (elems (iter S))))"

lemma zmemD:
  assumes "zmem n L p v X"
  shows "zshapes n p v" "zviews_agree (p_view p) (s_view v)" "zlinked L p v X" "zcovered L p v" "\<not> p_pending p" "\<not> s_pending v"
  using assms by (simp_all add: zmem_def)

lemma prove_ready:
  assumes "zmem n L p v X" "L \<subseteq> zf_commit (z_flush (p_view p))"
  defines "S \<equiv> zf_prove (z_flush (p_view p))"
  shows "S \<subseteq> set_of (ks_keys (s_keys v))" "S \<subseteq> set_of (ms_macs (p_macs p))" "S \<inter> zf_commit (z_flush (p_view p)) = {}"
    "S \<inter> bset (s_data v) = {}" "S \<subseteq> {0..<n}" "S \<inter> L = {}"
proof -
  note m = zmemD [OF assms(1)]
  note z = zview_invD [OF zagreeD(3) [OF m(2)]] and c = zcoveredD [OF m(4)]
  show "S \<subseteq> set_of (ks_keys (s_keys v))" "S \<subseteq> set_of (ms_macs (p_macs p))" using z(11) c(1,2) unfolding S_def by blast+
  have "zo_complete (z_output (p_view p)) \<inter> zf_commit (z_flush (p_view p)) = {}" using z(4,6,8) by blast
  then show 1: "S \<inter> zf_commit (z_flush (p_view p)) = {}" using z(11,10) unfolding S_def by blast
  then show "S \<inter> L = {}" using assms(2) by blast
  have "zo_complete (z_output (p_view p)) \<inter> v_public (z_vis (p_view p)) = {}" using z(1,6,15) by (auto simp: vis_inv_def)
  then have "S \<inter> v_public (z_vis (p_view p)) = {}" using z(11) unfolding S_def by blast
  then show "S \<inter> bset (s_data v) = {}" using z(13) c(18) unfolding S_def by blast
  show "S \<subseteq> {0..<n}" using z(3,5,6,11) zshapesD(11) [OF m(1)] unfolding S_def by blast
qed

lemma prove_ok:
  assumes it: "range_iter iter" and Z: "zmem n L p v X" "L \<subseteq> zf_commit (z_flush (p_view p))"
    and ks: "ks_inv ks" "ks_delta ks = ks_delta (s_keys v)" "set_of (ks_keys ks) = set_of (ks_keys (s_keys v))"
      "\<And>i. i \<in> zf_prove (z_flush (p_view p)) \<Longrightarrow> items (ks_keys ks) ! i = items (ks_keys (s_keys v)) ! i"
  shows "\<exists>pf. (if zf_prove (z_flush (p_view p)) \<noteq> {} then
         bindR (map_err PsMacStore (prove_macs hash (p_macs p) (iter (zf_prove (z_flush (p_view p)))))) (\<lambda>pf. Inr (Some pf)) else Inr None) = Inr pf \<and>
      zcommit_proof iter hash ks (zf_prove (z_flush (p_view p))) X pf"
proof -
  let ?S = "zf_prove (z_flush (p_view p))"
  note r = prove_ready [OF Z] and m = zmemD [OF Z(1)]
  note s = zshapesD [OF m(1)] and l = zlinkedD [OF m(3)]
  note i = range_iterD [OF it finite_subset [OF r(5) finite_atLeastLessThan]]
  have "corr ks (p_macs p) X (set (elems (iter ?S)))" unfolding i(3) corr_def
  proof (intro conjI ballI)
    show "?S \<subseteq> set_of (ks_keys ks)" "?S \<subseteq> set_of (ms_macs (p_macs p))" using r(1,2) ks(3) by simp_all
    fix j assume j: "j \<in> ?S"
    then have "j \<in> set_of (ks_keys (s_keys v))" "j \<in> set_of (ms_macs (p_macs p))" "j \<notin> L" using r(1,2,6) by blast+
    then show "mac_ok (ks_delta ks) (items (ks_keys ks) ! j) (items (ms_macs (p_macs p)) ! j) (X j)"
      using l(3) [of j] ks(2) ks(4) [OF j] by (simp add: wire_ok_def)
  qed
  moreover have "ms_inv (p_macs p)" using s(1) by (simp add: ms_inv_def)
  ultimately obtain bts h where p: "prove_macs hash (p_macs p) (iter ?S) = Inr (bts, h)" "verify hash ks (iter ?S) bts h = Inr (map X (elems (iter ?S)))"
    using prove_verify [OF ks(1) _ i(1)] by blast
  then have "length bts = card ?S" by (auto simp: verify_def ranges_len_elems result_simps i(4))
  with p show ?thesis by (intro exI [of _ "if ?S = {} then None else Some (bts, h)"]) (simp add: zcommit_proof_def)
qed

lemma half_ok_adjust:
  assumes "lsb d" "half_ok d k m r x"
  shows "wire_ok d (key_adjust k (x \<noteq> r) d) m x"
proof -
  have "(x \<noteq> r) = (r \<noteq> x)" by blast
  then show ?thesis
    using adjust_mac_ok [OF assms(1) mac_ok_auth, of k r x] assms(2) by (simp add: half_ok_def wire_ok_def key_pointer_def)
qed

lemma ps_flush_decode_ok:
  assumes "ops_ok n (p_buffer p)" "length (bits (p_data p)) = n"
  shows "\<exists>buf w. ps_flush_decode p = Inr (p\<lparr>p_buffer := buf, p_sent := w\<rparr>) \<and> ops_ok n buf"
  using flush_ops_ok [of "p_data p" "p_buffer p" "p_sent p"] assms
  by (auto simp: ps_flush_decode_def ops_ok_def)

lemma vs_flush_decode_ok:
  assumes "ops_ok n (s_buffer s)" "length (bits (s_data s)) = n"
  shows "\<exists>buf w. vs_flush_decode s = Inr (s\<lparr>s_buffer := buf, s_sent := w\<rparr>) \<and> ops_ok n buf"
  using flush_ops_ok [of "s_data s" "s_buffer s" "s_sent s"] assms
  by (auto simp: vs_flush_decode_def ops_ok_def)

text \<open>The keys after the adjustment.\<close>

lemma keys_adjusted:
  assumes it: "range_iter iter" and Z: "zmem n (zf_commit (z_flush (p_view p))) p v X"
  defines "c \<equiv> zf_commit (z_flush (p_view p))"
  obtains st where "fill_loop ks_adjust (map (\<lambda>i. X i \<noteq> bits (p_masks p) ! i) (elems (iter c))) 0 (iter c) (s_keys v) = Inr ((s_keys v)\<lparr>ks_keys := st\<rparr>)"
    "store_inv st" "length (items st) = n" "set_of st = set_of (ks_keys (s_keys v))"
    "\<forall>i \<in> set_of st. items st ! i = (if i \<in> c then key_adjust (items (ks_keys (s_keys v)) ! i) (X i \<noteq> bits (p_masks p) ! i) (ks_delta (s_keys v))
       else items (ks_keys (s_keys v)) ! i)"
proof -
  note m = zmemD [OF Z]
  note s = zshapesD [OF m(1)] and cv = zcoveredD [OF m(4)]
  have k: "c \<subseteq> set_of (ks_keys (s_keys v))" using cv(4) by (simp add: c_def)
  have "c \<subseteq> {0..<n}" using zview_invD(3,8) [OF zagreeD(3) [OF m(2)]] s(11) unfolding c_def by blast
  note i = range_iterD [OF it finite_subset [OF this finite_atLeastLessThan]]
  let ?g = "\<lambda>i. X i \<noteq> bits (p_masks p) ! i"
  obtain st where st: "fill_loop ks_adjust ([] @ map ?g (elems (iter c))) (length ([] :: bool list)) (iter c) (s_keys v) = Inr ((s_keys v)\<lparr>ks_keys := st\<rparr>)"
      "store_inv st" "length (items st) = length (items (ks_keys (s_keys v)))"
      "store_abs st = override (store_abs (ks_keys (s_keys v))) (set (elems (iter c))) (\<lambda>i. key_adjust (items (ks_keys (s_keys v)) ! i) (?g i) (ks_delta (s_keys v)))"
    using adjust_keys [OF i(1,2) s(4), of "[]" ?g] k i(3) by auto
  note o = override_items [OF st(4), unfolded i(3)]
  have "set_of st = set_of (ks_keys (s_keys v))" using o(1) k by blast
  with st(1-3) o(2) s(9) show thesis by (intro that [of st]) simp_all
qed

lemma zround:
  assumes it: "range_iter iter" and Z: "zmem n (zf_commit (z_flush (p_view p))) p v X"
  shows "\<exists>pf p1 p' v1 v' tr'.
    ps_send_flush iter hash ops p tr = Inr (zflush_message iter p X pf, p1, tr') \<and> ps_complete_flush p1 = Inr p' \<and>
    prover_flush_try_from (z_flush (p_view p), pf_adjust (zflush_message iter p X pf), pf) = Inr (zflush_message iter p X pf) \<and>
    vs_mark_flush_pending v = Inr v1 \<and> vs_receive_flush iter hash ops v1 (zflush_message iter p X pf) tr = Inr (v', tr') \<and>
    zmem n {} p' v' X \<and> p_view p' = zcomplete_flush (p_view p) (z_flush (p_view p)) \<and>
    bset (s_data v') = bset (s_data v) \<union> zf_prove (z_flush (p_view p)) \<and>
    p_data p' = p_data p \<and> p_macs p' = p_macs p \<and> ks_delta (s_keys v') = ks_delta (s_keys v)"
proof -
  let ?f = "z_flush (p_view p)" let ?c = "zf_commit ?f" and ?S = "zf_prove ?f" and ?d = "ks_delta (s_keys v)"
  note m = zmemD [OF Z]
  note s = zshapesD [OF m(1)] and l = zlinkedD [OF m(3)] and cv = zcoveredD [OF m(4)] and a = zagreeD [OF m(2)]
  note z = zview_invD [OF a(3)] and r = prove_ready [OF Z order_refl]
  have cn: "?c \<subseteq> {0..<n}" using z(3,8) s(11) by blast
  note i = range_iterD [OF it finite_subset [OF cn finite_atLeastLessThan]]
  note j = range_iterD [OF it finite_subset [OF r(5) finite_atLeastLessThan]]
  let ?adj = "map (\<lambda>i. X i \<noteq> bits (p_masks p) ! i) (elems (iter ?c))"
  obtain st where st: "fill_loop ks_adjust ?adj 0 (iter ?c) (s_keys v) = Inr ((s_keys v)\<lparr>ks_keys := st\<rparr>)"
      "store_inv st" "length (items st) = n" "set_of st = set_of (ks_keys (s_keys v))"
      "\<forall>i \<in> set_of st. items st ! i = (if i \<in> ?c then key_adjust (items (ks_keys (s_keys v)) ! i) (X i \<noteq> bits (p_masks p) ! i) ?d
         else items (ks_keys (s_keys v)) ! i)"
    by (rule keys_adjusted [OF it Z])
  let ?ks = "(s_keys v)\<lparr>ks_keys := st\<rparr>"
  have ki: "ks_inv ?ks" using s(14) st(2,4) by (simp add: ks_inv_def)
  have same: "items st ! i = items (ks_keys (s_keys v)) ! i" if "i \<in> ?S" for i
  proof -
    have "i \<in> set_of st" "i \<notin> ?c" using that r(1,3) st(4) by blast+
    then show ?thesis using st(5) by simp
  qed
  obtain pf where pf: "(if ?S \<noteq> {} then bindR (map_err PsMacStore (prove_macs hash (p_macs p) (iter ?S))) (\<lambda>pf. Inr (Some pf)) else Inr None) = (Inr pf :: (prover_store_error, _) result)"
      "zcommit_proof iter hash ?ks ?S X pf"
  proof -
    have eqs: "ks_delta ?ks = ?d" "set_of (ks_keys ?ks) = set_of (ks_keys (s_keys v))"
      "\<And>i. i \<in> ?S \<Longrightarrow> items (ks_keys ?ks) ! i = items (ks_keys (s_keys v)) ! i" using st(4) same by simp_all
    show thesis using prove_ok [OF it Z order_refl ki eqs, of hash] that by blast
  qed
  let ?m = "zflush_message iter p X pf" and ?tr = "tr_update ops tr (tr_bits ops ?adj)"
  have A: "adjust_loop (p_data p) (p_masks p) (iter ?c) [] = Inr ?adj"
  proof -
    have "map (\<lambda>i. bits (p_data p) ! i \<noteq> bits (p_masks p) ! i) (elems (iter ?c)) = ?adj" using l(1) cv(19) i(3) by auto
    then show ?thesis using adjust_loop_ok [OF i(1) s(3,2), of "[]"] cv(6,19) i(3) by simp
  qed
  have B: "ps_send_flush iter hash ops p tr = Inr (?m, p\<lparr>p_pending := True\<rparr>, ?tr)"
    using m(5) pf(1) by (simp add: ps_send_flush_def A zflush_message_def Let_def cong: if_cong)
  let ?p = "p\<lparr>p_pending := True, p_view := zcomplete_flush (p_view p) ?f\<rparr>"
  obtain bp wp where C: "ps_flush_decode ?p = Inr (?p\<lparr>p_buffer := bp, p_sent := wp\<rparr>)" "ops_ok n bp"
    using ps_flush_decode_ok [of n ?p] s(8,12) by auto
  let ?p' = "?p\<lparr>p_buffer := bp, p_sent := wp, p_pending := False\<rparr>"
  have D: "ps_complete_flush (p\<lparr>p_pending := True\<rparr>) = Inr ?p'" using C(1) by (simp add: ps_complete_flush_def Let_def)
  have E: "prover_flush_try_from (?f, pf_adjust ?m, pf) = Inr ?m"
    using pf(2) i(4) by (auto simp: prover_flush_try_from_def zflush_message_def zcommit_proof_def Let_def split: option.splits)
  obtain sd where sd: "fill_loop bits_try_set (map X (elems (iter ?S))) 0 (iter ?S) (s_data v) = Inr sd" "bits_inv sd"
      "length (bits sd) = n" "bits_abs sd = override (bits_abs (s_data v)) ?S X"
    using fill_bits [OF it s(5), of ?S X] r(4,5) s(10) by auto
  define dt where "dt = (if pf = None then s_data v else sd)"
  have S0: "pf = None \<Longrightarrow> ?S = {}" using pf(2) by (simp add: zcommit_proof_def)
  have dt: "bits_inv dt" "length (bits dt) = n" "bits_abs dt = override (bits_abs (s_data v)) ?S X"
    using sd(2-4) s(5,10) S0 by (auto simp: dt_def override_def)
  note od = override_bits [OF dt(3)]
  let ?v1 = "v\<lparr>s_pending := True\<rparr>"
  let ?v = "?v1\<lparr>s_keys := ?ks, s_data := dt, s_view := zcomplete_flush (s_view v) ?f\<rparr>"
  obtain bv wv where F: "vs_flush_decode ?v = Inr (?v\<lparr>s_buffer := bv, s_sent := wv\<rparr>)" "ops_ok n bv"
    using vs_flush_decode_ok [of n ?v] dt(2) s(13) by auto
  let ?v' = "?v\<lparr>s_buffer := bv, s_sent := wv, s_pending := False\<rparr>"
  have G: "vs_receive_flush iter hash ops ?v1 ?m tr = Inr (?v', ?tr)"
    using st(1) pf(2) F(1) sd(1) a(10)
    by (auto simp: vs_receive_flush_def zflush_message_def zcommit_proof_def dt_def Let_def split: option.splits)
  have "zmem n {} ?p' ?v' X" unfolding zmem_def
  proof (intro conjI)
    show "zshapes n ?p' ?v'" using m(1) st(2,3) ki dt(1,2) C(2) F(2) by (simp add: zshapes_def zcomplete_eq)
    show "zviews_agree (p_view ?p') (s_view ?v')" using zagree_flush [OF m(2)] a(10) by simp
    show "zlinked {} ?p' ?v' X" unfolding zlinked_def Let_def
    proof (intro conjI ballI)
      fix i assume i: "i \<in> set_of (ks_keys (s_keys ?v')) \<inter> set_of (ms_macs (p_macs ?p')) - {}"
      show "wire_ok (ks_delta (s_keys ?v')) (items (ks_keys (s_keys ?v')) ! i) (items (ms_macs (p_macs ?p')) ! i) (X i)"
        using i st(4) bspec [OF st(5), of i] l(3) [of i] half_ok_adjust [OF s(15) l(4)] by (cases "i \<in> ?c") simp_all
    next
      fix i assume "i \<in> set_of (ms_macs (p_macs ?p')) \<inter> v_public (z_vis (p_view ?p'))"
      then show "items (ms_macs (p_macs ?p')) ! i = MAC_PUBLIC (X i)" using l(5) [of i] by (simp add: zcomplete_eq)
    qed (use l(1,2) od in auto)
    have zc: "zi_all (z_input (p_view ?p')) = zi_all (z_input (p_view p))" "zo_complete (z_output (p_view ?p')) = zo_complete (z_output (p_view p))"
      "zi_complete (z_input (p_view ?p')) = zi_complete (z_input (p_view p)) \<union> ?c" "v_public (z_vis (p_view ?p')) = v_public (z_vis (p_view p))" "v_uninit (z_vis (p_view ?p')) = v_uninit (z_vis (p_view p))"
      "zi_assigned (z_input (p_view ?p')) = zi_assigned (z_input (p_view p))" "zi_assigned (z_input (s_view ?v')) = zi_assigned (z_input (s_view v))"
      "zd_complete (z_decode (p_view ?p')) = zd_complete (z_decode (p_view p)) \<union> ?S" "zf_commit (z_flush (p_view ?p')) = {}"
      "set_of (ks_keys (s_keys ?v')) = set_of (ks_keys (s_keys v))" "p_macs ?p' = p_macs p" "p_masks ?p' = p_masks p" "p_data ?p' = p_data p"
      "bset (s_data ?v') = bset (s_data v) \<union> ?S"
      using st(4) od(1) by (simp_all add: zcomplete_eq)
    show "zcovered {} ?p' ?v'" unfolding zcovered_def Let_def zc
    proof (intro conjI)
      show "bset (s_data v) \<union> ?S \<subseteq> bset (p_data p)" using cv(12,10) r(1) by blast
      show "bset (s_data v) \<union> ?S \<subseteq> v_public (z_vis (p_view p)) \<union> (zd_complete (z_decode (p_view p)) \<union> ?S)" using cv(18) by blast
      let ?C = "zi_complete (z_input (p_view p)) \<union> ?c \<union> zo_complete (z_output (p_view p))"
      show "?C \<subseteq> set_of (ks_keys (s_keys v))" using cv(1,4) by blast
      show "?C \<subseteq> set_of (ms_macs (p_macs p))" using cv(2,5) by blast
      show "?C \<subseteq> bset (p_data p)" using cv(3,19) by blast
      show "set_of (ks_keys (s_keys v)) \<subseteq> v_public (z_vis (p_view p)) \<union> ?C \<union> {}" using cv(7) by blast
      show "set_of (ms_macs (p_macs p)) \<subseteq> v_public (z_vis (p_view p)) \<union> ?C \<union> {}" using cv(8) by blast
      show "bset (p_masks p) \<subseteq> zi_complete (z_input (p_view p)) \<union> ?c \<union> {}" using cv(9) by blast
    show "set_of (ks_keys (s_keys v)) \<inter> v_public (z_vis (p_view p)) \<subseteq> bset (s_data v) \<union> ?S" using cv(22) by blast
    qed (use cv(10,11,13-17,20,21) in simp_all)
  qed simp_all
  with B D E G od(1) m(6) show ?thesis
    by (intro exI [of _ pf] exI [of _ "p\<lparr>p_pending := True\<rparr>"] exI [of _ ?p'] exI [of _ ?v1] exI [of _ ?v'] exI [of _ ?tr])
      (simp add: vs_mark_flush_pending_def)
qed

end
