(* ===== verification/ZOps.thy ===== *)
theory ZOps
  imports ZFlush
begin

text \<open>
  Sequences of operations on the two zero-knowledge memories.  The parties perform the same
  allocations, markings, commitments and decodings; inputs are assigned by the prover and, where
  they are public, by the verifier; the MACs and keys of outputs come from the execution.
\<close>

section \<open>Operations of both parties\<close>

datatype zstore_op =
    SAlloc nat | SAllocOutput nat | SMarkPublic slice | SMarkPrivate slice
  | SAssignProver slice "bool list" | SAssignVerifier slice "bool list"
  | SCommit slice | SDecode slice | SSetOutput slice "key list" "mac list"

fun prover_store_op ::
  "(nat set \<Rightarrow> (nat \<times> nat) list) \<Rightarrow> zstore_op \<Rightarrow> prover_store \<Rightarrow> (prover_store_error, prover_store) result" where
  "prover_store_op iter (SAlloc k) p = Inr (snd (ps_alloc p k))"
| "prover_store_op iter (SAllocOutput k) p = Inr (snd (ps_alloc_output p k))"
| "prover_store_op iter (SMarkPublic sl) p = ps_mark_public p sl"
| "prover_store_op iter (SMarkPrivate sl) p = ps_mark_private p sl"
| "prover_store_op iter (SAssignProver sl data) p = ps_assign iter p sl data"
| "prover_store_op iter (SAssignVerifier sl data) p = Inr p"
| "prover_store_op iter (SCommit sl) p = ps_commit p sl"
| "prover_store_op iter (SDecode sl) p = bindR (ps_decode p sl) (\<lambda>(c, p). Inr p)"
| "prover_store_op iter (SSetOutput sl keys macs) p = ps_set_output_macs p sl macs"

fun verifier_store_op ::
  "(nat set \<Rightarrow> (nat \<times> nat) list) \<Rightarrow> zstore_op \<Rightarrow> verifier_store \<Rightarrow> (verifier_store_error, verifier_store) result" where
  "verifier_store_op iter (SAlloc k) v = Inr (snd (vs_alloc v k))"
| "verifier_store_op iter (SAllocOutput k) v = Inr (snd (vs_alloc_output v k))"
| "verifier_store_op iter (SMarkPublic sl) v = vs_mark_public v sl"
| "verifier_store_op iter (SMarkPrivate sl) v = vs_mark_blind v sl"
| "verifier_store_op iter (SAssignProver sl data) v = Inr v"
| "verifier_store_op iter (SAssignVerifier sl data) v = vs_assign iter v sl data"
| "verifier_store_op iter (SCommit sl) v = vs_commit v sl"
| "verifier_store_op iter (SDecode sl) v = bindR (vs_decode v sl) (\<lambda>(c, v). Inr v)"
| "verifier_store_op iter (SSetOutput sl keys macs) v = vs_set_output_keys v sl keys"

text \<open>
  What the callers see to: data is assigned to ranges that hold none, the verifier assigns public
  data after the prover and equal to it, only allocated ranges are decoded, and an output is set
  once, to MACs of their pointer bits under the keys.
\<close>

fun zsafe :: "zstore_op \<Rightarrow> prover_store \<Rightarrow> verifier_store \<Rightarrow> bool" where
  "zsafe (SAssignProver sl data) p v \<longleftrightarrow> to_range sl \<inter> bset (p_data p) = {} \<and> length data = ssize sl"
| "zsafe (SAssignVerifier sl data) p v \<longleftrightarrow> to_range sl \<inter> bset (s_data v) = {} \<and> to_range sl \<subseteq> v_public (z_vis (s_view v)) \<and>
     bits_try_get (p_data p) sl = Inr data"
| "zsafe (SDecode sl) p v \<longleftrightarrow> ps_is_alloc p sl"
| "zsafe (SSetOutput sl keys macs) p v \<longleftrightarrow> to_range sl \<inter> zo_complete (z_output (p_view p)) = {} \<and>
     length keys = ssize sl \<and> list_all2 (\<lambda>k m. wire_ok (ks_delta (s_keys v)) k m (mac_pointer m)) keys macs"
| "zsafe _ p v \<longleftrightarrow> True"

section \<open>Each of them keeps what holds\<close>

lemma zmem_frame:
  assumes "zmem n {} p v X" "zviews_agree pv vv" "z_len pv = n"
    and "v_public (z_vis pv) \<inter> set_of (ms_macs (p_macs p)) \<subseteq> v_public (z_vis (p_view p))"
    and "zcovered {} (p\<lparr>p_view := pv\<rparr>) (v\<lparr>s_view := vv\<rparr>)"
  shows "zmem n {} (p\<lparr>p_view := pv\<rparr>) (v\<lparr>s_view := vv\<rparr>) X"
proof -
  note m = zmemD [OF assms(1)]
  note l = zlinkedD [OF m(3)]
  have "zlinked {} (p\<lparr>p_view := pv\<rparr>) (v\<lparr>s_view := vv\<rparr>) X" unfolding zlinked_def Let_def
    using l(1-3) l(5) assms(4) by auto
  moreover have "zshapes n (p\<lparr>p_view := pv\<rparr>) (v\<lparr>s_view := vv\<rparr>)" using m(1) assms(3) by (simp add: zshapes_def)
  ultimately show ?thesis using assms(2,5) m(5,6) by (simp add: zmem_def)
qed

lemma zmem_commit:
  assumes Z: "zmem n {} p v X" and c: "ps_commit p sl = Inr p'" "vs_commit v sl = Inr v'"
  shows "zmem n {} p' v' X"
proof -
  note m = zmemD [OF Z]
  note a = zagreeD [OF m(2)] and cv = zcoveredD [OF m(4)]
  obtain pv vv where h: "zview_commit (p_view p) (slice_range sl) = Inr pv" "zview_commit (s_view v) (slice_range sl) = Inr vv"
      "p' = p\<lparr>p_view := pv\<rparr>" "v' = v\<lparr>s_view := vv\<rparr>"
    using c by (auto simp: ps_commit_def vs_commit_def result_simps)
  let ?r = "rng (slice_range sl)" and ?P = "v_public (z_vis (p_view p))"
  note e = zview_commit_eq [OF a(3) h(1)] and f = zview_commit_eq [OF a(4) h(2)]
  have publ: "?r \<inter> ?P \<subseteq> set_of (ks_keys (s_keys v))" "?r \<inter> ?P \<subseteq> set_of (ms_macs (p_macs p))"
    using e(4) f(4) a(13) cv(15,16) by blast+
  have priv: "?r \<inter> v_private (z_vis (p_view p)) \<subseteq> bset (p_data p)" using e(5) cv(14) by blast
  have pv: "zi_complete (z_input pv) = zi_complete (z_input (p_view p)) \<union> (?r \<inter> ?P)" "z_output pv = z_output (p_view p)"
    "z_vis pv = z_vis (p_view p)" "zi_all (z_input pv) = zi_all (z_input (p_view p))" "zi_assigned (z_input pv) = zi_assigned (z_input (p_view p))"
    "z_decode pv = z_decode (p_view p)" "zf_commit (z_flush pv) = zf_commit (z_flush (p_view p)) \<union> (?r \<inter> v_private (z_vis (p_view p)))"
    "zi_assigned (z_input vv) = zi_assigned (z_input (s_view v))" "z_len pv = z_len (p_view p)"
    using a(1) by (simp_all add: e(1) f(1))
  show ?thesis unfolding h(3,4)
  proof (rule zmem_frame [OF Z zagree_commit [OF m(2) h(1,2)]])
    show "zcovered {} (p\<lparr>p_view := pv\<rparr>) (v\<lparr>s_view := vv\<rparr>)"
    proof -
      let ?C = "zi_complete (z_input pv) \<union> zo_complete (z_output pv)"
      have "?C \<subseteq> set_of (ks_keys (s_keys v))" "?C \<subseteq> set_of (ms_macs (p_macs p))" using cv(1,2) publ by (auto simp: pv)
      moreover have "?C \<subseteq> bset (p_data p)" using cv(3,10) publ by (auto simp: pv)
      moreover have "zf_commit (z_flush pv) \<subseteq> bset (p_data p)" using cv(19) priv by (simp add: pv)
      moreover have "set_of (ks_keys (s_keys v)) \<subseteq> ?P \<union> ?C" "set_of (ms_macs (p_macs p)) \<subseteq> ?P \<union> ?C" using cv(7,8) by (auto simp: pv)
      moreover have "bset (p_masks p) \<subseteq> zi_complete (z_input pv)" using cv(9) by (auto simp: pv)
      ultimately show ?thesis by (intro zcoveredI) (use cv(10-18,20-22) in \<open>simp_all add: pv\<close>)
    qed
  qed (use zshapesD(11) [OF m(1)] in \<open>auto simp: pv\<close>)
qed

lemma zmem_mark_step:
  assumes Z: "zmem n {} p v X" and w: "vis_marked (z_vis (p_view p)) (rng r) A B {} w" "A \<union> B \<subseteq> rng r" "rng r \<inter> zo_all (z_output (p_view p)) = {}"
    and pv: "pv = (p_view p)\<lparr>z_vis := w\<rparr>" and vv: "vv = (s_view v)\<lparr>z_vis := w'\<rparr>" and ag: "zviews_agree pv vv"
  shows "zmem n {} (p\<lparr>p_view := pv\<rparr>) (v\<lparr>s_view := vv\<rparr>) X"
proof -
  note m = zmemD [OF Z]
  note a = zagreeD [OF m(2)] and cv = zcoveredD [OF m(4)]
  note z = zview_invD [OF a(3)]
  let ?P = "v_public (z_vis (p_view p))"
  have W: "rng r \<subseteq> v_uninit (z_vis (p_view p))" "v_uninit w \<subseteq> v_uninit (z_vis (p_view p))" "v_public w = ?P \<union> A" using w(1) by (auto simp: vis_marked_def)
  have U: "?P \<inter> rng r = {}" using W(1) z(1) by (auto simp: vis_inv_def)
  have C: "zi_complete (z_input (p_view p)) \<inter> rng r = {}" 
    using z(7) zsecret_vis [OF z(1), of "zrole (p_view p)"] W(1) U by blast
  have O: "zo_complete (z_output (p_view p)) \<inter> rng r = {}" using z(6) w(3) by blast
  have K: "set_of (ks_keys (s_keys v)) \<inter> rng r = {}" "set_of (ms_macs (p_macs p)) \<inter> rng r = {}" using cv(7,8) C O U by blast+
  have A: "zi_assigned (z_input (p_view p)) \<inter> rng r = {}" "zi_assigned (z_input (s_view v)) \<inter> rng r = {}" using cv(20,21) W(1) by blast+
  let ?V = "?P \<union> A" and ?C = "zi_complete (z_input (p_view p)) \<union> zo_complete (z_output (p_view p))"
  have "set_of (ks_keys (s_keys v)) \<subseteq> ?V \<union> ?C" "set_of (ms_macs (p_macs p)) \<subseteq> ?V \<union> ?C" "bset (p_masks p) \<subseteq> zi_complete (z_input (p_view p))"
    "zi_assigned (z_input (p_view p)) \<inter> ?V \<subseteq> set_of (ms_macs (p_macs p))" "zi_assigned (z_input (s_view v)) \<inter> ?V \<subseteq> set_of (ks_keys (s_keys v))"
    "bset (s_data v) \<subseteq> ?V \<union> zd_complete (z_decode (p_view p))"
    "zi_assigned (z_input (p_view p)) \<inter> v_uninit w = {}" "zi_assigned (z_input (s_view v)) \<inter> v_uninit w = {}"
    "set_of (ks_keys (s_keys v)) \<inter> ?V \<subseteq> bset (s_data v)"
  proof -
    show "set_of (ks_keys (s_keys v)) \<subseteq> ?V \<union> ?C" "set_of (ms_macs (p_macs p)) \<subseteq> ?V \<union> ?C" "bset (p_masks p) \<subseteq> zi_complete (z_input (p_view p))"
      using cv(7-9) by blast+
    have "zi_assigned (z_input (p_view p)) \<inter> ?V = zi_assigned (z_input (p_view p)) \<inter> ?P"
      "zi_assigned (z_input (s_view v)) \<inter> ?V = zi_assigned (z_input (s_view v)) \<inter> ?P" "set_of (ks_keys (s_keys v)) \<inter> ?V = set_of (ks_keys (s_keys v)) \<inter> ?P"
      using A K(1) w(2) by blast+
    then show "zi_assigned (z_input (p_view p)) \<inter> ?V \<subseteq> set_of (ms_macs (p_macs p))" "zi_assigned (z_input (s_view v)) \<inter> ?V \<subseteq> set_of (ks_keys (s_keys v))"
      "set_of (ks_keys (s_keys v)) \<inter> ?V \<subseteq> bset (s_data v)" using cv(15,16,22) by simp_all
    show "bset (s_data v) \<subseteq> ?V \<union> zd_complete (z_decode (p_view p))" using cv(18) by blast
    show "zi_assigned (z_input (p_view p)) \<inter> v_uninit w = {}" "zi_assigned (z_input (s_view v)) \<inter> v_uninit w = {}" using cv(20,21) W(2) by blast+
  qed
  then have "zcovered {} (p\<lparr>p_view := pv\<rparr>) (v\<lparr>s_view := vv\<rparr>)"
    by (intro zcoveredI) (use cv(1-3,10-14,17,19) in \<open>simp_all add: pv vv W(3)\<close>)
  then show ?thesis by (rule zmem_frame [OF Z ag, rotated 2]) (use zshapesD(11) [OF m(1)] K w(2) W(3) in \<open>auto simp: pv\<close>)
qed

lemma zmem_mark:
  assumes Z: "zmem n {} p v X"
  shows "ps_mark_public p sl = Inr p' \<Longrightarrow> vs_mark_public v sl = Inr v' \<Longrightarrow> zmem n {} p' v' X"
    "ps_mark_private p sl = Inr p' \<Longrightarrow> vs_mark_blind v sl = Inr v' \<Longrightarrow> zmem n {} p' v' X"
proof -
  note m = zmemD [OF Z]
  note i = zagreeD(3,4) [OF m(2)]
  let ?r = "slice_range sl"
  show "zmem n {} p' v' X" if h0: "ps_mark_public p sl = Inr p'" "vs_mark_public v sl = Inr v'"
  proof -
    obtain pv vv where h: "zmark_public (p_view p) ?r = Inr pv" "zmark_public (s_view v) ?r = Inr vv" "p' = p\<lparr>p_view := pv\<rparr>" "v' = v\<lparr>s_view := vv\<rparr>"
      using h0 by (auto simp: ps_mark_public_def vs_mark_public_def result_simps)
    show ?thesis using zmark_fields(1) [OF i(1) h(1)] zmark_fields(1) [OF i(2) h(2)] zmem_mark_step [OF Z _ _ _ _ _ zagree_mark(1) [OF m(2) h(1,2)]]
      unfolding h(3,4) by blast
  qed
  show "zmem n {} p' v' X" if h0: "ps_mark_private p sl = Inr p'" "vs_mark_blind v sl = Inr v'"
  proof -
    obtain pv vv where h: "zmark_private (p_view p) ?r = Inr pv" "zmark_blind (s_view v) ?r = Inr vv" "p' = p\<lparr>p_view := pv\<rparr>" "v' = v\<lparr>s_view := vv\<rparr>"
      using h0 by (auto simp: ps_mark_private_def vs_mark_blind_def result_simps)
    show ?thesis using zmark_fields(2) [OF i(1) h(1)] zmark_fields(3) [OF i(2) h(2)] zmem_mark_step [OF Z _ _ _ _ _ zagree_mark(2) [OF m(2) h(1,2)]]
      unfolding h(3,4) by blast
  qed
qed

lemma zmem_cong:
  assumes "zmem n L p v X" "p_macs p' = p_macs p" "p_masks p' = p_masks p" "p_data p' = p_data p" "p_view p' = p_view p" "p_pending p' = p_pending p"
    "ops_ok n (p_buffer p')" "s_keys v' = s_keys v" "s_data v' = s_data v" "s_view v' = s_view v" "s_pending v' = s_pending v" "ops_ok n (s_buffer v')"
  shows "zmem n L p' v' X"
  using assms by (simp add: zmem_def zshapes_def zlinked_def zcovered_def)

lemma ps_decode_fields:
  assumes "ps_decode p sl = Inr (c, p')"
  shows "p_macs p' = p_macs p" "p_masks p' = p_masks p" "p_data p' = p_data p" "p_view p' = zview_decode (p_view p) (slice_range sl)"
    "p_pending p' = p_pending p" "p_buffer p' = p_buffer p \<or> p_buffer p' = p_buffer p @ [decode_new sl c]"
  using assms by (auto simp: ps_decode_def result_simps Let_def split: sum.splits fault.splits)

lemma vs_decode_fields:
  assumes "vs_decode s sl = Inr (c, s')"
  shows "s_keys s' = s_keys s" "s_data s' = s_data s" "s_view s' = zview_decode (s_view s) (slice_range sl)"
    "s_pending s' = s_pending s" "s_buffer s' = s_buffer s \<or> s_buffer s' = s_buffer s @ [decode_new sl c]"
  using assms by (auto simp: vs_decode_def result_simps Let_def split: sum.splits fault.splits)

lemma zmem_decode:
  assumes Z: "zmem n {} p v X" and al: "ps_is_alloc p sl" and d: "ps_decode p sl = Inr (c, p')" "vs_decode v sl = Inr (c', v')"
  shows "zmem n {} p' v' X"
proof -
  note m = zmemD [OF Z]
  note s = zshapesD [OF m(1)] and a = zagreeD [OF m(2)]
  let ?r = "slice_range sl" and ?pv = "zview_decode (p_view p) (slice_range sl)" and ?vv = "zview_decode (s_view v) (slice_range sl)"
  have "slice_end sl \<le> n" using al s(11) by (simp add: ps_is_alloc_def zview_is_alloc_def slice_range_def)
  then have b: "ops_ok n (p_buffer p')" "ops_ok n (s_buffer v')"
    using ps_decode_fields(6) [OF d(1)] vs_decode_fields(5) [OF d(2)] s(12,13) by (auto simp: ops_ok_def decode_new_def)
  note e = zview_decode_eq [OF a(3), of ?r] zview_decode_eq [OF a(4), of ?r]
  have "zcovered {} (p\<lparr>p_view := ?pv\<rparr>) (v\<lparr>s_view := ?vv\<rparr>)" using m(4) unfolding e zcovered_def Let_def by simp
  then have "zmem n {} (p\<lparr>p_view := ?pv\<rparr>) (v\<lparr>s_view := ?vv\<rparr>) X"
    by (rule zmem_frame [OF Z zagree_decode [OF m(2)], rotated 2]) (use s(11) in \<open>auto simp: e\<close>)
  then show ?thesis by (rule zmem_cong) (simp_all add: b ps_decode_fields [OF d(1)] vs_decode_fields [OF d(2)])
qed

text \<open>Allocation only adds addresses, to every store.\<close>

lemma zmem_grow:
  assumes Z: "zmem n {} p v X" and ag: "zviews_agree pv vv"
    and pv: "z_len pv = n + k" "z_decode pv = z_decode (p_view p)" "z_flush pv = z_flush (p_view p)"
      "zi_complete (z_input pv) = zi_complete (z_input (p_view p))" "zi_assigned (z_input pv) = zi_assigned (z_input (p_view p))"
      "zo_complete (z_output pv) = zo_complete (z_output (p_view p))" "zi_all (z_input (p_view p)) \<subseteq> zi_all (z_input pv)"
      "v_public (z_vis pv) = v_public (z_vis (p_view p))" "v_uninit (z_vis pv) = v_uninit (z_vis (p_view p)) \<union> {n..<n + k}"
      "zi_assigned (z_input vv) = zi_assigned (z_input (s_view v))"
  defines "p' \<equiv> p\<lparr>p_view := pv, p_macs := snd (ms_alloc (p_macs p) k), p_masks := snd (bits_alloc (p_masks p) k), p_data := snd (bits_alloc (p_data p) k)\<rparr>"
    and "v' \<equiv> v\<lparr>s_view := vv, s_keys := snd (ks_alloc (s_keys v) k), s_data := snd (bits_alloc (s_data v) k)\<rparr>"
  shows "zmem (n + k) {} p' v' X"
proof -
  note m = zmemD [OF Z]
  note s = zshapesD [OF m(1)] and l = zlinkedD [OF m(3)] and cv = zcoveredD [OF m(4)]
  have f: "ms_macs (p_macs p') = (ms_macs (p_macs p))\<lparr>items := items (ms_macs (p_macs p)) @ replicate k 0\<rparr>"
    "p_masks p' = (p_masks p)\<lparr>bits := bits (p_masks p) @ replicate k False\<rparr>" "p_data p' = (p_data p)\<lparr>bits := bits (p_data p) @ replicate k False\<rparr>"
    "s_keys v' = (s_keys v)\<lparr>ks_keys := (ks_keys (s_keys v))\<lparr>items := items (ks_keys (s_keys v)) @ replicate k 0\<rparr>\<rparr>"
    "s_data v' = (s_data v)\<lparr>bits := bits (s_data v) @ replicate k False\<rparr>" "p_view p' = pv" "s_view v' = vv"
    "p_pending p' = p_pending p" "s_pending v' = s_pending v" "p_buffer p' = p_buffer p" "s_buffer v' = s_buffer v"
    by (simp_all add: p'_def v'_def ms_alloc_def ks_alloc_def store_alloc_def bits_alloc_def Let_def)
  have sub: "set_of (ms_macs (p_macs p)) \<subseteq> {0..<n}" "bset (p_masks p) \<subseteq> {0..<n}" "set_of (ks_keys (s_keys v)) \<subseteq> {0..<n}"
    using s(1,2,4,6,7,9) by (auto simp: store_inv_def bits_inv_def)
  have up: "S \<subseteq> {0..<n} \<Longrightarrow> S \<subseteq> {0..<n + k}" for S by force
  have ops: "ops_ok (n + k) bs" if "ops_ok n bs" for bs using that by (auto simp: ops_ok_def)
  have "zshapes (n + k) p' v'" using s(1-14) sub(1-3) s(16,17) ops pv(1)
    by (simp add: zshapes_def f ms_inv_def ks_inv_def store_inv_def bits_inv_def up)
  moreover have lt: "i \<in> set_of (ms_macs (p_macs p)) \<Longrightarrow> i < n" "i \<in> set_of (ks_keys (s_keys v)) \<Longrightarrow> i < n" "i \<in> bset (p_data p) \<Longrightarrow> i < n"
      "i \<in> bset (s_data v) \<Longrightarrow> i < n" for i using sub s(16,17) by auto
  moreover have "zlinked {} p' v' X" unfolding zlinked_def Let_def f
  proof (intro conjI ballI)
    fix i
    show "i \<in> bset ((p_data p)\<lparr>bits := bits (p_data p) @ replicate k False\<rparr>) \<Longrightarrow> bits ((p_data p)\<lparr>bits := bits (p_data p) @ replicate k False\<rparr>) ! i = X i"
      using l(1) lt(3) s(8) by (simp add: nth_append)
    show "i \<in> bset ((s_data v)\<lparr>bits := bits (s_data v) @ replicate k False\<rparr>) \<Longrightarrow> bits ((s_data v)\<lparr>bits := bits (s_data v) @ replicate k False\<rparr>) ! i = X i"
      using l(2) lt(4) s(10) by (simp add: nth_append)
  qed (use l(3,5) lt s(6,9) pv(8) in \<open>simp_all add: nth_append\<close>)
  moreover have "zcovered {} p' v'"
  proof -
    have D: "bset (p_data p) \<inter> {n..<n + k} = {}" using s(16) by auto
    have "bset (p_data p) \<subseteq> zi_all (z_input pv) \<union> zo_complete (z_output (p_view p))" using cv(13) pv(7) by blast
    moreover have "zi_assigned (z_input (p_view p)) \<inter> v_uninit (z_vis pv) = {}" "zi_assigned (z_input (s_view v)) \<inter> v_uninit (z_vis pv) = {}"
      using cv(14,17,20,21) D unfolding pv(9) by blast+
    ultimately show ?thesis by (intro zcoveredI) (use cv(1-12,14-19,22) in \<open>simp_all add: f pv(2-6,8,10)\<close>)
  qed
  ultimately show ?thesis using ag m(5,6) by (simp add: zmem_def f)
qed

lemma zmem_alloc:
  assumes Z: "zmem n {} p v X"
  shows "zmem (n + k) {} (snd (ps_alloc p k)) (snd (vs_alloc v k)) X" "zmem (n + k) {} (snd (ps_alloc_output p k)) (snd (vs_alloc_output v k)) X"
proof -
  note m = zmemD [OF Z]
  have l: "z_len (p_view p) = n" "vlen (z_vis (p_view p)) = n" using zshapesD(11) [OF m(1)] zview_invD(2) [OF zagreeD(3) [OF m(2)]] by simp_all
  have a: "zview_alloc_input w k = w\<lparr>z_len := z_len w + k, z_vis := vis_alloc (z_vis w) k,
        z_input := (z_input w)\<lparr>zi_all := zi_all (z_input w) \<union> {z_len w..<z_len w + k}\<rparr>\<rparr>"
      "zview_alloc_output w k = w\<lparr>z_len := z_len w + k, z_vis := vis_alloc (z_vis w) k,
        z_output := (z_output w)\<lparr>zo_all := zo_all (z_output w) \<union> {z_len w..<z_len w + k}\<rparr>\<rparr>" for w
    by (simp_all add: zview_alloc_input_def zview_alloc_output_def zview_alloc_def Let_def)
  have "snd (ps_alloc p k) = p\<lparr>p_view := zview_alloc_input (p_view p) k, p_macs := snd (ms_alloc (p_macs p) k), p_masks := snd (bits_alloc (p_masks p) k), p_data := snd (bits_alloc (p_data p) k)\<rparr>"
    "snd (vs_alloc v k) = v\<lparr>s_view := zview_alloc_input (s_view v) k, s_keys := snd (ks_alloc (s_keys v) k), s_data := snd (bits_alloc (s_data v) k)\<rparr>"
    "snd (ps_alloc_output p k) = p\<lparr>p_view := zview_alloc_output (p_view p) k, p_macs := snd (ms_alloc (p_macs p) k), p_masks := snd (bits_alloc (p_masks p) k), p_data := snd (bits_alloc (p_data p) k)\<rparr>"
    "snd (vs_alloc_output v k) = v\<lparr>s_view := zview_alloc_output (s_view v) k, s_keys := snd (ks_alloc (s_keys v) k), s_data := snd (bits_alloc (s_data v) k)\<rparr>"
    by (simp_all add: ps_alloc_def vs_alloc_def ps_alloc_output_def vs_alloc_output_def Let_def case_prod_unfold)
  then show "zmem (n + k) {} (snd (ps_alloc p k)) (snd (vs_alloc v k)) X" "zmem (n + k) {} (snd (ps_alloc_output p k)) (snd (vs_alloc_output v k)) X"
    using zmem_grow [OF Z zagree_alloc(1) [OF m(2), of k], of k] zmem_grow [OF Z zagree_alloc(2) [OF m(2), of k], of k] l
    by (auto simp: a vis_alloc_fields)
qed

lemma bits_put_slice:
  assumes "bits_inv s" "bits_try_set s sl xs = Inr s'" "length xs = ssize sl"
  shows "bits_inv s' \<and> length (bits s') = length (bits s) \<and> bits_abs s' = override (bits_abs s) (to_range sl) (\<lambda>i. xs ! (i - ptr sl)) \<and>
    to_range sl \<subseteq> {0..<length (bits s)}"
proof -
  have g: "\<not> to_range sl \<subseteq> dom (bits_abs s)" "slice_end sl \<le> length (bits s)"
    using assms(2) by (auto simp: bits_try_set_def split: if_splits)
  have "put_at m sl xs = override m (to_range sl) (\<lambda>i. xs ! (i - ptr sl))" for m by (auto simp: put_at_def override_def)
  then show ?thesis using bits_try_set_ok [OF assms(1) g assms(3)] assms(2) g(2) by (auto simp: to_range_def slice_end_def)
qed

lemma items_put_slice:
  assumes "store_inv s" "try_set s sl xs = Inr s'" "length xs = ssize sl"
  shows "store_inv s' \<and> length (items s') = length (items s) \<and> store_abs s' = override (store_abs s) (to_range sl) (\<lambda>i. xs ! (i - ptr sl))"
proof -
  have g: "\<not> to_range sl \<subseteq> dom (store_abs s)" "slice_end sl \<le> store_len s"
    using assms(2) by (auto simp: try_set_def store_len_def split: if_splits)
  have "put_at m sl xs = override m (to_range sl) (\<lambda>i. xs ! (i - ptr sl))" for m by (auto simp: put_at_def override_def)
  then show ?thesis using vstore.put_ok [OF assms(1) g assms(3)] assms(2) by (auto simp: store_len_def)
qed

text \<open>Assigning by the prover: the value of fresh addresses becomes the data.\<close>

lemma zmem_assign_prover:
  assumes it: "range_iter iter" and Z: "zmem n {} p v X" and sf: "to_range sl \<inter> bset (p_data p) = {}" "length data = ssize sl"
    and h: "ps_assign iter p sl data = Inr p'"
  shows "zmem n {} p' v (\<lambda>i. if i \<in> to_range sl then data ! (i - ptr sl) else X i)"
proof -
  let ?R = "to_range sl" let ?X = "\<lambda>i. if i \<in> ?R then data ! (i - ptr sl) else X i"
  note m = zmemD [OF Z]
  note s = zshapesD [OF m(1)] and l = zlinkedD [OF m(3)] and cv = zcoveredD [OF m(4)] and a = zagreeD [OF m(2)]
  note z = zview_invD [OF a(3)]
  obtain pv st ms where g: "zview_assign (p_view p) (slice_range sl) = Inr pv" "bits_try_set (p_data p) sl data = Inr st"
      "foldR (public_mac_step st) (iter (?R \<inter> v_public (z_vis pv))) (p_macs p) = Inr ms" "p' = p\<lparr>p_view := pv, p_data := st, p_macs := ms\<rparr>"
    using h by (auto simp: ps_assign_def Let_def result_simps)
  have rg: "rng (slice_range sl) = ?R" by (auto simp: slice_range_def to_range_def slice_end_def)
  have pv: "pv = (p_view p)\<lparr>z_input := (z_input (p_view p))\<lparr>zi_assigned := zi_assigned (z_input (p_view p)) \<union> ?R\<rparr>\<rparr>"
      "?R \<subseteq> v_visible (z_vis (p_view p))" "?R \<inter> zo_all (z_output (p_view p)) = {}"
    using g(1) rg by (auto simp: zview_assign_def is_visible_def split: if_splits)
  let ?P = "v_public (z_vis (p_view p))"
  have st: "bits_inv st" "length (bits st) = n" "bits_abs st = override (bits_abs (p_data p)) ?R (\<lambda>i. data ! (i - ptr sl))" "?R \<subseteq> {0..<n}"
    using bits_put_slice [OF s(3) g(2) sf(2)] s(8) by auto
  note od = override_bits [OF st(3)]
  have fr: "?R \<inter> set_of (ks_keys (s_keys v)) = {}" "?R \<inter> set_of (ms_macs (p_macs p)) = {}" "?R \<inter> bset (s_data v) = {}" using cv(10-12) sf(1) by blast+
  obtain mt where mt: "ms = (p_macs p)\<lparr>ms_macs := mt\<rparr>" "store_inv mt" "length (items mt) = n"
      "store_abs mt = override (store_abs (ms_macs (p_macs p))) (?R \<inter> ?P) (\<lambda>i. MAC_PUBLIC (bits st ! i))"
    using public_macs [OF it st(1) s(1), of "?R \<inter> ?P"] g(3) fr(2) st(4) od(1) s(6) by (auto simp: pv(1))
  note om = override_items [OF mt(4)]
  have f: "p_view p' = pv" "p_data p' = st" "ms_macs (p_macs p') = mt" "p_masks p' = p_masks p" "p_pending p' = p_pending p" "p_buffer p' = p_buffer p"
    by (simp_all add: g(4) mt(1))
  have "zshapes n p' v" using m(1) st(1,2) mt(2,3) by (simp add: zshapes_def f ms_inv_def pv(1))
  moreover have "zlinked {} p' v ?X" unfolding zlinked_def Let_def f
    using l od om fr by (auto simp: pv(1))
  moreover have "zcovered {} p' v"
  proof -
    let ?C = "zi_complete (z_input (p_view p)) \<union> zo_complete (z_output (p_view p))"
    let ?A = "zi_assigned (z_input (p_view p)) \<union> ?R"
    have "?C \<subseteq> set_of mt" "?C \<subseteq> bset st" "set_of mt \<subseteq> ?P \<union> ?C" "set_of (ks_keys (s_keys v)) \<subseteq> bset st" "set_of mt \<subseteq> bset st"
      "bset (s_data v) \<subseteq> bset st" "?A \<subseteq> bset st" "?A \<inter> ?P \<subseteq> set_of mt" "zi_assigned (z_input (s_view v)) \<subseteq> bset st"
      "zf_commit (z_flush (p_view p)) \<subseteq> bset st"
      unfolding od(1) om(1) using cv(2) cv(3) cv(8) cv(10) cv(11) cv(12) cv(14) cv(15) cv(17) cv(19) by auto
    moreover have "bset st \<subseteq> zi_all (z_input (p_view p)) \<union> zo_complete (z_output (p_view p))"
      using cv(13) od(1) st(4) z(3) pv(3) s(11) by auto
    moreover have "?A \<inter> v_uninit (z_vis (p_view p)) = {}" using cv(20) pv(2) z(1) by (auto simp: vis_inv_def)
    ultimately show ?thesis by (intro zcoveredI) (use cv(1,7,9,16,18,21,22) in \<open>simp_all add: f pv(1)\<close>)
  qed
  ultimately show ?thesis using zagree_assign(1) [OF m(2) g(1)] m(5,6) by (simp add: zmem_def f)
qed

text \<open>Assigning public data by the verifier, after the prover: the keys are the public ones.\<close>

lemma public_wire_ok:
  assumes "ks_inv ks"
  shows "wire_ok (ks_delta ks) (if x then public_one ks else MAC_ZERO) (MAC_PUBLIC x) x"
proof (cases x)
  case True
  have "lsb (ks_delta ks)" "public_one ks = MAC_ONE XOR ks_delta ks" using assms by (simp_all add: ks_inv_def)
  then show ?thesis using True MAC_lsb(2) by (simp add: wire_ok_def mac_ok_def MAC_PUBLIC_def xor_simps)
qed (use MAC_lsb(1) in \<open>simp add: wire_ok_def mac_ok_def MAC_PUBLIC_def\<close>)

lemma zmem_assign_verifier:
  assumes it: "range_iter iter" and Z: "zmem n {} p v X" and sf: "to_range sl \<inter> bset (s_data v) = {}" "to_range sl \<subseteq> v_public (z_vis (s_view v))"
    and eq: "bits_try_get (p_data p) sl = Inr data" and h: "vs_assign iter v sl data = Inr v'"
  shows "zmem n {} p v' X"
proof -
  let ?R = "to_range sl"
  note m = zmemD [OF Z]
  note s = zshapesD [OF m(1)] and l = zlinkedD [OF m(3)] and cv = zcoveredD [OF m(4)] and a = zagreeD [OF m(2)]
  obtain vv st ks where g: "zview_assign (s_view v) (slice_range sl) = Inr vv" "bits_try_set (s_data v) sl data = Inr st"
      "foldR (public_key_step st) (iter (?R \<inter> v_public (z_vis vv))) (s_keys v) = Inr ks" "v' = v\<lparr>s_view := vv, s_data := st, s_keys := ks\<rparr>"
    using h by (auto simp: vs_assign_def Let_def result_simps)
  have rg: "rng (slice_range sl) = ?R" by (auto simp: slice_range_def to_range_def slice_end_def)
  have vv: "vv = (s_view v)\<lparr>z_input := (z_input (s_view v))\<lparr>zi_assigned := zi_assigned (z_input (s_view v)) \<union> ?R\<rparr>\<rparr>"
    using g(1) rg by (auto simp: zview_assign_def split: if_splits)
  have P: "?R \<subseteq> v_public (z_vis (p_view p))" using sf(2) a(13) by simp
  have D: "?R \<subseteq> bset (p_data p)" using eq by (auto simp: bits_try_get_def split: if_splits)
  have "\<not> ?R \<subseteq> bset (s_data v)" using g(2) by (auto simp: bits_try_set_def split: if_splits)
  then have "0 < ssize sl" by (auto simp: to_range_def)
  then have data: "data = read_at (bits_abs (p_data p)) sl" using eq bits_try_get_ok [OF s(3), of sl] D by simp
  have len: "length data = ssize sl" by (simp add: data)
  have X: "data ! (i - ptr sl) = X i" if "i \<in> ?R" for i
  proof -
    have "i \<in> bset (p_data p)" "i - ptr sl < ssize sl" "ptr sl + (i - ptr sl) = i" using that D by (auto simp: to_range_def)
    then show ?thesis using l(1) [of i] by (simp add: data read_at_def bits_abs_def)
  qed
  have st: "bits_inv st" "length (bits st) = n" "bits_abs st = override (bits_abs (s_data v)) ?R (\<lambda>i. data ! (i - ptr sl))" "?R \<subseteq> {0..<n}"
    using bits_put_slice [OF s(5) g(2) len] s(10) by auto
  note od = override_bits [OF st(3)]
  have "?R \<inter> set_of (ks_keys (s_keys v)) = {}" using cv(22) P sf(1) by blast
  moreover have "?R \<inter> v_public (z_vis vv) = ?R" using sf(2) by (auto simp: vv)
  ultimately obtain kt where kt: "ks = (s_keys v)\<lparr>ks_keys := kt\<rparr>" "store_inv kt" "length (items kt) = n"
      "store_abs kt = override (store_abs (ks_keys (s_keys v))) ?R (\<lambda>i. if bits st ! i then public_one (s_keys v) else MAC_ZERO)"
    using public_keys [OF it st(1) s(4), of ?R] g(3) st(4) od(1) s(9) by auto
  note ok = override_items [OF kt(4)]
  have f: "s_view v' = vv" "s_data v' = st" "s_keys v' = (s_keys v)\<lparr>ks_keys := kt\<rparr>" "s_pending v' = s_pending v" "s_buffer v' = s_buffer v"
    by (simp_all add: g(4) kt(1))
  have "ks_inv (s_keys v')" using s(14) kt(2) ok(1) by (auto simp: ks_inv_def f)
  then have "zshapes n p v'" using m(1) st(1,2) kt(3) by (simp add: zshapes_def f)
  moreover have "zlinked {} p v' X" unfolding zlinked_def Let_def f
  proof (intro conjI ballI)
    fix i assume i: "i \<in> set_of (ks_keys ((s_keys v)\<lparr>ks_keys := kt\<rparr>)) \<inter> set_of (ms_macs (p_macs p)) - {}"
    show "wire_ok (ks_delta ((s_keys v)\<lparr>ks_keys := kt\<rparr>)) (items (ks_keys ((s_keys v)\<lparr>ks_keys := kt\<rparr>)) ! i) (items (ms_macs (p_macs p)) ! i) (X i)"
    proof (cases "i \<in> ?R")
      case True
      then have "bits st ! i = X i" "items (ms_macs (p_macs p)) ! i = MAC_PUBLIC (X i)" using od X l(5) i P by auto
      then show ?thesis using True i ok(2) [of i] public_wire_ok [OF s(14), of "X i"] by simp
    next
      case False
      then show ?thesis using i ok l(3) [of i] by simp
    qed
  qed (use l(1,5) l(2) od X in auto)
  moreover have "zcovered {} p v'"
  proof -
    let ?C = "zi_complete (z_input (p_view p)) \<union> zo_complete (z_output (p_view p))"
    let ?A = "zi_assigned (z_input (s_view v)) \<union> ?R"
    have "?C \<subseteq> set_of kt" "set_of kt \<subseteq> v_public (z_vis (p_view p)) \<union> ?C" "set_of kt \<subseteq> bset (p_data p)" "bset st \<subseteq> bset (p_data p)"
      "?A \<inter> v_public (z_vis (p_view p)) \<subseteq> set_of kt" "?A \<subseteq> bset (p_data p)" "bset st \<subseteq> v_public (z_vis (p_view p)) \<union> zd_complete (z_decode (p_view p))"
      "set_of kt \<inter> v_public (z_vis (p_view p)) \<subseteq> bset st"
      unfolding od(1) ok(1) using cv(1) cv(7) cv(10) cv(12) cv(16) cv(17) cv(18) cv(22) P D by auto
    moreover have "?A \<inter> v_uninit (z_vis (p_view p)) = {}" using cv(21) P zview_invD(1) [OF a(3)] by (auto simp: vis_inv_def)
    ultimately show ?thesis by (intro zcoveredI) (use cv(2,3,8,9,11,13,14,15,19,20) in \<open>simp_all add: f vv\<close>)
  qed
  ultimately show ?thesis using zagree_assign(2) [OF m(2) g(1)] m(5,6) by (simp add: zmem_def f)
qed

text \<open>Outputs: the data is what the MACs point at.\<close>

lemma zmem_output:
  assumes Z: "zmem n {} p v X" and sf: "to_range sl \<inter> zo_complete (z_output (p_view p)) = {}" "length keys = ssize sl"
      "list_all2 (\<lambda>k m. wire_ok (ks_delta (s_keys v)) k m (mac_pointer m)) keys macs"
    and h: "ps_set_output_macs p sl macs = Inr p'" "vs_set_output_keys v sl keys = Inr v'"
  shows "zmem n {} p' v' (\<lambda>i. if i \<in> to_range sl then mac_pointer (macs ! (i - ptr sl)) else X i)"
proof -
  let ?R = "to_range sl" let ?X = "\<lambda>i. if i \<in> ?R then mac_pointer (macs ! (i - ptr sl)) else X i"
  note m = zmemD [OF Z]
  note s = zshapesD [OF m(1)] and l = zlinkedD [OF m(3)] and cv = zcoveredD [OF m(4)] and a = zagreeD [OF m(2)]
  note z = zview_invD [OF a(3)]
  have rg: "rng (slice_range sl) = ?R" by (auto simp: slice_range_def to_range_def slice_end_def)
  have ln: "length macs = ssize sl" using sf(2) list_all2_lengthD [OF sf(3)] by simp
  obtain pv mt st where g: "zview_set_output (p_view p) (slice_range sl) = Inr pv" "try_set (ms_macs (p_macs p)) sl macs = Inr mt"
      "bits_try_set (p_data p) sl (map mac_pointer macs) = Inr st" "p' = p\<lparr>p_view := pv, p_macs := (p_macs p)\<lparr>ms_macs := mt\<rparr>, p_data := st\<rparr>"
    using h(1) by (auto simp: ps_set_output_macs_def ms_try_set_def Let_def result_simps)
  obtain vv kt where k: "zview_set_output (s_view v) (slice_range sl) = Inr vv" "try_set (ks_keys (s_keys v)) sl keys = Inr kt"
      "v' = v\<lparr>s_view := vv, s_keys := (s_keys v)\<lparr>ks_keys := kt\<rparr>\<rparr>"
    using h(2) by (auto simp: vs_set_output_keys_def ks_try_set_def result_simps)
  have pv: "z_len pv = z_len (p_view p)" "z_input pv = z_input (p_view p)" "z_vis pv = z_vis (p_view p)" "zd_complete (z_decode pv) = zd_complete (z_decode (p_view p))"
      "zo_complete (z_output pv) = zo_complete (z_output (p_view p)) \<union> ?R" "zf_commit (z_flush pv) = zf_commit (z_flush (p_view p))" "?R \<subseteq> zo_all (z_output (p_view p))"
    and vv: "z_input vv = z_input (s_view v)"
    using g(1) k(1) rg by (auto simp: zview_set_output_def Let_def split: if_splits)
  let ?P = "v_public (z_vis (p_view p))"
  have nP: "?R \<inter> ?P = {}" using pv(7) z(15) z(1) by (auto simp: vis_inv_def)
  have st: "bits_inv st" "length (bits st) = n" "bits_abs st = override (bits_abs (p_data p)) ?R (\<lambda>i. map mac_pointer macs ! (i - ptr sl))"
    using bits_put_slice [OF s(3) g(3)] s(8) ln by auto
  have mt: "store_inv mt" "length (items mt) = n" "store_abs mt = override (store_abs (ms_macs (p_macs p))) ?R (\<lambda>i. macs ! (i - ptr sl))"
    using items_put_slice [OF s(1) g(2) ln] s(6) by auto
  have kt: "store_inv kt" "length (items kt) = n" "store_abs kt = override (store_abs (ks_keys (s_keys v))) ?R (\<lambda>i. keys ! (i - ptr sl))"
    using items_put_slice [OF s(4) k(2) sf(2)] s(9) by auto
  note od = override_bits [OF st(3)] and om = override_items [OF mt(3)] and ok = override_items [OF kt(3)]
  have "?R \<inter> zi_all (z_input (p_view p)) = {}" using pv(7) z(4) by blast
  then have "?R \<inter> bset (p_data p) = {}" using cv(13) sf(1) by blast
  then have fr: "?R \<inter> set_of (ks_keys (s_keys v)) = {}" "?R \<inter> set_of (ms_macs (p_macs p)) = {}" "?R \<inter> bset (s_data v) = {}" "?R \<inter> bset (p_data p) = {}"
    using cv(10-12) by blast+
  have ix: "i - ptr sl < length macs" if "i \<in> ?R" for i using that ln by (auto simp: to_range_def)
  have w: "wire_ok (ks_delta (s_keys v)) (keys ! (i - ptr sl)) (macs ! (i - ptr sl)) (mac_pointer (macs ! (i - ptr sl)))" if "i \<in> ?R" for i
    using list_all2_nthD2 [OF sf(3) ix [OF that]] by simp
  have f: "p_view p' = pv" "p_data p' = st" "ms_macs (p_macs p') = mt" "p_masks p' = p_masks p" "p_pending p' = p_pending p" "p_buffer p' = p_buffer p"
    "s_view v' = vv" "s_data v' = s_data v" "s_keys v' = (s_keys v)\<lparr>ks_keys := kt\<rparr>" "s_pending v' = s_pending v" "s_buffer v' = s_buffer v"
    by (simp_all add: g(4) k(3))
  have "ks_inv (s_keys v')" using s(14) kt(1) ok(1) by (auto simp: ks_inv_def f)
  then have "zshapes n p' v'" using m(1) st(1,2) mt(1,2) kt(2) pv(1) by (simp add: zshapes_def f ms_inv_def)
  moreover have "zlinked {} p' v' ?X" unfolding zlinked_def Let_def f
  proof (intro conjI ballI)
    fix i assume i: "i \<in> set_of (ks_keys ((s_keys v)\<lparr>ks_keys := kt\<rparr>)) \<inter> set_of mt - {}"
    show "wire_ok (ks_delta ((s_keys v)\<lparr>ks_keys := kt\<rparr>)) (items (ks_keys ((s_keys v)\<lparr>ks_keys := kt\<rparr>)) ! i) (items mt ! i) (?X i)"
      using i w [of i] ok om l(3) by (cases "i \<in> ?R") simp_all
  next
    fix i assume "i \<in> set_of mt \<inter> v_public (z_vis pv)"
    then show "items mt ! i = MAC_PUBLIC (?X i)" using nP om l(5) [of i] by (auto simp: pv(3))
  qed (use l(1,2) od fr(3) ix in auto)
  moreover have "zcovered {} p' v'"
  proof -
    let ?C = "zi_complete (z_input (p_view p)) \<union> (zo_complete (z_output (p_view p)) \<union> ?R)"
    have "?C \<subseteq> set_of kt" "?C \<subseteq> set_of mt" "?C \<subseteq> bset st" "set_of kt \<subseteq> ?P \<union> ?C" "set_of mt \<subseteq> ?P \<union> ?C" "set_of kt \<subseteq> bset st" "set_of mt \<subseteq> bset st"
      "bset (s_data v) \<subseteq> bset st" "bset st \<subseteq> zi_all (z_input (p_view p)) \<union> (zo_complete (z_output (p_view p)) \<union> ?R)"
      "zi_assigned (z_input (p_view p)) \<subseteq> bset st" "zi_assigned (z_input (p_view p)) \<inter> ?P \<subseteq> set_of mt" "zi_assigned (z_input (s_view v)) \<inter> ?P \<subseteq> set_of kt"
      "zi_assigned (z_input (s_view v)) \<subseteq> bset st" "zf_commit (z_flush (p_view p)) \<subseteq> bset st" "set_of kt \<inter> ?P \<subseteq> bset (s_data v)"
      unfolding od(1) om(1) ok(1)
      using cv(1) cv(2) cv(3) cv(7) cv(8) cv(10) cv(11) cv(12) cv(13) cv(14) cv(15) cv(16) cv(17) cv(19) cv(22) nP by auto
    then show ?thesis by (intro zcoveredI) (use cv(9,18,20,21) in \<open>simp_all add: f pv vv\<close>)
  qed
  moreover have "zviews_agree pv vv" using zagree_output [OF m(2) _ g(1) k(1)] sf(1) rg by simp
  ultimately show ?thesis using m(5,6) by (simp add: zmem_def f)
qed

end
