(* ===== verification/ZMemory.thy ===== *)
theory ZMemory
  imports ZOps GFlush
begin

text \<open>
  The flush of the two zero-knowledge parties over their stores, and what every sequence of
  operations and flushes keeps; and what a message the verifier accepts binds the prover to.
\<close>

section \<open>The flush of both parties\<close>

text \<open>
  The flush of \<open>zk/src/prover.rs\<close> and \<open>verifier.rs\<close> after their OTs were flushed: correlations are
  stored when inputs are to be committed, then flush messages go from the prover to the verifier
  while the stores want it.  \<open>None\<close> is a run that does not return, in which one party waits for a
  message the other does not send.
\<close>

datatype zflush_error = ZfProver prover_store_error | ZfVerifier verifier_store_error | ZfIo string

definition zload ::
  "(nat set \<Rightarrow> (nat \<times> nat) list) \<Rightarrow> bool list \<Rightarrow> mac list \<Rightarrow> key list \<Rightarrow> prover_store \<Rightarrow> verifier_store \<Rightarrow>
     (zflush_error, prover_store \<times> verifier_store) result" where
  "zload iter masks macs keys p v =
     bindR (if ps_wants_macs p then map_err ZfProver (ps_set_macs iter p masks macs) else Inr p) (\<lambda>p.
     bindR (if vs_wants_keys v then map_err ZfVerifier (vs_set_keys iter v keys) else Inr v) (\<lambda>v. Inr (p, v)))"

definition zexchange ::
  "(nat set \<Rightarrow> (nat \<times> nat) list) \<Rightarrow> hasher \<Rightarrow> ('t, 's) transcript_ops \<Rightarrow> prover_store \<times> 't \<Rightarrow> verifier_store \<times> 't \<Rightarrow>
     (zflush_error, (prover_store \<times> 't) \<times> verifier_store \<times> 't) result" where
  "zexchange iter hash ops pt vt =
     (let (p, tp) = pt; (v, tv) = vt
      in bindR (map_err ZfProver (ps_send_flush iter hash ops p tp)) (\<lambda>(m, p, tp).
         bindR (map_err ZfProver (ps_complete_flush p)) (\<lambda>p.
         bindR (map_err ZfVerifier (vs_mark_flush_pending v)) (\<lambda>v.
         bindR (map_err ZfIo (prover_flush_try_from (pf_view m, pf_adjust m, pf_mac_proof m))) (\<lambda>m.
         bindR (map_err ZfVerifier (vs_receive_flush iter hash ops v m tv)) (\<lambda>(v, tv). Inr ((p, tp), v, tv)))))))"

fun zflush_loop ::
  "(nat set \<Rightarrow> (nat \<times> nat) list) \<Rightarrow> hasher \<Rightarrow> ('t, 's) transcript_ops \<Rightarrow> nat \<Rightarrow> prover_store \<times> 't \<Rightarrow> verifier_store \<times> 't \<Rightarrow>
     (zflush_error, ((prover_store \<times> 't) \<times> verifier_store \<times> 't) option) result" where
  "zflush_loop iter hash ops n pt vt =
     (if ps_wants_flush (fst pt) \<noteq> vs_wants_flush (fst vt) then Inr None
      else if \<not> ps_wants_flush (fst pt) then Inr (Some (pt, vt))
      else case n of 0 \<Rightarrow> Inr None
           | Suc n \<Rightarrow> bindR (zexchange iter hash ops pt vt) (\<lambda>(pt, vt). zflush_loop iter hash ops n pt vt))"

declare zflush_loop.simps [simp del]

inductive zstore_reachable ::
  "(nat set \<Rightarrow> (nat \<times> nat) list) \<Rightarrow> hasher \<Rightarrow> ('t, 's) transcript_ops \<Rightarrow> delta \<Rightarrow> prover_store \<Rightarrow> verifier_store \<Rightarrow> bool"
  for iter hash ops d where
  init: "zstore_reachable iter hash ops d ps_new (vs_new d)"
| op: "zstore_reachable iter hash ops d p v \<Longrightarrow> zsafe op p v \<Longrightarrow> prover_store_op iter op p = Inr p' \<Longrightarrow> verifier_store_op iter op v = Inr v' \<Longrightarrow>
    zstore_reachable iter hash ops d p' v'"
| flush: "zstore_reachable iter hash ops d p v \<Longrightarrow> correlated d keys masks macs \<Longrightarrow> length keys = ps_mac_count p \<Longrightarrow>
    zload iter masks macs keys p v = Inr (p1, v1) \<Longrightarrow> zflush_loop iter hash ops n (p1, tr) (v1, tr) = Inr (Some ((p', tp), v', tv)) \<Longrightarrow>
    zstore_reachable iter hash ops d p' v'"

lemma zwants_eq:
  assumes "zviews_agree (p_view p) (s_view v)"
  shows "vs_wants_flush v = ps_wants_flush p" "vs_wants_keys v = ps_wants_macs p" "vs_key_count v = ps_mac_count p"
    "ps_wants_flush p \<longleftrightarrow> zf_commit (z_flush (p_view p)) \<noteq> {} \<or> zf_prove (z_flush (p_view p)) \<noteq> {}"
  using zagreeD(10) [OF assms]
  by (simp_all add: vs_wants_flush_def ps_wants_flush_def zview_wants_flush_def vs_wants_keys_def ps_wants_macs_def vs_key_count_def ps_mac_count_def
      zflush_is_empty_def)

lemma zload_ok:
  assumes "range_iter iter" "zmem n {} p v X" "correlated (ks_delta (s_keys v)) keys masks macs" "length keys = ps_mac_count p"
  shows "\<exists>p1 v1. zload iter masks macs keys p v = Inr (p1, v1) \<and> zmem n (zf_commit (z_flush (p_view p))) p1 v1 X \<and>
    p_view p1 = p_view p \<and> s_view v1 = s_view v \<and> ks_delta (s_keys v1) = ks_delta (s_keys v) \<and> s_data v1 = s_data v \<and> p_data p1 = p_data p"
proof (cases "zf_commit (z_flush (p_view p)) = {}")
  case True
  then show ?thesis using assms(2) zwants_eq(2) [OF zmemD(2) [OF assms(2)]] by (simp add: zload_def ps_wants_macs_def)
next
  case False
  then show ?thesis using load_ok [OF assms(1-3)] assms(4) zwants_eq(2) [OF zmemD(2) [OF assms(2)]]
    by (auto simp: zload_def ps_wants_macs_def ps_mac_count_def)
qed

lemma zexchange_ok:
  assumes "range_iter iter" "zmem n (zf_commit (z_flush (p_view p))) p v X"
  shows "\<exists>p' v' tr'. zexchange iter hash ops (p, tr) (v, tr) = Inr ((p', tr'), v', tr') \<and> zmem n {} p' v' X \<and>
    p_view p' = zcomplete_flush (p_view p) (z_flush (p_view p)) \<and>
    bset (s_data v') = bset (s_data v) \<union> zf_prove (z_flush (p_view p)) \<and> p_data p' = p_data p \<and> ks_delta (s_keys v') = ks_delta (s_keys v)"
proof -
  obtain pf p1 p' v1 v' tr' where r: "ps_send_flush iter hash ops p tr = Inr (zflush_message iter p X pf, p1, tr')" "ps_complete_flush p1 = Inr p'"
    "prover_flush_try_from (z_flush (p_view p), pf_adjust (zflush_message iter p X pf), pf) = Inr (zflush_message iter p X pf)"
    "vs_mark_flush_pending v = Inr v1" "vs_receive_flush iter hash ops v1 (zflush_message iter p X pf) tr = Inr (v', tr')"
    "zmem n {} p' v' X" "p_view p' = zcomplete_flush (p_view p) (z_flush (p_view p))"
    "bset (s_data v') = bset (s_data v) \<union> zf_prove (z_flush (p_view p))" "p_data p' = p_data p" "ks_delta (s_keys v') = ks_delta (s_keys v)"
    using zround [OF assms, of hash ops tr] by blast
  have "pf_view (zflush_message iter p X pf) = z_flush (p_view p)" "pf_mac_proof (zflush_message iter p X pf) = pf"
    by (simp_all add: zflush_message_def Let_def)
  then have "zexchange iter hash ops (p, tr) (v, tr) = Inr ((p', tr'), v', tr')" using r(1-5) by (simp add: zexchange_def)
  with r(6-10) show ?thesis by blast
qed

text \<open>At most two rounds: one commits and decodes, one decodes what was committed in the first.\<close>

lemma zflush_two:
  assumes it: "range_iter iter" and Z: "zmem n (zf_commit (z_flush (p_view p))) p v X"
  defines "f \<equiv> z_flush (p_view p)"
  shows "\<exists>p' v' tr'. zflush_loop iter hash ops (Suc (Suc k)) (p, tr) (v, tr) = Inr (Some ((p', tr'), v', tr')) \<and> zmem n {} p' v' X \<and>
    \<not> ps_wants_flush p' \<and> \<not> vs_wants_flush v' \<and>
    zi_complete (z_input (p_view p')) = zi_complete (z_input (p_view p)) \<union> zf_commit f \<and>
    bset (s_data v') = bset (s_data v) \<union> zf_prove f \<union> (zf_commit f \<inter> zd_all (z_decode (p_view p))) \<and>
    p_data p' = p_data p \<and> ks_delta (s_keys v') = ks_delta (s_keys v) \<and> zo_complete (z_output (p_view p')) = zo_complete (z_output (p_view p))"
proof -
  have stop: "zflush_loop iter hash ops j (q, tp) (w, tw) = Inr (Some ((q, tp), w, tw))"
    if "zviews_agree (p_view q) (s_view w)" "\<not> ps_wants_flush q" for j q w and tp tw :: 'a
    using that zwants_eq(1) [OF that(1)] by (subst zflush_loop.simps) simp
  have go: "zflush_loop iter hash ops (Suc j) (q, tp) (w, tw) = bindR (zexchange iter hash ops (q, tp) (w, tw)) (\<lambda>(pt, vt). zflush_loop iter hash ops j pt vt)"
    if "zviews_agree (p_view q) (s_view w)" "ps_wants_flush q" for j q w and tp tw :: 'a
    using that zwants_eq(1) [OF that(1)] by (subst zflush_loop.simps) simp
  note ag = zmemD(2) [OF Z]
  show ?thesis
  proof (cases "ps_wants_flush p")
    case False
    then have "zf_commit f = {}" "zf_prove f = {}" using zwants_eq(4) [OF ag] by (simp_all add: f_def)
    then show ?thesis using stop [OF ag False] Z False zwants_eq(1) [OF ag] by (simp add: f_def)
  next
    case True
    obtain p1 v1 tr1 where 1: "zexchange iter hash ops (p, tr) (v, tr) = Inr ((p1, tr1), v1, tr1)" "zmem n {} p1 v1 X"
      "p_view p1 = zcomplete_flush (p_view p) f" "bset (s_data v1) = bset (s_data v) \<union> zf_prove f" "p_data p1 = p_data p" "ks_delta (s_keys v1) = ks_delta (s_keys v)"
      using zexchange_ok [OF it Z, of hash ops tr] unfolding f_def by blast
    note ag1 = zmemD(2) [OF 1(2)]
    have f1: "zf_commit (z_flush (p_view p1)) = {}" "zf_prove (z_flush (p_view p1)) = zf_commit f \<inter> zd_all (z_decode (p_view p))"
      "zi_complete (z_input (p_view p1)) = zi_complete (z_input (p_view p)) \<union> zf_commit f" "zo_complete (z_output (p_view p1)) = zo_complete (z_output (p_view p))"
      by (simp_all add: 1(3) zcomplete_eq)
    show ?thesis
    proof (cases "ps_wants_flush p1")
      case False
      then have "zf_commit f \<inter> zd_all (z_decode (p_view p)) = {}" using zwants_eq(4) [OF ag1] f1 by simp
      then show ?thesis using go [OF ag True] stop [OF ag1 False] False 1 f1 zwants_eq(1) [OF ag1] by simp
    next
      case w1: True
      have Z1: "zmem n (zf_commit (z_flush (p_view p1))) p1 v1 X" using 1(2) f1(1) by simp
      obtain p2 v2 tr2 where 2: "zexchange iter hash ops (p1, tr1) (v1, tr1) = Inr ((p2, tr2), v2, tr2)" "zmem n {} p2 v2 X"
        "p_view p2 = zcomplete_flush (p_view p1) (z_flush (p_view p1))" "bset (s_data v2) = bset (s_data v1) \<union> zf_prove (z_flush (p_view p1))"
        "p_data p2 = p_data p1" "ks_delta (s_keys v2) = ks_delta (s_keys v1)"
        using zexchange_ok [OF it Z1, of hash ops tr1] by blast
      note ag2 = zmemD(2) [OF 2(2)]
      have f2: "zi_complete (z_input (p_view p2)) = zi_complete (z_input (p_view p1))" "zo_complete (z_output (p_view p2)) = zo_complete (z_output (p_view p1))"
        by (simp_all add: 2(3) zcomplete_eq f1(1))
      have w2: "\<not> ps_wants_flush p2" using zwants_eq(4) [OF ag2] by (simp add: 2(3) zcomplete_eq f1(1))
      have "zflush_loop iter hash ops (Suc (Suc k)) (p, tr) (v, tr) = Inr (Some ((p2, tr2), v2, tr2))"
        by (simp add: go [OF ag True] 1(1) go [OF ag1 w1] 2(1) stop [OF ag2 w2])
      moreover have "\<not> vs_wants_flush v2" using w2 zwants_eq(1) [OF ag2] by simp
      moreover have "bset (s_data v2) = bset (s_data v) \<union> zf_prove f \<union> (zf_commit f \<inter> zd_all (z_decode (p_view p)))"
        by (simp add: 2(4) 1(4) f1(2))
      ultimately show ?thesis using 2(2,5,6) w2 1(5,6) f1(3,4) f2 by (intro exI [of _ p2] exI [of _ v2] exI [of _ tr2]) simp
    qed
  qed
qed

lemma zflush_keeps:
  assumes "range_iter iter" "zmem n (zf_commit (z_flush (p_view p))) p v X"
    and "zflush_loop iter hash ops k (p, tr) (v, tr) = Inr (Some ((p', tp), v', tv))"
  shows "zmem n {} p' v' X \<and> ks_delta (s_keys v') = ks_delta (s_keys v) \<and> tp = tv"
  using assms(2,3)
proof (induction k arbitrary: p v tr)
  case 0
  then have "\<not> ps_wants_flush p" "p' = p" "v' = v" "tp = tv" by (auto simp: zflush_loop.simps split: if_splits)
  then show ?case using zwants_eq(4) [OF zmemD(2) [OF "0.prems"(1)]] "0.prems"(1) by simp
next
  case (Suc k)
  note ag = zmemD(2) [OF Suc.prems(1)]
  show ?case
  proof (cases "ps_wants_flush p")
    case False
    then have "p' = p" "v' = v" "tp = tv" using Suc.prems(2) zwants_eq(1) [OF ag] by (auto simp: zflush_loop.simps)
    then show ?thesis using Suc.prems(1) zwants_eq(4) [OF ag] False by simp
  next
    case True
    obtain p1 v1 tr1 where 1: "zexchange iter hash ops (p, tr) (v, tr) = Inr ((p1, tr1), v1, tr1)" "zmem n {} p1 v1 X"
      "p_view p1 = zcomplete_flush (p_view p) (z_flush (p_view p))" "ks_delta (s_keys v1) = ks_delta (s_keys v)"
      using zexchange_ok [OF assms(1) Suc.prems(1), of hash ops tr] by blast
    have "zmem n (zf_commit (z_flush (p_view p1))) p1 v1 X" using 1(2) by (simp add: 1(3) zcomplete_eq)
    moreover have "zflush_loop iter hash ops k (p1, tr1) (v1, tr1) = Inr (Some ((p', tp), v', tv))"
      using Suc.prems(2) True zwants_eq(1) [OF ag] 1(1) by (simp add: zflush_loop.simps [of _ _ _ "Suc k"])
    ultimately show ?thesis using Suc.IH 1(4) by simp
  qed
qed

section \<open>Reachable memories\<close>

lemma delta_kept: "verifier_store_op iter op v = Inr v' \<Longrightarrow> range_iter iter \<Longrightarrow> ks_delta (s_keys v') = ks_delta (s_keys v)"
proof (induction op)
  case (SAssignVerifier sl data)
  have "foldR (public_key_step st) rs ks = Inr ks' \<Longrightarrow> ks_delta ks' = ks_delta ks" for st rs ks ks'
    by (induction rs arbitrary: ks) (auto simp: public_key_step_def ks_try_set_public_def Let_def result_simps)
  then show ?case using SAssignVerifier by (auto simp: vs_assign_def Let_def result_simps)
next
  case (SDecode sl)
  then show ?case by (auto simp: result_simps dest: vs_decode_fields(1))
qed (auto simp: vs_alloc_def vs_alloc_output_def vs_mark_public_def vs_mark_blind_def vs_commit_def vs_set_output_keys_def ks_try_set_def
    ks_alloc_def store_alloc_def Let_def result_simps case_prod_unfold)

lemma zmem_op:
  assumes it: "range_iter iter" and Z: "zmem n {} p v X" and s: "zsafe op p v"
    and h: "prover_store_op iter op p = Inr p'" "verifier_store_op iter op v = Inr v'"
  shows "\<exists>n X. zmem n {} p' v' X"
proof (cases op)
  case (SAlloc k)
  then show ?thesis using zmem_alloc(1) [OF Z, of k] h by auto
next
  case (SAllocOutput k)
  then show ?thesis using zmem_alloc(2) [OF Z, of k] h by auto
next
  case (SMarkPublic sl)
  then show ?thesis using zmem_mark(1) [OF Z, of sl p' v'] h by auto
next
  case (SMarkPrivate sl)
  then show ?thesis using zmem_mark(2) [OF Z, of sl p' v'] h by auto
next
  case (SAssignProver sl data)
  then show ?thesis using zmem_assign_prover [OF it Z, of sl data p'] h s by auto
next
  case (SAssignVerifier sl data)
  then show ?thesis using zmem_assign_verifier [OF it Z, of sl data v'] h s by auto
next
  case (SCommit sl)
  then show ?thesis using zmem_commit [OF Z, of sl p' v'] h by auto
next
  case (SDecode sl)
  then obtain c c' where "ps_decode p sl = Inr (c, p')" "vs_decode v sl = Inr (c', v')" using h by (auto simp: result_simps)
  then show ?thesis using zmem_decode [OF Z, of sl c p' c' v'] s SDecode by auto
next
  case (SSetOutput sl keys macs)
  then show ?thesis using zmem_output [OF Z, of sl keys macs p' v'] h s by auto
qed

lemma zmem_new: "lsb d \<Longrightarrow> zmem 0 {} ps_new (vs_new d) X"
  using zviews_agree_new ks_inv_new [of d]
  by (simp add: zmem_def zshapes_def zlinked_def zcovered_def ps_new_def vs_new_def ms_inv_def mac_store_new_def store_inv_def store_new_def
      bits_inv_def bit_store_new_def key_store_new_def ops_ok_def zview_new_prover_def zview_new_verifier_def zview_new_def zflush_default_def Let_def vis_new_def)

lemma zstore_reachable_mem:
  assumes "zstore_reachable iter hash ops d p v" "range_iter iter" "lsb d"
  shows "\<exists>n X. zmem n {} p v X \<and> ks_delta (s_keys v) = d"
  using assms(1)
proof (induction rule: zstore_reachable.induct)
  case init
  have "ks_delta (s_keys (vs_new d)) = d" by (simp add: vs_new_def key_store_new_def Let_def)
  then show ?case using zmem_new [OF assms(3)] by blast
next
  case (op p v o1 p' v')
  then show ?case using zmem_op [OF assms(2) _ op(2-4)] delta_kept [OF op(4) assms(2)] by auto
next
  case (flush p v keys masks macs p1 v1 k tr p' tp v' tv)
  then obtain n X where Z: "zmem n {} p v X" "ks_delta (s_keys v) = d" by blast
  have c: "correlated (ks_delta (s_keys v)) keys masks macs" using flush(2) Z(2) by simp
  obtain p2 v2 where L: "zload iter masks macs keys p v = Inr (p2, v2)" "zmem n (zf_commit (z_flush (p_view p))) p2 v2 X" "p_view p2 = p_view p"
      "ks_delta (s_keys v2) = d"
    using zload_ok [OF assms(2) Z(1) c flush(3)] Z(2) by auto
  have "p1 = p2" "v1 = v2" using flush(4) L(1) by simp_all
  then show ?case using zflush_keeps [OF assms(2), of n p1 v1 X hash ops k tr p' tp v' tv] L(2-4) flush(5) by auto
qed

text \<open>
  C8. The memories of prover and verifier stay linked: after any operations and flushes in any order
  in which the callers meet their obligations (\<open>zsafe\<close>: no data is assigned to a range that holds some,
  the verifier assigns public data after the prover and equal to it, only allocated ranges are
  decoded, an output is set once and to MACs of its pointer bits), their views plan the same flush, every key and MAC at one address
  authenticate the prover's data there with the value in the pointer bit, and all data the verifier
  has is the prover's; what is committed has a key, a MAC and data.
\<close>

theorem zk_memory_linked:
  assumes "zstore_reachable iter hash ops d p v" "range_iter iter" "lsb d"
  shows "zviews_agree (p_view p) (s_view v) \<and>
    (\<forall>i \<in> set_of (ks_keys (s_keys v)) \<inter> set_of (ms_macs (p_macs p)). i \<in> bset (p_data p) \<and>
       items (ms_macs (p_macs p)) ! i = key_auth (items (ks_keys (s_keys v)) ! i) (bits (p_data p) ! i) d \<and>
       mac_pointer (items (ms_macs (p_macs p)) ! i) = bits (p_data p) ! i) \<and>
    (\<forall>i \<in> bset (s_data v). i \<in> bset (p_data p) \<and> bits (s_data v) ! i = bits (p_data p) ! i) \<and>
    (\<forall>i \<in> zi_complete (z_input (p_view p)) \<union> zo_complete (z_output (p_view p)).
       i \<in> set_of (ks_keys (s_keys v)) \<and> i \<in> set_of (ms_macs (p_macs p)) \<and> i \<in> bset (p_data p))"
proof -
  obtain n X where Z: "zmem n {} p v X" "ks_delta (s_keys v) = d" using zstore_reachable_mem [OF assms] by blast
  note m = zmemD [OF Z(1)]
  note l = zlinkedD [OF m(3)] and cv = zcoveredD [OF m(4)]
  have "items (ms_macs (p_macs p)) ! i = key_auth (items (ks_keys (s_keys v)) ! i) (bits (p_data p) ! i) d \<and> mac_pointer (items (ms_macs (p_macs p)) ! i) = bits (p_data p) ! i"
    if "i \<in> set_of (ks_keys (s_keys v)) \<inter> set_of (ms_macs (p_macs p))" for i
  proof -
    have "i \<in> bset (p_data p)" using that cv(10) by blast
    moreover have w: "wire_ok d (items (ks_keys (s_keys v)) ! i) (items (ms_macs (p_macs p)) ! i) (X i)" using that l(3) [of i] Z(2) by simp
    ultimately show ?thesis using l(1) [of i] wire_ok_pointer [OF w assms(3)] by (simp add: wire_ok_def mac_ok_iff_auth mac_pointer_def)
  qed
  moreover have "\<forall>i \<in> bset (s_data v). i \<in> bset (p_data p) \<and> bits (s_data v) ! i = bits (p_data p) ! i" using l(1,2) cv(12) by auto
  moreover have "i \<in> bset (p_data p)" if "i \<in> set_of (ks_keys (s_keys v)) \<inter> set_of (ms_macs (p_macs p))" for i using that cv(10) by blast
  moreover have "i \<in> set_of (ks_keys (s_keys v)) \<and> i \<in> set_of (ms_macs (p_macs p)) \<and> i \<in> bset (p_data p)"
    if "i \<in> zi_complete (z_input (p_view p)) \<union> zo_complete (z_output (p_view p))" for i using that cv(1-3) by blast
  ultimately show ?thesis using m(2) by blast
qed

text \<open>
  C9. A flush succeeds from every pair of memories reachable under the callers' obligations \<open>zsafe\<close>
  and takes at most two rounds: with
  correlated OTs for the inputs to commit, storing them and exchanging flush messages never fails at
  either party, the transcripts stay equal, and afterwards nothing wants a flush, all planned inputs
  are committed, and the verifier knows everything to be proven and everything marked for decoding
  that the flush committed.
\<close>

theorem zk_flush_returns:
  assumes "zstore_reachable iter hash ops d p v" "range_iter iter" "lsb d" "correlated d keys masks macs" "length keys = ps_mac_count p"
  shows "\<exists>p1 v1 p' v' tr'. zload iter masks macs keys p v = Inr (p1, v1) \<and>
    zflush_loop iter hash ops 2 (p1, tr) (v1, tr) = Inr (Some ((p', tr'), v', tr')) \<and>
    \<not> ps_wants_flush p' \<and> \<not> vs_wants_flush v' \<and>
    zi_complete (z_input (p_view p')) = zi_complete (z_input (p_view p)) \<union> zf_commit (z_flush (p_view p)) \<and>
    bset (s_data v') = bset (s_data v) \<union> zf_prove (z_flush (p_view p)) \<union> (zf_commit (z_flush (p_view p)) \<inter> zd_all (z_decode (p_view p))) \<and>
    (\<forall>i \<in> bset (s_data v'). bits (s_data v') ! i = bits (p_data p) ! i)"
proof -
  obtain n X where Z: "zmem n {} p v X" "ks_delta (s_keys v) = d" using zstore_reachable_mem [OF assms(1-3)] by blast
  have c: "correlated (ks_delta (s_keys v)) keys masks macs" using assms(4) Z(2) by simp
  obtain p1 v1 where L: "zload iter masks macs keys p v = Inr (p1, v1)" "zmem n (zf_commit (z_flush (p_view p))) p1 v1 X" "p_view p1 = p_view p"
      "s_data v1 = s_data v" "p_data p1 = p_data p"
    using zload_ok [OF assms(2) Z(1) c assms(5)] by auto
  have L2: "zmem n (zf_commit (z_flush (p_view p1))) p1 v1 X" using L(2,3) by simp
  obtain p' v' tr' where F: "zflush_loop iter hash ops 2 (p1, tr) (v1, tr) = Inr (Some ((p', tr'), v', tr'))" "zmem n {} p' v' X"
    "\<not> ps_wants_flush p'" "\<not> vs_wants_flush v'" "zi_complete (z_input (p_view p')) = zi_complete (z_input (p_view p)) \<union> zf_commit (z_flush (p_view p))"
    "bset (s_data v') = bset (s_data v) \<union> zf_prove (z_flush (p_view p)) \<union> (zf_commit (z_flush (p_view p)) \<inter> zd_all (z_decode (p_view p)))"
    "p_data p' = p_data p"
    using zflush_two [OF assms(2) L2, of hash ops 0 tr] L(3-5) by (auto simp: numeral_2_eq_2)
  have "bits (s_data v') ! i = bits (p_data p) ! i" if "i \<in> bset (s_data v')" for i
    using that zlinkedD(1,2) [OF zmemD(3) [OF F(2)], of i] zcoveredD(12) [OF zmemD(4) [OF F(2)]] F(7) by auto
  with L(1) F(1,3-6) show ?thesis by blast
qed

section \<open>An example\<close>

fun zstore_run :: "(nat set \<Rightarrow> (nat \<times> nat) list) \<Rightarrow> zstore_op list \<Rightarrow> prover_store \<times> verifier_store \<Rightarrow> (prover_store \<times> verifier_store) option" where
  "zstore_run iter [] pv = Some pv"
| "zstore_run iter (op # ops) (p, v) =
     (if zsafe op p v then
        case (prover_store_op iter op p, verifier_store_op iter op v) of (Inr p, Inr v) \<Rightarrow> zstore_run iter ops (p, v) | _ \<Rightarrow> None
      else None)"

lemma zstore_run_reachable:
  "zstore_run iter os (p, v) = Some (p', v') \<Longrightarrow> zstore_reachable iter hash ops d p v \<Longrightarrow> zstore_reachable iter hash ops d p' v'"
  by (induction os arbitrary: p v) (auto split: if_splits sum.splits intro: zstore_reachable.op)

definition demo_zops :: "zstore_op list" where
  "demo_zops = (let sl = new_unchecked 0 1 in [SAlloc 1, SMarkPrivate sl, SAssignProver sl [True], SCommit sl, SDecode sl])"

lemma demo_zstores:
  obtains p v where "zstore_reachable unit_ranges hash ops d p v" "z_flush (p_view p) = \<lparr>zf_commit = {0}, zf_prove = {}\<rparr>"
    "zd_all (z_decode (p_view p)) = {0}" "bset (s_data v) = {}" "bits (p_data p) = [True]" "set_of (ms_macs (p_macs p)) = {}"
proof -
  have u: "unit_ranges {} = []" by (simp add: unit_ranges_def)
  have r: "to_range (new_unchecked 0 (Suc 0)) = {0}" "ptr (new_unchecked 0 (Suc 0)) = 0" "ssize (new_unchecked 0 (Suc 0)) = 1"
    by (auto simp: to_range_def new_unchecked_def)
  obtain p v where "zstore_run unit_ranges demo_zops (ps_new, vs_new d) = Some (p, v)" and f: "z_flush (p_view p) = \<lparr>zf_commit = {0}, zf_prove = {}\<rparr>"
    "zd_all (z_decode (p_view p)) = {0}" "bset (s_data v) = {}" "bits (p_data p) = [True]" "set_of (ms_macs (p_macs p)) = {}"
    by (simp add: demo_zops_def ps_new_def vs_new_def ps_alloc_def vs_alloc_def zview_alloc_input_def zview_alloc_def vis_alloc_def
        zview_new_prover_def zview_new_verifier_def zview_new_def vis_new_def ms_alloc_def ks_alloc_def store_alloc_def bits_alloc_def
        mac_store_new_def key_store_new_def store_new_def bit_store_new_def ps_mark_private_def vs_mark_blind_def zmark_private_def zmark_blind_def
        set_private_def set_blind_def vis_is_set_any_def vis_is_set_def is_visible_def assert_allocated_def zview_assign_def ps_assign_def
        bits_try_set_def copy_into_def ps_commit_def vs_commit_def zview_commit_def ps_decode_def vs_decode_def zview_decode_def bits_try_get_def
        index_slice_def subslice_def decode_new_def decode_send_def ps_is_alloc_def zview_is_alloc_def slice_range_def slice_end_def
        zflush_default_def u r Let_def cong: if_cong)
  with that zstore_run_reachable [OF this(1) zstore_reachable.init] show thesis by blast
qed

definition demo_transcript :: "(byte list, nat) transcript_ops" where
  "demo_transcript = \<lparr>tr_update = (@), tr_finalize = length, tr_chi = (\<lambda>s i j. of_nat (s + i + j)), tr_bits = map of_bool\<rparr>"

lemma demo_correlated: "correlated d [4] [False] [4]"
  by (simp add: correlated_def key_auth_def BLOCK_ZERO_def)

theorem zk_flush_returns_witness:
  "\<exists>p v p1 v1 p' v' tr'. bset (s_data v) = {} \<and> zload unit_ranges [False] [4] [4] p v = Inr (p1, v1) \<and>
     zflush_loop unit_ranges tail_hash demo_transcript 2 (p1, []) (v1, []) = Inr (Some ((p', tr'), v', tr')) \<and>
     bset (s_data v') = {0} \<and> bits (s_data v') ! 0 = True"
proof -
  obtain p v where d: "zstore_reachable unit_ranges tail_hash demo_transcript (delta_new 6) p v" "z_flush (p_view p) = \<lparr>zf_commit = {0}, zf_prove = {}\<rparr>"
    "zd_all (z_decode (p_view p)) = {0}" "bset (s_data v) = {}" "bits (p_data p) = [True]" "set_of (ms_macs (p_macs p)) = {}"
    by (rule demo_zstores)
  have c: "length [4 :: block] = ps_mac_count p" using d(2) by (simp add: ps_mac_count_def)
  obtain p1 v1 p' v' tr' where r: "zload unit_ranges [False] [4] [4] p v = Inr (p1, v1)"
    "zflush_loop unit_ranges tail_hash demo_transcript 2 (p1, []) (v1, []) = Inr (Some ((p', tr'), v', tr'))"
    "bset (s_data v') = bset (s_data v) \<union> zf_prove (z_flush (p_view p)) \<union> (zf_commit (z_flush (p_view p)) \<inter> zd_all (z_decode (p_view p)))"
    "\<forall>i \<in> bset (s_data v'). bits (s_data v') ! i = bits (p_data p) ! i"
    using zk_flush_returns [OF d(1) range_iter_units lsb_delta_new demo_correlated c, of "[]"] by blast
  then have "bset (s_data v') = {0}" "bits (s_data v') ! 0 = True" using d(2-5) by simp_all
  with d(4) r(1,2) show ?thesis by blast
qed

lemma demo_flushed:
  obtains p v where "zstore_reachable unit_ranges tail_hash demo_transcript (delta_new 6) p v" "0 \<in> zi_complete (z_input (p_view p))"
proof -
  obtain p v where d: "zstore_reachable unit_ranges tail_hash demo_transcript (delta_new 6) p v" "z_flush (p_view p) = \<lparr>zf_commit = {0}, zf_prove = {}\<rparr>"
    "zd_all (z_decode (p_view p)) = {0}" "bset (s_data v) = {}" "bits (p_data p) = [True]" "set_of (ms_macs (p_macs p)) = {}"
    by (rule demo_zstores)
  obtain n X where Z: "zmem n {} p v X" "ks_delta (s_keys v) = delta_new 6" using zstore_reachable_mem [OF d(1) range_iter_units lsb_delta_new] by blast
  have c: "length [4 :: block] = ps_mac_count p" using d(2) by (simp add: ps_mac_count_def)
  obtain p1 v1 where L: "zload unit_ranges [False] [4] [4] p v = Inr (p1, v1)" "zmem n (zf_commit (z_flush (p_view p1))) p1 v1 X" "p_view p1 = p_view p"
    using zload_ok [OF range_iter_units Z(1) demo_correlated c] by auto
  obtain p' v' tr' where F: "zflush_loop unit_ranges tail_hash demo_transcript (Suc (Suc 0)) (p1, []) (v1, []) = Inr (Some ((p', tr'), v', tr'))"
    "zi_complete (z_input (p_view p')) = zi_complete (z_input (p_view p1)) \<union> zf_commit (z_flush (p_view p1))"
    using zflush_two [OF range_iter_units L(2), of tail_hash demo_transcript 0 "[]"] by blast
  have "0 \<in> zi_complete (z_input (p_view p'))" using F(2) L(3) d(2) by simp
  with that zstore_reachable.flush [OF d(1) demo_correlated c L(1) F(1)] show thesis by blast
qed

theorem zk_memory_linked_witness:
  "\<exists>(p :: prover_store) (v :: verifier_store). 0 \<in> set_of (ks_keys (s_keys v)) \<and> 0 \<in> bset (p_data p) \<and>
     items (ms_macs (p_macs p)) ! 0 = key_auth (items (ks_keys (s_keys v)) ! 0) (bits (p_data p) ! 0) (delta_new 6)"
proof -
  obtain p v where d: "zstore_reachable unit_ranges tail_hash demo_transcript (delta_new 6) p v" "0 \<in> zi_complete (z_input (p_view p))"
    using demo_flushed by blast
  note l = zk_memory_linked [OF d(1) range_iter_units lsb_delta_new]
  have "0 \<in> set_of (ks_keys (s_keys v)) \<and> 0 \<in> set_of (ms_macs (p_macs p)) \<and> 0 \<in> bset (p_data p)" using l d(2) by blast
  then show ?thesis using l by (intro exI [of _ p] exI [of _ v]) simp
qed

section \<open>What an accepted message binds to\<close>

text \<open>What the verifier's own store satisfies, whoever the prover is: the addresses to commit and to prove have keys.\<close>

definition vs_awaits :: "nat \<Rightarrow> verifier_store \<Rightarrow> bool" where
  "vs_awaits n v \<longleftrightarrow>
     (let f = z_flush (s_view v); K = set_of (ks_keys (s_keys v))
      in ks_inv (s_keys v) \<and> bits_inv (s_data v) \<and> length (bits (s_data v)) = n \<and> zf_commit f \<subseteq> K \<inter> {0..<n} \<and> zf_prove f \<subseteq> K \<inter> {0..<n} - bset (s_data v))"

lemma zmem_awaits:
  assumes "zmem n L p v X" "L = zf_commit (z_flush (p_view p))"
  shows "vs_awaits n v"
proof -
  note m = zmemD [OF assms(1)]
  note s = zshapesD [OF m(1)] and c = zcoveredD [OF m(4)] and a = zagreeD [OF m(2)]
  have "zf_commit (z_flush (p_view p)) \<subseteq> {0..<n}" using zview_invD(3,8) [OF a(3)] s(11) by blast
  moreover have "zf_commit (z_flush (p_view p)) \<subseteq> set_of (ks_keys (s_keys v))" using c(4) assms(2) by simp
  ultimately show ?thesis using prove_ready(1,4,5) [OF assms(1)] s(5,10,14) a(10) assms(2) by (auto simp: vs_awaits_def Let_def)
qed

lemma verify_length:
  assumes "ks_inv ks" "proper rs" "set (elems rs) \<subseteq> set_of (ks_keys ks)" "verify hash ks rs bts h = Inr ds"
  shows "length ds = length (elems rs)"
proof -
  have l: "length bts = length (elems rs)" using assms(4) by (auto simp: verify_def ranges_len_elems result_simps)
  show ?thesis
  proof (cases "rs = []")
    case True
    then show ?thesis using assms(4) l by (simp add: verify_def result_simps)
  next
    case False
    then show ?thesis using assms verify_loop_ok [of ks rs 0 bts] l
      by (auto simp: verify_def ks_inv_def result_simps Let_def split: if_splits)
  qed
qed

text \<open>The MACs, under the verifier's keys, of the bits it has decoded at the addresses \<open>S\<close>.\<close>

definition decoded_macs :: "(nat set \<Rightarrow> (nat \<times> nat) list) \<Rightarrow> verifier_store \<Rightarrow> nat set \<Rightarrow> block list" where
  "decoded_macs iter v S =
     map (\<lambda>i. key_auth (items (ks_keys (s_keys v)) ! i) (bits (s_data v) ! i) (ks_delta (s_keys v))) (elems (iter S))"

lemma map2_map_self: "map2 f xs (map g xs) = map (\<lambda>x. f x (g x)) xs"
  by (induction xs) simp_all

lemma receive_binds:
  assumes it: "range_iter iter" and v: "vs_awaits n v" and u: "prover_flush_try_from u = Inr m"
    and r: "vs_receive_flush iter hash ops v m tr = Inr (v', tr')"
  defines "S \<equiv> zf_prove (z_flush (s_view v))"
  shows "pf_view m = z_flush (s_view v) \<and> bset (s_data v') = bset (s_data v) \<union> S \<and> (S \<noteq> {} \<longrightarrow> pf_mac_proof m \<noteq> None) \<and>
    (S \<noteq> {} \<longrightarrow> (\<forall>bts h. pf_mac_proof m = Some (bts, h) \<longrightarrow> length bts = card S \<and> h = hash (mac_bytes (decoded_macs iter v' S)))) \<and>
    ks_delta (s_keys v') = ks_delta (s_keys v)"
proof -
  let ?f = "z_flush (s_view v)" let ?c = "zf_commit ?f"
  have V: "ks_inv (s_keys v)" "bits_inv (s_data v)" "length (bits (s_data v)) = n" "?c \<subseteq> set_of (ks_keys (s_keys v))" "?c \<subseteq> {0..<n}"
    "S \<subseteq> set_of (ks_keys (s_keys v))" "S \<subseteq> {0..<n}" "S \<inter> bset (s_data v) = {}"
    using v by (auto simp: vs_awaits_def Let_def S_def)
  note i = range_iterD [OF it finite_subset [OF V(5) finite_atLeastLessThan]] and j = range_iterD [OF it finite_subset [OF V(7) finite_atLeastLessThan]]
  have view: "pf_view m = ?f" using r by (auto simp: vs_receive_flush_def Let_def split: if_splits)
  have len: "length (pf_adjust m) = card ?c" "card S = (case pf_mac_proof m of Some (bts, _) \<Rightarrow> length bts | None \<Rightarrow> 0)"
    using u view by (cases u; auto simp: prover_flush_try_from_def Let_def S_def split: if_splits)+
  obtain g where g: "pf_adjust m = map g (elems (iter ?c))" using list_as_map [OF i(2), of "pf_adjust m"] len(1) i(4) by auto
  obtain st where st: "fill_loop ks_adjust ([] @ map g (elems (iter ?c))) (length ([] :: bool list)) (iter ?c) (s_keys v) = Inr ((s_keys v)\<lparr>ks_keys := st\<rparr>)"
      "store_inv st" "store_abs st = override (store_abs (ks_keys (s_keys v))) (set (elems (iter ?c))) (\<lambda>i. key_adjust (items (ks_keys (s_keys v)) ! i) (g i) (ks_delta (s_keys v)))"
    using adjust_keys [OF i(1,2), of "s_keys v" "[]" g] V(1,4) i(3) by (auto simp: ks_inv_def)
  let ?ks = "(s_keys v)\<lparr>ks_keys := st\<rparr>"
  have ks: "ks_inv ?ks" "set_of st = set_of (ks_keys (s_keys v))" using override_items(1) [OF st(3)] V(1,4) i(3) st(2) by (auto simp: ks_inv_def)
  define R where "R = (case pf_mac_proof m of None \<Rightarrow> Inr (s_data v)
     | Some (bts, prf) \<Rightarrow> bindR (map_err VsKeyStore (verify hash ?ks (iter S) bts prf)) (\<lambda>bts. map_err VsStore (fill_loop bits_try_set bts 0 (iter S) (s_data v))))"
  have pend: "s_pending v" using r by (auto simp: vs_receive_flush_def split: if_splits)
  have fl: "fill_loop ks_adjust (pf_adjust m) 0 (iter ?c) (s_keys v) = Inr ?ks" using st(1) g by simp
  let ?tr = "tr_update ops tr (tr_bits ops (pf_adjust m))"
  have eq: "vs_receive_flush iter hash ops v m tr = bindR R (\<lambda>data.
      bindR (vs_flush_decode (v\<lparr>s_keys := ?ks, s_data := data, s_view := zcomplete_flush (s_view v) ?f\<rparr>)) (\<lambda>s. Inr (s\<lparr>s_pending := False\<rparr>, ?tr)))"
    by (cases "pf_mac_proof m") (auto simp: vs_receive_flush_def pend view fl R_def S_def Let_def split: prod.splits)
  have keep: "s_data w = s_data u \<and> s_keys w = s_keys u" if "vs_flush_decode u = Inr w" for u w
    using that by (auto simp: vs_flush_decode_def result_simps)
  obtain data w where "R = Inr data" "vs_flush_decode (v\<lparr>s_keys := ?ks, s_data := data, s_view := zcomplete_flush (s_view v) ?f\<rparr>) = Inr w" "v' = w\<lparr>s_pending := False\<rparr>"
    using r unfolding eq by (auto simp only: bindR_eq_Inr sum.inject prod.inject)
  then have D: "R = Inr data" "s_data v' = data" "s_keys v' = ?ks" using keep by auto
  show ?thesis
  proof (cases "pf_mac_proof m")
    case None
    then have "S = {}" using len(2) finite_subset [OF V(7)] by simp
    then show ?thesis using None view D by (simp add: R_def)
  next
    case (Some pf)
    then obtain bts h where pf: "pf_mac_proof m = Some (bts, h)" by (cases pf) auto
    obtain ds where ds: "verify hash ?ks (iter S) bts h = Inr ds" "fill_loop bits_try_set ds 0 (iter S) (s_data v) = Inr data"
      using D(1) pf by (auto simp: R_def result_simps)
    have ld: "length ds = card S" using verify_length [OF ks(1) j(1) _ ds(1)] V(6) ks(2) j(3,4) by simp
    obtain X where X: "ds = map X (elems (iter S))" using list_as_map [OF j(2), of ds] ld j(4) by auto
    obtain sd where sd: "fill_loop bits_try_set (map X (elems (iter S))) 0 (iter S) (s_data v) = Inr sd" "bits_abs sd = override (bits_abs (s_data v)) S X"
      using fill_bits [OF it V(2,8), of X] V(3,7) by auto
    have ed: "data = sd" using ds(2) sd(1) X by simp
    note od = override_bits [OF sd(2)]
    have "h = hash (mac_bytes (decoded_macs iter v' S))" "length bts = card S" if "S \<noteq> {}"
    proof -
      have ne: "iter S \<noteq> []" using that j(3) by auto
      have E: "set (elems (iter S)) \<subseteq> set_of (ks_keys ?ks)" using V(6) ks(2) j(3) by simp
      note o = verify_opens [OF ks(1) j(1) E ne ds(1)]
      have "bits data ! i = X i" if "i \<in> S" for i using od that by (simp add: ed)
      then have "opened_macs ?ks (iter S) ds = decoded_macs iter v' S"
        using j(3) by (simp add: opened_macs_def decoded_macs_def X D(2,3) map2_map_self)
      then show "h = hash (mac_bytes (decoded_macs iter v' S))" "length bts = card S" using o j(4) by simp_all
    qed
    then show ?thesis using pf view D(2,3) od(1) ed by auto
  qed
qed

text \<open>
  C10. What the verifier accepts from any prover.  A flush message that passes the checks on its size and
  is accepted announces the flush the verifier planned; it opens exactly what was to be proven, and
  if that is anything it carries a proof, which is the hash of the MACs of the bits the verifier has
  decoded, under its own keys as adjusted by what the prover committed.  So a prover that hashed
  MACs \<open>ms\<close> to make its proof had at every address the MAC of the very bit that was decoded, or else
  \<open>ms\<close> and the MACs of the decoded bits are two different strings of the same length with the same
  hash.  Nothing is assumed of the hash.
\<close>

theorem zk_receive_sound:
  fixes v :: verifier_store
  defines "S \<equiv> zf_prove (z_flush (s_view v))"
  assumes "range_iter iter" "vs_awaits n v" "prover_flush_try_from u = Inr m" "vs_receive_flush iter hash ops v m tr = Inr (v', tr')"
  shows "pf_view m = z_flush (s_view v) \<and> bset (s_data v') = bset (s_data v) \<union> S \<and>
    (S \<noteq> {} \<longrightarrow> (\<exists>bts h. pf_mac_proof m = Some (bts, h) \<and> length bts = card S \<and> h = hash (mac_bytes (decoded_macs iter v' S)) \<and>
       (\<forall>ms. h = hash (mac_bytes ms) \<and> length ms = card S \<longrightarrow>
          (\<forall>j < card S. ms ! j = key_auth (items (ks_keys (s_keys v')) ! (elems (iter S) ! j)) (bits (s_data v') ! (elems (iter S) ! j)) (ks_delta (s_keys v))) \<or>
          mac_bytes ms \<noteq> mac_bytes (decoded_macs iter v' S) \<and> length (mac_bytes ms) = length (mac_bytes (decoded_macs iter v' S)) \<and>
          hash (mac_bytes ms) = hash (mac_bytes (decoded_macs iter v' S)))))"
proof -
  note b = receive_binds [OF assms(2-5), folded S_def]
  have "S \<subseteq> {0..<n}" using assms(3) by (auto simp: vs_awaits_def S_def Let_def)
  then have "length (elems (iter S)) = card S" using range_iterD(4) [OF assms(2) finite_subset [OF _ finite_atLeastLessThan]] by blast
  then have l: "length (decoded_macs iter v' S) = card S" by (simp add: decoded_macs_def)
  have len: "length (mac_bytes zs) = 16 * length zs" for zs
    using length_concat_rows [of "map to_le_bytes zs" 16] by simp
  have n: "decoded_macs iter v' S ! j =
      key_auth (items (ks_keys (s_keys v')) ! (elems (iter S) ! j)) (bits (s_data v') ! (elems (iter S) ! j)) (ks_delta (s_keys v))"
    if "j < card S" for j
    using that b l by (simp add: decoded_macs_def)
  have e: "(\<forall>j < card S. ms ! j = decoded_macs iter v' S ! j) \<or> mac_bytes ms \<noteq> mac_bytes (decoded_macs iter v' S) \<and>
      length (mac_bytes ms) = length (mac_bytes (decoded_macs iter v' S))" if "length ms = card S" for ms
    using mac_bytes_inject [of ms "decoded_macs iter v' S"] that l by (cases "ms = decoded_macs iter v' S") (simp_all only: len, simp_all)
  have c: "(\<forall>j < card S. ms ! j = key_auth (items (ks_keys (s_keys v')) ! (elems (iter S) ! j)) (bits (s_data v') ! (elems (iter S) ! j)) (ks_delta (s_keys v))) \<or>
      mac_bytes ms \<noteq> mac_bytes (decoded_macs iter v' S) \<and> length (mac_bytes ms) = length (mac_bytes (decoded_macs iter v' S))"
    if "length ms = card S" for ms
    using e [OF that] by (elim disj_forward) (intro allI impI, drule spec, drule (1) mp, erule trans, erule n)
  show ?thesis
  proof (intro conjI impI)
    assume "S \<noteq> {}"
    then obtain bts h where h: "pf_mac_proof m = Some (bts, h)" "length bts = card S" "h = hash (mac_bytes (decoded_macs iter v' S))"
      using b [THEN conjunct2, THEN conjunct2] by (metis not_None_eq surj_pair)
    show "\<exists>bts h. pf_mac_proof m = Some (bts, h) \<and> length bts = card S \<and> h = hash (mac_bytes (decoded_macs iter v' S)) \<and>
       (\<forall>ms. h = hash (mac_bytes ms) \<and> length ms = card S \<longrightarrow>
          (\<forall>j < card S. ms ! j = key_auth (items (ks_keys (s_keys v')) ! (elems (iter S) ! j)) (bits (s_data v') ! (elems (iter S) ! j)) (ks_delta (s_keys v))) \<or>
          mac_bytes ms \<noteq> mac_bytes (decoded_macs iter v' S) \<and> length (mac_bytes ms) = length (mac_bytes (decoded_macs iter v' S)) \<and>
          hash (mac_bytes ms) = hash (mac_bytes (decoded_macs iter v' S)))"
      using h c by (intro exI [of _ bts] exI [of _ h] conjI allI impI) (simp_all only: , blast?)
  qed (use b in blast)+
qed

definition demo_awaiting :: verifier_store where
  "demo_awaiting = \<lparr>s_keys = three_keys, s_data = \<lparr>bits = [False, False, False], bset = {}\<rparr>,
     s_view = zview_new_verifier\<lparr>z_flush := \<lparr>zf_commit = {}, zf_prove = {0, 1, 2}\<rparr>\<rparr>, s_pending = True, s_buffer = [], s_sent = [], s_chans = 0\<rparr>"

lemma unit_ranges_three: "unit_ranges {} = []" "unit_ranges {0, 1, 2} = [(0, 1), (1, 2), (2, 3)]"
  by (simp_all add: unit_ranges_def)

lemma three_keys_verify:
  "verify hash three_keys [(0, 1), (1, 2), (2, 3)] [True, True, True] (hash (mac_bytes [12 XOR delta_new 6, 13, 20 XOR delta_new 6])) =
     Inr [True, False, True]"
proof -
  have "elems [(0, 1), (1, 2), (2, 3)] = [0, 1, 2]" by (simp add: upt_rec)
  then show ?thesis
    using verify_eq [OF three_keys_inv(1), of "[(0, 1), (1, 2), (2, 3)]" hash "[True, True, True]"]
    by (simp del: elems_simps add: three_keys_inv opened_macs_def key_auth_def BLOCK_ZERO_def lsb_def Let_def)
qed

text \<open>Three bits are opened, with any hash whatever.\<close>

theorem zk_receive_sound_witness:
  "\<forall>hash. \<exists>m v' tr'.
     prover_flush_try_from (\<lparr>zf_commit = {}, zf_prove = {0, 1, 2}\<rparr>, [],
       Some ([True, True, True], hash (mac_bytes [12 XOR delta_new 6, 13, 20 XOR delta_new 6]))) = Inr m \<and>
     vs_receive_flush unit_ranges hash demo_transcript demo_awaiting m [] = Inr (v', tr') \<and>
     bset (s_data v') = {0, 1, 2} \<and> bits (s_data v') = [True, False, True] \<and>
     hash (mac_bytes [12 XOR delta_new 6, 13, 20 XOR delta_new 6]) = hash (mac_bytes (decoded_macs unit_ranges v' {0, 1, 2}))"
proof
  fix hash :: hasher
  let ?h = "hash (mac_bytes [12 XOR delta_new 6, 13, 20 XOR delta_new 6])" and ?f = "\<lparr>zf_commit = {}, zf_prove = {0, 1, 2 :: nat}\<rparr>"
  let ?m = "\<lparr>pf_view = ?f, pf_adjust = [], pf_mac_proof = Some ([True, True, True], ?h)\<rparr>"
  have t: "prover_flush_try_from (?f, [], Some ([True, True, True], ?h)) = (Inr ?m :: (string, _) result)"
    by (simp add: prover_flush_try_from_def)
  have two: "{2..<3} = {2 :: nat}" by auto
  obtain v' tr' where r: "vs_receive_flush unit_ranges hash demo_transcript demo_awaiting ?m [] = Inr (v', tr')" "bits (s_data v') = [True, False, True]"
    using three_keys_verify [of hash] two
    by (simp cong: if_cong add: vs_receive_flush_def demo_awaiting_def unit_ranges_three [simplified] from_range_unchecked_def bits_try_set_def
        copy_into_def subslice_def slice_end_def to_range_def vs_flush_decode_def Let_def)
  have w: "vs_awaits 3 demo_awaiting"
    using three_keys_inv(1) by (auto simp: vs_awaits_def demo_awaiting_def bits_inv_def three_keys_inv Let_def)
  have S: "zf_prove (z_flush (s_view demo_awaiting)) = {0, 1, 2}" "bset (s_data demo_awaiting) = {}"
    by (simp_all add: demo_awaiting_def)
  from zk_receive_sound [OF range_iter_units w t r(1), unfolded S] t r
  show "\<exists>m v' tr'. prover_flush_try_from (?f, [], Some ([True, True, True], ?h)) = (Inr m :: (string, _) result) \<and>
      vs_receive_flush unit_ranges hash demo_transcript demo_awaiting m [] = Inr (v', tr') \<and>
      bset (s_data v') = {0, 1, 2} \<and> bits (s_data v') = [True, False, True] \<and> ?h = hash (mac_bytes (decoded_macs unit_ranges v' {0, 1, 2}))"
    by (intro exI [of _ ?m] exI [of _ v'] exI [of _ tr']) auto
qed

end
