(* ===== verification/Cggm.thy ===== *)
theory Cggm
  imports Aes
begin

text \<open>
  The correlated GGM tree of the half-tree construction (\<open>core/src/cggm.rs\<close>).  Nodes are blocks;
  \<open>emp\<close> is the cargo feature that clears the low bit of every leaf.  Shown is that the receiver, who
  holds the sum of the off-path nodes of every level, recomputes every leaf but one.
\<close>

section \<open>The routines\<close>

text \<open>The mask of the first, least significant, byte of a leaf.\<close>

definition LEAF_LSB_MASK :: "bool \<Rightarrow> byte" where
  "LEAF_LSB_MASK emp = (if emp then 0xFE else 0xFF)"

definition mask_leaf_lsb :: "bool \<Rightarrow> block \<Rightarrow> block" where
  "mask_leaf_lsb emp b = b AND (NOT 0xFF OR ucast (LEAF_LSB_MASK emp))"

text \<open>
  The inner loop over one batch of parents \<open>l\<close> and their hashes \<open>h\<close>: the left children replace the
  parents, the right children are the second result, and \<open>tot\<close> collects one side.
\<close>

fun expand_pairs :: "bool \<Rightarrow> bool \<Rightarrow> bool \<Rightarrow> (block \<times> block) list \<Rightarrow> block \<Rightarrow> (block list \<times> block list) \<times> block" where
  "expand_pairs emp right leaf [] tot = (([], []), tot)"
| "expand_pairs emp right leaf ((l, h) # ps) tot =
     (let r = aes_xor l h; l = h;
          l = (if leaf then mask_leaf_lsb emp l else l);
          r = (if leaf then mask_leaf_lsb emp r else r);
          tot = aes_xor tot (if right then r else l);
          ((ls, rs), tot) = expand_pairs emp right leaf ps tot
      in ((l # ls, r # rs), tot))"

fun expand_batches :: "(block \<Rightarrow> block) \<Rightarrow> bool \<Rightarrow> bool \<Rightarrow> bool \<Rightarrow> (block list \<times> block list) list \<Rightarrow> block \<Rightarrow>
    ('e, (block list \<times> block list) \<times> block) result" where
  "expand_batches aes emp right leaf [] tot = Inr (([], []), tot)"
| "expand_batches aes emp right leaf ((left, right_half) # bs) tot =
     bindR (ccr_blocks_to aes left (replicate (length left) 0)) (\<lambda>h.
       let ((ls, rs), tot) = expand_pairs emp right leaf (map fst (zip (zip left h) right_half)) tot
       in bindR (expand_batches aes emp right leaf bs tot) (\<lambda>((ls', rs'), tot). Inr ((ls @ ls', rs @ rs'), tot)))"

definition BATCH :: nat where
  "BATCH = 64"

definition expand_level :: "(block \<Rightarrow> block) \<Rightarrow> bool \<Rightarrow> block list \<Rightarrow> nat \<Rightarrow> bool \<Rightarrow> bool \<Rightarrow> ('e, block \<times> block list) result" where
  "expand_level aes emp nodes n right leaf =
     bindR (subslice nodes 0 n) (\<lambda>left.
       let rest = drop n nodes
       in bindR (subslice rest 0 n) (\<lambda>right_half.
          bindR (expand_batches aes emp right leaf (zip (chunks BATCH left) (chunks BATCH right_half)) 0) (\<lambda>((ls, rs), tot).
            Inr (tot, ls @ rs @ drop n rest))))"

text \<open>One iteration of the loop of \<open>expand\<close>, for level \<open>i\<close>.\<close>

definition cggm_step :: "(block \<Rightarrow> block) \<Rightarrow> bool \<Rightarrow> nat \<Rightarrow> nat \<Rightarrow> block list \<times> block list \<Rightarrow> ('e, block list \<times> block list) result" where
  "cggm_step aes emp depth i = (\<lambda>(leaves, sums).
     let n = 2 ^ (i - 1)
     in bindR (subslice leaves 0 (2 * n)) (\<lambda>nodes.
        bindR (expand_level aes emp nodes n False (i = depth)) (\<lambda>(tot, nodes).
        bindR (upd sums (i - 1) tot) (\<lambda>sums.
          Inr (nodes @ drop (2 * n) leaves, sums)))))"

definition cggm_expand ::
  "(block \<Rightarrow> block) \<Rightarrow> bool \<Rightarrow> block \<Rightarrow> block \<Rightarrow> block list \<Rightarrow> block list \<Rightarrow> ('e, block list \<times> block list) result" where
  "cggm_expand aes emp delta seed leaves sums =
     (let depth = length sums
      in bindR (assertR (depth \<ge> 1)) (\<lambda>_.
         bindR (assertR (length leaves = 2 ^ depth)) (\<lambda>_.
         bindR (upd leaves 0 seed) (\<lambda>leaves.
         bindR (upd leaves 1 (aes_xor delta seed)) (\<lambda>leaves.
         bindR (upd sums 0 seed) (\<lambda>sums.
           foldR (cggm_step aes emp depth) [2..<depth + 1] (leaves, sums)))))))"

text \<open>One iteration of the loop of \<open>expand_punctured\<close>; the state is the buffer and \<open>pos\<close>.\<close>

definition punctured_step ::
  "(block \<Rightarrow> block) \<Rightarrow> bool \<Rightarrow> nat \<Rightarrow> nat \<Rightarrow> block list \<Rightarrow> nat \<Rightarrow> block list \<times> nat \<Rightarrow> ('e, block list \<times> nat) result" where
  "punctured_step aes emp depth index sums i = (\<lambda>(leaves, pos).
     let half = 2 ^ (i - 1); b = (index div 2 ^ (i - 1)) mod 2
     in bindR (subslice leaves 0 (2 * half)) (\<lambda>nodes.
        bindR (expand_level aes emp nodes half (b = 0) (i = depth)) (\<lambda>(tot, nodes).
        bindR (Inr (nodes @ drop (2 * half) leaves)) (\<lambda>leaves.
        bindR (idx leaves pos) (\<lambda>junk.
        bindR (upd leaves pos 0) (\<lambda>leaves.
        bindR (upd leaves (pos + half) 0) (\<lambda>leaves.
        bindR (idx sums (i - 1)) (\<lambda>s.
          let sibling = aes_xor (aes_xor tot junk) s;
              sibling = (if i = depth then mask_leaf_lsb emp sibling else sibling)
          in bindR (upd leaves (pos + (1 - b) * half) sibling) (\<lambda>leaves.
               Inr (leaves, pos + b * half))))))))))"

definition cggm_expand_punctured :: "(block \<Rightarrow> block) \<Rightarrow> bool \<Rightarrow> nat \<Rightarrow> block list \<Rightarrow> block list \<Rightarrow> ('e, block list) result" where
  "cggm_expand_punctured aes emp index sums leaves =
     (let depth = length sums
      in bindR (assertR (depth \<ge> 1)) (\<lambda>_.
         bindR (assertR (length leaves = 2 ^ depth)) (\<lambda>_.
         bindR (assertR (index < length leaves)) (\<lambda>_.
           let b = index mod 2
           in bindR (upd leaves b 0) (\<lambda>leaves.
              bindR (idx sums 0) (\<lambda>s.
              bindR (upd leaves (1 - b) s) (\<lambda>leaves.
              bindR (foldR (punctured_step aes emp depth index sums) [2..<depth + 1] (leaves, b)) (\<lambda>(leaves, pos).
                Inr leaves))))))))"

section \<open>The tree\<close>

text \<open>The nodes of each level of the full tree, in the split layout.\<close>

definition xor_sum :: "block list \<Rightarrow> block" where
  "xor_sum xs = fold (XOR) xs 0"

definition leaf_mask :: "bool \<Rightarrow> nat \<Rightarrow> nat \<Rightarrow> block \<Rightarrow> block" where
  "leaf_mask emp depth i b = (if i = depth then mask_leaf_lsb emp b else b)"

fun level :: "(block \<Rightarrow> block) \<Rightarrow> bool \<Rightarrow> nat \<Rightarrow> block \<Rightarrow> block \<Rightarrow> nat \<Rightarrow> block list" where
  "level aes emp depth delta seed 0 = [delta]"
| "level aes emp depth delta seed (Suc 0) = [seed, delta XOR seed]"
| "level aes emp depth delta seed (Suc (Suc i)) =
     (let ps = level aes emp depth delta seed (Suc i); m = leaf_mask emp depth (Suc (Suc i))
      in map (\<lambda>x. m (ccr aes x)) ps @ map (\<lambda>x. m (x XOR ccr aes x)) ps)"

definition left_sum :: "(block \<Rightarrow> block) \<Rightarrow> bool \<Rightarrow> nat \<Rightarrow> block \<Rightarrow> block \<Rightarrow> nat \<Rightarrow> block" where
  "left_sum aes emp depth delta seed i = xor_sum (take (2 ^ (i - 1)) (level aes emp depth delta seed i))"

text \<open>What the sender's corrections let the receiver know of level \<open>i\<close>: the sum of the side off the path.\<close>

definition off_path_sum :: "block \<Rightarrow> nat \<Rightarrow> block list \<Rightarrow> block list" where
  "off_path_sum delta index sums = map (\<lambda>(i, s). if bit index i then s else s XOR delta) (enumerate 0 sums)"

section \<open>Sums of blocks\<close>

lemma fold_xor: "fold (XOR) xs a = a XOR xor_sum xs" for a :: block
proof (induction xs arbitrary: a)
  case (Cons x xs)
  have "fold (XOR) xs (x XOR a) = x XOR a XOR xor_sum xs" "fold (XOR) xs (x XOR 0) = x XOR 0 XOR xor_sum xs"
    using Cons [of "x XOR a"] Cons [of "x XOR 0"] by (simp_all add: word_xor_ac)
  then show ?case by (simp add: xor_sum_def word_xor_ac)
qed (simp add: xor_sum_def)

lemma xor_sum_simps [simp]: "xor_sum [] = 0" "xor_sum (x # xs) = x XOR xor_sum xs"
  using fold_xor [of xs x] by (simp_all add: xor_sum_def)

lemma xor_sum_append [simp]: "xor_sum (xs @ ys) = xor_sum xs XOR xor_sum ys"
  by (induction xs) (simp_all add: word_xor_ac)

lemma xor_sum_update: "i < length xs \<Longrightarrow> xor_sum (xs[i := y]) = xor_sum xs XOR (xs ! i XOR y)"
  by (induction xs arbitrary: i) (auto simp: xor_simps word_xor_ac split: nat.split)

lemma xor_sum_zip_map: "xor_sum (map (\<lambda>x. f x XOR g x) xs) = xor_sum (map f xs) XOR xor_sum (map g xs)"
  by (induction xs) (simp_all add: word_xor_ac)

lemma leaf_mask_xor: "leaf_mask emp depth i (a XOR b) = leaf_mask emp depth i a XOR leaf_mask emp depth i b"
  by (auto simp: leaf_mask_def mask_leaf_lsb_def intro!: bit_word_eqI simp: bit_and_iff bit_xor_iff)

lemma leaf_mask_idem [simp]: "leaf_mask emp depth i (leaf_mask emp depth i a) = leaf_mask emp depth i a"
  by (simp add: leaf_mask_def mask_leaf_lsb_def and.assoc)

lemma leaf_mask_zero [simp]: "leaf_mask emp depth i 0 = 0"
  by (simp add: leaf_mask_def mask_leaf_lsb_def)

lemma leaf_mask_sum: "xor_sum (map (leaf_mask emp depth i) xs) = leaf_mask emp depth i (xor_sum xs)"
  by (induction xs) (simp_all add: leaf_mask_xor)

section \<open>Expanding a level\<close>

lemma expand_pairs_eq:
  "expand_pairs emp right (i = depth) ps tot =
     (let ls = map (\<lambda>(l, h). leaf_mask emp depth i h) ps; rs = map (\<lambda>(l, h). leaf_mask emp depth i (l XOR h)) ps
      in ((ls, rs), tot XOR xor_sum (if right then rs else ls)))"
  by (induction ps arbitrary: tot) (auto simp: Let_def aes_xor_def leaf_mask_def word_xor_ac split: prod.splits)

definition children :: "(block \<Rightarrow> block) \<Rightarrow> bool \<Rightarrow> nat \<Rightarrow> nat \<Rightarrow> bool \<Rightarrow> block list \<Rightarrow> block list" where
  "children aes emp depth i right = map (\<lambda>x. leaf_mask emp depth i (if right then x XOR ccr aes x else ccr aes x))"

lemma children_simps [simp]:
  "length (children aes emp depth i right ps) = length ps"
  "children aes emp depth i right [] = []"
  "children aes emp depth i right (ps @ qs) = children aes emp depth i right ps @ children aes emp depth i right qs"
  by (simp_all add: children_def)

lemma ccr_blocks_to_ok: "length src = length dst \<Longrightarrow> ccr_blocks_to aes src dst = Inr (map (ccr aes) src)"
  by (simp add: ccr_blocks_to_def ccr_chunks_ok)

lemma expand_batches_eq:
  fixes left :: "block list"
  shows "length right_half = length left \<Longrightarrow> 0 < n \<Longrightarrow>
    expand_batches aes emp right (i = depth) (zip (chunks n left) (chunks n right_half)) tot =
      (Inr ((children aes emp depth i False left, children aes emp depth i True left),
            tot XOR xor_sum (children aes emp depth i right left)) :: ('e, _) result)"
proof (induction "length left" arbitrary: left right_half tot rule: less_induct)
  case less
  show ?case
  proof (cases "left = []")
    case False
    let ?l = "take n left" and ?r = "drop n left" and ?hs = "map (ccr aes) (take n left)"
    let ?c = "children aes emp depth i"
    have ne: "right_half \<noteq> []" using False less.prems(1) by auto
    have z: "map fst (zip (zip ?l ?hs) (take n right_half)) = zip ?l ?hs"
      using less.prems(1) by (simp add: map_fst_zip)
    have ih: "expand_batches aes emp right (i = depth) (zip (chunks n ?r) (chunks n (drop n right_half))) t =
        (Inr ((?c False ?r, ?c True ?r), t XOR xor_sum (?c right ?r)) :: ('e, _) result)" for t
      using False less.prems by (intro less.hyps) auto
    have p: "expand_pairs emp right (i = depth) (zip ?l ?hs) tot = ((?c False ?l, ?c True ?l), tot XOR xor_sum (?c right ?l))"
      unfolding expand_pairs_eq by (simp add: zip_map2 zip_same_conv_map comp_def Let_def children_def)
    have ap: "?c q ?l @ ?c q ?r = ?c q left" for q by (metis append_take_drop_id children_simps(3))
    have "xor_sum (?c right left) = xor_sum (?c right ?l) XOR xor_sum (?c right ?r)"
      by (metis append_take_drop_id children_simps(3) xor_sum_append)
    with less.prems False ne show ?thesis
      by (simp add: chunks_step ccr_blocks_to_ok z p ih ap word_xor_ac)
  qed (use less.prems in simp)
qed

lemma expand_level_eq:
  assumes "length nodes = 2 * n"
  shows "expand_level aes emp nodes n right (i = depth) =
    Inr (xor_sum (children aes emp depth i right (take n nodes)),
         children aes emp depth i False (take n nodes) @ children aes emp depth i True (take n nodes))"
  using assms by (simp add: expand_level_def subslice_def expand_batches_eq BATCH_def)

section \<open>The levels of the full tree\<close>

lemma level_Suc:
  "level aes emp depth delta seed (Suc (Suc i)) =
     (let ps = level aes emp depth delta seed (Suc i)
      in children aes emp depth (Suc (Suc i)) False ps @ children aes emp depth (Suc (Suc i)) True ps)"
  by (simp add: children_def Let_def)

declare level.simps(3) [simp del]

lemma length_level [simp]: "length (level aes emp depth delta seed i) = 2 ^ i"
  by (induction aes emp depth delta seed i rule: level.induct) (simp_all add: level_Suc Let_def)

lemma children_total: "xor_sum (children aes emp depth i False ps) XOR xor_sum (children aes emp depth i True ps) = leaf_mask emp depth i (xor_sum ps)"
proof -
  have "xor_sum (children aes emp depth i True ps) = xor_sum (map (leaf_mask emp depth i) ps) XOR xor_sum (children aes emp depth i False ps)"
    unfolding children_def by (simp add: leaf_mask_xor xor_sum_zip_map)
  then show ?thesis by (simp add: leaf_mask_sum xor_simps word_xor_ac)
qed

text \<open>The nodes of every level add up to \<open>delta\<close>; the masked leaves to the masked \<open>delta\<close>.\<close>

lemma level_total: "i < depth \<Longrightarrow> xor_sum (level aes emp depth delta seed i) = delta"
proof (induction aes emp depth delta seed i rule: level.induct)
  case (3 aes emp depth delta seed i)
  then show ?case by (simp add: level_Suc Let_def children_total) (simp add: leaf_mask_def)
qed (simp_all add: xor_simps word_xor_ac)

lemma level_total_last:
  "0 < depth \<Longrightarrow> xor_sum (level aes emp depth delta seed depth) = (if depth = 1 then delta else mask_leaf_lsb emp delta)"
proof (cases depth rule: nat.exhaust)
  case (Suc k)
  then show ?thesis
  proof (cases k)
    case (Suc j)
    then show ?thesis
      using level_total [of "Suc j" "Suc (Suc j)" aes emp delta seed] \<open>depth = Suc k\<close>
      by (simp add: level_Suc Let_def children_total) (simp add: leaf_mask_def)
  qed (simp add: xor_simps word_xor_ac)
qed simp

lemma left_sum_Suc:
  "left_sum aes emp depth delta seed (Suc (Suc i)) =
    xor_sum (children aes emp depth (Suc (Suc i)) False (level aes emp depth delta seed (Suc i)))"
  by (simp add: left_sum_def level_Suc Let_def)

text \<open>\<open>expand\<close> computes the leaves of the tree and the left sums of its levels.\<close>

lemma cggm_step_ok:
  assumes "length (rest :: block list) \<ge> 2 ^ Suc i" "length sums > Suc i"
  shows "cggm_step aes emp depth (Suc (Suc i)) (level aes emp depth delta seed (Suc i) @ rest, sums) =
    Inr (level aes emp depth delta seed (Suc (Suc i)) @ drop (2 ^ Suc i) rest,
         sums[Suc i := left_sum aes emp depth delta seed (Suc (Suc i))])"
  using assms by (simp add: cggm_step_def subslice_def expand_level_eq level_Suc Let_def left_sum_Suc)

lemma cggm_loop:
  fixes rest :: "block list"
  assumes "length rest = 2 ^ depth - 2" "length sums = depth" "Suc k \<le> depth"
  shows "foldR (cggm_step aes emp depth) [2..<Suc k + 1] (level aes emp depth delta seed 1 @ rest, sums[0 := left_sum aes emp depth delta seed 1]) =
    Inr (level aes emp depth delta seed (Suc k) @ drop (2 ^ Suc k - 2) rest,
         map (\<lambda>i. left_sum aes emp depth delta seed (Suc i)) [0..<Suc k] @ drop (Suc k) sums)"
  using assms(3)
proof (induction k)
  case 0
  then show ?case using assms(2) by (cases sums) auto
next
  case (Suc k)
  have pow: "(2 :: nat) ^ Suc (Suc k) \<le> 2 ^ depth" using Suc.prems by (intro power_increasing) simp_all
  define p :: nat where "p = 2 ^ k"
  have p: "1 \<le> p" "(2 :: nat) ^ Suc k = 2 * p" "(2 :: nat) ^ Suc (Suc k) = 4 * p" by (simp_all add: p_def)
  have l: "2 ^ Suc k \<le> length (drop (2 ^ Suc k - 2) rest)" using pow assms(1) p by simp
  have d: "drop (2 ^ Suc k) (drop (2 ^ Suc k - 2) rest) = drop (2 ^ Suc (Suc k) - 2) rest"
    unfolding p using p(1) by (simp add: drop_drop algebra_simps)
  let ?pre = "map (\<lambda>i. left_sum aes emp depth delta seed (Suc i)) [0..<Suc k]"
  have u: "(?pre @ drop (Suc k) sums)[Suc k := x] = ?pre @ x # drop (Suc (Suc k)) sums" for x
    using Suc.prems assms(2) by (simp add: list_update_append Cons_nth_drop_Suc [symmetric] del: upt_Suc)
  have upt: "[2..<Suc (Suc k) + 1] = [2..<Suc k + 1] @ [Suc (Suc k)]" by simp
  have pre: "?pre @ x # xs = map (\<lambda>i. left_sum aes emp depth delta seed (Suc i)) [0..<Suc (Suc k)] @ xs"
    if "x = left_sum aes emp depth delta seed (Suc (Suc k))" for x xs
    using that by simp
  have "length (?pre @ drop (Suc k) sums) > Suc k" using Suc.prems assms(2) by simp
  note st = cggm_step_ok [OF l this, of aes emp depth delta seed, unfolded d u pre [OF refl]]
  have "Suc k \<le> depth" using Suc.prems by simp
  then show ?case
    by (simp only: upt foldR_append Suc.IH bindR_simps foldR.simps st)
qed

lemma cggm_expand_ok:
  assumes "1 \<le> length sums" "length leaves = 2 ^ length sums"
  shows "cggm_expand aes emp delta seed leaves sums =
    Inr (level aes emp (length sums) delta seed (length sums),
         map (\<lambda>i. left_sum aes emp (length sums) delta seed (Suc i)) [0..<length sums])"
proof -
  let ?n = "length sums"
  obtain k where k: "?n = Suc k" using assms(1) by (cases "length sums") auto
  have "2 \<le> length leaves" using assms(2) k by (simp add: self_le_power)
  then obtain a b rest where lv: "leaves = a # b # rest" by (cases leaves; cases "tl leaves") auto
  have one: "level aes emp ?n delta seed 1 = [seed, delta XOR seed]" "left_sum aes emp ?n delta seed 1 = seed"
    by (simp_all add: left_sum_def)
  have r: "length rest = 2 ^ ?n - 2" using assms(2) lv by simp
  from cggm_loop [OF r refl, of k aes emp delta seed] have
    "foldR (cggm_step aes emp ?n) [2..<?n + 1] (seed # (delta XOR seed) # rest, sums[0 := seed]) =
     Inr (level aes emp ?n delta seed ?n, map (\<lambda>i. left_sum aes emp ?n delta seed (Suc i)) [0..<?n])"
    unfolding one using r k by simp
  moreover have "0 < ?n" using k by simp
  ultimately show ?thesis using assms by (simp add: cggm_expand_def lv aes_xor_def Let_def)
qed

section \<open>The punctured tree\<close>

text \<open>The position of the path in level \<open>i\<close>.\<close>

lemma path_Suc: "index mod 2 ^ Suc k = index mod 2 ^ k + (index div 2 ^ k) mod 2 * 2 ^ k" for index :: nat
  using mod_mult2_eq [of index "2 ^ k" 2] by (simp add: mult.commute add.commute)

lemma children_update: "pos < length ps \<Longrightarrow>
    children aes emp depth i right (ps[pos := 0]) = (children aes emp depth i right ps)[pos := leaf_mask emp depth i (ccr aes 0)]"
  by (simp add: children_def map_update)

lemma off_path_nth:
  "i < length sums \<Longrightarrow> off_path_sum delta index sums ! i = (if bit index i then sums ! i else sums ! i XOR delta)"
  by (simp add: off_path_sum_def nth_enumerate_eq)

lemma sibling_right:
  assumes "xor_sum L XOR xor_sum R = m d" "m (m d) = m d" "\<And>a b :: block. m (a XOR b) = m a XOR m b" "m r = r"
  shows "m ((xor_sum R XOR (r XOR j)) XOR j XOR (xor_sum L XOR d)) = r"
proof -
  have "xor_sum R = xor_sum L XOR m d" unfolding assms(1) [symmetric] by (simp add: xor_simps)
  then have "(xor_sum R XOR (r XOR j)) XOR j XOR (xor_sum L XOR d) = r XOR (m d XOR d)"
    by (simp add: word_xor_ac xor_simps)
  then show ?thesis by (simp add: assms)
qed

lemma punctured_step_ok:
  fixes rest :: "block list" and k depth index :: nat and aes :: "block \<Rightarrow> block" and emp :: bool and delta seed :: block
  defines "P \<equiv> level aes emp depth delta seed (Suc k)" and "pos \<equiv> index mod 2 ^ Suc k"
  assumes len: "length rest \<ge> 2 ^ Suc k" and k: "Suc (Suc k) \<le> depth" "Suc k < length sums"
    and s: "sums ! Suc k = (let s = left_sum aes emp depth delta seed (Suc (Suc k)) in if bit index (Suc k) then s else s XOR delta)"
  shows "punctured_step aes emp depth index sums (Suc (Suc k)) (P[pos := 0] @ rest, pos) =
    Inr ((level aes emp depth delta seed (Suc (Suc k)))[index mod 2 ^ Suc (Suc k) := 0] @ drop (2 ^ Suc k) rest, index mod 2 ^ Suc (Suc k))"
proof -
  let ?half = "2 ^ Suc k :: nat" and ?m = "leaf_mask emp depth (Suc (Suc k))" and ?J = "leaf_mask emp depth (Suc (Suc k)) (ccr aes 0)"
  define L R where "L = children aes emp depth (Suc (Suc k)) False P" and "R = children aes emp depth (Suc (Suc k)) True P"
  have lP: "length P = ?half" by (simp add: P_def del: power_Suc)
  have lL: "length L = ?half" "length R = ?half" by (simp_all add: L_def R_def lP)
  have pos: "pos < ?half" by (simp add: pos_def)
  have lev: "level aes emp depth delta seed (Suc (Suc k)) = L @ R" by (simp add: level_Suc P_def L_def R_def Let_def)
  have ex: "expand_level aes emp (P[pos := 0] @ take ?half rest) ?half right (Suc (Suc k) = depth) =
      Inr (xor_sum (if right then R[pos := ?J] else L[pos := ?J]), L[pos := ?J] @ R[pos := ?J])" for right
    using len pos lP
    by (simp add: expand_level_eq children_update L_def R_def del: power_Suc)
  have tot: "xor_sum L XOR xor_sum R = ?m delta"
    unfolding L_def R_def children_total P_def using level_total [of "Suc k" depth] k by simp
  have mem: "?m (L ! pos) = L ! pos" "?m (R ! pos) = R ! pos"
    using pos lP by (simp_all add: L_def R_def children_def)
  have sib: "(if Suc (Suc k) = depth then mask_leaf_lsb emp x else x) = ?m x" for x by (simp add: leaf_mask_def)
  have ls: "left_sum aes emp depth delta seed (Suc (Suc k)) = xor_sum L" by (simp add: left_sum_Suc L_def P_def)
  show ?thesis
  proof (cases "bit index (Suc k)")
    case True
    then have b: "(index div ?half) mod 2 = 1" by (simp add: bit_iff_odd odd_iff_mod_2_eq_one del: power_Suc)
    have x: "?m (aes_xor (aes_xor (xor_sum (L[pos := ?J])) ?J) (xor_sum L)) = L ! pos"
      using mem pos lL by (simp add: aes_xor_def xor_sum_update word_xor_ac xor_simps del: power_Suc)
    show ?thesis
      unfolding path_Suc [of index "Suc k"] b lev pos_def [symmetric]
      using len lP lL pos k s True
      by (simp add: punctured_step_def subslice_def b ex sib ls x [unfolded aes_xor_def] nth_append list_update_append Let_def aes_xor_def del: power_Suc)
  next
    case False
    then have b: "(index div ?half) mod 2 = 0" by (simp add: bit_iff_odd even_iff_mod_2_eq_zero del: power_Suc)
    have x: "?m (aes_xor (aes_xor (xor_sum (R[pos := ?J])) ?J) (xor_sum L XOR delta)) = R ! pos"
      using sibling_right [OF tot leaf_mask_idem leaf_mask_xor mem(2), of ?J] pos lL
      by (simp add: aes_xor_def xor_sum_update word_xor_ac del: power_Suc)
    show ?thesis
      unfolding path_Suc [of index "Suc k"] b lev pos_def [symmetric]
      using len lP lL pos k s False
      by (simp add: punctured_step_def subslice_def b ex sib ls x [unfolded aes_xor_def] nth_append list_update_append Let_def aes_xor_def del: power_Suc)
  qed
qed

lemma punctured_loop:
  fixes rest :: "block list"
  assumes "length rest = 2 ^ depth - 2" "length sums = depth" "Suc k \<le> depth"
    and s: "\<And>i. i < depth \<Longrightarrow> sums ! i = (let s = left_sum aes emp depth delta seed (Suc i) in if bit index i then s else s XOR delta)"
  shows "foldR (punctured_step aes emp depth index sums) [2..<Suc k + 1] ((level aes emp depth delta seed 1)[index mod 2 := 0] @ rest, index mod 2) =
    Inr ((level aes emp depth delta seed (Suc k))[index mod 2 ^ Suc k := 0] @ drop (2 ^ Suc k - 2) rest, index mod 2 ^ Suc k)"
  using assms(3)
proof (induction k)
  case (Suc k)
  have pow: "(2 :: nat) ^ Suc (Suc k) \<le> 2 ^ depth" using Suc.prems by (intro power_increasing) simp_all
  define p :: nat where "p = 2 ^ k"
  have p: "1 \<le> p" "(2 :: nat) ^ Suc k = 2 * p" "(2 :: nat) ^ Suc (Suc k) = 4 * p" by (simp_all add: p_def)
  have l: "2 ^ Suc k \<le> length (drop (2 ^ Suc k - 2) rest)" using pow assms(1) p by simp
  have d: "drop (2 ^ Suc k) (drop (2 ^ Suc k - 2) rest) = drop (2 ^ Suc (Suc k) - 2) rest"
    unfolding p using p(1) by (simp add: drop_drop algebra_simps)
  have upt: "[2..<Suc (Suc k) + 1] = [2..<Suc k + 1] @ [Suc (Suc k)]" by simp
  have k: "Suc (Suc k) \<le> depth" "Suc k < length sums" "Suc k < depth" "Suc k \<le> depth" using Suc.prems assms(2) by simp_all
  note st = punctured_step_ok [OF l k(1,2) s [OF k(3)], unfolded d]
  show ?case
    by (simp only: upt foldR_append Suc.IH [OF k(4)] bindR_simps foldR.simps st)
qed simp

lemma cggm_expand_punctured_ok:
  assumes "1 \<le> length sums" "length leaves = 2 ^ length sums" "index < 2 ^ length sums"
    and s: "\<And>i. i < length sums \<Longrightarrow>
      sums ! i = (let s = left_sum aes emp (length sums) delta seed (Suc i) in if bit index i then s else s XOR delta)"
  shows "cggm_expand_punctured aes emp index sums leaves =
    (Inr ((level aes emp (length sums) delta seed (length sums))[index := 0]) :: ('e, _) result)"
proof -
  let ?n = "length sums"
  obtain k where k: "?n = Suc k" using assms(1) by (cases "length sums") auto
  have "2 \<le> length leaves" using assms(2) k by (simp add: self_le_power)
  then obtain a b rest where lv: "leaves = a # b # rest" by (cases leaves; cases "tl leaves") auto
  have r: "length rest = 2 ^ ?n - 2" using assms(2) lv by simp
  have one: "(leaves[index mod 2 := 0])[1 - index mod 2 := sums ! 0] = (level aes emp ?n delta seed 1)[index mod 2 := 0] @ rest"
  proof (cases "bit index 0")
    case True
    then have "index mod 2 = 1" by (simp add: bit_0 odd_iff_mod_2_eq_one)
    then show ?thesis using s [of 0] k True by (simp add: lv left_sum_def)
  next
    case False
    then have "index mod 2 = 0" by (simp add: bit_0 even_iff_mod_2_eq_zero)
    then show ?thesis using s [of 0] k False by (simp add: lv left_sum_def word_xor_ac)
  qed
  have "foldR (punctured_step aes emp ?n index sums) [2..<?n + 1] ((leaves[index mod 2 := 0])[1 - index mod 2 := sums ! 0], index mod 2) =
      (Inr ((level aes emp ?n delta seed ?n)[index := 0], index) :: ('e, _) result)"
    unfolding one using punctured_loop [OF r refl, of k aes emp delta seed index] s assms(3) r k by (simp del: upt_Suc)
  moreover have "index mod 2 < 2" "1 - index mod 2 < 2" "2 \<le> length leaves" "0 < ?n" using lv k by auto
  ultimately show ?thesis
    using assms(1-3) by (simp add: cggm_expand_punctured_def Let_def less_le_trans del: upt_Suc)
qed

lemma left_sums_off:
  "i < depth \<Longrightarrow> off_path_sum delta index (map (\<lambda>i. f (Suc i)) [0..<depth]) ! i =
    (let s = f (Suc i) in if bit index i then s else s XOR delta)"
  by (simp add: off_path_nth)

text \<open>
  C12. The receiver of a correlated GGM tree who is given, for every level, the sum of the nodes off the
  path to \<open>index\<close>, recomputes every leaf of the sender's tree except the one at \<open>index\<close>, which is set to
  zero; whatever the buffers held before.  The sum of what it holds is the missing leaf offset by
  \<open>delta\<close> (with its low bit cleared in the compatibility mode, for trees of more than one level).
\<close>

theorem cggm_punctured:
  assumes "1 \<le> depth" "length lv = 2 ^ depth" "length lv' = 2 ^ depth" "length sm = depth" "index < 2 ^ depth"
  shows "\<exists>leaves sums. cggm_expand aes emp delta seed lv sm = Inr (leaves, sums) \<and> length leaves = 2 ^ depth \<and>
    cggm_expand_punctured aes emp index (off_path_sum delta index sums) lv' = Inr (leaves[index := 0]) \<and>
    xor_sum (leaves[index := 0]) = leaves ! index XOR (if depth = 1 then delta else mask_leaf_lsb emp delta)"
proof -
  let ?lv = "level aes emp depth delta seed depth"
  let ?sm = "map (\<lambda>i. left_sum aes emp depth delta seed (Suc i)) [0..<depth]"
  have len: "length (off_path_sum delta index ?sm) = depth" by (simp add: off_path_sum_def)
  have "cggm_expand aes emp delta seed lv sm = Inr (?lv, ?sm)"
    using cggm_expand_ok [of sm lv aes emp delta seed] assms by simp
  moreover have "cggm_expand_punctured aes emp index (off_path_sum delta index ?sm) lv' = Inr (?lv[index := 0])"
    using cggm_expand_punctured_ok [of "off_path_sum delta index ?sm" lv' index aes emp delta seed] assms len left_sums_off by simp
  moreover have "xor_sum (?lv[index := 0]) = ?lv ! index XOR (if depth = 1 then delta else mask_leaf_lsb emp delta)"
    using assms(1,5) level_total_last [of depth aes emp delta seed] by (simp add: xor_sum_update word_xor_ac)
  ultimately show ?thesis by (intro exI [of _ ?lv] exI [of _ ?sm]) simp
qed

theorem cggm_punctured_witness:
  "\<exists>leaves sums. cggm_expand (\<lambda>x. x + 1) False 5 7 (replicate 4 9) [1, 2] = Inr (leaves, sums) \<and> length leaves = 2 ^ 2 \<and>
    cggm_expand_punctured (\<lambda>x. x + 1) False 2 (off_path_sum 5 2 sums) (replicate 4 3) = Inr (leaves[2 := 0]) \<and>
    xor_sum (leaves[2 := 0]) = leaves ! 2 XOR (if (2 :: nat) = 1 then 5 else mask_leaf_lsb False 5)"
  by (rule cggm_punctured) simp_all

end
