(* ===== verification/Lpn.thy ===== *)
theory Lpn
  imports Cggm
begin

text \<open>
  The local linear code behind LPN (\<open>core/src/lpn.rs\<close>).  The matrix has \<open>D\<close> column indices per row,
  drawn from a pseudorandom permutation; \<open>enc\<close> is the keyed permutation and \<open>emp\<close> the cargo feature.
  Shown is that the batched encoders multiply by that matrix, on blocks and on packed bits alike, and
  that encoding keeps a correlation.  The chunks of \<open>rayon\<close>'s parallel iterators are disjoint, so the
  sequential loop is modelled.
\<close>

section \<open>The encoder\<close>

text \<open>\<open>ilog2\<close> and \<open>is_power_of_two\<close> of the standard library.\<close>

fun ilog2 :: "nat \<Rightarrow> nat" where
  "ilog2 n = (if n < 2 then 0 else Suc (ilog2 (n div 2)))"

declare ilog2.simps [simp del]

definition is_power_of_two :: "nat \<Rightarrow> bool" where
  "is_power_of_two n \<longleftrightarrow> n = 2 ^ ilog2 n"

definition GROUPS :: nat where
  "GROUPS = 4"

definition index_block :: "bool \<Rightarrow> nat \<Rightarrow> nat \<Rightarrow> nat \<Rightarrow> block" where
  "index_block emp D pos d =
     (if emp then ucast (of_nat (pos div 4 * D + d) :: 64 word)
      else push_bit 64 (ucast (of_nat d :: 64 word)) OR ucast (of_nat pos :: 64 word))"

record lpn_encoder =
  lpn_k :: "32 word"
  lpn_mask :: "32 word"

definition lpn_new :: "32 word \<Rightarrow> ('e, lpn_encoder) result" where
  "lpn_new k = bindR (assertR (is_power_of_two (unat k))) (\<lambda>_. Inr \<lparr>lpn_k = k, lpn_mask = k - 1\<rparr>)"

text \<open>A block read as four native words.\<close>

definition u32s :: "block \<Rightarrow> 32 word list" where
  "u32s b = map (\<lambda>i. ucast (drop_bit (32 * i) b)) [0..<4]"

definition compute_indices :: "bool \<Rightarrow> nat \<Rightarrow> nat \<Rightarrow> nat \<Rightarrow> (block \<Rightarrow> block) \<Rightarrow> ('e, 32 word list list list) result" where
  "compute_indices emp D base n_groups prp =
     bindR (assertR (n_groups \<le> GROUPS)) (\<lambda>_.
       Inr (map (\<lambda>c. let pos = base + 4 * c in map (\<lambda>d. u32s (prp (index_block emp D pos d))) [0..<D]) [0..<n_groups]))"

definition div_ceil :: "nat \<Rightarrow> nat \<Rightarrow> nat" where
  "div_ceil a b = (a + b - 1) div b"

definition compute_rows :: "bool \<Rightarrow> nat \<Rightarrow> lpn_encoder \<Rightarrow> block list \<Rightarrow> block list \<Rightarrow> nat \<Rightarrow> (block \<Rightarrow> block) \<Rightarrow> ('e, block list) result" where
  "compute_rows emp D self y x base prp =
     (let n_groups = div_ceil (length y) 4
      in bindR (compute_indices emp D base n_groups prp) (\<lambda>idxs.
         foldR (\<lambda>(c, group) y.
           let row0 = 4 * c
           in bindR (usub (length y) row0) (\<lambda>n.
              foldR (\<lambda>(i, col) y.
                bindR (idx y (row0 + i)) (\<lambda>acc.
                bindR (foldR (\<lambda>raw acc. bindR (idx x (unat (raw AND lpn_mask self))) (\<lambda>v. Inr (acc XOR v))) col acc) (\<lambda>acc.
                upd y (row0 + i) acc))) (take n (enumerate 0 (chunks D (concat group)))) y)) (enumerate 0 idxs) y))"

definition compute_rows_with_bits ::
  "bool \<Rightarrow> nat \<Rightarrow> lpn_encoder \<Rightarrow> block list \<Rightarrow> byte list \<Rightarrow> block list \<Rightarrow> byte list \<Rightarrow> nat \<Rightarrow> (block \<Rightarrow> block) \<Rightarrow>
     ('e, block list \<times> byte list) result" where
  "compute_rows_with_bits emp D self y y_bits x x_bits base prp =
     (let n_groups = div_ceil (length y) 4; mask = unat (lpn_mask self)
      in bindR (compute_indices emp D base n_groups prp) (\<lambda>idxs.
         bindR (subslice x 0 (mask + 1)) (\<lambda>x.
         bindR (subslice x_bits 0 (mask div 8 + 1)) (\<lambda>x_bits.
         foldR (\<lambda>(c, group) (y, y_bits).
           let row0 = 4 * c
           in bindR (usub (length y) row0) (\<lambda>n.
              foldR (\<lambda>(i, col) (y, y_bits).
                let row = row0 + i
                in bindR (idx y row) (\<lambda>acc.
                   bindR (foldR (\<lambda>raw (acc, b).
                     let j = unat (raw AND lpn_mask self)
                     in bindR (idx x j) (\<lambda>v.
                        bindR (idx x_bits (j div 8)) (\<lambda>w. Inr (acc XOR v, b XOR drop_bit (j mod 8) w)))) col (acc, 0 :: byte)) (\<lambda>(acc, b).
                   bindR (upd y row acc) (\<lambda>y.
                   bindR (idx y_bits (row div 8)) (\<lambda>w.
                   bindR (upd y_bits (row div 8) (w XOR push_bit (row mod 8) (b AND 1))) (\<lambda>y_bits.
                     Inr (y, y_bits)))))))
                (take n (enumerate 0 (chunks D (concat group)))) (y, y_bits))) (enumerate 0 idxs) (y, y_bits)))))"

definition lpn_compute :: "bool \<Rightarrow> (block \<Rightarrow> block \<Rightarrow> block) \<Rightarrow> nat \<Rightarrow> lpn_encoder \<Rightarrow> block \<Rightarrow> block list \<Rightarrow> block list \<Rightarrow> ('e, block list) result" where
  "lpn_compute emp enc D self seed y x =
     bindR (assertR (of_nat (length x) = lpn_k self)) (\<lambda>_.
     bindR (assertR (D \<le> length x)) (\<lambda>_.
     bindR (mapR (\<lambda>(chunk, y). compute_rows emp D self y x (chunk * 4 * GROUPS) (enc seed)) (enumerate 0 (chunks (4 * GROUPS) y))) (\<lambda>ys.
       Inr (concat ys))))"

definition lpn_compute_with_bits ::
  "bool \<Rightarrow> (block \<Rightarrow> block \<Rightarrow> block) \<Rightarrow> nat \<Rightarrow> lpn_encoder \<Rightarrow> block \<Rightarrow> block list \<Rightarrow> byte list \<Rightarrow> block list \<Rightarrow> byte list \<Rightarrow>
     ('e, block list \<times> byte list) result" where
  "lpn_compute_with_bits emp enc D self seed y y_bits x x_bits =
     bindR (assertR (of_nat (length x) = lpn_k self)) (\<lambda>_.
     bindR (assertR (of_nat (length x_bits) * 8 = lpn_k self)) (\<lambda>_.
     bindR (assertR (length y_bits = div_ceil (length y) 8)) (\<lambda>_.
     bindR (assertR (D \<le> length x)) (\<lambda>_.
       let CHUNK = 4 * GROUPS
       in bindR (mapR (\<lambda>(chunk, (y, y_bits)). compute_rows_with_bits emp D self y y_bits x x_bits (chunk * CHUNK) (enc seed))
            (enumerate 0 (zip (chunks CHUNK y) (chunks (CHUNK div 8) y_bits)))) (\<lambda>rs.
         Inr (concat (map fst rs), concat (map snd rs)))))))"

record lpn_parameters =
  lp_n :: nat
  lp_k :: nat
  lp_t :: nat

definition lpn_parameters_new :: "nat \<Rightarrow> nat \<Rightarrow> nat \<Rightarrow> ('e, lpn_parameters) result" where
  "lpn_parameters_new n k t = bindR (assertR (t \<le> n)) (\<lambda>_. Inr \<lparr>lp_n = n, lp_k = k, lp_t = t\<rparr>)"

text \<open>\<open>pick\<close> is the generator's \<open>random_range\<close>, which panics on an empty range.\<close>

fun draw_ranges :: "(nat \<Rightarrow> nat \<Rightarrow> 'g \<Rightarrow> nat \<times> 'g) \<Rightarrow> nat list \<Rightarrow> nat \<Rightarrow> 'g \<Rightarrow> ('e, nat list \<times> 'g) result" where
  "draw_ranges pick [] step g = Inr ([], g)"
| "draw_ranges pick (i # is) step g =
     bindR (assertR (i * step < (i + 1) * step)) (\<lambda>_.
       let (x, g) = pick (i * step) ((i + 1) * step) g
       in bindR (draw_ranges pick is step g) (\<lambda>(xs, g). Inr (x # xs, g)))"

text \<open>A remainder by zero panics.\<close>

definition sample_error_indices :: "(nat \<Rightarrow> nat \<Rightarrow> 'g \<Rightarrow> nat \<times> 'g) \<Rightarrow> 'g \<Rightarrow> nat \<Rightarrow> nat \<Rightarrow> ('e, nat list \<times> 'g) result" where
  "sample_error_indices pick g len count =
     bindR (assertR (count \<noteq> 0)) (\<lambda>_.
     bindR (assertR (len mod count = 0)) (\<lambda>_.
       draw_ranges pick [0..<count] (len div count) g))"

section \<open>The matrix\<close>

text \<open>The columns of row \<open>r\<close>: rows come in groups of four that share \<open>D\<close> permuted blocks.\<close>

definition row_columns :: "bool \<Rightarrow> nat \<Rightarrow> (block \<Rightarrow> block) \<Rightarrow> nat \<Rightarrow> 32 word list" where
  "row_columns emp D prp r =
     take D (drop (r mod 4 * D) (concat (map (\<lambda>d. u32s (prp (index_block emp D (4 * (r div 4)) d))) [0..<D])))"

definition columns :: "bool \<Rightarrow> nat \<Rightarrow> lpn_encoder \<Rightarrow> (block \<Rightarrow> block) \<Rightarrow> nat \<Rightarrow> nat list" where
  "columns emp D self prp r = map (\<lambda>raw. unat (raw AND lpn_mask self)) (row_columns emp D prp r)"

definition encode_row :: "block list \<Rightarrow> nat list \<Rightarrow> block \<Rightarrow> block" where
  "encode_row x cols e = e XOR xor_sum (map ((!) x) cols)"

definition encode_bit :: "bool list \<Rightarrow> nat list \<Rightarrow> bool \<Rightarrow> bool" where
  "encode_bit x cols e \<longleftrightarrow> e \<noteq> odd (length (filter ((!) x) cols))"

lemma ilog2_pow [simp]: "ilog2 (2 ^ m) = m"
  by (induction m) (simp_all add: ilog2.simps [of "2 ^ _"] ilog2.simps [of "Suc 0"] ilog2.simps [of "2 * _"])

lemma is_power_of_two_iff: "is_power_of_two n \<longleftrightarrow> (\<exists>m. n = 2 ^ m)"
  by (auto simp: is_power_of_two_def)

lemma mask_below:
  fixes k raw :: "32 word"
  assumes "is_power_of_two (unat k)"
  shows "unat (raw AND (k - 1)) < unat k"
proof -
  obtain m where m: "unat k = 2 ^ m" using assms by (auto simp: is_power_of_two_iff)
  have "(2 :: nat) ^ m < 2 ^ 32" using unsigned_less [of k, where ?'a = nat] m by simp
  then have "m < 32" by (rule power_less_imp_less_exp [rotated]) simp
  have "k = of_nat (unat k)" by simp
  then have k: "k = 2 ^ m" by (simp only: m of_nat_power of_nat_numeral)
  have "raw AND (k - 1) = take_bit m raw" unfolding k by (simp add: take_bit_eq_mask mask_eq_exp_minus_1)
  then show ?thesis using m by (simp add: unsigned_take_bit_eq)
qed

lemma length_u32s [simp]: "length (u32s b) = 4"
  by (simp add: u32s_def)

lemma length_group: "length (concat (map (\<lambda>d. u32s (f d)) ds)) = 4 * length ds"
  by (induction ds) simp_all

lemma chunks_four:
  assumes "length xs = 4 * D" "0 < D"
  shows "chunks D xs = map (\<lambda>i. take D (drop (i * D) xs)) [0..<4]"
proof -
  have s: "chunks D ys = take D ys # chunks D (drop D ys)" if "0 < length ys" for ys :: "'a list"
    using that assms(2) by (intro chunks_step) auto
  have "chunks D xs = [take D xs, take D (drop D xs), take D (drop (D + D) xs), take D (drop (D + (D + D)) xs)]"
    using assms by (simp add: s [of xs] s [of "drop D xs"] s [of "drop (D + D) xs"] s [of "drop (D + (D + D)) xs"] drop_drop add.assoc)
  then show ?thesis by (simp add: upt_rec add.assoc numeral_eq_Suc)
qed

section \<open>The batched loops\<close>

text \<open>A loop over groups of rows and the rows of each group is a loop over the rows.\<close>

lemma enumerate_shift: "enumerate (m + n) xs = map (\<lambda>(i, x). (m + i, x)) (enumerate n xs)"
  by (induction xs arbitrary: n) (simp_all flip: add_Suc_right)

lemma foldR_map: "foldR f (map g xs) s = foldR (\<lambda>x. f (g x)) xs s"
proof (induction xs arbitrary: s)
  case (Cons x xs)
  then show ?case by (cases "f (g x) s") simp_all
qed simp

lemma grid_loop:
  fixes step :: "nat \<Rightarrow> 'c \<Rightarrow> 's \<Rightarrow> ('e, 's) result"
  assumes pres: "\<And>r col s s'. step r col s = Inr s' \<Longrightarrow> sz s' = sz s" and four: "\<And>g. g \<in> set groups \<Longrightarrow> length (rows g) = 4"
    and le: "4 * (c0 + length groups) < sz s + 4"
  shows "foldR (\<lambda>(c, g) s. bindR (usub (sz s) (4 * c)) (\<lambda>n. foldR (\<lambda>(i, col). step (4 * c + i) col) (take n (enumerate 0 (rows g))) s))
      (enumerate c0 groups) s =
    foldR (\<lambda>(r, col). step r col) (take (sz s - 4 * c0) (enumerate (4 * c0) (concat (map rows groups)))) s"
  using four le
proof (induction groups arbitrary: c0 s)
  case (Cons g groups)
  let ?n = "sz s - 4 * c0"
  have sh: "foldR (\<lambda>(i, col). step (4 * c0 + i) col) (take ?n (enumerate 0 (rows g))) s =
      foldR (\<lambda>(r, col). step r col) (take ?n (enumerate (4 * c0) (rows g))) s"
    using enumerate_shift [of "4 * c0" 0 "rows g"] by (simp add: take_map foldR_map case_prod_unfold)
  have pr: "sz s' = sz s" if "foldR (\<lambda>(r, col). step r col) xs s = Inr s'" for xs s s'
    using that
  proof (induction xs arbitrary: s)
    case (Cons p xs)
    then obtain s1 where "step (fst p) (snd p) s = Inr s1" "foldR (\<lambda>(r, col). step r col) xs s1 = Inr s'"
      by (auto simp: case_prod_unfold bindR_eq_Inr)
    then show ?case using pres Cons.IH by metis
  qed simp
  have l4: "length (rows g) = 4" using Cons.prems(1) by simp
  have le0: "4 * c0 \<le> sz s" using Cons.prems(2) by simp
  show ?case
  proof (cases "foldR (\<lambda>(r, col). step r col) (take ?n (enumerate (4 * c0) (rows g))) s")
    case (Inl e)
    then show ?thesis by (simp add: le0 sh enumerate_append_eq foldR_append)
  next
    case (Inr s1)
    have "sz s1 = sz s" using pr [OF Inr] .
    moreover have "4 * Suc c0 = 4 * c0 + 4" by simp
    note ih = Cons.IH [of "Suc c0" s1, unfolded this, folded diff_diff_left]
    ultimately show ?thesis
      using ih Cons.prems Inr l4 by (simp add: le0 sh enumerate_append_eq foldR_append)
  qed
qed simp

lemma concat_grid:
  "concat (map (\<lambda>c. map (f c) [0..<4]) [0..<n]) = map (\<lambda>r. f (r div 4) (r mod 4)) [0..<4 * n]"
proof (induction n)
  case (Suc n)
  have "[0..<4 * Suc n] = [0..<4 * n] @ map ((+) (4 * n)) [0..<4]"
  proof -
    have "map ((+) (4 * n)) [0..<4] = [4 * n..<4 * n + 4]" by (rule nth_equalityI) simp_all
    then show ?thesis using upt_add_eq_append [of 0 "4 * n" 4] by (simp add: add.commute)
  qed
  then show ?case using Suc by simp
qed simp

text \<open>The rows a batch of groups holds.\<close>

lemma batch_rows:
  assumes "0 < D" "4 dvd base"
  shows "concat (map (\<lambda>g. chunks D (concat g)) (map (\<lambda>c. let pos = base + 4 * c in map (\<lambda>d. u32s (prp (index_block emp D pos d))) [0..<D]) [0..<n])) =
    map (\<lambda>r. row_columns emp D prp (base + r)) [0..<4 * n]"
proof -
  obtain q where q: "base = 4 * q" using assms(2) by auto
  have "chunks D (concat (map (\<lambda>d. u32s (prp (index_block emp D (base + 4 * c) d))) [0..<D])) =
      map (\<lambda>i. row_columns emp D prp (base + (4 * c + i))) [0..<4]" for c
  proof -
    have "take D (drop (i * D) (concat (map (\<lambda>d. u32s (prp (index_block emp D (base + 4 * c) d))) [0..<D]))) =
        row_columns emp D prp (base + (4 * c + i))" if "i < 4" for i
    proof -
      have "(base + (4 * c + i)) mod 4 = i" "4 * ((base + (4 * c + i)) div 4) = base + 4 * c"
        using that unfolding q by presburger+
      then show ?thesis by (simp only: row_columns_def)
    qed
    then show ?thesis using assms(1) by (simp add: chunks_four length_group)
  qed
  then have "concat (map (\<lambda>g. chunks D (concat g)) (map (\<lambda>c. let pos = base + 4 * c in map (\<lambda>d. u32s (prp (index_block emp D pos d))) [0..<D]) [0..<n])) =
      concat (map (\<lambda>c. map (\<lambda>i. row_columns emp D prp (base + (4 * c + i))) [0..<4]) [0..<n])"
    by (simp add: comp_def)
  then show ?thesis unfolding concat_grid by simp
qed

section \<open>Encoding blocks\<close>

lemma gather_ok:
  "(\<And>raw. raw \<in> set col \<Longrightarrow> unat (raw AND m) < length x) \<Longrightarrow>
    foldR (\<lambda>raw acc. bindR (idx x (unat (raw AND m))) (\<lambda>v. Inr (acc XOR v))) col acc =
      Inr (encode_row x (map (\<lambda>raw. unat (raw AND m)) col) acc)"
  by (induction col arbitrary: acc) (simp_all add: encode_row_def word_xor_ac)

lemma rows_loop:
  assumes "length suf \<le> length cols" "\<And>col acc. g col acc = Inr (h col acc)"
  shows "foldR (\<lambda>(r, col) y. bindR (idx y r) (\<lambda>acc. bindR (g col acc) (\<lambda>acc. upd y r acc)))
      (take (length suf) (enumerate (length pre) cols)) (pre @ suf) = Inr (pre @ map2 h cols suf)"
  using assms(1)
proof (induction suf arbitrary: pre cols)
  case (Cons v suf)
  then obtain col cols' where c: "cols = col # cols'" by (cases cols) auto
  have "foldR (\<lambda>(r, col) y. bindR (idx y r) (\<lambda>acc. bindR (g col acc) (\<lambda>acc. upd y r acc)))
      (take (length suf) (enumerate (length (pre @ [h col v])) cols')) ((pre @ [h col v]) @ suf) = Inr ((pre @ [h col v]) @ map2 h cols' suf)"
    using Cons.prems c by (intro Cons.IH) simp
  then show ?case by (simp add: c assms(2))
qed simp

lemma foldR_update_length:
  "foldR (\<lambda>(r, col) y. bindR (idx y r) (\<lambda>acc. bindR (g col acc) (\<lambda>acc. upd y r acc))) xs y = Inr y' \<Longrightarrow> length y' = length y"
  by (induction xs arbitrary: y) (auto simp: result_simps)

text \<open>What an encoder and its inputs must satisfy; the receiver's inputs are packed bits as well.\<close>

definition lpn_ok :: "nat \<Rightarrow> lpn_encoder \<Rightarrow> nat \<Rightarrow> bool" where
  "lpn_ok D self n \<longleftrightarrow> 0 < D \<and> D \<le> n \<and> n = unat (lpn_k self) \<and> is_power_of_two n \<and> lpn_mask self = lpn_k self - 1"

lemma lpn_mask_below: "lpn_ok D self n \<Longrightarrow> unat (raw AND lpn_mask self) < n"
  using mask_below [of "lpn_k self" raw] unfolding lpn_ok_def by auto

lemma div_ceil_four: "4 * div_ceil n 4 < n + 4" "n \<le> 4 * div_ceil n 4" "n \<le> 16 \<Longrightarrow> div_ceil n 4 \<le> 4"
  unfolding div_ceil_def by presburger+

lemma map2_prefix:
  assumes "length ys \<le> length xs" "length zs = length ys" "\<And>i v. i < length ys \<Longrightarrow> f (xs ! i) v = g (zs ! i) v"
  shows "map2 f xs ys = map2 g zs ys"
  using assms by (intro nth_equalityI) (simp_all add: min_absorb2)

lemma compute_rows_ok:
  assumes ok: "lpn_ok D self (length x)" and base: "4 dvd base" and len: "length y \<le> 16"
  shows "compute_rows emp D self y x base prp =
    (Inr (map2 (\<lambda>r. encode_row x (columns emp D self prp r)) [base..<base + length y] y) :: ('e, _) result)"
proof -
  let ?n = "div_ceil (length y) 4"
  let ?gs = "map (\<lambda>c. let pos = base + 4 * c in map (\<lambda>d. u32s (prp (index_block emp D pos d))) [0..<D]) [0..<?n]"
  let ?g = "\<lambda>col acc. foldR (\<lambda>raw acc. bindR (idx x (unat (raw AND lpn_mask self))) (\<lambda>v. Inr (acc XOR v))) col acc :: ('e, _) result"
  let ?h = "\<lambda>col. encode_row x (map (\<lambda>raw. unat (raw AND lpn_mask self)) col)"
  let ?cols = "map (\<lambda>r. row_columns emp D prp (base + r)) [0..<4 * ?n]"
  have D: "0 < D" using ok by (simp add: lpn_ok_def)
  have gh: "?g col acc = Inr (?h col acc)" for col acc
    by (rule gather_ok) (rule lpn_mask_below [OF ok])
  have "foldR (\<lambda>(c, group) y. bindR (usub (length y) (4 * c)) (\<lambda>n.
        foldR (\<lambda>(i, col) y. bindR (idx y (4 * c + i)) (\<lambda>acc. bindR (?g col acc) (\<lambda>acc. upd y (4 * c + i) acc)))
          (take n (enumerate 0 (chunks D (concat group)))) y)) (enumerate 0 ?gs) y =
      foldR (\<lambda>(r, col) y. bindR (idx y r) (\<lambda>acc. bindR (?g col acc) (\<lambda>acc. upd y r acc)))
        (take (length y - 4 * 0) (enumerate (4 * 0) (concat (map (\<lambda>g. chunks D (concat g)) ?gs)))) y"
  proof (rule grid_loop [where sz = length])
    show "length y' = length s" if "bindR (idx s r) (\<lambda>acc. bindR (?g col acc) (\<lambda>acc. upd s r acc)) = Inr y'" for r col s y'
      using that by (auto simp: result_simps)
    show "length (chunks D (concat g)) = 4" if "g \<in> set ?gs" for g
      using that D by (auto simp: chunks_four length_group)
    show "4 * (0 + length ?gs) < length y + 4" using div_ceil_four(1) [of "length y"] by simp
  qed
  also have "\<dots> = foldR (\<lambda>(r, col) y. bindR (idx y r) (\<lambda>acc. bindR (?g col acc) (\<lambda>acc. upd y r acc)))
      (take (length y) (enumerate (length ([] :: block list)) ?cols)) ([] @ y)"
    unfolding batch_rows [OF D base] by simp
  also have "\<dots> = Inr ([] @ map2 ?h ?cols y)"
    by (rule rows_loop [OF _ gh]) (simp add: div_ceil_four)
  also have "map2 ?h ?cols y = map2 (\<lambda>r. encode_row x (columns emp D self prp r)) [base..<base + length y] y"
    by (rule map2_prefix) (simp_all add: columns_def div_ceil_four(2) less_le_trans [OF _ div_ceil_four(2)])
  finally show ?thesis
    using div_ceil_four(3) [OF len] unfolding compute_rows_def compute_indices_def GROUPS_def Let_def by simp
qed

text \<open>A loop over chunks that treats every element by its position treats the whole vector so.\<close>

lemma chunked_map:
  fixes f :: "nat \<times> 'a list \<Rightarrow> ('e, 'b list) result"
  assumes "\<And>i ys. length ys \<le> n \<Longrightarrow> f (i, ys) = Inr (map2 h [i * n..<i * n + length ys] ys)" "0 < n"
  shows "\<exists>rs. mapR f (enumerate i (chunks n xs)) = Inr rs \<and> concat rs = map2 h [i * n..<i * n + length xs] xs"
proof (induction "length xs" arbitrary: xs i rule: less_induct)
  case less
  show ?case
  proof (cases "xs = []")
    case False
    let ?y = "take n xs" and ?r = "drop n xs"
    have "length ?r < length xs" using False assms(2) by simp
    then obtain rs where rs: "mapR f (enumerate (Suc i) (chunks n ?r)) = Inr rs"
        "concat rs = map2 h [Suc i * n..<Suc i * n + length ?r] ?r"
      using less.hyps by blast
    have "map2 h [i * n..<i * n + length ?y] ?y @ concat rs = map2 h [i * n..<i * n + length xs] xs"
    proof (cases "n \<le> length xs")
      case True
      have "[i * n..<i * n + length xs] = [i * n..<i * n + n] @ [i * n + n..<i * n + length xs]"
        using True upt_add_eq_append [of "i * n" "i * n + n" "length xs - n"] by simp
      moreover have "map2 h ([i * n..<i * n + n] @ [i * n + n..<i * n + length xs]) (?y @ ?r) =
          map2 h [i * n..<i * n + n] ?y @ map2 h [i * n + n..<i * n + length xs] ?r"
        using True by (simp del: append_take_drop_id)
      ultimately show ?thesis using True unfolding rs(2) append_take_drop_id by (simp add: add.commute)
    next
      case False
      then show ?thesis by (simp add: rs(2))
    qed
    then show ?thesis using False assms rs(1) by (simp add: chunks_step)
  qed simp
qed

definition lpn_blocks :: "(nat \<Rightarrow> nat list) \<Rightarrow> block list \<Rightarrow> block list \<Rightarrow> block list" where
  "lpn_blocks cols x y = map2 (\<lambda>r. encode_row x (cols r)) [0..<length y] y"

lemma lpn_compute_ok:
  assumes "lpn_ok D self (length x)"
  shows "lpn_compute emp enc D self seed y x = (Inr (lpn_blocks (columns emp D self (enc seed)) x y) :: ('e, _) result)"
proof -
  let ?f = "\<lambda>(chunk, y). compute_rows emp D self y x (chunk * 4 * GROUPS) (enc seed) :: ('e, _) result"
  let ?h = "\<lambda>r. encode_row x (columns emp D self (enc seed) r)"
  have "?f (i, ys) = Inr (map2 ?h [i * 16..<i * 16 + length ys] ys)" if "length ys \<le> 16" for i and ys :: "block list"
    using compute_rows_ok [OF assms _ that, of "i * 16" emp "enc seed"] by (simp add: GROUPS_def mult.commute)
  from chunked_map [of 16 ?f ?h 0 y, OF this] obtain rs where
    "mapR ?f (enumerate 0 (chunks 16 y)) = Inr rs" "concat rs = map2 ?h [0..<length y] y" by auto
  then show ?thesis
    using assms by (simp add: lpn_compute_def GROUPS_def lpn_blocks_def lpn_ok_def)
qed

section \<open>Encoding packed bits\<close>

definition bits_of :: "byte list \<Rightarrow> bool list" where
  "bits_of bs = concat (map to_lsb0 bs)"

lemma length_bits_of [simp]: "length (bits_of bs) = 8 * length bs"
  by (induction bs) (simp_all add: bits_of_def)

lemma bits_of_simps [simp]: "bits_of [] = []" "bits_of (b # bs) = to_lsb0 b @ bits_of bs" "bits_of (xs @ ys) = bits_of xs @ bits_of ys"
  by (simp_all add: bits_of_def)

lemma nth_bits_of: "i < 8 * length bs \<Longrightarrow> bits_of bs ! i = bit (bs ! (i div 8)) (i mod 8)"
proof (induction bs arbitrary: i)
  case (Cons b bs)
  show ?case
  proof (cases "i < 8")
    case False
    then obtain j where i: "i = j + 8" by (metis add.commute le_Suc_ex not_less)
    have "(j + 8) div 8 = Suc (j div 8)" by simp
    then show ?thesis using Cons i by (simp add: nth_append)
  qed (simp add: nth_append)
qed simp

lemma bits_of_update:
  assumes "r < 8 * length bs"
  shows "bits_of (bs[r div 8 := bs ! (r div 8) XOR push_bit (r mod 8) (b AND 1)]) = (bits_of bs)[r := bits_of bs ! r \<noteq> bit b 0]"
proof (rule nth_equalityI)
  fix i assume "i < length (bits_of (bs[r div 8 := bs ! (r div 8) XOR push_bit (r mod 8) (b AND 1)]))"
  then have i: "i < 8 * length bs" by simp
  then have l: "i div 8 < length bs" "r div 8 < length bs" using assms by auto
  have p: "bit (push_bit (r mod 8) (b AND 1)) j \<longleftrightarrow> j = r mod 8 \<and> bit b 0" if "j < 8" for j
  proof -
    have "bit (push_bit (r mod 8) (b AND 1)) j \<longleftrightarrow> r mod 8 \<le> j \<and> bit b (j - r mod 8) \<and> j - r mod 8 = 0"
      using that unfolding bit_push_bit_iff bit_and_iff bit_1_iff by simp
    also have "\<dots> \<longleftrightarrow> j = r mod 8 \<and> bit b 0" by auto
    finally show ?thesis .
  qed
  define q where "q = push_bit (r mod 8) (b AND 1)"
  note p = p [folded q_def]
  have n: "bits_of (bs[r div 8 := bs ! (r div 8) XOR q]) ! i \<longleftrightarrow>
      bit (if i div 8 = r div 8 then bs ! (r div 8) XOR q else bs ! (i div 8)) (i mod 8)"
    using i l by (simp add: nth_bits_of nth_list_update)
  show "bits_of (bs[r div 8 := bs ! (r div 8) XOR push_bit (r mod 8) (b AND 1)]) ! i = (bits_of bs)[r := bits_of bs ! r \<noteq> bit b 0] ! i"
    unfolding q_def [symmetric]
  proof (cases "i = r")
    case True
    then show "bits_of (bs[r div 8 := bs ! (r div 8) XOR q]) ! i = (bits_of bs)[r := bits_of bs ! r \<noteq> bit b 0] ! i"
      using n assms by (simp add: nth_bits_of bit_xor_iff p)
  next
    case False
    then have "i div 8 \<noteq> r div 8 \<or> i mod 8 \<noteq> r mod 8" by (metis div_mult_mod_eq)
    then show "bits_of (bs[r div 8 := bs ! (r div 8) XOR q]) ! i = (bits_of bs)[r := bits_of bs ! r \<noteq> bit b 0] ! i"
      using n i False by (auto simp: nth_bits_of bit_xor_iff p)
  qed
qed simp

lemma gather_bits_ok:
  assumes "\<And>raw. raw \<in> set col \<Longrightarrow> unat (raw AND m) < length x \<and> unat (raw AND m) < 8 * length x_bits"
  shows "\<exists>b'. foldR (\<lambda>raw (acc, b). let j = unat (raw AND m) in bindR (idx x j) (\<lambda>v.
      bindR (idx x_bits (j div 8)) (\<lambda>w. Inr (acc XOR v, b XOR drop_bit (j mod 8) w)))) col (acc, b) =
        Inr (encode_row x (map (\<lambda>raw. unat (raw AND m)) col) acc, b') \<and>
    bit b' 0 = encode_bit (bits_of x_bits) (map (\<lambda>raw. unat (raw AND m)) col) (bit (b :: byte) 0)"
  using assms
proof (induction col arbitrary: acc b)
  case (Cons raw col)
  let ?j = "unat (raw AND m)"
  have j: "?j < length x" "?j < 8 * length x_bits" "?j div 8 < length x_bits" using Cons.prems [of raw] by auto
  have "bit (b XOR drop_bit (?j mod 8) (x_bits ! (?j div 8))) 0 \<longleftrightarrow> bit b 0 \<noteq> bits_of x_bits ! ?j"
    using j by (simp add: nth_bits_of bit_xor_iff bit_drop_bit_eq)
  then have e: "encode_bit (bits_of x_bits) cols (bit (b XOR drop_bit (?j mod 8) (x_bits ! (?j div 8))) 0) \<longleftrightarrow>
      encode_bit (bits_of x_bits) (?j # cols) (bit b 0)" for cols by (auto simp: encode_bit_def)
  have a: "encode_row x cols (acc XOR x ! ?j) = encode_row x (?j # cols) acc" for cols by (simp add: encode_row_def word_xor_ac)
  show ?case
    using Cons.IH [of "acc XOR x ! ?j" "b XOR drop_bit (?j mod 8) (x_bits ! (?j div 8))"] Cons.prems j
    by (simp add: a e Let_def)
qed (auto simp: encode_row_def encode_bit_def)

lemma rows_bits_loop:
  fixes g :: "'c \<Rightarrow> block \<Rightarrow> ('e, block \<times> byte) result"
  assumes "length suf \<le> length cols" "bits_of yb = pb @ sb @ rb" "length pb = length pre" "length sb = length suf"
    and g: "\<And>col acc. \<exists>b'. g col acc = Inr (h col acc, b') \<and> bit b' 0 = hb col"
  shows "\<exists>yb'. foldR (\<lambda>(r, col) (y, y_bits). bindR (idx y r) (\<lambda>acc. bindR (g col acc) (\<lambda>(acc, b). bindR (upd y r acc) (\<lambda>y.
      bindR (idx y_bits (r div 8)) (\<lambda>w. bindR (upd y_bits (r div 8) (w XOR push_bit (r mod 8) (b AND 1))) (\<lambda>y_bits. Inr (y, y_bits)))))))
      (take (length suf) (enumerate (length pre) cols)) (pre @ suf, yb) = Inr (pre @ map2 h cols suf, yb') \<and>
    bits_of yb' = pb @ map2 (\<lambda>col b. b \<noteq> hb col) cols sb @ rb \<and> length yb' = length yb"
  using assms(1-4)
proof (induction suf arbitrary: pre cols pb sb yb)
  case (Cons v suf)
  obtain col cols' where c: "cols = col # cols'" using Cons.prems(1) by (cases cols) auto
  obtain e sb' where e: "sb = e # sb'" using Cons.prems(4) by (cases sb) auto
  obtain b' where b': "g col v = Inr (h col v, b')" "bit b' 0 = hb col" using g by blast
  let ?r = "length pre"
  let ?yb = "yb[?r div 8 := yb ! (?r div 8) XOR push_bit (?r mod 8) (b' AND 1)]"
  have "length (bits_of yb) = length pb + length sb + length rb" unfolding Cons.prems(2) by simp
  then have r: "?r < 8 * length yb" "?r div 8 < length yb" using Cons.prems(3,4) e by auto
  have "bits_of yb ! ?r = e" unfolding Cons.prems(2) e by (simp add: Cons.prems(3) [symmetric])
  then have "bits_of ?yb = (bits_of yb)[?r := e \<noteq> hb col]" using bits_of_update [OF r(1), of b'] b'(2) by simp
  also have "\<dots> = (pb @ [e \<noteq> hb col]) @ sb' @ rb" unfolding Cons.prems(2) e by (simp add: Cons.prems(3) [symmetric])
  finally obtain yb' where "foldR (\<lambda>(r, col) (y, y_bits). bindR (idx y r) (\<lambda>acc. bindR (g col acc) (\<lambda>(acc, b). bindR (upd y r acc) (\<lambda>y.
      bindR (idx y_bits (r div 8)) (\<lambda>w. bindR (upd y_bits (r div 8) (w XOR push_bit (r mod 8) (b AND 1))) (\<lambda>y_bits. Inr (y, y_bits)))))))
      (take (length suf) (enumerate (length (pre @ [h col v])) cols')) ((pre @ [h col v]) @ suf, ?yb) = Inr ((pre @ [h col v]) @ map2 h cols' suf, yb')"
    "bits_of yb' = (pb @ [e \<noteq> hb col]) @ map2 (\<lambda>col b. b \<noteq> hb col) cols' sb' @ rb" "length yb' = length ?yb"
    using Cons.IH [of cols' ?yb "pb @ [e \<noteq> hb col]" sb' "pre @ [h col v]"] Cons.prems c e by auto
  then show ?case using r by (simp add: c e b')
qed auto

text \<open>The rows below \<open>n\<close> of a bit vector whose first row is \<open>base\<close>.\<close>

definition lpn_bits :: "(nat \<Rightarrow> nat list) \<Rightarrow> bool list \<Rightarrow> nat \<Rightarrow> nat \<Rightarrow> bool list \<Rightarrow> bool list" where
  "lpn_bits cols x n base bs = map2 (\<lambda>r b. if r < n then encode_bit x (cols r) b else b) [base..<base + length bs] bs"

lemma compute_rows_with_bits_ok:
  assumes ok: "lpn_ok D self (length x)" and xb: "8 * length x_bits = length x" and base: "4 dvd base"
    and len: "length y \<le> 16" "length y \<le> 8 * length y_bits"
  shows "\<exists>y_bits'. compute_rows_with_bits emp D self y y_bits x x_bits base prp =
      (Inr (map2 (\<lambda>r. encode_row x (columns emp D self prp r)) [base..<base + length y] y, y_bits') :: ('e, _) result) \<and>
    bits_of y_bits' = lpn_bits (columns emp D self prp) (bits_of x_bits) (base + length y) base (bits_of y_bits) \<and>
    length y_bits' = length y_bits"
proof -
  let ?n = "div_ceil (length y) 4" and ?m = "lpn_mask self"
  let ?gs = "map (\<lambda>c. let pos = base + 4 * c in map (\<lambda>d. u32s (prp (index_block emp D pos d))) [0..<D]) [0..<?n]"
  let ?g = "\<lambda>col acc. foldR (\<lambda>raw (acc, b). let j = unat (raw AND ?m) in bindR (idx x j) (\<lambda>v.
      bindR (idx x_bits (j div 8)) (\<lambda>w. Inr (acc XOR v, b XOR drop_bit (j mod 8) w)))) col (acc, 0 :: byte) :: ('e, _) result"
  let ?step = "\<lambda>r col (y, y_bits). bindR (idx y r) (\<lambda>acc. bindR (?g col acc) (\<lambda>(acc, b). bindR (upd y r acc) (\<lambda>y.
      bindR (idx y_bits (r div 8)) (\<lambda>w. bindR (upd y_bits (r div 8) (w XOR push_bit (r mod 8) (b AND 1))) (\<lambda>y_bits. Inr (y, y_bits))))))"
  let ?raw = "map (\<lambda>raw. unat (raw AND ?m))"
  let ?cols = "map (\<lambda>r. row_columns emp D prp (base + r)) [0..<4 * ?n]"
  have D: "0 < D" "0 < length x" using ok by (auto simp: lpn_ok_def)
  have mask: "unat ?m = length x - 1" using ok D by (simp add: lpn_ok_def unat_minus_one unat_gt_0 [symmetric])
  have sx: "subslice x 0 (unat ?m + 1) = (Inr x :: ('e, _) result)" using D by (simp add: mask subslice_def)
  have "(length x - 1) div 8 + 1 = length x_bits" using xb D by presburger
  then have sxb: "subslice x_bits 0 (unat ?m div 8 + 1) = (Inr x_bits :: ('e, _) result)" by (simp add: mask subslice_def)
  have gh: "\<exists>b'. ?g col acc = Inr (encode_row x (?raw col) acc, b') \<and> bit b' 0 = encode_bit (bits_of x_bits) (?raw col) False" for col acc
    using gather_bits_ok [of col ?m x x_bits acc 0] lpn_mask_below [OF ok] xb by simp
  have "foldR (\<lambda>(c, group) s. bindR (usub (length (fst s)) (4 * c)) (\<lambda>n.
        foldR (\<lambda>(i, col). ?step (4 * c + i) col) (take n (enumerate 0 (chunks D (concat group)))) s)) (enumerate 0 ?gs) (y, y_bits) =
      foldR (\<lambda>(r, col). ?step r col) (take (length (fst (y, y_bits)) - 4 * 0) (enumerate (4 * 0) (concat (map (\<lambda>g. chunks D (concat g)) ?gs)))) (y, y_bits)"
  proof (rule grid_loop [where sz = "\<lambda>s. length (fst s)"])
    show "length (fst s') = length (fst s)" if "?step r col s = Inr s'" for r col s s'
      using that by (auto simp: result_simps case_prod_unfold)
    show "length (chunks D (concat g)) = 4" if "g \<in> set ?gs" for g
      using that D by (auto simp: chunks_four length_group)
    show "4 * (0 + length ?gs) < length (fst (y, y_bits)) + 4" using div_ceil_four(1) [of "length y"] by simp
  qed
  also have "\<dots> = foldR (\<lambda>(r, col). ?step r col) (take (length y) (enumerate (length ([] :: block list)) ?cols)) ([] @ y, y_bits)"
    unfolding batch_rows [OF D(1) base] by simp
  finally have loop: "foldR (\<lambda>(c, group) s. bindR (usub (length (fst s)) (4 * c)) (\<lambda>n.
        foldR (\<lambda>(i, col). ?step (4 * c + i) col) (take n (enumerate 0 (chunks D (concat group)))) s)) (enumerate 0 ?gs) (y, y_bits) =
      foldR (\<lambda>(r, col). ?step r col) (take (length y) (enumerate (length ([] :: block list)) ?cols)) ([] @ y, y_bits)" .
  let ?sb = "take (length y) (bits_of y_bits)" and ?rb = "drop (length y) (bits_of y_bits)"
  have pre: "length y \<le> length ?cols" "bits_of y_bits = [] @ ?sb @ ?rb" "length ([] :: bool list) = length ([] :: block list)" "length ?sb = length y"
    using div_ceil_four(2) [of "length y"] len by simp_all
  obtain yb' where yb': "foldR (\<lambda>(r, col). ?step r col) (take (length y) (enumerate (length ([] :: block list)) ?cols)) ([] @ y, y_bits) =
      Inr ([] @ map2 (\<lambda>col. encode_row x (?raw col)) ?cols y, yb')"
    "bits_of yb' = [] @ map2 (\<lambda>col b. b \<noteq> encode_bit (bits_of x_bits) (?raw col) False) ?cols ?sb @ ?rb" "length yb' = length y_bits"
    using rows_bits_loop [where g = ?g and h = "\<lambda>col. encode_row x (?raw col)"
      and hb = "\<lambda>col. encode_bit (bits_of x_bits) (?raw col) False", OF pre gh] by blast
  have m: "map2 (\<lambda>col. encode_row x (?raw col)) ?cols y = map2 (\<lambda>r. encode_row x (columns emp D self prp r)) [base..<base + length y] y"
    by (rule map2_prefix) (simp_all add: columns_def div_ceil_four(2) less_le_trans [OF _ div_ceil_four(2)])
  have b: "bits_of yb' = lpn_bits (columns emp D self prp) (bits_of x_bits) (base + length y) base (bits_of y_bits)"
    unfolding yb'(2) using len(2) pre(1)
    by (intro nth_equalityI) (auto simp: lpn_bits_def nth_append encode_bit_def columns_def)
  have ci: "compute_indices emp D base ?n prp = (Inr ?gs :: ('e, _) result)"
    using div_ceil_four(3) [OF len(1)] by (simp add: compute_indices_def GROUPS_def)
  have "compute_rows_with_bits emp D self y y_bits x x_bits base prp =
      (Inr (map2 (\<lambda>r. encode_row x (columns emp D self prp r)) [base..<base + length y] y, yb') :: ('e, _) result)"
    using loop yb'(1)
    unfolding compute_rows_with_bits_def ci [unfolded Let_def] sx sxb bindR_simps Let_def case_prod_unfold
      m [unfolded case_prod_unfold] append_Nil fst_conv snd_conv prod.collapse by (rule trans)
  then show ?thesis using b yb'(3) by blast
qed

lemma map2_upt_split:
  assumes "m \<le> length xs"
  shows "map2 h [k..<k + length xs] xs = map2 h [k..<k + m] (take m xs) @ map2 h [k + m..<k + length xs] (drop m xs)"
proof -
  have "[k..<k + length xs] = [k..<k + m] @ [k + m..<k + length xs]"
    using assms upt_add_eq_append [of k "k + m" "length xs - m"] by simp
  moreover have "map2 h ([k..<k + m] @ [k + m..<k + length xs]) (take m xs @ drop m xs) =
      map2 h [k..<k + m] (take m xs) @ map2 h [k + m..<k + length xs] (drop m xs)"
    using assms by (simp del: append_take_drop_id)
  ultimately show ?thesis by simp
qed

lemma lpn_bits_split:
  assumes "m \<le> length bs" "k + m \<le> n"
  shows "lpn_bits cols x n k bs = lpn_bits cols x (k + m) k (take m bs) @ lpn_bits cols x n (k + m) (drop m bs)"
proof -
  have "map2 (\<lambda>r b. if r < n then encode_bit x (cols r) b else b) [k..<k + m] (take m bs) =
      map2 (\<lambda>r b. if r < k + m then encode_bit x (cols r) b else b) [k..<k + m] (take m bs)"
    using assms by (intro nth_equalityI) auto
  then show ?thesis
    using assms map2_upt_split [OF assms(1), of "\<lambda>r b. if r < n then encode_bit x (cols r) b else b" k]
    by (simp add: lpn_bits_def min_absorb2)
qed

lemma bits_of_take_drop: "bits_of (take n bs) = take (8 * n) (bits_of bs)" "bits_of (drop n bs) = drop (8 * n) (bits_of bs)"
proof (induction bs arbitrary: n)
  case (Cons b bs)
  { case 1 then show ?case using Cons.IH(1) by (cases n) simp_all }
  { case 2 then show ?case using Cons.IH(2) by (cases n) simp_all }
qed simp_all

lemma div_ceil_eight: "16 \<le> n \<Longrightarrow> div_ceil n 8 = 2 + div_ceil (n - 16) 8" "n \<le> 8 * div_ceil n 8" "n < 16 \<Longrightarrow> div_ceil n 8 \<le> 2"
proof -
  have s: "div_ceil (m + 16) 8 = 2 + div_ceil m 8" for m
    using div_mult_self2 [of 8 "m + 7" 2] by (simp add: div_ceil_def)
  show "16 \<le> n \<Longrightarrow> div_ceil n 8 = 2 + div_ceil (n - 16) 8" using s [of "n - 16"] by simp
  have "8 * ((n + 7) div 8) + (n + 7) mod 8 = n + 7" "(n + 7) mod 8 < 8" by (simp_all add: mult_div_mod_eq)
  then show "n \<le> 8 * div_ceil n 8" by (simp add: div_ceil_def)
  show "div_ceil n 8 \<le> 2" if "n < 16"
    using div_le_mono [of "n + 7" 23 8] that by (simp add: div_ceil_def)
qed

lemma chunked_bits:
  fixes f :: "nat \<times> block list \<times> byte list \<Rightarrow> ('e, block list \<times> byte list) result"
  assumes f: "\<And>i ys ybs. length ys \<le> 16 \<Longrightarrow> length ys \<le> 8 * length ybs \<Longrightarrow> \<exists>ybs'.
      f (i, (ys, ybs)) = Inr (map2 h [i * 16..<i * 16 + length ys] ys, ybs') \<and>
      bits_of ybs' = lpn_bits cols x (i * 16 + length ys) (i * 16) (bits_of ybs) \<and> length ybs' = length ybs"
  shows "length yb = div_ceil (length y) 8 \<Longrightarrow> \<exists>rs. mapR f (enumerate i (zip (chunks 16 y) (chunks 2 yb))) = Inr rs \<and>
    concat (map fst rs) = map2 h [i * 16..<i * 16 + length y] y \<and>
    bits_of (concat (map snd rs)) = lpn_bits cols x (i * 16 + length y) (i * 16) (bits_of yb)"
proof (induction "length y" arbitrary: y yb i rule: less_induct)
  case less
  consider "y = []" | "y \<noteq> []" "length y < 16" | "16 \<le> length y" by fastforce
  then show ?case
  proof cases
    case 1
    then have "yb = []" using less.prems by (simp add: div_ceil_def)
    then show ?thesis using 1 by (simp add: lpn_bits_def)
  next
    case 2
    then have l: "length yb \<le> 2" "yb \<noteq> []" "length y \<le> 8 * length yb"
      using less.prems div_ceil_eight(2,3) [of "length y"] by auto
    obtain yb' where "f (i, (y, yb)) = Inr (map2 h [i * 16..<i * 16 + length y] y, yb')"
      "bits_of yb' = lpn_bits cols x (i * 16 + length y) (i * 16) (bits_of yb)"
      using f [of y yb i] 2 l by auto
    then show ?thesis using 2 l by (simp add: chunks_step [of _ y] chunks_step [of _ yb])
  next
    case 3
    let ?y = "take 16 y" and ?yb = "take 2 yb"
    have n: "y \<noteq> []" "yb \<noteq> []" "2 \<le> length yb" using 3 less.prems div_ceil_eight(1) [OF 3] by auto
    obtain yb1 where 1: "f (i, (?y, ?yb)) = Inr (map2 h [i * 16..<i * 16 + 16] ?y, yb1)"
      "bits_of yb1 = lpn_bits cols x (i * 16 + 16) (i * 16) (take 16 (bits_of yb))"
      using f [of ?y ?yb i] 3 n(3) by (auto simp: min_absorb2 bits_of_take_drop)
    have "length (drop 16 y) < length y" "length (drop 2 yb) = div_ceil (length (drop 16 y)) 8"
      using 3 less.prems div_ceil_eight(1) [OF 3] by auto
    from less.hyps [OF this, of "Suc i"] obtain rs where
      rs: "mapR f (enumerate (Suc i) (zip (chunks 16 (drop 16 y)) (chunks 2 (drop 2 yb)))) = Inr rs"
        "concat (map fst rs) = map2 h [i * 16 + 16..<i * 16 + length y] (drop 16 y)"
        "bits_of (concat (map snd rs)) = lpn_bits cols x (i * 16 + length y) (i * 16 + 16) (drop 16 (bits_of yb))"
      using 3 by (auto simp: bits_of_take_drop add.commute)
    have "16 \<le> length (bits_of yb)" using n by simp
    then have "lpn_bits cols x (i * 16 + length y) (i * 16) (bits_of yb) =
        lpn_bits cols x (i * 16 + 16) (i * 16) (take 16 (bits_of yb)) @ lpn_bits cols x (i * 16 + length y) (i * 16 + 16) (drop 16 (bits_of yb))"
      using 3 by (intro lpn_bits_split) simp_all
    with 1 rs n show ?thesis
      by (simp add: chunks_step [of _ y] chunks_step [of _ yb] map2_upt_split [OF 3])
  qed
qed

lemma lpn_compute_with_bits_ok:
  assumes ok: "lpn_ok D self (length x)" and xb: "8 * length x_bits = length x" and yb: "length y_bits = div_ceil (length y) 8"
  shows "\<exists>y_bits'. lpn_compute_with_bits emp enc D self seed y y_bits x x_bits =
      (Inr (lpn_blocks (columns emp D self (enc seed)) x y, y_bits') :: ('e, _) result) \<and>
    bits_of y_bits' = lpn_bits (columns emp D self (enc seed)) (bits_of x_bits) (length y) 0 (bits_of y_bits)"
proof -
  let ?f = "\<lambda>(chunk, (y, y_bits)). compute_rows_with_bits emp D self y y_bits x x_bits (chunk * (4 * GROUPS)) (enc seed) :: ('e, _) result"
  let ?h = "\<lambda>r. encode_row x (columns emp D self (enc seed) r)" and ?c = "columns emp D self (enc seed)"
  have f: "\<exists>ybs'. ?f (i, (ys, ybs)) = Inr (map2 ?h [i * 16..<i * 16 + length ys] ys, ybs') \<and>
      bits_of ybs' = lpn_bits ?c (bits_of x_bits) (i * 16 + length ys) (i * 16) (bits_of ybs) \<and> length ybs' = length ybs"
    if "length ys \<le> 16" "length ys \<le> 8 * length ybs" for i ys ybs
    using compute_rows_with_bits_ok [OF ok xb _ that, of "i * 16" emp "enc seed", where ?'e = 'e] by (simp add: GROUPS_def mult.commute)
  obtain rs where rs: "mapR ?f (enumerate 0 (zip (chunks 16 y) (chunks 2 y_bits))) = Inr rs"
      "concat (map fst rs) = map2 ?h [0..<length y] y" "bits_of (concat (map snd rs)) = lpn_bits ?c (bits_of x_bits) (length y) 0 (bits_of y_bits)"
    using chunked_bits [of ?f ?h ?c "bits_of x_bits", OF f yb, of 0] by auto
  have k: "of_nat (length x) = lpn_k self" using ok by (simp add: lpn_ok_def)
  have "of_nat (length x_bits) * 8 = (of_nat (8 * length x_bits) :: 32 word)" by simp
  then have "of_nat (length x_bits) * 8 = lpn_k self" unfolding xb k .
  then show ?thesis
    using rs ok yb k by (simp add: lpn_compute_with_bits_def GROUPS_def Let_def lpn_ok_def lpn_blocks_def)
qed

section \<open>Encoding keeps a correlation\<close>

definition block_macs :: "block \<Rightarrow> block list \<Rightarrow> bool list \<Rightarrow> block list" where
  "block_macs d keys bs = map2 (\<lambda>k b. k XOR scale b d) keys bs"

lemma columns_below: "lpn_ok D self n \<Longrightarrow> c \<in> set (columns emp D self prp r) \<Longrightarrow> c < n"
  using lpn_mask_below by (auto simp: columns_def)

lemma encode_row_macs:
  assumes "\<And>c. c \<in> set cols \<Longrightarrow> c < length keys" "length bs = length keys"
  shows "encode_row (block_macs d keys bs) cols (v XOR scale e d) = encode_row keys cols v XOR scale (encode_bit bs cols e) d"
  using assms(1)
proof (induction cols arbitrary: v e)
  case (Cons c cols)
  have c: "c < length keys" using Cons.prems by simp
  have "encode_row x (c # cols) v = encode_row x cols (v XOR x ! c)" "encode_bit bs (c # cols) e = encode_bit bs cols (e \<noteq> bs ! c)" for x v
    by (auto simp: encode_row_def encode_bit_def word_xor_ac)
  moreover have "(v XOR scale e d) XOR block_macs d keys bs ! c = (v XOR keys ! c) XOR scale (e \<noteq> bs ! c) d"
    using c assms(2) by (cases e; cases "bs ! c") (simp_all add: block_macs_def word_xor_ac xor_simps)
  ultimately show ?case using Cons.IH [of "v XOR keys ! c" "e \<noteq> bs ! c"] Cons.prems by simp
qed (simp add: encode_row_def encode_bit_def)

lemma lpn_blocks_macs:
  assumes "\<And>r c. c \<in> set (cols r) \<Longrightarrow> c < length keys" "length bs = length keys" "length vs \<le> length es"
  shows "lpn_blocks cols (block_macs d keys bs) (block_macs d vs es) = block_macs d (lpn_blocks cols keys vs) (lpn_bits cols bs (length vs) 0 es)"
proof (rule nth_equalityI)
  show "length (lpn_blocks cols (block_macs d keys bs) (block_macs d vs es)) =
      length (block_macs d (lpn_blocks cols keys vs) (lpn_bits cols bs (length vs) 0 es))"
    using assms(3) by (simp add: lpn_blocks_def block_macs_def lpn_bits_def)
  fix i assume "i < length (lpn_blocks cols (block_macs d keys bs) (block_macs d vs es))"
  then have i: "i < length vs" "i < length es" using assms(3) by (simp_all add: lpn_blocks_def block_macs_def)
  have l: "lpn_blocks cols (block_macs d keys bs) (block_macs d vs es) ! i = encode_row (block_macs d keys bs) (cols i) (vs ! i XOR scale (es ! i) d)"
    using i by (simp add: lpn_blocks_def) (simp add: block_macs_def)
  have r: "block_macs d (lpn_blocks cols keys vs) (lpn_bits cols bs (length vs) 0 es) ! i =
      encode_row keys (cols i) (vs ! i) XOR scale (encode_bit bs (cols i) (es ! i)) d"
    using i by (simp add: block_macs_def lpn_blocks_def lpn_bits_def)
  show "lpn_blocks cols (block_macs d keys bs) (block_macs d vs es) ! i = block_macs d (lpn_blocks cols keys vs) (lpn_bits cols bs (length vs) 0 es) ! i"
    unfolding l r by (rule encode_row_macs [OF assms(1,2)])
qed

lemma lpn_correlated:
  assumes "lpn_ok D self (length keys)" "8 * length u = length keys" "length e = div_ceil (length vs) 8"
  shows "\<exists>xs. lpn_compute emp enc D self seed vs keys = (Inr (lpn_blocks (columns emp D self (enc seed)) keys vs) :: ('e, _) result) \<and>
    lpn_compute_with_bits emp enc D self seed (block_macs d vs (bits_of e)) e (block_macs d keys (bits_of u)) u =
      (Inr (block_macs d (lpn_blocks (columns emp D self (enc seed)) keys vs) (bits_of xs), xs) :: ('e, _) result) \<and>
    bits_of xs = lpn_bits (columns emp D self (enc seed)) (bits_of u) (length vs) 0 (bits_of e)"
proof -
  let ?c = "columns emp D self (enc seed)"
  have n: "length (block_macs d keys (bits_of u)) = length keys" "length (block_macs d vs (bits_of e)) = length vs"
    using assms(2,3) div_ceil_eight(2) [of "length vs"] by (simp_all add: block_macs_def)
  obtain xs where xs: "lpn_compute_with_bits emp enc D self seed (block_macs d vs (bits_of e)) e (block_macs d keys (bits_of u)) u =
      (Inr (lpn_blocks ?c (block_macs d keys (bits_of u)) (block_macs d vs (bits_of e)), xs) :: ('e, _) result)"
    "bits_of xs = lpn_bits ?c (bits_of u) (length vs) 0 (bits_of e)"
    using lpn_compute_with_bits_ok [of D self "block_macs d keys (bits_of u)" u e "block_macs d vs (bits_of e)" emp enc seed, where ?'e = 'e] assms n by auto
  have "lpn_blocks ?c (block_macs d keys (bits_of u)) (block_macs d vs (bits_of e)) = block_macs d (lpn_blocks ?c keys vs) (bits_of xs)"
    unfolding xs(2) using assms div_ceil_eight(2) [of "length vs"]
    by (intro lpn_blocks_macs) (auto intro: columns_below)
  with lpn_compute_ok [OF assms(1)] xs show ?thesis by metis
qed

text \<open>
  C15. LPN encoding.  The batched block encoder computes, row by row, the product with the matrix whose
  columns the permutation selects, the packed encoder the same product on blocks and on bits, and
  correlated inputs (secrets and noise of one party are the MACs of the other's bits under \<open>d\<close>) give
  outputs correlated in the same way; no index is out of range.
\<close>

theorem lpn_keeps_correlation:
  assumes "lpn_ok D self (length keys)" "8 * length u = length keys" "length e = div_ceil (length vs) 8"
  shows "\<exists>xs. lpn_compute emp enc D self seed vs keys = (Inr (lpn_blocks (columns emp D self (enc seed)) keys vs) :: ('e, _) result) \<and>
    lpn_compute_with_bits emp enc D self seed (block_macs d vs (bits_of e)) e (block_macs d keys (bits_of u)) u =
      (Inr (block_macs d (lpn_blocks (columns emp D self (enc seed)) keys vs) (bits_of xs), xs) :: ('e, _) result) \<and>
    bits_of xs = lpn_bits (columns emp D self (enc seed)) (bits_of u) (length vs) 0 (bits_of e)"
  using assms by (rule lpn_correlated)

theorem lpn_keeps_correlation_witness:
  "\<exists>xs. lpn_compute False (\<lambda>s x. s XOR x) 2 \<lparr>lpn_k = 8, lpn_mask = 7\<rparr> 3 [1, 2, 3, 4, 5] (replicate 8 9) =
      (Inr (lpn_blocks (columns False 2 \<lparr>lpn_k = 8, lpn_mask = 7\<rparr> ((\<lambda>s x. s XOR x) 3)) (replicate 8 9) [1, 2, 3, 4, 5]) :: (unit, _) result) \<and>
    lpn_compute_with_bits False (\<lambda>s x. s XOR x) 2 \<lparr>lpn_k = 8, lpn_mask = 7\<rparr> 3 (block_macs 6 [1, 2, 3, 4, 5] (bits_of [4])) [4]
        (block_macs 6 (replicate 8 9) (bits_of [17])) [17] =
      (Inr (block_macs 6 (lpn_blocks (columns False 2 \<lparr>lpn_k = 8, lpn_mask = 7\<rparr> ((\<lambda>s x. s XOR x) 3)) (replicate 8 9) [1, 2, 3, 4, 5]) (bits_of xs), xs) :: (unit, _) result) \<and>
    bits_of xs = lpn_bits (columns False 2 \<lparr>lpn_k = 8, lpn_mask = 7\<rparr> ((\<lambda>s x. s XOR x) 3)) (bits_of [17]) (length [1, 2, 3, 4, 5 :: block]) 0 (bits_of [4])"
  by (rule lpn_keeps_correlation) (auto simp: lpn_ok_def is_power_of_two_iff div_ceil_def intro: exI [of _ 3])

end
