(* ===== verification/Spcot.thy ===== *)
theory Spcot
  imports Cggm Field_Types Ideal_Rot
begin

text \<open>
  Single-point correlated OT (\<open>ot-core/src/ferret/spcot.rs\<close>, \<open>spcot/sender.rs\<close>, \<open>spcot/receiver.rs\<close>):
  the expansion of correlated GGM trees from correlated OTs and the batched consistency check, and
  the planning of a multi-point COT as single-point ones (\<open>ferret/mpcot.rs\<close>).  Parameters are the
  fixed-key cipher \<open>aes\<close>, the keyed cipher \<open>enc\<close> behind the challenges, the hash (\<open>blake3\<close>), the
  random generators and the cargo features \<open>rayon\<close> and \<open>emp\<close>.
\<close>

section \<open>Challenges\<close>

definition CSP :: nat where
  "CSP = 128"

definition CHI_CHUNK_SIZE :: nat where
  "CHI_CHUNK_SIZE = 2 ^ 16"

definition CHI_BATCH_SIZE :: nat where
  "CHI_BATCH_SIZE = 2 ^ 10"

text \<open>The plain block of challenge \<open>j\<close> of stream \<open>i\<close>: the counter and the stream, little-endian.\<close>

definition chi_block :: "nat \<Rightarrow> nat \<Rightarrow> block" where
  "chi_block i j = push_bit 64 (ucast (of_nat i :: 64 word)) OR ucast (of_nat j :: 64 word)"

text \<open>
  The loop over the batches of a chunk.  \<open>partition_point\<close> on the sorted picks is the length of the
  prefix that satisfies the predicate.
\<close>

fun fold_batches ::
  "(block \<Rightarrow> block) \<Rightarrow> bool \<Rightarrow> nat \<Rightarrow> nat \<Rightarrow> nat \<Rightarrow> gf2_128 list list \<Rightarrow> nat list \<Rightarrow> gf2_128 \<times> gf2_128 \<Rightarrow> ('e, gf2_128 \<times> gf2_128) result" where
  "fold_batches cipher rayon i start j [] picks acc = Inr acc"
| "fold_batches cipher rayon i start j (values # vss) picks (folded, picked) =
     (let base = start + j * CHI_BATCH_SIZE;
          chis = map (\<lambda>k. Gf2_128 (cipher (chi_block i (j * CHI_BATCH_SIZE + k)))) [0..<length values]
      in bindR (inner_product gf128_inner_product rayon 16 chis values) (\<lambda>ip.
         let folded = folded + ip; here = takeWhile (\<lambda>p. p < base + length values) picks
         in bindR (foldR (\<lambda>pick picked. bindR (usub pick base) (\<lambda>o'. bindR (idx chis o') (\<lambda>c. Inr (picked + c)))) here picked) (\<lambda>picked.
            fold_batches cipher rayon i start (j + 1) vss (drop (length here) picks) (folded, picked))))"

definition fold_chunk :: "(block \<Rightarrow> block) \<Rightarrow> bool \<Rightarrow> nat list \<Rightarrow> nat \<times> gf2_128 list \<Rightarrow> ('e, gf2_128 \<times> gf2_128) result" where
  "fold_chunk cipher rayon picks = (\<lambda>(i, chunk).
     let start = i * CHI_CHUNK_SIZE;
         lo = length (takeWhile (\<lambda>p. p < start) picks);
         hi = length (takeWhile (\<lambda>p. p < start + length chunk) picks)
     in bindR (subslice picks lo hi) (\<lambda>picks.
          fold_batches cipher rayon i start 0 (chunks CHI_BATCH_SIZE chunk) picks (0, 0)))"

definition fold_chis ::
  "(block \<Rightarrow> block \<Rightarrow> block) \<Rightarrow> bool \<Rightarrow> block \<Rightarrow> gf2_128 list \<Rightarrow> nat list \<Rightarrow> ('e, gf2_128 \<times> gf2_128) result" where
  "fold_chis enc rayon seed values picks =
     bindR (assertR (sorted picks)) (\<lambda>_.
     bindR (mapR (fold_chunk (enc seed) rayon picks) (enumerate 0 (chunks CHI_CHUNK_SIZE values))) (\<lambda>rs.
       Inr (fold (\<lambda>(a0, a1) (b0, b1). (b0 + a0, b1 + a1)) rs (0, 0))))"

section \<open>The sender\<close>

text \<open>\<open>slices_from_lengths\<close> of \<open>core/src/utils.rs\<close>; \<open>split_at\<close> panics beyond the end.\<close>

fun slices_from_lengths :: "'a list \<Rightarrow> nat list \<Rightarrow> ('e, 'a list list) result" where
  "slices_from_lengths src [] = Inr []"
| "slices_from_lengths src (n # ns) =
     bindR (drain_front src n) (\<lambda>(front, rest). bindR (slices_from_lengths rest ns) (\<lambda>slices. Inr (front # slices)))"

datatype spcot_error = SpState | IndexCount nat nat | KeyCount nat nat | MacCount nat nat | MaskCount nat nat
  | CorrectionCount nat nat | OutputLength nat nat | SpCheck

record spcot_sender =
  sp_pending :: nat
  sp_delta :: block

definition sps_new :: "block \<Rightarrow> spcot_sender" where
  "sps_new d = \<lparr>sp_pending = 0, sp_delta = d\<rparr>"

fun draw_blocks :: "('g \<Rightarrow> block \<times> 'g) \<Rightarrow> nat \<Rightarrow> 'g \<Rightarrow> block list \<times> 'g" where
  "draw_blocks rng 0 g = ([], g)"
| "draw_blocks rng (Suc n) g = (let (x, g) = rng g; (xs, g) = draw_blocks rng n g in (x # xs, g))"

text \<open>One tree: the leaves, and the corrections with the left sums added; the sums buffer holds 64.\<close>

definition sps_tree :: "(block \<Rightarrow> block) \<Rightarrow> bool \<Rightarrow> block \<Rightarrow> (block list \<times> block list) \<times> block \<Rightarrow> ('e, block list \<times> block list) result" where
  "sps_tree aes emp d = (\<lambda>((v, cs), seed).
     bindR (subslice (replicate 64 0) 0 (length cs)) (\<lambda>sums.
     bindR (cggm_expand aes emp d seed v sums) (\<lambda>(v, sums).
       Inr (v, map2 (XOR) cs sums))))"

definition sps_extend ::
  "(block \<Rightarrow> block) \<Rightarrow> bool \<Rightarrow> ('g \<Rightarrow> block \<times> 'g) \<Rightarrow> 'g \<Rightarrow> spcot_sender \<Rightarrow> nat list \<Rightarrow> gf2_128 list \<Rightarrow> bool list \<Rightarrow> gf2_128 list \<Rightarrow>
     (spcot_error, block list \<times> gf2_128 list \<times> 'g \<times> spcot_sender) result" where
  "sps_extend aes emp rng g s log2_lengths keys masks vs =
     (let len_sum = sum_list log2_lengths; len = sum_list (map (\<lambda>l. 2 ^ l) log2_lengths)
      in if length keys \<noteq> len_sum then Inl (Err (KeyCount len_sum (length keys)))
         else if length masks \<noteq> len_sum then Inl (Err (MaskCount len_sum (length masks)))
         else if length vs \<noteq> len then Inl (Err (OutputLength len (length vs)))
         else
           let delta_f = Gf2_128 (sp_delta s);
               cs = map2 (\<lambda>key b. gf128_inner (if b then key + delta_f else key)) keys masks;
               (seeds, g) = draw_blocks rng (length log2_lengths) g
           in bindR (slices_from_lengths (map gf128_inner vs) (map (\<lambda>l. 2 ^ l) log2_lengths)) (\<lambda>vs.
              bindR (slices_from_lengths cs log2_lengths) (\<lambda>cs_trees.
              bindR (mapR (sps_tree aes emp (sp_delta s)) (zip (zip vs cs_trees) seeds)) (\<lambda>trees.
                Inr (concat (map snd trees), map Gf2_128 (concat (map fst trees)), g,
                     s\<lparr>sp_pending := sp_pending s + len\<rparr>)))))"

text \<open>\<open>hash\<close> is applied to the bytes of a block; the block stands for them.\<close>

definition sps_check ::
  "(block \<Rightarrow> block \<Rightarrow> block) \<Rightarrow> bool \<Rightarrow> (block \<Rightarrow> 'h) \<Rightarrow> spcot_sender \<Rightarrow> gf2_128 list \<Rightarrow> bool list \<Rightarrow> gf2_128 list \<Rightarrow> block \<Rightarrow>
     (spcot_error, 'h \<times> spcot_sender) result" where
  "sps_check enc rayon hash s keys masks vs chi_seed =
     (if length keys \<noteq> CSP then Inl (Err (KeyCount CSP (length keys)))
      else if length masks \<noteq> CSP then Inl (Err (MaskCount CSP (length masks)))
      else if length vs \<noteq> sp_pending s then Inl (Err (OutputLength (sp_pending s) (length vs)))
      else
        let x = Gf2_128 (from_lsb0 masks)
        in bindR (inner_product gf128_inner_product rayon 16 keys MONOMIAL_BASIS_GF2_128) (\<lambda>ip.
           let y = ip + Gf2_128 (sp_delta s) * x
           in bindR (fold_chis enc rayon chi_seed vs []) (\<lambda>(folded, _).
              let v = y + folded
              in Inr (hash (gf128_inner v), s\<lparr>sp_pending := 0\<rparr>))))"

section \<open>The receiver\<close>

record spcot_receiver =
  sp_lengths :: "nat list"
  sp_indices :: "nat list"
  sp_check :: "gf2_128 option"

definition spr_new :: spcot_receiver where
  "spr_new = \<lparr>sp_lengths = [], sp_indices = [], sp_check = None\<rparr>"

text \<open>The first bits of an index, of which a machine word has 64.\<close>

definition index_bits :: "nat \<Rightarrow> nat \<Rightarrow> bool list" where
  "index_bits index len = take len (map (bit index) [0..<64])"

definition spr_derandomize :: "nat list \<Rightarrow> nat list \<Rightarrow> bool list \<Rightarrow> (spcot_error, bool list) result" where
  "spr_derandomize log2_lengths idxs masks =
     (let len_sum = sum_list log2_lengths
      in if length idxs \<noteq> length log2_lengths then Inl (Err (IndexCount (length log2_lengths) (length idxs)))
         else if length masks \<noteq> len_sum then Inl (Err (MaskCount len_sum (length masks)))
         else Inr (map2 (\<lambda>b m. (\<not> b) \<noteq> m) (concat (map2 index_bits idxs log2_lengths)) masks))"

text \<open>One tree: every leaf but one, and the missing one as the sum of the others.\<close>

definition spr_tree :: "(block \<Rightarrow> block) \<Rightarrow> bool \<Rightarrow> (block list \<times> block list) \<times> nat \<Rightarrow> ('e, block list) result" where
  "spr_tree aes emp = (\<lambda>((w, sums), index).
     bindR (cggm_expand_punctured aes emp index sums w) (\<lambda>w.
     bindR (upd w index (fold (XOR) w 0)) (\<lambda>w.
       if emp \<and> 2 \<le> length sums then bindR (idx w index) (\<lambda>b. upd w index (b XOR 1)) else Inr w)))"

definition spr_extend ::
  "(block \<Rightarrow> block) \<Rightarrow> bool \<Rightarrow> spcot_receiver \<Rightarrow> nat list \<Rightarrow> nat list \<Rightarrow> gf2_128 list \<Rightarrow> block list \<Rightarrow> gf2_128 list \<Rightarrow>
     (spcot_error, gf2_128 list \<times> spcot_receiver) result" where
  "spr_extend aes emp r log2_lengths idxs macs cs ws =
     (let len_sum = sum_list log2_lengths; len = sum_list (map (\<lambda>l. 2 ^ l) log2_lengths)
      in if length idxs \<noteq> length log2_lengths then Inl (Err (IndexCount (length log2_lengths) (length idxs)))
         else if length macs \<noteq> len_sum then Inl (Err (MacCount len_sum (length macs)))
         else if length cs \<noteq> len_sum then Inl (Err (CorrectionCount len_sum (length cs)))
         else if length ws \<noteq> len then Inl (Err (OutputLength len (length ws)))
         else
           let sums = map2 (\<lambda>mac c. gf128_inner (mac + Gf2_128 c)) macs cs
           in bindR (slices_from_lengths sums log2_lengths) (\<lambda>sums.
              bindR (slices_from_lengths (map gf128_inner ws) (map (\<lambda>l. 2 ^ l) log2_lengths)) (\<lambda>ws.
              bindR (mapR (spr_tree aes emp) (zip (zip ws sums) idxs)) (\<lambda>ws.
                Inr (map Gf2_128 (concat ws),
                     r\<lparr>sp_lengths := sp_lengths r @ log2_lengths, sp_indices := sp_indices r @ idxs\<rparr>)))))"

text \<open>The global positions of the chosen indices.\<close>

fun global_positions :: "nat \<Rightarrow> nat list \<Rightarrow> nat list \<Rightarrow> nat list" where
  "global_positions i (l # ls) (x # xs) = (i + x) # global_positions (i + 2 ^ l) ls xs"
| "global_positions i _ _ = []"

definition spr_start_check ::
  "(block \<Rightarrow> block \<Rightarrow> block) \<Rightarrow> bool \<Rightarrow> ('g \<Rightarrow> block \<times> 'g) \<Rightarrow> 'g \<Rightarrow> spcot_receiver \<Rightarrow> gf2_128 list \<Rightarrow> bool list \<Rightarrow> gf2_128 list \<Rightarrow>
     (spcot_error, (bool list \<times> block) \<times> 'g \<times> spcot_receiver) result" where
  "spr_start_check enc rayon rng g r macs masks ws =
     (let len = sum_list (map (\<lambda>l. 2 ^ l) (sp_lengths r))
      in if sp_check r \<noteq> None then Inl (Err SpState)
         else if length macs \<noteq> CSP then Inl (Err (MacCount CSP (length macs)))
         else if length masks \<noteq> CSP then Inl (Err (MaskCount CSP (length masks)))
         else if length ws \<noteq> len then Inl (Err (OutputLength len (length ws)))
         else
           let alphas = global_positions 0 (sp_lengths r) (sp_indices r);
               (chi_seed, g) = rng g
           in bindR (fold_chis enc rayon chi_seed ws alphas) (\<lambda>(folded, sum_chi_alpha).
              let x_prime = map2 (\<lambda>x x_star. x \<noteq> x_star) (to_lsb0 (gf128_inner sum_chi_alpha)) masks
              in bindR (inner_product gf128_inner_product rayon 16 macs MONOMIAL_BASIS_GF2_128) (\<lambda>ip.
                 let w = ip + folded
                 in Inr ((x_prime, chi_seed), g, r\<lparr>sp_check := Some w\<rparr>))))"

text \<open>\<open>check\<close> takes the pending check in every case; the state it leaves is returned with the outcome.\<close>

definition spr_check :: "(block \<Rightarrow> 'h) \<Rightarrow> spcot_receiver \<Rightarrow> 'h \<Rightarrow> (spcot_error, unit) result \<times> spcot_receiver" where
  "spr_check hash r hashed_v =
     (case sp_check r of
        None \<Rightarrow> (Inl (Err SpState), r)
      | Some w \<Rightarrow>
          let r = r\<lparr>sp_check := None\<rparr>; hashed_w = hash (gf128_inner w)
          in if hashed_v \<noteq> hashed_w then (Inl (Err SpCheck), r)
             else (Inr (), r\<lparr>sp_lengths := [], sp_indices := []\<rparr>))"

section \<open>The challenges fold to an inner product\<close>

definition chi :: "(block \<Rightarrow> block) \<Rightarrow> nat \<Rightarrow> gf2_128" where
  "chi cipher a = Gf2_128 (cipher (chi_block (a div CHI_CHUNK_SIZE) (a mod CHI_CHUNK_SIZE)))"

definition dot :: "(nat \<Rightarrow> 'f) \<Rightarrow> nat \<Rightarrow> 'f::field list \<Rightarrow> 'f" where
  "dot c k xs = sum_list (map2 (*) (map c [k..<k + length xs]) xs)"

lemma dot_append: "dot c k (xs @ ys) = dot c k xs + dot c (k + length xs) ys"
proof -
  have "[k..<k + length (xs @ ys)] = [k..<k + length xs] @ [k + length xs..<k + length xs + length ys]"
    using upt_add_eq_append [of k "k + length xs" "length ys"] by (simp add: add.assoc)
  then show ?thesis by (simp add: dot_def)
qed

lemma dot_split: "dot c k xs = dot c k (take n xs) + dot c (k + n) (drop n xs)" if "n \<le> length xs"
  using dot_append [of c k "take n xs" "drop n xs"] that by simp

lemma dot_cong: "(\<And>a. k \<le> a \<Longrightarrow> a < k + length xs \<Longrightarrow> c a = c' a) \<Longrightarrow> dot c k xs = dot c' k xs"
  unfolding dot_def by (rule arg_cong [where f = "\<lambda>cs. sum_list (map2 (*) cs xs)"]) simp

lemma takeWhile_split:
  fixes a b :: nat
  assumes "a \<le> b"
  shows "takeWhile (\<lambda>p. p < b) ps = takeWhile (\<lambda>p. p < a) ps @ takeWhile (\<lambda>p. p < b) (dropWhile (\<lambda>p. p < a) ps)"
  using assms by (induction ps) auto

lemma sorted_dropWhile_ge: "sorted ps \<Longrightarrow> p \<in> set (dropWhile (\<lambda>p. p < a) ps) \<Longrightarrow> a \<le> p" for a :: nat
  by (induction ps) (auto split: if_splits)

lemma takeWhile_dropWhile_nil [simp]: "b \<le> a \<Longrightarrow> takeWhile (\<lambda>p. p < b) (dropWhile (\<lambda>p. p < a) ps) = []" for a b :: nat
  by (induction ps) auto

lemma pick_loop:
  assumes "\<And>p. p \<in> set ps \<Longrightarrow> base \<le> p \<and> p - base < length chis \<and> chis ! (p - base) = c p"
  shows "foldR (\<lambda>pick picked. bindR (usub pick base) (\<lambda>o'. bindR (idx chis o') (\<lambda>c. Inr (picked + c)))) ps (x :: 'f::field) =
    Inr (x + sum_list (map c ps))"
  using assms by (induction ps arbitrary: x) (simp_all add: add.assoc)

lemma fold_batches_eq:
  fixes xs :: "gf2_128 list" and cipher :: "block \<Rightarrow> block"
  defines "c \<equiv> \<lambda>i start a. Gf2_128 (cipher (chi_block i (a - start)))"
  assumes "sorted picks" "\<And>p. p \<in> set picks \<Longrightarrow> start + j * CHI_BATCH_SIZE \<le> p"
  shows "fold_batches cipher rayon i start j (chunks CHI_BATCH_SIZE xs) picks (x, y) =
    (Inr (x + dot (c i start) (start + j * CHI_BATCH_SIZE) xs,
          y + sum_list (map (c i start) (takeWhile (\<lambda>p. p < start + j * CHI_BATCH_SIZE + length xs) picks))) :: ('e, _) result)"
  using assms(2,3)
proof (induction "length xs" arbitrary: xs picks j x y rule: less_induct)
  case less
  let ?B = CHI_BATCH_SIZE and ?base = "start + j * CHI_BATCH_SIZE"
  show ?case
  proof (cases "xs = []")
    case True
    then have "takeWhile (\<lambda>p. p < ?base) picks = []" using less.prems(2) by (cases picks) (auto simp: not_less)
    with True show ?thesis by (simp add: dot_def)
  next
    case False
    let ?vs = "take ?B xs" and ?here = "takeWhile (\<lambda>p. p < ?base + length (take ?B xs)) picks"
    let ?rest = "dropWhile (\<lambda>p. p < ?base + length (take ?B xs)) picks"
    define chis where "chis = map (\<lambda>k. Gf2_128 (cipher (chi_block i (j * ?B + k)))) [0..<length ?vs]"
    have ip: "inner_product gf128_inner_product rayon 16 chis ?vs = Inr (dot (c i start) ?base ?vs)"
    proof -
      have "chis = map (c i start) [?base..<?base + length ?vs]"
        by (rule nth_equalityI) (simp_all add: chis_def c_def)
      then show ?thesis by (simp add: gf128_field.inner_product_sum dot_def chis_def)
    qed
    have pk: "foldR (\<lambda>pick picked. bindR (usub pick ?base) (\<lambda>o'. bindR (idx chis o') (\<lambda>c. Inr (picked + c)))) ?here y =
        Inr (y + sum_list (map (c i start) ?here))"
    proof (rule pick_loop)
      fix p assume "p \<in> set ?here"
      then have "p < ?base + length ?vs" "?base \<le> p" using less.prems(2) by (auto dest: set_takeWhileD)
      then obtain q where q: "p = ?base + q" by (metis le_Suc_ex)
      with \<open>p < ?base + length ?vs\<close> have "q < length ?vs" "p - ?base = q" "p - start = j * ?B + q" "?base \<le> p" by linarith+
      then show "?base \<le> p \<and> p - ?base < length chis \<and> chis ! (p - ?base) = c i start p"
        by (simp add: chis_def c_def)
    qed
    have rest: "drop (length ?here) picks = ?rest" by (simp add: dropWhile_eq_drop)
    have ch: "chunks ?B xs = ?vs # chunks ?B (drop ?B xs)" using False by (simp add: chunks_step CHI_BATCH_SIZE_def)
    have step: "fold_batches cipher rayon i start j (chunks ?B xs) picks (x, y) =
        fold_batches cipher rayon i start (j + 1) (chunks ?B (drop ?B xs)) ?rest
          (x + dot (c i start) ?base ?vs, y + sum_list (map (c i start) ?here))"
      unfolding ch fold_batches.simps Let_def chis_def [symmetric] ip bindR_simps pk rest by simp
    have tw: "takeWhile (\<lambda>p. p < ?base + length xs) picks = ?here @ takeWhile (\<lambda>p. p < ?base + length xs) ?rest"
      by (rule takeWhile_split) simp
    show ?thesis
    proof (cases "?B \<le> length xs")
      case True
      have b: "start + (j + 1) * ?B = ?base + ?B" by simp
      have "fold_batches cipher rayon i start (j + 1) (chunks ?B (drop ?B xs)) ?rest (x', y') =
          (Inr (x' + dot (c i start) (start + (j + 1) * ?B) (drop ?B xs),
            y' + sum_list (map (c i start) (takeWhile (\<lambda>p. p < start + (j + 1) * ?B + length (drop ?B xs)) ?rest))) :: ('e, _) result)" for x' y'
      proof (rule less.hyps)
        show "length (drop ?B xs) < length xs" using False by (simp add: CHI_BATCH_SIZE_def)
        show "sorted ?rest" using less.prems(1) by (rule sorted_dropWhile)
        show "start + (j + 1) * ?B \<le> p" if "p \<in> set ?rest" for p
          using sorted_dropWhile_ge [OF less.prems(1) that] True by simp
      qed
      then show ?thesis
        unfolding step b using True tw dot_split [OF True, of "c i start" ?base] by (simp add: add.assoc)
    next
      case False
      then have e: "drop ?B xs = []" "?vs = xs" by simp_all
      have "takeWhile (\<lambda>p. p < ?base + length xs) ?rest = []" using e(2) by simp
      then show ?thesis unfolding step using e tw by simp
    qed
  qed
qed

lemma take_takeWhile_slice:
  fixes a b :: nat
  assumes "a \<le> b"
  shows "take (length (takeWhile (\<lambda>p. p < b) ps) - length (takeWhile (\<lambda>p. p < a) ps)) (drop (length (takeWhile (\<lambda>p. p < a) ps)) ps) =
    takeWhile (\<lambda>p. p < b) (dropWhile (\<lambda>p. p < a) ps)"
proof -
  define qs where "qs = dropWhile (\<lambda>p. p < a) ps"
  have "length (takeWhile (\<lambda>p. p < b) ps) - length (takeWhile (\<lambda>p. p < a) ps) = length (takeWhile (\<lambda>p. p < b) qs)"
    unfolding takeWhile_split [OF assms, of ps] qs_def by simp
  then show ?thesis
    unfolding dropWhile_eq_drop [symmetric] qs_def [symmetric] by (simp only: takeWhile_eq_take [symmetric])
qed

lemma fold_chunk_eq:
  assumes "sorted picks" "length xs \<le> CHI_CHUNK_SIZE"
  shows "fold_chunk cipher rayon picks (i, xs) =
    Inr (dot (chi cipher) (i * CHI_CHUNK_SIZE) xs,
         sum_list (map (chi cipher) (takeWhile (\<lambda>p. p < i * CHI_CHUNK_SIZE + length xs) (dropWhile (\<lambda>p. p < i * CHI_CHUNK_SIZE) picks))))"
proof -
  let ?s = "i * CHI_CHUNK_SIZE"
  let ?c = "\<lambda>a. Gf2_128 (cipher (chi_block i (a - ?s)))"
  let ?ps = "dropWhile (\<lambda>p. p < ?s) picks"
  have tw: "takeWhile (\<lambda>p. p < ?s + length xs) picks = takeWhile (\<lambda>p. p < ?s) picks @ takeWhile (\<lambda>p. p < ?s + length xs) ?ps"
    by (rule takeWhile_split) simp
  have lo: "length (takeWhile (\<lambda>p. p < ?s) picks) \<le> length (takeWhile (\<lambda>p. p < ?s + length xs) picks)"
      "length (takeWhile (\<lambda>p. p < ?s + length xs) picks) \<le> length picks"
    by (simp_all only: tw length_append le_add1) (metis length_append length_takeWhile_le tw)
  note tk = take_takeWhile_slice [of ?s "?s + length xs" picks, OF le_add1]
  have sub: "subslice picks (length (takeWhile (\<lambda>p. p < ?s) picks)) (length (takeWhile (\<lambda>p. p < ?s + length xs) picks)) =
      Inr (takeWhile (\<lambda>p. p < ?s + length xs) ?ps)"
    using lo unfolding subslice_def tk by simp
  have ge: "?s + 0 * CHI_BATCH_SIZE \<le> p" if "p \<in> set (takeWhile (\<lambda>p. p < ?s + length xs) ?ps)" for p
    using sorted_dropWhile_ge [OF assms(1)] that by (auto dest: set_takeWhileD)
  have c: "?c a = chi cipher a" if le: "?s \<le> a" and lt: "a < ?s + length xs" for a
  proof -
    obtain q where q: "a = ?s + q" using le_Suc_ex [OF le] by blast
    then have "q < CHI_CHUNK_SIZE" using lt assms(2) by linarith
    then show ?thesis unfolding q chi_def by simp
  qed
  have d: "dot ?c (?s + 0 * CHI_BATCH_SIZE) xs = dot (chi cipher) ?s xs" by (rule trans [OF dot_cong]) (use c in auto)
  have m: "map ?c (takeWhile (\<lambda>p. p < ?s + 0 * CHI_BATCH_SIZE + length xs) (takeWhile (\<lambda>p. p < ?s + length xs) ?ps)) =
      map (chi cipher) (takeWhile (\<lambda>p. p < ?s + length xs) ?ps)"
    using ge c by (auto dest: set_takeWhileD)
  have "sorted (takeWhile (\<lambda>p. p < ?s + length xs) ?ps)" by (intro sorted_takeWhile sorted_dropWhile assms(1))
  from fold_batches_eq [OF this ge, of cipher rayon i xs 0 0] show ?thesis
    unfolding fold_chunk_def Let_def prod.case sub bindR_simps d m by simp
qed

lemma fold_chunks_eq:
  assumes "sorted picks"
  shows "\<exists>rs. mapR (fold_chunk cipher rayon picks) (enumerate i (chunks CHI_CHUNK_SIZE xs)) = (Inr rs :: ('e, _) result) \<and>
    fold (\<lambda>(a0, a1) (b0, b1). (b0 + a0, b1 + a1)) rs (x, y) =
      (x + dot (chi cipher) (i * CHI_CHUNK_SIZE) xs,
       y + sum_list (map (chi cipher) (takeWhile (\<lambda>p. p < i * CHI_CHUNK_SIZE + length xs) (dropWhile (\<lambda>p. p < i * CHI_CHUNK_SIZE) picks))))"
proof (induction "length xs" arbitrary: xs i x y rule: less_induct)
  case less
  let ?C = CHI_CHUNK_SIZE and ?tw = "\<lambda>b. takeWhile (\<lambda>p. p < b)" and ?dw = "\<lambda>b. dropWhile (\<lambda>p. p < b)"
  show ?case
  proof (cases "xs = []")
    case True
    then show ?thesis by (simp add: dot_def)
  next
    case False
    let ?vs = "take ?C xs"
    have ch: "chunks ?C xs = ?vs # chunks ?C (drop ?C xs)" using False by (simp add: chunks_step CHI_CHUNK_SIZE_def)
    have lt: "length (drop ?C xs) < length xs" using False by (simp add: CHI_CHUNK_SIZE_def)
    let ?x = "x + dot (chi cipher) (i * ?C) ?vs" and ?y = "y + sum_list (map (chi cipher) (?tw (i * ?C + length ?vs) (?dw (i * ?C) picks)))"
    obtain rs where rs: "mapR (fold_chunk cipher rayon picks) (enumerate (Suc i) (chunks ?C (drop ?C xs))) = (Inr rs :: ('e, _) result)"
        "fold (\<lambda>(a0, a1) (b0, b1). (b0 + a0, b1 + a1)) rs (?x, ?y) =
          (?x + dot (chi cipher) (Suc i * ?C) (drop ?C xs),
           ?y + sum_list (map (chi cipher) (?tw (Suc i * ?C + length (drop ?C xs)) (?dw (Suc i * ?C) picks))))"
      using less.hyps [OF lt] by blast
    have f: "fold_chunk cipher rayon picks (i, ?vs) = (Inr (dot (chi cipher) (i * ?C) ?vs,
        sum_list (map (chi cipher) (?tw (i * ?C + length ?vs) (?dw (i * ?C) picks)))) :: ('e, _) result)"
      by (rule fold_chunk_eq [OF assms]) simp
    have st: "?x + dot (chi cipher) (Suc i * ?C) (drop ?C xs) = x + dot (chi cipher) (i * ?C) xs \<and>
        ?tw (i * ?C + length xs) (?dw (i * ?C) picks) =
          ?tw (i * ?C + length ?vs) (?dw (i * ?C) picks) @ ?tw (Suc i * ?C + length (drop ?C xs)) (?dw (Suc i * ?C) picks)"
    proof (cases "?C \<le> length xs")
      case True
      have "?dw (Suc i * ?C) (?dw (i * ?C) picks) = ?dw (Suc i * ?C) picks"
        by (induction picks) auto
      then show ?thesis
        using True dot_split [OF True, of "chi cipher" "i * ?C"] takeWhile_split [of "i * ?C + ?C" "i * ?C + length xs" "?dw (i * ?C) picks"]
        by (simp add: add.commute add.assoc)
    next
      case False
      then show ?thesis by (simp add: dot_def)
    qed
    show ?thesis
      unfolding ch using rs f st by (simp add: add.assoc)
  qed
qed

lemma fold_chis_eq:
  "sorted picks \<Longrightarrow> fold_chis enc rayon seed values picks =
    (Inr (dot (chi (enc seed)) 0 values, sum_list (map (chi (enc seed)) (takeWhile (\<lambda>p. p < length values) picks))) :: ('e, _) result)"
  using fold_chunks_eq [where picks = picks and cipher = "enc seed" and rayon = rayon and i = 0 and xs = "values" and x = 0 and y = 0 and ?'e = 'e]
  by (auto simp: fold_chis_def)

end
