(* ===== verification/Ferret_Config.thy ===== *)
theory Ferret_Config
  imports Lpn Spcot
begin

text \<open>
  How a round of Ferret is planned: the single-point COTs of a multi-point one
  (\<open>ot-core/src/ferret/mpcot.rs\<close>), the parameters, their cost and the placement of a round's base
  correlations (\<open>ferret/config.rs\<close>, \<open>config/regular.rs\<close>).  \<open>emp\<close> is the cargo feature.
\<close>

section \<open>Multi-point COT\<close>

datatype mpcot_error = MpParams nat nat string | NotRegular

text \<open>Integer division panics on zero.\<close>

definition udiv :: "nat \<Rightarrow> nat \<Rightarrow> ('e, nat) result" where
  "udiv a b = (if b = 0 then Inl Panic else Inr (a div b))"

definition spcot_lengths :: "nat \<Rightarrow> nat \<Rightarrow> (mpcot_error, nat list) result" where
  "spcot_lengths count len =
     (if count > len then Inl (Err (MpParams count len ''indices cannot exceed vector length''))
      else bindR (udiv len count) (\<lambda>k.
        if \<not> count dvd len then Inl (Err (MpParams count len ''len should be a multiple of count''))
        else if \<not> is_power_of_two k then Inl (Err (MpParams count len ''regular interval length must be a power of two''))
        else let log2_len = ilog2 k in Inr (map (\<lambda>_. log2_len) [0..<count])))"

definition spcot_queries :: "nat list \<Rightarrow> nat \<Rightarrow> (mpcot_error, nat list \<times> nat list) result" where
  "spcot_queries idxs len =
     bindR (spcot_lengths (length idxs) len) (\<lambda>lengths.
     bindR (udiv len (length idxs)) (\<lambda>k.
       if \<not> list_all (\<lambda>(i, ix). i * k \<le> ix \<and> ix < (i + 1) * k) (enumerate 0 idxs) then Inl (Err NotRegular)
       else Inr (lengths, map (\<lambda>ix. ix mod k) idxs)))"

text \<open>The loop over the trees of \<open>spcot_queries_from_choices\<close>, with the tree's number and the offset.\<close>

fun queries_loop :: "bool list \<Rightarrow> nat \<Rightarrow> nat \<Rightarrow> nat \<Rightarrow> nat list \<Rightarrow> ('e, nat list) result" where
  "queries_loop choices k i offset [] = Inr []"
| "queries_loop choices k i offset (log2_len # ls) =
     bindR (foldR (\<lambda>j ix. bindR (idx choices (offset + j)) (\<lambda>c. Inr (if \<not> c then ix OR push_bit j 1 else ix))) [0..<log2_len] 0) (\<lambda>ix.
     bindR (queries_loop choices k (i + 1) (offset + log2_len) ls) (\<lambda>errs. Inr ((i * k + ix) # errs)))"

definition spcot_queries_from_choices :: "bool list \<Rightarrow> nat list \<Rightarrow> nat \<Rightarrow> ('e, nat list) result" where
  "spcot_queries_from_choices choices lengths len =
     (let count = length lengths in bindR (udiv len count) (\<lambda>k. queries_loop choices k 0 0 lengths))"

section \<open>Parameters\<close>

text \<open>The table of \<open>config/regular.rs\<close>.\<close>

definition LPN_PARAMS :: "lpn_parameters list" where
  "LPN_PARAMS =
     [\<lparr>lp_n = 870400, lp_k = 65536, lp_t = 850\<rparr>,
      \<lparr>lp_n = 2396160, lp_k = 131072, lp_t = 1170\<rparr>,
      \<lparr>lp_n = 6225920, lp_k = 262144, lp_t = 1520\<rparr>,
      \<lparr>lp_n = 15564800, lp_k = 524288, lp_t = 1900\<rparr>]"

definition iteration_cost :: "lpn_parameters \<Rightarrow> ('e, nat) result" where
  "iteration_cost p =
     bindR (assertR (lp_t p dvd lp_n p)) (\<lambda>_.
     bindR (udiv (lp_n p) (lp_t p)) (\<lambda>q.
     bindR (assertR (is_power_of_two q)) (\<lambda>_.
       Inr (lp_t p * ilog2 q + lp_k p + CSP))))"

fun selector_loop :: "nat \<Rightarrow> nat \<Rightarrow> lpn_parameters \<Rightarrow> lpn_parameters list \<Rightarrow> ('e, lpn_parameters) result" where
  "selector_loop available additional last_valid_param [] = Inr (last LPN_PARAMS)"
| "selector_loop available additional last_valid_param (param # ps) =
     bindR (iteration_cost param) (\<lambda>cost.
     bindR (usub (lp_n param) cost) (\<lambda>net.
       if available < cost then Inr last_valid_param
       else if net \<ge> additional then Inr param
       else selector_loop available additional param ps))"

definition default_parameter_selector :: "nat \<Rightarrow> nat \<Rightarrow> ('e, lpn_parameters) result" where
  "default_parameter_selector available additional = selector_loop available additional (hd LPN_PARAMS) LPN_PARAMS"

text \<open>A selector is a closure, which may panic.\<close>

record ferret_config =
  fc_reserve_bootstrap :: bool
  fc_param_selector :: "nat \<Rightarrow> nat \<Rightarrow> lpn_parameters option"

definition select_params :: "ferret_config \<Rightarrow> nat \<Rightarrow> nat \<Rightarrow> ('e, lpn_parameters) result" where
  "select_params c available additional = (case fc_param_selector c available additional of None \<Rightarrow> Inl Panic | Some p \<Rightarrow> Inr p)"

definition bootstrap_cost :: "bool \<Rightarrow> ferret_config \<Rightarrow> ('e, nat) result" where
  "bootstrap_cost emp c =
     (if emp then bindR (select_params c 0 0) iteration_cost else bindR (idx LPN_PARAMS 0) iteration_cost)"

definition config_reserve :: "bool \<Rightarrow> ferret_config \<Rightarrow> ('e, nat) result" where
  "config_reserve emp c = (if fc_reserve_bootstrap c then bootstrap_cost emp c else Inr 0)"

definition default_config :: ferret_config where
  "default_config = \<lparr>fc_reserve_bootstrap = True,
     fc_param_selector = (\<lambda>available additional. case (default_parameter_selector available additional :: (unit, _) result) of Inl _ \<Rightarrow> None | Inr p \<Rightarrow> Some p)\<rparr>"

section \<open>The plan of a round\<close>

record round_plan =
  rp_cost :: nat
  rp_user_len :: nat
  rp_refill_trees :: nat
  rp_csp :: nat
  rp_k :: nat

definition config_round_plan :: "bool \<Rightarrow> lpn_parameters \<Rightarrow> ('e, round_plan) result" where
  "config_round_plan emp p =
     bindR (iteration_cost p) (\<lambda>cost.
     bindR (udiv (lp_n p) (lp_t p)) (\<lambda>chunk.
     bindR (if emp then bindR (assertR (chunk \<noteq> 0)) (\<lambda>_. Inr (div_ceil cost chunk)) else Inr 0) (\<lambda>refill_trees.
     bindR (usub (lp_n p) (refill_trees * chunk)) (\<lambda>user_len.
       Inr \<lparr>rp_cost = cost, rp_user_len = user_len, rp_refill_trees = refill_trees, rp_csp = CSP, rp_k = lp_k p\<rparr>))))"

record tail_layout =
  tl_spcot :: nat
  tl_check :: "nat \<times> nat"
  tl_lpn :: "nat \<times> nat"

definition round_plan_tail :: "bool \<Rightarrow> round_plan \<Rightarrow> nat \<Rightarrow> tail_layout" where
  "round_plan_tail emp plan spcot_count =
     (if emp then \<lparr>tl_spcot = spcot_count, tl_check = (rp_k plan + rp_csp plan, rp_k plan), tl_lpn = (rp_k plan, 0)\<rparr>
      else \<lparr>tl_spcot = spcot_count, tl_check = (rp_csp plan, 0), tl_lpn = (rp_k plan + rp_csp plan, rp_csp plan)\<rparr>)"

definition tail_range :: "nat \<Rightarrow> nat \<times> nat \<Rightarrow> ('e, nat \<times> nat) result" where
  "tail_range base = (\<lambda>(start, end).
     bindR (usub base start) (\<lambda>a. bindR (usub base end) (\<lambda>b. Inr (a, b))))"

text \<open>\<open>Vec::drain\<close> of a range.\<close>

definition drain :: "'a list \<Rightarrow> nat \<times> nat \<Rightarrow> ('e, 'a list \<times> 'a list) result" where
  "drain xs = (\<lambda>(a, b). bindR (subslice xs a b) (\<lambda>ys. Inr (ys, take a xs @ drop b xs)))"

text \<open>The groups are drained in descending order of their start, each into its slot.\<close>

definition tail_split :: "tail_layout \<Rightarrow> 'a list \<Rightarrow> ('e, ('a list \<times> 'a list \<times> 'a list) \<times> 'a list) result" where
  "tail_split l buffer =
     bindR (usub (length buffer) (tl_spcot l)) (\<lambda>base.
     bindR (tail_range base (tl_check l)) (\<lambda>check.
     bindR (tail_range base (tl_lpn l)) (\<lambda>lpn.
     bindR (foldR (\<lambda>(rng, slot) (out, buffer). bindR (drain buffer rng) (\<lambda>(ys, buffer). Inr (out[slot := ys], buffer)))
       (rev (sort_key (\<lambda>(rng, _). fst rng) [((base, length buffer), 0), (check, 1), (lpn, 2)])) (replicate 3 [], buffer)) (\<lambda>(out, buffer).
       Inr ((out ! 0, out ! 1, out ! 2), buffer)))))"

definition take_check_masks :: "tail_layout \<Rightarrow> bool list \<Rightarrow> ('e, bool list \<times> bool list) result" where
  "take_check_masks l choices = bindR (tail_range (length choices) (tl_check l)) (drain choices)"

end
