(* ===== verification/Ferret.thy ===== *)
theory Ferret
  imports Ferret_Config Cointoss
begin

text \<open>
  The Ferret extension of correlated OT (\<open>ot-core/src/ferret.rs\<close>, \<open>ferret/sender.rs\<close>,
  \<open>ferret/receiver.rs\<close>, \<open>ferret/emp/mod.rs\<close>, \<open>emp/compat.rs\<close>): both parties' state machines, whole
  handlers with the state they leave behind on every outcome.  An output channel is a number; what a
  call sends on channels is part of its result.  Code outside is collected in \<open>ferret_env\<close>.
\<close>

section \<open>Handlers: an outcome and the state it leaves\<close>

definition bindS :: "('s \<Rightarrow> ('e, 'a) result \<times> 's) \<Rightarrow> ('a \<Rightarrow> 's \<Rightarrow> ('e, 'b) result \<times> 's) \<Rightarrow> 's \<Rightarrow> ('e, 'b) result \<times> 's" where
  "bindS m f s = (case m s of (Inl e, s) \<Rightarrow> (Inl e, s) | (Inr x, s) \<Rightarrow> f x s)"

definition retS :: "'a \<Rightarrow> 's \<Rightarrow> ('e, 'a) result \<times> 's" where
  "retS x s = (Inr x, s)"

definition modS :: "('s \<Rightarrow> 's) \<Rightarrow> 's \<Rightarrow> ('e, unit) result \<times> 's" where
  "modS f s = (Inr (), f s)"

text \<open>A fallible computation on the state that only reads it, or that returns a new state when it succeeds.\<close>

definition askS :: "('s \<Rightarrow> ('e, 'a) result) \<Rightarrow> 's \<Rightarrow> ('e, 'a) result \<times> 's" where
  "askS f s = (f s, s)"

definition stepS :: "('s \<Rightarrow> ('e, 'a \<times> 's) result) \<Rightarrow> 's \<Rightarrow> ('e, 'a) result \<times> 's" where
  "stepS f s = (case f s of Inl e \<Rightarrow> (Inl e, s) | Inr (x, s) \<Rightarrow> (Inr x, s))"

lemma runS_simps [simp]:
  "bindS m f s = (case m s of (Inl e, s) \<Rightarrow> (Inl e, s) | (Inr x, s) \<Rightarrow> f x s)"
  "retS x s = (Inr x, s)" "modS g s = (Inr (), g s)" "askS h s = (h s, s)"
  "stepS k s = (case k s of Inl e \<Rightarrow> (Inl e, s) | Inr (x, s) \<Rightarrow> (Inr x, s))"
  by (simp_all add: bindS_def retS_def modS_def askS_def stepS_def)

section \<open>The environment\<close>

text \<open>
  The cargo features, the fixed-key and the keyed cipher, the generator (\<open>random\<close>, the draw of a tree's seed, \<open>random_range\<close>),
  the hashes of the check, of the coin-toss commitment and of the compatibility derivation.
\<close>

record ('g, 'n, 'h, 'b) ferret_env =
  fe_emp :: bool
  fe_rayon :: bool
  fe_aes :: "block \<Rightarrow> block"
  fe_enc :: "block \<Rightarrow> block \<Rightarrow> block"
  fe_rng :: "'g \<Rightarrow> block \<times> 'g"
  fe_seed :: "'g \<Rightarrow> block \<times> 'g"
  fe_pick :: "nat \<Rightarrow> nat \<Rightarrow> 'g \<Rightarrow> nat \<times> 'g"
  fe_hash :: "block \<Rightarrow> 'b"
  fe_commit :: "'n seeds_decommitment \<Rightarrow> 'h"
  fe_sha256 :: "byte list \<Rightarrow> byte list"

text \<open>\<open>emp/compat.rs\<close>.\<close>

definition LPN_SEED_DOMAIN :: string where
  "LPN_SEED_DOMAIN = ''emp-ot:ferret:lpn-seed''"

definition u32_le :: "nat \<Rightarrow> byte list" where
  "u32_le n = map (\<lambda>i. ucast (drop_bit (8 * i) (of_nat n :: 32 word))) [0..<4]"

definition compat_frame :: "byte list \<Rightarrow> nat \<Rightarrow> byte list \<Rightarrow> byte list" where
  "compat_frame out ty bytes = out @ u32_le ty @ u32_le (length bytes) @ bytes"

definition compat_lpn_seed :: "(byte list \<Rightarrow> byte list) \<Rightarrow> block \<Rightarrow> ('e, block) result" where
  "compat_lpn_seed sha256 sid =
     (let msg = compat_frame [] 1 (map of_char LPN_SEED_DOMAIN);
          msg = compat_frame msg 3 (to_le_bytes sid);
          digest = sha256 msg
      in bindR (subslice digest 0 16) (\<lambda>bytes. Inr (from_le_bytes bytes)))"

datatype 'ce ferret_error = FState | MutexLocked | Bootstrap 'ce | Spcot spcot_error | Mpcot mpcot_error
  | Toss cointoss_error | InsufficientCOTs nat nat

type_synonym 'h receiver_extend = "bool list \<times> 'h"
type_synonym sender_extend = "block list \<times> block list"
type_synonym 'n receiver_check = "bool list \<times> block \<times> 'n seeds_decommitment"
type_synonym 'b sender_check = "'b"

text \<open>\<open>split_off_blocks\<close>.\<close>

definition split_off_blocks :: "gf2_128 list \<Rightarrow> nat \<Rightarrow> ('e, block list \<times> gf2_128 list) result" where
  "split_off_blocks buffer count =
     bindR (usub (length buffer) count) (\<lambda>start. Inr (map gf128_inner (drop start buffer), take start buffer))"

text \<open>The constant \<open>D\<close> of the encoders of the protocol.\<close>

definition LPN_D :: nat where
  "LPN_D = 10"

section \<open>The sender\<close>

datatype 'h fs_state = SExtend
  | SExtending lpn_parameters "nat list"
  | SCheck lpn_parameters "gf2_128 list" "gf2_128 list" "'h receiver_received"
  | SFinish lpn_parameters "gf2_128 list" block
  | SError

record ('c, 'g, 'h) ferret_sender =
  fs_cot :: 'c
  fs_locked :: bool
  fs_alloc :: nat
  fs_queue :: "(nat \<times> nat) list"
  fs_id :: transfer_id
  fs_prg :: 'g
  fs_delta :: block
  fs_config :: ferret_config
  fs_keys :: "gf2_128 list"
  fs_pending :: nat
  fs_state :: "'h fs_state"
  fs_spcot :: spcot_sender
  fs_sid :: block
  fs_next_keys :: "gf2_128 list"
  fs_chans :: nat

definition fs_new :: "('c \<Rightarrow> block) \<Rightarrow> 'g \<Rightarrow> ferret_config \<Rightarrow> 'c \<Rightarrow> ('c, 'g, 'h) ferret_sender" where
  "fs_new cot_delta prg config cot =
     (let d = cot_delta cot
      in \<lparr>fs_cot = cot, fs_locked = False, fs_alloc = 0, fs_queue = [], fs_id = 0, fs_prg = prg, fs_delta = d, fs_config = config,
          fs_keys = [], fs_pending = 0, fs_state = SExtend, fs_spcot = sps_new d, fs_sid = 0, fs_next_keys = [], fs_chans = 0\<rparr>)"

definition fs_set_sid :: "('c, 'g, 'h) ferret_sender \<Rightarrow> block \<Rightarrow> ('c, 'g, 'h) ferret_sender" where
  "fs_set_sid s sid = s\<lparr>fs_sid := sid\<rparr>"

text \<open>\<open>acquire_cot\<close> returns a guard, which holds the lock until it is dropped.\<close>

definition fs_acquire_cot :: "('c, 'g, 'h) ferret_sender \<Rightarrow> ('e, 'c \<times> ('c, 'g, 'h) ferret_sender) result" where
  "fs_acquire_cot s = bindR (assertR (\<not> fs_locked s)) (\<lambda>_. Inr (fs_cot s, s\<lparr>fs_locked := True\<rparr>))"

definition fs_drop_guard :: "('c, 'g, 'h) ferret_sender \<Rightarrow> 'c \<Rightarrow> ('c, 'g, 'h) ferret_sender" where
  "fs_drop_guard s cot = s\<lparr>fs_cot := cot, fs_locked := False\<rparr>"

definition fs_wants_bootstrap :: "('g, 'n, 'h, 'b) ferret_env \<Rightarrow> ('c, 'g, 'h) ferret_sender \<Rightarrow> ('e, bool) result" where
  "fs_wants_bootstrap E s = bindR (bootstrap_cost (fe_emp E) (fs_config s)) (\<lambda>cost. Inr (length (fs_keys s) < cost))"

definition fs_available :: "('g, 'n, 'h, 'b) ferret_env \<Rightarrow> ('c, 'g, 'h) ferret_sender \<Rightarrow> ('e, nat) result" where
  "fs_available E s =
     bindR (usub (length (fs_keys s)) (fs_pending s)) (\<lambda>len.
     bindR (config_reserve (fe_emp E) (fs_config s)) (\<lambda>reserve. Inr (len - reserve)))"

definition fs_wants_extend :: "('g, 'n, 'h, 'b) ferret_env \<Rightarrow> ('c, 'g, 'h) ferret_sender \<Rightarrow> ('e, bool) result" where
  "fs_wants_extend E s = bindR (fs_available E s) (\<lambda>n. Inr (n < fs_alloc s))"

definition fs_alloc_bootstrap ::
  "('g, 'n, 'h, 'b) ferret_env \<Rightarrow> ('c \<Rightarrow> nat \<Rightarrow> ('ce, 'c) result) \<Rightarrow> ('c, 'g, 'h) ferret_sender \<Rightarrow>
     ('ce ferret_error, unit) result \<times> ('c, 'g, 'h) ferret_sender" where
  "fs_alloc_bootstrap E cot_alloc = stepS (\<lambda>s.
     bindR (bootstrap_cost (fe_emp E) (fs_config s)) (\<lambda>cost.
       let missing = cost - length (fs_keys s)
       in if fs_locked s then Inl (Err MutexLocked)
          else bindR (map_err Bootstrap (cot_alloc (fs_cot s) missing)) (\<lambda>cot. Inr ((), s\<lparr>fs_cot := cot\<rparr>))))"

definition fs_take :: "('c, 'g, 'h) ferret_sender \<Rightarrow> ('e, 'h fs_state) result \<times> ('c, 'g, 'h) ferret_sender" where
  "fs_take s = (Inr (fs_state s), s\<lparr>fs_state := SError\<rparr>)"

definition fs_bootstrap ::
  "('g, 'n, 'h, 'b) ferret_env \<Rightarrow> ('c \<Rightarrow> nat \<Rightarrow> ('ce, sender_output \<times> 'c) result) \<Rightarrow> ('c, 'g, 'h) ferret_sender \<Rightarrow>
     ('ce ferret_error, unit \<times> ('c, 'g, 'h) ferret_sender) result" where
  "fs_bootstrap E cot_try_send s =
     bindR (fs_wants_bootstrap E s) (\<lambda>wants.
       if wants then
         bindR (bootstrap_cost (fe_emp E) (fs_config s)) (\<lambda>cost.
         bindR (usub cost (length (fs_keys s))) (\<lambda>missing.
         if fs_locked s then Inl (Err MutexLocked)
         else bindR (map_err Bootstrap (cot_try_send (fs_cot s) missing)) (\<lambda>((_, keys), cot).
           Inr ((), s\<lparr>fs_cot := cot, fs_keys := fs_keys s @ map Gf2_128 keys\<rparr>))))
       else Inr ((), s))"

definition fs_begin_round :: "('g, 'n, 'h, 'b) ferret_env \<Rightarrow> ('c, 'g, 'h) ferret_sender \<Rightarrow> ('c, 'g, 'h) ferret_sender" where
  "fs_begin_round E s = (if fe_emp E then s\<lparr>fs_keys := fs_keys s @ fs_next_keys s, fs_next_keys := []\<rparr> else s)"

definition fs_start_extend ::
  "('g, 'n, 'h, 'b) ferret_env \<Rightarrow> ('c \<Rightarrow> nat \<Rightarrow> ('ce, sender_output \<times> 'c) result) \<Rightarrow> ('c, 'g, 'h) ferret_sender \<Rightarrow>
     ('ce ferret_error, unit) result \<times> ('c, 'g, 'h) ferret_sender" where
  "fs_start_extend E cot_try_send =
     bindS fs_take (\<lambda>st. case st of
       SExtend \<Rightarrow>
         bindS (modS (fs_begin_round E)) (\<lambda>_.
         bindS (stepS (fs_bootstrap E cot_try_send)) (\<lambda>_.
         bindS (askS (fs_available E)) (\<lambda>available.
         bindS (askS (\<lambda>s. let missing = fs_alloc s - available in select_params (fs_config s) (length (fs_keys s)) missing)) (\<lambda>params.
         bindS (askS (\<lambda>_. map_err Mpcot (spcot_lengths (lp_t params) (lp_n params)))) (\<lambda>lengths.
         modS (\<lambda>s. s\<lparr>fs_state := SExtending params lengths\<rparr>))))))
     | _ \<Rightarrow> askS (\<lambda>_. Inl (Err FState)))"

text \<open>\<open>debug_assert_eq\<close> of both \<open>extend\<close>s.\<close>

definition check_plan :: "round_plan \<Rightarrow> lpn_parameters \<Rightarrow> ('e, unit) result" where
  "check_plan plan params =
     bindR (udiv (lp_n params) (lp_t params)) (\<lambda>q. assertR (rp_user_len plan + rp_refill_trees plan * q = lp_n params))"

definition fs_extend ::
  "('g, 'n, 'h, 'b) ferret_env \<Rightarrow> 'h receiver_extend \<Rightarrow> ('c, 'g, 'h) ferret_sender \<Rightarrow>
     ('ce ferret_error, sender_extend) result \<times> ('c, 'g, 'h) ferret_sender" where
  "fs_extend E = (\<lambda>(flip, commitment).
     bindS fs_take (\<lambda>st. case st of
       SExtending params lengths \<Rightarrow>
         (let spcot_count = sum_list lengths
          in bindS (askS (\<lambda>_. config_round_plan (fe_emp E) params)) (\<lambda>plan.
             bindS (askS (\<lambda>_. check_plan plan params)) (\<lambda>_.
             bindS (askS (\<lambda>s. if length (fs_keys s) < rp_cost plan then Inl (Err (InsufficientCOTs (rp_cost plan) (length (fs_keys s)))) else Inr ())) (\<lambda>_.
             bindS (stepS (\<lambda>s. bindR (tail_split (round_plan_tail (fe_emp E) plan spcot_count) (fs_keys s)) (\<lambda>(groups, keys).
               Inr (groups, s\<lparr>fs_keys := keys\<rparr>)))) (\<lambda>(spcot_keys, check_keys, lpn_keys).
             bindS (askS (\<lambda>s. Inr (length (fs_keys s)))) (\<lambda>start.
             bindS (modS (\<lambda>s. s\<lparr>fs_keys := fs_keys s @ replicate (lp_n params) 0, fs_pending := lp_n params\<rparr>)) (\<lambda>_.
             bindS (stepS (\<lambda>s. bindR (map_err Spcot (sps_extend (fe_aes E) (fe_emp E) (fe_seed E) (fs_prg s) (fs_spcot s) lengths spcot_keys flip (drop start (fs_keys s))))
               (\<lambda>(cs, vs, g, sp). Inr (cs, s\<lparr>fs_keys := take start (fs_keys s) @ vs, fs_prg := g, fs_spcot := sp\<rparr>)))) (\<lambda>cs.
             bindS (stepS (\<lambda>s. let (seed, g) = fe_rng E (fs_prg s) in Inr (seed, s\<lparr>fs_prg := g\<rparr>))) (\<lambda>seed.
             let (toss, share) = receiver_reveal [seed] commitment
             in bindS (modS (\<lambda>s. s\<lparr>fs_state := SCheck params check_keys lpn_keys toss\<rparr>)) (\<lambda>_.
                retS (cs, share)))))))))))
     | _ \<Rightarrow> askS (\<lambda>_. Inl (Err FState))))"

definition fs_check ::
  "('g, 'n, 'h, 'b) ferret_env \<Rightarrow> 'n receiver_check \<Rightarrow> ('c, 'g, 'h) ferret_sender \<Rightarrow>
     ('ce ferret_error, 'b sender_check) result \<times> ('c, 'g, 'h) ferret_sender" where
  "fs_check E = (\<lambda>(flip, chi_seed, decommitment).
     bindS fs_take (\<lambda>st. case st of
       SCheck params check_keys lpn_keys toss \<Rightarrow>
         bindS (askS (\<lambda>_. map_err Toss (receiver_finalize (fe_commit E) toss decommitment))) (\<lambda>coin.
         bindS (askS (\<lambda>s. if fe_emp E then compat_lpn_seed (fe_sha256 E) (fs_sid s) else idx coin 0)) (\<lambda>lpn_seed.
         bindS (stepS (\<lambda>s. bindR (usub (length (fs_keys s)) (lp_n params)) (\<lambda>start.
           bindR (map_err Spcot (sps_check (fe_enc E) (fe_rayon E) (fe_hash E) (fs_spcot s) check_keys flip (drop start (fs_keys s)) chi_seed))
             (\<lambda>(h, sp). Inr (h, s\<lparr>fs_spcot := sp\<rparr>))))) (\<lambda>hashed_v.
         bindS (modS (\<lambda>s. s\<lparr>fs_state := SFinish params lpn_keys lpn_seed\<rparr>)) (\<lambda>_. retS hashed_v))))
     | _ \<Rightarrow> askS (\<lambda>_. Inl (Err FState))))"

text \<open>The loop serves queued requests in order and stops at the first it cannot serve.\<close>

fun fs_process_queue ::
  "('g, 'n, 'h, 'b) ferret_env \<Rightarrow> (nat \<times> nat) list \<Rightarrow> ('c, 'g, 'h) ferret_sender \<Rightarrow>
     ('e, (nat \<times> sender_output) list \<times> ('c, 'g, 'h) ferret_sender) result" where
  "fs_process_queue E [] s = Inr ([], s\<lparr>fs_queue := []\<rparr>)"
| "fs_process_queue E ((count, ch) # q) s =
     bindR (fs_available E s) (\<lambda>available.
       if available < count then Inr ([], s\<lparr>fs_queue := (count, ch) # q\<rparr>)
       else
         let (id, nxt) = next_id (fs_id s)
         in bindR (split_off_blocks (fs_keys s) count) (\<lambda>(keys, rest).
            bindR (fs_process_queue E q (s\<lparr>fs_id := nxt, fs_keys := rest\<rparr>)) (\<lambda>(outs, s). Inr ((ch, (id, keys)) # outs, s))))"

definition fs_take_refill :: "('g, 'n, 'h, 'b) ferret_env \<Rightarrow> lpn_parameters \<Rightarrow> ('c, 'g, 'h) ferret_sender \<Rightarrow> ('e, unit \<times> ('c, 'g, 'h) ferret_sender) result" where
  "fs_take_refill E params s =
     (if fe_emp E then
        bindR (config_round_plan (fe_emp E) params) (\<lambda>plan.
        bindR (udiv (lp_n params) (lp_t params)) (\<lambda>q.
        bindR (usub (length (fs_keys s)) (rp_refill_trees plan * q)) (\<lambda>n.
        bindR (split_off (fs_keys s) n) (\<lambda>(keys, refill).
          Inr ((), s\<lparr>fs_keys := keys, fs_next_keys := take (rp_cost plan) refill\<rparr>)))))
      else Inr ((), s))"

definition fs_settle ::
  "('g, 'n, 'h, 'b) ferret_env \<Rightarrow> ('c, 'g, 'h) ferret_sender \<Rightarrow>
     ('e, (nat \<times> sender_output) list \<times> ('c, 'g, 'h) ferret_sender) result" where
  "fs_settle E s =
     bindR (fs_available E s) (\<lambda>available.
       let missing = fs_alloc s - available
       in if missing = 0 then let s = s\<lparr>fs_alloc := 0\<rparr> in fs_process_queue E (fs_queue s) s else Inr ([], s))"

definition fs_finish_extend ::
  "('g, 'n, 'h, 'b) ferret_env \<Rightarrow> ('c, 'g, 'h) ferret_sender \<Rightarrow>
     ('ce ferret_error, (nat \<times> sender_output) list) result \<times> ('c, 'g, 'h) ferret_sender" where
  "fs_finish_extend E =
     bindS fs_take (\<lambda>st. case st of
       SFinish params lpn_keys lpn_seed \<Rightarrow>
         bindS (askS (\<lambda>_. lpn_new (of_nat (lp_k params)))) (\<lambda>encoder.
         bindS (stepS (\<lambda>s. bindR (usub (length (fs_keys s)) (lp_n params)) (\<lambda>start.
           bindR (lpn_compute (fe_emp E) (fe_enc E) LPN_D encoder lpn_seed (map gf128_inner (drop start (fs_keys s))) (map gf128_inner lpn_keys)) (\<lambda>y.
             Inr ((), s\<lparr>fs_keys := take start (fs_keys s) @ map Gf2_128 y\<rparr>))))) (\<lambda>_.
         bindS (modS (\<lambda>s. s\<lparr>fs_pending := 0\<rparr>)) (\<lambda>_.
         bindS (stepS (fs_take_refill E params)) (\<lambda>_.
         bindS (stepS (fs_settle E)) (\<lambda>outs.
         bindS (modS (\<lambda>s. s\<lparr>fs_state := SExtend\<rparr>)) (\<lambda>_. retS outs))))))
     | _ \<Rightarrow> askS (\<lambda>_. Inl (Err FState)))"

section \<open>The sender as a source of random correlated OTs\<close>

definition fs_rcot_alloc :: "('c, 'g, 'h) ferret_sender \<Rightarrow> nat \<Rightarrow> ('c, 'g, 'h) ferret_sender" where
  "fs_rcot_alloc s count = s\<lparr>fs_alloc := fs_alloc s + count\<rparr>"

definition fs_try_send ::
  "('g, 'n, 'h, 'b) ferret_env \<Rightarrow> ('c, 'g, 'h) ferret_sender \<Rightarrow> nat \<Rightarrow>
     ('ce ferret_error, sender_output \<times> ('c, 'g, 'h) ferret_sender) result" where
  "fs_try_send E s count =
     bindR (fs_available E s) (\<lambda>available.
       if available < count then Inl (Err (InsufficientCOTs count available))
       else
         let (id, nxt) = next_id (fs_id s)
         in bindR (split_off_blocks (fs_keys s) count) (\<lambda>(keys, rest). Inr ((id, keys), s\<lparr>fs_id := nxt, fs_keys := rest\<rparr>)))"

text \<open>Returns the channel of the output, and what is sent at once.\<close>

definition fs_queue_send ::
  "('g, 'n, 'h, 'b) ferret_env \<Rightarrow> ('c, 'g, 'h) ferret_sender \<Rightarrow> nat \<Rightarrow>
     ('ce ferret_error, nat \<times> (nat \<times> sender_output) list \<times> ('c, 'g, 'h) ferret_sender) result" where
  "fs_queue_send E s count =
     bindR (fs_available E s) (\<lambda>available.
       if available \<ge> count then
         bindR (fs_try_send E s count) (\<lambda>(output, s).
           let ch = fs_chans s in Inr (ch, [(ch, output)], s\<lparr>fs_chans := ch + 1\<rparr>))
       else
         let ch = fs_chans s in Inr (ch, [], s\<lparr>fs_chans := ch + 1, fs_queue := fs_queue s @ [(count, ch)]\<rparr>))"

section \<open>The receiver\<close>

datatype 'n fr_state = RExtend
  | RExtending lpn_parameters "nat list" "nat list" "nat list" "'n sender_committed"
  | RFinish lpn_parameters "nat list" "gf2_128 list" block
  | RError

record ('c, 'g, 'n) ferret_receiver =
  fr_cot :: 'c
  fr_locked :: bool
  fr_alloc :: nat
  fr_queue :: "(nat \<times> nat) list"
  fr_id :: transfer_id
  fr_prg :: 'g
  fr_config :: ferret_config
  fr_macs :: "gf2_128 list"
  fr_pending :: nat
  fr_choices :: "bool list"
  fr_state :: "'n fr_state"
  fr_spcot :: spcot_receiver
  fr_sid :: block
  fr_next_macs :: "gf2_128 list"
  fr_next_choices :: "bool list"
  fr_chans :: nat

definition fr_new :: "'g \<Rightarrow> ferret_config \<Rightarrow> 'c \<Rightarrow> ('c, 'g, 'n) ferret_receiver" where
  "fr_new prg config cot =
     \<lparr>fr_cot = cot, fr_locked = False, fr_alloc = 0, fr_queue = [], fr_id = 0, fr_prg = prg, fr_config = config, fr_macs = [],
      fr_pending = 0, fr_choices = [], fr_state = RExtend, fr_spcot = spr_new, fr_sid = 0, fr_next_macs = [], fr_next_choices = [], fr_chans = 0\<rparr>"

definition fr_set_sid :: "('c, 'g, 'n) ferret_receiver \<Rightarrow> block \<Rightarrow> ('c, 'g, 'n) ferret_receiver" where
  "fr_set_sid r sid = r\<lparr>fr_sid := sid\<rparr>"

definition fr_acquire_cot :: "('c, 'g, 'n) ferret_receiver \<Rightarrow> ('e, 'c \<times> ('c, 'g, 'n) ferret_receiver) result" where
  "fr_acquire_cot r = bindR (assertR (\<not> fr_locked r)) (\<lambda>_. Inr (fr_cot r, r\<lparr>fr_locked := True\<rparr>))"

definition fr_drop_guard :: "('c, 'g, 'n) ferret_receiver \<Rightarrow> 'c \<Rightarrow> ('c, 'g, 'n) ferret_receiver" where
  "fr_drop_guard r cot = r\<lparr>fr_cot := cot, fr_locked := False\<rparr>"

definition fr_wants_bootstrap :: "('g, 'n, 'h, 'b) ferret_env \<Rightarrow> ('c, 'g, 'n) ferret_receiver \<Rightarrow> ('e, bool) result" where
  "fr_wants_bootstrap E r = bindR (bootstrap_cost (fe_emp E) (fr_config r)) (\<lambda>cost. Inr (length (fr_macs r) < cost))"

definition fr_available :: "('g, 'n, 'h, 'b) ferret_env \<Rightarrow> ('c, 'g, 'n) ferret_receiver \<Rightarrow> ('e, nat) result" where
  "fr_available E r =
     bindR (usub (length (fr_macs r)) (fr_pending r)) (\<lambda>len.
     bindR (config_reserve (fe_emp E) (fr_config r)) (\<lambda>reserve. Inr (len - reserve)))"

definition fr_wants_extend :: "('g, 'n, 'h, 'b) ferret_env \<Rightarrow> ('c, 'g, 'n) ferret_receiver \<Rightarrow> ('e, bool) result" where
  "fr_wants_extend E r = bindR (fr_available E r) (\<lambda>n. Inr (n < fr_alloc r))"

definition fr_alloc_bootstrap ::
  "('g, 'n, 'h, 'b) ferret_env \<Rightarrow> ('c \<Rightarrow> nat \<Rightarrow> ('ce, 'c) result) \<Rightarrow> ('c, 'g, 'n) ferret_receiver \<Rightarrow>
     ('ce ferret_error, unit) result \<times> ('c, 'g, 'n) ferret_receiver" where
  "fr_alloc_bootstrap E cot_alloc = stepS (\<lambda>r.
     bindR (bootstrap_cost (fe_emp E) (fr_config r)) (\<lambda>cost.
       let missing = cost - length (fr_macs r)
       in if fr_locked r then Inl (Err MutexLocked)
          else bindR (map_err Bootstrap (cot_alloc (fr_cot r) missing)) (\<lambda>cot. Inr ((), r\<lparr>fr_cot := cot\<rparr>))))"

definition fr_take :: "('c, 'g, 'n) ferret_receiver \<Rightarrow> ('e, 'n fr_state) result \<times> ('c, 'g, 'n) ferret_receiver" where
  "fr_take r = (Inr (fr_state r), r\<lparr>fr_state := RError\<rparr>)"

definition fr_bootstrap ::
  "('g, 'n, 'h, 'b) ferret_env \<Rightarrow> ('c \<Rightarrow> nat \<Rightarrow> ('ce, receiver_output \<times> 'c) result) \<Rightarrow> ('c, 'g, 'n) ferret_receiver \<Rightarrow>
     ('ce ferret_error, unit \<times> ('c, 'g, 'n) ferret_receiver) result" where
  "fr_bootstrap E cot_try_recv r =
     bindR (fr_wants_bootstrap E r) (\<lambda>wants.
       if wants then
         bindR (bootstrap_cost (fe_emp E) (fr_config r)) (\<lambda>cost.
         bindR (usub cost (length (fr_macs r))) (\<lambda>missing.
         if fr_locked r then Inl (Err MutexLocked)
         else bindR (map_err Bootstrap (cot_try_recv (fr_cot r) missing)) (\<lambda>((_, choices, macs), cot).
           Inr ((), r\<lparr>fr_cot := cot, fr_macs := fr_macs r @ map Gf2_128 macs, fr_choices := fr_choices r @ choices\<rparr>))))
       else Inr ((), r))"

definition fr_begin_round :: "('g, 'n, 'h, 'b) ferret_env \<Rightarrow> ('c, 'g, 'n) ferret_receiver \<Rightarrow> ('c, 'g, 'n) ferret_receiver" where
  "fr_begin_round E r =
     (if fe_emp E then r\<lparr>fr_macs := fr_macs r @ fr_next_macs r, fr_next_macs := [],
        fr_choices := fr_choices r @ fr_next_choices r, fr_next_choices := []\<rparr> else r)"

text \<open>The error positions: read off the choices, or drawn.\<close>

definition fr_errors ::
  "('g, 'n, 'h, 'b) ferret_env \<Rightarrow> bool list \<Rightarrow> nat list \<Rightarrow> lpn_parameters \<Rightarrow> ('c, 'g, 'n) ferret_receiver \<Rightarrow>
     ('e, nat list \<times> ('c, 'g, 'n) ferret_receiver) result" where
  "fr_errors E masks lengths params r =
     (if fe_emp E then bindR (spcot_queries_from_choices masks lengths (lp_n params)) (\<lambda>err. Inr (err, r))
      else bindR (sample_error_indices (fe_pick E) (fr_prg r) (lp_n params) (lp_t params)) (\<lambda>(err, g). Inr (err, r\<lparr>fr_prg := g\<rparr>)))"

definition fr_start_extend ::
  "('g, 'n, 'h, 'b) ferret_env \<Rightarrow> ('c \<Rightarrow> nat \<Rightarrow> ('ce, receiver_output \<times> 'c) result) \<Rightarrow> 'n \<Rightarrow> ('c, 'g, 'n) ferret_receiver \<Rightarrow>
     ('ce ferret_error, 'h receiver_extend) result \<times> ('c, 'g, 'n) ferret_receiver" where
  "fr_start_extend E cot_try_recv nonce =
     bindS fr_take (\<lambda>st. case st of
       RExtend \<Rightarrow>
         bindS (modS (fr_begin_round E)) (\<lambda>_.
         bindS (stepS (fr_bootstrap E cot_try_recv)) (\<lambda>_.
         bindS (askS (fr_available E)) (\<lambda>available.
         bindS (askS (\<lambda>r. let missing = fr_alloc r - available in select_params (fr_config r) (length (fr_macs r)) missing)) (\<lambda>params.
         bindS (askS (\<lambda>_. map_err Mpcot (spcot_lengths (lp_t params) (lp_n params)))) (\<lambda>lengths.
         let spcot_count = sum_list lengths
         in bindS (askS (\<lambda>r. bindR (usub (length (fr_choices r)) spcot_count) (\<lambda>n. Inr (drop n (fr_choices r))))) (\<lambda>masks.
            bindS (stepS (fr_errors E masks lengths params)) (\<lambda>err.
            bindS (askS (\<lambda>_. map_err Mpcot (spcot_queries err (lp_n params)))) (\<lambda>(_, idxs).
            bindS (askS (\<lambda>_. map_err Spcot (spr_derandomize lengths idxs masks))) (\<lambda>flip.
            bindS (modS (\<lambda>r. r\<lparr>fr_choices := take (length (fr_choices r) - spcot_count) (fr_choices r)\<rparr>)) (\<lambda>_.
            bindS (stepS (\<lambda>r. let (seed, g) = fe_rng E (fr_prg r) in Inr (seed, r\<lparr>fr_prg := g\<rparr>))) (\<lambda>seed.
            let (toss, commitment) = sender_send (fe_commit E) nonce [seed]
            in bindS (modS (\<lambda>r. r\<lparr>fr_state := RExtending params err lengths idxs toss\<rparr>)) (\<lambda>_.
               retS (flip, commitment)))))))))))))
     | _ \<Rightarrow> askS (\<lambda>_. Inl (Err FState)))"

definition fr_extend ::
  "('g, 'n, 'h, 'b) ferret_env \<Rightarrow> sender_extend \<Rightarrow> ('c, 'g, 'n) ferret_receiver \<Rightarrow>
     ('ce ferret_error, 'n receiver_check) result \<times> ('c, 'g, 'n) ferret_receiver" where
  "fr_extend E = (\<lambda>(cs, share).
     bindS fr_take (\<lambda>st. case st of
       RExtending params err lengths idxs toss \<Rightarrow>
         bindS (askS (\<lambda>_. map_err Toss (sender_receive toss share))) (\<lambda>(seeds, received).
         bindS (askS (\<lambda>r. if fe_emp E then compat_lpn_seed (fe_sha256 E) (fr_sid r) else idx seeds 0)) (\<lambda>lpn_seed.
         let decommitment = sender_finalize received; spcot_count = sum_list lengths
         in bindS (askS (\<lambda>_. config_round_plan (fe_emp E) params)) (\<lambda>plan.
            bindS (askS (\<lambda>_. check_plan plan params)) (\<lambda>_.
            bindS (askS (\<lambda>r. if length (fr_macs r) < rp_cost plan then Inl (Err (InsufficientCOTs (rp_cost plan) (length (fr_macs r)))) else Inr ())) (\<lambda>_.
            let tail = round_plan_tail (fe_emp E) plan spcot_count
            in bindS (stepS (\<lambda>r. bindR (tail_split tail (fr_macs r)) (\<lambda>(groups, macs). Inr (groups, r\<lparr>fr_macs := macs\<rparr>)))) (\<lambda>(spcot_macs, check_macs, lpn_macs).
               bindS (stepS (\<lambda>r. bindR (take_check_masks tail (fr_choices r)) (\<lambda>(masks, choices). Inr (masks, r\<lparr>fr_choices := choices\<rparr>)))) (\<lambda>check_masks.
               bindS (askS (\<lambda>r. Inr (length (fr_macs r)))) (\<lambda>start.
               bindS (modS (\<lambda>r. r\<lparr>fr_macs := fr_macs r @ replicate (lp_n params) 0, fr_pending := lp_n params\<rparr>)) (\<lambda>_.
               bindS (stepS (\<lambda>r. bindR (map_err Spcot (spr_extend (fe_aes E) (fe_emp E) (fr_spcot r) lengths idxs spcot_macs cs (drop start (fr_macs r))))
                 (\<lambda>(ws, sp). Inr ((), r\<lparr>fr_macs := take start (fr_macs r) @ ws, fr_spcot := sp\<rparr>)))) (\<lambda>_.
               bindS (stepS (\<lambda>r. bindR (map_err Spcot (spr_start_check (fe_enc E) (fe_rayon E) (fe_rng E) (fr_prg r) (fr_spcot r) check_macs check_masks (drop start (fr_macs r))))
                 (\<lambda>(out, g, sp). Inr (out, r\<lparr>fr_prg := g, fr_spcot := sp\<rparr>)))) (\<lambda>(flip, chi_seed).
               bindS (modS (\<lambda>r. r\<lparr>fr_state := RFinish params err lpn_macs lpn_seed\<rparr>)) (\<lambda>_.
               retS (flip, chi_seed, decommitment)))))))))))))
     | _ \<Rightarrow> askS (\<lambda>_. Inl (Err FState))))"

text \<open>Packing and unpacking of bits, as \<open>finish_extend\<close> spells them out.\<close>

definition pack_choices :: "nat \<Rightarrow> bool list \<Rightarrow> byte list" where
  "pack_choices k choices =
     (let u = replicate (div_ceil k 8) 0; cs = chunks 8 choices
      in map2 (\<lambda>byte bits. fold (\<lambda>(i, b) byte. byte OR push_bit i (of_bool b)) (enumerate 0 bits) byte) u cs @ drop (length cs) u)"

definition pack_errors :: "nat \<Rightarrow> nat list \<Rightarrow> ('e, byte list) result" where
  "pack_errors n err =
     foldR (\<lambda>ix x. bindR (idx x (ix div 8)) (\<lambda>b. upd x (ix div 8) (b OR push_bit (ix mod 8) 1))) err (replicate (div_ceil n 8) 0)"

fun unpack_bits :: "nat \<Rightarrow> byte list \<Rightarrow> bool list" where
  "unpack_bits remaining [] = []"
| "unpack_bits remaining (b # bs) =
     map (\<lambda>i. drop_bit i b AND 1 = 1) [0..<min remaining 8] @ unpack_bits (remaining - min remaining 8) bs"

fun fr_process_queue ::
  "('g, 'n, 'h, 'b) ferret_env \<Rightarrow> (nat \<times> nat) list \<Rightarrow> ('c, 'g, 'n) ferret_receiver \<Rightarrow>
     ('e, (nat \<times> receiver_output) list \<times> ('c, 'g, 'n) ferret_receiver) result" where
  "fr_process_queue E [] r = Inr ([], r\<lparr>fr_queue := []\<rparr>)"
| "fr_process_queue E ((count, ch) # q) r =
     bindR (fr_available E r) (\<lambda>available.
       if available < count then Inr ([], r\<lparr>fr_queue := (count, ch) # q\<rparr>)
       else
         let (id, nxt) = next_id (fr_id r)
         in bindR (split_off_blocks (fr_macs r) count) (\<lambda>(macs, rest).
            bindR (usub (length (fr_choices r)) count) (\<lambda>n.
            bindR (split_off (fr_choices r) n) (\<lambda>(cs, choices).
            bindR (fr_process_queue E q (r\<lparr>fr_id := nxt, fr_macs := rest, fr_choices := cs\<rparr>)) (\<lambda>(outs, r).
              Inr ((ch, (id, choices, macs)) # outs, r))))))"

definition fr_take_refill :: "('g, 'n, 'h, 'b) ferret_env \<Rightarrow> lpn_parameters \<Rightarrow> ('c, 'g, 'n) ferret_receiver \<Rightarrow> ('e, unit \<times> ('c, 'g, 'n) ferret_receiver) result" where
  "fr_take_refill E params r =
     (if fe_emp E then
        bindR (config_round_plan (fe_emp E) params) (\<lambda>plan.
        bindR (udiv (lp_n params) (lp_t params)) (\<lambda>q.
        bindR (usub (length (fr_macs r)) (rp_refill_trees plan * q)) (\<lambda>n.
        bindR (split_off (fr_macs r) n) (\<lambda>(macs, refill).
        bindR (usub (length (fr_choices r)) (rp_refill_trees plan * q)) (\<lambda>n.
        bindR (split_off (fr_choices r) n) (\<lambda>(choices, refill_choices).
          Inr ((), r\<lparr>fr_macs := macs, fr_next_macs := take (rp_cost plan) refill,
            fr_choices := choices, fr_next_choices := take (rp_cost plan) refill_choices\<rparr>)))))))
      else Inr ((), r))"

definition fr_settle ::
  "('g, 'n, 'h, 'b) ferret_env \<Rightarrow> ('c, 'g, 'n) ferret_receiver \<Rightarrow>
     ('e, (nat \<times> receiver_output) list \<times> ('c, 'g, 'n) ferret_receiver) result" where
  "fr_settle E r =
     bindR (fr_available E r) (\<lambda>available.
       let missing = fr_alloc r - available
       in if missing = 0 then let r = r\<lparr>fr_alloc := 0\<rparr> in fr_process_queue E (fr_queue r) r else Inr ([], r))"

definition fr_finish_extend ::
  "('g, 'n, 'h, 'b) ferret_env \<Rightarrow> 'b sender_check \<Rightarrow> ('c, 'g, 'n) ferret_receiver \<Rightarrow>
     ('ce ferret_error, (nat \<times> receiver_output) list) result \<times> ('c, 'g, 'n) ferret_receiver" where
  "fr_finish_extend E hashed_v =
     bindS fr_take (\<lambda>st. case st of
       RFinish params err lpn_macs lpn_seed \<Rightarrow>
         bindS (\<lambda>r. let (out, sp) = spr_check (fe_hash E) (fr_spcot r) hashed_v in (map_err Spcot out, r\<lparr>fr_spcot := sp\<rparr>)) (\<lambda>_.
         bindS (askS (\<lambda>_. lpn_new (of_nat (lp_k params)))) (\<lambda>encoder.
         bindS (askS (\<lambda>r. bindR (usub (length (fr_choices r)) (lp_k params)) (\<lambda>n. Inr (pack_choices (lp_k params) (drop n (fr_choices r)))))) (\<lambda>u.
         bindS (askS (\<lambda>_. pack_errors (lp_n params) err)) (\<lambda>x.
         bindS (stepS (\<lambda>r. bindR (usub (length (fr_macs r)) (lp_n params)) (\<lambda>start.
           bindR (lpn_compute_with_bits (fe_emp E) (fe_enc E) LPN_D encoder lpn_seed (map gf128_inner (drop start (fr_macs r))) x (map gf128_inner lpn_macs) u) (\<lambda>(z, x).
             Inr (x, r\<lparr>fr_macs := take start (fr_macs r) @ map Gf2_128 z\<rparr>))))) (\<lambda>x.
         bindS (modS (\<lambda>r. r\<lparr>fr_pending := 0\<rparr>)) (\<lambda>_.
         bindS (modS (\<lambda>r. r\<lparr>fr_choices := take (length (fr_choices r) - lp_k params) (fr_choices r) @ unpack_bits (lp_n params) x\<rparr>)) (\<lambda>_.
         bindS (stepS (fr_take_refill E params)) (\<lambda>_.
         bindS (stepS (fr_settle E)) (\<lambda>outs.
         bindS (modS (\<lambda>r. r\<lparr>fr_state := RExtend\<rparr>)) (\<lambda>_. retS outs))))))))))
     | _ \<Rightarrow> askS (\<lambda>_. Inl (Err FState)))"

section \<open>The receiver as a source of random correlated OTs\<close>

definition fr_rcot_alloc :: "('c, 'g, 'n) ferret_receiver \<Rightarrow> nat \<Rightarrow> ('c, 'g, 'n) ferret_receiver" where
  "fr_rcot_alloc r count = r\<lparr>fr_alloc := fr_alloc r + count\<rparr>"

definition fr_try_recv ::
  "('g, 'n, 'h, 'b) ferret_env \<Rightarrow> ('c, 'g, 'n) ferret_receiver \<Rightarrow> nat \<Rightarrow>
     ('ce ferret_error, receiver_output \<times> ('c, 'g, 'n) ferret_receiver) result" where
  "fr_try_recv E r count =
     bindR (fr_available E r) (\<lambda>available.
       if available < count then Inl (Err (InsufficientCOTs count available))
       else
         bindR (usub (length (fr_choices r)) count) (\<lambda>n.
         bindR (split_off (fr_choices r) n) (\<lambda>(cs, choices).
         bindR (split_off_blocks (fr_macs r) count) (\<lambda>(macs, rest).
           let (id, nxt) = next_id (fr_id r)
           in Inr ((id, choices, macs), r\<lparr>fr_id := nxt, fr_macs := rest, fr_choices := cs\<rparr>)))))"

definition fr_queue_recv ::
  "('g, 'n, 'h, 'b) ferret_env \<Rightarrow> ('c, 'g, 'n) ferret_receiver \<Rightarrow> nat \<Rightarrow>
     ('ce ferret_error, nat \<times> (nat \<times> receiver_output) list \<times> ('c, 'g, 'n) ferret_receiver) result" where
  "fr_queue_recv E r count =
     bindR (fr_available E r) (\<lambda>available.
       if available \<ge> count then
         bindR (fr_try_recv E r count) (\<lambda>(output, r).
           let ch = fr_chans r in Inr (ch, [(ch, output)], r\<lparr>fr_chans := ch + 1\<rparr>))
       else
         let ch = fr_chans r in Inr (ch, [], r\<lparr>fr_chans := ch + 1, fr_queue := fr_queue r @ [(count, ch)]\<rparr>))"

end
