(* ===== verification/Spcot_Correct.thy ===== *)
theory Spcot_Correct
  imports Spcot
begin

text \<open>
  The single-point correlated OT is correct: the two parties' vectors differ by \<open>\<Delta>\<close> exactly at the
  chosen positions, and the batched consistency check of honest parties accepts.
\<close>

section \<open>Slices\<close>

fun slices :: "'a list \<Rightarrow> nat list \<Rightarrow> 'a list list" where
  "slices src [] = []"
| "slices src (n # ns) = take n src # slices (drop n src) ns"

lemma slices_from_lengths_ok:
  "sum_list ns \<le> length src \<Longrightarrow> slices_from_lengths src ns = Inr (slices src ns)"
  by (induction ns arbitrary: src) (simp_all add: drain_front_def)

lemma length_slices [simp]: "length (slices src ns) = length ns"
  by (induction ns arbitrary: src) simp_all

lemma map_length_slices: "sum_list ns \<le> length src \<Longrightarrow> map length (slices src ns) = ns"
  by (induction ns arbitrary: src) simp_all

lemma length_nth_slices: "sum_list ns \<le> length src \<Longrightarrow> i < length ns \<Longrightarrow> length (slices src ns ! i) = ns ! i"
  using map_length_slices [of ns src] by (metis length_slices nth_map)

lemma slices_concat: "map length xss = ns \<Longrightarrow> slices (concat xss) ns = xss"
  by (induction xss arbitrary: ns) auto

lemma concat_slices: "sum_list ns = length src \<Longrightarrow> concat (slices src ns) = src"
  by (induction ns arbitrary: src) simp_all

lemma map2_concat:
  "map length xss = map length yss \<Longrightarrow> map2 f (concat xss) (concat yss) = concat (map2 (map2 f) xss yss)"
proof (induction xss arbitrary: yss)
  case (Cons xs xss)
  then show ?case by (cases yss) auto
qed simp

lemma length_concat_sum: "length (concat xss) = sum_list (map length xss)"
  by (induction xss) simp_all

section \<open>One tree\<close>

definition tree :: "(block \<Rightarrow> block) \<Rightarrow> bool \<Rightarrow> block \<Rightarrow> nat \<Rightarrow> block \<Rightarrow> block list" where
  "tree aes emp d l seed = level aes emp l d seed l"

definition lefts :: "(block \<Rightarrow> block) \<Rightarrow> bool \<Rightarrow> block \<Rightarrow> nat \<Rightarrow> block \<Rightarrow> block list" where
  "lefts aes emp d l seed = map (\<lambda>i. left_sum aes emp l d seed (Suc i)) [0..<l]"

lemma length_tree [simp]: "length (tree aes emp d l seed) = 2 ^ l" "length (lefts aes emp d l seed) = l"
  by (simp_all add: tree_def lefts_def)

lemma sps_tree_ok:
  assumes "1 \<le> length cs" "length cs \<le> 64" "length v = 2 ^ length cs"
  shows "sps_tree aes emp d ((v, cs), seed) =
    (Inr (tree aes emp d (length cs) seed, map2 (XOR) cs (lefts aes emp d (length cs) seed)) :: ('e, _) result)"
proof -
  have "cggm_expand aes emp d seed v (replicate (length cs) 0) =
      (Inr (tree aes emp d (length cs) seed, lefts aes emp d (length cs) seed) :: ('e, _) result)"
    using assms cggm_expand_ok [of "replicate (length cs) 0" v aes emp d seed] unfolding tree_def lefts_def length_replicate by simp
  then show ?thesis using assms(2) by (simp add: sps_tree_def subslice_def min_def)
qed

text \<open>The receiver completes the tree: the leaves but one, and the missing one offset by \<open>d\<close>.\<close>

lemma mask_restore:
  assumes "emp \<Longrightarrow> bit d 0"
  shows "mask_leaf_lsb emp d XOR of_bool emp = d"
proof (cases emp)
  case True
  have "NOT 0xFF OR ucast (0xFE :: byte) = (NOT 1 :: block)" by simp
  then have "mask_leaf_lsb True d = d AND NOT 1" by (simp only: mask_leaf_lsb_def LEAF_LSB_MASK_def if_True)
  moreover have "(d AND NOT 1) XOR 1 = d"
    using assms True by (intro bit_word_eqI) (auto simp: bit_simps)
  ultimately show ?thesis using True by simp
next
  case False
  have "NOT 0xFF OR ucast (0xFF :: byte) = (-1 :: block)" by simp
  then have "mask_leaf_lsb False d = d AND -1" by (simp only: mask_leaf_lsb_def LEAF_LSB_MASK_def if_False)
  then show ?thesis using False by simp
qed

lemma spr_tree_ok:
  assumes l: "1 \<le> length sums" "length w = 2 ^ length sums" "i < 2 ^ length sums" and d: "emp \<Longrightarrow> bit d 0"
    and s: "sums = off_path_sum d i (lefts aes emp d (length sums) seed)"
  shows "spr_tree aes emp ((w, sums), i) = Inr ((tree aes emp d (length sums) seed)[i := tree aes emp d (length sums) seed ! i XOR d])"
proof -
  let ?t = "tree aes emp d (length sums) seed"
  have "sums ! j = (let s = left_sum aes emp (length sums) d seed (Suc j) in if bit i j then s else s XOR d)" if "j < length sums" for j
    using left_sums_off [OF that, of d i "left_sum aes emp (length sums) d seed"] unfolding lefts_def [symmetric] s [symmetric] .
  then have ex: "cggm_expand_punctured aes emp i sums w = Inr (?t[i := 0])"
    unfolding tree_def by (intro cggm_expand_punctured_ok l)
  have x: "xor_sum (?t[i := 0]) = ?t ! i XOR (if length sums = 1 then d else mask_leaf_lsb emp d)"
    using level_total_last [of "length sums" aes emp d seed] l by (cases "sums = []") (auto simp: xor_sum_update tree_def word_xor_ac)
  have m: "mask_leaf_lsb emp d XOR of_bool emp = d" by (rule mask_restore [OF d])
  then have "emp \<Longrightarrow> mask_leaf_lsb emp d XOR 1 = d" "\<not> emp \<Longrightarrow> mask_leaf_lsb emp d = d" by simp_all
  then show ?thesis
    using l by (auto simp: spr_tree_def ex x [unfolded xor_sum_def] xor.assoc)
qed

section \<open>All the trees\<close>

lemma mapR_nth:
  "length ys = length xs \<Longrightarrow> (\<And>j. j < length xs \<Longrightarrow> f (xs ! j) = Inr (ys ! j)) \<Longrightarrow> mapR f xs = Inr ys"
proof (induction xs arbitrary: ys)
  case (Cons x xs)
  then obtain z zs where ys: "ys = z # zs" by (cases ys) auto
  have "f x = Inr z" using Cons.prems(2) [of 0] ys by simp
  moreover have "mapR f xs = Inr zs" using Cons.prems(1) Cons.prems(2) [of "Suc j" for j] ys by (intro Cons.IH) auto
  ultimately show ?case using ys by simp
qed simp

text \<open>MACs of the choices under the keys, as field elements.\<close>

definition cot_macs :: "block \<Rightarrow> gf2_128 list \<Rightarrow> bool list \<Rightarrow> gf2_128 list" where
  "cot_macs d keys choices = map2 (\<lambda>k r. k + (if r then Gf2_128 d else 0)) keys choices"

text \<open>The pieces of the exchange, tree by tree.\<close>

definition flips :: "nat list \<Rightarrow> nat list \<Rightarrow> bool list list \<Rightarrow> bool list list" where
  "flips idxs ls rs = map2 (map2 (\<lambda>b m. (\<not> b) \<noteq> m)) (map2 index_bits idxs ls) rs"

definition corrections :: "(block \<Rightarrow> block) \<Rightarrow> bool \<Rightarrow> block \<Rightarrow> nat list \<Rightarrow> block list \<Rightarrow> gf2_128 list list \<Rightarrow> bool list list \<Rightarrow> block list list" where
  "corrections aes emp d ls seeds ks fs =
     map2 (map2 (XOR)) (map2 (map2 (\<lambda>k b. gf128_inner (if b then k + Gf2_128 d else k))) ks fs) (map2 (lefts aes emp d) ls seeds)"

lemma length_index_bits [simp]: "l \<le> 64 \<Longrightarrow> length (index_bits x l) = l"
  by (simp add: index_bits_def)

lemma index_bits_nth: "i < l \<Longrightarrow> l \<le> 64 \<Longrightarrow> index_bits x l ! i = bit x i"
  by (simp add: index_bits_def)

lemma draw_blocks_length: "length (fst (draw_blocks rng n g)) = n"
  by (induction n arbitrary: g) (simp_all add: case_prod_unfold Let_def)

lemma correction_opens:
  "gf128_inner (k + (if r then Gf2_128 d else 0) + Gf2_128 (gf128_inner (if (\<not> a) \<noteq> r then k + Gf2_128 d else k) XOR s)) =
    (if a then s else s XOR d)"
  by (cases k) (auto simp: gf128_defs xor_simps word_xor_ac)

lemma sums_tree:
  assumes "length k = l" "length r = l" "l \<le> 64"
  shows "map2 (\<lambda>mac c. gf128_inner (mac + Gf2_128 c)) (cot_macs d k r)
      (map2 (XOR) (map2 (\<lambda>k b. gf128_inner (if b then k + Gf2_128 d else k)) k (map2 (\<lambda>b m. (\<not> b) \<noteq> m) (index_bits x l) r)) (lefts aes emp d l seed)) =
    off_path_sum d x (lefts aes emp d l seed)"
proof (rule nth_equalityI)
  fix i assume "i < length (map2 (\<lambda>mac c. gf128_inner (mac + Gf2_128 c)) (cot_macs d k r)
      (map2 (XOR) (map2 (\<lambda>k b. gf128_inner (if b then k + Gf2_128 d else k)) k (map2 (\<lambda>b m. (\<not> b) \<noteq> m) (index_bits x l) r)) (lefts aes emp d l seed)))"
  then have i: "i < l" using assms by (simp add: cot_macs_def)
  show "map2 (\<lambda>mac c. gf128_inner (mac + Gf2_128 c)) (cot_macs d k r)
      (map2 (XOR) (map2 (\<lambda>k b. gf128_inner (if b then k + Gf2_128 d else k)) k (map2 (\<lambda>b m. (\<not> b) \<noteq> m) (index_bits x l) r)) (lefts aes emp d l seed)) ! i =
    off_path_sum d x (lefts aes emp d l seed) ! i"
    using correction_opens [of "k ! i" "r ! i" d "bit x i" "lefts aes emp d l seed ! i"] i assms
    by (simp add: off_path_nth cot_macs_def index_bits_nth)
qed (use assms in \<open>simp add: off_path_sum_def cot_macs_def\<close>)

lemma lengths_nth: "map length xss = ns \<Longrightarrow> j < length ns \<Longrightarrow> length (xss ! j) = ns ! j"
  by (metis length_map nth_map)

lemma map_length_map2:
  assumes "map length xss = ns" "map length yss = ns"
  shows "map length (map2 (map2 f) xss yss) = ns"
proof -
  have "length xss = length ns" "length yss = length ns" using assms by (auto dest: map_eq_imp_length_eq)
  then show ?thesis using lengths_nth [OF assms(1)] lengths_nth [OF assms(2)] by (intro nth_equalityI) simp_all
qed

lemma bits_lengths: "length idxs = length ls \<Longrightarrow> (\<And>l. l \<in> set ls \<Longrightarrow> l \<le> 64) \<Longrightarrow> map length (map2 index_bits idxs ls) = ls"
  by (rule nth_equalityI) simp_all

lemma flip_lengths:
  assumes "length idxs = length ls" "\<And>l. l \<in> set ls \<Longrightarrow> l \<le> 64" "map length rs = ls"
  shows "map length (flips idxs ls rs) = ls"
  unfolding flips_def by (intro map_length_map2 bits_lengths assms)

lemma lefts_lengths: "length seeds = length ls \<Longrightarrow> map length (map2 (lefts aes emp d) ls seeds) = ls"
  by (rule nth_equalityI) simp_all

lemma correction_lengths:
  assumes "length seeds = length ls" "map length ks = ls" "map length fs = ls"
  shows "map length (corrections aes emp d ls seeds ks fs) = ls"
  unfolding corrections_def by (intro map_length_map2 lefts_lengths assms)

lemma derandomize_flips:
  assumes "length idxs = length ls" "\<And>l. l \<in> set ls \<Longrightarrow> l \<le> 64" "map length rs = ls"
  shows "spr_derandomize ls idxs (concat rs) = Inr (concat (flips idxs ls rs))"
proof -
  have "map length (map2 index_bits idxs ls) = ls" by (intro bits_lengths assms)
  then show ?thesis
    using assms map2_concat [of "map2 index_bits idxs ls" rs "\<lambda>b m. (\<not> b) \<noteq> m"]
    by (simp add: spr_derandomize_def flips_def length_concat_sum)
qed

lemma sps_extend_ok:
  assumes ls: "\<And>l. l \<in> set ls \<Longrightarrow> 1 \<le> l \<and> l \<le> 64" and len: "map length ks = ls" "map length fs = ls"
    and vs: "length vs = sum_list (map (\<lambda>l. 2 ^ l) ls)" and dr: "draw_blocks rng (length ls) g = (seeds, g')"
  shows "sps_extend aes emp rng g s ls (concat ks) (concat fs) vs =
    Inr (concat (corrections aes emp (sp_delta s) ls seeds ks fs),
         map Gf2_128 (concat (map2 (tree aes emp (sp_delta s)) ls seeds)), g',
         s\<lparr>sp_pending := sp_pending s + sum_list (map (\<lambda>l. 2 ^ l) ls)\<rparr>)"
proof -
  let ?d = "sp_delta s" and ?ns = "map (\<lambda>l. 2 ^ l) ls :: nat list"
  let ?cs = "map2 (map2 (\<lambda>k b. gf128_inner (if b then k + Gf2_128 ?d else k))) ks fs"
  let ?vs = "slices (map gf128_inner vs) ?ns"
  have n: "length ks = length ls" "length fs = length ls" "length seeds = length ls"
    using len draw_blocks_length [of rng "length ls" g] dr by (auto dest: map_eq_imp_length_eq)
  have cl: "map length ?cs = ls" by (intro map_length_map2 len)
  have c: "map2 (\<lambda>k b. gf128_inner (if b then k + Gf2_128 ?d else k)) (concat ks) (concat fs) = concat ?cs"
    using len by (intro map2_concat) simp
  have lc: "length ?cs = length ls" using n by simp
  have "mapR (sps_tree aes emp ?d) (zip (zip ?vs ?cs) seeds) =
      (Inr (zip (map2 (tree aes emp ?d) ls seeds) (corrections aes emp ?d ls seeds ks fs)) :: (spcot_error, _) result)"
  proof (rule mapR_nth)
    fix j assume "j < length (zip (zip ?vs ?cs) seeds)"
    then have j: "j < length ls" by simp
    have l: "length (?cs ! j) = ls ! j" using lengths_nth [OF cl j] .
    have v: "length (?vs ! j) = 2 ^ (ls ! j)" using length_nth_slices [of ?ns "map gf128_inner vs" j] vs j by simp
    have "1 \<le> ls ! j" "ls ! j \<le> 64" using ls j by auto
    then have "sps_tree aes emp ?d ((?vs ! j, ?cs ! j), seeds ! j) =
        Inr (tree aes emp ?d (ls ! j) (seeds ! j), map2 (XOR) (?cs ! j) (lefts aes emp ?d (ls ! j) (seeds ! j)))"
      using sps_tree_ok [of "?cs ! j" "?vs ! j" aes emp ?d "seeds ! j"] l v by simp
    then show "sps_tree aes emp ?d (zip (zip ?vs ?cs) seeds ! j) =
        Inr (zip (map2 (tree aes emp ?d) ls seeds) (corrections aes emp ?d ls seeds ks fs) ! j)"
      using j n lc by (simp add: corrections_def)
  qed (use n in \<open>simp add: corrections_def\<close>)
  moreover have "length (corrections aes emp ?d ls seeds ks fs) = length ls" using n by (simp add: corrections_def)
  moreover have "length (concat ks) = sum_list ls" "length (concat fs) = sum_list ls" using len by (simp_all add: length_concat_sum)
  ultimately show ?thesis
    using n vs dr by (simp add: sps_extend_def c slices_from_lengths_ok slices_concat [OF cl] length_concat_sum cl)
qed

definition offsets :: "block \<Rightarrow> nat list \<Rightarrow> block list list \<Rightarrow> block list list" where
  "offsets d idxs vss = map2 (\<lambda>v i. v[i := v ! i XOR d]) vss idxs"

lemma spr_extend_ok:
  assumes ls: "\<And>l. l \<in> set ls \<Longrightarrow> 1 \<le> l \<and> l \<le> 64" and idxs: "length idxs = length ls" "list_all2 (\<lambda>x l. x < 2 ^ l) idxs ls"
    and len: "map length ks = ls" "map length rs = ls" and seeds: "length seeds = length ls"
    and ws: "length ws = sum_list (map (\<lambda>l. 2 ^ l) ls)" and d: "emp \<Longrightarrow> bit d 0"
  shows "spr_extend aes emp r ls idxs (cot_macs d (concat ks) (concat rs)) (concat (corrections aes emp d ls seeds ks (flips idxs ls rs))) ws =
    Inr (map Gf2_128 (concat (offsets d idxs (map2 (tree aes emp d) ls seeds))),
         r\<lparr>sp_lengths := sp_lengths r @ ls, sp_indices := sp_indices r @ idxs\<rparr>)"
proof -
  let ?ns = "map (\<lambda>l. 2 ^ l) ls :: nat list" and ?cs = "corrections aes emp d ls seeds ks (flips idxs ls rs)"
  let ?ms = "map2 (cot_macs d) ks rs" and ?ws = "slices (map gf128_inner ws) (map (\<lambda>l. 2 ^ l) ls)"
  let ?sums = "map2 (map2 (\<lambda>mac c. gf128_inner (mac + Gf2_128 c))) ?ms ?cs"
  have n: "length ks = length ls" "length rs = length ls" using len by (auto dest: map_eq_imp_length_eq)
  have fl: "map length (flips idxs ls rs) = ls" using ls by (intro flip_lengths idxs len) auto
  have cl: "map length ?cs = ls" by (intro correction_lengths seeds len fl)
  have ml: "map length ?ms = ls" unfolding cot_macs_def by (intro map_length_map2 len)
  have sl: "map length ?sums = ls" by (intro map_length_map2 ml cl)
  have m: "cot_macs d (concat ks) (concat rs) = concat ?ms"
    unfolding cot_macs_def using len by (intro map2_concat) simp
  have s: "map2 (\<lambda>mac c. gf128_inner (mac + Gf2_128 c)) (concat ?ms) (concat ?cs) = concat ?sums"
    using ml cl by (intro map2_concat) simp
  have sf: "slices_from_lengths (concat ?sums) ls = (Inr ?sums :: (spcot_error, _) result)"
    using slices_from_lengths_ok [of ls "concat ?sums"] unfolding length_concat_sum sl slices_concat [OF sl] by simp
  have sn: "length ?sums = length ls" using n seeds idxs(1) by (simp add: corrections_def flips_def)
  have st: "?sums ! j = off_path_sum d (idxs ! j) (lefts aes emp d (ls ! j) (seeds ! j))" if "j < length ls" for j
    using sums_tree [of "ks ! j" "ls ! j" "rs ! j" d "idxs ! j" aes emp "seeds ! j"] that n idxs(1) seeds
      lengths_nth [OF len(1) that] lengths_nth [OF len(2) that] ls
    by (simp add: corrections_def flips_def)
  have "mapR (spr_tree aes emp) (zip (zip ?ws ?sums) idxs) = (Inr (offsets d idxs (map2 (tree aes emp d) ls seeds)) :: (spcot_error, _) result)"
  proof (rule mapR_nth)
    fix j assume "j < length (zip (zip ?ws ?sums) idxs)"
    then have j: "j < length ls" by simp
    have l: "length (?sums ! j) = ls ! j" using lengths_nth [OF sl j] .
    have w: "length (?ws ! j) = 2 ^ (ls ! j)" using length_nth_slices [of ?ns "map gf128_inner ws" j] ws j by simp
    have "1 \<le> ls ! j" "idxs ! j < 2 ^ (ls ! j)" using ls j idxs by (auto simp: list_all2_conv_all_nth)
    then have "spr_tree aes emp ((?ws ! j, ?sums ! j), idxs ! j) =
        Inr ((tree aes emp d (ls ! j) (seeds ! j))[idxs ! j := tree aes emp d (ls ! j) (seeds ! j) ! (idxs ! j) XOR d])"
      using spr_tree_ok [of "?sums ! j" "?ws ! j" "idxs ! j" emp d aes "seeds ! j", OF _ _ _ d] l w st [OF j] by simp
    moreover have "zip (zip ?ws ?sums) idxs ! j = ((?ws ! j, ?sums ! j), idxs ! j)"
      using j idxs(1) sn by (simp only: nth_zip length_zip length_slices length_map min.idem)
    ultimately show "spr_tree aes emp (zip (zip ?ws ?sums) idxs ! j) = Inr (offsets d idxs (map2 (tree aes emp d) ls seeds) ! j)"
      using j idxs(1) seeds by (simp add: offsets_def)
  qed (use n idxs seeds in \<open>simp add: offsets_def corrections_def flips_def\<close>)
  moreover have "length (concat ?ms) = sum_list ls" "length (concat ?cs) = sum_list ls"
    by (simp_all only: length_concat_sum ml cl)
  ultimately show ?thesis
    using idxs ws by (simp add: spr_extend_def m s sf slices_from_lengths_ok)
qed

section \<open>The correlation\<close>

text \<open>The vector that differs from \<open>vs\<close> by \<open>d\<close> exactly at the positions \<open>ps\<close>, counted from \<open>k\<close>.\<close>

definition offset_at :: "nat \<Rightarrow> 'f::plus \<Rightarrow> nat list \<Rightarrow> 'f list \<Rightarrow> 'f list" where
  "offset_at k d ps vs = map (\<lambda>(i, v). if i \<in> set ps then v + d else v) (enumerate k vs)"

lemma offset_at_simps [simp]:
  "length (offset_at k d ps vs) = length vs"
  "offset_at k d ps [] = []"
  "i < length vs \<Longrightarrow> offset_at k d ps vs ! i = (if k + i \<in> set ps then vs ! i + d else vs ! i)"
  by (simp_all add: offset_at_def nth_enumerate_eq)

lemma offset_at_append: "offset_at k d ps (vs @ vs') = offset_at k d ps vs @ offset_at (k + length vs) d ps vs'"
  by (simp add: offset_at_def enumerate_append_eq)

lemma offset_at_cong:
  "(\<And>i. k \<le> i \<Longrightarrow> i < k + length vs \<Longrightarrow> i \<in> set ps \<longleftrightarrow> i \<in> set ps') \<Longrightarrow> offset_at k d ps vs = offset_at k d ps' vs"
  by (rule nth_equalityI) simp_all

abbreviation total_len :: "nat list \<Rightarrow> nat" where
  "total_len ls \<equiv> sum_list (map (\<lambda>l. 2 ^ l) ls)"

lemma global_positions_range:
  "list_all2 (\<lambda>x l. x < 2 ^ l) xs ls \<Longrightarrow> p \<in> set (global_positions k ls xs) \<Longrightarrow> k \<le> p \<and> p < k + total_len ls"
proof (induction ls arbitrary: k xs)
  case (Cons l ls)
  then obtain x ys where xs: "xs = x # ys" "x < 2 ^ l" "list_all2 (\<lambda>x l. x < 2 ^ l) ys ls" by (auto simp: list_all2_Cons2)
  then have "p = k + x \<or> p \<in> set (global_positions (k + 2 ^ l) ls ys)" using Cons.prems(2) by auto
  then show ?case using Cons.IH [OF xs(3), of "k + 2 ^ l"] xs(2) by auto
qed (cases xs; simp)

lemma global_positions_sorted:
  "list_all2 (\<lambda>x l. x < 2 ^ l) xs ls \<Longrightarrow> sorted (global_positions k ls xs) \<and> distinct (global_positions k ls xs)"
proof (induction ls arbitrary: k xs)
  case (Cons l ls)
  then obtain x ys where xs: "xs = x # ys" "x < 2 ^ l" "list_all2 (\<lambda>x l. x < 2 ^ l) ys ls" by (auto simp: list_all2_Cons2)
  have "k + x < p" if "p \<in> set (global_positions (k + 2 ^ l) ls ys)" for p
    using global_positions_range [OF xs(3) that] xs(2) by linarith
  then show ?case using Cons.IH [OF xs(3), of "k + 2 ^ l"] xs(1) by (auto intro: less_imp_le)
qed (cases xs; simp)

lemma global_positions_append:
  "length xs = length ls \<Longrightarrow>
    global_positions k (ls @ ls') (xs @ xs') = global_positions k ls xs @ global_positions (k + total_len ls) ls' xs'"
  by (induction xs ls arbitrary: k rule: list_induct2) (simp_all add: add.assoc)

lemma offset_tree:
  assumes "x < length v"
  shows "map Gf2_128 (v[x := v ! x XOR d]) = offset_at k (Gf2_128 d) [k + x] (map Gf2_128 v)"
  using assms by (intro nth_equalityI) (auto simp: nth_list_update gf128_defs)

lemma offsets_positions:
  "list_all2 (\<lambda>x l. x < 2 ^ l) xs ls \<Longrightarrow> map length vss = map (\<lambda>l. 2 ^ l) ls \<Longrightarrow>
    map Gf2_128 (concat (offsets d xs vss)) = offset_at k (Gf2_128 d) (global_positions k ls xs) (map Gf2_128 (concat vss))"
proof (induction ls arbitrary: k xs vss)
  case (Cons l ls)
  obtain x ys where xs: "xs = x # ys" "x < 2 ^ l" "list_all2 (\<lambda>x l. x < 2 ^ l) ys ls" using Cons.prems(1) by (auto simp: list_all2_Cons2)
  obtain v ws where vss: "vss = v # ws" "length v = 2 ^ l" "map length ws = map (\<lambda>l. 2 ^ l) ls" using Cons.prems(2) by auto
  let ?gp = "global_positions (k + 2 ^ l) ls ys"
  have ge: "k + 2 ^ l \<le> p" if "p \<in> set ?gp" for p using global_positions_range [OF xs(3) that] by simp
  have "offset_at k (Gf2_128 d) ((k + x) # ?gp) (map Gf2_128 v) = offset_at k (Gf2_128 d) [k + x] (map Gf2_128 v)"
    using ge vss(2) by (intro offset_at_cong) (auto dest: leD)
  moreover have "offset_at (k + 2 ^ l) (Gf2_128 d) ((k + x) # ?gp) (map Gf2_128 (concat ws)) =
      offset_at (k + 2 ^ l) (Gf2_128 d) ?gp (map Gf2_128 (concat ws))"
    using xs(2) by (intro offset_at_cong) auto
  ultimately show ?case
    using Cons.IH [OF xs(3) vss(3), of "k + 2 ^ l"] offset_tree [of x v d k] xs(2) vss(2)
    by (simp add: xs(1) vss(1) offsets_def offset_at_append)
qed (simp add: offsets_def)

section \<open>The consistency check\<close>

lemma gf128_double [simp]: "a + a = 0" for a :: gf2_128
  by (simp add: gf128_defs)

lemma from_lsb0_snoc: "length bs < LENGTH('a) \<Longrightarrow>
    (from_lsb0 (bs @ [b]) :: 'a::len word) = from_lsb0 bs XOR (if b then push_bit (length bs) 1 else 0)"
  by (rule bit_word_eqI) (auto simp: bit_from_lsb0 bit_simps nth_append)

lemma monomials_selected:
  "length bs \<le> 128 \<Longrightarrow>
    sum_list (map2 (\<lambda>b x. if b then x else 0) bs (map (\<lambda>i. Gf2_128 (push_bit i 1)) [0..<length bs])) = Gf2_128 (from_lsb0 bs)"
proof (induction bs rule: rev_induct)
  case Nil
  then show ?case by (simp add: gf128_defs from_lsb0_def)
next
  case (snoc b bs)
  then show ?case by (auto simp: from_lsb0_snoc) (simp_all add: gf128_defs)
qed

lemma monomial_sum: "length bs = 128 \<Longrightarrow>
    sum_list (map2 (\<lambda>b x. if b then x else 0) bs MONOMIAL_BASIS_GF2_128) = Gf2_128 (from_lsb0 bs)"
  using monomials_selected [of bs] unfolding MONOMIAL_BASIS_GF2_128_def by simp

lemma macs_sum:
  "length ks = length rs \<Longrightarrow> length rs = length ms \<Longrightarrow>
    sum_list (map2 (*) (cot_macs d ks rs) ms) =
      sum_list (map2 (*) ks ms) + Gf2_128 d * sum_list (map2 (\<lambda>b x. if b then x else 0) rs ms)"
  by (induction ks rs ms rule: list_induct3) (simp_all add: cot_macs_def algebra_simps)

lemma from_lsb0_flips: "length m = LENGTH('a) \<Longrightarrow> (from_lsb0 (map2 (\<noteq>) (to_lsb0 a) m) :: 'a::len word) = a XOR from_lsb0 m"
  by (rule bit_word_eqI) (auto simp: bit_from_lsb0 bit_simps)

lemma dot_offset:
  fixes vs :: "'f::field list"
  shows "dot c k (offset_at k d ps vs) = dot c k vs + d * (\<Sum>i \<in> set ps \<inter> {k..<k + length vs}. c i)"
proof (induction vs rule: rev_induct)
  case (snoc v vs)
  have "set ps \<inter> {k..<k + length (vs @ [v])} =
      (if k + length vs \<in> set ps then insert (k + length vs) (set ps \<inter> {k..<k + length vs}) else set ps \<inter> {k..<k + length vs})"
    by (auto simp: less_Suc_eq)
  moreover have "dot c j [x] = c j * x" for j x by (simp add: dot_def)
  ultimately show ?case using snoc by (simp add: offset_at_append dot_append offset_at_def [of _ _ _ "[v]"] algebra_simps)
qed (simp add: dot_def)

lemma dot_positions:
  assumes "list_all2 (\<lambda>x l. x < 2 ^ l) xs ls" "length vs = total_len ls"
  shows "dot c 0 (offset_at 0 d (global_positions 0 ls xs) vs) = dot c 0 vs + d * sum_list (map c (global_positions 0 ls xs))"
proof -
  let ?ps = "global_positions 0 ls xs"
  have "set ?ps \<inter> {0..<0 + length vs} = set ?ps" using global_positions_range [OF assms(1), of _ 0] assms(2) by auto
  moreover have "(\<Sum>i \<in> set ?ps. c i) = sum_list (map c ?ps)"
    using global_positions_sorted [OF assms(1)] by (metis sum.distinct_set_conv_list)
  ultimately show ?thesis using dot_offset [of c 0 d ?ps vs] by simp
qed

lemma start_check_ok:
  fixes enc :: "block \<Rightarrow> block \<Rightarrow> block" and seed :: block
  assumes r: "sp_check r = None" "list_all2 (\<lambda>x l. x < 2 ^ l) (sp_indices r) (sp_lengths r)" "length ws = total_len (sp_lengths r)"
    and len: "length macs = 128" "length choices = 128" and g: "rng g = (seed, g')"
  defines "c \<equiv> chi (enc seed)"
  shows "spr_start_check enc rayon rng g r macs choices ws =
    Inr ((map2 (\<noteq>) (to_lsb0 (gf128_inner (sum_list (map c (global_positions 0 (sp_lengths r) (sp_indices r)))))) choices, seed), g',
      r\<lparr>sp_check := Some (sum_list (map2 (*) macs MONOMIAL_BASIS_GF2_128) + dot c 0 ws)\<rparr>)"
proof -
  let ?ps = "global_positions 0 (sp_lengths r) (sp_indices r)"
  have "takeWhile (\<lambda>p. p < length ws) ?ps = ?ps"
    using global_positions_range [OF r(2), of _ 0] r(3) by (simp add: takeWhile_eq_all_conv)
  moreover have "sorted ?ps" using global_positions_sorted [OF r(2), of 0] by simp
  ultimately have "fold_chis enc rayon seed ws ?ps = (Inr (dot c 0 ws, sum_list (map c ?ps)) :: (spcot_error, _) result)"
    by (simp only: fold_chis_eq c_def)
  then show ?thesis
    using r len g by (simp add: spr_start_check_def CSP_def gf128_field.inner_product_sum MONOMIAL_BASIS_GF2_128_def)
qed

lemma sps_check_ok:
  assumes "length keys = 128" "length masks = 128" "length vs = sp_pending s"
  shows "sps_check enc rayon hash s keys masks vs seed =
    Inr (hash (gf128_inner (sum_list (map2 (*) keys MONOMIAL_BASIS_GF2_128) + Gf2_128 (sp_delta s) * Gf2_128 (from_lsb0 masks) +
      dot (chi (enc seed)) 0 vs)), s\<lparr>sp_pending := 0\<rparr>)"
  using assms fold_chis_eq [of "[]" enc rayon seed vs, where ?'e = spcot_error]
  by (simp add: sps_check_def CSP_def gf128_field.inner_product_sum MONOMIAL_BASIS_GF2_128_def)

section \<open>The protocol\<close>

text \<open>What holds between two parties who have extended but not yet checked.\<close>

definition spcot_inv :: "spcot_sender \<Rightarrow> spcot_receiver \<Rightarrow> gf2_128 list \<Rightarrow> gf2_128 list \<Rightarrow> bool" where
  "spcot_inv s r vs ws \<longleftrightarrow> sp_pending s = length vs \<and> length vs = total_len (sp_lengths r) \<and> sp_check r = None \<and>
     list_all2 (\<lambda>x l. x < 2 ^ l) (sp_indices r) (sp_lengths r) \<and>
     ws = offset_at 0 (Gf2_128 (sp_delta s)) (global_positions 0 (sp_lengths r) (sp_indices r)) vs"

lemma spcot_inv_new: "spcot_inv (sps_new d) spr_new [] []"
  by (simp add: spcot_inv_def sps_new_def spr_new_def)

lemma spcot_inv_append:
  assumes inv: "spcot_inv s r vs ws" and idxs: "list_all2 (\<lambda>x l. x < 2 ^ l) xs ls" and len: "length vs' = total_len ls"
    and ws': "ws' = offset_at (length vs) (Gf2_128 (sp_delta s)) (global_positions (length vs) ls xs) vs'"
  shows "spcot_inv (s\<lparr>sp_pending := sp_pending s + total_len ls\<rparr>)
    (r\<lparr>sp_lengths := sp_lengths r @ ls, sp_indices := sp_indices r @ xs\<rparr>) (vs @ vs') (ws @ ws')"
proof -
  let ?L = "sp_lengths r" and ?X = "sp_indices r" and ?d = "Gf2_128 (sp_delta s)"
  have old: "list_all2 (\<lambda>x l. x < 2 ^ l) ?X ?L" "length vs = total_len ?L" using inv by (simp_all add: spcot_inv_def)
  let ?A = "global_positions 0 ?L ?X" and ?B = "global_positions (length vs) ls xs"
  have gp: "global_positions 0 (?L @ ls) (?X @ xs) = ?A @ ?B"
    using global_positions_append [of ?X ?L 0] old by (simp add: list_all2_lengthD)
  have "offset_at 0 ?d (?A @ ?B) vs = offset_at 0 ?d ?A vs"
    using global_positions_range [OF idxs, of _ "length vs"] by (intro offset_at_cong) (auto dest: leD)
  moreover have "offset_at (length vs) ?d (?A @ ?B) vs' = offset_at (length vs) ?d ?B vs'"
    using global_positions_range [OF old(1), of _ 0] old(2) by (intro offset_at_cong) (auto dest: leD)
  ultimately show ?thesis
    using inv idxs len by (simp add: spcot_inv_def gp ws' offset_at_append list_all2_appendI)
qed

lemma spcot_extend_step:
  assumes "spcot_inv s r vs ws" "\<And>l. l \<in> set ls \<Longrightarrow> 1 \<le> l \<and> l \<le> 64" "list_all2 (\<lambda>x l. x < 2 ^ l) idxs ls"
    and "length keys = sum_list ls" "length choices = sum_list ls" "length buf = total_len ls" "length buf' = total_len ls"
    and "emp \<Longrightarrow> bit (sp_delta s) 0"
  shows "\<exists>flip cs vs' g' ws'.
    spr_derandomize ls idxs choices = Inr flip \<and>
    sps_extend aes emp rng g s ls keys flip buf = Inr (cs, vs', g', s\<lparr>sp_pending := sp_pending s + total_len ls\<rparr>) \<and>
    spr_extend aes emp r ls idxs (cot_macs (sp_delta s) keys choices) cs buf' =
      Inr (ws', r\<lparr>sp_lengths := sp_lengths r @ ls, sp_indices := sp_indices r @ idxs\<rparr>) \<and>
    spcot_inv (s\<lparr>sp_pending := sp_pending s + total_len ls\<rparr>)
      (r\<lparr>sp_lengths := sp_lengths r @ ls, sp_indices := sp_indices r @ idxs\<rparr>) (vs @ vs') (ws @ ws')"
proof -
  let ?ks = "slices keys ls" and ?rs = "slices choices ls" and ?d = "sp_delta s"
  obtain seeds g' where dr: "draw_blocks rng (length ls) g = (seeds, g')" by fastforce
  have sd: "length seeds = length ls" using draw_blocks_length [of rng "length ls" g] dr by simp
  have n: "length idxs = length ls" "map length ?ks = ls" "map length ?rs = ls" "concat ?ks = keys" "concat ?rs = choices"
    using assms(3-5) by (simp_all add: map_length_slices concat_slices list_all2_lengthD)
  have fl: "map length (flips idxs ls ?rs) = ls" using assms(2) by (intro flip_lengths n) auto
  let ?trees = "map2 (tree aes emp ?d) ls seeds" and ?f = "flips idxs ls ?rs"
  have tl: "map length ?trees = map (\<lambda>l. 2 ^ l) ls" using sd by (intro nth_equalityI) simp_all
  have de: "spr_derandomize ls idxs choices = Inr (concat ?f)" using derandomize_flips [OF n(1) _ n(3)] assms(2) n(5) by auto
  have se: "sps_extend aes emp rng g s ls keys (concat ?f) buf =
      Inr (concat (corrections aes emp ?d ls seeds ?ks ?f), map Gf2_128 (concat ?trees), g', s\<lparr>sp_pending := sp_pending s + total_len ls\<rparr>)"
    using sps_extend_ok [of ls ?ks ?f buf rng g seeds g' aes emp s] assms(2,6) n(2,4) fl dr by simp
  have re: "spr_extend aes emp r ls idxs (cot_macs ?d keys choices) (concat (corrections aes emp ?d ls seeds ?ks ?f)) buf' =
      Inr (map Gf2_128 (concat (offsets ?d idxs ?trees)), r\<lparr>sp_lengths := sp_lengths r @ ls, sp_indices := sp_indices r @ idxs\<rparr>)"
    using spr_extend_ok [of ls idxs ?ks ?rs seeds buf' emp ?d aes r] assms(2,3,7,8) n sd by simp
  show ?thesis
  proof (intro exI conjI, rule de, rule se, rule re, rule spcot_inv_append [OF assms(1,3)])
    show "length (map Gf2_128 (concat ?trees)) = total_len ls" by (simp only: length_map length_concat_sum tl)
    show "map Gf2_128 (concat (offsets ?d idxs ?trees)) =
        offset_at (length vs) (Gf2_128 ?d) (global_positions (length vs) ls idxs) (map Gf2_128 (concat ?trees))"
      by (rule offsets_positions [OF assms(3) tl])
  qed
qed

text \<open>
  C13. One extension.  From correlated OTs of any keys and any random choices, the receiver's flips, the
  sender's corrections and the two expansions are all accepted, and append to the parties' vectors
  slices that again differ by \<open>\<Delta>\<close> exactly at the indices the receiver chose, so what holds between
  the parties is kept.
\<close>

theorem spcot_extend:
  assumes "spcot_inv s r vs ws" "\<And>l. l \<in> set ls \<Longrightarrow> 1 \<le> l \<and> l \<le> 64" "list_all2 (\<lambda>x l. x < 2 ^ l) idxs ls"
    and "length keys = sum_list ls" "length choices = sum_list ls" "length buf = total_len ls" "length buf' = total_len ls"
    and "emp \<Longrightarrow> bit (sp_delta s) 0"
  shows "\<exists>flip cs vs' g' ws'.
    spr_derandomize ls idxs choices = Inr flip \<and>
    sps_extend aes emp rng g s ls keys flip buf = Inr (cs, vs', g', s\<lparr>sp_pending := sp_pending s + total_len ls\<rparr>) \<and>
    spr_extend aes emp r ls idxs (cot_macs (sp_delta s) keys choices) cs buf' =
      Inr (ws', r\<lparr>sp_lengths := sp_lengths r @ ls, sp_indices := sp_indices r @ idxs\<rparr>) \<and>
    spcot_inv (s\<lparr>sp_pending := sp_pending s + total_len ls\<rparr>)
      (r\<lparr>sp_lengths := sp_lengths r @ ls, sp_indices := sp_indices r @ idxs\<rparr>) (vs @ vs') (ws @ ws')"
  using assms by (rule spcot_extend_step)

theorem spcot_extend_witness:
  "\<exists>flip cs vs' g' ws'.
    spr_derandomize [2, 1] [3, 0] [True, False, True] = Inr flip \<and>
    sps_extend (\<lambda>x. x + 1) True (\<lambda>g. (g, g + 1)) 7 (sps_new 5) [2, 1] (replicate 3 (Gf2_128 9)) flip (replicate 6 0) =
      Inr (cs, vs', g', (sps_new 5)\<lparr>sp_pending := sp_pending (sps_new 5) + total_len [2, 1]\<rparr>) \<and>
    spr_extend (\<lambda>x. x + 1) True spr_new [2, 1] [3, 0] (cot_macs (sp_delta (sps_new 5)) (replicate 3 (Gf2_128 9)) [True, False, True]) cs (replicate 6 1) =
      Inr (ws', spr_new\<lparr>sp_lengths := sp_lengths spr_new @ [2, 1], sp_indices := sp_indices spr_new @ [3, 0]\<rparr>) \<and>
    spcot_inv ((sps_new 5)\<lparr>sp_pending := sp_pending (sps_new 5) + total_len [2, 1]\<rparr>)
      (spr_new\<lparr>sp_lengths := sp_lengths spr_new @ [2, 1], sp_indices := sp_indices spr_new @ [3, 0]\<rparr>) ([] @ vs') ([] @ ws')"
  by (rule spcot_extend [OF spcot_inv_new]) (auto simp: sps_new_def)

lemma spcot_check_step:
  assumes "sp_check r = None" "list_all2 (\<lambda>x l. x < 2 ^ l) (sp_indices r) (sp_lengths r)"
    and "length vs = total_len (sp_lengths r)" "length ws = total_len (sp_lengths r)" "sp_pending s = total_len (sp_lengths r)"
    and "length keys = 128" "length choices = 128"
  shows "\<exists>x seed g' r' V W.
    spr_start_check enc rayon rng g r (cot_macs (sp_delta s) keys choices) choices ws = Inr ((x, seed), g', r') \<and>
    sps_check enc rayon' hash s keys x vs seed = Inr (hash V, s\<lparr>sp_pending := 0\<rparr>) \<and>
    (V = W \<longleftrightarrow> dot (chi (enc seed)) 0 ws = dot (chi (enc seed)) 0
            (offset_at 0 (Gf2_128 (sp_delta s)) (global_positions 0 (sp_lengths r) (sp_indices r)) vs)) \<and>
    spr_check hash r' (hash V) =
      (if hash V = hash W then (Inr (), r\<lparr>sp_lengths := [], sp_indices := []\<rparr>) else (Inl (Err SpCheck), r))"
proof -
  obtain seed g' where g: "rng g = (seed, g')" by fastforce
  let ?c = "chi (enc seed)" and ?D = "Gf2_128 (sp_delta s)" and ?M = MONOMIAL_BASIS_GF2_128
  define X where "X = Gf2_128 (from_lsb0 choices)"
  define K where "K = sum_list (map2 (*) keys ?M)"
  define A where "A = sum_list (map ?c (global_positions 0 (sp_lengths r) (sp_indices r)))"
  define x where "x = map2 (\<noteq>) (to_lsb0 (gf128_inner A)) choices"
  have lx: "length x = 128" "length ?M = 128" using assms(7) by (simp_all add: x_def MONOMIAL_BASIS_GF2_128_def)
  have m: "sum_list (map2 (*) (cot_macs (sp_delta s) keys choices) ?M) = K + ?D * X"
    using assms(6,7) lx by (simp add: macs_sum monomial_sum X_def K_def)
  have "from_lsb0 x = gf128_inner A XOR from_lsb0 choices" unfolding x_def by (rule from_lsb0_flips) (simp add: assms)
  then have fx: "Gf2_128 (from_lsb0 x) = A + X" by (simp add: X_def gf128_defs)
  have d: "dot ?c 0 (offset_at 0 ?D (global_positions 0 (sp_lengths r) (sp_indices r)) vs) = dot ?c 0 vs + ?D * A"
    unfolding A_def by (rule dot_positions [OF assms(2,3)])
  have eq: "gf128_inner (K + ?D * (A + X) + v) = gf128_inner (K + ?D * X + w) \<longleftrightarrow> w = v + ?D * A" for v w
  proof -
    have "gf128_inner a = gf128_inner b \<longleftrightarrow> a = b" for a b by (cases a; cases b) simp
    moreover have "K + ?D * (A + X) + v = K + ?D * X + (v + ?D * A)" by (simp add: algebra_simps)
    ultimately show ?thesis by auto
  qed
  have lm: "length (cot_macs (sp_delta s) keys choices) = 128" using assms(6,7) by (simp add: cot_macs_def)
  note sc = start_check_ok [where rng = rng and g = g and enc = enc and rayon = rayon, OF assms(1,2,4) lm assms(7) g, unfolded m A_def [symmetric], unfolded x_def [symmetric]]
  have pv: "length vs = sp_pending s" using assms(3,5) by simp
  note sv = sps_check_ok [OF assms(6) lx(1) pv, of enc rayon' hash seed, unfolded fx K_def [symmetric]]
  have rr: "r\<lparr>sp_check := None\<rparr> = r" using assms(1) by (cases r) simp
  show ?thesis
    by (intro exI conjI, rule sc, rule sv, rule trans [OF eq]) (simp_all add: spr_check_def Let_def d rr, metis)
qed

text \<open>
  C14. The consistency check, with correlated OTs of any keys and any random choices: the parties hash two
  values that are equal exactly when the challenge-weighted sum of the receiver's vector is that of the
  sender's vector offset by \<open>\<Delta>\<close> at the receiver's positions.  If the hashes agree the receiver accepts
  and forgets the positions, otherwise it fails with \<open>Check\<close> and keeps them; so honest parties pass,
  and a wrong sum passes only with a collision of the hash.
\<close>

theorem spcot_check_decides:
  assumes "sp_check r = None" "list_all2 (\<lambda>x l. x < 2 ^ l) (sp_indices r) (sp_lengths r)"
    and "length vs = total_len (sp_lengths r)" "length ws = total_len (sp_lengths r)" "sp_pending s = total_len (sp_lengths r)"
    and "length keys = 128" "length choices = 128"
  shows "\<exists>x seed g' r' V W.
    spr_start_check enc rayon rng g r (cot_macs (sp_delta s) keys choices) choices ws = Inr ((x, seed), g', r') \<and>
    sps_check enc rayon' hash s keys x vs seed = Inr (hash V, s\<lparr>sp_pending := 0\<rparr>) \<and>
    (V = W \<longleftrightarrow> dot (chi (enc seed)) 0 ws = dot (chi (enc seed)) 0
            (offset_at 0 (Gf2_128 (sp_delta s)) (global_positions 0 (sp_lengths r) (sp_indices r)) vs)) \<and>
    spr_check hash r' (hash V) =
      (if hash V = hash W then (Inr (), r\<lparr>sp_lengths := [], sp_indices := []\<rparr>) else (Inl (Err SpCheck), r))"
  using assms by (rule spcot_check_step)

theorem spcot_check_decides_witness:
  "\<exists>x seed g' r' V W.
    spr_start_check (\<lambda>_ x. x + 1) True (\<lambda>g. (g, g + 1)) 3 \<lparr>sp_lengths = [1], sp_indices = [1], sp_check = None\<rparr>
      (cot_macs (sp_delta \<lparr>sp_pending = 2, sp_delta = 5\<rparr>) (replicate 128 1) (replicate 128 True)) (replicate 128 True) [2, 3] = Inr ((x, seed), g', r') \<and>
    sps_check (\<lambda>_ x. x + 1) False id \<lparr>sp_pending = 2, sp_delta = 5\<rparr> (replicate 128 1) x [2, 6] seed =
      Inr (id V, \<lparr>sp_pending = 2, sp_delta = 5\<rparr>\<lparr>sp_pending := 0\<rparr>) \<and>
    (V = W \<longleftrightarrow> dot (chi (\<lambda>x. x + 1)) 0 [2, 3] = dot (chi (\<lambda>x. x + 1)) 0
            (offset_at 0 (Gf2_128 (sp_delta \<lparr>sp_pending = 2, sp_delta = 5\<rparr>))
              (global_positions 0 (sp_lengths \<lparr>sp_lengths = [1], sp_indices = [1], sp_check = None\<rparr>)
                (sp_indices \<lparr>sp_lengths = [1], sp_indices = [1], sp_check = None\<rparr>)) [2, 6])) \<and>
    spr_check id r' (id V) =
      (if id V = id W then (Inr (), \<lparr>sp_lengths = [1], sp_indices = [1], sp_check = None\<rparr>\<lparr>sp_lengths := [], sp_indices := []\<rparr>)
       else (Inl (Err SpCheck), \<lparr>sp_lengths = [1], sp_indices = [1], sp_check = None\<rparr>))"
  by (rule spcot_check_decides) simp_all

end
