(* ===== verification/Ferret_Plan.thy ===== *)
theory Ferret_Plan
  imports Ferret_Config Spcot_Correct
begin

text \<open>The plan of a round is sound: what it costs, where its groups lie, and what the queries mean.\<close>

section \<open>Good parameters\<close>

definition params_ok :: "lpn_parameters \<Rightarrow> bool" where
  "params_ok p \<longleftrightarrow> 0 < lp_t p \<and> lp_t p dvd lp_n p \<and> is_power_of_two (lp_n p div lp_t p) \<and> 2 \<le> lp_n p div lp_t p \<and>
     ilog2 (lp_n p div lp_t p) \<le> 64 \<and> is_power_of_two (lp_k p) \<and> 16 \<le> lp_k p \<and> lp_k p < 2 ^ 32"

definition log2_interval :: "lpn_parameters \<Rightarrow> nat" where
  "log2_interval p = ilog2 (lp_n p div lp_t p)"

definition spcot_count :: "lpn_parameters \<Rightarrow> nat" where
  "spcot_count p = lp_t p * log2_interval p"

definition cost_of :: "lpn_parameters \<Rightarrow> nat" where
  "cost_of p = spcot_count p + lp_k p + CSP"

lemma ilog2_ge: "2 \<le> n \<Longrightarrow> 1 \<le> ilog2 n"
  by (subst ilog2.simps) simp

lemma params_okD:
  assumes "params_ok p"
  shows "0 < lp_t p" "lp_n p = lp_t p * 2 ^ log2_interval p" "lp_n p div lp_t p = 2 ^ log2_interval p"
    "1 \<le> log2_interval p" "log2_interval p \<le> 64" "is_power_of_two (lp_k p)" "16 \<le> lp_k p" "lp_k p < 2 ^ 32" "lp_t p \<le> lp_n p"
proof -
  have q: "lp_n p div lp_t p = 2 ^ log2_interval p" using assms by (auto simp: params_ok_def log2_interval_def is_power_of_two_def)
  then show "lp_n p div lp_t p = 2 ^ log2_interval p" .
  show n: "lp_n p = lp_t p * 2 ^ log2_interval p" unfolding q [symmetric] using assms by (simp add: params_ok_def)
  show "1 \<le> log2_interval p" unfolding log2_interval_def using assms by (intro ilog2_ge) (simp add: params_ok_def)
  show "0 < lp_t p" "log2_interval p \<le> 64" "is_power_of_two (lp_k p)" "16 \<le> lp_k p" "lp_k p < 2 ^ 32"
    using assms by (simp_all add: params_ok_def log2_interval_def)
  show "lp_t p \<le> lp_n p" unfolding n by simp
qed

lemma iteration_cost_ok: "params_ok p \<Longrightarrow> iteration_cost p = Inr (cost_of p)"
  by (simp add: iteration_cost_def udiv_def params_ok_def cost_of_def spcot_count_def log2_interval_def)

lemma spcot_lengths_ok:
  assumes "params_ok p"
  shows "spcot_lengths (lp_t p) (lp_n p) = Inr (replicate (lp_t p) (log2_interval p))"
proof -
  have f: "\<not> lp_n p < lp_t p" "lp_t p \<noteq> 0" "lp_t p dvd lp_n p" "is_power_of_two (lp_n p div lp_t p)"
    using params_okD(1,9) [OF assms] assms unfolding params_ok_def by auto
  show ?thesis
    unfolding spcot_lengths_def udiv_def Let_def
    by (simp only: f if_False bindR_simps not_True_eq_False if_True simp_thms map_replicate_const length_upt diff_zero log2_interval_def)
qed

lemma sum_replicate_nat: "sum_list (replicate m (l :: nat)) = m * l" "sum_list (map f (replicate m x)) = m * (f x :: nat)"
  by (simp_all add: sum_list_replicate)

section \<open>The default selector\<close>

lemma ilog2_regular: "ilog2 1024 = 10" "ilog2 2048 = 11" "ilog2 4096 = 12" "ilog2 8192 = 13"
  "ilog2 65536 = 16" "ilog2 131072 = 17" "ilog2 262144 = 18" "ilog2 524288 = 19"
  by (simp_all add: ilog2.simps)

lemma regular_params_ok: "p \<in> set LPN_PARAMS \<Longrightarrow> params_ok p"
  unfolding LPN_PARAMS_def by (auto simp: params_ok_def is_power_of_two_def ilog2_regular)

lemma regular_costs: "map cost_of LPN_PARAMS = [74164, 144070, 280512, 549116]"
  by (simp add: LPN_PARAMS_def cost_of_def spcot_count_def log2_interval_def ilog2_regular CSP_def)

lemma default_selector_step:
  assumes "cost_of (hd LPN_PARAMS) \<le> available"
  shows "\<exists>p \<in> set LPN_PARAMS. default_parameter_selector available additional = (Inr p :: ('e, _) result) \<and> params_ok p \<and> cost_of p \<le> available \<and>
    cost_of p < lp_n p \<and>
    (additional \<le> lp_n p - cost_of p \<or> p = last LPN_PARAMS \<or>
      (\<exists>q \<in> set LPN_PARAMS. lp_n p < lp_n q \<and> available < cost_of q \<and>
        (\<forall>r \<in> set LPN_PARAMS. lp_n p < lp_n r \<longrightarrow> lp_n q \<le> lp_n r)))"
proof -
  have c: "iteration_cost \<lparr>lp_n = 870400, lp_k = 65536, lp_t = 850\<rparr> = (Inr 74164 :: ('e, _) result)"
    "iteration_cost \<lparr>lp_n = 2396160, lp_k = 131072, lp_t = 1170\<rparr> = (Inr 144070 :: ('e, _) result)"
    "iteration_cost \<lparr>lp_n = 6225920, lp_k = 262144, lp_t = 1520\<rparr> = (Inr 280512 :: ('e, _) result)"
    "iteration_cost \<lparr>lp_n = 15564800, lp_k = 524288, lp_t = 1900\<rparr> = (Inr 549116 :: ('e, _) result)"
    by (simp_all add: iteration_cost_def udiv_def is_power_of_two_def ilog2_regular CSP_def)
  have a: "74164 \<le> available" using assms regular_costs by (simp add: LPN_PARAMS_def)
  have "\<exists>p \<in> set LPN_PARAMS. default_parameter_selector available additional = (Inr p :: ('e, _) result) \<and> cost_of p \<le> available \<and>
    cost_of p < lp_n p \<and>
    (additional \<le> lp_n p - cost_of p \<or> p = last LPN_PARAMS \<or>
      (\<exists>q \<in> set LPN_PARAMS. lp_n p < lp_n q \<and> available < cost_of q \<and>
        (\<forall>r \<in> set LPN_PARAMS. lp_n p < lp_n r \<longrightarrow> lp_n q \<le> lp_n r)))"
    using a regular_costs by (auto simp: default_parameter_selector_def LPN_PARAMS_def c)
  then show ?thesis using regular_params_ok by blast
qed

text \<open>
  C22. The default selector: when there are base correlations for the cheapest parameters, it returns an
  entry of the table that the available correlations pay for, and which, unless a larger one would not
  be paid for or none is large enough, yields at least the additional correlations asked for.
\<close>

theorem default_selector_affordable:
  assumes "cost_of (hd LPN_PARAMS) \<le> available"
  shows "\<exists>p \<in> set LPN_PARAMS. default_parameter_selector available additional = (Inr p :: ('e, _) result) \<and> params_ok p \<and> cost_of p \<le> available \<and>
    cost_of p < lp_n p \<and>
    (additional \<le> lp_n p - cost_of p \<or> p = last LPN_PARAMS \<or>
      (\<exists>q \<in> set LPN_PARAMS. lp_n p < lp_n q \<and> available < cost_of q \<and>
        (\<forall>r \<in> set LPN_PARAMS. lp_n p < lp_n r \<longrightarrow> lp_n q \<le> lp_n r)))"
  using assms by (rule default_selector_step)

theorem default_selector_affordable_witness:
  "\<exists>p \<in> set LPN_PARAMS. default_parameter_selector 100000 5000000 = (Inr p :: (unit, _) result) \<and> params_ok p \<and> cost_of p \<le> 100000 \<and>
    cost_of p < lp_n p \<and>
    (5000000 \<le> lp_n p - cost_of p \<or> p = last LPN_PARAMS \<or>
      (\<exists>q \<in> set LPN_PARAMS. lp_n p < lp_n q \<and> 100000 < cost_of q \<and>
        (\<forall>r \<in> set LPN_PARAMS. lp_n p < lp_n r \<longrightarrow> lp_n q \<le> lp_n r)))"
  by (rule default_selector_affordable) (simp add: LPN_PARAMS_def cost_of_def spcot_count_def log2_interval_def ilog2_regular CSP_def)

section \<open>The groups at the tail\<close>

lemma drain_mid: "drain (xs @ ys @ zs) (length xs, length xs + length ys) = Inr (ys, xs @ zs)"
  by (simp add: drain_def subslice_def)

text \<open>The order of the LPN and the check group behind the kept part.\<close>

definition bases :: "bool \<Rightarrow> 'a list \<Rightarrow> 'a list \<Rightarrow> 'a list" where
  "bases emp lpn check = (if emp then check @ lpn else lpn @ check)"

lemma length_bases [simp]: "length (bases emp lpn check) = length lpn + length check"
  by (simp add: bases_def)

lemma tail_split_ok:
  assumes "rp_k plan = length lpn" "rp_csp plan = length check" "0 < length lpn" "0 < length check"
  shows "tail_split (round_plan_tail emp plan (length sp)) (keep @ bases emp lpn check @ sp) = (Inr ((sp, check, lpn), keep) :: ('e, _) result)"
proof (cases emp)
  case True
  let ?b = "keep @ check @ lpn @ sp"
  have 1: "drain ?b (length keep + length check + length lpn, length ?b) = (Inr (sp, keep @ check @ lpn) :: ('e, _) result)"
    using drain_mid [of "keep @ check @ lpn" sp "[]"] by (simp add: add.assoc)
  have 2: "drain (keep @ check @ lpn) (length keep + length check, length keep + length check + length lpn) = (Inr (lpn, keep @ check) :: ('e, _) result)"
    using drain_mid [of "keep @ check" lpn "[]"] by simp
  have 3: "drain (keep @ check) (length keep, length keep + length check) = (Inr (check, keep) :: ('e, _) result)"
    using drain_mid [of keep check "[]"] by simp
  show ?thesis
    using assms True 1 2 3 by (simp add: tail_split_def round_plan_tail_def tail_range_def bases_def add.assoc numeral_3_eq_3)
next
  case False
  let ?b = "keep @ lpn @ check @ sp"
  have 1: "drain ?b (length keep + length lpn + length check, length ?b) = (Inr (sp, keep @ lpn @ check) :: ('e, _) result)"
    using drain_mid [of "keep @ lpn @ check" sp "[]"] by (simp add: add.assoc)
  have 2: "drain (keep @ lpn @ check) (length keep + length lpn, length keep + length lpn + length check) = (Inr (check, keep @ lpn) :: ('e, _) result)"
    using drain_mid [of "keep @ lpn" check "[]"] by simp
  have 3: "drain (keep @ lpn) (length keep, length keep + length lpn) = (Inr (lpn, keep) :: ('e, _) result)"
    using drain_mid [of keep lpn "[]"] by simp
  show ?thesis
    using assms False 1 2 3 by (simp add: tail_split_def round_plan_tail_def tail_range_def bases_def add.assoc numeral_3_eq_3)
qed

lemma take_check_masks_ok:
  assumes "rp_k plan = length lpn" "rp_csp plan = length check"
  shows "take_check_masks (round_plan_tail emp plan n) (keep @ bases emp lpn check) = Inr (check, keep @ lpn)"
  using assms drain_mid [of keep check lpn] drain_mid [of "keep @ lpn" check "[]"]
  by (cases emp) (simp_all add: take_check_masks_def round_plan_tail_def tail_range_def bases_def add.assoc)

section \<open>The queries\<close>

text \<open>One index in each of the intervals.\<close>

definition regular :: "nat \<Rightarrow> nat list \<Rightarrow> bool" where
  "regular k errs \<longleftrightarrow> (\<forall>i < length errs. i * k \<le> errs ! i \<and> errs ! i < (i + 1) * k)"

lemma regular_enum: "regular k errs \<longleftrightarrow> list_all (\<lambda>(i, ix). i * k \<le> ix \<and> ix < (i + 1) * k) (enumerate 0 errs)"
  by (simp add: regular_def list_all_length nth_enumerate_eq)

lemma spcot_queries_ok:
  assumes "params_ok p" "length errs = lp_t p" "regular (2 ^ log2_interval p) errs"
  shows "spcot_queries errs (lp_n p) = Inr (replicate (lp_t p) (log2_interval p), map (\<lambda>ix. ix mod 2 ^ log2_interval p) errs)"
proof -
  have "udiv (lp_n p) (lp_t p) = (Inr (2 ^ log2_interval p) :: (mpcot_error, nat) result)"
    using params_okD(1,3) [OF assms(1)] by (simp add: udiv_def)
  then show ?thesis
    using assms(3) unfolding spcot_queries_def assms(2) spcot_lengths_ok [OF assms(1)] regular_enum by simp
qed

lemma regular_mod: "regular k errs \<Longrightarrow> i < length errs \<Longrightarrow> errs ! i = i * k + errs ! i mod k"
proof -
  assume "regular k errs" "i < length errs"
  then have "i * k \<le> errs ! i" "errs ! i < i * k + k" by (auto simp: regular_def add.commute)
  then obtain q where "errs ! i = i * k + q" "q < k" by (metis add_less_cancel_left le_Suc_ex)
  then show ?thesis by simp
qed

lemma global_positions_replicate:
  "global_positions s (replicate (length xs) l) xs = map (\<lambda>i. s + i * 2 ^ l + xs ! i) [0..<length xs]"
proof (induction xs arbitrary: s)
  case (Cons x xs)
  have "[0..<length (x # xs)] = 0 # map Suc [0..<length xs]" by (simp add: upt_conv_Cons map_Suc_upt del: upt_Suc)
  then show ?case using Cons by (simp add: comp_def algebra_simps del: upt_Suc)
qed simp

lemma regular_positions:
  assumes "regular (2 ^ l) errs"
  shows "global_positions 0 (replicate (length errs) l) (map (\<lambda>ix. ix mod 2 ^ l) errs) = errs"
  using global_positions_replicate [where s = 0 and l = l and xs = "map (\<lambda>ix. ix mod 2 ^ l) errs"] regular_mod [OF assms]
  by (intro nth_equalityI) simp_all

text \<open>The queries read off the choice bits are regular too.\<close>

lemma choice_index:
  assumes "m \<le> l" "offset + l \<le> length choices"
  shows "\<exists>x. foldR (\<lambda>j ix. bindR (idx choices (offset + j)) (\<lambda>c. Inr (if \<not> c then ix OR push_bit j 1 else ix))) [0..<m] 0 =
    (Inr x :: ('e, nat) result) \<and> x < 2 ^ m"
  using assms(1)
proof (induction m)
  case (Suc m)
  then obtain x where x: "foldR (\<lambda>j ix. bindR (idx choices (offset + j)) (\<lambda>c. Inr (if \<not> c then ix OR push_bit j 1 else ix))) [0..<m] 0 =
      (Inr x :: ('e, nat) result)" "x < 2 ^ m" by auto
  have lt: "x < 2 ^ Suc m" using x(2) by simp
  have "take_bit (Suc m) (x OR push_bit m 1) = x OR push_bit m 1"
    using lt by (simp add: take_bit_or take_bit_nat_eq_self take_bit_push_bit)
  then have "x OR push_bit m 1 < 2 ^ Suc m" by (metis take_bit_nat_less_exp)
  then show ?case using x lt Suc.prems assms(2) by (auto simp: foldR_append)
qed simp

lemma queries_loop_ok:
  "offset + n * l \<le> length choices \<Longrightarrow>
    \<exists>errs. queries_loop choices (2 ^ l) i offset (replicate n l) = (Inr errs :: ('e, nat list) result) \<and> length errs = n \<and>
      (\<forall>j < n. (i + j) * 2 ^ l \<le> errs ! j \<and> errs ! j < (i + j + 1) * 2 ^ l)"
proof (induction n arbitrary: i offset)
  case (Suc n)
  obtain x where x: "foldR (\<lambda>j ix. bindR (idx choices (offset + j)) (\<lambda>c. Inr (if \<not> c then ix OR push_bit j 1 else ix))) [0..<l] 0 =
      (Inr x :: ('e, nat) result)" "x < 2 ^ l"
    using choice_index [of l l offset choices] Suc.prems by auto
  obtain errs where e: "queries_loop choices (2 ^ l) (i + 1) (offset + l) (replicate n l) = (Inr errs :: ('e, nat list) result)" "length errs = n"
      "\<forall>j < n. (i + 1 + j) * 2 ^ l \<le> errs ! j \<and> errs ! j < (i + 1 + j + 1) * 2 ^ l"
    using Suc.IH [of "offset + l" "i + 1"] Suc.prems by (auto simp: add.assoc)
  have "(i + j) * 2 ^ l \<le> ((i * 2 ^ l + x) # errs) ! j \<and> ((i * 2 ^ l + x) # errs) ! j < (i + j + 1) * 2 ^ l" if "j < Suc n" for j
    using that e(3) x(2) by (cases j) (auto simp: algebra_simps)
  then show ?case using x(1) e(1,2) by (intro exI [of _ "(i * 2 ^ l + x) # errs"]) simp
qed simp

lemma queries_from_choices_ok:
  assumes "params_ok p" "spcot_count p \<le> length choices"
  shows "\<exists>errs. spcot_queries_from_choices choices (replicate (lp_t p) (log2_interval p)) (lp_n p) = (Inr errs :: ('e, nat list) result) \<and>
    length errs = lp_t p \<and> regular (2 ^ log2_interval p) errs"
  using queries_loop_ok [of 0 "lp_t p" "log2_interval p" choices 0, where ?'e = 'e] assms(2) params_okD(1,3) [OF assms(1)]
  by (auto simp: spcot_queries_from_choices_def udiv_def regular_def spcot_count_def)

lemma draw_ranges_ok:
  assumes "\<And>a b g. a < b \<Longrightarrow> a \<le> fst (pick a b g) \<and> fst (pick a b g) < (b :: nat)" "0 < step"
  shows "\<exists>errs g'. draw_ranges pick [i..<i + n] step g = (Inr (errs, g') :: ('e, nat list \<times> 'g) result) \<and> length errs = n \<and>
    (\<forall>j < n. (i + j) * step \<le> errs ! j \<and> errs ! j < (i + j + 1) * step)"
proof (induction n arbitrary: i g)
  case (Suc n)
  obtain x g1 where x: "pick (i * step) ((i + 1) * step) g = (x, g1)" by fastforce
  then have b: "i * step \<le> x" "x < (i + 1) * step" using assms(1) [of "i * step" "(i + 1) * step" g] assms(2) by auto
  obtain errs g' where e: "draw_ranges pick [i + 1..<i + 1 + n] step g1 = (Inr (errs, g') :: ('e, nat list \<times> 'g) result)" "length errs = n"
      "\<forall>j < n. (i + 1 + j) * step \<le> errs ! j \<and> errs ! j < (i + 1 + j + 1) * step"
    using Suc.IH [of "i + 1" g1] by blast
  have u: "[i..<i + Suc n] = i # [i + 1..<i + 1 + n]" by (simp add: upt_conv_Cons del: upt_Suc)
  have "(i + j) * step \<le> (x # errs) ! j \<and> (x # errs) ! j < (i + j + 1) * step" if "j < Suc n" for j
    using that e(3) b by (cases j) (auto simp: algebra_simps)
  moreover have "draw_ranges pick [i..<i + Suc n] step g = (Inr (x # errs, g') :: ('e, nat list \<times> 'g) result)"
    unfolding u using x e(1) assms(2) by simp
  ultimately show ?case using e(2) by (intro exI [of _ "x # errs"] exI [of _ g']) simp
qed simp

lemma sample_error_indices_ok:
  assumes "params_ok p" "\<And>a b g. a < b \<Longrightarrow> a \<le> fst (pick a b g) \<and> fst (pick a b g) < (b :: nat)"
  shows "\<exists>errs g'. sample_error_indices pick g (lp_n p) (lp_t p) = (Inr (errs, g') :: ('e, nat list \<times> 'g) result) \<and>
    length errs = lp_t p \<and> regular (2 ^ log2_interval p) errs"
proof -
  note k = params_okD(1,3) [OF assms(1)]
  have "lp_n p mod lp_t p = 0" using assms(1) by (simp add: params_ok_def)
  with k draw_ranges_ok [where pick = pick, OF assms(2), where step = "2 ^ log2_interval p" and i = 0 and n = "lp_t p" and g = g and ?'e = 'e] show ?thesis
    by (auto simp: sample_error_indices_def regular_def)
qed

end
