(* ===== verification/Ferret_Correct.thy ===== *)
theory Ferret_Correct
  imports Ferret Ferret_Plan
begin

text \<open>
  A round of Ferret between honest parties: every message is accepted, the base correlations are
  replaced by more of them, and queued requests are served with correlated outputs under equal ids.
  The inner correlated OT is any implementation of the interface \<open>rcot_pair\<close>, which the idle
  parties then implement themselves.
\<close>

section \<open>Correlated field elements and blocks\<close>

lemma cot_macs_append:
  "length ks = length cs \<Longrightarrow> cot_macs d (ks @ ks') (cs @ cs') = cot_macs d ks cs @ cot_macs d ks' cs'"
  by (simp add: cot_macs_def)

lemma length_cot_macs [simp]: "length (cot_macs d ks cs) = min (length ks) (length cs)"
  by (simp add: cot_macs_def)

lemma gf128_add_inner: "gf128_inner (k + (if r then Gf2_128 d else 0)) = gf128_inner k XOR scale r d"
  by (cases k) (simp add: gf128_defs)

lemma cot_macs_blocks: "map gf128_inner (cot_macs d ks cs) = block_macs d (map gf128_inner ks) cs"
proof (induction ks arbitrary: cs)
  case (Cons k ks)
  then show ?case by (cases cs) (simp_all add: cot_macs_def block_macs_def gf128_add_inner)
qed (simp add: cot_macs_def block_macs_def)

lemma blocks_cot_macs: "map Gf2_128 (block_macs d ks cs) = cot_macs d (map Gf2_128 ks) cs"
proof (induction ks arbitrary: cs)
  case (Cons k ks)
  then show ?case by (cases cs) (auto simp: cot_macs_def block_macs_def gf128_defs)
qed (simp add: cot_macs_def block_macs_def)

lemma correlated_iff: "correlated d ks cs ms \<longleftrightarrow> length cs = length ks \<and> ms = block_macs d ks cs"
  unfolding correlated_def block_macs_def key_auth_def scale_def BLOCK_ZERO_def by simp

lemma cot_macs_take_drop:
  "take n (cot_macs d ks cs) = cot_macs d (take n ks) (take n cs)" "drop n (cot_macs d ks cs) = cot_macs d (drop n ks) (drop n cs)"
  by (simp_all add: cot_macs_def take_map drop_map take_zip drop_zip)

text \<open>The noise: a vector offset at the error positions is a vector of MACs of the error bits.\<close>

lemma offset_at_macs: "offset_at 0 (Gf2_128 d) ps vs = cot_macs d vs (map (\<lambda>i. i \<in> set ps) [0..<length vs])"
  by (rule nth_equalityI) (auto simp: cot_macs_def)

section \<open>Packing and unpacking\<close>

lemma bits_of_inject: "length xs = length ys \<Longrightarrow> bits_of xs = bits_of ys \<Longrightarrow> xs = ys"
proof (induction xs ys rule: list_induct2)
  case (Cons x xs y ys)
  then have "to_lsb0 x = to_lsb0 y" "bits_of xs = bits_of ys" by (simp_all add: append_eq_append_conv)
  then show ?case using Cons.IH by (metis from_to_lsb0)
qed simp

lemma or_bits: "length bits \<le> m \<Longrightarrow> m \<le> 8 \<Longrightarrow>
    bit (fold (\<lambda>(i, b) byte. byte OR push_bit i (of_bool b)) (enumerate j bits) (w :: byte)) i \<longleftrightarrow>
      bit w i \<or> (j \<le> i \<and> i < j + length bits \<and> i < 8 \<and> bits ! (i - j))"
proof (induction bits arbitrary: j w)
  case (Cons b bits)
  have "bit (w OR push_bit j (of_bool b)) i \<longleftrightarrow> bit w i \<or> (i = j \<and> i < 8 \<and> b)"
    by (cases b) (auto simp: bit_simps)
  then show ?case using Cons by (auto simp: nth_Cons' not_less_eq_eq le_Suc_eq)
qed auto

lemma pack_choices_bits:
  assumes "length choices = k" "8 dvd k"
  shows "bits_of (pack_choices k choices) = choices \<and> 8 * length (pack_choices k choices) = k"
proof -
  have "\<exists>u. (let cs = chunks 8 choices in map2 (\<lambda>byte bits. fold (\<lambda>(i, b) byte. byte OR push_bit i (of_bool b)) (enumerate 0 bits) byte)
      (replicate n (0 :: byte)) cs @ drop (length cs) (replicate n 0)) = u \<and> bits_of u = choices \<and> length u = n"
    if "length choices = 8 * n" for n
    using that
  proof (induction n arbitrary: choices)
    case (Suc n)
    have ne: "choices \<noteq> []" using Suc.prems by auto
    have b: "to_lsb0 (fold (\<lambda>(i, b) byte. byte OR push_bit i (of_bool b)) (enumerate 0 (take 8 choices)) (0 :: byte)) = take 8 choices"
      using Suc.prems by (intro nth_equalityI) (simp_all add: or_bits [of _ 8])
    have "length (drop 8 choices) = 8 * n" using Suc.prems by simp
    from Suc.IH [OF this] show ?case using ne b by (auto simp: chunks_step Let_def)
  qed simp
  moreover obtain n where n: "k = 8 * n" using assms(2) by auto
  moreover have "div_ceil k 8 = n" by (simp add: div_ceil_def n)
  ultimately show ?thesis using assms(1) by (auto simp: pack_choices_def Let_def)
qed

lemma bits_of_set:
  assumes "r < 8 * length bs"
  shows "bits_of (bs[r div 8 := bs ! (r div 8) OR push_bit (r mod 8) 1]) = (bits_of bs)[r := True]"
proof -
  define c :: byte where "c = of_bool (\<not> bit (bs ! (r div 8)) (r mod 8))"
  have "bs ! (r div 8) OR push_bit (r mod 8) 1 = bs ! (r div 8) XOR push_bit (r mod 8) (c AND 1)"
    by (rule bit_word_eqI) (auto simp: c_def bit_simps)
  moreover have "bits_of bs ! r \<noteq> bit c 0" using assms by (simp add: c_def nth_bits_of bit_0)
  ultimately show ?thesis using bits_of_update [OF assms, of c] by simp
qed

lemma pack_errors_loop:
  "(\<And>i. i \<in> set err \<Longrightarrow> i < 8 * length x) \<Longrightarrow>
    \<exists>x'. foldR (\<lambda>ix x. bindR (idx x (ix div 8)) (\<lambda>b. upd x (ix div 8) (b OR push_bit (ix mod 8) 1))) err x = (Inr x' :: ('e, byte list) result) \<and>
      length x' = length x \<and> (\<forall>i < 8 * length x. bits_of x' ! i \<longleftrightarrow> bits_of x ! i \<or> i \<in> set err)"
proof (induction err arbitrary: x)
  case (Cons r err)
  have r: "r < 8 * length x" "r div 8 < length x" using Cons.prems [of r] by auto
  let ?x = "x[r div 8 := x ! (r div 8) OR push_bit (r mod 8) 1]"
  obtain x' where "foldR (\<lambda>ix x. bindR (idx x (ix div 8)) (\<lambda>b. upd x (ix div 8) (b OR push_bit (ix mod 8) 1))) err ?x = (Inr x' :: ('e, byte list) result)"
      "length x' = length ?x" "\<forall>i < 8 * length ?x. bits_of x' ! i \<longleftrightarrow> bits_of ?x ! i \<or> i \<in> set err"
    using Cons.IH [of ?x] Cons.prems by auto
  then show ?case using r by (auto simp: bits_of_set [OF r(1), unfolded push_bit_of_1] nth_list_update)
qed simp

lemma pack_errors_ok:
  assumes "\<And>i. i \<in> set err \<Longrightarrow> i < n"
  shows "\<exists>x. pack_errors n err = (Inr x :: ('e, byte list) result) \<and> length x = div_ceil n 8 \<and>
    bits_of x = map (\<lambda>i. i \<in> set err) [0..<8 * div_ceil n 8]"
proof -
  have z: "bits_of (replicate m 0) ! i = False" if "i < 8 * m" for i m
    using that by (simp add: nth_bits_of)
  obtain x where x: "pack_errors n err = (Inr x :: ('e, byte list) result)" "length x = div_ceil n 8"
    "\<forall>i < 8 * div_ceil n 8. bits_of x ! i \<longleftrightarrow> bits_of (replicate (div_ceil n 8) 0) ! i \<or> i \<in> set err"
    using pack_errors_loop [of err "replicate (div_ceil n 8) 0", where ?'e = 'e] assms div_ceil_eight(2) [of n]
    by (fastforce simp: pack_errors_def)
  then have "bits_of x = map (\<lambda>i. i \<in> set err) [0..<8 * div_ceil n 8]" using z by (intro nth_equalityI) simp_all
  with x show ?thesis by blast
qed

lemma unpack_bits_ok: "unpack_bits n bs = take n (bits_of bs)"
proof (induction bs arbitrary: n)
  case (Cons b bs)
  have "map (\<lambda>i. drop_bit i b AND 1 = 1) [0..<min n 8] = take n (to_lsb0 b)"
    by (rule nth_equalityI) (simp_all add: bit_iff_odd_drop_bit and_one_eq odd_iff_mod_2_eq_one)
  then show ?case using Cons [of "n - min n 8"] by (cases "n \<le> 8") simp_all
qed simp

section \<open>Two idle parties\<close>

text \<open>
  Between rounds the parties hold correlated buffers, agree on what they count, and their
  single-point COTs have nothing pending.
\<close>

definition idle_pair :: "bool \<Rightarrow> ('c, 'g, 'h) ferret_sender \<Rightarrow> ('d, 'g, 'n) ferret_receiver \<Rightarrow> bool" where
  "idle_pair emp s r \<longleftrightarrow>
     fs_state s = SExtend \<and> fr_state r = RExtend \<and> fs_pending s = 0 \<and> fr_pending r = 0 \<and>
     fs_config s = fr_config r \<and> fs_sid s = fr_sid r \<and>
     fs_spcot s = sps_new (fs_delta s) \<and> fr_spcot r = spr_new \<and>
     length (fr_choices r) = length (fs_keys s) \<and> fr_macs r = cot_macs (fs_delta s) (fs_keys s) (fr_choices r) \<and>
     length (fr_next_choices r) = length (fs_next_keys s) \<and>
     fr_next_macs r = cot_macs (fs_delta s) (fs_next_keys s) (fr_next_choices r) \<and>
     (emp \<longrightarrow> bit (fs_delta s) 0) \<and> \<not> fs_locked s \<and> \<not> fr_locked r"

text \<open>They also serve the same requests under the same ids.\<close>

definition same_requests :: "('c, 'g, 'h) ferret_sender \<Rightarrow> ('d, 'g, 'n) ferret_receiver \<Rightarrow> bool" where
  "same_requests s r \<longleftrightarrow> fs_alloc s = fr_alloc r \<and> map fst (fs_queue s) = map fst (fr_queue r) \<and> fs_id s = fr_id r"

section \<open>Configurations\<close>

text \<open>What bootstrapping costs, and that the parameters selected with that much are good and paid for.\<close>

definition refill_of :: "bool \<Rightarrow> lpn_parameters \<Rightarrow> nat" where
  "refill_of emp p = (if emp then div_ceil (cost_of p) (2 ^ log2_interval p) else 0)"

definition config_ok :: "bool \<Rightarrow> ferret_config \<Rightarrow> nat \<Rightarrow> bool" where
  "config_ok emp c bc \<longleftrightarrow>
     (if emp then \<exists>p. fc_param_selector c 0 0 = Some p \<and> params_ok p \<and> bc = cost_of p else bc = cost_of (hd LPN_PARAMS)) \<and>
     (\<forall>a m. bc \<le> a \<longrightarrow> (\<exists>p. fc_param_selector c a m = Some p \<and> params_ok p \<and> cost_of p \<le> a \<and>
        refill_of emp p * 2 ^ log2_interval p \<le> lp_n p))"

lemma bootstrap_cost_ok: "config_ok emp c bc \<Longrightarrow> bootstrap_cost emp c = Inr bc"
  using iteration_cost_ok regular_params_ok [of "hd LPN_PARAMS"]
  by (auto simp: config_ok_def bootstrap_cost_def select_params_def LPN_PARAMS_def)

lemma config_reserve_ok: "config_ok emp c bc \<Longrightarrow> config_reserve emp c = Inr (if fc_reserve_bootstrap c then bc else 0)"
  by (simp add: config_reserve_def bootstrap_cost_ok)

definition plan_of :: "bool \<Rightarrow> lpn_parameters \<Rightarrow> round_plan" where
  "plan_of emp p = \<lparr>rp_cost = cost_of p, rp_user_len = lp_n p - refill_of emp p * 2 ^ log2_interval p,
     rp_refill_trees = refill_of emp p, rp_csp = CSP, rp_k = lp_k p\<rparr>"

lemma config_round_plan_ok:
  "params_ok p \<Longrightarrow> refill_of emp p * 2 ^ log2_interval p \<le> lp_n p \<Longrightarrow> config_round_plan emp p = Inr (plan_of emp p)"
  using params_okD(1,3) [of p]
  by (cases emp) (simp_all add: config_round_plan_def iteration_cost_ok udiv_def plan_of_def refill_of_def)

lemma check_plan_ok:
  "params_ok p \<Longrightarrow> refill_of emp p * 2 ^ log2_interval p \<le> lp_n p \<Longrightarrow> check_plan (plan_of emp p) p = Inr ()"
  using params_okD(1,3) [of p] by (simp add: check_plan_def udiv_def plan_of_def)

definition lpn_of :: "lpn_parameters \<Rightarrow> lpn_encoder" where
  "lpn_of p = \<lparr>lpn_k = of_nat (lp_k p), lpn_mask = of_nat (lp_k p) - 1\<rparr>"

lemma lpn_new_ok:
  assumes "params_ok p"
  shows "lpn_new (of_nat (lp_k p)) = Inr (lpn_of p)" "lpn_ok LPN_D (lpn_of p) (lp_k p)"
proof -
  have u: "unat (of_nat (lp_k p) :: 32 word) = lp_k p"
    using params_okD(8) [OF assms] by (simp add: unat_of_nat take_bit_nat_eq_self)
  show "lpn_ok LPN_D (lpn_of p) (lp_k p)"
    using params_okD(6,7) [OF assms] unfolding lpn_ok_def LPN_D_def lpn_of_def by (simp only: lpn_encoder.simps u) simp
  show "lpn_new (of_nat (lp_k p)) = Inr (lpn_of p)"
    unfolding lpn_new_def u lpn_of_def using params_okD(6) [OF assms] by (simp only: assertR_simps bindR_simps)
qed

lemma k_bytes: "params_ok p \<Longrightarrow> 8 dvd lp_k p"
proof -
  assume p: "params_ok p"
  obtain m where m: "lp_k p = 2 ^ m" using params_okD(6) [OF p] by (auto simp: is_power_of_two_iff)
  have "(2 :: nat) ^ 4 \<le> 2 ^ m" using params_okD(7) [OF p] m by simp
  then have "4 \<le> m" by (rule power_le_imp_le_exp [rotated]) simp
  then have "3 \<le> m" by simp
  then have "(2 :: nat) ^ 3 dvd 2 ^ m" by (rule le_imp_power_dvd)
  then show ?thesis by (simp add: m)
qed

end
