(* ===== verification/Ferret_Round.thy ===== *)
theory Ferret_Round
  imports Ferret_Correct
begin

text \<open>
  The phases of a round between honest parties, and the first step: completing the bases and choosing
  the parameters, the errors and the coin-toss seed.  What the step lemmas carry along: the parts of
  the buffers (\<open>tail_parts\<close>) and what each party has stored (\<open>started\<close>).
\<close>

section \<open>The phases of a round\<close>

text \<open>What no step of a round touches.\<close>

definition fs_same :: "('c, 'g, 'h) ferret_sender \<Rightarrow> ('c, 'g, 'h) ferret_sender \<Rightarrow> bool" where
  "fs_same s s' \<longleftrightarrow> fs_alloc s' = fs_alloc s \<and> fs_queue s' = fs_queue s \<and> fs_id s' = fs_id s \<and> fs_config s' = fs_config s \<and>
     fs_delta s' = fs_delta s \<and> fs_sid s' = fs_sid s \<and> fs_locked s' = fs_locked s \<and> fs_chans s' = fs_chans s"

definition fr_same :: "('c, 'g, 'n) ferret_receiver \<Rightarrow> ('c, 'g, 'n) ferret_receiver \<Rightarrow> bool" where
  "fr_same r r' \<longleftrightarrow> fr_alloc r' = fr_alloc r \<and> fr_queue r' = fr_queue r \<and> fr_id r' = fr_id r \<and> fr_config r' = fr_config r \<and>
     fr_sid r' = fr_sid r \<and> fr_locked r' = fr_locked r \<and> fr_chans r' = fr_chans r"

lemma same_trans: "fs_same s s1 \<Longrightarrow> fs_same s1 s2 \<Longrightarrow> fs_same s s2" "fr_same r r1 \<Longrightarrow> fr_same r1 r2 \<Longrightarrow> fr_same r r2"
  by (simp_all add: fs_same_def fr_same_def)

definition tree_lengths :: "lpn_parameters \<Rightarrow> nat list" where
  "tree_lengths p = replicate (lp_t p) (log2_interval p)"

definition tree_indices :: "lpn_parameters \<Rightarrow> nat list \<Rightarrow> nat list" where
  "tree_indices p errs = map (\<lambda>ix. ix mod 2 ^ log2_interval p) errs"

text \<open>The parts of the buffers: what is kept, and the groups of the round.\<close>

record 'a tail_parts =
  tp_keep :: "'a list"
  tp_lpn :: "'a list"
  tp_check :: "'a list"
  tp_sp :: "'a list"

definition parts_ok :: "lpn_parameters \<Rightarrow> 'a tail_parts \<Rightarrow> bool" where
  "parts_ok p t \<longleftrightarrow> length (tp_lpn t) = lp_k p \<and> length (tp_check t) = CSP \<and> length (tp_sp t) = spcot_count p"

definition tail_join :: "bool \<Rightarrow> 'a tail_parts \<Rightarrow> 'a list" where
  "tail_join emp t = tp_keep t @ bases emp (tp_lpn t) (tp_check t) @ tp_sp t"

lemma tail_parts_exist:
  assumes "cost_of p \<le> length xs"
  shows "\<exists>t. parts_ok p t \<and> tail_join emp t = xs \<and> length (tp_keep t) = length xs - cost_of p"
proof -
  define n where "n = length xs - cost_of p"
  define b where "b = take (lp_k p + CSP) (drop n xs)"
  let ?t = "\<lparr>tp_keep = take n xs, tp_lpn = (if emp then drop CSP b else take (lp_k p) b),
      tp_check = (if emp then take CSP b else drop (lp_k p) b), tp_sp = drop (n + (lp_k p + CSP)) xs\<rparr>"
  have l: "length b = lp_k p + CSP" using assms by (simp add: b_def n_def cost_of_def)
  have j: "take n xs @ b @ drop (n + (lp_k p + CSP)) xs = xs"
    unfolding b_def by (metis append_take_drop_id drop_drop add.commute)
  have "parts_ok p ?t" using assms l by (auto simp: parts_ok_def n_def cost_of_def)
  moreover have "tail_join emp ?t = xs" using j by (simp add: tail_join_def bases_def)
  moreover have "length (tp_keep ?t) = length xs - cost_of p" by (simp add: n_def)
  ultimately show ?thesis by blast
qed

text \<open>The MACs split like the keys and the choices.\<close>

definition parts_macs :: "block \<Rightarrow> gf2_128 tail_parts \<Rightarrow> bool tail_parts \<Rightarrow> gf2_128 tail_parts" where
  "parts_macs d k c = \<lparr>tp_keep = cot_macs d (tp_keep k) (tp_keep c), tp_lpn = cot_macs d (tp_lpn k) (tp_lpn c),
     tp_check = cot_macs d (tp_check k) (tp_check c), tp_sp = cot_macs d (tp_sp k) (tp_sp c)\<rparr>"

lemma parts_macs_join:
  assumes "parts_ok p k" "parts_ok p c" "length (tp_keep k) = length (tp_keep c)"
  shows "cot_macs d (tail_join emp k) (tail_join emp c) = tail_join emp (parts_macs d k c) \<and> parts_ok p (parts_macs d k c)"
  using assms by (cases emp) (simp_all add: tail_join_def parts_ok_def parts_macs_def bases_def cot_macs_append)

text \<open>After both have started: the sender waits for the receiver's message.\<close>

definition started ::
  "('g, 'n, 'h, 'b) ferret_env \<Rightarrow> lpn_parameters \<Rightarrow> nat list \<Rightarrow> gf2_128 tail_parts \<Rightarrow> bool tail_parts \<Rightarrow> 'n seeds_decommitment \<Rightarrow>
     ('c, 'g, 'h) ferret_sender \<Rightarrow> ('d, 'g, 'n) ferret_receiver \<Rightarrow> 'h receiver_extend \<Rightarrow> bool" where
  "started E p errs k c dc s r m \<longleftrightarrow>
     fs_state s = SExtending p (tree_lengths p) \<and> fs_keys s = tail_join (fe_emp E) k \<and> fs_spcot s = sps_new (fs_delta s) \<and>
     fr_state r = RExtending p errs (tree_lengths p) (tree_indices p errs) \<lparr>sc_seeds = dc_data dc, sc_decommitment = dc\<rparr> \<and>
     fr_macs r = tail_join (fe_emp E) (parts_macs (fs_delta s) k c) \<and> fr_choices r = tp_keep c @ bases (fe_emp E) (tp_lpn c) (tp_check c) \<and>
     fr_spcot r = spr_new \<and> fs_sid s = fr_sid r \<and>
     (\<exists>flip. spr_derandomize (tree_lengths p) (tree_indices p errs) (tp_sp c) = Inr flip \<and> m = (flip, fe_commit E dc))"

text \<open>What the parameters, the errors and the parts must satisfy throughout.\<close>

definition round_ok :: "('g, 'n, 'h, 'b) ferret_env \<Rightarrow> lpn_parameters \<Rightarrow> nat list \<Rightarrow> gf2_128 tail_parts \<Rightarrow> bool tail_parts \<Rightarrow>
    'n seeds_decommitment \<Rightarrow> bool" where
  "round_ok E p errs k c dc \<longleftrightarrow> params_ok p \<and> refill_of (fe_emp E) p * 2 ^ log2_interval p \<le> lp_n p \<and>
     length errs = lp_t p \<and> regular (2 ^ log2_interval p) errs \<and> parts_ok p k \<and> parts_ok p c \<and>
     length (tp_keep k) = length (tp_keep c) \<and> length (dc_data dc) = 1 \<and> (fe_emp E \<longrightarrow> (\<forall>m. 16 \<le> length (fe_sha256 E m)))"

lemma tree_facts:
  assumes "params_ok p" "length errs = lp_t p" "regular (2 ^ log2_interval p) errs"
  shows "\<And>l. l \<in> set (tree_lengths p) \<Longrightarrow> 1 \<le> l \<and> l \<le> 64" "sum_list (tree_lengths p) = spcot_count p" "total_len (tree_lengths p) = lp_n p"
    "list_all2 (\<lambda>x l. x < 2 ^ l) (tree_indices p errs) (tree_lengths p)" "global_positions 0 (tree_lengths p) (tree_indices p errs) = errs"
    "\<And>i. i \<in> set errs \<Longrightarrow> i < lp_n p"
proof -
  show "1 \<le> l \<and> l \<le> 64" if "l \<in> set (tree_lengths p)" for l
    using that params_okD(4,5) [OF assms(1)] by (simp add: tree_lengths_def)
  show "sum_list (tree_lengths p) = spcot_count p" by (simp add: tree_lengths_def spcot_count_def sum_replicate_nat)
  show t: "total_len (tree_lengths p) = lp_n p"
    unfolding tree_lengths_def sum_replicate_nat using params_okD(2) [OF assms(1)] by simp
  show a: "list_all2 (\<lambda>x l. x < 2 ^ l) (tree_indices p errs) (tree_lengths p)"
    using assms(2) by (simp add: tree_indices_def tree_lengths_def list_all2_conv_all_nth)
  show g: "global_positions 0 (tree_lengths p) (tree_indices p errs) = errs"
    using regular_positions [OF assms(3)] assms(2) by (simp add: tree_indices_def tree_lengths_def)
  show "i < lp_n p" if "i \<in> set errs" for i
    using global_positions_range [OF a, of i 0] that unfolding g t by simp
qed

section \<open>Starting\<close>

lemma cot_macs_nil [simp]: "cot_macs d [] cs = []"
  by (simp add: cot_macs_def)

definition base_len :: "bool \<Rightarrow> ('c, 'g, 'h) ferret_sender \<Rightarrow> nat" where
  "base_len emp s = length (fs_keys s) + (if emp then length (fs_next_keys s) else 0)"

text \<open>What holds once the bases are complete, whatever state the machines are in.\<close>

definition based :: "('c, 'g, 'h) ferret_sender \<Rightarrow> ('d, 'g, 'n) ferret_receiver \<Rightarrow> bool" where
  "based s r \<longleftrightarrow> fs_pending s = 0 \<and> fr_pending r = 0 \<and> fs_config s = fr_config r \<and> fs_sid s = fr_sid r \<and>
     fs_spcot s = sps_new (fs_delta s) \<and> fr_spcot r = spr_new \<and>
     length (fr_choices r) = length (fs_keys s) \<and> fr_macs r = cot_macs (fs_delta s) (fs_keys s) (fr_choices r) \<and>
     length (fr_next_choices r) = length (fs_next_keys s) \<and>
     fr_next_macs r = cot_macs (fs_delta s) (fs_next_keys s) (fr_next_choices r)"

lemma begin_round_based:
  assumes "idle_pair (fe_emp E) s r"
  shows "based (fs_begin_round E (s\<lparr>fs_state := SError\<rparr>)) (fr_begin_round E (r\<lparr>fr_state := RError\<rparr>))"
    "length (fs_keys (fs_begin_round E (s\<lparr>fs_state := SError\<rparr>))) = base_len (fe_emp E) s"
    "fs_same s (fs_begin_round E (s\<lparr>fs_state := SError\<rparr>))" "fr_same r (fr_begin_round E (r\<lparr>fr_state := RError\<rparr>))"
    "fs_cot (fs_begin_round E (s\<lparr>fs_state := SError\<rparr>)) = fs_cot s" "fr_cot (fr_begin_round E (r\<lparr>fr_state := RError\<rparr>)) = fr_cot r"
proof -
  show "based (fs_begin_round E (s\<lparr>fs_state := SError\<rparr>)) (fr_begin_round E (r\<lparr>fr_state := RError\<rparr>))"
    using assms unfolding idle_pair_def based_def fs_begin_round_def fr_begin_round_def
    by (cases "fe_emp E") (simp_all add: cot_macs_append)
qed (simp_all add: fs_begin_round_def fr_begin_round_def base_len_def fs_same_def fr_same_def)

lemma fs_available_ok:
  "fs_pending s = 0 \<Longrightarrow> config_ok (fe_emp E) (fs_config s) bc \<Longrightarrow>
    fs_available E s = Inr (length (fs_keys s) - (if fc_reserve_bootstrap (fs_config s) then bc else 0))"
  by (simp add: fs_available_def config_reserve_ok)

lemma fr_available_ok:
  "fr_pending r = 0 \<Longrightarrow> config_ok (fe_emp E) (fr_config r) bc \<Longrightarrow>
    fr_available E r = Inr (length (fr_macs r) - (if fc_reserve_bootstrap (fr_config r) then bc else 0))"
  by (simp add: fr_available_def config_reserve_ok)

text \<open>The receiver's errors are regular in both modes.\<close>

lemma fr_errors_ok:
  assumes "params_ok p" "spcot_count p \<le> length masks"
    and pick: "\<And>a b g. a < b \<Longrightarrow> a \<le> fst (fe_pick E a b g) \<and> fst (fe_pick E a b g) < b"
  shows "\<exists>errs g. fr_errors E masks (tree_lengths p) p r = (Inr (errs, r\<lparr>fr_prg := g\<rparr>) :: ('e, _) result) \<and> length errs = lp_t p \<and>
    regular (2 ^ log2_interval p) errs"
proof (cases "fe_emp E")
  case True
  obtain errs where "spcot_queries_from_choices masks (replicate (lp_t p) (log2_interval p)) (lp_n p) = (Inr errs :: ('e, nat list) result)"
      "length errs = lp_t p" "regular (2 ^ log2_interval p) errs"
    using queries_from_choices_ok [OF assms(1,2), where ?'e = 'e] by blast
  then show ?thesis using True by (intro exI [of _ errs] exI [of _ "fr_prg r"]) (simp add: fr_errors_def tree_lengths_def)
next
  case False
  obtain errs g where "sample_error_indices (fe_pick E) (fr_prg r) (lp_n p) (lp_t p) = (Inr (errs, g) :: ('e, _) result)"
      "length errs = lp_t p" "regular (2 ^ log2_interval p) errs"
    using sample_error_indices_ok [OF assms(1), of "fe_pick E" "fr_prg r", OF pick, where ?'e = 'e] by blast
  then show ?thesis using False by (intro exI [of _ errs] exI [of _ g]) (simp add: fr_errors_def)
qed

lemma fs_bootstrap_idle:
  assumes "config_ok (fe_emp E) (fs_config s) bc" "bc \<le> length (fs_keys s)"
  shows "fs_bootstrap E try_send s = Inr ((), s)"
  using assms by (simp add: fs_bootstrap_def fs_wants_bootstrap_def bootstrap_cost_ok)

lemma fr_bootstrap_idle:
  assumes "config_ok (fe_emp E) (fr_config r) bc" "bc \<le> length (fr_macs r)"
  shows "fr_bootstrap E try_recv r = Inr ((), r)"
  using assms by (simp add: fr_bootstrap_def fr_wants_bootstrap_def bootstrap_cost_ok)

context rcot_pair
begin

lemma bootstrap_pair:
  assumes b: "based s r" and rel: "rel (fs_cot s) (fr_cot r)" "delta_of (fs_cot s) = fs_delta s"
    and cfg: "config_ok (fe_emp E) (fs_config s) bc" and en: "bc - length (fs_keys s) \<le> s_avail (fs_cot s)"
    and lk: "\<not> fs_locked s" "\<not> fr_locked r"
  shows "\<exists>s1 r1. fs_bootstrap E try_send s = Inr ((), s1) \<and> fr_bootstrap E try_recv r = Inr ((), r1) \<and> based s1 r1 \<and>
    fs_same s s1 \<and> fr_same r r1 \<and> rel (fs_cot s1) (fr_cot r1) \<and> delta_of (fs_cot s1) = fs_delta s1 \<and>
    s_avail (fs_cot s1) = s_avail (fs_cot s) - (bc - length (fs_keys s)) \<and> length (fs_keys s1) = max bc (length (fs_keys s)) \<and>
    fs_state s1 = fs_state s \<and> fr_state r1 = fr_state r"
proof (cases "bc \<le> length (fs_keys s)")
  case True
  have "bc \<le> length (fr_macs r)" "config_ok (fe_emp E) (fr_config r) bc" using True b cfg by (simp_all add: based_def)
  then show ?thesis
    using assms True by (intro exI [of _ s] exI [of _ r]) (simp add: fs_bootstrap_idle fr_bootstrap_idle fs_same_def fr_same_def)
next
  case False
  let ?n = "bc - length (fs_keys s)"
  obtain id ks cs ms c' d' where t: "try_send (fs_cot s) ?n = Inr ((id, ks), c')" "try_recv (fr_cot r) ?n = Inr ((id, cs, ms), d')"
    "length ks = ?n" "correlated (delta_of (fs_cot s)) ks cs ms" "rel c' d'" "delta_of c' = delta_of (fs_cot s)"
    "s_avail c' = s_avail (fs_cot s) - ?n"
    using transfer [OF rel(1) en] by blast
  have ms: "length cs = length ks" "map Gf2_128 ms = cot_macs (fs_delta s) (map Gf2_128 ks) cs"
    using t(4) rel(2) by (simp_all add: correlated_iff blocks_cot_macs)
  have lm: "length (fr_macs r) = length (fs_keys s)" "fr_config r = fs_config s" using b by (simp_all add: based_def)
  let ?s1 = "s\<lparr>fs_cot := c', fs_keys := fs_keys s @ map Gf2_128 ks\<rparr>"
  let ?r1 = "r\<lparr>fr_cot := d', fr_macs := fr_macs r @ map Gf2_128 ms, fr_choices := fr_choices r @ cs\<rparr>"
  have "fs_bootstrap E try_send s = Inr ((), ?s1)"
    using False lk by (simp add: fs_bootstrap_def fs_wants_bootstrap_def bootstrap_cost_ok [OF cfg] t(1))
  moreover have "fr_bootstrap E try_recv r = Inr ((), ?r1)"
    using False lk lm by (simp add: fr_bootstrap_def fr_wants_bootstrap_def bootstrap_cost_ok [OF cfg] t(2))
  moreover have "based ?s1 ?r1" using b ms by (simp add: based_def cot_macs_append)
  ultimately show ?thesis
    using t False rel by (intro exI [of _ ?s1] exI [of _ ?r1]) (simp add: fs_same_def fr_same_def)
qed

lemma start_pair:
  assumes idle: "idle_pair (fe_emp E) s r" and rel: "rel (fs_cot s) (fr_cot r)" "delta_of (fs_cot s) = fs_delta s"
    and cfg: "config_ok (fe_emp E) (fs_config s) bc" and en: "bc - base_len (fe_emp E) s \<le> s_avail (fs_cot s)"
    and al: "fs_alloc s = fr_alloc r"
    and pick: "\<And>a b g. a < b \<Longrightarrow> a \<le> fst (fe_pick E a b g) \<and> fst (fe_pick E a b g) < b"
    and sha: "fe_emp E \<Longrightarrow> (\<And>m. 16 \<le> length (fe_sha256 E m))"
  shows "\<exists>p errs k c dc s1 r1 m. fs_start_extend E try_send s = (Inr (), s1) \<and> fr_start_extend E try_recv nonce r = (Inr m, r1) \<and>
    started E p errs k c dc s1 r1 m \<and> round_ok E p errs k c dc \<and> fs_same s s1 \<and> fr_same r r1 \<and>
    rel (fs_cot s1) (fr_cot r1) \<and> delta_of (fs_cot s1) = fs_delta s1 \<and> s_avail (fs_cot s1) = s_avail (fs_cot s) - (bc - base_len (fe_emp E) s) \<and>
    length (tp_keep k) + cost_of p = max bc (base_len (fe_emp E) s) \<and> (\<exists>a m. bc \<le> a \<and> fc_param_selector (fs_config s) a m = Some p) \<and>
    length (fr_next_choices r1) = length (fs_next_keys s1) \<and> fr_next_macs r1 = cot_macs (fs_delta s1) (fs_next_keys s1) (fr_next_choices r1)"
proof -
  note b0 = begin_round_based [OF idle]
  have lk: "\<not> fs_locked (fs_begin_round E (s\<lparr>fs_state := SError\<rparr>))" "\<not> fr_locked (fr_begin_round E (r\<lparr>fr_state := RError\<rparr>))"
    using idle b0(3,4) by (simp_all add: idle_pair_def fs_same_def fr_same_def)
  have f0: "fs_delta (fs_begin_round E (s\<lparr>fs_state := SError\<rparr>)) = fs_delta s" "fs_config (fs_begin_round E (s\<lparr>fs_state := SError\<rparr>)) = fs_config s"
    using b0(3) by (simp_all add: fs_same_def)
  obtain s1 r1 where B: "fs_bootstrap E try_send (fs_begin_round E (s\<lparr>fs_state := SError\<rparr>)) = Inr ((), s1)"
    "fr_bootstrap E try_recv (fr_begin_round E (r\<lparr>fr_state := RError\<rparr>)) = Inr ((), r1)" "based s1 r1"
    "fs_same (fs_begin_round E (s\<lparr>fs_state := SError\<rparr>)) s1" "fr_same (fr_begin_round E (r\<lparr>fr_state := RError\<rparr>)) r1"
    "rel (fs_cot s1) (fr_cot r1)" "delta_of (fs_cot s1) = fs_delta s1" "s_avail (fs_cot s1) = s_avail (fs_cot s) - (bc - base_len (fe_emp E) s)"
    "length (fs_keys s1) = max bc (base_len (fe_emp E) s)"
    using bootstrap_pair [OF b0(1), unfolded b0(2,5,6) f0, OF rel cfg en lk] by blast
  have same: "fs_same s s1" "fr_same r r1" using same_trans b0(3,4) B(4,5) by blast+
  have cfg1: "config_ok (fe_emp E) (fs_config s1) bc" "config_ok (fe_emp E) (fr_config r1) bc" "fr_alloc r1 = fs_alloc s1"
    using cfg same B(3) al by (simp_all add: fs_same_def fr_same_def based_def)
  have ml: "length (fr_macs r1) = length (fs_keys s1)" "fr_config r1 = fs_config s1" using B(3) by (simp_all add: based_def)
  obtain p where p: "fc_param_selector (fs_config s1) (length (fs_keys s1))
      (fs_alloc s1 - (length (fs_keys s1) - (if fc_reserve_bootstrap (fs_config s1) then bc else 0))) = Some p"
    "params_ok p" "cost_of p \<le> length (fs_keys s1)" "refill_of (fe_emp E) p * 2 ^ log2_interval p \<le> lp_n p"
    using cfg1(1) B(9) unfolding config_ok_def by (metis max.cobounded1)
  obtain k where k: "parts_ok p k" "tail_join (fe_emp E) k = fs_keys s1" "length (tp_keep k) = length (fs_keys s1) - cost_of p"
    using tail_parts_exist [OF p(3)] by blast
  have lc: "length (fr_choices r1) = length (fs_keys s1)" using B(3) by (simp add: based_def)
  then obtain c where c: "parts_ok p c" "tail_join (fe_emp E) c = fr_choices r1" "length (tp_keep c) = length (fs_keys s1) - cost_of p"
    using tail_parts_exist [of p "fr_choices r1" "fe_emp E"] p(3) by auto
  have sp: "length (tp_sp c) = spcot_count p" using c(1) by (simp add: parts_ok_def)
  have split: "fr_choices r1 = (tp_keep c @ bases (fe_emp E) (tp_lpn c) (tp_check c)) @ tp_sp c" using c(2) by (simp add: tail_join_def)
  then have dr: "drop (length (fr_choices r1) - spcot_count p) (fr_choices r1) = tp_sp c" "spcot_count p \<le> length (fr_choices r1)"
      "take (length (fr_choices r1) - spcot_count p) (fr_choices r1) = tp_keep c @ bases (fe_emp E) (tp_lpn c) (tp_check c)"
    using sp by (simp_all add: split)
  obtain errs g1 where e: "fr_errors E (tp_sp c) (tree_lengths p) p r1 = (Inr (errs, r1\<lparr>fr_prg := g1\<rparr>) :: ('f ferret_error, _) result)"
    "length errs = lp_t p" "regular (2 ^ log2_interval p) errs"
    using fr_errors_ok [OF p(2), of "tp_sp c" E r1, OF _ pick, where ?'e = "'f ferret_error"] sp by auto
  note tf = tree_facts [OF p(2) e(2,3)]
  have q: "spcot_queries errs (lp_n p) = Inr (tree_lengths p, tree_indices p errs)"
    using spcot_queries_ok [OF p(2) e(2,3)] by (simp add: tree_lengths_def tree_indices_def)
  obtain flip where fl: "spr_derandomize (tree_lengths p) (tree_indices p errs) (tp_sp c) = Inr flip"
    using sp tf(2) e(2) by (auto simp: spr_derandomize_def tree_lengths_def tree_indices_def Let_def)
  obtain x g2 where x: "fe_rng E g1 = (x, g2)" by fastforce
  let ?dc = "\<lparr>dc_nonce = nonce, dc_data = [x]\<rparr>"
  let ?s = "s1\<lparr>fs_state := SExtending p (tree_lengths p)\<rparr>"
  let ?r = "r1\<lparr>fr_prg := g2, fr_choices := tp_keep c @ bases (fe_emp E) (tp_lpn c) (tp_check c),
      fr_state := RExtending p errs (tree_lengths p) (tree_indices p errs) \<lparr>sc_seeds = [x], sc_decommitment = ?dc\<rparr>\<rparr>"
  have pend: "fs_pending s1 = 0" "fr_pending r1 = 0" using B(3) by (simp_all add: based_def)
  have ss: "fs_start_extend E try_send s = (Inr (), ?s)"
    using idle p(1) cfg1(1)
    by (simp add: fs_start_extend_def fs_take_def idle_pair_def B(1) fs_available_ok [OF pend(1) cfg1(1)] select_params_def
        spcot_lengths_ok [OF p(2)] tree_lengths_def)
  have rr: "fr_start_extend E try_recv nonce r = (Inr (flip, fe_commit E ?dc), ?r)"
    using idle p(1) cfg1 tf(2) dr
    by (simp add: fr_start_extend_def fr_take_def idle_pair_def B(2) fr_available_ok [OF pend(2) cfg1(2)] select_params_def ml
        spcot_lengths_ok [OF p(2)] tree_lengths_def [symmetric] e(1) q fl x sender_send_def hash_commit_def new_with_nonce_def dc_commit_def Let_def)
  have mj: "fr_macs r1 = tail_join (fe_emp E) (parts_macs (fs_delta s1) k c)"
    using parts_macs_join [OF k(1) c(1), of "fs_delta s1" "fe_emp E"] k c B(3) by (simp add: based_def)
  have "started E p errs k c ?dc ?s ?r (flip, fe_commit E ?dc)"
    using B(3) k(2) fl mj by (simp add: started_def based_def)
  moreover have "round_ok E p errs k c ?dc"
    using p e k c sha by (simp add: round_ok_def)
  moreover have "fs_same s ?s" "fr_same r ?r" using same by (simp_all add: fs_same_def fr_same_def)
  moreover have "length (tp_keep k) + cost_of p = max bc (base_len (fe_emp E) s)" using k(3) p(3) B(9) by simp
  moreover have "\<exists>a m. bc \<le> a \<and> fc_param_selector (fs_config s) a m = Some p"
    using p(1) B(9) same(1) by (metis fs_same_def max.cobounded1)
  moreover have "length (fr_next_choices ?r) = length (fs_next_keys ?s)" "fr_next_macs ?r = cot_macs (fs_delta ?s) (fs_next_keys ?s) (fr_next_choices ?r)"
    using B(3) by (simp_all add: based_def)
  moreover have "rel (fs_cot ?s) (fr_cot ?r)" "delta_of (fs_cot ?s) = fs_delta ?s"
      "s_avail (fs_cot ?s) = s_avail (fs_cot s) - (bc - base_len (fe_emp E) s)" using B by simp_all
  ultimately show ?thesis using ss rr by blast
qed

end

end
