(* ===== verification/Ferret_Extend.thy ===== *)
theory Ferret_Extend
  imports Ferret_Round
begin

text \<open>The later steps of a round: the extension, the check, the finish and the requests served.\<close>

section \<open>Extending\<close>

definition compat_seed :: "(byte list \<Rightarrow> byte list) \<Rightarrow> block \<Rightarrow> block" where
  "compat_seed sha256 sid = from_le_bytes (take 16 (sha256 (compat_frame (compat_frame [] 1 (map of_char LPN_SEED_DOMAIN)) 3 (to_le_bytes sid))))"

lemma compat_lpn_seed_ok: "(\<And>m. 16 \<le> length (sha m)) \<Longrightarrow> compat_lpn_seed sha sid = Inr (compat_seed sha sid)"
  by (simp add: compat_lpn_seed_def compat_seed_def subslice_def Let_def)

text \<open>What the later steps leave alone.\<close>

definition fs_kept :: "('c, 'g, 'h) ferret_sender \<Rightarrow> ('c, 'g, 'h) ferret_sender \<Rightarrow> bool" where
  "fs_kept s s' \<longleftrightarrow> fs_same s s' \<and> fs_cot s' = fs_cot s \<and> fs_next_keys s' = fs_next_keys s"

definition fr_kept :: "('c, 'g, 'n) ferret_receiver \<Rightarrow> ('c, 'g, 'n) ferret_receiver \<Rightarrow> bool" where
  "fr_kept r r' \<longleftrightarrow> fr_same r r' \<and> fr_cot r' = fr_cot r \<and> fr_next_macs r' = fr_next_macs r \<and> fr_next_choices r' = fr_next_choices r"

definition error_bits :: "nat \<Rightarrow> nat list \<Rightarrow> bool list" where
  "error_bits n errs = map (\<lambda>i. i \<in> set errs) [0..<n]"

text \<open>
  After both have extended: the buffers end in the noise, the sender's vector and the receiver's
  MACs of the error bits under it, and what the receiver has announced will pass the check.
\<close>

definition extended ::
  "('g, 'n, 'h, 'b) ferret_env \<Rightarrow> lpn_parameters \<Rightarrow> nat list \<Rightarrow> gf2_128 tail_parts \<Rightarrow> bool tail_parts \<Rightarrow> block \<Rightarrow> gf2_128 list \<Rightarrow>
     ('c, 'g, 'h) ferret_sender \<Rightarrow> ('d, 'g, 'n) ferret_receiver \<Rightarrow> 'n receiver_check \<Rightarrow> bool" where
  "extended E p errs k c seed vs s r m \<longleftrightarrow> (\<exists>x dc flip chi_seed V. m = (flip, chi_seed, dc) \<and>
     fs_state s = SCheck p (tp_check k) (tp_lpn k) \<lparr>rr_seeds = [x], rr_commitment = fe_commit E dc\<rparr> \<and>
     length (dc_data dc) = 1 \<and> seed = (if fe_emp E then compat_seed (fe_sha256 E) (fs_sid s) else hd (dc_data dc) XOR x) \<and>
     fr_state r = RFinish p errs (cot_macs (fs_delta s) (tp_lpn k) (tp_lpn c)) seed \<and> length vs = lp_n p \<and>
     fs_keys s = tp_keep k @ vs \<and> fs_pending s = lp_n p \<and> fr_pending r = lp_n p \<and>
     fr_choices r = tp_keep c @ tp_lpn c \<and>
     fr_macs r = cot_macs (fs_delta s) (tp_keep k) (tp_keep c) @ cot_macs (fs_delta s) vs (error_bits (lp_n p) errs) \<and>
     sps_check (fe_enc E) (fe_rayon E) (fe_hash E) (fs_spcot s) (tp_check k) flip vs chi_seed = Inr (fe_hash E V, sps_new (fs_delta s)) \<and>
     spr_check (fe_hash E) (fr_spcot r) (fe_hash E V) = (Inr (), spr_new))"

text \<open>The single-point COTs of a round, from fresh state to a check that passes.\<close>

lemma trees_pair:
  assumes p: "params_ok p" "length errs = lp_t p" "regular (2 ^ log2_interval p) errs" and emp: "emp \<longrightarrow> bit d 0"
    and len: "length ks = spcot_count p" "length cs = spcot_count p" "length cks = CSP" "length ccs = CSP"
    and fl: "spr_derandomize (tree_lengths p) (tree_indices p errs) cs = Inr flip"
  shows "\<exists>sums vs g1 s1 r1. sps_extend aes emp rng g (sps_new d) (tree_lengths p) ks flip (replicate (lp_n p) 0) = Inr (sums, vs, g1, s1) \<and>
    length vs = lp_n p \<and>
    spr_extend aes emp spr_new (tree_lengths p) (tree_indices p errs) (cot_macs d ks cs) sums (replicate (lp_n p) 0) =
      Inr (cot_macs d vs (error_bits (lp_n p) errs), r1) \<and>
    (\<exists>flip' seed g2 r2 V. spr_start_check enc rayon rng' g' r1 (cot_macs d cks ccs) ccs (cot_macs d vs (error_bits (lp_n p) errs)) = Inr ((flip', seed), g2, r2) \<and>
      sps_check enc rayon' hash s1 cks flip' vs seed = Inr (hash V, sps_new d) \<and> spr_check hash r2 (hash V) = (Inr (), spr_new))"
proof -
  note tf = tree_facts [OF p]
  have b: "length (replicate (lp_n p) (0 :: gf2_128)) = total_len (tree_lengths p)" using tf(3) by simp
  obtain sums vs g1 ws where X: "sps_extend aes emp rng g (sps_new d) (tree_lengths p) ks flip (replicate (lp_n p) 0) =
      Inr (sums, vs, g1, (sps_new d)\<lparr>sp_pending := lp_n p\<rparr>)"
    "spr_extend aes emp spr_new (tree_lengths p) (tree_indices p errs) (cot_macs d ks cs) sums (replicate (lp_n p) 0) =
      Inr (ws, spr_new\<lparr>sp_lengths := tree_lengths p, sp_indices := tree_indices p errs\<rparr>)"
    "spcot_inv ((sps_new d)\<lparr>sp_pending := lp_n p\<rparr>) (spr_new\<lparr>sp_lengths := tree_lengths p, sp_indices := tree_indices p errs\<rparr>) vs ws"
    using spcot_extend_step [OF spcot_inv_new tf(1,4), of ks cs "replicate (lp_n p) 0" "replicate (lp_n p) 0" emp d aes rng g]
      len tf(2,3) emp fl by (auto simp: sps_new_def spr_new_def)
  let ?s = "(sps_new d)\<lparr>sp_pending := lp_n p\<rparr>" and ?r = "spr_new\<lparr>sp_lengths := tree_lengths p, sp_indices := tree_indices p errs\<rparr>"
  have inv: "list_all2 (\<lambda>x l. x < 2 ^ l) (sp_indices ?r) (sp_lengths ?r)" "length vs = total_len (sp_lengths ?r)"
    "sp_pending ?s = total_len (sp_lengths ?r)" "sp_check ?r = None"
    "ws = offset_at 0 (Gf2_128 (sp_delta ?s)) (global_positions 0 (sp_lengths ?r) (sp_indices ?r)) vs"
    using X(3) unfolding spcot_inv_def by simp_all
  have v: "length vs = lp_n p" using inv(2) tf(3) by (simp add: spr_new_def)
  have ws: "ws = cot_macs d vs (error_bits (lp_n p) errs)"
    using inv(5) tf(5) v by (simp add: error_bits_def offset_at_macs sps_new_def spr_new_def)
  have f: "length ws = total_len (sp_lengths ?r)" "length cks = 128" "length ccs = 128"
    "sp_delta ?s = d" "?s\<lparr>sp_pending := 0\<rparr> = sps_new d" "?r\<lparr>sp_lengths := [], sp_indices := []\<rparr> = spr_new"
    using inv(2) v len by (simp_all add: ws error_bits_def sps_new_def spr_new_def CSP_def)
  have "\<exists>flip' seed g2 r2 V. spr_start_check enc rayon rng' g' ?r (cot_macs d cks ccs) ccs ws = Inr ((flip', seed), g2, r2) \<and>
      sps_check enc rayon' hash ?s cks flip' vs seed = Inr (hash V, sps_new d) \<and> spr_check hash r2 (hash V) = (Inr (), spr_new)"
    using spcot_check_step [OF inv(4,1,2) f(1) inv(3) f(2,3), of enc rayon rng' g' rayon' hash, folded inv(5), unfolded f(4-6)]
    by metis
  then show ?thesis using X(1,2) v unfolding ws by metis
qed


lemma parts_okD:
  assumes "params_ok p" "parts_ok p t"
  shows "length (tp_sp t) = spcot_count p" "length (tp_check t) = CSP" "length (tp_lpn t) = lp_k p" "0 < length (tp_lpn t)"
    "0 < length (tp_check t)" "length (tail_join emp t) = length (tp_keep t) + cost_of p" "lp_k p \<noteq> 0"
  using assms params_okD(7) [OF assms(1)] by (auto simp: parts_ok_def tail_join_def bases_def cost_of_def CSP_def)

lemma tail_join_split:
  assumes "params_ok p" "parts_ok p t"
  shows "tail_split (round_plan_tail emp (plan_of emp p) (spcot_count p)) (tail_join emp t) = Inr ((tp_sp t, tp_check t, tp_lpn t), tp_keep t)"
  using tail_split_ok [of "plan_of emp p" "tp_lpn t" "tp_check t" emp "tp_sp t" "tp_keep t"] parts_okD [OF assms]
  by (simp add: plan_of_def tail_join_def)

lemma check_masks_split:
  assumes "params_ok p" "parts_ok p t"
  shows "take_check_masks (round_plan_tail emp (plan_of emp p) (spcot_count p)) (tp_keep t @ bases emp (tp_lpn t) (tp_check t)) =
      Inr (tp_check t, tp_keep t @ tp_lpn t)"
  using take_check_masks_ok [of "plan_of emp p" "tp_lpn t" "tp_check t"] parts_okD [OF assms] by (simp add: plan_of_def)

lemma fs_extend_ok:
  assumes p: "params_ok p" "refill_of (fe_emp E) p * 2 ^ log2_interval p \<le> lp_n p" "parts_ok p k"
    and s: "fs_state s = SExtending p (tree_lengths p)" "fs_keys s = tail_join (fe_emp E) k"
    and x: "sps_extend (fe_aes E) (fe_emp E) (fe_seed E) (fs_prg s) (fs_spcot s) (tree_lengths p) (tp_sp k) flip (replicate (lp_n p) 0) =
      Inr (sums, vs, g1, sp1)" "fe_rng E g1 = (x, g2)"
  shows "fs_extend E (flip, com) s = (Inr (sums, [x]), s\<lparr>fs_keys := tp_keep k @ vs, fs_pending := lp_n p, fs_prg := g2, fs_spcot := sp1,
    fs_state := SCheck p (tp_check k) (tp_lpn k) \<lparr>rr_seeds = [x], rr_commitment = com\<rparr>\<rparr>)"
proof -
  have t: "sum_list (tree_lengths p) = spcot_count p" by (simp add: tree_lengths_def spcot_count_def sum_replicate_nat)
  have c: "rp_cost (plan_of emp p) = cost_of p" for emp by (simp add: plan_of_def)
  show ?thesis
    using parts_okD(6) [OF p(1,3), of "fe_emp E"] x
    by (simp add: tail_join_split [OF p(1,3)] fs_extend_def fs_take_def s Let_def t c config_round_plan_ok [OF p(1,2)] check_plan_ok [OF p(1,2)] receiver_reveal_def)
qed

lemma fr_extend_ok:
  assumes p: "params_ok p" "refill_of (fe_emp E) p * 2 ^ log2_interval p \<le> lp_n p" "parts_ok p k" "parts_ok p c"
    and r: "fr_state r = RExtending p errs (tree_lengths p) (tree_indices p errs) \<lparr>sc_seeds = [y], sc_decommitment = dc\<rparr>"
      "fr_macs r = tail_join (fe_emp E) k" "fr_choices r = tp_keep c @ bases (fe_emp E) (tp_lpn c) (tp_check c)"
    and sd: "seed = (if fe_emp E then compat_seed (fe_sha256 E) (fr_sid r) else y XOR x)" "fe_emp E \<Longrightarrow> (\<And>m. 16 \<le> length (fe_sha256 E m))"
    and x: "spr_extend (fe_aes E) (fe_emp E) (fr_spcot r) (tree_lengths p) (tree_indices p errs) (tp_sp k) sums (replicate (lp_n p) 0) = Inr (ws, sp1)"
      "spr_start_check (fe_enc E) (fe_rayon E) (fe_rng E) (fr_prg r) sp1 (tp_check k) (tp_check c) ws = Inr ((flip, chi_seed), g1, sp2)"
  shows "fr_extend E (sums, [x]) r = (Inr (flip, chi_seed, dc) :: ('ce ferret_error, _) result, r\<lparr>fr_macs := tp_keep k @ ws, fr_choices := tp_keep c @ tp_lpn c,
    fr_pending := lp_n p, fr_prg := g1, fr_spcot := sp2, fr_state := RFinish p errs (tp_lpn k) seed\<rparr>)"
proof -
  have t: "sum_list (tree_lengths p) = spcot_count p" by (simp add: tree_lengths_def spcot_count_def sum_replicate_nat)
  have c: "rp_cost (plan_of emp p) = cost_of p" for emp by (simp add: plan_of_def)
  have l: "fe_emp E \<Longrightarrow> compat_lpn_seed (fe_sha256 E) (fr_sid r) = (Inr seed :: ('ce ferret_error, block) result)"
      "\<not> fe_emp E \<Longrightarrow> y XOR x = seed"
    using sd by (simp_all add: compat_lpn_seed_ok)
  note ok = fr_extend_def fr_take_def r Let_def t c sender_receive_def sender_finalize_def tail_join_split [OF p(1,3)] check_masks_split [OF p(1,4)]
    config_round_plan_ok [OF p(1)] check_plan_ok [OF p(1)]
  show ?thesis
    using parts_okD(6) [OF p(1,3), of "fe_emp E"] x p(2) l by (cases "fe_emp E") (simp_all add: ok)
qed

lemma extend_pair:
  assumes st: "started E p errs k c dc s r m" and ok: "round_ok E p errs k c dc" and low: "fe_emp E \<Longrightarrow> bit (fs_delta s) 0"
  shows "\<exists>s1 r1 m1 m2 seed vs. fs_extend E m s = (Inr m1 :: ('a ferret_error, _) result, s1) \<and> fr_extend E m1 r = (Inr m2 :: ('b ferret_error, _) result, r1) \<and>
    extended E p errs k c seed vs s1 r1 m2 \<and> fs_kept s s1 \<and> fr_kept r r1"
proof -
  note p = ok [unfolded round_ok_def]
  obtain y where y: "dc_data dc = [y]" using p by (auto simp: length_Suc_conv)
  obtain flip where m: "m = (flip, fe_commit E dc)" "spr_derandomize (tree_lengths p) (tree_indices p errs) (tp_sp c) = Inr flip"
    using st by (auto simp: started_def)
  have ln: "length (tp_sp k) = spcot_count p" "length (tp_sp c) = spcot_count p" "length (tp_check k) = CSP" "length (tp_check c) = CSP"
    using p by (simp_all add: parts_ok_def)
  have pp: "params_ok p" "length errs = lp_t p" "regular (2 ^ log2_interval p) errs" using p by simp_all
  let ?d = "fs_delta s" and ?eb = "error_bits (lp_n p) errs"
  have lw: "fe_emp E \<longrightarrow> bit ?d 0" using low by blast
  obtain sums vs g1 sp1 rp1 flip' seed' g3 rp2 V where T: "sps_extend (fe_aes E) (fe_emp E) (fe_seed E) (fs_prg s) (sps_new ?d) (tree_lengths p) (tp_sp k) flip (replicate (lp_n p) 0) =
      Inr (sums, vs, g1, sp1)" "length vs = lp_n p"
    "spr_extend (fe_aes E) (fe_emp E) spr_new (tree_lengths p) (tree_indices p errs) (cot_macs ?d (tp_sp k) (tp_sp c)) sums (replicate (lp_n p) 0) =
      Inr (cot_macs ?d vs ?eb, rp1)"
    and C: "spr_start_check (fe_enc E) (fe_rayon E) (fe_rng E) (fr_prg r) rp1 (cot_macs ?d (tp_check k) (tp_check c)) (tp_check c) (cot_macs ?d vs ?eb) = Inr ((flip', seed'), g3, rp2)"
      "sps_check (fe_enc E) (fe_rayon E) (fe_hash E) sp1 (tp_check k) flip' vs seed' = Inr (fe_hash E V, sps_new ?d)"
      "spr_check (fe_hash E) rp2 (fe_hash E V) = (Inr (), spr_new)"
    using trees_pair [where emp = "fe_emp E" and aes = "fe_aes E" and rng = "fe_seed E" and g = "fs_prg s" and enc = "fe_enc E" and hash = "fe_hash E"
        and rayon = "fe_rayon E" and rayon' = "fe_rayon E" and rng' = "fe_rng E" and g' = "fr_prg r", OF pp lw ln(1-4) m(2)] by (elim exE conjE) (rule that)
  obtain x g2 where x: "fe_rng E g1 = (x, g2)" by fastforce
  have kc: "parts_ok p (parts_macs ?d k c)" using parts_macs_join [of p k c ?d "fe_emp E"] p by simp
  note S = started_def [of E p errs k c dc s r m, THEN iffD1, OF st]
  define seed where "seed = (if fe_emp E then compat_seed (fe_sha256 E) (fr_sid r) else y XOR x)"
  let ?s = "s\<lparr>fs_keys := tp_keep k @ vs, fs_pending := lp_n p, fs_prg := g2, fs_spcot := sp1,
    fs_state := SCheck p (tp_check k) (tp_lpn k) \<lparr>rr_seeds = [x], rr_commitment = fe_commit E dc\<rparr>\<rparr>"
  let ?r = "r\<lparr>fr_macs := cot_macs ?d (tp_keep k) (tp_keep c) @ cot_macs ?d vs ?eb, fr_choices := tp_keep c @ tp_lpn c,
    fr_pending := lp_n p, fr_prg := g3, fr_spcot := rp2, fr_state := RFinish p errs (cot_macs ?d (tp_lpn k) (tp_lpn c)) seed\<rparr>"
  have "fs_extend E m s = (Inr (sums, [x]) :: ('a ferret_error, _) result, ?s)"
    unfolding m(1) by (rule fs_extend_ok [OF _ _ _ _ _ _ x]) (use p S T(1) in simp_all)
  moreover have "fr_extend E (sums, [x]) r = (Inr (flip', seed', dc) :: ('b ferret_error, _) result, ?r)"
    using fr_extend_ok [of p E "parts_macs ?d k c" c r errs y dc seed x sums "cot_macs ?d vs ?eb" rp1 flip' seed' g3 rp2] p S T(3) C(1) kc y
    by (simp add: seed_def parts_macs_def)
  moreover have "extended E p errs k c seed vs ?s ?r (flip', seed', dc)"
    unfolding extended_def
    by (rule exI [of _ x], rule exI [of _ dc], rule exI [of _ flip'], rule exI [of _ seed'], rule exI [of _ V])
      (use S C T(2) y in \<open>simp add: seed_def\<close>)
  moreover have "fs_kept s ?s" "fr_kept r ?r" by (simp_all add: fs_kept_def fr_kept_def fs_same_def fr_same_def)
  ultimately show ?thesis by blast
qed


section \<open>Checking\<close>

definition checked ::
  "('g, 'n, 'h, 'b) ferret_env \<Rightarrow> lpn_parameters \<Rightarrow> nat list \<Rightarrow> gf2_128 tail_parts \<Rightarrow> bool tail_parts \<Rightarrow> block \<Rightarrow> gf2_128 list \<Rightarrow>
     ('c, 'g, 'h) ferret_sender \<Rightarrow> ('d, 'g, 'n) ferret_receiver \<Rightarrow> 'b sender_check \<Rightarrow> bool" where
  "checked E p errs k c seed vs s r h \<longleftrightarrow>
     fs_state s = SFinish p (tp_lpn k) seed \<and> fr_state r = RFinish p errs (cot_macs (fs_delta s) (tp_lpn k) (tp_lpn c)) seed \<and>
     length vs = lp_n p \<and> fs_keys s = tp_keep k @ vs \<and> fr_choices r = tp_keep c @ tp_lpn c \<and>
     fr_macs r = cot_macs (fs_delta s) (tp_keep k) (tp_keep c) @ cot_macs (fs_delta s) vs (error_bits (lp_n p) errs) \<and>
     fs_spcot s = sps_new (fs_delta s) \<and> spr_check (fe_hash E) (fr_spcot r) h = (Inr (), spr_new)"

lemma check_pair:
  assumes st: "extended E p errs k c seed vs s r m" and ok: "round_ok E p errs k c dc"
  shows "\<exists>s1 h. fs_check E m s = (Inr h :: ('a ferret_error, _) result, s1) \<and> checked E p errs k c seed vs s1 r h \<and> fs_kept s s1"
proof -
  obtain x dc' flip chi_seed V where m: "m = (flip, chi_seed, dc')"
    and S: "fs_state s = SCheck p (tp_check k) (tp_lpn k) \<lparr>rr_seeds = [x], rr_commitment = fe_commit E dc'\<rparr>" "length (dc_data dc') = 1"
      "seed = (if fe_emp E then compat_seed (fe_sha256 E) (fs_sid s) else hd (dc_data dc') XOR x)"
    and V: "sps_check (fe_enc E) (fe_rayon E) (fe_hash E) (fs_spcot s) (tp_check k) flip vs chi_seed = Inr (fe_hash E V, sps_new (fs_delta s))"
      "spr_check (fe_hash E) (fr_spcot r) (fe_hash E V) = (Inr (), spr_new)"
    and R: "fr_state r = RFinish p errs (cot_macs (fs_delta s) (tp_lpn k) (tp_lpn c)) seed" "length vs = lp_n p" "fs_keys s = tp_keep k @ vs"
      "fr_choices r = tp_keep c @ tp_lpn c"
      "fr_macs r = cot_macs (fs_delta s) (tp_keep k) (tp_keep c) @ cot_macs (fs_delta s) vs (error_bits (lp_n p) errs)"
    using st unfolding extended_def by blast
  obtain y where y: "dc_data dc' = [y]" using S(2) by (auto simp: length_Suc_conv)
  have rf: "receiver_finalize (fe_commit E) \<lparr>rr_seeds = [x], rr_commitment = fe_commit E dc'\<rparr> dc' = Inr [y XOR x]"
    by (simp add: receiver_finalize_def dc_verify_def dc_commit_def y xor.commute)
  have sha: "fe_emp E \<Longrightarrow> (\<And>m. 16 \<le> length (fe_sha256 E m))" using ok by (simp add: round_ok_def)
  have l: "fe_emp E \<Longrightarrow> compat_lpn_seed (fe_sha256 E) (fs_sid s) = (Inr seed :: ('a ferret_error, block) result)"
      "\<not> fe_emp E \<Longrightarrow> y XOR x = seed"
    using S(3) y by (simp_all add: compat_lpn_seed_ok sha)
  let ?s = "s\<lparr>fs_spcot := sps_new (fs_delta s), fs_state := SFinish p (tp_lpn k) seed\<rparr>"
  have "fs_check E m s = (Inr (fe_hash E V) :: ('a ferret_error, _) result, ?s)"
    using l V R by (cases "fe_emp E") (simp_all add: m fs_check_def fs_take_def S(1) rf)
  moreover have "checked E p errs k c seed vs ?s r (fe_hash E V)" using V R by (simp add: checked_def)
  moreover have "fs_kept s ?s" by (simp add: fs_kept_def fs_same_def)
  ultimately show ?thesis by blast
qed

section \<open>Serving the requests\<close>

text \<open>Correlated buffers outside a round.\<close>

definition buffered :: "('c, 'g, 'h) ferret_sender \<Rightarrow> ('d, 'g, 'n) ferret_receiver \<Rightarrow> bool" where
  "buffered s r \<longleftrightarrow> fs_pending s = 0 \<and> fr_pending r = 0 \<and> fs_config s = fr_config r \<and> length (fr_choices r) = length (fs_keys s) \<and>
     fr_macs r = cot_macs (fs_delta s) (fs_keys s) (fr_choices r)"

text \<open>What serving a queue leaves alone.\<close>

definition fs_rest :: "('c, 'g, 'h) ferret_sender \<Rightarrow> ('c, 'g, 'h) ferret_sender \<Rightarrow> bool" where
  "fs_rest s s' \<longleftrightarrow> s' = s\<lparr>fs_queue := fs_queue s', fs_id := fs_id s', fs_keys := fs_keys s'\<rparr>"

definition fr_rest :: "('c, 'g, 'n) ferret_receiver \<Rightarrow> ('c, 'g, 'n) ferret_receiver \<Rightarrow> bool" where
  "fr_rest r r' \<longleftrightarrow> r' = r\<lparr>fr_queue := fr_queue r', fr_id := fr_id r', fr_macs := fr_macs r', fr_choices := fr_choices r'\<rparr>"

text \<open>The outputs of one request at the two ends.\<close>

definition served :: "block \<Rightarrow> nat \<times> sender_output \<Rightarrow> nat \<times> receiver_output \<Rightarrow> bool" where
  "served d = (\<lambda>(_, (id, keys)) (_, (id', choices, macs)). id = id' \<and> correlated d keys choices macs)"

lemma split_off_pair:
  assumes b: "buffered s r" and n: "n \<le> length (fs_keys s)"
  shows "\<exists>ks cs ms. split_off_blocks (fs_keys s) n = (Inr (ks, take (length (fs_keys s) - n) (fs_keys s)) :: ('a, _) result) \<and>
    split_off (fr_choices r) (length (fs_keys s) - n) = (Inr (take (length (fs_keys s) - n) (fr_choices r), cs) :: ('b, _) result) \<and>
    split_off_blocks (fr_macs r) n = (Inr (ms, take (length (fs_keys s) - n) (fr_macs r)) :: ('b, _) result) \<and>
    length ks = n \<and> correlated (fs_delta s) ks cs ms \<and>
    buffered (s\<lparr>fs_keys := take (length (fs_keys s) - n) (fs_keys s)\<rparr>)
      (r\<lparr>fr_macs := take (length (fs_keys s) - n) (fr_macs r), fr_choices := take (length (fs_keys s) - n) (fr_choices r)\<rparr>)"
proof -
  let ?m = "length (fs_keys s) - n"
  have "correlated (fs_delta s) (map gf128_inner (drop ?m (fs_keys s))) (drop ?m (fr_choices r)) (map gf128_inner (drop ?m (fr_macs r)))"
    using b n by (simp add: correlated_iff buffered_def cot_macs_take_drop cot_macs_blocks)
  then show ?thesis using b n
    by (intro exI [of _ "map gf128_inner (drop ?m (fs_keys s))"] exI [of _ "drop ?m (fr_choices r)"] exI [of _ "map gf128_inner (drop ?m (fr_macs r))"])
      (simp add: split_off_blocks_def split_off_def buffered_def cot_macs_take_drop)
qed


lemma rest_trans: "fs_rest s s1 \<Longrightarrow> fs_rest s1 s2 \<Longrightarrow> fs_rest s s2" "fr_rest r r1 \<Longrightarrow> fr_rest r1 r2 \<Longrightarrow> fr_rest r r2"
  by (cases s; cases s1; cases s2; simp add: fs_rest_def) (cases r; cases r1; cases r2; simp add: fr_rest_def)

lemma rest_upd:
  "fs_rest s (s\<lparr>fs_queue := q\<rparr>)" "fr_rest r (r\<lparr>fr_queue := q\<rparr>)"
  "fs_rest s (s\<lparr>fs_id := i, fs_keys := ks\<rparr>)" "fr_rest r (r\<lparr>fr_id := i, fr_macs := ms, fr_choices := cs\<rparr>)"
proof -
  show "fs_rest s (s\<lparr>fs_queue := q\<rparr>)" "fs_rest s (s\<lparr>fs_id := i, fs_keys := ks\<rparr>)" by (cases s; simp add: fs_rest_def)+
  show "fr_rest r (r\<lparr>fr_queue := q\<rparr>)" "fr_rest r (r\<lparr>fr_id := i, fr_macs := ms, fr_choices := cs\<rparr>)" by (cases r; simp add: fr_rest_def)+
qed

lemma fs_restD: "fs_rest s s' \<Longrightarrow> fs_cot s' = fs_cot s \<and> fs_locked s' = fs_locked s \<and> fs_alloc s' = fs_alloc s \<and> fs_delta s' = fs_delta s \<and>
    fs_config s' = fs_config s \<and> fs_state s' = fs_state s \<and> fs_spcot s' = fs_spcot s \<and> fs_sid s' = fs_sid s \<and> fs_next_keys s' = fs_next_keys s \<and> fs_pending s' = fs_pending s"
  by (cases s; cases s'; simp add: fs_rest_def)

lemma fr_restD: "fr_rest r r' \<Longrightarrow> fr_cot r' = fr_cot r \<and> fr_locked r' = fr_locked r \<and> fr_alloc r' = fr_alloc r \<and>
    fr_config r' = fr_config r \<and> fr_state r' = fr_state r \<and> fr_spcot r' = fr_spcot r \<and> fr_sid r' = fr_sid r \<and>
    fr_next_macs r' = fr_next_macs r \<and> fr_next_choices r' = fr_next_choices r \<and> fr_pending r' = fr_pending r"
  by (cases r; cases r'; simp add: fr_rest_def)

text \<open>Each output goes to the channel of its request, in order, and has the size requested; the rest stay queued.\<close>

definition serves :: "(nat \<times> nat) list \<Rightarrow> (nat \<times> sender_output) list \<Rightarrow> (nat \<times> nat) list \<Rightarrow> bool" where
  "serves q outs left \<longleftrightarrow> q = map (\<lambda>(ch, (_, keys)). (length keys, ch)) outs @ left"

lemma queue_pair:
  assumes "buffered s r" "map fst q = map fst q'" "fs_id s = fr_id r" "config_ok (fe_emp E) (fs_config s) bc"
  shows "\<exists>outs s1 outs' r1. fs_process_queue E q s = (Inr (outs, s1) :: ('a, _) result) \<and>
    fr_process_queue E q' r = (Inr (outs', r1) :: ('b, _) result) \<and>
    list_all2 (served (fs_delta s)) outs outs' \<and> serves q outs (fs_queue s1) \<and> map snd q' = map fst outs' @ map snd (fr_queue r1) \<and>
    buffered s1 r1 \<and> fs_id s1 = fr_id r1 \<and> map fst (fs_queue s1) = map fst (fr_queue r1) \<and> fs_rest s s1 \<and> fr_rest r r1 \<and>
    length (fs_keys s1) + sum_list (map (\<lambda>(ch, (_, keys)). length keys) outs) = length (fs_keys s) \<and>
    (sum_list (map fst q) \<le> length (fs_keys s) - (if fc_reserve_bootstrap (fs_config s) then bc else 0) \<longrightarrow> fs_queue s1 = [])"
  using assms
proof (induction q arbitrary: q' s r)
  case Nil
  then show ?case by (auto simp: serves_def buffered_def rest_upd)
next
  case (Cons e q)
  obtain n ch where e: "e = (n, ch)" by fastforce
  obtain ch' q2 where q': "q' = (n, ch') # q2" "map fst q = map fst q2" using Cons.prems(2) by (cases q') (auto simp: e)
  let ?rv = "if fc_reserve_bootstrap (fs_config s) then bc else 0"
  have av: "fs_available E s = (Inr (length (fs_keys s) - ?rv) :: ('a, _) result)" "fr_available E r = (Inr (length (fs_keys s) - ?rv) :: ('b, _) result)"
    using Cons.prems(1,4) by (simp_all add: buffered_def fs_available_ok fr_available_ok)
  show ?case
  proof (cases "length (fs_keys s) - ?rv < n")
    case True
    then show ?thesis using Cons.prems by (simp add: av e q' serves_def buffered_def rest_upd)
  next
    case False
    then have n: "n \<le> length (fs_keys s)" by simp
    obtain id nxt where id: "next_id (fs_id s) = (id, nxt)" by fastforce
    let ?m = "length (fs_keys s) - n"
    let ?s = "s\<lparr>fs_id := nxt, fs_keys := take ?m (fs_keys s)\<rparr>"
    let ?r = "r\<lparr>fr_id := nxt, fr_macs := take ?m (fr_macs r), fr_choices := take ?m (fr_choices r)\<rparr>"
    obtain ks cs ms where k: "split_off_blocks (fs_keys s) n = (Inr (ks, take ?m (fs_keys s)) :: ('a, _) result)"
      "split_off (fr_choices r) ?m = (Inr (take ?m (fr_choices r), cs) :: ('b, _) result)"
      "split_off_blocks (fr_macs r) n = (Inr (ms, take ?m (fr_macs r)) :: ('b, _) result)"
      "length ks = n" "correlated (fs_delta s) ks cs ms"
      "buffered (s\<lparr>fs_keys := take ?m (fs_keys s)\<rparr>) (r\<lparr>fr_macs := take ?m (fr_macs r), fr_choices := take ?m (fr_choices r)\<rparr>)"
      using split_off_pair [OF Cons.prems(1) n, where ?'a = 'a and ?'b = 'b] by blast
    have b: "buffered ?s ?r" using k(6) by (simp add: buffered_def)
    obtain outs s1 outs' r1 where I: "fs_process_queue E q ?s = (Inr (outs, s1) :: ('a, _) result)" "fr_process_queue E q2 ?r = (Inr (outs', r1) :: ('b, _) result)"
      "list_all2 (served (fs_delta ?s)) outs outs'" "serves q outs (fs_queue s1)" "map snd q2 = map fst outs' @ map snd (fr_queue r1)"
      "buffered s1 r1" "fs_id s1 = fr_id r1" "map fst (fs_queue s1) = map fst (fr_queue r1)" "fs_rest ?s s1" "fr_rest ?r r1"
      "length (fs_keys s1) + sum_list (map (\<lambda>(ch, (_, keys)). length keys) outs) = length (fs_keys ?s)"
      "sum_list (map fst q) \<le> length (fs_keys ?s) - ?rv \<longrightarrow> fs_queue s1 = []"
      using Cons.IH [OF b q'(2)] Cons.prems(4) by auto
    have lc: "usub (length (fr_choices r)) n = (Inr ?m :: ('b, nat) result)" using Cons.prems(1) n by (simp add: buffered_def)
    have "fs_process_queue E (e # q) s = (Inr ((ch, (id, ks)) # outs, s1) :: ('a, _) result)"
      using False av(1) k(1) I(1) by (simp add: e id)
    moreover have "fr_process_queue E q' r = (Inr ((ch', (id, cs, ms)) # outs', r1) :: ('b, _) result)"
      using False av(2) k(2,3) I(2) id Cons.prems(3) lc by (simp add: q'(1))
    moreover have "fs_rest s s1" "fr_rest r r1" using I(9,10) rest_upd(3,4) rest_trans by blast+
    moreover have "list_all2 (served (fs_delta s)) ((ch, (id, ks)) # outs) ((ch', (id, cs, ms)) # outs')" "serves (e # q) ((ch, (id, ks)) # outs) (fs_queue s1)"
      "map snd q' = map fst ((ch', (id, cs, ms)) # outs') @ map snd (fr_queue r1)"
      "length (fs_keys s1) + sum_list (map (\<lambda>(ch, (_, keys)). length keys) ((ch, (id, ks)) # outs)) = length (fs_keys s)"
      "sum_list (map fst (e # q)) \<le> length (fs_keys s) - ?rv \<longrightarrow> fs_queue s1 = []"
      using I(3-5,11,12) k(4,5) n by (simp_all add: served_def serves_def e q'(1))
    ultimately show ?thesis using I(6-8) by blast
  qed
qed

section \<open>Finishing\<close>

text \<open>The blocks a round adds: the noise plus the product of the encoder's matrix with the base keys.\<close>

definition fresh_blocks :: "('g, 'n, 'h, 'b) ferret_env \<Rightarrow> lpn_parameters \<Rightarrow> block \<Rightarrow> gf2_128 list \<Rightarrow> gf2_128 list \<Rightarrow> gf2_128 list" where
  "fresh_blocks E p seed ks vs =
     map Gf2_128 (lpn_blocks (columns (fe_emp E) LPN_D (lpn_of p) (fe_enc E seed)) (map gf128_inner ks) (map gf128_inner vs))"

lemma inner_comp [simp]: "gf128_inner \<circ> Gf2_128 = id" "Gf2_128 \<circ> gf128_inner = id"
  by (simp_all add: fun_eq_iff)

lemma length_fresh_blocks [simp]: "length (fresh_blocks E p seed ks vs) = length vs"
  by (simp add: fresh_blocks_def lpn_blocks_def)

lemma block_macs_take: "length ks \<le> n \<Longrightarrow> block_macs d ks (take n cs) = block_macs d ks cs"
proof -
  assume "length ks \<le> n"
  then have "zip ks (take n cs) = take n (zip ks cs)" "length (zip ks cs) \<le> n" by (simp_all add: take_zip)
  then show ?thesis unfolding block_macs_def by (simp only: take_all)
qed

lemma lpn_pair:
  assumes p: "params_ok p" and len: "length ks = lp_k p" "length cs = lp_k p" "length vs = lp_n p" and errs: "\<And>i. i \<in> set errs \<Longrightarrow> i < lp_n p"
  shows "lpn_compute (fe_emp E) (fe_enc E) LPN_D (lpn_of p) seed (map gf128_inner vs) (map gf128_inner ks) =
      (Inr (map gf128_inner (fresh_blocks E p seed ks vs)) :: ('a, _) result)"
    "\<exists>x xs. pack_errors (lp_n p) errs = (Inr x :: ('b, _) result) \<and>
    lpn_compute_with_bits (fe_emp E) (fe_enc E) LPN_D (lpn_of p) seed (map gf128_inner (cot_macs d vs (error_bits (lp_n p) errs))) x
      (map gf128_inner (cot_macs d ks cs)) (pack_choices (lp_k p) cs) =
      (Inr (map gf128_inner (cot_macs d (fresh_blocks E p seed ks vs) (unpack_bits (lp_n p) xs)), xs) :: ('b, _) result) \<and>
    length (unpack_bits (lp_n p) xs) = lp_n p"
proof -
  let ?vs = "map gf128_inner vs" and ?ks = "map gf128_inner ks" and ?u = "pack_choices (lp_k p) cs" and ?f = "fresh_blocks E p seed ks vs"
  obtain x where x: "pack_errors (lp_n p) errs = (Inr x :: ('b, _) result)" "length x = div_ceil (lp_n p) 8"
    "bits_of x = map (\<lambda>i. i \<in> set errs) [0..<8 * div_ceil (lp_n p) 8]"
    using pack_errors_ok [OF errs, where ?'e = 'b] by blast
  have u: "bits_of ?u = cs" "8 * length ?u = lp_k p" using pack_choices_bits [OF len(2) k_bytes [OF p]] by simp_all
  have eb: "error_bits (lp_n p) errs = take (lp_n p) (bits_of x)"
    using div_ceil_eight(2) [of "lp_n p"] by (simp add: x(3) error_bits_def take_map take_upt)
  have L: "lpn_ok LPN_D (lpn_of p) (length ?ks)" "8 * length ?u = length ?ks" "length x = div_ceil (length ?vs) 8"
    using lpn_new_ok(2) [OF p] len u x(2) by simp_all
  show "lpn_compute (fe_emp E) (fe_enc E) LPN_D (lpn_of p) seed ?vs ?ks = (Inr (map gf128_inner ?f) :: ('a, _) result)"
    using lpn_correlated [OF L, where ?'e = 'a, of "fe_emp E" "fe_enc E" seed] by (auto simp: fresh_blocks_def)
  obtain xs where xs: "lpn_compute_with_bits (fe_emp E) (fe_enc E) LPN_D (lpn_of p) seed (block_macs d ?vs (bits_of x)) x (block_macs d ?ks (bits_of ?u)) ?u =
      (Inr (block_macs d (map gf128_inner ?f) (bits_of xs), xs) :: ('b, _) result)"
    "bits_of xs = lpn_bits (columns (fe_emp E) LPN_D (lpn_of p) (fe_enc E seed)) (bits_of ?u) (length ?vs) 0 (bits_of x)"
    using lpn_correlated [OF L, where ?'e = 'b, of "fe_emp E" "fe_enc E" seed d] by (auto simp: fresh_blocks_def)
  have n: "lp_n p \<le> length (bits_of xs)" using div_ceil_eight(2) [of "lp_n p"] by (simp add: xs(2) lpn_bits_def x(3))
  have "block_macs d ?vs (bits_of x) = map gf128_inner (cot_macs d vs (error_bits (lp_n p) errs))"
    unfolding eb by (subst cot_macs_blocks) (simp add: len block_macs_take)
  moreover have "block_macs d ?ks (bits_of ?u) = map gf128_inner (cot_macs d ks cs)" by (simp add: u cot_macs_blocks)
  moreover have "block_macs d (map gf128_inner ?f) (bits_of xs) = map gf128_inner (cot_macs d ?f (unpack_bits (lp_n p) xs))"
    by (simp add: unpack_bits_ok cot_macs_blocks block_macs_take len)
  ultimately show "\<exists>x xs. pack_errors (lp_n p) errs = (Inr x :: ('b, _) result) \<and>
    lpn_compute_with_bits (fe_emp E) (fe_enc E) LPN_D (lpn_of p) seed (map gf128_inner (cot_macs d vs (error_bits (lp_n p) errs))) x
      (map gf128_inner (cot_macs d ks cs)) (pack_choices (lp_k p) cs) =
      (Inr (map gf128_inner (cot_macs d (fresh_blocks E p seed ks vs) (unpack_bits (lp_n p) xs)), xs) :: ('b, _) result) \<and>
    length (unpack_bits (lp_n p) xs) = lp_n p"
    using x(1) xs(1) n by (intro exI [of _ x] exI [of _ xs]) (simp add: unpack_bits_ok)
qed


text \<open>When the request so far is covered the queue is served, otherwise nothing changes.\<close>

definition settled :: "bool \<Rightarrow> ('c, 'g, 'h) ferret_sender \<Rightarrow> (nat \<times> sender_output) list \<Rightarrow> ('c, 'g, 'h) ferret_sender \<Rightarrow> bool" where
  "settled covered s outs s' \<longleftrightarrow>
     (if covered then fs_alloc s' = 0 \<and> serves (fs_queue s) outs (fs_queue s') \<and>
        (sum_list (map fst (fs_queue s)) \<le> fs_alloc s \<longrightarrow> fs_queue s' = [])
      else fs_alloc s' = fs_alloc s \<and> outs = [] \<and> fs_queue s' = fs_queue s)"

lemma rest_self: "fs_rest s s" "fr_rest r r"
  by (cases s; simp add: fs_rest_def) (cases r; simp add: fr_rest_def)

lemma settle_pair:
  assumes b: "buffered s r" and q: "same_requests s r" and cfg: "config_ok (fe_emp E) (fs_config s) bc"
  shows "\<exists>outs s1 outs' r1. fs_settle E s = (Inr (outs, s1) :: ('a, _) result) \<and> fr_settle E r = (Inr (outs', r1) :: ('b, _) result) \<and>
    list_all2 (served (fs_delta s)) outs outs' \<and> buffered s1 r1 \<and> same_requests s1 r1 \<and>
    settled (fs_alloc s \<le> length (fs_keys s) - (if fc_reserve_bootstrap (fs_config s) then bc else 0)) s outs s1 \<and>
    map snd (fr_queue r) = map fst outs' @ map snd (fr_queue r1) \<and>
    fs_rest (s\<lparr>fs_alloc := fs_alloc s1\<rparr>) s1 \<and> fr_rest (r\<lparr>fr_alloc := fr_alloc r1\<rparr>) r1 \<and>
    length (fs_keys s1) + sum_list (map (\<lambda>(ch, (_, keys)). length keys) outs) = length (fs_keys s)"
proof -
  let ?av = "length (fs_keys s) - (if fc_reserve_bootstrap (fs_config s) then bc else 0)"
  have av: "fs_available E s = (Inr ?av :: ('a, _) result)" "fr_available E r = (Inr ?av :: ('b, _) result)"
    using b cfg by (simp_all add: buffered_def fs_available_ok fr_available_ok)
  have al: "fr_alloc r = fs_alloc s" "map fst (fs_queue s) = map fst (fr_queue r)" "fs_id s = fr_id r" using q by (simp_all add: same_requests_def)
  show ?thesis
  proof (cases "fs_alloc s \<le> ?av")
    case True
    let ?s = "s\<lparr>fs_alloc := 0\<rparr>" and ?r = "r\<lparr>fr_alloc := 0\<rparr>"
    have b1: "buffered ?s ?r" and f: "fs_id ?s = fr_id ?r" "config_ok (fe_emp E) (fs_config ?s) bc" using b al cfg by (simp_all add: buffered_def)
    obtain outs s1 outs' r1 where Q: "fs_process_queue E (fs_queue s) ?s = (Inr (outs, s1) :: ('a, _) result)"
      "fr_process_queue E (fr_queue r) ?r = (Inr (outs', r1) :: ('b, _) result)"
      "list_all2 (served (fs_delta ?s)) outs outs'" "serves (fs_queue s) outs (fs_queue s1)" "map snd (fr_queue r) = map fst outs' @ map snd (fr_queue r1)"
      "buffered s1 r1" "fs_id s1 = fr_id r1" "map fst (fs_queue s1) = map fst (fr_queue r1)" "fs_rest ?s s1" "fr_rest ?r r1"
      "length (fs_keys s1) + sum_list (map (\<lambda>(ch, (_, keys)). length keys) outs) = length (fs_keys ?s)"
      "sum_list (map fst (fs_queue s)) \<le> length (fs_keys ?s) - (if fc_reserve_bootstrap (fs_config ?s) then bc else 0) \<longrightarrow> fs_queue s1 = []"
      using queue_pair [OF b1 al(2) f, where ?'a = 'a and ?'b = 'b] by blast
    have z: "fs_alloc s1 = 0" "fr_alloc r1 = 0" using fs_restD [OF Q(9)] fr_restD [OF Q(10)] by simp_all
    have "fs_settle E s = (Inr (outs, s1) :: ('a, _) result)" "fr_settle E r = (Inr (outs', r1) :: ('b, _) result)"
      using True Q(1,2) av al by (simp_all add: fs_settle_def fr_settle_def)
    then show ?thesis
      using True Q(3-12) z by (intro exI [of _ outs] exI [of _ s1] exI [of _ outs'] exI [of _ r1]) (simp add: settled_def same_requests_def)
  next
    case False
    then have "fs_settle E s = (Inr ([], s) :: ('a, _) result)" "fr_settle E r = (Inr ([], r) :: ('b, _) result)"
      using av al by (simp_all add: fs_settle_def fr_settle_def)
    then show ?thesis
      using False b q by (intro exI [of _ "[]"] exI [of _ s] exI [of _ r]) (simp add: settled_def rest_self)
  qed
qed

text \<open>What is left of the buffers when the next bases have been set aside.\<close>

definition refill_len :: "bool \<Rightarrow> lpn_parameters \<Rightarrow> nat" where
  "refill_len emp p = refill_of emp p * 2 ^ log2_interval p"

lemma div_ceil_covers: "0 < q \<Longrightarrow> a \<le> div_ceil a q * q"
proof -
  assume q: "0 < q"
  have "(a + q - 1) div q * q + (a + q - 1) mod q = a + q - 1" by simp
  moreover have "(a + q - 1) mod q < q" using q by simp
  ultimately show ?thesis unfolding div_ceil_def by linarith
qed

lemma refill_covers: "cost_of p \<le> refill_len True p"
  by (simp add: refill_len_def refill_of_def div_ceil_covers)

lemma fs_take_refill_ok:
  assumes "params_ok p" "refill_len (fe_emp E) p \<le> lp_n p" "lp_n p \<le> length (fs_keys s)"
  shows "fs_take_refill E p s = Inr ((), if fe_emp E
     then s\<lparr>fs_keys := take (length (fs_keys s) - refill_len True p) (fs_keys s),
       fs_next_keys := take (cost_of p) (drop (length (fs_keys s) - refill_len True p) (fs_keys s))\<rparr> else s)"
proof (cases "fe_emp E")
  case True
  have rl: "rp_refill_trees (plan_of True p) * (lp_n p div lp_t p) = refill_len True p" "rp_cost (plan_of True p) = cost_of p"
    using params_okD(3) [OF assms(1)] by (simp_all add: plan_of_def refill_len_def)
  show ?thesis
    using assms True params_okD(1) [OF assms(1)]
    by (simp add: fs_take_refill_def config_round_plan_ok [OF assms(1)] refill_len_def [symmetric] udiv_def split_off_def rl)
qed (simp add: fs_take_refill_def)

lemma fr_take_refill_ok:
  assumes "params_ok p" "refill_len (fe_emp E) p \<le> lp_n p" "lp_n p \<le> length (fr_macs r)" "length (fr_choices r) = length (fr_macs r)"
  shows "fr_take_refill E p r = Inr ((), if fe_emp E
     then r\<lparr>fr_macs := take (length (fr_macs r) - refill_len True p) (fr_macs r),
       fr_next_macs := take (cost_of p) (drop (length (fr_macs r) - refill_len True p) (fr_macs r)),
       fr_choices := take (length (fr_macs r) - refill_len True p) (fr_choices r),
       fr_next_choices := take (cost_of p) (drop (length (fr_macs r) - refill_len True p) (fr_choices r))\<rparr> else r)"
proof (cases "fe_emp E")
  case True
  have rl: "rp_refill_trees (plan_of True p) * (lp_n p div lp_t p) = refill_len True p" "rp_cost (plan_of True p) = cost_of p"
    using params_okD(3) [OF assms(1)] by (simp_all add: plan_of_def refill_len_def)
  show ?thesis
    using assms True params_okD(1) [OF assms(1)]
    by (simp add: fr_take_refill_def config_round_plan_ok [OF assms(1)] refill_len_def [symmetric] udiv_def split_off_def rl)
qed (simp add: fr_take_refill_def)

end
