(* ===== verification/Ferret_Finish.thy ===== *)
theory Ferret_Finish
  imports Ferret_Extend
begin

text \<open>The last step of a round: both parties apply the encoder, set the next bases aside and serve requests.\<close>

section \<open>Finishing a round\<close>

lemma cot_macs_cut:
  "take n (cot_macs d ks cs) = cot_macs d (take n ks) (take n cs)" "drop n (cot_macs d ks cs) = cot_macs d (drop n ks) (drop n cs)"
  by (rule cot_macs_take_drop)+

text \<open>What the finishing party holds before it serves its requests.\<close>

definition replenished :: "bool \<Rightarrow> ('c, 'g, 'h) ferret_sender \<Rightarrow> ('d, 'g, 'n) ferret_receiver \<Rightarrow> bool" where
  "replenished emp s r \<longleftrightarrow> buffered s r \<and> length (fr_next_choices r) = length (fs_next_keys s) \<and>
     fr_next_macs r = cot_macs (fs_delta s) (fs_next_keys s) (fr_next_choices r)"

lemma settled_cong:
  "settled c s outs s' \<Longrightarrow> c = c' \<Longrightarrow> fs_alloc s = fs_alloc t \<Longrightarrow> fs_queue s = fs_queue t \<Longrightarrow> fs_alloc s' = fs_alloc t' \<Longrightarrow>
    fs_queue s' = fs_queue t' \<Longrightarrow> settled c' t outs t'"
  by (auto simp: settled_def split: if_splits)

lemma length_error_bits [simp]: "length (error_bits n errs) = n"
  by (simp add: error_bits_def)

text \<open>Setting the next bases aside.\<close>

lemma refill_pair:
  assumes p: "params_ok p" "refill_len (fe_emp E) p \<le> lp_n p" "lp_n p \<le> length (fs_keys s)" and b: "buffered s r"
    and nxt: "length (fr_next_choices r) = length (fs_next_keys s)" "fr_next_macs r = cot_macs (fs_delta s) (fs_next_keys s) (fr_next_choices r)"
  shows "\<exists>ks nks ms cs nms ncs. fs_take_refill E p s = (Inr ((), s\<lparr>fs_keys := ks, fs_next_keys := nks\<rparr>) :: ('a, _) result) \<and>
    fr_take_refill E p r = (Inr ((), r\<lparr>fr_macs := ms, fr_next_macs := nms, fr_choices := cs, fr_next_choices := ncs\<rparr>) :: ('b, _) result) \<and>
    replenished (fe_emp E) (s\<lparr>fs_keys := ks, fs_next_keys := nks\<rparr>) (r\<lparr>fr_macs := ms, fr_next_macs := nms, fr_choices := cs, fr_next_choices := ncs\<rparr>) \<and>
    length ks = length (fs_keys s) - refill_len (fe_emp E) p \<and> length nks = (if fe_emp E then cost_of p else length (fs_next_keys s))"
proof (cases "fe_emp E")
  case True
  define l where "l = length (fs_keys s) - refill_len True p"
  have l: "length (fs_keys s) = l + refill_len True p" using True p(2,3) by (simp add: l_def)
  have m: "length (fr_macs r) = length (fs_keys s)" "length (fr_choices r) = length (fr_macs r)" "lp_n p \<le> length (fr_macs r)"
    "length (fs_keys s) - refill_len True p = l" "length (fr_choices r) = l + refill_len True p"
    using b p(3) l by (simp_all add: buffered_def)
  note B = b [unfolded buffered_def]
  have n: "cost_of p \<le> refill_len True p" by (rule refill_covers)
  let ?nks = "take (cost_of p) (drop l (fs_keys s))" and ?ncs = "take (cost_of p) (drop l (fr_choices r))"
  have len: "length (take l (fs_keys s)) = l" "length ?nks = cost_of p" "length (take l (fr_choices r)) = l" "length ?ncs = cost_of p"
    using n by (simp_all add: l m(5))
  have macs: "take l (fr_macs r) = cot_macs (fs_delta s) (take l (fs_keys s)) (take l (fr_choices r))"
    "take (cost_of p) (drop l (fr_macs r)) = cot_macs (fs_delta s) ?nks ?ncs"
    using B by (simp_all only: cot_macs_cut)
  show ?thesis
    unfolding fs_take_refill_ok [OF p] fr_take_refill_ok [OF p(1,2) m(3,2)] m(1) if_P [OF True] m(4)
    by (intro exI conjI, rule refl, rule refl) (use True B len macs m(4) in \<open>simp_all add: replenished_def buffered_def del: length_take length_drop\<close>)
next
  case False
  have eq: "s\<lparr>fs_keys := fs_keys s, fs_next_keys := fs_next_keys s\<rparr> = s"
    "r\<lparr>fr_macs := fr_macs r, fr_next_macs := fr_next_macs r, fr_choices := fr_choices r, fr_next_choices := fr_next_choices r\<rparr> = r"
    by (cases s, simp) (cases r, simp)
  have "replenished (fe_emp E) s r" using b nxt by (simp add: replenished_def)
  then have "fs_take_refill E p s = (Inr ((), s) :: ('a, _) result) \<and> fr_take_refill E p r = (Inr ((), r) :: ('b, _) result) \<and>
    replenished (fe_emp E) s r \<and> length (fs_keys s) = length (fs_keys s) - refill_len (fe_emp E) p \<and>
    length (fs_next_keys s) = (if fe_emp E then cost_of p else length (fs_next_keys s))"
    by (simp add: False fs_take_refill_def fr_take_refill_def refill_len_def refill_of_def)
  then show ?thesis using eq by metis
qed

lemma finish_pair:
  assumes st: "checked E p errs k c seed vs s r h" and ok: "round_ok E p errs k c dc" and q: "same_requests s r"
    and cfg: "config_ok (fe_emp E) (fs_config s) bc" "fs_config s = fr_config r" "fs_sid s = fr_sid r"
    and low: "fe_emp E \<longrightarrow> bit (fs_delta s) 0" and lk: "\<not> fs_locked s" "\<not> fr_locked r"
    and nxt: "length (fr_next_choices r) = length (fs_next_keys s)" "fr_next_macs r = cot_macs (fs_delta s) (fs_next_keys s) (fr_next_choices r)"
  shows "\<exists>outs s1 outs' r1. fs_finish_extend E s = (Inr outs :: ('a ferret_error, _) result, s1) \<and>
    fr_finish_extend E h r = (Inr outs' :: ('b ferret_error, _) result, r1) \<and>
    list_all2 (served (fs_delta s)) outs outs' \<and> idle_pair (fe_emp E) s1 r1 \<and> same_requests s1 r1 \<and>
    settled (fs_alloc s \<le> length (tp_keep k) + lp_n p - refill_len (fe_emp E) p - (if fc_reserve_bootstrap (fs_config s) then bc else 0)) s outs s1 \<and>
    map snd (fr_queue r) = map fst outs' @ map snd (fr_queue r1) \<and>
    length (fs_keys s1) + sum_list (map (\<lambda>(ch, (_, keys)). length keys) outs) = length (tp_keep k) + lp_n p - refill_len (fe_emp E) p \<and>
    length (fs_next_keys s1) = (if fe_emp E then cost_of p else length (fs_next_keys s)) \<and>
    fs_cot s1 = fs_cot s \<and> fr_cot r1 = fr_cot r \<and> fs_delta s1 = fs_delta s \<and> fs_config s1 = fs_config s"
proof -
  note p = ok [unfolded round_ok_def]
  note S = st [unfolded checked_def]
  let ?d = "fs_delta s" and ?F = "fresh_blocks E p seed (tp_lpn k) vs"
  have pp: "params_ok p" "length errs = lp_t p" "regular (2 ^ log2_interval p) errs" using p by simp_all
  have ln: "length (tp_lpn k) = lp_k p" "length (tp_lpn c) = lp_k p" "length vs = lp_n p" "length (tp_keep k) = length (tp_keep c)"
    using p S by (simp_all add: parts_ok_def)
  note L = lpn_pair [where errs = errs and E = E and seed = seed, OF pp(1) ln(1-3) tree_facts(6) [OF pp]]
  obtain x xs where X: "pack_errors (lp_n p) errs = (Inr x :: ('b ferret_error, _) result)"
    "lpn_compute_with_bits (fe_emp E) (fe_enc E) LPN_D (lpn_of p) seed (map gf128_inner (cot_macs ?d vs (error_bits (lp_n p) errs))) x
      (map gf128_inner (cot_macs ?d (tp_lpn k) (tp_lpn c))) (pack_choices (lp_k p) (tp_lpn c)) =
      (Inr (map gf128_inner (cot_macs ?d ?F (unpack_bits (lp_n p) xs)), xs) :: ('b ferret_error, _) result)"
    "length (unpack_bits (lp_n p) xs) = lp_n p"
    using L(2) [where ?'b = "'b ferret_error"] by blast
  let ?bits = "unpack_bits (lp_n p) xs" and ?l = "refill_len (fe_emp E) p"
  let ?s0 = "s\<lparr>fs_state := SError, fs_keys := tp_keep k @ ?F, fs_pending := 0\<rparr>"
  let ?r0 = "r\<lparr>fr_state := RError, fr_spcot := spr_new, fr_macs := cot_macs ?d (tp_keep k) (tp_keep c) @ cot_macs ?d ?F ?bits, fr_pending := 0,
    fr_choices := tp_keep c @ ?bits\<rparr>"
  have b0: "buffered ?s0 ?r0" using ln X(3) cfg(2) by (simp add: buffered_def cot_macs_append)
  have l0: "?l \<le> lp_n p" "lp_n p \<le> length (fs_keys ?s0)" using p ln by (simp_all add: refill_len_def)
  have n0: "length (fr_next_choices ?r0) = length (fs_next_keys ?s0)" "fr_next_macs ?r0 = cot_macs (fs_delta ?s0) (fs_next_keys ?s0) (fr_next_choices ?r0)"
    using nxt by simp_all
  obtain ks nks ms cs nms ncs where R: "fs_take_refill E p ?s0 = (Inr ((), ?s0\<lparr>fs_keys := ks, fs_next_keys := nks\<rparr>) :: ('a ferret_error, _) result)"
    "fr_take_refill E p ?r0 = (Inr ((), ?r0\<lparr>fr_macs := ms, fr_next_macs := nms, fr_choices := cs, fr_next_choices := ncs\<rparr>) :: ('b ferret_error, _) result)"
    "replenished (fe_emp E) (?s0\<lparr>fs_keys := ks, fs_next_keys := nks\<rparr>) (?r0\<lparr>fr_macs := ms, fr_next_macs := nms, fr_choices := cs, fr_next_choices := ncs\<rparr>)"
    "length ks = length (fs_keys ?s0) - ?l" "length nks = (if fe_emp E then cost_of p else length (fs_next_keys ?s0))"
    using refill_pair [OF pp(1) l0 b0 n0, where ?'a = "'a ferret_error" and ?'b = "'b ferret_error"] by blast
  let ?s2 = "?s0\<lparr>fs_keys := ks, fs_next_keys := nks\<rparr>"
  let ?r2 = "?r0\<lparr>fr_macs := ms, fr_next_macs := nms, fr_choices := cs, fr_next_choices := ncs\<rparr>"
  have b2: "buffered ?s2 ?r2" "same_requests ?s2 ?r2" "config_ok (fe_emp E) (fs_config ?s2) bc"
    using R(3) [unfolded replenished_def] q cfg(1) by (blast, simp_all add: same_requests_def)
  obtain outs s3 outs' r3 where T: "fs_settle E ?s2 = (Inr (outs, s3) :: ('a ferret_error, _) result)" "fr_settle E ?r2 = (Inr (outs', r3) :: ('b ferret_error, _) result)"
    "list_all2 (served (fs_delta ?s2)) outs outs'" "buffered s3 r3" "same_requests s3 r3"
    "settled (fs_alloc ?s2 \<le> length (fs_keys ?s2) - (if fc_reserve_bootstrap (fs_config ?s2) then bc else 0)) ?s2 outs s3"
    "map snd (fr_queue ?r2) = map fst outs' @ map snd (fr_queue r3)"
    "fs_rest (?s2\<lparr>fs_alloc := fs_alloc s3\<rparr>) s3" "fr_rest (?r2\<lparr>fr_alloc := fr_alloc r3\<rparr>) r3"
    "length (fs_keys s3) + sum_list (map (\<lambda>(ch, (_, keys)). length keys) outs) = length (fs_keys ?s2)"
    using settle_pair [OF b2, where ?'a = "'a ferret_error" and ?'b = "'b ferret_error"] by blast
  note keep = fs_restD [OF T(8), simplified] fr_restD [OF T(9), simplified]
  have "fs_finish_extend E s = (Inr outs :: ('a ferret_error, _) result, s3\<lparr>fs_state := SExtend\<rparr>)"
    using S ln R(1) T(1) by (simp add: L(1) fs_finish_extend_def fs_take_def lpn_new_ok [OF pp(1)])
  moreover have "fr_finish_extend E h r = (Inr outs' :: ('b ferret_error, _) result, r3\<lparr>fr_state := RExtend\<rparr>)"
    using S ln X R(2) T(2) by (simp add: fr_finish_extend_def fr_take_def lpn_new_ok [OF pp(1)])
  moreover have "idle_pair (fe_emp E) (s3\<lparr>fs_state := SExtend\<rparr>) (r3\<lparr>fr_state := RExtend\<rparr>)"
    using T(4) R(3) S cfg lk low keep by (simp add: idle_pair_def buffered_def replenished_def)
  moreover have "list_all2 (served ?d) outs outs'" "map snd (fr_queue r) = map fst outs' @ map snd (fr_queue (r3\<lparr>fr_state := RExtend\<rparr>))"
    using T(3,7) by simp_all
  moreover have "same_requests (s3\<lparr>fs_state := SExtend\<rparr>) (r3\<lparr>fr_state := RExtend\<rparr>)" using T(5) by (simp add: same_requests_def)
  moreover have lk: "length ks = length (tp_keep k) + lp_n p - ?l" using R(4) ln by simp
  then have "settled (fs_alloc s \<le> length (tp_keep k) + lp_n p - ?l - (if fc_reserve_bootstrap (fs_config s) then bc else 0)) s outs (s3\<lparr>fs_state := SExtend\<rparr>)"
    by (intro settled_cong [OF T(6)]) simp_all
  moreover have "length (fs_keys (s3\<lparr>fs_state := SExtend\<rparr>)) + sum_list (map (\<lambda>(ch, (_, keys)). length keys) outs) = length (tp_keep k) + lp_n p - ?l"
    using T(10) lk by simp
  moreover have "length (fs_next_keys (s3\<lparr>fs_state := SExtend\<rparr>)) = (if fe_emp E then cost_of p else length (fs_next_keys s))"
    using R(5) keep by simp
  moreover have "fs_cot (s3\<lparr>fs_state := SExtend\<rparr>) = fs_cot s" "fr_cot (r3\<lparr>fr_state := RExtend\<rparr>) = fr_cot r" "fs_delta (s3\<lparr>fs_state := SExtend\<rparr>) = ?d"
    "fs_config (s3\<lparr>fs_state := SExtend\<rparr>) = fs_config s" using keep by simp_all
  ultimately show ?thesis by blast
qed

end
