(* ===== verification/Ferret_Drivers.thy ===== *)
theory Ferret_Drivers
  imports Ferret_Finish
begin

text \<open>
  The drivers (\<open>Flush\<close> of \<open>ot/src/ferret/sender.rs\<close> and \<open>receiver.rs\<close>) run against each other over a
  reliable ordered channel: a pair of states, each handler run on its half with the message the other
  produced.  \<open>None\<close> is a run that does not return: one party waits for a message that never comes.
\<close>

datatype ('e, 'f, 'x) party_error = SenderError 'e | ReceiverError 'f | InnerFlush 'x

definition sendS :: "('s \<Rightarrow> ('e, 'a) result \<times> 's) \<Rightarrow> 's \<times> 'r \<Rightarrow> (('e, 'f, 'x) party_error, 'a) result \<times> 's \<times> 'r" where
  "sendS m = (\<lambda>(s, r). case m s of (x, s) \<Rightarrow> (map_err SenderError x, s, r))"

definition recvS :: "('r \<Rightarrow> ('f, 'a) result \<times> 'r) \<Rightarrow> 's \<times> 'r \<Rightarrow> (('e, 'f, 'x) party_error, 'a) result \<times> 's \<times> 'r" where
  "recvS m = (\<lambda>(s, r). case m r of (x, r) \<Rightarrow> (map_err ReceiverError x, s, r))"

lemma partyS_simps [simp]:
  "sendS m (s, r) = (case m s of (x, s) \<Rightarrow> (map_err SenderError x, s, r))"
  "recvS n (s, r) = (case n r of (x, r) \<Rightarrow> (map_err ReceiverError x, s, r))"
  by (simp_all add: sendS_def recvS_def)

type_synonym outputs = "(nat \<times> sender_output) list \<times> (nat \<times> receiver_output) list"

text \<open>One round of the loop of both drivers.\<close>

definition ferret_iteration ::
  "('g, 'n, 'h, 'b) ferret_env \<Rightarrow> ('c \<Rightarrow> nat \<Rightarrow> ('ce, sender_output \<times> 'c) result) \<Rightarrow> ('d \<Rightarrow> nat \<Rightarrow> ('de, receiver_output \<times> 'd) result) \<Rightarrow> 'n \<Rightarrow>
     ('c, 'g, 'h) ferret_sender \<times> ('d, 'g, 'n) ferret_receiver \<Rightarrow>
     (('ce ferret_error, 'de ferret_error, 'x) party_error, outputs) result \<times> ('c, 'g, 'h) ferret_sender \<times> ('d, 'g, 'n) ferret_receiver" where
  "ferret_iteration E try_send try_recv nonce =
     bindS (sendS (fs_start_extend E try_send)) (\<lambda>_.
     bindS (recvS (fr_start_extend E try_recv nonce)) (\<lambda>msg.
     bindS (sendS (fs_extend E msg)) (\<lambda>msg.
     bindS (recvS (fr_extend E msg)) (\<lambda>msg.
     bindS (sendS (fs_check E msg)) (\<lambda>msg.
     bindS (sendS (fs_finish_extend E)) (\<lambda>outs.
     bindS (recvS (fr_finish_extend E msg)) (\<lambda>outs'. retS (outs, outs'))))))))"

text \<open>\<open>while wants_extend\<close> of both, for at most \<open>n\<close> rounds.\<close>

fun ferret_loop ::
  "('g, 'n, 'h, 'b) ferret_env \<Rightarrow> ('c \<Rightarrow> nat \<Rightarrow> ('ce, sender_output \<times> 'c) result) \<Rightarrow> ('d \<Rightarrow> nat \<Rightarrow> ('de, receiver_output \<times> 'd) result) \<Rightarrow> (nat \<Rightarrow> 'n) \<Rightarrow> nat \<Rightarrow>
     ('c, 'g, 'h) ferret_sender \<times> ('d, 'g, 'n) ferret_receiver \<Rightarrow>
     (('ce ferret_error, 'de ferret_error, 'x) party_error, outputs option) result \<times> ('c, 'g, 'h) ferret_sender \<times> ('d, 'g, 'n) ferret_receiver" where
  "ferret_loop E try_send try_recv nonce n =
     bindS (sendS (askS (fs_wants_extend E))) (\<lambda>a.
     bindS (recvS (askS (fr_wants_extend E))) (\<lambda>b.
       if a \<noteq> b then retS None
       else if \<not> a then retS (Some ([], []))
       else case n of
         0 \<Rightarrow> retS None
       | Suc n \<Rightarrow> bindS (ferret_iteration E try_send try_recv (nonce n)) (\<lambda>(outs, outs').
           bindS (ferret_loop E try_send try_recv nonce n) (\<lambda>rest.
             retS (map_option (\<lambda>(outs1, outs1'). (outs @ outs1, outs' @ outs1')) rest)))))"

declare ferret_loop.simps [simp del]

text \<open>
  The guard of \<open>acquire_cot\<close> holds the inner OT while the parties flush it; it is dropped however that
  ends.
\<close>

definition ferret_inner ::
  "('c \<times> 'd \<Rightarrow> ('x, unit) result \<times> 'c \<times> 'd) \<Rightarrow> ('c, 'g, 'h) ferret_sender \<times> ('d, 'g, 'n) ferret_receiver \<Rightarrow>
     (('ce ferret_error, 'de ferret_error, 'x) party_error, unit) result \<times> ('c, 'g, 'h) ferret_sender \<times> ('d, 'g, 'n) ferret_receiver" where
  "ferret_inner flush_cot =
     bindS (sendS (stepS fs_acquire_cot)) (\<lambda>c.
     bindS (recvS (stepS fr_acquire_cot)) (\<lambda>d.
       (\<lambda>(s, r). case flush_cot (c, d) of (x, c, d) \<Rightarrow> (map_err InnerFlush x, fs_drop_guard s c, fr_drop_guard r d))))"

definition ferret_flush ::
  "('g, 'n, 'h, 'b) ferret_env \<Rightarrow> ('c \<Rightarrow> nat \<Rightarrow> ('ce, 'c) result) \<Rightarrow> ('d \<Rightarrow> nat \<Rightarrow> ('de, 'd) result) \<Rightarrow> ('c \<times> 'd \<Rightarrow> ('x, unit) result \<times> 'c \<times> 'd) \<Rightarrow>
     ('c \<Rightarrow> nat \<Rightarrow> ('ce, sender_output \<times> 'c) result) \<Rightarrow> ('d \<Rightarrow> nat \<Rightarrow> ('de, receiver_output \<times> 'd) result) \<Rightarrow> (nat \<Rightarrow> 'n) \<Rightarrow> nat \<Rightarrow>
     ('c, 'g, 'h) ferret_sender \<times> ('d, 'g, 'n) ferret_receiver \<Rightarrow>
     (('ce ferret_error, 'de ferret_error, 'x) party_error, outputs option) result \<times> ('c, 'g, 'h) ferret_sender \<times> ('d, 'g, 'n) ferret_receiver" where
  "ferret_flush E alloc_s alloc_r flush_cot try_send try_recv nonce n =
     bindS (sendS (askS (fs_wants_bootstrap E))) (\<lambda>a.
     bindS (recvS (askS (fr_wants_bootstrap E))) (\<lambda>b.
       if a \<noteq> b then retS None
       else
         bindS (if a then
             bindS (sendS (fs_alloc_bootstrap E alloc_s)) (\<lambda>_.
             bindS (recvS (fr_alloc_bootstrap E alloc_r)) (\<lambda>_. ferret_inner flush_cot))
           else retS ()) (\<lambda>_.
         ferret_loop E try_send try_recv nonce n)))"

section \<open>Honest parties\<close>

text \<open>The selected parameters also yield more than they cost.\<close>

definition config_live :: "bool \<Rightarrow> ferret_config \<Rightarrow> nat \<Rightarrow> bool" where
  "config_live emp c bc \<longleftrightarrow> config_ok emp c bc \<and>
     (\<forall>a m p. bc \<le> a \<longrightarrow> fc_param_selector c a m = Some p \<longrightarrow> cost_of p + refill_len emp p < lp_n p)"

definition env_ok :: "('g, 'n, 'h, 'b) ferret_env \<Rightarrow> bool" where
  "env_ok E \<longleftrightarrow> (\<forall>a b g. a < b \<longrightarrow> a \<le> fst (fe_pick E a b g) \<and> fst (fe_pick E a b g) < b) \<and>
     (fe_emp E \<longrightarrow> (\<forall>m. 16 \<le> length (fe_sha256 E m)))"

definition ferret_pair ::
  "('g, 'n, 'h, 'b) ferret_env \<Rightarrow> ('c \<Rightarrow> 'd \<Rightarrow> bool) \<Rightarrow> ('c \<Rightarrow> block) \<Rightarrow> nat \<Rightarrow> ('c, 'g, 'h) ferret_sender \<Rightarrow> ('d, 'g, 'n) ferret_receiver \<Rightarrow> bool" where
  "ferret_pair E rel delta_of bc s r \<longleftrightarrow> idle_pair (fe_emp E) s r \<and> same_requests s r \<and> config_live (fe_emp E) (fs_config s) bc \<and>
     rel (fs_cot s) (fr_cot r) \<and> delta_of (fs_cot s) = fs_delta s"

definition reserve_of :: "ferret_config \<Rightarrow> nat \<Rightarrow> nat" where
  "reserve_of c bc = (if fc_reserve_bootstrap c then bc else 0)"

text \<open>What an exchange of the two parties yields.\<close>

definition answers ::
  "('c, 'g, 'h) ferret_sender \<times> ('d, 'g, 'n) ferret_receiver \<Rightarrow> outputs \<Rightarrow> ('c, 'g, 'h) ferret_sender \<times> ('d, 'g, 'n) ferret_receiver \<Rightarrow> bool" where
  "answers = (\<lambda>(s, r) (outs, outs') (s', r'). list_all2 (served (fs_delta s)) outs outs' \<and>
     map snd (fr_queue r) = map fst outs' @ map snd (fr_queue r') \<and> fs_delta s' = fs_delta s \<and> fs_config s' = fs_config s)"

context rcot_pair
begin

lemma iteration_pair:
  assumes P: "ferret_pair E rel delta_of bc s r" and E: "env_ok E" and en: "bc - base_len (fe_emp E) s \<le> s_avail (fs_cot s)"
  shows "\<exists>outs outs' s' r' len. ferret_iteration E try_send try_recv nonce (s, r) =
      (Inr (outs, outs') :: (('e ferret_error, 'f ferret_error, 'x) party_error, _) result, s', r') \<and>
    ferret_pair E rel delta_of bc s' r' \<and> answers (s, r) (outs, outs') (s', r') \<and> max bc (base_len (fe_emp E) s) < len \<and>
    settled (fs_alloc s \<le> len - reserve_of (fs_config s) bc) s outs s' \<and>
    length (fs_keys s') + sum_list (map (\<lambda>(ch, (_, keys)). length keys) outs) = len"
proof -
  have idle: "idle_pair (fe_emp E) s r" and sr: "same_requests s r" and live: "config_live (fe_emp E) (fs_config s) bc"
    and rel: "rel (fs_cot s) (fr_cot r)" "delta_of (fs_cot s) = fs_delta s" using P by (simp_all add: ferret_pair_def)
  have cfg: "config_ok (fe_emp E) (fs_config s) bc" using live by (simp add: config_live_def)
  have al: "fs_alloc s = fr_alloc r" using sr by (simp add: same_requests_def)
  have pick: "a < b \<Longrightarrow> a \<le> fst (fe_pick E a b g) \<and> fst (fe_pick E a b g) < b" and sha: "fe_emp E \<Longrightarrow> 16 \<le> length (fe_sha256 E m)" for a b g m
    using E by (simp_all add: env_ok_def)
  obtain p errs k c dc s1 r1 m where S: "fs_start_extend E try_send s = (Inr (), s1)" "fr_start_extend E try_recv nonce r = (Inr m, r1)"
    "started E p errs k c dc s1 r1 m" "round_ok E p errs k c dc" "fs_same s s1" "fr_same r r1" "rel (fs_cot s1) (fr_cot r1)" "delta_of (fs_cot s1) = fs_delta s1"
    "length (tp_keep k) + cost_of p = max bc (base_len (fe_emp E) s)" "\<exists>a m. bc \<le> a \<and> fc_param_selector (fs_config s) a m = Some p"
    "length (fr_next_choices r1) = length (fs_next_keys s1)" "fr_next_macs r1 = cot_macs (fs_delta s1) (fs_next_keys s1) (fr_next_choices r1)"
    using start_pair [OF idle rel cfg en al, of nonce] pick sha by blast
  have low: "fe_emp E \<Longrightarrow> bit (fs_delta s1) 0" using idle S(5) by (simp add: idle_pair_def fs_same_def)
  obtain s2 r2 m1 m2 seed vs where X: "fs_extend E m s1 = (Inr m1 :: ('e ferret_error, _) result, s2)" "fr_extend E m1 r1 = (Inr m2 :: ('f ferret_error, _) result, r2)"
    "extended E p errs k c seed vs s2 r2 m2" "fs_kept s1 s2" "fr_kept r1 r2"
    using extend_pair [OF S(3,4) low, where ?'a = 'e and ?'b = 'f] by blast
  obtain s3 h where C: "fs_check E m2 s2 = (Inr h :: ('e ferret_error, _) result, s3)" "checked E p errs k c seed vs s3 r2 h" "fs_kept s2 s3"
    using check_pair [OF X(3) S(4), where ?'a = 'e] by blast
  have q: "same_requests s3 r2" "config_ok (fe_emp E) (fs_config s3) bc" "fs_config s3 = fr_config r2" "fs_sid s3 = fr_sid r2" "fe_emp E \<longrightarrow> bit (fs_delta s3) 0"
    "\<not> fs_locked s3" "\<not> fr_locked r2" "length (fr_next_choices r2) = length (fs_next_keys s3)"
    "fr_next_macs r2 = cot_macs (fs_delta s3) (fs_next_keys s3) (fr_next_choices r2)"
    using S(5,6,11,12) X(4,5) C(3) sr cfg idle low by (simp_all add: fs_kept_def fr_kept_def fs_same_def fr_same_def same_requests_def idle_pair_def)
  let ?len = "length (tp_keep k) + lp_n p - refill_len (fe_emp E) p"
  obtain outs s4 outs' r4 where F: "fs_finish_extend E s3 = (Inr outs :: ('e ferret_error, _) result, s4)"
    "fr_finish_extend E h r2 = (Inr outs' :: ('f ferret_error, _) result, r4)" "list_all2 (served (fs_delta s3)) outs outs'" "idle_pair (fe_emp E) s4 r4" "same_requests s4 r4"
    "settled (fs_alloc s3 \<le> ?len - (if fc_reserve_bootstrap (fs_config s3) then bc else 0)) s3 outs s4"
    "map snd (fr_queue r2) = map fst outs' @ map snd (fr_queue r4)"
    "length (fs_keys s4) + sum_list (map (\<lambda>(ch, (_, keys)). length keys) outs) = ?len"
    "fs_cot s4 = fs_cot s3" "fr_cot r4 = fr_cot r2" "fs_delta s4 = fs_delta s3" "fs_config s4 = fs_config s3"
    using finish_pair [OF C(2) S(4) q, where ?'a = 'e and ?'b = 'f] by blast
  have "ferret_iteration E try_send try_recv nonce (s, r) =
      (Inr (outs, outs') :: (('e ferret_error, 'f ferret_error, 'x) party_error, _) result, s4, r4)"
    by (simp add: ferret_iteration_def S(1,2) X(1,2) C(1) F(1,2))
  moreover have same: "fs_delta s3 = fs_delta s" "fs_config s3 = fs_config s" "fs_alloc s3 = fs_alloc s" "fs_queue s3 = fs_queue s" "fr_queue r2 = fr_queue r"
    "fs_cot s3 = fs_cot s1" "fr_cot r2 = fr_cot r1" "fs_delta s1 = fs_delta s"
    using S(5,6) X(4,5) C(3) by (simp_all add: fs_kept_def fr_kept_def fs_same_def fr_same_def)
  then have "ferret_pair E rel delta_of bc s4 r4" using F live S(7,8) by (simp add: ferret_pair_def)
  moreover have "answers (s, r) (outs, outs') (s4, r4)" using F(3,7,11,12) same by (simp add: answers_def)
  moreover have "cost_of p + refill_len (fe_emp E) p < lp_n p" using live S(10) by (auto simp: config_live_def)
  then have "max bc (base_len (fe_emp E) s) < ?len" using S(9) by linarith
  moreover have "settled (fs_alloc s \<le> ?len - reserve_of (fs_config s) bc) s outs s4"
    by (rule settled_cong [OF F(6)]) (simp_all add: same reserve_of_def)
  ultimately show ?thesis using F(8) by blast
qed

lemma wants_extend_pair:
  assumes P: "ferret_pair E rel delta_of bc s r"
  shows "fs_wants_extend E s = Inr (length (fs_keys s) - reserve_of (fs_config s) bc < fs_alloc s)"
    "fr_wants_extend E r = Inr (length (fs_keys s) - reserve_of (fs_config s) bc < fs_alloc s)"
proof -
  have f: "fs_pending s = 0" "fr_pending r = 0" "config_ok (fe_emp E) (fs_config s) bc" "config_ok (fe_emp E) (fr_config r) bc" "fr_config r = fs_config s"
    "fr_alloc r = fs_alloc s" "length (fr_macs r) = length (fs_keys s)"
    using P by (auto simp: ferret_pair_def idle_pair_def same_requests_def config_live_def)
  then show "fs_wants_extend E s = Inr (length (fs_keys s) - reserve_of (fs_config s) bc < fs_alloc s)"
    "fr_wants_extend E r = Inr (length (fs_keys s) - reserve_of (fs_config s) bc < fs_alloc s)"
    by (simp_all add: fs_wants_extend_def fr_wants_extend_def fs_available_ok [OF f(1,3)] fr_available_ok [OF f(2,4)] reserve_of_def)
qed

lemma loop_pair:
  assumes "ferret_pair E rel delta_of bc s r" "env_ok E" "bc - base_len (fe_emp E) s \<le> s_avail (fs_cot s)"
    and "fs_alloc s - (length (fs_keys s) - reserve_of (fs_config s) bc) \<le> n"
  shows "\<exists>outs outs' s' r'. ferret_loop E try_send try_recv nonce n (s, r) =
      (Inr (Some (outs, outs')) :: (('e ferret_error, 'f ferret_error, 'x) party_error, _) result, s', r') \<and>
    ferret_pair E rel delta_of bc s' r' \<and> answers (s, r) (outs, outs') (s', r') \<and>
    settled (length (fs_keys s) - reserve_of (fs_config s) bc < fs_alloc s) s outs s'"
  using assms
proof (induction n arbitrary: s r)
  case 0
  note w = wants_extend_pair [OF "0.prems"(1)]
  show ?case using "0.prems"(1,4) by (subst ferret_loop.simps) (simp add: w answers_def settled_def)
next
  case (Suc n)
  note w = wants_extend_pair [OF Suc.prems(1)]
  show ?case
  proof (cases "length (fs_keys s) - reserve_of (fs_config s) bc < fs_alloc s")
    case False
    then show ?thesis using Suc.prems(1) by (subst ferret_loop.simps) (simp add: w answers_def settled_def)
  next
    case True
    obtain outs outs' s1 r1 len where I: "ferret_iteration E try_send try_recv (nonce n) (s, r) =
      (Inr (outs, outs') :: (('e ferret_error, 'f ferret_error, 'x) party_error, _) result, s1, r1)"
      "ferret_pair E rel delta_of bc s1 r1" "answers (s, r) (outs, outs') (s1, r1)" "max bc (base_len (fe_emp E) s) < len"
      "settled (fs_alloc s \<le> len - reserve_of (fs_config s) bc) s outs s1"
      "length (fs_keys s1) + sum_list (map (\<lambda>(ch, (_, keys)). length keys) outs) = len"
      using iteration_pair [OF Suc.prems(1-3), of "nonce n", where ?'x = 'x] by blast
    have rv: "reserve_of (fs_config s) bc \<le> bc" by (simp add: reserve_of_def)
    have grow: "length (fs_keys s) < len" "bc < len" using I(4) by (simp_all add: base_len_def)
    have c1: "fs_config s1 = fs_config s" "fs_delta s1 = fs_delta s" using I(3) by (simp_all add: answers_def)
    show ?thesis
    proof (cases "fs_alloc s \<le> len - reserve_of (fs_config s) bc")
      case cov: True
      have en: "ferret_loop E try_send try_recv nonce n (s1, r1) = (Inr (Some ([], [])) :: (('e ferret_error, 'f ferret_error, 'x) party_error, _) result, s1, r1)"
        using I(5) cov by (subst ferret_loop.simps) (simp add: settled_def wants_extend_pair [OF I(2)])
      show ?thesis
        using True cov I by (subst ferret_loop.simps) (simp add: w en)
    next
      case unc: False
      have o: "outs = []" "fs_alloc s1 = fs_alloc s" "fs_queue s1 = fs_queue s" using I(5) unc by (simp_all add: settled_def)
      have l: "length (fs_keys s1) = len" using I(6) o by simp
      have e1: "bc - base_len (fe_emp E) s1 \<le> s_avail (fs_cot s1)" using l grow by (simp add: base_len_def)
      have e2: "fs_alloc s1 - (length (fs_keys s1) - reserve_of (fs_config s1) bc) \<le> n"
        using Suc.prems(4) True grow rv by (simp add: o l c1)
      obtain outs1 outs1' s2 r2 where L: "ferret_loop E try_send try_recv nonce n (s1, r1) =
          (Inr (Some (outs1, outs1')) :: (('e ferret_error, 'f ferret_error, 'x) party_error, _) result, s2, r2)"
        "ferret_pair E rel delta_of bc s2 r2" "answers (s1, r1) (outs1, outs1') (s2, r2)"
        "settled (length (fs_keys s1) - reserve_of (fs_config s1) bc < fs_alloc s1) s1 outs1 s2"
        using Suc.IH [OF I(2) Suc.prems(2) e1 e2] by blast
      have "settled True s outs1 s2" using L(4) unc by (simp add: l c1 o settled_def)
      moreover have "outs' = []" using I(3) o by (simp add: answers_def)
      ultimately show ?thesis
        using True I(1,3) L(1-3) o c1 by (subst ferret_loop.simps) (simp add: w answers_def)
    qed
  qed
qed

end

section \<open>A source of base correlations\<close>

text \<open>
  What the drivers rely on beyond \<open>rcot_pair\<close>: allocating the same number on both sides and flushing
  makes at least that many more available.
\<close>

locale rcot_source = rcot_pair rel delta_of s_avail r_avail try_send try_recv
  for rel :: "'s \<Rightarrow> 'r \<Rightarrow> bool" and delta_of :: "'s \<Rightarrow> block" and s_avail :: "'s \<Rightarrow> nat" and r_avail :: "'r \<Rightarrow> nat"
    and try_send :: "'s \<Rightarrow> nat \<Rightarrow> ('e, sender_output \<times> 's) result" and try_recv :: "'r \<Rightarrow> nat \<Rightarrow> ('f, receiver_output \<times> 'r) result" +
  fixes alloc_s :: "'s \<Rightarrow> nat \<Rightarrow> ('e, 's) result"
    and alloc_r :: "'r \<Rightarrow> nat \<Rightarrow> ('f, 'r) result"
    and flush_cot :: "'s \<times> 'r \<Rightarrow> ('x, unit) result \<times> 's \<times> 'r"
  assumes refresh: "rel s r \<Longrightarrow> \<exists>s1 r1 s2 r2. alloc_s s n = Inr s1 \<and> alloc_r r n = Inr r1 \<and> flush_cot (s1, r1) = (Inr (), s2, r2) \<and>
    rel s2 r2 \<and> delta_of s2 = delta_of s \<and> s_avail s + n \<le> s_avail s2"


context rcot_source
begin

lemma flush_pair:
  assumes P: "ferret_pair E rel delta_of bc s r" and E: "env_ok E" and n: "fs_alloc s \<le> n"
  shows "\<exists>outs outs' s' r'. ferret_flush E alloc_s alloc_r flush_cot try_send try_recv nonce n (s, r) =
      (Inr (Some (outs, outs')) :: (('e ferret_error, 'f ferret_error, 'x) party_error, _) result, s', r') \<and>
    ferret_pair E rel delta_of bc s' r' \<and> answers (s, r) (outs, outs') (s', r') \<and>
    settled (length (fs_keys s) - reserve_of (fs_config s) bc < fs_alloc s) s outs s'"
proof -
  have f: "config_ok (fe_emp E) (fs_config s) bc" "config_ok (fe_emp E) (fr_config r) bc" "length (fr_macs r) = length (fs_keys s)"
    "\<not> fs_locked s" "\<not> fr_locked r" "rel (fs_cot s) (fr_cot r)" "delta_of (fs_cot s) = fs_delta s"
    using P by (auto simp: ferret_pair_def idle_pair_def config_live_def)
  have w: "fs_wants_bootstrap E s = Inr (length (fs_keys s) < bc)" "fr_wants_bootstrap E r = Inr (length (fs_keys s) < bc)"
    using f(3) by (simp_all add: fs_wants_bootstrap_def fr_wants_bootstrap_def bootstrap_cost_ok [OF f(1)] bootstrap_cost_ok [OF f(2)])
  show ?thesis
  proof (cases "length (fs_keys s) < bc")
    case False
    have "bc - base_len (fe_emp E) s \<le> s_avail (fs_cot s)" "fs_alloc s - (length (fs_keys s) - reserve_of (fs_config s) bc) \<le> n"
      using False n by (simp_all add: base_len_def)
    from loop_pair [OF P E this, of nonce, where ?'x = 'x] show ?thesis by (simp add: ferret_flush_def w False)
  next
    case True
    let ?m = "bc - length (fs_keys s)"
    obtain c1 d1 c2 d2 where R: "alloc_s (fs_cot s) ?m = Inr c1" "alloc_r (fr_cot r) ?m = Inr d1" "flush_cot (c1, d1) = (Inr (), c2, d2)"
      "rel c2 d2" "delta_of c2 = delta_of (fs_cot s)" "s_avail (fs_cot s) + ?m \<le> s_avail c2"
      using refresh [OF f(6)] by blast
    let ?s = "s\<lparr>fs_cot := c2, fs_locked := False\<rparr>" and ?r = "r\<lparr>fr_cot := d2, fr_locked := False\<rparr>"
    have P1: "ferret_pair E rel delta_of bc ?s ?r"
      using P R(4,5) f(7) by (auto simp: ferret_pair_def idle_pair_def same_requests_def)
    have en: "bc - base_len (fe_emp E) ?s \<le> s_avail (fs_cot ?s)" "fs_alloc ?s - (length (fs_keys ?s) - reserve_of (fs_config ?s) bc) \<le> n"
      using R(6) n by (simp_all add: base_len_def)
    obtain outs outs' s' r' where L: "ferret_loop E try_send try_recv nonce n (?s, ?r) =
      (Inr (Some (outs, outs')) :: (('e ferret_error, 'f ferret_error, 'x) party_error, _) result, s', r')"
      "ferret_pair E rel delta_of bc s' r'" "answers (?s, ?r) (outs, outs') (s', r')"
      "settled (length (fs_keys ?s) - reserve_of (fs_config ?s) bc < fs_alloc ?s) ?s outs s'"
      using loop_pair [OF P1 E en, of nonce, where ?'x = 'x] by blast
    have "ferret_flush E alloc_s alloc_r flush_cot try_send try_recv nonce n (s, r) =
      (Inr (Some (outs, outs')) :: (('e ferret_error, 'f ferret_error, 'x) party_error, _) result, s', r')"
      using True f(3-5) by (simp add: ferret_flush_def w fs_alloc_bootstrap_def fr_alloc_bootstrap_def bootstrap_cost_ok [OF f(1)] bootstrap_cost_ok [OF f(2)]
          R(1-3) ferret_inner_def fs_acquire_cot_def fr_acquire_cot_def fs_drop_guard_def fr_drop_guard_def L(1))
    moreover have "answers (s, r) (outs, outs') (s', r')" using L(3) by (simp add: answers_def)
    moreover have "settled (length (fs_keys s) - reserve_of (fs_config s) bc < fs_alloc s) s outs s'"
      by (rule settled_cong [OF L(4)]) simp_all
    ultimately show ?thesis using L(2) by blast
  qed
qed

end

section \<open>The ideal functionality as the source\<close>

text \<open>The drivers of \<open>ot/src/ideal/rcot.rs\<close>, run against each other.\<close>

definition ideal_flush :: "('g \<Rightarrow> bool \<times> 'g) \<Rightarrow> ideal_rcot_sender \<times> 'g ideal_rcot_receiver \<Rightarrow>
    (ideal_rcot_error, unit) result \<times> ideal_rcot_sender \<times> 'g ideal_rcot_receiver" where
  "ideal_flush rng_bool = (\<lambda>(s, r). case is_flush s of
     Inl e \<Rightarrow> (Inl e, s, r)
   | Inr (None, _, s) \<Rightarrow> (Inr (), s, r)
   | Inr (Some msg, _, s) \<Rightarrow> (case ir_flush rng_bool r msg of Inl e \<Rightarrow> (Inl e, s, r) | Inr (_, r) \<Rightarrow> (Inr (), s, r)))"

definition ideal_rel :: "ideal_rcot_sender \<Rightarrow> 'g ideal_rcot_receiver \<Rightarrow> bool" where
  "ideal_rel s r \<longleftrightarrow> rcot_rel s r \<and> is_queue s = []"

lemma ideal_try:
  assumes "ideal_rel s r" "n \<le> is_available s"
  shows "\<exists>id ks cs ms s' r'. is_try_send s n = Inr ((id, ks), s') \<and> ir_try_recv r n = Inr ((id, cs, ms), r') \<and>
    length ks = n \<and> correlated (is_delta s) ks cs ms \<and> ideal_rel s' r' \<and> is_delta s' = is_delta s \<and> is_available s' = is_available s - n"
proof -
  have "is_try_send s n = Inr (x, s') \<Longrightarrow> is_queue s' = is_queue s" for x s'
    using assms(2) by (auto simp: is_try_send_def is_available_def is_pop_ok)
  then show ?thesis using rcot_try [of s r n] assms unfolding ideal_rel_def by metis
qed

lemma is_flush_unqueued:
  "is_queue s = [] \<Longrightarrow> \<exists>msg s2. is_flush s = (Inr (msg, [], s2) :: ('e, _) result) \<and> is_queue s2 = [] \<and>
    length (is_keys s2) = length (is_keys s) + is_pending s"
  by (cases "is_pending s = 0") (simp_all add: is_flush_def Let_def generate_keys_def)

lemma ideal_refresh:
  assumes "ideal_rel s r"
  shows "\<exists>s2 r2. ideal_flush rng (is_alloc s n, ir_alloc r n) = (Inr (), s2, r2) \<and> ideal_rel s2 r2 \<and> is_delta s2 = is_delta s \<and>
    is_available s + n \<le> is_available s2"
proof -
  let ?s = "is_alloc s n" and ?r = "ir_alloc r n"
  have rel: "rcot_rel ?s ?r" "is_queue ?s = []" using assms unfolding ideal_rel_def rcot_rel_def is_alloc_def ir_alloc_def by auto
  have d: "is_delta ?s = is_delta s" by (simp add: is_alloc_def)
  obtain msg s2 where F: "is_flush ?s = (Inr (msg, [], s2) :: (ideal_rcot_error, _) result)" "is_queue s2 = []" "is_available s + n \<le> is_available s2"
    using is_flush_unqueued [OF rel(2), where ?'e = ideal_rcot_error] by (fastforce simp: is_alloc_def is_available_def)
  show ?thesis
    using flush_rel [OF rel(1) F(1), of rng] F rel
    by (cases msg) (auto simp: ideal_flush_def ideal_rel_def d)
qed

interpretation ideal_source: rcot_source ideal_rel is_delta is_available ir_available is_try_send ir_try_recv
  "\<lambda>s n. Inr (is_alloc s n)" "\<lambda>r n. Inr (ir_alloc r n)" "ideal_flush rng" for rng
proof
  show "ideal_rel s r \<Longrightarrow> is_available s = ir_available r" for s and r :: "'a ideal_rcot_receiver"
    by (simp add: ideal_rel_def ideal_rcot.avail)
  show "\<exists>id ks cs ms s' r'. is_try_send s n = Inr ((id, ks), s') \<and> ir_try_recv r n = Inr ((id, cs, ms), r') \<and> length ks = n \<and>
      correlated (is_delta s) ks cs ms \<and> ideal_rel s' r' \<and> is_delta s' = is_delta s \<and> is_available s' = is_available s - n"
    if "ideal_rel s r" "n \<le> is_available s" for s and r :: "'a ideal_rcot_receiver" and n using that by (rule ideal_try)
qed (use ideal_refresh in blast)


section \<open>The protocol over the ideal source\<close>

text \<open>The default configuration satisfies what the proofs ask of one, in both modes.\<close>

lemma default_params_ok:
  assumes "74164 \<le> a" "fc_param_selector default_config a m = Some p"
  shows "p \<in> set LPN_PARAMS \<and> cost_of p \<le> a"
proof -
  have c: "cost_of (hd LPN_PARAMS) = 74164" using regular_costs by (simp add: LPN_PARAMS_def)
  then obtain q where "q \<in> set LPN_PARAMS" "default_parameter_selector a m = (Inr q :: (unit, _) result)" "cost_of q \<le> a"
    using default_selector_step [of a m, where ?'e = unit] assms(1) by auto
  then show ?thesis using assms(2) by (simp add: default_config_def)
qed

lemma regular_refills: "p \<in> set LPN_PARAMS \<Longrightarrow> cost_of p + refill_len emp p < lp_n p"
  using regular_costs
  by (cases emp) (auto simp: LPN_PARAMS_def refill_len_def refill_of_def log2_interval_def ilog2_regular div_ceil_def)

lemma default_config_live: "config_live emp default_config 74164"
proof -
  have c: "cost_of (hd LPN_PARAMS) = 74164" using regular_costs by (simp add: LPN_PARAMS_def)
  have s: "\<exists>p. fc_param_selector default_config a m = Some p" if "74164 \<le> a" for a m
    using default_selector_step [of a m, where ?'e = unit] that c by (auto simp: default_config_def)
  have "default_parameter_selector 0 0 = (Inr (hd LPN_PARAMS) :: (unit, _) result)"
    using c regular_params_ok [of "hd LPN_PARAMS"] by (simp add: default_parameter_selector_def LPN_PARAMS_def iteration_cost_ok)
  then have z: "fc_param_selector default_config 0 0 = Some (hd LPN_PARAMS)" by (simp add: default_config_def)
  have "config_ok emp default_config 74164"
    unfolding config_ok_def
  proof (intro conjI allI impI)
    show "if emp then \<exists>p. fc_param_selector default_config 0 0 = Some p \<and> params_ok p \<and> 74164 = cost_of p else 74164 = cost_of (hd LPN_PARAMS)"
      using z c regular_params_ok [of "hd LPN_PARAMS"] by (simp add: LPN_PARAMS_def)
  next
    fix a m :: nat assume "74164 \<le> a"
    then obtain p where p: "fc_param_selector default_config a m = Some p" "p \<in> set LPN_PARAMS" "cost_of p \<le> a"
      using s default_params_ok by blast
    then show "\<exists>p. fc_param_selector default_config a m = Some p \<and> params_ok p \<and> cost_of p \<le> a \<and> refill_of emp p * 2 ^ log2_interval p \<le> lp_n p"
      using regular_params_ok regular_refills [of p emp] by (auto simp: refill_len_def)
  qed
  then show ?thesis using default_params_ok regular_refills by (auto simp: config_live_def)
qed

text \<open>Two new parties on new ideal ends.\<close>

lemma new_pair:
  assumes "fe_emp E \<Longrightarrow> bit d 0"
  shows "ferret_pair E ideal_rel is_delta 74164 (fs_rcot_alloc (fs_new is_delta g default_config (is_new sd d)) n)
    (fr_rcot_alloc (fr_new g' default_config (ir_from_seed g'')) n)"
  using assms default_config_live [of "fe_emp E"]
  by (simp add: ferret_pair_def idle_pair_def same_requests_def fs_rcot_alloc_def fs_new_def fr_rcot_alloc_def fr_new_def Let_def
      is_new_def ideal_rel_def rcot_rel_def ir_from_seed_def correlated_def)

text \<open>
  C11. Both drivers return, whatever has been allocated and queued: a flush of two idle parties takes at
  most as many rounds as correlations are missing, no handler of either party fails, and afterwards
  neither wants to extend.  If they wanted to, the queue is served: at both ends each output goes to
  the channel of its request, in order, of the size requested, with equal ids and correlated keys and
  MACs, and nothing stays queued if no more was queued than allocated.
\<close>

theorem ferret_flush_completes:
  assumes "ferret_pair E ideal_rel is_delta bc s r" "env_ok E" "fs_alloc s \<le> n"
  shows "\<exists>outs outs' s' r'. ferret_flush E (\<lambda>s n. Inr (is_alloc s n)) (\<lambda>r n. Inr (ir_alloc r n)) (ideal_flush rng) is_try_send ir_try_recv nonce n (s, r) =
      (Inr (Some (outs, outs')) :: ((ideal_rcot_error ferret_error, ideal_rcot_error ferret_error, ideal_rcot_error) party_error, _) result, s', r') \<and>
    ferret_pair E ideal_rel is_delta bc s' r' \<and> answers (s, r) (outs, outs') (s', r') \<and>
    (if length (fs_keys s) - reserve_of (fs_config s) bc < fs_alloc s
     then fs_alloc s' = 0 \<and> serves (fs_queue s) outs (fs_queue s') \<and> (sum_list (map fst (fs_queue s)) \<le> fs_alloc s \<longrightarrow> fs_queue s' = [])
     else fs_alloc s' = fs_alloc s \<and> outs = [] \<and> fs_queue s' = fs_queue s)"
  using ideal_source.flush_pair [OF assms] unfolding settled_def .

theorem ferret_flush_completes_witness:
  "\<exists>(E :: (nat, nat, block list, block) ferret_env) s r. fs_alloc s = 1000000 \<and>
    (\<exists>outs outs' s' r'. ferret_flush E (\<lambda>s n. Inr (is_alloc s n)) (\<lambda>r n. Inr (ir_alloc r n)) (ideal_flush (\<lambda>g :: nat. (odd g, g + 1))) is_try_send ir_try_recv
        (\<lambda>i. i) 1000000 (s, r) =
      (Inr (Some (outs, outs')) :: ((ideal_rcot_error ferret_error, ideal_rcot_error ferret_error, ideal_rcot_error) party_error, _) result, s', r') \<and>
     ferret_pair E ideal_rel is_delta 74164 s' r' \<and> fs_alloc s' = (0 :: nat))"
proof -
  let ?E = "\<lparr>fe_emp = False, fe_rayon = False, fe_aes = id, fe_enc = (\<lambda>k x. k + x), fe_rng = (\<lambda>g. (of_nat g, g + 1)), fe_seed = (\<lambda>g. (of_nat g, g + 1)),
    fe_pick = (\<lambda>a b g. (a, g)), fe_hash = id, fe_commit = dc_data, fe_sha256 = id\<rparr> :: (nat, nat, block list, block) ferret_env"
  let ?s = "fs_rcot_alloc (fs_new is_delta 0 default_config (is_new 1 3)) 1000000 :: (_, nat, block list) ferret_sender"
  let ?r = "fr_rcot_alloc (fr_new 7 default_config (ir_from_seed 0)) 1000000 :: (nat ideal_rcot_receiver, nat, nat) ferret_receiver"
  define E s r where d: "E = ?E" "s = ?s" "r = ?r"
  have P: "ferret_pair E ideal_rel is_delta 74164 s r" unfolding d by (rule new_pair) simp
  have E: "env_ok E" by (simp add: d env_ok_def)
  have s: "fs_alloc s = 1000000" "length (fs_keys s) - reserve_of (fs_config s) 74164 < fs_alloc s"
    by (simp_all add: d fs_rcot_alloc_def fs_new_def Let_def)
  show ?thesis
    using s(1) ferret_flush_completes [OF P E eq_refl [OF s(1)], of "\<lambda>g. (odd g, g + 1)" "\<lambda>i. i", unfolded if_P [OF s(2)]] by blast
qed

end
