(* ===== verification/Ferret_Rcot.thy ===== *)
theory Ferret_Rcot
  imports Ferret_Drivers
begin

text \<open>
  Two Ferret parties between rounds implement the interface of random correlated OT their own bootstrap
  relies on, so everything proved of its clients holds over them; and what \<open>try_send_rcot\<close> hands out
  when a round has failed.
\<close>

section \<open>The interface\<close>

definition ferret_rel :: "('g, 'n, 'h, 'b) ferret_env \<Rightarrow> nat \<Rightarrow> ('c, 'g, 'h) ferret_sender \<Rightarrow> ('d, 'g, 'n) ferret_receiver \<Rightarrow> bool" where
  "ferret_rel E bc s r \<longleftrightarrow> buffered s r \<and> fs_id s = fr_id r \<and> config_ok (fe_emp E) (fs_config s) bc"

definition fs_avail :: "('g, 'n, 'h, 'b) ferret_env \<Rightarrow> ('c, 'g, 'h) ferret_sender \<Rightarrow> nat" where
  "fs_avail E s = (case (fs_available E s :: (unit, nat) result) of Inl _ \<Rightarrow> 0 | Inr n \<Rightarrow> n)"

definition fr_avail :: "('g, 'n, 'h, 'b) ferret_env \<Rightarrow> ('c, 'g, 'n) ferret_receiver \<Rightarrow> nat" where
  "fr_avail E r = (case (fr_available E r :: (unit, nat) result) of Inl _ \<Rightarrow> 0 | Inr n \<Rightarrow> n)"

lemma ferret_relD:
  assumes "ferret_rel E bc s r"
  shows "fs_available E s = Inr (length (fs_keys s) - reserve_of (fs_config s) bc)"
    "fr_available E r = Inr (length (fs_keys s) - reserve_of (fs_config s) bc)"
    "fs_avail E s = length (fs_keys s) - reserve_of (fs_config s) bc" "fr_avail E r = length (fs_keys s) - reserve_of (fs_config s) bc"
proof -
  have f: "fs_pending s = 0" "fr_pending r = 0" "config_ok (fe_emp E) (fs_config s) bc" "config_ok (fe_emp E) (fr_config r) bc" "fr_config r = fs_config s"
    "length (fr_macs r) = length (fs_keys s)"
    using assms by (auto simp: ferret_rel_def buffered_def)
  note a = fs_available_ok [OF f(1,3)] fr_available_ok [OF f(2,4)]
  show "fs_available E s = Inr (length (fs_keys s) - reserve_of (fs_config s) bc)"
    "fr_available E r = Inr (length (fs_keys s) - reserve_of (fs_config s) bc)"
    "fs_avail E s = length (fs_keys s) - reserve_of (fs_config s) bc" "fr_avail E r = length (fs_keys s) - reserve_of (fs_config s) bc"
    using f(5,6) by (simp_all add: a fs_avail_def fr_avail_def reserve_of_def)
qed

lemma ferret_try:
  assumes rel: "ferret_rel E bc s r" and n: "n \<le> fs_avail E s"
  shows "\<exists>id ks cs ms s' r'. fs_try_send E s n = (Inr ((id, ks), s') :: ('a ferret_error, _) result) \<and>
    fr_try_recv E r n = (Inr ((id, cs, ms), r') :: ('b ferret_error, _) result) \<and> length ks = n \<and> correlated (fs_delta s) ks cs ms \<and>
    ferret_rel E bc s' r' \<and> fs_delta s' = fs_delta s \<and> fs_avail E s' = fs_avail E s - n"
proof -
  note a = ferret_relD [OF rel]
  have b: "buffered s r" "fs_id s = fr_id r" "config_ok (fe_emp E) (fs_config s) bc" using rel by (simp_all add: ferret_rel_def)
  have l: "n \<le> length (fs_keys s)" "length (fr_choices r) = length (fs_keys s)" using n a(3) b(1) by (simp_all add: buffered_def)
  let ?m = "length (fs_keys s) - n"
  obtain ks cs ms where k: "split_off_blocks (fs_keys s) n = (Inr (ks, take ?m (fs_keys s)) :: ('a ferret_error, _) result)"
    "split_off (fr_choices r) ?m = (Inr (take ?m (fr_choices r), cs) :: ('b ferret_error, _) result)"
    "split_off_blocks (fr_macs r) n = (Inr (ms, take ?m (fr_macs r)) :: ('b ferret_error, _) result)" "length ks = n" "correlated (fs_delta s) ks cs ms"
    "buffered (s\<lparr>fs_keys := take ?m (fs_keys s)\<rparr>) (r\<lparr>fr_macs := take ?m (fr_macs r), fr_choices := take ?m (fr_choices r)\<rparr>)"
    using split_off_pair [OF b(1) l(1), where ?'a = "'a ferret_error" and ?'b = "'b ferret_error"] by blast
  obtain id nxt where id: "next_id (fs_id s) = (id, nxt)" by fastforce
  let ?s = "s\<lparr>fs_id := nxt, fs_keys := take ?m (fs_keys s)\<rparr>" and ?r = "r\<lparr>fr_id := nxt, fr_macs := take ?m (fr_macs r), fr_choices := take ?m (fr_choices r)\<rparr>"
  have "fs_try_send E s n = (Inr ((id, ks), ?s) :: ('a ferret_error, _) result)" "fr_try_recv E r n = (Inr ((id, cs, ms), ?r) :: ('b ferret_error, _) result)"
    using n k(1-3) id b(2) l by (simp_all add: fs_try_send_def fr_try_recv_def a)
  moreover have r2: "ferret_rel E bc ?s ?r" using k(6) b(3) by (simp add: ferret_rel_def buffered_def)
  moreover have "fs_avail E ?s = fs_avail E s - n" using n by (simp add: ferret_relD(3) [OF r2] a)
  ultimately show ?thesis using k(4,5) by auto
qed

interpretation ferret_rcot: rcot_pair "ferret_rel E bc" fs_delta "fs_avail E" "fr_avail E"
  "fs_try_send E :: ('c, 'g, 'h) ferret_sender \<Rightarrow> nat \<Rightarrow> ('a ferret_error, _) result"
  "fr_try_recv E :: ('d, 'g, 'n) ferret_receiver \<Rightarrow> nat \<Rightarrow> ('b ferret_error, _) result"
  for E :: "('g, 'n, 'h, 'x) ferret_env" and bc
proof
  show "ferret_rel E bc s r \<Longrightarrow> fs_avail E s = fr_avail E r" for s :: "('c, 'g, 'h) ferret_sender" and r :: "('d, 'g, 'n) ferret_receiver"
    by (simp add: ferret_relD)
qed (rule ferret_try)

lemma ferret_pair_rel: "ferret_pair E rel delta_of bc s r \<Longrightarrow> ferret_rel E bc s r"
  by (auto simp: ferret_pair_def idle_pair_def same_requests_def config_live_def ferret_rel_def buffered_def)

text \<open>
  C21. Composition: derandomised correlated OT over Ferret.  The parties hold Ferret ends between rounds,
  with enough correlations available for what is queued; then one exchange of the derandomisation gives
  the receiver, for each queued request, the key or the key offset by Ferret's \<open>\<Delta>\<close> as its choice says,
  at the channels and under the ids of both ends, and leaves related Ferret ends.
\<close>

theorem derand_over_ferret:
  assumes "derand_ready (ferret_rel E bc) (fs_avail E) S R"
  shows "\<exists>flip ra R1 adj so S' ro R'.
    dr_adjust (fr_avail E) (fr_try_recv E :: _ \<Rightarrow> _ \<Rightarrow> ('b ferret_error, _) result) R = Inr (flip, ra, R1) \<and>
    ds_send_adjust fs_delta (fs_try_send E :: _ \<Rightarrow> _ \<Rightarrow> ('a ferret_error, _) result) S flip = Inr (adj, so, S') \<and>
    (ra_receive ra R1 adj :: ('b ferret_error derand_error, _) result) = Inr (ro, R') \<and>
    map (\<lambda>(ch, tid, ms). ms) ro = map2 (map2 (\<lambda>k c. key_auth k c (fs_delta (ds_rcot S))))
      (split_by (map fst (ds_queue S)) (ds_adjust S)) (split_by (map fst (ds_queue S)) (dr_derandomize R)) \<and>
    map (\<lambda>(ch, tid, ms). tid) ro = map snd so \<and> map fst ro = map snd (dr_queue R) \<and> map fst so = map snd (ds_queue S) \<and>
    ferret_rel E bc (ds_rcot S') (dr_rcot R')"
  using ferret_rcot.derandomize_ok [OF assms] by blast

definition ferret_example ::
  "(unit, unit, unit, unit) ferret_env \<times> (unit, unit, unit) ferret_sender derand_sender \<times> (unit, unit, unit) ferret_receiver derand_receiver" where
  "ferret_example =
     (let c = default_config\<lparr>fc_reserve_bootstrap := False\<rparr>;
          s = (fs_new (\<lambda>_. 9) () c ())\<lparr>fs_keys := map Gf2_128 [4, 5, 6]\<rparr>;
          r = (fr_new () c ())\<lparr>fr_choices := [True, False, True], fr_macs := map Gf2_128 [13, 5, 15]\<rparr>
      in (\<lparr>fe_emp = False, fe_rayon = False, fe_aes = id, fe_enc = (\<lambda>_. id), fe_rng = (\<lambda>_. (0, ())), fe_seed = (\<lambda>_. (0, ())),
            fe_pick = (\<lambda>a _ _. (a, ())), fe_hash = (\<lambda>_. ()), fe_commit = (\<lambda>_. ()), fe_sha256 = id\<rparr>,
          snd (ds_queue_send (ds_new s) [2, 3]), snd (dr_queue_recv (dr_new r) [False, True])))"

lemma config_ok_reserve: "config_ok emp (c\<lparr>fc_reserve_bootstrap := b\<rparr>) bc \<longleftrightarrow> config_ok emp c bc"
  by (simp add: config_ok_def)

lemma ferret_example_ready:
  "derand_ready (ferret_rel (fst ferret_example) 74164) (fs_avail (fst ferret_example)) (fst (snd ferret_example)) (snd (snd ferret_example))"
proof -
  have "config_ok False (default_config\<lparr>fc_reserve_bootstrap := False\<rparr>) 74164"
    using default_config_live by (simp add: config_ok_reserve config_live_def)
  then show ?thesis
    by (simp add: derand_ready_def ferret_example_def ds_queue_send_def dr_queue_recv_def ds_new_def dr_new_def fs_new_def fr_new_def
        ferret_rel_def buffered_def cot_macs_def gf128_defs fs_avail_def fs_available_def config_reserve_def Let_def)
qed

theorem derand_over_ferret_witness:
  "\<exists>flip ra R1 adj so S' ro R'.
    dr_adjust (fr_avail (fst ferret_example)) (fr_try_recv (fst ferret_example) :: _ \<Rightarrow> _ \<Rightarrow> (unit ferret_error, _) result) (snd (snd ferret_example)) = Inr (flip, ra, R1) \<and>
    ds_send_adjust fs_delta (fs_try_send (fst ferret_example) :: _ \<Rightarrow> _ \<Rightarrow> (unit ferret_error, _) result) (fst (snd ferret_example)) flip = Inr (adj, so, S') \<and>
    (ra_receive ra R1 adj :: (unit ferret_error derand_error, _) result) = Inr (ro, R') \<and>
    map (\<lambda>(ch, tid, ms). ms) ro = [[2, 3 XOR 9]]"
proof -
  have m: "map2 (map2 (\<lambda>k c. key_auth k c (fs_delta (ds_rcot (fst (snd ferret_example))))))
      (split_by (map fst (ds_queue (fst (snd ferret_example)))) (ds_adjust (fst (snd ferret_example))))
      (split_by (map fst (ds_queue (fst (snd ferret_example)))) (dr_derandomize (snd (snd ferret_example)))) = [[2, 3 XOR 9]]"
    by (simp add: ferret_example_def ds_queue_send_def dr_queue_recv_def ds_new_def dr_new_def fs_new_def key_auth_def BLOCK_ZERO_def Let_def)
  show ?thesis
    using derand_over_ferret [OF ferret_example_ready, where ?'a = unit and ?'b = unit] unfolding m by (elim exE conjE) (intro exI conjI)
qed

section \<open>After a failed round\<close>

text \<open>
  C39. The sender hands out unverified correlations.  When the coin-toss decommitment of a round is refused,
  the round has failed for good, but the vector of the single-point COTs, neither checked nor encoded,
  stays at the end of the key buffer; while \<open>available\<close> only promises the older keys before it, the next
  \<open>try_send_rcot\<close> succeeds and returns keys from the end of that vector.
\<close>

theorem failed_round_served:
  assumes "fs_state s = SCheck params cks lks toss" "receiver_finalize (fe_commit E) toss dc = Inl (Err e)"
    and "fs_keys s = old @ vs" "fs_pending s = length vs" "config_reserve (fe_emp E) (fs_config s) = (Inr rv :: ('ce ferret_error, nat) result)"
    and "n + rv \<le> length old" "n \<le> length vs"
  shows "\<exists>s'. fs_check E (flip, chi_seed, dc) s = (Inl (Err (Toss e)) :: ('ce ferret_error, _) result, s') \<and> fs_state s' = SError \<and>
    fs_available E s' = (Inr (length old - rv) :: ('ce ferret_error, _) result) \<and>
    (\<exists>id s''. fs_try_send E s' n = (Inr ((id, map gf128_inner (drop (length vs - n) vs)), s'') :: ('ce ferret_error, _) result) \<and>
      fs_keys s'' = old @ take (length vs - n) vs)"
proof -
  let ?s = "s\<lparr>fs_state := SError\<rparr>"
  have "fs_check E (flip, chi_seed, dc) s = (Inl (Err (Toss e)) :: ('ce ferret_error, _) result, ?s)"
    using assms(1,2) by (simp add: fs_check_def fs_take_def)
  moreover have av: "fs_available E ?s = (Inr (length old - rv) :: ('ce ferret_error, _) result)"
    using assms(3-5) by (simp add: fs_available_def)
  moreover have sp: "split_off_blocks (fs_keys ?s) n = (Inr (map gf128_inner (drop (length vs - n) vs), old @ take (length vs - n) vs) :: ('ce ferret_error, _) result)"
    using assms(3,7) by (simp add: split_off_blocks_def)
  have "\<exists>id s''. fs_try_send E ?s n = (Inr ((id, map gf128_inner (drop (length vs - n) vs)), s'') :: ('ce ferret_error, _) result) \<and>
      fs_keys s'' = old @ take (length vs - n) vs"
    using assms(6) by (simp only: fs_try_send_def av sp bindR_simps) (simp add: next_id_def)
  ultimately show ?thesis by (intro exI [of _ ?s]) simp
qed

theorem failed_round_served_witness:
  "\<exists>s' id s''. fs_check (fst ferret_example) ([], 0, \<lparr>dc_nonce = (), dc_data = []\<rparr>)
      ((ds_rcot (fst (snd ferret_example)))\<lparr>fs_keys := [Gf2_128 1, Gf2_128 2] @ [Gf2_128 7, Gf2_128 8], fs_pending := 2,
         fs_state := SCheck \<lparr>lp_n = 2, lp_k = 16, lp_t = 1\<rparr> [] [] \<lparr>rr_seeds = [3], rr_commitment = ()\<rparr>\<rparr>) =
      (Inl (Err (Toss (CountMismatch 0 1))) :: (unit ferret_error, _) result, s') \<and>
    fs_try_send (fst ferret_example) s' 1 = (Inr ((id, [8]), s'') :: (unit ferret_error, _) result)"
proof -
  let ?E = "fst ferret_example"
  let ?s = "(ds_rcot (fst (snd ferret_example)))\<lparr>fs_keys := [Gf2_128 1, Gf2_128 2] @ [Gf2_128 7, Gf2_128 8], fs_pending := 2,
         fs_state := SCheck \<lparr>lp_n = 2, lp_k = 16, lp_t = 1\<rparr> [] [] \<lparr>rr_seeds = [3], rr_commitment = ()\<rparr>\<rparr>"
  have r: "config_reserve (fe_emp ?E) (fs_config ?s) = (Inr 0 :: (unit ferret_error, nat) result)"
    by (simp add: config_reserve_def ferret_example_def ds_queue_send_def ds_new_def fs_new_def Let_def)
  show ?thesis
    using failed_round_served [of ?s "\<lparr>lp_n = 2, lp_k = 16, lp_t = 1\<rparr>" "[]" "[]" "\<lparr>rr_seeds = [3], rr_commitment = ()\<rparr>" ?E "\<lparr>dc_nonce = (), dc_data = []\<rparr>"
        "CountMismatch 0 1" "[Gf2_128 1, Gf2_128 2]" "[Gf2_128 7, Gf2_128 8]" 0 1 "[]" 0, OF _ _ _ _ r]
    by (simp add: receiver_finalize_def) blast
qed

end
