(* ===== verification/Spec2Isabelle.thy ===== *)
theory Spec2Isabelle
  imports Blake3 Garble_Correct GFlush Futures Share_Conversion Cointoss Zk ZMemory Ferret_Rcot
begin

text \<open>
  A verification library for \<open>mpz\<close>, a collection of Rust crates for secure multi-party computation:
  Boolean circuits, garbled circuits, zero-knowledge proofs over correlated MACs, oblivious transfer,
  coin toss and the memory the parties keep.  Paths below are relative to \<open>src/crates\<close>.

  \<^bold>\<open>The parts and how they interact.\<close>  A circuit is made with the builder and evaluated in the clear,
  garbled, or proved about.  Its wires carry correlated MACs: one party holds a key \<open>k\<close> and a global
  difference \<open>\<Delta>\<close>, the other the MAC \<open>k + x \<Delta>\<close> of the bit \<open>x\<close>.  Keys and MACs live in stores addressed by
  slices.  The memories of garbler and evaluator are built from these stores and a view, which plans
  what the next exchange of messages (a flush) carries; MACs of private inputs come from correlated
  oblivious transfer, which is derandomised from preprocessed random correlated OT.  The
  zero-knowledge parties run the same circuits on MACs and check all multiplications at the end with
  arithmetic in GF(2^128).  Coin toss and commitments supply shared randomness.

  \<^bold>\<open>Conventions.\<close>  A Rust function that can fail is a function to \<open>result\<close>: \<open>Inr\<close> the value,
  \<open>Inl (Err e)\<close> a returned error, \<open>Inl Panic\<close> a panic (out-of-range index, failed assertion or
  arithmetic underflow).  A method with a mutable receiver returns the updated record; where a call
  fails, the state it leaves is only part of the result if the program can observe it.  Unsigned
  machine integers that index memory are natural numbers; words that are computed with (blocks, field elements,
  transfer ids) are \<open>word\<close>s of their width and wrap.  A range set is the set of its elements, and where
  the code iterates over one the list of ranges is given by a function \<open>iter\<close>.  An output channel is a number; what is
  sent on it is recorded in the state or the result.  Third-party code is a parameter: the AES
  permutation (\<open>aes\<close>), BLAKE3 (\<open>hash\<close>), random generators, the transcript of the consistency check
  (\<open>transcript_ops\<close>), for Ferret the record \<open>ferret_env\<close> of them, and the COT functionality a store is generic over.

  \<^bold>\<open>Theories.\<close>
  \<^item> \<open>Prelude\<close>: results, checked indexing and slicing, bit lists, laws of exclusive or.
  \<^item> \<open>Circuit\<close> (\<open>circuits-core/src/components.rs\<close>, \<open>circuit.rs\<close>), \<open>Builder\<close> and \<open>Build_Correct\<close>
    (\<open>builder.rs\<close>), \<open>Ops\<close> (\<open>ops.rs\<close>), \<open>Circuits\<close> and \<open>Blake3\<close> (\<open>circuits.rs\<close>, \<open>circuits/blake3.rs\<close>):
    the evaluator refines a semantics on environments, the builder's folding and renumbering keep
    the function a builder denotes, the arithmetic operations compute modular arithmetic, and the
    BLAKE3 circuit computes the word-level compression function.
  \<^item> \<open>Block\<close> and \<open>Aes\<close> (\<open>core/src/block.rs\<close>, \<open>aes.rs\<close>): byte arrays refine to words; batched hashing
    agrees with hashing one block.
  \<^item> \<open>Gf2n\<close>: polynomials over GF(2) modulo \<open>x^n + R\<close> on words, and the locales \<open>reduction\<close> (a fold that
    reduces an unreduced product) and \<open>binary_field\<close> (inversion by squarings when \<open>x^(2^n) = x\<close>).
  \<^item> \<open>Clmul\<close> and \<open>Gf128\<close> (\<open>clmul/src/backend.rs\<close>, \<open>backend/soft64.rs\<close>, \<open>core/src/block.rs\<close>): the
    integer-multiplication trick is exact carry-less multiplication, and with the reduction it is
    multiplication modulo the GCM polynomial, a commutative ring.
  \<^item> \<open>Bin_Fields\<close>, \<open>Bin_Cert\<close> and \<open>Field_Types\<close> (\<open>fields/src\<close>: \<open>bmul.rs\<close>, \<open>spread.rs\<close>, \<open>gf2_64/soft.rs\<close>,
    \<open>gf2_128/soft.rs\<close>, \<open>lib.rs\<close>, \<open>gf2.rs\<close>, \<open>gf2_64.rs\<close>, \<open>gf2_128.rs\<close>): the portable backends multiply, square and
    invert in the fields (the irreducibility of the two polynomials is checked by evaluating chains
    of squarings), and the types are instances of the class \<open>field\<close> and of the locale \<open>field_impl\<close>,
    the contract of the trait.
  \<^item> \<open>Store\<close> and \<open>Visibility\<close> (\<open>memory-core/src/store.rs\<close>, \<open>lib.rs\<close>, \<open>view.rs\<close>): both stores implement
    the locale \<open>write_store\<close>, a partial map that grows; the visibility sets stay a partition.
  \<^item> \<open>Correlated\<close> and \<open>MacStores\<close> (\<open>memory-core/src/correlated.rs\<close>, \<open>correlated/keys.rs\<close>,
    \<open>correlated/macs.rs\<close>): the MAC relation is set up and kept by the paired operations, proofs verify
    and bind, and a key is handed out at most once.
  \<^item> \<open>Garble\<close> and \<open>Garble_Correct\<close> (\<open>garble-core/src/circuit.rs\<close>, \<open>garbler.rs\<close>, \<open>evaluator.rs\<close>): the
    locale \<open>half_gates\<close> states what the two AND-gate routines promise each other; with it garbling
    and evaluation, single, batched and in bulk, authenticate the plaintext outputs.
  \<^item> \<open>GView\<close>, \<open>GStore\<close>, \<open>GStore_Correct\<close>, \<open>GFlush\<close> (\<open>garble-core/src/view.rs\<close>, \<open>store.rs\<close>,
    \<open>store/garbler.rs\<close>, \<open>store/evaluator.rs\<close>): dual calls keep the two views in agreement, and a
    complete round of the flush protocol succeeds and keeps both memories consistent.
  \<^item> \<open>Ideal_Cot\<close> and \<open>Derand_Cot\<close> (\<open>ot-core/src/ideal/rcot.rs\<close>, \<open>ideal/cot.rs\<close>,
    \<open>cot/derandomize.rs\<close>, \<open>rot/randomize.rs\<close>): the ideal functionality implements the locale
    \<open>rcot_pair\<close> and keeps the correlation in every run whose ends have made the same calls at each flush; over any implementation of it, derandomised transfers deliver the MACs of the chosen
    bits and randomised ones deliver one of two random messages.
  \<^item> \<open>Cggm\<close> and \<open>Lpn\<close> (\<open>core/src/cggm.rs\<close>, \<open>core/src/lpn.rs\<close>): the punctured expansion recomputes the tree but
    for one leaf; the batched LPN encoders are a matrix product and keep correlations.
  \<^item> \<open>Spcot\<close> and \<open>Spcot_Correct\<close> (\<open>ot-core/src/ferret/spcot.rs\<close>, \<open>spcot/sender.rs\<close>, \<open>spcot/receiver.rs\<close>):
    extensions keep the parties' vectors equal but for \<open>\<Delta>\<close> at the chosen positions, and the check
    compares two weighted sums of them.
  \<^item> \<open>Ferret_Config\<close> and \<open>Ferret_Plan\<close> (\<open>ot-core/src/ferret/config.rs\<close>, \<open>config/regular.rs\<close>,
    \<open>mpcot.rs\<close>): the table of parameters, their selection, and where a round takes its base correlations.
  \<^item> \<open>Ferret\<close>, \<open>Ferret_Correct\<close>, \<open>Ferret_Round\<close>, \<open>Ferret_Extend\<close>, \<open>Ferret_Finish\<close>
    (\<open>ot-core/src/ferret/sender.rs\<close>, \<open>receiver.rs\<close>, \<open>emp/mod.rs\<close>): the two state machines, and handler by
    handler the relation \<open>ferret_pair\<close> between the parties that a round keeps.
  \<^item> \<open>Ferret_Drivers\<close> and \<open>Ferret_Rcot\<close> (\<open>ot/src/ferret/sender.rs\<close>, \<open>receiver.rs\<close>): over any source
    of correlations that implements the locale \<open>rcot_source\<close>, as the ideal functionality does, the drivers
    return and serve the queues; between rounds the parties implement \<open>rcot_pair\<close> themselves, so
    derandomised OT runs over them.
  \<^item> \<open>Ideal_Rot\<close> (\<open>ot-core/src/ideal/rot.rs\<close>, \<open>rot/any.rs\<close>, \<open>rot/randomize.rs\<close>): the ideal random OT, its
    mapping to other types and the randomised correlated OT all implement the locale \<open>rot_pair\<close>.
  \<^item> \<open>Ole\<close> (\<open>ole-core/src\<close>) and \<open>Share_Conversion\<close> (\<open>share-conversion-core/src\<close>): over any implementation of
    \<open>rot_pair\<close> the OLE parties produce shares with \<open>a b = x + y\<close> and implement the locale \<open>role_pair\<close>; over any
    implementation of that, sums are converted to products and back, as the ideal functionality does.
  \<^item> \<open>Cointoss\<close> (\<open>core/src/commit.rs\<close>, \<open>cointoss-core\<close>, \<open>cointoss/src/lib.rs\<close>): the two asynchronous
    tasks as an inductive step relation; every honest run ends with equal seeds, and against
    any sender the receiver is bound: two runs from one commitment get the same contribution, or the
    two decommitments sent collide.
  \<^item> \<open>Zk_Check\<close> and \<open>Zk\<close> (\<open>zk-core/src/check.rs\<close>, \<open>vole.rs\<close>, \<open>prover.rs\<close>, \<open>verifier.rs\<close>): executing a circuit
    keeps the MAC relation and computes the circuit, and the consistency check then accepts.
  \<^item> \<open>ZView\<close>, \<open>ZStore\<close>, \<open>ZStore_Correct\<close>, \<open>ZFlush\<close>, \<open>ZOps\<close>, \<open>ZMemory\<close> (\<open>zk-core/src/view.rs\<close>, \<open>store.rs\<close>,
    \<open>store/prover.rs\<close>, \<open>store/verifier.rs\<close>, the flush of \<open>zk/src\<close>): the memories of the zero-knowledge parties;
    over all sequences of operations and flushes their MACs authenticate the prover's data, a flush takes at
    most two rounds, and an accepted message decodes only what is authenticated.
  \<^item> \<open>Futures\<close> (\<open>common/src/future.rs\<close>): output channels and mapped outputs.

  \<^bold>\<open>Bounds.\<close>  Every loop of the modelled code runs over a list or down a bound and is total here, except
  the rounds of the Ferret drivers, whose number depends on the parameters chosen: \<open>ferret_loop\<close> takes
  fuel and returns \<open>None\<close> when it runs out, and \<open>ferret_flush_completes\<close> shows that as many rounds
  as correlations are allocated are enough.  The
  flush of the zero-knowledge parties takes fuel too, of which two units are enough.  The LPN matrix has ten entries in a row, as in the code.

  \<^bold>\<open>Not modelled.\<close>  The asynchronous drivers other than those of the coin toss and Ferret (their I/O runtime is outside the
  repository's logic); SIMD backends and AES (processor intrinsics and the \<open>aes\<close> crate);
  sampling and serialisation traits; the Bristol parser (regular expressions of a crate); the
  estimators (floating point) and benchmarks; the type-level wrappers of slices.
  The KOS and Chou-Orlandi protocols of \<open>ot-core\<close>, the execution loops of \<open>zk\<close> and the SIMD routine of
  \<open>matrix-transpose\<close> are left out.\<close>

end
